(* ===== verification/Prelude.thy ===== *)
theory Prelude
  imports Main "HOL-Library.Word"
begin

text \<open>
  Shared vocabulary of the development: bytes and byte strings, the ways a C function can go
  wrong (\<open>fault\<close>), results that are either an error or a value, heap blocks whose cells
  are bounds checked and may be uninitialised, and the generic lemmas on them that the component
  theories use through the simplifier.

  A \<open>fault\<close> is undefined behaviour of the C abstract machine (or, for
  \<open>OutOfFuel\<close>, a loop that outlived the fuel of its model). It is kept apart from the
  errors the code itself raises, which every component describes with a type of its own.
\<close>

unbundle bit_operations_syntax

type_synonym byte = "8 word"
type_synonym bytes = "byte list"

named_theorems block_simps \<comment> \<open>evaluation of block operations under their bounds\<close>
named_theorems fault_free \<comment> \<open>introduction rules: this operation does not fault\<close>

subsection \<open>Bytes of a literal\<close>

definition bs :: "string \<Rightarrow> bytes" where
  "bs s = map of_char s"

lemma bs_simps [simp]:
  "bs [] = []"
  "bs (c # cs) = of_char c # bs cs"
  by (simp_all add: bs_def)

lemma length_bs [simp]: "length (bs s) = length s"
  by (simp add: bs_def)

lemma bs_append [simp]: "bs (s @ t) = bs s @ bs t"
  by (simp add: bs_def)

subsection \<open>Ranges of the C integer types\<close>

abbreviation INT32_MAX :: int where "INT32_MAX \<equiv> 2147483647"
abbreviation INT32_MIN :: int where "INT32_MIN \<equiv> - 2147483648"
abbreviation INT64_MAX :: int where "INT64_MAX \<equiv> 9223372036854775807"
abbreviation UINT64_MAX :: int where "UINT64_MAX \<equiv> 18446744073709551615"

definition int32 :: "int \<Rightarrow> bool" where
  "int32 i \<longleftrightarrow> INT32_MIN \<le> i \<and> i \<le> INT32_MAX"

subsection \<open>Faults and results\<close>

datatype fault =
    OutOfBounds      \<comment> \<open>access outside the block\<close>
  | Uninitialised    \<comment> \<open>read of a cell nothing was written to\<close>
  | NullDeref
  | InvalidFree      \<comment> \<open>free of something malloc did not return\<close>
  | UseAfterFree
  | BadCast          \<comment> \<open>a value used at a type it does not have\<close>
  | IntOverflow      \<comment> \<open>signed overflow or an out of range conversion\<close>
  | OutOfMemory      \<comment> \<open>an allocation fails and the process ends\<close>
  | OutOfFuel        \<comment> \<open>the fuel of the model ran out: not a behaviour of the code\<close>

definition rbind :: "'e + 'a \<Rightarrow> ('a \<Rightarrow> 'e + 'b) \<Rightarrow> 'e + 'b" where
  "rbind m f = (case m of Inl e \<Rightarrow> Inl e | Inr x \<Rightarrow> f x)"

lemma rbind_simps [simp]:
  "rbind (Inl e) f = Inl e"
  "rbind (Inr x) f = f x"
  by (simp_all add: rbind_def)

lemma rbind_cong [fundef_cong]:
  "m = m' \<Longrightarrow> (\<And>x. m' = Inr x \<Longrightarrow> f x = g x) \<Longrightarrow> rbind m f = rbind m' g"
  by (auto simp: rbind_def split: sum.splits)

lemma rbind_eq_Inr:
  "rbind m f = Inr y \<longleftrightarrow> (\<exists>x. m = Inr x \<and> f x = Inr y)"
  by (cases m) auto

lemma rbind_eq_Inl:
  "rbind m f = Inl e \<longleftrightarrow> m = Inl e \<or> (\<exists>x. m = Inr x \<and> f x = Inl e)"
  by (cases m) auto

lemma rbind_assoc: "rbind (rbind m f) g = rbind m (\<lambda>x. rbind (f x) g)"
  by (cases m) auto

lemma rbind_InrE:
  assumes "rbind m f = Inr y"
  obtains x where "m = Inr x" and "f x = Inr y"
  using assms by (cases m) auto

definition guard_or :: "bool \<Rightarrow> 'e \<Rightarrow> 'e + unit" where
  "guard_or b e = (if b then Inr () else Inl e)"

lemma guard_or_simps [simp]:
  "b \<Longrightarrow> guard_or b e = Inr ()"
  "\<not> b \<Longrightarrow> guard_or b e = Inl e"
  by (simp_all add: guard_or_def)

lemma guard_or_eq_Inr: "guard_or b e = Inr u \<longleftrightarrow> b"
  by (simp add: guard_or_def)

lemma sum_neq_Inl_conv: "(\<forall>e. x \<noteq> Inl e) \<longleftrightarrow> (\<exists>y. x = Inr y)"
  by (cases x) auto

subsection \<open>Heap blocks\<close>

text \<open>
  A block of memory is the list of its cells; a cell nothing was written to is
  \<open>None\<close>. Reads of such cells and accesses outside the block are faults.
\<close>

type_synonym 'a block = "'a option list"

definition malloc_block :: "nat \<Rightarrow> 'a block" where
  "malloc_block n = replicate n None"

definition realloc_block :: "'a block \<Rightarrow> nat \<Rightarrow> 'a block" where
  "realloc_block b n = take n b @ replicate (n - length b) None"

definition read_cell :: "'a block \<Rightarrow> nat \<Rightarrow> fault + 'a" where
  "read_cell b i =
     (if i < length b then (case b ! i of Some x \<Rightarrow> Inr x | None \<Rightarrow> Inl Uninitialised)
      else Inl OutOfBounds)"

definition write_cell :: "'a block \<Rightarrow> nat \<Rightarrow> 'a \<Rightarrow> fault + 'a block" where
  "write_cell b i x = (if i < length b then Inr (b[i := Some x]) else Inl OutOfBounds)"

text \<open>\<open>memcpy (b + i, xs, |xs|)\<close> from initialised memory outside \<open>b\<close>.\<close>

definition write_cells :: "'a block \<Rightarrow> nat \<Rightarrow> 'a list \<Rightarrow> fault + 'a block" where
  "write_cells b i xs =
     (if i + length xs \<le> length b
      then Inr (take i b @ map Some xs @ drop (i + length xs) b)
      else Inl OutOfBounds)"

text \<open>\<open>memmove (b + d, b + s, n)\<close> within one block: cells move as they are.\<close>

definition move_cells :: "'a block \<Rightarrow> nat \<Rightarrow> nat \<Rightarrow> nat \<Rightarrow> fault + 'a block" where
  "move_cells b d s n =
     (if d + n \<le> length b \<and> s + n \<le> length b
      then Inr (take d b @ take n (drop s b) @ drop (d + n) b)
      else Inl OutOfBounds)"

text \<open>The first \<open>n\<close> cells as values, if they are all there.\<close>

definition read_cells :: "'a block \<Rightarrow> nat \<Rightarrow> nat \<Rightarrow> fault + 'a list" where
  "read_cells b i n =
     (if i + n \<le> length b
      then (if None \<in> set (take n (drop i b)) then Inl Uninitialised
            else Inr (map the (take n (drop i b))))
      else Inl OutOfBounds)"

lemma length_malloc_block [simp]: "length (malloc_block n) = n"
  by (simp add: malloc_block_def)

lemma length_realloc_block [simp]: "length (realloc_block b n) = n"
  by (simp add: realloc_block_def)

lemma read_cell_simps [block_simps]:
  "i < length b \<Longrightarrow> b ! i = Some x \<Longrightarrow> read_cell b i = Inr x"
  "length b \<le> i \<Longrightarrow> read_cell b i = Inl OutOfBounds"
  by (simp_all add: read_cell_def)

lemma write_cell_simps [block_simps]:
  "i < length b \<Longrightarrow> write_cell b i x = Inr (b[i := Some x])"
  "length b \<le> i \<Longrightarrow> write_cell b i x = Inl OutOfBounds"
  by (simp_all add: write_cell_def)

lemma write_cells_length: "write_cells b i xs = Inr b' \<Longrightarrow> length b' = length b"
  by (auto simp: write_cells_def split: if_splits)

lemma move_cells_length: "move_cells b d s n = Inr b' \<Longrightarrow> length b' = length b"
  by (auto simp: move_cells_def split: if_splits)

subsection \<open>Blocks that hold a list as a prefix\<close>

text \<open>
  \<open>holds b xs\<close>: the block starts with exactly the values \<open>xs\<close>. This is the
  abstraction the growable containers share: the block is their backing memory and
  \<open>xs\<close> the list they represent.
\<close>

definition holds :: "'a block \<Rightarrow> 'a list \<Rightarrow> bool" where
  "holds b xs \<longleftrightarrow> (\<exists>rest. b = map Some xs @ rest)"

lemma holds_Nil [simp]: "holds b []"
  by (simp add: holds_def)

lemma holds_length: "holds b xs \<Longrightarrow> length xs \<le> length b"
  by (auto simp: holds_def)

lemma holds_min: "holds b xs \<Longrightarrow> min (length b) (length xs) = length xs"
  by (simp add: holds_length min_absorb2)

lemma holds_take: "holds b xs \<longleftrightarrow> take (length xs) b = map Some xs"
proof
  assume "take (length xs) b = map Some xs"
  then have "b = map Some xs @ drop (length xs) b"
    by (metis append_take_drop_id)
  then show "holds b xs" unfolding holds_def by blast
qed (auto simp: holds_def)

lemma holds_prefix: "holds b (xs @ ys) \<Longrightarrow> holds b xs"
  by (auto simp: holds_def)

lemma holds_nth: "holds b xs \<Longrightarrow> i < length xs \<Longrightarrow> b ! i = Some (xs ! i)"
  by (auto simp: holds_def nth_append)

lemma holds_read_cell [block_simps]:
  "holds b xs \<Longrightarrow> i < length xs \<Longrightarrow> read_cell b i = Inr (xs ! i)"
  using holds_length [of b xs] by (simp add: read_cell_def holds_nth)

lemma holds_read_cells [block_simps]:
  assumes "holds b xs" and "i + n \<le> length xs"
  shows "read_cells b i n = Inr (take n (drop i xs))"
proof -
  from assms(1) obtain r where b: "b = map Some xs @ r" by (auto simp: holds_def)
  have "take n (drop i b) = map Some (take n (drop i xs))"
    using assms(2) by (simp add: b drop_map take_map)
  moreover have "map the (map Some (take n (drop i xs))) = take n (drop i xs)"
    by (simp add: comp_def)
  ultimately show ?thesis
    using assms(2) holds_length [OF assms(1)] by (auto simp: read_cells_def)
qed

lemma holds_realloc [block_simps]:
  "holds b xs \<Longrightarrow> length xs \<le> n \<Longrightarrow> holds (realloc_block b n) xs"
  using holds_length [of b xs] by (auto simp: holds_take realloc_block_def min_def)

lemma holds_write_cells_end:
  assumes "holds b xs" and "length xs + length ys \<le> length b"
  shows "\<exists>b'. write_cells b (length xs) ys = Inr b' \<and> holds b' (xs @ ys) \<and> length b' = length b"
proof -
  have "take (length xs) b = map Some xs" using assms(1) by (simp add: holds_take)
  then show ?thesis
    using assms(2) by (auto simp: write_cells_def holds_def)
qed

lemma holds_write_cell_end:
  assumes "holds b xs" and "length xs < length b"
  shows "\<exists>b'. write_cell b (length xs) y = Inr b' \<and> holds b' (xs @ [y]) \<and> length b' = length b"
proof -
  from assms(1) obtain r where b: "b = map Some xs @ r" by (auto simp: holds_def)
  with assms(2) obtain c r' where "r = c # r'" by (cases r) auto
  then show ?thesis
    using assms(2) by (auto simp: write_cell_def holds_def b list_update_append)
qed

lemma holds_write_cell:
  assumes "holds b xs" and "i < length xs"
  shows "\<exists>b'. write_cell b i y = Inr b' \<and> holds b' (xs[i := y]) \<and> length b' = length b"
proof -
  from assms(1) obtain r where b: "b = map Some xs @ r" by (auto simp: holds_def)
  have "holds (b[i := Some y]) (xs[i := y])"
    using assms(2) by (auto simp: holds_def b list_update_append map_update)
  then show ?thesis
    using assms holds_length [OF assms(1)] by (auto simp: write_cell_def)
qed

lemma holds_write_cells:
  assumes "holds b xs" and "i \<le> length xs" and "i + length ys \<le> length b"
  shows "\<exists>b'. write_cells b i ys = Inr b'
      \<and> holds b' (take i xs @ ys @ drop (i + length ys) xs) \<and> length b' = length b"
proof -
  from assms(1) obtain r where b: "b = map Some xs @ r" by (auto simp: holds_def)
  let ?b' = "take i b @ map Some ys @ drop (i + length ys) b"
  have tk: "take i b = map Some (take i xs)"
    using assms(2) by (simp add: b take_map)
  have "drop (i + length ys) b = map Some (drop (i + length ys) xs) @ drop (i + length ys - length xs) r"
    by (simp add: b drop_map)
  with tk have "holds ?b' (take i xs @ ys @ drop (i + length ys) xs)"
    by (auto simp: holds_def)
  then show ?thesis
    using assms(3) by (simp add: write_cells_def)
qed

end
