(* ===== verification/Double.thy ===== *)
theory Double
  imports Prelude Complex_Main
begin

text \<open>
  The C type \<open>double\<close> (IEEE 754 binary64). A finite double is a sign and the 63-bit
  integer its exponent and fraction fields spell, so equality of the datatype is equality of bit
  patterns and the magnitude grows with that integer. \<open>dbl_round\<close> is
  round-to-nearest-even of a positive rational \<open>p / q\<close>; \<open>dbl_int\<close> and
  \<open>double_of_int\<close> are the conversions between doubles and the integers the code uses.
\<close>

datatype double = Finite bool int | Infinity bool | NaN bool

definition dbl_wf :: "double \<Rightarrow> bool" where
  "dbl_wf d \<longleftrightarrow> (case d of Finite _ n \<Rightarrow> 0 \<le> n \<and> n < 2047 * 2 ^ 52 | _ \<Rightarrow> True)"

text \<open>Significand and exponent of a magnitude: the value is \<open>dbl_sig n * 2 powi dbl_exp n\<close>.\<close>

definition dbl_sig :: "int \<Rightarrow> int" where
  "dbl_sig n = (if n < 2 ^ 52 then n else 2 ^ 52 + n mod 2 ^ 52)"

definition dbl_exp :: "int \<Rightarrow> int" where
  "dbl_exp n = (if n < 2 ^ 52 then -1074 else n div 2 ^ 52 - 1075)"

definition isnan :: "double \<Rightarrow> bool" where
  "isnan d = (case d of NaN _ \<Rightarrow> True | _ \<Rightarrow> False)"

text \<open>C equality of doubles: both zeros are equal, NaN is not equal to itself.\<close>

definition dbl_eq :: "double \<Rightarrow> double \<Rightarrow> bool" where
  "dbl_eq a b = (case a of
     NaN _ \<Rightarrow> False
   | Infinity s \<Rightarrow> (case b of Infinity t \<Rightarrow> s = t | _ \<Rightarrow> False)
   | Finite s m \<Rightarrow> (case b of Finite t n \<Rightarrow> (m = 0 \<and> n = 0) \<or> (s = t \<and> m = n) | _ \<Rightarrow> False))"

subsection \<open>Rounding\<close>

fun bitlen :: "int \<Rightarrow> int" where
  "bitlen n = (if n \<le> 0 then 0 else 1 + bitlen (n div 2))"

declare bitlen.simps [simp del]

lemma bitlen_0 [simp]: "bitlen 0 = 0"
  by (simp add: bitlen.simps)

lemma bitlen_bounds:
  "0 < n \<Longrightarrow> 0 < bitlen n \<and> 2 ^ nat (bitlen n - 1) \<le> n \<and> n < 2 ^ nat (bitlen n)"
proof (induction n rule: bitlen.induct)
  case (1 n)
  show ?case
  proof (cases "n div 2 = 0")
    case True
    with "1.prems" have "n = 1" by simp
    then show ?thesis by (simp add: bitlen.simps)
  next
    case False
    with "1.prems" have p: "0 < n div 2" by simp
    then have IH: "0 < bitlen (n div 2)" "2 ^ nat (bitlen (n div 2) - 1) \<le> n div 2"
        "n div 2 < 2 ^ nat (bitlen (n div 2))"
      using "1.IH" "1.prems" by simp_all
    have b: "bitlen n = 1 + bitlen (n div 2)" using "1.prems" by (simp add: bitlen.simps [of n])
    have e: "nat (1 + bitlen (n div 2)) = Suc (nat (bitlen (n div 2)))"
        "nat (bitlen (n div 2)) = Suc (nat (bitlen (n div 2) - 1))"
      using IH(1) by simp_all
    have l: "2 ^ nat (bitlen (n div 2)) \<le> n"
      unfolding e(2) using IH(2) by simp
    have u: "n < 2 ^ nat (1 + bitlen (n div 2))"
      unfolding e(1) using IH(3) by simp
    show ?thesis using IH(1) l u by (simp add: b)
  qed
qed

definition round_half_even :: "int \<Rightarrow> int \<Rightarrow> int" where
  "round_half_even a b =
     (let q = a div b; r = a mod b in
      if 2 * r < b then q else if 2 * r > b then q + 1 else if even q then q else q + 1)"

text \<open>\<open>p / q * r ^ -e\<close> as a quotient of two naturals.\<close>

definition scale_pow :: "int \<Rightarrow> int \<Rightarrow> int \<Rightarrow> int \<Rightarrow> int \<times> int" where
  "scale_pow r p q e = (if e \<ge> 0 then (p, q * r ^ nat e) else (p * r ^ nat (- e), q))"

definition floor_log2 :: "int \<Rightarrow> int \<Rightarrow> int" where
  "floor_log2 p q =
     (let l = bitlen p - bitlen q; ab = scale_pow 2 p q l in
      if snd ab \<le> fst ab then l else l - 1)"

definition dbl_round :: "bool \<Rightarrow> int \<Rightarrow> int \<Rightarrow> double" where
  "dbl_round s p q =
     (if p = 0 then Finite s 0
      else
        let e = max (-1074) (floor_log2 p q - 52);
            ab = scale_pow 2 p q e;
            n = (e + 1074) * 2 ^ 52 + round_half_even (fst ab) (snd ab)
        in if n < 2047 * 2 ^ 52 then Finite s n else Infinity s)"

definition double_of_int :: "int \<Rightarrow> double" where
  "double_of_int i = dbl_round (i < 0) \<bar>i\<bar> 1"

text \<open>The integer a double stands for, if its value is one (both zeros stand for 0).\<close>

definition dbl_int :: "double \<Rightarrow> int option" where
  "dbl_int d = (case d of
     Finite s n \<Rightarrow>
       (let m = dbl_sig n; e = dbl_exp n;
            v = (if e \<ge> 0 then Some (m * 2 ^ nat e)
                 else if m mod 2 ^ nat (- e) = 0 then Some (m div 2 ^ nat (- e)) else None)
        in map_option (\<lambda>k. if s then - k else k) v)
   | _ \<Rightarrow> None)"

end
