(* ===== verification/Value.thy ===== *)
theory Value
  imports Double
begin

text \<open>
  Janet values as the extension modules see them, and the argument checks of
  \<^verbatim>\<open>src/core/capi.c\<close> and \<^verbatim>\<open>src/core/util.c\<close> (amalg/janet.c) every
  native function starts with. A panic is the format string the code passes to
  \<open>janet_panic\<close> or \<open>janet_panicf\<close> with its arguments, unformatted.

  Tables and structs are the list of their buckets in bucket order; a bucket whose key is nil is
  an empty slot, as in the C arrays of \<open>JanetKV\<close>. Arrays, buffers and tables are values
  here; the theories about mutation keep the objects in a state of their own.
\<close>

datatype abstract_val = AbsS64 int | AbsU64 int | AbsOther string nat

datatype janet =
    JNil
  | JBool bool
  | JNumber double
  | JString bytes
  | JSymbol bytes
  | JKeyword bytes
  | JBuffer bytes
  | JArray "janet list"
  | JTuple "janet list"
  | JTable "(janet \<times> janet) list"
  | JStruct "(janet \<times> janet) list"
  | JFunction nat
  | JCFunction nat
  | JFiber nat
  | JAbstract abstract_val
  | JPointer nat

datatype jtype =
    JANET_NUMBER | JANET_NIL | JANET_BOOLEAN | JANET_FIBER | JANET_STRING | JANET_SYMBOL
  | JANET_KEYWORD | JANET_ARRAY | JANET_TUPLE | JANET_TABLE | JANET_STRUCT | JANET_BUFFER
  | JANET_FUNCTION | JANET_CFUNCTION | JANET_ABSTRACT | JANET_POINTER

fun janet_type :: "janet \<Rightarrow> jtype" where
  "janet_type JNil = JANET_NIL"
| "janet_type (JBool _) = JANET_BOOLEAN"
| "janet_type (JNumber _) = JANET_NUMBER"
| "janet_type (JString _) = JANET_STRING"
| "janet_type (JSymbol _) = JANET_SYMBOL"
| "janet_type (JKeyword _) = JANET_KEYWORD"
| "janet_type (JBuffer _) = JANET_BUFFER"
| "janet_type (JArray _) = JANET_ARRAY"
| "janet_type (JTuple _) = JANET_TUPLE"
| "janet_type (JTable _) = JANET_TABLE"
| "janet_type (JStruct _) = JANET_STRUCT"
| "janet_type (JFunction _) = JANET_FUNCTION"
| "janet_type (JCFunction _) = JANET_CFUNCTION"
| "janet_type (JFiber _) = JANET_FIBER"
| "janet_type (JAbstract _) = JANET_ABSTRACT"
| "janet_type (JPointer _) = JANET_POINTER"

abbreviation janet_checktype :: "janet \<Rightarrow> jtype \<Rightarrow> bool" where
  "janet_checktype x t \<equiv> janet_type x = t"

definition JANET_TFLAG_BYTES :: "jtype list" where
  "JANET_TFLAG_BYTES = [JANET_STRING, JANET_SYMBOL, JANET_BUFFER, JANET_KEYWORD]"

definition JANET_TFLAG_INDEXED :: "jtype list" where
  "JANET_TFLAG_INDEXED = [JANET_ARRAY, JANET_TUPLE]"

definition JANET_TFLAG_DICTIONARY :: "jtype list" where
  "JANET_TFLAG_DICTIONARY = [JANET_TABLE, JANET_STRUCT]"

definition JANET_TFLAG_LENGTHABLE :: "jtype list" where
  "JANET_TFLAG_LENGTHABLE = JANET_TFLAG_BYTES @ JANET_TFLAG_INDEXED @ JANET_TFLAG_DICTIONARY"

definition janet_checktypes :: "janet \<Rightarrow> jtype list \<Rightarrow> bool" where
  "janet_checktypes x tps = (janet_type x \<in> set tps)"

definition janet_truthy :: "janet \<Rightarrow> bool" where
  "janet_truthy x = (case x of JNil \<Rightarrow> False | JBool b \<Rightarrow> b | _ \<Rightarrow> True)"

subsection \<open>Panics\<close>

datatype parg = AInt int | AStr string | AVal janet | ATypes "jtype list" | ABytes bytes

datatype panic = Panic string "parg list"

definition janet_panic_type :: "janet \<Rightarrow> nat \<Rightarrow> jtype list \<Rightarrow> panic" where
  "janet_panic_type x n expected =
     Panic ''bad slot #%d, expected %T, got %v'' [AInt (int n), ATypes expected, AVal x]"

definition janet_panic_abstract :: "janet \<Rightarrow> nat \<Rightarrow> string \<Rightarrow> panic" where
  "janet_panic_abstract x n at_name =
     Panic ''bad slot #%d, expected %s, got %v'' [AInt (int n), AStr at_name, AVal x]"

definition janet_fixarity :: "nat \<Rightarrow> nat \<Rightarrow> panic + unit" where
  "janet_fixarity argc expected =
     (if argc \<noteq> expected
      then Inl (Panic ''arity mismatch, expected %d, got %d'' [AInt (int expected), AInt (int argc)])
      else Inr ())"

definition janet_arity :: "int \<Rightarrow> int \<Rightarrow> int \<Rightarrow> panic + unit" where
  "janet_arity arity amin amax =
     (if amin \<ge> 0 \<and> arity < amin
      then Inl (Panic ''arity mismatch, expected at least %d, got %d'' [AInt amin, AInt arity])
      else if amax \<ge> 0 \<and> arity > amax
      then Inl (Panic ''arity mismatch, expected at most %d, got %d'' [AInt amax, AInt arity])
      else Inr ())"

subsection \<open>Views\<close>

definition janet_indexed_view :: "janet \<Rightarrow> janet list option" where
  "janet_indexed_view seq = (case seq of JArray xs \<Rightarrow> Some xs | JTuple xs \<Rightarrow> Some xs | _ \<Rightarrow> None)"

text \<open>Abstract types with a \<open>bytes\<close> method are outside the model: none is defined by
  the modules modelled here.\<close>

definition janet_bytes_view :: "janet \<Rightarrow> bytes option" where
  "janet_bytes_view str = (case str of
     JString b \<Rightarrow> Some b | JSymbol b \<Rightarrow> Some b | JKeyword b \<Rightarrow> Some b | JBuffer b \<Rightarrow> Some b
   | _ \<Rightarrow> None)"

definition janet_dictionary_view :: "janet \<Rightarrow> (janet \<times> janet) list option" where
  "janet_dictionary_view tab = (case tab of JTable kvs \<Rightarrow> Some kvs | JStruct kvs \<Rightarrow> Some kvs | _ \<Rightarrow> None)"

definition janet_checkint :: "janet \<Rightarrow> bool" where
  "janet_checkint x = (case x of
     JNumber d \<Rightarrow> (case dbl_int d of Some i \<Rightarrow> int32 i | None \<Rightarrow> False)
   | _ \<Rightarrow> False)"

definition janet_unwrap_integer :: "janet \<Rightarrow> int" where
  "janet_unwrap_integer x = (case x of
     JNumber d \<Rightarrow> (case dbl_int d of Some i \<Rightarrow> i | None \<Rightarrow> 0) | _ \<Rightarrow> 0)"

abbreviation janet_wrap_integer :: "int \<Rightarrow> janet" where
  "janet_wrap_integer i \<equiv> JNumber (double_of_int i)"

definition kv_count :: "(janet \<times> janet) list \<Rightarrow> nat" where
  "kv_count kvs = length (filter (\<lambda>kv. fst kv \<noteq> JNil) kvs)"

subsection \<open>Checked argument access\<close>

definition janet_getbuffer :: "janet list \<Rightarrow> nat \<Rightarrow> panic + bytes" where
  "janet_getbuffer argv n = (case argv ! n of
     JBuffer b \<Rightarrow> Inr b | x \<Rightarrow> Inl (janet_panic_type x n [JANET_BUFFER]))"

definition janet_getstring :: "janet list \<Rightarrow> nat \<Rightarrow> panic + bytes" where
  "janet_getstring argv n = (case argv ! n of
     JString b \<Rightarrow> Inr b | x \<Rightarrow> Inl (janet_panic_type x n [JANET_STRING]))"

definition janet_getfunction :: "janet list \<Rightarrow> nat \<Rightarrow> panic + nat" where
  "janet_getfunction argv n = (case argv ! n of
     JFunction f \<Rightarrow> Inr f | x \<Rightarrow> Inl (janet_panic_type x n [JANET_FUNCTION]))"

definition janet_gettable :: "janet list \<Rightarrow> nat \<Rightarrow> panic + (janet \<times> janet) list" where
  "janet_gettable argv n = (case argv ! n of
     JTable t \<Rightarrow> Inr t | x \<Rightarrow> Inl (janet_panic_type x n [JANET_TABLE]))"

definition janet_getboolean :: "janet list \<Rightarrow> nat \<Rightarrow> panic + bool" where
  "janet_getboolean argv n = (case argv ! n of
     JBool b \<Rightarrow> Inr b | x \<Rightarrow> Inl (janet_panic_type x n [JANET_BOOLEAN]))"

text \<open>\<open>janet_getcstring\<close>: a string whose \<open>strlen\<close> is its length.\<close>

definition janet_getcstring :: "janet list \<Rightarrow> nat \<Rightarrow> panic + bytes" where
  "janet_getcstring argv n = (case argv ! n of
     JString b \<Rightarrow> (if 0 \<in> set b then Inl (Panic ''bytes contain embedded 0s'' []) else Inr b)
   | x \<Rightarrow> Inl (janet_panic_type x n [JANET_STRING]))"

definition janet_getbytes :: "janet list \<Rightarrow> nat \<Rightarrow> panic + bytes" where
  "janet_getbytes argv n = (case janet_bytes_view (argv ! n) of
     Some b \<Rightarrow> Inr b | None \<Rightarrow> Inl (janet_panic_type (argv ! n) n JANET_TFLAG_BYTES))"

definition janet_getindexed :: "janet list \<Rightarrow> nat \<Rightarrow> panic + janet list" where
  "janet_getindexed argv n = (case janet_indexed_view (argv ! n) of
     Some xs \<Rightarrow> Inr xs | None \<Rightarrow> Inl (janet_panic_type (argv ! n) n JANET_TFLAG_INDEXED))"

definition janet_getinteger :: "janet list \<Rightarrow> nat \<Rightarrow> panic + int" where
  "janet_getinteger argv n =
     (if \<not> janet_checkint (argv ! n)
      then Inl (Panic ''bad slot #%d, expected 32 bit signed integer, got %v''
                  [AInt (int n), AVal (argv ! n)])
      else Inr (janet_unwrap_integer (argv ! n)))"

definition janet_getnat :: "janet list \<Rightarrow> nat \<Rightarrow> panic + int" where
  "janet_getnat argv n =
     (let x = argv ! n; ret = janet_unwrap_integer x in
      if \<not> janet_checkint x \<or> ret < 0
      then Inl (Panic ''bad slot #%d, expected non-negative 32 bit signed integer, got %v''
                  [AInt (int n), AVal x])
      else Inr ret)"

text \<open>An abstract type is asked for its \<open>length\<close> callback, then for a method of that
  name; the ones the modules define have neither.\<close>

definition janet_length :: "janet \<Rightarrow> panic + int" where
  "janet_length x = (case x of
     JString b \<Rightarrow> Inr (int (length b))
   | JSymbol b \<Rightarrow> Inr (int (length b))
   | JKeyword b \<Rightarrow> Inr (int (length b))
   | JArray xs \<Rightarrow> Inr (int (length xs))
   | JBuffer b \<Rightarrow> Inr (int (length b))
   | JTuple xs \<Rightarrow> Inr (int (length xs))
   | JStruct kvs \<Rightarrow> Inr (int (kv_count kvs))
   | JTable kvs \<Rightarrow> Inr (int (kv_count kvs))
   | JAbstract _ \<Rightarrow> Inl (Panic ''could not find method :%s for %v'' [AStr ''length'', AVal x])
   | _ \<Rightarrow> Inl (Panic ''expected %T, got %v'' [ATypes JANET_TFLAG_LENGTHABLE, AVal x]))"

subsection \<open>Ranges\<close>

definition janet_gethalfrange :: "janet list \<Rightarrow> nat \<Rightarrow> int \<Rightarrow> string \<Rightarrow> panic + int" where
  "janet_gethalfrange argv n len which =
     rbind (janet_getinteger argv n) (\<lambda>raw.
       let not_raw = (if raw < 0 then raw + (len + 1) else raw) in
       if not_raw < 0 \<or> not_raw > len
       then Inl (Panic ''%s index %d out of range [%d,%d]''
                   [AStr which, AInt raw, AInt (- len - 1), AInt len])
       else Inr not_raw)"

definition janet_getstartrange :: "janet list \<Rightarrow> nat \<Rightarrow> int \<Rightarrow> panic + int" where
  "janet_getstartrange argv n len =
     (if n \<ge> length argv \<or> janet_checktype (argv ! n) JANET_NIL then Inr 0
      else janet_gethalfrange argv n len ''start'')"

definition janet_getendrange :: "janet list \<Rightarrow> nat \<Rightarrow> int \<Rightarrow> panic + int" where
  "janet_getendrange argv n len =
     (if n \<ge> length argv \<or> janet_checktype (argv ! n) JANET_NIL then Inr len
      else janet_gethalfrange argv n len ''end'')"

definition janet_getargindex :: "janet list \<Rightarrow> nat \<Rightarrow> int \<Rightarrow> string \<Rightarrow> panic + int" where
  "janet_getargindex argv n len which =
     rbind (janet_getinteger argv n) (\<lambda>raw.
       let not_raw = (if raw < 0 then raw + len else raw) in
       if not_raw < 0 \<or> not_raw > len
       then Inl (Panic ''%s index %d out of range [%d,%d)''
                   [AStr which, AInt raw, AInt (- len), AInt len])
       else Inr not_raw)"

definition janet_getslice :: "janet list \<Rightarrow> panic + int \<times> int" where
  "janet_getslice argv =
     rbind (janet_arity (int (length argv)) 1 3) (\<lambda>_.
     rbind (janet_length (argv ! 0)) (\<lambda>len.
     rbind (janet_getstartrange argv 1 len) (\<lambda>start.
     rbind (janet_getendrange argv 2 len) (\<lambda>fin.
       Inr (start, if fin < start then start else fin)))))"

subsection \<open>Facts about argument checks\<close>

lemma janet_fixarity_Inr [simp]: "janet_fixarity argc n = Inr u \<longleftrightarrow> argc = n"
  by (simp add: janet_fixarity_def)

lemma janet_fixarity_same [simp]: "argc = n \<Longrightarrow> janet_fixarity argc n = Inr ()"
  by (simp add: janet_fixarity_def)

lemma janet_gethalfrange_bounds:
  "janet_gethalfrange argv n len w = Inr i \<Longrightarrow> 0 \<le> i \<and> i \<le> len"
  by (auto simp: janet_gethalfrange_def rbind_eq_Inr Let_def split: if_splits)

lemma janet_length_nonneg: "janet_length x = Inr n \<Longrightarrow> 0 \<le> n"
  by (auto simp: janet_length_def split: janet.splits)

lemma janet_getstartrange_bounds:
  "janet_getstartrange argv n len = Inr i \<Longrightarrow> 0 \<le> len \<Longrightarrow> 0 \<le> i \<and> i \<le> len"
  by (auto simp: janet_getstartrange_def dest: janet_gethalfrange_bounds split: if_splits)

lemma janet_getendrange_bounds:
  "janet_getendrange argv n len = Inr i \<Longrightarrow> 0 \<le> len \<Longrightarrow> 0 \<le> i \<and> i \<le> len"
  by (auto simp: janet_getendrange_def dest: janet_gethalfrange_bounds split: if_splits)

text \<open>A slice the checks let through is a range of the value's own length.\<close>

lemma janet_getslice_bounds:
  assumes "janet_getslice argv = Inr (s, e)"
  shows "\<exists>len. janet_length (argv ! 0) = Inr len \<and> 0 \<le> s \<and> s \<le> e \<and> e \<le> len"
proof -
  from assms obtain len st en where *: "janet_length (argv ! 0) = Inr len"
      "janet_getstartrange argv 1 len = Inr st" "janet_getendrange argv 2 len = Inr en"
      "s = st" "e = (if en < st then st else en)"
    by (auto simp: janet_getslice_def rbind_eq_Inr)
  with janet_length_nonneg [of "argv ! 0" len] janet_getstartrange_bounds [of argv 1 len st]
    janet_getendrange_bounds [of argv 2 len en]
  show ?thesis by auto
qed

end
