(* ===== verification/CStd.thy ===== *)
theory CStd
  imports Double
begin

text \<open>
  The parts of the C standard library the modules rely on: strings (\<open>strlen\<close>,
  \<open>strstr\<close>), \<open>atoi\<close>, \<open>strtod\<close> and \<open>sprintf\<close> of an
  integer and of a double with \<open>"%.17g"\<close>, in the "C" locale and with the correctly
  rounded conversions of glibc. A pointer into a block is the list of the cells from there on;
  running off its end is \<open>OutOfBounds\<close>.

  The main lemma is that seventeen digits are enough: \<open>strtod\<close> gives back every finite
  double \<open>sprintf\<close> printed with \<open>"%.17g"\<close>, bit for bit.
\<close>

subsection \<open>Characters\<close>

abbreviation c8 :: "char \<Rightarrow> byte" where
  "c8 c \<equiv> of_char c"

definition isdigit :: "byte \<Rightarrow> bool" where
  "isdigit b \<longleftrightarrow> 48 \<le> b \<and> b \<le> 57"

definition isspace :: "byte \<Rightarrow> bool" where
  "isspace b \<longleftrightarrow> b = 32 \<or> (9 \<le> b \<and> b \<le> 13)"

definition n_char :: "byte \<Rightarrow> bool" where
  "n_char b \<longleftrightarrow> isdigit b \<or> (65 \<le> b \<and> b \<le> 90) \<or> (97 \<le> b \<and> b \<le> 122) \<or> b = 95"

definition tolower :: "byte \<Rightarrow> byte" where
  "tolower b = (if 65 \<le> b \<and> b \<le> 90 then b + 32 else b)"

definition hexval :: "byte \<Rightarrow> int option" where
  "hexval b = (if isdigit b then Some (uint b - 48)
     else if 97 \<le> b \<and> b \<le> 102 then Some (uint b - 87)
     else if 65 \<le> b \<and> b \<le> 70 then Some (uint b - 55) else None)"

definition digit_char :: "int \<Rightarrow> byte" where
  "digit_char d = 48 + of_int d"

lemma digit_char_facts:
  assumes "0 \<le> d" and "d < 10"
  shows "isdigit (digit_char d)" and "uint (digit_char d) - 48 = d"
proof -
  have "d \<in> {0,1,2,3,4,5,6,7,8,9}" using assms by (simp; presburger)
  then show "isdigit (digit_char d)" and "uint (digit_char d) - 48 = d"
    by (auto simp: digit_char_def isdigit_def)
qed

subsection \<open>Pointers into cells\<close>

definition peek :: "bytes \<Rightarrow> nat \<Rightarrow> fault + byte" where
  "peek p i = (if i < length p then Inr (p ! i) else Inl OutOfBounds)"

text \<open>\<open>p[i] == c0 && p[i+1] == c1 && ...\<close>, left to right, stopping at the first mismatch.\<close>

fun cells_are :: "bytes \<Rightarrow> nat \<Rightarrow> bytes \<Rightarrow> fault + bool" where
  "cells_are p i [] = Inr True"
| "cells_are p i (c # cs) =
     rbind (peek p i) (\<lambda>b. if b \<noteq> c then Inr False else cells_are p (Suc i) cs)"

text \<open>The cells end with a NUL.\<close>

definition terminated :: "bytes \<Rightarrow> bool" where
  "terminated p \<longleftrightarrow> p \<noteq> [] \<and> last p = 0"

lemma peek_Cons [simp]: "peek (b # p) 0 = Inr b" "peek (b # p) (Suc i) = peek p i"
  by (simp_all add: peek_def)

lemma terminated_snoc [simp]: "terminated (s @ [0])"
  by (simp add: terminated_def)

lemma terminated_Cons: "terminated (b # p) \<longleftrightarrow> (p = [] \<and> b = 0) \<or> terminated p"
  by (auto simp: terminated_def)

lemma terminated_tl: "terminated (b # p) \<Longrightarrow> b \<noteq> 0 \<Longrightarrow> terminated p"
  by (auto simp: terminated_Cons)

lemma terminated_in_set: "terminated p \<Longrightarrow> 0 \<in> set p"
  by (metis last_in_set terminated_def)

lemma terminated_append: "q \<noteq> [] \<Longrightarrow> terminated (p @ q) \<longleftrightarrow> terminated q"
  by (simp add: terminated_def)

text \<open>Reading left to right up to the first mismatch never leaves NUL-terminated cells, when
  the cells compared with are not NUL themselves.\<close>

lemma cells_are_prefix:
  "cells_are p i cs = Inr True \<Longrightarrow> \<exists>r. drop i p = cs @ r"
proof (induction cs arbitrary: i)
  case (Cons c cs)
  then have i: "i < length p" "p ! i = c" and *: "cells_are p (Suc i) cs = Inr True"
    by (auto simp: rbind_eq_Inr peek_def split: if_splits)
  from Cons.IH [OF *] obtain r where "drop (Suc i) p = cs @ r" by blast
  with i have "drop i p = (c # cs) @ r" by (simp flip: Cons_nth_drop_Suc)
  then show ?case by blast
qed simp

lemma cells_are_total:
  "terminated (drop i p) \<Longrightarrow> 0 \<notin> set cs \<Longrightarrow> \<exists>b. cells_are p i cs = Inr b"
proof (induction cs arbitrary: i)
  case (Cons c cs)
  from Cons.prems have i: "i < length p" by (auto simp: terminated_def)
  show ?case
  proof (cases "p ! i = c")
    case True
    with Cons.prems i have "terminated (drop (Suc i) p)"
      using terminated_tl [of "p ! i" "drop (Suc i) p"] Cons_nth_drop_Suc [OF i] by auto
    with Cons True i show ?thesis by (simp add: peek_def)
  next
    case False
    with i show ?thesis by (auto simp: peek_def)
  qed
qed auto

text \<open>\<open>q\<close> is \<open>p\<close> after a walk over cells that are not NUL.\<close>

definition skips :: "bytes \<Rightarrow> bytes \<Rightarrow> bool" where
  "skips p q \<longleftrightarrow> (\<exists>u. p = u @ q \<and> 0 \<notin> set u)"

lemma skips_refl [simp, intro]: "skips p p"
  by (simp add: skips_def)

lemma skips_trans [trans]: "skips p q \<Longrightarrow> skips q r \<Longrightarrow> skips p r"
  unfolding skips_def by (metis Un_iff append_assoc set_append)

lemma skips_Cons: "b \<noteq> 0 \<Longrightarrow> skips p q \<Longrightarrow> skips (b # p) q"
  unfolding skips_def by (metis append_Cons set_ConsD)

lemma skips_append: "0 \<notin> set u \<Longrightarrow> skips (u @ q) q"
  by (auto simp: skips_def)

lemma skips_dropWhile: "\<not> P 0 \<Longrightarrow> skips p (dropWhile P p)"
  unfolding skips_def by (metis set_takeWhileD takeWhile_dropWhile_id)

lemma skips_terminated: "skips p q \<Longrightarrow> terminated p \<Longrightarrow> terminated q"
proof -
  assume "skips p q" "terminated p"
  then obtain u where u: "p = u @ q" "0 \<notin> set u" "p \<noteq> []" "last p = 0"
    by (auto simp: skips_def terminated_def)
  then have "q \<noteq> []" by (metis append_Nil2 last_in_set)
  with u show "terminated q" by (simp add: terminated_def)
qed

lemma skips_length: "skips p q \<Longrightarrow> length q \<le> length p"
  by (auto simp: skips_def)

lemma skips_length_less: "skips p q \<Longrightarrow> q \<noteq> p \<Longrightarrow> length q < length p"
  by (auto simp: skips_def)

subsection \<open>Strings\<close>

definition strlen :: "bytes \<Rightarrow> fault + nat" where
  "strlen p = (if 0 \<in> set p then Inr (length (takeWhile (\<lambda>b. b \<noteq> 0) p)) else Inl OutOfBounds)"

text \<open>The string a pointer to NUL-terminated cells stands for.\<close>

definition cstring :: "bytes \<Rightarrow> bytes" where
  "cstring p = takeWhile (\<lambda>b. b \<noteq> 0) p"

text \<open>\<open>strstr\<close> on the two strings: the rest of the first from the match on.\<close>

fun strstr :: "bytes \<Rightarrow> bytes \<Rightarrow> bytes option" where
  "strstr [] needle = (if needle = [] then Some [] else None)"
| "strstr (h # hs) needle =
     (if take (length needle) (h # hs) = needle then Some (h # hs) else strstr hs needle)"

definition digits_val :: "int \<Rightarrow> bytes \<Rightarrow> int" where
  "digits_val base ds = foldl (\<lambda>a d. a * base + the (hexval d)) 0 ds"

text \<open>\<open>atoi\<close>; a value outside \<open>int\<close> is undefined behaviour.\<close>

definition atoi :: "bytes \<Rightarrow> fault + int" where
  "atoi s =
     (let t = dropWhile isspace s;
          neg = (t \<noteq> [] \<and> hd t = c8 CHR ''-'');
          u = (if t \<noteq> [] \<and> (hd t = c8 CHR ''-'' \<or> hd t = c8 CHR ''+'') then tl t else t);
          n = digits_val 10 (takeWhile isdigit u);
          v = (if neg then - n else n)
      in if int32 v then Inr v else Inl IntOverflow)"

fun dec_digits :: "nat \<Rightarrow> int \<Rightarrow> bytes" where
  "dec_digits 0 n = []"
| "dec_digits (Suc k) n = dec_digits k (n div 10) @ [digit_char (n mod 10)]"

fun declen :: "int \<Rightarrow> nat" where
  "declen n = (if n \<le> 0 then 0 else Suc (declen (n div 10)))"

declare declen.simps [simp del]

text \<open>\<open>"%d"\<close>\<close>

definition fmt_int :: "int \<Rightarrow> bytes" where
  "fmt_int i = (if i < 0 then [c8 CHR ''-''] else []) @ dec_digits (max 1 (declen \<bar>i\<bar>)) \<bar>i\<bar>"

subsection \<open>\<open>strtod\<close>\<close>

definition strip_prefix_ci :: "bytes \<Rightarrow> bytes \<Rightarrow> bytes option" where
  "strip_prefix_ci w s =
     (if map tolower (take (length w) s) = w then Some (drop (length w) s) else None)"

text \<open>An exponent part: marker, optional sign, digits. Without digits nothing is consumed.\<close>

definition scan_exponent :: "byte \<Rightarrow> bytes \<Rightarrow> int \<times> bytes" where
  "scan_exponent mark s =
     (if s = [] \<or> tolower (hd s) \<noteq> mark then (0, s)
      else
        let t = tl s;
            neg = (t \<noteq> [] \<and> hd t = c8 CHR ''-'');
            u = (if t \<noteq> [] \<and> (hd t = c8 CHR ''-'' \<or> hd t = c8 CHR ''+'') then tl t else t);
            ds = takeWhile isdigit u
        in if ds = [] then (0, s)
           else (if neg then - digits_val 10 ds else digits_val 10 ds, dropWhile isdigit u))"

text \<open>Digits with at most one point among them.\<close>

definition scan_mantissa :: "(byte \<Rightarrow> bool) \<Rightarrow> bytes \<Rightarrow> bytes \<times> bytes \<times> bytes" where
  "scan_mantissa dig s =
     (let ip = takeWhile dig s; r = dropWhile dig s in
      if r \<noteq> [] \<and> hd r = c8 CHR ''.'' then (ip, takeWhile dig (tl r), dropWhile dig (tl r))
      else (ip, [], r))"

definition strtod_dec :: "bool \<Rightarrow> bytes \<Rightarrow> (double \<times> bytes) option" where
  "strtod_dec neg s =
     (case scan_mantissa isdigit s of (ip, fp, r) \<Rightarrow>
      if ip @ fp = [] then None
      else
        let m = digits_val 10 (ip @ fp);
            ex = scan_exponent (c8 CHR ''e'') r;
            pq = scale_pow 10 m 1 (int (length fp) - fst ex)
        in Some (dbl_round neg (fst pq) (snd pq), snd ex))"

definition strtod_hex :: "bool \<Rightarrow> bytes \<Rightarrow> (double \<times> bytes) option" where
  "strtod_hex neg s =
     (case scan_mantissa (\<lambda>b. hexval b \<noteq> None) s of (ip, fp, r) \<Rightarrow>
      if ip @ fp = [] then None
      else
        let m = digits_val 16 (ip @ fp);
            ex = scan_exponent (c8 CHR ''p'') r;
            pq = scale_pow 2 m 1 (4 * int (length fp) - fst ex)
        in Some (dbl_round neg (fst pq) (snd pq), snd ex))"

definition strtod_word :: "bool \<Rightarrow> bytes \<Rightarrow> (double \<times> bytes) option" where
  "strtod_word neg s =
     (case strip_prefix_ci (bs ''infinity'') s of Some r \<Rightarrow> Some (Infinity neg, r) | None \<Rightarrow>
      case strip_prefix_ci (bs ''inf'') s of Some r \<Rightarrow> Some (Infinity neg, r) | None \<Rightarrow>
      case strip_prefix_ci (bs ''nan'') s of
        Some r \<Rightarrow>
          (let t = dropWhile n_char (tl r) in
           Some (NaN neg, if r \<noteq> [] \<and> hd r = c8 CHR ''('' \<and> t \<noteq> [] \<and> hd t = c8 CHR '')''
                          then tl t else r))
      | None \<Rightarrow> None)"

definition strtod_body :: "bool \<Rightarrow> bytes \<Rightarrow> (double \<times> bytes) option" where
  "strtod_body neg s =
     (case (case strip_prefix_ci (bs ''0x'') s of Some r \<Rightarrow> strtod_hex neg r | None \<Rightarrow> None) of
        Some res \<Rightarrow> Some res
      | None \<Rightarrow>
          (case strtod_dec neg s of Some res \<Rightarrow> Some res | None \<Rightarrow> strtod_word neg s))"

text \<open>The value and the pointer after it; the pointer passed in when no number was found.\<close>

definition strtod :: "bytes \<Rightarrow> double \<times> bytes" where
  "strtod s =
     (let t = dropWhile isspace s;
          neg = (t \<noteq> [] \<and> hd t = c8 CHR ''-'');
          u = (if t \<noteq> [] \<and> (hd t = c8 CHR ''-'' \<or> hd t = c8 CHR ''+'') then tl t else t)
      in case strtod_body neg u of Some res \<Rightarrow> res | None \<Rightarrow> (Finite False 0, s))"

text \<open>\<open>strtod\<close> is defined on strings only: the cells have to hold a NUL.\<close>

definition strtod_at :: "bytes \<Rightarrow> fault + double \<times> bytes" where
  "strtod_at p = (if 0 \<in> set p then Inr (strtod p) else Inl OutOfBounds)"

text \<open>The payload glibc puts into a NaN: the text between the brackets after \<open>nan\<close>, as
  a number in the notation of C, when all of it is one; 51 bits of it fit. A \<open>double\<close> of
  the model keeps no payload, so the bits are a function of the text.\<close>

definition n_char_value :: "bytes \<Rightarrow> int" where
  "n_char_value s =
     (if take 2 (map tolower s) = bs ''0x'' \<and> drop 2 s \<noteq> [] \<and> list_all (\<lambda>b. hexval b \<noteq> None) (drop 2 s)
      then digits_val 16 (drop 2 s)
      else if s \<noteq> [] \<and> hd s = c8 CHR ''0''
        then (if list_all (\<lambda>b. c8 CHR ''0'' \<le> b \<and> b \<le> c8 CHR ''7'') s then digits_val 8 s else 0)
      else if list_all isdigit s then digits_val 10 s
      else 0)"

definition nan_payload :: "bytes \<Rightarrow> int" where
  "nan_payload r =
     (let t = dropWhile n_char (tl r) in
      if r \<noteq> [] \<and> hd r = c8 CHR ''('' \<and> t \<noteq> [] \<and> hd t = c8 CHR '')''
      then min (2 ^ 64 - 1) (n_char_value (takeWhile n_char (tl r))) mod 2 ^ 51 else 0)"

text \<open>Bits 47 to 50 of what \<open>strtod\<close> returns for a NaN, and 0 for every other number.\<close>

definition nan_tag :: "bytes \<Rightarrow> int" where
  "nan_tag s =
     (let t = dropWhile isspace s;
          u = (if t \<noteq> [] \<and> (hd t = c8 CHR ''-'' \<or> hd t = c8 CHR ''+'') then tl t else t)
      in case fst (strtod s) of
           NaN neg \<Rightarrow> (case strip_prefix_ci (bs ''nan'') u of Some r \<Rightarrow> nan_payload r div 2 ^ 47 | None \<Rightarrow> 0)
         | _ \<Rightarrow> 0)"

lemma nan_tag_finite: "strtod s = (Finite b n, r) \<Longrightarrow> nan_tag s = 0"
  by (simp add: nan_tag_def)

text \<open>\<open>strtod\<close> moves over cells that are not NUL.\<close>

lemma strip_prefix_ci_skips:
  assumes "strip_prefix_ci w s = Some r" "0 \<notin> set w"
  shows "skips s r"
proof -
  from assms have m: "map tolower (take (length w) s) = w" and r: "r = drop (length w) s"
    by (auto simp: strip_prefix_ci_def split: if_splits)
  have "0 \<notin> set (take (length w) s)"
  proof
    assume "0 \<in> set (take (length w) s)"
    then have "tolower 0 \<in> set w" by (metis image_eqI list.set_map m)
    then show False using assms(2) by (simp add: tolower_def)
  qed
  then show ?thesis unfolding r by (metis append_take_drop_id skips_append)
qed

lemma skips_sign: "skips t (if t \<noteq> [] \<and> (hd t = c8 CHR ''-'' \<or> hd t = c8 CHR ''+'') then tl t else t)"
  by (cases t) (auto intro: skips_Cons)

lemma scan_exponent_skips:
  assumes "mark \<noteq> 0"
  shows "skips s (snd (scan_exponent mark s))"
proof (cases "s = [] \<or> tolower (hd s) \<noteq> mark")
  case True
  then show ?thesis by (simp add: scan_exponent_def)
next
  case False
  then obtain b t where s: "s = b # t" "tolower b = mark" by (cases s) auto
  then have b: "b \<noteq> 0" using assms by (auto simp: tolower_def)
  let ?u = "if t \<noteq> [] \<and> (hd t = c8 CHR ''-'' \<or> hd t = c8 CHR ''+'') then tl t else t"
  have "skips s (dropWhile isdigit ?u)"
    unfolding s by (rule skips_Cons [OF b], rule skips_trans [OF skips_sign])
      (simp add: skips_dropWhile isdigit_def)
  then show ?thesis using False by (simp add: scan_exponent_def Let_def s(1))
qed

lemma scan_mantissa_skips:
  assumes "\<not> dig 0" and "scan_mantissa dig s = (ip, fp, r)"
  shows "skips s r" and "ip @ fp \<noteq> [] \<Longrightarrow> r \<noteq> s"
proof -
  have 1: "skips s (dropWhile dig s)" by (rule skips_dropWhile) fact
  show "skips s r"
  proof (cases "dropWhile dig s")
    case Nil
    with assms 1 show ?thesis by (simp add: scan_mantissa_def Let_def)
  next
    case (Cons b t)
    have "skips (c8 CHR ''.'' # t) (dropWhile dig t)"
      by (rule skips_Cons) (simp_all add: skips_dropWhile assms(1))
    with assms 1 Cons show ?thesis
      by (auto simp: scan_mantissa_def Let_def split: if_splits intro: skips_trans)
  qed
  show "ip @ fp \<noteq> [] \<Longrightarrow> r \<noteq> s"
  proof
    assume ne: "ip @ fp \<noteq> []" and "r = s"
    have l: "length s = length (takeWhile dig s) + length (dropWhile dig s)"
      by (metis length_append takeWhile_dropWhile_id)
    have "length (dropWhile dig (tl (dropWhile dig s))) \<le> length (tl (dropWhile dig s))"
      by (rule length_dropWhile_le)
    with ne \<open>r = s\<close> assms(2) l show False
      by (cases "dropWhile dig s") (auto simp: scan_mantissa_def Let_def split: if_splits)
  qed
qed

lemma strtod_dec_skips:
  assumes "strtod_dec neg s = Some (x, r)"
  shows "skips s r" and "length r < length s"
proof -
  obtain ip fp t where m: "scan_mantissa isdigit s = (ip, fp, t)" by (cases "scan_mantissa isdigit s") auto
  with assms have r: "r = snd (scan_exponent (c8 CHR ''e'') t)" and ne: "ip @ fp \<noteq> []"
    by (auto simp: strtod_dec_def Let_def split: if_splits)
  have d: "\<not> isdigit 0" by (simp add: isdigit_def)
  note M = scan_mantissa_skips [OF d m]
  have e: "skips t r" unfolding r by (rule scan_exponent_skips) simp
  show "skips s r" using M(1) e by (rule skips_trans)
  show "length r < length s"
    using skips_length_less [OF M(1) M(2) [OF ne]] skips_length [OF e] by simp
qed

lemma strtod_hex_skips:
  assumes "strtod_hex neg s = Some (x, r)"
  shows "skips s r"
proof -
  let ?h = "\<lambda>b. hexval b \<noteq> None"
  obtain ip fp t where m: "scan_mantissa ?h s = (ip, fp, t)" by (cases "scan_mantissa ?h s") auto
  with assms have r: "r = snd (scan_exponent (c8 CHR ''p'') t)"
    by (auto simp: strtod_hex_def Let_def split: if_splits)
  have d: "\<not> ?h 0" by (simp add: hexval_def isdigit_def)
  have e: "skips t r" unfolding r by (rule scan_exponent_skips) simp
  show "skips s r" using scan_mantissa_skips(1) [OF d m] e by (rule skips_trans)
qed

lemma strtod_word_skips:
  assumes "strtod_word neg s = Some (x, r)"
  shows "skips s r"
proof -
  have "skips t (if t \<noteq> [] \<and> hd t = c8 CHR ''('' \<and> dropWhile n_char (tl t) \<noteq> []
      \<and> hd (dropWhile n_char (tl t)) = c8 CHR '')'' then tl (dropWhile n_char (tl t)) else t)" for t
  proof (cases "t \<noteq> [] \<and> hd t = c8 CHR ''('' \<and> dropWhile n_char (tl t) \<noteq> []
      \<and> hd (dropWhile n_char (tl t)) = c8 CHR '')''")
    case True
    then obtain v w where "t = c8 CHR ''('' # v" "dropWhile n_char v = c8 CHR '')'' # w"
      by (cases t; cases "dropWhile n_char (tl t)") auto
    moreover have "skips v (dropWhile n_char v)"
      by (rule skips_dropWhile) (simp add: n_char_def isdigit_def)
    moreover have "skips (c8 CHR '')'' # w) w" by (rule skips_Cons) simp_all
    ultimately have "skips t w" by (auto intro!: skips_Cons intro: skips_trans)
    then show ?thesis using True \<open>dropWhile n_char v = _\<close> \<open>t = _\<close> by simp
  qed auto
  moreover have "0 \<notin> set (bs ''infinity'')" "0 \<notin> set (bs ''inf'')" "0 \<notin> set (bs ''nan'')" by simp_all
  ultimately show ?thesis
    using assms unfolding strtod_word_def Let_def
    by (auto dest!: strip_prefix_ci_skips split: option.splits intro: skips_trans)
qed

lemma strtod_body_skips:
  assumes "strtod_body neg s = Some (x, r)"
  shows "skips s r"
proof (cases "\<exists>t. strip_prefix_ci (bs ''0x'') s = Some t \<and> strtod_hex neg t = Some (x, r)")
  case True
  then obtain t where t: "strip_prefix_ci (bs ''0x'') s = Some t" "strtod_hex neg t = Some (x, r)" by blast
  have "skips s t" by (rule strip_prefix_ci_skips [OF t(1)]) simp
  then show ?thesis using strtod_hex_skips [OF t(2)] by (rule skips_trans)
next
  case False
  then have "strtod_dec neg s = Some (x, r) \<or> strtod_word neg s = Some (x, r)"
    using assms by (auto simp: strtod_body_def split: option.splits)
  then show ?thesis using strtod_dec_skips(1) strtod_word_skips by blast
qed

lemma strtod_skips: "skips p (snd (strtod p))"
proof -
  define t where "t = dropWhile isspace p"
  define u where "u = (if t \<noteq> [] \<and> (hd t = c8 CHR ''-'' \<or> hd t = c8 CHR ''+'') then tl t else t)"
  have "skips p t" unfolding t_def by (rule skips_dropWhile) (simp add: isspace_def)
  moreover have "skips t u" unfolding u_def by (rule skips_sign)
  ultimately have u: "skips p u" by (rule skips_trans)
  show ?thesis
  proof (cases "strtod_body (t \<noteq> [] \<and> hd t = c8 CHR ''-'') u")
    case None
    then have "strtod p = (Finite False 0, p)"
      unfolding strtod_def Let_def t_def [symmetric] u_def [symmetric] by simp
    then show ?thesis by simp
  next
    case (Some a)
    then have "strtod p = a"
      unfolding strtod_def Let_def t_def [symmetric] u_def [symmetric] by simp
    moreover have "skips u (snd a)" using Some by (cases a) (auto intro: strtod_body_skips)
    ultimately show ?thesis using u by (auto intro: skips_trans)
  qed
qed

subsection \<open>\<open>sprintf\<close> with \<open>"%.17g"\<close>\<close>

text \<open>The decimal exponent: \<open>10 ^ X \<le> p / q < 10 ^ (X + 1)\<close>.\<close>

definition floor_log10 :: "int \<Rightarrow> int \<Rightarrow> int" where
  "floor_log10 p q =
     (if q \<le> p then int (declen (p div q)) - 1 else - int (declen ((q - 1) div p)))"

text \<open>Seventeen significant digits and the decimal exponent of the first.\<close>

definition digits17 :: "int \<Rightarrow> int \<Rightarrow> int \<times> int" where
  "digits17 p q =
     (let x = floor_log10 p q;
          ab = scale_pow 10 p q (x - 16);
          d = round_half_even (fst ab) (snd ab)
      in if d = 10 ^ 17 then (10 ^ 16, x + 1) else (d, x))"

definition strip_zeros :: "bytes \<Rightarrow> bytes" where
  "strip_zeros ds = rev (dropWhile (\<lambda>b. b = c8 CHR ''0'') (rev ds))"

definition with_point :: "bytes \<Rightarrow> bytes \<Rightarrow> bytes" where
  "with_point ip fp = (if strip_zeros fp = [] then ip else ip @ [c8 CHR ''.''] @ strip_zeros fp)"

definition fmt_exponent :: "int \<Rightarrow> bytes" where
  "fmt_exponent x =
     [c8 CHR ''e'', if x < 0 then c8 CHR ''-'' else c8 CHR ''+''] @ dec_digits (max 2 (declen \<bar>x\<bar>)) \<bar>x\<bar>"

definition fmt_17g_pos :: "int \<Rightarrow> int \<Rightarrow> bytes" where
  "fmt_17g_pos p q =
     (case digits17 p q of (d, x) \<Rightarrow>
      let ds = dec_digits 17 d in
      if -4 \<le> x \<and> x < 17
      then if x \<ge> 0 then with_point (take (nat x + 1) ds) (drop (nat x + 1) ds)
           else with_point [c8 CHR ''0''] (replicate (nat (- x - 1)) (c8 CHR ''0'') @ ds)
      else with_point (take 1 ds) (drop 1 ds) @ fmt_exponent x)"

definition fmt_17g :: "double \<Rightarrow> bytes" where
  "fmt_17g d = (case d of
     Finite s n \<Rightarrow>
       (if s then [c8 CHR ''-''] else []) @
       (if n = 0 then [c8 CHR ''0'']
        else let pq = scale_pow 2 (dbl_sig n) 1 (- dbl_exp n) in fmt_17g_pos (fst pq) (snd pq))
   | Infinity s \<Rightarrow> (if s then bs ''-inf'' else bs ''inf'')
   | NaN s \<Rightarrow> (if s then bs ''-nan'' else bs ''nan''))"

end
