(* ===== verification/DoubleText.thy ===== *)
theory DoubleText
  imports CStd
begin

text \<open>
  Seventeen digits are enough: the text \<open>sprintf\<close> prints with \<open>"%.17g"\<close>
  for a finite double is read back by \<open>strtod\<close> as the same double. The proof bounds the
  decimal rounding error by half the distance to the neighbouring doubles.
\<close>

subsection \<open>Magnitudes as reals\<close>

definition mag :: "int \<Rightarrow> real" where
  "mag n = of_int (dbl_sig n) * 2 powi dbl_exp n"

definition ratio :: "int \<times> int \<Rightarrow> real" where
  "ratio pq = of_int (fst pq) / of_int (snd pq)"

lemma scale_pow_pos:
  "0 < r \<Longrightarrow> 0 < p \<Longrightarrow> 0 < q \<Longrightarrow> 0 < fst (scale_pow r p q e) \<and> 0 < snd (scale_pow r p q e)"
  by (simp add: scale_pow_def)

lemma ratio_scale_pow:
  assumes "0 < r"
  shows "ratio (scale_pow r p q e) = of_int p / of_int q * of_int r powi (- e)"
proof (cases "e \<ge> 0")
  case True
  then show ?thesis using assms
    by (simp add: ratio_def scale_pow_def power_int_minus field_simps) (simp add: power_int_def)
next
  case False
  then show ?thesis using assms by (simp add: ratio_def scale_pow_def power_int_def)
qed

lemma ratio_scale_pow_div:
  "0 < r \<Longrightarrow> ratio (scale_pow r p q e) = ratio (p, q) / of_int r powi e"
  by (simp only: ratio_scale_pow power_int_minus) (simp add: ratio_def divide_inverse)

lemma dbl_sig_bounds:
  assumes "0 \<le> n"
  shows "0 \<le> dbl_sig n" and "dbl_sig n < 2 ^ 53" and "2 ^ 52 \<le> n \<Longrightarrow> 2 ^ 52 \<le> dbl_sig n"
    and "0 < n \<Longrightarrow> 0 < dbl_sig n" and "n = (dbl_exp n + 1074) * 2 ^ 52 + dbl_sig n"
    and "-1074 \<le> dbl_exp n"
proof -
  have m: "0 \<le> n mod 2 ^ 52" "n mod 2 ^ 52 < 2 ^ 52" by simp_all
  have d: "n = n div 2 ^ 52 * 2 ^ 52 + n mod 2 ^ 52" by simp
  show "0 \<le> dbl_sig n" "dbl_sig n < 2 ^ 53" "2 ^ 52 \<le> n \<Longrightarrow> 2 ^ 52 \<le> dbl_sig n"
      "0 < n \<Longrightarrow> 0 < dbl_sig n"
    using assms m by (auto simp: dbl_sig_def)
  show "n = (dbl_exp n + 1074) * 2 ^ 52 + dbl_sig n"
    using d by (simp add: dbl_sig_def dbl_exp_def)
  have "2 ^ 52 \<le> n \<Longrightarrow> 1 \<le> n div 2 ^ 52"
    using zdiv_mono1 [of "2 ^ 52" n "2 ^ 52"] by simp
  then show "-1074 \<le> dbl_exp n" by (auto simp: dbl_exp_def)
qed

lemma mag_pos: "0 < n \<Longrightarrow> 0 < mag n"
  using dbl_sig_bounds(4) [of n] by (simp add: mag_def)

subsection \<open>Logarithms\<close>

lemma ratio_le_iff: "0 < b \<Longrightarrow> x \<le> ratio (a, b) \<longleftrightarrow> x * of_int b \<le> of_int a"
  by (simp add: ratio_def field_simps)

lemma floor_log2_bounds:
  assumes "0 < p" and "0 < q"
  shows "2 powi floor_log2 p q \<le> ratio (p, q)" and "ratio (p, q) < 2 powi (floor_log2 p q + 1)"
proof -
  let ?bp = "bitlen p" and ?bq = "bitlen q"
  let ?l = "?bp - ?bq"
  have pw: "2 powi k = real_of_int (2 ^ nat k)" if "0 \<le> k" for k
    using that by (simp add: power_int_def)
  have P: "2 powi (?bp - 1) \<le> real_of_int p" "real_of_int p < 2 powi ?bp"
    using bitlen_bounds [OF assms(1)] pw [of "?bp - 1"] pw [of ?bp] by (simp_all del: of_int_power)
  have Q: "2 powi (?bq - 1) \<le> real_of_int q" "real_of_int q < 2 powi ?bq"
    using bitlen_bounds [OF assms(2)] pw [of "?bq - 1"] pw [of ?bq] by (simp_all del: of_int_power)
  have q: "0 < real_of_int q" using assms(2) by simp
  have up: "ratio (p, q) < 2 powi (?l + 1)"
  proof -
    have "2 powi (?l + 1) * (2 powi (?bq - 1) :: real) = 2 powi ?bp"
      by (simp flip: power_int_add)
    moreover have "2 powi (?l + 1) * (2 powi (?bq - 1)) \<le> 2 powi (?l + 1) * real_of_int q"
      using Q(1) by simp
    ultimately have "real_of_int p < 2 powi (?l + 1) * real_of_int q" using P(2) by linarith
    then show ?thesis using q by (simp add: ratio_def field_simps)
  qed
  have lo: "2 powi (?l - 1) \<le> ratio (p, q)"
  proof -
    have "2 powi (?l - 1) * (2 powi ?bq :: real) = 2 powi (?bp - 1)"
      by (simp flip: power_int_add)
    moreover have "2 powi (?l - 1) * real_of_int q \<le> 2 powi (?l - 1) * 2 powi ?bq"
      using Q(2) by simp
    ultimately have "2 powi (?l - 1) * real_of_int q \<le> real_of_int p" using P(1) by linarith
    then show ?thesis using q by (simp add: ratio_def field_simps)
  qed
  have "snd (scale_pow 2 p q ?l) \<le> fst (scale_pow 2 p q ?l) \<longleftrightarrow> 1 \<le> ratio (scale_pow 2 p q ?l)"
    using scale_pow_pos [of 2 p q ?l] assms by (simp add: ratio_def)
  also have "\<dots> \<longleftrightarrow> 2 powi ?l \<le> ratio (p, q)"
    by (simp only: ratio_scale_pow_div) (simp add: le_divide_eq)
  finally have c: "floor_log2 p q = (if 2 powi ?l \<le> ratio (p, q) then ?l else ?l - 1)"
    by (simp add: floor_log2_def Let_def)
  show "2 powi floor_log2 p q \<le> ratio (p, q)" "ratio (p, q) < 2 powi (floor_log2 p q + 1)"
    using up lo by (auto simp: c)
qed

lemma powi_less_mono: "1 < (r::real) \<Longrightarrow> r powi a < r powi b \<Longrightarrow> a < b"
  by (meson less_imp_le not_less power_int_increasing)

lemma floor_log2_unique:
  assumes "0 < p" "0 < q" "2 powi l \<le> ratio (p, q)" "ratio (p, q) < 2 powi (l + 1)"
  shows "floor_log2 p q = l"
proof -
  note b = floor_log2_bounds [OF assms(1,2)]
  have "l < floor_log2 p q + 1" by (rule powi_less_mono [of 2]) (use b assms in linarith)+
  moreover have "floor_log2 p q < l + 1" by (rule powi_less_mono [of 2]) (use b assms in linarith)+
  ultimately show ?thesis by simp
qed

subsection \<open>Rounding\<close>

lemma round_half_even_near:
  assumes "0 < b"
  shows "\<bar>of_int (round_half_even a b) - ratio (a, b)\<bar> \<le> 1 / 2"
proof -
  let ?q = "a div b" and ?r = "a mod b"
  have a: "real_of_int a = of_int ?q * of_int b + of_int ?r"
    by (metis div_mult_mod_eq of_int_add of_int_mult)
  have r: "0 \<le> ?r" "?r < b" using assms by simp_all
  have e: "ratio (a, b) = of_int ?q + of_int ?r / of_int b"
    using assms by (simp add: ratio_def a field_simps)
  have 1: "2 * ?r \<le> b \<Longrightarrow> of_int ?r / of_int b \<le> (1/2::real)"
    using assms by (simp add: field_simps)
  have 2: "b \<le> 2 * ?r \<Longrightarrow> (1/2::real) \<le> of_int ?r / of_int b"
    using assms by (simp add: field_simps)
  have 3: "0 \<le> of_int ?r / (of_int b::real)" "of_int ?r / of_int b \<le> (1::real)"
    using assms r by (simp_all add: field_simps)
  show ?thesis
    using 1 2 3 unfolding e by (auto simp: round_half_even_def Let_def abs_le_iff)
qed

lemma round_half_even_unique:
  assumes "0 < b" and "\<bar>ratio (a, b) - of_int i\<bar> < 1 / 2"
  shows "round_half_even a b = i"
proof -
  have "\<bar>real_of_int (round_half_even a b) - of_int i\<bar> < 1"
    using round_half_even_near [OF assms(1), of a] assms(2) by linarith
  then show ?thesis by linarith
qed

lemma ratio_eta [simp]: "ratio (fst x, snd x) = ratio x"
  by simp

lemma abs_div_less:
  assumes "0 < (u::real)"
  shows "\<bar>w / u - s\<bar> < c \<longleftrightarrow> \<bar>w - s * u\<bar> < c * u"
proof -
  have "w / u - s = (w - s * u) / u" using assms by (simp add: field_simps)
  then show ?thesis using assms by (simp add: abs_divide divide_less_eq)
qed

text \<open>A rational nearer to a double than half the distance to either neighbour rounds to it. The
  distance below a power of two is half the one above.\<close>

lemma dbl_round_near:
  assumes "0 < p" "0 < q" "0 < n" "n < 2047 * 2 ^ 52"
    and near: "\<bar>ratio (p, q) - mag n\<bar> < 2 powi dbl_exp n / 2"
    and below: "dbl_sig n = 2 ^ 52 \<Longrightarrow> mag n - ratio (p, q) < 2 powi dbl_exp n / 4"
  shows "dbl_round s p q = Finite s n"
proof -
  let ?E = "dbl_exp n" and ?S = "dbl_sig n" and ?w = "ratio (p, q)"
  note S = dbl_sig_bounds [of n]
  have u: "0 < (2 powi ?E :: real)" by simp
  have pos: "0 < ?w" using assms(1,2) by (simp add: ratio_def)
  have sig: "\<bar>?w / 2 powi ?E - of_int ?S\<bar> < 1 / 2"
    by (subst abs_div_less [OF u]) (use near in \<open>simp add: mag_def\<close>)
  have sigS: "real_of_int ?S \<le> 2 ^ 53 - 1"
  proof -
    have "?S \<le> 2 ^ 53 - 1" using S(2) assms(3) by simp
    then have "real_of_int ?S \<le> of_int (2 ^ 53 - 1)" by (simp only: of_int_le_iff)
    then show ?thesis by simp
  qed
  have top: "?w < 2 powi (?E + 53)"
  proof -
    have "?w / 2 powi ?E < 2 ^ 53" using sig sigS by linarith
    then show ?thesis using u by (simp add: power_int_add field_simps)
  qed
  define l where "l = floor_log2 p q"
  define e where "e = max (-1074) (l - 52)"
  have l: "2 powi l \<le> ?w" "?w < 2 powi (l + 1)"
    using floor_log2_bounds [OF assms(1,2)] by (simp_all add: l_def)
  have lE: "l < ?E + 53"
    by (rule powi_less_mono [of 2]) (use l top in linarith)+
  let ?ab = "scale_pow 2 p q e"
  have b: "0 < snd ?ab" using scale_pow_pos [of 2 p q e] assms by simp
  have ab: "ratio ?ab = ?w / 2 powi e" by (simp add: ratio_scale_pow_div)
  have "(e + 1074) * 2 ^ 52 + round_half_even (fst ?ab) (snd ?ab) = n"
  proof (cases "e = ?E")
    case True
    have "round_half_even (fst ?ab) (snd ?ab) = ?S"
      by (rule round_half_even_unique [OF b]) (use sig ab True in simp)
    then show ?thesis using S(5) assms(3) True by simp
  next
    case False
    have "e < ?E" using False lE S(6) assms(3) by (auto simp: e_def)
    then have n52: "2 ^ 52 \<le> n" using S(6) assms(3)
      by (auto simp: e_def dbl_exp_def split: if_splits)
    have "l + 1 < ?E + 53" using \<open>e < ?E\<close> by (auto simp: e_def)
    then have "?w < 2 powi (?E + 52)"
      using l(2) power_int_increasing [of "l + 1" "?E + 52" "2::real"] by linarith
    then have w52: "?w / 2 powi ?E < 2 ^ 52" using u by (simp add: power_int_add field_simps)
    have S52: "?S = 2 ^ 52"
    proof (rule ccontr)
      assume "?S \<noteq> 2 ^ 52"
      then have "2 ^ 52 + 1 \<le> ?S" using S(3) n52 by simp
      then have "real_of_int (2 ^ 52 + 1) \<le> of_int ?S" by (simp only: of_int_le_iff)
      then have "2 ^ 52 + 1 \<le> real_of_int ?S" by simp
      then show False using sig w52 by linarith
    qed
    then have q4: "2 ^ 52 - ?w / 2 powi ?E < 1 / 4"
      using below u by (simp add: mag_def field_simps)
    have "2 powi (?E + 51) \<le> ?w"
    proof -
      have "2 ^ 51 \<le> x" if "2 ^ 52 - x < 1 / 4" for x :: real using that by simp
      from this [OF q4] have "2 ^ 51 \<le> ?w / 2 powi ?E" .
      then show ?thesis using u by (simp add: power_int_add field_simps)
    qed
    then have "?E + 51 < l + 1"
      by (intro powi_less_mono [of 2 "?E + 51" "l + 1"]) (use l in linarith)+
    then have e1: "e = ?E - 1" using \<open>e < ?E\<close> S(6) by (auto simp: e_def)
    have ab2: "ratio ?ab = 2 * (?w / 2 powi ?E)"
      unfolding ab by (simp add: e1 power_int_diff)
    have "round_half_even (fst ?ab) (snd ?ab) = 2 ^ 53"
    proof (rule round_half_even_unique [OF b])
      have "\<bar>2 * x - 2 ^ 53\<bar> < 1 / 2" if "x < 2 ^ 52" "2 ^ 52 - x < 1 / 4" for x :: real
        using that by (simp add: abs_less_iff)
      from this [OF w52 q4] show "\<bar>ratio (fst ?ab, snd ?ab) - of_int (2 ^ 53)\<bar> < 1 / 2"
        by (simp add: ab2)
    qed
    then show ?thesis using S(5) assms(3) e1 S52 by simp
  qed
  then show ?thesis
    using assms(1,4) by (simp add: dbl_round_def Let_def e_def l_def)
qed

subsection \<open>Decimal digits\<close>

lemma declen_0 [simp]: "declen 0 = 0"
  by (simp add: declen.simps)

lemma declen_bounds:
  "0 < n \<Longrightarrow> 0 < declen n \<and> 10 ^ (declen n - 1) \<le> n \<and> n < 10 ^ declen n"
proof (induction n rule: declen.induct)
  case (1 n)
  have b: "declen n = Suc (declen (n div 10))" using "1.prems" by (simp add: declen.simps [of n])
  show ?case
  proof (cases "n div 10 = 0")
    case True
    with "1.prems" show ?thesis by (simp add: b)
  next
    case False
    with "1.prems" have p: "0 < n div 10" by simp
    then have IH: "0 < declen (n div 10)" "10 ^ (declen (n div 10) - 1) \<le> n div 10"
        "n div 10 < 10 ^ declen (n div 10)"
      using "1.IH" "1.prems" by simp_all
    have e: "declen (n div 10) = Suc (declen (n div 10) - 1)" using IH(1) by simp
    have "10 ^ declen (n div 10) \<le> n" by (subst e) (use IH(2) in simp)
    moreover have "n < 10 ^ Suc (declen (n div 10))" using IH(3) by simp
    ultimately show ?thesis using IH(1) by (simp add: b)
  qed
qed

lemma length_dec_digits [simp]: "length (dec_digits k n) = k"
  by (induction k arbitrary: n) simp_all

lemma isdigit_hexval: "isdigit b \<Longrightarrow> hexval b = Some (uint b - 48)"
  by (simp add: hexval_def)

lemma dec_digits_isdigit: "0 \<le> n \<Longrightarrow> b \<in> set (dec_digits k n) \<Longrightarrow> isdigit b"
proof (induction k arbitrary: n)
  case 0
  then show ?case by simp
next
  case (Suc k)
  have "0 \<le> n div 10" using Suc.prems(1) by simp
  with Suc show ?case by (auto simp: digit_char_facts)
qed

lemma digits_val_snoc: "digits_val r (ds @ [b]) = digits_val r ds * r + the (hexval b)"
  by (simp add: digits_val_def)

lemma digits_val_dec_digits: "0 \<le> n \<Longrightarrow> n < 10 ^ k \<Longrightarrow> digits_val 10 (dec_digits k n) = n"
proof (induction k arbitrary: n)
  case 0
  then show ?case by (simp add: digits_val_def)
next
  case (Suc k)
  then have "n div 10 < 10 ^ k" by simp
  with Suc have "digits_val 10 (dec_digits k (n div 10)) = n div 10" by simp
  moreover have "the (hexval (digit_char (n mod 10))) = n mod 10"
    using digit_char_facts [of "n mod 10"] by (simp add: isdigit_hexval)
  ultimately show ?case by (simp add: digits_val_snoc)
qed

lemma digits_val_replicate_0:
  "digits_val 10 (ds @ replicate k (c8 CHR ''0'')) = digits_val 10 ds * 10 ^ k"
proof (induction k)
  case 0
  then show ?case by simp
next
  case (Suc k)
  have "digits_val 10 (ds @ replicate (Suc k) (c8 CHR ''0''))
      = digits_val 10 ((ds @ replicate k (c8 CHR ''0'')) @ [c8 CHR ''0''])"
    by (simp only: replicate_Suc append_assoc flip: replicate_append_same)
  also have "\<dots> = digits_val 10 ds * 10 ^ Suc k"
    using Suc by (simp only: digits_val_snoc) (simp add: hexval_def isdigit_def)
  finally show ?case .
qed

lemma digits_val_leading_0 [simp]: "digits_val 10 (replicate k (c8 CHR ''0'') @ ds) = digits_val 10 ds"
  by (induction k) (simp_all add: digits_val_def hexval_def isdigit_def)

lemma strip_zeros_split: "\<exists>k. fp = strip_zeros fp @ replicate k (c8 CHR ''0'')"
proof -
  let ?t = "takeWhile (\<lambda>b. b = c8 CHR ''0'') (rev fp)"
  have "?t = replicate (length ?t) (c8 CHR ''0'')"
    by (rule replicate_eqI [OF refl]) (auto dest: set_takeWhileD)
  moreover have "strip_zeros fp @ rev ?t = fp"
    unfolding strip_zeros_def by (simp flip: rev_append)
  ultimately have "fp = strip_zeros fp @ replicate (length ?t) (c8 CHR ''0'')"
    by (metis rev_replicate)
  then show ?thesis by blast
qed

lemma set_strip_zeros: "set (strip_zeros fp) \<subseteq> set fp"
  unfolding strip_zeros_def by (auto dest: set_dropWhileD)

lemma div_mult_bounds:
  assumes "0 < (b::int)"
  shows "a div b * b \<le> a" and "a < (a div b + 1) * b"
proof -
  note * = div_mult_mod_eq [of a b] pos_mod_bound [OF assms, of a] pos_mod_sign [OF assms, of a]
  show "a div b * b \<le> a" using * by linarith
  show "a < (a div b + 1) * b" unfolding distrib_right using * by linarith
qed

lemma floor_log10_bounds:
  assumes "0 < p" and "0 < q"
  shows "10 powi floor_log10 p q \<le> ratio (p, q)" and "ratio (p, q) < 10 powi (floor_log10 p q + 1)"
proof -
  have pw: "10 powi int k = real_of_int (10 ^ k)" for k by (simp add: power_int_def)
  have q: "0 < real_of_int q" and p: "0 < real_of_int p" using assms by simp_all
  have "10 powi floor_log10 p q \<le> ratio (p, q) \<and> ratio (p, q) < 10 powi (floor_log10 p q + 1)"
  proof (cases "q \<le> p")
    case True
    let ?d = "p div q" and ?k = "declen (p div q)"
    have d: "0 < ?d" using True assms by (simp add: pos_imp_zdiv_pos_iff)
    note k = declen_bounds [OF d]
    have le: "?d * q \<le> p" and lt: "p < (?d + 1) * q"
      by (rule div_mult_bounds [OF assms(2)])+
    have "10 ^ (?k - 1) * q \<le> p"
      using mult_right_mono [of "10 ^ (?k - 1)" ?d q] k le assms by linarith
    moreover have "p < 10 ^ ?k * q"
      using mult_right_mono [of "?d + 1" "10 ^ ?k" q] k lt assms by linarith
    ultimately have "real_of_int (10 ^ (?k - 1)) * of_int q \<le> of_int p"
        "real_of_int p < of_int (10 ^ ?k) * of_int q"
      by (simp_all only: flip: of_int_mult of_int_le_iff of_int_less_iff)
    moreover have "floor_log10 p q = int (?k - 1)" "floor_log10 p q + 1 = int ?k"
      using True k by (simp_all add: floor_log10_def)
    ultimately show ?thesis
      using q pw [of "?k - 1"] pw [of ?k] by (simp add: ratio_def le_divide_eq divide_less_eq)
  next
    case False
    let ?m = "(q - 1) div p" and ?k = "declen ((q - 1) div p)"
    have m: "0 < ?m" using False assms by (simp add: pos_imp_zdiv_pos_iff)
    note k = declen_bounds [OF m]
    have le: "?m * p \<le> q - 1" and lt: "q - 1 < (?m + 1) * p"
      by (rule div_mult_bounds [OF assms(1)])+
    have "10 ^ (?k - 1) * p < q"
      using mult_right_mono [of "10 ^ (?k - 1)" ?m p] k le assms by linarith
    moreover have "q \<le> 10 ^ ?k * p"
      using mult_right_mono [of "?m + 1" "10 ^ ?k" p] k lt assms by linarith
    ultimately have r: "real_of_int (10 ^ (?k - 1)) * of_int p < of_int q"
        "real_of_int q \<le> of_int (10 ^ ?k) * of_int p"
      by (simp_all only: flip: of_int_mult of_int_le_iff of_int_less_iff)
    have x: "floor_log10 p q = - int ?k" "floor_log10 p q + 1 = - int (?k - 1)"
      using False k by (simp_all add: floor_log10_def)
    have A: "1 / real_of_int (10 ^ ?k) \<le> ratio (p, q)" "ratio (p, q) < 1 / real_of_int (10 ^ (?k - 1))"
      using q p r by (simp_all add: ratio_def field_simps)
    show ?thesis
      unfolding x(2) unfolding x(1) power_int_minus_divide pw using A by simp
  qed
  then show "10 powi floor_log10 p q \<le> ratio (p, q)" "ratio (p, q) < 10 powi (floor_log10 p q + 1)"
    by simp_all
qed

lemma digits17_bounds:
  assumes "0 < p" "0 < q" and "digits17 p q = (d, x)"
  shows "10 ^ 16 \<le> d" and "d < 10 ^ 17"
    and "\<bar>of_int d * 10 powi (x - 16) - ratio (p, q)\<bar> \<le> ratio (p, q) * (5 / 10 ^ 17)"
    and "x \<in> {floor_log10 p q, floor_log10 p q + 1}"
proof -
  let ?X = "floor_log10 p q" and ?w = "ratio (p, q)"
  let ?ab = "scale_pow 10 p q (?X - 16)"
  let ?r = "round_half_even (fst ?ab) (snd ?ab)"
  note X = floor_log10_bounds [OF assms(1,2)]
  define t :: real where "t = 10 powi (?X - 16)"
  have t: "0 < t" by (simp add: t_def)
  have e: "10 powi ?X = t * 10 ^ 16" "10 powi (?X + 1) = t * 10 ^ 17"
    using power_int_add [of "10::real" "?X - 16" 16] power_int_add [of "10::real" "?X - 16" 17]
    by (simp_all add: t_def add.commute)
  have ab: "ratio ?ab = ?w / t" by (simp add: ratio_scale_pow_div t_def)
  have "10 ^ 16 \<le> ?w / t" "?w / t < 10 ^ 17"
    using X t unfolding e by (simp_all add: field_simps)
  moreover have n: "\<bar>of_int ?r - ?w / t\<bar> \<le> 1 / 2"
    using round_half_even_near [of "snd ?ab" "fst ?ab"] scale_pow_pos [of 10 p q] assms by (simp add: ab)
  ultimately have "10 ^ 16 - 1 < real_of_int ?r" "real_of_int ?r < 10 ^ 17 + 1"
    by linarith+
  then have "real_of_int (10 ^ 16 - 1) < of_int ?r" "real_of_int ?r < of_int (10 ^ 17 + 1)"
    by simp_all
  then have r: "10 ^ 16 \<le> ?r" "?r \<le> 10 ^ 17"
    by (simp_all only: of_int_less_iff)
  have err: "\<bar>of_int ?r * t - ?w\<bar> \<le> ?w * (5 / 10 ^ 17)"
  proof -
    have "of_int ?r * t - ?w = (of_int ?r - ?w / t) * t" using t by (simp add: field_simps)
    then have "\<bar>of_int ?r * t - ?w\<bar> \<le> 1 / 2 * t"
      using mult_right_mono [OF n, of t] t by (simp add: abs_mult)
    moreover have "t * 10 ^ 16 \<le> ?w" using X(1) e(1) by simp
    ultimately show ?thesis by simp
  qed
  have dx: "(d, x) = (if ?r = 10 ^ 17 then (10 ^ 16, ?X + 1) else (?r, ?X))"
    using assms(3) by (simp add: digits17_def Let_def)
  show "10 ^ 16 \<le> d" "d < 10 ^ 17" "x \<in> {?X, ?X + 1}"
    using dx r by (auto split: if_splits)
  have "of_int d * 10 powi (x - 16) = of_int ?r * t"
  proof (cases "?r = 10 ^ 17")
    case True
    have "10 powi (?X + 1 - 16) = 10 * t"
      using power_int_add [of "10::real" "?X - 16" 1] by (simp add: t_def algebra_simps)
    with dx True show ?thesis by (simp only: if_True prod.inject) simp
  next
    case False
    with dx show ?thesis by (simp add: t_def)
  qed
  with err show "\<bar>of_int d * 10 powi (x - 16) - ?w\<bar> \<le> ?w * (5 / 10 ^ 17)" by simp
qed

subsection \<open>Reading the text back\<close>

text \<open>What may follow a number without being taken for a part of it.\<close>

definition num_stop :: "bytes \<Rightarrow> bool" where
  "num_stop r \<longleftrightarrow> (r = [] \<or> (\<not> isdigit (hd r) \<and> hd r \<noteq> c8 CHR ''.'' \<and> tolower (hd r) \<noteq> c8 CHR ''e''
     \<and> tolower (hd r) \<noteq> c8 CHR ''x''))"

lemma takeWhile_stop:
  assumes "\<forall>b \<in> set ds. P b" and "r = [] \<or> \<not> P (hd r)"
  shows "takeWhile P (ds @ r) = ds" and "dropWhile P (ds @ r) = r"
  using assms by (cases r; simp)+

lemma scan_mantissa_with_point:
  assumes "\<forall>b \<in> set ip. isdigit b" "\<forall>b \<in> set fp. isdigit b"
    and "r = [] \<or> (\<not> isdigit (hd r) \<and> hd r \<noteq> c8 CHR ''.'')"
  shows "scan_mantissa isdigit (with_point ip fp @ r) = (ip, strip_zeros fp, r)"
proof (cases "strip_zeros fp = []")
  case True
  have "takeWhile isdigit (ip @ r) = ip" "dropWhile isdigit (ip @ r) = r"
    using takeWhile_stop [of ip isdigit r] assms by auto
  then show ?thesis using assms(3) True by (auto simp: scan_mantissa_def with_point_def)
next
  case False
  let ?r = "c8 CHR ''.'' # strip_zeros fp @ r"
  have "takeWhile isdigit (ip @ ?r) = ip" "dropWhile isdigit (ip @ ?r) = ?r"
    using takeWhile_stop [of ip isdigit ?r] assms by (auto simp: isdigit_def)
  moreover have "\<forall>b \<in> set (strip_zeros fp). isdigit b" using set_strip_zeros assms(2) by blast
  then have "takeWhile isdigit (strip_zeros fp @ r) = strip_zeros fp"
      "dropWhile isdigit (strip_zeros fp @ r) = r"
    using takeWhile_stop [of "strip_zeros fp" isdigit r] assms by auto
  ultimately show ?thesis using False by (simp add: scan_mantissa_def with_point_def)
qed

lemma strtod_dec_with_point:
  assumes "\<forall>b \<in> set ip. isdigit b" "\<forall>b \<in> set fp. isdigit b" "ip \<noteq> []"
    and "r = [] \<or> (\<not> isdigit (hd r) \<and> hd r \<noteq> c8 CHR ''.'')"
    and "scan_exponent (c8 CHR ''e'') r = (x, r')" and "0 < digits_val 10 (ip @ fp)"
  shows "\<exists>a b. strtod_dec neg (with_point ip fp @ r) = Some (dbl_round neg a b, r') \<and> 0 < a \<and> 0 < b
    \<and> ratio (a, b) = of_int (digits_val 10 (ip @ fp)) * 10 powi (x - int (length fp))"
proof -
  obtain k where k: "fp = strip_zeros fp @ replicate k (c8 CHR ''0'')"
    using strip_zeros_split [of fp] by blast
  let ?f = "strip_zeros fp"
  let ?m = "digits_val 10 (ip @ ?f)"
  have v: "digits_val 10 (ip @ fp) = ?m * 10 ^ k"
    by (subst k) (metis append_assoc digits_val_replicate_0)
  have l: "length fp = length ?f + k" by (subst k) simp
  let ?ab = "scale_pow 10 ?m 1 (int (length ?f) - x)"
  have m: "0 < ?m" using v assms(6) by (simp add: zero_less_mult_iff)
  have "strtod_dec neg (with_point ip fp @ r) = Some (dbl_round neg (fst ?ab) (snd ?ab), r')"
    using assms(3,5) scan_mantissa_with_point [OF assms(1,2,4)] by (simp add: strtod_dec_def Let_def)
  moreover have "0 < fst ?ab \<and> 0 < snd ?ab" using scale_pow_pos [of 10 ?m 1] m by simp
  moreover have "ratio ?ab = of_int (digits_val 10 (ip @ fp)) * 10 powi (x - int (length fp))"
  proof -
    have "(10::real) ^ k * 10 powi (x - int (length fp)) = 10 powi (x - int (length ?f))"
      using power_int_add [of "10::real" "int k" "x - int (length fp)"] by (simp add: l)
    then show ?thesis by (simp add: ratio_scale_pow v)
  qed
  ultimately show ?thesis by (metis ratio_eta)
qed

lemma scan_exponent_fmt:
  assumes "r = [] \<or> \<not> isdigit (hd r)"
  shows "scan_exponent (c8 CHR ''e'') (fmt_exponent x @ r) = (x, r)"
proof -
  let ?ds = "dec_digits (max 2 (declen \<bar>x\<bar>)) \<bar>x\<bar>"
  have d: "\<forall>b \<in> set ?ds. isdigit b" using dec_digits_isdigit [of "\<bar>x\<bar>"] by auto
  have v: "digits_val 10 ?ds = \<bar>x\<bar>"
  proof (rule digits_val_dec_digits)
    show "\<bar>x\<bar> < 10 ^ max 2 (declen \<bar>x\<bar>)"
    proof (cases "x = 0")
      case False
      have "(10::int) ^ declen \<bar>x\<bar> \<le> 10 ^ max 2 (declen \<bar>x\<bar>)" by (rule power_increasing) auto
      then show ?thesis using declen_bounds [of "\<bar>x\<bar>"] False by linarith
    qed simp
  qed simp
  have ne: "?ds \<noteq> []" using length_dec_digits [of "max 2 (declen \<bar>x\<bar>)" "\<bar>x\<bar>"] by fastforce
  have tw: "takeWhile isdigit (?ds @ r) = ?ds" "dropWhile isdigit (?ds @ r) = r"
    using takeWhile_stop [OF d assms] by auto
  show ?thesis
    using v ne tw
    by (cases "x < 0") (simp_all add: scan_exponent_def fmt_exponent_def tolower_def Let_def)
qed

lemma scan_exponent_stop:
  "num_stop r \<Longrightarrow> scan_exponent (c8 CHR ''e'') r = (0, r)"
  by (auto simp: scan_exponent_def num_stop_def)

lemma strtod_dec_fmt:
  assumes "0 < p" "0 < q" "num_stop r" "digits17 p q = (d, x)"
  shows "\<exists>a b. strtod_dec neg (fmt_17g_pos p q @ r) = Some (dbl_round neg a b, r) \<and> 0 < a \<and> 0 < b
    \<and> ratio (a, b) = of_int d * 10 powi (x - 16)"
proof -
  note D = digits17_bounds [OF assms(1,2,4)]
  let ?ds = "dec_digits 17 d"
  have ds: "\<forall>b \<in> set ?ds. isdigit b" using dec_digits_isdigit [of d _ 17] D(1) by auto
  have v: "digits_val 10 ?ds = d" by (rule digits_val_dec_digits) (use D in simp_all)
  have dpos: "0 < d" using D(1) by simp
  have st: "r = [] \<or> (\<not> isdigit (hd r) \<and> hd r \<noteq> c8 CHR ''.'')"
    using assms(3) by (auto simp: num_stop_def)
  have tk: "\<forall>b \<in> set (take n ?ds). isdigit b" "\<forall>b \<in> set (drop n ?ds). isdigit b" for n
    using ds by (auto dest: in_set_takeD in_set_dropD)
  consider (fixed) "0 \<le> x" "x < 17" | (small) "-4 \<le> x" "x < 0" | (exp) "\<not> (-4 \<le> x \<and> x < 17)"
    by linarith
  then show ?thesis
  proof cases
    case fixed
    have f: "fmt_17g_pos p q = with_point (take (nat x + 1) ?ds) (drop (nat x + 1) ?ds)"
      using fixed by (simp add: fmt_17g_pos_def assms(4) Let_def)
    have l: "int (length (drop (nat x + 1) ?ds)) = 16 - x" using fixed by simp
    have "take (nat x + 1) ?ds \<noteq> []"
      using length_dec_digits [of 17 d] by (metis Zero_not_Suc add_is_0 length_0_conv take_eq_Nil zero_neq_numeral zero_neq_one)
    from strtod_dec_with_point [OF tk(1) tk(2) [of "nat x + 1"] this st scan_exponent_stop [OF assms(3)], where neg = neg]
    show ?thesis unfolding f using dpos by (simp only: append_take_drop_id v l) simp
  next
    case small
    let ?fp = "replicate (nat (- x - 1)) (c8 CHR ''0'') @ ?ds"
    have f: "fmt_17g_pos p q = with_point [c8 CHR ''0''] ?fp"
      using small by (simp add: fmt_17g_pos_def assms(4) Let_def)
    have l: "int (length ?fp) = 16 - x" using small by simp
    have vv: "digits_val 10 ([c8 CHR ''0''] @ ?fp) = d"
      using digits_val_leading_0 [of "Suc (nat (- x - 1))" ?ds] v by simp
    have "\<forall>b \<in> set ?fp. isdigit b" using ds by (auto simp: isdigit_def)
    from strtod_dec_with_point [OF _ this _ st scan_exponent_stop [OF assms(3)], where ip = "[c8 CHR ''0'']" and neg = neg]
    show ?thesis unfolding f vv l using dpos by (simp add: isdigit_def)
  next
    case exp
    have f: "fmt_17g_pos p q = with_point (take 1 ?ds) (drop 1 ?ds) @ fmt_exponent x"
      using exp by (auto simp: fmt_17g_pos_def assms(4) Let_def)
    have l: "int (length (drop 1 ?ds)) = 16" by simp
    have ne: "take 1 ?ds \<noteq> []"
      using length_dec_digits [of 17 d] by (metis One_nat_def Zero_not_Suc length_0_conv take_eq_Nil zero_neq_numeral)
    have e: "scan_exponent (c8 CHR ''e'') (fmt_exponent x @ r) = (x, r)"
      by (rule scan_exponent_fmt) (use st in blast)
    have s2: "fmt_exponent x @ r = [] \<or> (\<not> isdigit (hd (fmt_exponent x @ r)) \<and> hd (fmt_exponent x @ r) \<noteq> c8 CHR ''.'')"
      by (simp add: fmt_exponent_def isdigit_def)
    from strtod_dec_with_point [OF tk(1) tk(2) [of 1] ne s2 e, where neg = neg]
    show ?thesis unfolding f append_assoc using dpos by (simp only: append_take_drop_id v l)
  qed
qed

text \<open>The first two characters, which decide what \<open>strtod\<close> looks for.\<close>

definition num_start :: "bytes \<Rightarrow> bool" where
  "num_start t \<longleftrightarrow> t \<noteq> [] \<and> isdigit (hd t)
     \<and> (hd t = c8 CHR ''0'' \<longrightarrow> tl t = [] \<or> tolower (hd (tl t)) \<noteq> c8 CHR ''x'')"

lemma strtod_num_start:
  assumes "num_start t" and "strtod_dec neg t = Some res"
  shows "strtod_body neg t = Some res"
    and "strtod ((if neg then [c8 CHR ''-''] else []) @ t) = res"
proof -
  obtain b u where t: "t = b # u" "isdigit b" using assms(1) by (cases t) (auto simp: num_start_def)
  have "strip_prefix_ci (bs ''0x'') t = None"
  proof (cases "b = 48")
    case True
    then show ?thesis using assms(1) t
      by (cases u) (auto simp: strip_prefix_ci_def num_start_def tolower_def split: if_splits)
  next
    case False
    then have "tolower b \<noteq> 48" using t(2) by (auto simp: tolower_def isdigit_def)
    then show ?thesis by (simp add: strip_prefix_ci_def t)
  qed
  with assms(2) show *: "strtod_body neg t = Some res" by (simp add: strtod_body_def)
  have b: "b \<noteq> 45" "b \<noteq> 43" "\<not> isspace b" "\<not> isspace (45 :: byte)"
    using t(2) by (auto simp: isspace_def isdigit_def) (simp_all add: word_le_nat_alt)
  show "strtod ((if neg then [c8 CHR ''-''] else []) @ t) = res"
    using * b by (cases neg) (simp_all add: strtod_def t(1))
qed

lemma hd_dec_digits: "hd (dec_digits (Suc n) d) = digit_char (d div 10 ^ n mod 10)"
proof (induction n arbitrary: d)
  case 0
  then show ?case by simp
next
  case (Suc n)
  have "hd (dec_digits (Suc (Suc n)) d) = hd (dec_digits (Suc n) (d div 10))"
    by (subst dec_digits.simps(2), rule hd_append2) simp
  also have "\<dots> = digit_char (d div 10 div 10 ^ n mod 10)" by (rule Suc)
  finally show ?case by (simp add: zdiv_zmult2_eq)
qed

lemma num_start_append:
  "t \<noteq> [] \<Longrightarrow> isdigit (hd t) \<Longrightarrow> hd t \<noteq> c8 CHR ''0'' \<Longrightarrow> num_start (t @ r)"
  by (simp add: num_start_def)

lemma fmt_17g_pos_start:
  assumes "0 < p" "0 < q" "num_stop r"
  shows "num_start (fmt_17g_pos p q @ r)"
proof -
  obtain d x where dx: "digits17 p q = (d, x)" by fastforce
  note D = digits17_bounds [OF assms(1,2) dx]
  let ?ds = "dec_digits 17 d"
  have ds: "?ds = hd ?ds # tl ?ds" using length_dec_digits [of 17 d] by (cases ?ds) auto
  have "hd ?ds = digit_char (d div 10 ^ 16 mod 10)" using hd_dec_digits [of 16 d] by simp
  moreover have "d div 10 ^ 16 < 10" "1 \<le> d div 10 ^ 16"
    using D zdiv_mono1 [of "10 ^ 16" d "10 ^ 16"] by simp_all
  then have "1 \<le> d div 10 ^ 16 mod 10" by simp
  ultimately have h: "isdigit (hd ?ds)" "hd ?ds \<noteq> 48"
    using digit_char_facts [of "d div 10 ^ 16 mod 10"] by auto
  have w: "num_start (with_point (take (Suc n) ?ds) fp @ e)" for n fp e
    using h by (subst (1) ds) (simp add: with_point_def num_start_def)
  have z: "num_start (with_point [48] fp @ r)" for fp
    using assms(3) by (auto simp: with_point_def num_start_def isdigit_def num_stop_def tolower_def)
  show ?thesis
    using w [of "nat x"] w [of 0] z by (simp add: fmt_17g_pos_def dx Let_def)
qed

lemma strtod_fmt_17g_finite:
  assumes "0 \<le> n" "n < 2047 * 2 ^ 52" "num_stop r"
  shows "strtod (fmt_17g (Finite s n) @ r) = (Finite s n, r)"
proof (cases "n = 0")
  case True
  have st: "r = [] \<or> \<not> isdigit (hd r)" "r = [] \<or> hd r \<noteq> c8 CHR ''.''"
    using assms(3) by (auto simp: num_stop_def)
  then have "scan_mantissa isdigit ([c8 CHR ''0''] @ r) = ([c8 CHR ''0''], [], r)"
    using takeWhile_stop [of "[c8 CHR ''0'']" isdigit r] by (auto simp: scan_mantissa_def isdigit_def)
  moreover have "digits_val 10 [c8 CHR ''0''] = 0"
    by (simp add: digits_val_def hexval_def isdigit_def)
  ultimately have "strtod_dec s ([c8 CHR ''0''] @ r) = Some (Finite s 0, r)"
    using scan_exponent_stop [OF assms(3)]
    by (simp add: strtod_dec_def scale_pow_def dbl_round_def Let_def)
  moreover have "num_start ([c8 CHR ''0''] @ r)"
    using assms(3) by (auto simp: num_start_def isdigit_def num_stop_def)
  ultimately show ?thesis
    using strtod_num_start(2) [of "[c8 CHR ''0''] @ r" s] True by (simp add: fmt_17g_def)
next
  case False
  let ?pq = "scale_pow 2 (dbl_sig n) 1 (- dbl_exp n)"
  let ?p = "fst ?pq" and ?q = "snd ?pq"
  have n: "0 < n" using False assms(1) by simp
  note S = dbl_sig_bounds [OF assms(1)]
  have pq: "0 < ?p" "0 < ?q" using scale_pow_pos [of 2 "dbl_sig n" 1] S(4) n by simp_all
  have m: "ratio (?p, ?q) = mag n" by (simp add: ratio_scale_pow mag_def)
  obtain d x where dx: "digits17 ?p ?q = (d, x)" by fastforce
  from strtod_dec_fmt [OF pq assms(3) dx, of s] obtain a b where ab:
      "strtod_dec s (fmt_17g_pos ?p ?q @ r) = Some (dbl_round s a b, r)" "0 < a" "0 < b"
      "ratio (a, b) = of_int d * 10 powi (x - 16)" by blast
  let ?u = "2 powi dbl_exp n :: real"
  have u: "0 < ?u" by simp
  have err: "\<bar>ratio (a, b) - mag n\<bar> \<le> of_int (dbl_sig n) * ?u * (5 / 10 ^ 17)"
    using digits17_bounds(3) [OF pq dx] unfolding ab(4) m by (simp add: mag_def)
  have "dbl_round s a b = Finite s n"
  proof (rule dbl_round_near [OF ab(2,3) n assms(2)])
    have "real_of_int (dbl_sig n) \<le> of_int (2 ^ 53)" using S(2) by (simp only: of_int_le_iff)
    then have "of_int (dbl_sig n) * ?u \<le> 2 ^ 53 * ?u" using u by simp
    moreover have "e < v / 2" if "e \<le> t * (5 / 10 ^ 17)" "t \<le> 2 ^ 53 * v" "0 < v" for e t v :: real
      using that by simp
    ultimately show "\<bar>ratio (a, b) - mag n\<bar> < ?u / 2" using err u by blast
  next
    assume "dbl_sig n = 2 ^ 52"
    then have "\<bar>ratio (a, b) - mag n\<bar> \<le> 2 ^ 52 * ?u * (5 / 10 ^ 17)" using err by simp
    moreover have "e < v / 4" if "e \<le> 2 ^ 52 * v * (5 / 10 ^ 17)" "0 < v" for e v :: real
      using that by simp
    ultimately have "\<bar>ratio (a, b) - mag n\<bar> < ?u / 4" using u by blast
    then show "mag n - ratio (a, b) < ?u / 4" by linarith
  qed
  then have "strtod_dec s (fmt_17g_pos ?p ?q @ r) = Some (Finite s n, r)" using ab(1) by simp
  from strtod_num_start(2) [OF fmt_17g_pos_start [OF pq assms(3)] this] show ?thesis
    using False by (simp add: fmt_17g_def Let_def)
qed

subsection \<open>Length of the text\<close>

lemma declen_le: "0 \<le> n \<Longrightarrow> n < 10 ^ k \<Longrightarrow> declen n \<le> k"
proof (cases "n = 0")
  case False
  assume "0 \<le> n" "n < 10 ^ k"
  with False declen_bounds [of n] have "(10::int) ^ (declen n - 1) < 10 ^ k" by linarith
  then have "declen n - 1 < k" by (rule power_less_imp_less_exp [rotated]) simp
  then show ?thesis by simp
qed simp

lemma length_with_point: "length (with_point ip fp) \<le> length ip + 1 + length fp"
  using strip_zeros_split [of fp] by (auto simp: with_point_def) (metis length_append le_add1)

lemma mag_exponent_range:
  assumes "0 < n" "n < 2047 * 2 ^ 52"
  shows "mag n < 10 powi 400" and "10 powi (- 400) < mag n"
proof -
  note S = dbl_sig_bounds [of n]
  have "real_of_int (dbl_sig n) < of_int (2 ^ 53)" using S(2) assms(1) by (simp only: of_int_less_iff)
  then have "mag n < 2 ^ 53 * 2 powi dbl_exp n" by (simp add: mag_def)
  also have "\<dots> = 2 powi (dbl_exp n + 53)" by (simp add: power_int_add)
  also have "\<dots> \<le> 2 powi 1024"
  proof (rule power_int_increasing)
    have "n div 2 ^ 52 < 2047" using assms by (simp add: div_less_iff_less_mult)
    then show "dbl_exp n + 53 \<le> 1024" by (simp add: dbl_exp_def)
  qed simp
  also have "\<dots> < 10 powi 400" by simp
  finally show "mag n < 10 powi 400" .
  have "10 powi (- 400) < (2 powi (- 1074) :: real)" by simp
  also have "\<dots> \<le> 2 powi dbl_exp n" using S(6) assms(1) by (intro power_int_increasing) simp_all
  also have "\<dots> \<le> of_int (dbl_sig n) * 2 powi dbl_exp n"
    using S(4) assms(1) by simp
  finally show "10 powi (- 400) < mag n" by (simp add: mag_def)
qed

lemma length_fmt_17g:
  assumes "dbl_wf d"
  shows "length (fmt_17g d) \<le> 24"
proof (cases d)
  case (Finite s n)
  show ?thesis
  proof (cases "n = 0")
    case True
    then show ?thesis using Finite by (simp add: fmt_17g_def)
  next
    case False
    then have n: "0 < n" "n < 2047 * 2 ^ 52" using assms Finite by (simp_all add: dbl_wf_def)
    let ?pq = "scale_pow 2 (dbl_sig n) 1 (- dbl_exp n)"
    let ?p = "fst ?pq" and ?q = "snd ?pq"
    have pq: "0 < ?p" "0 < ?q" using scale_pow_pos [of 2 "dbl_sig n" 1] dbl_sig_bounds(4) [of n] n by simp_all
    have m: "ratio (?p, ?q) = mag n" by (simp add: ratio_scale_pow mag_def)
    obtain c x where dx: "digits17 ?p ?q = (c, x)" by fastforce
    let ?X = "floor_log10 ?p ?q"
    note X = floor_log10_bounds [OF pq, unfolded m] mag_exponent_range [OF n]
    have "?X < 400" "- 400 < ?X + 1"
      by (rule powi_less_mono [of 10]; use X in linarith)+
    then have x: "\<bar>x\<bar> < 1000" using digits17_bounds(4) [OF pq dx] by auto
    then have "declen \<bar>x\<bar> \<le> 3" using declen_le [of "\<bar>x\<bar>" 3] by simp
    then have e: "length (fmt_exponent x) \<le> 5" by (simp add: fmt_exponent_def)
    let ?ds = "dec_digits 17 c"
    have "length (with_point (take (nat x + 1) ?ds) (drop (nat x + 1) ?ds)) \<le> 18" if "x < 17"
      using length_with_point [of "take (nat x + 1) ?ds" "drop (nat x + 1) ?ds"] that by simp
    moreover have "length (with_point [48] (replicate (nat (- x - 1)) 48 @ ?ds)) \<le> 22" if "- 4 \<le> x" "x < 0"
      using length_with_point [of "[48]" "replicate (nat (- x - 1)) 48 @ ?ds"] that by simp
    moreover have "length (with_point (take 1 ?ds) (drop 1 ?ds)) \<le> 18"
      using length_with_point [of "take 1 ?ds" "drop 1 ?ds"] by simp
    ultimately have "length (fmt_17g_pos ?p ?q) \<le> 23"
      using e by (auto simp: fmt_17g_pos_def dx Let_def)
    then show ?thesis using Finite False by (simp add: fmt_17g_def Let_def)
  qed
next
  case (Infinity s)
  then show ?thesis by (simp add: fmt_17g_def)
next
  case (NaN s)
  then show ?thesis by (simp add: fmt_17g_def)
qed

end
