(* ===== verification/Json.thy ===== *)
theory Json
  imports Value DoubleText
begin

text \<open>
  \<^verbatim>\<open>src/json/json.c\<close>: the JSON decoder and encoder. The decoder walks a
  pointer over NUL-terminated cells; \<open>*p\<close> is the list of the cells from the pointer on,
  so a step forward is \<open>tl\<close> and a read past the block is \<open>OutOfBounds\<close>. A result
  is the pointer after the call with either the code's error text or the value. Recursion
  and loops run on fuel; \<open>decode_one_ok\<close> shows that one more than the number of cells
  is enough whatever the input.

  Tables are built in the order of insertion, since the order of the buckets of the real table
  is not used by the decoder. Arrays and tables given to the encoder are finite trees.
\<close>

subsection \<open>Decoding\<close>

definition JSON_KEYWORD_KEY :: int where "JSON_KEYWORD_KEY = 0x10000"
definition JSON_NULL_TO_NIL :: int where "JSON_NULL_TO_NIL = 0x20000"
definition JANET_RECURSION_GUARD :: int where "JANET_RECURSION_GUARD = 1024"

definition white :: "byte \<Rightarrow> bool" where
  "white c \<longleftrightarrow> c = 9 \<or> c = 10 \<or> c = c8 CHR '' '' \<or> c = 13"

fun skipwhite :: "bytes \<Rightarrow> fault + bytes" where
  "skipwhite [] = Inl OutOfBounds"
| "skipwhite (c # cp) = (if white c then skipwhite cp else Inr (c # cp))"

definition hexdig :: "byte \<Rightarrow> int" where
  "hexdig dig =
     (if dig \<ge> c8 CHR ''0'' \<and> dig \<le> c8 CHR ''9'' then uint dig - 48
      else if dig \<ge> c8 CHR ''a'' \<and> dig \<le> c8 CHR ''f'' then 10 + uint dig - 97
      else if dig \<ge> c8 CHR ''A'' \<and> dig \<le> c8 CHR ''F'' then 10 + uint dig - 65
      else -1)"

definition hex_digits :: bytes where
  "hex_digits = bs ''0123456789ABCDEF''"

definition tohex :: "32 word \<Rightarrow> byte" where
  "tohex x = hex_digits ! unat x"

definition decode_utf16_escape :: "bytes \<Rightarrow> fault + (string + 32 word)" where
  "decode_utf16_escape p =
     rbind (peek p 0) (\<lambda>p0. if p0 = 0 then Inr (Inl ''unexpected end of source'') else
     rbind (peek p 1) (\<lambda>p1. if p1 = 0 then Inr (Inl ''unexpected end of source'') else
     rbind (peek p 2) (\<lambda>p2. if p2 = 0 then Inr (Inl ''unexpected end of source'') else
     rbind (peek p 3) (\<lambda>p3. if p3 = 0 then Inr (Inl ''unexpected end of source'') else
       let d1 = hexdig p0; d2 = hexdig p1; d3 = hexdig p2; d4 = hexdig p3 in
       if d1 < 0 \<or> d2 < 0 \<or> d3 < 0 \<or> d4 < 0 then Inr (Inl ''invalid hex digit'')
       else Inr (Inr (word_of_int (d4 OR push_bit 4 d3 OR push_bit 8 d2 OR push_bit 12 d1)))))))"

text \<open>The bytes pushed for a code point.\<close>

definition utf8_of :: "32 word \<Rightarrow> bytes" where
  "utf8_of codepoint =
     (if codepoint \<le> 0x7F then [ucast codepoint]
      else if codepoint \<le> 0x7FF then
        [ucast ((drop_bit 6 codepoint AND 0x1F) OR 0xC0),
         ucast ((codepoint AND 0x3F) OR 0x80)]
      else if codepoint \<le> 0xFFFF then
        [ucast ((drop_bit 12 codepoint AND 0x0F) OR 0xE0),
         ucast ((drop_bit 6 codepoint AND 0x3F) OR 0x80),
         ucast ((codepoint AND 0x3F) OR 0x80)]
      else
        [ucast ((drop_bit 18 codepoint AND 0x07) OR 0xF0),
         ucast ((drop_bit 12 codepoint AND 0x3F) OR 0x80),
         ucast ((drop_bit 6 codepoint AND 0x3F) OR 0x80),
         ucast ((codepoint AND 0x3F) OR 0x80)])"

text \<open>The part of the string parser after \<open>\u\<close>: the code point and the number of
  cells it took.\<close>

definition decode_u :: "bytes \<Rightarrow> fault + (string + 32 word \<times> nat)" where
  "decode_u t =
     rbind (decode_utf16_escape t) (\<lambda>r. case r of Inl err \<Rightarrow> Inr (Inl err) | Inr codepoint \<Rightarrow>
       if codepoint \<ge> 0xDC00 \<and> codepoint \<le> 0xDFFF
       then Inr (Inl ''unexpected utf-16 low surrogate'')
       else if codepoint \<ge> 0xD800 \<and> codepoint \<le> 0xDBFF then
         rbind (peek t 4) (\<lambda>c5. if c5 \<noteq> c8 CHR 0x5C
           then Inr (Inl ''expected utf-16 low surrogate pair'') else
         rbind (peek t 5) (\<lambda>c6. if c6 \<noteq> c8 CHR ''u''
           then Inr (Inl ''expected utf-16 low surrogate pair'') else
         rbind (decode_utf16_escape (drop 6 t)) (\<lambda>r2. case r2 of Inl err \<Rightarrow> Inr (Inl err)
         | Inr lowsur \<Rightarrow>
             if lowsur < 0xDC00 \<or> lowsur > 0xDFFF
             then Inr (Inl ''expected utf-16 low surrogate pair'')
             else Inr (Inr (push_bit 10 (codepoint - 0xD800) + (lowsur - 0xDC00) + 0x10000, 10)))))
       else Inr (Inr (codepoint, 4)))"

definition simple_escape :: "byte \<Rightarrow> byte option" where
  "simple_escape c =
     (if c = c8 CHR ''b'' then Some 8
      else if c = c8 CHR ''f'' then Some 12
      else if c = c8 CHR ''n'' then Some 10
      else if c = c8 CHR ''r'' then Some 13
      else if c = c8 CHR ''t'' then Some 9
      else if c = c8 CHR 0x22 then Some (c8 CHR 0x22)
      else if c = c8 CHR 0x5C then Some (c8 CHR 0x5C)
      else if c = c8 CHR ''/'' then Some (c8 CHR ''/'')
      else None)"

fun decode_string :: "bytes \<Rightarrow> bytes \<Rightarrow> fault + (string + bytes \<times> bytes)" where
  "decode_string [] buffer = Inl OutOfBounds"
| "decode_string (b # cp) buffer =
     (if b = c8 CHR 0x22 then Inr (Inr (buffer, cp))
      else if b < 32 then Inr (Inl ''invalid character in string'')
      else if b = c8 CHR 0x5C then
        (case cp of
           [] \<Rightarrow> Inl OutOfBounds
         | c # t \<Rightarrow>
             if c = c8 CHR ''u'' then
               rbind (decode_u t) (\<lambda>r. case r of Inl err \<Rightarrow> Inr (Inl err)
               | Inr cn \<Rightarrow> decode_string (drop (snd cn) t) (buffer @ utf8_of (fst cn)))
             else (case simple_escape c of
                 None \<Rightarrow> Inr (Inl ''unknown string escape'')
               | Some e \<Rightarrow> decode_string t (buffer @ [e])))
      else decode_string cp (buffer @ [b]))"

text \<open>\<open>janet_table_put\<close> with a string or keyword key: a nil value removes the key.\<close>

definition put_member :: "(janet \<times> janet) list \<Rightarrow> janet \<Rightarrow> janet \<Rightarrow> (janet \<times> janet) list" where
  "put_member kvs key val =
     (if val = JNil then filter (\<lambda>kv. fst kv \<noteq> key) kvs
      else if key \<in> fst ` set kvs then map (\<lambda>kv. if fst kv = key then (key, val) else kv) kvs
      else kvs @ [(key, val)])"

type_synonym 'a parse = "fault + bytes \<times> (string + 'a)"

definition pbind :: "'a parse \<Rightarrow> (bytes \<Rightarrow> 'a \<Rightarrow> 'b parse) \<Rightarrow> 'b parse" where
  "pbind m f = rbind m (\<lambda>(p, r). case r of Inl err \<Rightarrow> Inr (p, Inl err) | Inr x \<Rightarrow> f p x)"

lemma pbind_cong [fundef_cong]:
  "m = m' \<Longrightarrow> (\<And>p x. m' = Inr (p, Inr x) \<Longrightarrow> f p x = g p x) \<Longrightarrow> pbind m f = pbind m' g"
  by (auto simp: pbind_def rbind_def split: sum.splits)

lemma pbind_simps [simp]:
  "pbind (Inl e) f = Inl e"
  "pbind (Inr (p, Inl err)) f = Inr (p, Inl err)"
  "pbind (Inr (p, Inr x)) f = f p x"
  by (simp_all add: pbind_def)

definition scan_plain :: "byte \<Rightarrow> bool" where
  "scan_plain b \<longleftrightarrow> b \<ge> 32 \<and> b \<noteq> c8 CHR 0x22 \<and> b \<noteq> c8 CHR 0x5C"

definition decode_string_lit :: "bytes \<Rightarrow> bytes \<Rightarrow> janet parse" where
  "decode_string_lit p start =
     (let cp = dropWhile scan_plain start in
      rbind (peek cp 0) (\<lambda>c.
        if c = c8 CHR 0x5C then
          rbind (decode_string start []) (\<lambda>r. case r of
            Inl err \<Rightarrow> Inr (start, Inl err)
          | Inr br \<Rightarrow> Inr (snd br, Inr (JString (fst br))))
        else if c \<noteq> c8 CHR 0x22 then Inr (p, Inl ''unexpected character'')
        else Inr (tl cp, Inr (JString (takeWhile scan_plain start)))))"

definition decode_word :: "bytes \<Rightarrow> bytes \<Rightarrow> janet \<Rightarrow> janet parse" where
  "decode_word p w x =
     rbind (cells_are p 1 w) (\<lambda>ok.
       if ok then Inr (drop (length w + 1) p, Inr x) else Inr (p, Inl ''bad identifier''))"

definition keyword_key :: "int \<Rightarrow> janet \<Rightarrow> fault + janet" where
  "keyword_key depth subkey =
     (if depth AND JSON_KEYWORD_KEY \<noteq> 0
      then (case subkey of JString str \<Rightarrow> Inr (JKeyword str) | _ \<Rightarrow> Inl BadCast)
      else Inr subkey)"

text \<open>The loops over array items and object members, \<open>one\<close> being the recursive
  call on the nested value.\<close>

fun decode_items :: "(bytes \<Rightarrow> janet parse) \<Rightarrow> nat \<Rightarrow> bytes \<Rightarrow> janet list \<Rightarrow> janet parse" where
  "decode_items one 0 p array = Inl OutOfFuel"
| "decode_items one (Suc n) p array =
     rbind (peek p 0) (\<lambda>c.
       if c = c8 CHR '']'' then Inr (tl p, Inr (JArray array))
       else pbind (one p) (\<lambda>p1 subval.
         rbind (skipwhite p1) (\<lambda>p2. rbind (peek p2 0) (\<lambda>c2.
           if c2 = c8 CHR '']'' then Inr (tl p2, Inr (JArray (array @ [subval])))
           else if c2 \<noteq> c8 CHR '','' then Inr (p2, Inl ''expected comma'')
           else decode_items one n (tl p2) (array @ [subval])))))"

text \<open>One member: key, colon, value, and the put into the table.\<close>

definition decode_member ::
  "(bytes \<Rightarrow> janet parse) \<Rightarrow> int \<Rightarrow> bytes \<Rightarrow> (janet \<times> janet) list \<Rightarrow> (janet \<times> janet) list parse" where
  "decode_member one depth p table =
     rbind (skipwhite p) (\<lambda>p1. rbind (peek p1 0) (\<lambda>c1.
       if c1 \<noteq> c8 CHR 0x22 then Inr (p1, Inl ''expected json string'')
       else pbind (one p1) (\<lambda>p2 subkey.
         rbind (skipwhite p2) (\<lambda>p3. rbind (peek p3 0) (\<lambda>c3.
           if c3 \<noteq> c8 CHR '':'' then Inr (p3, Inl ''expected colon'')
           else pbind (one (tl p3)) (\<lambda>p4 subval.
             rbind (keyword_key depth subkey) (\<lambda>key.
               Inr (p4, Inr (put_member table key subval)))))))))"

fun decode_members ::
  "(bytes \<Rightarrow> janet parse) \<Rightarrow> int \<Rightarrow> nat \<Rightarrow> bytes \<Rightarrow> (janet \<times> janet) list \<Rightarrow> janet parse" where
  "decode_members one depth 0 p table = Inl OutOfFuel"
| "decode_members one depth (Suc n) p table =
     rbind (peek p 0) (\<lambda>c.
       if c = c8 CHR ''}'' then Inr (tl p, Inr (JTable table))
       else pbind (decode_member one depth p table) (\<lambda>p4 table1.
         rbind (skipwhite p4) (\<lambda>p5. rbind (peek p5 0) (\<lambda>c5.
           if c5 = c8 CHR ''}'' then Inr (tl p5, Inr (JTable table1))
           else if c5 \<noteq> c8 CHR '','' then Inr (p5, Inl ''expected comma'')
           else decode_members one depth n (tl p5) table1))))"

text \<open>The switch on the first cell after white space. A number is wrapped as it is: a value of
  \<^verbatim>\<open>janet.h\<close> is a double whose type, when it is a NaN, is in the bits of
  \<open>nan_tag\<close>, so a NaN with other bits there becomes a value of another type, with a
  pointer taken from the text. The model ends there with \<open>BadCast\<close>.\<close>

definition decode_value ::
  "(bytes \<Rightarrow> janet parse) \<Rightarrow> nat \<Rightarrow> int \<Rightarrow> bytes \<Rightarrow> byte \<Rightarrow> janet parse" where
  "decode_value one n depth p c =
     (if c = 0 then Inr (p, Inl ''unexpected end of source'')
      else if c = c8 CHR ''-'' \<or> isdigit c then
        rbind (strtod_at p) (\<lambda>xe.
          if snd xe = p then Inr (p, Inl ''bad number'')
          else if nan_tag p \<noteq> 0 then Inl BadCast
          else Inr (snd xe, Inr (JNumber (fst xe))))
      else if c = c8 CHR ''f'' then decode_word p (bs ''alse'') (JBool False)
      else if c = c8 CHR ''n'' then
        decode_word p (bs ''ull'')
          (if depth AND JSON_NULL_TO_NIL \<noteq> 0 then JNil else JKeyword (bs ''null''))
      else if c = c8 CHR ''t'' then decode_word p (bs ''rue'') (JBool True)
      else if c = c8 CHR 0x22 then decode_string_lit p (tl p)
      else if c = c8 CHR ''['' then rbind (skipwhite (tl p)) (\<lambda>q. decode_items one n q [])
      else if c = c8 CHR ''{'' then rbind (skipwhite (tl p)) (\<lambda>q. decode_members one depth n q [])
      else Inr (p, Inl ''unexpected character''))"

primrec decode_one :: "nat \<Rightarrow> bytes \<Rightarrow> int \<Rightarrow> janet parse" where
  "decode_one 0 = (\<lambda>p0 depth. Inl OutOfFuel)"
| "decode_one (Suc n) = (\<lambda>p0 depth.
     if depth AND 0xFFFF > JANET_RECURSION_GUARD then Inr (p0, Inl ''recured too deeply'')
     else rbind (skipwhite p0) (\<lambda>p. rbind (peek p 0) (\<lambda>c.
       decode_value (\<lambda>r. decode_one n r (depth + 1)) n depth p c)))"

text \<open>The cells of a byte view or buffer end with a NUL that is not part of its length.\<close>

definition decode_document :: "bytes \<Rightarrow> int \<Rightarrow> janet parse" where
  "decode_document start flags =
     pbind (decode_one (Suc (length start)) start flags) (\<lambda>p ret.
       rbind (skipwhite p) (\<lambda>q. rbind (peek q 0) (\<lambda>c.
         Inr (q, if c \<noteq> 0 then Inl ''unexpected extra token'' else Inr ret))))"

definition decode_flags :: "janet list \<Rightarrow> int" where
  "decode_flags argv =
     (if length argv > 1 \<and> janet_truthy (argv ! 1) then JSON_KEYWORD_KEY else 0)
     OR (if length argv > 2 \<and> janet_truthy (argv ! 2) then JSON_NULL_TO_NIL else 0)"

definition decode_source :: "janet list \<Rightarrow> panic + bytes" where
  "decode_source argv = (case argv ! 0 of JBuffer b \<Rightarrow> Inr b | _ \<Rightarrow> janet_getbytes argv 0)"

definition decode_report :: "bytes \<Rightarrow> bytes \<times> (string + janet) \<Rightarrow> panic + janet" where
  "decode_report start res = (case snd res of
     Inl err \<Rightarrow> Inl (Panic ''decode error at position %d: %s''
                  [AInt (int (length start) - int (length (fst res))), AStr err])
   | Inr ret \<Rightarrow> Inr ret)"

definition json_decode :: "janet list \<Rightarrow> fault + (panic + janet)" where
  "json_decode argv =
     (case janet_arity (int (length argv)) 1 3 of Inl e \<Rightarrow> Inr (Inl e) | Inr _ \<Rightarrow>
      case decode_source argv of
        Inl e \<Rightarrow> Inr (Inl e)
      | Inr b \<Rightarrow> rbind (decode_document (b @ [0]) (decode_flags argv)) (\<lambda>res.
                  Inr (decode_report (b @ [0]) res)))"

subsection \<open>The decoder stays inside NUL-terminated cells and ends\<close>

lemma skipwhite_ok:
  "terminated p \<Longrightarrow> \<exists>q. skipwhite p = Inr q \<and> skips p q \<and> terminated q"
proof (induction p rule: skipwhite.induct)
  case 1
  then show ?case by (simp add: terminated_def)
next
  case (2 c cp)
  show ?case
  proof (cases "white c")
    case True
    then have c: "c \<noteq> 0" by (auto simp: white_def)
    with "2.prems" have "terminated cp" by (rule terminated_tl)
    with "2.IH" True obtain q where "skipwhite cp = Inr q" "skips cp q" "terminated q" by blast
    with True c show ?thesis by (auto intro: skips_Cons)
  next
    case False
    with "2.prems" show ?thesis by auto
  qed
qed

lemma terminated_split: "terminated p \<Longrightarrow> \<exists>b t. p = b # t \<and> (b = 0 \<or> terminated t)"
  by (cases p) (auto simp: terminated_def split: if_splits)

lemma terminated_four:
  assumes "terminated p"
  shows "(\<exists>t. p = 0 # t) \<or> (\<exists>a t. p = a # 0 # t \<and> a \<noteq> 0) \<or> (\<exists>a b t. p = a # b # 0 # t \<and> a \<noteq> 0 \<and> b \<noteq> 0)
    \<or> (\<exists>a b c t. p = a # b # c # 0 # t \<and> a \<noteq> 0 \<and> b \<noteq> 0 \<and> c \<noteq> 0)
    \<or> (\<exists>a b c d t. p = a # b # c # d # t \<and> 0 \<notin> set [a, b, c, d] \<and> terminated t)"
proof -
  from terminated_split [OF assms] obtain a t1 where a: "p = a # t1" "a = 0 \<or> terminated t1" by blast
  show ?thesis
  proof (cases "a = 0")
    case False
    with a terminated_split [of t1] obtain b t2 where b: "t1 = b # t2" "b = 0 \<or> terminated t2" by blast
    show ?thesis
    proof (cases "b = 0")
      case bF: False
      with b terminated_split [of t2] obtain c t3 where c: "t2 = c # t3" "c = 0 \<or> terminated t3" by blast
      show ?thesis
      proof (cases "c = 0")
        case cF: False
        with c terminated_split [of t3] obtain d t4 where d: "t3 = d # t4" "d = 0 \<or> terminated t4" by blast
        show ?thesis using a b c d False bF cF by (cases "d = 0") auto
      qed (use a b c False bF in auto)
    qed (use a b False in auto)
  qed (use a in auto)
qed

lemmas peek_nums = peek_Cons numeral_2_eq_2 numeral_3_eq_3

lemma decode_utf16_escape_ok:
  assumes "terminated p"
  shows "\<exists>r. decode_utf16_escape p = Inr r \<and> (\<forall>cp. r = Inr cp \<longrightarrow>
    (\<exists>a b c d t. p = a # b # c # d # t \<and> 0 \<notin> set [a, b, c, d] \<and> terminated t))"
  using terminated_four [OF assms]
  by (elim disjE exE conjE) (simp_all add: decode_utf16_escape_def peek_nums Let_def)

lemma decode_u_ok:
  assumes "terminated t"
  shows "\<exists>r. decode_u t = Inr r \<and> (\<forall>cp n. r = Inr (cp, n) \<longrightarrow> skips t (drop n t) \<and> 0 < n \<and> n \<le> length t)"
proof -
  from decode_utf16_escape_ok [OF assms] obtain r where r: "decode_utf16_escape t = Inr r"
      "\<forall>cp. r = Inr cp \<longrightarrow> (\<exists>a b c d u. t = a # b # c # d # u \<and> 0 \<notin> set [a, b, c, d] \<and> terminated u)" by blast
  show ?thesis
  proof (cases r)
    case (Inl e)
    then show ?thesis by (simp add: decode_u_def r(1))
  next
    case (Inr cp)
    with r(2) obtain a b c d u where t: "t = a # b # c # d # u" "0 \<notin> set [a, b, c, d]" and u: "terminated u"
      by blast
    have s4: "skips t (drop 4 t)" "4 \<le> length t" using skips_append [of "[a, b, c, d]" u] t by simp_all
    from terminated_split [OF u] obtain x t5 where x: "u = x # t5" "x = 0 \<or> terminated t5" by blast
    have p4: "peek t 4 = Inr x" by (simp add: t x peek_def)
    show ?thesis
    proof (cases "x = c8 CHR 0x5C")
      case False
      then show ?thesis using Inr p4 s4 by (simp add: decode_u_def r(1))
    next
      case xs: True
      with x terminated_split [of t5] obtain y t6 where y: "t5 = y # t6" "y = 0 \<or> terminated t6" by auto
      have p5: "peek t 5 = Inr y" by (simp add: t x y peek_def)
      show ?thesis
      proof (cases "y = c8 CHR ''u''")
        case False
        then show ?thesis using Inr p4 p5 s4 by (simp add: decode_u_def r(1))
      next
        case yu: True
        then have "terminated t6" using y(2) by simp
        from decode_utf16_escape_ok [OF this] obtain r2 where r2: "decode_utf16_escape t6 = Inr r2"
            "\<forall>cp. r2 = Inr cp \<longrightarrow> (\<exists>a b c d u. t6 = a # b # c # d # u \<and> 0 \<notin> set [a, b, c, d] \<and> terminated u)"
          by blast
        have d6: "drop 6 t = t6" by (simp add: t x y)
        show ?thesis
        proof (cases r2)
          case (Inl e)
          then show ?thesis using Inr p4 p5 s4 d6 r2(1) by (simp add: decode_u_def r(1))
        next
          case I2: (Inr lo)
          with r2(2) obtain e f g h w where t6: "t6 = e # f # g # h # w" "0 \<notin> set [e, f, g, h]" by blast
          have s10: "skips t (drop 10 t)" "10 \<le> length t"
            using skips_append [of "[a, b, c, d, x, y, e, f, g, h]" w] t(2) t6(2) xs yu
            by (simp_all add: t(1) x(1) y(1) t6(1))
          show ?thesis using Inr I2 p4 p5 s10 s4 d6 r2(1) xs yu by (simp add: decode_u_def r(1))
        qed
      qed
    qed
  qed
qed

lemma decode_string_ok:
  "terminated p \<Longrightarrow> \<exists>r. decode_string p buf = Inr r \<and> (\<forall>s q. r = Inr (s, q) \<longrightarrow> skips p q \<and> terminated q)"
proof (induction p arbitrary: buf rule: measure_induct_rule [where f = length])
  case (less p)
  from terminated_split [OF less.prems] obtain b cp where p: "p = b # cp" "b = 0 \<or> terminated cp" by blast
  consider "b = c8 CHR 0x22" | "b \<noteq> c8 CHR 0x22" "b < 32"
    | "b = c8 CHR 0x5C" | "b \<noteq> c8 CHR 0x22" "\<not> b < 32" "b \<noteq> c8 CHR 0x5C" by blast
  then show ?case
  proof cases
    case 1
    then show ?thesis using p by (auto intro: skips_Cons)
  next
    case 2
    then show ?thesis using p by simp
  next
    case 3
    then have cp: "terminated cp" using p(2) by simp
    from terminated_split [OF this] obtain c t where c: "cp = c # t" "c = 0 \<or> terminated t" by blast
    show ?thesis
    proof (cases "c = c8 CHR ''u''")
      case True
      then have t: "terminated t" using c(2) by simp
      from decode_u_ok [OF t] obtain r where r: "decode_u t = Inr r"
          "\<forall>cp n. r = Inr (cp, n) \<longrightarrow> skips t (drop n t) \<and> 0 < n \<and> n \<le> length t" by blast
      show ?thesis
      proof (cases r)
        case (Inl e)
        then show ?thesis using 3 True r(1) by (simp add: p(1) c(1))
      next
        case (Inr cn)
        obtain k n where kn: "cn = (k, n)" by fastforce
        with r(2) Inr have n: "skips t (drop n t)" by blast
        have td: "terminated (drop n t)" using n t skips_terminated by blast
        have "length (drop n t) < length p" by (simp add: p(1) c(1))
        from less.IH [OF this td, of "buf @ utf8_of k"] obtain r' where
            "decode_string (drop n t) (buf @ utf8_of k) = Inr r'"
            "\<forall>s q. r' = Inr (s, q) \<longrightarrow> skips (drop n t) q \<and> terminated q" by blast
        moreover have "skips p (drop n t)" using n 3 True by (auto simp: p(1) c(1) intro!: skips_Cons)
        ultimately show ?thesis using 3 True r(1) Inr kn by (auto simp: p(1) c(1) intro: skips_trans)
      qed
    next
      case False
      show ?thesis
      proof (cases "simple_escape c")
        case None
        then show ?thesis using 3 False by (simp add: p(1) c(1))
      next
        case (Some e)
        then have cnz: "c \<noteq> 0" by (auto simp: simple_escape_def)
        have "length t < length p" by (simp add: p(1) c(1))
        from less.IH [OF this, of "buf @ [e]"] cnz c(2) obtain r' where
            "decode_string t (buf @ [e]) = Inr r'"
            "\<forall>s q. r' = Inr (s, q) \<longrightarrow> skips t q \<and> terminated q" by blast
        moreover have "skips p t" using 3 cnz by (auto simp: p(1) c(1) intro!: skips_Cons)
        ultimately show ?thesis using 3 False Some by (auto simp: p(1) c(1) intro: skips_trans)
      qed
    qed
  next
    case 4
    then have b: "b \<noteq> 0" by auto
    have "length cp < length p" by (simp add: p(1))
    from less.IH [OF this, of "buf @ [b]"] b p(2) obtain r' where
        "decode_string cp (buf @ [b]) = Inr r'"
        "\<forall>s q. r' = Inr (s, q) \<longrightarrow> skips cp q \<and> terminated q" by blast
    moreover have "skips p cp" using b by (auto simp: p(1) intro!: skips_Cons)
    ultimately show ?thesis using 4 by (auto simp: p(1) intro: skips_trans)
  qed
qed

text \<open>A NaN with a payload that would be taken for a type, somewhere in the text.\<close>

definition forged :: "bytes \<Rightarrow> bool" where
  "forged p \<longleftrightarrow> (\<exists>q. skips p q \<and> nan_tag q \<noteq> 0)"

lemma forged_skips: "skips p q \<Longrightarrow> forged q \<Longrightarrow> forged p"
  by (auto simp: forged_def intro: skips_trans)

text \<open>A parse that does not run out of fuel, and faults only at such a NaN: it walks from
  \<open>p\<close> over cells that are not NUL, and has moved when it found a value.\<close>

definition parse_ok :: "bytes \<Rightarrow> 'a parse \<Rightarrow> bool" where
  "parse_ok p m \<longleftrightarrow> m = Inl BadCast \<and> forged p
     \<or> (\<exists>q r. m = Inr (q, r) \<and> skips p q \<and> terminated q \<and> (\<forall>x. r = Inr x \<longrightarrow> q \<noteq> p))"

lemma parse_ok_forged: "forged p \<Longrightarrow> parse_ok p (Inl BadCast)"
  by (simp add: parse_ok_def)

lemma parse_ok_nan: "nan_tag p \<noteq> 0 \<Longrightarrow> parse_ok p (Inl BadCast)"
  by (rule parse_ok_forged) (auto simp: forged_def)

lemma parse_ok_error: "skips p q \<Longrightarrow> terminated q \<Longrightarrow> parse_ok p (Inr (q, Inl err))"
  by (simp add: parse_ok_def)

lemma parse_ok_value: "skips p q \<Longrightarrow> terminated q \<Longrightarrow> q \<noteq> p \<Longrightarrow> parse_ok p (Inr (q, Inr x))"
  by (simp add: parse_ok_def)

lemma parse_ok_skips: "skips p q \<Longrightarrow> parse_ok q m \<Longrightarrow> parse_ok p m"
proof -
  assume p: "skips p q" and "parse_ok q m"
  then consider "m = Inl BadCast" "forged q"
    | s r where "m = Inr (s, r)" "skips q s" "terminated s" "\<forall>x. r = Inr x \<longrightarrow> s \<noteq> q"
    by (auto simp: parse_ok_def)
  then show "parse_ok p m"
  proof cases
    case 1
    then show ?thesis using forged_skips [OF p] by (simp add: parse_ok_forged)
  next
    case (2 s r)
    then have "s \<noteq> q \<Longrightarrow> s \<noteq> p" using skips_length [OF p] skips_length_less by fastforce
    then show ?thesis using 2 skips_trans [OF p] by (auto simp: parse_ok_def)
  qed
qed

lemma parse_ok_pbind:
  assumes "parse_ok p m" and "\<And>q x. skips p q \<Longrightarrow> terminated q \<Longrightarrow> q \<noteq> p \<Longrightarrow> m = Inr (q, Inr x) \<Longrightarrow> parse_ok q (f q x)"
  shows "parse_ok p (pbind m f)"
proof (cases "m = Inl BadCast \<and> forged p")
  case True
  then show ?thesis by (simp add: parse_ok_forged)
next
  case False
  with assms(1) obtain q r where m: "m = Inr (q, r)" "skips p q" "terminated q" "\<forall>x. r = Inr x \<longrightarrow> q \<noteq> p"
    by (auto simp: parse_ok_def)
  show ?thesis
  proof (cases r)
    case (Inl e)
    then show ?thesis using m by (simp add: parse_ok_error)
  next
    case (Inr x)
    then have "parse_ok q (f q x)" using assms(2) m by blast
    then show ?thesis using m Inr by (auto intro: parse_ok_skips)
  qed
qed

lemma parse_ok_map: "parse_ok p m \<Longrightarrow> parse_ok p (pbind m (\<lambda>q x. Inr (q, Inr (g x))))"
  by (auto simp: parse_ok_def pbind_def split: sum.splits)

text \<open>Skip white space, then look at a cell.\<close>

lemma parse_ok_skipwhite:
  assumes "terminated p"
    and "\<And>c t. skips p (c # t) \<Longrightarrow> terminated (c # t) \<Longrightarrow> skipwhite p = Inr (c # t) \<Longrightarrow> parse_ok p (f (c # t) c)"
  shows "parse_ok p (rbind (skipwhite p) (\<lambda>q. rbind (peek q 0) (f q)))"
proof -
  from skipwhite_ok [OF assms(1)] obtain q where q: "skipwhite p = Inr q" "skips p q" "terminated q" by blast
  from terminated_split [OF q(3)] obtain c t where "q = c # t" by blast
  with q assms(2) show ?thesis by simp
qed

lemma parse_ok_step:
  "skips p (c # t) \<Longrightarrow> terminated (c # t) \<Longrightarrow> c \<noteq> 0 \<Longrightarrow> skips p t \<and> terminated t \<and> t \<noteq> p \<and> length t < length p"
  using skips_length [of p "c # t"] by (auto intro: skips_trans skips_Cons terminated_tl)

lemma decode_string_lit_ok:
  assumes "terminated (c8 CHR 0x22 # start)"
  shows "parse_ok (c8 CHR 0x22 # start) (decode_string_lit (c8 CHR 0x22 # start) start)"
proof -
  let ?p = "c8 CHR 0x22 # start"
  let ?cp = "dropWhile scan_plain start"
  have st: "terminated start" using terminated_tl [OF assms] by simp
  have ps: "skips ?p start" by (rule skips_Cons) simp_all
  have sc: "skips start ?cp" by (rule skips_dropWhile) (simp add: scan_plain_def)
  have "terminated ?cp" using sc st skips_terminated by blast
  from terminated_split [OF this] obtain c t where c: "?cp = c # t" by blast
  from decode_string_ok [OF st, of "[]"] obtain r where r: "decode_string start [] = Inr r"
      "\<forall>s q. r = Inr (s, q) \<longrightarrow> skips start q \<and> terminated q" by blast
  consider "c = c8 CHR 0x5C" | "c = c8 CHR 0x22" | "c \<noteq> c8 CHR 0x5C" "c \<noteq> c8 CHR 0x22" by blast
  then show ?thesis
  proof cases
    case 1
    show ?thesis
    proof (cases r)
      case (Inl e)
      then show ?thesis using r(1) 1 ps st
        by (simp add: decode_string_lit_def c parse_ok_error)
    next
      case (Inr sq)
      obtain s q where sq: "sq = (s, q)" by fastforce
      with Inr r(2) have q: "skips start q" "terminated q" by blast+
      then have "q \<noteq> ?p" using skips_length by force
      then show ?thesis using r(1) 1 Inr sq q skips_trans [OF ps q(1)]
        by (simp add: decode_string_lit_def c parse_ok_value)
    qed
  next
    case 2
    have "terminated (c # t)" using \<open>terminated ?cp\<close> by (simp add: c)
    then have "terminated t" using 2 by (simp add: terminated_tl [of c])
    moreover have "skips ?p t"
      using skips_trans [OF ps skips_trans [OF sc [unfolded c] skips_Cons [of c t t]]] 2 by simp
    moreover have "t \<noteq> ?p" using skips_length [OF sc] by (auto simp: c)
    ultimately show ?thesis using 2 by (simp add: decode_string_lit_def c parse_ok_value)
  next
    case 3
    then show ?thesis using assms by (simp add: decode_string_lit_def c parse_ok_error)
  qed
qed

lemma decode_string_lit_string:
  "decode_string_lit p start = Inr (q, Inr x) \<Longrightarrow> \<exists>s. x = JString s"
  by (auto simp: decode_string_lit_def Let_def rbind_eq_Inr split: if_splits sum.splits)
    (metis sumE surj_pair)

lemma decode_word_ok:
  assumes "terminated (c # t)" "c \<noteq> 0" "0 \<notin> set w"
  shows "parse_ok (c # t) (decode_word (c # t) w x)"
proof -
  have t: "terminated t" using assms terminated_tl by blast
  then obtain b where b: "cells_are (c # t) 1 w = Inr b"
    using cells_are_total [of 1 "c # t" w] assms(3) by auto
  show ?thesis
  proof (cases b)
    case True
    with b cells_are_prefix [of "c # t" 1 w] obtain r where r: "t = w @ r" by auto
    have "skips (c # t) r" using skips_append [of "c # w" r] assms(2,3) r by simp
    moreover from this have "terminated r" using assms(1) skips_terminated by blast
    moreover have "r \<noteq> c # t" using r by (metis append_Cons append_self_conv2 list.discI)
    ultimately show ?thesis using True b r by (simp add: decode_word_def parse_ok_value)
  next
    case False
    then show ?thesis using b assms(1) by (simp add: decode_word_def parse_ok_error)
  qed
qed

lemma pbind_eq_value:
  "pbind m f = Inr (q, Inr y) \<longleftrightarrow> (\<exists>p x. m = Inr (p, Inr x) \<and> f p x = Inr (q, Inr y))"
proof (cases m)
  case (Inr a)
  then show ?thesis by (cases a; cases "snd a") auto
qed simp

text \<open>What the loops need of the recursive call.\<close>

definition value_ok :: "bytes \<Rightarrow> janet parse \<Rightarrow> bool" where
  "value_ok p m \<longleftrightarrow> parse_ok p m \<and>
     (hd p = c8 CHR 0x22 \<longrightarrow> (\<forall>q x. m = Inr (q, Inr x) \<longrightarrow> (\<exists>s. x = JString s)))"

lemma decode_items_ok:
  assumes "\<And>q. terminated q \<Longrightarrow> length q \<le> length p \<Longrightarrow> value_ok q (one q)"
    and "terminated p" "length p < n"
  shows "parse_ok p (decode_items one n p array)"
  using assms
proof (induction n arbitrary: p array)
  case (Suc n)
  from terminated_split [OF Suc.prems(2)] obtain c t where p: "p = c # t" by blast
  show ?case
  proof (cases "c = c8 CHR '']''")
    case True
    then show ?thesis using Suc.prems(2) p by (auto intro!: parse_ok_value skips_Cons dest: terminated_tl)
  next
    case False
    have "parse_ok p (one p)" using Suc.prems by (simp add: value_ok_def)
    then have "parse_ok p (pbind (one p) (\<lambda>p1 subval. rbind (skipwhite p1) (\<lambda>p2. rbind (peek p2 0) (\<lambda>c2.
       if c2 = c8 CHR '']'' then Inr (tl p2, Inr (JArray (array @ [subval])))
       else if c2 \<noteq> c8 CHR '','' then Inr (p2, Inl ''expected comma'')
       else decode_items one n (tl p2) (array @ [subval])))))"
    proof (rule parse_ok_pbind, intro parse_ok_skipwhite)
      fix q x c2 t2
      assume q: "skips p q" and qc: "skips q (c2 # t2)" "terminated (c2 # t2)"
      note st = parse_ok_step [OF qc]
      have l: "length q \<le> length p" by (rule skips_length) fact
      have "parse_ok t2 (decode_items one n t2 (array @ [x]))" if "c2 = c8 CHR '',''"
      proof (rule Suc.IH)
        show "terminated t2" "length t2 < n" using st that l Suc.prems(3) by simp_all
        show "\<And>r. terminated r \<Longrightarrow> length r \<le> length t2 \<Longrightarrow> value_ok r (one r)"
          using Suc.prems(1) st that l by simp
      qed
      then show "parse_ok q (if c2 = c8 CHR '']'' then Inr (tl (c2 # t2), Inr (JArray (array @ [x])))
          else if c2 \<noteq> c8 CHR '','' then Inr (c2 # t2, Inl ''expected comma'')
          else decode_items one n (tl (c2 # t2)) (array @ [x]))"
        using st qc by (auto intro: parse_ok_value parse_ok_error parse_ok_skips)
    qed auto
    then show ?thesis using False by (simp add: p)
  qed
qed simp

lemma keyword_key_string: "\<exists>k. keyword_key depth (JString s) = Inr k"
  by (simp add: keyword_key_def)

lemma decode_member_ok:
  assumes one: "\<And>q. terminated q \<Longrightarrow> length q \<le> length p \<Longrightarrow> value_ok q (one q)"
    and "terminated p"
  shows "parse_ok p (decode_member one depth p table)"
  unfolding decode_member_def
proof (intro parse_ok_skipwhite assms(2))
  fix c1 t1 assume c1: "skips p (c1 # t1)" "terminated (c1 # t1)"
  let ?V = "\<lambda>p3 subkey. pbind (one (tl p3)) (\<lambda>p4 subval. rbind (keyword_key depth subkey) (\<lambda>key.
      Inr (p4, Inr (put_member table key subval))))"
  have "parse_ok (c1 # t1) (pbind (one (c1 # t1)) (\<lambda>p2 subkey. rbind (skipwhite p2) (\<lambda>p3. rbind (peek p3 0)
      (\<lambda>c3. if c3 \<noteq> c8 CHR '':'' then Inr (p3, Inl ''expected colon'') else ?V p3 subkey))))"
    if c1q: "c1 = c8 CHR 0x22"
  proof -
    have l1: "length (c1 # t1) \<le> length p" by (rule skips_length) fact
    note v = one [OF c1(2) l1, unfolded value_ok_def]
    show ?thesis
    proof (rule parse_ok_pbind [OF conjunct1 [OF v]], intro parse_ok_skipwhite)
      fix q x c3 t3
      assume q: "skips (c1 # t1) q" and m: "one (c1 # t1) = Inr (q, Inr x)"
        and c3: "skips q (c3 # t3)" "terminated (c3 # t3)"
      obtain s k where x: "x = JString s" "keyword_key depth x = Inr k"
        using v c1q m keyword_key_string by fastforce
      note st = parse_ok_step [OF c3]
      have "parse_ok t3 (?V (c3 # t3) x)" if "c3 = c8 CHR '':''"
      proof -
        have "value_ok t3 (one t3)" using one st that skips_length [OF q] l1 by simp
        then show ?thesis
          using x(2) by (auto simp: value_ok_def intro: parse_ok_map)
      qed
      then show "parse_ok q (if c3 \<noteq> c8 CHR '':'' then Inr (c3 # t3, Inl ''expected colon'') else ?V (c3 # t3) x)"
        using st c3 by (auto intro: parse_ok_error parse_ok_skips)
    qed auto
  qed
  then show "parse_ok p (if c1 \<noteq> c8 CHR 0x22 then Inr (c1 # t1, Inl ''expected json string'')
      else pbind (one (c1 # t1)) (\<lambda>p2 subkey. rbind (skipwhite p2) (\<lambda>p3. rbind (peek p3 0)
      (\<lambda>c3. if c3 \<noteq> c8 CHR '':'' then Inr (p3, Inl ''expected colon'') else ?V p3 subkey))))"
    using c1 by (auto intro: parse_ok_error parse_ok_skips)
qed

lemma decode_members_ok:
  assumes "\<And>q. terminated q \<Longrightarrow> length q \<le> length p \<Longrightarrow> value_ok q (one q)"
    and "terminated p" "length p < n"
  shows "parse_ok p (decode_members one depth n p table)"
  using assms
proof (induction n arbitrary: p table)
  case (Suc n)
  from terminated_split [OF Suc.prems(2)] obtain c t where p: "p = c # t" by blast
  show ?case
  proof (cases "c = c8 CHR ''}''")
    case True
    then show ?thesis using Suc.prems(2) p by (auto intro!: parse_ok_value skips_Cons dest: terminated_tl)
  next
    case False
    have "parse_ok p (decode_member one depth p table)" using Suc.prems by (intro decode_member_ok) auto
    then have "parse_ok p (pbind (decode_member one depth p table) (\<lambda>p4 table1.
       rbind (skipwhite p4) (\<lambda>p5. rbind (peek p5 0) (\<lambda>c5.
         if c5 = c8 CHR ''}'' then Inr (tl p5, Inr (JTable table1))
         else if c5 \<noteq> c8 CHR '','' then Inr (p5, Inl ''expected comma'')
         else decode_members one depth n (tl p5) table1))))"
    proof (rule parse_ok_pbind, intro parse_ok_skipwhite)
      fix q x c2 t2
      assume q: "skips p q" and qc: "skips q (c2 # t2)" "terminated (c2 # t2)"
      note st = parse_ok_step [OF qc]
      have l: "length q \<le> length p" by (rule skips_length) fact
      have "parse_ok t2 (decode_members one depth n t2 x)" if "c2 = c8 CHR '',''"
      proof (rule Suc.IH)
        show "terminated t2" "length t2 < n" using st that l Suc.prems(3) by simp_all
        show "\<And>r. terminated r \<Longrightarrow> length r \<le> length t2 \<Longrightarrow> value_ok r (one r)"
          using Suc.prems(1) st that l by simp
      qed
      then show "parse_ok q (if c2 = c8 CHR ''}'' then Inr (tl (c2 # t2), Inr (JTable x))
          else if c2 \<noteq> c8 CHR '','' then Inr (c2 # t2, Inl ''expected comma'')
          else decode_members one depth n (tl (c2 # t2)) x)"
        using st qc by (auto intro: parse_ok_value parse_ok_error parse_ok_skips)
    qed auto
    then show ?thesis using False by (simp add: p)
  qed
qed simp

lemma white_skip: "white c \<Longrightarrow> skipwhite (c # t) = skipwhite t" "\<not> white c \<Longrightarrow> skipwhite (c # t) = Inr (c # t)"
  by simp_all

lemma decode_one_value_ok:
  "terminated p0 \<Longrightarrow> length p0 < n \<Longrightarrow> value_ok p0 (decode_one n p0 depth)"
proof (induction n arbitrary: p0 depth)
  case (Suc n)
  have one: "value_ok q (decode_one n q (depth + 1))" if "terminated q" "length q \<le> length q0" "length q0 < n" for q q0
    using Suc.IH that by simp
  have str: "\<exists>s. x = JString s" if h: "hd p0 = c8 CHR 0x22" "decode_one (Suc n) p0 depth = Inr (q, Inr x)" for q x
  proof -
    obtain t where "p0 = c8 CHR 0x22 # t" using h(1) Suc.prems(1) by (cases p0) (auto simp: terminated_def)
    moreover have "\<not> white (c8 CHR 0x22)" by (simp add: white_def)
    ultimately show ?thesis
      using h(2) decode_string_lit_string by (auto simp: decode_value_def isdigit_def split: if_splits)
  qed
  let ?one = "\<lambda>r. decode_one n r (depth + 1)"
  have body: "parse_ok p0 (decode_value ?one n depth (c # t) c)" if c: "skips p0 (c # t)" "terminated (c # t)" for c t
  proof -
    note st = parse_ok_step [OF c]
    have num: "parse_ok (c # t) (rbind (strtod_at (c # t)) (\<lambda>xe.
        if snd xe = c # t then Inr (c # t, Inl ''bad number'') else if nan_tag (c # t) \<noteq> 0 then Inl BadCast
        else Inr (snd xe, Inr (JNumber (fst xe)))))"
      using c(2) strtod_skips [of "c # t"] terminated_in_set [OF c(2)] skips_terminated [OF strtod_skips c(2)]
      by (auto simp del: list.set simp: strtod_at_def intro: parse_ok_error parse_ok_value parse_ok_nan)
    have nest: "parse_ok (c # t) (rbind (skipwhite t) (\<lambda>q. decode_items ?one n q []))
        \<and> parse_ok (c # t) (rbind (skipwhite t) (\<lambda>q. decode_members ?one depth n q []))"
      if cnz: "c \<noteq> 0"
    proof -
      from skipwhite_ok [of t] st cnz obtain q where q: "skipwhite t = Inr q" "skips t q" "terminated q" by blast
      have l: "length q < n" using skips_length [OF q(2)] skips_length [OF c(1)] Suc.prems(2) by simp
      have s: "skips (c # t) q" using skips_Cons [OF cnz q(2)] .
      show ?thesis
        using decode_items_ok [OF one q(3) l] decode_members_ok [OF one q(3) l] l
        by (auto simp: q(1) intro!: parse_ok_skips [OF s])
    qed
    have "parse_ok (c # t) (decode_value ?one n depth (c # t) c)"
      using num nest decode_word_ok [OF c(2)] decode_string_lit_ok [of t] c(2)
      by (auto simp: decode_value_def parse_ok_error)
    with c(1) show ?thesis by (rule parse_ok_skips)
  qed
  have "parse_ok p0 (decode_one (Suc n) p0 depth)"
    using Suc.prems(1) parse_ok_skipwhite [of p0 "decode_value ?one n depth"] body by (auto simp: parse_ok_error)
  with str show ?case by (simp add: value_ok_def)
qed simp

lemmas decode_one_ok = decode_one_value_ok [unfolded value_ok_def, THEN conjunct1]

subsection \<open>Nesting depth\<close>

definition max_list :: "nat list \<Rightarrow> nat" where
  "max_list ns = foldr max ns 0"

fun jdepth :: "janet \<Rightarrow> nat" where
  "jdepth (JArray xs) = Suc (max_list (map jdepth xs))"
| "jdepth (JTuple xs) = Suc (max_list (map jdepth xs))"
| "jdepth (JTable kvs) = Suc (max_list (map (\<lambda>kv. jdepth (snd kv)) kvs))"
| "jdepth (JStruct kvs) = Suc (max_list (map (\<lambda>kv. jdepth (snd kv)) kvs))"
| "jdepth x = 0"

lemma max_list_le: "max_list ns \<le> k \<longleftrightarrow> (\<forall>n \<in> set ns. n \<le> k)"
  unfolding max_list_def by (induction ns) auto

lemma low_bits: "(d::int) AND 0xFFFF = d mod 0x10000"
  using take_bit_eq_mask [of 16 d] by (simp add: take_bit_eq_mod mask_eq_exp_minus_1)

lemma depth_step:
  assumes "(d::int) AND 0xFFFF \<le> JANET_RECURSION_GUARD"
  shows "(d + 1) AND 0xFFFF = (d AND 0xFFFF) + 1"
proof -
  have "d mod 0x10000 \<le> 1024" using assms by (simp add: low_bits JANET_RECURSION_GUARD_def)
  then have "(d mod 0x10000 + 1) mod 0x10000 = d mod 0x10000 + 1" by (intro mod_pos_pos_trivial) simp_all
  then show ?thesis unfolding low_bits by (simp only: mod_add_left_eq)
qed

lemma decode_items_depth:
  assumes one: "\<And>q r y. one q = Inr (r, Inr y) \<Longrightarrow> jdepth y \<le> k"
    and "\<forall>x \<in> set array. jdepth x \<le> k" and "decode_items one n p array = Inr (q, Inr x)"
  shows "jdepth x \<le> Suc k"
  using assms(2,3)
proof (induction n arbitrary: p array)
  case (Suc n)
  have fin: "jdepth (JArray xs) \<le> Suc k" if "\<forall>x \<in> set xs. jdepth x \<le> k" for xs
    using that by (simp add: max_list_le)
  have snoc: "\<forall>x \<in> set (array @ [y]). jdepth x \<le> k" if "one p = Inr (r, Inr y)" for r y
    using Suc.prems(1) one [OF that] by simp
  from Suc.prems(2) consider "x = JArray array"
    | r y where "one p = Inr (r, Inr y)" "x = JArray (array @ [y])"
    | r y t where "one p = Inr (r, Inr y)" "decode_items one n t (array @ [y]) = Inr (q, Inr x)"
    by (auto simp: rbind_eq_Inr pbind_eq_value split: if_splits)
  then show ?case using fin snoc Suc.prems(1) Suc.IH by cases blast+
qed simp

lemma put_member_depth:
  "\<forall>kv \<in> set table. jdepth (snd kv) \<le> m \<Longrightarrow> jdepth val \<le> m \<Longrightarrow>
   \<forall>kv \<in> set (put_member table key val). jdepth (snd kv) \<le> m"
  by (auto simp: put_member_def)

lemma decode_member_depth:
  assumes one: "\<And>q r y. one q = Inr (r, Inr y) \<Longrightarrow> jdepth y \<le> k"
    and "\<forall>kv \<in> set table. jdepth (snd kv) \<le> k" and "decode_member one depth p table = Inr (q, Inr tab)"
  shows "\<forall>kv \<in> set tab. jdepth (snd kv) \<le> k"
proof -
  from assms(3) obtain key val r t where "one r = Inr (t, Inr val)" "tab = put_member table key val"
    by (auto simp: decode_member_def rbind_eq_Inr pbind_eq_value split: if_splits)
  then show ?thesis using put_member_depth [OF assms(2)] one by blast
qed

lemma decode_members_depth:
  assumes one: "\<And>q r y. one q = Inr (r, Inr y) \<Longrightarrow> jdepth y \<le> k"
    and "\<forall>kv \<in> set table. jdepth (snd kv) \<le> k" and "decode_members one depth n p table = Inr (q, Inr x)"
  shows "jdepth x \<le> Suc k"
  using assms(2,3)
proof (induction n arbitrary: p table)
  case (Suc n)
  have fin: "jdepth (JTable t) \<le> Suc k" if "\<forall>kv \<in> set t. jdepth (snd kv) \<le> k" for t
    using that by (simp add: max_list_le)
  have put: "\<forall>kv \<in> set tab. jdepth (snd kv) \<le> k" if "decode_member one depth p table = Inr (r, Inr tab)" for r tab
    using decode_member_depth [OF one Suc.prems(1) that] .
  from Suc.prems(2) consider "x = JTable table"
    | r tab where "decode_member one depth p table = Inr (r, Inr tab)" "x = JTable tab"
    | r tab t where "decode_member one depth p table = Inr (r, Inr tab)"
        "decode_members one depth n t tab = Inr (q, Inr x)"
    by (auto simp: rbind_eq_Inr pbind_eq_value split: if_splits)
  then show ?case using fin put Suc.prems(1) Suc.IH by cases blast+
qed simp

text \<open>A decoded value nests no deeper than the guard leaves levels below \<open>depth\<close>.\<close>

lemma decode_one_depth:
  "decode_one n p depth = Inr (q, Inr x) \<Longrightarrow> int (jdepth x) + (depth AND 0xFFFF) \<le> JANET_RECURSION_GUARD + 1"
proof (induction n arbitrary: p depth q x)
  case (Suc n)
  have g: "depth AND 0xFFFF \<le> JANET_RECURSION_GUARD" using Suc.prems by (auto split: if_splits)
  define k where "k = nat (JANET_RECURSION_GUARD - (depth AND 0xFFFF))"
  have k: "int k = JANET_RECURSION_GUARD - (depth AND 0xFFFF)" using g by (simp add: k_def)
  have one: "jdepth y \<le> k" if "decode_one n r (depth + 1) = Inr (t, Inr y)" for r t y
    using Suc.IH [OF that] depth_step [OF g] k by simp
  from Suc.prems consider "jdepth x = 0"
    | t where "decode_items (\<lambda>r. decode_one n r (depth + 1)) n t [] = Inr (q, Inr x)"
    | t where "decode_members (\<lambda>r. decode_one n r (depth + 1)) depth n t [] = Inr (q, Inr x)"
    by (auto simp: decode_value_def rbind_eq_Inr decode_word_def dest: decode_string_lit_string split: if_splits)
  then have "jdepth x \<le> Suc k"
  proof cases
    case 2
    show ?thesis by (rule decode_items_depth [OF one _ 2]) simp_all
  next
    case 3
    show ?thesis by (rule decode_members_depth [OF one _ 3]) simp_all
  qed simp
  then show ?case using k by simp
qed simp

subsection \<open>Properties of the decoder\<close>

declare decode_one.simps(2) [simp del]

lemma decode_document_ok:
  "decode_document (b @ [0]) flags = Inl BadCast \<and> forged (b @ [0])
   \<or> (\<exists>q r. decode_document (b @ [0]) flags = Inr (q, r) \<and> length q \<le> length b + 1)"
proof -
  have ok: "parse_ok (b @ [0]) (decode_one (Suc (length (b @ [0]))) (b @ [0]) flags)"
    by (rule decode_one_ok) simp_all
  show ?thesis
  proof (cases "decode_one (Suc (length (b @ [0]))) (b @ [0]) flags = Inl BadCast")
    case True
    then show ?thesis using ok by (simp add: decode_document_def parse_ok_def)
  next
    case False
    with ok obtain q r where d: "decode_one (Suc (length (b @ [0]))) (b @ [0]) flags = Inr (q, r)"
        "skips (b @ [0]) q" and q: "terminated q"
      by (auto simp: parse_ok_def)
    from skipwhite_ok [OF q] obtain q2 where q2: "skipwhite q = Inr q2" "skips q q2" "terminated q2" by blast
    from terminated_split [OF q2(3)] obtain c t where c: "q2 = c # t" by blast
    have "length q2 \<le> length q" "length q \<le> length b + 1"
      using skips_length [OF q2(2)] skips_length [OF d(2)] by simp_all
    with q2(1) d(1) c show ?thesis by (cases r) (simp_all add: decode_document_def)
  qed
qed

text \<open>The decoder turns this number into a string at address 0x1234.\<close>

lemma forged_string: "json_decode [JString (bs ''-nan(0x2000000001234)'')] = Inl BadCast"
  by code_simp

lemma forged_type: "nan_tag (bs ''-nan(0x2000000001234)'') = 4"
  by code_simp

text \<open>C5. On any arguments \<open>json/decode\<close> ends, never reads past the NUL that ends its
  input, and returns a value or panics, unless the text holds a NaN whose payload reaches the bits
  that carry a type; such a text is not refused but gives a value with a type and a pointer of the
  sender's choice, as the number of the second part does (a string at address 0x1234).\<close>

theorem json_decode_total:
  "((\<exists>r. json_decode argv = Inr r)
     \<or> json_decode argv = Inl BadCast \<and> (\<exists>b. decode_source argv = Inr b \<and> forged (b @ [0])))
   \<and> json_decode [JString (bs ''-nan(0x2000000001234)'')] = Inl BadCast"
proof
  have "rbind (decode_document (b @ [0]) fl) (\<lambda>res. Inr (decode_report (b @ [0]) res)) = (Inl BadCast :: fault + _)
      \<and> forged (b @ [0])
    \<or> (\<exists>r. rbind (decode_document (b @ [0]) fl) (\<lambda>res. Inr (decode_report (b @ [0]) res)) = (Inr r :: fault + _))"
    for b fl using decode_document_ok [of b fl] by auto
  then show "(\<exists>r. json_decode argv = Inr r)
     \<or> json_decode argv = Inl BadCast \<and> (\<exists>b. decode_source argv = Inr b \<and> forged (b @ [0]))"
    unfolding json_decode_def by (auto split: sum.splits)
next
  show "json_decode [JString (bs ''-nan(0x2000000001234)'')] = Inl BadCast"
    by (rule forged_string)
qed

text \<open>C6. The recursion guard bounds the nesting: a decoded value is at most 1025 containers
  deep, so the C recursion is too, and the two option bits above the counter are never
  disturbed.\<close>

theorem json_decode_depth:
  assumes "json_decode argv = Inr (Inr v)"
  shows "jdepth v \<le> 1025"
proof -
  from assms obtain b fl res where "decode_document (b @ [0]) fl = Inr res" "decode_report (b @ [0]) res = Inr v"
    by (auto simp: json_decode_def rbind_eq_Inr split: sum.splits)
  moreover from this(2) obtain q where "res = (q, Inr v)"
    by (cases res) (auto simp: decode_report_def split: sum.splits)
  ultimately have "decode_document (b @ [0]) fl = Inr (q, Inr v)" by simp
  then obtain n p q2 where d: "decode_one n p fl = Inr (q2, Inr v)"
    by (auto simp: decode_document_def pbind_eq_value rbind_eq_Inr split: if_splits)
  have "0 \<le> fl AND 0xFFFF" by (simp add: low_bits)
  then show ?thesis using decode_one_depth [OF d] unfolding JANET_RECURSION_GUARD_def by linarith
qed

theorem json_decode_depth_witness: "jdepth (JArray [JArray [JBool True]]) \<le> 1025"
  by (rule json_decode_depth [of "[JString (bs ''[ [true]]'')]"]) code_simp

end
