(* ===== verification/JsonEncode.thy ===== *)
theory JsonEncode
  imports Json
begin

text \<open>
  The encoder of \<^verbatim>\<open>src/json/json.c\<close>. The output buffer is threaded through:
  a result is the buffer after the call with either the code's error text or success, so what an
  error leaves behind in a caller's buffer is part of the model. The \<open>depth\<close> parameter
  of \<open>encode_one\<close> is left out: the code passes it on and never looks at it.
  \<open>sprintf\<close> into \<open>cbuf[25]\<close> is a fault when the text and its NUL do not fit.
\<close>

subsection \<open>Strings\<close>

text \<open>The next code point and what follows it; \<open>None\<close> is \<open>goto invalidutf8\<close>.\<close>

definition cont :: "byte \<Rightarrow> bool" where
  "cont c \<longleftrightarrow> drop_bit 6 c = 2"

definition next_codepoint :: "bytes \<Rightarrow> (32 word \<times> bytes) option" where
  "next_codepoint c =
     (let u = (\<lambda>i. ucast (c ! i) :: 32 word) in
      if c ! 0 < 0x80 then Some (u 0, drop 1 c)
      else if c ! 0 < 0xE0 then
        if 2 > length c \<or> \<not> cont (c ! 1) then None
        else Some (push_bit 6 (u 0 AND 0x1F) OR (u 1 AND 0x3F), drop 2 c)
      else if c ! 0 < 0xF0 then
        if 3 > length c \<or> \<not> cont (c ! 1) \<or> \<not> cont (c ! 2) then None
        else Some (push_bit 12 (u 0 AND 0x0F) OR push_bit 6 (u 1 AND 0x3F) OR (u 2 AND 0x3F), drop 3 c)
      else if c ! 0 < 0xF8 then
        if 4 > length c \<or> \<not> cont (c ! 1) \<or> \<not> cont (c ! 2) \<or> \<not> cont (c ! 3) then None
        else Some (push_bit 18 (u 0 AND 0x07) OR push_bit 12 (u 1 AND 0x3F)
                   OR push_bit 6 (u 3 AND 0x3F) OR (u 3 AND 0x3F), drop 4 c)
      else None)"

definition u_escape :: "32 word \<Rightarrow> bytes" where
  "u_escape x =
     [c8 CHR 0x5C, c8 CHR ''u'', tohex (drop_bit 12 x AND 0xF), tohex (drop_bit 8 x AND 0xF),
      tohex (drop_bit 4 x AND 0xF), tohex (x AND 0xF)]"

definition write_codepoint :: "32 word \<Rightarrow> bytes" where
  "write_codepoint codepoint =
     (if codepoint > 0x1F \<and> codepoint < 0x80 then
        (if codepoint = 0x5C \<or> codepoint = 0x22 then [c8 CHR 0x5C] else []) @ [ucast codepoint]
      else if codepoint < 0x10000 then u_escape codepoint
      else u_escape (drop_bit 10 (codepoint - 0x10000) + 0xD800)
         @ u_escape (((codepoint - 0x10000) AND 0x3FF) + 0xDC00))"

lemma next_codepoint_shorter:
  "c \<noteq> [] \<Longrightarrow> next_codepoint c = Some (cp, r) \<Longrightarrow> length r < length c"
  by (auto simp: next_codepoint_def Let_def split: if_splits)

function encode_chars :: "bytes \<Rightarrow> bytes \<Rightarrow> bytes \<times> bool" where
  "encode_chars buf [] = (buf, True)"
| "encode_chars buf (b # c) =
     (case next_codepoint (b # c) of
        None \<Rightarrow> (buf, False)
      | Some (cp, r) \<Rightarrow> encode_chars (buf @ write_codepoint cp) r)"
  by pat_completeness auto
termination
  using next_codepoint_shorter [of "b # c" for b c] by (relation "measure (\<lambda>(buf, c). length c)") force+

subsection \<open>Values\<close>

record encoder =
  tab :: bytes
  newline :: bytes

type_synonym emit = "fault + bytes \<times> (string + unit)"

abbreviation emitted :: "bytes \<Rightarrow> emit" where
  "emitted buf \<equiv> Inr (buf, Inr ())"

definition encode_newline :: "encoder \<Rightarrow> nat \<Rightarrow> bytes \<Rightarrow> bytes" where
  "encode_newline e indent buf =
     buf @ newline e @ (if tab e = [] then [] else concat (replicate indent (tab e)))"

definition encode_number :: "double \<Rightarrow> bytes \<Rightarrow> emit" where
  "encode_number d buf =
     (if length (fmt_17g d) + 1 > 25 then Inl OutOfBounds else emitted (buf @ fmt_17g d))"

definition encode_string :: "bytes \<Rightarrow> bytes \<Rightarrow> emit" where
  "encode_string s buf =
     (case encode_chars (buf @ [c8 CHR 0x22]) s of
        (buf2, True) \<Rightarrow> emitted (buf2 @ [c8 CHR 0x22])
      | (buf2, False) \<Rightarrow> Inr (buf2, Inl ''string contains invalid utf-8''))"

text \<open>After the last item: the trailing comma is taken back, and the closing bracket goes on a
  line of its own.\<close>

definition encode_close :: "encoder \<Rightarrow> nat \<Rightarrow> byte \<Rightarrow> bytes \<Rightarrow> bytes" where
  "encode_close e indent bracket buf =
     (if last buf = c8 CHR '','' then encode_newline e indent (butlast buf) else buf) @ [bracket]"

text \<open>The two loops, given what the recursive calls on the items do.\<close>

fun encode_items :: "encoder \<Rightarrow> nat \<Rightarrow> (bytes \<Rightarrow> emit) list \<Rightarrow> bytes \<Rightarrow> emit" where
  "encode_items e indent [] buf = emitted buf"
| "encode_items e indent (one # items) buf =
     pbind (one (encode_newline e indent buf)) (\<lambda>buf _. encode_items e indent items (buf @ [c8 CHR '','']))"

fun encode_kvs :: "encoder \<Rightarrow> nat \<Rightarrow> (janet \<times> (bytes \<Rightarrow> emit) \<times> (bytes \<Rightarrow> emit)) list \<Rightarrow> bytes \<Rightarrow> emit" where
  "encode_kvs e indent [] buf = emitted buf"
| "encode_kvs e indent ((key, one_key, one_val) # kvs) buf =
     (if janet_checktype key JANET_NIL then encode_kvs e indent kvs buf
      else if \<not> janet_checktypes key JANET_TFLAG_BYTES
      then Inr (buf, Inl ''object key must be a byte sequence'')
      else pbind (one_key (encode_newline e indent buf)) (\<lambda>buf _.
           pbind (one_val (buf @ (if tab e = [] then bs '':'' else bs '': ''))) (\<lambda>buf _.
             encode_kvs e indent kvs (buf @ [c8 CHR '','']))))"

definition encode_array :: "encoder \<Rightarrow> nat \<Rightarrow> (bytes \<Rightarrow> emit) list \<Rightarrow> bytes \<Rightarrow> emit" where
  "encode_array e indent items buf =
     pbind (encode_items e (Suc indent) items (buf @ [c8 CHR ''['']))
       (\<lambda>buf _. emitted (encode_close e indent (c8 CHR '']'') buf))"

definition encode_object ::
  "encoder \<Rightarrow> nat \<Rightarrow> (janet \<times> (bytes \<Rightarrow> emit) \<times> (bytes \<Rightarrow> emit)) list \<Rightarrow> bytes \<Rightarrow> emit" where
  "encode_object e indent kvs buf =
     pbind (encode_kvs e (Suc indent) kvs (buf @ [c8 CHR ''{'']))
       (\<lambda>buf _. emitted (encode_close e indent (c8 CHR ''}'') buf))"

fun encode_one :: "encoder \<Rightarrow> nat \<Rightarrow> janet \<Rightarrow> bytes \<Rightarrow> emit" where
  "encode_one e indent JNil = (\<lambda>buf. emitted (buf @ bs ''null''))"
| "encode_one e indent (JBool b) = (\<lambda>buf. emitted (buf @ (if b then bs ''true'' else bs ''false'')))"
| "encode_one e indent (JNumber d) = encode_number d"
| "encode_one e indent (JString s) = encode_string s"
| "encode_one e indent (JSymbol s) = encode_string s"
| "encode_one e indent (JKeyword s) = encode_string s"
| "encode_one e indent (JBuffer s) = encode_string s"
| "encode_one e indent (JArray xs) =
     encode_array e indent (map (\<lambda>x. encode_one e (Suc indent) x) xs)"
| "encode_one e indent (JTuple xs) =
     encode_array e indent (map (\<lambda>x. encode_one e (Suc indent) x) xs)"
| "encode_one e indent (JTable kvs) = encode_object e indent
     (map (\<lambda>kv. (fst kv, encode_one e (Suc indent) (fst kv), encode_one e (Suc indent) (snd kv))) kvs)"
| "encode_one e indent (JStruct kvs) = encode_object e indent
     (map (\<lambda>kv. (fst kv, encode_one e (Suc indent) (fst kv), encode_one e (Suc indent) (snd kv))) kvs)"
| "encode_one e indent x = (\<lambda>buf. Inr (buf, Inl ''type not supported''))"

text \<open>The buffer after the call and what the call returns. Without a buffer argument a fresh one
  is used.\<close>

definition json_encode :: "janet list \<Rightarrow> fault + bytes \<times> (panic + janet)" where
  "json_encode argv =
     (let argc = length argv in
      case janet_arity (int argc) 1 4 of Inl p \<Rightarrow> Inr ([], Inl p) | Inr _ \<Rightarrow>
      case (if 3 \<ge> argc \<or> janet_checktype (argv ! 3) JANET_NIL then Inr [] else janet_getbuffer argv 3) of
        Inl p \<Rightarrow> Inr ([], Inl p)
      | Inr buf \<Rightarrow>
      case (if argc \<ge> 2 then janet_getbytes argv 1 else Inr []) of Inl p \<Rightarrow> Inr (buf, Inl p) | Inr t \<Rightarrow>
      case (if argc \<ge> 3 then janet_getbytes argv 2 else Inr (if argc \<ge> 2 then [13, 10] else [])) of
        Inl p \<Rightarrow> Inr (buf, Inl p)
      | Inr nl \<Rightarrow>
          rbind (encode_one \<lparr>tab = t, newline = nl\<rparr> 0 (argv ! 0) buf) (\<lambda>(buf2, res).
            Inr (buf2, case res of
                Inl err \<Rightarrow> Inl (Panic ''encode error: %s'' [AStr err])
              | Inr _ \<Rightarrow> Inr (JBuffer buf2))))"

end
