(* ===== verification/JsonRoundtrip.thy ===== *)
theory JsonRoundtrip
  imports JsonEncode
begin

text \<open>
  What the decoder makes of the encoder's output: every encodable value with finite numbers comes
  back in its normal form (\<open>json_norm\<close>), for every choice of white space for indentation
  and line ends. The one exception is stated too: a code point above U+FFFF is encoded from its
  first, second and twice its fourth byte, and only survives when the third equals the fourth.
\<close>

subsection \<open>Bits of UTF-8\<close>

lemma bit_above:
  assumes "unat x < 2 ^ k" "k \<le> n"
  shows "\<not> bit (x :: 32 word) n"
proof -
  have "unat x < 2 ^ n" using assms(1) power_increasing [OF assms(2), of "2::nat"] by linarith
  then have "\<not> bit (unat x) n" by (simp add: bit_iff_odd)
  then show ?thesis by (simp add: bit_unsigned_iff)
qed

lemmas masks32 =
  mask_eq_exp_minus_1 [where n = 3 and 'a = "32 word", simplified, symmetric]
  mask_eq_exp_minus_1 [where n = 4 and 'a = "32 word", simplified, symmetric]
  mask_eq_exp_minus_1 [where n = 5 and 'a = "32 word", simplified, symmetric]
  mask_eq_exp_minus_1 [where n = 6 and 'a = "32 word", simplified, symmetric]

lemma lead_bits:
  "n < 6 \<Longrightarrow> \<not> bit (0x80 :: int) n" "n < 5 \<Longrightarrow> \<not> bit (0xC0 :: int) n"
  "n < 4 \<Longrightarrow> \<not> bit (0xE0 :: int) n" "n < 3 \<Longrightarrow> \<not> bit (0xF0 :: int) n"
  by (auto simp: less_Suc_eq numeral_eq_Suc)

lemma tag_byte:
  assumes "\<And>n. \<not> bit m n \<or> \<not> bit c n" "uint m + uint c < 256"
  shows "uint (ucast ((x AND m) OR c :: 32 word) :: byte) = uint (x AND m) + uint c"
proof -
  have "(x AND m) + c = (x AND m) OR c" by (rule disjunctive_add) (use assms(1) in \<open>auto simp: bit_and_iff\<close>)
  moreover have le: "uint (x AND m) \<le> uint m" by (metis word_and_le1 word_le_def)
  then have "uint ((x AND m) + c) = uint (x AND m) + uint c"
    using assms(2) by (simp add: uint_word_ariths)
  ultimately show ?thesis
    using le assms(2) by (simp add: unsigned_ucast_eq take_bit_int_eq_self)
qed

lemma disjoint_bits:
  "\<not> bit (0x3F :: 32 word) n \<or> \<not> bit (0x80 :: 32 word) n"
  "\<not> bit (0x1F :: 32 word) n \<or> \<not> bit (0xC0 :: 32 word) n"
  "\<not> bit (0x0F :: 32 word) n \<or> \<not> bit (0xE0 :: 32 word) n"
  "\<not> bit (0x07 :: 32 word) n \<or> \<not> bit (0xF0 :: 32 word) n"
proof -
  have z: "a AND b = 0 \<Longrightarrow> \<not> bit a n \<or> \<not> bit b n" for a b :: "32 word"
    by (metis bit_0_eq bit_and_iff bot_apply bot_bool_def)
  show "\<not> bit (0x3F :: 32 word) n \<or> \<not> bit (0x80 :: 32 word) n"
  "\<not> bit (0x1F :: 32 word) n \<or> \<not> bit (0xC0 :: 32 word) n"
  "\<not> bit (0x0F :: 32 word) n \<or> \<not> bit (0xE0 :: 32 word) n"
  "\<not> bit (0x07 :: 32 word) n \<or> \<not> bit (0xF0 :: 32 word) n"
    by (rule z; simp)+
qed

lemma and_range: "0 \<le> uint (x AND m) \<and> uint (x AND m) \<le> uint (m :: 32 word)"
  by (metis word_and_le1 word_le_def uint_ge_0)

lemma tag_bytes:
  "uint (ucast ((x AND 0x3F) OR 0x80 :: 32 word) :: byte) = uint (x AND 0x3F) + 0x80"
  "uint (ucast ((x AND 0x1F) OR 0xC0 :: 32 word) :: byte) = uint (x AND 0x1F) + 0xC0"
  "uint (ucast ((x AND 0x0F) OR 0xE0 :: 32 word) :: byte) = uint (x AND 0x0F) + 0xE0"
  "uint (ucast ((x AND 0x07) OR 0xF0 :: 32 word) :: byte) = uint (x AND 0x07) + 0xF0"
  using tag_byte [OF disjoint_bits(1)] tag_byte [OF disjoint_bits(2)] tag_byte [OF disjoint_bits(3)]
    tag_byte [OF disjoint_bits(4)] by simp_all

lemma cont_iff: "cont c \<longleftrightarrow> 128 \<le> uint c \<and> uint c < 192"
proof -
  have "cont c \<longleftrightarrow> uint c div 64 = 2"
    by (simp add: cont_def word_uint_eq_iff drop_bit_eq_div uint_div)
  then show ?thesis by linarith
qed

lemma cont_tag: "cont (ucast ((x AND 0x3F) OR 0x80 :: 32 word))"
  using and_range [of x "0x3F"] by (simp add: cont_iff tag_bytes)

lemma lead_range:
  "0xC0 \<le> (ucast ((x AND 0x1F) OR 0xC0 :: 32 word) :: byte)" "ucast ((x AND 0x1F) OR 0xC0 :: 32 word) < (0xE0 :: byte)"
  "0xE0 \<le> (ucast ((x AND 0x0F) OR 0xE0 :: 32 word) :: byte)" "ucast ((x AND 0x0F) OR 0xE0 :: 32 word) < (0xF0 :: byte)"
  "0xF0 \<le> (ucast ((x AND 0x07) OR 0xF0 :: 32 word) :: byte)" "ucast ((x AND 0x07) OR 0xF0 :: 32 word) < (0xF8 :: byte)"
  using and_range [of x "0x1F"] and_range [of x "0x0F"] and_range [of x "0x07"]
  by (simp_all add: word_le_def word_less_def tag_bytes)

text \<open>Masking a tagged byte gives back what was tagged.\<close>

lemma untag:
  "ucast (ucast ((x AND 0x3F) OR 0x80 :: 32 word) :: byte) AND 0x3F = x AND (0x3F :: 32 word)"
  "ucast (ucast ((x AND 0x1F) OR 0xC0 :: 32 word) :: byte) AND 0x1F = x AND (0x1F :: 32 word)"
  "ucast (ucast ((x AND 0x0F) OR 0xE0 :: 32 word) :: byte) AND 0x0F = x AND (0x0F :: 32 word)"
  "ucast (ucast ((x AND 0x07) OR 0xF0 :: 32 word) :: byte) AND 0x07 = x AND (0x07 :: 32 word)"
  unfolding masks32 by (rule bit_word_eqI; auto simp: bit_simps lead_bits)+

lemma join2:
  assumes "unat x < 2 ^ 11"
  shows "push_bit 6 (drop_bit 6 x AND 0x1F) OR (x AND 0x3F) = (x :: 32 word)"
proof (rule bit_word_eqI)
  fix n
  have "n < 11 \<or> \<not> bit x n" using bit_above [of x 11 n] assms by (cases "11 \<le> n") simp_all
  then show "bit (push_bit 6 (drop_bit 6 x AND 0x1F) OR (x AND 0x3F)) n = bit x n"
    unfolding masks32 by (simp add: bit_simps) (cases "n < 6"; auto)
qed

lemma join3:
  assumes "unat x < 2 ^ 16"
  shows "push_bit 12 (drop_bit 12 x AND 0x0F) OR push_bit 6 (drop_bit 6 x AND 0x3F) OR (x AND 0x3F) = (x :: 32 word)"
proof (rule bit_word_eqI)
  fix n
  have "n < 16 \<or> \<not> bit x n" using bit_above [of x 16 n] assms by (cases "16 \<le> n") simp_all
  then show "bit (push_bit 12 (drop_bit 12 x AND 0x0F) OR push_bit 6 (drop_bit 6 x AND 0x3F) OR (x AND 0x3F)) n = bit x n"
    unfolding masks32 by (simp add: bit_simps) (cases "n < 6"; cases "n < 12"; auto)
qed

text \<open>The code point the encoder computes from the four bytes of \<open>x\<close>: the third byte is
  never looked at, the fourth is used twice.\<close>

definition fourth_twice :: "32 word \<Rightarrow> 32 word" where
  "fourth_twice x = (x AND NOT 0xFC0) OR push_bit 6 (x AND 0x3F)"

lemma join4:
  assumes "unat x < 2 ^ 21"
  shows "push_bit 18 (drop_bit 18 x AND 0x07) OR push_bit 12 (drop_bit 12 x AND 0x3F)
      OR push_bit 6 (x AND 0x3F) OR (x AND 0x3F) = fourth_twice x"
proof (rule bit_word_eqI)
  fix n
  have m: "(0xFC0 :: 32 word) = push_bit 6 (mask 6)" by (simp add: mask_eq_exp_minus_1 push_bit_eq_mult)
  have "n < 21 \<or> \<not> bit x n" using bit_above [of x 21 n] assms by (cases "21 \<le> n") simp_all
  then show "bit (push_bit 18 (drop_bit 18 x AND 0x07) OR push_bit 12 (drop_bit 12 x AND 0x3F)
      OR push_bit 6 (x AND 0x3F) OR (x AND 0x3F)) n = bit (fourth_twice x) n"
    unfolding masks32 fourth_twice_def m
    by (simp add: bit_simps) (cases "n < 6"; cases "n < 12"; cases "n < 18"; auto)
qed

subsection \<open>Code points out and in\<close>

text \<open>Unicode scalar values.\<close>

definition scalar :: "32 word \<Rightarrow> bool" where
  "scalar x \<longleftrightarrow> uint x < 0xD800 \<or> (0xE000 \<le> uint x \<and> uint x \<le> 0x10FFFF)"

definition reencoded :: "32 word \<Rightarrow> 32 word" where
  "reencoded x = (if uint x < 0x10000 then x else fourth_twice x)"

lemma uint_unat_less: "uint x < int k \<Longrightarrow> unat x < k"
  by (simp only: unat_eq_nat_uint nat_less_iff [OF uint_ge_0])

lemma next_codepoint_utf8_of:
  assumes "uint x < 2 ^ 21"
  shows "next_codepoint (utf8_of x @ t) = Some (reencoded x, t)"
proof -
  have n: "unat x < 2 ^ 11" if "uint x < 2 ^ 11" using that uint_unat_less [of x "2 ^ 11"] by simp
  have n3: "unat x < 2 ^ 16" if "uint x < 2 ^ 16" using that uint_unat_less [of x "2 ^ 16"] by simp
  have n4: "unat x < 2 ^ 21" using assms uint_unat_less [of x "2 ^ 21"] by simp
  note le = word_le_def word_less_def
  consider "uint x < 0x80" | "0x80 \<le> uint x" "uint x < 0x800" | "0x800 \<le> uint x" "uint x < 0x10000"
    | "0x10000 \<le> uint x" by linarith
  then show ?thesis
  proof cases
    case 1
    then have b: "uint (ucast x :: byte) = uint x"
      by (simp add: unsigned_ucast_eq take_bit_int_eq_self)
    have "uint (ucast (ucast x :: byte) :: 32 word) = uint (ucast x :: byte)"
      by (rule uint_up_ucast) (simp add: is_up)
    with b have "(ucast (ucast x :: byte) :: 32 word) = x" by (simp only: word_uint_eq_iff)
    with 1 b show ?thesis by (simp add: utf8_of_def next_codepoint_def le reencoded_def)
  next
    case 2
    have u: "utf8_of x = [ucast ((drop_bit 6 x AND 0x1F) OR 0xC0), ucast ((x AND 0x3F) OR 0x80)]"
      using 2 by (simp add: utf8_of_def le)
    note L = lead_range(1,2) [of "drop_bit 6 x"]
    have "\<not> ucast ((drop_bit 6 x AND 0x1F) OR 0xC0) < (0x80 :: byte)" using L(1) by (simp add: le)
    with L(2) join2 [OF n] 2 show ?thesis
      unfolding u next_codepoint_def Let_def
      by (simp add: cont_tag untag reencoded_def numeral_2_eq_2)
  next
    case 3
    have u: "utf8_of x = [ucast ((drop_bit 12 x AND 0x0F) OR 0xE0), ucast ((drop_bit 6 x AND 0x3F) OR 0x80),
        ucast ((x AND 0x3F) OR 0x80)]"
      using 3 by (simp add: utf8_of_def le)
    note L = lead_range(3,4) [of "drop_bit 12 x"]
    have "\<not> ucast ((drop_bit 12 x AND 0x0F) OR 0xE0) < (0x80 :: byte)"
        "\<not> ucast ((drop_bit 12 x AND 0x0F) OR 0xE0) < (0xE0 :: byte)" using L(1) by (simp_all add: le)
    with L(2) join3 [OF n3] 3 show ?thesis
      unfolding u next_codepoint_def Let_def
      by (simp add: cont_tag untag reencoded_def numeral_2_eq_2 numeral_3_eq_3)
  next
    case 4
    have u: "utf8_of x = [ucast ((drop_bit 18 x AND 0x07) OR 0xF0), ucast ((drop_bit 12 x AND 0x3F) OR 0x80),
        ucast ((drop_bit 6 x AND 0x3F) OR 0x80), ucast ((x AND 0x3F) OR 0x80)]"
      using 4 by (simp add: utf8_of_def le)
    note L = lead_range(5,6) [of "drop_bit 18 x"]
    have "\<not> ucast ((drop_bit 18 x AND 0x07) OR 0xF0) < (0x80 :: byte)"
        "\<not> ucast ((drop_bit 18 x AND 0x07) OR 0xF0) < (0xE0 :: byte)"
        "\<not> ucast ((drop_bit 18 x AND 0x07) OR 0xF0) < (0xF0 :: byte)" using L(1) by (simp_all add: le)
    with L(2) join4 [OF n4] 4 show ?thesis
      unfolding u next_codepoint_def Let_def
      by (simp add: cont_tag untag reencoded_def numeral_2_eq_2 numeral_3_eq_3)
  qed
qed

lemma encode_chars_utf8:
  "\<forall>x \<in> set cs. uint x < 2 ^ 21 \<Longrightarrow>
   encode_chars buf (concat (map utf8_of cs)) = (buf @ concat (map (write_codepoint \<circ> reencoded) cs), True)"
proof (induction cs arbitrary: buf)
  case (Cons x cs)
  obtain b c where u: "utf8_of x = b # c" by (cases "utf8_of x") (auto simp: utf8_of_def split: if_splits)
  have "next_codepoint (b # c @ concat (map utf8_of cs)) = Some (reencoded x, concat (map utf8_of cs))"
    using next_codepoint_utf8_of [of x "concat (map utf8_of cs)"] Cons.prems by (simp add: u)
  with Cons show ?case by (simp add: u)
qed simp

text \<open>Hexadecimal digits.\<close>

lemma hex_round:
  assumes "unat n < 16"
  shows "hexdig (tohex n) = uint n" and "tohex n \<noteq> 0"
proof -
  have "\<forall>k \<in> set [0..<16]. hexdig (hex_digits ! k) = int k \<and> hex_digits ! k \<noteq> 0"
    by (simp add: hex_digits_def hexdig_def upt_rec)
  then have "hexdig (hex_digits ! unat n) = int (unat n) \<and> hex_digits ! unat n \<noteq> 0"
    using assms by simp
  then show "hexdig (tohex n) = uint n" "tohex n \<noteq> 0" by (simp_all add: tohex_def)
qed

lemma unat_and_F: "unat (x AND 0xF :: 32 word) < 16"
  using and_range [of x "0xF"] uint_unat_less [of "x AND 0xF" 16] by simp

lemma nibbles:
  assumes "unat x < 2 ^ 16"
  shows "word_of_int (uint (x AND 0xF) OR push_bit 4 (uint (drop_bit 4 x AND 0xF))
    OR push_bit 8 (uint (drop_bit 8 x AND 0xF)) OR push_bit 12 (uint (drop_bit 12 x AND 0xF))) = (x :: 32 word)"
    (is "?l = x")
proof (rule bit_word_eqI)
  fix n assume "n < LENGTH(32)"
  have "n < 16 \<or> \<not> bit x n" using bit_above [of x 16 n] assms by (cases "16 \<le> n") simp_all
  then show "bit ?l n = bit x n"
    using \<open>n < LENGTH(32)\<close> unfolding masks32
    by (simp add: bit_simps) (cases "n < 4"; cases "n < 8"; cases "n < 12"; auto)
qed

lemma decode_u_escape:
  assumes "uint x < 0x10000"
  shows "decode_utf16_escape (drop 2 (u_escape x) @ p) = Inr (Inr x)"
proof -
  have "unat x < 2 ^ 16" using assms uint_unat_less [of x "2 ^ 16"] by simp
  from nibbles [OF this] show ?thesis
    by (simp add: decode_utf16_escape_def u_escape_def hex_round unat_and_F numeral_2_eq_2 numeral_3_eq_3)
qed

lemma u_escape_unfold: "u_escape x = c8 CHR 0x5C # c8 CHR ''u'' # drop 2 (u_escape x)" "length (u_escape x) = 6"
  by (simp_all add: u_escape_def)

lemma decode_u_bmp:
  assumes "uint x < 0x10000" and "scalar x"
  shows "decode_u (drop 2 (u_escape x) @ p) = Inr (Inr (x, 4))"
  using assms by (auto simp: decode_u_def decode_u_escape word_le_def scalar_def)

lemma split10: "push_bit 10 (drop_bit 10 y) + (y AND 0x3FF) = (y :: 32 word)"
proof -
  have m: "(0x3FF :: 32 word) = mask 10" by (simp add: mask_eq_exp_minus_1)
  have "push_bit 10 (drop_bit 10 y) + (y AND 0x3FF) = push_bit 10 (drop_bit 10 y) OR (y AND 0x3FF)"
    by (rule disjunctive_add) (auto simp: m bit_simps)
  also have "\<dots> = y" unfolding m by (rule bit_word_eqI) (auto simp: bit_simps)
  finally show ?thesis .
qed

lemma decode_u_pair:
  assumes "0x10000 \<le> uint x" and "uint x \<le> 0x10FFFF"
  defines "hi \<equiv> drop_bit 10 (x - 0x10000) + 0xD800" and "lo \<equiv> ((x - 0x10000) AND 0x3FF) + 0xDC00"
  shows "decode_u (drop 2 (u_escape hi) @ u_escape lo @ p) = Inr (Inr (x, 10))"
proof -
  let ?y = "x - 0x10000"
  have y: "uint ?y = uint x - 0x10000" using assms(1) by (simp add: uint_sub_if_size)
  have d: "uint (drop_bit 10 ?y) = (uint x - 0x10000) div 1024"
    by (simp add: y drop_bit_eq_div uint_div)
  have a: "uint (?y AND 0x3FF) \<le> 0x3FF" "0 \<le> uint (?y AND 0x3FF)" using and_range [of ?y "0x3FF"] by simp_all
  have "(uint x - 0x10000) div 1024 \<le> 0x3FF" "0 \<le> (uint x - 0x10000) div 1024" using assms(1,2) by simp_all
  then have hi: "uint hi = (uint x - 0x10000) div 1024 + 0xD800" "0xD800 \<le> uint hi" "uint hi \<le> 0xDBFF"
    using d by (simp_all add: hi_def uint_word_ariths)
  have lo: "uint lo = uint (?y AND 0x3FF) + 0xDC00" "0xDC00 \<le> uint lo" "uint lo \<le> 0xDFFF"
    using a by (simp_all add: lo_def uint_word_ariths)
  have x: "push_bit 10 (hi - 0xD800) + (lo - 0xDC00) + 0x10000 = x"
    using split10 [of ?y] by (simp add: hi_def lo_def)
  let ?t = "drop 2 (u_escape hi) @ u_escape lo @ p"
  have l4: "length (drop 2 (u_escape hi)) = 4" by (simp add: u_escape_unfold(2))
  have p4: "peek ?t 4 = Inr (c8 CHR 0x5C)" "peek ?t 5 = Inr (c8 CHR ''u'')"
    using l4 by (simp_all add: peek_def nth_append u_escape_def [of lo])
  have d6: "drop 6 ?t = drop 2 (u_escape lo) @ p" using l4 by (simp add: u_escape_def [of lo])
  show ?thesis
    using hi(2,3) lo(2,3) x p4 d6 decode_u_escape [of hi "u_escape lo @ p"] decode_u_escape [of lo p]
    by (simp add: decode_u_def word_le_def word_less_def)
qed

lemma decode_string_write:
  assumes "scalar x"
  shows "decode_string (write_codepoint x @ p) buf = decode_string p (buf @ utf8_of x)"
proof -
  note le = word_le_def word_less_def
  have esc: "decode_string (u_escape y @ t) buf = decode_string (drop n (drop 2 (u_escape y) @ t)) (buf @ utf8_of x)"
    if "decode_u (drop 2 (u_escape y) @ t) = Inr (Inr (x, n))" for y t n
    using that by (subst u_escape_unfold(1)) simp
  have l4: "length (drop 2 (u_escape y)) = 4" for y by (simp add: u_escape_unfold(2))
  consider "0x20 \<le> uint x" "uint x < 0x80" | "uint x < 0x20 \<or> 0x80 \<le> uint x" "uint x < 0x10000"
    | "0x10000 \<le> uint x" by linarith
  then show ?thesis
  proof cases
    case 1
    then have u: "utf8_of x = [ucast x]" by (simp add: utf8_of_def le)
    have b: "uint (ucast x :: byte) = uint x"
      using 1 by (simp add: unsigned_ucast_eq take_bit_int_eq_self)
    have w: "write_codepoint x = (if x = 0x5C \<or> x = 0x22 then [c8 CHR 0x5C] else []) @ [ucast x]"
      using 1 by (simp add: write_codepoint_def le)
    show ?thesis
    proof (cases "x = 0x5C \<or> x = 0x22")
      case True
      then show ?thesis by (auto simp: w u simple_escape_def)
    next
      case False
      then have "uint x \<noteq> 0x5C" "uint x \<noteq> 0x22" by (simp_all add: word_uint_eq_iff)
      then have "ucast x \<noteq> (0x5C :: byte)" "ucast x \<noteq> (0x22 :: byte)" "\<not> ucast x < (32 :: byte)"
        using b 1 by (auto simp: word_uint_eq_iff le)
      then show ?thesis using False by (simp add: w u)
    qed
  next
    case 2
    then have w: "write_codepoint x = u_escape x" by (auto simp: write_codepoint_def le)
    show ?thesis
      unfolding w using esc [OF decode_u_bmp [OF 2(2) assms]] l4 [of x] by simp
  next
    case 3
    then have x: "uint x \<le> 0x10FFFF" using assms by (simp add: scalar_def)
    have w: "write_codepoint x = u_escape (drop_bit 10 (x - 0x10000) + 0xD800)
        @ u_escape (((x - 0x10000) AND 0x3FF) + 0xDC00)"
      using 3 by (simp add: write_codepoint_def le)
    show ?thesis
      unfolding w append_assoc
      using esc [OF decode_u_pair [OF 3 x]] l4 u_escape_unfold(2) by simp
  qed
qed

lemma decode_string_text:
  "\<forall>x \<in> set cs. scalar x \<Longrightarrow>
   decode_string (concat (map write_codepoint cs) @ c8 CHR 0x22 # r) buf = Inr (Inr (buf @ concat (map utf8_of cs), r))"
proof (induction cs arbitrary: buf)
  case (Cons x cs)
  then show ?case using decode_string_write [of x "concat (map write_codepoint cs) @ c8 CHR 0x22 # r" buf] by simp
qed simp

text \<open>The fast path for strings without escapes agrees with the general one.\<close>

lemma decode_string_plain:
  "decode_string start buf = decode_string (dropWhile scan_plain start) (buf @ takeWhile scan_plain start)"
proof (induction start arbitrary: buf)
  case (Cons b start)
  show ?case
  proof (cases "scan_plain b")
    case True
    then have "decode_string (b # start) buf = decode_string start (buf @ [b])"
      by (auto simp: scan_plain_def not_less)
    then show ?thesis using True Cons.IH [of "buf @ [b]"] by simp
  next
    case False
    then show ?thesis by (simp del: decode_string.simps)
  qed
qed simp

lemma decode_string_lit_eq:
  assumes "decode_string start [] = Inr (Inr (s, r))"
  shows "decode_string_lit p start = Inr (r, Inr (JString s))"
proof (cases "dropWhile scan_plain start")
  case Nil
  show ?thesis using assms decode_string_plain [of start "[]", unfolded Nil] by simp
next
  case (Cons c t)
  then have "\<not> scan_plain c" by (metis dropWhile_eq_Cons_conv)
  then show ?thesis
    using assms Cons decode_string_plain [of start "[]"]
    by (auto simp: decode_string_lit_def scan_plain_def split: if_splits)
qed

subsection \<open>Texts of values\<close>

text \<open>What an emitter that always succeeds appends to the buffer.\<close>

definition emit_text :: "(bytes \<Rightarrow> emit) \<Rightarrow> bytes" where
  "emit_text f = (case f [] of Inr (b, _) \<Rightarrow> b | Inl _ \<Rightarrow> [])"

definition appends :: "(bytes \<Rightarrow> emit) \<Rightarrow> bytes \<Rightarrow> bool" where
  "appends f t \<longleftrightarrow> (\<forall>buf. f buf = emitted (buf @ t))"

lemma appends_text: "appends f t \<Longrightarrow> emit_text f = t"
  by (simp add: appends_def emit_text_def)

lemma appends_emit_text: "appends f t \<Longrightarrow> appends f (emit_text f)"
  by (simp add: appends_text)

definition line_text :: "encoder \<Rightarrow> nat \<Rightarrow> bytes" where
  "line_text e indent = encode_newline e indent []"

lemma encode_newline_eq: "encode_newline e indent buf = buf @ line_text e indent"
  by (simp add: encode_newline_def line_text_def)

text \<open>Items separated by commas, each after the white space \<open>w\<close>, the last followed by
  \<open>c\<close>.\<close>

fun join_items :: "bytes \<Rightarrow> bytes \<Rightarrow> bytes list \<Rightarrow> bytes" where
  "join_items w c [] = []"
| "join_items w c [t] = t @ c"
| "join_items w c (t # ts) = t @ c8 CHR '','' # w @ join_items w c ts"

lemma join_items_Cons: "ts \<noteq> [] \<Longrightarrow> join_items w c (t # ts) = t @ c8 CHR '','' # w @ join_items w c ts"
  by (cases ts) simp_all

lemma encode_close_join:
  "encode_close e indent br ((buf @ [b]) @ concat (map (\<lambda>t. w @ t @ [c8 CHR '','']) ts)) =
     buf @ [b] @ (if ts = [] then [] else w @ join_items w (line_text e indent) ts) @ [br]"
  if "b \<noteq> c8 CHR '',''"
proof (cases ts rule: rev_cases)
  case Nil
  then show ?thesis using that by (simp add: encode_close_def)
next
  case (snoc us u)
  have j: "concat (map (\<lambda>t. w @ t @ [c8 CHR '','']) us) @ w @ u @ c = w @ join_items w c (us @ [u])" for c
  proof (induction us)
    case (Cons a us)
    then show ?case by (simp add: join_items_Cons)
  qed simp
  have "last ((buf @ [b]) @ concat (map (\<lambda>t. w @ t @ [c8 CHR '','']) ts)) = c8 CHR '',''"
    by (simp add: snoc)
  moreover have "butlast ((buf @ [b]) @ concat (map (\<lambda>t. w @ t @ [c8 CHR '','']) ts))
      = buf @ [b] @ concat (map (\<lambda>t. w @ t @ [c8 CHR '','']) us) @ w @ u"
    by (simp add: snoc butlast_append)
  ultimately show ?thesis using j [of "line_text e indent"]
    by (simp add: encode_close_def encode_newline_eq snoc)
qed

lemma encode_items_text:
  assumes "\<forall>f \<in> set fs. appends f (emit_text f)"
  shows "encode_items e indent fs buf =
    emitted (buf @ concat (map (\<lambda>t. line_text e indent @ t @ [c8 CHR '','']) (map emit_text fs)))"
  using assms
proof (induction fs arbitrary: buf)
  case (Cons f fs)
  then have "f (encode_newline e indent buf) = emitted (encode_newline e indent buf @ emit_text f)"
    by (simp add: appends_def)
  with Cons show ?case by (simp add: encode_newline_eq)
qed simp

definition member_text :: "encoder \<Rightarrow> (bytes \<Rightarrow> emit) \<Rightarrow> (bytes \<Rightarrow> emit) \<Rightarrow> bytes" where
  "member_text e f g = emit_text f @ (if tab e = [] then bs '':'' else bs '': '') @ emit_text g"

lemma encode_kvs_text:
  assumes "\<forall>(key, f, g) \<in> set kvs. key = JNil
      \<or> (janet_checktypes key JANET_TFLAG_BYTES \<and> appends f (emit_text f) \<and> appends g (emit_text g))"
  shows "encode_kvs e indent kvs buf =
    emitted (buf @ concat (map (\<lambda>t. line_text e indent @ t @ [c8 CHR '',''])
      (map (\<lambda>(key, f, g). member_text e f g) (filter (\<lambda>kv. fst kv \<noteq> JNil) kvs))))"
  using assms
proof (induction kvs arbitrary: buf)
  case (Cons kv kvs)
  obtain key f g where kv: "kv = (key, f, g)" by (cases kv)
  have nil: "janet_type key = JANET_NIL \<longleftrightarrow> key = JNil" by (cases key) simp_all
  show ?case
  proof (cases "key = JNil")
    case True
    with Cons show ?thesis by (simp add: kv)
  next
    case False
    with Cons.prems have k: "janet_checktypes key JANET_TFLAG_BYTES"
        "\<And>b. f b = emitted (b @ emit_text f)" "\<And>b. g b = emitted (b @ emit_text g)"
      by (auto simp: kv appends_def)
    have IH: "encode_kvs e indent kvs b =
      emitted (b @ concat (map (\<lambda>t. line_text e indent @ t @ [c8 CHR '',''])
        (map (\<lambda>(key, f, g). member_text e f g) (filter (\<lambda>kv. fst kv \<noteq> JNil) kvs))))" for b
      using Cons by simp
    show ?thesis
      using False nil k by (simp add: kv IH encode_newline_eq member_text_def)
  qed
qed simp

subsection \<open>Decoding the texts\<close>

definition all_white :: "bytes \<Rightarrow> bool" where
  "all_white w \<longleftrightarrow> (\<forall>c \<in> set w. white c)"

lemma skipwhite_white: "all_white w \<Longrightarrow> skipwhite (w @ p) = skipwhite p"
  by (induction w) (auto simp: all_white_def)

lemma white_not_brackets:
  "white c \<Longrightarrow> c \<noteq> c8 CHR '']'' \<and> c \<noteq> c8 CHR ''}'' \<and> c \<noteq> c8 CHR '','' \<and> c \<noteq> c8 CHR '':'' \<and> c \<noteq> 0 \<and> c \<noteq> c8 CHR 0x22"
  by (auto simp: white_def)

text \<open>\<open>one\<close> reads \<open>t\<close> as \<open>y\<close>, after white space and before anything
  that cannot continue a number, when at most \<open>L\<close> cells are left.\<close>

definition starts_value :: "bytes \<Rightarrow> bool" where
  "starts_value t \<longleftrightarrow> t \<noteq> [] \<and> \<not> white (hd t) \<and> hd t \<noteq> c8 CHR '']'' \<and> hd t \<noteq> c8 CHR ''}''"

definition reads :: "(bytes \<Rightarrow> 'a parse) \<Rightarrow> nat \<Rightarrow> bytes \<Rightarrow> 'a \<Rightarrow> bool" where
  "reads one L t y \<longleftrightarrow> (\<forall>w r. all_white w \<and> num_stop r \<and> terminated r \<and> length (w @ t @ r) \<le> L
     \<longrightarrow> one (w @ t @ r) = Inr (r, Inr y))"

lemma num_stop_white: "white c \<Longrightarrow> num_stop (c # r)"
  by (auto simp: white_def num_stop_def isdigit_def tolower_def)

lemma num_stop_append:
  "all_white w \<Longrightarrow> num_stop r \<Longrightarrow> num_stop (w @ r)"
  by (cases w) (auto simp: all_white_def num_stop_white)

lemma num_stop_nums [simp]:
  "num_stop (44 # r)" "num_stop (93 # r)" "num_stop (125 # r)" "num_stop (58 # r)" "num_stop (0 # r)"
  by (simp_all add: num_stop_def isdigit_def tolower_def)

lemma num_stop_punct:
  "num_stop (c8 CHR '','' # r)" "num_stop (c8 CHR '']'' # r)" "num_stop (c8 CHR ''}'' # r)" "num_stop (c8 CHR '':'' # r)"
  "num_stop (0 # r)"
  by (simp_all add: num_stop_def isdigit_def tolower_def)

lemma terminated_after: "terminated r \<Longrightarrow> terminated (p @ r)"
  by (auto simp: terminated_def)

lemma peek_lead:
  assumes "all_white w" "starts_value t"
  obtains c where "peek (w @ t @ r) 0 = Inr c" and "c \<noteq> c8 CHR '']''" and "c \<noteq> c8 CHR ''}''"
proof (cases w)
  case Nil
  then show ?thesis using assms(2) that by (cases t) (auto simp: starts_value_def)
next
  case (Cons b v)
  then have "white b" using assms(1) by (simp add: all_white_def)
  then show ?thesis using Cons that white_not_brackets by auto
qed

lemma decode_items_join:
  assumes "tys \<noteq> []" and "\<forall>ty \<in> set tys. starts_value (fst ty) \<and> reads one L (fst ty) (snd ty)"
    and w: "all_white w" "all_white c" and "all_white v" and r: "terminated r"
    and "length (v @ join_items w c (map fst tys) @ c8 CHR '']'' # r) \<le> L" and "length tys \<le> n"
  shows "decode_items one n (v @ join_items w c (map fst tys) @ c8 CHR '']'' # r) array =
    Inr (r, Inr (JArray (array @ map snd tys)))"
  using assms(1,2,5,7,8)
proof (induction tys arbitrary: v n array)
  case (Cons ty tys)
  obtain m where n: "n = Suc m" using Cons.prems(5) by (cases n) auto
  have ty: "starts_value (fst ty)" "reads one L (fst ty) (snd ty)" using Cons.prems(2) by simp_all
  let ?close = "c8 CHR '']'' # r"
  show ?case
  proof (cases "tys = []")
    case True
    have "one (v @ fst ty @ c @ ?close) = Inr (c @ ?close, Inr (snd ty))"
      using ty(2) Cons.prems(3,4) r w(2) num_stop_append [OF w(2), of ?close] terminated_after [of ?close c]
      by (simp add: reads_def True terminated_Cons)
    moreover obtain b where "peek (v @ fst ty @ c @ ?close) 0 = Inr b" "b \<noteq> c8 CHR '']''"
      using Cons.prems(3) ty(1) by (rule peek_lead)
    ultimately show ?thesis
      using skipwhite_white [OF w(2), of ?close] by (simp add: n True white_def)
  next
    case False
    let ?more = "w @ join_items w c (map fst tys) @ ?close"
    have j: "join_items w c (map fst (ty # tys)) = fst ty @ c8 CHR '','' # w @ join_items w c (map fst tys)"
      using False by (simp add: join_items_Cons)
    have len: "length (v @ fst ty @ c8 CHR '','' # ?more) \<le> L" using Cons.prems(4) by (simp only: j) simp
    have "terminated (c8 CHR '','' # ?more)"
      using terminated_after [of r "c8 CHR '','' # w @ join_items w c (map fst tys) @ [c8 CHR '']'']"] r by simp
    then have "one (v @ fst ty @ c8 CHR '','' # ?more) = Inr (c8 CHR '','' # ?more, Inr (snd ty))"
      using ty(2) Cons.prems(3) len num_stop_punct(1) [of ?more] unfolding reads_def by blast
    moreover obtain b where "peek (v @ fst ty @ c8 CHR '','' # ?more) 0 = Inr b" "b \<noteq> c8 CHR '']''"
      using Cons.prems(3) ty(1) by (rule peek_lead)
    moreover have "decode_items one m ?more (array @ [snd ty]) =
        Inr (r, Inr (JArray ((array @ [snd ty]) @ map snd tys)))"
      by (rule Cons.IH) (use False Cons.prems len n w in simp_all)
    ultimately show ?thesis by (simp only: j) (simp add: n white_def)
  qed
qed simp

text \<open>The same for members, whose result is a change of the table.\<close>

lemma decode_members_join:
  assumes "tfs \<noteq> []" and "\<forall>tf \<in> set tfs. starts_value (fst tf)"
    and "\<forall>tf \<in> set tfs. \<forall>tbl. reads (\<lambda>p. decode_member one depth p tbl) L (fst tf) (snd tf tbl)"
    and w: "all_white w" "all_white c" and "all_white v" and r: "terminated r"
    and "length (v @ join_items w c (map fst tfs) @ c8 CHR ''}'' # r) \<le> L" and "length tfs \<le> n"
  shows "decode_members one depth n (v @ join_items w c (map fst tfs) @ c8 CHR ''}'' # r) table =
    Inr (r, Inr (JTable (foldl (\<lambda>tbl f. f tbl) table (map snd tfs))))"
  using assms(1,2,3,6,8,9)
proof (induction tfs arbitrary: v n table)
  case (Cons tf tfs)
  obtain m where n: "n = Suc m" using Cons.prems(6) by (cases n) auto
  have tf: "starts_value (fst tf)" "reads (\<lambda>p. decode_member one depth p table) L (fst tf) (snd tf table)"
    using Cons.prems(2,3) by simp_all
  let ?close = "c8 CHR ''}'' # r"
  show ?case
  proof (cases "tfs = []")
    case True
    have "decode_member one depth (v @ fst tf @ c @ ?close) table = Inr (c @ ?close, Inr (snd tf table))"
      using tf(2) Cons.prems(4,5) r w(2) num_stop_append [OF w(2), of ?close] terminated_after [of ?close c]
      by (simp add: reads_def True terminated_Cons)
    moreover obtain b where "peek (v @ fst tf @ c @ ?close) 0 = Inr b" "b \<noteq> c8 CHR ''}''"
      using Cons.prems(4) tf(1) by (rule peek_lead)
    ultimately show ?thesis
      using skipwhite_white [OF w(2), of ?close] by (simp add: n True white_def)
  next
    case False
    let ?more = "w @ join_items w c (map fst tfs) @ ?close"
    have j: "join_items w c (map fst (tf # tfs)) = fst tf @ c8 CHR '','' # w @ join_items w c (map fst tfs)"
      using False by (simp add: join_items_Cons)
    have len: "length (v @ fst tf @ c8 CHR '','' # ?more) \<le> L" using Cons.prems(5) by (simp only: j) simp
    have "terminated (c8 CHR '','' # ?more)"
      using terminated_after [of r "c8 CHR '','' # w @ join_items w c (map fst tfs) @ [c8 CHR ''}'']"] r by simp
    then have "decode_member one depth (v @ fst tf @ c8 CHR '','' # ?more) table =
        Inr (c8 CHR '','' # ?more, Inr (snd tf table))"
      using tf(2) Cons.prems(4) len num_stop_punct(1) [of ?more] unfolding reads_def by blast
    moreover obtain b where "peek (v @ fst tf @ c8 CHR '','' # ?more) 0 = Inr b" "b \<noteq> c8 CHR ''}''"
      using Cons.prems(4) tf(1) by (rule peek_lead)
    moreover have "decode_members one depth m ?more (snd tf table) =
        Inr (r, Inr (JTable (foldl (\<lambda>tbl f. f tbl) (snd tf table) (map snd tfs))))"
      by (rule Cons.IH) (use False Cons.prems len n w in simp_all)
    ultimately show ?thesis by (simp only: j) (simp add: n white_def)
  qed
qed simp

subsection \<open>The round trip\<close>

text \<open>Text the encoder keeps: well-formed UTF-8 whose code points it computes right.\<close>

definition json_text :: "bytes \<Rightarrow> bool" where
  "json_text s \<longleftrightarrow> (\<exists>cs. s = concat (map utf8_of cs) \<and> (\<forall>x \<in> set cs. scalar x \<and> reencoded x = x))"

text \<open>Values of nesting depth at most \<open>k\<close> the encoder keeps.\<close>

fun json_ok :: "nat \<Rightarrow> janet \<Rightarrow> bool" where
  "json_ok k JNil = True"
| "json_ok k (JBool b) = True"
| "json_ok k (JNumber d) = (dbl_wf d \<and> (case d of Finite _ _ \<Rightarrow> True | _ \<Rightarrow> False))"
| "json_ok k (JString s) = json_text s"
| "json_ok k (JSymbol s) = json_text s"
| "json_ok k (JKeyword s) = json_text s"
| "json_ok k (JBuffer s) = json_text s"
| "json_ok k (JArray xs) = (0 < k \<and> (\<forall>x \<in> set xs. json_ok (k - 1) x))"
| "json_ok k (JTuple xs) = (0 < k \<and> (\<forall>x \<in> set xs. json_ok (k - 1) x))"
| "json_ok k (JTable kvs) = (0 < k \<and> (\<forall>kv \<in> set kvs. fst kv = JNil
     \<or> (janet_checktypes (fst kv) JANET_TFLAG_BYTES \<and> json_ok (k - 1) (fst kv) \<and> json_ok (k - 1) (snd kv))))"
| "json_ok k (JStruct kvs) = (0 < k \<and> (\<forall>kv \<in> set kvs. fst kv = JNil
     \<or> (janet_checktypes (fst kv) JANET_TFLAG_BYTES \<and> json_ok (k - 1) (fst kv) \<and> json_ok (k - 1) (snd kv))))"
| "json_ok k _ = False"

text \<open>What comes back: nil as nil or \<open>:null\<close>, byte sequences as strings, sequences as
  arrays, dictionaries as tables with string or keyword keys, put in the order of the buckets.\<close>

definition norm_key :: "bool \<Rightarrow> janet \<Rightarrow> janet" where
  "norm_key kw key = (case janet_bytes_view key of
     Some s \<Rightarrow> if kw then JKeyword s else JString s | None \<Rightarrow> JNil)"

definition norm_table :: "bool \<Rightarrow> (janet \<times> janet) list \<Rightarrow> janet" where
  "norm_table kw kvs = JTable (foldl (\<lambda>tbl kv. put_member tbl (norm_key kw (fst kv)) (snd kv)) []
     (filter (\<lambda>kv. fst kv \<noteq> JNil) kvs))"

fun json_norm :: "bool \<Rightarrow> bool \<Rightarrow> janet \<Rightarrow> janet" where
  "json_norm kw nils JNil = (if nils then JNil else JKeyword (bs ''null''))"
| "json_norm kw nils (JString s) = JString s"
| "json_norm kw nils (JSymbol s) = JString s"
| "json_norm kw nils (JKeyword s) = JString s"
| "json_norm kw nils (JBuffer s) = JString s"
| "json_norm kw nils (JArray xs) = JArray (map (json_norm kw nils) xs)"
| "json_norm kw nils (JTuple xs) = JArray (map (json_norm kw nils) xs)"
| "json_norm kw nils (JTable kvs) = norm_table kw (map (\<lambda>kv. (fst kv, json_norm kw nils (snd kv))) kvs)"
| "json_norm kw nils (JStruct kvs) = norm_table kw (map (\<lambda>kv. (fst kv, json_norm kw nils (snd kv))) kvs)"
| "json_norm kw nils x = x"

text \<open>The option bits survive the count.\<close>

lemma flag_step:
  assumes "(d::int) AND 0xFFFF \<le> JANET_RECURSION_GUARD"
  shows "(d + 1) AND JSON_KEYWORD_KEY \<noteq> 0 \<longleftrightarrow> d AND JSON_KEYWORD_KEY \<noteq> 0"
    and "(d + 1) AND JSON_NULL_TO_NIL \<noteq> 0 \<longleftrightarrow> d AND JSON_NULL_TO_NIL \<noteq> 0"
proof -
  have "d mod 0x10000 \<le> 1024" using assms by (simp add: low_bits JANET_RECURSION_GUARD_def)
  then have d: "(d + 1) div 0x10000 = d div 0x10000"
    by (simp add: div_add1_eq [of d 1])
  have b: "bit (d + 1) n = bit d n" if "16 \<le> n" for n
  proof -
    have "x div 2 ^ n = x div 0x10000 div 2 ^ (n - 16)" for x :: int
      using that power_add [of "2::int" 16 "n - 16"] by (simp add: zdiv_zmult2_eq)
    then show ?thesis using d by (simp add: bit_iff_odd)
  qed
  have k: "x AND JSON_KEYWORD_KEY \<noteq> 0 \<longleftrightarrow> bit x 16" "x AND JSON_NULL_TO_NIL \<noteq> 0 \<longleftrightarrow> bit x 17" for x
    using and_exp_eq_0_iff_not_bit [of x 16] and_exp_eq_0_iff_not_bit [of x 17]
    by (simp_all add: JSON_KEYWORD_KEY_def JSON_NULL_TO_NIL_def)
  show "(d + 1) AND JSON_KEYWORD_KEY \<noteq> 0 \<longleftrightarrow> d AND JSON_KEYWORD_KEY \<noteq> 0"
    "(d + 1) AND JSON_NULL_TO_NIL \<noteq> 0 \<longleftrightarrow> d AND JSON_NULL_TO_NIL \<noteq> 0"
    unfolding k by (simp_all add: b)
qed

lemma fmt_17g_start:
  assumes "dbl_wf (Finite s n)"
  shows "\<exists>c t. fmt_17g (Finite s n) = c # t \<and> (c = c8 CHR ''-'' \<or> isdigit c)"
proof (cases "n = 0 \<or> s")
  case True
  then show ?thesis by (auto simp: fmt_17g_def isdigit_def)
next
  case False
  let ?pq = "scale_pow 2 (dbl_sig n) 1 (- dbl_exp n)"
  have n: "0 < n" using assms False by (simp add: dbl_wf_def)
  then have "0 < fst ?pq" "0 < snd ?pq"
    using scale_pow_pos [of 2 "dbl_sig n" 1] dbl_sig_bounds(4) [of n] by simp_all
  from fmt_17g_pos_start [OF this, of "[]"] show ?thesis
    using False by (cases "fmt_17g_pos (fst ?pq) (snd ?pq)")
      (auto simp: fmt_17g_def Let_def num_start_def num_stop_def)
qed

text \<open>One level of the decoder on a text after white space.\<close>

lemma reads_decode_one:
  assumes "depth AND 0xFFFF \<le> JANET_RECURSION_GUARD" and "starts_value t"
    and "\<And>r. num_stop r \<Longrightarrow> terminated r \<Longrightarrow> length (t @ r) \<le> L \<Longrightarrow>
      decode_value (\<lambda>q. decode_one L q (depth + 1)) L depth (t @ r) (hd t) = Inr (r, Inr y)"
  shows "reads (\<lambda>p. decode_one (Suc L) p depth) L t y"
  unfolding reads_def
proof (intro allI impI)
  fix w r
  assume a: "all_white w \<and> num_stop r \<and> terminated r \<and> length (w @ t @ r) \<le> L"
  obtain c u where t: "t = c # u" "\<not> white c" using assms(2) by (cases t) (auto simp: starts_value_def)
  have "skipwhite (w @ t @ r) = Inr (t @ r)" using a t by (simp add: skipwhite_white)
  then show "decode_one (Suc L) (w @ t @ r) depth = Inr (r, Inr y)"
    using assms(1) assms(3) [of r] a t by (simp add: decode_one.simps(2))
qed

text \<open>The emitter \<open>f\<close> writes a text the decoder reads as \<open>y\<close> at this depth.\<close>

definition carries :: "(bytes \<Rightarrow> emit) \<Rightarrow> int \<Rightarrow> janet \<Rightarrow> bool" where
  "carries f depth y \<longleftrightarrow> appends f (emit_text f) \<and> starts_value (emit_text f)
     \<and> (\<forall>L. reads (\<lambda>p. decode_one (Suc L) p depth) L (emit_text f) y)"

lemma carriesI:
  assumes "\<And>buf. f buf = emitted (buf @ t)" and "starts_value t" and "depth AND 0xFFFF \<le> JANET_RECURSION_GUARD"
    and "\<And>L r. num_stop r \<Longrightarrow> terminated r \<Longrightarrow> length (t @ r) \<le> L \<Longrightarrow>
      decode_value (\<lambda>q. decode_one L q (depth + 1)) L depth (t @ r) (hd t) = Inr (r, Inr y)"
  shows "carries f depth y"
proof -
  have a: "appends f t" using assms(1) by (simp add: appends_def)
  then show ?thesis
    using assms(2) reads_decode_one [OF assms(3,2,4)] by (simp add: carries_def appends_text)
qed

lemma carries_word:
  assumes "depth AND 0xFFFF \<le> JANET_RECURSION_GUARD"
  shows "carries (\<lambda>buf. emitted (buf @ bs ''null'')) depth
      (if depth AND JSON_NULL_TO_NIL \<noteq> 0 then JNil else JKeyword (bs ''null''))"
    and "carries (\<lambda>buf. emitted (buf @ bs ''true'')) depth (JBool True)"
    and "carries (\<lambda>buf. emitted (buf @ bs ''false'')) depth (JBool False)"
  by (rule carriesI [OF refl _ assms];
      simp add: starts_value_def white_def decode_value_def decode_word_def isdigit_def)+

lemma carries_number:
  assumes "depth AND 0xFFFF \<le> JANET_RECURSION_GUARD" and "dbl_wf (Finite s n)"
  shows "carries (encode_number (Finite s n)) depth (JNumber (Finite s n))"
proof -
  obtain c t where ct: "fmt_17g (Finite s n) = c # t" "c = c8 CHR ''-'' \<or> isdigit c"
    using fmt_17g_start [OF assms(2)] by blast
  have c: "\<not> white c" "c \<noteq> 0" "c \<noteq> c8 CHR '']''" "c \<noteq> c8 CHR ''}''"
    using ct(2) by (auto simp: white_def isdigit_def)
  show ?thesis
  proof (rule carriesI [where t = "fmt_17g (Finite s n)"])
    show "encode_number (Finite s n) buf = emitted (buf @ fmt_17g (Finite s n))" for buf
      using length_fmt_17g [OF assms(2)] by (simp add: encode_number_def)
    show "starts_value (fmt_17g (Finite s n))" using ct c by (simp add: starts_value_def)
    fix L r assume r: "num_stop r" "terminated r"
    have "strtod (fmt_17g (Finite s n) @ r) = (Finite s n, r)"
      using assms(2) r(1) by (intro strtod_fmt_17g_finite) (simp_all add: dbl_wf_def)
    then have "strtod_at (c # t @ r) = Inr (Finite s n, r)" "nan_tag (c # t @ r) = 0"
      using terminated_in_set [OF r(2)] by (simp_all add: strtod_at_def ct(1) nan_tag_finite)
    then show "decode_value (\<lambda>q. decode_one L q (depth + 1)) L depth (fmt_17g (Finite s n) @ r)
        (hd (fmt_17g (Finite s n))) = Inr (r, Inr (JNumber (Finite s n)))"
      using ct c(2) by (auto simp: decode_value_def)
  qed fact
qed

lemma carries_string:
  assumes "depth AND 0xFFFF \<le> JANET_RECURSION_GUARD" and "json_text s"
  shows "carries (encode_string s) depth (JString s)" and "hd (emit_text (encode_string s)) = c8 CHR 0x22"
proof -
  obtain cs where s: "s = concat (map utf8_of cs)" and cs: "\<forall>x \<in> set cs. scalar x \<and> reencoded x = x"
    using assms(2) by (auto simp: json_text_def)
  have "uint x < 2 ^ 21" if "scalar x" for x using that by (auto simp: scalar_def)
  then have "\<forall>x \<in> set cs. uint x < 2 ^ 21" using cs by blast
  from encode_chars_utf8 [OF this]
  have e: "encode_chars buf s = (buf @ concat (map (write_codepoint \<circ> reencoded) cs), True)" for buf
    by (simp add: s)
  have "map (write_codepoint \<circ> reencoded) cs = map write_codepoint cs" using cs by simp
  with e have e2: "encode_chars buf s = (buf @ concat (map write_codepoint cs), True)" for buf by simp
  let ?t = "c8 CHR 0x22 # concat (map write_codepoint cs) @ [c8 CHR 0x22]"
  have es: "encode_string s buf = emitted (buf @ ?t)" for buf by (simp add: encode_string_def e2)
  show "hd (emit_text (encode_string s)) = c8 CHR 0x22" using es [of "[]"] by (simp add: emit_text_def)
  show "carries (encode_string s) depth (JString s)"
  proof (rule carriesI [where t = ?t])
    show "encode_string s buf = emitted (buf @ ?t)" for buf by (rule es)
    show "starts_value ?t" by (simp add: starts_value_def white_def)
    fix L r
    have "decode_string (concat (map write_codepoint cs) @ c8 CHR 0x22 # r) [] = Inr (Inr (s, r))"
      using decode_string_text [of cs r "[]"] cs by (simp add: s)
    from decode_string_lit_eq [OF this]
    show "decode_value (\<lambda>q. decode_one L q (depth + 1)) L depth (?t @ r) (hd ?t) = Inr (r, Inr (JString s))"
      by (simp add: decode_value_def isdigit_def)
  qed fact
qed

definition white_space :: "encoder \<Rightarrow> bool" where
  "white_space e \<longleftrightarrow> all_white (tab e) \<and> all_white (newline e)"

lemma all_white_line: "white_space e \<Longrightarrow> all_white (line_text e indent)"
  by (auto simp: white_space_def all_white_def line_text_def encode_newline_def)

lemma carries_array:
  assumes g: "depth AND 0xFFFF \<le> JANET_RECURSION_GUARD" and e: "white_space e"
    and items: "\<forall>x \<in> set xs. carries (f x) (depth + 1) (h x)"
  shows "carries (encode_array e indent (map f xs)) depth (JArray (map h xs))"
proof -
  let ?ts = "map (emit_text \<circ> f) xs" and ?w = "line_text e (Suc indent)" and ?c = "line_text e indent"
  let ?in = "if ?ts = [] then [] else ?w @ join_items ?w ?c ?ts"
  let ?t = "c8 CHR ''['' # ?in @ [c8 CHR '']'']"
  have ap: "\<forall>k \<in> set (map f xs). appends k (emit_text k)" using items by (auto simp: carries_def)
  show ?thesis
  proof (rule carriesI [where t = ?t])
    show "encode_array e indent (map f xs) buf = emitted (buf @ ?t)" for buf
      using encode_close_join [of "c8 CHR ''[''" e indent "c8 CHR '']''" buf ?w ?ts]
      by (simp add: encode_array_def encode_items_text [OF ap] comp_def)
    show "starts_value ?t" by (simp add: starts_value_def white_def)
    fix L r assume r: "num_stop r" "terminated r" and L: "length (?t @ r) \<le> L"
    obtain L' where L': "L = Suc L'" using L by (cases L) auto
    let ?one = "\<lambda>q. decode_one L q (depth + 1)"
    have "rbind (skipwhite (?in @ c8 CHR '']'' # r)) (\<lambda>q. decode_items ?one L q []) =
        Inr (r, Inr (JArray (map h xs)))"
    proof (cases "xs = []")
      case True
      then show ?thesis by (simp add: white_def L')
    next
      case False
      let ?tys = "map (\<lambda>x. (emit_text (f x), h x)) xs"
      have ts: "map fst ?tys = ?ts" "map snd ?tys = map h xs" by (simp_all add: comp_def)
      let ?p = "join_items ?w ?c ?ts @ c8 CHR '']'' # r"
      have start: "skipwhite (?w @ ?p) = Inr ?p"
      proof -
        obtain x ys where xs: "xs = x # ys" using False by (cases xs) auto
        then have "starts_value (emit_text (f x))" using items by (simp add: carries_def)
        then obtain b u where "emit_text (f x) = b # u" "\<not> white b"
          by (cases "emit_text (f x)") (auto simp: starts_value_def)
        then show ?thesis
          using skipwhite_white [OF all_white_line [OF e], of "Suc indent" ?p]
          by (cases ys) (simp_all add: xs)
      qed
      have "decode_items ?one L ([] @ join_items ?w ?c (map fst ?tys) @ c8 CHR '']'' # r) [] =
          Inr (r, Inr (JArray ([] @ map snd ?tys)))"
      proof (rule decode_items_join [where L = L'])
        show "\<forall>ty \<in> set ?tys. starts_value (fst ty) \<and> reads ?one L' (fst ty) (snd ty)"
          using items by (auto simp: carries_def L')
        show "length ([] @ join_items ?w ?c (map fst ?tys) @ c8 CHR '']'' # r) \<le> L'"
          using L False unfolding ts by (simp add: L')
        have "length us \<le> length (join_items ?w ?c us) + 1" for us
          by (induction ?w ?c us rule: join_items.induct) auto
        from this [of ?ts] show "length ?tys \<le> L" using L False by simp
      qed (use False r e all_white_line in \<open>simp_all add: all_white_def [of "[]"]\<close>)
      then show ?thesis using start False unfolding ts by simp
    qed
    then show "decode_value ?one L depth (?t @ r) (hd ?t) = Inr (r, Inr (JArray (map h xs)))"
      by (simp add: decode_value_def isdigit_def)
  qed fact
qed

lemma reads_member:
  assumes k: "carries f (depth + 1) (JString s)" "hd (emit_text f) = c8 CHR 0x22"
    and v: "carries g (depth + 1) y"
  shows "reads (\<lambda>p. decode_member (\<lambda>q. decode_one (Suc L) q (depth + 1)) depth p tbl) L (member_text e f g)
    (put_member tbl (if depth AND JSON_KEYWORD_KEY \<noteq> 0 then JKeyword s else JString s) y)"
  unfolding reads_def
proof (intro allI impI)
  let ?one = "\<lambda>q. decode_one (Suc L) q (depth + 1)"
  let ?sp = "if tab e = [] then [] else [c8 CHR '' '']"
  fix w r
  assume "all_white w \<and> num_stop r \<and> terminated r \<and> length (w @ member_text e f g @ r) \<le> L"
  then have w: "all_white w" and r: "num_stop r" "terminated r"
    and len: "length (w @ member_text e f g @ r) \<le> L" by auto
  let ?kt = "emit_text f" and ?vt = "emit_text g"
  have m: "member_text e f g @ r = ?kt @ c8 CHR '':'' # ?sp @ ?vt @ r" by (simp add: member_text_def)
  obtain u where kt: "?kt = c8 CHR 0x22 # u" using k by (cases ?kt) (auto simp: carries_def starts_value_def)
  have 1: "skipwhite (w @ member_text e f g @ r) = Inr (?kt @ c8 CHR '':'' # ?sp @ ?vt @ r)"
    unfolding m by (subst skipwhite_white [OF w]) (simp add: kt white_def)
  have t: "terminated (c8 CHR '':'' # ?sp @ ?vt @ r)"
    using terminated_after [OF r(2), of "c8 CHR '':'' # ?sp @ ?vt"] by simp
  have "reads ?one L ?kt (JString s)" using k by (simp add: carries_def)
  moreover have "length ([] @ ?kt @ c8 CHR '':'' # ?sp @ ?vt @ r) \<le> L" using len unfolding m by simp
  ultimately have 2: "?one (?kt @ c8 CHR '':'' # ?sp @ ?vt @ r) = Inr (c8 CHR '':'' # ?sp @ ?vt @ r, Inr (JString s))"
    using t num_stop_punct(4) [of "?sp @ ?vt @ r"] unfolding reads_def
    by (metis all_white_def append_Nil empty_iff list.set(1))
  have "reads ?one L ?vt y" using v by (simp add: carries_def)
  moreover have "length (?sp @ ?vt @ r) \<le> L" using len unfolding m by simp
  ultimately have 3: "?one (?sp @ ?vt @ r) = Inr (r, Inr y)"
    using r unfolding reads_def by (auto simp: all_white_def white_def)
  show "decode_member ?one depth (w @ member_text e f g @ r) tbl = Inr (r,
      Inr (put_member tbl (if depth AND JSON_KEYWORD_KEY \<noteq> 0 then JKeyword s else JString s) y))"
    unfolding decode_member_def 1 rbind_simps
    using 2 3 by (simp add: kt white_def keyword_key_def)
qed

text \<open>The entries of an object that take part, with their emitters and what they decode to.\<close>

lemma carries_object:
  assumes g: "depth AND 0xFFFF \<le> JANET_RECURSION_GUARD" and e: "white_space e"
    and kvs: "\<forall>kv \<in> set kvs. fst kv = JNil \<or> (janet_checktypes (fst kv) JANET_TFLAG_BYTES
      \<and> carries (f (fst kv)) (depth + 1) (JString (key kv)) \<and> hd (emit_text (f (fst kv))) = c8 CHR 0x22
      \<and> carries (f (snd kv)) (depth + 1) (h (snd kv)))"
  defines "live \<equiv> filter (\<lambda>kv. fst kv \<noteq> JNil) kvs"
  defines "put \<equiv> \<lambda>kv tbl. put_member tbl
      (if depth AND JSON_KEYWORD_KEY \<noteq> 0 then JKeyword (key kv) else JString (key kv)) (h (snd kv))"
  shows "carries (encode_object e indent (map (\<lambda>kv. (fst kv, f (fst kv), f (snd kv))) kvs)) depth
    (JTable (foldl (\<lambda>tbl kv. put kv tbl) [] live))"
proof -
  let ?text = "\<lambda>kv. member_text e (f (fst kv)) (f (snd kv))"
  let ?ts = "map ?text live" and ?w = "line_text e (Suc indent)" and ?c = "line_text e indent"
  let ?in = "if ?ts = [] then [] else ?w @ join_items ?w ?c ?ts"
  let ?t = "c8 CHR ''{'' # ?in @ [c8 CHR ''}'']"
  let ?y = "JTable (foldl (\<lambda>tbl kv. put kv tbl) [] live)"
  have ap: "\<forall>(k, a, b) \<in> set (map (\<lambda>kv. (fst kv, f (fst kv), f (snd kv))) kvs). k = JNil
      \<or> (janet_checktypes k JANET_TFLAG_BYTES \<and> appends a (emit_text a) \<and> appends b (emit_text b))"
    using kvs by (auto simp: carries_def)
  have fl: "map (\<lambda>(k, a, b). member_text e a b)
      (filter (\<lambda>kv. fst kv \<noteq> JNil) (map (\<lambda>kv. (fst kv, f (fst kv), f (snd kv))) kvs)) = ?ts"
    by (simp add: filter_map comp_def live_def)
  have st: "starts_value (?text kv)" if "kv \<in> set live" for kv
  proof -
    have "starts_value (emit_text (f (fst kv)))" using kvs that by (auto simp: live_def carries_def)
    then show ?thesis by (auto simp: starts_value_def member_text_def)
  qed
  show ?thesis
  proof (rule carriesI [where t = ?t])
    show "encode_object e indent (map (\<lambda>kv. (fst kv, f (fst kv), f (snd kv))) kvs) buf = emitted (buf @ ?t)" for buf
      using encode_close_join [of "c8 CHR ''{''" e indent "c8 CHR ''}''" buf ?w ?ts]
      unfolding encode_object_def encode_kvs_text [OF ap] fl by simp
    show "starts_value ?t" by (simp add: starts_value_def white_def)
    fix L r assume r: "num_stop r" "terminated r" and L: "length (?t @ r) \<le> L"
    obtain L' where L': "L = Suc L'" using L by (cases L) auto
    let ?one = "\<lambda>q. decode_one L q (depth + 1)"
    have "rbind (skipwhite (?in @ c8 CHR ''}'' # r)) (\<lambda>q. decode_members ?one depth L q []) = Inr (r, Inr ?y)"
    proof (cases "live = []")
      case True
      then show ?thesis by (simp add: white_def L')
    next
      case False
      let ?tfs = "map (\<lambda>kv. (?text kv, put kv)) live"
      have ts: "map fst ?tfs = ?ts" "map snd ?tfs = map put live" by (simp_all add: comp_def)
      let ?p = "join_items ?w ?c ?ts @ c8 CHR ''}'' # r"
      have start: "skipwhite (?w @ ?p) = Inr ?p"
      proof -
        obtain x ys where xs: "live = x # ys" using False by (cases live) auto
        then obtain b u where "?text x = b # u" "\<not> white b"
          using st [of x] by (cases "?text x") (auto simp: starts_value_def)
        then show ?thesis
          using skipwhite_white [OF all_white_line [OF e], of "Suc indent" ?p]
          by (cases ys) (simp_all add: xs)
      qed
      have "decode_members ?one depth L ([] @ join_items ?w ?c (map fst ?tfs) @ c8 CHR ''}'' # r) [] =
          Inr (r, Inr (JTable (foldl (\<lambda>tbl p. p tbl) [] (map snd ?tfs))))"
      proof (rule decode_members_join [where L = L'])
        show "\<forall>tf \<in> set ?tfs. starts_value (fst tf)" using st by simp
        show "\<forall>tf \<in> set ?tfs. \<forall>tbl. reads (\<lambda>p. decode_member ?one depth p tbl) L' (fst tf) (snd tf tbl)"
        proof (intro ballI allI)
          fix tf tbl assume "tf \<in> set ?tfs"
          then obtain kv where kv: "kv \<in> set kvs" "fst kv \<noteq> JNil" "tf = (?text kv, put kv)"
            by (auto simp: live_def)
          then have "carries (f (fst kv)) (depth + 1) (JString (key kv))"
              "hd (emit_text (f (fst kv))) = c8 CHR 0x22" "carries (f (snd kv)) (depth + 1) (h (snd kv))"
            using kvs by blast+
          from reads_member [OF this]
          show "reads (\<lambda>p. decode_member ?one depth p tbl) L' (fst tf) (snd tf tbl)"
            unfolding kv(3) fst_conv snd_conv put_def L' .
        qed
        show "length ([] @ join_items ?w ?c (map fst ?tfs) @ c8 CHR ''}'' # r) \<le> L'"
          using L False unfolding ts by (simp add: L')
        have "length us \<le> length (join_items ?w ?c us) + 1" for us
          by (induction ?w ?c us rule: join_items.induct) auto
        from this [of ?ts] show "length ?tfs \<le> L" using L False by simp
      qed (use False r e all_white_line in \<open>simp_all add: all_white_def [of "[]"]\<close>)
      then show ?thesis using start False unfolding ts by (simp add: foldl_map)
    qed
    then show "decode_value ?one L depth (?t @ r) (hd ?t) = Inr (r, Inr ?y)"
      by (simp add: decode_value_def isdigit_def)
  qed fact
qed

lemma bytes_key:
  assumes "janet_checktypes x JANET_TFLAG_BYTES"
  obtains s where "janet_bytes_view x = Some s" and "json_norm kw nils x = JString s"
    and "encode_one e i x = encode_string s" and "json_ok k x = json_text s"
  using assms by (cases x) (auto simp: janet_checktypes_def JANET_TFLAG_BYTES_def janet_bytes_view_def)

lemma json_carries_object:
  assumes g: "depth AND 0xFFFF \<le> JANET_RECURSION_GUARD" and e: "white_space e"
  defines "kw \<equiv> depth AND JSON_KEYWORD_KEY \<noteq> 0" and "nils \<equiv> depth AND JSON_NULL_TO_NIL \<noteq> 0"
  assumes kvs: "\<forall>kv \<in> set kvs. fst kv = JNil \<or> (janet_checktypes (fst kv) JANET_TFLAG_BYTES \<and> json_ok k (fst kv)
      \<and> carries (encode_one e (Suc indent) (fst kv)) (depth + 1) (json_norm kw nils (fst kv))
      \<and> carries (encode_one e (Suc indent) (snd kv)) (depth + 1) (json_norm kw nils (snd kv)))"
  shows "carries (encode_object e indent
      (map (\<lambda>kv. (fst kv, encode_one e (Suc indent) (fst kv), encode_one e (Suc indent) (snd kv))) kvs)) depth
    (norm_table kw (map (\<lambda>kv. (fst kv, json_norm kw nils (snd kv))) kvs))"
proof -
  let ?key = "\<lambda>kv. the (janet_bytes_view (fst kv))"
  let ?put = "\<lambda>tbl kv. put_member tbl (if depth AND JSON_KEYWORD_KEY \<noteq> 0 then JKeyword (?key kv) else JString (?key kv))
      (json_norm kw nils (snd kv))"
  let ?live = "filter (\<lambda>kv. fst kv \<noteq> JNil) kvs"
  have "\<forall>kv \<in> set kvs. fst kv = JNil \<or> (janet_checktypes (fst kv) JANET_TFLAG_BYTES
      \<and> carries (encode_one e (Suc indent) (fst kv)) (depth + 1) (JString (?key kv))
      \<and> hd (emit_text (encode_one e (Suc indent) (fst kv))) = c8 CHR 0x22
      \<and> carries (encode_one e (Suc indent) (snd kv)) (depth + 1) (json_norm kw nils (snd kv)))"
  proof
    fix kv assume kv: "kv \<in> set kvs"
    show "fst kv = JNil \<or> (janet_checktypes (fst kv) JANET_TFLAG_BYTES
      \<and> carries (encode_one e (Suc indent) (fst kv)) (depth + 1) (JString (?key kv))
      \<and> hd (emit_text (encode_one e (Suc indent) (fst kv))) = c8 CHR 0x22
      \<and> carries (encode_one e (Suc indent) (snd kv)) (depth + 1) (json_norm kw nils (snd kv)))"
    proof (cases "fst kv = JNil")
      case False
      with kvs kv have b: "janet_checktypes (fst kv) JANET_TFLAG_BYTES" "json_ok k (fst kv)"
          "carries (encode_one e (Suc indent) (fst kv)) (depth + 1) (json_norm kw nils (fst kv))"
          "carries (encode_one e (Suc indent) (snd kv)) (depth + 1) (json_norm kw nils (snd kv))" by auto
      from b(1) obtain s where "janet_bytes_view (fst kv) = Some s" "json_norm kw nils (fst kv) = JString s"
          "encode_one e (Suc indent) (fst kv) = encode_string s" "json_ok k (fst kv) = json_text s" by (rule bytes_key)
      with b carries_string(2) [OF g, of s] show ?thesis by simp
    qed simp
  qed
  from carries_object [OF g e this]
  have c: "carries (encode_object e indent
      (map (\<lambda>kv. (fst kv, encode_one e (Suc indent) (fst kv), encode_one e (Suc indent) (snd kv))) kvs)) depth
    (JTable (foldl ?put [] ?live))" .
  have "foldl ?put [] ?live = foldl (\<lambda>tbl kv. put_member tbl (norm_key kw (fst kv)) (json_norm kw nils (snd kv))) [] ?live"
  proof (rule foldl_cong [OF refl refl])
    fix kv tbl assume "kv \<in> set ?live"
    then have "janet_checktypes (fst kv) JANET_TFLAG_BYTES" using kvs by auto
    then obtain s where "janet_bytes_view (fst kv) = Some s" by (rule bytes_key)
    then show "?put tbl kv = put_member tbl (norm_key kw (fst kv)) (json_norm kw nils (snd kv))"
      by (simp add: norm_key_def kw_def)
  qed
  also have "\<dots> = foldl (\<lambda>tbl kv. put_member tbl (norm_key kw (fst kv)) (snd kv)) []
      (filter (\<lambda>kv. fst kv \<noteq> JNil) (map (\<lambda>kv. (fst kv, json_norm kw nils (snd kv))) kvs))"
    by (simp add: filter_map comp_def foldl_map)
  finally show ?thesis using c by (simp add: norm_table_def)
qed

lemma json_carries:
  assumes "white_space e"
  shows "json_ok k v \<Longrightarrow> (depth AND 0xFFFF) + int k \<le> JANET_RECURSION_GUARD \<Longrightarrow>
    carries (encode_one e indent v) depth
      (json_norm (depth AND JSON_KEYWORD_KEY \<noteq> 0) (depth AND JSON_NULL_TO_NIL \<noteq> 0) v)"
proof (induction k v arbitrary: depth indent rule: json_ok.induct)
  case (8 k xs)
  then have g: "depth AND 0xFFFF \<le> JANET_RECURSION_GUARD" "(depth + 1 AND 0xFFFF) + int (k - 1) \<le> JANET_RECURSION_GUARD"
    using depth_step [of depth] by auto
  have "\<forall>x \<in> set xs. carries (encode_one e (Suc indent) x) (depth + 1)
      (json_norm (depth AND JSON_KEYWORD_KEY \<noteq> 0) (depth AND JSON_NULL_TO_NIL \<noteq> 0) x)"
    using 8 g(2) flag_step [OF g(1)] by fastforce
  from carries_array [OF g(1) assms this] show ?case by simp
next
  case (9 k xs)
  then have g: "depth AND 0xFFFF \<le> JANET_RECURSION_GUARD" "(depth + 1 AND 0xFFFF) + int (k - 1) \<le> JANET_RECURSION_GUARD"
    using depth_step [of depth] by auto
  have "\<forall>x \<in> set xs. carries (encode_one e (Suc indent) x) (depth + 1)
      (json_norm (depth AND JSON_KEYWORD_KEY \<noteq> 0) (depth AND JSON_NULL_TO_NIL \<noteq> 0) x)"
    using 9 g(2) flag_step [OF g(1)] by fastforce
  from carries_array [OF g(1) assms this] show ?case by simp
next
  case (10 k kvs)
  then have g: "depth AND 0xFFFF \<le> JANET_RECURSION_GUARD" "(depth + 1 AND 0xFFFF) + int (k - 1) \<le> JANET_RECURSION_GUARD"
    using depth_step [of depth] by auto
  show ?case unfolding encode_one.simps json_norm.simps
    by (rule json_carries_object [OF g(1) assms, where k = "k - 1"])
      (use 10 g(2) flag_step [OF g(1)] in \<open>fastforce\<close>)
next
  case (11 k kvs)
  then have g: "depth AND 0xFFFF \<le> JANET_RECURSION_GUARD" "(depth + 1 AND 0xFFFF) + int (k - 1) \<le> JANET_RECURSION_GUARD"
    using depth_step [of depth] by auto
  show ?case unfolding encode_one.simps json_norm.simps
    by (rule json_carries_object [OF g(1) assms, where k = "k - 1"])
      (use 11 g(2) flag_step [OF g(1)] in \<open>fastforce\<close>)
next
  case (1 k)
  then show ?case using carries_word(1) [of depth] by simp
next
  case (2 k b)
  then show ?case using carries_word(2,3) [of depth] by (cases b) simp_all
qed (auto simp: carries_number carries_string split: double.splits)

subsection \<open>Properties\<close>

text \<open>C7. Decoding what was encoded gives back the value in normal form (\<open>json_norm\<close>), for
  any white space as indentation and line end and any combination of the decoder's options, if the
  value is one the codec keeps (\<open>json_ok\<close>): nil, booleans, finite numbers, which come back
  bit for bit, texts, arrays and tuples as arrays, tables and structs with texts as keys (or a nil
  key, whose entry is left out) as tables, nested up to the decoder's guard. A text is kept when it is
  the UTF-8 of scalar values none of which is among those the encoder turns into another (C8); all of
  the basic plane is. Infinities, NaNs, other byte sequences and other values are outside.\<close>

theorem json_roundtrip:
  assumes "json_ok 1024 v" and "all_white t" and "all_white nl"
  shows "\<exists>txt. json_encode [v, JString t, JString nl] = Inr (txt, Inr (JBuffer txt))
    \<and> json_decode [JBuffer txt, JBool kw, JBool nils] = Inr (Inr (json_norm kw nils v))"
proof -
  let ?e = "\<lparr>tab = t, newline = nl\<rparr>"
  let ?f = "encode_one ?e 0 v"
  define d where "d = decode_flags [JBuffer (emit_text ?f), JBool kw, JBool nils]"
  have fl: "d AND 0xFFFF = 0" "(d AND JSON_KEYWORD_KEY \<noteq> 0) = kw" "(d AND JSON_NULL_TO_NIL \<noteq> 0) = nils"
    by (cases kw; cases nils; simp add: d_def decode_flags_def janet_truthy_def JSON_KEYWORD_KEY_def JSON_NULL_TO_NIL_def)+
  have "carries ?f d (json_norm kw nils v)"
    using json_carries [of ?e 1024 v d 0] assms unfolding fl
    by (simp add: white_space_def JANET_RECURSION_GUARD_def)
  then have ap: "?f [] = emitted (emit_text ?f)"
      and rd: "reads (\<lambda>p. decode_one (Suc (length (emit_text ?f @ [0]))) p d) (length (emit_text ?f @ [0]))
        (emit_text ?f) (json_norm kw nils v)"
    by (auto simp: carries_def appends_def)
  from ap have en: "json_encode [v, JString t, JString nl] = Inr (emit_text ?f, Inr (JBuffer (emit_text ?f)))"
    by (simp add: json_encode_def janet_arity_def janet_getbytes_def janet_bytes_view_def)
  have "decode_one (Suc (length (emit_text ?f @ [0]))) ([] @ emit_text ?f @ [0]) d = Inr ([0], Inr (json_norm kw nils v))"
    using rd unfolding reads_def
    by (metis all_white_def append_Nil empty_iff list.set(1) num_stop_nums(5) order_refl self_append_conv2 terminated_snoc)
  then have "json_decode [JBuffer (emit_text ?f), JBool kw, JBool nils] = Inr (Inr (json_norm kw nils v))"
    by (simp add: json_decode_def janet_arity_def decode_source_def decode_document_def d_def [symmetric]
        white_def decode_report_def)
  with en show ?thesis by blast
qed

theorem json_roundtrip_witness:
  "\<exists>txt. json_encode [JArray [JNumber (Finite False 0x3FF8000000000000), JTable [(JKeyword (utf8_of 0xE9), JNil)]],
      JString (bs '' ''), JString [10]] = Inr (txt, Inr (JBuffer txt))
    \<and> json_decode [JBuffer txt, JBool True, JBool False] = Inr (Inr
      (json_norm True False (JArray [JNumber (Finite False 0x3FF8000000000000), JTable [(JKeyword (utf8_of 0xE9), JNil)]])))"
proof (rule json_roundtrip)
  have "json_text (utf8_of 0xE9)"
    unfolding json_text_def by (rule exI [of _ "[0xE9]"]) (simp add: scalar_def reencoded_def)
  then show "json_ok 1024 (JArray [JNumber (Finite False 0x3FF8000000000000), JTable [(JKeyword (utf8_of 0xE9), JNil)]])"
    by (simp add: dbl_wf_def janet_checktypes_def JANET_TFLAG_BYTES_def)
qed (simp_all add: all_white_def white_def)

lemma fourth_twice_range:
  assumes "0x10000 \<le> uint x" and "uint x \<le> 0x10FFFF"
  shows "scalar (fourth_twice x)" and "\<not> uint (fourth_twice x) < 0x10000"
proof -
  have m: "(0xFC0 :: 32 word) = push_bit 6 (mask 6)" by (simp add: mask_eq_exp_minus_1 push_bit_eq_mult)
  have "drop_bit 12 (fourth_twice x) = drop_bit 12 x"
    unfolding fourth_twice_def m masks32
    by (rule bit_word_eqI) (auto simp: bit_simps dest: bit_imp_le_length)
  moreover have "uint (drop_bit 12 y) = uint y div 4096" for y :: "32 word"
    by (simp add: drop_bit_eq_div uint_div)
  ultimately have "uint (fourth_twice x) div 4096 = uint x div 4096" by metis
  moreover have "16 \<le> uint x div 4096" "uint x div 4096 \<le> 271" using assms by linarith+
  ultimately show "scalar (fourth_twice x)" "\<not> uint (fourth_twice x) < 0x10000"
    unfolding scalar_def by linarith+
qed

lemma fourth_twice_id: "fourth_twice x = x \<longleftrightarrow> drop_bit 6 x AND 0x3F = x AND 0x3F"
proof -
  have m: "(0xFC0 :: 32 word) = push_bit 6 (mask 6)" by (simp add: mask_eq_exp_minus_1 push_bit_eq_mult)
  have "fourth_twice x = x \<longleftrightarrow> push_bit 6 (x AND mask 6) = push_bit 6 (drop_bit 6 x AND mask 6)"
  proof -
    let ?M = "push_bit 6 (mask 6) :: 32 word"
    have f: "fourth_twice x = (x AND NOT ?M) OR push_bit 6 (x AND mask 6)"
      unfolding fourth_twice_def m masks32 ..
    have A: "((x AND NOT ?M) OR push_bit 6 (x AND mask 6)) AND ?M = push_bit 6 (x AND mask 6)"
      by (rule bit_word_eqI) (auto simp: bit_simps)
    have B: "x AND ?M = push_bit 6 (drop_bit 6 x AND mask 6)"
      by (rule bit_word_eqI) (auto simp: bit_simps)
    have C: "(x AND NOT ?M) OR (x AND ?M) = x"
      by (rule bit_word_eqI) (auto simp: bit_simps)
    show ?thesis unfolding f using A B C by metis
  qed
  also have "\<dots> \<longleftrightarrow> x AND mask 6 = drop_bit 6 x AND mask 6"
  proof -
    have "drop_bit 6 (push_bit 6 (a AND mask 6)) = a AND mask 6" for a :: "32 word"
      by (rule bit_word_eqI) (auto simp: bit_simps)
    then show ?thesis by metis
  qed
  finally show ?thesis unfolding masks32 by (simp add: eq_commute)
qed

text \<open>C8. A character above U+FFFF comes back as another one: its third UTF-8 byte is replaced by
  the fourth. It survives exactly when these two carry the same six bits.\<close>

theorem json_four_byte:
  assumes "0x10000 \<le> uint x" and "uint x \<le> 0x10FFFF"
  shows "\<exists>txt. json_encode [JString (utf8_of x)] = Inr (txt, Inr (JBuffer txt))
    \<and> json_decode [JBuffer txt] = Inr (Inr (JString (utf8_of (fourth_twice x))))
    \<and> (fourth_twice x = x \<longleftrightarrow> drop_bit 6 x AND 0x3F = x AND 0x3F)"
proof -
  note y = fourth_twice_range [OF assms]
  let ?w = "write_codepoint (fourth_twice x)"
  let ?txt = "c8 CHR 0x22 # ?w @ [c8 CHR 0x22]"
  have "encode_chars buf (utf8_of x) = (buf @ ?w, True)" for buf
    using encode_chars_utf8 [of "[x]" buf] assms by (simp add: reencoded_def)
  then have en: "json_encode [JString (utf8_of x)] = Inr (?txt, Inr (JBuffer ?txt))"
    by (simp add: json_encode_def janet_arity_def encode_string_def)
  have "decode_string (?w @ [c8 CHR 0x22, 0]) [] = Inr (Inr (utf8_of (fourth_twice x), [0]))"
    using decode_string_text [of "[fourth_twice x]" "[0]" "[]"] y by simp
  from decode_string_lit_eq [OF this] have "json_decode [JBuffer ?txt] = Inr (Inr (JString (utf8_of (fourth_twice x))))"
    by (simp add: json_decode_def janet_arity_def decode_source_def decode_document_def decode_flags_def
        decode_one.simps(2) JANET_RECURSION_GUARD_def decode_value_def white_def isdigit_def decode_report_def)
  with en fourth_twice_id show ?thesis by blast
qed

theorem json_four_byte_witness:
  "(\<exists>txt. json_encode [JString (utf8_of 0x1F600)] = Inr (txt, Inr (JBuffer txt))
    \<and> json_decode [JBuffer txt] = Inr (Inr (JString (utf8_of (fourth_twice 0x1F600))))
    \<and> (fourth_twice 0x1F600 = 0x1F600 \<longleftrightarrow> drop_bit 6 (0x1F600 :: 32 word) AND 0x3F = 0x1F600 AND 0x3F))
   \<and> fourth_twice 0x1F600 \<noteq> 0x1F600"
proof
  show "fourth_twice 0x1F600 \<noteq> 0x1F600" by (simp add: fourth_twice_def)
qed (rule json_four_byte; simp)

text \<open>Where the codec leaves JSON: a comma before the closing bracket is accepted, unless
  white space separates them; hexadecimal numbers, \<open>-inf\<close> and \<open>-nan\<close> are read as
  numbers; infinities are written as \<open>inf\<close>, which the decoder rejects.\<close>

theorem json_leniency:
  "json_decode [JString (bs ''[true,]'')] = Inr (Inr (JArray [JBool True]))
   \<and> json_decode [JString (bs ''[true, ]'')]
       = Inr (Inl (Panic ''decode error at position %d: %s'' [AInt 7, AStr ''unexpected character'']))
   \<and> json_decode [JString (bs ''-inf'')] = Inr (Inr (JNumber (Infinity True)))
   \<and> json_decode [JString (bs ''-nan'')] = Inr (Inr (JNumber (NaN True)))
   \<and> json_decode [JString (bs ''0x10'')] = json_decode [JString (bs ''16'')]
   \<and> json_encode [JNumber (Infinity False)] = Inr (bs ''inf'', Inr (JBuffer (bs ''inf'')))
   \<and> json_decode [JBuffer (bs ''inf'')]
       = Inr (Inl (Panic ''decode error at position %d: %s'' [AInt 0, AStr ''unexpected character'']))"
  by (intro conjI; code_simp)

end
