(* ===== verification/Process.thy ===== *)
theory Process
  imports Value
begin

text \<open>
  Programs that talk to the operating system: a program reads the calls made so far and extends
  them. What a call returns is decided by the system (\<open>os\<close>), an arbitrary function of the
  calls before it and the call itself, so a statement for all \<open>os\<close> covers every
  behaviour the system may show. A program ends with a value, leaves the process, faults, or
  raises a Janet panic.
\<close>

datatype 'a result =
    Value 'a
  | Exit int
  | Fault fault
  | Raise panic

type_synonym ('c, 'r) os = "'c list \<Rightarrow> 'c \<Rightarrow> 'r"
type_synonym ('c, 'a) prog = "'c list \<Rightarrow> 'a result \<times> 'c list"

definition ret :: "'a \<Rightarrow> ('c, 'a) prog" where
  "ret x = (\<lambda>tr. (Value x, tr))"

definition bind :: "('c, 'a) prog \<Rightarrow> ('a \<Rightarrow> ('c, 'b) prog) \<Rightarrow> ('c, 'b) prog" where
  "bind m f = (\<lambda>tr. case m tr of
     (Value x, tr2) \<Rightarrow> f x tr2
   | (Exit n, tr2) \<Rightarrow> (Exit n, tr2)
   | (Fault e, tr2) \<Rightarrow> (Fault e, tr2)
   | (Raise p, tr2) \<Rightarrow> (Raise p, tr2))"

definition syscall :: "('c, 'r) os \<Rightarrow> 'c \<Rightarrow> ('c, 'r) prog" where
  "syscall os c = (\<lambda>tr. (Value (os tr c), tr @ [c]))"

definition exit_with :: "int \<Rightarrow> ('c, 'a) prog" where
  "exit_with n = (\<lambda>tr. (Exit n, tr))"

definition crash :: "fault \<Rightarrow> ('c, 'a) prog" where
  "crash e = (\<lambda>tr. (Fault e, tr))"

definition checked :: "panic + 'a \<Rightarrow> ('c, 'a) prog" where
  "checked r = (\<lambda>tr. case r of Inl p \<Rightarrow> (Raise p, tr) | Inr x \<Rightarrow> (Value x, tr))"

definition safe :: "fault + 'a \<Rightarrow> ('c, 'a) prog" where
  "safe r = (\<lambda>tr. case r of Inl e \<Rightarrow> (Fault e, tr) | Inr x \<Rightarrow> (Value x, tr))"

named_theorems prog_simps \<comment> \<open>running a program one step at a time\<close>

lemma ret_run [prog_simps]: "ret x tr = (Value x, tr)"
  by (simp add: ret_def)

lemma syscall_run [prog_simps]: "syscall os c tr = (Value (os tr c), tr @ [c])"
  by (simp add: syscall_def)

lemma exit_run [prog_simps]: "exit_with n tr = (Exit n, tr)"
  by (simp add: exit_with_def)

lemma crash_run [prog_simps]: "crash e tr = (Fault e, tr)"
  by (simp add: crash_def)

lemma checked_run [prog_simps]:
  "checked (Inl p) tr = (Raise p, tr)"
  "checked (Inr x) tr = (Value x, tr)"
  by (simp_all add: checked_def)

lemma safe_run [prog_simps]:
  "safe (Inl e) tr = (Fault e, tr)"
  "safe (Inr y) tr = (Value y, tr)"
  by (simp_all add: safe_def)

lemma bind_steps [prog_simps]:
  "bind (ret x) f = f x"
  "bind (exit_with n) f = exit_with n"
  "bind (crash e) f = crash e"
  "bind (checked (Inr x)) f = f x"
  "bind (safe (Inr y)) f = f y"
  "bind (safe (Inl e)) f = crash e"
  by (rule ext; simp add: bind_def ret_def exit_with_def crash_def checked_def safe_def)+

lemma bind_syscall_run [prog_simps]: "bind (syscall os c) f tr = f (os tr c) (tr @ [c])"
  by (simp add: bind_def syscall_def)

lemma bind_checked_Inl [prog_simps]: "bind (checked (Inl p)) f tr = (Raise p, tr)"
  by (simp add: bind_def checked_def)

lemma bind_assoc [prog_simps]: "bind (bind m f) g = bind m (\<lambda>x. bind (f x) g)"
  by (rule ext) (auto simp: bind_def split: prod.splits result.splits)

lemma bind_if [prog_simps]:
  "bind (if c then m1 else m2) f = (if c then bind m1 f else bind m2 f)"
  "(if c then m1 else m2) tr = (if c then m1 tr else m2 tr)"
  by simp_all

lemma bind_cong [fundef_cong]:
  assumes "m tr = m' tr'" and "\<And>x tr2. m' tr' = (Value x, tr2) \<Longrightarrow> f x tr2 = g x tr2"
  shows "bind m f tr = bind m' g tr'"
  using assms by (auto simp: bind_def split: prod.splits result.splits)

text \<open>A program only ever adds to the trace.\<close>

definition extends :: "('c, 'a) prog \<Rightarrow> bool" where
  "extends m \<longleftrightarrow> (\<forall>tr. \<exists>new. snd (m tr) = tr @ new)"

lemma extends_basic [intro, simp]:
  "extends (ret x)" "extends (syscall os c)" "extends (exit_with n)" "extends (crash e)"
  by (auto simp: extends_def prog_simps)

lemma extends_checked [intro, simp]: "extends (checked r)" "extends (safe q)"
  by (auto simp: extends_def checked_def safe_def split: sum.splits)

lemma extends_bind [intro]:
  assumes "extends m" and "\<And>x. extends (f x)"
  shows "extends (bind m f)"
  unfolding extends_def
proof
  fix tr
  obtain r tr2 where m: "m tr = (r, tr2)" by fastforce
  with assms(1) obtain new where "tr2 = tr @ new" unfolding extends_def by (metis snd_conv)
  moreover have "\<exists>more. snd (f x tr2) = tr2 @ more" for x using assms(2) unfolding extends_def by blast
  ultimately show "\<exists>new. snd (bind m f tr) = tr @ new"
    using m by (cases r) (auto simp: bind_def)
qed

end
