(* ===== verification/Udp.thy ===== *)
theory Udp
  imports Process CStd
begin

text \<open>
  \<^verbatim>\<open>src/udp.c\<close>: sending a string as one datagram and waiting for one, on POSIX and
  on Windows. The one global, \<open>struct world\<close>, keeps the bytes of the last datagram
  across calls.
\<close>

subsection \<open>State and system calls\<close>

definition MAXBUF :: nat where "MAXBUF = 1024 * 1024"

record world =
  udp_listen_received :: bytes
  udp_listen_received_len :: int

definition world_init :: world where
  "world_init = \<lparr>udp_listen_received = replicate MAXBUF 0, udp_listen_received_len = 0\<rparr>"

record addrinfo =
  ai_family :: int
  ai_socktype :: int
  ai_protocol :: int
  ai_addr :: bytes

datatype udp_call =
    WSAStartup
  | WSACleanup
  | Getaddrinfo bytes bytes bool   \<comment> \<open>host, port, \<open>AI_ADDRCONFIG\<close>; datagrams of any family\<close>
  | Socket int int int
  | SocketInet                      \<comment> \<open>\<open>socket (PF_INET, SOCK_DGRAM, 0)\<close>\<close>
  | Setsockopt int
  | Bind int int                    \<comment> \<open>descriptor, port\<close>
  | Getsockname int
  | Sendto int bytes bytes
  | Recvfrom int nat
  | Close int
  | FreeAddrinfoPointer             \<comment> \<open>\<open>free\<close>, not \<open>freeaddrinfo\<close>, of what \<open>getaddrinfo\<close> returned\<close>

datatype udp_reply =
    Ret int
  | Addresses int "addrinfo option" \<comment> \<open>error code and head of the list\<close>
  | Received int bytes              \<comment> \<open>return value and the bytes put into the buffer\<close>

definition as_int :: "udp_reply \<Rightarrow> int" where
  "as_int r = (case r of Ret n \<Rightarrow> n | Addresses n _ \<Rightarrow> n | Received n _ \<Rightarrow> n)"

definition as_addresses :: "udp_reply \<Rightarrow> int \<times> addrinfo option" where
  "as_addresses r = (case r of Addresses n a \<Rightarrow> (n, a) | _ \<Rightarrow> (as_int r, None))"

definition as_received :: "udp_reply \<Rightarrow> int \<times> bytes" where
  "as_received r = (case r of Received n b \<Rightarrow> (n, b) | _ \<Rightarrow> (as_int r, []))"

subsection \<open>Sending\<close>

definition die :: "('c, 'a) prog" where
  "die = exit_with 1"

text \<open>\<open>snprintf\<close> into ten bytes.\<close>

definition portname :: "int \<Rightarrow> bytes" where
  "portname port = take 9 (fmt_int port)"

text \<open>The descriptor and what \<open>*return_res\<close> was set to.\<close>

definition get_socket_fd_posix ::
  "(udp_call, udp_reply) os \<Rightarrow> bytes \<Rightarrow> int \<Rightarrow> (udp_call, int \<times> addrinfo option) prog" where
  "get_socket_fd_posix os hostname port =
     bind (syscall os (Getaddrinfo hostname (portname port) True)) (\<lambda>r.
     if fst (as_addresses r) \<noteq> 0 then die
     else case snd (as_addresses r) of None \<Rightarrow> crash NullDeref | Some res \<Rightarrow>
       bind (syscall os (Socket (ai_family res) (ai_socktype res) (ai_protocol res))) (\<lambda>f.
       if as_int f = -1 then die else ret (as_int f, Some res)))"

definition get_socket_fd_windows ::
  "(udp_call, udp_reply) os \<Rightarrow> bytes \<Rightarrow> int \<Rightarrow> (udp_call, int \<times> addrinfo option) prog" where
  "get_socket_fd_windows os hostname port =
     bind (syscall os WSAStartup) (\<lambda>w.
     if as_int w \<noteq> 0 then ret (1, None)
     else bind (syscall os (Getaddrinfo hostname (portname port) False)) (\<lambda>r.
     if fst (as_addresses r) \<noteq> 0 then bind (syscall os WSACleanup) (\<lambda>_. ret (1, None))
     else case snd (as_addresses r) of None \<Rightarrow> crash NullDeref | Some res \<Rightarrow>
       bind (syscall os (Socket (ai_family res) (ai_socktype res) (ai_protocol res))) (\<lambda>f.
       ret (as_int f, Some res))))"

definition get_socket_fd ::
  "bool \<Rightarrow> (udp_call, udp_reply) os \<Rightarrow> bytes \<Rightarrow> int \<Rightarrow> (udp_call, int \<times> addrinfo option) prog" where
  "get_socket_fd windows os hostname port =
     (if windows then get_socket_fd_windows os hostname port else get_socket_fd_posix os hostname port)"

text \<open>\<open>s\<close> is the cells from the pointer on, NUL included.\<close>

definition send_udp ::
  "(udp_call, udp_reply) os \<Rightarrow> int \<Rightarrow> addrinfo option \<Rightarrow> bytes \<Rightarrow> (udp_call, unit) prog" where
  "send_udp os fd res s =
     bind (safe (strlen s)) (\<lambda>slen.
     let buf = take slen s in
     case res of None \<Rightarrow> crash NullDeref | Some a \<Rightarrow>
       bind (syscall os (Sendto fd buf (ai_addr a))) (\<lambda>r.
       if as_int r = -1 then die else ret ()))"

definition send_string ::
  "bool \<Rightarrow> (udp_call, udp_reply) os \<Rightarrow> janet list \<Rightarrow> (udp_call, janet) prog" where
  "send_string windows os argv =
     bind (checked (janet_fixarity (length argv) 3)) (\<lambda>_.
     bind (checked (janet_getstring argv 0)) (\<lambda>host.
     bind (checked (janet_getinteger argv 1)) (\<lambda>port.
     bind (checked (janet_getstring argv 2)) (\<lambda>s.
     bind (get_socket_fd windows os (cstring host) port) (\<lambda>fr.
     bind (send_udp os (fst fr) (snd fr) (s @ [0])) (\<lambda>_.
     bind (syscall os (Close (fst fr))) (\<lambda>_.
     bind (syscall os FreeAddrinfoPointer) (\<lambda>_.
       ret (JBool True)))))))))"

subsection \<open>Receiving\<close>

text \<open>The copy into the global and the NUL after it, at index \<open>n + 1\<close>.\<close>

definition store_received :: "int \<Rightarrow> bytes \<Rightarrow> world \<Rightarrow> fault + world" where
  "store_received n bufin w =
     (let k = nat n in
      if k > length bufin then Inl Uninitialised
      else if k > MAXBUF \<or> k + 1 \<ge> MAXBUF then Inl OutOfBounds
      else Inr (w\<lparr>udp_listen_received := (take k bufin @ drop k (udp_listen_received w))[k + 1 := 0],
                 udp_listen_received_len := n\<rparr>))"

definition receive_udp :: "(udp_call, udp_reply) os \<Rightarrow> int \<Rightarrow> world \<Rightarrow> (udp_call, world) prog" where
  "receive_udp os sd w =
     bind (syscall os (Recvfrom sd MAXBUF)) (\<lambda>r.
     let n = fst (as_received r) in
     if n < 0 then ret w else safe (store_received n (snd (as_received r)) w))"

definition udp_listen :: "(udp_call, udp_reply) os \<Rightarrow> int \<Rightarrow> (udp_call, int) prog" where
  "udp_listen os listen_port =
     bind (syscall os SocketInet) (\<lambda>s.
     let ld = as_int s in
     if ld < 0 then exit_with 1 else
     bind (syscall os (Setsockopt ld)) (\<lambda>_.
     bind (syscall os (Bind ld (listen_port mod 2 ^ 16))) (\<lambda>b.
     if as_int b < 0 then exit_with 0 else
     bind (syscall os (Getsockname ld)) (\<lambda>g.
     if as_int g < 0 then exit_with 1 else ret ld))))"

text \<open>\<open>janet_string (world.udp_listen_received, world.udp_listen_received_len)\<close>.\<close>

definition received_string :: "world \<Rightarrow> fault + bytes" where
  "received_string w =
     (if udp_listen_received_len w < 0 \<or> nat (udp_listen_received_len w) > length (udp_listen_received w)
      then Inl OutOfBounds
      else Inr (take (nat (udp_listen_received_len w)) (udp_listen_received w)))"

definition j_listen ::
  "(udp_call, udp_reply) os \<Rightarrow> janet list \<Rightarrow> world \<Rightarrow> (udp_call, janet \<times> world) prog" where
  "j_listen os argv w =
     bind (checked (janet_fixarity (length argv) 1)) (\<lambda>_.
     bind (checked (janet_getinteger argv 0)) (\<lambda>port.
     bind (udp_listen os port) (\<lambda>fd.
     bind (receive_udp os fd w) (\<lambda>w2.
     bind (syscall os (Close fd)) (\<lambda>_.
     bind (safe (received_string w2)) (\<lambda>s.
       ret (JString s, w2)))))))"

subsection \<open>The state between calls\<close>

definition world_wf :: "world \<Rightarrow> bool" where
  "world_wf w \<longleftrightarrow> length (udp_listen_received w) = MAXBUF
     \<and> 0 \<le> udp_listen_received_len w \<and> nat (udp_listen_received_len w) + 1 < MAXBUF"

text \<open>The datagram of the last call that got one.\<close>

definition last_datagram :: "world \<Rightarrow> bytes" where
  "last_datagram w = take (nat (udp_listen_received_len w)) (udp_listen_received w)"

lemma world_init_wf: "world_wf world_init" "last_datagram world_init = []"
  by (simp_all add: world_wf_def world_init_def last_datagram_def MAXBUF_def)

lemma store_received_ok:
  assumes "world_wf w" and "length b + 1 < MAXBUF"
  shows "\<exists>w'. store_received (int (length b)) b w = Inr w' \<and> world_wf w' \<and> last_datagram w' = b"
proof -
  let ?w = "w\<lparr>udp_listen_received := (b @ drop (length b) (udp_listen_received w))[length b + 1 := 0],
      udp_listen_received_len := int (length b)\<rparr>"
  have "store_received (int (length b)) b w = Inr ?w"
    using assms(2) by (simp add: store_received_def Let_def)
  moreover have "world_wf ?w" using assms by (simp add: world_wf_def)
  moreover have "last_datagram ?w = b" by (simp add: last_datagram_def)
  ultimately show ?thesis by blast
qed

lemma received_string_wf: "world_wf w \<Longrightarrow> received_string w = Inr (last_datagram w)"
  by (simp add: received_string_def world_wf_def last_datagram_def)

lemma janet_getinteger_wrap:
  "janet_checkint x \<Longrightarrow> argv ! i = x \<Longrightarrow> janet_getinteger argv i = Inr (janet_unwrap_integer x)"
  by (simp add: janet_getinteger_def)

lemma cstring_strlen: "strlen (s @ [0]) = Inr (length (cstring s))" "take (length (cstring s)) (s @ [0]) = cstring s"
proof -
  have "takeWhile (\<lambda>b. b \<noteq> 0) (s @ [0]) = takeWhile (\<lambda>b. b \<noteq> 0) s"
    by (induction s) auto
  then show "strlen (s @ [0]) = Inr (length (cstring s))" by (simp add: strlen_def cstring_def)
  show "take (length (cstring s)) (s @ [0]) = cstring s"
    by (induction s) (auto simp: cstring_def)
qed

lemmas cstring_take = cstring_strlen(2) [unfolded take_append]

subsection \<open>Properties\<close>

text \<open>The reply to the getaddrinfo call is \<open>Addresses\<close>: an error, or at least one
  address, as POSIX promises.\<close>

definition getaddrinfo_ok :: "(udp_call, udp_reply) os \<Rightarrow> bool" where
  "getaddrinfo_ok os \<longleftrightarrow> (\<forall>tr h p c. \<exists>e a. os tr (Getaddrinfo h p c) = Addresses e a \<and> (e = 0 \<longrightarrow> a \<noteq> None))"

text \<open>On POSIX \<open>udp/send-string\<close> either leaves the process with status 1 because a
  system call failed, or returns true after sending exactly one datagram, the string up to its
  first NUL, to the first address found, and closing the socket it opened.\<close>

theorem udp_send_datagram:
  assumes "getaddrinfo_ok os" and "janet_checkint p"
  shows "\<exists>a :: addrinfo. case send_string False os [JString host, p, JString s] [] of
      (Value v, tr) \<Rightarrow> v = JBool True \<and> (\<exists>fd. fd \<noteq> -1 \<and> tr =
        [Getaddrinfo (cstring host) (portname (janet_unwrap_integer p)) True,
         Socket (ai_family a) (ai_socktype a) (ai_protocol a),
         Sendto fd (cstring s) (ai_addr a), Close fd, FreeAddrinfoPointer])
    | (Exit n, tr) \<Rightarrow> n = 1
    | _ \<Rightarrow> False"
proof -
  let ?g = "Getaddrinfo (cstring host) (portname (janet_unwrap_integer p)) True"
  obtain e o1 where r: "os [] ?g = Addresses e o1" and e: "e = 0 \<longrightarrow> o1 \<noteq> None"
    using assms(1) unfolding getaddrinfo_ok_def by blast
  have "janet_getinteger [JString host, p, JString s] 1 = Inr (janet_unwrap_integer p)"
    using assms(2) by (simp add: janet_getinteger_def)
  then show ?thesis
    using e by (intro exI [of _ "the o1"], cases o1)
       (simp_all add: send_string_def get_socket_fd_def get_socket_fd_posix_def send_udp_def die_def Let_def
          prog_simps janet_getstring_def r as_addresses_def cstring_strlen cstring_take
          split: result.splits)
qed

theorem udp_send_datagram_witness:
  "\<exists>a :: addrinfo. case send_string False (\<lambda>tr c. case c of
        Getaddrinfo _ _ _ \<Rightarrow> Addresses 0 (Some \<lparr>ai_family = 2, ai_socktype = 2, ai_protocol = 17, ai_addr = [9]\<rparr>)
      | _ \<Rightarrow> Ret 3) [JString (bs ''h''), JNumber (Finite False 0x4020000000000000), JString [65, 0, 66]] [] of
      (Value v, tr) \<Rightarrow> v = JBool True \<and> (\<exists>fd. fd \<noteq> -1 \<and> tr =
        [Getaddrinfo (cstring (bs ''h'')) (portname (janet_unwrap_integer (JNumber (Finite False 0x4020000000000000)))) True,
         Socket (ai_family a) (ai_socktype a) (ai_protocol a),
         Sendto fd (cstring [65, 0, 66]) (ai_addr a), Close fd, FreeAddrinfoPointer])
    | (Exit n, tr) \<Rightarrow> n = 1
    | _ \<Rightarrow> False"
  by (rule udp_send_datagram)
    (simp_all add: getaddrinfo_ok_def janet_checkint_def dbl_int_def dbl_sig_def dbl_exp_def int32_def Let_def)

text \<open>On Windows a failed start-up of the socket library or a failed look-up is reported by
  the value 1 and no address, which \<open>udp/send-string\<close> takes for a descriptor: it then
  dereferences the null pointer.\<close>

theorem udp_windows_failure_crashes:
  assumes "janet_checkint p" and "getaddrinfo_ok os"
    and "as_int (os [] WSAStartup) \<noteq> 0
      \<or> fst (as_addresses (os [WSAStartup] (Getaddrinfo (cstring host) (portname (janet_unwrap_integer p)) False))) \<noteq> 0"
  shows "fst (send_string True os [JString host, p, JString s] []) = Fault NullDeref"
proof -
  obtain e a where "os [WSAStartup] (Getaddrinfo (cstring host) (portname (janet_unwrap_integer p)) False)
      = Addresses e a" using assms(2) unfolding getaddrinfo_ok_def by blast
  moreover have "janet_getinteger [JString host, p, JString s] (Suc 0) = Inr (janet_unwrap_integer p)"
    using assms(1) by (simp add: janet_getinteger_def)
  ultimately show ?thesis using assms(3)
    by (auto simp: send_string_def get_socket_fd_def get_socket_fd_windows_def send_udp_def Let_def
        prog_simps janet_getstring_def as_addresses_def cstring_strlen)
qed

theorem udp_windows_failure_crashes_witness:
  "fst (send_string True (\<lambda>tr c. case c of
        Getaddrinfo _ _ _ \<Rightarrow> Addresses 11001 (Some \<lparr>ai_family = 2, ai_socktype = 2, ai_protocol = 17, ai_addr = [9]\<rparr>)
      | _ \<Rightarrow> Ret 0) [JString (bs ''h''), JNumber (Finite False 0x4020000000000000), JString [65]] []) = Fault NullDeref"
  by (rule udp_windows_failure_crashes)
    (simp_all add: getaddrinfo_ok_def as_addresses_def janet_checkint_def dbl_int_def dbl_sig_def dbl_exp_def
      int32_def Let_def)

text \<open>\<open>udp/listen\<close> returns the datagram it received if that is at most
  \<open>MAXBUF - 2\<close> bytes, and closes its socket; a larger one makes the NUL at index
  \<open>n + 1\<close> land outside the global; and when the receive fails it returns the datagram of
  an earlier call. In every case where it returns, the global is well-formed again.\<close>

theorem udp_listen_returns:
  assumes "world_wf w" and "janet_checkint p" and "udp_listen os (janet_unwrap_integer p) [] = (Value fd, tr)"
    and "os tr (Recvfrom fd MAXBUF) = Received n b" and "n \<ge> 0 \<longrightarrow> n = int (length b)"
  shows "case j_listen os [p] w [] of
      (Value (v, w2), tr2) \<Rightarrow> world_wf w2 \<and> last_datagram w2 = (if n < 0 then last_datagram w else b)
        \<and> v = JString (last_datagram w2) \<and> tr2 = tr @ [Recvfrom fd MAXBUF, Close fd]
    | (r, tr2) \<Rightarrow> r = Fault OutOfBounds \<and> n \<ge> int MAXBUF - 1"
proof -
  have a: "janet_getinteger [p] 0 = Inr (janet_unwrap_integer p)"
    using assms(2) by (simp add: janet_getinteger_def)
  have j: "j_listen os [p] w [] = bind (receive_udp os fd w) (\<lambda>w2.
     bind (syscall os (Close fd)) (\<lambda>_. bind (safe (received_string w2)) (\<lambda>s. ret (JString s, w2)))) tr"
    using assms(3) a by (simp add: j_listen_def prog_simps) (simp add: bind_def)
  have r: "receive_udp os fd w tr = (if n < 0 then (Value w, tr @ [Recvfrom fd MAXBUF])
      else safe (store_received n b w) (tr @ [Recvfrom fd MAXBUF]))"
    by (simp add: receive_udp_def prog_simps assms(4) as_received_def Let_def)
  consider "n < 0" | "n \<ge> 0" "length b + 1 < MAXBUF" | "n \<ge> 0" "length b + 1 \<ge> MAXBUF" by linarith
  then show ?thesis
  proof cases
    case 1
    then show ?thesis using assms(1) r
      by (simp add: j) (simp add: bind_def prog_simps received_string_wf)
  next
    case 2
    from store_received_ok [OF assms(1) 2(2)] obtain w' where
        "store_received n b w = Inr w'" "world_wf w'" "last_datagram w' = b" using 2(1) assms(5) by auto
    then show ?thesis using 2(1) r
      by (simp add: j) (simp add: bind_def prog_simps received_string_wf)
  next
    case 3
    then have "store_received n b w = Inl OutOfBounds"
      using assms(5) by (auto simp: store_received_def Let_def)
    then show ?thesis using 3 assms(5) r
      by (simp add: j) (simp add: bind_def prog_simps)
  qed
qed

theorem udp_listen_returns_witness:
  "case j_listen (\<lambda>tr c. case c of Recvfrom _ _ \<Rightarrow> Received 2 [72, 105] | _ \<Rightarrow> Ret 3)
      [JNumber (Finite False 0x4020000000000000)] world_init [] of
      (Value (v, w2), tr2) \<Rightarrow> world_wf w2 \<and> last_datagram w2 = (if (2::int) < 0 then last_datagram world_init else [72, 105])
        \<and> v = JString (last_datagram w2)
        \<and> tr2 = [SocketInet, Setsockopt 3, Bind 3 8, Getsockname 3] @ [Recvfrom 3 MAXBUF, Close 3]
    | (r, tr2) \<Rightarrow> r = Fault OutOfBounds \<and> 2 \<ge> int MAXBUF - 1"
proof (rule udp_listen_returns [OF world_init_wf(1)])
  have "janet_unwrap_integer (JNumber (Finite False 0x4020000000000000)) = 8"
    by (simp add: janet_unwrap_integer_def dbl_int_def dbl_sig_def dbl_exp_def Let_def)
  then show "udp_listen (\<lambda>tr c. case c of Recvfrom _ _ \<Rightarrow> Received 2 [72, 105] | _ \<Rightarrow> Ret 3)
      (janet_unwrap_integer (JNumber (Finite False 0x4020000000000000))) []
    = (Value 3, [SocketInet, Setsockopt 3, Bind 3 8, Getsockname 3])"
    by (simp add: udp_listen_def prog_simps as_int_def Let_def)
qed (simp_all add: janet_checkint_def dbl_int_def dbl_sig_def dbl_exp_def int32_def Let_def)

end
