(* ===== verification/Io.thy ===== *)
theory Io
  imports Process CStd
begin

text \<open>
  \<^verbatim>\<open>src/com_ahungry_io.c\<close>: single keys from the terminal. Terminal attributes are the
  four fields the code touches, with the flag values of Linux. The loop that waits for a byte may
  run for ever, so it is a partial function whose value is \<open>None\<close> when it does.
\<close>

subsection \<open>Terminal attributes\<close>

record termios =
  c_iflag :: "32 word"
  c_cflag :: "32 word"
  c_lflag :: "32 word"
  vmin :: nat
  vtime :: nat



subsection \<open>System calls\<close>

datatype io_call =
    Tcgetattr
  | Tcsetattr termios
  | AtexitDisableRaw
  | ReadStdin
  | Stderr string
  | Getch
  | FgetcStdin
  | FflushStdin

text \<open>A reply: a return value, the byte a read stored, \<open>errno\<close>, and the attributes.\<close>

record io_reply =
  value_of :: int
  byte_of :: byte
  errno_of :: int
  termios_of :: termios

definition EAGAIN :: int where "EAGAIN = 11"



partial_function (option) read_loop ::
  "(io_call, io_reply) os \<Rightarrow> io_call list \<Rightarrow> (byte \<times> io_call list) option" where
  "read_loop os tr =
     (let r = os tr ReadStdin; tr2 = tr @ [ReadStdin] in
      if value_of r = 1 then Some (byte_of r, tr2)
      else read_loop os (if value_of r = -1 \<and> errno_of r \<noteq> EAGAIN then tr2 @ [Stderr ''read''] else tr2))"

text \<open>\<open>janet_wrap_number\<close> of a signed \<open>char\<close>.\<close>

definition wrap_char :: "byte \<Rightarrow> janet" where
  "wrap_char c = JNumber (double_of_int (sint c))"




definition read_key_wrapped :: "bool \<Rightarrow> (io_call, io_reply) os \<Rightarrow> (janet \<times> io_call list) option" where
  "read_key_wrapped windows os =
     (if windows
      then Some (wrap_char (word_of_int (value_of (os [] FgetcStdin))), [FgetcStdin, FflushStdin])
      else case read_loop os [] of None \<Rightarrow> None | Some (c, tr) \<Rightarrow> Some (wrap_char c, tr))"

subsection \<open>When a read ends\<close>

text \<open>The calls of \<open>k\<close> reads that did not give a byte, after \<open>tr\<close>.\<close>

fun failed_reads :: "(io_call, io_reply) os \<Rightarrow> io_call list \<Rightarrow> nat \<Rightarrow> io_call list" where
  "failed_reads os tr 0 = tr"
| "failed_reads os tr (Suc k) =
     failed_reads os (if value_of (os tr ReadStdin) = -1 \<and> errno_of (os tr ReadStdin) \<noteq> EAGAIN
       then tr @ [ReadStdin, Stderr ''read''] else tr @ [ReadStdin]) k"

lemma read_loop_step:
  "value_of (os tr ReadStdin) \<noteq> 1 \<Longrightarrow> read_loop os tr = read_loop os (failed_reads os tr 1)"
  by (subst read_loop.simps) (simp add: Let_def)

lemma read_loop_hit:
  "value_of (os tr ReadStdin) = 1 \<Longrightarrow> read_loop os tr = Some (byte_of (os tr ReadStdin), tr @ [ReadStdin])"
  by (subst read_loop.simps) (simp add: Let_def)

lemma read_loop_after:
  assumes "\<forall>i < k. value_of (os (failed_reads os tr i) ReadStdin) \<noteq> 1"
    and "value_of (os (failed_reads os tr k) ReadStdin) = 1"
  shows "read_loop os tr = Some (byte_of (os (failed_reads os tr k) ReadStdin), failed_reads os tr k @ [ReadStdin])"
  using assms
proof (induction k arbitrary: tr)
  case 0
  then show ?case by (simp add: read_loop_hit)
next
  case (Suc k)
  let ?t = "failed_reads os tr 1"
  have s: "failed_reads os tr (Suc i) = failed_reads os ?t i" for i by simp
  have "value_of (os (failed_reads os tr 0) ReadStdin) \<noteq> 1" using Suc.prems(1) by blast
  then have "read_loop os tr = read_loop os ?t" by (simp add: read_loop_step)
  also have "\<dots> = Some (byte_of (os (failed_reads os ?t k) ReadStdin), failed_reads os ?t k @ [ReadStdin])"
  proof (rule Suc.IH)
    show "\<forall>i < k. value_of (os (failed_reads os ?t i) ReadStdin) \<noteq> 1"
      using Suc.prems(1) s by (metis Suc_less_eq)
    show "value_of (os (failed_reads os ?t k) ReadStdin) = 1" using Suc.prems(2) by (simp only: s)
  qed
  finally show ?case by (simp only: s)
qed

lemma read_loop_Some:
  assumes "read_loop os tr = Some y"
  shows "\<exists>k. (\<forall>i < k. value_of (os (failed_reads os tr i) ReadStdin) \<noteq> 1)
    \<and> value_of (os (failed_reads os tr k) ReadStdin) = 1"
  using assms
proof (induction rule: read_loop.raw_induct [rotated, consumes 1])
  case (1 loop os tr y)
  show ?case
  proof (cases "value_of (os tr ReadStdin) = 1")
    case True
    then show ?thesis by (intro exI [of _ 0]) simp
  next
    case False
    have "loop os (failed_reads os tr 1) = Some y"
      using 1(2) unfolding Let_def if_not_P [OF False] One_nat_def failed_reads.simps
      by (simp only: append_assoc append_Cons append_Nil)
    note ih = 1(1) [OF this]
    obtain k where k: "\<forall>i < k. value_of (os (failed_reads os (failed_reads os tr 1) i) ReadStdin) \<noteq> 1"
        "value_of (os (failed_reads os (failed_reads os tr 1) k) ReadStdin) = 1"
      using ih by (elim exE conjE)
    have s: "failed_reads os tr (Suc i) = failed_reads os (failed_reads os tr 1) i" for i by simp
    have "\<forall>i < Suc k. value_of (os (failed_reads os tr i) ReadStdin) \<noteq> 1"
      using k(1) False s by (metis failed_reads.simps(1) less_Suc_eq_0_disj)
    moreover have "value_of (os (failed_reads os tr (Suc k)) ReadStdin) = 1" using k(2) by (simp only: s)
    ultimately show ?thesis by blast
  qed
qed



subsection \<open>Properties\<close>

text \<open>A read of one key on POSIX returns exactly when some read of standard input yields a
  byte; the reads before it fail one by one, each answered by another. Nothing else ends the loop:
  an end of file, where every \<open>read\<close> gives 0, keeps it spinning for ever.\<close>

theorem io_read_key_ends:
  "read_key_wrapped False os = None \<longleftrightarrow>
     (\<nexists>k. value_of (os (failed_reads os [] k) ReadStdin) = 1)"
proof
  assume none: "read_key_wrapped False os = None"
  show "\<nexists>k. value_of (os (failed_reads os [] k) ReadStdin) = 1"
  proof
    assume "\<exists>k. value_of (os (failed_reads os [] k) ReadStdin) = 1"
    then have "\<exists>k. value_of (os (failed_reads os [] k) ReadStdin) = 1
        \<and> (\<forall>i < k. value_of (os (failed_reads os [] i) ReadStdin) \<noteq> 1)"
      by (rule exists_least_iff [THEN iffD1])
    then obtain k where "value_of (os (failed_reads os [] k) ReadStdin) = 1"
      "\<forall>i < k. value_of (os (failed_reads os [] i) ReadStdin) \<noteq> 1"
      by (elim exE conjE)
    with read_loop_after [of k os "[]"] show False using none by (simp add: read_key_wrapped_def)
  qed
next
  assume "\<nexists>k. value_of (os (failed_reads os [] k) ReadStdin) = 1"
  with read_loop_Some [of os "[]"] have "read_loop os [] = None" by (cases "read_loop os []") blast+
  then show "read_key_wrapped False os = None" by (simp add: read_key_wrapped_def)
qed





end
