(* ===== verification/Crypt.thy ===== *)
theory Crypt
  imports Process CStd
begin

text \<open>
  \<^verbatim>\<open>src/com_ahungry_crypt.c\<close>: digests and base64 over OpenSSL. The library is a
  parameter (the record \<open>openssl\<close>); the functions of the file are its clients. Memory the
  file allocates is explicit: an allocation is a call whose answer is the number of bytes that
  may be used, at least the number asked for, and every write is checked against it. The trace
  of a run is the allocations and releases it made.
\<close>

subsection \<open>The library and the allocator\<close>

text \<open>\<open>md_init\<close>, \<open>md_update\<close> and \<open>md_final\<close> answer 0 (\<open>False\<close>, \<open>None\<close>) on
  failure. \<open>decode_block\<close> is \<open>None\<close> when \<open>EVP_DecodeBlock\<close> gives -1.\<close>

record openssl =
  md_init :: bool
  md_update :: "bytes \<Rightarrow> bool"
  md_final :: "bytes \<Rightarrow> bytes option"
  hmac :: "bytes \<Rightarrow> bytes \<Rightarrow> bytes option"
  encode_block :: "bytes \<Rightarrow> bytes"
  decode_block :: "bytes \<Rightarrow> bytes option"

datatype mem_call =
    Strdup bytes
  | CtxNew
  | CtxFree
  | Malloc nat
  | FreeBlock
  | StackArray nat

type_synonym mem = "(mem_call, nat option) os"

text \<open>Writing through the pointer an allocation gave.\<close>

definition allocate :: "mem \<Rightarrow> mem_call \<Rightarrow> (mem_call, byte block) prog" where
  "allocate os c = bind (syscall os c) (\<lambda>r. case r of None \<Rightarrow> crash NullDeref | Some n \<Rightarrow> ret (malloc_block n))"

subsection \<open>Formatting a digest\<close>

definition hex_char :: "nat \<Rightarrow> byte" where
  "hex_char d = (if d < 10 then 48 + word_of_nat d else 87 + word_of_nat d)"

text \<open>\<open>%02x\<close> and \<open>%c\<close> of an unsigned char.\<close>

definition fmt_02x :: "byte \<Rightarrow> bytes" where
  "fmt_02x b = [hex_char (unat b div 16), hex_char (unat b mod 16)]"

definition fmt_c :: "byte \<Rightarrow> bytes" where
  "fmt_c b = [b]"

text \<open>The loops that append with \<open>out2 += sprintf (out2, ...)\<close>: each write ends in a NUL
  the next one overwrites.\<close>

fun sprintf_each :: "(byte \<Rightarrow> bytes) \<Rightarrow> byte block \<Rightarrow> nat \<Rightarrow> bytes \<Rightarrow> fault + byte block" where
  "sprintf_each fmt out p [] = Inr out"
| "sprintf_each fmt out p (b # cs) =
     rbind (write_cells out p (fmt b @ [0])) (\<lambda>out2. sprintf_each fmt out2 (p + length (fmt b)) cs)"

subsection \<open>The functions\<close>

definition sha256_wrapped :: "openssl \<Rightarrow> mem \<Rightarrow> janet list \<Rightarrow> (mem_call, janet) prog" where
  "sha256_wrapped ssl os argv =
     bind (checked (janet_fixarity (length argv) 1)) (\<lambda>_.
     bind (checked (janet_getcstring argv 0)) (\<lambda>in_val.
     bind (syscall os (Strdup in_val)) (\<lambda>_.
     bind (syscall os CtxNew) (\<lambda>ctx.
     if ctx = None then checked (Inl (Panic ''SHA256 ctx failure!'' []))
     else if \<not> md_init ssl then checked (Inl (Panic ''SHA256 init failure!'' []))
     else if \<not> md_update ssl in_val then checked (Inl (Panic ''SHA256 digest update failure!'' []))
     else case md_final ssl in_val of
       None \<Rightarrow> checked (Inl (Panic ''SHA256 digest final failure!'' []))
     | Some hash \<Rightarrow>
         let outlen = length hash * 2 in
         bind (allocate os (Malloc outlen)) (\<lambda>out.
         bind (safe (sprintf_each fmt_02x out 0 hash)) (\<lambda>out.
         bind (syscall os CtxFree) (\<lambda>_.
         bind (safe (write_cell out outlen 0)) (\<lambda>out.
         bind (safe (read_cells out 0 outlen)) (\<lambda>janet_out.
         bind (syscall os FreeBlock) (\<lambda>_.
         ret (JString janet_out)))))))))))"

text \<open>When \<open>HMAC\<close> fails it gives NULL, and \<open>resultlen\<close> stays \<open>UINT_MAX\<close>: the loop
  reads through the null pointer at once.\<close>

definition hmac_sha256_wrapped :: "openssl \<Rightarrow> mem \<Rightarrow> janet list \<Rightarrow> (mem_call, janet) prog" where
  "hmac_sha256_wrapped ssl os argv =
     bind (checked (janet_fixarity (length argv) 2)) (\<lambda>_.
     bind (checked (janet_getcstring argv 0)) (\<lambda>in_key.
     bind (checked (janet_getcstring argv 1)) (\<lambda>in_val.
     bind (syscall os (Strdup in_key)) (\<lambda>_.
     bind (syscall os (Strdup in_val)) (\<lambda>_.
     case hmac ssl in_key in_val of
       None \<Rightarrow> crash NullDeref
     | Some res \<Rightarrow>
         bind (allocate os (Malloc (length res + 1))) (\<lambda>out.
         bind (safe (sprintf_each fmt_c out 0 res)) (\<lambda>out.
         let resultlen = length res + 1 in
         bind (safe (write_cell out resultlen 0)) (\<lambda>out.
         bind (safe (read_cells out 0 resultlen)) (\<lambda>bytes.
         bind (syscall os FreeBlock) (\<lambda>_.
         ret (JBuffer bytes)))))))))))"

definition hmac_sha256_hex_wrapped :: "openssl \<Rightarrow> mem \<Rightarrow> janet list \<Rightarrow> (mem_call, janet) prog" where
  "hmac_sha256_hex_wrapped ssl os argv =
     bind (checked (janet_fixarity (length argv) 2)) (\<lambda>_.
     bind (checked (janet_getcstring argv 0)) (\<lambda>in_key.
     bind (checked (janet_getcstring argv 1)) (\<lambda>in_val.
     bind (syscall os (Strdup in_key)) (\<lambda>_.
     bind (syscall os (Strdup in_val)) (\<lambda>_.
     case hmac ssl in_key in_val of
       None \<Rightarrow> crash NullDeref
     | Some res \<Rightarrow>
         let outlen = length res * 2 in
         bind (allocate os (Malloc (8 * outlen))) (\<lambda>out.
         bind (safe (sprintf_each fmt_02x out 0 res)) (\<lambda>out.
         bind (safe (write_cell out outlen 0)) (\<lambda>out.
         bind (safe (read_cells out 0 outlen)) (\<lambda>janet_out.
         bind (syscall os FreeBlock) (\<lambda>_.
         ret (JString janet_out)))))))))))"

text \<open>\<open>EVP_EncodeBlock\<close> writes the encoding and a NUL after it, which its length leaves out.\<close>

definition base64_encode_wrapped :: "openssl \<Rightarrow> mem \<Rightarrow> janet list \<Rightarrow> (mem_call, janet) prog" where
  "base64_encode_wrapped ssl os argv =
     bind (checked (janet_fixarity (length argv) 1)) (\<lambda>_.
     bind (checked (janet_getbuffer argv 0)) (\<lambda>buf.
     let datalen = length buf;
         block_size = datalen div 3 * 4 + (if datalen mod 3 \<noteq> 0 then 4 else 0) in
     bind (allocate os (Malloc datalen)) (\<lambda>data.
     bind (safe (write_cells data 0 buf)) (\<lambda>data.
     bind (allocate os (StackArray block_size)) (\<lambda>encoded.
     bind (safe (read_cells data 0 datalen)) (\<lambda>bytes.
     bind (safe (write_cells encoded 0 (encode_block ssl bytes @ [0]))) (\<lambda>encoded.
     bind (syscall os FreeBlock) (\<lambda>_.
     bind (safe (read_cells encoded 0 (length (encode_block ssl bytes)))) (\<lambda>janet_out.
     ret (JString janet_out))))))))))"

definition base64_decode_wrapped :: "openssl \<Rightarrow> mem \<Rightarrow> janet list \<Rightarrow> (mem_call, janet) prog" where
  "base64_decode_wrapped ssl os argv =
     bind (checked (janet_fixarity (length argv) 1)) (\<lambda>_.
     bind (checked (janet_getcstring argv 0)) (\<lambda>data.
     let datalen = length data;
         block_size = datalen div 4 * 3 + (if datalen mod 4 \<noteq> 0 then 3 else 0) in
     bind (allocate os (StackArray block_size)) (\<lambda>decoded.
     bind (safe (case decode_block ssl data of None \<Rightarrow> Inr decoded | Some d \<Rightarrow> write_cells decoded 0 d)) (\<lambda>decoded.
     bind (safe (read_cells decoded 0 block_size)) (\<lambda>bytes.
     ret (JBuffer bytes))))))"

subsection \<open>Lemmas\<close>

lemma length_fmt [simp]: "length (fmt_02x b) = 2" "length (fmt_c b) = 1"
  by (simp_all add: fmt_02x_def fmt_c_def)

text \<open>Appending with \<open>sprintf\<close> needs a cell for the last NUL, and then leaves all that was
  printed.\<close>

lemma holds_snoc_butlast: "holds b (xs @ ys @ [z]) \<Longrightarrow> holds b (xs @ ys)"
  by (metis append.assoc holds_prefix)

lemma sprintf_each_holds:
  assumes "holds out xs" and "p = length xs" and "p + length (concat (map fmt cs)) < length out"
  shows "\<exists>out2. sprintf_each fmt out p cs = Inr out2 \<and> holds out2 (xs @ concat (map fmt cs))
       \<and> length out2 = length out \<and> (cs \<noteq> [] \<longrightarrow> holds out2 (xs @ concat (map fmt cs) @ [0]))"
  using assms
proof (induction cs arbitrary: out xs p)
  case Nil
  then show ?case by simp
next
  case (Cons b cs)
  have "length xs + length (fmt b @ [0]) \<le> length out" using Cons.prems by simp
  from holds_write_cells_end [OF Cons.prems(1) this] obtain o1 where
    o1: "write_cells out p (fmt b @ [0]) = Inr o1" "holds o1 (xs @ fmt b @ [0])" "length o1 = length out"
    using Cons.prems(2) by blast
  have h: "holds o1 (xs @ fmt b)" using o1(2) by (rule holds_snoc_butlast)
  show ?case
  proof (cases cs)
    case Nil
    with o1 h show ?thesis by simp
  next
    case (Cons c cs2)
    with Cons.IH [of o1 "xs @ fmt b" "p + length (fmt b)"] Cons.prems o1 h show ?thesis by simp
  qed
qed

lemma sprintf_each_overrun:
  assumes "cs \<noteq> []" and "p + length (concat (map fmt cs)) \<ge> length out"
  shows "sprintf_each fmt out p cs = Inl OutOfBounds"
  using assms
proof (induction cs arbitrary: out p)
  case Nil
  then show ?case by simp
next
  case (Cons b cs)
  show ?case
  proof (cases "p + length (fmt b @ [0]) \<le> length out")
    case True
    then obtain o1 where o1: "write_cells out p (fmt b @ [0]) = Inr o1" by (simp add: write_cells_def)
    have "length o1 = length out" using o1 by (rule write_cells_length)
    moreover have "cs \<noteq> []" using True Cons.prems(2) by (cases cs) auto
    ultimately show ?thesis using Cons o1 by (simp add: add.assoc)
  next
    case False
    then show ?thesis by (simp add: write_cells_def)
  qed
qed

lemma length_hex [simp]: "length (concat (map fmt_02x cs)) = 2 * length cs"
  by (induction cs) simp_all

lemma length_raw [simp]: "concat (map fmt_c cs) = cs"
  by (induction cs) (simp_all add: fmt_c_def)

lemma holds_malloc [simp]: "holds (malloc_block n) []" by simp

lemma holds_whole: "holds b xs \<Longrightarrow> n = length xs \<Longrightarrow> read_cells b 0 n = Inr xs"
  by (simp add: holds_read_cells)

lemma holds_terminate:
  assumes "holds b xs" and "length xs < length b"
  shows "\<exists>b2. write_cell b (length xs) z = Inr b2 \<and> read_cells b2 0 (length xs) = Inr xs"
  using holds_write_cell_end [OF assms, of z] holds_prefix holds_whole by blast

text \<open>What the three digest functions do with the block: print, terminate, copy out.\<close>

lemma print_block:
  assumes "length (concat (map fmt cs)) < n"
  shows "\<exists>o1 o2. sprintf_each fmt (malloc_block n) 0 cs = Inr o1
      \<and> write_cell o1 (length (concat (map fmt cs))) 0 = Inr o2
      \<and> read_cells o2 0 (length (concat (map fmt cs))) = Inr (concat (map fmt cs))"
proof -
  have h: "holds (malloc_block n :: byte block) []" by simp
  have "0 + length (concat (map fmt cs)) < length (malloc_block n :: byte block)" using assms by simp
  from sprintf_each_holds [OF h _ this] obtain o1 where
    o1: "sprintf_each fmt (malloc_block n) 0 cs = Inr o1" "holds o1 (concat (map fmt cs))" "length o1 = n"
    by auto
  with holds_terminate [OF o1(2), of 0] assms show ?thesis by auto
qed

lemma bind_allocate [prog_simps]:
  "bind (allocate os c) f tr =
     (case os tr c of None \<Rightarrow> (Fault NullDeref, tr @ [c]) | Some n \<Rightarrow> f (malloc_block n) (tr @ [c]))"
  by (simp add: allocate_def prog_simps split: option.splits)

lemma bind_safe_run [prog_simps]:
  "bind (safe r) f tr = (case r of Inl e \<Rightarrow> (Fault e, tr) | Inr x \<Rightarrow> f x tr)"
  by (cases r) (simp_all add: prog_simps)

lemma hex_char_inj:
  assumes "hex_char i = hex_char j" and "i < 16" and "j < 16"
  shows "i = j"
proof -
  have "\<forall>i \<in> set [0..<16]. \<forall>j \<in> set [0..<16]. hex_char i = hex_char j \<longrightarrow> i = j"
    by (simp add: hex_char_def upt_rec)
  with assms show ?thesis by simp
qed

lemma fmt_02x_inj:
  assumes "fmt_02x a = fmt_02x b"
  shows "a = b"
proof -
  have "unat a < 256" "unat b < 256" using unsigned_less [where 'a = nat, of a] unsigned_less [where 'a = nat, of b] by simp_all
  then have "unat a div 16 = unat b div 16" "unat a mod 16 = unat b mod 16"
    using assms by (auto simp: fmt_02x_def intro!: hex_char_inj)
  then have "unat a = unat b" by (metis div_mult_mod_eq)
  then show ?thesis by (simp add: unsigned_word_eqI)
qed

lemma hex_inj: "concat (map fmt_02x xs) = concat (map fmt_02x ys) \<Longrightarrow> xs = ys"
proof (induction xs arbitrary: ys)
  case Nil
  then show ?case by (cases ys) (auto simp: fmt_02x_def)
next
  case (Cons x xs)
  from Cons.prems obtain y ys2 where ys: "ys = y # ys2" by (cases ys) (auto simp: fmt_02x_def)
  with Cons.prems have "fmt_02x x = fmt_02x y" "concat (map fmt_02x xs) = concat (map fmt_02x ys2)"
    by (auto simp: append_eq_append_conv)
  with Cons.IH ys fmt_02x_inj show ?case by blast
qed

text \<open>An allocator that never fails and gives at least what was asked for.\<close>

definition allocates :: "(nat \<Rightarrow> nat) \<Rightarrow> mem \<Rightarrow> bool" where
  "allocates usable os \<longleftrightarrow> (\<forall>tr n. os tr (Malloc n) = Some (usable n) \<and> os tr (StackArray n) = Some (usable n))
     \<and> (\<forall>tr. os tr CtxNew \<noteq> None) \<and> (\<forall>n. usable n \<ge> n)"

lemma allocates_answers:
  assumes "allocates usable os"
  shows "os tr (Malloc n) = Some (usable n)" and "os tr (StackArray n) = Some (usable n)"
    and "os tr CtxNew \<noteq> None" and "usable n \<ge> n"
  using assms by (simp_all add: allocates_def)

subsection \<open>Properties\<close>

text \<open>The hex SHA-256 of a string, on a library whose digest succeeds: if the allocator rounds
  the request for two characters a byte up, the result is the digest in lower case hex, which
  determines the digest. If the allocator gives exactly what was asked for, the call writes past
  the block: the terminating NUL has no room.\<close>

theorem crypt_sha256:
  assumes "allocates usable os" and "md_init ssl" and "md_update ssl val" and "md_final ssl val = Some d"
    and "d \<noteq> []" and "0 \<notin> set val"
  shows "fst (sha256_wrapped ssl os [JString val] []) =
      (if usable (2 * length d) > 2 * length d then Value (JString (concat (map fmt_02x d))) else Fault OutOfBounds)
    \<and> (concat (map fmt_02x d) = concat (map fmt_02x e) \<longrightarrow> d = e)"
proof -
  note a = allocates_answers [OF assms(1)]
  have c: "janet_getcstring [JString val] 0 = Inr val" using assms(6) by (simp add: janet_getcstring_def)
  have m: "2 * length d = length (concat (map fmt_02x d))" by simp
  have *: "fst (sha256_wrapped ssl os [JString val] []) =
      (if usable (2 * length d) > 2 * length d then Value (JString (concat (map fmt_02x d))) else Fault OutOfBounds)"
  proof (cases "usable (2 * length d) > 2 * length d")
    case True
    then have "length (concat (map fmt_02x d)) < usable (2 * length d)" by simp
    from print_block [OF this] obtain o1 o2 where
      "sprintf_each fmt_02x (malloc_block (usable (2 * length d))) 0 d = Inr o1"
      "write_cell o1 (2 * length d) 0 = Inr o2" "read_cells o2 0 (2 * length d) = Inr (concat (map fmt_02x d))"
      by auto
    with True show ?thesis
      using assms(2,3,4) a by (simp add: sha256_wrapped_def prog_simps c mult.commute Let_def)
  next
    case False
    have "sprintf_each fmt_02x (malloc_block (usable (2 * length d))) 0 d = Inl OutOfBounds"
      by (rule sprintf_each_overrun) (use False assms(5) in auto)
    with False show ?thesis
      using assms(2,3,4) a by (simp add: sha256_wrapped_def prog_simps c mult.commute Let_def)
  qed
  with hex_inj show ?thesis by blast
qed

text \<open>The two HMAC functions on the same key and message. The hex one is right for every
  allocator, because it asks for eight times what it needs. The binary one gives the digest with a
  NUL after it, one byte more than the digest, and writes past its block when the allocator gives
  exactly what was asked for. Neither releases the copies it makes of the key and the message.\<close>

theorem crypt_hmac:
  assumes "allocates usable os" and "hmac ssl key val = Some d" and "d \<noteq> []" and "0 \<notin> set key" and "0 \<notin> set val"
  shows "hmac_sha256_hex_wrapped ssl os [JString key, JString val] [] =
      (Value (JString (concat (map fmt_02x d))), [Strdup key, Strdup val, Malloc (16 * length d), FreeBlock])
    \<and> fst (hmac_sha256_wrapped ssl os [JString key, JString val] []) =
      (if usable (length d + 1) > length d + 1 then Value (JBuffer (d @ [0])) else Fault OutOfBounds)"
proof
  note a = allocates_answers [OF assms(1)]
  have c: "janet_getcstring [JString key, JString val] 0 = Inr key"
    "janet_getcstring [JString key, JString val] 1 = Inr val"
    using assms(4,5) by (simp_all add: janet_getcstring_def)
  have "length (concat (map fmt_02x d)) < usable (8 * (2 * length d))"
    using a(4) [of "8 * (2 * length d)"] assms(3) by (cases d) simp_all
  from print_block [OF this] obtain o1 o2 where
    "sprintf_each fmt_02x (malloc_block (usable (16 * length d))) 0 d = Inr o1"
    "write_cell o1 (2 * length d) 0 = Inr o2" "read_cells o2 0 (2 * length d) = Inr (concat (map fmt_02x d))"
    by auto
  then show "hmac_sha256_hex_wrapped ssl os [JString key, JString val] [] =
      (Value (JString (concat (map fmt_02x d))), [Strdup key, Strdup val, Malloc (16 * length d), FreeBlock])"
    using assms(2) a by (simp add: hmac_sha256_hex_wrapped_def prog_simps c [simplified] mult.commute Let_def)
  let ?n = "usable (length d + 1)"
  have "length (concat (map fmt_c d)) < ?n" using a(4) [of "length d + 1"] by simp
  moreover have "holds (malloc_block ?n :: byte block) []" by simp
  ultimately obtain o1 where o1: "sprintf_each fmt_c (malloc_block ?n) 0 d = Inr o1" "holds o1 (d @ [0])" "length o1 = ?n"
    using sprintf_each_holds [of "malloc_block ?n" "[]" 0 fmt_c d] assms(3) by auto
  have r: "read_cells o2 0 (length d + 1) = Inr (d @ [0])" if "write_cell o1 (length d + 1) 0 = Inr o2" for o2
    using that o1 holds_write_cell_end [OF o1(2), of 0] holds_read_cells [of o2 "d @ [0, 0]" 0 "length d + 1"]
    by (auto simp: write_cell_def split: if_splits)
  show "fst (hmac_sha256_wrapped ssl os [JString key, JString val] []) =
      (if ?n > length d + 1 then Value (JBuffer (d @ [0])) else Fault OutOfBounds)"
  proof (cases "?n > length d + 1")
    case True
    then obtain o2 where "write_cell o1 (length d + 1) 0 = Inr o2" using o1(3) by (simp add: write_cell_def)
    with True r o1 show ?thesis
      using assms(2) a by (simp add: hmac_sha256_wrapped_def prog_simps c [simplified] Let_def)
  next
    case False
    then have "write_cell o1 (length d + 1) 0 = Inl OutOfBounds" using o1(3) by (simp add: write_cell_def)
    with False o1 show ?thesis
      using assms(2) a by (simp add: hmac_sha256_wrapped_def prog_simps c [simplified] Let_def)
  qed
qed

text \<open>C10. Base64 there and back, over a library that keeps its documented contract on this input
  (four characters for every three bytes begun, and decoding gives the bytes padded with zeros to
  a multiple of three). Encoding writes past its array unless there is room for one byte more, the
  NUL the library adds. The decoder does not take the padding off: the result is the input with up
  to two zero bytes after it, so it is the input only when its length is a multiple of three.\<close>

theorem crypt_base64_roundtrip:
  assumes "allocates usable os" and "0 \<notin> set (encode_block ssl x)"
    and "length (encode_block ssl x) = 4 * ((length x + 2) div 3)"
    and "decode_block ssl (encode_block ssl x) = Some (x @ replicate (3 * ((length x + 2) div 3) - length x) 0)"
  shows "fst (base64_encode_wrapped ssl os [JBuffer x] []) =
      (if usable (4 * ((length x + 2) div 3)) > 4 * ((length x + 2) div 3)
       then Value (JString (encode_block ssl x)) else Fault OutOfBounds)
    \<and> fst (base64_decode_wrapped ssl os [JString (encode_block ssl x)] []) =
        Value (JBuffer (x @ replicate (3 * ((length x + 2) div 3) - length x) 0))
    \<and> (x @ replicate (3 * ((length x + 2) div 3) - length x) (0 :: byte) = x \<longleftrightarrow> 3 dvd length x)"
proof (intro conjI)
  note a = allocates_answers [OF assms(1)]
  let ?k = "(length x + 2) div 3" and ?e = "encode_block ssl x"
  have g: "janet_getbuffer [JBuffer x] 0 = Inr x" "janet_getcstring [JString ?e] 0 = Inr ?e"
    using assms(2) by (simp_all add: janet_getbuffer_def janet_getcstring_def)
  have n: "length x div 3 * 4 + (if length x mod 3 \<noteq> 0 then 4 else 0) = 4 * ?k" by presburger
  have h: "holds (malloc_block m :: byte block) []" for m by simp
  obtain data where d: "write_cells (malloc_block (usable (length x))) 0 x = Inr data" "read_cells data 0 (length x) = Inr x"
    using holds_write_cells_end [OF h [of "usable (length x)"], of x] a(4) [of "length x"] holds_whole by fastforce
  show "fst (base64_encode_wrapped ssl os [JBuffer x] []) =
      (if usable (4 * ?k) > 4 * ?k then Value (JString ?e) else Fault OutOfBounds)"
  proof (cases "usable (4 * ?k) > 4 * ?k")
    case True
    then obtain e2 where e2: "write_cells (malloc_block (usable (4 * ?k))) 0 (?e @ [0]) = Inr e2" "holds e2 (?e @ [0])"
      using holds_write_cells_end [OF h [of "usable (4 * ?k)"], of "?e @ [0]"] assms(3) by auto
    have "read_cells e2 0 (4 * ?k) = Inr ?e"
      using holds_whole [OF holds_prefix [OF e2(2)]] assms(3) by simp
    with True e2(1) d show ?thesis
      using a n assms(3) by (simp add: base64_encode_wrapped_def prog_simps g Let_def del: mult_Suc)
  next
    case False
    then have "write_cells (malloc_block (usable (4 * ?k))) 0 (?e @ [0]) = Inl OutOfBounds"
      using assms(3) by (simp add: write_cells_def)
    with False d show ?thesis
      using a n assms(3) by (simp add: base64_encode_wrapped_def prog_simps g Let_def del: mult_Suc)
  qed
  let ?p = "x @ replicate (3 * ?k - length x) 0"
  have lp: "length ?p = 3 * ?k" by simp
  have b: "length ?e div 4 * 3 + (if length ?e mod 4 \<noteq> 0 then 3 else 0) = 3 * ?k" using assms(3) by simp
  obtain o1 where o1: "write_cells (malloc_block (usable (3 * ?k))) 0 ?p = Inr o1" "read_cells o1 0 (3 * ?k) = Inr ?p"
    using holds_write_cells_end [OF h [of "usable (3 * ?k)"], of ?p] a(4) [of "3 * ?k"] lp holds_whole by fastforce
  show "fst (base64_decode_wrapped ssl os [JString ?e] []) = Value (JBuffer ?p)"
    using a b o1 assms(4) by (simp add: base64_decode_wrapped_def prog_simps g Let_def)
  show "?p = x \<longleftrightarrow> 3 dvd length x" by simp presburger
qed

subsection \<open>Witnesses\<close>

definition rounding_os :: "mem" where
  "rounding_os tr c = (case c of Malloc n \<Rightarrow> Some (16 * (n div 16 + 1)) | StackArray n \<Rightarrow> Some (16 * (n div 16 + 1)) | _ \<Rightarrow> Some 0)"

definition exact_os :: "mem" where
  "exact_os tr c = (case c of Malloc n \<Rightarrow> Some n | StackArray n \<Rightarrow> Some n | _ \<Rightarrow> Some 0)"

definition demo_ssl :: openssl where
  "demo_ssl = \<lparr>md_init = True, md_update = (\<lambda>_. True), md_final = (\<lambda>m. Some [0xBA, 0x78, 0x16]),
     hmac = (\<lambda>k m. Some [0xF7, 0xBC]),
     encode_block = (\<lambda>x. if x = [77, 97] then bs ''TWE='' else bs ''TWFu''),
     decode_block = (\<lambda>e. if e = bs ''TWE='' then Some [77, 97, 0] else Some [77, 97, 110])\<rparr>"

lemma demo_allocates:
  "allocates (\<lambda>n. 16 * (n div 16 + 1)) rounding_os" "allocates (\<lambda>n. n) exact_os"
  by (auto simp: allocates_def rounding_os_def exact_os_def)

theorem crypt_sha256_witness:
  "fst (sha256_wrapped demo_ssl rounding_os [JString (bs ''abc'')] []) = Value (JString (bs ''ba7816''))
   \<and> fst (sha256_wrapped demo_ssl exact_os [JString (bs ''abc'')] []) = Fault OutOfBounds"
  using crypt_sha256 [OF demo_allocates(1), of demo_ssl "bs ''abc''" "[0xBA, 0x78, 0x16]" "[]"]
    crypt_sha256 [OF demo_allocates(2), of demo_ssl "bs ''abc''" "[0xBA, 0x78, 0x16]" "[]"]
  by (simp add: demo_ssl_def bs_def fmt_02x_def hex_char_def)

theorem crypt_hmac_witness:
  "fst (hmac_sha256_hex_wrapped demo_ssl rounding_os [JString (bs ''k''), JString (bs ''m'')] []) = Value (JString (bs ''f7bc''))
   \<and> fst (hmac_sha256_wrapped demo_ssl rounding_os [JString (bs ''k''), JString (bs ''m'')] []) = Value (JBuffer [0xF7, 0xBC, 0])
   \<and> fst (hmac_sha256_wrapped demo_ssl exact_os [JString (bs ''k''), JString (bs ''m'')] []) = Fault OutOfBounds"
  using crypt_hmac [OF demo_allocates(1), of demo_ssl "bs ''k''" "bs ''m''" "[0xF7, 0xBC]"]
    crypt_hmac [OF demo_allocates(2), of demo_ssl "bs ''k''" "bs ''m''" "[0xF7, 0xBC]"]
  by (simp add: demo_ssl_def bs_def fmt_02x_def hex_char_def)

theorem crypt_base64_roundtrip_witness:
  "fst (base64_encode_wrapped demo_ssl rounding_os [JBuffer [77, 97]] []) = Value (JString (bs ''TWE=''))
   \<and> fst (base64_encode_wrapped demo_ssl exact_os [JBuffer [77, 97]] []) = Fault OutOfBounds
   \<and> fst (base64_decode_wrapped demo_ssl exact_os [JString (bs ''TWE='')] []) = Value (JBuffer [77, 97, 0])"
  using crypt_base64_roundtrip [OF demo_allocates(1), of demo_ssl "[77, 97]"]
    crypt_base64_roundtrip [OF demo_allocates(2), of demo_ssl "[77, 97]"]
  by (simp add: demo_ssl_def bs_def)

end
