(* ===== verification/Interfaces.thy ===== *)
theory Interfaces
  imports Prelude
begin

text \<open>
  The interfaces several components share, as locales: what a client may rely on, and the lemmas
  every client gets from it. Each is interpreted on the model's own definitions in the theory of
  the component that provides it.
\<close>

lemma find_append: "find P (xs @ ys) = (case find P xs of Some x \<Rightarrow> Some x | None \<Rightarrow> find P ys)"
  by (induction xs) auto

subsection \<open>Dictionaries\<close>

text \<open>
  A keyed store: \<open>lookup\<close> and \<open>insert\<close> on states that satisfy \<open>inv\<close>. The
  keys the store accepts are those with \<open>ok\<close>.
\<close>

locale dictionary =
  fixes lookup :: "'s \<Rightarrow> 'k \<Rightarrow> 'v option"
    and insert_kv :: "'k \<Rightarrow> 'v \<Rightarrow> 's \<Rightarrow> 's"
    and inv :: "'s \<Rightarrow> bool"
    and ok :: "'k \<Rightarrow> bool"
  assumes inv_insert: "inv s \<Longrightarrow> ok k \<Longrightarrow> inv (insert_kv k v s)"
    and lookup_insert: "inv s \<Longrightarrow> ok k \<Longrightarrow> lookup (insert_kv k v s) = (lookup s)(k \<mapsto> v)"
begin

lemma lookup_insert_same: "inv s \<Longrightarrow> ok k \<Longrightarrow> lookup (insert_kv k v s) k = Some v"
  by (simp add: lookup_insert)

lemma lookup_insert_other: "inv s \<Longrightarrow> ok k \<Longrightarrow> j \<noteq> k \<Longrightarrow> lookup (insert_kv k v s) j = lookup s j"
  by (simp add: lookup_insert)

text \<open>Inserting a list of pairs from the left: the last binding of a key wins.\<close>

lemma lookup_fold_insert:
  assumes "inv s" and "\<forall>kv \<in> set kvs. ok (fst kv)"
  shows "inv (fold (\<lambda>(k, v). insert_kv k v) kvs s)
       \<and> lookup (fold (\<lambda>(k, v). insert_kv k v) kvs s) = lookup s ++ map_of (rev kvs)"
  using assms
proof (induction kvs arbitrary: s)
  case Nil
  then show ?case by simp
next
  case (Cons kv kvs)
  obtain k v where kv: "kv = (k, v)" by (cases kv)
  with Cons.prems have "inv (insert_kv k v s)" and ok: "ok k"
    by (auto intro: inv_insert)
  with Cons.IH [of "insert_kv k v s"] Cons.prems kv
  have *: "inv (fold (\<lambda>(k, v). insert_kv k v) kvs (insert_kv k v s))"
      "lookup (fold (\<lambda>(k, v). insert_kv k v) kvs (insert_kv k v s)) = lookup (insert_kv k v s) ++ map_of (rev kvs)"
    by auto
  moreover have "lookup (insert_kv k v s) ++ map_of (rev kvs) = lookup s ++ map_of (rev kvs @ [(k, v)])"
    using Cons.prems(1) ok by (auto simp: lookup_insert map_add_def fun_eq_iff split: option.splits)
  ultimately show ?case by (simp add: kv)
qed

end

text \<open>
  The same contract up to an equality test on keys that need not be identity, with a total lookup
  and with a limit: \<open>stored v\<close> is what a lookup shows of the value \<open>v\<close> (a
  store whose \<open>nil\<close> means absence shows it as it is), and \<open>space s n\<close> says
  that \<open>n\<close> more insertions are sure to succeed.
\<close>

locale keyed_store =
  fixes lookup :: "'s \<Rightarrow> 'k \<Rightarrow> 'r"
    and insert_kv :: "'k \<Rightarrow> 'v \<Rightarrow> 's \<Rightarrow> 's"
    and inv :: "'s \<Rightarrow> bool"
    and ok :: "'k \<Rightarrow> bool"
    and eq :: "'k \<Rightarrow> 'k \<Rightarrow> bool"
    and stored :: "'v \<Rightarrow> 'r"
    and space :: "'s \<Rightarrow> nat \<Rightarrow> bool"
  assumes inv_insert_kv: "inv s \<Longrightarrow> ok k \<Longrightarrow> space s (Suc n) \<Longrightarrow> inv (insert_kv k v s) \<and> space (insert_kv k v s) n"
    and lookup_insert_kv: "inv s \<Longrightarrow> ok k \<Longrightarrow> space s (Suc n)
      \<Longrightarrow> lookup (insert_kv k v s) j = (if eq j k then stored v else lookup s j)"
begin

definition insert_all :: "('k \<times> 'v) list \<Rightarrow> 's \<Rightarrow> 's" where
  "insert_all kvs s = fold (\<lambda>(k, v). insert_kv k v) kvs s"

lemma insert_all_simps [simp]:
  "insert_all [] s = s"
  "insert_all (kv # kvs) s = insert_all kvs (insert_kv (fst kv) (snd kv) s)"
  by (simp_all add: insert_all_def split_def)

lemma inv_insert_all:
  "inv s \<Longrightarrow> space s (length kvs) \<Longrightarrow> \<forall>kv \<in> set kvs. ok (fst kv) \<Longrightarrow> inv (insert_all kvs s)"
  by (induction kvs arbitrary: s) (simp_all add: inv_insert_kv)

text \<open>The last pair whose key the test accepts decides.\<close>

lemma lookup_insert_all:
  assumes "inv s" and "space s (length kvs)" and "\<forall>kv \<in> set kvs. ok (fst kv)"
  shows "lookup (insert_all kvs s) j =
    (case find (\<lambda>kv. eq j (fst kv)) (rev kvs) of Some kv \<Rightarrow> stored (snd kv) | None \<Rightarrow> lookup s j)"
  using assms
proof (induction kvs arbitrary: s)
  case Nil
  then show ?case by simp
next
  case (Cons kv kvs)
  then have sp: "space s (Suc (length kvs))" and ok: "ok (fst kv)" by simp_all
  note i = inv_insert_kv [OF Cons.prems(1) ok sp, THEN conjunct1] inv_insert_kv [OF Cons.prems(1) ok sp, THEN conjunct2]
  have "lookup (insert_all (kv # kvs) s) j =
      (case find (\<lambda>kv. eq j (fst kv)) (rev kvs) of Some kv \<Rightarrow> stored (snd kv)
       | None \<Rightarrow> if eq j (fst kv) then stored (snd kv) else lookup s j)"
    using Cons.IH [OF i] Cons.prems(3) lookup_insert_kv [OF Cons.prems(1) ok sp]
    by (simp split: option.splits)
  then show ?case by (cases kv) (simp add: find_append split: option.splits)
qed

end

sublocale dictionary \<subseteq> keyed: keyed_store lookup insert_kv inv ok "(=)" Some "\<lambda>_ _. True"
  by unfold_locales (auto simp: inv_insert lookup_insert)

subsection \<open>Growable sequences\<close>

text \<open>
  A sequence that grows at its end up to \<open>limit\<close> elements: \<open>contents\<close> is the
  list a well-formed state stands for.
\<close>

locale growable =
  fixes contents :: "'s \<Rightarrow> 'a list"
    and append_to :: "'a list \<Rightarrow> 's \<Rightarrow> 's"
    and inv :: "'s \<Rightarrow> bool"
    and limit :: nat
  assumes append_law: "inv s \<Longrightarrow> length (contents s) + length xs \<le> limit
      \<Longrightarrow> inv (append_to xs s) \<and> contents (append_to xs s) = contents s @ xs"
begin

lemma append_each:
  assumes "inv s" and "length (contents s) + length (concat xss) \<le> limit"
  shows "inv (fold append_to xss s) \<and> contents (fold append_to xss s) = contents s @ concat xss"
  using assms
proof (induction xss arbitrary: s)
  case Nil
  then show ?case by simp
next
  case (Cons xs xss)
  have "inv (append_to xs s)" "contents (append_to xs s) = contents s @ xs"
    using append_law [OF Cons.prems(1)] Cons.prems(2) by simp_all
  with Cons.IH [of "append_to xs s"] Cons.prems(2) show ?case by simp
qed

text \<open>Appending piece by piece is appending at once.\<close>

lemma append_pieces:
  assumes "inv s" and "length (contents s) + length (concat xss) \<le> limit"
  shows "contents (fold append_to xss s) = contents (append_to (concat xss) s)"
  using append_each [OF assms] append_law [OF assms] by simp

end

end
