(* ===== verification/Pobox.thy ===== *)
theory Pobox
  imports Value Interfaces
begin

text \<open>
  \<^verbatim>\<open>src/pobox.c\<close>: the process-wide key/value store behind
  \<^verbatim>\<open>com.ahungry.conc.atom\<close>. The \<open>office\<close> is a singly linked list of nodes,
  in list order here, whose head is a sentinel with static empty key and value; one spin lock
  guards it. \<open>malloc\<close> is modelled by the parameter \<open>usable\<close>: a request for
  \<open>n\<close> bytes returns a block of \<open>usable n\<close> cells. C promises only
  \<open>n \<le> usable n\<close>; several writes of this file go one byte past the request.
\<close>

subsection \<open>Data\<close>

record office_t =
  node_k :: "byte block"
  node_v :: "byte block"
  node_klen :: nat
  node_vlen :: nat
  v_static :: bool \<comment> \<open>the value is a string literal, not a malloc block\<close>

record pobox =
  office :: "office_t list option" \<comment> \<open>\<open>None\<close>: the pointer is NULL\<close>
  lock :: bool \<comment> \<open>the spin lock is held\<close>

datatype outcome =
    Returned janet
  | Panicked panic
  | Crashed fault
  | Blocked \<comment> \<open>spins on the lock\<close>

subsection \<open>Helpers\<close>

definition buffer_to_bytes :: "(nat \<Rightarrow> nat) \<Rightarrow> bytes \<Rightarrow> fault + byte block" where
  "buffer_to_bytes usable buf =
     rbind (write_cells (malloc_block (usable (length buf))) 0 buf) (\<lambda>w.
     write_cell w (length buf) 0)"

fun bytecmp_loop :: "byte block \<Rightarrow> byte block \<Rightarrow> nat \<Rightarrow> nat \<Rightarrow> fault + int" where
  "bytecmp_loop a b i 0 = Inr 0"
| "bytecmp_loop a b i (Suc m) =
     rbind (read_cell a i) (\<lambda>x. rbind (read_cell b i) (\<lambda>y.
       if x \<noteq> y then Inr 1 else bytecmp_loop a b (Suc i) m))"

definition bytecmp :: "byte block \<Rightarrow> nat \<Rightarrow> byte block \<Rightarrow> nat \<Rightarrow> fault + int" where
  "bytecmp a alen b blen = (if alen \<noteq> blen then Inr 1 else bytecmp_loop a b 0 alen)"

text \<open>The sentinel: key and value are the literal \<open>""\<close>, one cell holding NUL.\<close>

definition sentinel :: office_t where
  "sentinel = \<lparr>node_k = [Some 0], node_v = [Some 0], node_klen = 0, node_vlen = 0, v_static = True\<rparr>"

definition ensure_office :: "pobox \<Rightarrow> pobox" where
  "ensure_office st = (case office st of
     None \<Rightarrow> st\<lparr>office := Some [sentinel], lock := False\<rparr>
   | Some _ \<Rightarrow> st)"

text \<open>The do-while over the chain: position of the first node with an equal key.\<close>

fun find_node :: "office_t list \<Rightarrow> byte block \<Rightarrow> nat \<Rightarrow> fault + nat option" where
  "find_node [] key n = Inr None"
| "find_node (node # rest) key n =
     rbind (bytecmp (node_k node) (node_klen node) key n) (\<lambda>r.
       if r = 0 then Inr (Some 0)
       else rbind (find_node rest key n) (\<lambda>p. Inr (map_option Suc p)))"

definition table_get :: "(nat \<Rightarrow> nat) \<Rightarrow> pobox \<Rightarrow> bytes \<Rightarrow> fault + office_t option" where
  "table_get usable st kb =
     rbind (buffer_to_bytes usable kb) (\<lambda>key.
     case office st of
       None \<Rightarrow> Inl NullDeref
     | Some chain \<Rightarrow>
         rbind (find_node chain key (length kb)) (\<lambda>p. Inr (map_option (nth chain) p)))"

text \<open>The two branches of \<open>table_put\<close>: replace the value of a node, append a node.\<close>

definition replace_value :: "(nat \<Rightarrow> nat) \<Rightarrow> office_t \<Rightarrow> bytes \<Rightarrow> fault + office_t" where
  "replace_value usable node vb =
     (if v_static node then Inl InvalidFree
      else rbind (write_cells (malloc_block (usable (length vb))) 0 vb) (\<lambda>w.
           Inr (node\<lparr>node_v := w, node_vlen := length vb\<rparr>)))"

definition new_node :: "(nat \<Rightarrow> nat) \<Rightarrow> bytes \<Rightarrow> bytes \<Rightarrow> fault + office_t" where
  "new_node usable kb vb =
     rbind (write_cells (malloc_block (usable (length kb))) 0 kb) (\<lambda>w.
     rbind (write_cell w (length kb) 0) (\<lambda>key.
     rbind (write_cells (malloc_block (usable (length vb))) 0 vb) (\<lambda>x.
     rbind (write_cell x (length vb) 0) (\<lambda>val.
       Inr \<lparr>node_k = key, node_v = val, node_klen = length kb, node_vlen = length vb, v_static = False\<rparr>))))"

definition table_put :: "(nat \<Rightarrow> nat) \<Rightarrow> pobox \<Rightarrow> bytes \<Rightarrow> bytes \<Rightarrow> fault + pobox" where
  "table_put usable st kb vb =
     rbind (buffer_to_bytes usable kb) (\<lambda>key.
     rbind (buffer_to_bytes usable vb) (\<lambda>val.
     case office st of
       None \<Rightarrow> Inl NullDeref
     | Some chain \<Rightarrow>
         rbind (find_node chain key (length kb)) (\<lambda>p.
         case p of
           Some i \<Rightarrow> rbind (replace_value usable (chain ! i) vb) (\<lambda>node.
                       Inr (st\<lparr>office := Some (chain[i := node])\<rparr>))
         | None \<Rightarrow> rbind (new_node usable kb vb) (\<lambda>node.
                       Inr (st\<lparr>office := Some (chain @ [node])\<rparr>)))))"

definition make_box :: "(nat \<Rightarrow> nat) \<Rightarrow> pobox \<Rightarrow> bytes \<Rightarrow> bytes \<Rightarrow> fault + pobox" where
  "make_box usable st kb vb = table_put usable st kb vb"

subsection \<open>The native functions\<close>

text \<open>
  Each function is split at the lock: the body is what runs while the lock is held, up to and
  including \<open>pthread_spin_unlock\<close>. A panic is a \<open>longjmp\<close>: it leaves the
  function where it stands, lock included.
\<close>

definition get_body :: "(nat \<Rightarrow> nat) \<Rightarrow> janet list \<Rightarrow> pobox \<Rightarrow> outcome \<times> pobox" where
  "get_body usable argv st =
     (case janet_getbuffer argv 0 of Inl p \<Rightarrow> (Panicked p, st) | Inr kb \<Rightarrow>
      case table_get usable st kb of
        Inl f \<Rightarrow> (Crashed f, st)
      | Inr None \<Rightarrow> (Returned JNil, st)
      | Inr (Some t) \<Rightarrow>
          (case read_cells (node_v t) 0 (node_vlen t) of
             Inl f \<Rightarrow> (Crashed f, st)
           | Inr buf \<Rightarrow> (Returned (JBuffer buf), st\<lparr>lock := False\<rparr>)))"

definition get_wrapped :: "(nat \<Rightarrow> nat) \<Rightarrow> janet list \<Rightarrow> pobox \<Rightarrow> outcome \<times> pobox" where
  "get_wrapped usable argv st =
     (case janet_fixarity (length argv) 1 of Inl p \<Rightarrow> (Panicked p, st) | Inr _ \<Rightarrow>
      if lock st then (Blocked, st) else get_body usable argv (st\<lparr>lock := True\<rparr>))"

text \<open>
  \<open>call\<close> stands for \<open>janet_call\<close>: it runs the Janet function on one argument,
  in the current state, and may itself come back to this module.
\<close>

definition update_body ::
  "(nat \<Rightarrow> nat) \<Rightarrow> (nat \<Rightarrow> janet \<Rightarrow> pobox \<Rightarrow> outcome \<times> pobox) \<Rightarrow> janet list \<Rightarrow> pobox \<Rightarrow> outcome \<times> pobox" where
  "update_body usable call argv st =
     (case janet_fixarity (length argv) 2 of Inl p \<Rightarrow> (Panicked p, st) | Inr _ \<Rightarrow>
      case janet_getfunction argv 1 of Inl p \<Rightarrow> (Panicked p, st) | Inr f \<Rightarrow>
      case janet_getbuffer argv 0 of Inl p \<Rightarrow> (Panicked p, st) | Inr kb \<Rightarrow>
      case table_get usable st kb of
        Inl e \<Rightarrow> (Crashed e, st)
      | Inr None \<Rightarrow> (Crashed NullDeref, st)
      | Inr (Some t) \<Rightarrow>
          (case read_cells (node_v t) 0 (node_vlen t) of Inl e \<Rightarrow> (Crashed e, st) | Inr buf \<Rightarrow>
           (case call f (JBuffer buf) st of
              (Returned (JBuffer vb), st2) \<Rightarrow>
                (case make_box usable st2 kb vb of
                   Inl e \<Rightarrow> (Crashed e, st2)
                 | Inr st3 \<Rightarrow> (Returned (JBool True), st3\<lparr>lock := False\<rparr>))
            | (Returned _, st2) \<Rightarrow> (Crashed BadCast, st2)
            | (oc, st2) \<Rightarrow> (oc, st2))))"

definition update_wrapped ::
  "(nat \<Rightarrow> nat) \<Rightarrow> (nat \<Rightarrow> janet \<Rightarrow> pobox \<Rightarrow> outcome \<times> pobox) \<Rightarrow> janet list \<Rightarrow> pobox \<Rightarrow> outcome \<times> pobox" where
  "update_wrapped usable call argv st =
     (if lock st then (Blocked, st) else update_body usable call argv (st\<lparr>lock := True\<rparr>))"

definition make_body :: "(nat \<Rightarrow> nat) \<Rightarrow> janet list \<Rightarrow> pobox \<Rightarrow> outcome \<times> pobox" where
  "make_body usable argv st =
     (case janet_getbuffer argv 0 of Inl p \<Rightarrow> (Panicked p, st) | Inr kb \<Rightarrow>
      case janet_getbuffer argv 1 of Inl p \<Rightarrow> (Panicked p, st) | Inr vb \<Rightarrow>
      case make_box usable st kb vb of
        Inl f \<Rightarrow> (Crashed f, st)
      | Inr st2 \<Rightarrow> (Returned (JBool True), st2\<lparr>lock := False\<rparr>))"

definition make_wrapped :: "(nat \<Rightarrow> nat) \<Rightarrow> janet list \<Rightarrow> pobox \<Rightarrow> outcome \<times> pobox" where
  "make_wrapped usable argv st =
     (case janet_fixarity (length argv) 2 of Inl p \<Rightarrow> (Panicked p, st) | Inr _ \<Rightarrow>
      if lock st then (Blocked, st) else make_body usable argv (st\<lparr>lock := True\<rparr>))"

subsection \<open>Representation invariant and abstraction\<close>

definition node_key :: "office_t \<Rightarrow> bytes" where
  "node_key n = map the (take (node_klen n) (node_k n))"

definition node_val :: "office_t \<Rightarrow> bytes" where
  "node_val n = map the (take (node_vlen n) (node_v n))"

definition node_wf :: "office_t \<Rightarrow> bool" where
  "node_wf n \<longleftrightarrow> holds (node_k n) (node_key n) \<and> length (node_key n) = node_klen n
    \<and> holds (node_v n) (node_val n) \<and> length (node_val n) = node_vlen n"

definition chain_wf :: "office_t list \<Rightarrow> bool" where
  "chain_wf c \<longleftrightarrow> (\<exists>rest. c = sentinel # rest \<and> (\<forall>n \<in> set rest. node_wf n \<and> \<not> v_static n)
     \<and> distinct (map node_key c))"

definition pobox_wf :: "pobox \<Rightarrow> bool" where
  "pobox_wf st \<longleftrightarrow> (\<exists>c. office st = Some c \<and> chain_wf c)"

definition chain_map :: "office_t list \<Rightarrow> bytes \<rightharpoonup> bytes" where
  "chain_map c = map_of (map (\<lambda>n. (node_key n, node_val n)) c)"

definition pobox_map :: "pobox \<Rightarrow> bytes \<rightharpoonup> bytes" where
  "pobox_map st = (case office st of None \<Rightarrow> Map.empty | Some c \<Rightarrow> chain_map c)"

text \<open>The allocator leaves at least one cell after every request.\<close>

definition slack :: "(nat \<Rightarrow> nat) \<Rightarrow> bool" where
  "slack usable \<longleftrightarrow> (\<forall>n. n < usable n)"

lemma holds_the: "holds b xs \<Longrightarrow> map the (take (length xs) b) = xs"
  by (simp add: holds_take comp_def)

lemma node_sentinel [simp]:
  "node_key sentinel = []" "node_val sentinel = []" "node_wf sentinel"
  by (simp_all add: node_key_def node_val_def node_wf_def sentinel_def)

lemma bytecmp_loop_eq:
  assumes "holds a xs" and "holds b ys" and "i + m = length xs" and "length xs = length ys"
  shows "bytecmp_loop a b i m = Inr (if drop i xs = drop i ys then 0 else 1)"
  using assms(3)
proof (induction m arbitrary: i)
  case 0
  with assms(4) show ?case by simp
next
  case (Suc m)
  then have i: "i < length xs" "i < length ys" using assms(4) by auto
  with assms have "read_cell a i = Inr (xs ! i)" "read_cell b i = Inr (ys ! i)"
    by (simp_all add: holds_read_cell)
  moreover have "drop i xs = xs ! i # drop (Suc i) xs" "drop i ys = ys ! i # drop (Suc i) ys"
    using i by (simp_all add: Cons_nth_drop_Suc)
  ultimately show ?case using Suc by simp
qed

lemma bytecmp_eq:
  "holds a xs \<Longrightarrow> holds b ys \<Longrightarrow>
   bytecmp a (length xs) b (length ys) = Inr (if xs = ys then 0 else 1)"
  using bytecmp_loop_eq [of a xs b ys 0 "length xs"] by (auto simp: bytecmp_def)

fun key_index :: "bytes \<Rightarrow> office_t list \<Rightarrow> nat option" where
  "key_index kb [] = None"
| "key_index kb (n # c) = (if node_key n = kb then Some 0 else map_option Suc (key_index kb c))"

lemma key_index_None: "key_index kb c = None \<longleftrightarrow> kb \<notin> node_key ` set c"
  by (induction c) auto

lemma key_index_Some: "key_index kb c = Some i \<Longrightarrow> i < length c \<and> node_key (c ! i) = kb"
  by (induction c arbitrary: i) (auto split: if_splits)

lemma chain_map_key_index:
  "chain_map c kb = map_option (\<lambda>i. node_val (c ! i)) (key_index kb c)"
  by (induction c) (auto simp: chain_map_def option.map_comp comp_def)

lemma find_node_eq:
  assumes "\<forall>n \<in> set c. node_wf n" and "holds key kb"
  shows "find_node c key (length kb) = Inr (key_index kb c)"
  using assms(1)
proof (induction c)
  case Nil
  then show ?case by simp
next
  case (Cons n c)
  then have "holds (node_k n) (node_key n)" and "length (node_key n) = node_klen n"
    by (auto simp: node_wf_def)
  with bytecmp_eq [OF this(1) assms(2)]
  have b: "bytecmp (node_k n) (node_klen n) key (length kb) = Inr (if node_key n = kb then 0 else 1)"
    by simp
  with Cons show ?case by auto
qed

lemma chain_wf_nodes: "chain_wf c \<Longrightarrow> \<forall>n \<in> set c. node_wf n"
  by (auto simp: chain_wf_def)

subsection \<open>The allocations\<close>

lemma malloc_write:
  assumes "length xs \<le> usable (length xs)"
  shows "\<exists>w. write_cells (malloc_block (usable (length xs))) 0 xs = Inr w
    \<and> holds w xs \<and> length w = usable (length xs)"
  using holds_write_cells_end [of "malloc_block (usable (length xs))" "[]" xs] assms by simp

text \<open>\<open>malloc (n)\<close>, \<open>memcpy\<close> of \<open>n\<close> bytes, then a NUL at index \<open>n\<close>:
  works exactly when the allocator returned more than was asked for.\<close>

lemma malloc_write_nul:
  assumes "length xs < usable (length xs)"
  shows "\<exists>w. rbind (write_cells (malloc_block (usable (length xs))) 0 xs) (\<lambda>w.
      write_cell w (length xs) 0) = Inr w \<and> holds w xs"
proof -
  from malloc_write [of xs usable] assms obtain w where w:
      "write_cells (malloc_block (usable (length xs))) 0 xs = Inr w" "holds w xs" "length w = usable (length xs)"
    by (auto simp: less_imp_le)
  with holds_write_cell_end [of w xs 0] assms obtain w' where
      "write_cell w (length xs) 0 = Inr w'" "holds w' (xs @ [0])" by auto
  with w show ?thesis by (auto intro: holds_prefix)
qed

lemma buffer_to_bytes_ok:
  "length buf < usable (length buf) \<Longrightarrow> \<exists>w. buffer_to_bytes usable buf = Inr w \<and> holds w buf"
  using malloc_write_nul [of buf usable] by (simp add: buffer_to_bytes_def)

lemma buffer_to_bytes_exact:
  assumes "usable (length buf) = length buf"
  shows "buffer_to_bytes usable buf = Inl OutOfBounds"
proof -
  from malloc_write [of buf usable] assms obtain w where
      "write_cells (malloc_block (usable (length buf))) 0 buf = Inr w" "length w = length buf" by auto
  then show ?thesis by (simp add: buffer_to_bytes_def write_cell_def)
qed

lemma new_node_ok:
  assumes "slack usable"
  shows "\<exists>n. new_node usable kb vb = Inr n \<and> node_wf n \<and> \<not> v_static n
    \<and> node_key n = kb \<and> node_val n = vb"
proof -
  obtain wk where wk: "rbind (write_cells (malloc_block (usable (length kb))) 0 kb)
      (\<lambda>w. write_cell w (length kb) 0) = Inr wk" "holds wk kb"
    using malloc_write_nul [of kb usable] assms by (auto simp: slack_def)
  obtain wv where wv: "rbind (write_cells (malloc_block (usable (length vb))) 0 vb)
      (\<lambda>w. write_cell w (length vb) 0) = Inr wv" "holds wv vb"
    using malloc_write_nul [of vb usable] assms by (auto simp: slack_def)
  have "new_node usable kb vb = Inr \<lparr>node_k = wk, node_v = wv, node_klen = length kb,
      node_vlen = length vb, v_static = False\<rparr>"
    using wk(1) wv(1) by (auto simp: new_node_def rbind_eq_Inr)
  then show ?thesis
    using wk(2) wv(2) by (auto simp: node_wf_def node_key_def node_val_def holds_the holds_min)
qed

lemma replace_value_ok:
  assumes "slack usable" and "node_wf n" and "\<not> v_static n"
  shows "\<exists>m. replace_value usable n vb = Inr m \<and> node_wf m \<and> \<not> v_static m
    \<and> node_key m = node_key n \<and> node_val m = vb"
proof -
  from malloc_write [of vb usable] assms(1) obtain w where w:
      "write_cells (malloc_block (usable (length vb))) 0 vb = Inr w" "holds w vb"
    by (auto simp: slack_def less_imp_le)
  then show ?thesis
    using assms(2,3)
    by (auto simp: replace_value_def node_wf_def node_key_def node_val_def holds_the holds_min)
qed

subsection \<open>Lookup and insertion refine a map\<close>

lemma table_get_eq:
  assumes "slack usable" and "office st = Some c" and "chain_wf c"
  shows "table_get usable st kb = Inr (map_option (nth c) (key_index kb c))"
proof -
  from buffer_to_bytes_ok [of kb usable] assms(1) obtain w where
      "buffer_to_bytes usable kb = Inr w" "holds w kb" by (auto simp: slack_def)
  with find_node_eq [OF chain_wf_nodes [OF assms(3)], of w kb] assms(2)
  show ?thesis by (simp add: table_get_def)
qed

lemma key_index_update:
  "i < length c \<Longrightarrow> node_key m = node_key (c ! i) \<Longrightarrow> key_index kb (c[i := m]) = key_index kb c"
  by (induction c arbitrary: i) (auto split: nat.splits)

lemma map_node_key_update:
  "i < length c \<Longrightarrow> node_key m = node_key (c ! i) \<Longrightarrow> map node_key (c[i := m]) = map node_key c"
  by (simp add: map_update list_update_same_conv)

lemma chain_map_update:
  assumes "distinct (map node_key c)" and "i < length c" and "node_key m = node_key (c ! i)"
  shows "chain_map (c[i := m]) = (chain_map c)(node_key (c ! i) \<mapsto> node_val m)"
proof
  fix x
  have inj: "key_index x c = Some i \<longleftrightarrow> x = node_key (c ! i)"
  proof
    assume "x = node_key (c ! i)"
    then have "key_index x c \<noteq> None" using assms(2) by (auto simp: key_index_None)
    then obtain j where j: "key_index x c = Some j" by blast
    from key_index_Some [OF j] have "map node_key c ! j = map node_key c ! i" "j < length c"
      using assms(2) \<open>x = _\<close> by simp_all
    with assms(1,2) have "j = i" by (metis distinct_conv_nth length_map)
    with j show "key_index x c = Some i" by simp
  qed (auto dest: key_index_Some)
  show "chain_map (c[i := m]) x = ((chain_map c)(node_key (c ! i) \<mapsto> node_val m)) x"
  proof (cases "key_index x c")
    case None
    with inj assms(2,3) show ?thesis by (auto simp: chain_map_key_index key_index_update)
  next
    case (Some j)
    with inj assms(2,3) show ?thesis
      by (cases "j = i") (auto simp: chain_map_key_index key_index_update)
  qed
qed

lemma chain_map_append: "node_key m \<notin> node_key ` set c \<Longrightarrow>
    chain_map (c @ [m]) = (chain_map c)(node_key m \<mapsto> node_val m)"
  by (auto simp: chain_map_def fun_eq_iff map_add_def split: option.splits
      dest!: map_of_SomeD)

lemma chain_wf_update:
  assumes "chain_wf c" and "0 < i" and "i < length c" and "node_wf m" and "\<not> v_static m"
    and "node_key m = node_key (c ! i)"
  shows "chain_wf (c[i := m])"
proof -
  from assms(1) obtain rest where c: "c = sentinel # rest"
      and r: "\<forall>n \<in> set rest. node_wf n \<and> \<not> v_static n" and d: "distinct (map node_key c)"
    by (auto simp: chain_wf_def)
  obtain j where j: "i = Suc j" using assms(2) by (cases i) auto
  have "c[i := m] = sentinel # rest[j := m]" by (simp add: c j)
  moreover have "\<forall>n \<in> set (rest[j := m]). node_wf n \<and> \<not> v_static n"
    using r assms(4,5) set_update_subset_insert [of rest j m] by blast
  moreover have "distinct (map node_key (c[i := m]))"
    using d map_node_key_update [OF assms(3,6)] by simp
  ultimately show ?thesis unfolding chain_wf_def by metis
qed

lemma chain_wf_append:
  "chain_wf c \<Longrightarrow> node_wf m \<Longrightarrow> \<not> v_static m \<Longrightarrow> node_key m \<notin> node_key ` set c \<Longrightarrow> chain_wf (c @ [m])"
  by (auto simp: chain_wf_def)

lemma table_put_ok:
  assumes "slack usable" and "pobox_wf st" and "kb \<noteq> []"
  shows "\<exists>st'. table_put usable st kb vb = Inr st' \<and> pobox_wf st'
    \<and> pobox_map st' = (pobox_map st)(kb \<mapsto> vb) \<and> lock st' = lock st"
proof -
  from assms(2) obtain c where c: "office st = Some c" "chain_wf c" by (auto simp: pobox_wf_def)
  then have dist: "distinct (map node_key c)" by (auto simp: chain_wf_def)
  obtain w where w: "buffer_to_bytes usable kb = Inr w" "holds w kb"
    using buffer_to_bytes_ok [of kb usable] assms(1) by (auto simp: slack_def)
  obtain w' where w': "buffer_to_bytes usable vb = Inr w'"
    using buffer_to_bytes_ok [of vb usable] assms(1) by (auto simp: slack_def)
  have f: "find_node c w (length kb) = Inr (key_index kb c)"
    by (rule find_node_eq [OF chain_wf_nodes [OF c(2)] w(2)])
  show ?thesis
  proof (cases "key_index kb c")
    case None
    obtain n where n: "new_node usable kb vb = Inr n" "node_wf n" "\<not> v_static n"
        "node_key n = kb" "node_val n = vb"
      using new_node_ok [OF assms(1)] by blast
    with None have fresh: "node_key n \<notin> node_key ` set c" by (simp add: key_index_None)
    have "table_put usable st kb vb = Inr (st\<lparr>office := Some (c @ [n])\<rparr>)"
      by (simp add: table_put_def w w' c f None n)
    then show ?thesis
      using chain_wf_append [OF c(2) n(2,3) fresh] chain_map_append [OF fresh] n c
      by (simp add: pobox_wf_def pobox_map_def)
  next
    case (Some i)
    from key_index_Some [OF Some] have i: "i < length c" "node_key (c ! i) = kb" by simp_all
    from c(2) assms(3) i have "0 < i" by (cases i) (auto simp: chain_wf_def)
    with c(2) i have "node_wf (c ! i)" "\<not> v_static (c ! i)"
      by (auto simp: chain_wf_def nth_Cons split: nat.splits)
    from replace_value_ok [OF assms(1) this] obtain m where m: "replace_value usable (c ! i) vb = Inr m"
        "node_wf m" "\<not> v_static m" "node_key m = node_key (c ! i)" "node_val m = vb" by blast
    have "table_put usable st kb vb = Inr (st\<lparr>office := Some (c[i := m])\<rparr>)"
      by (simp add: table_put_def w w' c f Some m)
    then show ?thesis
      using chain_wf_update [OF c(2) \<open>0 < i\<close> i(1) m(2,3,4)] chain_map_update [OF dist i(1) m(4)] i m c
      by (simp add: pobox_wf_def pobox_map_def)
  qed
qed


subsection \<open>The native functions over the map\<close>

lemma pobox_lock_irrelevant [simp]:
  "pobox_wf (st\<lparr>lock := b\<rparr>) = pobox_wf st" "pobox_map (st\<lparr>lock := b\<rparr>) = pobox_map st"
  by (simp_all add: pobox_wf_def pobox_map_def)

lemma getbuffer_JBuffer [simp]:
  "janet_getbuffer (JBuffer b # xs) 0 = Inr b"
  "janet_getbuffer (x # JBuffer b # xs) (Suc 0) = Inr b"
  by (simp_all add: janet_getbuffer_def)

lemma getfunction_JFunction [simp]: "janet_getfunction (x # JFunction f # xs) (Suc 0) = Inr f"
  by (simp add: janet_getfunction_def)

lemma table_get_map:
  assumes "slack usable" and "pobox_wf st"
  shows "\<exists>t. table_get usable st kb = Inr t
    \<and> (case t of None \<Rightarrow> pobox_map st kb = None
        | Some n \<Rightarrow> pobox_map st kb = Some (node_val n) \<and> read_cells (node_v n) 0 (node_vlen n) = Inr (node_val n))"
proof -
  from assms(2) obtain c where c: "office st = Some c" "chain_wf c" by (auto simp: pobox_wf_def)
  have m: "pobox_map st kb = map_option (\<lambda>i. node_val (c ! i)) (key_index kb c)"
    by (simp add: pobox_map_def c chain_map_key_index)
  show ?thesis
  proof (cases "key_index kb c")
    case None
    with table_get_eq [OF assms(1) c] m show ?thesis by simp
  next
    case (Some i)
    from key_index_Some [OF Some] chain_wf_nodes [OF c(2)] have w: "node_wf (c ! i)" by simp
    then have "read_cells (node_v (c ! i)) 0 (node_vlen (c ! i)) = Inr (node_val (c ! i))"
      using holds_read_cells [of "node_v (c ! i)" "node_val (c ! i)" 0 "node_vlen (c ! i)"]
      by (auto simp: node_wf_def)
    with table_get_eq [OF assms(1) c] m Some show ?thesis by simp
  qed
qed

lemma get_wrapped_eq:
  assumes "slack usable" and "pobox_wf st" and "\<not> lock st"
  shows "get_wrapped usable [JBuffer kb] st = (case pobox_map st kb of
      Some vb \<Rightarrow> (Returned (JBuffer vb), st)
    | None \<Rightarrow> (Returned JNil, st\<lparr>lock := True\<rparr>))"
proof -
  from table_get_map [OF assms(1), of "st\<lparr>lock := True\<rparr>" kb, unfolded pobox_lock_irrelevant, OF assms(2)]
  obtain t where t:
    "table_get usable (st\<lparr>lock := True\<rparr>) kb = Inr t"
    "case t of None \<Rightarrow> pobox_map st kb = None
        | Some n \<Rightarrow> pobox_map st kb = Some (node_val n) \<and> read_cells (node_v n) 0 (node_vlen n) = Inr (node_val n)"
    by blast
  have "st\<lparr>lock := False\<rparr> = st" using assms(3) by simp
  with t assms(3) show ?thesis
    by (auto simp: get_wrapped_def get_body_def split: option.splits)
qed

lemma make_wrapped_ok:
  assumes "slack usable" and "pobox_wf st" and "\<not> lock st" and "kb \<noteq> []"
  shows "\<exists>st'. make_wrapped usable [JBuffer kb, JBuffer vb] st = (Returned (JBool True), st')
    \<and> pobox_wf st' \<and> \<not> lock st' \<and> pobox_map st' = (pobox_map st)(kb \<mapsto> vb)"
proof -
  from table_put_ok [OF assms(1) _ assms(4), of "st\<lparr>lock := True\<rparr>" vb] assms(2)
  obtain st' where "table_put usable (st\<lparr>lock := True\<rparr>) kb vb = Inr st'" "pobox_wf st'"
      "pobox_map st' = (pobox_map st)(kb \<mapsto> vb)" by auto
  then show ?thesis
    using assms(3) by (simp add: make_wrapped_def make_body_def make_box_def)
qed

interpretation pb: dictionary
  "\<lambda>(u, st). pobox_map st"
  "\<lambda>kb vb (u, st). (u, snd (make_wrapped u [JBuffer kb, JBuffer vb] st))"
  "\<lambda>(u, st). slack u \<and> pobox_wf st \<and> \<not> lock st"
  "\<lambda>kb. kb \<noteq> []"
proof
  fix s :: "(nat \<Rightarrow> nat) \<times> pobox" and kb vb :: bytes
  assume s: "case s of (u, st) \<Rightarrow> slack u \<and> pobox_wf st \<and> \<not> lock st" and kb: "kb \<noteq> []"
  obtain u st where us: "s = (u, st)" by (cases s)
  with s kb make_wrapped_ok [of u st kb vb] obtain st' where
    "make_wrapped u [JBuffer kb, JBuffer vb] st = (Returned (JBool True), st')"
    "pobox_wf st'" "\<not> lock st'" "pobox_map st' = (pobox_map st)(kb \<mapsto> vb)" by auto
  with s us show
    "case case s of (u, st) \<Rightarrow> (u, snd (make_wrapped u [JBuffer kb, JBuffer vb] st)) of
       (u, st) \<Rightarrow> slack u \<and> pobox_wf st \<and> \<not> lock st"
    "(case case s of (u, st) \<Rightarrow> (u, snd (make_wrapped u [JBuffer kb, JBuffer vb] st)) of
       (u, st) \<Rightarrow> pobox_map st) = (case s of (u, st) \<Rightarrow> pobox_map st)(kb \<mapsto> vb)"
    by simp_all
qed

definition make_all :: "(nat \<Rightarrow> nat) \<Rightarrow> (bytes \<times> bytes) list \<Rightarrow> pobox \<Rightarrow> pobox" where
  "make_all usable kvs st = fold (\<lambda>(kb, vb) s. snd (make_wrapped usable [JBuffer kb, JBuffer vb] s)) kvs st"

lemma make_all_pair:
  "fold (\<lambda>(kb, vb). \<lambda>(u, st). (u, snd (make_wrapped u [JBuffer kb, JBuffer vb] st))) kvs (u, st)
   = (u, make_all u kvs st)"
  by (induction kvs arbitrary: st) (auto simp: make_all_def)

lemma make_all_ok:
  assumes "slack usable" and "pobox_wf st" and "\<not> lock st" and "\<forall>kv \<in> set kvs. fst kv \<noteq> []"
  shows "pobox_wf (make_all usable kvs st) \<and> \<not> lock (make_all usable kvs st)
    \<and> pobox_map (make_all usable kvs st) = pobox_map st ++ map_of (rev kvs)"
  using pb.lookup_fold_insert [of "(usable, st)" kvs] assms by (simp add: make_all_pair)

text \<open>The state right after the module entry.\<close>

definition module_entry :: pobox where
  "module_entry = ensure_office \<lparr>office = None, lock = False\<rparr>"

lemma module_entry_wf: "pobox_wf module_entry" "\<not> lock module_entry"
    "pobox_map module_entry = [[] \<mapsto> []]"
  by (simp_all add: module_entry_def ensure_office_def pobox_wf_def chain_wf_def pobox_map_def chain_map_def)

subsection \<open>Threads\<close>

text \<open>
  Any number of Janet threads share the office. A thread that passed the checks before the lock
  waits; \<open>pthread_spin_lock\<close> lets one of them in when the lock is free; it runs its body
  and leaves with an outcome. The log records who finished, in order.
\<close>

datatype request = ReqGet "janet list" | ReqUpdate "janet list" | ReqMake "janet list"

fun reject :: "request \<Rightarrow> panic option" where
  "reject (ReqGet argv) = (case janet_fixarity (length argv) 1 of Inl p \<Rightarrow> Some p | Inr _ \<Rightarrow> None)"
| "reject (ReqUpdate argv) = None"
| "reject (ReqMake argv) = (case janet_fixarity (length argv) 2 of Inl p \<Rightarrow> Some p | Inr _ \<Rightarrow> None)"

fun req_body :: "(nat \<Rightarrow> nat) \<Rightarrow> (nat \<Rightarrow> janet \<Rightarrow> pobox \<Rightarrow> outcome \<times> pobox) \<Rightarrow> request \<Rightarrow> pobox \<Rightarrow> outcome \<times> pobox" where
  "req_body usable call (ReqGet argv) st = get_body usable argv st"
| "req_body usable call (ReqUpdate argv) st = update_body usable call argv st"
| "req_body usable call (ReqMake argv) st = make_body usable argv st"

fun run_request :: "(nat \<Rightarrow> nat) \<Rightarrow> (nat \<Rightarrow> janet \<Rightarrow> pobox \<Rightarrow> outcome \<times> pobox) \<Rightarrow> request \<Rightarrow> pobox \<Rightarrow> outcome \<times> pobox" where
  "run_request usable call (ReqGet argv) st = get_wrapped usable argv st"
| "run_request usable call (ReqUpdate argv) st = update_wrapped usable call argv st"
| "run_request usable call (ReqMake argv) st = make_wrapped usable argv st"

lemma run_request_eq:
  "run_request usable call r st = (case reject r of Some p \<Rightarrow> (Panicked p, st)
     | None \<Rightarrow> if lock st then (Blocked, st) else req_body usable call r (st\<lparr>lock := True\<rparr>))"
  by (cases r) (auto simp: get_wrapped_def update_wrapped_def make_wrapped_def split: sum.splits)

datatype thread_pc = Ready request | Inside request | Done outcome

record psys =
  box :: pobox
  pcs :: "nat \<Rightarrow> thread_pc"
  plog :: "(nat \<times> request \<times> outcome) list"

inductive psys_step :: "(nat \<Rightarrow> nat) \<Rightarrow> (nat \<Rightarrow> janet \<Rightarrow> pobox \<Rightarrow> outcome \<times> pobox) \<Rightarrow> psys \<Rightarrow> psys \<Rightarrow> bool"
  for usable call where
  step_reject: "pcs s i = Ready r \<Longrightarrow> reject r = Some p \<Longrightarrow>
     psys_step usable call s (s\<lparr>pcs := (pcs s)(i := Done (Panicked p))\<rparr>)"
| step_acquire: "pcs s i = Ready r \<Longrightarrow> reject r = None \<Longrightarrow> \<not> lock (box s) \<Longrightarrow>
     psys_step usable call s (s\<lparr>pcs := (pcs s)(i := Inside r), box := (box s)\<lparr>lock := True\<rparr>\<rparr>)"
| step_finish: "pcs s i = Inside r \<Longrightarrow> req_body usable call r (box s) = (oc, b) \<Longrightarrow>
     psys_step usable call s (s\<lparr>pcs := (pcs s)(i := Done oc), box := b, plog := plog s @ [(i, r, oc)]\<rparr>)"

inductive psys_reach :: "(nat \<Rightarrow> nat) \<Rightarrow> (nat \<Rightarrow> janet \<Rightarrow> pobox \<Rightarrow> outcome \<times> pobox) \<Rightarrow> psys \<Rightarrow> psys \<Rightarrow> bool"
  for usable call s0 where
  reach_start: "psys_reach usable call s0 s0"
| reach_step: "psys_reach usable call s0 s \<Longrightarrow> psys_step usable call s t \<Longrightarrow> psys_reach usable call s0 t"

inductive_cases psys_stepE: "psys_step usable call s t"

definition psys_start :: "pobox \<Rightarrow> (nat \<Rightarrow> request) \<Rightarrow> psys" where
  "psys_start b rs = \<lparr>box = b, pcs = (\<lambda>i. Ready (rs i)), plog = []\<rparr>"

text \<open>A log is serial from one store to another if running its requests one after the other,
  each as a whole call, gives the recorded outcomes.\<close>

fun serial :: "(nat \<Rightarrow> nat) \<Rightarrow> (nat \<Rightarrow> janet \<Rightarrow> pobox \<Rightarrow> outcome \<times> pobox) \<Rightarrow> pobox \<Rightarrow> (nat \<times> request \<times> outcome) list \<Rightarrow> pobox \<Rightarrow> bool" where
  "serial usable call b [] b' \<longleftrightarrow> b = b'"
| "serial usable call b ((i, r, oc) # es) b' \<longleftrightarrow>
     fst (run_request usable call r b) = oc \<and> serial usable call (snd (run_request usable call r b)) es b'"

lemma serial_append:
  "serial usable call b es b' \<Longrightarrow> run_request usable call r b' = (oc, b'') \<Longrightarrow>
   serial usable call b (es @ [(i, r, oc)]) b''"
  by (induction usable call b es b' rule: serial.induct) auto

definition psys_inv :: "(nat \<Rightarrow> nat) \<Rightarrow> (nat \<Rightarrow> janet \<Rightarrow> pobox \<Rightarrow> outcome \<times> pobox) \<Rightarrow> pobox \<Rightarrow> psys \<Rightarrow> bool" where
  "psys_inv usable call b0 s \<longleftrightarrow>
     (\<forall>i j r q. pcs s i = Inside r \<longrightarrow> pcs s j = Inside q \<longrightarrow> i = j) \<and>
     (\<forall>i r. pcs s i = Inside r \<longrightarrow> reject r = None \<and>
        (\<exists>b. serial usable call b0 (plog s) b \<and> \<not> lock b \<and> box s = b\<lparr>lock := True\<rparr>)) \<and>
     ((\<forall>i r. pcs s i \<noteq> Inside r) \<longrightarrow> serial usable call b0 (plog s) (box s))"

lemma psys_inv_inside:
  assumes "psys_inv usable call b0 s" and "pcs s i = Inside r"
  obtains b where "serial usable call b0 (plog s) b" and "\<not> lock b" and "box s = b\<lparr>lock := True\<rparr>"
    and "reject r = None" and "\<And>j q. pcs s j = Inside q \<Longrightarrow> j = i"
  using assms unfolding psys_inv_def by blast

lemma psys_inv_start: "psys_inv usable call b (psys_start b rs)"
  by (simp add: psys_inv_def psys_start_def)

lemma psys_inv_step:
  assumes "psys_step usable call s t" and inv: "psys_inv usable call b0 s"
  shows "psys_inv usable call b0 t"
  using assms(1)
proof (cases rule: psys_step.cases)
  case (step_reject i r p)
  then have same: "(pcs t j = Inside q) = (pcs s j = Inside q)" for j q by simp
  show ?thesis using inv step_reject(1) unfolding psys_inv_def same by simp
next
  case (step_acquire i r)
  have none: "pcs s j \<noteq> Inside q" for j q
  proof
    assume "pcs s j = Inside q"
    with inv obtain b where "box s = b\<lparr>lock := True\<rparr>" by (rule psys_inv_inside)
    with step_acquire(4) show False by simp
  qed
  then have "serial usable call b0 (plog s) (box s)" using inv by (simp add: psys_inv_def)
  then show ?thesis using step_acquire none by (auto simp: psys_inv_def)
next
  case (step_finish i r oc b)
  from inv step_finish(2) obtain c where c: "serial usable call b0 (plog s) c" "\<not> lock c"
      "box s = c\<lparr>lock := True\<rparr>" and rj: "reject r = None"
      and only: "\<And>j q. pcs s j = Inside q \<Longrightarrow> j = i" by (rule psys_inv_inside) blast
  have "run_request usable call r c = (oc, b)"
    using c(2,3) rj step_finish(3) by (simp add: run_request_eq)
  from serial_append [OF c(1) this] have "serial usable call b0 (plog t) (box t)"
    by (simp add: step_finish(1))
  moreover have "pcs t j \<noteq> Inside q" for j q
    using only [of j q] step_finish(1) by auto
  ultimately show ?thesis by (simp add: psys_inv_def)
qed

lemma psys_inv_reach: "psys_reach usable call (psys_start b rs) s \<Longrightarrow> psys_inv usable call b s"
  by (induction rule: psys_reach.induct) (auto intro: psys_inv_start psys_inv_step)

text \<open>A lock nobody holds any more is never taken again.\<close>

lemma leaked_stuck:
  assumes "psys_reach usable call s t" and "lock (box s)" and "\<forall>i r. pcs s i \<noteq> Inside r"
  shows "plog t = plog s \<and> box t = box s \<and> (\<forall>i r. pcs t i \<noteq> Inside r)"
  using assms
proof (induction rule: psys_reach.induct)
  case reach_start
  then show ?case by simp
next
  case (reach_step u t)
  then have u: "plog u = plog s" "box u = box s" "\<forall>i r. pcs u i \<noteq> Inside r" by auto
  from reach_step.hyps(2) show ?case
    by (cases rule: psys_step.cases) (use u reach_step.prems in auto)
qed

subsection \<open>Properties\<close>

lemma slack_Suc: "slack Suc"
  by (simp add: slack_def)

text \<open>C1. The store is a map: after any sequence of \<open>cmake\<close> calls with non-empty keys,
  from any well-formed unlocked state, \<open>cget\<close> returns the value of the last
  \<open>cmake\<close> of that key, or what was there before, provided the allocator leaves one spare
  byte per request.\<close>

theorem pobox_last_write_wins:
  assumes "slack usable" and "pobox_wf st" and "\<not> lock st" and "\<forall>kv \<in> set kvs. fst kv \<noteq> []"
    and "(pobox_map st ++ map_of (rev kvs)) kb = Some vb"
  shows "fst (get_wrapped usable [JBuffer kb] (make_all usable kvs st)) = Returned (JBuffer vb)"
  using make_all_ok [OF assms(1-4)] assms(1,5) by (simp add: get_wrapped_eq)

theorem pobox_last_write_wins_witness:
  "fst (get_wrapped Suc [JBuffer [1]] (make_all Suc [([1], [7, 8]), ([2], [5]), ([1], [9])] module_entry))
     = Returned (JBuffer [9])"
  by (rule pobox_last_write_wins [OF slack_Suc module_entry_wf(1,2)]) (simp_all add: module_entry_wf)

text \<open>A \<open>cget\<close> of a key that is not stored returns nil with the spin lock still
  held: every later call that gets past its arity check spins forever.\<close>

theorem pobox_get_miss_deadlocks:
  assumes "slack usable" and "pobox_wf st" and "\<not> lock st" and "pobox_map st kb = None"
  shows "\<exists>st'. get_wrapped usable [JBuffer kb] st = (Returned JNil, st')
    \<and> (\<forall>call r. reject r = None \<longrightarrow> run_request usable call r st' = (Blocked, st'))"
proof -
  have "get_wrapped usable [JBuffer kb] st = (Returned JNil, st\<lparr>lock := True\<rparr>)"
    using get_wrapped_eq [OF assms(1-3), of kb] assms(4) by simp
  then show ?thesis by (auto simp: run_request_eq)
qed

theorem pobox_get_miss_deadlocks_witness:
  "\<exists>st'. get_wrapped Suc [JBuffer [1]] module_entry = (Returned JNil, st')
    \<and> (\<forall>call r. reject r = None \<longrightarrow> run_request Suc call r st' = (Blocked, st'))"
  by (rule pobox_get_miss_deadlocks [OF slack_Suc module_entry_wf(1,2)]) (simp add: module_entry_wf)

text \<open>An error raised by the function of an update leaves the lock taken.\<close>

lemma update_wrapped_error:
  assumes "slack usable" and "pobox_wf st" and "\<not> lock st" and "pobox_map st kb = Some vb"
    and "call f (JBuffer vb) (st\<lparr>lock := True\<rparr>) = (Panicked p, st2)"
  shows "update_wrapped usable call [JBuffer kb, JFunction f] st = (Panicked p, st2)"
proof -
  from table_get_map [OF assms(1), of "st\<lparr>lock := True\<rparr>" kb, unfolded pobox_lock_irrelevant, OF assms(2)] assms(4)
  obtain n where "table_get usable (st\<lparr>lock := True\<rparr>) kb = Inr (Some n)"
      "read_cells (node_v n) 0 (node_vlen n) = Inr vb"
    by (auto split: option.splits)
  then show ?thesis using assms(3,5) by (simp add: update_wrapped_def update_body_def)
qed

text \<open>\<open>cupdate\<close> with a function that returns a buffer and leaves the store alone
  replaces the value of the key by the function's result, changes no other key and releases the
  lock.\<close>

theorem pobox_update_applies:
  assumes "slack usable" and "pobox_wf st" and "\<not> lock st" and "kb \<noteq> []"
    and "pobox_map st kb = Some vb"
    and "call f (JBuffer vb) (st\<lparr>lock := True\<rparr>) = (Returned (JBuffer wb), st\<lparr>lock := True\<rparr>)"
  shows "\<exists>st'. update_wrapped usable call [JBuffer kb, JFunction f] st = (Returned (JBool True), st')
    \<and> pobox_wf st' \<and> \<not> lock st' \<and> pobox_map st' = (pobox_map st)(kb \<mapsto> wb)"
proof -
  from table_get_map [OF assms(1), of "st\<lparr>lock := True\<rparr>" kb, unfolded pobox_lock_irrelevant, OF assms(2)] assms(5)
  obtain n where "table_get usable (st\<lparr>lock := True\<rparr>) kb = Inr (Some n)"
      "read_cells (node_v n) 0 (node_vlen n) = Inr vb"
    by (auto split: option.splits)
  moreover from table_put_ok [OF assms(1) _ assms(4), of "st\<lparr>lock := True\<rparr>" wb] assms(2)
  obtain st' where "table_put usable (st\<lparr>lock := True\<rparr>) kb wb = Inr st'" "pobox_wf st'"
      "pobox_map st' = (pobox_map st)(kb \<mapsto> wb)" by auto
  ultimately show ?thesis
    using assms(3,6) by (simp add: update_wrapped_def update_body_def make_box_def)
qed

theorem pobox_update_applies_witness:
  "\<exists>st'. update_wrapped Suc (\<lambda>f x st. (Returned (JBuffer [4, 2]), st)) [JBuffer [1], JFunction 0]
       (make_all Suc [([1], [7])] module_entry) = (Returned (JBool True), st')
    \<and> pobox_wf st' \<and> \<not> lock st' \<and> pobox_map st' = [[] \<mapsto> [], [1] \<mapsto> [4, 2]]"
proof -
  have "pobox_wf (make_all Suc [([1], [7])] module_entry) \<and> \<not> lock (make_all Suc [([1], [7])] module_entry)
      \<and> pobox_map (make_all Suc [([1], [7])] module_entry) = [[] \<mapsto> [], [1] \<mapsto> [7]]"
    using make_all_ok [OF slack_Suc module_entry_wf(1,2), of "[([1], [7])]"]
    by (simp add: module_entry_wf)
  then show ?thesis
    using pobox_update_applies [OF slack_Suc, of "make_all Suc [([1], [7])] module_entry" "[1]" "[7]"
        "\<lambda>f x st. (Returned (JBuffer [4, 2]), st)" 0 "[4, 2]"] by simp
qed

text \<open>Under any scheduling of any number of threads, at most one is between lock and
  unlock, and whenever none is, the store and all outcomes so far are those of running the
  finished calls one after the other in the order they finished.\<close>

theorem pobox_serializable:
  assumes "psys_reach usable call (psys_start b rs) s"
  shows "(\<forall>i j r q. pcs s i = Inside r \<and> pcs s j = Inside q \<longrightarrow> i = j)
    \<and> ((\<forall>i r. pcs s i \<noteq> Inside r) \<longrightarrow> serial usable call b (plog s) (box s))"
  using psys_inv_reach [OF assms] unfolding psys_inv_def by blast

theorem pobox_serializable_witness:
  "\<exists>s::psys. plog s \<noteq> [] \<and> serial Suc (\<lambda>f x st. (Returned x, st)) module_entry (plog s) (box s)"
proof -
  let ?c = "\<lambda>f x st. (Returned x, st) :: outcome \<times> pobox"
  let ?r = "ReqMake [JBuffer [1], JBuffer [2]]"
  let ?s = "psys_start module_entry (\<lambda>i. ?r)"
  obtain oc b where ob: "req_body Suc ?c ?r (module_entry\<lparr>lock := True\<rparr>) = (oc, b)" by fastforce
  let ?t = "?s\<lparr>pcs := (pcs ?s)(0 := Inside ?r), box := (box ?s)\<lparr>lock := True\<rparr>\<rparr>"
  let ?u = "?t\<lparr>pcs := (pcs ?t)(0 := Done oc), box := b, plog := plog ?t @ [(0, ?r, oc)]\<rparr>"
  have 1: "psys_step Suc ?c ?s ?t"
    by (rule step_acquire) (simp_all add: psys_start_def module_entry_wf)
  have 2: "psys_step Suc ?c ?t ?u"
    by (rule step_finish) (use ob in \<open>simp_all add: psys_start_def\<close>)
  have "psys_reach Suc ?c ?s ?u"
    by (rule reach_step [OF reach_step [OF reach_start 1] 2])
  from pobox_serializable [OF this] have "serial Suc ?c module_entry (plog ?u) (box ?u)"
    by (simp add: psys_start_def)
  then show ?thesis by (intro exI [of _ ?u] conjI) simp_all
qed

text \<open>What the code needs from \<open>malloc\<close> beyond its contract: if a key request gets
  exactly the bytes it asked for, \<open>cget\<close> and \<open>cmake\<close> of that key write past the
  block; and \<open>cmake\<close> with the empty key frees a string literal whatever the allocator.\<close>

theorem pobox_heap_misuse:
  assumes "pobox_wf st" and "\<not> lock st" and "usable (length kb) = length kb" and "slack usable'"
  shows "fst (get_wrapped usable [JBuffer kb] st) = Crashed OutOfBounds
    \<and> fst (make_wrapped usable [JBuffer kb, JBuffer vb] st) = Crashed OutOfBounds
    \<and> fst (make_wrapped usable' [JBuffer [], JBuffer vb] st) = Crashed InvalidFree"
proof -
  from assms(1) obtain rest where c: "office st = Some (sentinel # rest)" "chain_wf (sentinel # rest)"
    by (auto simp: pobox_wf_def chain_wf_def)
  obtain w where w: "buffer_to_bytes usable' [] = Inr w" "holds w []"
    using buffer_to_bytes_ok [of "[]" usable'] assms(4) by (auto simp: slack_def)
  obtain w' where "buffer_to_bytes usable' vb = Inr w'"
    using buffer_to_bytes_ok [of vb usable'] assms(4) by (auto simp: slack_def)
  with w c(1) find_node_eq [OF chain_wf_nodes [OF c(2)] w(2)]
  have "table_put usable' (st\<lparr>lock := True\<rparr>) [] vb = Inl InvalidFree"
    by (simp add: table_put_def replace_value_def sentinel_def [THEN arg_cong, of v_static])
  moreover have "table_put usable (st\<lparr>lock := True\<rparr>) kb vb = Inl OutOfBounds"
      "table_get usable (st\<lparr>lock := True\<rparr>) kb = Inl OutOfBounds"
    using buffer_to_bytes_exact [of usable kb] assms(3) by (simp_all add: table_put_def table_get_def)
  ultimately show ?thesis
    using assms(2)
    by (simp add: get_wrapped_def get_body_def make_wrapped_def make_body_def make_box_def)
qed

theorem pobox_heap_misuse_witness:
  "fst (get_wrapped (\<lambda>n. n) [JBuffer [1]] module_entry) = Crashed OutOfBounds
    \<and> fst (make_wrapped (\<lambda>n. n) [JBuffer [1], JBuffer [2]] module_entry) = Crashed OutOfBounds
    \<and> fst (make_wrapped Suc [JBuffer [], JBuffer [2]] module_entry) = Crashed InvalidFree"
  by (rule pobox_heap_misuse [OF module_entry_wf(1,2) _ slack_Suc]) simp

end
