(* ===== verification/PunyRead.thy ===== *)
theory PunyRead
  imports Process CStd
begin

text \<open>
  \<^verbatim>\<open>src/puny-server.c\<close>, \<open>read_tcp\<close>: reading a request from a client. The
  answers of \<open>recv\<close> are a list the function consumes; a run that has used them all and
  still waits is \<open>None\<close>. What \<open>malloc\<close> and \<open>realloc\<close> leave in fresh bytes is
  the function \<open>junk\<close>, because the code searches the buffer past what it has written.

  The second half is the abstract reader: the bytes received so far, a search for the end of the
  header and for a body length, and no buffer. The code never ends the buffer with a NUL before
  it searches it, so the detailed reader refines the abstract one only as long as the memory
  itself goes on with a NUL after what was received (\<open>stops\<close>).
\<close>

subsection \<open>Memory and searches\<close>

definition CLIENT_CHUNK :: nat where "CLIENT_CHUNK = 1024"

datatype recv = Chunk bytes | Nothing int

definition fresh :: "(nat \<Rightarrow> byte) \<Rightarrow> bytes \<Rightarrow> nat \<Rightarrow> bytes" where
  "fresh junk b n = take n b @ map junk [length b..<n]"

definition put_bytes :: "bytes \<Rightarrow> nat \<Rightarrow> bytes \<Rightarrow> fault + bytes" where
  "put_bytes b i xs =
     (if i + length xs \<le> length b then Inr (take i b @ xs @ drop (i + length xs) b) else Inl OutOfBounds)"

text \<open>\<open>strstr\<close> on a block: the index of the match. Without a NUL in the block a search
  that does not find the needle runs out of it.\<close>

definition strstr_at :: "bytes \<Rightarrow> bytes \<Rightarrow> fault + nat option" where
  "strstr_at b needle =
     (case strstr (cstring b) needle of
        Some rest \<Rightarrow> Inr (Some (length (cstring b) - length rest))
      | None \<Rightarrow> if 0 \<in> set b then Inr None else Inl OutOfBounds)"

definition crlfcrlf :: bytes where "crlfcrlf = [13, 10, 13, 10]"
definition clen_lower :: bytes where "clen_lower = bs ''content-length: ''"
definition clen_upper :: bytes where "clen_upper = bs ''Content-Length: ''"

subsection \<open>The reader\<close>

record reader =
  rbuf :: bytes        \<comment> \<open>the block \<open>buf\<close> points to, \<open>[]\<close> for NULL\<close>
  chunks :: int        \<comment> \<open>\<open>i\<close>\<close>
  offset :: nat
  seen :: bool         \<comment> \<open>\<open>has_seen_req_terminator\<close>\<close>
  body_len :: int      \<comment> \<open>\<open>final_content_length\<close>\<close>
  timer :: bool        \<comment> \<open>\<open>set_timer\<close>\<close>

definition reader_init :: reader where
  "reader_init = \<lparr>rbuf = [], chunks = 0, offset = 0, seen = False, body_len = 0, timer = False\<rparr>"

text \<open>The body of both receive loops: NUL after the chunk in \<open>tmp\<close>, one more
  \<open>CLIENT_CHUNK\<close> of buffer, copy up to the first NUL, advance by all of it.\<close>

definition append_chunk :: "(nat \<Rightarrow> byte) \<Rightarrow> bytes \<Rightarrow> reader \<Rightarrow> fault + reader" where
  "append_chunk junk c s =
     (if length c \<ge> CLIENT_CHUNK then Inl OutOfBounds
      else let i = chunks s + 1; mem = i * int CLIENT_CHUNK in
        if \<not> int32 mem then Inl IntOverflow
        else rbind (put_bytes (fresh junk (rbuf s) (nat mem)) (offset s) (cstring (c @ [0]))) (\<lambda>b.
          Inr (s\<lparr>rbuf := b, chunks := i, offset := offset s + length c\<rparr>)))"

text \<open>The index of the first carriage return before the NUL, or 0.\<close>

definition nl_offset :: "bytes \<Rightarrow> fault + nat" where
  "nl_offset p =
     rbind (strlen p) (\<lambda>_.
       let pre = takeWhile (\<lambda>b. b \<noteq> 13) (cstring p) in
       Inr (if length pre < length (cstring p) then length pre else 0))"

text \<open>\<open>clen_string\<close> has \<open>nl_offset\<close> bytes, of which the copy fills all but the last
  16; \<open>atoi\<close> and the \<open>%s\<close> after it read on to a NUL.\<close>

definition parse_length :: "(nat \<Rightarrow> byte) \<Rightarrow> bytes \<Rightarrow> fault + int" where
  "parse_length junk p =
     rbind (nl_offset p) (\<lambda>n.
       if n < 16 then Inl OutOfBounds
       else let clen = take (n - 16) (drop 16 p) @ map junk [n - 16..<n] in
         rbind (strlen clen) (\<lambda>_. atoi (cstring clen)))"

definition scan_head :: "(nat \<Rightarrow> byte) \<Rightarrow> reader \<Rightarrow> fault + reader" where
  "scan_head junk s =
     rbind (strstr_at (rbuf s) crlfcrlf) (\<lambda>t.
     rbind (strstr_at (rbuf s) clen_lower) (\<lambda>c1.
     rbind (strstr_at (rbuf s) clen_upper) (\<lambda>c2.
     case (if c1 = None then c2 else c1) of
       None \<Rightarrow> Inr (s\<lparr>seen := t \<noteq> None\<rparr>)
     | Some k \<Rightarrow> rbind (parse_length junk (drop k (rbuf s))) (\<lambda>v.
         Inr (s\<lparr>seen := t \<noteq> None, body_len := v\<rparr>)))))"

text \<open>The first pair of loops. On Windows the inner one is left after each chunk, before the
  timer flag is set.\<close>

fun wait_header :: "bool \<Rightarrow> (nat \<Rightarrow> byte) \<Rightarrow> recv list \<Rightarrow> reader \<Rightarrow> (fault + reader \<times> recv list) option" where
  "wait_header windows junk [] s = None"
| "wait_header windows junk (Nothing n # rs) s = (if seen s then Some (Inr (s, rs)) else wait_header windows junk rs s)"
| "wait_header windows junk (Chunk c # rs) s =
     (case rbind (append_chunk junk c s) (scan_head junk) of
        Inl e \<Rightarrow> Some (Inl e)
      | Inr s2 \<Rightarrow>
          if windows then (if seen s2 then Some (Inr (s2, rs)) else wait_header windows junk rs s2)
          else wait_header windows junk rs (s2\<lparr>timer := True\<rparr>))"

text \<open>The second pair, entered with more bytes to come.\<close>

fun wait_body :: "(nat \<Rightarrow> byte) \<Rightarrow> int \<Rightarrow> recv list \<Rightarrow> reader \<Rightarrow> (fault + reader) option" where
  "wait_body junk target [] s = None"
| "wait_body junk target (Nothing n # rs) s =
     (case strlen (rbuf s) of
        Inl e \<Rightarrow> Some (Inl e)
      | Inr len \<Rightarrow> if int len < target then wait_body junk target rs s else Some (Inr s))"
| "wait_body junk target (Chunk c # rs) s =
     (case append_chunk junk c s of Inl e \<Rightarrow> Some (Inl e) | Inr s2 \<Rightarrow> wait_body junk target rs s2)"

definition finish_read :: "reader \<Rightarrow> fault + bytes" where
  "finish_read s = put_bytes (rbuf s) (offset s) [0]"

definition read_body :: "(nat \<Rightarrow> byte) \<Rightarrow> recv list \<Rightarrow> reader \<Rightarrow> (fault + reader) option" where
  "read_body junk rs s =
     (if body_len s = 0 then Some (Inr s)
      else case rbind (strstr_at (rbuf s) crlfcrlf) (\<lambda>t. case t of
               None \<Rightarrow> Inl NullDeref
             | Some k \<Rightarrow> let target = int k + 4 + body_len s in
                 if \<not> int32 target then Inl IntOverflow
                 else rbind (strlen (rbuf s)) (\<lambda>len. Inr (target, int len < target))) of
             Inl e \<Rightarrow> Some (Inl e)
           | Inr (target, waits) \<Rightarrow> if waits then wait_body junk target rs s else Some (Inr s))"

definition read_tcp :: "bool \<Rightarrow> (nat \<Rightarrow> byte) \<Rightarrow> recv list \<Rightarrow> (fault + bytes) option" where
  "read_tcp windows junk rs =
     (case wait_header windows junk rs reader_init of
        None \<Rightarrow> None
      | Some (Inl e) \<Rightarrow> Some (Inl e)
      | Some (Inr (s, rest)) \<Rightarrow>
          (case read_body junk rest s of
             None \<Rightarrow> None
           | Some r \<Rightarrow> Some (rbind r finish_read)))"

subsection \<open>The abstract reader\<close>

text \<open>What the header announces: the value after the first \<open>content-length: \<close> anywhere in
  the bytes so far, else after the first \<open>Content-Length: \<close>; a value whose line is not
  complete yet is the fault the code runs into.\<close>

definition announced :: "bytes \<Rightarrow> int \<Rightarrow> fault + int" where
  "announced acc old =
     (case (if strstr acc clen_lower = None then strstr acc clen_upper else strstr acc clen_lower) of
        None \<Rightarrow> Inr old
      | Some p \<Rightarrow> let line = takeWhile (\<lambda>b. b \<noteq> 13) p in
          if line = p then Inl OutOfBounds else atoi (drop 16 line))"

fun spec_header :: "bool \<Rightarrow> recv list \<Rightarrow> bytes \<Rightarrow> int \<Rightarrow> (fault + (bytes \<times> int) \<times> recv list) option" where
  "spec_header windows [] acc v = None"
| "spec_header windows (Nothing n # rs) acc v =
     (if strstr acc crlfcrlf \<noteq> None then Some (Inr ((acc, v), rs)) else spec_header windows rs acc v)"
| "spec_header windows (Chunk c # rs) acc v =
     (case announced (acc @ c) v of
        Inl e \<Rightarrow> Some (Inl e)
      | Inr v2 \<Rightarrow>
          if windows \<and> strstr (acc @ c) crlfcrlf \<noteq> None then Some (Inr ((acc @ c, v2), rs))
          else spec_header windows rs (acc @ c) v2)"

fun spec_body :: "int \<Rightarrow> recv list \<Rightarrow> bytes \<Rightarrow> bytes option" where
  "spec_body target [] acc = None"
| "spec_body target (Nothing n # rs) acc =
     (if int (length acc) < target then spec_body target rs acc else Some acc)"
| "spec_body target (Chunk c # rs) acc = spec_body target rs (acc @ c)"

definition spec_read :: "bool \<Rightarrow> recv list \<Rightarrow> (fault + bytes) option" where
  "spec_read windows rs =
     (case spec_header windows rs [] 0 of
        None \<Rightarrow> None
      | Some (Inl e) \<Rightarrow> Some (Inl e)
      | Some (Inr ((acc, v), rest)) \<Rightarrow>
          (if v = 0 then Some (Inr acc)
           else case strstr acc crlfcrlf of
                  None \<Rightarrow> Some (Inl NullDeref)
                | Some p \<Rightarrow>
                    let target = int (length acc) - int (length p) + 4 + v in
                    if \<not> int32 target then Some (Inl IntOverflow)
                    else if int (length acc) < target then map_option Inr (spec_body target rest acc)
                    else Some (Inr acc)))"

subsection \<open>The buffer holds what was received\<close>

abbreviation clean :: "nat \<Rightarrow> byte" where "clean \<equiv> \<lambda>_. 0"

definition length_line :: "bytes \<Rightarrow> bytes option" where
  "length_line acc = map_option (takeWhile (\<lambda>b. b \<noteq> 13))
     (if strstr acc clen_lower = None then strstr acc clen_upper else strstr acc clen_lower)"

text \<open>The memory after the bytes received goes on with a NUL, and so does the block of the
  length's copy after its digits.\<close>

definition stops :: "(nat \<Rightarrow> byte) \<Rightarrow> bytes \<Rightarrow> bool" where
  "stops junk acc \<longleftrightarrow> junk (length acc) = 0
     \<and> (case length_line acc of None \<Rightarrow> True | Some line \<Rightarrow> junk (length line - 16) = 0)"

text \<open>It does so after every chunk of a run.\<close>

fun all_stop :: "(nat \<Rightarrow> byte) \<Rightarrow> recv list \<Rightarrow> bytes \<Rightarrow> bool" where
  "all_stop junk [] acc = True"
| "all_stop junk (Nothing n # rs) acc = all_stop junk rs acc"
| "all_stop junk (Chunk c # rs) acc = (stops junk (acc @ c) \<and> all_stop junk rs (acc @ c))"

fun n_chunks :: "recv list \<Rightarrow> nat" where
  "n_chunks [] = 0"
| "n_chunks (Nothing n # rs) = n_chunks rs"
| "n_chunks (Chunk c # rs) = Suc (n_chunks rs)"

lemma stops_clean [simp]: "stops clean acc"
  by (simp add: stops_def split: option.splits)

lemma all_stop_clean [simp]: "all_stop clean rs acc"
  by (induction rs arbitrary: acc) (simp_all, metis recv.exhaust all_stop.simps(2,3) stops_clean)

definition received :: "(nat \<Rightarrow> byte) \<Rightarrow> reader \<Rightarrow> bytes \<Rightarrow> nat \<Rightarrow> bool" where
  "received junk s acc k \<longleftrightarrow> chunks s = int k \<and> offset s = length acc \<and> 0 \<notin> set acc \<and> length acc \<le> 1023 * k
     \<and> rbuf s = acc @ map junk [length acc..<1024 * k]"

lemma received_init: "received junk reader_init [] 0"
  by (simp add: received_def reader_init_def)

lemma received_fields [simp]:
  "received junk (s\<lparr>seen := x\<rparr>) acc k = received junk s acc k"
  "received junk (s\<lparr>body_len := v\<rparr>) acc k = received junk s acc k"
  "received junk (s\<lparr>timer := t\<rparr>) acc k = received junk s acc k"
  by (simp_all add: received_def)

lemma cstring_append_NUL: "0 \<notin> set xs \<Longrightarrow> cstring (xs @ 0 # ys) = xs"
  by (induction xs) (auto simp: cstring_def)

lemma strlen_append_NUL: "0 \<notin> set xs \<Longrightarrow> strlen (xs @ 0 # ys) = Inr (length xs)"
  using cstring_append_NUL [of xs ys] by (auto simp: strlen_def cstring_def)

text \<open>The rest of a block that goes on with a NUL.\<close>

lemma junk_NUL: "junk i = 0 \<Longrightarrow> i < n \<Longrightarrow> map junk [i..<n] = 0 # map junk [Suc i..<n]"
  by (simp add: upt_rec)

lemma received_NUL:
  assumes "received junk s acc k" and "0 < k" and "junk (length acc) = 0"
  shows "rbuf s = acc @ 0 # map junk [Suc (length acc)..<1024 * k]"
  using assms junk_NUL [of junk "length acc" "1024 * k"] by (simp add: received_def)

lemma strlen_received:
  assumes "received junk s acc k" and "0 < k" and "junk (length acc) = 0"
  shows "strlen (rbuf s) = Inr (length acc)"
  unfolding received_NUL [OF assms] using assms(1) by (simp add: received_def strlen_append_NUL)

definition good_chunk :: "recv \<Rightarrow> bool" where
  "good_chunk r = (case r of Chunk c \<Rightarrow> length c < CLIENT_CHUNK \<and> 0 \<notin> set c | Nothing n \<Rightarrow> True)"

lemma append_chunk_received:
  assumes "received junk s acc k" and "length c < CLIENT_CHUNK" and "0 \<notin> set c" and "k < 2097151"
  shows "\<exists>s2. append_chunk junk c s = Inr s2 \<and> received junk s2 (acc @ c) (Suc k) \<and> seen s2 = seen s
     \<and> body_len s2 = body_len s \<and> timer s2 = timer s"
proof -
  let ?m = "1024 * Suc k" and ?l = "length (acc @ c)"
  have acc: "length acc \<le> 1023 * k" and r: "rbuf s = acc @ map junk [length acc..<1024 * k]" "chunks s = int k"
    "offset s = length acc"
    using assms(1) by (simp_all add: received_def)
  have lc: "length c \<le> 1023" using assms(2) by (simp add: CLIENT_CHUNK_def)
  have mem: "(chunks s + 1) * int CLIENT_CHUNK = int ?m" by (simp add: r CLIENT_CHUNK_def algebra_simps)
  have i32: "int32 (int ?m)" using assms(4) by (simp add: int32_def)
  have lr: "length (rbuf s) = 1024 * k" using acc by (simp add: r)
  have split: "[i..<m] = [i..<j] @ [j..<m]" if "i \<le> j" "j \<le> m" for i j m :: nat
    using that by (metis le_Suc_ex upt_add_eq_append)
  have "fresh junk (rbuf s) ?m = acc @ map junk [length acc..<?m]"
    using acc lr split [of "length acc" "1024 * k" ?m] by (simp add: fresh_def r(1))
  moreover have "length acc + length c \<le> ?m" using acc lc by simp
  ultimately have pb: "put_bytes (fresh junk (rbuf s) (nat (int ?m))) (offset s) (cstring (c @ [0]))
      = Inr ((acc @ c) @ map junk [?l..<?m])"
    unfolding nat_int r(3) cstring_append_NUL [OF assms(3)] by (simp add: put_bytes_def drop_map)
  have nb: "\<not> length c \<ge> CLIENT_CHUNK" using assms(2) by simp
  let ?s2 = "s\<lparr>rbuf := (acc @ c) @ map junk [?l..<?m], chunks := chunks s + 1, offset := offset s + length c\<rparr>"
  have "append_chunk junk c s = Inr ?s2"
    unfolding append_chunk_def Let_def mem if_not_P [OF nb] pb using i32 by simp
  moreover have "received junk ?s2 (acc @ c) (Suc k)"
    using acc lc r assms(1,3) by (simp add: received_def)
  ultimately show ?thesis by (intro exI [of _ ?s2]) simp
qed

lemma strstr_suffix: "strstr h n = Some r \<Longrightarrow> \<exists>p. h = p @ r"
proof (induction h n rule: strstr.induct)
  case (1 needle)
  then show ?case by (auto split: if_splits)
next
  case (2 x hs needle)
  show ?case
  proof (cases "take (length needle) (x # hs) = needle")
    case True
    with 2(2) show ?thesis by simp
  next
    case False
    with 2 obtain p where "hs = p @ r" by auto
    then show ?thesis by (intro exI [of _ "x # p"]) simp
  qed
qed

lemma strstr_starts: "strstr h n = Some r \<Longrightarrow> take (length n) r = n"
  by (induction h n rule: strstr.induct) (auto split: if_splits)

lemma strstr_at_received:
  assumes "received junk s acc k" and "0 < k" and "junk (length acc) = 0"
  shows "strstr_at (rbuf s) n = Inr (map_option (\<lambda>r. length acc - length r) (strstr acc n))"
proof -
  have "cstring (rbuf s) = acc" "0 \<in> set (rbuf s)"
    unfolding received_NUL [OF assms] using assms(1) by (simp_all add: received_def cstring_append_NUL)
  then show ?thesis by (simp add: strstr_at_def split: option.splits)
qed

lemma take_needle_line:
  assumes "take 16 p = n" and "length n = 16" and "13 \<notin> set n"
  shows "16 \<le> length (takeWhile (\<lambda>b. b \<noteq> 13) p)"
proof -
  have "p = n @ drop 16 p" using assms(1) by (metis append_take_drop_id)
  moreover have "takeWhile (\<lambda>b. b \<noteq> 13) (n @ drop 16 p) = n @ takeWhile (\<lambda>b. b \<noteq> 13) (drop 16 p)"
    using assms(3) by (intro takeWhile_append2) auto
  ultimately show ?thesis using assms(2) by (metis le_add1 length_append)
qed

lemma take_line: "take (length (takeWhile P p)) p = takeWhile P p"
  by (metis takeWhile_eq_take)

lemma takeWhile_eq_length: "takeWhile P p = p \<longleftrightarrow> length (takeWhile P p) = length p"
  by (metis take_line take_all order_refl)

lemma parse_length_line:
  assumes "0 \<notin> set p" and "take 16 p = n" and "length n = 16" and "13 \<notin> set n"
    and "junk (length (takeWhile (\<lambda>b. b \<noteq> 13) p) - 16) = 0"
  shows "parse_length junk (p @ 0 # ys) =
    (let line = takeWhile (\<lambda>b. b \<noteq> 13) p in if line = p then Inl OutOfBounds else atoi (drop 16 line))"
proof -
  let ?line = "takeWhile (\<lambda>b. b \<noteq> 13) p"
  have "(length ?line < length p) = (?line \<noteq> p)"
    using length_takeWhile_le [of "\<lambda>b. b \<noteq> 13" p] takeWhile_eq_length [of "\<lambda>b. b \<noteq> 13" p] by linarith
  then have nl: "nl_offset (p @ 0 # ys) = Inr (if ?line = p then 0 else length ?line)"
    using assms(1) by (simp add: nl_offset_def strlen_append_NUL cstring_append_NUL Let_def del: takeWhile_eq_all_conv)
  have l16: "16 \<le> length ?line" using take_needle_line [OF assms(2-4)] .
  have lp: "length ?line \<le> length p" by (rule length_takeWhile_le)
  have tk: "take (length ?line - 16) (drop 16 (p @ 0 # ys)) = drop 16 ?line"
  proof -
    have "take (length ?line - 16) (drop 16 (p @ 0 # ys)) = take (length ?line - 16) (drop 16 p)"
      using l16 lp by simp
    also have "\<dots> = drop 16 (take (length ?line) p)" by (simp add: drop_take)
    finally show ?thesis by (simp only: take_line)
  qed
  have mp: "map junk [length ?line - 16..<length ?line] = 0 # map junk [Suc (length ?line - 16)..<length ?line]"
    using l16 by (intro junk_NUL assms(5)) simp
  have z: "0 \<notin> set (drop 16 ?line)"
    using assms(1) by (meson in_set_dropD set_takeWhileD)
  show ?thesis
  proof (cases "?line = p")
    case True
    show ?thesis unfolding parse_length_def nl if_P [OF True] rbind_simps Let_def by simp
  next
    case False
    then have n: "nl_offset (p @ 0 # ys) = Inr (length ?line)" unfolding nl by (simp only: if_False)
    show ?thesis
      unfolding parse_length_def n rbind_simps Let_def tk mp if_not_P [OF False]
      using l16 strlen_append_NUL [OF z] cstring_append_NUL [OF z] by (simp del: takeWhile_eq_all_conv)
  qed
qed

lemma needle_facts:
  "length clen_lower = 16" "length clen_upper = 16" "13 \<notin> set clen_lower" "13 \<notin> set clen_upper"
  by (simp_all add: clen_lower_def clen_upper_def bs_def)

lemma scan_head_received:
  assumes "received junk s acc k" and "0 < k" and "stops junk acc"
  shows "scan_head junk s = (case announced acc (body_len s) of
      Inl e \<Rightarrow> Inl e | Inr v \<Rightarrow> Inr (s\<lparr>seen := (strstr acc crlfcrlf \<noteq> None), body_len := v\<rparr>))"
proof -
  have j: "junk (length acc) = 0" using assms(3) by (simp add: stops_def)
  have p: "parse_length junk (drop (length acc - length r) (rbuf s)) =
      (let line = takeWhile (\<lambda>b. b \<noteq> 13) r in if line = r then Inl OutOfBounds else atoi (drop 16 line))"
    if n: "strstr acc n = Some r" "length n = 16" "13 \<notin> set n" and l: "length_line acc = Some (takeWhile (\<lambda>b. b \<noteq> 13) r)" for n r
  proof -
    obtain q where q: "acc = q @ r" using strstr_suffix [OF n(1)] by blast
    then have d: "drop (length acc - length r) (rbuf s) = r @ 0 # map junk [Suc (length acc)..<1024 * k]"
      using received_NUL [OF assms(1,2) j] by simp
    have "0 \<notin> set r" using q assms(1) by (simp add: received_def)
    moreover have "junk (length (takeWhile (\<lambda>b. b \<noteq> 13) r) - 16) = 0" using assms(3) l by (simp add: stops_def)
    ultimately show ?thesis
      unfolding d using parse_length_line strstr_starts [OF n(1)] n(2,3) by metis
  qed
  show ?thesis
    using strstr_at_received [OF assms(1,2) j]
    by (cases "strstr acc clen_lower"; cases "strstr acc clen_upper")
       (simp_all add: scan_head_def announced_def p length_line_def needle_facts Let_def rbind_def split: sum.splits)
qed

subsection \<open>Refinement\<close>

lemma spec_header_received:
  assumes "received junk s acc k" and "\<forall>r \<in> set rs. good_chunk r" and "k + n_chunks rs < 2097152"
    and "all_stop junk rs acc" and "0 < k \<Longrightarrow> junk (length acc) = 0" and "seen s = (strstr acc crlfcrlf \<noteq> None)"
  shows "case spec_header windows rs acc (body_len s) of
      None \<Rightarrow> wait_header windows junk rs s = None
    | Some (Inl e) \<Rightarrow> wait_header windows junk rs s = Some (Inl e)
    | Some (Inr ((acc2, v), rest)) \<Rightarrow> \<exists>s2 k2. wait_header windows junk rs s = Some (Inr (s2, rest))
        \<and> received junk s2 acc2 k2 \<and> body_len s2 = v \<and> strstr acc2 crlfcrlf \<noteq> None
        \<and> (0 < k2 \<longrightarrow> junk (length acc2) = 0)
        \<and> all_stop junk rest acc2 \<and> k2 + n_chunks rest < 2097152 \<and> set rest \<subseteq> set rs"
  using assms
proof (induction rs arbitrary: s acc k)
  case Nil
  then show ?case by simp
next
  case (Cons r rs)
  show ?case
  proof (cases r)
    case (Nothing n)
    show ?thesis
    proof (cases "strstr acc crlfcrlf")
      case None
      with Nothing Cons.IH [of s acc k] Cons.prems show ?thesis
        by (auto split: option.splits sum.splits)
    next
      case (Some p)
      with Nothing Cons.prems show ?thesis by auto
    qed
  next
    case (Chunk c)
    then have c: "length c < CLIENT_CHUNK" "0 \<notin> set c" using Cons.prems(2) by (simp_all add: good_chunk_def)
    have "k < 2097151" and st: "stops junk (acc @ c)" "all_stop junk rs (acc @ c)"
      using Cons.prems(3,4) Chunk by simp_all
    from append_chunk_received [OF Cons.prems(1) c this(1)] obtain s1 where
      s1: "append_chunk junk c s = Inr s1" "received junk s1 (acc @ c) (Suc k)" "body_len s1 = body_len s" by blast
    note scan = scan_head_received [OF s1(2) _ st(1), unfolded s1(3), simplified]
    show ?thesis
    proof (cases "announced (acc @ c) (body_len s)")
      case (Inl e)
      with scan s1(1) Chunk show ?thesis by simp
    next
      case (Inr v)
      let ?s2 = "s1\<lparr>seen := (strstr (acc @ c) crlfcrlf \<noteq> None), body_len := v\<rparr>"
      have step: "rbind (append_chunk junk c s) (scan_head junk) = Inr ?s2" using scan s1(1) Inr by simp
      have rec: "received junk ?s2 (acc @ c) (Suc k)" "received junk (?s2\<lparr>timer := True\<rparr>) (acc @ c) (Suc k)"
        using s1(2) by simp_all
      have k: "Suc k + n_chunks rs < 2097152" and g: "\<forall>r \<in> set rs. good_chunk r"
        using Cons.prems(2,3) Chunk by simp_all
      have j: "junk (length (acc @ c)) = 0" using st(1) by (simp add: stops_def)
      note ih = Cons.IH [OF rec(1) g k st(2) j] Cons.IH [OF rec(2) g k st(2) j]
      show ?thesis
      proof (cases "windows \<and> strstr (acc @ c) crlfcrlf \<noteq> None")
        case True
        have "wait_header windows junk (r # rs) s = Some (Inr (?s2, rs))" using step True Chunk by simp
        then show ?thesis using rec(1) Inr Chunk True k j st(2) by auto
      next
        case False
        then show ?thesis using ih step Inr Chunk
          by (cases windows; cases "spec_header windows rs (acc @ c) v") (auto split: sum.splits)
      qed
    qed
  qed
qed

lemma spec_body_received:
  assumes "received junk s acc k" and "0 < k" and "\<forall>r \<in> set rs. good_chunk r" and "k + n_chunks rs < 2097152"
    and "all_stop junk rs acc" and "junk (length acc) = 0"
  shows "case spec_body target rs acc of
      None \<Rightarrow> wait_body junk target rs s = None
    | Some acc2 \<Rightarrow> \<exists>s2 k2. wait_body junk target rs s = Some (Inr s2) \<and> received junk s2 acc2 k2 \<and> 0 < k2"
  using assms
proof (induction rs arbitrary: s acc k)
  case Nil
  then show ?case by simp
next
  case (Cons r rs)
  show ?case
  proof (cases r)
    case (Nothing n)
    have "strlen (rbuf s) = Inr (length acc)"
      by (rule strlen_received [OF Cons.prems(1,2,6)])
    with Nothing Cons.IH [of s acc k] Cons.prems show ?thesis by (auto split: option.splits)
  next
    case (Chunk c)
    then have c: "length c < CLIENT_CHUNK" "0 \<notin> set c" using Cons.prems(3) by (simp_all add: good_chunk_def)
    have k: "k < 2097151" and st: "all_stop junk rs (acc @ c)" "junk (length (acc @ c)) = 0"
      using Cons.prems(4,5) Chunk by (simp_all add: stops_def)
    from append_chunk_received [OF Cons.prems(1) c k] obtain s1 where
      s1: "append_chunk junk c s = Inr s1" "received junk s1 (acc @ c) (Suc k)" by blast
    with Cons.IH [OF s1(2) _ _ _ st] Cons.prems Chunk show ?thesis by (auto split: option.splits)
  qed
qed

text \<open>The reply of a read: the bytes received, and a NUL after them.\<close>

lemma finish_read_received:
  assumes "received junk s acc k" and "0 < k"
  shows "\<exists>b. finish_read s = Inr b \<and> cstring b = acc \<and> length acc < length b"
proof -
  have a: "length acc < 1024 * k" "rbuf s = acc @ map junk [length acc..<1024 * k]" "offset s = length acc"
    "0 \<notin> set acc" using assms by (simp_all add: received_def)
  have "finish_read s = Inr (acc @ 0 # map junk [Suc (length acc)..<1024 * k])"
    using a by (simp add: finish_read_def put_bytes_def drop_map)
  with cstring_append_NUL [OF a(4)] show ?thesis by simp
qed

lemma received_nonempty: "received junk s acc k \<Longrightarrow> acc \<noteq> [] \<Longrightarrow> 0 < k"
  by (cases k) (simp_all add: received_def)

lemma strstr_crlf_nonempty: "strstr acc crlfcrlf \<noteq> None \<Longrightarrow> acc \<noteq> []"
  by (auto simp: crlfcrlf_def)

lemma read_tcp_spec:
  assumes "\<forall>r \<in> set rs. good_chunk r" and "n_chunks rs < 2097152" and "all_stop junk rs []"
  shows "map_option (map_sum id cstring) (read_tcp windows junk rs) = spec_read windows rs"
proof -
  have l: "0 + n_chunks rs < 2097152" using assms(2) by simp
  have z: "seen reader_init = (strstr [] crlfcrlf \<noteq> None)" "body_len reader_init = 0"
    by (simp_all add: reader_init_def crlfcrlf_def)
  note head = spec_header_received [OF received_init assms(1) l assms(3) _ z(1), unfolded z(2), simplified]
  consider "spec_header windows rs [] 0 = None" | e where "spec_header windows rs [] 0 = Some (Inl e)"
    | acc v rest where "spec_header windows rs [] 0 = Some (Inr ((acc, v), rest))"
    by (cases "spec_header windows rs [] 0") (auto, metis old.sum.exhaust surj_pair)
  then show ?thesis
  proof cases
    case 3
    with head [of windows] obtain s k where w: "wait_header windows junk rs reader_init = Some (Inr (s, rest))"
      and s: "received junk s acc k" "body_len s = v" and t: "strstr acc crlfcrlf \<noteq> None"
      and k: "k + n_chunks rest < 2097152" "set rest \<subseteq> set rs" "all_stop junk rest acc"
      and jk: "0 < k \<longrightarrow> junk (length acc) = 0" by auto
    have k0: "0 < k" using received_nonempty [OF s(1) strstr_crlf_nonempty [OF t]] .
    with jk have j: "junk (length acc) = 0" by simp
    from t obtain p where p: "strstr acc crlfcrlf = Some p" by blast
    obtain q where "acc = q @ p" using strstr_suffix [OF p] by blast
    then have lp: "int (length acc - length p) = int (length acc) - int (length p)" by simp
    obtain b where b: "finish_read s = Inr b" "cstring b = acc" using finish_read_received [OF s(1) k0] by blast
    have len: "strlen (rbuf s) = Inr (length acc)" by (rule strlen_received [OF s(1) k0 j])
    have g: "\<forall>r \<in> set rest. good_chunk r" using assms(1) k(2) by blast
    note body = spec_body_received [OF s(1) k0 g k(1) k(3) j]
    let ?t = "int (length acc) - int (length p) + 4 + v"
    have r: "read_tcp windows junk rs =
        map_option (\<lambda>r. rbind r finish_read) (read_body junk rest s)"
      using w by (simp add: read_tcp_def split: option.splits)
    have rb: "read_body junk rest s = (if v = 0 then Some (Inr s) else if \<not> int32 ?t then Some (Inl IntOverflow)
        else if int (length acc) < ?t then wait_body junk ?t rest s else Some (Inr s))"
      using s(2) p len lp by (simp add: read_body_def strstr_at_received [OF s(1) k0 j] Let_def)
    have wb: "map_option (map_sum id cstring) (map_option (\<lambda>r. rbind r finish_read) (wait_body junk ?t rest s))
        = map_option Inr (spec_body ?t rest acc)"
      using body [of ?t] finish_read_received by (cases "spec_body ?t rest acc") fastforce+
    show ?thesis
      unfolding r rb spec_read_def 3 using p b wb by (simp add: Let_def)
  qed (use head [of windows] in \<open>simp_all add: read_tcp_def spec_read_def\<close>)
qed

subsection \<open>A run that goes on\<close>

text \<open>More answers after a run that still waits are answers to the state it waits in.\<close>

lemma wait_header_more:
  "wait_header windows junk rs s = None \<Longrightarrow> \<exists>s2. (\<forall>ys. wait_header windows junk (rs @ ys) s = wait_header windows junk ys s2)"
proof (induction windows junk rs s rule: wait_header.induct)
  case (3 windows junk c rs s)
  then show ?case by (auto split: sum.splits if_splits)
qed (auto split: if_splits)

lemma wait_header_ended:
  "wait_header windows junk rs s = Some r \<Longrightarrow>
     wait_header windows junk (rs @ ys) s = Some (map_sum id (\<lambda>(s2, rest). (s2, rest @ ys)) r)"
  by (induction windows junk rs s rule: wait_header.induct) (auto split: sum.splits if_splits)

lemma wait_body_more:
  "wait_body junk target rs s = None \<Longrightarrow> \<exists>s2. (\<forall>ys. wait_body junk target (rs @ ys) s = wait_body junk target ys s2)"
  by (induction junk target rs s rule: wait_body.induct) (auto split: sum.splits if_splits)

text \<open>A read that waits is in one of the two loops.\<close>

lemma read_body_waits:
  assumes "read_body junk rest s = None"
  obtains target len where "wait_body junk target rest s = None" and "strlen (rbuf s) = Inr len" and "int len < target"
    and "\<And>ys. read_body junk ys s = wait_body junk target ys s"
proof -
  have nz: "body_len s \<noteq> 0" using assms by (auto simp: read_body_def)
  let ?test = "rbind (strstr_at (rbuf s) crlfcrlf) (\<lambda>t. case t of
               None \<Rightarrow> Inl NullDeref
             | Some k \<Rightarrow> let target = int k + 4 + body_len s in
                 if \<not> int32 target then Inl IntOverflow
                 else rbind (strlen (rbuf s)) (\<lambda>len. Inr (target, int len < target)))"
  obtain target where t: "?test = Inr (target, True)"
    using assms nz by (auto simp: read_body_def split: sum.splits if_splits)
  then obtain len where "strlen (rbuf s) = Inr len" "int len < target"
    by (auto simp: rbind_def Let_def split: sum.splits option.splits if_splits)
  with that [of target len] assms nz t show thesis by (simp add: read_body_def)
qed




lemma read_tcp_waits:
  assumes "read_tcp windows junk rs = None"
  obtains s where "\<And>ys. read_tcp windows junk (rs @ ys) =
      (case wait_header windows junk ys s of
        None \<Rightarrow> None
      | Some (Inl e) \<Rightarrow> Some (Inl e)
      | Some (Inr (s, rest)) \<Rightarrow>
          (case read_body junk rest s of None \<Rightarrow> None | Some r \<Rightarrow> Some (rbind r finish_read)))"
  | s target where "\<And>ys. read_tcp windows junk (rs @ ys) =
      map_option (\<lambda>r. rbind r finish_read) (wait_body junk target ys s)"
proof (cases "wait_header windows junk rs reader_init")
  case None
  then obtain s where "\<And>ys. wait_header windows junk (rs @ ys) reader_init = wait_header windows junk ys s"
    using wait_header_more by blast
  then show ?thesis by (intro that(1) [of s]) (simp add: read_tcp_def)
next
  case (Some r)
  then obtain s rest where r: "r = Inr (s, rest)" and b: "read_body junk rest s = None"
    using assms by (auto simp: read_tcp_def split: sum.splits option.splits)
  obtain target where t: "wait_body junk target rest s = None"
    "\<And>ys. read_body junk ys s = wait_body junk target ys s"
    using read_body_waits [OF b] by blast
  obtain s2 where s2: "\<And>ys. wait_body junk target (rest @ ys) s = wait_body junk target ys s2"
    using wait_body_more [OF t(1)] by blast
  have "read_tcp windows junk (rs @ ys) = map_option (\<lambda>r. rbind r finish_read) (wait_body junk target ys s2)" for ys
    using wait_header_ended [OF Some, of ys] r t(2) [of "rest @ ys"] s2 [of ys]
    by (simp add: read_tcp_def split: option.splits)
  then show ?thesis by (rule that(2))
qed

lemma wait_header_full: "length c \<ge> CLIENT_CHUNK \<Longrightarrow> wait_header windows junk (Chunk c # rs) s = Some (Inl OutOfBounds)"
  by (simp add: append_chunk_def)

lemma wait_body_full: "length c \<ge> CLIENT_CHUNK \<Longrightarrow> wait_body junk target (Chunk c # rs) s = Some (Inl OutOfBounds)"
  by (simp add: append_chunk_def)




text \<open>A search for something that is not there, when the block holds no NUL either.\<close>

lemma cstring_no_NUL: "0 \<notin> set b \<Longrightarrow> cstring b = b"
  by (auto simp: cstring_def takeWhile_eq_all_conv)

lemma strstr_at_no_NUL: "0 \<notin> set b \<Longrightarrow> strstr_at b n = (case strstr b n of None \<Rightarrow> Inl OutOfBounds
    | Some rest \<Rightarrow> Inr (Some (length b - length rest)))"
  unfolding strstr_at_def by (simp add: cstring_no_NUL split: option.splits)

lemma scan_head_runs_out:
  assumes "0 \<notin> set (rbuf s)" and "n = crlfcrlf \<or> n = clen_lower \<or> n = clen_upper" and "strstr (rbuf s) n = None"
  shows "scan_head junk s = Inl OutOfBounds"
  using assms(2,3) by (auto simp: scan_head_def strstr_at_no_NUL [OF assms(1)] rbind_def split: option.splits)

subsection \<open>Properties\<close>

text \<open>C11. For a client that sends chunks below \<open>CLIENT_CHUNK\<close> bytes without NULs,
  fewer than 2097152 of them, and as long as the memory itself goes on with a NUL after the bytes
  received and after the copied length, the reader with its growing buffer, copies and searches
  implements the abstract one: it returns, waits or faults exactly when that does, and the string
  it returns is every byte received. What else is in the memory, and how many receives bring
  nothing, does not matter.\<close>

theorem puny_read_refines:
  assumes "\<forall>r \<in> set rs. good_chunk r" and "n_chunks rs < 2097152" and "all_stop junk rs []"
  shows "map_option (map_sum id cstring) (read_tcp windows junk rs) = spec_read windows rs"
  by (rule read_tcp_spec[OF assms])

text \<open>C12. What stops the server. A chunk that fills the receive buffer, whenever the reader still
  waits for input, makes the NUL land after it. A first chunk below that size without NULs ends it
  in two ways: when the fresh memory holds no NUL and one of the three texts searched for does not
  occur, the search runs out of the block; when the memory does go on with a NUL but the chunk
  ends inside the line of the length, the copy of the value gets a negative size.\<close>

theorem puny_request_crashes:
  assumes "read_tcp windows junk pre = None \<and> length c = CLIENT_CHUNK
    \<or> pre = [] \<and> good_chunk (Chunk c) \<and> 0 \<notin> set (map junk [length c..<CLIENT_CHUNK])
        \<and> (strstr (c @ map junk [length c..<CLIENT_CHUNK]) crlfcrlf = None
          \<or> strstr (c @ map junk [length c..<CLIENT_CHUNK]) clen_lower = None
          \<or> strstr (c @ map junk [length c..<CLIENT_CHUNK]) clen_upper = None)
    \<or> pre = [] \<and> good_chunk (Chunk c) \<and> stops junk c \<and> announced c 0 = Inl OutOfBounds"
  shows "read_tcp windows junk (pre @ Chunk c # rs) = Some (Inl OutOfBounds)"
proof -
  consider (full) "read_tcp windows junk pre = None" "CLIENT_CHUNK \<le> length c"
    | (search) n where "pre = []" "good_chunk (Chunk c)" "0 \<notin> set (map junk [length c..<CLIENT_CHUNK])"
        "n = crlfcrlf \<or> n = clen_lower \<or> n = clen_upper" "strstr (c @ map junk [length c..<CLIENT_CHUNK]) n = None"
    | (line) "pre = []" "good_chunk (Chunk c)" "stops junk c" "announced c 0 = Inl OutOfBounds"
    using assms by (elim disjE conjE) auto
  then show ?thesis
  proof cases
    case full
    from full(1) show ?thesis
      by (cases rule: read_tcp_waits)
        (simp_all only: wait_header_full [OF full(2)] wait_body_full [OF full(2)] option.case sum.case
          option.map rbind_simps)
  next
    case search
    then have c: "length c < CLIENT_CHUNK" "0 \<notin> set c" by (simp_all add: good_chunk_def)
    from append_chunk_received [OF received_init c, of junk] obtain s1 where
      s1: "append_chunk junk c reader_init = Inr s1" "received junk s1 c 1" by auto
    then have "rbuf s1 = c @ map junk [length c..<CLIENT_CHUNK]" by (simp add: received_def CLIENT_CHUNK_def)
    then have "scan_head junk s1 = Inl OutOfBounds"
      using search c by (intro scan_head_runs_out [of s1 n]) auto
    with s1(1) search(1) show ?thesis by (simp add: read_tcp_def)
  next
    case line
    then have c: "length c < CLIENT_CHUNK" "0 \<notin> set c" by (simp_all add: good_chunk_def)
    from append_chunk_received [OF received_init c, of junk] obtain s1 where
      "append_chunk junk c reader_init = Inr s1" "received junk s1 c 1" "body_len s1 = 0"
      by (auto simp: reader_init_def)
    then show ?thesis using line scan_head_received [of junk s1 c 1] by (simp add: read_tcp_def)
  qed
qed

text \<open>A request that is not complete: the header has no end, or the body is shorter than announced.\<close>

definition incomplete :: "bytes \<Rightarrow> bool" where
  "incomplete c \<longleftrightarrow> (case announced c 0 of Inl e \<Rightarrow> False | Inr v \<Rightarrow>
     (case strstr c crlfcrlf of None \<Rightarrow> True
      | Some p \<Rightarrow> v \<noteq> 0 \<and> int32 (int (length c) - int (length p) + 4 + v) \<and> int (length p) < 4 + v))"

lemma spec_read_incomplete:
  assumes "incomplete c"
  shows "spec_read windows [Chunk c, Nothing m] = None"
  using assms by (cases "announced c 0"; cases "strstr c crlfcrlf") (auto simp: incomplete_def spec_read_def Let_def)

lemma read_tcp_incomplete:
  assumes "good_chunk (Chunk c)" and "stops junk c" and "incomplete c"
  shows "read_tcp windows junk [Chunk c, Nothing m] = None"
  using read_tcp_spec [of "[Chunk c, Nothing m]" junk windows] spec_read_incomplete [OF assms(3)] assms(1,2)
  by (simp add: good_chunk_def)


subsection \<open>Witnesses\<close>

definition demo_head :: bytes where
  "demo_head = bs ''Content-Length: 4'' @ crlfcrlf @ bs ''ab''"

lemmas demo_simps = demo_head_def crlfcrlf_def clen_lower_def clen_upper_def bs_def good_chunk_def CLIENT_CHUNK_def
  announced_def atoi_def digits_val_def isdigit_def isspace_def hexval_def int32_def Let_def

lemma demo_announced: "announced demo_head 0 = Inr 4" "strstr demo_head crlfcrlf = Some (crlfcrlf @ bs ''ab'')"
  by (simp_all add: demo_simps)

lemma demo_good: "good_chunk (Chunk demo_head)" "length demo_head = 23"
  by (simp_all add: demo_simps)

text \<open>Memory full of sevens but for the places the run above relies on.\<close>

definition demo_junk :: "nat \<Rightarrow> byte" where
  "demo_junk i = (if i = 1 \<or> i = 23 \<or> i = 25 then 0 else 7)"

lemma demo_stops: "stops demo_junk demo_head" "stops demo_junk (demo_head @ bs ''cd'')"
  by (simp_all add: stops_def length_line_def demo_junk_def demo_simps)

lemma demo_incomplete: "incomplete demo_head"
  using demo_announced demo_good(2) by (simp add: incomplete_def int32_def crlfcrlf_def bs_def)

lemma strstr_None: "x \<in> set n \<Longrightarrow> x \<notin> set h \<Longrightarrow> strstr h n = None"
proof (rule ccontr)
  assume x: "x \<in> set n" "x \<notin> set h" and "strstr h n \<noteq> None"
  then obtain r where r: "strstr h n = Some r" by blast
  from strstr_suffix [OF r] have "set r \<subseteq> set h" by auto
  moreover have "set n \<subseteq> set r" using strstr_starts [OF r] by (metis set_take_subset)
  ultimately show False using x by blast
qed

theorem puny_read_refines_witness:
  "map_option (map_sum id cstring) (read_tcp False demo_junk [Chunk demo_head, Nothing (-1), Chunk (bs ''cd''), Nothing 0]) =
     Some (Inr (demo_head @ bs ''cd''))"
proof -
  let ?rs = "[Chunk demo_head, Nothing (-1), Chunk (bs ''cd''), Nothing 0]"
  have g: "\<forall>r \<in> set ?rs. good_chunk r"
    using demo_good by (simp add: good_chunk_def CLIENT_CHUNK_def bs_def)
  have st: "all_stop demo_junk ?rs []" using demo_stops by simp
  have "spec_read False ?rs = Some (Inr (demo_head @ bs ''cd''))"
    using demo_good by (simp add: spec_read_def demo_announced Let_def)
      (simp add: int32_def crlfcrlf_def bs_def)
  then show ?thesis using puny_read_refines [OF g _ st, of False] by simp
qed

theorem puny_request_crashes_witness:
  "read_tcp False clean [Chunk (bs ''Content-Length: 1''), Nothing 0] = Some (Inl OutOfBounds)
   \<and> read_tcp True (\<lambda>_. 7) [Chunk (bs ''GET''), Nothing 0] = Some (Inl OutOfBounds)
   \<and> read_tcp False demo_junk [Chunk demo_head, Nothing 0, Chunk (replicate 1024 65)] = Some (Inl OutOfBounds)"
proof (intro conjI)
  have "good_chunk (Chunk (bs ''Content-Length: 1''))" "announced (bs ''Content-Length: 1'') 0 = Inl OutOfBounds"
    by (simp_all add: demo_simps)
  then show "read_tcp False clean [Chunk (bs ''Content-Length: 1''), Nothing 0] = Some (Inl OutOfBounds)"
    using puny_request_crashes [of False clean "[]" "bs ''Content-Length: 1''" "[Nothing 0]"] by simp
  have sevens: "0 \<notin> set (map (\<lambda>_. 7::byte) [length (bs ''GET'')..<CLIENT_CHUNK])" by auto
  have "strstr (bs ''GET'' @ map (\<lambda>_. 7) [length (bs ''GET'')..<CLIENT_CHUNK]) crlfcrlf = None"
    by (rule strstr_None [of 13]) (auto simp: crlfcrlf_def bs_def)
  moreover have "good_chunk (Chunk (bs ''GET''))" by (simp add: demo_simps)
  ultimately show "read_tcp True (\<lambda>_. 7) [Chunk (bs ''GET''), Nothing 0] = Some (Inl OutOfBounds)"
    using puny_request_crashes [of True "\<lambda>_. 7" "[]" "bs ''GET''" "[Nothing 0]", unfolded append_Nil]
      sevens by blast
  have "read_tcp False demo_junk [Chunk demo_head, Nothing 0] = None"
    by (rule read_tcp_incomplete [OF demo_good(1) demo_stops(1) demo_incomplete])
  then show "read_tcp False demo_junk [Chunk demo_head, Nothing 0, Chunk (replicate 1024 65)] = Some (Inl OutOfBounds)"
    using puny_request_crashes [of False demo_junk "[Chunk demo_head, Nothing 0]" "replicate 1024 65" "[]"]
    by (simp add: CLIENT_CHUNK_def)
qed


end
