(* ===== verification/Puny.thy ===== *)
theory Puny
  imports PunyRead Udp
begin

text \<open>
  \<^verbatim>\<open>src/puny-server.c\<close> and \<^verbatim>\<open>src/puny-server-wrap.c\<close>: the listening
  socket on POSIX and on Windows, the accept loop, the thread of a client and the callback that
  hands the request to a Janet handler. The interpreter the callback starts is a parameter: what
  \<open>janet_dostring\<close> leaves in \<open>ret\<close> for a source text.
\<close>

subsection \<open>The callback\<close>

text \<open>The source text the callback evaluates, \<open>%s\<close> replaced.\<close>

definition embed_text :: "bytes \<Rightarrow> bytes \<Rightarrow> bytes" where
  "embed_text handler request =
     bs ''(import '' @ handler @ bs '' :as h) (h/main '' @ [10] @ bs ''```'' @ request @ [10] @ bs ''```)''"

text \<open>What the callback returns: a literal of the program, or a pointer into the Janet heap,
  which \<open>janet_deinit\<close> has freed by then.\<close>

datatype reply_text = Literal bytes | Freed

definition error_reply :: bytes where
  "error_reply =
     bs ''HTTP/1.1 500 Internal Server Error'' @ [10] @ bs ''Content-Type: text/html'' @ [10]
     @ bs ''Content-Length: 25'' @ [10] @ bs ''Connection: close'' @ [10, 10] @ bs ''500 Internal Server Error''"

definition janet_universal_cb :: "(bytes \<Rightarrow> janet) \<Rightarrow> bytes \<Rightarrow> bytes \<Rightarrow> fault + reply_text" where
  "janet_universal_cb dostring handler request =
     (let embed = embed_text handler request in
      if length embed + 1 > 200 + length request then Inl OutOfBounds
      else Inr (case dostring embed of JString s \<Rightarrow> Freed | _ \<Rightarrow> Literal error_reply))"

definition get_version :: "bytes \<Rightarrow> fault + reply_text" where
  "get_version request = Inr (Literal
     (bs ''HTTP/1.1 200 OK'' @ [10] @ bs ''Content-Type: text/html'' @ [10] @ bs ''Content-Length: 7'' @ [10]
      @ bs ''Connection: close'' @ [10, 10] @ [34] @ bs ''0.0.1'' @ [34]))"

subsection \<open>Serving one client\<close>

datatype serve_call = Send int bytes | Shutdown int | CloseSock int

text \<open>\<open>None\<close>: the read never returns.\<close>

definition http_send_client_response ::
  "bool \<Rightarrow> (nat \<Rightarrow> byte) \<Rightarrow> (bytes \<Rightarrow> fault + reply_text) option \<Rightarrow> int \<Rightarrow> recv list
     \<Rightarrow> (fault + serve_call list) option" where
  "http_send_client_response windows junk callback csock rs =
     (case read_tcp windows junk rs of
        None \<Rightarrow> None
      | Some r \<Rightarrow> Some (
          rbind r (\<lambda>buf.
          rbind ((case callback of None \<Rightarrow> get_version | Some cb \<Rightarrow> cb) (cstring buf)) (\<lambda>response.
          case response of
            Freed \<Rightarrow> Inl UseAfterFree
          | Literal text \<Rightarrow> Inr [Send csock text, Shutdown csock]))))"

definition thread_fn ::
  "bool \<Rightarrow> (nat \<Rightarrow> byte) \<Rightarrow> (bytes \<Rightarrow> fault + reply_text) option \<Rightarrow> int \<Rightarrow> recv list
     \<Rightarrow> (fault + serve_call list) option" where
  "thread_fn windows junk callback csock rs =
     map_option (map_sum id (\<lambda>calls. calls @ [CloseSock csock]))
       (http_send_client_response windows junk callback csock rs)"

definition http_send_header_success :: "int \<Rightarrow> serve_call list" where
  "http_send_header_success csock =
     [Send csock (bs ''HTTP/1.1 200 OK'' @ [10]), Send csock (bs ''Content-Type: text/html'' @ [10]),
      Send csock (bs ''Content-Length: 7'' @ [10]), Send csock (bs ''Connection: close'' @ [10, 10])]"

subsection \<open>The accept loop\<close>

text \<open>What happens while the loop runs: an answer of \<open>accept\<close>, or the signal whose handler
  clears \<open>keep_running\<close> and, with a socket set, closes it and leaves the process.\<close>

datatype server_event = Accepted int | Sigint

datatype server_out = Timeout int nat | Spawn int | AcceptError | CloseServer int | WsaCleanup | ExitProcess

record server =
  server_sock :: int
  keep_running :: bool
  exited :: bool

definition sigint_handler :: "bool \<Rightarrow> server \<Rightarrow> server \<times> server_out list" where
  "sigint_handler windows s =
     (let s = s\<lparr>keep_running := False\<rparr> in
      if server_sock s \<noteq> 0
      then (s\<lparr>exited := True\<rparr>, [CloseServer (server_sock s)] @ (if windows then [WsaCleanup] else []) @ [ExitProcess])
      else (s, []))"

definition accepted :: "int \<Rightarrow> server_out list" where
  "accepted csock = (if csock < 0 then [] else if csock = -1 then [AcceptError] else [Spawn csock])"

fun accept_loop :: "bool \<Rightarrow> server_event list \<Rightarrow> server \<Rightarrow> server \<times> server_out list" where
  "accept_loop windows [] s = (s, [])"
| "accept_loop windows (e # es) s =
     (if exited s \<or> \<not> keep_running s then (s, [])
      else case e of
        Accepted c \<Rightarrow> (case accept_loop windows es s of (s2, out) \<Rightarrow> (s2, accepted c @ out))
      | Sigint \<Rightarrow> (case sigint_handler windows s of (s1, out1) \<Rightarrow>
          case accept_loop windows es s1 of (s2, out) \<Rightarrow> (s2, out1 @ out)))"

definition take_connections_forever :: "bool \<Rightarrow> int \<Rightarrow> server_event list \<Rightarrow> server \<Rightarrow> server \<times> server_out list" where
  "take_connections_forever windows ssock es s =
     (case accept_loop windows es s of (s2, out) \<Rightarrow> (s2, Timeout ssock 500 # out))"

subsection \<open>The listening socket\<close>

definition MAX_ENQUEUED :: nat where "MAX_ENQUEUED = 20"

datatype sock_call =
    WStartup
  | WCleanup
  | LookUp bytes
  | NewSocket int int int
  | Sigaction
  | ReuseAddr int
  | BindTo int bytes
  | FreeAddr
  | Listen int nat
  | CloseOf int

definition make_sock_posix :: "(sock_call, udp_reply) os \<Rightarrow> bytes \<Rightarrow> (sock_call, int) prog" where
  "make_sock_posix os port =
     bind (safe (guard_or (length port + 1 \<le> 10) OutOfBounds)) (\<lambda>_.
     bind (syscall os (LookUp port)) (\<lambda>r.
     if fst (as_addresses r) \<noteq> 0 then die
     else case snd (as_addresses r) of None \<Rightarrow> crash NullDeref | Some res \<Rightarrow>
     bind (syscall os (NewSocket (ai_family res) (ai_socktype res) (ai_protocol res))) (\<lambda>s.
     let sock = as_int s in
     if sock = -1 then die else
     bind (syscall os Sigaction) (\<lambda>g.
     if as_int g = -1 then die else
     bind (syscall os (ReuseAddr sock)) (\<lambda>_.
     bind (syscall os (BindTo sock (ai_addr res))) (\<lambda>b.
     if as_int b \<noteq> 0 then die else
     bind (syscall os FreeAddr) (\<lambda>_.
     bind (syscall os (Listen sock MAX_ENQUEUED)) (\<lambda>l.
     if as_int l \<noteq> 0 then die else ret sock))))))))"

text \<open>\<open>INVALID_SOCKET\<close> and \<open>SOCKET_ERROR\<close> are -1; the backlog is \<open>SOMAXCONN\<close>.\<close>

definition make_sock_windows :: "(sock_call, udp_reply) os \<Rightarrow> bytes \<Rightarrow> (sock_call, int) prog" where
  "make_sock_windows os port =
     bind (syscall os WStartup) (\<lambda>w.
     if as_int w \<noteq> 0 then ret 1 else
     bind (syscall os (LookUp port)) (\<lambda>r.
     if fst (as_addresses r) \<noteq> 0 then bind (syscall os WCleanup) (\<lambda>_. ret 1)
     else case snd (as_addresses r) of None \<Rightarrow> crash NullDeref | Some res \<Rightarrow>
     bind (syscall os (NewSocket (ai_family res) (ai_socktype res) (ai_protocol res))) (\<lambda>s.
     let sock = as_int s in
     if sock = -1 then bind (syscall os FreeAddr) (\<lambda>_. bind (syscall os WCleanup) (\<lambda>_. ret 1)) else
     bind (syscall os (ReuseAddr sock)) (\<lambda>_.
     bind (syscall os (BindTo sock (ai_addr res))) (\<lambda>b.
     if as_int b = -1
     then bind (syscall os FreeAddr) (\<lambda>_. bind (syscall os (CloseOf sock)) (\<lambda>_. bind (syscall os WCleanup) (\<lambda>_. ret 1)))
     else
     bind (syscall os FreeAddr) (\<lambda>_.
     bind (syscall os (Listen sock 2147483647)) (\<lambda>l.
     if as_int l = -1 then bind (syscall os (CloseOf sock)) (\<lambda>_. bind (syscall os WCleanup) (\<lambda>_. ret 1))
     else ret sock)))))))"

definition make_sock :: "bool \<Rightarrow> (sock_call, udp_reply) os \<Rightarrow> bytes \<Rightarrow> (sock_call, int) prog" where
  "make_sock windows os port = (if windows then make_sock_windows os port else make_sock_posix os port)"

text \<open>\<open>puny-server/start\<close> up to its loop: the server it runs and the calls made.\<close>

definition puny_server_start_wrap ::
  "bool \<Rightarrow> (sock_call, udp_reply) os \<Rightarrow> janet list \<Rightarrow> server \<Rightarrow> (sock_call, bytes \<times> server) prog" where
  "puny_server_start_wrap windows os argv s =
     bind (checked (janet_fixarity (length argv) 2)) (\<lambda>_.
     bind (checked (janet_getcstring argv 0)) (\<lambda>my_handler.
     bind (checked (janet_getcstring argv 1)) (\<lambda>port.
     bind (make_sock windows os port) (\<lambda>sock.
     ret (my_handler, s\<lparr>server_sock := sock\<rparr>)))))"

subsection \<open>Lemmas\<close>

lemma length_embed_text: "length (embed_text h r) = 33 + length h + length r"
  by (simp add: embed_text_def bs_def)

lemma embed_text_tail:
  "drop (16 + length h) (embed_text h y) = bs ''(h/main '' @ [10] @ bs ''```'' @ y @ [10] @ bs ''```)''"
proof -
  let ?pre = "bs ''(import '' @ h @ bs '' :as h) ''"
  have "embed_text h y = ?pre @ bs ''(h/main '' @ [10] @ bs ''```'' @ y @ [10] @ bs ''```)''"
    by (simp add: embed_text_def bs_def)
  moreover have "length ?pre = 16 + length h" by (simp add: bs_def)
  ultimately show ?thesis by (metis append_eq_conv_conj)
qed

lemma accept_loop_stopped: "exited s \<or> \<not> keep_running s \<Longrightarrow> accept_loop windows es s = (s, [])"
  by (cases es) auto

text \<open>The connections taken are those before the first signal, in order.\<close>

fun before_signal :: "server_event list \<Rightarrow> server_event list" where
  "before_signal [] = []"
| "before_signal (Sigint # es) = []"
| "before_signal (Accepted c # es) = Accepted c # before_signal es"

definition spawned :: "server_event list \<Rightarrow> server_out list" where
  "spawned es = concat (map (\<lambda>e. case e of Accepted c \<Rightarrow> if c < 0 then [] else [Spawn c] | Sigint \<Rightarrow> []) es)"

lemma accepted_eq: "accepted c = (if c < 0 then [] else [Spawn c])"
  by (simp add: accepted_def)

lemma accept_loop_running:
  assumes "keep_running s" and "\<not> exited s"
  shows "snd (accept_loop windows es s) = spawned (before_signal es)
      @ (if Sigint \<in> set es \<and> server_sock s \<noteq> 0
         then CloseServer (server_sock s) # (if windows then [WsaCleanup] else []) @ [ExitProcess] else [])
    \<and> keep_running (fst (accept_loop windows es s)) = (Sigint \<notin> set es)"
  using assms
proof (induction es rule: before_signal.induct)
  case 1
  then show ?case by (simp add: spawned_def)
next
  case (2 es)
  then show ?case
    by (cases "server_sock s = 0")
      (simp_all add: sigint_handler_def Let_def accept_loop_stopped spawned_def split: prod.splits)
next
  case (3 c es)
  then show ?case by (auto simp: spawned_def accepted_eq split: prod.splits)
qed

subsection \<open>Properties\<close>

text \<open>The callback. A handler name of more than 166 bytes overflows the buffer for the source
  text, whatever the request. For a shorter one, a request can close the long string it is put
  into: the text evaluated then runs the client's own forms between two calls of the handler. And
  a handler that returns a string, as it must, is answered with memory the interpreter has freed,
  while any other value is answered with the fixed error page.\<close>

theorem puny_callback:
  "(janet_universal_cb dostring h r = Inl OutOfBounds) = (166 < length h)
   \<and> embed_text h (x @ [10] @ bs ''```)'' @ forms @ bs ''(h/main '' @ [10] @ bs ''```'' @ y)
       = embed_text h x @ forms @ drop (16 + length h) (embed_text h y)
   \<and> thread_fn windows junk (Some (janet_universal_cb dostring h)) csock rs =
      (case read_tcp windows junk rs of None \<Rightarrow> None | Some (Inl e) \<Rightarrow> Some (Inl e)
       | Some (Inr buf) \<Rightarrow> Some (
          if 166 < length h then Inl OutOfBounds
          else if janet_checktype (dostring (embed_text h (cstring buf))) JANET_STRING then Inl UseAfterFree
          else Inr [Send csock error_reply, Shutdown csock, CloseSock csock]))"
proof (intro conjI)
  have l: "length (embed_text h r2) + 1 > 200 + length r2 \<longleftrightarrow> 166 < length h" for r2
    by (simp add: length_embed_text)
  show "(janet_universal_cb dostring h r = Inl OutOfBounds) = (166 < length h)"
    using l [of r] by (simp add: janet_universal_cb_def Let_def)
  show "embed_text h (x @ [10] @ bs ''```)'' @ forms @ bs ''(h/main '' @ [10] @ bs ''```'' @ y)
       = embed_text h x @ forms @ drop (16 + length h) (embed_text h y)"
    unfolding embed_text_tail by (simp add: embed_text_def bs_def)
  show "thread_fn windows junk (Some (janet_universal_cb dostring h)) csock rs =
      (case read_tcp windows junk rs of None \<Rightarrow> None | Some (Inl e) \<Rightarrow> Some (Inl e)
       | Some (Inr buf) \<Rightarrow> Some (
          if 166 < length h then Inl OutOfBounds
          else if janet_checktype (dostring (embed_text h (cstring buf))) JANET_STRING then Inl UseAfterFree
          else Inr [Send csock error_reply, Shutdown csock, CloseSock csock]))"
  proof (cases "read_tcp windows junk rs")
    case (Some res)
    then show ?thesis
    proof (cases res)
      case (Inr buf)
      with Some l [of "cstring buf"] show ?thesis
        by (cases "dostring (embed_text h (cstring buf))")
          (simp_all add: thread_fn_def http_send_client_response_def janet_universal_cb_def Let_def)
    qed (simp add: thread_fn_def http_send_client_response_def)
  qed (simp add: thread_fn_def http_send_client_response_def)
qed

text \<open>The accept loop starts one thread for each descriptor it accepts, in order, skips every
  failure (so its report of a failed accept is dead code), and takes none after an interrupt,
  which closes the server socket once and leaves the process; with descriptor 0 as the socket the
  interrupt only ends the loop.\<close>

theorem puny_accept_loop:
  assumes "keep_running s" and "\<not> exited s"
  shows "snd (take_connections_forever windows ssock es s) = Timeout ssock 500 # spawned (before_signal es)
      @ (if Sigint \<in> set es \<and> server_sock s \<noteq> 0
         then CloseServer (server_sock s) # (if windows then [WsaCleanup] else []) @ [ExitProcess] else [])
    \<and> AcceptError \<notin> set (snd (take_connections_forever windows ssock es s))
    \<and> keep_running (fst (take_connections_forever windows ssock es s)) = (Sigint \<notin> set es)"
proof -
  have "AcceptError \<notin> set (spawned xs)" for xs by (auto simp: spawned_def split: server_event.splits if_splits)
  then show ?thesis using accept_loop_running [OF assms, of windows es]
    by (auto simp: take_connections_forever_def split: prod.splits)
qed

theorem puny_accept_loop_witness:
  "snd (take_connections_forever True 9 [Accepted 4, Accepted (-1), Accepted 5, Sigint, Accepted 6]
     \<lparr>server_sock = 9, keep_running = True, exited = False\<rparr>) =
   [Timeout 9 500, Spawn 4, Spawn 5, CloseServer 9, WsaCleanup, ExitProcess]"
  using puny_accept_loop [of "\<lparr>server_sock = 9, keep_running = True, exited = False\<rparr>" True 9
      "[Accepted 4, Accepted (-1), Accepted 5, Sigint, Accepted 6]"]
  by (simp add: spawned_def)

text \<open>Making the listening socket on Windows: a call that fails gives back what it acquired
  (the address list, the socket and the socket library, each exactly once) and returns 1, which
  the caller then serves as if it were a descriptor; one that succeeds returns the socket it
  listens on and keeps the library.\<close>

theorem puny_make_sock_windows:
  assumes "\<And>tr p. \<exists>e a. os tr (LookUp p) = Addresses e a \<and> (e = 0 \<longrightarrow> a \<noteq> None)"
  shows "\<exists>v tr. make_sock True os port [] = (Value v, tr)
    \<and> ((\<exists>pre. tr = pre @ [Listen v 2147483647] \<and> v \<noteq> -1 \<and> count_list tr FreeAddr = 1 \<and> WCleanup \<notin> set tr \<and> CloseOf v \<notin> set tr)
     \<or> v = 1 \<and> count_list tr WCleanup = (if as_int (os [] WStartup) = 0 then 1 else 0)
       \<and> count_list tr FreeAddr = (if \<exists>f t p. NewSocket f t p \<in> set tr then 1 else 0)
       \<and> (\<forall>s. count_list tr (CloseOf s) = (if ReuseAddr s \<in> set tr then 1 else 0)))"
proof -
  obtain e a where l: "os [WStartup] (LookUp port) = Addresses e a" "e = 0 \<longrightarrow> a \<noteq> None" using assms by blast
  show ?thesis
  proof (cases "as_int (os [] WStartup) = 0 \<and> e = 0")
    case False
    then show ?thesis using l
      by (auto simp: make_sock_def make_sock_windows_def prog_simps as_addresses_def)
  next
    case True
    with l obtain r where r: "a = Some r" by blast
    let ?s = "NewSocket (ai_family r) (ai_socktype r) (ai_protocol r)"
    let ?t1 = "[WStartup, LookUp port, ?s]"
    let ?v = "as_int (os [WStartup, LookUp port] ?s)"
    let ?t2 = "?t1 @ [ReuseAddr ?v]"
    show ?thesis
    proof (cases "?v = -1")
      case True
      with \<open>as_int (os [] WStartup) = 0 \<and> e = 0\<close> l r show ?thesis
        by (simp add: make_sock_def make_sock_windows_def prog_simps as_addresses_def Let_def)
    next
      case v: False
      show ?thesis
        using \<open>as_int (os [] WStartup) = 0 \<and> e = 0\<close> l r v
        by (cases "as_int (os ?t2 (BindTo ?v (ai_addr r))) = -1";
            cases "as_int (os (?t2 @ [BindTo ?v (ai_addr r), FreeAddr]) (Listen ?v 2147483647)) = -1")
          (simp_all add: make_sock_def make_sock_windows_def prog_simps as_addresses_def Let_def)
    qed
  qed
qed

theorem puny_make_sock_windows_witness:
  "let os = (\<lambda>tr c. case c of
        LookUp _ \<Rightarrow> Addresses 0 (Some \<lparr>ai_family = 2, ai_socktype = 1, ai_protocol = 6, ai_addr = [9]\<rparr>)
      | Listen _ _ \<Rightarrow> Ret (-1) | WStartup \<Rightarrow> Ret 0 | _ \<Rightarrow> Ret 3) in
   make_sock True os (bs ''80'') [] = (Value 1, [WStartup, LookUp (bs ''80''), NewSocket 2 1 6, ReuseAddr 3, BindTo 3 [9],
     FreeAddr, Listen 3 2147483647, CloseOf 3, WCleanup])
   \<and> (\<exists>v tr. make_sock True os (bs ''80'') [] = (Value v, tr) \<and> (v \<noteq> 1 \<longrightarrow> WCleanup \<notin> set tr))"
  unfolding Let_def
  using puny_make_sock_windows [of "\<lambda>tr c. case c of
        LookUp _ \<Rightarrow> Addresses 0 (Some \<lparr>ai_family = 2, ai_socktype = 1, ai_protocol = 6, ai_addr = [9]\<rparr>)
      | Listen _ _ \<Rightarrow> Ret (-1) | WStartup \<Rightarrow> Ret 0 | _ \<Rightarrow> Ret 3" "bs ''80''"]
  by (simp add: make_sock_def make_sock_windows_def prog_simps as_addresses_def as_int_def Let_def)

end
