(* ===== verification/Server.thy ===== *)
theory Server
  imports Pobox Puny
begin

text \<open>
  The server and the atom store together: every client has a thread of its own
  (\<^verbatim>\<open>puny-server.c\<close>), the thread evaluates the handler in an interpreter of its own
  (\<^verbatim>\<open>puny-server-wrap.c\<close>), and the handlers share the atom store of the process
  (\<^verbatim>\<open>pobox.c\<close>). The interpreter is a parameter: what evaluating a text asks of the
  store, step by step, as a tree that goes on with the outcome of each call.
\<close>

subsection \<open>Threads of clients\<close>

datatype script =
    Answer janet
  | Import script \<comment> \<open>loads the module: its entry runs \<open>ensure_office\<close>\<close>
  | Store request "outcome \<Rightarrow> script"

datatype conn =
    Idle
  | Running script
  | Linking script \<comment> \<open>has seen \<open>office\<close> as NULL and is about to set it\<close>
  | Locked request "outcome \<Rightarrow> script" \<comment> \<open>between the lock and the unlock\<close>
  | Hung
  | Served "fault + serve_call list"

record app =
  abox :: pobox
  conns :: "int \<Rightarrow> conn"
  alog :: "(nat \<times> request \<times> outcome) list"

text \<open>The end of \<open>http_send_client_response\<close> and of \<open>thread_fn\<close>, from what the
  evaluation left in \<open>ret\<close>.\<close>

definition reply :: "int \<Rightarrow> janet \<Rightarrow> fault + serve_call list" where
  "reply csock v = (if janet_checktype v JANET_STRING then Inl UseAfterFree
     else Inr [Send csock error_reply, Shutdown csock, CloseSock csock])"

text \<open>The start of the thread: read the request, make the text, evaluate it.\<close>

definition begin_serving :: "bool \<Rightarrow> (nat \<Rightarrow> byte) \<Rightarrow> bytes \<Rightarrow> (bytes \<Rightarrow> script) \<Rightarrow> recv list \<Rightarrow> conn option" where
  "begin_serving windows junk handler interp rs = (case read_tcp windows junk rs of
     None \<Rightarrow> None
   | Some (Inl e) \<Rightarrow> Some (Served (Inl e))
   | Some (Inr buf) \<Rightarrow>
       (let request = cstring buf; embed = embed_text handler request in
        Some (if length embed + 1 > 200 + length request then Served (Inl OutOfBounds) else Running (interp embed))))"

definition after_call :: "(outcome \<Rightarrow> script) \<Rightarrow> outcome \<Rightarrow> conn" where
  "after_call k oc = (case oc of Crashed e \<Rightarrow> Served (Inl e) | Blocked \<Rightarrow> Hung | _ \<Rightarrow> Running (k oc))"

inductive app_step ::
  "(nat \<Rightarrow> nat) \<Rightarrow> (nat \<Rightarrow> janet \<Rightarrow> pobox \<Rightarrow> outcome \<times> pobox) \<Rightarrow> (recv list \<Rightarrow> conn option) \<Rightarrow> app \<Rightarrow> app \<Rightarrow> bool"
  for usable call start where
  app_begin: "conns s i = Idle \<Longrightarrow> start rs = Some c \<Longrightarrow> app_step usable call start s (s\<lparr>conns := (conns s)(i := c)\<rparr>)"
| app_import: "conns s i = Running (Import k) \<Longrightarrow> office (abox s) \<noteq> None \<Longrightarrow>
     app_step usable call start s (s\<lparr>conns := (conns s)(i := Running k)\<rparr>)"
| app_import_null: "conns s i = Running (Import k) \<Longrightarrow> office (abox s) = None \<Longrightarrow>
     app_step usable call start s (s\<lparr>conns := (conns s)(i := Linking k)\<rparr>)"
| app_link: "conns s i = Linking k \<Longrightarrow>
     app_step usable call start s (s\<lparr>conns := (conns s)(i := Running k),
       abox := (abox s)\<lparr>office := Some [sentinel], lock := False\<rparr>\<rparr>)"
| app_reject: "conns s i = Running (Store r k) \<Longrightarrow> reject r = Some p \<Longrightarrow>
     app_step usable call start s (s\<lparr>conns := (conns s)(i := after_call k (Panicked p))\<rparr>)"
| app_acquire: "conns s i = Running (Store r k) \<Longrightarrow> reject r = None \<Longrightarrow> \<not> lock (abox s) \<Longrightarrow>
     app_step usable call start s (s\<lparr>conns := (conns s)(i := Locked r k), abox := (abox s)\<lparr>lock := True\<rparr>\<rparr>)"
| app_finish: "conns s i = Locked r k \<Longrightarrow> req_body usable call r (abox s) = (oc, b) \<Longrightarrow>
     app_step usable call start s (s\<lparr>conns := (conns s)(i := after_call k oc), abox := b,
       alog := alog s @ [(nat i, r, oc)]\<rparr>)"
| app_reply: "conns s i = Running (Answer v) \<Longrightarrow>
     app_step usable call start s (s\<lparr>conns := (conns s)(i := Served (reply i v))\<rparr>)"

inductive app_reach ::
  "(nat \<Rightarrow> nat) \<Rightarrow> (nat \<Rightarrow> janet \<Rightarrow> pobox \<Rightarrow> outcome \<times> pobox) \<Rightarrow> (recv list \<Rightarrow> conn option) \<Rightarrow> app \<Rightarrow> app \<Rightarrow> bool"
  for usable call start s0 where
  app_here: "app_reach usable call start s0 s0"
| app_more: "app_reach usable call start s0 s \<Longrightarrow> app_step usable call start s t \<Longrightarrow> app_reach usable call start s0 t"

inductive_cases app_stepE: "app_step usable call start s t"

definition app_start :: "pobox \<Rightarrow> app" where
  "app_start b = \<lparr>abox = b, conns = (\<lambda>i. Idle), alog = []\<rparr>"


text \<open>A thread that evaluates to the end without the store does what \<open>thread_fn\<close> does.\<close>

lemma begin_serving_thread_fn:
  "begin_serving windows junk handler (\<lambda>e. Answer (dostring e)) rs = Some (Running (Answer v)) \<Longrightarrow>
   thread_fn windows junk (Some (janet_universal_cb dostring handler)) csock rs = Some (reply csock v)"
  "begin_serving windows junk handler (\<lambda>e. Answer (dostring e)) rs = Some (Served r) \<Longrightarrow>
   thread_fn windows junk (Some (janet_universal_cb dostring handler)) csock rs = Some r"
  "begin_serving windows junk handler (\<lambda>e. Answer (dostring e)) rs = None \<Longrightarrow>
   thread_fn windows junk (Some (janet_universal_cb dostring handler)) csock rs = None"
  unfolding begin_serving_def thread_fn_def http_send_client_response_def
  by (auto simp: janet_universal_cb_def Let_def reply_def split: option.splits sum.splits if_splits janet.splits)

subsection \<open>Mutual exclusion and serial order\<close>

text \<open>The module is loaded: nobody has seen \<open>office\<close> as NULL.\<close>

definition loaded :: "app \<Rightarrow> bool" where
  "loaded s = (office (abox s) \<noteq> None \<and> (\<forall>i k. conns s i \<noteq> Linking k))"

definition app_inv ::
  "(nat \<Rightarrow> nat) \<Rightarrow> (nat \<Rightarrow> janet \<Rightarrow> pobox \<Rightarrow> outcome \<times> pobox) \<Rightarrow> pobox \<Rightarrow> app \<Rightarrow> bool" where
  "app_inv usable call b0 s = (loaded s \<and>
     (\<forall>i j r q k l. conns s i = Locked r k \<longrightarrow> conns s j = Locked q l \<longrightarrow> i = j) \<and>
     (\<forall>i r k. conns s i = Locked r k \<longrightarrow> reject r = None \<and>
        (\<exists>b. serial usable call b0 (alog s) b \<and> \<not> lock b \<and> abox s = b\<lparr>lock := True\<rparr>)) \<and>
     ((\<forall>i r k. conns s i \<noteq> Locked r k) \<longrightarrow> serial usable call b0 (alog s) (abox s)))"

text \<open>A function given to \<open>cupdate\<close> may come back to the store, but not unload it.\<close>

definition call_keeps :: "(nat \<Rightarrow> janet \<Rightarrow> pobox \<Rightarrow> outcome \<times> pobox) \<Rightarrow> bool" where
  "call_keeps call = (\<forall>f x b. office b \<noteq> None \<longrightarrow> office (snd (call f x b)) \<noteq> None)"

lemma make_box_office: "make_box usable st kb vb = Inr st' \<Longrightarrow> office st' \<noteq> None"
  unfolding make_box_def table_put_def rbind_def
  by (auto split: sum.splits option.splits)

lemma req_body_office:
  "call_keeps call \<Longrightarrow> office b \<noteq> None \<Longrightarrow> office (snd (req_body usable call r b)) \<noteq> None"
proof (cases r)
  case (ReqUpdate argv)
  assume A: "call_keeps call" "office b \<noteq> None"
  have "call f x b = (oc, b2) \<Longrightarrow> office b2 \<noteq> None" for f x oc b2
    using A by (metis call_keeps_def snd_conv)
  then have "call f x b = (oc, b2) \<Longrightarrow> \<exists>c. office b2 = Some c" for f x oc b2 by blast
  then show ?thesis using A(2) ReqUpdate make_box_office[of usable]
    by (fastforce simp: update_body_def split: sum.splits option.splits prod.splits outcome.splits janet.splits)
qed (use make_box_office in \<open>auto simp: get_body_def make_body_def split: sum.splits option.splits\<close>)

lemma after_call_not_locked [simp]: "after_call k oc \<noteq> Locked r l" "after_call k oc \<noteq> Linking m"
  by (auto simp: after_call_def split: outcome.splits)

lemma begin_not_locked:
  "begin_serving windows junk handler interp rs = Some c \<Longrightarrow> c \<noteq> Locked r k \<and> c \<noteq> Linking m"
  by (auto simp: begin_serving_def Let_def split: option.splits sum.splits if_splits)


lemma app_inv_lockedE:
  assumes "app_inv usable call b0 s" "conns s i = Locked r k"
  obtains b where "serial usable call b0 (alog s) b" "\<not> lock b" "abox s = b\<lparr>lock := True\<rparr>" "reject r = None"
    "\<And>j q l. conns s j = Locked q l \<Longrightarrow> j = i"
  using assms unfolding app_inv_def by blast

lemma app_inv_same:
  assumes "app_inv usable call b0 s" "\<And>r k. c \<noteq> Locked r k" "\<And>k. c \<noteq> Linking k" "\<And>r k. conns s i \<noteq> Locked r k"
  shows "app_inv usable call b0 (s\<lparr>conns := (conns s)(i := c)\<rparr>)"
proof -
  have "(conns (s\<lparr>conns := (conns s)(i := c)\<rparr>) j = Locked q l) = (conns s j = Locked q l)" for j q l
    using assms(2,4) by auto
  then show ?thesis using assms(1,3) unfolding app_inv_def loaded_def by auto
qed

lemma app_inv_start: "office b \<noteq> None \<Longrightarrow> app_inv usable call b (app_start b)"
  by (simp add: app_inv_def app_start_def loaded_def)

lemma app_inv_step:
  assumes "app_step usable call (begin_serving windows junk handler interp) s t"
    and inv: "app_inv usable call b0 s" and "call_keeps call"
  shows "app_inv usable call b0 t"
  using assms(1)
proof (cases rule: app_step.cases)
  case (app_begin i rs c)
  then show ?thesis unfolding app_begin(1) using inv begin_not_locked[OF app_begin(3)]
    by (intro app_inv_same) auto
next
  case (app_import i k)
  then show ?thesis using inv by (auto intro!: app_inv_same)
next
  case (app_import_null i k)
  then show ?thesis using inv by (simp add: app_inv_def loaded_def)
next
  case (app_link i k)
  then show ?thesis using inv by (auto simp: app_inv_def loaded_def)
next
  case (app_reject i r k p)
  then show ?thesis using inv by (auto intro!: app_inv_same)
next
  case (app_acquire i r k)
  have none: "conns s j \<noteq> Locked q l" for j q l
  proof
    assume "conns s j = Locked q l"
    with inv obtain b where "abox s = b\<lparr>lock := True\<rparr>" by (rule app_inv_lockedE)
    with app_acquire show False by simp
  qed
  then have "serial usable call b0 (alog s) (abox s)" "loaded s" using inv by (simp_all add: app_inv_def)
  then show ?thesis using app_acquire none unfolding app_inv_def loaded_def by auto
next
  case (app_finish i r k oc b)
  from inv app_finish(2) obtain c where c: "serial usable call b0 (alog s) c" "\<not> lock c" "abox s = c\<lparr>lock := True\<rparr>"
    and rj: "reject r = None" and only: "\<And>j q l. conns s j = Locked q l \<Longrightarrow> j = i"
    by (rule app_inv_lockedE) blast
  have "run_request usable call r c = (oc, b)" using c(2,3) rj app_finish(3) by (simp add: run_request_eq)
  from serial_append[OF c(1) this] have "serial usable call b0 (alog t) (abox t)" by (simp add: app_finish(1))
  moreover have "conns t j \<noteq> Locked q l" for j q l using only[of j q l] app_finish(1) by auto
  moreover have "office b \<noteq> None"
    using req_body_office[OF assms(3), of "abox s" usable r] app_finish(3) inv by (simp add: app_inv_def loaded_def)
  moreover have "loaded s" using inv by (simp add: app_inv_def)
  ultimately show ?thesis using app_finish(1) unfolding app_inv_def loaded_def by auto
next
  case (app_reply i v)
  then show ?thesis using inv by (auto intro!: app_inv_same)
qed

lemma app_inv_reach:
  "app_reach usable call (begin_serving windows junk handler interp) s t \<Longrightarrow> app_inv usable call b s \<Longrightarrow> call_keeps call
   \<Longrightarrow> app_inv usable call b t"
  by (induction rule: app_reach.induct) (auto intro: app_inv_step)


subsection \<open>Handlers that keep to the keys there are\<close>






lemma pobox_wf_office: "pobox_wf b \<Longrightarrow> office b \<noteq> None"
  by (auto simp: pobox_wf_def)










subsection \<open>A lock that nobody gives back\<close>

text \<open>The lock is taken and no thread is on its way to give it back.\<close>

definition leaked :: "app \<Rightarrow> bool" where
  "leaked s = (loaded s \<and> lock (abox s) \<and> (\<forall>i r k. conns s i \<noteq> Locked r k))"

lemma leaked_step:
  assumes "app_step usable call (begin_serving windows junk handler interp) s t" "leaked s"
  shows "leaked t \<and> alog t = alog s \<and> abox t = abox s
    \<and> (\<forall>i r k. conns s i = Running (Store r k) \<and> reject r = None \<longrightarrow> conns t i = conns s i)"
  using assms(1)
proof (cases rule: app_step.cases)
  case (app_begin i rs c)
  then show ?thesis using assms(2) begin_not_locked[OF app_begin(3)] by (auto simp: leaked_def loaded_def)
qed (use assms(2) in \<open>auto simp: leaked_def loaded_def\<close>)

lemma leaked_reach:
  assumes "app_reach usable call (begin_serving windows junk handler interp) s t" "leaked s"
  shows "leaked t \<and> alog t = alog s \<and> abox t = abox s
    \<and> (\<forall>i r k. conns s i = Running (Store r k) \<and> reject r = None \<longrightarrow> conns t i = conns s i)"
  using assms(1)
proof (induction rule: app_reach.induct)
  case app_here
  then show ?case using assms(2) by simp
next
  case (app_more u t)
  then show ?case using leaked_step[OF app_more.hyps(2)] by metis
qed

subsection \<open>Properties\<close>

text \<open>C2. With the module loaded, under any scheduling of any number of clients, whatever the
  handlers do, at most one thread is between lock and unlock, and whenever none is, the store and
  every outcome a handler has seen are those of running the finished calls one after the other.\<close>

theorem server_serializable:
  assumes "app_reach usable call (begin_serving windows junk handler interp) (app_start b) s"
    and "office b \<noteq> None" and "call_keeps call"
  shows "(\<forall>i j r q k l. conns s i = Locked r k \<and> conns s j = Locked q l \<longrightarrow> i = j)
    \<and> ((\<forall>i r k. conns s i \<noteq> Locked r k) \<longrightarrow> serial usable call b (alog s) (abox s))"
  using app_inv_reach[OF assms(1) app_inv_start[OF assms(2)] assms(3)] unfolding app_inv_def by blast


text \<open>A call that leaves the lock taken stops the store for good.\<close>

lemma lock_kept_hangs:
  assumes "\<not> lock (abox s)" and "loaded s" and "\<forall>i r k. conns s i \<noteq> Locked r k"
    and "conns s a = Running (Store q h)" and "reject q = None" and "after_call h oc = Running k2"
    and "req_body usable call q ((abox s)\<lparr>lock := True\<rparr>) = (oc, (abox s)\<lparr>lock := True\<rparr>)"
  shows "\<exists>t. app_reach usable call (begin_serving windows junk handler interp) s t \<and> conns t a = Running k2
    \<and> (\<forall>u. app_reach usable call (begin_serving windows junk handler interp) t u \<longrightarrow> alog u = alog t
      \<and> (\<forall>v i r k. app_reach usable call (begin_serving windows junk handler interp) u v
          \<and> conns u i = Running (Store r k) \<and> reject r = None \<longrightarrow> conns v i = conns u i))"
proof -
  let ?start = "begin_serving windows junk handler interp"
  let ?s = "s\<lparr>conns := (conns s)(a := Locked q h), abox := (abox s)\<lparr>lock := True\<rparr>\<rparr>"
  let ?t = "?s\<lparr>conns := (conns ?s)(a := Running k2), abox := (abox s)\<lparr>lock := True\<rparr>,
    alog := alog ?s @ [(nat a, q, oc)]\<rparr>"
  have b: "req_body usable call q (abox ?s) = (oc, (abox s)\<lparr>lock := True\<rparr>)" using assms(7) by simp
  have "app_step usable call ?start s ?s" using assms(1,4,5) by (intro app_acquire)
  moreover have "app_step usable call ?start ?s ?t" using app_finish[of ?s a q h, OF _ b] assms(6) by simp
  ultimately have R: "app_reach usable call ?start s ?t" by (blast intro: app_here app_more)
  have "leaked ?t" using assms(2,3) by (auto simp: leaked_def loaded_def)
  then have "alog u = alog ?t \<and> leaked u" if "app_reach usable call ?start ?t u" for u
    using leaked_reach[OF that] by blast
  then have "alog u = alog ?t \<and> (\<forall>v i r k. app_reach usable call ?start u v
          \<and> conns u i = Running (Store r k) \<and> reject r = None \<longrightarrow> conns v i = conns u i)"
    if "app_reach usable call ?start ?t u" for u using that leaked_reach by blast
  moreover have "conns ?t a = Running k2" by simp
  ultimately show ?thesis using R by blast
qed

text \<open>C3. One request for a key that is not there stops the server's store for good: its handler
  gets nil, but the lock stays taken. From then on no call of any client finishes, and a thread that
  comes to one of the store's functions (past its arity check) stays there for ever: it never replies
  and never closes its socket.\<close>

theorem server_miss_hangs:
  assumes "slack usable" and "pobox_wf (abox s)" and "\<not> lock (abox s)" and "loaded s"
    and "\<forall>i r k. conns s i \<noteq> Locked r k"
    and "conns s a = Running (Store (ReqGet [JBuffer kb]) h)" and "pobox_map (abox s) kb = None"
  shows "\<exists>t. app_reach usable call (begin_serving windows junk handler interp) s t
    \<and> conns t a = Running (h (Returned JNil))
    \<and> (\<forall>u. app_reach usable call (begin_serving windows junk handler interp) t u \<longrightarrow> alog u = alog t
      \<and> (\<forall>v i r k. app_reach usable call (begin_serving windows junk handler interp) u v
          \<and> conns u i = Running (Store r k) \<and> reject r = None \<longrightarrow> conns v i = conns u i))"
proof (rule lock_kept_hangs[OF assms(3-6)])
  have "run_request usable call (ReqGet [JBuffer kb]) (abox s) = (Returned JNil, (abox s)\<lparr>lock := True\<rparr>)"
    using get_wrapped_eq[OF assms(1-3), of kb] assms(7) by simp
  then show "req_body usable call (ReqGet [JBuffer kb]) ((abox s)\<lparr>lock := True\<rparr>) = (Returned JNil, (abox s)\<lparr>lock := True\<rparr>)"
    using assms(3) by (simp add: run_request_eq)
qed (simp_all add: after_call_def)

text \<open>So does an update of a key that is there when its function raises an error: the error leaves
  \<open>janet_call\<close> and \<open>update_wrapped\<close> with the lock taken, whoever catches it.\<close>

theorem server_update_error_hangs:
  assumes "slack usable" and "pobox_wf (abox s)" and "\<not> lock (abox s)" and "loaded s"
    and "\<forall>i r k. conns s i \<noteq> Locked r k"
    and "conns s a = Running (Store (ReqUpdate [JBuffer kb, JFunction f]) h)" and "pobox_map (abox s) kb = Some vb"
    and "call f (JBuffer vb) ((abox s)\<lparr>lock := True\<rparr>) = (Panicked p, (abox s)\<lparr>lock := True\<rparr>)"
  shows "\<exists>t. app_reach usable call (begin_serving windows junk handler interp) s t \<and> conns t a = Running (h (Panicked p))
    \<and> (\<forall>u. app_reach usable call (begin_serving windows junk handler interp) t u \<longrightarrow> alog u = alog t
      \<and> (\<forall>v i r k. app_reach usable call (begin_serving windows junk handler interp) u v
          \<and> conns u i = Running (Store r k) \<and> reject r = None \<longrightarrow> conns v i = conns u i))"
proof (rule lock_kept_hangs[OF assms(3-6)])
  have "run_request usable call (ReqUpdate [JBuffer kb, JFunction f]) (abox s) = (Panicked p, (abox s)\<lparr>lock := True\<rparr>)"
    using update_wrapped_error[OF assms(1-3,7), of call f p] assms(8) by simp
  then show "req_body usable call (ReqUpdate [JBuffer kb, JFunction f]) ((abox s)\<lparr>lock := True\<rparr>)
      = (Panicked p, (abox s)\<lparr>lock := True\<rparr>)"
    using assms(3) by (simp add: run_request_eq)
qed (simp_all add: after_call_def)

text \<open>Loading the module is a check and a setting without a lock. Two threads that load it at the
  same time while \<open>office\<close> is still NULL can both be between lock and unlock; and a value that
  one of them has stored, with success, is gone when the other sets \<open>office\<close> again.\<close>

theorem server_import_race:
  assumes "i \<noteq> j" and "office (abox s) = None" and "slack usable" and "kb \<noteq> []"
    and "conns s i = Running (Import (Store (ReqMake [JBuffer kb, JBuffer vb]) k))"
    and "conns s j = Running (Import (Store q l))" and "reject q = None"
  shows "(\<exists>t. app_reach usable call start s t \<and> conns t i = Locked (ReqMake [JBuffer kb, JBuffer vb]) k \<and> conns t j = Locked q l)
    \<and> (\<exists>t. app_reach usable call start s t \<and> alog t = alog s @ [(nat i, ReqMake [JBuffer kb, JBuffer vb], Returned (JBool True))]
          \<and> pobox_map (abox t) kb = None)"
proof -
  let ?m = "ReqMake [JBuffer kb, JBuffer vb]" and ?R = "app_reach usable call start s"
  let ?b = "\<lparr>office = Some [sentinel], lock = False\<rparr>"
  have L: "b\<lparr>office := Some [sentinel], lock := False\<rparr> = ?b" for b :: pobox by simp
  let ?a1 = "s\<lparr>conns := (conns s)(i := Linking (Store ?m k))\<rparr>"
  let ?a2 = "?a1\<lparr>conns := (conns ?a1)(j := Linking (Store q l))\<rparr>"
  let ?a3 = "?a2\<lparr>conns := (conns ?a2)(i := Running (Store ?m k)), abox := ?b\<rparr>"
  let ?a4 = "?a3\<lparr>conns := (conns ?a3)(i := Locked ?m k), abox := ?b\<lparr>lock := True\<rparr>\<rparr>"
  have a1: "?R ?a1" using assms(2,5) by (intro app_more[OF app_here app_import_null])
  have a2: "?R ?a2" by (rule app_more[OF a1 app_import_null]) (use assms in simp_all)
  have a3: "?R ?a3" using app_more[OF a2 app_link[of ?a2 i]] assms(1) by (simp add: L)
  have a4: "?R ?a4" using app_more[OF a3 app_acquire[of ?a3 i ?m k]] by simp
  let ?a5 = "?a4\<lparr>conns := (conns ?a4)(j := Running (Store q l)), abox := ?b\<rparr>"
  have a5: "?R ?a5" using app_more[OF a4 app_link[of ?a4 j]] assms(1) by (simp add: L)
  let ?a6 = "?a5\<lparr>conns := (conns ?a5)(j := Locked q l), abox := ?b\<lparr>lock := True\<rparr>\<rparr>"
  have a6: "?R ?a6" using app_more[OF a5 app_acquire[of ?a5 j q l]] assms(7) by simp
  have wf: "pobox_wf ?b" "pobox_map ?b = [[] \<mapsto> []]"
    by (simp_all add: pobox_wf_def chain_wf_def pobox_map_def chain_map_def)
  obtain b' where b': "run_request usable call ?m ?b = (Returned (JBool True), b')"
    using make_wrapped_ok[OF assms(3) wf(1) _ assms(4), of vb] by auto
  then have "req_body usable call ?m (?b\<lparr>lock := True\<rparr>) = (Returned (JBool True), b')" by (simp add: run_request_eq)
  then have b5: "app_step usable call start ?a4 (?a4\<lparr>conns := (conns ?a4)(i := Running (k (Returned (JBool True)))),
      abox := b', alog := alog s @ [(nat i, ?m, Returned (JBool True))]\<rparr>)" (is "app_step _ _ _ _ ?c")
    using app_finish[of ?a4 i ?m k usable call "Returned (JBool True)" b' start] by (simp add: after_call_def)
  let ?d = "?c\<lparr>conns := (conns ?c)(j := Running (Store q l)), abox := ?b\<rparr>"
  have d: "?R ?d" using app_more[OF app_more[OF a4 b5] app_link[of ?c j]] assms(1) by (simp add: L)
  have "conns ?a6 i = Locked ?m k \<and> conns ?a6 j = Locked q l" using assms(1) by simp
  moreover have "alog ?d = alog s @ [(nat i, ?m, Returned (JBool True))] \<and> pobox_map (abox ?d) kb = None"
    using wf(2) assms(4) by simp
  ultimately show ?thesis using a6 d by blast
qed

subsection \<open>Witnesses\<close>

definition demo_chunks :: "recv list" where
  "demo_chunks = [Chunk demo_head, Nothing (-1), Chunk (bs ''cd''), Nothing 0]"

lemma demo_begins:
  "begin_serving False clean (bs ''h'') (\<lambda>e. sc) demo_chunks = Some (Running sc)"
proof -
  have g: "\<forall>r \<in> set demo_chunks. good_chunk r"
    using demo_good by (simp add: demo_chunks_def good_chunk_def CLIENT_CHUNK_def bs_def)
  have "spec_read False demo_chunks = Some (Inr (demo_head @ bs ''cd''))"
    using demo_good by (simp add: demo_chunks_def spec_read_def demo_announced Let_def)
      (simp add: int32_def crlfcrlf_def bs_def)
  then obtain buf where "read_tcp False clean demo_chunks = Some (Inr buf)"
    using read_tcp_spec[OF g, of clean False]
    by (cases "read_tcp False clean demo_chunks"; cases "the (read_tcp False clean demo_chunks)") (auto simp: demo_chunks_def)
  moreover have "length (embed_text (bs ''h'') r) + 1 \<le> 200 + length r" for r by (simp add: length_embed_text bs_def)
  ultimately show ?thesis by (simp add: begin_serving_def Let_def not_less)
qed

definition demo_call :: "nat \<Rightarrow> janet \<Rightarrow> pobox \<Rightarrow> outcome \<times> pobox" where
  "demo_call f x st = (Returned (JBuffer []), st)"

definition demo_make :: request where
  "demo_make = ReqMake [JBuffer [1], JBuffer [2]]"

lemma demo_call_keeps: "call_keeps demo_call"
  by (simp add: call_keeps_def demo_call_def)

text \<open>One client whose handler stores a value, up to the lock.\<close>

definition demo_locked :: app where
  "demo_locked = \<lparr>abox = module_entry\<lparr>lock := True\<rparr>, conns = (\<lambda>i. Idle)(7 := Locked demo_make (\<lambda>oc. Answer JNil)), alog = []\<rparr>"

lemma demo_locked_reach:
  "app_reach Suc demo_call (begin_serving False clean (bs ''h'') (\<lambda>e. Store demo_make (\<lambda>oc. Answer JNil)))
     (app_start module_entry) demo_locked"
proof -
  let ?sc = "Store demo_make (\<lambda>oc. Answer JNil)"
  let ?start = "begin_serving False clean (bs ''h'') (\<lambda>e. ?sc)"
  let ?a = "(app_start module_entry)\<lparr>conns := (conns (app_start module_entry))(7 := Running ?sc)\<rparr>"
  have "app_step Suc demo_call ?start (app_start module_entry) ?a"
    by (rule app_begin[where rs = demo_chunks], simp add: app_start_def, rule demo_begins)
  moreover have "app_step Suc demo_call ?start ?a demo_locked"
    using app_acquire[of ?a 7 demo_make "\<lambda>oc. Answer JNil" Suc demo_call ?start] module_entry_wf(2)
    by (simp add: demo_make_def demo_locked_def app_start_def)
  ultimately show ?thesis by (blast intro: app_here app_more)
qed

theorem server_serializable_witness:
  "\<exists>s::app. alog s \<noteq> [] \<and> serial Suc demo_call module_entry (alog s) (abox s)"
proof -
  obtain oc b where ob: "req_body Suc demo_call demo_make (abox demo_locked) = (oc, b)" by fastforce
  let ?s = "demo_locked\<lparr>conns := (conns demo_locked)(7 := after_call (\<lambda>oc. Answer JNil) oc), abox := b,
    alog := alog demo_locked @ [(nat 7, demo_make, oc)]\<rparr>"
  have "app_reach Suc demo_call (begin_serving False clean (bs ''h'') (\<lambda>e. Store demo_make (\<lambda>oc. Answer JNil)))
     (app_start module_entry) ?s"
    by (rule app_more[OF demo_locked_reach app_finish[OF _ ob]]) (simp add: demo_locked_def)
  from server_serializable[OF this _ demo_call_keeps] module_entry_wf(1) pobox_wf_office
  have "serial Suc demo_call module_entry (alog ?s) (abox ?s)" by (simp add: demo_locked_def)
  then show ?thesis by (intro exI[of _ ?s]) simp
qed


definition demo_app :: "pobox \<Rightarrow> script \<Rightarrow> app" where
  "demo_app b sc = \<lparr>abox = b, conns = (\<lambda>i. if i = 7 \<or> i = 8 then Running sc else Idle), alog = []\<rparr>"

theorem server_miss_hangs_witness:
  "\<exists>t. app_reach Suc demo_call (begin_serving False clean (bs ''h'') (\<lambda>e. Answer JNil))
      (demo_app module_entry (Store (ReqGet [JBuffer [9]]) (\<lambda>oc. Answer JNil))) t
    \<and> conns t 7 = Running (Answer JNil)
    \<and> (\<forall>u. app_reach Suc demo_call (begin_serving False clean (bs ''h'') (\<lambda>e. Answer JNil)) t u \<longrightarrow> alog u = alog t
      \<and> (\<forall>v i r k. app_reach Suc demo_call (begin_serving False clean (bs ''h'') (\<lambda>e. Answer JNil)) u v
          \<and> conns u i = Running (Store r k) \<and> reject r = None \<longrightarrow> conns v i = conns u i))"
  by (rule server_miss_hangs[OF slack_Suc, where kb = "[9]"])
    (use module_entry_wf pobox_wf_office in \<open>simp_all add: demo_app_def loaded_def\<close>)

definition demo_error :: "nat \<Rightarrow> janet \<Rightarrow> pobox \<Rightarrow> outcome \<times> pobox" where
  "demo_error f x st = (Panicked (Panic ''no'' []), st)"

theorem server_update_error_hangs_witness:
  "\<exists>t. app_reach Suc demo_error (begin_serving False clean (bs ''h'') (\<lambda>e. Answer JNil))
      (demo_app module_entry (Store (ReqUpdate [JBuffer [], JFunction 3]) (\<lambda>oc. Answer JNil))) t
    \<and> conns t 7 = Running (Answer JNil)
    \<and> (\<forall>u. app_reach Suc demo_error (begin_serving False clean (bs ''h'') (\<lambda>e. Answer JNil)) t u \<longrightarrow> alog u = alog t
      \<and> (\<forall>v i r k. app_reach Suc demo_error (begin_serving False clean (bs ''h'') (\<lambda>e. Answer JNil)) u v
          \<and> conns u i = Running (Store r k) \<and> reject r = None \<longrightarrow> conns v i = conns u i))"
  by (rule server_update_error_hangs[OF slack_Suc, where kb = "[]" and vb = "[]" and f = 3 and p = "Panic ''no'' []"])
    (use module_entry_wf pobox_wf_office in \<open>simp_all add: demo_app_def demo_error_def loaded_def\<close>)

theorem server_import_race_witness:
  "(\<exists>t. app_reach Suc demo_call (begin_serving False clean (bs ''h'') (\<lambda>e. Answer JNil)) (demo_app \<lparr>office = None, lock = False\<rparr> (Import (Store demo_make (\<lambda>oc. Answer JNil)))) t
      \<and> conns t 7 = Locked demo_make (\<lambda>oc. Answer JNil) \<and> conns t 8 = Locked demo_make (\<lambda>oc. Answer JNil))"
  using server_import_race[of 7 8 "demo_app \<lparr>office = None, lock = False\<rparr> (Import (Store demo_make (\<lambda>oc. Answer JNil)))" Suc "[1]" "[2]"
    "\<lambda>oc. Answer JNil" demo_make "\<lambda>oc. Answer JNil" demo_call
    "begin_serving False clean (bs ''h'') (\<lambda>e. Answer JNil)"] slack_Suc
  by (simp add: demo_app_def demo_make_def)

end
