(* ===== verification/Core.thy ===== *)
theory Core
  imports Value
begin

text \<open>
  Values as the runtime of \<^verbatim>\<open>amalg/janet.c\<close> compares and hashes them
  (\<^verbatim>\<open>src/core/value.c\<close>, \<^verbatim>\<open>util.c\<close>). Strings are compared by
  content; symbols and keywords are interned, so the pointer comparison of the code is a
  comparison of content; every other reference is its type and its boxed 64 bits. Structs and
  abstract types with callbacks of their own are not keys of the model.
\<close>

datatype jv =
    VNil
  | VBool bool
  | VNum double
  | VStr bytes
  | VSym bytes
  | VKey bytes
  | VTuple bool "jv list"   \<comment> \<open>written with brackets?\<close>
  | VRef jtype "64 word"

subsection \<open>Hashes\<close>

definition janet_string_calchash :: "bytes \<Rightarrow> 32 word" where
  "janet_string_calchash str = foldl (\<lambda>hash b. push_bit 5 hash + hash + ucast b) 5381 str"

definition janet_hash_mix :: "32 word \<Rightarrow> 32 word \<Rightarrow> 32 word" where
  "janet_hash_mix input more =
     (let mix1 = more + 0x9e3779b9 + push_bit 6 input + drop_bit 2 input
      in input XOR (0x9e3779b9 + push_bit 6 mix1 + drop_bit 2 mix1))"

text \<open>The 64 bits of a double after adding 0.0, which makes a negative zero positive.\<close>

definition number_bits :: "double \<Rightarrow> 64 word" where
  "number_bits d = (case d of
     Finite s n \<Rightarrow> (if n = 0 then 0 else word_of_int ((if s then 2 ^ 63 else 0) + n))
   | Infinity s \<Rightarrow> (if s then 0xFFF0000000000000 else 0x7FF0000000000000)
   | NaN s \<Rightarrow> (if s then 0xFFF8000000000000 else 0x7FF8000000000000))"

definition hash_number :: "double \<Rightarrow> 32 word" where
  "hash_number d =
     (let u = number_bits d; lo = ucast (u AND 0xFFFFFFFF); hi = ucast (drop_bit 32 u);
          hilo = (hi XOR lo) * 2654435769
      in push_bit 16 hilo OR drop_bit 16 hilo)"

definition murmur64 :: "64 word \<Rightarrow> 64 word" where
  "murmur64 h0 =
     (let h = h0 XOR drop_bit 33 h0;
          h = h * 0xff51afd7ed558ccd;
          h = h XOR drop_bit 33 h;
          h = h * 0xc4ceb9fe1a85ec53
      in h XOR drop_bit 33 h)"

text \<open>The hash of a tuple is computed once, over the hashes of its elements.\<close>

fun janet_hash :: "jv \<Rightarrow> 32 word" where
  "janet_hash VNil = 0"
| "janet_hash (VBool b) = (if b then 1 else 0)"
| "janet_hash (VStr s) = janet_string_calchash s"
| "janet_hash (VSym s) = janet_string_calchash s"
| "janet_hash (VKey s) = janet_string_calchash s"
| "janet_hash (VTuple bracket xs) =
     foldl janet_hash_mix 33 (map janet_hash xs) + (if bracket then 1 else 0)"
| "janet_hash (VNum d) = hash_number d"
| "janet_hash (VRef t u) = ucast (drop_bit 32 (murmur64 u))"

definition janet_array_calchash :: "jv list \<Rightarrow> 32 word" where
  "janet_array_calchash xs = foldl janet_hash_mix 33 (map janet_hash xs)"

subsection \<open>Equality\<close>

text \<open>The traversal stack of the code visits the elements in order; the first difference
  decides.\<close>

fun janet_equals :: "jv \<Rightarrow> jv \<Rightarrow> bool" where
  "janet_equals VNil y = (y = VNil)"
| "janet_equals (VBool a) y = (case y of VBool b \<Rightarrow> a = b | _ \<Rightarrow> False)"
| "janet_equals (VNum a) y = (case y of VNum b \<Rightarrow> dbl_eq a b | _ \<Rightarrow> False)"
| "janet_equals (VStr a) y = (case y of VStr b \<Rightarrow>
     janet_string_calchash a = janet_string_calchash b \<and> length a = length b \<and> a = b | _ \<Rightarrow> False)"
| "janet_equals (VSym a) y = (y = VSym a)"
| "janet_equals (VKey a) y = (y = VKey a)"
| "janet_equals (VRef t a) y = (y = VRef t a)"
| "janet_equals (VTuple br xs) y = (case y of VTuple br2 ys \<Rightarrow>
     br = br2 \<and> janet_array_calchash xs = janet_array_calchash ys \<and> length xs = length ys
     \<and> list_all2 janet_equals xs ys | _ \<Rightarrow> False)"

text \<open>The keys a table can find again: not nil, and no NaN in them.\<close>

fun no_nan :: "jv \<Rightarrow> bool" where
  "no_nan (VNum d) = (\<not> isnan d)"
| "no_nan (VTuple br xs) = (\<forall>x \<in> set xs. no_nan x)"
| "no_nan x = True"

definition valid_key :: "jv \<Rightarrow> bool" where
  "valid_key k \<longleftrightarrow> k \<noteq> VNil \<and> no_nan k"

subsection \<open>Equality is what the tables need of it\<close>

lemma dbl_eq_refl: "\<not> isnan d \<Longrightarrow> dbl_eq d d"
  by (cases d) (simp_all add: dbl_eq_def isnan_def)

lemma dbl_eq_sym: "dbl_eq a b \<Longrightarrow> dbl_eq b a"
  by (cases a; cases b) (auto simp: dbl_eq_def)

lemma dbl_eq_trans: "dbl_eq a b \<Longrightarrow> dbl_eq b c \<Longrightarrow> dbl_eq a c"
  by (cases a; cases b; cases c) (auto simp: dbl_eq_def)

lemma dbl_eq_hash: "dbl_eq a b \<Longrightarrow> hash_number a = hash_number b"
  by (cases a; cases b) (auto simp: dbl_eq_def hash_number_def number_bits_def)

lemma janet_equals_refl: "no_nan k \<Longrightarrow> janet_equals k k"
  by (induction k rule: no_nan.induct) (simp_all add: dbl_eq_refl list.rel_refl_strong)

lemma janet_equals_sym: "janet_equals a b \<Longrightarrow> janet_equals b a"
proof (induction a arbitrary: b)
  case (VTuple br xs)
  then obtain ys where b: "b = VTuple br ys" "janet_array_calchash xs = janet_array_calchash ys"
    "length xs = length ys" "list_all2 janet_equals xs ys" by (auto split: jv.splits)
  have "list_all2 janet_equals ys xs"
    using b(3,4) VTuple.IH by (auto simp: list_all2_conv_all_nth)
  with b show ?case by simp
qed (auto split: jv.splits intro: dbl_eq_sym)

lemma janet_equals_trans: "janet_equals a b \<Longrightarrow> janet_equals b c \<Longrightarrow> janet_equals a c"
proof (induction a arbitrary: b c)
  case (VTuple br xs)
  then obtain ys where b: "b = VTuple br ys" "janet_array_calchash xs = janet_array_calchash ys"
    "length xs = length ys" "list_all2 janet_equals xs ys" by (auto split: jv.splits)
  with VTuple.prems obtain zs where c: "c = VTuple br zs" "janet_array_calchash ys = janet_array_calchash zs"
    "length ys = length zs" "list_all2 janet_equals ys zs" by (auto split: jv.splits)
  have "list_all2 janet_equals xs zs"
    unfolding list_all2_conv_all_nth
  proof (intro conjI allI impI)
    fix i assume "i < length xs"
    then show "janet_equals (xs ! i) (zs ! i)"
      using VTuple.IH [of "xs ! i" "ys ! i" "zs ! i"] b(3,4) c(4) by (simp add: list_all2_conv_all_nth)
  qed (simp add: b c)
  with b c show ?case by simp
qed (auto split: jv.splits intro: dbl_eq_trans)

lemma janet_equals_hash: "janet_equals a b \<Longrightarrow> janet_hash a = janet_hash b"
proof (induction a arbitrary: b)
  case (VTuple br xs)
  then obtain ys where b: "b = VTuple br ys" "length xs = length ys" "list_all2 janet_equals xs ys"
    by (auto split: jv.splits)
  have "map janet_hash xs = map janet_hash ys"
    by (rule nth_equalityI) (use b(2,3) VTuple.IH in \<open>auto simp: list_all2_conv_all_nth\<close>)
  with b show ?case by simp
qed (auto split: jv.splits intro: dbl_eq_hash)

text \<open>The hashes and lengths compared first never decide.\<close>

lemma janet_equals_tuple:
  "janet_equals (VTuple br xs) (VTuple br2 ys) \<longleftrightarrow> br = br2 \<and> list_all2 janet_equals xs ys"
proof -
  have "map janet_hash xs = map janet_hash ys" if "list_all2 janet_equals xs ys"
    by (rule nth_equalityI) (use that in \<open>auto simp: list_all2_conv_all_nth intro: janet_equals_hash\<close>)
  then show ?thesis by (auto simp: janet_array_calchash_def list_all2_lengthD)
qed

subsection \<open>Native functions\<close>

text \<open>What a native function does: fault, raise a panic, or return.\<close>

type_synonym 'a run = "fault + panic + 'a"

definition okay :: "'a \<Rightarrow> 'a run" where
  "okay x = Inr (Inr x)"

definition raises :: "string \<Rightarrow> parg list \<Rightarrow> 'a run" where
  "raises s args = Inr (Inl (Panic s args))"

definition faults :: "fault + 'a \<Rightarrow> 'a run" where
  "faults r = (case r of Inl e \<Rightarrow> Inl e | Inr x \<Rightarrow> Inr (Inr x))"

definition checks :: "panic + 'a \<Rightarrow> 'a run" where
  "checks r = Inr r"

definition andthen :: "'a run \<Rightarrow> ('a \<Rightarrow> 'b run) \<Rightarrow> 'b run" where
  "andthen m f = (case m of Inl e \<Rightarrow> Inl e | Inr r \<Rightarrow> (case r of Inl p \<Rightarrow> Inr (Inl p) | Inr x \<Rightarrow> f x))"

named_theorems run_simps \<comment> \<open>running a native function one step at a time\<close>

lemma andthen_simps [run_simps]:
  "andthen (okay x) f = f x"
  "andthen (faults (Inr x)) f = f x"
  "andthen (faults (Inl e)) f = Inl e"
  "andthen (checks (Inr x)) f = f x"
  "andthen (checks (Inl p)) f = Inr (Inl p)"
  "andthen (raises s as) f = raises s as"
  "andthen (Inr (Inr x)) f = f x"
  "andthen (Inr (Inl p)) f = Inr (Inl p)"
  "andthen (Inl e) f = Inl e"
  by (simp_all add: andthen_def okay_def faults_def checks_def raises_def)

lemma faults_simps [run_simps]:
  "faults (Inr x) = okay x"
  "faults (Inl e) = Inl e"
  "checks (Inr x) = okay x"
  by (simp_all add: faults_def okay_def checks_def)

lemma arity_ok [run_simps]:
  "lo \<le> n \<Longrightarrow> hi < 0 \<or> n \<le> hi \<Longrightarrow> janet_arity n lo hi = Inr ()"
  by (auto simp: janet_arity_def)

lemma okay_eq [simp]: "okay x = okay y \<longleftrightarrow> x = y"
  by (simp add: okay_def)

lemma andthen_cong [fundef_cong]:
  "m = m' \<Longrightarrow> (\<And>x. m' = okay x \<Longrightarrow> f x = g x) \<Longrightarrow> andthen m f = andthen m' g"
  by (auto simp: andthen_def okay_def split: sum.splits)

definition wrap32 :: "int \<Rightarrow> int" where
  "wrap32 i = sint (word_of_int i :: 32 word)"

lemma wrap32_same [simp]: "int32 i \<Longrightarrow> wrap32 i = i"
  unfolding wrap32_def int32_def by (simp add: signed_take_bit_int_eq_self sint_sbintrunc' flip: signed_take_bit_eq)

definition checked32 :: "int \<Rightarrow> fault + int" where
  "checked32 i = (if int32 i then Inr i else Inl IntOverflow)"

text \<open>A panic leaves what was changed before it: an action on a state is a fault, or a panic or a
  result together with the state.\<close>

type_synonym ('s, 'a) act = "'s \<Rightarrow> fault + (panic + 'a) \<times> 's"

definition give :: "'a \<Rightarrow> ('s, 'a) act" where
  "give x s = Inr (Inr x, s)"

definition throw :: "string \<Rightarrow> parg list \<Rightarrow> ('s, 'a) act" where
  "throw f args s = Inr (Inl (Panic f args), s)"

definition require :: "panic + 'a \<Rightarrow> ('s, 'a) act" where
  "require r s = Inr (r, s)"

definition attempt :: "fault + 'a \<Rightarrow> ('s, 'a) act" where
  "attempt r s = (case r of Inl e \<Rightarrow> Inl e | Inr x \<Rightarrow> Inr (Inr x, s))"

definition modify :: "('s \<Rightarrow> 's) \<Rightarrow> ('s, unit) act" where
  "modify f s = Inr (Inr (), f s)"

definition andnext :: "('s, 'a) act \<Rightarrow> ('a \<Rightarrow> ('s, 'b) act) \<Rightarrow> ('s, 'b) act" where
  "andnext m f s = (case m s of Inl e \<Rightarrow> Inl e
     | Inr rs \<Rightarrow> (case fst rs of Inl p \<Rightarrow> Inr (Inl p, snd rs) | Inr x \<Rightarrow> f x (snd rs)))"

definition inspect :: "('s \<Rightarrow> ('s, 'a) act) \<Rightarrow> ('s, 'a) act" where
  "inspect f s = f s s"

named_theorems act_simps \<comment> \<open>running an action one step at a time\<close>

lemma andnext_simps [act_simps]:
  "m s = Inr (Inr x, s2) \<Longrightarrow> andnext m f s = f x s2"
  "m s = Inr (Inl p, s2) \<Longrightarrow> andnext m f s = Inr (Inl p, s2)"
  "m s = Inl e \<Longrightarrow> andnext m f s = Inl e"
  by (simp_all add: andnext_def)

lemma act_basic_simps [act_simps]:
  "give x s = Inr (Inr x, s)"
  "throw f args s = Inr (Inl (Panic f args), s)"
  "require r s = Inr (r, s)"
  "attempt (Inr x) s = Inr (Inr x, s)"
  "attempt (Inl e) s = Inl e"
  "modify g s = Inr (Inr (), g s)"
  "inspect h s = h s s"
  by (simp_all add: give_def throw_def require_def attempt_def modify_def inspect_def)

lemma andnext_cong [fundef_cong]:
  "m = m' \<Longrightarrow> s = s' \<Longrightarrow> (\<And>x t. m' s' = Inr (Inr x, t) \<Longrightarrow> f x t = g x t) \<Longrightarrow> andnext m f s = andnext m' g s'"
  by (auto simp: andnext_def split: sum.splits)

subsection \<open>Arguments and conversions\<close>

text \<open>An argument after the first: the object of the first argument again, or another value.\<close>

datatype part = Self | Other janet

definition janet_getnumber :: "janet list \<Rightarrow> nat \<Rightarrow> panic + double" where
  "janet_getnumber argv n = (case argv ! n of
     JNumber d \<Rightarrow> Inr d | x \<Rightarrow> Inl (janet_panic_type x n [JANET_NUMBER]))"

text \<open>Conversion of a double to an integer type drops the fraction; a value outside the type is
  undefined.\<close>

definition dbl_trunc :: "double \<Rightarrow> int option" where
  "dbl_trunc d = (case d of
     Finite s n \<Rightarrow>
       (let m = dbl_sig n; e = dbl_exp n;
            v = (if e \<ge> 0 then m * 2 ^ nat e else m div 2 ^ nat (- e))
        in Some (if s then - v else v))
   | _ \<Rightarrow> None)"

definition convert_to :: "int \<Rightarrow> int \<Rightarrow> double \<Rightarrow> fault + int" where
  "convert_to lo hi d = (case dbl_trunc d of
     None \<Rightarrow> Inl IntOverflow | Some i \<Rightarrow> if lo \<le> i \<and> i \<le> hi then Inr i else Inl IntOverflow)"

lemma dbl_int_trunc: "dbl_int d = Some i \<Longrightarrow> dbl_trunc d = Some i"
  by (auto simp: dbl_int_def dbl_trunc_def Let_def split: double.splits if_splits)

end
