(* ===== verification/Table.thy ===== *)
theory Table
  imports Core Interfaces
begin

text \<open>
  \<^verbatim>\<open>src/core/table.c\<close> and the dictionary search of \<^verbatim>\<open>util.c\<close>
  (amalg/janet.c): the hash tables of the runtime. The buckets are the list of the
  \<open>JanetKV\<close> cells in memory order: a cell with nil key and nil value is empty, one with nil
  key and value \<open>false\<close> is a removed entry the search goes on past. Prototypes are
  addresses of other tables in a heap of tables.
\<close>

type_synonym buckets = "(jv \<times> jv) list"

record table =
  data :: buckets
  tcount :: int
  tdeleted :: int
  proto :: "nat option"

subsection \<open>Sizes\<close>

definition smear :: "32 word \<Rightarrow> 32 word" where
  "smear n0 =
     (let n = n0 OR drop_bit 1 n0; n = n OR drop_bit 2 n; n = n OR drop_bit 4 n;
          n = n OR drop_bit 8 n in n OR drop_bit 16 n)"

definition janet_tablen :: "int \<Rightarrow> fault + int" where
  "janet_tablen n = (if n < 0 then Inr 0 else checked32 (uint (smear (word_of_int n)) + 1))"

subsection \<open>Searching the buckets\<close>

definition janet_maphash :: "nat \<Rightarrow> 32 word \<Rightarrow> nat" where
  "janet_maphash cap hash = unat (hash AND (word_of_nat cap - 1))"

definition probe :: "nat \<Rightarrow> jv \<Rightarrow> nat list" where
  "probe cap key = (let index = janet_maphash cap (janet_hash key) in [index..<cap] @ [0..<index])"

fun scan :: "buckets \<Rightarrow> jv \<Rightarrow> nat list \<Rightarrow> nat option \<Rightarrow> fault + nat option" where
  "scan bk key [] first_bucket = Inr first_bucket"
| "scan bk key (i # is) first_bucket =
     (if i \<ge> length bk then Inl OutOfBounds
      else if fst (bk ! i) = VNil then
        (if snd (bk ! i) = VNil then Inr (Some i)
         else scan bk key is (if first_bucket = None then Some i else first_bucket))
      else if janet_equals (fst (bk ! i)) key then Inr (Some i)
      else scan bk key is first_bucket)"

definition janet_dict_find :: "buckets \<Rightarrow> jv \<Rightarrow> fault + nat option" where
  "janet_dict_find bk key = scan bk key (probe (length bk) key) None"

definition janet_dictionary_get :: "buckets \<Rightarrow> jv \<Rightarrow> fault + jv" where
  "janet_dictionary_get bk key =
     rbind (janet_dict_find bk key) (\<lambda>b. case b of
       Some i \<Rightarrow> Inr (if fst (bk ! i) \<noteq> VNil then snd (bk ! i) else VNil)
     | None \<Rightarrow> Inr VNil)"

text \<open>Iteration: the first full bucket after the given one.\<close>

fun next_full :: "buckets \<Rightarrow> nat list \<Rightarrow> nat option" where
  "next_full bk [] = None"
| "next_full bk (i # is) = (if fst (bk ! i) \<noteq> VNil then Some i else next_full bk is)"

definition janet_dictionary_next :: "buckets \<Rightarrow> nat option \<Rightarrow> nat option" where
  "janet_dictionary_next bk kv =
     next_full bk [(case kv of None \<Rightarrow> 0 | Some i \<Rightarrow> i + 1)..<length bk]"

subsection \<open>Operations\<close>

definition janet_memalloc_empty :: "nat \<Rightarrow> buckets" where
  "janet_memalloc_empty n = replicate n (VNil, VNil)"

definition janet_table :: "int \<Rightarrow> fault + table" where
  "janet_table capacity =
     rbind (janet_tablen capacity) (\<lambda>n.
       Inr \<lparr>data = (if n \<noteq> 0 then janet_memalloc_empty (nat n) else []), tcount = 0, tdeleted = 0, proto = None\<rparr>)"

definition janet_table_find :: "table \<Rightarrow> jv \<Rightarrow> fault + nat option" where
  "janet_table_find t key = janet_dict_find (data t) key"

fun reinsert :: "buckets \<Rightarrow> buckets \<Rightarrow> fault + buckets" where
  "reinsert [] new = Inr new"
| "reinsert (kv # kvs) new =
     (if fst kv = VNil then reinsert kvs new
      else rbind (janet_dict_find new (fst kv)) (\<lambda>b. case b of
        None \<Rightarrow> Inl NullDeref
      | Some i \<Rightarrow> reinsert kvs (new[i := kv])))"

definition janet_table_rehash :: "table \<Rightarrow> int \<Rightarrow> fault + table" where
  "janet_table_rehash t sz =
     rbind (reinsert (data t) (janet_memalloc_empty (nat sz))) (\<lambda>newdata.
       Inr (t\<lparr>data := newdata, tdeleted := 0\<rparr>))"

definition janet_table_rawget :: "table \<Rightarrow> jv \<Rightarrow> fault + jv" where
  "janet_table_rawget t key = janet_dictionary_get (data t) key"

definition janet_table_remove :: "table \<Rightarrow> jv \<Rightarrow> fault + jv \<times> table" where
  "janet_table_remove t key =
     rbind (janet_table_find t key) (\<lambda>b. case b of
       None \<Rightarrow> Inr (VNil, t)
     | Some i \<Rightarrow>
         if fst (data t ! i) \<noteq> VNil
         then Inr (snd (data t ! i),
           t\<lparr>data := (data t)[i := (VNil, VBool False)], tcount := tcount t - 1, tdeleted := tdeleted t + 1\<rparr>)
         else Inr (VNil, t))"

definition is_boolean :: "jv \<Rightarrow> bool" where
  "is_boolean v = (case v of VBool b \<Rightarrow> True | _ \<Rightarrow> False)"

text \<open>The part \<open>janet_table_put\<close> and \<open>janet_table_put_no_overwrite\<close> share: the key
  is not there.\<close>

definition put_new :: "table \<Rightarrow> jv \<Rightarrow> jv \<Rightarrow> nat option \<Rightarrow> fault + table" where
  "put_new t key value bucket =
     rbind (if bucket = None \<or> 2 * (tcount t + tdeleted t + 1) > int (length (data t))
            then rbind (checked32 (2 * tcount t + 2)) (\<lambda>n. rbind (janet_tablen n) (janet_table_rehash t))
            else Inr t) (\<lambda>t2.
     rbind (janet_table_find t2 key) (\<lambda>b. case b of
       None \<Rightarrow> Inl NullDeref
     | Some i \<Rightarrow> Inr (t2\<lparr>data := (data t2)[i := (key, value)],
          tdeleted := (if is_boolean (snd (data t2 ! i)) then tdeleted t2 - 1 else tdeleted t2),
          tcount := tcount t2 + 1\<rparr>)))"

definition janet_table_put :: "table \<Rightarrow> jv \<Rightarrow> jv \<Rightarrow> fault + table" where
  "janet_table_put t key value =
     (if key = VNil then Inr t
      else if (case key of VNum d \<Rightarrow> isnan d | _ \<Rightarrow> False) then Inr t
      else if value = VNil then rbind (janet_table_remove t key) (\<lambda>(_, t2). Inr t2)
      else rbind (janet_table_find t key) (\<lambda>bucket. case bucket of
        Some i \<Rightarrow>
          if fst (data t ! i) \<noteq> VNil then Inr (t\<lparr>data := (data t)[i := (fst (data t ! i), value)]\<rparr>)
          else put_new t key value bucket
      | None \<Rightarrow> put_new t key value bucket))"

definition janet_table_put_no_overwrite :: "table \<Rightarrow> jv \<Rightarrow> jv \<Rightarrow> fault + table" where
  "janet_table_put_no_overwrite t key value =
     rbind (janet_table_find t key) (\<lambda>bucket. case bucket of
       Some i \<Rightarrow> if fst (data t ! i) \<noteq> VNil then Inr t else put_new t key value bucket
     | None \<Rightarrow> put_new t key value bucket)"

definition janet_table_clear :: "table \<Rightarrow> table" where
  "janet_table_clear t = t\<lparr>data := janet_memalloc_empty (length (data t)), tcount := 0, tdeleted := 0\<rparr>"

definition janet_table_clone :: "table \<Rightarrow> table" where
  "janet_table_clone t = \<lparr>data = data t, tcount = tcount t, tdeleted = tdeleted t, proto = proto t\<rparr>"

fun janet_table_mergekv :: "table \<Rightarrow> buckets \<Rightarrow> fault + table" where
  "janet_table_mergekv t [] = Inr t"
| "janet_table_mergekv t (kv # kvs) =
     (if fst kv \<noteq> VNil then rbind (janet_table_put t (fst kv) (snd kv)) (\<lambda>t2. janet_table_mergekv t2 kvs)
      else janet_table_mergekv t kvs)"

definition janet_table_merge_table :: "table \<Rightarrow> table \<Rightarrow> fault + table" where
  "janet_table_merge_table t other = janet_table_mergekv t (data other)"

subsection \<open>Prototypes\<close>

type_synonym tables = "nat \<Rightarrow> table option"

definition JANET_MAX_PROTO_DEPTH :: nat where "JANET_MAX_PROTO_DEPTH = 200"

fun get_from :: "nat \<Rightarrow> tables \<Rightarrow> nat option \<Rightarrow> jv \<Rightarrow> fault + jv \<times> nat option" where
  "get_from 0 h t key = Inr (VNil, None)"
| "get_from (Suc n) h None key = Inr (VNil, None)"
| "get_from (Suc n) h (Some a) key =
     (case h a of
        None \<Rightarrow> Inl UseAfterFree
      | Some t \<Rightarrow> rbind (janet_table_find t key) (\<lambda>b. case b of
          Some i \<Rightarrow> if fst (data t ! i) \<noteq> VNil then Inr (snd (data t ! i), Some a) else get_from n h (proto t) key
        | None \<Rightarrow> get_from n h (proto t) key))"

definition janet_table_get_ex :: "tables \<Rightarrow> nat \<Rightarrow> jv \<Rightarrow> fault + jv \<times> nat option" where
  "janet_table_get_ex h a key = get_from JANET_MAX_PROTO_DEPTH h (Some a) key"

definition janet_table_get :: "tables \<Rightarrow> nat \<Rightarrow> jv \<Rightarrow> fault + jv" where
  "janet_table_get h a key = rbind (janet_table_get_ex h a key) (\<lambda>(v, which). Inr v)"

fun merge_no_overwrite :: "table \<Rightarrow> buckets \<Rightarrow> fault + table" where
  "merge_no_overwrite t [] = Inr t"
| "merge_no_overwrite t (kv # kvs) =
     (if fst kv \<noteq> VNil
      then rbind (janet_table_put_no_overwrite t (fst kv) (snd kv)) (\<lambda>t2. merge_no_overwrite t2 kvs)
      else merge_no_overwrite t kvs)"

text \<open>The walk along the prototypes has no depth limit here: a cycle never ends, which is
  \<open>None\<close>.\<close>

partial_function (option) flatten_from :: "tables \<Rightarrow> nat option \<Rightarrow> table \<Rightarrow> (fault + table) option" where
  "flatten_from h t new =
     (case t of None \<Rightarrow> Some (Inr new)
      | Some a \<Rightarrow> (case h a of
          None \<Rightarrow> Some (Inl UseAfterFree)
        | Some tab \<Rightarrow> (case merge_no_overwrite new (data tab) of
            Inl e \<Rightarrow> Some (Inl e)
          | Inr new2 \<Rightarrow> flatten_from h (proto tab) new2)))"

definition janet_table_proto_flatten :: "tables \<Rightarrow> nat \<Rightarrow> (fault + table) option" where
  "janet_table_proto_flatten h a =
     (case janet_table 0 of Inl e \<Rightarrow> Some (Inl e) | Inr new \<Rightarrow> flatten_from h (Some a) new)"

end
