(* ===== verification/TableSpec.thy ===== *)
theory TableSpec
  imports Table
begin

text \<open>
  What the hash tables promise. The invariant: a power of two of buckets, at least half of them
  neither full nor removed, keys that are pairwise different, and no empty bucket on the way from
  the place a key hashes to to the place it is in. On such a table the search ends in the bucket
  of the key, or in the first empty one; so the operations are those of a finite map up to
  \<open>janet_equals\<close>, which is the interpretation of the interface.
\<close>

subsection \<open>The size function\<close>

lemma bit_smear_step:
  fixes w v :: "32 word"
  assumes "\<And>i. bit v i = (\<exists>j < m. bit w (i + j))"
  shows "bit (v OR drop_bit m v) i = (\<exists>j < 2 * m. bit w (i + j))"
proof -
  have "(\<exists>j < m. bit w (i + j)) \<or> (\<exists>j < m. bit w (m + i + j)) \<longleftrightarrow> (\<exists>j < 2 * m. bit w (i + j))"
  proof
    assume "(\<exists>j < m. bit w (i + j)) \<or> (\<exists>j < m. bit w (m + i + j))"
    then show "\<exists>j < 2 * m. bit w (i + j)"
    proof
      assume "\<exists>j < m. bit w (m + i + j)"
      then obtain j where "j < m" "bit w (m + i + j)" by blast
      then show ?thesis by (intro exI [of _ "m + j"]) (simp add: ac_simps)
    next
      assume "\<exists>j < m. bit w (i + j)"
      then obtain j where "j < m" "bit w (i + j)" by blast
      then show ?thesis by (intro exI [of _ j]) simp
    qed
  next
    assume "\<exists>j < 2 * m. bit w (i + j)"
    then obtain j where j: "j < 2 * m" "bit w (i + j)" by blast
    show "(\<exists>j < m. bit w (i + j)) \<or> (\<exists>j < m. bit w (m + i + j))"
    proof (cases "j < m")
      case False
      with j have "j - m < m" "m + i + (j - m) = i + j" by simp_all
      with j(2) show ?thesis by metis
    qed (use j in blast)
  qed
  then show ?thesis by (simp add: bit_simps assms)
qed

lemma bit_smear: "bit (smear w) i = (\<exists>j < 32. bit w (i + j))"
proof -
  define a where "a = w OR drop_bit 1 w"
  define b where "b = a OR drop_bit 2 a"
  define c where "c = b OR drop_bit 4 b"
  define d where "d = c OR drop_bit 8 c"
  have 1: "bit w i = (\<exists>j < 1. bit w (i + j))" for i by simp
  have 2: "bit a i = (\<exists>j < 2. bit w (i + j))" for i unfolding a_def using bit_smear_step [OF 1] by simp
  have 4: "bit b i = (\<exists>j < 4. bit w (i + j))" for i unfolding b_def using bit_smear_step [OF 2] by simp
  have 8: "bit c i = (\<exists>j < 8. bit w (i + j))" for i unfolding c_def using bit_smear_step [OF 4] by simp
  have 16: "bit d i = (\<exists>j < 16. bit w (i + j))" for i unfolding d_def using bit_smear_step [OF 8] by simp
  have "smear w = d OR drop_bit 16 d" by (simp add: smear_def Let_def a_def b_def c_def d_def)
  then show ?thesis using bit_smear_step [OF 16] by simp
qed

text \<open>The smallest power of two above a natural number.\<close>

lemma bits_below:
  assumes "(n :: nat) < 2 ^ k" and "2 ^ (k - 1) \<le> n" and "0 < k" and "k \<le> 31"
  shows "smear (word_of_nat n) = mask k"
proof (rule bit_word_eqI)
  fix i assume "i < LENGTH(32)"
  then have i: "i < 32" by simp
  have b: "bit (word_of_nat n :: 32 word) j = (j < 32 \<and> bit n j)" for j by (simp add: bit_simps)
  have hi: "\<not> bit n j" if "k \<le> j" for j
  proof
    assume "bit n j"
    then have "n div 2 ^ j \<noteq> 0" by (metis bit_iff_odd even_zero)
    then have "2 ^ j \<le> n" by (metis div_less not_le)
    moreover have "(2 :: nat) ^ k \<le> 2 ^ j" using that by (intro power_increasing) simp_all
    ultimately show False using assms(1) by linarith
  qed
  have top: "bit n (k - 1)"
  proof -
    have "n div 2 ^ (k - 1) = 1"
      using assms(1-3) by (cases k) (auto simp: div_nat_eqI)
    then show ?thesis by (simp add: bit_iff_odd)
  qed
  show "bit (smear (word_of_nat n)) i = bit (mask k :: 32 word) i"
  proof (cases "i < k")
    case True
    with top assms have "bit (word_of_nat n :: 32 word) (i + (k - 1 - i))" "k - 1 - i < 32" by (simp_all add: b)
    then have "bit (smear (word_of_nat n)) i" unfolding bit_smear by blast
    with True i show ?thesis by (simp add: bit_simps)
  next
    case False
    with hi have "\<not> bit (smear (word_of_nat n)) i" unfolding bit_smear by (auto simp: b)
    with False show ?thesis by (simp add: bit_simps)
  qed
qed

lemma janet_tablen_pow2:
  assumes "0 \<le> n" and "n < 2 ^ 30"
  shows "\<exists>m. janet_tablen n = Inr (2 ^ m) \<and> n < 2 ^ m \<and> m \<le> 30"
proof (cases "n = 0")
  case True
  then show ?thesis by (intro exI [of _ 0]) (simp add: janet_tablen_def smear_def checked32_def int32_def)
next
  case False
  with assms have "0 < n" by simp
  from bitlen_bounds [OF this] obtain k where k: "0 < bitlen n" "2 ^ (k - 1) \<le> n" "n < 2 ^ k" "k = nat (bitlen n)"
    by (auto simp: nat_diff_distrib')
  have k0: "0 < k" using k(1,4) by simp
  have "(2 :: int) ^ (k - 1) < 2 ^ 30" using k(2) assms(2) by linarith
  then have "k - 1 < 30" by (rule power_less_imp_less_exp [rotated]) simp
  then have k30: "k \<le> 30" by simp
  have "smear (word_of_nat (nat n)) = mask k"
    using k k0 k30 assms(1) by (intro bits_below) (simp_all add: nat_less_iff le_nat_iff)
  then have s: "smear (word_of_int n) = mask k" using assms(1) by simp
  have le: "(2 :: int) ^ k \<le> 2 ^ 30" using k30 by (intro power_increasing) simp_all
  have "(2 :: int) ^ k \<le> 1073741824" using le by simp
  moreover have "0 \<le> (2 :: int) ^ k" by simp
  ultimately have i32: "int32 (2 ^ k)" unfolding int32_def by linarith
  have mk: "mask k = (word_of_int (2 ^ k - 1) :: 32 word)" by (simp add: mask_eq_exp_minus_1)
  have "uint (mask k :: 32 word) = (2 ^ k - 1) mod 2 ^ 32" unfolding mk uint_word_of_int by simp
  moreover have "(2 ^ k - 1) mod 2 ^ 32 = (2 ^ k - 1 :: int)"
    using le by (intro mod_pos_pos_trivial) simp_all
  ultimately have "janet_tablen n = Inr (2 ^ k)"
    using assms(1) s i32 by (simp add: janet_tablen_def checked32_def)
  with k(3) k30 show ?thesis by blast
qed

subsection \<open>The probe order\<close>

lemma maphash_less:
  assumes "cap = 2 ^ m" and "m \<le> 30"
  shows "janet_maphash cap h < cap"
proof -
  have mk: "(word_of_nat cap - 1 :: 32 word) = mask m" by (simp add: assms(1) mask_eq_exp_minus_1)
  have "h AND mask m = take_bit m h" by (rule take_bit_eq_mask [symmetric])
  then have "unat (h AND mask m) = take_bit m (unat h)" by (simp add: unsigned_take_bit_eq)
  also have "\<dots> < 2 ^ m" by simp
  finally show ?thesis unfolding janet_maphash_def mk by (simp only: assms(1))
qed

lemma probe_set:
  assumes "length bk = 2 ^ m" and "m \<le> 30"
  shows "set (probe (length bk) k) = {..<length bk}" and "distinct (probe (length bk) k)"
  using maphash_less [OF assms, of "janet_hash k"] by (auto simp: probe_def Let_def)

lemma probe_equal: "janet_equals a b \<Longrightarrow> probe cap a = probe cap b"
  using janet_equals_hash by (simp add: probe_def)

subsection \<open>Where a search ends\<close>

definition full :: "buckets \<Rightarrow> nat \<Rightarrow> bool" where
  "full bk i \<longleftrightarrow> fst (bk ! i) \<noteq> VNil"

definition empty :: "buckets \<Rightarrow> nat \<Rightarrow> bool" where
  "empty bk i \<longleftrightarrow> bk ! i = (VNil, VNil)"

definition has_key :: "buckets \<Rightarrow> jv \<Rightarrow> nat \<Rightarrow> bool" where
  "has_key bk k i \<longleftrightarrow> full bk i \<and> janet_equals (fst (bk ! i)) k"

definition stops :: "buckets \<Rightarrow> jv \<Rightarrow> nat \<Rightarrow> bool" where
  "stops bk k i \<longleftrightarrow> empty bk i \<or> has_key bk k i"

lemma scan_stops:
  "\<forall>i \<in> set is. i < length bk \<Longrightarrow> find (stops bk k) is = Some i \<Longrightarrow> scan bk k is fb = Inr (Some i)"
proof (induction "is" arbitrary: fb)
  case Nil
  then show ?case by simp
next
  case (Cons j js)
  then show ?case
    by (cases "bk ! j") (auto simp: stops_def empty_def has_key_def full_def split: if_splits)
qed

lemma find_first:
  "i \<in> set xs \<Longrightarrow> P i \<Longrightarrow> \<forall>x \<in> set (takeWhile (\<lambda>y. y \<noteq> i) xs). \<not> P x \<Longrightarrow> find P xs = Some i"
  by (induction xs) (auto split: if_splits)

lemma find_Some_first:
  "find P xs = Some i \<Longrightarrow> i \<in> set xs \<and> P i \<and> (\<forall>x \<in> set (takeWhile (\<lambda>y. y \<noteq> i) xs). \<not> P x)"
  by (induction xs) (auto split: if_splits)

subsection \<open>The invariant of the buckets\<close>

text \<open>On the way to \<open>i\<close>: the buckets a search for the key of \<open>i\<close> visits before it.\<close>

definition before :: "nat \<Rightarrow> jv \<Rightarrow> nat \<Rightarrow> nat set" where
  "before cap k i = set (takeWhile (\<lambda>j. j \<noteq> i) (probe cap k))"

definition placed :: "buckets \<Rightarrow> bool" where
  "placed bk \<longleftrightarrow> (\<forall>i < length bk. full bk i \<longrightarrow> (\<forall>j \<in> before (length bk) (fst (bk ! i)) i. \<not> empty bk j))"

definition distinct_keys :: "buckets \<Rightarrow> bool" where
  "distinct_keys bk \<longleftrightarrow> (\<forall>i < length bk. \<forall>j < length bk. full bk i \<and> has_key bk (fst (bk ! i)) j \<longrightarrow> i = j)"

definition buckets_ok :: "buckets \<Rightarrow> bool" where
  "buckets_ok bk \<longleftrightarrow> (\<exists>m \<le> 30. length bk = 2 ^ m) \<and> placed bk \<and> distinct_keys bk
     \<and> (\<forall>i < length bk. full bk i \<longrightarrow> valid_key (fst (bk ! i)) \<and> snd (bk ! i) \<noteq> VNil)
     \<and> (\<forall>i < length bk. \<not> full bk i \<longrightarrow> snd (bk ! i) \<in> {VNil, VBool False})"

definition binds :: "buckets \<Rightarrow> jv \<Rightarrow> jv \<Rightarrow> bool" where
  "binds bk k v \<longleftrightarrow> (\<exists>i < length bk. has_key bk k i \<and> snd (bk ! i) = v)"

lemma buckets_okD:
  assumes "buckets_ok bk"
  obtains m where "m \<le> 30" and "length bk = 2 ^ m"
  using assms by (auto simp: buckets_ok_def)

lemma has_key_unique:
  assumes "buckets_ok bk" and "has_key bk k i" and "has_key bk k j" and "i < length bk" and "j < length bk"
  shows "i = j"
proof -
  have "janet_equals (fst (bk ! j)) (fst (bk ! i))"
    using assms(2,3) by (meson has_key_def janet_equals_sym janet_equals_trans)
  then show ?thesis
    using assms by (simp add: buckets_ok_def distinct_keys_def) (metis has_key_def)
qed

text \<open>A search ends in the bucket of the key, or else in the first empty bucket.\<close>

lemma dict_find_present:
  assumes "buckets_ok bk" and "i < length bk" and "has_key bk k i"
  shows "janet_dict_find bk k = Inr (Some i)"
proof -
  obtain m where m: "m \<le> 30" "length bk = 2 ^ m" using assms(1) by (rule buckets_okD)
  have p: "set (probe (length bk) k) = {..<length bk}" using probe_set [OF m(2,1)] by simp
  have same: "probe (length bk) k = probe (length bk) (fst (bk ! i))"
    using assms(3) by (simp add: has_key_def probe_equal janet_equals_sym)
  have "\<not> stops bk k j" if "j \<in> set (takeWhile (\<lambda>y. y \<noteq> i) (probe (length bk) k))" for j
  proof -
    have "j \<noteq> i" "j < length bk" using that set_takeWhileD p by force+
    moreover have "\<not> empty bk j"
      using that assms by (auto simp: same before_def buckets_ok_def placed_def has_key_def)
    ultimately show ?thesis using has_key_unique [OF assms(1,3) _ assms(2)] by (auto simp: stops_def)
  qed
  then have "find (stops bk k) (probe (length bk) k) = Some i"
    using assms(2,3) p by (intro find_first) (auto simp: stops_def)
  then show ?thesis using p unfolding janet_dict_find_def by (intro scan_stops) auto
qed

lemma dict_find_absent:
  assumes "buckets_ok bk" and "\<forall>i < length bk. \<not> has_key bk k i" and "e < length bk" and "empty bk e"
  shows "\<exists>i < length bk. janet_dict_find bk k = Inr (Some i) \<and> empty bk i \<and> (\<forall>j \<in> before (length bk) k i. \<not> empty bk j)"
proof -
  obtain m where m: "m \<le> 30" "length bk = 2 ^ m" using assms(1) by (rule buckets_okD)
  have p: "set (probe (length bk) k) = {..<length bk}" using probe_set [OF m(2,1)] by simp
  have "find (stops bk k) (probe (length bk) k) \<noteq> None"
    using assms(3,4) p by (auto simp: find_None_iff stops_def)
  then obtain i where i: "find (stops bk k) (probe (length bk) k) = Some i" by blast
  from find_Some_first [OF i] p assms(2) have "i < length bk" "empty bk i" "\<forall>j \<in> before (length bk) k i. \<not> empty bk j"
    by (auto simp: stops_def before_def)
  moreover have "janet_dict_find bk k = Inr (Some i)"
    unfolding janet_dict_find_def using p by (intro scan_stops [OF _ i]) auto
  ultimately show ?thesis by blast
qed

subsection \<open>Storing and removing one entry\<close>

lemma before_length_update [simp]: "before (length (bk[i := x])) k j = before (length bk) k j"
  by simp

lemma upd_simps:
  assumes "i < length bk"
  shows "full (bk[i := (k, v)]) j = (if j = i then k \<noteq> VNil else full bk j)"
    and "empty (bk[i := (k, v)]) j = (if j = i then k = VNil \<and> v = VNil else empty bk j)"
    and "has_key (bk[i := (k, v)]) q j = (if j = i then k \<noteq> VNil \<and> janet_equals k q else has_key bk q j)"
  using assms by (auto simp: full_def empty_def has_key_def nth_list_update)

text \<open>Filling the empty bucket a search for a new key ended in.\<close>

lemma store_new:
  assumes "buckets_ok bk" and "valid_key k" and "v \<noteq> VNil" and "\<forall>i < length bk. \<not> has_key bk k i"
    and "i < length bk" and "empty bk i" and "\<forall>j \<in> before (length bk) k i. \<not> empty bk j"
  shows "buckets_ok (bk[i := (k, v)])"
    and "binds (bk[i := (k, v)]) q w \<longleftrightarrow> (if janet_equals k q then w = v else binds bk q w)"
proof -
  let ?b = "bk[i := (k, v)]"
  have k: "k \<noteq> VNil" "janet_equals k k" using assms(2) by (simp_all add: valid_key_def janet_equals_refl)
  note u = upd_simps [OF assms(5), of k v]
  have fi: "\<not> full bk i" using assms(6) by (simp add: full_def empty_def)
  have pl: "\<forall>j < length bk. full bk j \<longrightarrow> (\<forall>p \<in> before (length bk) (fst (bk ! j)) j. \<not> empty bk p)"
    and di: "\<forall>j < length bk. \<forall>p < length bk. full bk j \<and> has_key bk (fst (bk ! j)) p \<longrightarrow> j = p"
    using assms(1) by (auto simp: buckets_ok_def placed_def distinct_keys_def)
  have "placed ?b"
    unfolding placed_def
  proof (intro allI impI ballI)
    fix j p assume "j < length ?b" "full ?b j" "p \<in> before (length ?b) (fst (?b ! j)) j"
    then show "\<not> empty ?b p"
      using pl assms(5,7) k(1) by (cases "j = i") (auto simp: u)
  qed
  moreover have "distinct_keys ?b"
    unfolding distinct_keys_def
  proof (intro allI impI)
    fix j p assume j: "j < length ?b" "p < length ?b" "full ?b j \<and> has_key ?b (fst (?b ! j)) p"
    show "j = p"
    proof (cases "j = i \<or> p = i")
      case False
      with j di show ?thesis by (auto simp: u)
    next
      case True
      show ?thesis
      proof (rule ccontr)
        assume n: "j \<noteq> p"
        from True show False
        proof
          assume "j = i"
          with n j have "has_key bk k p" by (simp add: u)
          with assms(4) j(2) show False by simp
        next
          assume p: "p = i"
          with n j have "full bk j" "janet_equals k (fst (bk ! j))" by (simp_all add: u)
          then have "has_key bk k j" by (simp add: has_key_def janet_equals_sym)
          with assms(4) j(1) show False by simp
        qed
      qed
    qed
  qed
  moreover have "\<forall>j < length ?b. full ?b j \<longrightarrow> valid_key (fst (?b ! j)) \<and> snd (?b ! j) \<noteq> VNil"
    using assms(1,2,3,5) by (auto simp: u buckets_ok_def nth_list_update)
  moreover have "\<forall>j < length ?b. \<not> full ?b j \<longrightarrow> snd (?b ! j) \<in> {VNil, VBool False}"
    using assms(1,5) k(1) by (auto simp: u buckets_ok_def nth_list_update)
  ultimately show "buckets_ok ?b" using assms(1) by (simp add: buckets_ok_def)
  show "binds ?b q w \<longleftrightarrow> (if janet_equals k q then w = v else binds bk q w)"
  proof (cases "janet_equals k q")
    case True
    have "\<not> has_key bk q j" if "j < length bk" for j
      using assms(4) that True by (meson has_key_def janet_equals_sym janet_equals_trans)
    then show ?thesis using True k(1) assms(5) by (auto simp: binds_def u nth_list_update)
  next
    case False
    have "\<not> has_key bk q i" using fi by (simp add: has_key_def)
    then show ?thesis using False by (auto simp: binds_def u nth_list_update)
  qed
qed

text \<open>A new value under the key that is there.\<close>

lemma store_old:
  assumes "buckets_ok bk" and "v \<noteq> VNil" and "i < length bk" and "has_key bk k i"
  shows "buckets_ok (bk[i := (fst (bk ! i), v)])"
    and "binds (bk[i := (fst (bk ! i), v)]) q w \<longleftrightarrow> (if janet_equals k q then w = v else binds bk q w)"
proof -
  let ?b = "bk[i := (fst (bk ! i), v)]"
  have fi: "full bk i" "fst (bk ! i) \<noteq> VNil" using assms(4) by (simp_all add: has_key_def full_def)
  have f: "full ?b j = full bk j" "has_key ?b q j = has_key bk q j" "fst (?b ! j) = fst (bk ! j)" for j q
    using assms(3) by (auto simp: upd_simps full_def has_key_def nth_list_update)
  have e: "empty ?b j \<Longrightarrow> empty bk j" for j
    using assms(3) fi by (auto simp: upd_simps split: if_splits)
  show "buckets_ok ?b"
    using assms(1,2,3) e by (auto simp: buckets_ok_def placed_def distinct_keys_def f nth_list_update fi)
  show "binds ?b q w \<longleftrightarrow> (if janet_equals k q then w = v else binds bk q w)"
  proof (cases "janet_equals k q")
    case True
    then have q: "has_key bk q i" using assms(4) by (meson has_key_def janet_equals_trans)
    have "j = i" if "j < length bk" "has_key bk q j" for j
      using has_key_unique [OF assms(1) that(2) q that(1) assms(3)] .
    with q assms(3) have "(\<exists>j < length bk. has_key bk q j \<and> snd (?b ! j) = w) \<longleftrightarrow> snd (?b ! i) = w" by blast
    with True assms(3) show ?thesis by (auto simp: binds_def f)
  next
    case False
    then have "\<not> has_key bk q i" using assms(4) by (meson has_key_def janet_equals_sym janet_equals_trans)
    then have "?b ! j = bk ! j" if "has_key bk q j" for j using that by (cases "j = i") simp_all
    with False show ?thesis unfolding binds_def f length_list_update by auto
  qed
qed

text \<open>Removing: the bucket keeps searches going.\<close>

lemma store_removed:
  assumes "buckets_ok bk" and "i < length bk" and "has_key bk k i"
  shows "buckets_ok (bk[i := (VNil, VBool False)])"
    and "binds (bk[i := (VNil, VBool False)]) q w \<longleftrightarrow> \<not> janet_equals k q \<and> binds bk q w"
proof -
  let ?b = "bk[i := (VNil, VBool False)]"
  note u = upd_simps [OF assms(2), of VNil "VBool False"]
  have f: "full ?b j \<Longrightarrow> full bk j \<and> j \<noteq> i" "empty ?b j \<Longrightarrow> empty bk j" "has_key ?b q j \<Longrightarrow> has_key bk q j" for j q
    by (simp_all add: u split: if_splits)
  have n: "j \<noteq> i \<Longrightarrow> ?b ! j = bk ! j" for j by simp
  have o: "placed bk" "distinct_keys bk" "\<forall>j < length bk. full bk j \<longrightarrow> valid_key (fst (bk ! j)) \<and> snd (bk ! j) \<noteq> VNil"
    "\<forall>j < length bk. \<not> full bk j \<longrightarrow> snd (bk ! j) \<in> {VNil, VBool False}"
    using assms(1) by (simp_all add: buckets_ok_def)
  have "placed ?b"
    unfolding placed_def
  proof (intro allI impI ballI)
    fix j p assume j: "j < length ?b" "full ?b j" "p \<in> before (length ?b) (fst (?b ! j)) j"
    from f(1) [of j] j have "full bk j" "?b ! j = bk ! j" by (simp_all add: n)
    with o(1) j have "\<not> empty bk p" by (simp add: placed_def)
    then show "\<not> empty ?b p" using f(2) by blast
  qed
  moreover have "distinct_keys ?b"
    unfolding distinct_keys_def
  proof (intro allI impI)
    fix j p assume j: "j < length ?b" "p < length ?b" "full ?b j \<and> has_key ?b (fst (?b ! j)) p"
    from f(1) [of j] j have "full bk j" "?b ! j = bk ! j" by (simp_all add: n)
    with j f(3) have "has_key bk (fst (bk ! j)) p" by metis
    with o(2) j \<open>full bk j\<close> show "j = p" by (simp add: distinct_keys_def)
  qed
  moreover have "\<forall>j < length ?b. full ?b j \<longrightarrow> valid_key (fst (?b ! j)) \<and> snd (?b ! j) \<noteq> VNil"
  proof (intro allI impI)
    fix j assume j: "j < length ?b" "full ?b j"
    from f(1) [of j] j have "full bk j" "?b ! j = bk ! j" by (simp_all add: n)
    with o(3) j show "valid_key (fst (?b ! j)) \<and> snd (?b ! j) \<noteq> VNil" by simp
  qed
  moreover have "\<forall>j < length ?b. \<not> full ?b j \<longrightarrow> snd (?b ! j) \<in> {VNil, VBool False}"
    using o(4) assms(2) by (auto simp: u nth_list_update split: if_splits)
  ultimately show "buckets_ok ?b" using assms(1) by (simp add: buckets_ok_def)
  show "binds ?b q w \<longleftrightarrow> \<not> janet_equals k q \<and> binds bk q w"
  proof (cases "janet_equals k q")
    case True
    then have q: "has_key bk q i" using assms(3) by (meson has_key_def janet_equals_trans)
    have "has_key ?b q j \<longleftrightarrow> j \<noteq> i \<and> has_key bk q j" for j by (simp add: u)
    with has_key_unique [OF assms(1) _ q] assms(2) True show ?thesis by (auto simp: binds_def)
  next
    case False
    then have "\<not> has_key bk q i" using assms(3) by (meson has_key_def janet_equals_sym janet_equals_trans)
    with False show ?thesis by (auto simp: binds_def u nth_list_update)
  qed
qed

subsection \<open>Counting\<close>

definition n_full :: "buckets \<Rightarrow> nat" where
  "n_full bk = length (filter (\<lambda>kv. fst kv \<noteq> VNil) bk)"

text \<open>Full or removed.\<close>

definition n_used :: "buckets \<Rightarrow> nat" where
  "n_used bk = length (filter (\<lambda>kv. kv \<noteq> (VNil, VNil)) bk)"

lemma count_update:
  "i < length xs \<Longrightarrow> int (length (filter P (xs[i := y]))) =
     int (length (filter P xs)) + of_bool (P y) - of_bool (P (xs ! i))"
proof (induction xs arbitrary: i)
  case Nil
  then show ?case by simp
next
  case (Cons x xs)
  then show ?case by (cases i) simp_all
qed

lemma n_update:
  assumes "i < length bk"
  shows "int (n_full (bk[i := y])) = int (n_full bk) + of_bool (fst y \<noteq> VNil) - of_bool (full bk i)"
    and "int (n_used (bk[i := y])) = int (n_used bk) + of_bool (y \<noteq> (VNil, VNil)) - of_bool (\<not> empty bk i)"
  unfolding n_full_def n_used_def full_def empty_def using count_update [OF assms] by simp_all

lemma exists_empty:
  assumes "n_used bk < length bk"
  shows "\<exists>e < length bk. empty bk e"
proof (rule ccontr)
  assume "\<not> ?thesis"
  then have "\<forall>kv \<in> set bk. kv \<noteq> (VNil, VNil)" by (metis empty_def in_set_conv_nth)
  then have "filter (\<lambda>kv. kv \<noteq> (VNil, VNil)) bk = bk" by (simp add: filter_id_conv)
  with assms show False unfolding n_used_def by simp
qed

lemma n_full_le: "n_full bk \<le> n_used bk"
proof -
  have "filter (\<lambda>kv. fst kv \<noteq> VNil) bk = filter (\<lambda>kv. fst kv \<noteq> VNil) (filter (\<lambda>kv. kv \<noteq> (VNil, VNil)) bk)"
    by (auto intro: filter_cong)
  then show ?thesis unfolding n_full_def n_used_def by (metis length_filter_le)
qed

lemma binds_set: "binds bk q w \<longleftrightarrow> (\<exists>kv \<in> set bk. fst kv \<noteq> VNil \<and> janet_equals (fst kv) q \<and> snd kv = w)"
  unfolding binds_def has_key_def full_def by (metis in_set_conv_nth)

subsection \<open>Rehashing\<close>

definition entries_ok :: "buckets \<Rightarrow> bool" where
  "entries_ok kvs \<longleftrightarrow> (\<forall>kv \<in> set kvs. fst kv \<noteq> VNil \<longrightarrow> valid_key (fst kv) \<and> snd kv \<noteq> VNil)
     \<and> sorted_wrt (\<lambda>a b. fst a \<noteq> VNil \<longrightarrow> \<not> janet_equals (fst a) (fst b)) kvs"

lemma buckets_entries: "buckets_ok bk \<Longrightarrow> entries_ok bk"
proof -
  assume ok: "buckets_ok bk"
  have "fst (bk ! i) \<noteq> VNil \<longrightarrow> \<not> janet_equals (fst (bk ! i)) (fst (bk ! j))" if "i < j" "j < length bk" for i j
  proof (intro impI notI)
    assume f: "fst (bk ! i) \<noteq> VNil" "janet_equals (fst (bk ! i)) (fst (bk ! j))"
    then have "fst (bk ! j) \<noteq> VNil" by (auto split: jv.splits dest: janet_equals_sym)
    with f have "has_key bk (fst (bk ! i)) j" by (simp add: has_key_def full_def janet_equals_sym)
    moreover have "i < length bk" using that by simp
    ultimately have "i = j" using ok f(1) that(2) unfolding buckets_ok_def distinct_keys_def full_def by blast
    with that show False by simp
  qed
  moreover have "\<forall>kv \<in> set bk. fst kv \<noteq> VNil \<longrightarrow> valid_key (fst kv) \<and> snd kv \<noteq> VNil"
  proof
    fix kv assume "kv \<in> set bk"
    then obtain i where "i < length bk" "bk ! i = kv" by (meson in_set_conv_nth)
    with ok show "fst kv \<noteq> VNil \<longrightarrow> valid_key (fst kv) \<and> snd kv \<noteq> VNil"
      unfolding buckets_ok_def full_def by metis
  qed
  ultimately show ?thesis by (simp add: entries_ok_def sorted_wrt_iff_nth_less)
qed

lemma reinsert_ok:
  assumes "buckets_ok new" and "entries_ok kvs" and "n_used new + n_full kvs < length new"
    and "\<forall>kv \<in> set kvs. fst kv \<noteq> VNil \<longrightarrow> (\<forall>i < length new. \<not> has_key new (fst kv) i)"
  shows "\<exists>new2. reinsert kvs new = Inr new2 \<and> buckets_ok new2 \<and> length new2 = length new
      \<and> n_used new2 = n_used new + n_full kvs \<and> n_full new2 = n_full new + n_full kvs
      \<and> (\<forall>q w. binds new2 q w \<longleftrightarrow> binds new q w \<or> binds kvs q w)"
  using assms
proof (induction kvs arbitrary: new)
  case Nil
  then show ?case by (simp add: n_full_def binds_set)
next
  case (Cons kv kvs)
  have e: "entries_ok kvs" using Cons.prems(2) by (simp add: entries_ok_def)
  show ?case
  proof (cases "fst kv = VNil")
    case True
    then have "n_full (kv # kvs) = n_full kvs" "\<And>q w. binds (kv # kvs) q w = binds kvs q w"
      by (auto simp: n_full_def binds_set)
    with True Cons.IH [OF Cons.prems(1) e] Cons.prems(3,4) show ?thesis by simp
  next
    case False
    then have nf: "n_full (kv # kvs) = Suc (n_full kvs)" by (simp add: n_full_def)
    have v: "valid_key (fst kv)" "snd kv \<noteq> VNil" and ab: "\<forall>i < length new. \<not> has_key new (fst kv) i"
      using False Cons.prems(2,4) by (simp_all add: entries_ok_def)
    have dis: "\<not> janet_equals (fst kv) (fst b)" if "b \<in> set kvs" for b
      using False that Cons.prems(2) by (simp add: entries_ok_def)
    have "n_used new < length new" using Cons.prems(3) nf by simp
    then obtain em where "em < length new" "empty new em" using exists_empty by blast
    from dict_find_absent [OF Cons.prems(1) ab this] obtain i where
      i: "i < length new" "janet_dict_find new (fst kv) = Inr (Some i)" "empty new i"
        "\<forall>j \<in> before (length new) (fst kv) i. \<not> empty new j" by blast
    let ?n = "new[i := (fst kv, snd kv)]"
    note st = store_new [OF Cons.prems(1) v ab i(1,3,4)]
    have "\<not> full new i" "kv \<noteq> (VNil, VNil)" using i(3) False by (auto simp: full_def empty_def)
    then have cnt: "n_used ?n = Suc (n_used new)" "n_full ?n = Suc (n_full new)"
      using n_update [OF i(1), of "(fst kv, snd kv)"] i(3) False by auto
    have ab2: "\<forall>b \<in> set kvs. fst b \<noteq> VNil \<longrightarrow> (\<forall>j < length ?n. \<not> has_key ?n (fst b) j)"
    proof (intro ballI impI allI)
      fix b j assume b: "b \<in> set kvs" "fst b \<noteq> VNil" "j < length ?n"
      then have "\<not> has_key new (fst b) j" using Cons.prems(4) by simp
      then show "\<not> has_key ?n (fst b) j"
        unfolding upd_simps(3) [OF i(1)] using dis [OF b(1)] by simp
    qed
    have "n_used ?n + n_full kvs < length ?n" using Cons.prems(3) cnt nf by simp
    from Cons.IH [OF st(1) e this ab2] obtain new2 where
      n2: "reinsert kvs ?n = Inr new2" "buckets_ok new2" "length new2 = length new"
        "n_used new2 = n_used ?n + n_full kvs" "n_full new2 = n_full ?n + n_full kvs"
        "\<forall>q w. binds new2 q w \<longleftrightarrow> binds ?n q w \<or> binds kvs q w" by auto
    have b: "binds (kv # kvs) q w \<longleftrightarrow> (janet_equals (fst kv) q \<and> w = snd kv) \<or> binds kvs q w" for q w
      using False by (auto simp: binds_set)
    have nb: "\<not> binds new q w" if "janet_equals (fst kv) q" for q w
      using ab that by (meson binds_def has_key_def janet_equals_sym janet_equals_trans)
    have "reinsert (kv # kvs) new = Inr new2" using False i(2) n2(1) by simp
    moreover have "binds new2 q w \<longleftrightarrow> binds new q w \<or> binds (kv # kvs) q w" for q w
      unfolding b using n2(6) st(2) nb by auto
    ultimately show ?thesis using n2 cnt nf by auto
  qed
qed

lemma empty_buckets:
  assumes "m \<le> 30"
  shows "buckets_ok (janet_memalloc_empty (2 ^ m))" and "n_used (janet_memalloc_empty n) = 0"
    and "n_full (janet_memalloc_empty n) = 0" and "\<not> binds (janet_memalloc_empty n) q w"
  using assms by (auto simp: buckets_ok_def janet_memalloc_empty_def placed_def distinct_keys_def full_def
      n_used_def n_full_def binds_set)

lemma rehash_ok:
  assumes "buckets_ok (data t)" and "n_full (data t) < 2 ^ m" and "m \<le> 30"
  shows "\<exists>t2. janet_table_rehash t (2 ^ m) = Inr t2 \<and> buckets_ok (data t2) \<and> length (data t2) = 2 ^ m
      \<and> n_used (data t2) = n_full (data t) \<and> n_full (data t2) = n_full (data t)
      \<and> (\<forall>q w. binds (data t2) q w = binds (data t) q w) \<and> tcount t2 = tcount t \<and> tdeleted t2 = 0 \<and> proto t2 = proto t"
proof -
  let ?new = "janet_memalloc_empty (2 ^ m)"
  have l: "length ?new = 2 ^ m" by (simp add: janet_memalloc_empty_def)
  have "\<not> has_key ?new k i" if "i < length ?new" for k i
    using that by (simp add: has_key_def full_def janet_memalloc_empty_def)
  then obtain nd where "reinsert (data t) ?new = Inr nd" "buckets_ok nd" "length nd = 2 ^ m"
      "n_used nd = n_full (data t)" "n_full nd = n_full (data t)" "\<forall>q w. binds nd q w = binds (data t) q w"
    using reinsert_ok [OF empty_buckets(1) [OF assms(3)] buckets_entries [OF assms(1)]] assms(2) l
      empty_buckets(2-4) [OF assms(3), of "2 ^ m"] by auto
  then show ?thesis by (simp add: janet_table_rehash_def nat_power_eq)
qed

subsection \<open>Tables\<close>

definition table_ok :: "table \<Rightarrow> bool" where
  "table_ok t \<longleftrightarrow> buckets_ok (data t) \<and> 2 * n_used (data t) \<le> length (data t)
     \<and> tcount t = int (n_full (data t)) \<and> tcount t + tdeleted t = int (n_used (data t))"

lemma table_okD:
  assumes "table_ok t"
  shows "buckets_ok (data t)" and "n_used (data t) < length (data t)" and "\<exists>e < length (data t). empty (data t) e"
proof -
  obtain m where "length (data t) = 2 ^ m" using assms by (auto simp: table_ok_def elim: buckets_okD)
  moreover have "0 < (2 :: nat) ^ m" by simp
  ultimately have "0 < length (data t)" by metis
  moreover have "2 * n_used (data t) \<le> length (data t)" using assms by (simp add: table_ok_def)
  ultimately show "n_used (data t) < length (data t)" by linarith
  then show "\<exists>e < length (data t). empty (data t) e" by (rule exists_empty)
  show "buckets_ok (data t)" using assms by (simp add: table_ok_def)
qed

lemma find_cases:
  assumes "table_ok t"
  obtains i where "i < length (data t)" and "janet_table_find t k = Inr (Some i)" and "has_key (data t) k i"
    and "full (data t) i"
  | i where "i < length (data t)" and "janet_table_find t k = Inr (Some i)" and "empty (data t) i"
    and "\<not> full (data t) i" and "\<forall>j < length (data t). \<not> has_key (data t) k j"
    and "\<forall>j \<in> before (length (data t)) k i. \<not> empty (data t) j"
proof -
  note ok = table_okD [OF assms]
  show thesis
  proof (cases "\<exists>i < length (data t). has_key (data t) k i")
    case True
    then obtain i where i: "i < length (data t)" "has_key (data t) k i" by blast
    show thesis
      by (rule that(1) [OF i(1) _ i(2)])
        (use dict_find_present [OF ok(1) i] i(2) in \<open>simp_all add: janet_table_find_def has_key_def\<close>)
  next
    case False
    then have ab: "\<forall>j < length (data t). \<not> has_key (data t) k j" by blast
    from ok(3) obtain e where "e < length (data t)" "empty (data t) e" by blast
    from dict_find_absent [OF ok(1) ab this] obtain i where i: "i < length (data t)"
      "janet_dict_find (data t) k = Inr (Some i)" "empty (data t) i"
      "\<forall>j \<in> before (length (data t)) k i. \<not> empty (data t) j" by blast
    show thesis
      by (rule that(2) [OF i(1) _ i(3) _ ab i(4)]) (use i in \<open>simp_all add: janet_table_find_def full_def empty_def\<close>)
  qed
qed

text \<open>What a lookup shows: the value bound, or nil.\<close>

lemma rawget_binds:
  assumes "table_ok t"
  shows "\<exists>v. janet_table_rawget t k = Inr v \<and> (if v = VNil then \<forall>w. \<not> binds (data t) k w else \<forall>w. binds (data t) k w \<longleftrightarrow> w = v)"
proof -
  have g: "janet_table_rawget t k = rbind (janet_table_find t k) (\<lambda>b. case b of
       Some i \<Rightarrow> Inr (if fst (data t ! i) \<noteq> VNil then snd (data t ! i) else VNil) | None \<Rightarrow> Inr VNil)"
    by (simp add: janet_table_rawget_def janet_dictionary_get_def janet_table_find_def)
  show ?thesis
  proof (cases rule: find_cases [OF assms, of k])
    case (1 i)
    have "snd (data t ! i) \<noteq> VNil" using table_okD(1) [OF assms] 1(1,4) by (simp add: buckets_ok_def)
    moreover have "binds (data t) k w \<longleftrightarrow> w = snd (data t ! i)" for w
    proof -
      have "j = i" if "j < length (data t)" "has_key (data t) k j" for j
        using has_key_unique [OF table_okD(1) [OF assms] that(2) 1(3) that(1) 1(1)] .
      with 1(1,3) show ?thesis unfolding binds_def by blast
    qed
    ultimately show ?thesis using 1 by (simp add: g full_def)
  next
    case (2 i)
    then show ?thesis by (auto simp: g full_def binds_def)
  qed
qed

definition get :: "table \<Rightarrow> jv \<Rightarrow> jv" where
  "get t k = (case janet_table_rawget t k of Inr v \<Rightarrow> v | Inl e \<Rightarrow> VNil)"

lemma rawget_get: "table_ok t \<Longrightarrow> janet_table_rawget t k = Inr (get t k)"
  by (drule rawget_binds [of t k]) (elim exE conjE, simp add: get_def)

lemma get_binds: "table_ok t \<Longrightarrow> get t k = v \<longleftrightarrow> (if v = VNil then \<forall>w. \<not> binds (data t) k w else binds (data t) k v)"
proof -
  assume "table_ok t"
  from rawget_binds [OF this, of k] obtain u where u: "janet_table_rawget t k = Inr u"
    "if u = VNil then \<forall>w. \<not> binds (data t) k w else \<forall>w. binds (data t) k w \<longleftrightarrow> w = u" by blast
  have "get t k = u" by (simp add: get_def u(1))
  with u(2) show ?thesis by (cases "u = VNil"; cases "v = VNil") auto
qed

lemma put_new_ok:
  assumes "table_ok t" and "valid_key k" and "v \<noteq> VNil" and "tcount t \<le> 2 ^ 29 - 2"
    and "janet_table_find t k = Inr (Some i)" and "i < length (data t)" and "empty (data t) i"
    and "\<forall>j < length (data t). \<not> has_key (data t) k j"
    and "\<forall>j \<in> before (length (data t)) k i. \<not> empty (data t) j"
  shows "\<exists>t2. put_new t k v (Some i) = Inr t2 \<and> table_ok t2 \<and> proto t2 = proto t \<and> tcount t2 = tcount t + 1
     \<and> (\<forall>q w. binds (data t2) q w \<longleftrightarrow> (if janet_equals k q then w = v else binds (data t) q w))"
proof -
  have c: "tcount t = int (n_full (data t))" "tcount t + tdeleted t = int (n_used (data t))"
    "2 * n_used (data t) \<le> length (data t)" using assms(1) by (simp_all add: table_ok_def)
  let ?grown = "if 2 * (tcount t + tdeleted t + 1) > int (length (data t))
            then rbind (checked32 (2 * tcount t + 2)) (\<lambda>n. rbind (janet_tablen n) (janet_table_rehash t)) else Inr t"
  have "\<exists>t1. ?grown = Inr t1 \<and> table_ok t1 \<and> 2 * (n_used (data t1) + 1) \<le> length (data t1) \<and> proto t1 = proto t
      \<and> tcount t1 = tcount t \<and> (\<forall>q w. binds (data t1) q w = binds (data t) q w)"
  proof (cases "2 * (tcount t + tdeleted t + 1) > int (length (data t))")
    case False
    then show ?thesis using assms(1) c by auto
  next
    case True
    have n: "0 \<le> 2 * tcount t + 2" "2 * tcount t + 2 < 2 ^ 30" using assms(4) c(1) by simp_all
    then obtain m where m: "janet_tablen (2 * tcount t + 2) = Inr (2 ^ m)" "2 * tcount t + 2 < 2 ^ m" "m \<le> 30"
      using janet_tablen_pow2 by blast
    have lt: "2 * n_full (data t) + 2 < 2 ^ m"
    proof -
      have "int (2 * n_full (data t) + 2) < int (2 ^ m)" using m(2) c(1) by simp
      then show ?thesis by (simp only: of_nat_less_iff)
    qed
    then have "n_full (data t) < 2 ^ m" by simp
    from rehash_ok [OF table_okD(1) [OF assms(1)] this m(3)] obtain t1 where t1:
      "janet_table_rehash t (2 ^ m) = Inr t1" "buckets_ok (data t1)" "length (data t1) = 2 ^ m"
      "n_used (data t1) = n_full (data t)" "n_full (data t1) = n_full (data t)"
      "\<forall>q w. binds (data t1) q w = binds (data t) q w" "tcount t1 = tcount t" "tdeleted t1 = 0" "proto t1 = proto t"
      by blast
    have "checked32 (2 * tcount t + 2) = Inr (2 * tcount t + 2)" using n by (simp add: checked32_def int32_def)
    with True m(1) t1 c(1) lt show ?thesis by (simp add: table_ok_def)
  qed
  then obtain t1 where g: "?grown = Inr t1" and t1: "table_ok t1" "2 * (n_used (data t1) + 1) \<le> length (data t1)"
    "proto t1 = proto t" "tcount t1 = tcount t" "\<forall>q w. binds (data t1) q w = binds (data t) q w" by blast
  have "\<not> has_key (data t1) k j" if "j < length (data t1)" for j
    using that t1(5) assms(8) by (metis binds_def)
  then obtain j where j: "j < length (data t1)" "janet_table_find t1 k = Inr (Some j)" "empty (data t1) j" "\<not> full (data t1) j"
    "\<forall>p < length (data t1). \<not> has_key (data t1) k p" "\<forall>p \<in> before (length (data t1)) k j. \<not> empty (data t1) p"
    by (cases rule: find_cases [OF t1(1), of k]) auto
  note st = store_new [OF table_okD(1) [OF t1(1)] assms(2,3) j(5,1,3,6)]
  have kn: "k \<noteq> VNil" using assms(2) by (simp add: valid_key_def)
  let ?t2 = "t1\<lparr>data := (data t1)[j := (k, v)], tdeleted := tdeleted t1, tcount := tcount t1 + 1\<rparr>"
  have nb: "\<not> is_boolean (snd (data t1 ! j))" using j(3) by (simp add: empty_def is_boolean_def)
  have "put_new t k v (Some i) = Inr ?t2"
    using g j(2) nb by (simp add: put_new_def)
  moreover have "table_ok ?t2"
    using st(1) t1(1,2) n_update [OF j(1), of "(k, v)"] j(3,4) kn by (auto simp: table_ok_def)
  ultimately show ?thesis using st(2) t1(3-5) by simp
qed

lemma put_ok:
  assumes "table_ok t" and "valid_key k" and "tcount t \<le> 2 ^ 29 - 2"
  shows "\<exists>t2. janet_table_put t k v = Inr t2 \<and> table_ok t2 \<and> proto t2 = proto t \<and> tcount t2 \<le> tcount t + 1
     \<and> (\<forall>q. get t2 q = (if janet_equals k q then v else get t q))"
proof -
  have k: "k \<noteq> VNil" "\<not> (case k of VNum d \<Rightarrow> isnan d | _ \<Rightarrow> False)"
    using assms(2) by (auto simp: valid_key_def split: jv.splits)
  note ok = table_okD [OF assms(1)]
  have gets: "\<forall>q. get t2 q = (if janet_equals k q then v else get t q)"
    if "table_ok t2" "\<forall>q w. binds (data t2) q w \<longleftrightarrow> (if janet_equals k q then v \<noteq> VNil \<and> w = v else binds (data t) q w)" for t2
  proof
    fix q
    show "get t2 q = (if janet_equals k q then v else get t q)"
      using that(2) get_binds [OF that(1), of q v] get_binds [OF that(1), of q "get t q"]
        get_binds [OF assms(1), of q "get t q"] by (cases "janet_equals k q") simp_all
  qed
  show ?thesis
  proof (cases rule: find_cases [OF assms(1), of k])
    case (1 i)
    have fi: "fst (data t ! i) \<noteq> VNil" using 1(4) by (simp add: full_def)
    show ?thesis
    proof (cases "v = VNil")
      case True
      let ?t2 = "t\<lparr>data := (data t)[i := (VNil, VBool False)], tcount := tcount t - 1, tdeleted := tdeleted t + 1\<rparr>"
      note st = store_removed [OF ok(1) 1(1,3)]
      have "janet_table_put t k v = Inr ?t2"
        using k True 1(2) fi by (simp add: janet_table_put_def janet_table_remove_def)
      moreover have t2: "table_ok ?t2"
        using st(1) assms(1) 1(3,4) n_update [OF 1(1), of "(VNil, VBool False)"]
        by (auto simp: table_ok_def empty_def full_def has_key_def)
      ultimately show ?thesis using gets [OF t2] st(2) True by auto
    next
      case False
      let ?t2 = "t\<lparr>data := (data t)[i := (fst (data t ! i), v)]\<rparr>"
      note st = store_old [OF ok(1) False 1(1,3)]
      have "janet_table_put t k v = Inr ?t2" using k False 1(2) fi by (simp add: janet_table_put_def)
      moreover have t2: "table_ok ?t2"
        using st(1) assms(1) 1(4) fi n_update [OF 1(1), of "(fst (data t ! i), v)"]
        by (auto simp: table_ok_def empty_def full_def)
      ultimately show ?thesis using gets [OF t2] st(2) False by auto
    qed
  next
    case (2 i)
    have fi: "fst (data t ! i) = VNil" using 2(4) by (simp add: full_def)
    show ?thesis
    proof (cases "v = VNil")
      case True
      have nb: "\<not> binds (data t) q w" if "janet_equals k q" for q w
        using 2(5) that by (meson binds_def has_key_def janet_equals_sym janet_equals_trans)
      have "janet_table_put t k v = Inr t" using k True 2(2) fi by (simp add: janet_table_put_def janet_table_remove_def)
      then show ?thesis using assms(1) gets [OF assms(1)] nb True by auto
    next
      case False
      from put_new_ok [OF assms(1,2) False assms(3) 2(2,1,3,5,6)] obtain t2 where t2:
        "put_new t k v (Some i) = Inr t2" "table_ok t2" "proto t2 = proto t" "tcount t2 = tcount t + 1"
        "\<forall>q w. binds (data t2) q w \<longleftrightarrow> (if janet_equals k q then w = v else binds (data t) q w)" by blast
      have "janet_table_put t k v = Inr t2" using k False 2(2) fi t2(1) by (simp add: janet_table_put_def)
      then show ?thesis using t2 gets [OF t2(2)] False by auto
    qed
  qed
qed

text \<open>The interface: a table is a keyed store up to \<open>janet_equals\<close>, with nil for
  absence.\<close>

definition put :: "jv \<Rightarrow> jv \<Rightarrow> table \<Rightarrow> table" where
  "put k v t = (case janet_table_put t k v of Inr t2 \<Rightarrow> t2 | Inl e \<Rightarrow> t)"

definition space :: "table \<Rightarrow> nat \<Rightarrow> bool" where
  "space t n \<longleftrightarrow> tcount t + int n \<le> 2 ^ 29 - 1"

interpretation tab: keyed_store get put table_ok valid_key "\<lambda>j k. janet_equals k j" "\<lambda>v. v" space
proof
  fix t k v n
  assume t: "table_ok t" and k: "valid_key k" and sp: "space t (Suc n)"
  then have "tcount t \<le> 2 ^ 29 - 2" by (simp add: space_def)
  from put_ok [OF t k this, of v] obtain t2 where t2: "janet_table_put t k v = Inr t2" "table_ok t2"
    "tcount t2 \<le> tcount t + 1" "\<forall>q. get t2 q = (if janet_equals k q then v else get t q)" by blast
  then show "table_ok (put k v t) \<and> space (put k v t) n" using sp by (simp add: put_def space_def)
  show "get (put k v t) j = (if janet_equals k j then v else get t j)" for j using t2 by (simp add: put_def)
qed

lemma mergekv_insert_all:
  assumes "table_ok t" and "space t (length kvs)" and "\<forall>kv \<in> set kvs. valid_key (fst kv)"
  shows "janet_table_mergekv t kvs = Inr (tab.insert_all kvs t)"
  using assms
proof (induction kvs arbitrary: t)
  case Nil
  then show ?case by simp
next
  case (Cons kv kvs)
  have k: "valid_key (fst kv)" and c: "tcount t \<le> 2 ^ 29 - 2" using Cons.prems(2,3) by (simp_all add: space_def)
  from put_ok [OF Cons.prems(1) k c, of "snd kv"] obtain t2 where t2: "janet_table_put t (fst kv) (snd kv) = Inr t2" by blast
  have "put (fst kv) (snd kv) t = t2" using t2 by (simp add: put_def)
  moreover have "space t (Suc (length kvs))" using Cons.prems(2) by simp
  then have "table_ok (put (fst kv) (snd kv) t) \<and> space (put (fst kv) (snd kv) t) (length kvs)"
    by (rule tab.inv_insert_kv [OF Cons.prems(1) k])
  ultimately show ?case using t2 k Cons.IH [of t2] Cons.prems(3) by (simp add: valid_key_def)
qed

lemma new_table:
  assumes "0 \<le> cap" and "cap < 2 ^ 30"
  shows "\<exists>t. janet_table cap = Inr t \<and> table_ok t \<and> tcount t = 0 \<and> proto t = None \<and> (\<forall>q. get t q = VNil)"
proof -
  obtain m where m: "janet_tablen cap = Inr (2 ^ m)" "m \<le> 30" using janet_tablen_pow2 [OF assms] by blast
  let ?t = "\<lparr>data = janet_memalloc_empty (2 ^ m), tcount = 0, tdeleted = 0, proto = None\<rparr>"
  have "janet_table cap = Inr ?t" using m(1) by (simp add: janet_table_def nat_power_eq)
  moreover have ok: "table_ok ?t" using empty_buckets [OF m(2)] by (simp add: table_ok_def)
  moreover have "get ?t q = VNil" for q using get_binds [OF ok, of q VNil] empty_buckets(4) [OF m(2)] by simp
  ultimately show ?thesis by (intro exI [of _ ?t]) simp
qed

subsection \<open>Prototypes\<close>

lemma put_no_overwrite_ok:
  assumes "table_ok t" and "valid_key k" and "v \<noteq> VNil" and "tcount t \<le> 2 ^ 29 - 2"
  shows "\<exists>t2. janet_table_put_no_overwrite t k v = Inr t2 \<and> table_ok t2 \<and> tcount t2 \<le> tcount t + 1
     \<and> (\<forall>q. get t2 q = (if janet_equals k q \<and> get t q = VNil then v else get t q))"
proof (cases rule: find_cases [OF assms(1), of k])
  case (1 i)
  then have "janet_table_put_no_overwrite t k v = Inr t" by (simp add: janet_table_put_no_overwrite_def full_def)
  moreover have "get t q \<noteq> VNil" if "janet_equals k q" for q
  proof -
    have "binds (data t) q (snd (data t ! i))"
      using 1(1,3) that janet_equals_trans unfolding binds_def has_key_def by blast
    then show ?thesis using get_binds [OF assms(1), of q VNil] by auto
  qed
  ultimately show ?thesis using assms(1) by (intro exI [of _ t]) auto
next
  case (2 i)
  from put_new_ok [OF assms 2(2,1,3,5,6)] obtain t2 where t2:
    "put_new t k v (Some i) = Inr t2" "table_ok t2" "tcount t2 = tcount t + 1"
    "\<forall>q w. binds (data t2) q w \<longleftrightarrow> (if janet_equals k q then w = v else binds (data t) q w)" by blast
  have "janet_table_put_no_overwrite t k v = Inr t2"
    using 2 t2(1) by (simp add: janet_table_put_no_overwrite_def full_def)
  moreover have "get t2 q = (if janet_equals k q \<and> get t q = VNil then v else get t q)" for q
  proof (cases "janet_equals k q")
    case True
    then have "\<not> binds (data t) q w" for w
      using 2(5) by (meson binds_def has_key_def janet_equals_sym janet_equals_trans)
    then have "get t q = VNil" using get_binds [OF assms(1), of q VNil] by simp
    then show ?thesis using True t2(4) get_binds [OF t2(2), of q v] assms(3) by simp
  next
    case False
    then show ?thesis using t2(4) get_binds [OF t2(2), of q "get t q"] get_binds [OF assms(1), of q "get t q"] by simp
  qed
  ultimately show ?thesis using t2(2,3) by (intro exI [of _ t2]) auto
qed

definition first_entry :: "buckets \<Rightarrow> jv \<Rightarrow> jv" where
  "first_entry kvs q = (case find (\<lambda>kv. fst kv \<noteq> VNil \<and> janet_equals (fst kv) q) kvs of Some kv \<Rightarrow> snd kv | None \<Rightarrow> VNil)"

lemma first_entry_get:
  assumes "table_ok t"
  shows "first_entry (data t) q = get t q"
proof (cases "find (\<lambda>kv. fst kv \<noteq> VNil \<and> janet_equals (fst kv) q) (data t)")
  case None
  then have "\<forall>w. \<not> binds (data t) q w" by (auto simp: find_None_iff binds_set)
  then show ?thesis using None get_binds [OF assms, of q VNil] by (simp add: first_entry_def)
next
  case (Some kv)
  from find_Some_first [OF Some] have kv: "kv \<in> set (data t)" "fst kv \<noteq> VNil" "janet_equals (fst kv) q" by auto
  then have "binds (data t) q (snd kv)" by (auto simp: binds_set)
  moreover have "snd kv \<noteq> VNil"
    using buckets_entries [OF table_okD(1) [OF assms]] kv by (simp add: entries_ok_def)
  ultimately have "get t q = snd kv" using get_binds [OF assms, of q "snd kv"] by simp
  then show ?thesis using Some by (simp add: first_entry_def)
qed

lemma merge_no_overwrite_ok:
  assumes "table_ok t" and "\<forall>kv \<in> set kvs. fst kv \<noteq> VNil \<longrightarrow> valid_key (fst kv) \<and> snd kv \<noteq> VNil"
    and "tcount t + int (n_full kvs) \<le> 2 ^ 29 - 1"
  shows "\<exists>t2. merge_no_overwrite t kvs = Inr t2 \<and> table_ok t2 \<and> tcount t2 \<le> tcount t + int (n_full kvs)
     \<and> (\<forall>q. get t2 q = (if get t q \<noteq> VNil then get t q else first_entry kvs q))"
  using assms
proof (induction kvs arbitrary: t)
  case Nil
  then show ?case by (simp add: n_full_def first_entry_def)
next
  case (Cons kv kvs)
  show ?case
  proof (cases "fst kv = VNil")
    case True
    then have "n_full (kv # kvs) = n_full kvs" "first_entry (kv # kvs) = first_entry kvs"
      by (auto simp: n_full_def first_entry_def)
    with True Cons.IH [OF Cons.prems(1)] Cons.prems(2,3) show ?thesis by auto
  next
    case False
    then have n: "n_full (kv # kvs) = Suc (n_full kvs)" by (simp add: n_full_def)
    have v: "valid_key (fst kv)" "snd kv \<noteq> VNil" using False Cons.prems(2) by simp_all
    have "tcount t \<le> 2 ^ 29 - 2" using Cons.prems(3) n by simp
    from put_no_overwrite_ok [OF Cons.prems(1) v this] obtain t1 where t1:
      "janet_table_put_no_overwrite t (fst kv) (snd kv) = Inr t1" "table_ok t1" "tcount t1 \<le> tcount t + 1"
      "\<forall>q. get t1 q = (if janet_equals (fst kv) q \<and> get t q = VNil then snd kv else get t q)" by blast
    have "tcount t1 + int (n_full kvs) \<le> 2 ^ 29 - 1" using t1(3) Cons.prems(3) n by simp
    from Cons.IH [OF t1(2) _ this] Cons.prems(2) obtain t2 where t2: "merge_no_overwrite t1 kvs = Inr t2" "table_ok t2"
      "tcount t2 \<le> tcount t1 + int (n_full kvs)"
      "\<forall>q. get t2 q = (if get t1 q \<noteq> VNil then get t1 q else first_entry kvs q)" by auto
    have fe: "first_entry (kv # kvs) q = (if janet_equals (fst kv) q then snd kv else first_entry kvs q)" for q
      using False by (simp add: first_entry_def)
    have "merge_no_overwrite t (kv # kvs) = Inr t2" using False t1(1) t2(1) by simp
    moreover have "get t2 q = (if get t q \<noteq> VNil then get t q else first_entry (kv # kvs) q)" for q
      using t1(4) t2(4) fe v(2) by simp
    ultimately show ?thesis using t1(3) t2(2,3) n by auto
  qed
qed

text \<open>The tables a walk along the prototypes visits.\<close>

fun chain :: "tables \<Rightarrow> nat option \<Rightarrow> table list \<Rightarrow> bool" where
  "chain h p [] = (p = None)"
| "chain h p (t # ts) = (\<exists>a. p = Some a \<and> h a = Some t \<and> chain h (proto t) ts)"

fun first_of :: "table list \<Rightarrow> jv \<Rightarrow> jv" where
  "first_of [] k = VNil"
| "first_of (t # ts) k = (if get t k \<noteq> VNil then get t k else first_of ts k)"

lemma get_from_chain:
  "chain h p ts \<Longrightarrow> \<forall>t \<in> set ts. table_ok t \<Longrightarrow> length ts \<le> n
   \<Longrightarrow> \<exists>which. get_from n h p k = Inr (first_of ts k, which)"
proof (induction ts arbitrary: p n)
  case Nil
  then show ?case by (cases n) simp_all
next
  case (Cons t ts)
  then obtain a m where a: "p = Some a" "h a = Some t" "chain h (proto t) ts" "n = Suc m" "length ts \<le> m"
    by (cases n) auto
  have ok: "table_ok t" using Cons.prems(2) by simp
  obtain wh where ih: "get_from m h (proto t) k = Inr (first_of ts k, wh)"
    using Cons.IH [OF a(3) _ a(5)] Cons.prems(2) by auto
  show ?case
  proof (cases rule: find_cases [OF ok, of k])
    case (1 i)
    have "binds (data t) k (snd (data t ! i))" using 1(1,3) by (auto simp: binds_def)
    moreover have "snd (data t ! i) \<noteq> VNil" using table_okD(1) [OF ok] 1(1,4) by (simp add: buckets_ok_def)
    ultimately have "get t k = snd (data t ! i)" "get t k \<noteq> VNil" using get_binds [OF ok, of k "snd (data t ! i)"] by simp_all
    with a 1 show ?thesis by (simp add: full_def)
  next
    case (2 i)
    then have "\<forall>w. \<not> binds (data t) k w" by (auto simp: binds_def)
    then have "get t k = VNil" using get_binds [OF ok, of k VNil] by simp
    with a 2 ih show ?thesis by (simp add: full_def)
  qed
qed

lemma flatten_chain:
  "chain h p ts \<Longrightarrow> \<forall>t \<in> set ts. table_ok t \<Longrightarrow> table_ok new
   \<Longrightarrow> tcount new + sum_list (map tcount ts) \<le> 2 ^ 29 - 1
   \<Longrightarrow> \<exists>t2. flatten_from h p new = Some (Inr t2) \<and> table_ok t2
     \<and> (\<forall>q. get t2 q = (if get new q \<noteq> VNil then get new q else first_of ts q))"
proof (induction ts arbitrary: p new)
  case Nil
  then show ?case by (subst flatten_from.simps) simp
next
  case (Cons t ts)
  then obtain a where a: "p = Some a" "h a = Some t" "chain h (proto t) ts" by auto
  have ok: "table_ok t" using Cons.prems(2) by simp
  have c: "tcount t = int (n_full (data t))" using ok by (simp add: table_ok_def)
  have pos: "0 \<le> sum_list (map tcount ts)"
    using Cons.prems(2) by (intro sum_list_nonneg) (auto simp: table_ok_def)
  have e: "\<forall>kv \<in> set (data t). fst kv \<noteq> VNil \<longrightarrow> valid_key (fst kv) \<and> snd kv \<noteq> VNil"
    using buckets_entries [OF table_okD(1) [OF ok]] by (simp add: entries_ok_def)
  have "tcount new + int (n_full (data t)) \<le> 2 ^ 29 - 1" using Cons.prems(4) c pos by simp
  from merge_no_overwrite_ok [OF Cons.prems(3) e this] obtain n1 where n1: "merge_no_overwrite new (data t) = Inr n1"
    "table_ok n1" "tcount n1 \<le> tcount new + tcount t"
    "\<forall>q. get n1 q = (if get new q \<noteq> VNil then get new q else first_entry (data t) q)" using c by auto
  have "tcount n1 + sum_list (map tcount ts) \<le> 2 ^ 29 - 1" using n1(3) Cons.prems(4) by simp
  from Cons.IH [OF a(3) _ n1(2) this] Cons.prems(2) obtain t2 where t2: "flatten_from h (proto t) n1 = Some (Inr t2)"
    "table_ok t2" "\<forall>q. get t2 q = (if get n1 q \<noteq> VNil then get n1 q else first_of ts q)" by auto
  have "flatten_from h p new = Some (Inr t2)"
    using a n1(1) t2(1) by (subst flatten_from.simps) simp
  moreover have "get t2 q = (if get new q \<noteq> VNil then get new q else first_of (t # ts) q)" for q
    using t2(3) n1(4) first_entry_get [OF ok] by simp
  ultimately show ?case using t2(2) by blast
qed

end
