(* ===== verification/TableProps.thy ===== *)
theory TableProps
  imports TableSpec
begin




subsection \<open>Properties\<close>

text \<open>The size of a bucket array: for every count below 2^30 the code's bit smearing gives the
  least power of two above it, so 1 for 0 (the comment on the function says 0), and from 2^30 on
  the last addition overflows.\<close>

theorem table_size:
  assumes "0 \<le> n" and "int32 n"
  shows "(n < 2 ^ 30 \<longrightarrow> (\<exists>m. janet_tablen n = Inr (2 ^ m) \<and> n < 2 ^ m \<and> m \<le> 30))
    \<and> (2 ^ 30 \<le> n \<longrightarrow> janet_tablen n = Inl IntOverflow) \<and> janet_tablen 0 = Inr 1"
proof (intro conjI impI)
  show "\<exists>m. janet_tablen n = Inr (2 ^ m) \<and> n < 2 ^ m \<and> m \<le> 30" if "n < 2 ^ 30"
    using janet_tablen_pow2 [OF assms(1) that] .
  show "janet_tablen 0 = Inr 1" by (simp add: janet_tablen_def smear_def checked32_def int32_def)
  show "janet_tablen n = Inl IntOverflow" if "2 ^ 30 \<le> n"
  proof -
    have "nat n < 2 ^ 31" "2 ^ (31 - 1) \<le> nat n" using assms that by (simp_all add: int32_def nat_less_iff le_nat_iff)
    then have "smear (word_of_nat (nat n)) = mask 31" by (intro bits_below) simp_all
    then have "smear (word_of_int n) = mask 31" using assms(1) by simp
    then show ?thesis using assms(1) by (simp add: janet_tablen_def checked32_def int32_def mask_eq_exp_minus_1)
  qed
qed

theorem table_size_witness:
  "(\<exists>m. janet_tablen 1000 = Inr (2 ^ m) \<and> 1000 < (2 :: int) ^ m) \<and> janet_tablen 1073741824 = Inl IntOverflow"
  using table_size [of 1000] table_size [of 1073741824] by (auto simp: int32_def)

text \<open>Putting any pairs with findable keys, one after the other, into a new table of any
  capacity below 2^30: no step faults, the table is well formed, and a key is bound to the value
  of the last pair with an equal key, or to nil if that value is nil or there is none. This is the
  finite map, up to \<open>janet_equals\<close>, that the buckets, the probing, the removed marks and
  the rehashing implement.\<close>

theorem table_merge:
  assumes "0 \<le> cap" and "cap < 2 ^ 30" and "\<forall>kv \<in> set kvs. valid_key (fst kv)" and "length kvs < 2 ^ 29"
  shows "\<exists>t t2. janet_table cap = Inr t \<and> janet_table_mergekv t kvs = Inr t2 \<and> table_ok t2
    \<and> (\<forall>q. janet_table_rawget t2 q =
        Inr (case find (\<lambda>kv. janet_equals (fst kv) q) (rev kvs) of Some kv \<Rightarrow> snd kv | None \<Rightarrow> VNil))"
proof -
  obtain t where t: "janet_table cap = Inr t" "table_ok t" "tcount t = 0" "\<forall>q. get t q = VNil"
    using new_table [OF assms(1,2)] by blast
  have sp: "space t (length kvs)" using t(3) assms(4) by (simp add: space_def)
  note r = mergekv_insert_all [OF t(2) sp assms(3)] tab.inv_insert_all [OF t(2) sp assms(3)]
    tab.lookup_insert_all [OF t(2) sp assms(3)]
  show ?thesis
    using t(1,4) r(1,2) rawget_get [OF r(2)] r(3)
    by (intro exI [of _ t] exI [of _ "tab.insert_all kvs t"]) (simp split: option.splits)
qed

theorem table_merge_witness:
  "\<exists>t t2. janet_table 0 = Inr t
    \<and> janet_table_mergekv t [(VKey [97], VBool True), (VStr [98], VNum (Finite False 5)), (VKey [97], VNil)] = Inr t2
    \<and> janet_table_rawget t2 (VStr [98]) = Inr (VNum (Finite False 5)) \<and> janet_table_rawget t2 (VKey [97]) = Inr VNil"
  using table_merge [of 0 "[(VKey [97], VBool True), (VStr [98], VNum (Finite False 5)), (VKey [97], VNil)]"]
  by (fastforce simp: valid_key_def)

text \<open>C14. Every operation on a well-formed table keeps it well formed and never faults: a put of a
  findable key binds exactly that key (nil unbinds it), a put under nil or NaN changes nothing, a
  removal returns the value the key had and unbinds it, clearing unbinds everything, and the copy
  of a table has the same bindings.\<close>

theorem table_operations:
  assumes "table_ok t" and "tcount t \<le> 2 ^ 29 - 2"
  shows "(valid_key k \<longrightarrow> (\<exists>t2. janet_table_put t k v = Inr t2 \<and> table_ok t2
        \<and> (\<forall>q. janet_table_rawget t2 q = (if janet_equals k q then Inr v else janet_table_rawget t q))))
    \<and> janet_table_put t VNil v = Inr t \<and> janet_table_put t (VNum (NaN s)) v = Inr t
    \<and> (\<exists>old t2. janet_table_remove t k = Inr (old, t2) \<and> janet_table_rawget t k = Inr old \<and> table_ok t2
        \<and> (\<forall>q. janet_table_rawget t2 q = (if janet_equals k q then Inr VNil else janet_table_rawget t q)))
    \<and> table_ok (janet_table_clear t) \<and> (\<forall>q. janet_table_rawget (janet_table_clear t) q = Inr VNil)
    \<and> janet_table_clone t = t"
proof (intro conjI)
  show "valid_key k \<longrightarrow> (\<exists>t2. janet_table_put t k v = Inr t2 \<and> table_ok t2
        \<and> (\<forall>q. janet_table_rawget t2 q = (if janet_equals k q then Inr v else janet_table_rawget t q)))"
    using put_ok [OF assms(1) _ assms(2)] rawget_get assms(1) by fastforce
  show "janet_table_put t VNil v = Inr t" "janet_table_put t (VNum (NaN s)) v = Inr t"
    by (simp_all add: janet_table_put_def isnan_def)
  obtain m where m: "m \<le> 30" "length (data t) = 2 ^ m" using table_okD(1) [OF assms(1)] by (rule buckets_okD)
  have c: "table_ok (janet_table_clear t)"
    using empty_buckets [OF m(1)] m(2) by (simp add: table_ok_def janet_table_clear_def)
  then show "table_ok (janet_table_clear t)" .
  have "get (janet_table_clear t) q = VNil" for q
    using get_binds [OF c, of q VNil] empty_buckets(4) [OF m(1)] by (simp add: janet_table_clear_def)
  then show "\<forall>q. janet_table_rawget (janet_table_clear t) q = Inr VNil" using rawget_get [OF c] by simp
  show "janet_table_clone t = t" by (simp add: janet_table_clone_def)
  show "\<exists>old t2. janet_table_remove t k = Inr (old, t2) \<and> janet_table_rawget t k = Inr old \<and> table_ok t2
        \<and> (\<forall>q. janet_table_rawget t2 q = (if janet_equals k q then Inr VNil else janet_table_rawget t q))"
  proof (cases rule: find_cases [OF assms(1), of k])
    case (1 i)
    let ?t2 = "t\<lparr>data := (data t)[i := (VNil, VBool False)], tcount := tcount t - 1, tdeleted := tdeleted t + 1\<rparr>"
    note st = store_removed [OF table_okD(1) [OF assms(1)] 1(1,3)]
    have t2: "table_ok ?t2"
      using st(1) assms(1) 1(3,4) n_update [OF 1(1), of "(VNil, VBool False)"]
      by (auto simp: table_ok_def empty_def full_def has_key_def)
    have "get ?t2 q = (if janet_equals k q then VNil else get t q)" for q
      using st(2) get_binds [OF t2, of q VNil] get_binds [OF t2, of q "get t q"]
        get_binds [OF assms(1), of q "get t q"] by (cases "janet_equals k q") simp_all
    moreover have "janet_table_remove t k = Inr (snd (data t ! i), ?t2)" "janet_table_rawget t k = Inr (snd (data t ! i))"
      using 1 by (simp_all add: janet_table_remove_def janet_table_rawget_def janet_dictionary_get_def
          janet_table_find_def full_def)
    ultimately show ?thesis using t2 rawget_get [OF t2] rawget_get [OF assms(1)] by auto
  next
    case (2 i)
    have nb: "\<not> binds (data t) q w" if "janet_equals k q" for q w
      using 2(5) that by (meson binds_def has_key_def janet_equals_sym janet_equals_trans)
    have "get t q = VNil" if "janet_equals k q" for q
      using nb [OF that] get_binds [OF assms(1), of q VNil] by simp
    moreover have "janet_table_remove t k = Inr (VNil, t)" "janet_table_rawget t k = Inr VNil"
      using 2 by (simp_all add: janet_table_remove_def janet_table_rawget_def janet_dictionary_get_def
          janet_table_find_def full_def)
    ultimately show ?thesis using assms(1) rawget_get [OF assms(1)] by auto
  qed
qed

definition demo_table :: table where
  "demo_table = \<lparr>data = [(VBool False, VKey [65]), (VNil, VNil), (VNil, VNil), (VNil, VNil)],
     tcount = 1, tdeleted = 0, proto = None\<rparr>"

lemma demo_table_ok: "table_ok demo_table"
proof -
  have "buckets_ok (data demo_table)"
    unfolding buckets_ok_def
  proof (intro conjI)
    show "\<exists>m \<le> 30. length (data demo_table) = 2 ^ m" by (intro exI [of _ 2]) (simp add: demo_table_def)
  qed (auto simp: demo_table_def placed_def distinct_keys_def full_def before_def probe_def janet_maphash_def
      empty_def has_key_def valid_key_def less_Suc_eq numeral_2_eq_2 numeral_3_eq_3)
  then show ?thesis by (simp add: table_ok_def demo_table_def n_used_def n_full_def)
qed

theorem table_operations_witness:
  "table_ok demo_table
   \<and> (\<exists>t2. janet_table_put demo_table (VBool False) VNil = Inr t2 \<and> janet_table_rawget t2 (VBool False) = Inr VNil)
   \<and> (\<exists>t2. janet_table_remove demo_table (VBool False) = Inr (VKey [65], t2) \<and> table_ok t2)"
proof -
  have c: "tcount demo_table \<le> 2 ^ 29 - 2" by (simp add: demo_table_def)
  have g: "janet_table_rawget demo_table (VBool False) = Inr (VKey [65])"
    by (simp add: demo_table_def janet_table_rawget_def janet_dictionary_get_def janet_dict_find_def
        probe_def janet_maphash_def upt_rec)
  note p = table_operations [OF demo_table_ok c, of "VBool False" VNil False]
  from p have "\<exists>t2. janet_table_put demo_table (VBool False) VNil = Inr t2 \<and> janet_table_rawget t2 (VBool False) = Inr VNil"
    by (auto simp: valid_key_def)
  moreover from p g have "\<exists>t2. janet_table_remove demo_table (VBool False) = Inr (VKey [65], t2) \<and> table_ok t2" by auto
  ultimately show ?thesis using demo_table_ok by blast
qed

text \<open>C15. Flattening the prototypes of a table, along a chain that ends within the depth limit of
  lookups, gives a table of its own that answers every key as the lookup through the prototypes
  does.\<close>

theorem table_flatten:
  assumes "chain h (Some a) ts" and "\<forall>t \<in> set ts. table_ok t" and "length ts \<le> JANET_MAX_PROTO_DEPTH"
    and "sum_list (map tcount ts) < 2 ^ 29"
  shows "\<exists>t2. janet_table_proto_flatten h a = Some (Inr t2) \<and> table_ok t2
    \<and> (\<forall>k. janet_table_get h a k = janet_table_rawget t2 k)"
proof -
  obtain t0 where t0: "janet_table 0 = Inr t0" "table_ok t0" "tcount t0 = 0" "\<forall>q. get t0 q = VNil"
    using new_table [of 0] by auto
  have "tcount t0 + sum_list (map tcount ts) \<le> 2 ^ 29 - 1" using t0(3) assms(4) by simp
  from flatten_chain [OF assms(1,2) t0(2) this] obtain t2 where t2: "flatten_from h (Some a) t0 = Some (Inr t2)"
    "table_ok t2" "\<forall>q. get t2 q = first_of ts q" using t0(4) by auto
  have "janet_table_get h a k = Inr (first_of ts k)" for k
    using get_from_chain [OF assms(1-3), of k] by (auto simp: janet_table_get_def janet_table_get_ex_def)
  with t2 t0(1) rawget_get [OF t2(2)] show ?thesis by (simp add: janet_table_proto_flatten_def)
qed

theorem table_flatten_witness:
  "\<exists>t2. janet_table_proto_flatten [1 \<mapsto> demo_table\<lparr>proto := Some 2\<rparr>, 2 \<mapsto> demo_table] 1 = Some (Inr t2)
    \<and> janet_table_rawget t2 (VBool False)
      = janet_table_get [1 \<mapsto> demo_table\<lparr>proto := Some 2\<rparr>, 2 \<mapsto> demo_table] 1 (VBool False)"
proof -
  have p: "table_ok (demo_table\<lparr>proto := Some 2\<rparr>)" using demo_table_ok by (simp add: table_ok_def)
  have "chain [1 \<mapsto> demo_table\<lparr>proto := Some 2\<rparr>, 2 \<mapsto> demo_table] (Some 1) [demo_table\<lparr>proto := Some 2\<rparr>, demo_table]"
    by (simp add: demo_table_def)
  from table_flatten [OF this] p demo_table_ok show ?thesis
    by (auto simp: demo_table_def JANET_MAX_PROTO_DEPTH_def)
qed



end
