(* ===== verification/Arrays.thy ===== *)
theory Arrays
  imports Core Interfaces
begin

text \<open>
  \<^verbatim>\<open>src/core/array.c\<close> (amalg/janet.c): growable arrays. An array is a count, a
  capacity and its block of memory; what the block stands for is its first \<open>count\<close> cells.
  The native functions take the array the first argument refers to beside the arguments; another
  argument that is the same array is \<open>Self\<close>.
\<close>

record jarray =
  acells :: "janet block"
  acount :: int
  acapacity :: int

subsection \<open>Operations of the runtime\<close>

definition janet_array :: "int \<Rightarrow> jarray" where
  "janet_array capacity = \<lparr>acells = malloc_block (nat capacity), acount = 0, acapacity = capacity\<rparr>"

definition janet_array_n :: "janet list \<Rightarrow> jarray" where
  "janet_array_n elements =
     \<lparr>acells = map Some elements, acount = int (length elements), acapacity = int (length elements)\<rparr>"

text \<open>The conversion to \<open>int32_t\<close> keeps the low 32 bits. A size that is negative as an
  \<open>int32_t\<close> is huge as a \<open>size_t\<close>; a size of 0 releases a block there is and gives
  NULL.\<close>

definition janet_array_ensure :: "jarray \<Rightarrow> int \<Rightarrow> int \<Rightarrow> fault + jarray" where
  "janet_array_ensure a capacity growth =
     (if capacity \<le> acapacity a then Inr a
      else let new_capacity = capacity * growth;
               new_capacity = (if new_capacity > INT32_MAX then INT32_MAX else new_capacity);
               capacity = wrap32 new_capacity in
        if capacity < 0 \<or> (capacity = 0 \<and> acells a \<noteq> []) then Inl OutOfMemory
        else Inr (a\<lparr>acells := realloc_block (acells a) (nat capacity), acapacity := capacity\<rparr>))"

definition janet_array_setcount :: "jarray \<Rightarrow> int \<Rightarrow> fault + jarray" where
  "janet_array_setcount a count =
     (if count < 0 then Inr a
      else rbind (if count > acount a
                  then rbind (janet_array_ensure a count 1) (\<lambda>a.
                    rbind (write_cells (acells a) (nat (acount a)) (replicate (nat (count - acount a)) JNil)) (\<lambda>b.
                      Inr (a\<lparr>acells := b\<rparr>)))
                  else Inr a) (\<lambda>a. Inr (a\<lparr>acount := count\<rparr>)))"

definition janet_array_push :: "jarray \<Rightarrow> janet \<Rightarrow> jarray run" where
  "janet_array_push a x =
     (if acount a = INT32_MAX then raises ''array overflow'' []
      else let newcount = acount a + 1 in
        andthen (faults (janet_array_ensure a newcount 2)) (\<lambda>a.
        andthen (faults (write_cell (acells a) (nat (acount a)) x)) (\<lambda>b.
        okay (a\<lparr>acells := b, acount := newcount\<rparr>))))"

definition janet_array_pop :: "jarray \<Rightarrow> fault + janet \<times> jarray" where
  "janet_array_pop a =
     (if acount a \<noteq> 0
      then let count = acount a - 1 in
        rbind (read_cell (acells a) (nat count)) (\<lambda>x. Inr (x, a\<lparr>acount := count\<rparr>))
      else Inr (JNil, a))"

definition janet_array_peek :: "jarray \<Rightarrow> fault + janet" where
  "janet_array_peek a =
     (if acount a \<noteq> 0 then read_cell (acells a) (nat (acount a - 1)) else Inr JNil)"

subsection \<open>Native functions\<close>

definition janet_getarray :: "janet list \<Rightarrow> nat \<Rightarrow> panic + unit" where
  "janet_getarray argv n = (case argv ! n of JArray xs \<Rightarrow> Inr () | x \<Rightarrow> Inl (janet_panic_type x n [JANET_ARRAY]))"

abbreviation argc_of :: "janet list \<Rightarrow> int" where
  "argc_of argv \<equiv> int (length argv)"

definition cfun_array_new :: "janet list \<Rightarrow> jarray run" where
  "cfun_array_new argv =
     andthen (checks (janet_fixarity (length argv) 1)) (\<lambda>_.
     andthen (checks (janet_getinteger argv 0)) (\<lambda>cap. okay (janet_array cap)))"

definition cfun_array_new_filled :: "janet list \<Rightarrow> jarray run" where
  "cfun_array_new_filled argv =
     andthen (checks (janet_arity (argc_of argv) 1 2)) (\<lambda>_.
     andthen (checks (janet_getnat argv 0)) (\<lambda>count.
     let x = (if length argv = 2 then argv ! 1 else JNil); a = janet_array count in
     andthen (faults (write_cells (acells a) 0 (replicate (nat count) x))) (\<lambda>b.
     okay (a\<lparr>acells := b, acount := count\<rparr>))))"

definition cfun_array_fill :: "jarray \<Rightarrow> janet list \<Rightarrow> jarray run" where
  "cfun_array_fill a argv =
     andthen (checks (janet_arity (argc_of argv) 1 2)) (\<lambda>_.
     andthen (checks (janet_getarray argv 0)) (\<lambda>_.
     let x = (if length argv = 2 then argv ! 1 else JNil) in
     andthen (faults (write_cells (acells a) 0 (replicate (nat (acount a)) x))) (\<lambda>b.
     okay (a\<lparr>acells := b\<rparr>))))"

definition cfun_array_pop :: "jarray \<Rightarrow> janet list \<Rightarrow> (janet \<times> jarray) run" where
  "cfun_array_pop a argv =
     andthen (checks (janet_fixarity (length argv) 1)) (\<lambda>_.
     andthen (checks (janet_getarray argv 0)) (\<lambda>_. faults (janet_array_pop a)))"

definition cfun_array_peek :: "jarray \<Rightarrow> janet list \<Rightarrow> janet run" where
  "cfun_array_peek a argv =
     andthen (checks (janet_fixarity (length argv) 1)) (\<lambda>_.
     andthen (checks (janet_getarray argv 0)) (\<lambda>_. faults (janet_array_peek a)))"

definition cfun_array_push :: "jarray \<Rightarrow> janet list \<Rightarrow> jarray run" where
  "cfun_array_push a argv =
     andthen (checks (janet_arity (argc_of argv) 1 (-1))) (\<lambda>_.
     andthen (checks (janet_getarray argv 0)) (\<lambda>_.
     if INT32_MAX - argc_of argv + 1 \<le> acount a then raises ''array overflow'' []
     else let newcount = acount a - 1 + argc_of argv in
       andthen (faults (janet_array_ensure a newcount 2)) (\<lambda>a.
       andthen (faults (if length argv > 1 then write_cells (acells a) (nat (acount a)) (drop 1 argv)
                        else Inr (acells a))) (\<lambda>b.
       okay (a\<lparr>acells := b, acount := newcount\<rparr>)))))"

definition cfun_array_ensure :: "jarray \<Rightarrow> janet list \<Rightarrow> jarray run" where
  "cfun_array_ensure a argv =
     andthen (checks (janet_fixarity (length argv) 3)) (\<lambda>_.
     andthen (checks (janet_getarray argv 0)) (\<lambda>_.
     andthen (checks (janet_getinteger argv 1)) (\<lambda>newcount.
     andthen (checks (janet_getinteger argv 2)) (\<lambda>growth.
     if newcount < 1 then raises ''expected positive integer'' []
     else faults (janet_array_ensure a newcount growth)))))"

text \<open>The first argument is read before the number of arguments is checked.\<close>

definition cfun_array_slice :: "janet list \<Rightarrow> jarray run" where
  "cfun_array_slice argv =
     andthen (faults (guard_or (argv \<noteq> []) OutOfBounds)) (\<lambda>_.
     andthen (checks (janet_getindexed argv 0)) (\<lambda>view.
     andthen (checks (janet_getslice argv)) (\<lambda>(start, fin).
     let a = janet_array (fin - start); items = take (nat (fin - start)) (drop (nat start) view) in
     andthen (faults (if acells a \<noteq> [] then write_cells (acells a) 0 items else Inr (acells a))) (\<lambda>b.
     okay (a\<lparr>acells := b, acount := fin - start\<rparr>)))))"

fun push_self :: "jarray \<Rightarrow> nat \<Rightarrow> nat \<Rightarrow> jarray run" where
  "push_self a j 0 = okay a"
| "push_self a j (Suc n) =
     andthen (faults (read_cell (acells a) j)) (\<lambda>x.
     andthen (janet_array_push a x) (\<lambda>a. push_self a (Suc j) n))"

fun push_list :: "jarray \<Rightarrow> janet list \<Rightarrow> jarray run" where
  "push_list a [] = okay a"
| "push_list a (x # xs) = andthen (janet_array_push a x) (\<lambda>a. push_list a xs)"

text \<open>For the array itself the space is made first, so that the pushes do not move what they
  read.\<close>

definition concat_part :: "jarray \<Rightarrow> part \<Rightarrow> jarray run" where
  "concat_part a p = (case p of
     Self \<Rightarrow>
       let len = acount a in
       andthen (faults (checked32 (acount a + len))) (\<lambda>newcount.
       andthen (faults (janet_array_ensure a newcount 2)) (\<lambda>a. push_self a 0 (nat len)))
   | Other v \<Rightarrow> (case janet_indexed_view v of Some vals \<Rightarrow> push_list a vals | None \<Rightarrow> janet_array_push a v))"

fun concat_parts :: "jarray \<Rightarrow> part list \<Rightarrow> jarray run" where
  "concat_parts a [] = okay a"
| "concat_parts a (p # ps) = andthen (concat_part a p) (\<lambda>a. concat_parts a ps)"

definition cfun_array_concat :: "jarray \<Rightarrow> janet \<Rightarrow> part list \<Rightarrow> jarray run" where
  "cfun_array_concat a arg0 parts =
     andthen (checks (janet_getarray [arg0] 0)) (\<lambda>_. concat_parts a parts)"

definition insert_position :: "int \<Rightarrow> int \<Rightarrow> int" where
  "insert_position count raw = (if raw < 0 then count + raw + 1 else raw)"

definition cfun_array_insert :: "jarray \<Rightarrow> janet list \<Rightarrow> jarray run" where
  "cfun_array_insert a argv =
     andthen (checks (janet_arity (argc_of argv) 2 (-1))) (\<lambda>_.
     andthen (checks (janet_getarray argv 0)) (\<lambda>_.
     andthen (checks (janet_getinteger argv 1)) (\<lambda>raw.
     let pos = insert_position (acount a) raw; n = argc_of argv - 2 in
     if pos < 0 \<or> pos > acount a
     then raises ''insertion index %d out of range [0,%d]'' [AInt pos, AInt (acount a)]
     else if INT32_MAX - n < acount a then raises ''array overflow'' []
     else andthen (faults (janet_array_ensure a (acount a + argc_of argv - 2) 2)) (\<lambda>a.
       andthen (faults (if acount a - pos \<noteq> 0
                        then move_cells (acells a) (nat (pos + n)) (nat pos) (nat (acount a - pos))
                        else Inr (acells a))) (\<lambda>b.
       andthen (faults (write_cells b (nat pos) (drop 2 argv))) (\<lambda>b.
       okay (a\<lparr>acells := b, acount := acount a + n\<rparr>)))))))"

definition remove_position :: "int \<Rightarrow> int \<Rightarrow> int" where
  "remove_position count raw = (if raw < 0 then count + raw else raw)"

definition cfun_array_remove :: "jarray \<Rightarrow> janet list \<Rightarrow> jarray run" where
  "cfun_array_remove a argv =
     andthen (checks (janet_arity (argc_of argv) 2 3)) (\<lambda>_.
     andthen (checks (janet_getarray argv 0)) (\<lambda>_.
     andthen (checks (janet_getinteger argv 1)) (\<lambda>raw.
     let pos = remove_position (acount a) raw in
     if pos < 0 \<or> pos > acount a
     then raises ''removal index %d out of range [0,%d]'' [AInt pos, AInt (acount a)]
     else andthen (if length argv = 3
                   then andthen (checks (janet_getinteger argv 2)) (\<lambda>n.
                     if n < 0 then raises ''expected non-negative integer for argument n, got %v'' [AVal (argv ! 2)]
                     else okay n)
                   else okay 1) (\<lambda>n.
       andthen (faults (checked32 (pos + n))) (\<lambda>last.
       let n = (if last > acount a then acount a - pos else n) in
       andthen (faults (move_cells (acells a) (nat pos) (nat (pos + n)) (nat (acount a - pos - n)))) (\<lambda>b.
       okay (a\<lparr>acells := b, acount := acount a - n\<rparr>)))))))"

definition cfun_array_trim :: "jarray \<Rightarrow> janet list \<Rightarrow> jarray run" where
  "cfun_array_trim a argv =
     andthen (checks (janet_fixarity (length argv) 1)) (\<lambda>_.
     andthen (checks (janet_getarray argv 0)) (\<lambda>_.
     okay (if acount a \<noteq> 0
           then (if acount a < acapacity a
                 then a\<lparr>acells := realloc_block (acells a) (nat (acount a)), acapacity := acount a\<rparr> else a)
           else a\<lparr>acells := [], acapacity := 0\<rparr>)))"

definition cfun_array_clear :: "jarray \<Rightarrow> janet list \<Rightarrow> jarray run" where
  "cfun_array_clear a argv =
     andthen (checks (janet_fixarity (length argv) 1)) (\<lambda>_.
     andthen (checks (janet_getarray argv 0)) (\<lambda>_. okay (a\<lparr>acount := 0\<rparr>)))"

subsection \<open>The list an array stands for\<close>

definition arr :: "jarray \<Rightarrow> janet list \<Rightarrow> bool" where
  "arr a xs \<longleftrightarrow> holds (acells a) xs \<and> acount a = int (length xs) \<and> length (acells a) = nat (acapacity a)
     \<and> int32 (acapacity a)"

definition elements :: "jarray \<Rightarrow> janet list" where
  "elements a = map the (take (nat (acount a)) (acells a))"

definition arr_ok :: "jarray \<Rightarrow> bool" where
  "arr_ok a \<longleftrightarrow> (\<exists>xs. arr a xs)"

lemma arr_elements: "arr a xs \<Longrightarrow> elements a = xs"
  by (auto simp: arr_def elements_def holds_take comp_def)

lemma arr_okI: "arr a xs \<Longrightarrow> arr_ok a"
  by (auto simp: arr_ok_def)

lemma arr_length: "arr a xs \<Longrightarrow> int (length xs) \<le> INT32_MAX"
  using holds_length [of "acells a" xs] by (auto simp: arr_def int32_def)

lemma arr_new: "int32 n \<Longrightarrow> arr (janet_array n) []"
  by (simp add: arr_def janet_array_def)

lemma arr_of_list: "int (length xs) \<le> INT32_MAX \<Longrightarrow> arr (janet_array_n xs) xs"
  by (simp add: arr_def janet_array_n_def holds_def int32_def)

lemma arr_capacity: "arr a xs \<Longrightarrow> length xs \<le> nat (acapacity a)"
  using holds_length [of "acells a" xs] by (simp add: arr_def)

lemma array_ensure_ok:
  assumes "arr a xs" and "0 \<le> capacity" and "capacity \<le> INT32_MAX" and "1 \<le> growth"
  shows "\<exists>a2. janet_array_ensure a capacity growth = Inr a2 \<and> arr a2 xs \<and> nat capacity \<le> length (acells a2)
    \<and> acount a2 = int (length xs)"
proof (cases "capacity \<le> acapacity a")
  case True
  then show ?thesis using assms(1) by (simp add: janet_array_ensure_def arr_def nat_mono)
next
  case False
  define c where "c = (if capacity * growth > INT32_MAX then INT32_MAX else capacity * growth)"
  have "capacity * 1 \<le> capacity * growth" using assms(2,4) by (intro mult_left_mono) auto
  then have c: "capacity \<le> c" "c \<le> INT32_MAX" "0 \<le> c" using assms(2,3) by (auto simp: c_def)
  then have w: "wrap32 c = c" by (simp add: int32_def)
  have z: "\<not> (c < 0 \<or> (c = 0 \<and> acells a \<noteq> []))"
    using c False assms(1,2) by (auto simp: arr_def)
  let ?a2 = "a\<lparr>acells := realloc_block (acells a) (nat c), acapacity := c\<rparr>"
  have "janet_array_ensure a capacity growth = Inr ?a2"
    unfolding janet_array_ensure_def Let_def c_def [symmetric] w if_not_P [OF False] if_not_P [OF z] by simp
  moreover have "length xs \<le> nat c" using arr_capacity [OF assms(1)] False c(1) by simp
  then have "arr ?a2 xs" using assms(1) c by (simp add: arr_def holds_realloc int32_def)
  ultimately show ?thesis using c(1) assms(1) by (simp add: nat_mono arr_def)
qed

lemma write_end:
  assumes "arr a xs" and "length xs + length ys \<le> length (acells a)"
  shows "\<exists>b. write_cells (acells a) (length xs) ys = Inr b
    \<and> arr (a\<lparr>acells := b, acount := int (length xs + length ys)\<rparr>) (xs @ ys)"
  using holds_write_cells_end [of "acells a" xs ys] assms by (auto simp: arr_def)

lemma push_ok:
  assumes "arr a xs" and "int (length xs) < INT32_MAX"
  shows "\<exists>a2. janet_array_push a x = okay a2 \<and> arr a2 (xs @ [x])"
proof -
  obtain a1 where a1: "janet_array_ensure a (int (length xs) + 1) 2 = Inr a1" "arr a1 xs"
    "nat (int (length xs) + 1) \<le> length (acells a1)" "acount a1 = int (length xs)"
    using array_ensure_ok [OF assms(1), of "int (length xs) + 1" 2] assms(2) by auto
  have "length xs < length (acells a1)" using a1(3) by simp
  then obtain b where b: "write_cell (acells a1) (length xs) x = Inr b" "holds b (xs @ [x])" "length b = length (acells a1)"
    using holds_write_cell_end [of "acells a1" xs x] a1(2) by (auto simp: arr_def)
  have c: "acount a = int (length xs)" using assms(1) by (simp add: arr_def)
  then have "janet_array_push a x = okay (a1\<lparr>acells := b, acount := int (length xs) + 1\<rparr>)"
    using a1(1,4) b(1) assms(2) by (simp add: janet_array_push_def Let_def run_simps)
  then show ?thesis using a1(2) b by (simp add: arr_def)
qed

lemma getarray [run_simps]: "argv \<noteq> [] \<Longrightarrow> hd argv = JArray v \<Longrightarrow> janet_getarray argv 0 = Inr ()"
  by (cases argv) (simp_all add: janet_getarray_def)

lemma array_push_ok:
  assumes "arr a xs" and "int (length xs) + int (length ys) < INT32_MAX"
  shows "\<exists>a2. cfun_array_push a (JArray v # ys) = okay a2 \<and> arr a2 (xs @ ys)"
proof -
  have c: "acount a = int (length xs)" using assms(1) by (simp add: arr_def)
  obtain a1 where a1: "janet_array_ensure a (int (length xs) + int (length ys)) 2 = Inr a1" "arr a1 xs"
    "nat (int (length xs) + int (length ys)) \<le> length (acells a1)" "acount a1 = int (length xs)"
    using array_ensure_ok [OF assms(1), of "int (length xs) + int (length ys)" 2] assms(2) by auto
  have "length xs + length ys \<le> length (acells a1)" using a1(3) by (simp add: nat_add_distrib)
  from write_end [OF a1(2) this] obtain b where b: "write_cells (acells a1) (length xs) ys = Inr b"
    "arr (a1\<lparr>acells := b, acount := int (length xs + length ys)\<rparr>) (xs @ ys)" by blast
  have "ys = [] \<Longrightarrow> b = acells a1" using b(1) a1(2) by (auto simp: write_cells_def split: if_splits)
  then show ?thesis
    using a1(1,4) b assms(2) c by (cases "ys = []") (simp_all add: cfun_array_push_def Let_def run_simps)
qed

text \<open>\<open>array/push\<close> as a function on arrays, for the cases in which it returns.\<close>

definition array_append :: "janet list \<Rightarrow> jarray \<Rightarrow> jarray" where
  "array_append ys a = (case cfun_array_push a (JArray [] # ys) of Inr (Inr a2) \<Rightarrow> a2 | _ \<Rightarrow> a)"

interpretation arrays: growable elements array_append arr_ok 2147483646
proof
  fix a and ys :: "janet list"
  assume "arr_ok a" and l: "length (elements a) + length ys \<le> 2147483646"
  then obtain xs where xs: "arr a xs" by (auto simp: arr_ok_def)
  then have e: "elements a = xs" by (rule arr_elements)
  with array_push_ok [OF xs, of ys "[]"] l obtain a2 where "cfun_array_push a (JArray [] # ys) = okay a2" "arr a2 (xs @ ys)"
    by auto
  then show "arr_ok (array_append ys a) \<and> elements (array_append ys a) = elements a @ ys"
    using e by (simp add: okay_def arr_okI arr_elements array_append_def)
qed

subsection \<open>Moving cells\<close>

lemma holdsE:
  assumes "holds b xs"
  obtains r where "b = map Some xs @ r"
  using assms by (auto simp: holds_def)

lemma insert_cells:
  assumes "holds b xs" and "pos \<le> length xs" and "length xs + length ys \<le> length b"
  shows "\<exists>b1 b2. (if length xs - pos \<noteq> 0 then move_cells b (pos + length ys) pos (length xs - pos) else Inr b) = Inr b1
    \<and> write_cells b1 pos ys = Inr b2 \<and> holds b2 (take pos xs @ ys @ drop pos xs) \<and> length b2 = length b"
proof -
  obtain r where b: "b = map Some xs @ r" using assms(1) by (rule holdsE)
  let ?b1 = "take (pos + length ys) b @ take (length xs - pos) (drop pos b) @ drop (length xs + length ys) b"
  have mv: "(if length xs - pos \<noteq> 0 then move_cells b (pos + length ys) pos (length xs - pos) else Inr b) = Inr ?b1"
    using assms(2,3) by (simp add: move_cells_def add.commute)
  have mid: "take (length xs - pos) (drop pos b) = map Some (drop pos xs)"
    using assms(2) by (simp add: b drop_map)
  have l1: "length (take (pos + length ys) b) = pos + length ys" using assms(2,3) by simp
  have t: "take pos ?b1 = map Some (take pos xs)" using assms(2) l1 by (simp add: b take_map min_def)
  have d: "drop (pos + length ys) ?b1 = map Some (drop pos xs) @ drop (length xs + length ys) b"
    using l1 by (simp add: mid)
  have len: "length ?b1 = length b" using assms(2,3) by (simp add: mid)
  have "write_cells ?b1 pos ys = Inr (map Some (take pos xs) @ map Some ys @ map Some (drop pos xs) @ drop (length xs + length ys) b)"
    unfolding write_cells_def t d len using assms(2,3) by (simp add: add.commute [of "length ys"])
  then show ?thesis
    using mv assms(2,3) by (auto simp: holds_def)
qed

lemma remove_cells:
  assumes "holds b xs" and "pos + n \<le> length xs"
  shows "\<exists>b1. move_cells b pos (pos + n) (length xs - pos - n) = Inr b1
    \<and> holds b1 (take pos xs @ drop (pos + n) xs) \<and> length b1 = length b"
proof -
  obtain r where b: "b = map Some xs @ r" using assms(1) by (rule holdsE)
  have "take (length xs - pos - n) (drop (pos + n) b) = map Some (drop (pos + n) xs)"
    using assms(2) by (simp add: b drop_map)
  moreover have "take pos b = map Some (take pos xs)" using assms(2) by (simp add: b take_map)
  ultimately show ?thesis using assms(2) by (auto simp: move_cells_def holds_def b)
qed

subsection \<open>The other operations\<close>

lemma pop_ok:
  assumes "arr a xs"
  shows "\<exists>a2. cfun_array_pop a [JArray v] = okay (if xs = [] then JNil else last xs, a2) \<and> arr a2 (butlast xs)"
proof (cases "xs = []")
  case True
  then show ?thesis using assms by (simp add: cfun_array_pop_def janet_array_pop_def run_simps janet_fixarity_def arr_def)
next
  case False
  from assms have a: "holds (acells a) xs" "acount a = int (length xs)" by (simp_all add: arr_def)
  obtain m where m: "length xs = Suc m" using False by (cases xs) auto
  have "read_cell (acells a) m = Inr (last xs)"
    using holds_read_cell [OF a(1), of m] False m by (simp add: last_conv_nth)
  then have "cfun_array_pop a [JArray v] = okay (last xs, a\<lparr>acount := int m\<rparr>)"
    using a(2) m by (simp add: cfun_array_pop_def janet_array_pop_def run_simps janet_fixarity_def)
  moreover obtain r where "acells a = map Some xs @ r" using a(1) by (rule holdsE)
  then have "acells a = map Some (butlast xs) @ Some (last xs) # r" using False
    by (metis append_Cons append_Nil append_assoc append_butlast_last_id list.simps(9) map_append list.map_disc_iff)
  then have "arr (a\<lparr>acount := int m\<rparr>) (butlast xs)"
    using assms m by (simp add: arr_def holds_def)
  ultimately show ?thesis using False by auto
qed

lemma peek_ok:
  assumes "arr a xs"
  shows "cfun_array_peek a [JArray v] = okay (if xs = [] then JNil else last xs)"
proof (cases "xs = []")
  case True
  then show ?thesis using assms by (simp add: cfun_array_peek_def janet_array_peek_def run_simps janet_fixarity_def arr_def)
next
  case False
  have n: "nat (int (length xs) - 1) = length xs - 1" using False by (cases xs) simp_all
  have "read_cell (acells a) (length xs - 1) = Inr (last xs)"
    using holds_read_cell [of "acells a" xs "length xs - 1"] False assms by (simp add: last_conv_nth arr_def)
  then show ?thesis
    using False assms n by (simp add: cfun_array_peek_def janet_array_peek_def run_simps janet_fixarity_def arr_def)
qed

lemma clear_ok:
  "arr a xs \<Longrightarrow> cfun_array_clear a [JArray v] = okay (a\<lparr>acount := 0\<rparr>) \<and> arr (a\<lparr>acount := 0\<rparr>) []"
  by (simp add: cfun_array_clear_def run_simps janet_fixarity_def arr_def)

lemma trim_ok:
  assumes "arr a xs"
  shows "\<exists>a2. cfun_array_trim a [JArray v] = okay a2 \<and> arr a2 xs \<and> length (acells a2) = length xs"
proof -
  have l: "length xs \<le> nat (acapacity a)" using arr_capacity [OF assms] .
  have h: "holds (realloc_block (acells a) (length xs)) xs"
    using assms holds_realloc [of "acells a" xs "length xs"] by (simp add: arr_def)
  show ?thesis
  proof (cases "xs = []")
    case True
    then show ?thesis using assms by (simp add: cfun_array_trim_def run_simps janet_fixarity_def arr_def int32_def)
  next
    case ne: False
    show ?thesis
    proof (cases "int (length xs) < acapacity a")
      case True
      with ne assms have "cfun_array_trim a [JArray v]
          = okay (a\<lparr>acells := realloc_block (acells a) (length xs), acapacity := int (length xs)\<rparr>)"
        by (simp add: cfun_array_trim_def run_simps janet_fixarity_def arr_def)
      with True assms h show ?thesis by (simp add: arr_def int32_def)
    next
      case False
      with ne assms have "cfun_array_trim a [JArray v] = okay a"
        by (simp add: cfun_array_trim_def run_simps janet_fixarity_def arr_def)
      moreover have "length (acells a) = length xs" using False l assms by (simp add: arr_def)
      ultimately show ?thesis using assms by simp
    qed
  qed
qed

lemma fill_ok:
  assumes "arr a xs"
  shows "\<exists>a2. cfun_array_fill a [JArray v, x] = okay a2 \<and> arr a2 (replicate (length xs) x)"
proof -
  have "length xs \<le> length (acells a)" using assms holds_length [of "acells a" xs] by (simp add: arr_def)
  then have "write_cells (acells a) 0 (replicate (length xs) x)
      = Inr (map Some (replicate (length xs) x) @ drop (length xs) (acells a))"
    by (simp add: write_cells_def)
  then show ?thesis
    using assms \<open>length xs \<le> length (acells a)\<close>
    by (simp add: cfun_array_fill_def run_simps Let_def arr_def holds_def)
qed

lemma push_self_ok:
  "arr a (xs @ take j xs) \<Longrightarrow> j + n = length xs \<Longrightarrow> int (length xs + length xs) \<le> INT32_MAX
    \<Longrightarrow> \<exists>a2. push_self a j n = okay a2 \<and> arr a2 (xs @ xs)"
proof (induction n arbitrary: a j)
  case 0
  then show ?case by simp
next
  case (Suc n)
  have "read_cell (acells a) j = Inr ((xs @ take j xs) ! j)"
    using Suc.prems(1,2) by (intro holds_read_cell) (auto simp: arr_def)
  moreover have "(xs @ take j xs) ! j = xs ! j" using Suc.prems(2) by (simp add: nth_append)
  ultimately have "read_cell (acells a) j = Inr (xs ! j)" by simp
  moreover obtain a1 where "janet_array_push a (xs ! j) = okay a1" "arr a1 ((xs @ take j xs) @ [xs ! j])"
    using push_ok [OF Suc.prems(1), of "xs ! j"] Suc.prems(2,3) by auto
  moreover have "take j xs @ [xs ! j] = take (Suc j) xs" using Suc.prems(2) by (simp add: take_Suc_conv_app_nth)
  ultimately show ?case using Suc.IH [of a1 "Suc j"] Suc.prems by (simp add: run_simps)
qed

lemma push_list_ok:
  "arr a xs \<Longrightarrow> int (length xs + length ys) \<le> INT32_MAX \<Longrightarrow> \<exists>a2. push_list a ys = okay a2 \<and> arr a2 (xs @ ys)"
proof (induction ys arbitrary: a xs)
  case Nil
  then show ?case by simp
next
  case (Cons y ys)
  then obtain a1 where "janet_array_push a y = okay a1" "arr a1 (xs @ [y])"
    using push_ok [OF Cons.prems(1), of y] by auto
  with Cons.IH [of a1 "xs @ [y]"] Cons.prems(2) show ?case by (simp add: run_simps)
qed

text \<open>What a part of a concatenation contributes to an array that stands for \<open>xs\<close> by
  then.\<close>

fun part_items :: "janet list \<Rightarrow> part \<Rightarrow> janet list" where
  "part_items xs Self = xs"
| "part_items xs (Other v) = (case janet_indexed_view v of Some vals \<Rightarrow> vals | None \<Rightarrow> [v])"

fun concat_items :: "janet list \<Rightarrow> part list \<Rightarrow> janet list" where
  "concat_items xs [] = xs"
| "concat_items xs (p # ps) = concat_items (xs @ part_items xs p) ps"

lemma concat_items_length: "length xs \<le> length (concat_items xs ps)"
  by (induction xs ps rule: concat_items.induct) auto

lemma concat_part_ok:
  assumes "arr a xs" and "int (length (xs @ part_items xs p)) \<le> INT32_MAX"
  shows "\<exists>a2. concat_part a p = okay a2 \<and> arr a2 (xs @ part_items xs p)"
proof (cases p)
  case Self
  have c: "acount a = int (length xs)" using assms(1) by (simp add: arr_def)
  have k: "checked32 (int (length xs) + int (length xs)) = Inr (int (length xs) + int (length xs))"
    using assms(2) Self by (simp add: checked32_def int32_def)
  obtain a1 where a1: "janet_array_ensure a (int (length xs) + int (length xs)) 2 = Inr a1" "arr a1 xs"
    using array_ensure_ok [OF assms(1), of "int (length xs) + int (length xs)" 2] assms(2) Self by auto
  have "concat_part a Self = push_self a1 0 (length xs)"
    by (simp only: concat_part_def part.case Let_def c k run_simps a1 nat_int)
  moreover obtain a2 where "push_self a1 0 (length xs) = okay a2" "arr a2 (xs @ xs)"
    using push_self_ok [of a1 xs 0 "length xs"] a1(2) assms(2) Self by auto
  ultimately show ?thesis using Self by simp
next
  case (Other v)
  show ?thesis
  proof (cases "janet_indexed_view v")
    case None
    then show ?thesis using push_ok [OF assms(1), of v] assms(2) Other by (simp add: concat_part_def)
  next
    case (Some vals)
    then show ?thesis using push_list_ok [OF assms(1), of vals] assms(2) Other by (simp add: concat_part_def)
  qed
qed

lemma concat_parts_ok:
  "arr a xs \<Longrightarrow> int (length (concat_items xs ps)) \<le> INT32_MAX
    \<Longrightarrow> \<exists>a2. concat_parts a ps = okay a2 \<and> arr a2 (concat_items xs ps)"
proof (induction ps arbitrary: a xs)
  case Nil
  then show ?case by simp
next
  case (Cons p ps)
  have "int (length (xs @ part_items xs p)) \<le> INT32_MAX"
    using concat_items_length [of "xs @ part_items xs p" ps] Cons.prems(2) by (simp only: concat_items.simps)
  then obtain a1 where "concat_part a p = okay a1" "arr a1 (xs @ part_items xs p)"
    using concat_part_ok [OF Cons.prems(1)] by blast
  with Cons.IH [of a1] Cons.prems(2) show ?case by (simp add: run_simps)
qed

subsection \<open>Properties\<close>

lemma getinteger2 [run_simps]:
  "janet_checkint p \<Longrightarrow> janet_getinteger (x # p # ys) (Suc 0) = Inr (janet_unwrap_integer p)"
  by (simp add: janet_getinteger_def)

lemma getinteger3 [run_simps]:
  "janet_checkint q \<Longrightarrow> janet_getinteger (x # p # q # ys) 2 = Inr (janet_unwrap_integer q)"
  by (simp add: janet_getinteger_def)

text \<open>\<open>array/insert\<close> on an array that stands for \<open>xs\<close>: a negative index counts
  from after the end, an index outside is a panic that says so, and otherwise the new elements go
  in at the index and the rest moves up, whatever the array's capacity was.\<close>

theorem array_insert:
  assumes "arr a xs" and "janet_checkint p" and "int (length xs) + int (length ys) \<le> INT32_MAX"
  shows "let i = janet_unwrap_integer p; pos = (if i < 0 then int (length xs) + i + 1 else i) in
    if 0 \<le> pos \<and> pos \<le> int (length xs)
    then \<exists>a2. cfun_array_insert a (JArray v # p # ys) = okay a2
      \<and> arr a2 (take (nat pos) xs @ ys @ drop (nat pos) xs)
    else cfun_array_insert a (JArray v # p # ys)
      = raises ''insertion index %d out of range [0,%d]'' [AInt pos, AInt (int (length xs))]"
proof -
  define pos where "pos = insert_position (int (length xs)) (janet_unwrap_integer p)"
  have c: "acount a = int (length xs)" using assms(1) by (simp add: arr_def)
  have run: "cfun_array_insert a (JArray v # p # ys) =
    (if pos < 0 \<or> pos > int (length xs)
     then raises ''insertion index %d out of range [0,%d]'' [AInt pos, AInt (int (length xs))]
     else andthen (faults (janet_array_ensure a (int (length xs) + int (length ys)) 2)) (\<lambda>a.
       andthen (faults (if acount a - pos \<noteq> 0
                        then move_cells (acells a) (nat (pos + int (length ys))) (nat pos) (nat (acount a - pos))
                        else Inr (acells a))) (\<lambda>b.
       andthen (faults (write_cells b (nat pos) ys)) (\<lambda>b.
       okay (a\<lparr>acells := b, acount := acount a + int (length ys)\<rparr>)))))"
    using assms(2,3) c unfolding pos_def by (simp add: cfun_array_insert_def Let_def run_simps)
  have "if 0 \<le> pos \<and> pos \<le> int (length xs)
    then \<exists>a2. cfun_array_insert a (JArray v # p # ys) = okay a2
      \<and> arr a2 (take (nat pos) xs @ ys @ drop (nat pos) xs)
    else cfun_array_insert a (JArray v # p # ys)
      = raises ''insertion index %d out of range [0,%d]'' [AInt pos, AInt (int (length xs))]"
  proof (cases "0 \<le> pos \<and> pos \<le> int (length xs)")
    case False
    then show ?thesis using run by auto
  next
    case True
    then obtain k where k: "pos = int k" "k \<le> length xs" by (metis nat_0_le nat_le_iff)
    obtain a1 where a1: "janet_array_ensure a (int (length xs) + int (length ys)) 2 = Inr a1" "arr a1 xs"
      "nat (int (length xs) + int (length ys)) \<le> length (acells a1)" "acount a1 = int (length xs)"
      using array_ensure_ok [OF assms(1), of "int (length xs) + int (length ys)" 2] assms(3) by auto
    have h: "holds (acells a1) xs" "length xs + length ys \<le> length (acells a1)"
      using a1(2,3) by (simp_all add: arr_def nat_add_distrib)
    from insert_cells [OF h(1) k(2) h(2)] obtain b1 b2 where
      b: "(if length xs - k \<noteq> 0 then move_cells (acells a1) (k + length ys) k (length xs - k) else Inr (acells a1)) = Inr b1"
        "write_cells b1 k ys = Inr b2" "holds b2 (take k xs @ ys @ drop k xs)" "length b2 = length (acells a1)" by blast
    have n: "nat (int (length xs) - pos) = length xs - k" "nat (pos + int (length ys)) = k + length ys"
      "(int (length xs) - pos \<noteq> 0) = (length xs - k \<noteq> 0)" "nat pos = k" "\<not> (pos < 0 \<or> pos > int (length xs))"
      using k by (auto simp: nat_add_distrib nat_diff_distrib)
    have "cfun_array_insert a (JArray v # p # ys)
        = okay (a1\<lparr>acells := b2, acount := int (length xs) + int (length ys)\<rparr>)"
      unfolding run if_not_P [OF n(5)] a1(1) andthen_simps a1(4) n(1-4) b(1) b(2) ..
    moreover have "arr (a1\<lparr>acells := b2, acount := int (length xs) + int (length ys)\<rparr>) (take k xs @ ys @ drop k xs)"
      using a1(2) b(3,4) k(2) by (simp add: arr_def)
    ultimately show ?thesis using True n(4) by auto
  qed
  then show ?thesis unfolding Let_def pos_def insert_position_def .
qed

theorem array_insert_witness:
  "\<exists>a2. cfun_array_insert (janet_array_n [JBool True, JNil]) [JArray [], janet_wrap_integer (-2), JBool False]
     = okay a2 \<and> arr a2 [JBool True, JBool False, JNil]"
proof -
  have c: "janet_checkint (janet_wrap_integer (-2))" "janet_unwrap_integer (janet_wrap_integer (-2)) = -2"
    by code_simp+
  have a: "arr (janet_array_n [JBool True, JNil]) [JBool True, JNil]" by (rule arr_of_list) simp
  show ?thesis
    using array_insert [OF a c(1), of "[JBool False]" "[]"] by (simp add: c(2))
qed

text \<open>\<open>array/remove\<close> takes out the elements from the index on, as many as there are up
  to the number asked for; a negative index counts from the end, an index outside is a panic. The
  sum of the index and the number is formed before it is compared with the count: where it does
  not fit in 32 bits the addition overflows.\<close>

theorem array_remove:
  assumes "arr a xs" and "janet_checkint p" and "janet_checkint q" and "0 \<le> janet_unwrap_integer q"
  shows "let i = janet_unwrap_integer p; pos = (if i < 0 then int (length xs) + i else i); n = janet_unwrap_integer q in
    if pos < 0 \<or> int (length xs) < pos
    then cfun_array_remove a [JArray v, p, q] = raises ''removal index %d out of range [0,%d]'' [AInt pos, AInt (int (length xs))]
    else if INT32_MAX < pos + n then cfun_array_remove a [JArray v, p, q] = Inl IntOverflow
    else \<exists>a2. cfun_array_remove a [JArray v, p, q] = okay a2 \<and> arr a2 (take (nat pos) xs @ drop (nat (pos + n)) xs)"
proof -
  define pos where "pos = remove_position (int (length xs)) (janet_unwrap_integer p)"
  define n where "n = janet_unwrap_integer q"
  have c: "acount a = int (length xs)" using assms(1) by (simp add: arr_def)
  have n0: "0 \<le> n" using assms(4) by (simp add: n_def)
  define m where "m = (if pos + n > int (length xs) then int (length xs) - pos else n)"
  have run: "cfun_array_remove a [JArray v, p, q] =
    (if pos < 0 \<or> pos > int (length xs)
     then raises ''removal index %d out of range [0,%d]'' [AInt pos, AInt (int (length xs))]
     else andthen (faults (checked32 (pos + n))) (\<lambda>last.
       let m = (if last > int (length xs) then int (length xs) - pos else n) in
       andthen (faults (move_cells (acells a) (nat pos) (nat (pos + m)) (nat (int (length xs) - pos - m)))) (\<lambda>b.
       okay (a\<lparr>acells := b, acount := int (length xs) - m\<rparr>))))"
    using assms(2-4) c unfolding pos_def n_def by (simp add: cfun_array_remove_def Let_def run_simps cong: if_cong)
  have "if pos < 0 \<or> int (length xs) < pos
    then cfun_array_remove a [JArray v, p, q] = raises ''removal index %d out of range [0,%d]'' [AInt pos, AInt (int (length xs))]
    else if INT32_MAX < pos + n then cfun_array_remove a [JArray v, p, q] = Inl IntOverflow
    else \<exists>a2. cfun_array_remove a [JArray v, p, q] = okay a2 \<and> arr a2 (take (nat pos) xs @ drop (nat (pos + n)) xs)"
  proof (cases "pos < 0 \<or> int (length xs) < pos")
    case True
    then show ?thesis using run by (simp only: if_True)
  next
    case out: False
    then obtain k where k: "pos = int k" "k \<le> length xs" by (metis linorder_not_less nat_0_le nat_le_iff)
    show ?thesis
    proof (cases "INT32_MAX < pos + n")
      case True
      then have "checked32 (pos + n) = Inl IntOverflow" by (simp add: checked32_def int32_def)
      then show ?thesis using out True run by (simp add: run_simps)
    next
      case False
      then have ch: "checked32 (pos + n) = Inr (pos + n)" using k n0 by (simp add: checked32_def int32_def)
      obtain l where l: "m = int l" "k + l \<le> length xs" "drop (k + l) xs = drop (nat (pos + n)) xs"
      proof (cases "pos + n > int (length xs)")
        case True
        show ?thesis
          by (rule that [of "length xs - k"]) (use True k in \<open>auto simp: m_def of_nat_diff\<close>)
      next
        case False
        show ?thesis
          by (rule that [of "nat n"]) (use False k n0 in \<open>auto simp: m_def nat_add_distrib\<close>)
      qed
      from assms(1) have "holds (acells a) xs" by (simp add: arr_def)
      from remove_cells [OF this l(2)] obtain b where
        b: "move_cells (acells a) k (k + l) (length xs - k - l) = Inr b" "holds b (take k xs @ drop (k + l) xs)"
          "length b = length (acells a)" by blast
      have nn: "nat pos = k" "nat (pos + int l) = k + l" "nat (int (length xs) - pos - int l) = length xs - k - l"
        using k l by (auto simp: nat_add_distrib nat_diff_distrib)
      have "cfun_array_remove a [JArray v, p, q] = okay (a\<lparr>acells := b, acount := int (length xs) - int l\<rparr>)"
        unfolding run if_not_P [OF out] ch andthen_simps Let_def m_def [symmetric] l(1) nn b(1) ..
      moreover have "arr (a\<lparr>acells := b, acount := int (length xs) - int l\<rparr>) (take k xs @ drop (k + l) xs)"
        using b(2,3) assms(1) k(2) l(2) by (simp add: arr_def of_nat_diff)
      ultimately show ?thesis using out False l(3) nn(1) by auto
    qed
  qed
  then show ?thesis unfolding Let_def pos_def n_def remove_position_def .
qed

theorem array_remove_witness:
  "cfun_array_remove (janet_array_n [JNil, JBool True]) [JArray [], janet_wrap_integer 1, janet_wrap_integer INT32_MAX]
     = Inl IntOverflow"
proof -
  have c: "janet_checkint (janet_wrap_integer 1)" "janet_unwrap_integer (janet_wrap_integer 1) = 1"
    "janet_checkint (janet_wrap_integer INT32_MAX)" "janet_unwrap_integer (janet_wrap_integer INT32_MAX) = INT32_MAX"
    by code_simp+
  have a: "arr (janet_array_n [JNil, JBool True]) [JNil, JBool True]" by (rule arr_of_list) simp
  show ?thesis
    using array_remove [OF a c(1,3), of "[]"] by (simp add: c)
qed

lemma array_pieces:
  assumes "arr a xs" and "length xs + length (concat yss) \<le> 2147483646"
  shows "elements (fold array_append yss a) = xs @ concat yss"
  using arrays.append_each [of a yss] assms arr_okI [OF assms(1)] arr_elements [OF assms(1)] by simp

text \<open>On an array that stands for \<open>xs\<close> push appends, pop and peek give the last
  element (nil when there is none) and pop removes it, clear leaves nothing, fill overwrites every
  element and trim keeps them in a block of exactly their number: none of them faults, and the
  array they leave stands for the list it should. Pushing pieces one call after the other is pushing
  them all at once.\<close>

theorem array_stack:
  assumes "arr a xs" and "int (length xs) + int (length ys) < INT32_MAX"
  shows "(\<exists>a2. cfun_array_push a (JArray v # ys) = okay a2 \<and> arr a2 (xs @ ys))
    \<and> (\<exists>a2. cfun_array_pop a [JArray v] = okay (if xs = [] then JNil else last xs, a2) \<and> arr a2 (butlast xs))
    \<and> cfun_array_peek a [JArray v] = okay (if xs = [] then JNil else last xs)
    \<and> (\<exists>a2. cfun_array_fill a [JArray v, x] = okay a2 \<and> arr a2 (replicate (length xs) x))
    \<and> (\<exists>a2. cfun_array_clear a [JArray v] = okay a2 \<and> arr a2 [])
    \<and> (\<exists>a2. cfun_array_trim a [JArray v] = okay a2 \<and> arr a2 xs \<and> length (acells a2) = length xs)
    \<and> (length xs + length (concat yss) \<le> 2147483646 \<longrightarrow> elements (fold array_append yss a) = xs @ concat yss)"
  using array_push_ok [OF assms] pop_ok [OF assms(1)] peek_ok [OF assms(1)] fill_ok [OF assms(1)]
    clear_ok [OF assms(1)] trim_ok [OF assms(1)] array_pieces [OF assms(1)] by blast

theorem array_stack_witness:
  "\<exists>a2. cfun_array_pop (janet_array_n [JNil, JBool True]) [JArray []] = okay (JBool True, a2) \<and> arr a2 [JNil]"
  using array_stack [OF arr_of_list, of "[JNil, JBool True]" "[]" "[]"] by simp

text \<open>\<open>array/concat\<close> of an array with parts, some of which are the array itself: the
  result is the left-to-right concatenation in which the array's own part is what it holds when
  its turn comes; reading an array while pushing onto it never reads moved memory.\<close>

theorem array_concat:
  assumes "arr a xs" and "int (length (concat_items xs ps)) \<le> INT32_MAX"
  shows "\<exists>a2. cfun_array_concat a (JArray v) ps = okay a2 \<and> arr a2 (concat_items xs ps)"
  using concat_parts_ok [OF assms] by (simp add: cfun_array_concat_def run_simps)

lemma view_boolean: "janet_indexed_view (JBool b) = None"
  by (simp add: janet_indexed_view_def)

theorem array_concat_witness:
  "\<exists>a2. cfun_array_concat (janet_array_n [JNil]) (JArray []) [Self, Other (JBool True), Self] = okay a2
    \<and> arr a2 [JNil, JNil, JBool True, JNil, JNil, JBool True]"
proof -
  have "arr (janet_array_n [JNil]) [JNil]" by (rule arr_of_list) simp
  from array_concat [OF this, of "[Self, Other (JBool True), Self]" "[]"] show ?thesis
    by (simp add: view_boolean)
qed

text \<open>\<open>array/ensure\<close> takes the growth factor from the program and does not check it.
  With a growth of at least 1 it keeps the elements and makes the room asked for. With a negative
  one the product is truncated to 32 bits: an array of 65536 elements asked for 65537 with growth
  -65535 is left with one cell and its old count, so that reading its last element is outside its
  block.\<close>

theorem array_ensure_growth:
  "(\<forall>a xs v capacity growth. arr a xs \<and> 1 \<le> capacity \<and> capacity \<le> INT32_MAX \<and> 1 \<le> growth \<longrightarrow>
     (\<exists>a2. janet_array_ensure a capacity growth = Inr a2 \<and> arr a2 xs \<and> nat capacity \<le> length (acells a2)))
   \<and> (\<exists>a2. cfun_array_ensure (janet_array_n (replicate 65536 JNil))
          [JArray v, janet_wrap_integer 65537, janet_wrap_integer (-65535)] = okay a2
        \<and> cfun_array_peek a2 [JArray v] = Inl OutOfBounds)"
proof
  show "\<forall>a xs v capacity growth. arr a xs \<and> 1 \<le> capacity \<and> capacity \<le> INT32_MAX \<and> 1 \<le> growth \<longrightarrow>
     (\<exists>a2. janet_array_ensure a capacity growth = Inr a2 \<and> arr a2 xs \<and> nat capacity \<le> length (acells a2))"
    by (metis array_ensure_ok order.trans zero_le_one)
next
  let ?a = "janet_array_n (replicate 65536 JNil)"
  have c: "janet_checkint (janet_wrap_integer 65537)" "janet_unwrap_integer (janet_wrap_integer 65537) = 65537"
    "janet_checkint (janet_wrap_integer (-65535))" "janet_unwrap_integer (janet_wrap_integer (-65535)) = -65535"
    by code_simp+
  have w: "wrap32 (65537 * (-65535)) = 1" by code_simp
  have "cfun_array_ensure ?a [JArray v, janet_wrap_integer 65537, janet_wrap_integer (-65535)]
     = okay (?a\<lparr>acells := realloc_block (acells ?a) 1, acapacity := 1\<rparr>)"
    using c w by (simp add: cfun_array_ensure_def run_simps janet_fixarity_def janet_array_ensure_def
        janet_array_n_def Let_def)
  moreover have "cfun_array_peek (?a\<lparr>acells := realloc_block (acells ?a) 1, acapacity := 1\<rparr>) [JArray v] = Inl OutOfBounds"
    by (simp add: cfun_array_peek_def run_simps janet_fixarity_def janet_array_peek_def read_cell_def janet_array_n_def)
  ultimately show "\<exists>a2. cfun_array_ensure ?a [JArray v, janet_wrap_integer 65537, janet_wrap_integer (-65535)] = okay a2
        \<and> cfun_array_peek a2 [JArray v] = Inl OutOfBounds" by blast
qed

theorem array_ensure_growth_witness:
  "\<exists>a2. janet_array_ensure (janet_array_n [JNil]) 5 2 = Inr a2 \<and> arr a2 [JNil] \<and> 5 \<le> length (acells a2)"
proof -
  have a: "arr (janet_array_n [JNil]) [JNil]" by (rule arr_of_list) simp
  then show ?thesis
    using array_ensure_growth [THEN conjunct1, rule_format, of "janet_array_n [JNil]" "[JNil]" 5 2] by simp
qed

end
