(* ===== verification/Buffers.thy ===== *)
theory Buffers
  imports Core Interfaces
begin

unbundle bit_operations_syntax

text \<open>
  \<^verbatim>\<open>src/core/buffer.c\<close> (amalg/janet.c): byte buffers. The native functions are
  actions on the buffer of their first argument; \<open>args\<close> are the arguments after it. Where
  the first argument is no buffer they panic before anything else, as \<open>janet_getbuffer\<close>
  says. A panic leaves what earlier steps did. \<open>buffer/format\<close> is not modelled.
\<close>

record jbuffer =
  bcells :: "8 word block"
  bcount :: int
  bcapacity :: int
  no_realloc :: bool   \<comment> \<open>\<open>JANET_BUFFER_FLAG_NO_REALLOC\<close>: foreign memory\<close>

subsection \<open>Operations of the runtime\<close>

definition janet_buffer_can_realloc :: "(jbuffer, unit) act" where
  "janet_buffer_can_realloc b =
     (if no_realloc b then throw ''buffer cannot reallocate foreign memory'' [] b else give () b)"

definition janet_buffer :: "int \<Rightarrow> jbuffer" where
  "janet_buffer capacity =
     (let capacity = (if capacity < 4 then 4 else capacity)
      in \<lparr>bcells = malloc_block (nat capacity), bcount = 0, bcapacity = capacity, no_realloc = False\<rparr>)"

definition janet_pointer_buffer_unsafe :: "8 word block \<Rightarrow> int \<Rightarrow> int \<Rightarrow> jbuffer run" where
  "janet_pointer_buffer_unsafe memory capacity count =
     (if count < 0 then raises ''count < 0'' []
      else if capacity < count then raises ''capacity < count'' []
      else okay \<lparr>bcells = memory, bcount = count, bcapacity = capacity, no_realloc = True\<rparr>)"

text \<open>A new capacity that is negative as an \<open>int32_t\<close> is huge as a \<open>size_t\<close>.\<close>

definition set_capacity :: "int \<Rightarrow> (jbuffer, unit) act" where
  "set_capacity c b =
     (if c \<le> 0 then Inl OutOfMemory
      else Inr (Inr (), b\<lparr>bcells := realloc_block (bcells b) (nat c), bcapacity := c\<rparr>))"

definition janet_buffer_ensure :: "int \<Rightarrow> int \<Rightarrow> (jbuffer, unit) act" where
  "janet_buffer_ensure capacity growth = inspect (\<lambda>b.
     if capacity \<le> bcapacity b then give ()
     else andnext janet_buffer_can_realloc (\<lambda>_.
       let big_capacity = capacity * growth
       in set_capacity (if big_capacity > INT32_MAX then INT32_MAX else wrap32 big_capacity)))"

definition store_bytes :: "nat \<Rightarrow> bytes \<Rightarrow> (jbuffer, unit) act" where
  "store_bytes i ys b = (case write_cells (bcells b) i ys of
     Inl e \<Rightarrow> Inl e | Inr c \<Rightarrow> Inr (Inr (), b\<lparr>bcells := c\<rparr>))"

definition janet_buffer_setcount :: "int \<Rightarrow> (jbuffer, unit) act" where
  "janet_buffer_setcount count = inspect (\<lambda>b.
     if count < 0 then give ()
     else andnext (if count > bcount b
                   then andnext (janet_buffer_ensure count 1) (\<lambda>_.
                     store_bytes (nat (bcount b)) (replicate (nat (count - bcount b)) 0))
                   else give ()) (\<lambda>_.
       modify (\<lambda>b. b\<lparr>bcount := count\<rparr>)))"

definition janet_buffer_extra :: "int \<Rightarrow> (jbuffer, unit) act" where
  "janet_buffer_extra n = inspect (\<lambda>b.
     if n + bcount b > INT32_MAX then throw ''buffer overflow'' []
     else let new_size = bcount b + n in
       if new_size > bcapacity b
       then andnext janet_buffer_can_realloc (\<lambda>_.
         set_capacity (if new_size > INT32_MAX div 2 then INT32_MAX else new_size * 2))
       else give ())"

text \<open>Every push makes room, writes at the end and moves the count.\<close>

definition push_raw :: "bytes \<Rightarrow> (jbuffer, unit) act" where
  "push_raw ys =
     andnext (janet_buffer_extra (int (length ys))) (\<lambda>_. inspect (\<lambda>b.
     andnext (store_bytes (nat (bcount b)) ys) (\<lambda>_.
     modify (\<lambda>b. b\<lparr>bcount := bcount b + int (length ys)\<rparr>))))"

definition janet_buffer_push_bytes :: "bytes \<Rightarrow> (jbuffer, unit) act" where
  "janet_buffer_push_bytes string = (if string = [] then give () else push_raw string)"

definition janet_buffer_push_u8 :: "8 word \<Rightarrow> (jbuffer, unit) act" where
  "janet_buffer_push_u8 byte = push_raw [byte]"

definition janet_buffer_push_u16 :: "16 word \<Rightarrow> (jbuffer, unit) act" where
  "janet_buffer_push_u16 x = push_raw [ucast (x AND 0xFF), ucast (drop_bit 8 x AND 0xFF)]"

definition janet_buffer_push_u32 :: "32 word \<Rightarrow> (jbuffer, unit) act" where
  "janet_buffer_push_u32 x = push_raw [ucast (x AND 0xFF), ucast (drop_bit 8 x AND 0xFF),
     ucast (drop_bit 16 x AND 0xFF), ucast (drop_bit 24 x AND 0xFF)]"

definition janet_buffer_push_u64 :: "64 word \<Rightarrow> (jbuffer, unit) act" where
  "janet_buffer_push_u64 x = push_raw [ucast (x AND 0xFF), ucast (drop_bit 8 x AND 0xFF),
     ucast (drop_bit 16 x AND 0xFF), ucast (drop_bit 24 x AND 0xFF), ucast (drop_bit 32 x AND 0xFF),
     ucast (drop_bit 40 x AND 0xFF), ucast (drop_bit 48 x AND 0xFF), ucast (drop_bit 56 x AND 0xFF)]"

subsection \<open>Native functions that make a buffer\<close>

definition cfun_buffer_new :: "janet list \<Rightarrow> jbuffer run" where
  "cfun_buffer_new argv =
     andthen (checks (janet_fixarity (length argv) 1)) (\<lambda>_.
     andthen (checks (janet_getinteger argv 0)) (\<lambda>cap. okay (janet_buffer cap)))"

definition byte_arg :: "janet list \<Rightarrow> panic + 8 word" where
  "byte_arg argv = (if length argv = 2 then rbind (janet_getinteger argv 1) (\<lambda>i. Inr (word_of_int i)) else Inr 0)"

definition cfun_buffer_new_filled :: "janet list \<Rightarrow> jbuffer run" where
  "cfun_buffer_new_filled argv =
     andthen (checks (janet_arity (int (length argv)) 1 2)) (\<lambda>_.
     andthen (checks (janet_getinteger argv 0)) (\<lambda>raw.
     let count = (if raw < 0 then 0 else raw) in
     andthen (checks (byte_arg argv)) (\<lambda>byte.
     let b = janet_buffer count in
     andthen (faults (if count > 0 then write_cells (bcells b) 0 (replicate (nat count) byte) else Inr (bcells b))) (\<lambda>c.
     okay (b\<lparr>bcells := c, bcount := count\<rparr>)))))"

fun set_bytes :: "janet list \<Rightarrow> nat \<Rightarrow> nat \<Rightarrow> jbuffer \<Rightarrow> jbuffer run" where
  "set_bytes argv i 0 b = okay b"
| "set_bytes argv i (Suc n) b =
     andthen (checks (janet_getinteger argv i)) (\<lambda>c.
     andthen (faults (write_cell (bcells b) i (word_of_int c))) (\<lambda>d.
     set_bytes argv (Suc i) n (b\<lparr>bcells := d\<rparr>)))"

definition cfun_buffer_frombytes :: "janet list \<Rightarrow> jbuffer run" where
  "cfun_buffer_frombytes argv =
     andthen (set_bytes argv 0 (length argv) (janet_buffer (int (length argv)))) (\<lambda>b.
     okay (b\<lparr>bcount := int (length argv)\<rparr>))"

text \<open>The first argument is read before the number of arguments is checked.\<close>

definition cfun_buffer_slice :: "janet list \<Rightarrow> jbuffer run" where
  "cfun_buffer_slice argv =
     andthen (faults (guard_or (argv \<noteq> []) OutOfBounds)) (\<lambda>_.
     andthen (checks (janet_getbytes argv 0)) (\<lambda>view.
     andthen (checks (janet_getslice argv)) (\<lambda>(start, fin).
     let b = janet_buffer (fin - start) in
     andthen (faults (write_cells (bcells b) 0 (take (nat (fin - start)) (drop (nat start) view)))) (\<lambda>c.
     okay (b\<lparr>bcells := c, bcount := fin - start\<rparr>)))))"

subsection \<open>Native functions on a buffer\<close>

definition contents :: "jbuffer \<Rightarrow> bytes" where
  "contents b = map the (take (nat (bcount b)) (bcells b))"

definition argv_of :: "jbuffer \<Rightarrow> part list \<Rightarrow> janet list" where
  "argv_of b args = JBuffer (contents b) # map (\<lambda>p. case p of Self \<Rightarrow> JBuffer (contents b) | Other v \<Rightarrow> v) args"

fun for_args :: "(nat \<Rightarrow> ('s, unit) act) \<Rightarrow> nat \<Rightarrow> nat \<Rightarrow> ('s, unit) act" where
  "for_args f i 0 = give ()"
| "for_args f i (Suc n) = andnext (f i) (\<lambda>_. for_args f (Suc i) n)"

definition arity_then :: "part list \<Rightarrow> int \<Rightarrow> int \<Rightarrow> (jbuffer, 'a) act \<Rightarrow> (jbuffer, 'a) act" where
  "arity_then args lo hi m = andnext (require (janet_arity (1 + int (length args)) lo hi)) (\<lambda>_. m)"

definition fixarity_then :: "part list \<Rightarrow> nat \<Rightarrow> (jbuffer, 'a) act \<Rightarrow> (jbuffer, 'a) act" where
  "fixarity_then args n m = andnext (require (janet_fixarity (1 + length args) n)) (\<lambda>_. m)"

definition cfun_buffer_fill :: "part list \<Rightarrow> (jbuffer, unit) act" where
  "cfun_buffer_fill args = arity_then args 1 2 (inspect (\<lambda>b.
     andnext (require (byte_arg (argv_of b args))) (\<lambda>byte.
     if bcount b \<noteq> 0 then store_bytes 0 (replicate (nat (bcount b)) byte) else give ())))"

definition cfun_buffer_trim :: "part list \<Rightarrow> (jbuffer, unit) act" where
  "cfun_buffer_trim args = fixarity_then args 1 (
     andnext janet_buffer_can_realloc (\<lambda>_. inspect (\<lambda>b.
     if bcount b < bcapacity b then set_capacity (if bcount b > 4 then bcount b else 4) else give ())))"

definition cfun_buffer_u8 :: "part list \<Rightarrow> (jbuffer, unit) act" where
  "cfun_buffer_u8 args = arity_then args 1 (-1) (
     for_args (\<lambda>i. inspect (\<lambda>b. andnext (require (janet_getinteger (argv_of b args) i)) (\<lambda>n.
       janet_buffer_push_u8 (word_of_int n)))) 1 (length args))"

text \<open>The conversion to \<open>uint32_t\<close> comes before the test that it was exact.\<close>

definition push_word_arg :: "part list \<Rightarrow> nat \<Rightarrow> (jbuffer, unit) act" where
  "push_word_arg args i = inspect (\<lambda>b.
     andnext (require (janet_getnumber (argv_of b args) i)) (\<lambda>number.
     andnext (attempt (convert_to 0 (2 ^ 32 - 1) number)) (\<lambda>w.
     if dbl_int number \<noteq> Some w then throw ''cannot convert %v to machine word'' [AVal (argv_of b args ! i)]
     else janet_buffer_push_u32 (word_of_int w))))"

definition cfun_buffer_word :: "part list \<Rightarrow> (jbuffer, unit) act" where
  "cfun_buffer_word args = arity_then args 1 (-1) (for_args (push_word_arg args) 1 (length args))"

text \<open>For the buffer itself the room is made first, and what is copied is read after that.\<close>

definition push_view :: "part list \<Rightarrow> nat \<Rightarrow> (jbuffer, unit) act" where
  "push_view args i = inspect (\<lambda>b.
     andnext (require (janet_getbytes (argv_of b args) i)) (\<lambda>view.
     if args ! (i - 1) = Self
     then andnext (attempt (checked32 (bcount b + int (length view)))) (\<lambda>n.
       andnext (janet_buffer_ensure n 2) (\<lambda>_. inspect (\<lambda>b.
       andnext (attempt (read_cells (bcells b) 0 (length view))) janet_buffer_push_bytes)))
     else janet_buffer_push_bytes view))"

definition cfun_buffer_chars :: "part list \<Rightarrow> (jbuffer, unit) act" where
  "cfun_buffer_chars args = arity_then args 1 (-1) (for_args (push_view args) 1 (length args))"

definition push_arg :: "part list \<Rightarrow> nat \<Rightarrow> (jbuffer, unit) act" where
  "push_arg args i = inspect (\<lambda>b.
     if janet_checktype (argv_of b args ! i) JANET_NUMBER
     then andnext (require (janet_getinteger (argv_of b args) i)) (\<lambda>n. janet_buffer_push_u8 (word_of_int n))
     else push_view args i)"

definition buffer_push_impl :: "part list \<Rightarrow> nat \<Rightarrow> (jbuffer, unit) act" where
  "buffer_push_impl args offset = for_args (push_arg args) offset (1 + length args - offset)"

definition cfun_buffer_push :: "part list \<Rightarrow> (jbuffer, unit) act" where
  "cfun_buffer_push args = arity_then args 1 (-1) (buffer_push_impl args 1)"

definition cfun_buffer_push_at :: "part list \<Rightarrow> (jbuffer, unit) act" where
  "cfun_buffer_push_at args = arity_then args 2 (-1) (inspect (\<lambda>b.
     andnext (require (janet_getinteger (argv_of b args) 1)) (\<lambda>index.
     let old_count = bcount b in
     if index < 0 \<or> index > old_count then throw ''index out of range [0, %d)'' [AInt old_count]
     else andnext (modify (\<lambda>b. b\<lparr>bcount := index\<rparr>)) (\<lambda>_.
       andnext (buffer_push_impl args 2) (\<lambda>_.
       modify (\<lambda>b. if bcount b < old_count then b\<lparr>bcount := old_count\<rparr> else b))))))"

definition cfun_buffer_clear :: "part list \<Rightarrow> (jbuffer, unit) act" where
  "cfun_buffer_clear args = fixarity_then args 1 (modify (\<lambda>b. b\<lparr>bcount := 0\<rparr>))"

definition cfun_buffer_popn :: "part list \<Rightarrow> (jbuffer, unit) act" where
  "cfun_buffer_popn args = fixarity_then args 2 (inspect (\<lambda>b.
     andnext (require (janet_getinteger (argv_of b args) 1)) (\<lambda>n.
     if n < 0 then throw ''n must be non-negative'' []
     else modify (\<lambda>b. b\<lparr>bcount := (if bcount b < n then 0 else bcount b - n)\<rparr>))))"

subsection \<open>Bits\<close>

definition bitloc :: "part list \<Rightarrow> (jbuffer, nat \<times> nat) act" where
  "bitloc args = fixarity_then args 2 (inspect (\<lambda>b.
     andnext (require (janet_getnumber (argv_of b args) 1)) (\<lambda>x.
     andnext (attempt (convert_to (- (2 ^ 63)) (2 ^ 63 - 1) x)) (\<lambda>bitindex.
     let byteindex = bitindex div 8; which_bit = bitindex mod 8 in
     if dbl_int x \<noteq> Some bitindex \<or> bitindex < 0 \<or> byteindex \<ge> bcount b
     then throw ''invalid bit index %v'' [AVal (argv_of b args ! 1)]
     else give (nat byteindex, nat which_bit)))))"

definition update_bit :: "part list \<Rightarrow> (8 word \<Rightarrow> 8 word \<Rightarrow> 8 word) \<Rightarrow> (jbuffer, unit) act" where
  "update_bit args f =
     andnext (bitloc args) (\<lambda>(index, bit). inspect (\<lambda>b.
     andnext (attempt (read_cell (bcells b) index)) (\<lambda>x.
     store_bytes index [f x (push_bit bit 1)])))"

definition cfun_buffer_bitset :: "part list \<Rightarrow> (jbuffer, unit) act" where
  "cfun_buffer_bitset args = update_bit args (\<lambda>x m. x OR m)"

definition cfun_buffer_bitclear :: "part list \<Rightarrow> (jbuffer, unit) act" where
  "cfun_buffer_bitclear args = update_bit args (\<lambda>x m. x AND NOT m)"

definition cfun_buffer_bittoggle :: "part list \<Rightarrow> (jbuffer, unit) act" where
  "cfun_buffer_bittoggle args = update_bit args (\<lambda>x m. x XOR m)"

definition cfun_buffer_bitget :: "part list \<Rightarrow> (jbuffer, bool) act" where
  "cfun_buffer_bitget args =
     andnext (bitloc args) (\<lambda>(index, bit). inspect (\<lambda>b.
     andnext (attempt (read_cell (bcells b) index)) (\<lambda>x. give (x AND push_bit bit 1 \<noteq> 0))))"

subsection \<open>Copying into a buffer\<close>

definition opt_range :: "janet list \<Rightarrow> nat \<Rightarrow> int \<Rightarrow> int \<Rightarrow> string \<Rightarrow> panic + int" where
  "opt_range argv n preset len which =
     (if length argv > n \<and> \<not> janet_checktype (argv ! n) JANET_NIL then janet_gethalfrange argv n len which
      else Inr preset)"

definition blit_length :: "janet list \<Rightarrow> int \<Rightarrow> int \<Rightarrow> panic + int" where
  "blit_length argv src_len offset_src =
     (if length argv > 4
      then rbind (opt_range argv 4 src_len src_len ''src-end'') (\<lambda>src_end.
        Inr (if src_end - offset_src < 0 then 0 else src_end - offset_src))
      else Inr (src_len - offset_src))"

definition move_bytes :: "nat \<Rightarrow> nat \<Rightarrow> nat \<Rightarrow> (jbuffer, unit) act" where
  "move_bytes d s n b = (case move_cells (bcells b) d s n of
     Inl e \<Rightarrow> Inl e | Inr c \<Rightarrow> Inr (Inr (), b\<lparr>bcells := c\<rparr>))"

definition cfun_buffer_blit :: "part list \<Rightarrow> (jbuffer, unit) act" where
  "cfun_buffer_blit args = arity_then args 2 5 (inspect (\<lambda>b.
     let argv = argv_of b args in
     andnext (require (janet_getbytes argv 1)) (\<lambda>src.
     andnext (require (opt_range argv 2 0 (bcount b) ''dest-start'')) (\<lambda>offset_dest.
     andnext (require (opt_range argv 3 0 (int (length src)) ''src-start'')) (\<lambda>offset_src.
     andnext (require (blit_length argv (int (length src)) offset_src)) (\<lambda>length_src.
     let last = offset_dest + length_src in
     if last > INT32_MAX then throw ''buffer blit out of range'' []
     else andnext (janet_buffer_ensure last 2) (\<lambda>_.
       andnext (modify (\<lambda>b. if last > bcount b then b\<lparr>bcount := last\<rparr> else b)) (\<lambda>_.
       if length_src \<noteq> 0
       then (if hd args = Self then move_bytes (nat offset_dest) (nat offset_src) (nat length_src)
             else store_bytes (nat offset_dest) (take (nat length_src) (drop (nat offset_src) src)))
       else give ()))))))))"

end
