(* ===== verification/BufferSpec.thy ===== *)
theory BufferSpec
  imports Buffers
begin

text \<open>
  What the buffer operations do to the bytes a buffer stands for. \<open>mem b xs n\<close>: the
  memory starts with \<open>xs\<close> and the count is \<open>n\<close>, which may be less after
  \<open>push-at\<close> stepped back; \<open>buf b xs\<close>: the buffer stands for \<open>xs\<close>.
\<close>

definition mem :: "jbuffer \<Rightarrow> bytes \<Rightarrow> nat \<Rightarrow> bool" where
  "mem b xs n \<longleftrightarrow> holds (bcells b) xs \<and> n \<le> length xs \<and> bcount b = int n
     \<and> length (bcells b) = nat (bcapacity b) \<and> 0 \<le> bcapacity b \<and> bcapacity b \<le> INT32_MAX"

definition buf :: "jbuffer \<Rightarrow> bytes \<Rightarrow> bool" where
  "buf b xs \<longleftrightarrow> mem b xs (length xs)"

definition buf_ok :: "jbuffer \<Rightarrow> bool" where
  "buf_ok b \<longleftrightarrow> (\<exists>xs. buf b xs) \<and> \<not> no_realloc b"

lemma mem_contents: "mem b xs n \<Longrightarrow> contents b = take n xs"
  by (auto simp: mem_def contents_def holds_def take_map comp_def)

lemma buf_contents: "buf b xs \<Longrightarrow> contents b = xs"
  by (simp add: buf_def mem_contents)

lemma mem_length: "mem b xs n \<Longrightarrow> int (length xs) \<le> INT32_MAX"
  using holds_length [of "bcells b" xs] by (auto simp: mem_def)

lemma mem_capacity: "mem b xs n \<Longrightarrow> int (length xs) \<le> bcapacity b"
  using holds_length [of "bcells b" xs] by (auto simp: mem_def)

lemma buf_new: "n \<le> INT32_MAX \<Longrightarrow> buf (janet_buffer n) [] \<and> \<not> no_realloc (janet_buffer n)"
  by (simp add: buf_def mem_def janet_buffer_def Let_def)

subsection \<open>Making room\<close>

lemma set_capacity_ok:
  assumes "mem b xs n" and "int (length xs) \<le> c" and "0 < c" and "c \<le> INT32_MAX"
  shows "\<exists>b2. set_capacity c b = Inr (Inr (), b2) \<and> mem b2 xs n \<and> length (bcells b2) = nat c
    \<and> no_realloc b2 = no_realloc b"
  using assms holds_realloc [of "bcells b" xs "nat c"] by (simp add: set_capacity_def mem_def le_nat_iff)

lemma buffer_ensure_ok:
  assumes "mem b xs n" and "0 \<le> capacity" and "capacity \<le> INT32_MAX" and "1 \<le> growth" and "\<not> no_realloc b"
  shows "\<exists>b2. janet_buffer_ensure capacity growth b = Inr (Inr (), b2) \<and> mem b2 xs n
    \<and> nat capacity \<le> length (bcells b2) \<and> \<not> no_realloc b2"
proof (cases "capacity \<le> bcapacity b")
  case True
  then show ?thesis using assms by (simp add: janet_buffer_ensure_def act_simps mem_def nat_mono)
next
  case False
  define c where "c = (if capacity * growth > INT32_MAX then INT32_MAX else wrap32 (capacity * growth))"
  have "capacity * 1 \<le> capacity * growth" using assms(2,4) by (intro mult_left_mono) auto
  then have c: "capacity \<le> c" "c \<le> INT32_MAX" using assms(2,3) by (auto simp: c_def int32_def)
  have l: "int (length xs) \<le> c" "0 < c" using mem_capacity [OF assms(1)] assms(1) False c(1) by (auto simp: mem_def)
  obtain b2 where b2: "set_capacity c b = Inr (Inr (), b2)" "mem b2 xs n" "length (bcells b2) = nat c"
    "no_realloc b2 = no_realloc b"
    using set_capacity_ok [OF assms(1) l c(2)] by blast
  have "janet_buffer_can_realloc b = Inr (Inr (), b)" using assms(5) by (simp add: janet_buffer_can_realloc_def act_simps)
  then have "janet_buffer_ensure capacity growth b = set_capacity c b"
    using False by (simp add: janet_buffer_ensure_def act_simps Let_def c_def)
  then show ?thesis using b2 c(1) assms(5) by (simp add: nat_mono)
qed

lemma extra_ok:
  assumes "mem b xs n" and "int (n + k) \<le> INT32_MAX" and "\<not> no_realloc b"
  shows "\<exists>b2. janet_buffer_extra (int k) b = Inr (Inr (), b2) \<and> mem b2 xs n
    \<and> n + k \<le> length (bcells b2) \<and> \<not> no_realloc b2"
proof -
  have cnt: "bcount b = int n" "length (bcells b) = nat (bcapacity b)" using assms(1) by (simp_all add: mem_def)
  have over: "\<not> int k + bcount b > INT32_MAX" using cnt assms(2) by simp
  show ?thesis
  proof (cases "int n + int k > bcapacity b")
    case False
    then show ?thesis using assms cnt over by (simp add: janet_buffer_extra_def act_simps Let_def le_nat_iff)
  next
    case True
    define c where "c = (if int n + int k > INT32_MAX div 2 then INT32_MAX else (int n + int k) * 2)"
    have c: "int (length xs) \<le> c" "0 < c" "c \<le> INT32_MAX" "int n + int k \<le> c"
      using mem_capacity [OF assms(1)] assms(1,2) True by (auto simp: c_def mem_def)
    obtain b2 where b2: "set_capacity c b = Inr (Inr (), b2)" "mem b2 xs n" "length (bcells b2) = nat c"
      "no_realloc b2 = no_realloc b"
      using set_capacity_ok [OF assms(1) c(1-3)] by blast
    have "janet_buffer_can_realloc b = Inr (Inr (), b)" using assms(3) by (simp add: janet_buffer_can_realloc_def act_simps)
    then have "janet_buffer_extra (int k) b = set_capacity c b"
      unfolding c_def using True over cnt by (simp add: janet_buffer_extra_def act_simps Let_def)
    then show ?thesis using b2 c(4) assms(3) by (simp add: le_nat_iff)
  qed
qed

subsection \<open>Pushing bytes\<close>

lemma store_ok:
  assumes "mem b xs n" and "i \<le> length xs" and "i + length ys \<le> length (bcells b)"
  shows "\<exists>b2. store_bytes i ys b = Inr (Inr (), b2) \<and> mem b2 (take i xs @ ys @ drop (i + length ys) xs) n
    \<and> length (bcells b2) = length (bcells b) \<and> no_realloc b2 = no_realloc b"
proof -
  from assms(1) have "holds (bcells b) xs" by (simp add: mem_def)
  from holds_write_cells [OF this assms(2,3)] obtain c where
    "write_cells (bcells b) i ys = Inr c" "holds c (take i xs @ ys @ drop (i + length ys) xs)" "length c = length (bcells b)"
    by blast
  then show ?thesis using assms(1,2) by (auto simp: store_bytes_def mem_def)
qed

lemma push_raw_ok:
  assumes "mem b xs n" and "int (n + length ys) \<le> INT32_MAX" and "\<not> no_realloc b"
  shows "\<exists>b2. push_raw ys b = Inr (Inr (), b2)
    \<and> mem b2 ((take n xs @ ys) @ drop (n + length ys) xs) (n + length ys) \<and> \<not> no_realloc b2"
proof -
  obtain b1 where b1: "janet_buffer_extra (int (length ys)) b = Inr (Inr (), b1)" "mem b1 xs n"
    "n + length ys \<le> length (bcells b1)" "\<not> no_realloc b1"
    using extra_ok [OF assms] by blast
  have n: "n \<le> length xs" "bcount b1 = int n" using b1(2) by (simp_all add: mem_def)
  obtain b2 where b2: "store_bytes n ys b1 = Inr (Inr (), b2)" "mem b2 (take n xs @ ys @ drop (n + length ys) xs) n"
    "length (bcells b2) = length (bcells b1)" "no_realloc b2 = no_realloc b1"
    using store_ok [OF b1(2) n(1) b1(3)] by blast
  have "push_raw ys b = Inr (Inr (), b2\<lparr>bcount := bcount b2 + int (length ys)\<rparr>)"
    using b1(1) b2(1) n(2) by (simp add: push_raw_def act_simps)
  moreover have "mem (b2\<lparr>bcount := bcount b2 + int (length ys)\<rparr>) ((take n xs @ ys) @ drop (n + length ys) xs) (n + length ys)"
    using b2(2) n(1) by (simp add: mem_def)
  ultimately show ?thesis using b2(4) b1(4) by simp
qed

lemma push_bytes_ok:
  assumes "mem b xs n" and "int (n + length ys) \<le> INT32_MAX" and "\<not> no_realloc b"
  shows "\<exists>b2. janet_buffer_push_bytes ys b = Inr (Inr (), b2)
    \<and> mem b2 ((take n xs @ ys) @ drop (n + length ys) xs) (n + length ys) \<and> \<not> no_realloc b2"
  using push_raw_ok [OF assms] assms(1,3)
  by (cases "ys = []") (simp_all add: janet_buffer_push_bytes_def act_simps)

text \<open>\<open>janet_buffer_push_bytes\<close> as a function on buffers, for the cases in which it
  returns.\<close>

definition buffer_append :: "bytes \<Rightarrow> jbuffer \<Rightarrow> jbuffer" where
  "buffer_append ys b = (case janet_buffer_push_bytes ys b of Inr (Inr _, b2) \<Rightarrow> b2 | _ \<Rightarrow> b)"

interpretation buffers: growable contents buffer_append buf_ok 2147483647
proof
  fix b and ys :: bytes
  assume "buf_ok b" and l: "length (contents b) + length ys \<le> 2147483647"
  then obtain xs where xs: "buf b xs" "\<not> no_realloc b" by (auto simp: buf_ok_def)
  then obtain b2 where b2: "janet_buffer_push_bytes ys b = Inr (Inr (), b2)"
    "mem b2 ((take (length xs) xs @ ys) @ drop (length xs + length ys) xs) (length xs + length ys)" "\<not> no_realloc b2"
    using push_bytes_ok [of b xs "length xs" ys] l buf_contents [OF xs(1)] by (auto simp: buf_def)
  then have "buf b2 (xs @ ys)" by (simp add: buf_def)
  then have "buf_ok b2" "contents b2 = contents b @ ys"
    using b2(3) by (auto simp: buf_ok_def buf_contents [OF xs(1)] buf_contents)
  then show "buf_ok (buffer_append ys b) \<and> contents (buffer_append ys b) = contents b @ ys"
    by (simp add: buffer_append_def b2(1))
qed

subsection \<open>Pushing arguments\<close>

definition argv_for :: "bytes \<Rightarrow> part list \<Rightarrow> janet list" where
  "argv_for own args = JBuffer own # map (\<lambda>p. case p of Self \<Rightarrow> JBuffer own | Other v \<Rightarrow> v) args"

lemma argv_of: "mem b xs n \<Longrightarrow> argv_of b args = argv_for (take n xs) args"
  by (simp only: argv_of_def argv_for_def mem_contents [of b xs n])

text \<open>What argument \<open>i\<close> adds to a buffer whose bytes are \<open>own\<close> by then.\<close>

definition arg_bytes :: "bytes \<Rightarrow> part list \<Rightarrow> nat \<Rightarrow> panic + bytes" where
  "arg_bytes own args i =
     (let argv = argv_for own args in
      if janet_checktype (argv ! i) JANET_NUMBER then rbind (janet_getinteger argv i) (\<lambda>n. Inr [word_of_int n])
      else janet_getbytes argv i)"

fun append_args :: "part list \<Rightarrow> nat \<Rightarrow> nat \<Rightarrow> bytes \<Rightarrow> panic option \<times> bytes" where
  "append_args args i 0 own = (None, own)"
| "append_args args i (Suc k) own = (case arg_bytes own args i of
     Inl p \<Rightarrow> (Some p, own) | Inr ys \<Rightarrow> append_args args (Suc i) k (own @ ys))"

lemma append_args_prefix: "\<exists>zs. snd (append_args args i k own) = own @ zs"
proof (induction args i k own rule: append_args.induct)
  case (2 args i k own)
  then show ?case by (cases "arg_bytes own args i") fastforce+
qed simp

lemma append_args_length: "length own \<le> length (snd (append_args args i k own))"
  using append_args_prefix [of args i k own] by auto

definition outcome :: "panic option \<Rightarrow> panic + unit" where
  "outcome r = (case r of Some p \<Rightarrow> Inl p | None \<Rightarrow> Inr ())"

lemma push_view_ok:
  assumes m: "mem b xs n" and i: "0 < i" "i \<le> length args" and g: "janet_getbytes (argv_for (take n xs) args) i = Inr ys"
    and l: "int (n + length ys) \<le> INT32_MAX" and nr: "\<not> no_realloc b"
  shows "\<exists>b2. push_view args i b = Inr (Inr (), b2)
    \<and> mem b2 ((take n xs @ ys) @ drop (n + length ys) xs) (n + length ys) \<and> \<not> no_realloc b2"
proof (cases "args ! (i - 1) = Self")
  case True
  then have "argv_for (take n xs) args ! i = JBuffer (take n xs)"
    using i by (cases i) (simp_all add: argv_for_def)
  then have ys: "ys = take n xs" "length ys = n" using g m by (auto simp: janet_getbytes_def janet_bytes_view_def mem_def)
  have c: "bcount b = int n" using m by (simp add: mem_def)
  obtain b1 where b1: "janet_buffer_ensure (int n + int n) 2 b = Inr (Inr (), b1)" "mem b1 xs n" "\<not> no_realloc b1"
    using buffer_ensure_ok [OF m, of "int n + int n" 2] l ys nr by auto
  have rd: "read_cells (bcells b1) 0 n = Inr (take n xs)"
    using holds_read_cells [of "bcells b1" xs 0 n] b1(2) by (simp add: mem_def)
  have "push_view args i b = janet_buffer_push_bytes (take n xs) b1"
    using g True l b1(1) rd ys(2) c
    by (simp add: push_view_def act_simps argv_of [OF m] checked32_def int32_def)
  then show ?thesis using push_bytes_ok [OF b1(2) _ b1(3), of ys] l ys(1) by simp
next
  case False
  then show ?thesis
    using push_bytes_ok [OF m l nr] g by (simp add: push_view_def act_simps argv_of [OF m])
qed

lemma push_arg_ok:
  assumes m: "mem b xs n" and i: "0 < i" "i \<le> length args" and g: "arg_bytes (take n xs) args i = Inr ys"
    and l: "int (n + length ys) \<le> INT32_MAX" and nr: "\<not> no_realloc b"
  shows "\<exists>b2. push_arg args i b = Inr (Inr (), b2)
    \<and> mem b2 ((take n xs @ ys) @ drop (n + length ys) xs) (n + length ys) \<and> \<not> no_realloc b2"
proof (cases "janet_checktype (argv_for (take n xs) args ! i) JANET_NUMBER")
  case True
  with g obtain k where k: "janet_getinteger (argv_for (take n xs) args) i = Inr k" "ys = [word_of_int k]"
    by (auto simp: arg_bytes_def Let_def rbind_eq_Inr)
  then show ?thesis
    using push_raw_ok [OF m l nr] True by (simp add: push_arg_def act_simps argv_of [OF m] janet_buffer_push_u8_def)
next
  case False
  then have "janet_getbytes (argv_for (take n xs) args) i = Inr ys" using g by (simp add: arg_bytes_def)
  then show ?thesis
    using push_view_ok [OF m i _ l nr] False by (simp add: push_arg_def act_simps argv_of [OF m])
qed

lemma push_arg_panic:
  assumes m: "mem b xs n" and g: "arg_bytes (take n xs) args i = Inl p"
  shows "push_arg args i b = Inr (Inl p, b)"
proof (cases "janet_checktype (argv_for (take n xs) args ! i) JANET_NUMBER")
  case True
  then have "janet_getinteger (argv_for (take n xs) args) i = Inl p"
    using g by (auto simp: arg_bytes_def Let_def rbind_eq_Inl)
  then show ?thesis using True by (simp add: push_arg_def act_simps argv_of [OF m])
next
  case False
  then have "janet_getbytes (argv_for (take n xs) args) i = Inl p" using g by (simp add: arg_bytes_def)
  then show ?thesis using False by (simp add: push_arg_def push_view_def act_simps argv_of [OF m])
qed

lemma push_args_ok:
  "mem b xs n \<Longrightarrow> 0 < i \<Longrightarrow> i + k \<le> Suc (length args) \<Longrightarrow> \<not> no_realloc b
    \<Longrightarrow> append_args args i k (take n xs) = (r, zs) \<Longrightarrow> int (length zs) \<le> INT32_MAX
    \<Longrightarrow> \<exists>b2. for_args (push_arg args) i k b = Inr (outcome r, b2)
      \<and> mem b2 (zs @ drop (length zs) xs) (length zs) \<and> \<not> no_realloc b2"
proof (induction k arbitrary: i b xs n)
  case 0
  then have z: "zs = take n xs" "r = None" "n \<le> length xs" by (auto simp: mem_def)
  then have "zs @ drop (length zs) xs = xs" "length zs = n" by simp_all
  then show ?case using 0 z by (simp add: act_simps outcome_def)
next
  case (Suc k)
  have n: "n \<le> length xs" using Suc.prems(1) by (simp add: mem_def)
  show ?case
  proof (cases "arg_bytes (take n xs) args i")
    case (Inl p)
    then have z: "zs = take n xs" "r = Some p" using Suc.prems(5) by simp_all
    then have "zs @ drop (length zs) xs = xs" "length zs = n" using n by simp_all
    then show ?thesis
      using push_arg_panic [OF Suc.prems(1) Inl] Suc.prems(1,4) z by (simp add: act_simps outcome_def)
  next
    case (Inr ys)
    let ?xs = "(take n xs @ ys) @ drop (n + length ys) xs"
    have t: "take (n + length ys) ?xs = take n xs @ ys" using n by simp
    have e: "append_args args (Suc i) k (take (n + length ys) ?xs) = (r, zs)"
      unfolding t using Suc.prems(5) Inr by simp
    have "append_args args (Suc i) k (take n xs @ ys) = (r, zs)" using e unfolding t .
    then have "length (take n xs @ ys) \<le> length zs"
      using append_args_length [of "take n xs @ ys" args "Suc i" k] by simp
    then have le: "n + length ys \<le> length zs" using n by simp
    obtain b1 where b1: "push_arg args i b = Inr (Inr (), b1)" "mem b1 ?xs (n + length ys)" "\<not> no_realloc b1"
      using push_arg_ok [OF Suc.prems(1,2) _ Inr _ Suc.prems(4)] Suc.prems(3,6) le by auto
    have "drop (length zs) ?xs = drop (length zs) xs"
      using le n by (simp add: drop_append)
    moreover obtain b2 where "for_args (push_arg args) (Suc i) k b1 = Inr (outcome r, b2)"
      "mem b2 (zs @ drop (length zs) ?xs) (length zs)" "\<not> no_realloc b2"
      using Suc.IH [OF b1(2) _ _ b1(3) e Suc.prems(6)] Suc.prems(3) by auto
    ultimately show ?thesis using b1(1) by (simp add: act_simps)
  qed
qed

end
