(* ===== verification/BufferProps.thy ===== *)
theory BufferProps
  imports BufferSpec
begin

unbundle bit_operations_syntax

text \<open>The properties of the byte buffers.\<close>

lemma mem_prefix: "mem b (xs @ ys) (length xs) \<Longrightarrow> buf b xs"
  by (auto simp: buf_def mem_def intro: holds_prefix)

lemma buf_mem: "buf b xs \<Longrightarrow> mem b xs (length xs)"
  by (simp add: buf_def)

lemma buf_argv: "buf b xs \<Longrightarrow> argv_of b args = argv_for xs args"
  by (simp add: buf_def argv_of)

subsection \<open>Pushing\<close>

lemma push_self_overflow:
  assumes "buf b xs" and "INT32_MAX < 2 * int (length xs)"
  shows "cfun_buffer_push [Self] b = Inl IntOverflow"
proof -
  have c: "bcount b = int (length xs)" using assms(1) by (simp add: buf_def mem_def)
  have g: "janet_getbytes (argv_for xs [Self]) (Suc 0) = Inr xs"
    by (simp add: argv_for_def janet_getbytes_def janet_bytes_view_def)
  have t: "janet_type (argv_for xs [Self] ! Suc 0) = JANET_BUFFER" by (simp add: argv_for_def)
  have o: "checked32 (2 * int (length xs)) = Inl IntOverflow"
    using assms(2) by (simp add: checked32_def int32_def)
  show ?thesis
    by (simp add: cfun_buffer_push_def arity_then_def buffer_push_impl_def act_basic_simps andnext_def arity_ok
        push_arg_def push_view_def buf_argv [OF assms(1)] g t c o)
qed

text \<open>C36. \<open>buffer/push\<close> on a buffer that stands for \<open>xs\<close>: the bytes of the
  arguments are appended in order, a number as its low byte, the buffer itself as what it holds when
  its turn comes. At the first argument that has no bytes it panics, and what was pushed before
  stays. Pushing a buffer of more than half of INT32_MAX bytes onto itself overflows the addition
  of the sizes before the check for it. The runtime's own pushes of pieces, one after the other, are
  one push of all of them.\<close>

theorem buffer_push:
  assumes "buf b xs" and "\<not> no_realloc b"
  shows "(\<forall>args r zs. append_args args 1 (length args) xs = (r, zs) \<and> int (length zs) \<le> INT32_MAX \<longrightarrow>
      (\<exists>b2. cfun_buffer_push args b = Inr (outcome r, b2) \<and> buf b2 zs))
    \<and> (INT32_MAX < 2 * int (length xs) \<longrightarrow> cfun_buffer_push [Self] b = Inl IntOverflow)
    \<and> (\<forall>yss. length xs + length (concat yss) \<le> 2147483647 \<longrightarrow>
      contents (fold buffer_append yss b) = contents (buffer_append (concat yss) b))"
proof (intro conjI allI impI)
  fix args r zs
  assume a: "append_args args 1 (length args) xs = (r, zs) \<and> int (length zs) \<le> INT32_MAX"
  then have e: "append_args args 1 (length args) (take (length xs) xs) = (r, zs)" by simp
  obtain b2 where b2: "for_args (push_arg args) 1 (length args) b = Inr (outcome r, b2)"
    "mem b2 (zs @ drop (length zs) xs) (length zs)"
    using push_args_ok [OF buf_mem [OF assms(1)] _ _ assms(2) e] a by auto
  have "cfun_buffer_push args b = for_args (push_arg args) 1 (length args) b"
    by (simp add: cfun_buffer_push_def arity_then_def buffer_push_impl_def act_simps arity_ok)
  then show "\<exists>b2. cfun_buffer_push args b = Inr (outcome r, b2) \<and> buf b2 zs"
    using b2 mem_prefix by auto
next
  fix yss :: "bytes list" assume "length xs + length (concat yss) \<le> 2147483647"
  then show "contents (fold buffer_append yss b) = contents (buffer_append (concat yss) b)"
    using assms by (intro buffers.append_pieces) (auto simp: buf_ok_def buf_contents)
qed (rule push_self_overflow [OF assms(1)])

theorem buffer_push_witness:
  "\<exists>b2. cfun_buffer_push [Other (JString [1, 2]), Self, Other JNil] (janet_buffer 0)
      = Inr (Inl (janet_panic_type JNil 3 JANET_TFLAG_BYTES), b2) \<and> buf b2 [1, 2, 1, 2]"
proof -
  have n: "buf (janet_buffer 0) []" "\<not> no_realloc (janet_buffer 0)" using buf_new [of 0] by simp_all
  have e: "append_args [Other (JString [1, 2]), Self, Other JNil] 1 (length [Other (JString [1, 2]), Self, Other JNil]) []
      = (Some (janet_panic_type JNil 3 JANET_TFLAG_BYTES), [1, 2, 1, 2])"
    by (simp add: arg_bytes_def argv_for_def janet_getbytes_def janet_bytes_view_def numeral_3_eq_3)
  show ?thesis
    using buffer_push [OF n, THEN conjunct1, rule_format, of "[Other (JString [1, 2]), Self, Other JNil]"
        "Some (janet_panic_type JNil 3 JANET_TFLAG_BYTES)" "[1, 2, 1, 2]", OF conjI [OF e]]
    by (simp add: outcome_def)
qed

text \<open>\<open>buffer/push-at\<close>: the bytes of the arguments overwrite the buffer from the index
  on and extend it when they go past its end; the buffer itself contributes only its bytes up to
  where the writing has come. An index outside is a panic that changes nothing. When an argument
  has no bytes the panic leaves the buffer cut off where the writing stopped: the bytes after that
  are lost.\<close>

theorem buffer_push_at:
  assumes "buf b xs" and "\<not> no_realloc b" and "janet_checkint p"
    and "append_args (Other p # rest) 2 (length rest) (take (nat (janet_unwrap_integer p)) xs) = (r, zs)"
    and "int (length zs) \<le> INT32_MAX"
  shows "if janet_unwrap_integer p < 0 \<or> int (length xs) < janet_unwrap_integer p
    then cfun_buffer_push_at (Other p # rest) b
      = Inr (Inl (Panic ''index out of range [0, %d)'' [AInt (int (length xs))]), b)
    else \<exists>b2. cfun_buffer_push_at (Other p # rest) b = Inr (outcome r, b2)
      \<and> buf b2 (case r of None \<Rightarrow> zs @ drop (length zs) xs | Some _ \<Rightarrow> zs)"
proof -
  define i where "i = janet_unwrap_integer p"
  have c: "bcount b = int (length xs)" using assms(1) by (simp add: buf_def mem_def)
  have g: "janet_getinteger (argv_for xs (Other p # rest)) (Suc 0) = Inr i"
    using assms(3) by (simp add: argv_for_def janet_getinteger_def i_def)
  have run: "cfun_buffer_push_at (Other p # rest) b =
    (if i < 0 \<or> i > int (length xs) then throw ''index out of range [0, %d)'' [AInt (int (length xs))]
     else andnext (modify (\<lambda>b. b\<lparr>bcount := i\<rparr>)) (\<lambda>_.
       andnext (for_args (push_arg (Other p # rest)) 2 (length rest)) (\<lambda>_.
       modify (\<lambda>b. if bcount b < int (length xs) then b\<lparr>bcount := int (length xs)\<rparr> else b)))) b"
    by (simp add: cfun_buffer_push_at_def arity_then_def buffer_push_impl_def act_basic_simps andnext_def arity_ok Let_def
        buf_argv [OF assms(1)] g c cong: if_cong)
  show ?thesis
  proof (cases "i < 0 \<or> int (length xs) < i")
    case True
    then show ?thesis using run by (simp add: act_simps i_def)
  next
    case False
    let ?n = "nat i"
    have m: "mem (b\<lparr>bcount := i\<rparr>) xs ?n" "\<not> no_realloc (b\<lparr>bcount := i\<rparr>)"
      using assms(1,2) False by (auto simp: buf_def mem_def)
    obtain b1 where b1: "for_args (push_arg (Other p # rest)) 2 (length rest) (b\<lparr>bcount := i\<rparr>) = Inr (outcome r, b1)"
      "mem b1 (zs @ drop (length zs) xs) (length zs)"
      using push_args_ok [OF m(1) _ _ m(2) assms(4) [folded i_def] assms(5)] by auto
    have c1: "bcount b1 = int (length zs)" using b1(2) by (simp add: mem_def)
    show ?thesis
    proof (cases r)
      case None
      let ?b2 = "if bcount b1 < int (length xs) then b1\<lparr>bcount := int (length xs)\<rparr> else b1"
      have "cfun_buffer_push_at (Other p # rest) b = Inr (outcome r, ?b2)"
        using False b1(1) None by (simp add: run act_simps outcome_def)
      moreover have "buf ?b2 (zs @ drop (length zs) xs)" using b1(2) c1 by (auto simp: buf_def mem_def)
      ultimately show ?thesis using False None by (auto simp: i_def)
    next
      case (Some q)
      have "cfun_buffer_push_at (Other p # rest) b = Inr (outcome r, b1)"
        using False b1(1) Some by (simp add: run act_simps outcome_def)
      then show ?thesis using False Some mem_prefix [OF b1(2)] by (auto simp: i_def)
    qed
  qed
qed

theorem buffer_push_at_witness:
  "\<exists>b b2. buf b [1, 2, 3] \<and> cfun_buffer_push_at [Other (janet_wrap_integer 1), Other JNil] b
      = Inr (Inl (janet_panic_type JNil 2 JANET_TFLAG_BYTES), b2) \<and> buf b2 [1]"
proof -
  have n: "buf (janet_buffer 0) []" "\<not> no_realloc (janet_buffer 0)" using buf_new [of 0] by simp_all
  from push_bytes_ok [OF buf_mem [OF n(1)] _ n(2), of "[1, 2, 3]"] obtain b where
    b: "buf b [1, 2, 3]" "\<not> no_realloc b" by (auto simp: buf_def)
  have c: "janet_checkint (janet_wrap_integer 1)" "janet_unwrap_integer (janet_wrap_integer 1) = 1"
    by code_simp+
  have e: "append_args [Other (janet_wrap_integer 1), Other JNil] 2 (Suc 0) [1]
      = (Some (janet_panic_type JNil 2 JANET_TFLAG_BYTES), [1])"
    by (simp add: arg_bytes_def argv_for_def janet_getbytes_def janet_bytes_view_def)
  show ?thesis
    using buffer_push_at [OF b c(1), of "[Other JNil]" "Some (janet_panic_type JNil 2 JANET_TFLAG_BYTES)" "[1]"] e c(2) b(1)
    by (auto simp: outcome_def)
qed

subsection \<open>Copying\<close>

lemma holds_move_cells:
  assumes "holds b xs" and "d \<le> length xs" and "s + n \<le> length xs" and "d + n \<le> length b"
  shows "\<exists>b2. move_cells b d s n = Inr b2 \<and> holds b2 (take d xs @ take n (drop s xs) @ drop (d + n) xs)
    \<and> length b2 = length b"
proof -
  obtain r where b: "b = map Some xs @ r" using assms(1) by (auto simp: holds_def)
  let ?b2 = "take d b @ take n (drop s b) @ drop (d + n) b"
  have t: "take n (drop s b) = map Some (take n (drop s xs))" "take d b = map Some (take d xs)"
    "drop (d + n) b = map Some (drop (d + n) xs) @ drop (d + n - length xs) r"
    using assms(2,3) by (simp_all add: b drop_map take_map)
  have m: "move_cells b d s n = Inr ?b2"
    using assms(3,4) by (simp add: move_cells_def b)
  have "?b2 = map Some (take d xs @ take n (drop s xs) @ drop (d + n) xs) @ drop (d + n - length xs) r"
    unfolding t by simp
  then have "holds ?b2 (take d xs @ take n (drop s xs) @ drop (d + n) xs)" unfolding holds_def by blast
  then show ?thesis using m move_cells_length [OF m] by blast
qed

lemma opt_range_bounds:
  assumes "opt_range argv n preset len w = Inr d" and "0 \<le> preset" and "preset \<le> len"
  shows "0 \<le> d \<and> d \<le> len"
  using assms
  by (auto simp: opt_range_def janet_gethalfrange_def rbind_eq_Inr Let_def split: if_splits)

lemma blit_length_bounds:
  assumes "blit_length argv len s = Inr n" and "0 \<le> s" and "s \<le> len"
  shows "0 \<le> n \<and> s + n \<le> len"
proof (cases "length argv > 4")
  case True
  with assms(1) obtain e where e: "opt_range argv 4 len len ''src-end'' = Inr e"
    "n = (if e - s < 0 then 0 else e - s)" by (auto simp: blit_length_def rbind_eq_Inr)
  then show ?thesis using opt_range_bounds [OF e(1)] assms(2,3) by auto
next
  case False
  then show ?thesis using assms by (auto simp: blit_length_def)
qed

text \<open>\<open>buffer/blit\<close> copies the chosen part of the source over the buffer at the chosen
  place, past its end if need be. Source and destination may be the same buffer and the two parts
  may overlap: what is copied is what the buffer held before. A result that would be longer than
  INT32_MAX is a panic that changes nothing.\<close>

theorem buffer_blit:
  assumes "buf b xs" and "\<not> no_realloc b" and "length rest \<le> 3"
    and "janet_getbytes (argv_for xs (src # rest)) 1 = Inr ys"
    and "opt_range (argv_for xs (src # rest)) 2 0 (int (length xs)) ''dest-start'' = Inr d"
    and "opt_range (argv_for xs (src # rest)) 3 0 (int (length ys)) ''src-start'' = Inr s"
    and "blit_length (argv_for xs (src # rest)) (int (length ys)) s = Inr n"
  shows "if INT32_MAX < d + n
    then cfun_buffer_blit (src # rest) b = Inr (Inl (Panic ''buffer blit out of range'' []), b)
    else \<exists>b2. cfun_buffer_blit (src # rest) b = Inr (Inr (), b2)
      \<and> buf b2 (take (nat d) xs @ take (nat n) (drop (nat s) ys) @ drop (nat (d + n)) xs)"
proof -
  have c: "bcount b = int (length xs)" using assms(1) by (simp add: buf_def mem_def)
  have d: "0 \<le> d" "d \<le> int (length xs)" using opt_range_bounds [OF assms(5)] by simp_all
  have s: "0 \<le> s" "s \<le> int (length ys)" using opt_range_bounds [OF assms(6)] by simp_all
  have n: "0 \<le> n" "s + n \<le> int (length ys)" using blit_length_bounds [OF assms(7) s] by simp_all
  have run: "cfun_buffer_blit (src # rest) b =
    (if d + n > INT32_MAX then throw ''buffer blit out of range'' []
     else andnext (janet_buffer_ensure (d + n) 2) (\<lambda>_.
       andnext (modify (\<lambda>b. if d + n > bcount b then b\<lparr>bcount := d + n\<rparr> else b)) (\<lambda>_.
       if n \<noteq> 0
       then (if src = Self then move_bytes (nat d) (nat s) (nat n)
             else store_bytes (nat d) (take (nat n) (drop (nat s) ys)))
       else give ()))) b"
    using assms(3-7) by (simp add: cfun_buffer_blit_def arity_then_def act_simps arity_ok Let_def buf_argv [OF assms(1)] c)
  show ?thesis
  proof (cases "INT32_MAX < d + n")
    case True
    then show ?thesis by (simp add: run act_simps)
  next
    case False
    obtain b1 where b1: "janet_buffer_ensure (d + n) 2 b = Inr (Inr (), b1)" "mem b1 xs (length xs)"
      "nat (d + n) \<le> length (bcells b1)"
      using buffer_ensure_ok [OF buf_mem [OF assms(1)], of "d + n" 2] d n False assms(2) by auto
    define b2 where "b2 = (if d + n > bcount b1 then b1\<lparr>bcount := d + n\<rparr> else b1)"
    let ?r = "take (nat d) xs @ take (nat n) (drop (nat s) ys) @ drop (nat (d + n)) xs"
    let ?ys = "take (nat n) (drop (nat s) ys)"
    have run2: "cfun_buffer_blit (src # rest) b =
       (if n \<noteq> 0
       then (if src = Self then move_bytes (nat d) (nat s) (nat n) else store_bytes (nat d) ?ys)
       else give ()) b2"
      using False b1(1) by (simp add: run act_simps b2_def)
    have h: "holds (bcells b2) xs" "length (bcells b2) = length (bcells b1)" "bcapacity b2 = bcapacity b1"
      "length (bcells b2) = nat (bcapacity b2)" "0 \<le> bcapacity b2" "bcapacity b2 \<le> INT32_MAX"
      using b1(2) by (simp_all add: b2_def mem_def)
    have ly: "length ?ys = nat n" using n s by (simp add: nat_le_iff le_diff_conv2 nat_diff_distrib)
    have dn: "nat (d + n) = nat d + nat n" "nat d \<le> length xs" "nat d + nat n \<le> length (bcells b2)"
      using d n b1(3) h(2) by (simp_all add: nat_add_distrib)
    have lr: "length ?r = nat d + nat n + (length xs - (nat d + nat n))"
      using ly dn by simp
    have "bcount b2 = (if d + n > int (length xs) then d + n else int (length xs))"
      using b1(2) by (simp add: b2_def mem_def)
    then have cnt: "bcount b2 = int (length ?r)"
      unfolding lr using d(1) n(1) by (auto simp: nat_le_iff of_nat_diff)
    have out: "holds cs ?r \<Longrightarrow> length cs = length (bcells b2) \<Longrightarrow> buf (b2\<lparr>bcells := cs\<rparr>) ?r" for cs
      using cnt h by (simp add: buf_def mem_def)
    show ?thesis
    proof (cases "n = 0")
      case True
      then have "?r = xs" by simp
      then have "buf b2 ?r" using out [of "bcells b2"] h(1) by simp
      then show ?thesis using True False run2 by (simp add: act_simps)
    next
      case ne: False
      show ?thesis
      proof (cases "src = Self")
        case True
        then have ys: "ys = xs" using assms(4) by (simp add: argv_for_def janet_getbytes_def janet_bytes_view_def)
        have "nat s + nat n \<le> length xs" using n(1,2) s ys by (simp add: nat_le_iff flip: nat_add_distrib)
        from holds_move_cells [OF h(1) dn(2) this dn(3)] obtain cs where
          "move_cells (bcells b2) (nat d) (nat s) (nat n) = Inr cs" "holds cs ?r" "length cs = length (bcells b2)"
          unfolding dn(1) ys by blast
        then show ?thesis using out run2 ne True False by (auto simp: move_bytes_def)
      next
        case other: False
        have "nat d + length ?ys \<le> length (bcells b2)" using dn(3) ly by simp
        from holds_write_cells [OF h(1) dn(2) this] obtain cs where
          "write_cells (bcells b2) (nat d) ?ys = Inr cs" "holds cs ?r" "length cs = length (bcells b2)"
          unfolding dn(1) ly by blast
        then show ?thesis using out run2 ne other False by (auto simp: store_bytes_def)
      qed
    qed
  qed
qed

theorem buffer_blit_witness:
  "\<exists>b b2. buf b [1, 2, 3] \<and> cfun_buffer_blit [Self, Other (janet_wrap_integer 1)] b = Inr (Inr (), b2)
    \<and> buf b2 [1, 1, 2, 3]"
proof -
  have n: "buf (janet_buffer 0) []" "\<not> no_realloc (janet_buffer 0)" using buf_new [of 0] by simp_all
  from push_bytes_ok [OF buf_mem [OF n(1)] _ n(2), of "[1, 2, 3]"] obtain b where
    b: "buf b [1, 2, 3]" "\<not> no_realloc b" by (auto simp: buf_def)
  have c: "janet_checkint (janet_wrap_integer 1)" "janet_unwrap_integer (janet_wrap_integer 1) = 1"
    "janet_type (janet_wrap_integer 1) = JANET_NUMBER"
    by code_simp+
  let ?argv = "argv_for [1, 2, 3] [Self, Other (janet_wrap_integer 1)]"
  have a: "janet_getbytes ?argv 1 = Inr [1, 2, 3]" "opt_range ?argv 2 0 (int (length [1::8 word, 2, 3])) ''dest-start'' = Inr 1"
    "opt_range ?argv 3 0 (int (length [1::8 word, 2, 3])) ''src-start'' = Inr 0"
    "blit_length ?argv (int (length [1::8 word, 2, 3])) 0 = Inr 3"
    using c by (simp_all add: argv_for_def janet_getbytes_def janet_bytes_view_def opt_range_def blit_length_def
        janet_gethalfrange_def janet_getinteger_def)
  show ?thesis
    using buffer_blit [OF b _ a] b(1) by (auto simp: numeral_eq_Suc)
qed

subsection \<open>Bits\<close>

lemma bitloc_run:
  assumes "buf b xs" and "dbl_int x = Some i" and "- (2 ^ 63) \<le> i" and "i \<le> 2 ^ 63 - 1"
  shows "bitloc [Other (JNumber x)] b =
    (if 0 \<le> i \<and> i < 8 * int (length xs) then Inr (Inr (nat (i div 8), nat (i mod 8)), b)
     else Inr (Inl (Panic ''invalid bit index %v'' [AVal (JNumber x)]), b))"
proof -
  have c: "bcount b = int (length xs)" using assms(1) by (simp add: buf_def mem_def)
  have v: "convert_to (- (2 ^ 63)) (2 ^ 63 - 1) x = Inr i"
    using assms(3,4) dbl_int_trunc [OF assms(2)] by (simp add: convert_to_def)
  have "(i < 0 \<or> int (length xs) \<le> i div 8) = (\<not> (0 \<le> i \<and> i < 8 * int (length xs)))" by linarith
  then show ?thesis
    using v assms(2) unfolding bitloc_def fixarity_then_def
    by (simp add: janet_fixarity_def act_basic_simps andnext_def buf_argv [OF assms(1)] argv_for_def
        janet_getnumber_def Let_def c)
qed

lemma update_bit_ok:
  assumes "buf b xs" and "dbl_int x = Some i" and "0 \<le> i" and "i < 8 * int (length xs)" and "i \<le> 2 ^ 63 - 1"
  shows "\<exists>b2. update_bit [Other (JNumber x)] f b = Inr (Inr (), b2)
    \<and> buf b2 (xs[nat (i div 8) := f (xs ! nat (i div 8)) (push_bit (nat (i mod 8)) 1)])"
proof -
  have k: "nat (i div 8) < length xs" using assms(3,4) by linarith
  have l: "bitloc [Other (JNumber x)] b = Inr (Inr (nat (i div 8), nat (i mod 8)), b)"
    using bitloc_run [OF assms(1,2)] assms(3-5) by simp
  have h: "holds (bcells b) xs" using assms(1) by (simp add: buf_def mem_def)
  have r: "read_cell (bcells b) (nat (i div 8)) = Inr (xs ! nat (i div 8))" by (rule holds_read_cell [OF h k])
  let ?y = "f (xs ! nat (i div 8)) (push_bit (nat (i mod 8)) 1)"
  have "nat (i div 8) + length [?y] \<le> length (bcells b)" using k holds_length [OF h] by simp
  from store_ok [OF buf_mem [OF assms(1)] less_imp_le [OF k] this] obtain b2 where
    b2: "store_bytes (nat (i div 8)) [?y] b = Inr (Inr (), b2)"
      "mem b2 (take (nat (i div 8)) xs @ [?y] @ drop (nat (i div 8) + length [?y]) xs) (length xs)" by blast
  have "take (nat (i div 8)) xs @ [?y] @ drop (nat (i div 8) + length [?y]) xs = xs[nat (i div 8) := ?y]"
    using k by (simp add: upd_conv_take_nth_drop)
  then have "buf b2 (xs[nat (i div 8) := ?y])" using b2(2) by (simp add: buf_def)
  moreover have "update_bit [Other (JNumber x)] f b = Inr (Inr (), b2)"
    using b2(1) by (simp add: update_bit_def andnext_def l act_basic_simps r)
  ultimately show ?thesis by blast
qed

text \<open>The bit operations address bit \<open>i mod 8\<close> of byte \<open>i div 8\<close>: reading
  gives that bit, and set, clear and toggle change that bit alone. An integer outside the buffer, or
  a number that is no integer, is a panic that changes nothing; but a number outside the 64-bit
  range (infinity here) is converted before that check, which C leaves undefined.\<close>

theorem buffer_bits:
  assumes "buf b xs" and "dbl_int x = Some i" and "- (2 ^ 63) \<le> i" and "i \<le> 2 ^ 63 - 1"
  shows "(if 0 \<le> i \<and> i < 8 * int (length xs)
    then let k = nat (i div 8); j = nat (i mod 8) in
      cfun_buffer_bitget [Other (JNumber x)] b = Inr (Inr (bit (xs ! k) j), b)
      \<and> (\<exists>b2. cfun_buffer_bitset [Other (JNumber x)] b = Inr (Inr (), b2) \<and> buf b2 (xs[k := set_bit j (xs ! k)]))
      \<and> (\<exists>b2. cfun_buffer_bitclear [Other (JNumber x)] b = Inr (Inr (), b2) \<and> buf b2 (xs[k := unset_bit j (xs ! k)]))
      \<and> (\<exists>b2. cfun_buffer_bittoggle [Other (JNumber x)] b = Inr (Inr (), b2) \<and> buf b2 (xs[k := flip_bit j (xs ! k)]))
    else cfun_buffer_bitget [Other (JNumber x)] b = Inr (Inl (Panic ''invalid bit index %v'' [AVal (JNumber x)]), b))
    \<and> cfun_buffer_bitset [Other (JNumber (Infinity False))] b = Inl IntOverflow"
proof
  have "bitloc [Other (JNumber (Infinity False))] b = Inl IntOverflow"
    unfolding bitloc_def fixarity_then_def
    by (simp add: janet_fixarity_def act_basic_simps andnext_def buf_argv [OF assms(1)] argv_for_def
        janet_getnumber_def convert_to_def dbl_trunc_def)
  then show "cfun_buffer_bitset [Other (JNumber (Infinity False))] b = Inl IntOverflow"
    by (simp add: cfun_buffer_bitset_def update_bit_def andnext_def)
next
  show "if 0 \<le> i \<and> i < 8 * int (length xs)
    then let k = nat (i div 8); j = nat (i mod 8) in
      cfun_buffer_bitget [Other (JNumber x)] b = Inr (Inr (bit (xs ! k) j), b)
      \<and> (\<exists>b2. cfun_buffer_bitset [Other (JNumber x)] b = Inr (Inr (), b2) \<and> buf b2 (xs[k := set_bit j (xs ! k)]))
      \<and> (\<exists>b2. cfun_buffer_bitclear [Other (JNumber x)] b = Inr (Inr (), b2) \<and> buf b2 (xs[k := unset_bit j (xs ! k)]))
      \<and> (\<exists>b2. cfun_buffer_bittoggle [Other (JNumber x)] b = Inr (Inr (), b2) \<and> buf b2 (xs[k := flip_bit j (xs ! k)]))
    else cfun_buffer_bitget [Other (JNumber x)] b = Inr (Inl (Panic ''invalid bit index %v'' [AVal (JNumber x)]), b)"
  proof (cases "0 \<le> i \<and> i < 8 * int (length xs)")
    case False
    then show ?thesis
      using bitloc_run [OF assms] by (simp only: if_not_P cfun_buffer_bitget_def andnext_def) simp
  next
    case True
    then have k: "nat (i div 8) < length xs" by linarith
    have l: "bitloc [Other (JNumber x)] b = Inr (Inr (nat (i div 8), nat (i mod 8)), b)"
      using bitloc_run [OF assms] True by simp
    have "read_cell (bcells b) (nat (i div 8)) = Inr (xs ! nat (i div 8))"
      using assms(1) k by (intro holds_read_cell) (simp_all add: buf_def mem_def)
    then have "cfun_buffer_bitget [Other (JNumber x)] b = Inr (Inr (bit (xs ! nat (i div 8)) (nat (i mod 8))), b)"
      by (simp add: cfun_buffer_bitget_def andnext_def l act_basic_simps bit_iff_and_push_bit_not_eq_0)
    moreover note u = update_bit_ok [OF assms(1,2) True [THEN conjunct1] True [THEN conjunct2] assms(4)]
    ultimately show ?thesis
      using True u [of "\<lambda>x m. x OR m"] u [of "\<lambda>x m. x AND NOT m"] u [of "\<lambda>x m. x XOR m"]
      by (simp add: Let_def cfun_buffer_bitset_def cfun_buffer_bitclear_def cfun_buffer_bittoggle_def
          set_bit_eq_or unset_bit_eq_and_not flip_bit_eq_xor)
  qed
qed

theorem buffer_bits_witness:
  "\<exists>b b2. buf b [4] \<and> cfun_buffer_bitget [Other (janet_wrap_integer 2)] b = Inr (Inr True, b)
    \<and> cfun_buffer_bitclear [Other (janet_wrap_integer 2)] b = Inr (Inr (), b2) \<and> buf b2 [0]"
proof -
  have n: "buf (janet_buffer 0) []" "\<not> no_realloc (janet_buffer 0)" using buf_new [of 0] by simp_all
  from push_bytes_ok [OF buf_mem [OF n(1)] _ n(2), of "[4]"] obtain b where b: "buf b [4]" by (auto simp: buf_def)
  have c: "dbl_int (double_of_int 2) = Some 2" by code_simp
  have "bit (4 :: 8 word) 2" "unset_bit 2 (4 :: 8 word) = 0" by code_simp+
  then show ?thesis using buffer_bits [OF b c] b by auto
qed

end
