(* ===== verification/Strings.thy ===== *)
theory Strings
  imports Core
begin

unbundle bit_operations_syntax

text \<open>
  \<^verbatim>\<open>src/core/string.c\<close> (amalg/janet.c): the functions on byte strings, with the
  search of Knuth, Morris and Pratt as the code has it. A loop of the search is a partial function;
  that it ends is proved (\<^verbatim>\<open>StringSpec\<close>). \<open>string/format\<close> is not
  modelled: it is the formatter of pp.c.
\<close>

text \<open>A native function that may loop.\<close>

type_synonym 'a looping = "'a run option"

definition andloop :: "'a looping \<Rightarrow> ('a \<Rightarrow> 'b looping) \<Rightarrow> 'b looping" where
  "andloop m f = (case m of None \<Rightarrow> None | Some r \<Rightarrow> (case r of Inl e \<Rightarrow> Some (Inl e)
     | Inr q \<Rightarrow> (case q of Inl p \<Rightarrow> Some (Inr (Inl p)) | Inr x \<Rightarrow> f x)))"

lemma andloop_simps [run_simps]:
  "andloop (Some (okay x)) f = f x"
  "andloop (Some (Inr (Inr x))) f = f x"
  "andloop (Some (checks (Inr x))) f = f x"
  "andloop (Some (checks (Inl p))) f = Some (Inr (Inl p))"
  "andloop (Some (Inl e)) f = Some (Inl e)"
  by (simp_all add: andloop_def okay_def checks_def)

subsection \<open>The search\<close>

record kmp_state =
  ki :: nat
  kj :: nat
  ktext :: bytes
  kpat :: bytes
  klookup :: "nat list"

text \<open>\<open>while (j && pat[j] != pat[i]) j = lookup[j - 1];\<close>\<close>

partial_function (option) kmp_shift :: "bytes \<Rightarrow> nat list \<Rightarrow> 8 word \<Rightarrow> nat \<Rightarrow> nat looping" where
  "kmp_shift pat lookup c j =
     (if j = 0 then Some (okay 0)
      else if j \<ge> length pat then Some (Inl OutOfBounds)
      else if pat ! j \<noteq> c then kmp_shift pat lookup c (lookup ! (j - 1)) else Some (okay j))"

text \<open>The table from index \<open>i\<close> on, \<open>n\<close> entries.\<close>

fun kmp_table :: "bytes \<Rightarrow> nat \<Rightarrow> nat \<Rightarrow> nat \<Rightarrow> nat list \<Rightarrow> nat list looping" where
  "kmp_table pat i 0 j lookup = Some (okay lookup)"
| "kmp_table pat i (Suc n) j lookup =
     andloop (kmp_shift pat lookup (pat ! i) j) (\<lambda>j.
     let j = (if pat ! j = pat ! i then j + 1 else j)
     in kmp_table pat (i + 1) n j (lookup[i := j]))"

definition kmp_init :: "bytes \<Rightarrow> bytes \<Rightarrow> kmp_state looping" where
  "kmp_init text pat =
     (if length pat = 0 then Some (raises ''expected non-empty pattern'' [])
      else andloop (kmp_table pat 1 (length pat - 1) 0 (replicate (length pat) 0)) (\<lambda>lookup.
        Some (okay \<lparr>ki = 0, kj = 0, ktext = text, kpat = pat, klookup = lookup\<rparr>)))"

definition kmp_seti :: "kmp_state \<Rightarrow> nat \<Rightarrow> kmp_state" where
  "kmp_seti s i = s\<lparr>ki := i, kj := 0\<rparr>"

text \<open>The match and the two indices after it, if there is one.\<close>

partial_function (option) kmp_loop :: "bytes \<Rightarrow> bytes \<Rightarrow> nat list \<Rightarrow> nat \<Rightarrow> nat \<Rightarrow> (nat \<times> nat \<times> nat) option looping" where
  "kmp_loop text pat lookup i j =
     (if i < length text
      then (if j \<ge> length pat then Some (Inl OutOfBounds)
            else if text ! i = pat ! j
            then (if j = length pat - 1 then Some (okay (Some (i - j, i + 1, lookup ! j)))
                  else kmp_loop text pat lookup (i + 1) (j + 1))
            else if j > 0 then kmp_loop text pat lookup i (lookup ! (j - 1))
            else kmp_loop text pat lookup (i + 1) j)
      else Some (okay None))"

definition kmp_next :: "kmp_state \<Rightarrow> (nat option \<times> kmp_state) looping" where
  "kmp_next s =
     andloop (kmp_loop (ktext s) (kpat s) (klookup s) (ki s) (kj s)) (\<lambda>r. case r of
       None \<Rightarrow> Some (okay (None, s))
     | Some (k, i, j) \<Rightarrow> Some (okay (Some k, s\<lparr>ki := i, kj := j\<rparr>)))"

subsection \<open>Searching\<close>

definition nonneg_start :: "janet list \<Rightarrow> nat \<Rightarrow> nat run" where
  "nonneg_start argv n =
     andthen (checks (janet_getinteger argv n)) (\<lambda>start.
     if start < 0 then raises ''expected non-negative start index'' [] else okay (nat start))"

definition findsetup :: "janet list \<Rightarrow> int \<Rightarrow> kmp_state looping" where
  "findsetup argv extra =
     andloop (Some (checks (janet_arity (int (length argv)) 2 (3 + extra)))) (\<lambda>_.
     andloop (Some (checks (janet_getbytes argv 0))) (\<lambda>pat.
     andloop (Some (checks (janet_getbytes argv 1))) (\<lambda>text.
     andloop (Some (if length argv \<ge> 3 then nonneg_start argv 2 else okay 0)) (\<lambda>start.
     andloop (kmp_init text pat) (\<lambda>s. Some (okay (s\<lparr>ki := start\<rparr>)))))))"

definition wrap_index :: "nat \<Rightarrow> janet" where
  "wrap_index k = janet_wrap_integer (int k)"

definition cfun_string_find :: "janet list \<Rightarrow> janet looping" where
  "cfun_string_find argv =
     andloop (findsetup argv 0) (\<lambda>state.
     andloop (kmp_next state) (\<lambda>(result, _).
     Some (okay (case result of None \<Rightarrow> JNil | Some k \<Rightarrow> wrap_index k))))"

partial_function (option) findall_loop :: "kmp_state \<Rightarrow> janet list \<Rightarrow> janet list looping" where
  "findall_loop s a = (case kmp_next s of
     None \<Rightarrow> None
   | Some r \<Rightarrow> (case r of
       Inl e \<Rightarrow> Some (Inl e)
     | Inr q \<Rightarrow> (case q of
         Inl p \<Rightarrow> Some (Inr (Inl p))
       | Inr (result, s2) \<Rightarrow> (case result of
           None \<Rightarrow> Some (okay a) | Some k \<Rightarrow> findall_loop s2 (a @ [wrap_index k])))))"

definition cfun_string_findall :: "janet list \<Rightarrow> janet looping" where
  "cfun_string_findall argv =
     andloop (findsetup argv 0) (\<lambda>state.
     andloop (findall_loop state []) (\<lambda>a. Some (okay (JArray a))))"

subsection \<open>Replacing and splitting\<close>

text \<open>
  The text to put in for a match (util.c). A function is called with the match: \<open>call\<close> is
  what running it gives, \<open>describe\<close> is \<open>janet_to_string\<close> on a value without bytes. A
  function that changes the buffer being searched is outside the model: the code keeps a pointer
  into it.
\<close>

definition to_byte_view :: "(janet \<Rightarrow> bytes) \<Rightarrow> janet \<Rightarrow> bytes" where
  "to_byte_view describe value = (case janet_bytes_view value of Some b \<Rightarrow> b | None \<Rightarrow> describe value)"

definition janet_text_substitution ::
  "(janet \<Rightarrow> janet list \<Rightarrow> janet run) \<Rightarrow> (janet \<Rightarrow> bytes) \<Rightarrow> janet \<Rightarrow> bytes \<Rightarrow> bytes run" where
  "janet_text_substitution call describe subst match =
     (if janet_type subst = JANET_FUNCTION \<or> janet_type subst = JANET_CFUNCTION
      then andthen (call subst [JString match]) (\<lambda>v. okay (to_byte_view describe v))
      else okay (to_byte_view describe subst))"

definition replacesetup :: "janet list \<Rightarrow> kmp_state looping" where
  "replacesetup argv =
     andloop (Some (checks (janet_arity (int (length argv)) 3 4))) (\<lambda>_.
     andloop (Some (checks (janet_getbytes argv 0))) (\<lambda>pat.
     andloop (Some (checks (janet_getbytes argv 2))) (\<lambda>text.
     andloop (Some (if length argv = 4 then nonneg_start argv 3 else okay 0)) (\<lambda>start.
     andloop (kmp_init text pat) (\<lambda>s. Some (okay (s\<lparr>ki := start\<rparr>)))))))"

definition cfun_string_replace ::
  "(janet \<Rightarrow> janet list \<Rightarrow> janet run) \<Rightarrow> (janet \<Rightarrow> bytes) \<Rightarrow> janet list \<Rightarrow> janet looping" where
  "cfun_string_replace call describe argv =
     andloop (replacesetup argv) (\<lambda>s.
     andloop (kmp_next s) (\<lambda>(result, s). case result of
       None \<Rightarrow> Some (okay (JString (ktext s)))
     | Some k \<Rightarrow>
         andloop (Some (janet_text_substitution call describe (argv ! 1) (take (length (kpat s)) (drop k (ktext s))))) (\<lambda>b.
         andloop (Some (faults (checked32 (int (length (ktext s)) - int (length (kpat s)) + int (length b))))) (\<lambda>_.
         Some (okay (JString (take k (ktext s) @ b @ drop (k + length (kpat s)) (ktext s))))))))"

partial_function (option) replaceall_loop ::
  "(bytes \<Rightarrow> bytes run) \<Rightarrow> kmp_state \<Rightarrow> bytes \<Rightarrow> nat \<Rightarrow> (bytes \<times> nat) looping" where
  "replaceall_loop subst s b lastindex = (case kmp_next s of
     None \<Rightarrow> None
   | Some r \<Rightarrow> (case r of
       Inl e \<Rightarrow> Some (Inl e)
     | Inr q \<Rightarrow> (case q of
         Inl p \<Rightarrow> Some (Inr (Inl p))
       | Inr (result, s2) \<Rightarrow> (case result of
           None \<Rightarrow> Some (okay (b, lastindex))
         | Some k \<Rightarrow> (case subst (take (length (kpat s)) (drop k (ktext s))) of
             Inl e \<Rightarrow> Some (Inl e)
           | Inr q2 \<Rightarrow> (case q2 of
               Inl p \<Rightarrow> Some (Inr (Inl p))
             | Inr sb \<Rightarrow>
                 (let piece = b @ take (k - lastindex) (drop lastindex (ktext s)) @ sb in
                  if int (length piece) > INT32_MAX then Some (raises ''buffer overflow'' [])
                  else replaceall_loop subst (kmp_seti s2 (k + length (kpat s))) piece (k + length (kpat s)))))))))"

definition cfun_string_replaceall ::
  "(janet \<Rightarrow> janet list \<Rightarrow> janet run) \<Rightarrow> (janet \<Rightarrow> bytes) \<Rightarrow> janet list \<Rightarrow> janet looping" where
  "cfun_string_replaceall call describe argv =
     andloop (replacesetup argv) (\<lambda>s.
     andloop (replaceall_loop (janet_text_substitution call describe (argv ! 1)) s [] 0) (\<lambda>(b, lastindex).
     let all = b @ drop lastindex (ktext s) in
     if int (length all) > INT32_MAX then Some (raises ''buffer overflow'' []) else Some (okay (JString all))))"

text \<open>\<open>while ((result = kmp_next (&state)) >= 0 && --limit)\<close>\<close>

partial_function (option) split_loop :: "kmp_state \<Rightarrow> int \<Rightarrow> janet list \<Rightarrow> nat \<Rightarrow> (janet list \<times> nat) looping" where
  "split_loop s limit a lastindex = (case kmp_next s of
     None \<Rightarrow> None
   | Some r \<Rightarrow> (case r of
       Inl e \<Rightarrow> Some (Inl e)
     | Inr q \<Rightarrow> (case q of
         Inl p \<Rightarrow> Some (Inr (Inl p))
       | Inr (result, s2) \<Rightarrow> (case result of
           None \<Rightarrow> Some (okay (a, lastindex))
         | Some k \<Rightarrow>
             (if limit = INT32_MIN then Some (Inl IntOverflow)
              else if limit - 1 = 0 then Some (okay (a, lastindex))
              else split_loop (kmp_seti s2 (k + length (kpat s))) (limit - 1)
                (a @ [JString (take (k - lastindex) (drop lastindex (ktext s)))]) (k + length (kpat s)))))))"

definition cfun_string_split :: "janet list \<Rightarrow> janet looping" where
  "cfun_string_split argv =
     andloop (Some (if length argv = 4 then checks (janet_getinteger argv 3) else okay (-1))) (\<lambda>limit.
     andloop (findsetup argv 1) (\<lambda>state.
     andloop (split_loop state limit [] 0) (\<lambda>(a, lastindex).
     Some (okay (JArray (a @ [JString (drop lastindex (ktext state))]))))))"

subsection \<open>Comparing\<close>

fun memcmp :: "bytes \<Rightarrow> bytes \<Rightarrow> int" where
  "memcmp (x # xs) (y # ys) = (if x = y then memcmp xs ys else if x < y then -1 else 1)"
| "memcmp _ _ = 0"

definition janet_string_compare :: "bytes \<Rightarrow> bytes \<Rightarrow> int" where
  "janet_string_compare lhs rhs =
     (let xlen = length lhs; ylen = length rhs; len = (if xlen > ylen then ylen else xlen);
          res = memcmp (take len lhs) (take len rhs) in
      if res \<noteq> 0 then (if res > 0 then 1 else -1)
      else if xlen = ylen then 0 else if xlen < ylen then -1 else 1)"

definition janet_string_equalconst :: "bytes \<Rightarrow> bytes \<Rightarrow> 32 word \<Rightarrow> bool" where
  "janet_string_equalconst lhs rhs rhash =
     (\<not> (janet_string_calchash lhs \<noteq> rhash \<or> length lhs \<noteq> length rhs) \<and> memcmp lhs rhs = 0)"

definition janet_string_equal :: "bytes \<Rightarrow> bytes \<Rightarrow> bool" where
  "janet_string_equal lhs rhs = janet_string_equalconst lhs rhs (janet_string_calchash rhs)"

subsection \<open>Simple functions\<close>

definition on_bytes :: "janet list \<Rightarrow> (bytes \<Rightarrow> janet) \<Rightarrow> janet run" where
  "on_bytes argv f =
     andthen (checks (janet_fixarity (length argv) 1)) (\<lambda>_.
     andthen (checks (janet_getbytes argv 0)) (\<lambda>view. okay (f view)))"

definition string_slice :: "(bytes \<Rightarrow> janet) \<Rightarrow> janet list \<Rightarrow> janet run" where
  "string_slice wrap argv =
     andthen (faults (guard_or (argv \<noteq> []) OutOfBounds)) (\<lambda>_.
     andthen (checks (janet_getbytes argv 0)) (\<lambda>view.
     andthen (checks (janet_getslice argv)) (\<lambda>(start, fin).
     okay (wrap (take (nat (fin - start)) (drop (nat start) view))))))"

definition cfun_string_slice :: "janet list \<Rightarrow> janet run" where
  "cfun_string_slice argv = string_slice JString argv"

definition cfun_symbol_slice :: "janet list \<Rightarrow> janet run" where
  "cfun_symbol_slice argv = string_slice JSymbol argv"

definition cfun_keyword_slice :: "janet list \<Rightarrow> janet run" where
  "cfun_keyword_slice argv = string_slice JKeyword argv"

definition cfun_string_repeat :: "janet list \<Rightarrow> janet run" where
  "cfun_string_repeat argv =
     andthen (checks (janet_fixarity (length argv) 2)) (\<lambda>_.
     andthen (checks (janet_getbytes argv 0)) (\<lambda>view.
     andthen (checks (janet_getinteger argv 1)) (\<lambda>rep.
     if rep < 0 then raises ''expected non-negative number of repetitions'' []
     else if rep = 0 then okay (JString [])
     else if rep * int (length view) > INT32_MAX then raises ''result string is too long'' []
     else okay (JString (concat (replicate (nat rep) view))))))"

definition cfun_string_bytes :: "janet list \<Rightarrow> janet run" where
  "cfun_string_bytes argv = on_bytes argv (\<lambda>view. JTuple (map (\<lambda>b. janet_wrap_integer (uint b)) view))"

fun from_bytes :: "janet list \<Rightarrow> nat \<Rightarrow> nat \<Rightarrow> bytes run" where
  "from_bytes argv i 0 = okay []"
| "from_bytes argv i (Suc n) =
     andthen (checks (janet_getinteger argv i)) (\<lambda>c.
     andthen (from_bytes argv (Suc i) n) (\<lambda>b. okay (word_of_int c # b)))"

definition cfun_string_frombytes :: "janet list \<Rightarrow> janet run" where
  "cfun_string_frombytes argv = andthen (from_bytes argv 0 (length argv)) (\<lambda>b. okay (JString b))"

definition cfun_string_asciilower :: "janet list \<Rightarrow> janet run" where
  "cfun_string_asciilower argv =
     on_bytes argv (\<lambda>view. JString (map (\<lambda>c. if c \<ge> 65 \<and> c \<le> 90 then c + 32 else c) view))"

definition cfun_string_asciiupper :: "janet list \<Rightarrow> janet run" where
  "cfun_string_asciiupper argv =
     on_bytes argv (\<lambda>view. JString (map (\<lambda>c. if c \<ge> 97 \<and> c \<le> 122 then c - 32 else c) view))"

definition cfun_string_reverse :: "janet list \<Rightarrow> janet run" where
  "cfun_string_reverse argv = on_bytes argv (\<lambda>view. JString (map (\<lambda>i. view ! (length view - 1 - i)) [0..<length view]))"

definition on_two :: "janet list \<Rightarrow> (bytes \<Rightarrow> bytes \<Rightarrow> bool) \<Rightarrow> janet run" where
  "on_two argv f =
     andthen (checks (janet_fixarity (length argv) 2)) (\<lambda>_.
     andthen (checks (janet_getbytes argv 0)) (\<lambda>a.
     andthen (checks (janet_getbytes argv 1)) (\<lambda>str. okay (JBool (f a str)))))"

definition cfun_string_hasprefix :: "janet list \<Rightarrow> janet run" where
  "cfun_string_hasprefix argv = on_two argv (\<lambda>prefix str.
     length str \<ge> length prefix \<and> memcmp prefix (take (length prefix) str) = 0)"

definition cfun_string_hassuffix :: "janet list \<Rightarrow> janet run" where
  "cfun_string_hassuffix argv = on_two argv (\<lambda>suffix str.
     length str \<ge> length suffix \<and> memcmp suffix (drop (length str - length suffix) str) = 0)"

text \<open>A set of bytes as 256 bits in eight words.\<close>

definition populate :: "bytes \<Rightarrow> 32 word list" where
  "populate set1 = foldl (\<lambda>bitset b. let index = unat (drop_bit 5 b); mask = push_bit (unat (b AND 0x1F)) 1
     in bitset[index := bitset ! index OR mask]) (replicate 8 0) set1"

definition cfun_string_checkset :: "janet list \<Rightarrow> janet run" where
  "cfun_string_checkset argv = on_two argv (\<lambda>set1 str.
     list_all (\<lambda>b. populate set1 ! unat (drop_bit 5 b) AND push_bit (unat (b AND 0x1F)) 1 \<noteq> 0) str)"

fun check_parts :: "janet list \<Rightarrow> nat \<Rightarrow> bytes \<Rightarrow> int \<Rightarrow> bytes list run" where
  "check_parts [] i joiner finallen = okay []"
| "check_parts (x # xs) i joiner finallen = (case janet_bytes_view x of
     None \<Rightarrow> raises ''item %d of parts is not a byte sequence, got %v'' [AInt (int i), AVal x]
   | Some chunk \<Rightarrow>
       (let finallen = finallen + (if i \<noteq> 0 then int (length joiner) else 0) + int (length chunk) in
        if finallen > INT32_MAX then raises ''result string too long'' []
        else andthen (check_parts xs (Suc i) joiner finallen) (\<lambda>cs. okay (chunk # cs))))"

fun join_bytes :: "bytes \<Rightarrow> bytes list \<Rightarrow> bytes" where
  "join_bytes joiner [] = []"
| "join_bytes joiner [c] = c"
| "join_bytes joiner (c # cs) = c @ joiner @ join_bytes joiner cs"

definition cfun_string_join :: "janet list \<Rightarrow> janet run" where
  "cfun_string_join argv =
     andthen (checks (janet_arity (int (length argv)) 1 2)) (\<lambda>_.
     andthen (checks (janet_getindexed argv 0)) (\<lambda>parts.
     andthen (checks (if length argv = 2 then janet_getbytes argv 1 else Inr [])) (\<lambda>joiner.
     andthen (check_parts parts 0 joiner 0) (\<lambda>cs. okay (JString (join_bytes joiner cs))))))"

subsection \<open>Trimming\<close>

definition trim_help_checkset :: "bytes \<Rightarrow> 8 word \<Rightarrow> bool" where
  "trim_help_checkset set1 x = list_ex (\<lambda>c. c = x) set1"

definition trim_help_leftedge :: "bytes \<Rightarrow> bytes \<Rightarrow> nat" where
  "trim_help_leftedge str set1 =
     (case find (\<lambda>i. \<not> trim_help_checkset set1 (str ! i)) [0..<length str] of Some i \<Rightarrow> i | None \<Rightarrow> length str)"

definition trim_help_rightedge :: "bytes \<Rightarrow> bytes \<Rightarrow> nat" where
  "trim_help_rightedge str set1 =
     (case find (\<lambda>i. \<not> trim_help_checkset set1 (str ! i)) (rev [0..<length str]) of Some i \<Rightarrow> i + 1 | None \<Rightarrow> 0)"

definition trim_help_args :: "janet list \<Rightarrow> (bytes \<times> bytes) run" where
  "trim_help_args argv =
     andthen (checks (janet_arity (int (length argv)) 1 2)) (\<lambda>_.
     andthen (checks (janet_getbytes argv 0)) (\<lambda>str.
     andthen (checks (if length argv \<ge> 2 then janet_getbytes argv 1 else Inr [32, 9, 13, 10, 11, 12])) (\<lambda>set1.
     okay (str, set1))))"

definition cfun_string_trim :: "janet list \<Rightarrow> janet run" where
  "cfun_string_trim argv =
     andthen (trim_help_args argv) (\<lambda>(str, set1).
     let left_edge = trim_help_leftedge str set1; right_edge = trim_help_rightedge str set1 in
     if right_edge < left_edge then okay (JString [])
     else okay (JString (take (right_edge - left_edge) (drop left_edge str))))"

definition cfun_string_triml :: "janet list \<Rightarrow> janet run" where
  "cfun_string_triml argv =
     andthen (trim_help_args argv) (\<lambda>(str, set1). okay (JString (drop (trim_help_leftedge str set1) str)))"

definition cfun_string_trimr :: "janet list \<Rightarrow> janet run" where
  "cfun_string_trimr argv =
     andthen (trim_help_args argv) (\<lambda>(str, set1). okay (JString (take (trim_help_rightedge str set1) str)))"

end
