(* ===== verification/StringSpec.thy ===== *)
theory StringSpec
  imports Strings
begin

text \<open>
  What the search of \<^verbatim>\<open>Strings\<close> has to find: the occurrences of a pattern, the borders
  that the table of Knuth, Morris and Pratt holds, and the proof that the table and the search
  are right and end.
\<close>

subsection \<open>Occurrences\<close>

definition occurs_at :: "bytes \<Rightarrow> bytes \<Rightarrow> nat \<Rightarrow> bool" where
  "occurs_at p t k = (k + length p \<le> length t \<and> take (length p) (drop k t) = p)"

definition first_occ :: "bytes \<Rightarrow> bytes \<Rightarrow> nat \<Rightarrow> nat option" where
  "first_occ p t s = find (occurs_at p t) [s..<length t]"

definition all_occ :: "bytes \<Rightarrow> bytes \<Rightarrow> nat \<Rightarrow> nat list" where
  "all_occ p t s = filter (occurs_at p t) [s..<length t]"

lemma occurs_at_alt:
  "occurs_at p t k \<longleftrightarrow> k + length p \<le> length t \<and> (\<forall>q<length p. t ! (k + q) = p ! q)"
  unfolding occurs_at_def list_eq_iff_nth_eq by auto

lemma occurs_at_bound: "occurs_at p t k \<Longrightarrow> p \<noteq> [] \<Longrightarrow> k < length t"
  unfolding occurs_at_def by (cases p) auto

lemma upt_skip:
  assumes "a \<le> b" "\<forall>k. a \<le> k \<and> k < b \<longrightarrow> \<not> P k"
  shows "filter P [a..<n] = filter P [b..<n]" "find P [a..<n] = find P [b..<n]"
proof -
  have F: "filter P [a..<n] = filter P [b..<n]" if "a \<le> b" "\<forall>k. a \<le> k \<and> k < b \<longrightarrow> \<not> P k" for a
    using that
  proof (induction "b - a" arbitrary: a)
    case 0
    then show ?case by simp
  next
    case (Suc x)
    then have "a < b" "\<not> P a" by auto
    moreover have "filter P [Suc a..<n] = filter P [b..<n]"
      using Suc.prems Suc.hyps by (intro Suc.hyps) auto
    ultimately show ?case by (cases "a < n") (simp_all add: upt_conv_Cons)
  qed
  show "filter P [a..<n] = filter P [b..<n]" using F assms by blast
  have "\<And>xs ys. filter P xs = filter P ys \<Longrightarrow> find P xs = find P ys"
  proof -
    fix xs ys assume "filter P xs = filter P ys"
    moreover have "find P zs = (case filter P zs of [] \<Rightarrow> None | z # _ \<Rightarrow> Some z)" for zs
      by (induction zs) auto
    ultimately show "find P xs = find P ys" by simp
  qed
  then show "find P [a..<n] = find P [b..<n]" using F assms by blast
qed

lemma first_occ_skip:
  "a \<le> b \<Longrightarrow> \<forall>k. a \<le> k \<and> k < b \<longrightarrow> \<not> occurs_at p t k \<Longrightarrow> first_occ p t a = first_occ p t b"
  unfolding first_occ_def by (rule upt_skip)

lemma all_occ_skip:
  "a \<le> b \<Longrightarrow> \<forall>k. a \<le> k \<and> k < b \<longrightarrow> \<not> occurs_at p t k \<Longrightarrow> all_occ p t a = all_occ p t b"
  unfolding all_occ_def by (rule upt_skip)

lemma first_occ_hit: "occurs_at p t a \<Longrightarrow> p \<noteq> [] \<Longrightarrow> first_occ p t a = Some a"
  unfolding first_occ_def using occurs_at_bound by (simp add: upt_conv_Cons)

lemma all_occ_hit: "occurs_at p t a \<Longrightarrow> p \<noteq> [] \<Longrightarrow> all_occ p t a = a # all_occ p t (Suc a)"
  unfolding all_occ_def using occurs_at_bound by (simp add: upt_conv_Cons)

lemma first_occ_none: "\<forall>k\<ge>a. \<not> occurs_at p t k \<Longrightarrow> first_occ p t a = None"
  unfolding first_occ_def by (auto simp: find_None_iff)

lemma first_occ_someD:
  assumes "first_occ p t a = Some k"
  shows "a \<le> k" "occurs_at p t k" "\<forall>q. a \<le> q \<and> q < k \<longrightarrow> \<not> occurs_at p t q"
proof -
  obtain i where i: "i < length [a..<length t]" "occurs_at p t ([a..<length t] ! i)" "k = [a..<length t] ! i"
    "\<forall>j<i. \<not> occurs_at p t ([a..<length t] ! j)"
    using assms unfolding first_occ_def find_Some_iff by blast
  then have k: "k = a + i" by simp
  show "a \<le> k" "occurs_at p t k" using i k by auto
  show "\<forall>q. a \<le> q \<and> q < k \<longrightarrow> \<not> occurs_at p t q"
  proof (intro allI impI)
    fix q assume q: "a \<le> q \<and> q < k"
    then have "q - a < i" "[a..<length t] ! (q - a) = q" using i(1) k by auto
    then show "\<not> occurs_at p t q" using i(4) by metis
  qed
qed

lemma all_occ_first:
  assumes "p \<noteq> []"
  shows "all_occ p t a = (case first_occ p t a of None \<Rightarrow> [] | Some k \<Rightarrow> k # all_occ p t (Suc k))"
proof (cases "first_occ p t a")
  case None
  then have "all_occ p t a = []" unfolding first_occ_def all_occ_def find_None_iff by (auto simp: filter_empty_conv)
  then show ?thesis using None by simp
next
  case (Some k)
  note D = first_occ_someD[OF Some]
  have "all_occ p t a = all_occ p t k" using all_occ_skip D(1,3) by blast
  then show ?thesis using Some all_occ_hit[OF D(2) assms] by simp
qed

subsection \<open>Borders\<close>

text \<open>A border of the first \<open>m\<close> bytes: a proper prefix of them that is also a suffix.\<close>

definition is_border :: "bytes \<Rightarrow> nat \<Rightarrow> nat \<Rightarrow> bool" where
  "is_border p m k = (k < m \<and> (\<forall>q<k. p ! q = p ! (m - k + q)))"

definition longest_border :: "bytes \<Rightarrow> nat \<Rightarrow> nat" where
  "longest_border p m = Max {k. is_border p m k}"

lemma is_border_0: "0 < m \<Longrightarrow> is_border p m 0"
  by (simp add: is_border_def)

lemma longest_border:
  assumes "0 < m"
  shows "is_border p m (longest_border p m)" "is_border p m k \<Longrightarrow> k \<le> longest_border p m"
proof -
  have fin: "finite {k. is_border p m k}" by (rule finite_subset[of _ "{..<m}"]) (auto simp: is_border_def)
  show "is_border p m (longest_border p m)"
    using Max_in[OF fin] is_border_0[OF assms, of p] unfolding longest_border_def by auto
  show "is_border p m k \<Longrightarrow> k \<le> longest_border p m" unfolding longest_border_def by (rule Max_ge[OF fin]) simp
qed

lemma longest_border_less: "0 < m \<Longrightarrow> longest_border p m < m"
  using longest_border(1) by (simp add: is_border_def)

lemma longest_border_eqI:
  assumes "is_border p m k" "\<And>k'. is_border p m k' \<Longrightarrow> k' \<le> k"
  shows "longest_border p m = k"
proof -
  have "0 < m" using assms(1) by (simp add: is_border_def)
  then show ?thesis using longest_border assms by (meson dual_order.antisym)
qed

lemma is_border_Suc:
  "is_border p (Suc m) (Suc k) \<longleftrightarrow> is_border p m k \<and> p ! k = p ! m"
  unfolding is_border_def by (auto simp: less_Suc_eq)

lemma is_border_trans: "is_border p m j \<Longrightarrow> is_border p j k \<Longrightarrow> is_border p m k"
  unfolding is_border_def
proof (intro conjI allI impI)
  fix q assume A: "j < m \<and> (\<forall>q<j. p ! q = p ! (m - j + q))" "k < j \<and> (\<forall>q<k. p ! q = p ! (j - k + q))" "q < k"
  then have "p ! q = p ! (j - k + q)" "j - k + q < j" by auto
  moreover have "p ! (j - k + q) = p ! (m - j + (j - k + q))" using A(1) calculation by blast
  ultimately show "p ! q = p ! (m - k + q)" using A by (simp add: algebra_simps)
qed auto

lemma is_border_nested: "is_border p m j \<Longrightarrow> is_border p m k \<Longrightarrow> k < j \<Longrightarrow> is_border p j k"
  unfolding is_border_def
proof (intro conjI allI impI)
  fix q assume A: "j < m \<and> (\<forall>q<j. p ! q = p ! (m - j + q))" "k < m \<and> (\<forall>q<k. p ! q = p ! (m - k + q))"
    "k < j" "q < k"
  have "p ! q = p ! (m - k + q)" using A by blast
  also have "m - k + q = m - j + (j - k + q)" using A by simp
  also have "p ! (m - j + (j - k + q)) = p ! (j - k + q)" using A by (metis add.commute less_diff_conv nat_add_left_cancel_less ordered_cancel_comm_monoid_diff_class.diff_add less_imp_le)
  finally show "p ! q = p ! (j - k + q)" .
qed auto


subsection \<open>The table\<close>

definition borders_ok :: "bytes \<Rightarrow> nat list \<Rightarrow> nat \<Rightarrow> bool" where
  "borders_ok p tab n = (length tab = length p \<and> n \<le> length p \<and> (\<forall>q<n. tab ! q = longest_border p (Suc q)))"

lemma borders_okD: "borders_ok p tab n \<Longrightarrow> 0 < j \<Longrightarrow> j \<le> n \<Longrightarrow> tab ! (j - 1) = longest_border p j"
  unfolding borders_ok_def by (metis Suc_pred' Suc_le_eq)

text \<open>The inner loop walks the borders of the first \<open>i\<close> bytes down to one that the next byte
  extends, or to none.\<close>

lemma kmp_shift_border:
  assumes "borders_ok p tab i" "i < length p" "is_border p i j"
    "\<And>k. is_border p (Suc i) k \<Longrightarrow> k \<le> Suc j"
  shows "\<exists>j'. kmp_shift p tab (p ! i) j = Some (okay j') \<and> is_border p i j'
    \<and> (if p ! j' = p ! i then longest_border p (Suc i) = Suc j' else longest_border p (Suc i) = j')"
  using assms(3,4)
proof (induction j rule: less_induct)
  case (less j)
  have j: "j < i" using less.prems(1) by (simp add: is_border_def)
  consider (eq) "p ! j = p ! i" | (zero) "p ! j \<noteq> p ! i" "j = 0" | (step) "p ! j \<noteq> p ! i" "0 < j" by blast
  then show ?case
  proof cases
    case eq
    have "longest_border p (Suc i) = Suc j"
      using less.prems eq by (intro longest_border_eqI) (simp_all add: is_border_Suc)
    moreover have "kmp_shift p tab (p ! i) j = Some (okay j)"
      using j eq assms(2) by (subst kmp_shift.simps) simp
    ultimately show ?thesis using less.prems(1) eq by auto
  next
    case zero
    have "longest_border p (Suc i) = 0"
    proof (rule longest_border_eqI)
      fix k assume k: "is_border p (Suc i) k"
      show "k \<le> 0"
      proof (cases k)
        case (Suc k')
        then show ?thesis using k less.prems(2)[OF k] zero by (simp add: is_border_Suc)
      qed simp
    qed (simp add: is_border_0)
    moreover have "kmp_shift p tab (p ! i) j = Some (okay 0)" using zero by (subst kmp_shift.simps) simp
    ultimately show ?thesis using less.prems(1) zero by auto
  next
    case step
    let ?j = "longest_border p j"
    have B: "is_border p j ?j" and l: "?j < j"
      using longest_border(1) longest_border_less step by blast+
    have "k \<le> Suc ?j" if k: "is_border p (Suc i) k" for k
    proof (cases k)
      case (Suc k')
      with k have k': "is_border p i k'" "p ! k' = p ! i" by (simp_all add: is_border_Suc)
      then have "k' < j" using less.prems(2)[OF k] Suc step by (metis Suc_le_mono le_neq_implies_less)
      then have "is_border p j k'" using is_border_nested less.prems(1) k' by blast
      then show ?thesis using longest_border(2) step Suc by simp
    qed simp
    from less.IH[OF l is_border_trans[OF less.prems(1) B] this]
    have IH: "\<exists>j'. kmp_shift p tab (p ! i) ?j = Some (okay j') \<and> is_border p i j'
      \<and> (if p ! j' = p ! i then longest_border p (Suc i) = Suc j' else longest_border p (Suc i) = j')" .
    have "kmp_shift p tab (p ! i) j = kmp_shift p tab (p ! i) ?j"
      using step j assms(2) borders_okD[OF assms(1), of j] by (subst kmp_shift.simps) simp
    then show ?thesis using IH by simp
  qed
qed

lemma kmp_table_ok:
  "borders_ok p tab i \<Longrightarrow> 0 < i \<Longrightarrow> i + n = length p \<Longrightarrow> j = longest_border p i
   \<Longrightarrow> \<exists>tab'. kmp_table p i n j tab = Some (okay tab') \<and> borders_ok p tab' (length p)"
proof (induction n arbitrary: i j tab)
  case 0
  then show ?case by simp
next
  case (Suc n)
  have i: "i < length p" using Suc.prems by simp
  have "k \<le> Suc j" if "is_border p (Suc i) k" for k
    using that Suc.prems(2,4) longest_border(2)[of i p] by (cases k) (auto simp: is_border_Suc)
  then obtain j' where j': "kmp_shift p tab (p ! i) j = Some (okay j')"
    "(if p ! j' = p ! i then j' + 1 else j') = longest_border p (Suc i)"
    using kmp_shift_border[OF Suc.prems(1) i, of j] longest_border(1)[of i p] Suc.prems(2,4)
    by (auto split: if_splits)
  have "borders_ok p (tab[i := longest_border p (Suc i)]) (Suc i)"
    using Suc.prems(1) i unfolding borders_ok_def by (auto simp: less_Suc_eq)
  from Suc.IH[OF this _ _ refl] Suc.prems(3)
  show ?case using j' by (simp add: andloop_simps Let_def)
qed

lemma kmp_init_ok:
  assumes "p \<noteq> []"
  shows "\<exists>tab. kmp_init t p = Some (okay \<lparr>ki = 0, kj = 0, ktext = t, kpat = p, klookup = tab\<rparr>) \<and> borders_ok p tab (length p)"
proof -
  have "longest_border p (Suc 0) = 0" by (rule longest_border_eqI) (auto simp: is_border_def)
  then have "borders_ok p (replicate (length p) 0) 1" "0 = longest_border p 1"
    using assms by (auto simp: borders_ok_def Suc_le_eq)
  from kmp_table_ok[OF this(1) _ _ this(2), of "length p - 1"] assms
  show ?thesis by (auto simp: kmp_init_def andloop_simps Suc_le_eq)
qed

subsection \<open>The search\<close>

text \<open>Before byte \<open>i\<close> the last \<open>j\<close> bytes of the text are the first \<open>j\<close> of the pattern.\<close>

definition partial_match :: "bytes \<Rightarrow> bytes \<Rightarrow> nat \<Rightarrow> nat \<Rightarrow> bool" where
  "partial_match p t i j = (j < length p \<and> j \<le> i \<and> (\<forall>q<j. t ! (i - j + q) = p ! q))"

lemma partial_match_0: "p \<noteq> [] \<Longrightarrow> partial_match p t i 0"
  by (simp add: partial_match_def)

lemma partial_match_border:
  assumes "j \<le> i" "\<forall>q<j. t ! (i - j + q) = p ! q" "j \<le> length p" "is_border p j k"
  shows "partial_match p t i k"
  unfolding partial_match_def
proof (intro conjI allI impI)
  fix q assume "q < k"
  then have "i - k + q = i - j + (j - k + q)" "j - k + q < j" "p ! q = p ! (j - k + q)"
    using assms(1,4) by (auto simp: is_border_def)
  then show "t ! (i - k + q) = p ! q" using assms(2) by metis
qed (use assms in \<open>auto simp: is_border_def\<close>)

text \<open>An occurrence that overlaps a partial match gives a border of it.\<close>

lemma occurs_overlap:
  assumes "occurs_at p t k" "j \<le> i" "\<forall>q<j. t ! (i - j + q) = p ! q" "j \<le> length p" "i - j < k" "k < i"
  shows "is_border p j (i - k)"
  unfolding is_border_def
proof (intro conjI allI impI)
  fix q assume q: "q < i - k"
  have "p ! q = t ! (k + q)" using assms(1,4,5) q unfolding occurs_at_alt by auto
  moreover have "k + q = i - j + (j - (i - k) + q)" "j - (i - k) + q < j" using assms q by auto
  ultimately show "p ! q = p ! (j - (i - k) + q)" using assms(3) by metis
qed (use assms in auto)

lemma no_occ_to_border:
  assumes "j \<le> i" "\<forall>q<j. t ! (i - j + q) = p ! q" "j \<le> length p" "0 < j" "i - j < k" "k < i - longest_border p j"
  shows "\<not> occurs_at p t k"
  using occurs_overlap[of p t k j i] longest_border(2)[OF assms(4), of p "i - k"] assms by auto

theorem kmp_loop_first:
  assumes "borders_ok p tab (length p)" "partial_match p t i j"
  shows "kmp_loop t p tab i j = Some (okay (map_option
    (\<lambda>k. (k, k + length p, longest_border p (length p))) (first_occ p t (i - j))))"
  using assms(2)
proof (induction "2 * (length t - i) + j" arbitrary: i j rule: less_induct)
  case less
  have j: "j < length p" "j \<le> i" "\<forall>q<j. t ! (i - j + q) = p ! q" using less.prems by (auto simp: partial_match_def)
  then have p: "p \<noteq> []" by auto
  consider (stop) "length t \<le> i" | (full) "i < length t" "t ! i = p ! j" "j = length p - 1"
    | (hit) "i < length t" "t ! i = p ! j" "j \<noteq> length p - 1"
    | (shift) "i < length t" "t ! i \<noteq> p ! j" "0 < j" | (miss) "i < length t" "t ! i \<noteq> p ! j" "j = 0" by linarith
  then show ?case
  proof cases
    case stop
    then have "first_occ p t (i - j) = None" using j by (intro first_occ_none) (auto simp: occurs_at_def)
    then show ?thesis using stop by (subst kmp_loop.simps) simp
  next
    case full
    have "t ! (i - j + q) = p ! q" if "q < length p" for q
    proof (cases "q = j")
      case True
      then show ?thesis using full j(2) by simp
    next
      case False
      then show ?thesis using that full j(3) by simp
    qed
    then have "occurs_at p t (i - j)" unfolding occurs_at_alt using full j(1,2) by auto
    moreover have "i - j + length p = Suc i" using full j p by (cases p) auto
    moreover have "tab ! j = longest_border p (length p)"
      using full j p borders_okD[OF assms(1), of "length p"] by simp
    moreover have "kmp_loop t p tab i j = Some (okay (Some (i - j, i + 1, tab ! j)))"
      using full(1,2,3) j(1) by (subst kmp_loop.simps) simp
    ultimately show ?thesis using first_occ_hit[OF _ p] by simp
  next
    case hit
    have "partial_match p t (Suc i) (Suc j)" using hit j by (auto simp: partial_match_def less_Suc_eq)
    moreover have "kmp_loop t p tab i j = kmp_loop t p tab (Suc i) (Suc j)"
      using hit j by (subst kmp_loop.simps) simp
    ultimately show ?thesis using less.hyps[of "Suc i" "Suc j"] hit by simp
  next
    case shift
    let ?j = "longest_border p j"
    have B: "is_border p j ?j" and l: "?j < j" using longest_border(1) longest_border_less shift by blast+
    have M: "partial_match p t i ?j" using partial_match_border j B by simp
    have "\<not> occurs_at p t k" if "i - j \<le> k \<and> k < i - ?j" for k
    proof (cases "k = i - j")
      case True
      then show ?thesis using shift j by (auto simp: occurs_at_alt)
    next
      case False
      then show ?thesis using no_occ_to_border[of j i t p k] j shift that by auto
    qed
    then have "first_occ p t (i - j) = first_occ p t (i - ?j)" using l by (intro first_occ_skip) auto
    moreover have "kmp_loop t p tab i j = kmp_loop t p tab i ?j"
      using shift j borders_okD[OF assms(1), of j] by (subst kmp_loop.simps) simp
    ultimately show ?thesis using less.hyps[of i ?j] M l by simp
  next
    case miss
    have "\<not> occurs_at p t i" using miss j by (auto simp: occurs_at_alt)
    then have "first_occ p t i = first_occ p t (Suc i)" by (intro first_occ_skip) (auto simp: less_Suc_eq)
    moreover have "kmp_loop t p tab i j = kmp_loop t p tab (Suc i) j"
      using miss j by (subst kmp_loop.simps) simp
    moreover have "partial_match p t (Suc i) j" using miss p by (simp add: partial_match_def)
    ultimately show ?thesis using less.hyps[of "Suc i" j] miss by simp
  qed
qed

end
