(* ===== verification/StringProps.thy ===== *)
theory StringProps
  imports StringSpec
begin

unbundle bit_operations_syntax

text \<open>
  The string functions of \<^verbatim>\<open>Strings\<close> against what they promise: the search against the
  occurrences of the pattern, \<open>string/split\<close> against \<open>string/join\<close>,
  \<open>string/replace-all\<close> against the leftmost replacement, the byte set of
  \<open>string/check-set\<close> and the edges of \<open>string/trim\<close>.
\<close>

subsection \<open>The search with its state\<close>

definition search_ok :: "bytes \<Rightarrow> bytes \<Rightarrow> kmp_state \<Rightarrow> bool" where
  "search_ok p t s = (ktext s = t \<and> kpat s = p \<and> borders_ok p (klookup s) (length p) \<and> partial_match p t (ki s) (kj s))"

lemma search_ok_nonempty: "search_ok p t s \<Longrightarrow> p \<noteq> []"
  by (auto simp: search_ok_def partial_match_def)

lemma kmp_init_search:
  assumes "p \<noteq> []"
  obtains s where "kmp_init t p = Some (okay s)" "\<And>start. search_ok p t (s\<lparr>ki := start\<rparr>)" "kj s = 0"
  using kmp_init_ok[OF assms, of t] assms by (auto simp: search_ok_def partial_match_0)

lemma kmp_next_none:
  "search_ok p t s \<Longrightarrow> first_occ p t (ki s - kj s) = None \<Longrightarrow> kmp_next s = Some (okay (None, s))"
  by (simp add: kmp_next_def search_ok_def kmp_loop_first andloop_simps)

text \<open>After a match the search goes on past it, less the longest border of the pattern.\<close>

lemma kmp_next_some:
  assumes "search_ok p t s" "first_occ p t (ki s - kj s) = Some k"
  obtains s' where "kmp_next s = Some (okay (Some k, s'))" "search_ok p t s'" "k < length t"
    "k < ki s' - kj s'" "all_occ p t (ki s' - kj s') = all_occ p t (Suc k)"
    "ktext s' = t" "kpat s' = p" "\<And>i. search_ok p t (kmp_seti s' i)"
proof -
  let ?m = "length p" and ?b = "longest_border p (length p)"
  let ?s = "s\<lparr>ki := k + ?m, kj := ?b\<rparr>"
  have p: "p \<noteq> []" by (rule search_ok_nonempty[OF assms(1)])
  have b: "?b < ?m" "is_border p ?m ?b" using longest_border_less longest_border(1) p by auto
  have occ: "occurs_at p t k" using first_occ_someD[OF assms(2)] by blast
  have m: "\<forall>q<?m. t ! (k + ?m - ?m + q) = p ! q" using occ by (simp add: occurs_at_alt)
  have next1: "kmp_next s = Some (okay (Some k, ?s))"
    using assms by (simp add: kmp_next_def search_ok_def kmp_loop_first andloop_simps)
  have "partial_match p t (k + ?m) ?b" using partial_match_border[of ?m "k + ?m" t p ?b] m b by simp
  then have ok: "search_ok p t ?s" using assms(1) by (simp add: search_ok_def)
  have "\<not> occurs_at p t q" if "Suc k \<le> q \<and> q < k + ?m - ?b" for q
    using no_occ_to_border[of ?m "k + ?m" t p q] m p that by simp
  then have "all_occ p t (Suc k) = all_occ p t (k + ?m - ?b)" using b(1) by (intro all_occ_skip) auto
  moreover have "search_ok p t (kmp_seti ?s i)" for i
    using ok p by (simp add: search_ok_def kmp_seti_def partial_match_0)
  ultimately show thesis using next1 ok occurs_at_bound[OF occ p] b(1) assms(1)
    by (intro that[of ?s]) (auto simp: search_ok_def)
qed

lemma findall_loop_all:
  "search_ok p t s \<Longrightarrow> findall_loop s a = Some (okay (a @ map wrap_index (all_occ p t (ki s - kj s))))"
proof (induction "length t - (ki s - kj s)" arbitrary: s a rule: less_induct)
  case less
  have p: "p \<noteq> []" by (rule search_ok_nonempty[OF less.prems])
  show ?case
  proof (cases "first_occ p t (ki s - kj s)")
    case None
    then show ?thesis using kmp_next_none[OF less.prems None] p
      by (subst findall_loop.simps) (simp add: okay_def all_occ_first)
  next
    case (Some k)
    then have lo: "ki s - kj s \<le> k" using first_occ_someD by blast
    obtain s' where s': "kmp_next s = Some (okay (Some k, s'))" "search_ok p t s'" "k < length t"
      "k < ki s' - kj s'" "all_occ p t (ki s' - kj s') = all_occ p t (Suc k)"
      using kmp_next_some[OF less.prems Some] by metis
    have "findall_loop s' (a @ [wrap_index k])
        = Some (okay ((a @ [wrap_index k]) @ map wrap_index (all_occ p t (ki s' - kj s'))))"
      using s' lo by (intro less.hyps) auto
    then show ?thesis using s' Some p all_occ_first[OF p, of t "ki s - kj s"]
      by (subst findall_loop.simps) (simp add: okay_def)
  qed
qed

lemma findsetup_search:
  assumes "janet_bytes_view a = Some p" "janet_bytes_view b = Some t" "p \<noteq> []"
    "rest = [] \<and> start = 0 \<or> (\<exists>c cs. rest = c # cs \<and> int (length cs) \<le> extra \<and> janet_getinteger (a # b # rest) 2 = Inr (int start))"
    "0 \<le> extra"
  obtains s where "findsetup (a # b # rest) extra = Some (okay s)" "search_ok p t s" "ki s = start" "kj s = 0"
proof -
  obtain s where s: "kmp_init t p = Some (okay s)" "\<And>start. search_ok p t (s\<lparr>ki := start\<rparr>)" "kj s = 0"
    using kmp_init_search[OF assms(3)] by metis
  have "janet_getbytes (a # b # rest) 0 = Inr p" "janet_getbytes (a # b # rest) (Suc 0) = Inr t"
    using assms(1,2) by (simp_all add: janet_getbytes_def)
  then have "findsetup (a # b # rest) extra = Some (okay (s\<lparr>ki := start\<rparr>))"
    using assms(4,5) s(1) by (auto simp: findsetup_def run_simps arity_ok nonneg_start_def)
  then show thesis using s by (intro that[of "s\<lparr>ki := start\<rparr>"]) auto
qed

text \<open>\<open>string/find\<close> ends and returns the first index from the start index on where the
  pattern occurs, or nil: the search by the table gives what comparing at every index gives.
\<close>

theorem string_find_first:
  assumes "janet_bytes_view a = Some p" "janet_bytes_view b = Some t" "p \<noteq> []"
    "janet_getinteger [a, b, c] 2 = Inr (int start)"
  shows "cfun_string_find [a, b, c] = Some (okay (case first_occ p t start of None \<Rightarrow> JNil | Some k \<Rightarrow> wrap_index k))"
proof -
  obtain s where s: "findsetup [a, b, c] 0 = Some (okay s)" "search_ok p t s" "ki s = start" "kj s = 0"
    using findsetup_search[OF assms(1,2,3), of "[c]" start 0] assms(4) by auto
  show ?thesis
  proof (cases "first_occ p t start")
    case None
    then show ?thesis using kmp_next_none[OF s(2)] s by (simp add: cfun_string_find_def run_simps)
  next
    case (Some k)
    then obtain s' where "kmp_next s = Some (okay (Some k, s'))" using kmp_next_some[OF s(2), of k] s by auto
    then show ?thesis using s Some by (simp add: cfun_string_find_def run_simps)
  qed
qed

theorem string_find_first_witness:
  "cfun_string_find [JString [97, 98, 97, 99], JString [97, 98, 97, 98, 97, 99], JNumber (double_of_int 1)]
     = Some (okay (wrap_index 2))"
proof -
  have "janet_getinteger [JString [97, 98, 97, 99], JString [97, 98, 97, 98, 97, 99], JNumber (double_of_int 1)] 2
      = Inr (int 1)" by code_simp
  from string_find_first[OF _ _ _ this, of "[97, 98, 97, 99]" "[97, 98, 97, 98, 97, 99]"]
  show ?thesis by (simp add: janet_bytes_view_def first_occ_def occurs_at_def upt_rec eval_nat_numeral)
qed

text \<open>C39. \<open>string/find-all\<close> ends and returns every index from the start index on where the pattern
  occurs, overlapping occurrences included, in order.
\<close>

theorem string_find_all:
  assumes "janet_bytes_view a = Some p" "janet_bytes_view b = Some t" "p \<noteq> []"
    "janet_getinteger [a, b, c] 2 = Inr (int start)"
  shows "cfun_string_findall [a, b, c] = Some (okay (JArray (map wrap_index (all_occ p t start))))"
proof -
  obtain s where s: "findsetup [a, b, c] 0 = Some (okay s)" "search_ok p t s" "ki s = start" "kj s = 0"
    using findsetup_search[OF assms(1,2,3), of "[c]" start 0] assms(4) by auto
  then show ?thesis using findall_loop_all[OF s(2), of "[]"] by (simp add: cfun_string_findall_def run_simps)
qed

theorem string_find_all_witness:
  "cfun_string_findall [JString [97, 97], JString [97, 97, 97, 98, 97, 97], JNumber (double_of_int 0)]
     = Some (okay (JArray (map wrap_index [0, 1, 4])))"
proof -
  have "janet_getinteger [JString [97, 97], JString [97, 97, 97, 98, 97, 97], JNumber (double_of_int 0)] 2 = Inr (int 0)"
    by code_simp
  from string_find_all[OF _ _ _ this, of "[97, 97]" "[97, 97, 97, 98, 97, 97]"]
  show ?thesis by (simp add: janet_bytes_view_def all_occ_def occurs_at_def upt_rec eval_nat_numeral)
qed

subsection \<open>Splitting and joining\<close>

text \<open>The text from \<open>lst\<close> on, cut at most \<open>m\<close> times at the occurrences from
  \<open>from\<close> on that do not overlap.\<close>

fun pieces :: "bytes \<Rightarrow> bytes \<Rightarrow> nat \<Rightarrow> nat \<Rightarrow> nat \<Rightarrow> bytes list" where
  "pieces p t lst from 0 = [drop lst t]"
| "pieces p t lst from (Suc m) = (case first_occ p t from of
     None \<Rightarrow> [drop lst t]
   | Some k \<Rightarrow> take (k - lst) (drop lst t) # pieces p t (k + length p) (k + length p) m)"

lemma pieces_nonempty [simp]: "pieces p t lst from m \<noteq> []"
  by (cases m) (simp_all split: option.splits)

lemma join_bytes_Cons: "cs \<noteq> [] \<Longrightarrow> join_bytes j (c # cs) = c @ j @ join_bytes j cs"
  by (cases cs) simp_all

lemma drop_at_occurrence:
  "occurs_at p t k \<Longrightarrow> lst \<le> k \<Longrightarrow> take (k - lst) (drop lst t) @ p @ drop (k + length p) t = drop lst t"
  unfolding occurs_at_def by (metis append_take_drop_id drop_drop add.commute ordered_cancel_comm_monoid_diff_class.diff_add)

lemma join_pieces: "lst \<le> from \<Longrightarrow> join_bytes p (pieces p t lst from m) = drop lst t"
proof (induction m arbitrary: lst "from")
  case (Suc m)
  show ?case
  proof (cases "first_occ p t from")
    case (Some k)
    note D = first_occ_someD[OF Some]
    then show ?thesis using Suc drop_at_occurrence[OF D(2), of lst] Some by (simp add: join_bytes_Cons)
  qed simp
qed simp

text \<open>How many cuts a limit allows: one less than the limit, or as many as there may be.\<close>

definition cuts_ok :: "bytes \<Rightarrow> nat \<Rightarrow> int \<Rightarrow> nat \<Rightarrow> bool" where
  "cuts_ok t from limit m = (if limit > 0 then int m = limit - 1
     else length t \<le> from + m \<and> INT32_MIN + int (length t - from) \<le> limit)"

lemma split_loop_pieces:
  "search_ok p t s \<Longrightarrow> kj s = 0 \<Longrightarrow> cuts_ok t (ki s) limit m \<Longrightarrow>
   \<exists>a' l. split_loop s limit a lst = Some (okay (a', l))
     \<and> a' @ [JString (drop l t)] = a @ map JString (pieces p t lst (ki s) m)"
proof (induction m arbitrary: s limit a lst)
  case 0
  show ?case
  proof (cases "first_occ p t (ki s)")
    case None
    then show ?thesis using kmp_next_none[OF 0(1)] 0(2) by (subst split_loop.simps) (simp add: okay_def)
  next
    case (Some k)
    then have "ki s \<le> k" "k < length t"
      using first_occ_someD occurs_at_bound search_ok_nonempty[OF 0(1)] by blast+
    then have "limit = 1" using 0(3) by (auto simp: cuts_ok_def split: if_splits)
    moreover obtain s' where "kmp_next s = Some (okay (Some k, s'))"
      by (rule kmp_next_some[OF 0(1), of k]) (use 0(2) Some in auto)
    ultimately show ?thesis by (subst split_loop.simps) (simp add: okay_def)
  qed
next
  case (Suc m)
  show ?case
  proof (cases "first_occ p t (ki s)")
    case None
    then show ?thesis using kmp_next_none[OF Suc.prems(1)] Suc.prems(2)
      by (subst split_loop.simps) (simp add: okay_def)
  next
    case (Some k)
    have p: "p \<noteq> []" by (rule search_ok_nonempty[OF Suc.prems(1)])
    have k: "ki s \<le> k" "k < length t" using first_occ_someD[OF Some] occurs_at_bound p by blast+
    obtain s' where s': "kmp_next s = Some (okay (Some k, s'))" "\<And>i. search_ok p t (kmp_seti s' i)"
      "ktext s' = t" "kpat s' = p"
      using kmp_next_some[OF Suc.prems(1), of k] Suc.prems(2) Some by auto
    let ?s = "kmp_seti s' (k + length p)" and ?a = "a @ [JString (take (k - lst) (drop lst t))]"
    have st: "ki ?s = k + length p" "kj ?s = 0" "ktext s = t" "kpat s = p"
      using Suc.prems(1) by (simp_all add: kmp_seti_def search_ok_def)
    obtain q where q: "length p = Suc q" using p by (cases p) auto
    have lim: "limit \<noteq> INT32_MIN" "limit - 1 \<noteq> 0" and c: "cuts_ok t (ki ?s) (limit - 1) m"
      using Suc.prems(3) k q st(1) by (auto simp: cuts_ok_def Suc_le_eq split: if_splits)
    have "split_loop s limit a lst = split_loop ?s (limit - 1) ?a (k + length p)"
      using s' lim st by (subst split_loop.simps) (simp add: okay_def)
    then show ?thesis using Suc.IH[OF s'(2) st(2) c, of ?a "k + length p"] st(1) Some by simp
  qed
qed

lemma check_parts_strings:
  "fl + int ((if i \<noteq> 0 \<and> cs \<noteq> [] then length j else 0) + length (join_bytes j cs)) \<le> INT32_MAX
   \<Longrightarrow> check_parts (map JString cs) i j fl = okay cs"
proof (induction cs arbitrary: i fl)
  case (Cons c cs)
  have "fl + (if i \<noteq> 0 then int (length j) else 0) + int (length c)
      + int ((if Suc i \<noteq> 0 \<and> cs \<noteq> [] then length j else 0) + length (join_bytes j cs)) \<le> INT32_MAX"
    using Cons.prems by (cases cs) (auto simp: join_bytes_Cons split: if_splits)
  from Cons.IH[OF this] this show ?case by (simp add: janet_bytes_view_def run_simps Let_def)
qed simp

lemma string_split_pieces:
  assumes "janet_bytes_view a = Some p" "janet_bytes_view b = Some t" "p \<noteq> []"
    "rest = [] \<and> start = 0 \<and> limit = - 1 \<or> (\<exists>c. rest = [c] \<and> janet_getinteger [a, b, c] 2 = Inr (int start) \<and> limit = - 1)
     \<or> (\<exists>c d. rest = [c, d] \<and> janet_getinteger [a, b, c, d] 2 = Inr (int start) \<and> janet_getinteger [a, b, c, d] 3 = Inr limit)"
    "cuts_ok t start limit m"
  shows "cfun_string_split (a # b # rest) = Some (okay (JArray (map JString (pieces p t 0 start m))))"
proof -
  have "rest = [] \<and> start = 0 \<or> (\<exists>c cs. rest = c # cs \<and> int (length cs) \<le> 1 \<and> janet_getinteger (a # b # rest) 2 = Inr (int start))"
    using assms(4) by auto
  then obtain s where s: "findsetup (a # b # rest) 1 = Some (okay s)" "search_ok p t s" "ki s = start" "kj s = 0"
    using findsetup_search[OF assms(1,2,3), of rest start 1] by auto
  obtain a' l where L: "split_loop s limit [] 0 = Some (okay (a', l))"
    "a' @ [JString (drop l t)] = [] @ map JString (pieces p t 0 (ki s) m)"
    using split_loop_pieces[OF s(2) s(4), of limit m "[]" 0] assms(5) s(3) by auto
  have "(if length (a # b # rest) = 4 then checks (janet_getinteger (a # b # rest) 3) else okay (-1)) = okay limit"
    using assms(4) by (auto simp: run_simps okay_def checks_def)
  then show ?thesis using s L by (simp add: cfun_string_split_def run_simps search_ok_def)
qed

text \<open>C40. \<open>string/split\<close> with a delimiter that is not empty ends, and
  \<open>string/join\<close> with the same delimiter puts the text together again, for a text of any length
  a string can have.\<close>

theorem string_split_join:
  assumes "janet_bytes_view a = Some p" "janet_bytes_view b = Some t" "p \<noteq> []" "int (length t) \<le> INT32_MAX"
  shows "\<exists>parts. cfun_string_split [a, b] = Some (okay parts) \<and> cfun_string_join [parts, a] = okay (JString t)"
proof -
  let ?ps = "pieces p t 0 0 (length t)"
  have "cuts_ok t 0 (-1) (length t)" using assms(4) by (simp add: cuts_ok_def)
  then have "cfun_string_split [a, b] = Some (okay (JArray (map JString ?ps)))"
    using string_split_pieces[OF assms(1,2,3), of "[]" 0 "-1" "length t"] by simp
  moreover have "join_bytes p ?ps = t" using join_pieces[of 0 0] by simp
  moreover have "check_parts (map JString ?ps) 0 p 0 = okay ?ps"
    using check_parts_strings[of 0 0 ?ps p] assms(4) calculation(2) by simp
  ultimately show ?thesis using assms(1)
    by (simp add: cfun_string_join_def janet_getindexed_def janet_indexed_view_def janet_getbytes_def run_simps)
qed

theorem string_split_join_witness:
  "\<exists>parts. cfun_string_split [JString [44], JString [97, 44, 44, 98]] = Some (okay parts)
     \<and> cfun_string_join [parts, JString [44]] = okay (JString [97, 44, 44, 98])"
  by (rule string_split_join[of _ "[44]"]) (simp_all add: janet_bytes_view_def)

text \<open>
  With a limit of at least one \<open>string/split\<close> gives at most that many pieces, the last
  with the rest of the text; a limit of zero bounds nothing.
\<close>

theorem string_split_limit:
  assumes "janet_bytes_view a = Some p" "janet_bytes_view b = Some t" "p \<noteq> []" "int (length t) \<le> INT32_MAX"
    "janet_getinteger [a, b, c, d] 2 = Inr (int start)" "janet_getinteger [a, b, c, d] 3 = Inr (int n)"
  shows "cfun_string_split [a, b, c, d]
      = Some (okay (JArray (map JString (pieces p t 0 start (if n = 0 then length t else n - 1)))))
    \<and> (n = 0 \<or> length (pieces p t 0 start (n - 1)) \<le> n)"
proof -
  have "cuts_ok t start (int n) (if n = 0 then length t else n - 1)"
    using assms(4) by (auto simp: cuts_ok_def)
  then have "cfun_string_split [a, b, c, d]
    = Some (okay (JArray (map JString (pieces p t 0 start (if n = 0 then length t else n - 1)))))"
    using string_split_pieces[OF assms(1,2,3), of "[c, d]" start "int n"] assms(5,6) by blast
  moreover have "length (pieces p t lst from m) \<le> Suc m" for lst "from" m
    by (induction m arbitrary: lst "from") (auto split: option.splits)
  from this[of 0 start "n - 1"] have "n = 0 \<or> length (pieces p t 0 start (n - 1)) \<le> n" by auto
  ultimately show ?thesis ..
qed

theorem string_split_limit_witness:
  "cfun_string_split [JString [44], JString [97, 44, 44, 98], JNumber (double_of_int 0), JNumber (double_of_int 2)]
     = Some (okay (JArray [JString [97], JString [44, 98]]))"
proof -
  have "janet_getinteger [JString [44], JString [97, 44, 44, 98], JNumber (double_of_int 0), JNumber (double_of_int 2)] 2 = Inr (int 0)"
    "janet_getinteger [JString [44], JString [97, 44, 44, 98], JNumber (double_of_int 0), JNumber (double_of_int 2)] 3 = Inr (int 2)"
    by code_simp+
  moreover have "pieces [44] [97, 44, 44, 98] 0 0 (2 - 1) = [[97], [44, 98]]" by code_simp
  ultimately show ?thesis using string_split_limit[of "JString [44]" "[44]" "JString [97, 44, 44, 98]" "[97, 44, 44, 98]"]
    by (simp add: janet_bytes_view_def)
qed

subsection \<open>Replacing\<close>

text \<open>The text from \<open>from\<close> on with the leftmost occurrences that do not overlap replaced,
  at most \<open>m\<close> of them.\<close>

fun replaced :: "bytes \<Rightarrow> bytes \<Rightarrow> bytes \<Rightarrow> nat \<Rightarrow> nat \<Rightarrow> nat \<Rightarrow> bytes" where
  "replaced p sb t lst from 0 = drop lst t"
| "replaced p sb t lst from (Suc m) = (case first_occ p t from of
     None \<Rightarrow> drop lst t
   | Some k \<Rightarrow> take (k - lst) (drop lst t) @ sb @ replaced p sb t (k + length p) (k + length p) m)"

text \<open>The loop's result with the rest of the text is the whole text, or the whole does not fit.\<close>

definition loop_gives :: "(bytes \<times> nat) run \<Rightarrow> bytes \<Rightarrow> bytes \<Rightarrow> bool" where
  "loop_gives r t whole = ((\<exists>b l. r = okay (b, l) \<and> b @ drop l t = whole)
     \<or> r = raises ''buffer overflow'' [] \<and> int (length whole) > INT32_MAX)"

lemma replaceall_loop_replaced:
  assumes "subst p = okay sb"
  shows "search_ok p t s \<Longrightarrow> kj s = 0 \<Longrightarrow> length t \<le> ki s + m \<Longrightarrow> int (length acc) \<le> INT32_MAX \<Longrightarrow>
   \<exists>r. replaceall_loop subst s acc lst = Some r \<and> loop_gives r t (acc @ replaced p sb t lst (ki s) m)"
proof (induction m arbitrary: s acc lst)
  case 0
  then have "first_occ p t (ki s) = None"
    using occurs_at_bound search_ok_nonempty[OF 0(1)] by (intro first_occ_none) fastforce
  then show ?case using kmp_next_none[OF 0(1)] 0(2) by (subst replaceall_loop.simps) (simp add: okay_def loop_gives_def)
next
  case (Suc m)
  show ?case
  proof (cases "first_occ p t (ki s)")
    case None
    then show ?thesis using kmp_next_none[OF Suc.prems(1)] Suc.prems(2)
      by (subst replaceall_loop.simps) (simp add: okay_def loop_gives_def)
  next
    case (Some k)
    have p: "length p \<noteq> 0" using search_ok_nonempty[OF Suc.prems(1)] by simp
    note D = first_occ_someD[OF Some]
    obtain s' where s': "kmp_next s = Some (okay (Some k, s'))" "\<And>i. search_ok p t (kmp_seti s' i)"
      by (rule kmp_next_some[OF Suc.prems(1), of k]) (use Suc.prems(2) Some in auto)
    let ?s = "kmp_seti s' (k + length p)" and ?b = "acc @ take (k - lst) (drop lst t) @ sb"
    have st: "ki ?s = k + length p" "kj ?s = 0" "ktext s = t" "kpat s = p"
      using Suc.prems(1) by (simp_all add: kmp_seti_def search_ok_def)
    have m: "take (length p) (drop k t) = p" using D(2) by (simp add: occurs_at_def)
    have l: "length t \<le> ki ?s + m" using Suc.prems(3) D(1) p st(1) by linarith
    have L: "replaceall_loop subst s acc lst = (if int (length ?b) > INT32_MAX
        then Some (raises ''buffer overflow'' []) else replaceall_loop subst ?s ?b (k + length p))"
      using s'(1) st m assms by (subst replaceall_loop.simps) (simp add: okay_def Let_def)
    show ?thesis
    proof (cases "int (length ?b) > INT32_MAX")
      case True
      then show ?thesis using L Some by (simp add: loop_gives_def)
    next
      case False
      then show ?thesis using Suc.IH[OF s'(2) st(2) l, of ?b "k + length p"] L Some st(1) by simp
    qed
  qed
qed

text \<open>\<open>string/replace-all\<close> ends and returns the text with the leftmost occurrences that do
  not overlap replaced, or panics, exactly when that text would not fit a string. The text put in is
  the one that \<open>janet_text_substitution\<close> gives for the pattern.
\<close>

theorem string_replace_all:
  assumes "janet_bytes_view a = Some p" "janet_bytes_view b = Some t" "p \<noteq> []"
    "janet_text_substitution call describe f p = okay sb"
  shows "cfun_string_replaceall call describe [a, f, b] =
    Some (if int (length (replaced p sb t 0 0 (length t))) > INT32_MAX then raises ''buffer overflow'' []
          else okay (JString (replaced p sb t 0 0 (length t))))"
proof -
  obtain s where s: "kmp_init t p = Some (okay s)" "\<And>start. search_ok p t (s\<lparr>ki := start\<rparr>)" "kj s = 0"
    using kmp_init_search[OF assms(3)] by metis
  have init: "replacesetup [a, f, b] = Some (okay (s\<lparr>ki := 0\<rparr>))"
    using s(1) assms(1,2) by (simp add: replacesetup_def run_simps arity_ok janet_getbytes_def)
  have t: "ktext s = t" using s(2)[of 0] by (simp add: search_ok_def)
  obtain r where r: "replaceall_loop (janet_text_substitution call describe f) (s\<lparr>ki := 0\<rparr>) [] 0 = Some r"
    "loop_gives r t (replaced p sb t 0 0 (length t))"
    using replaceall_loop_replaced[of "janet_text_substitution call describe f" p sb t "s\<lparr>ki := 0\<rparr>" "length t" "[]" 0]
      assms(4) s by auto
  from r(2) show ?thesis
    unfolding loop_gives_def
  proof (elim disjE exE conjE)
    fix b l assume "r = okay (b, l)" "b @ drop l t = replaced p sb t 0 0 (length t)"
    then show ?thesis using r(1) init t by (simp add: cfun_string_replaceall_def run_simps Let_def flip: \<open>b @ drop l t = _\<close>)
  next
    assume "r = raises ''buffer overflow'' []" "INT32_MAX < int (length (replaced p sb t 0 0 (length t)))"
    then show ?thesis using r(1) init by (simp add: cfun_string_replaceall_def run_simps raises_def okay_def andloop_def)
  qed
qed

theorem string_replace_all_witness:
  "cfun_string_replaceall (\<lambda>f argv. okay (JString [120])) (\<lambda>v. []) [JString [97, 97], JFunction 0, JString [97, 97, 97, 98]]
     = Some (okay (JString [120, 97, 98]))"
proof -
  have "replaced [97, 97] [120] [97, 97, 97, 98] 0 0 (length [97, 97, 97, 98 :: 8 word]) = [120, 97, 98]" by code_simp
  note R = this
  show ?thesis
    using string_replace_all[of "JString [97, 97]" "[97, 97]" "JString [97, 97, 97, 98]" "[97, 97, 97, 98]"
      "\<lambda>f argv. okay (JString [120])" "\<lambda>v. []" "JFunction 0" "[120]", unfolded R]
    by (simp add: janet_bytes_view_def janet_text_substitution_def to_byte_view_def run_simps)
qed

subsection \<open>The set of bytes\<close>

text \<open>The bytes that a set of eight words stands for.\<close>

definition bitset_of :: "32 word list \<Rightarrow> 8 word set" where
  "bitset_of bitset = {c. bit (bitset ! unat (drop_bit 5 c)) (unat (c AND 0x1F))}"

lemma byte_index: "unat (drop_bit 5 (c :: 8 word)) = unat c div 32" "unat (c AND 0x1F) = unat c mod 32"
proof -
  show "unat (drop_bit 5 c) = unat c div 32" by (subst unat_drop_bit_eq) (simp add: drop_bit_eq_div)
  have "c AND 0x1F = take_bit 5 c" by (simp add: take_bit_eq_mask mask_eq_exp_minus_1)
  then show "unat (c AND 0x1F) = unat c mod 32" by (simp only: unsigned_take_bit_eq) (simp add: take_bit_eq_mod)
qed

lemma byte_index_eq: "unat (c :: 8 word) div 32 = unat d div 32 \<Longrightarrow> unat c mod 32 = unat d mod 32 \<Longrightarrow> c = d"
  by (metis div_mult_mod_eq word_unat_eq_iff)

lemma byte_row: "unat (c :: 8 word) div 32 < 8"
proof -
  have "unat c < 2 ^ LENGTH(8)" by (rule unsigned_less)
  then show ?thesis by (simp add: div_less_iff_less_mult)
qed

lemma test_bit_mask: "n < 32 \<Longrightarrow> w AND push_bit n 1 \<noteq> 0 \<longleftrightarrow> bit (w :: 32 word) n"
  by (subst bit_eq_iff) (auto simp: bit_simps intro: bit_imp_le_length)

lemma bitset_of_populate: "bitset_of (populate set1) = set set1 \<and> length (populate set1) = 8"
proof (induction set1 rule: rev_induct)
  case Nil
  have "unat (drop_bit 5 (c :: 8 word)) < 8" for c using byte_row by (simp add: byte_index)
  then show ?case by (auto simp: populate_def bitset_of_def nth_replicate simp del: replicate.simps)
next
  case (snoc b xs)
  let ?bs = "populate xs" and ?i = "unat b div 32" and ?m = "unat b mod 32"
  have P: "populate (xs @ [b]) = ?bs[?i := ?bs ! ?i OR push_bit ?m 1]"
    by (simp add: populate_def Let_def byte_index)
  have "c \<in> bitset_of (populate (xs @ [b])) \<longleftrightarrow> c \<in> bitset_of ?bs \<or> c = b" for c
    using byte_row[of b] snoc byte_index_eq[of c b]
    by (auto simp: bitset_of_def P byte_index nth_list_update bit_simps)
  then show ?case using snoc P by auto
qed

text \<open>\<open>string/check-set\<close> answers whether every byte of the text is one of the set's: the
  256 bits kept in eight words are the set.
\<close>

theorem string_check_set:
  assumes "janet_bytes_view a = Some cs" "janet_bytes_view b = Some t"
  shows "cfun_string_checkset [a, b] = okay (JBool (set t \<subseteq> set cs))"
proof -
  have "populate cs ! unat (drop_bit 5 c) AND push_bit (unat (c AND 0x1F)) 1 \<noteq> 0 \<longleftrightarrow> c \<in> set cs" for c
  proof -
    have "unat (c AND 0x1F) < 32" by (simp add: byte_index)
    moreover have "c \<in> bitset_of (populate cs) \<longleftrightarrow> c \<in> set cs" using bitset_of_populate by simp
    ultimately show ?thesis unfolding bitset_of_def mem_Collect_eq using test_bit_mask by blast
  qed
  then show ?thesis using assms
    by (simp add: cfun_string_checkset_def on_two_def janet_getbytes_def janet_fixarity_def run_simps list_all_iff subset_eq)
qed

theorem string_check_set_witness:
  "cfun_string_checkset [JString [97, 255], JString [255, 255, 97]] = okay (JBool True)"
  using string_check_set[of "JString [97, 255]" "[97, 255]" "JString [255, 255, 97]" "[255, 255, 97]"]
  by (simp add: janet_bytes_view_def)

subsection \<open>Trimming\<close>

lemma find_upt:
  "find P [0..<n] = Some i \<Longrightarrow> i < n \<and> P i \<and> (\<forall>j<i. \<not> P j)"
  by (auto simp: find_Some_iff)

lemma find_upt_rev:
  "find P (rev [0..<n]) = Some i \<Longrightarrow> i < n \<and> P i \<and> (\<forall>j. i < j \<and> j < n \<longrightarrow> \<not> P j)"
proof (induction n)
  case (Suc n)
  then show ?case by (cases "P n") (auto simp: less_Suc_eq)
qed simp

lemma trim_edges:
  "trim_help_leftedge str cs \<le> length str \<and> (\<forall>j<trim_help_leftedge str cs. str ! j \<in> set cs)
   \<and> (trim_help_leftedge str cs < length str \<longrightarrow> str ! trim_help_leftedge str cs \<notin> set cs)"
  "trim_help_rightedge str cs \<le> length str \<and> (\<forall>j. trim_help_rightedge str cs \<le> j \<and> j < length str \<longrightarrow> str ! j \<in> set cs)
   \<and> (trim_help_rightedge str cs > 0 \<longrightarrow> str ! (trim_help_rightedge str cs - 1) \<notin> set cs)"
proof -
  have C: "trim_help_checkset cs x \<longleftrightarrow> x \<in> set cs" for x by (auto simp: trim_help_checkset_def list_ex_iff)
  show "trim_help_leftedge str cs \<le> length str \<and> (\<forall>j<trim_help_leftedge str cs. str ! j \<in> set cs)
   \<and> (trim_help_leftedge str cs < length str \<longrightarrow> str ! trim_help_leftedge str cs \<notin> set cs)"
    unfolding trim_help_leftedge_def C by (auto simp: find_None_iff dest!: find_upt split: option.splits)
  show "trim_help_rightedge str cs \<le> length str \<and> (\<forall>j. trim_help_rightedge str cs \<le> j \<and> j < length str \<longrightarrow> str ! j \<in> set cs)
   \<and> (trim_help_rightedge str cs > 0 \<longrightarrow> str ! (trim_help_rightedge str cs - 1) \<notin> set cs)"
    unfolding trim_help_rightedge_def C
    by (auto simp: find_None_iff Suc_le_eq dest!: find_upt_rev split: option.splits)
qed

text \<open>
  \<open>string/trim\<close> takes off both ends exactly the bytes of the set: what is left is the
  whole text between them, and neither begins nor ends with one of them.
\<close>

theorem string_trim_edges:
  assumes "janet_bytes_view a = Some t" "janet_bytes_view b = Some cs"
  shows "\<exists>xs ys zs. cfun_string_trim [a, b] = okay (JString ys) \<and> t = xs @ ys @ zs \<and> set xs \<subseteq> set cs \<and> set zs \<subseteq> set cs
    \<and> (ys = [] \<or> hd ys \<notin> set cs \<and> last ys \<notin> set cs)"
proof -
  let ?l = "trim_help_leftedge t cs" and ?r = "trim_help_rightedge t cs"
  note L = trim_edges(1)[of t cs] and R = trim_edges(2)[of t cs]
  have T: "cfun_string_trim [a, b] = okay (JString (take (?r - ?l) (drop ?l t)))"
    using assms by (simp add: cfun_string_trim_def trim_help_args_def janet_getbytes_def run_simps arity_ok Let_def)
  have xs: "set (take ?l t) \<subseteq> set cs" using L by (auto simp: in_set_conv_nth)
  show ?thesis
  proof (cases "?l < ?r")
    case True
    let ?ys = "take (?r - ?l) (drop ?l t)"
    have "t = take ?l t @ ?ys @ drop ?r t"
      using True by (metis append_take_drop_id drop_drop le_add_diff_inverse2 less_imp_le)
    moreover have "set (drop ?r t) \<subseteq> set cs" using R by (auto simp: in_set_conv_nth)
    moreover have "hd ?ys = t ! ?l" "last ?ys = t ! (?r - 1)" "?ys \<noteq> []"
      using True L R by (auto simp: hd_conv_nth last_conv_nth)
    moreover have "t ! ?l \<notin> set cs" "t ! (?r - 1) \<notin> set cs" using True L R by linarith+
    ultimately have "t = take ?l t @ ?ys @ drop ?r t \<and> set (take ?l t) \<subseteq> set cs \<and> set (drop ?r t) \<subseteq> set cs
      \<and> (?ys = [] \<or> hd ?ys \<notin> set cs \<and> last ?ys \<notin> set cs)" using xs by simp
    then show ?thesis using T by blast
  next
    case False
    then have "set (drop ?l t) \<subseteq> set cs" using R by (auto simp: in_set_conv_nth)
    moreover have "t = take ?l t @ [] @ drop ?l t" by simp
    ultimately show ?thesis using T xs False by (metis diff_is_0_eq' not_less take0)
  qed
qed

theorem string_trim_edges_witness:
  "\<exists>xs ys zs. cfun_string_trim [JString [32, 97, 32], JString [32]] = okay (JString ys) \<and> [32, 97, 32] = xs @ ys @ zs
    \<and> set xs \<subseteq> set [32] \<and> set zs \<subseteq> set [32] \<and> (ys = [] \<or> hd ys \<notin> set [32] \<and> last ys \<notin> set [32])"
  by (rule string_trim_edges) (simp_all add: janet_bytes_view_def)

end
