(* ===== verification/Compare.thy ===== *)
theory Compare
  imports Strings
begin

text \<open>
  \<open>janet_compare\<close> of \<^verbatim>\<open>src/core/value.c\<close> (amalg/janet.c) and the order it is: a
  comparison with three results whose laws are a locale, lifted from the elements to lists.
\<close>

subsection \<open>Comparisons\<close>

locale comparison =
  fixes c :: "'a \<Rightarrow> 'a \<Rightarrow> int" and A :: "'a set"
  assumes range: "x \<in> A \<Longrightarrow> y \<in> A \<Longrightarrow> c x y \<in> {- 1, 0, 1}"
    and flip: "x \<in> A \<Longrightarrow> y \<in> A \<Longrightarrow> c y x = - c x y"
    and trans: "x \<in> A \<Longrightarrow> y \<in> A \<Longrightarrow> z \<in> A \<Longrightarrow> c x y = 1 \<Longrightarrow> c y z = 1 \<Longrightarrow> c x z = 1"
    and same: "x \<in> A \<Longrightarrow> y \<in> A \<Longrightarrow> z \<in> A \<Longrightarrow> c x y = 0 \<Longrightarrow> c x z = c y z"

text \<open>The first difference decides, then the length.\<close>

fun lexcmp :: "('a \<Rightarrow> 'a \<Rightarrow> int) \<Rightarrow> 'a list \<Rightarrow> 'a list \<Rightarrow> int" where
  "lexcmp c [] [] = 0"
| "lexcmp c [] (y # ys) = - 1"
| "lexcmp c (x # xs) [] = 1"
| "lexcmp c (x # xs) (y # ys) = (let d = c x y in if d \<noteq> 0 then d else lexcmp c xs ys)"

lemma lexcmp_eq: "(\<And>x y. x \<in> set xs \<Longrightarrow> y \<in> set ys \<Longrightarrow> c x y = d x y) \<Longrightarrow> lexcmp c xs ys = lexcmp d xs ys"
  by (induction xs ys rule: list_induct2') (simp_all add: Let_def)

lemma lexcmp_cong [fundef_cong]:
  "xs = xs' \<Longrightarrow> ys = ys' \<Longrightarrow> (\<And>x y. x \<in> set xs' \<Longrightarrow> y \<in> set ys' \<Longrightarrow> c x y = d x y) \<Longrightarrow> lexcmp c xs ys = lexcmp d xs' ys'"
  using lexcmp_eq by metis

lemma lexcmp_zero: "lexcmp c xs ys = 0 \<longleftrightarrow> list_all2 (\<lambda>x y. c x y = 0) xs ys"
  by (induction xs ys rule: list_induct2') (auto simp: Let_def)

context comparison
begin

lemma refl0: "x \<in> A \<Longrightarrow> c x x = 0"
  using flip[of x x] by simp

lemma cases3:
  assumes "x \<in> A" "y \<in> A"
  obtains "c x y = 1" "c y x = - 1" | "c x y = 0" "c y x = 0" | "c x y = - 1" "c y x = 1"
  using range[OF assms] flip[OF assms] by auto

lemma lists_comparison: "comparison (lexcmp c) (lists A)"
proof
  show "lexcmp c xs ys \<in> {- 1, 0, 1}" if "xs \<in> lists A" "ys \<in> lists A" for xs ys
    using that
  proof (induction xs ys rule: list_induct2')
    case (4 x xs y ys)
    then show ?case using range[of x y] by (auto simp: Let_def)
  qed auto
  show "lexcmp c ys xs = - lexcmp c xs ys" if "xs \<in> lists A" "ys \<in> lists A" for xs ys
    using that
  proof (induction xs ys rule: list_induct2')
    case (4 x xs y ys)
    then show ?case using flip[of x y] by (auto simp: Let_def)
  qed auto
  show same_list: "lexcmp c xs zs = lexcmp c ys zs" if "xs \<in> lists A" "ys \<in> lists A" "zs \<in> lists A" "lexcmp c xs ys = 0"
    for xs ys zs
    using that
  proof (induction xs ys arbitrary: zs rule: list_induct2')
    case (4 x xs y ys)
    then have xy: "c x y = 0" "lexcmp c xs ys = 0" by (auto simp: Let_def split: if_splits)
    show ?case
    proof (cases zs)
      case (Cons z zs')
      then show ?thesis using 4 xy same[of x y z] by (auto simp: Let_def)
    qed simp
  qed auto
  show "lexcmp c xs zs = 1" if "xs \<in> lists A" "ys \<in> lists A" "zs \<in> lists A" "lexcmp c xs ys = 1" "lexcmp c ys zs = 1"
    for xs ys zs
    using that
  proof (induction xs ys arbitrary: zs rule: list_induct2')
    case (2 x xs)
    then show ?case by (cases zs) auto
  next
    case (4 x xs y ys)
    show ?case
    proof (cases zs)
      case Nil
      then show ?thesis by simp
    next
    case z: (Cons z zs')
    with 4 have A: "x \<in> A" "y \<in> A" "z \<in> A" by auto
    consider "c x y = 1" "c y z = 1" | "c x y = 1" "c y z = 0" | "c x y = 0" "c y z = 1"
      | "c x y = 0" "c y z = 0" "lexcmp c xs ys = 1" "lexcmp c ys zs' = 1"
      using 4(5,6) z range[OF A(1,2)] range[OF A(2,3)] by (auto simp: Let_def split: if_splits)
    then show ?thesis
    proof cases
      case 1
      then show ?thesis using trans[OF A] z by simp
    next
      case 2
      then have "c x z = 1" using same[OF A(2,3,1)] flip[OF A(1,2)] flip[OF A(1,3)] by simp
      then show ?thesis using z by simp
    next
      case 3
      then show ?thesis using same[OF A] z by simp
    next
      case 4
      then show ?thesis using same[OF A] z "4.IH" "4.prems" by auto
    qed
    qed
  qed auto
qed

end

definition lin_cmp :: "'a::linorder \<Rightarrow> 'a \<Rightarrow> int" where
  "lin_cmp x y = (if x = y then 0 else if x < y then - 1 else 1)"

lemma lin_cmp: "comparison lin_cmp A"
  by unfold_locales (auto simp: lin_cmp_def split: if_splits)

text \<open>A comparison through a function, and one that looks at a rank first.\<close>

lemma comparison_map:
  assumes "comparison d B" "\<And>x. x \<in> A \<Longrightarrow> g x \<in> B" "\<And>x y. x \<in> A \<Longrightarrow> y \<in> A \<Longrightarrow> c x y = d (g x) (g y)"
  shows "comparison c A"
proof -
  note d = comparison.range[OF assms(1)] comparison.flip[OF assms(1)] comparison.trans[OF assms(1)] comparison.same[OF assms(1)]
  show ?thesis
  proof
    fix x y assume "x \<in> A" "y \<in> A"
    then show "c x y \<in> {- 1, 0, 1}" "c y x = - c x y" using d(1,2) assms(2,3) by metis+
  next
    fix x y z assume "x \<in> A" "y \<in> A" "z \<in> A" "c x y = 1" "c y z = 1"
    then show "c x z = 1" using d(3) assms(2,3) by metis
  next
    fix x y z assume "x \<in> A" "y \<in> A" "z \<in> A" "c x y = 0"
    then show "c x z = c y z" using d(4) assms(2,3) by metis
  qed
qed

lemma comparison_subset: "comparison c A \<Longrightarrow> B \<subseteq> A \<Longrightarrow> comparison c B"
  by (rule comparison_map[where g = "\<lambda>x. x" and d = c and B = A]) auto

lemma comparison_rank:
  fixes f :: "'a \<Rightarrow> 'b::linorder"
  assumes ne: "\<And>x y. x \<in> A \<Longrightarrow> y \<in> A \<Longrightarrow> f x \<noteq> f y \<Longrightarrow> c x y = (if f x < f y then - 1 else 1)"
    and eq: "\<And>t. comparison c {x \<in> A. f x = t}"
  shows "comparison c A"
proof
  fix x y assume A: "x \<in> A" "y \<in> A"
  show "c x y \<in> {- 1, 0, 1}" "c y x = - c x y"
    using A ne[of x y] ne[of y x] comparison.range[OF eq, of x "f x" y] comparison.flip[OF eq, of x "f x" y]
    by (cases "f x = f y"; force)+
next
  fix x y z assume A: "x \<in> A" "y \<in> A" "z \<in> A" and xy: "c x y = 1" and yz: "c y z = 1"
  have "f y \<le> f x" "f z \<le> f y" using ne[OF A(1,2)] ne[OF A(2,3)] xy yz by (force split: if_splits)+
  then consider "f x = f y" "f y = f z" | "f z < f x" by fastforce
  then show "c x z = 1"
  proof cases
    case 1
    then show ?thesis using comparison.trans[OF eq, of x "f x" y z] A xy yz by simp
  next
    case 2
    then show ?thesis using ne[OF A(1,3)] by auto
  qed
next
  fix x y z assume A: "x \<in> A" "y \<in> A" "z \<in> A" and xy: "c x y = 0"
  have f: "f x = f y" using ne[OF A(1,2)] xy by (force split: if_splits)
  show "c x z = c y z"
  proof (cases "f z = f x")
    case True
    then show ?thesis using comparison.same[OF eq, of x "f x" y z] A xy f by simp
  next
    case False
    then show ?thesis using ne[OF A(1,3)] ne[OF A(2,3)] f by simp
  qed
qed

subsection \<open>Strings\<close>

definition byte_cmp :: "byte \<Rightarrow> byte \<Rightarrow> int" where
  "byte_cmp x y = lin_cmp x y"

interpretation byte_order: comparison byte_cmp UNIV
  by (rule comparison_map[OF lin_cmp[of UNIV], where g = id]) (simp_all add: byte_cmp_def)

interpretation string_order: comparison "lexcmp byte_cmp" "lists UNIV"
  by (rule byte_order.lists_comparison)

lemma janet_string_compare_lex: "janet_string_compare x y = lexcmp byte_cmp x y"
  by (induction x y rule: list_induct2')
    (auto simp: janet_string_compare_def byte_cmp_def lin_cmp_def Let_def split: if_splits)

subsection \<open>Values\<close>

text \<open>The order of the types is that of the enumeration.\<close>

instantiation jtype :: linorder
begin

fun type_number :: "jtype \<Rightarrow> nat" where
  "type_number JANET_NUMBER = 0"
| "type_number JANET_NIL = 1"
| "type_number JANET_BOOLEAN = 2"
| "type_number JANET_FIBER = 3"
| "type_number JANET_STRING = 4"
| "type_number JANET_SYMBOL = 5"
| "type_number JANET_KEYWORD = 6"
| "type_number JANET_ARRAY = 7"
| "type_number JANET_TUPLE = 8"
| "type_number JANET_TABLE = 9"
| "type_number JANET_STRUCT = 10"
| "type_number JANET_BUFFER = 11"
| "type_number JANET_FUNCTION = 12"
| "type_number JANET_CFUNCTION = 13"
| "type_number JANET_ABSTRACT = 14"
| "type_number JANET_POINTER = 15"

definition less_eq_jtype :: "jtype \<Rightarrow> jtype \<Rightarrow> bool" where
  "less_eq_jtype s t = (type_number s \<le> type_number t)"

definition less_jtype :: "jtype \<Rightarrow> jtype \<Rightarrow> bool" where
  "less_jtype s t = (type_number s < type_number t)"

instance
proof
  fix s t :: jtype
  show "s \<le> t \<Longrightarrow> t \<le> s \<Longrightarrow> s = t" unfolding less_eq_jtype_def by (cases s; cases t) simp_all
qed (auto simp: less_eq_jtype_def less_jtype_def)

end

fun jv_type :: "jv \<Rightarrow> jtype" where
  "jv_type VNil = JANET_NIL"
| "jv_type (VBool _) = JANET_BOOLEAN"
| "jv_type (VNum _) = JANET_NUMBER"
| "jv_type (VStr _) = JANET_STRING"
| "jv_type (VSym _) = JANET_SYMBOL"
| "jv_type (VKey _) = JANET_KEYWORD"
| "jv_type (VTuple _ _) = JANET_TUPLE"
| "jv_type (VRef t _) = t"

definition dbl_lt :: "double \<Rightarrow> double \<Rightarrow> bool" where
  "dbl_lt a b = (case a of
     NaN _ \<Rightarrow> False
   | Infinity s \<Rightarrow> (case b of NaN _ \<Rightarrow> False | Infinity t \<Rightarrow> s \<and> \<not> t | Finite _ _ \<Rightarrow> s)
   | Finite s m \<Rightarrow> (case b of NaN _ \<Rightarrow> False | Infinity t \<Rightarrow> \<not> t
       | Finite t n \<Rightarrow> (if s then - m else m) < (if t then - n else n)))"

text \<open>Two abstract values without a comparison of their own: by the addresses of their types, then
  by their own. \<open>type_of\<close> is the first word of an abstract value's head.\<close>

definition janet_compare_abstract :: "(64 word \<Rightarrow> 64 word) \<Rightarrow> 64 word \<Rightarrow> 64 word \<Rightarrow> int" where
  "janet_compare_abstract type_of xx yy =
     (if xx = yy then 0
      else if type_of xx \<noteq> type_of yy then (if type_of xx > type_of yy then 1 else - 1)
      else if xx > yy then 1 else - 1)"

text \<open>The traversal stack visits the elements of tuples in order; a tuple that ends first is
  less.\<close>

fun janet_compare :: "(64 word \<Rightarrow> 64 word) \<Rightarrow> jv \<Rightarrow> jv \<Rightarrow> int" where
  "janet_compare type_of x y =
     (if jv_type x \<noteq> jv_type y then (if jv_type x < jv_type y then - 1 else 1)
      else case x of
        VNil \<Rightarrow> 0
      | VBool a \<Rightarrow> (case y of VBool b \<Rightarrow> of_bool a - of_bool b | _ \<Rightarrow> 0)
      | VNum xx \<Rightarrow> (case y of VNum yy \<Rightarrow> if dbl_eq xx yy then 0 else if dbl_lt xx yy then - 1 else 1 | _ \<Rightarrow> 0)
      | VStr a \<Rightarrow> (case y of VStr b \<Rightarrow> janet_string_compare a b | _ \<Rightarrow> 0)
      | VSym a \<Rightarrow> (case y of VSym b \<Rightarrow> janet_string_compare a b | _ \<Rightarrow> 0)
      | VKey a \<Rightarrow> (case y of VKey b \<Rightarrow> janet_string_compare a b | _ \<Rightarrow> 0)
      | VTuple br xs \<Rightarrow> (case y of VTuple br2 ys \<Rightarrow>
          if br \<noteq> br2 then (if br then 1 else - 1) else lexcmp (janet_compare type_of) xs ys | _ \<Rightarrow> 0)
      | VRef t a \<Rightarrow> (case y of VRef _ b \<Rightarrow>
          if t = JANET_ABSTRACT then janet_compare_abstract type_of a b
          else if a = b then 0 else if a > b then 1 else - 1 | _ \<Rightarrow> 0))"

declare janet_compare.simps [simp del]


subsection \<open>The order of the values\<close>

text \<open>Values that can be compared: no NaN in them, and references have a type of reference.\<close>

fun comparable :: "jv \<Rightarrow> bool" where
  "comparable (VNum d) = (dbl_wf d \<and> \<not> isnan d)"
| "comparable (VTuple br xs) = (\<forall>x \<in> set xs. comparable x)"
| "comparable (VRef t a) = (t \<in> {JANET_FIBER, JANET_ARRAY, JANET_TABLE, JANET_BUFFER, JANET_FUNCTION,
     JANET_CFUNCTION, JANET_ABSTRACT, JANET_POINTER})"
| "comparable _ = True"

text \<open>A number as a position on a line.\<close>

definition dbl_place :: "double \<Rightarrow> int" where
  "dbl_place d = (case d of Finite s m \<Rightarrow> (if s then - m else m) | Infinity s \<Rightarrow> (if s then - (2 ^ 64) else 2 ^ 64) | NaN _ \<Rightarrow> 0)"

lemma compare_numbers:
  assumes "dbl_wf a" "dbl_wf b" "\<not> isnan a" "\<not> isnan b"
  shows "dbl_eq a b \<longleftrightarrow> dbl_place a = dbl_place b" "dbl_lt a b \<longleftrightarrow> dbl_place a < dbl_place b"
  using assms by (cases a; cases b; auto simp: dbl_wf_def isnan_def dbl_eq_def dbl_lt_def dbl_place_def)+

lemma comparison_abstract: "comparison (janet_compare_abstract type_of) A"
proof (rule comparison_rank[where f = type_of])
  fix t
  show "comparison (janet_compare_abstract type_of) {x \<in> A. type_of x = t}"
    by (rule comparison_map[OF lin_cmp[of UNIV], where g = id]) (auto simp: janet_compare_abstract_def lin_cmp_def)
qed (auto simp: janet_compare_abstract_def)

lemma comparable_type:
  assumes "comparable x"
  shows "jv_type x = JANET_NUMBER \<Longrightarrow> \<exists>d. x = VNum d \<and> dbl_wf d \<and> \<not> isnan d" "jv_type x = JANET_NIL \<Longrightarrow> x = VNil"
    "jv_type x = JANET_BOOLEAN \<Longrightarrow> \<exists>b. x = VBool b" "jv_type x = JANET_STRING \<Longrightarrow> \<exists>s. x = VStr s"
    "jv_type x = JANET_SYMBOL \<Longrightarrow> \<exists>s. x = VSym s" "jv_type x = JANET_KEYWORD \<Longrightarrow> \<exists>s. x = VKey s"
    "jv_type x = JANET_TUPLE \<Longrightarrow> \<exists>br xs. x = VTuple br xs"
    "jv_type x \<notin> {JANET_NUMBER, JANET_NIL, JANET_BOOLEAN, JANET_STRING, JANET_SYMBOL, JANET_KEYWORD, JANET_TUPLE}
     \<Longrightarrow> \<exists>a. x = VRef (jv_type x) a"
  using assms by (cases x; auto)+

lemma compare_simps [simp]:
  "janet_compare ty VNil VNil = 0"
  "janet_compare ty (VBool a) (VBool b) = lin_cmp a b"
  "janet_compare ty (VNum m) (VNum n) = (if dbl_eq m n then 0 else if dbl_lt m n then - 1 else 1)"
  "janet_compare ty (VStr s) (VStr t) = lexcmp byte_cmp s t"
  "janet_compare ty (VSym s) (VSym t) = lexcmp byte_cmp s t"
  "janet_compare ty (VKey s) (VKey t) = lexcmp byte_cmp s t"
  "janet_compare ty (VTuple br xs) (VTuple br2 ys)
     = (if br \<noteq> br2 then (if br then 1 else - 1) else lexcmp (janet_compare ty) xs ys)"
  "janet_compare ty (VRef r u) (VRef r v) = (if r = JANET_ABSTRACT then janet_compare_abstract ty u v else lin_cmp u v)"
  by (auto simp: janet_compare.simps janet_string_compare_lex lin_cmp_def)

lemma compare_types:
  "jv_type x \<noteq> jv_type y \<Longrightarrow> janet_compare ty x y = (if jv_type x < jv_type y then - 1 else 1)"
  by (simp add: janet_compare.simps)

lemma comparison_type:
  assumes "comparison (lexcmp (janet_compare type_of)) (lists B)"
    and "\<And>br xs. VTuple br xs \<in> A \<Longrightarrow> xs \<in> lists B" and "\<And>x. x \<in> A \<Longrightarrow> comparable x"
  shows "comparison (janet_compare type_of) {x \<in> A. jv_type x = t}"
proof -
  let ?A = "{x \<in> A. jv_type x = t}" and ?c = "janet_compare type_of"
  note ct = comparable_type[OF assms(3)]
  have str: "comparison (lexcmp byte_cmp) (lists UNIV)" by (rule byte_order.lists_comparison)
  have lin: "comparison ?c ?A" if K: "\<And>x. x \<in> ?A \<Longrightarrow> \<exists>d. P d \<and> x = K d"
    and C: "\<And>d e. P d \<Longrightarrow> P e \<Longrightarrow> ?c (K d) (K e) = cmp (g (K d)) (g (K e))" and M: "comparison cmp UNIV"
    for P and K :: "'x \<Rightarrow> jv" and cmp :: "'y \<Rightarrow> 'y \<Rightarrow> int" and g
  proof (rule comparison_map[OF M, where g = g])
    fix x y assume xy: "x \<in> ?A" "y \<in> ?A"
    obtain d e where "P d" "x = K d" "P e" "y = K e" using K[OF xy(1)] K[OF xy(2)] by auto
    then show "?c x y = cmp (g x) (g y)" using C by simp
  qed simp
  have ref: "comparison ?c ?A"
    if "t \<notin> {JANET_NUMBER, JANET_NIL, JANET_BOOLEAN, JANET_STRING, JANET_SYMBOL, JANET_KEYWORD, JANET_TUPLE}"
  proof -
    have R: "\<exists>d. True \<and> x = VRef t d" if "x \<in> ?A" for x using ct(8)[of x] that \<open>t \<notin> _\<close> by auto
    have "comparison (if t = JANET_ABSTRACT then janet_compare_abstract type_of else lin_cmp) UNIV"
      by (simp add: comparison_abstract lin_cmp)
    then show ?thesis by (rule lin[OF R, where g = "\<lambda>x. case x of VRef _ d \<Rightarrow> d | _ \<Rightarrow> 0", rotated 2]) simp_all
  qed
  show ?thesis
  proof (cases t)
    case JANET_NUMBER
    then show ?thesis using ct(1)
      by (intro lin[where P = "\<lambda>d. dbl_wf d \<and> \<not> isnan d" and K = VNum and g = "\<lambda>x. case x of VNum d \<Rightarrow> dbl_place d | _ \<Rightarrow> 0", OF _ _ lin_cmp])
        (auto simp: compare_numbers lin_cmp_def)
  next
    case JANET_NIL
    then show ?thesis using ct(2)
      by (intro lin[where P = "\<lambda>d. True" and K = "\<lambda>d :: nat. VNil" and g = "\<lambda>x. 0 :: nat", OF _ _ lin_cmp])
        (auto simp: lin_cmp_def)
  next
    case JANET_BOOLEAN
    then show ?thesis using ct(3)
      by (intro lin[where P = "\<lambda>d. True" and K = VBool and g = "\<lambda>x. x = VBool True", OF _ _ lin_cmp]) auto
  next
    case JANET_STRING
    then show ?thesis using ct(4) str
      by (intro lin[where P = "\<lambda>d. True" and K = VStr and g = "\<lambda>x. case x of VStr d \<Rightarrow> d | _ \<Rightarrow> []"]) auto
  next
    case JANET_SYMBOL
    then show ?thesis using ct(5) str
      by (intro lin[where P = "\<lambda>d. True" and K = VSym and g = "\<lambda>x. case x of VSym d \<Rightarrow> d | _ \<Rightarrow> []"]) auto
  next
    case JANET_KEYWORD
    then show ?thesis using ct(6) str
      by (intro lin[where P = "\<lambda>d. True" and K = VKey and g = "\<lambda>x. case x of VKey d \<Rightarrow> d | _ \<Rightarrow> []"]) auto
  next
    case JANET_TUPLE
    have tup: "\<exists>br xs. x = VTuple br xs \<and> xs \<in> lists B" if "x \<in> ?A" for x
      using ct(7)[of x] assms(2) that JANET_TUPLE by auto
    show ?thesis
    proof (rule comparison_rank[where f = "\<lambda>x. case x of VTuple br xs \<Rightarrow> br | _ \<Rightarrow> False"])
      fix b
      show "comparison ?c {x \<in> ?A. (case x of VTuple br xs \<Rightarrow> br | _ \<Rightarrow> False) = b}"
      proof (rule comparison_map[OF assms(1), where g = "\<lambda>x. case x of VTuple br xs \<Rightarrow> xs | _ \<Rightarrow> []"])
        fix x y assume xy: "x \<in> {x \<in> ?A. (case x of VTuple br xs \<Rightarrow> br | _ \<Rightarrow> False) = b}"
          "y \<in> {x \<in> ?A. (case x of VTuple br xs \<Rightarrow> br | _ \<Rightarrow> False) = b}"
        obtain br xs br2 ys where "x = VTuple br xs" "y = VTuple br2 ys" using tup[of x] tup[of y] xy by blast
        then show "?c x y = lexcmp ?c (case x of VTuple br xs \<Rightarrow> xs | _ \<Rightarrow> []) (case y of VTuple br xs \<Rightarrow> xs | _ \<Rightarrow> [])"
          using xy by simp
      qed (use tup in force)
    next
      fix x y assume xy: "x \<in> ?A" "y \<in> ?A"
        "(case x of VTuple br xs \<Rightarrow> br | _ \<Rightarrow> False) \<noteq> (case y of VTuple br xs \<Rightarrow> br | _ \<Rightarrow> False)"
      obtain br xs br2 ys where "x = VTuple br xs" "y = VTuple br2 ys" using tup[of x] tup[of y] xy by blast
      then show "?c x y = (if (case x of VTuple br xs \<Rightarrow> br | _ \<Rightarrow> False) < (case y of VTuple br xs \<Rightarrow> br | _ \<Rightarrow> False)
        then - 1 else 1)" using xy by simp
    qed
  qed (rule ref, simp)+
qed

lemma comparison_size: "comparison (janet_compare type_of) {k. comparable k \<and> size k < n}"
proof (induction n)
  case 0
  then show ?case by unfold_locales auto
next
  case (Suc n)
  let ?B = "{k. comparable k \<and> size k < n}" and ?A = "{k. comparable k \<and> size k < Suc n}"
  show ?case
  proof (rule comparison_rank[where f = jv_type])
    fix t
    show "comparison (janet_compare type_of) {x \<in> ?A. jv_type x = t}"
    proof (rule comparison_type[OF comparison.lists_comparison[OF Suc]])
      fix br xs assume x: "VTuple br xs \<in> ?A"
      have "size y < n" if "y \<in> set xs" for y
        using size_list_estimation'[OF that, of "size y" size] x by simp
      then show "xs \<in> lists ?B" using x by auto
    qed simp
  qed (rule compare_types)
qed

interpretation value_order: comparison "janet_compare type_of" "{k. comparable k}" for type_of
proof -
  note C = comparison_size[of type_of]
  show "comparison (janet_compare type_of) {k. comparable k}"
  proof
    fix x y z :: jv
    let ?n = "Suc (size x + size y + size z)"
    assume "x \<in> {k. comparable k}" "y \<in> {k. comparable k}"
    then have A: "x \<in> {k. comparable k \<and> size k < ?n}" "y \<in> {k. comparable k \<and> size k < ?n}" by auto
    show "janet_compare type_of x y \<in> {- 1, 0, 1}" "janet_compare type_of y x = - janet_compare type_of x y"
      by (rule comparison.range[OF C A] comparison.flip[OF C A])+
    assume "z \<in> {k. comparable k}"
    then have B: "z \<in> {k. comparable k \<and> size k < ?n}" by auto
    show "janet_compare type_of x y = 1 \<Longrightarrow> janet_compare type_of y z = 1 \<Longrightarrow> janet_compare type_of x z = 1"
      by (rule comparison.trans[OF C A B])
    show "janet_compare type_of x y = 0 \<Longrightarrow> janet_compare type_of x z = janet_compare type_of y z"
      by (rule comparison.same[OF C A B])
  qed
qed

lemma equals_types: "janet_equals x y \<Longrightarrow> jv_type x = jv_type y"
  by (cases x; cases y) auto

lemma lexcmp_bytes: "lexcmp byte_cmp s t = 0 \<longleftrightarrow> s = t"
  by (auto simp: lexcmp_zero byte_cmp_def lin_cmp_def list.rel_eq cong: if_cong split: if_splits)

lemma compare_equals: "comparable x \<Longrightarrow> comparable y \<Longrightarrow> janet_compare type_of x y = 0 \<longleftrightarrow> janet_equals x y"
proof (induction x arbitrary: y)
  case (VTuple br xs)
  show ?case
  proof (cases "jv_type y = JANET_TUPLE")
    case True
    then obtain br2 ys where y: "y = VTuple br2 ys" using comparable_type(7)[OF VTuple.prems(2)] by blast
    then have "list_all2 (\<lambda>x y. janet_compare type_of x y = 0) xs ys \<longleftrightarrow> list_all2 janet_equals xs ys"
      using VTuple.IH VTuple.prems by (auto simp: list_all2_conv_all_nth)
    then show ?thesis unfolding y janet_equals_tuple by (simp add: lexcmp_zero)
  next
    case False
    then show ?thesis using equals_types[of "VTuple br xs" y] compare_types[of "VTuple br xs" y] by (auto split: if_splits)
  qed
next
  case (VRef t a)
  show ?case
  proof (cases "jv_type y = t")
    case True
    then have "\<exists>b. y = VRef t b" using VRef by (cases y) auto
    then show ?thesis by (auto simp: janet_compare_abstract_def lin_cmp_def split: if_splits)
  next
    case False
    then show ?thesis using equals_types[of "VRef t a" y] compare_types[of "VRef t a" y] by (auto split: if_splits)
  qed
next
  case (VNum d)
  then show ?case using equals_types[of "VNum d" y] compare_types[of "VNum d" y] comparable_type(1)[of y]
    by (cases "jv_type y = JANET_NUMBER") (auto split: if_splits)
next
  case (VStr s)
  then show ?case using equals_types[of "VStr s" y] compare_types[of "VStr s" y] comparable_type(4)[of y]
    by (cases "jv_type y = JANET_STRING") (auto simp: lexcmp_bytes split: if_splits)
next
  case (VSym s)
  then show ?case using equals_types[of "VSym s" y] compare_types[of "VSym s" y] comparable_type(5)[of y]
    by (cases "jv_type y = JANET_SYMBOL") (auto simp: lexcmp_bytes split: if_splits)
next
  case (VKey s)
  then show ?case using equals_types[of "VKey s" y] compare_types[of "VKey s" y] comparable_type(6)[of y]
    by (cases "jv_type y = JANET_KEYWORD") (auto simp: lexcmp_bytes split: if_splits)
next
  case (VBool b)
  then show ?case using equals_types[of "VBool b" y] compare_types[of "VBool b" y] comparable_type(3)[of y]
    by (cases "jv_type y = JANET_BOOLEAN") (auto simp: lin_cmp_def split: if_splits)
next
  case VNil
  then show ?case using equals_types[of VNil y] compare_types[of VNil y] comparable_type(2)[of y]
    by (cases "jv_type y = JANET_NIL") (auto split: if_splits)
qed

text \<open>On the values modelled here (nil, booleans, numbers without NaN, strings, symbols, keywords,
  any nesting of tuples, and values compared by address, so neither structs nor abstract values whose
  type has a comparison of its own), \<open>janet_compare\<close> is a total order: its results are -1, 0
  and 1, swapping the arguments negates it, it is transitive, and it is 0 exactly for values that are
  equal by \<open>janet_equals\<close>.\<close>

theorem compare_total_order:
  assumes "comparable x" and "comparable y" and "comparable z"
  shows "janet_compare type_of x y \<in> {- 1, 0, 1} \<and> janet_compare type_of y x = - janet_compare type_of x y
    \<and> (janet_compare type_of x y \<le> 0 \<and> janet_compare type_of y z \<le> 0 \<longrightarrow> janet_compare type_of x z \<le> 0)
    \<and> (janet_compare type_of x y = 0 \<longleftrightarrow> janet_equals x y)"
proof -
  note A = assms[folded mem_Collect_eq[of _ comparable]]
  let ?c = "janet_compare type_of"
  have R: "?c x y \<in> {- 1, 0, 1}" "?c y x = - ?c x y" "?c y z \<in> {- 1, 0, 1}"
    using value_order.range[OF A(1,2)] value_order.flip[OF A(1,2)] value_order.range[OF A(2,3)] by auto
  have "?c x z \<le> 0" if T: "?c x y \<le> 0" "?c y z \<le> 0"
  proof (rule ccontr)
    assume "\<not> ?c x z \<le> 0"
    then have xz: "?c x z = 1" using value_order.range[OF A(1,3), of type_of] by auto
    consider "?c y x = 1" | "?c x y = 0" using R(1,2) T(1) by auto
    then show False
    proof cases
      case 1
      then show False using value_order.trans[OF A(2,1,3) 1 xz] T by simp
    next
      case 2
      then show False using value_order.same[OF A(1-3) 2] xz T by simp
    qed
  qed
  then show ?thesis using R compare_equals[OF assms(1,2), of type_of] by blast
qed


theorem compare_total_order_witness:
  "janet_compare (\<lambda>a. a) (VTuple False [VKey [97], VNum (Finite True 5)]) (VTuple False [VKey [97], VNil]) \<noteq> 0
   \<and> janet_compare (\<lambda>a. a) (VTuple False [VKey [97], VNil]) (VTuple False [VKey [97], VNum (Finite True 5)])
     = - janet_compare (\<lambda>a. a) (VTuple False [VKey [97], VNum (Finite True 5)]) (VTuple False [VKey [97], VNil])"
proof -
  let ?x = "VTuple False [VKey [97], VNum (Finite True 5)]" and ?y = "VTuple False [VKey [97], VNil]"
  have c: "comparable ?x" "comparable ?y" by (simp_all add: dbl_wf_def isnan_def)
  have "\<not> janet_equals ?x ?y" unfolding janet_equals_tuple by simp
  then show ?thesis using compare_total_order[OF c c(1), of "\<lambda>a. a"] by blast
qed

end
