(* ===== verification/Structs.thy ===== *)
theory Structs
  imports Table Compare
begin

unbundle bit_operations_syntax

text \<open>
  \<^verbatim>\<open>src/core/struct.c\<close> (amalg/janet.c): immutable dictionaries. They are built by
  insertions into a block of fixed size, in which an entry gives way to one that is further from its
  home slot or, at the same distance, comes first by hash and \<open>janet_compare\<close>. While a struct
  is built, its hash field counts the entries. \<open>type_of\<close> gives the type of an abstract value.
\<close>

datatype jstruct = JanetStruct
  (slength: int)
  (shash: int)
  (sdata: buckets)
  (sproto: "jstruct option")

definition scapacity :: "jstruct \<Rightarrow> nat" where
  "scapacity st = length (sdata st)"

definition janet_struct_begin :: "int \<Rightarrow> fault + jstruct" where
  "janet_struct_begin count =
     rbind (checked32 (2 * count)) (\<lambda>n.
     rbind (janet_tablen n) (\<lambda>c.
     rbind (if c < 0 then rbind (checked32 (count + 1)) janet_tablen else Inr c) (\<lambda>capacity.
       Inr (JanetStruct count 0 (janet_memalloc_empty (nat capacity)) None))))"

subsection \<open>Search\<close>

fun struct_scan :: "buckets \<Rightarrow> jv \<Rightarrow> nat list \<Rightarrow> fault + nat option" where
  "struct_scan kvs key [] = Inr None"
| "struct_scan kvs key (i # is) =
     (if i \<ge> length kvs then Inl OutOfBounds
      else if fst (kvs ! i) = VNil \<or> janet_equals (fst (kvs ! i)) key then Inr (Some i)
      else struct_scan kvs key is)"

definition janet_struct_find :: "jstruct \<Rightarrow> jv \<Rightarrow> fault + nat option" where
  "janet_struct_find st key = struct_scan (sdata st) key (probe (scapacity st) key)"

subsection \<open>Insertion\<close>

definition other_dist :: "nat \<Rightarrow> nat \<Rightarrow> nat \<Rightarrow> nat" where
  "other_dist cap i otherindex = unat ((word_of_nat (i + cap) - word_of_nat otherindex) AND (word_of_nat cap - 1 :: 32 word))"

text \<open>Whose slot it is: 1 for the new entry, -1 for the one there, 0 if they have the same key.\<close>

definition put_status ::
  "(64 word \<Rightarrow> 64 word) \<Rightarrow> nat \<Rightarrow> 32 word \<Rightarrow> jv \<Rightarrow> nat \<Rightarrow> 32 word \<Rightarrow> jv \<Rightarrow> int" where
  "put_status type_of d hash key od otherhash okey =
     (if d < od then - 1
      else if od < d then 1
      else if sint hash < sint otherhash then - 1
      else if sint otherhash < sint hash then 1
      else janet_compare type_of key okey)"

fun put_loop ::
  "(64 word \<Rightarrow> 64 word) \<Rightarrow> bool \<Rightarrow> nat \<Rightarrow> buckets \<Rightarrow> jv \<Rightarrow> jv \<Rightarrow> nat \<Rightarrow> 32 word \<Rightarrow> nat list \<Rightarrow> fault + buckets \<times> bool" where
  "put_loop type_of replace cap kvs key value d hash [] = Inr (kvs, False)"
| "put_loop type_of replace cap kvs key value d hash (i # is) =
     (if i \<ge> length kvs then Inl OutOfBounds else
      let kv = kvs ! i in
      if fst kv = VNil then Inr (kvs[i := (key, value)], True) else
      let otherhash = janet_hash (fst kv);
          otherindex = janet_maphash cap otherhash;
          od = other_dist cap i otherindex;
          status = put_status type_of d hash key od otherhash (fst kv)
      in if status = 1
         then put_loop type_of replace cap (kvs[i := (key, value)]) (fst kv) (snd kv) (od + 1) otherhash is
         else if status = 0 then Inr (if replace then kvs[i := (fst kv, value)] else kvs, False)
         else put_loop type_of replace cap kvs key value (d + 1) hash is)"

definition janet_struct_put_ext ::
  "(64 word \<Rightarrow> 64 word) \<Rightarrow> bool \<Rightarrow> jstruct \<Rightarrow> jv \<Rightarrow> jv \<Rightarrow> fault + jstruct" where
  "janet_struct_put_ext type_of replace st key value =
     (let cap = scapacity st; hash = janet_hash key in
      if key = VNil \<or> value = VNil then Inr st
      else if (case key of VNum d \<Rightarrow> isnan d | _ \<Rightarrow> False) then Inr st
      else if shash st = slength st then Inr st
      else rbind (put_loop type_of replace cap (sdata st) key value 0 hash (probe cap key)) (\<lambda>(kvs, added).
        Inr (JanetStruct (slength st) (if added then shash st + 1 else shash st) kvs (sproto st))))"

definition janet_struct_put :: "(64 word \<Rightarrow> 64 word) \<Rightarrow> jstruct \<Rightarrow> jv \<Rightarrow> jv \<Rightarrow> fault + jstruct" where
  "janet_struct_put type_of st key value = janet_struct_put_ext type_of True st key value"

subsection \<open>The end of building\<close>

text \<open>The pairs of a block into a struct being built, its empty slots left out.\<close>

fun put_all :: "(64 word \<Rightarrow> 64 word) \<Rightarrow> bool \<Rightarrow> buckets \<Rightarrow> jstruct \<Rightarrow> fault + jstruct" where
  "put_all type_of replace [] st = Inr st"
| "put_all type_of replace (kv # kvs) st =
     (if fst kv \<noteq> VNil
      then rbind (janet_struct_put_ext type_of replace st (fst kv) (snd kv)) (put_all type_of replace kvs)
      else put_all type_of replace kvs st)"

definition janet_kv_calchash :: "buckets \<Rightarrow> 32 word" where
  "janet_kv_calchash kvs =
     foldl (\<lambda>hash kv. janet_hash_mix (janet_hash_mix hash (janet_hash (fst kv))) (janet_hash (snd kv))) 33 kvs"

definition janet_struct_end :: "(64 word \<Rightarrow> 64 word) \<Rightarrow> jstruct \<Rightarrow> fault + jstruct" where
  "janet_struct_end type_of st =
     rbind (if shash st \<noteq> slength st
            then rbind (janet_struct_begin (shash st)) (\<lambda>newst.
                 rbind (put_all type_of True (sdata st) newst) (\<lambda>newst.
                 Inr (JanetStruct (slength newst) (shash newst) (sdata newst) (sproto st))))
            else Inr st) (\<lambda>st.
     let h = janet_kv_calchash (sdata st);
         hash = (case sproto st of None \<Rightarrow> h | Some p \<Rightarrow> h + 2654435761 * word_of_int (shash p))
     in Inr (JanetStruct (slength st) (sint hash) (sdata st) (sproto st)))"

subsection \<open>Reading\<close>

definition janet_struct_rawget :: "jstruct \<Rightarrow> jv \<Rightarrow> fault + jv" where
  "janet_struct_rawget st key =
     rbind (janet_struct_find st key) (\<lambda>kv. Inr (case kv of Some i \<Rightarrow> snd (sdata st ! i) | None \<Rightarrow> VNil))"

text \<open>The value and the struct of the chain it is in.\<close>

fun struct_get :: "nat \<Rightarrow> jstruct option \<Rightarrow> jv \<Rightarrow> fault + (jv \<times> jstruct) option" where
  "struct_get 0 st key = Inr None"
| "struct_get (Suc n) None key = Inr None"
| "struct_get (Suc n) (Some st) key =
     rbind (janet_struct_find st key) (\<lambda>kv.
       if kv \<noteq> None \<and> fst (sdata st ! the kv) \<noteq> VNil then Inr (Some (snd (sdata st ! the kv), st))
       else struct_get n (sproto st) key)"

definition janet_struct_get_ex :: "jstruct \<Rightarrow> jv \<Rightarrow> fault + jv \<times> jstruct option" where
  "janet_struct_get_ex st key =
     rbind (struct_get JANET_MAX_PROTO_DEPTH (Some st) key) (\<lambda>r.
       Inr (case r of None \<Rightarrow> (VNil, None) | Some (v, which) \<Rightarrow> (v, Some which)))"

definition janet_struct_get :: "jstruct \<Rightarrow> jv \<Rightarrow> fault + jv" where
  "janet_struct_get st key = rbind (janet_struct_get_ex st key) (\<lambda>(v, _). Inr v)"

definition janet_struct_to_table :: "jstruct \<Rightarrow> fault + table" where
  "janet_struct_to_table st =
     rbind (janet_table (int (scapacity st))) (\<lambda>table. janet_table_mergekv table (sdata st))"

subsection \<open>Native functions\<close>

text \<open>The arguments after the first, which is the prototype or nil, are keys and values.\<close>

fun put_args :: "(64 word \<Rightarrow> 64 word) \<Rightarrow> jv list \<Rightarrow> jstruct \<Rightarrow> fault + jstruct" where
  "put_args type_of (k # v # rest) st = rbind (janet_struct_put type_of st k v) (put_args type_of rest)"
| "put_args type_of _ st = Inr st"

definition cfun_struct_with_proto ::
  "(64 word \<Rightarrow> 64 word) \<Rightarrow> jstruct option \<Rightarrow> jv list \<Rightarrow> jstruct run" where
  "cfun_struct_with_proto type_of prototype args =
     (let argc = int (length args) + 1 in
      if argc mod 2 = 0 then raises ''expected odd number of arguments'' []
      else faults (rbind (janet_struct_begin (argc div 2)) (\<lambda>st.
             rbind (put_args type_of args st) (\<lambda>st.
             janet_struct_end type_of (JanetStruct (slength st) (shash st) (sdata st) prototype)))))"

definition cfun_struct_getproto :: "jstruct \<Rightarrow> jstruct option run" where
  "cfun_struct_getproto st = okay (sproto st)"

fun proto_chain :: "jstruct \<Rightarrow> jstruct list" where
  "proto_chain (JanetStruct l h d p) = JanetStruct l h d p # (case p of None \<Rightarrow> [] | Some q \<Rightarrow> proto_chain q)"

fun flatten_structs :: "(64 word \<Rightarrow> 64 word) \<Rightarrow> jstruct list \<Rightarrow> jstruct \<Rightarrow> fault + jstruct" where
  "flatten_structs type_of [] accum = Inr accum"
| "flatten_structs type_of (cursor # rest) accum =
     rbind (put_all type_of False (sdata cursor) accum) (flatten_structs type_of rest)"

definition cfun_struct_flatten :: "(64 word \<Rightarrow> 64 word) \<Rightarrow> jstruct \<Rightarrow> jstruct run" where
  "cfun_struct_flatten type_of st =
     (let pair_count = sum_list (map slength (proto_chain st)) in
      if pair_count > INT32_MAX then raises ''struct too large'' []
      else faults (rbind (janet_struct_begin pair_count) (\<lambda>accum.
             rbind (flatten_structs type_of (proto_chain st) accum) (janet_struct_end type_of))))"

text \<open>\<open>struct/to-table\<close>: the table and, if asked, the tables of its prototypes after it.\<close>

fun chain_tables :: "jstruct list \<Rightarrow> fault + table list" where
  "chain_tables [] = Inr []"
| "chain_tables (cursor # rest) =
     rbind (janet_table (slength cursor)) (\<lambda>tab.
     rbind (janet_table_mergekv tab (sdata cursor)) (\<lambda>tab.
     rbind (chain_tables rest) (\<lambda>tabs. Inr (tab # tabs))))"

definition cfun_struct_to_table :: "jstruct \<Rightarrow> bool \<Rightarrow> table list run" where
  "cfun_struct_to_table st recursive =
     faults (chain_tables (if recursive then proto_chain st else [st]))"

end
