(* ===== verification/RobinHood.thy ===== *)
theory RobinHood
  imports Prelude
begin

text \<open>
  Open addressing with linear probing in which an entry gives way to one that is further from its
  home, as the structs of the runtime use it. The theory is about keys in general: \<open>home\<close> is the
  slot a key belongs to, \<open>cmp\<close> the order that settles equal distances. It gives the meaning of
  an insertion, of a search, and the fact that the entries alone determine the layout.
\<close>

locale robin_hood =
  fixes n :: nat
    and home :: "'k \<Rightarrow> nat"
    and cmp :: "'k \<Rightarrow> 'k \<Rightarrow> int"
    and good :: "'k \<Rightarrow> bool"
  assumes home_less: "good k \<Longrightarrow> home k < n"
    and cmp_range: "good k \<Longrightarrow> good l \<Longrightarrow> cmp k l \<in> {- 1, 0, 1}"
    and cmp_flip: "good k \<Longrightarrow> good l \<Longrightarrow> cmp l k = - cmp k l"
    and cmp_trans: "good k \<Longrightarrow> good l \<Longrightarrow> good m \<Longrightarrow> cmp k l = 1 \<Longrightarrow> cmp l m = 1 \<Longrightarrow> cmp k m = 1"
    and cmp_same: "good k \<Longrightarrow> good l \<Longrightarrow> good m \<Longrightarrow> cmp k l = 0 \<Longrightarrow> cmp k m = cmp l m"
    and cmp_home: "good k \<Longrightarrow> good l \<Longrightarrow> cmp k l = 0 \<Longrightarrow> home k = home l"
begin

definition dist :: "nat \<Rightarrow> 'k \<Rightarrow> nat" where
  "dist i k = (i + n - home k) mod n"

definition slot :: "nat \<Rightarrow> nat \<Rightarrow> nat" where
  "slot h q = (h + q) mod n"

text \<open>The right to a slot at distances \<open>d\<close> and \<open>e\<close>.\<close>

definition beats :: "nat \<Rightarrow> 'k \<Rightarrow> nat \<Rightarrow> 'k \<Rightarrow> bool" where
  "beats d k e l = (d > e \<or> d = e \<and> cmp k l = 1)"

definition fits :: "('k \<times> 'v) option list \<Rightarrow> nat \<Rightarrow> 'k \<Rightarrow> bool" where
  "fits L i k = (dist i k = 0 \<or> (\<exists>l w. L ! slot (home k) (dist i k - 1) = Some (l, w)
     \<and> beats (dist (slot (home k) (dist i k - 1)) l) l (dist i k - 1) k))"

definition layout :: "('k \<times> 'v) option list \<Rightarrow> bool" where
  "layout L = (length L = n \<and> (\<forall>i<n. \<forall>k v. L ! i = Some (k, v) \<longrightarrow> good k \<and> fits L i k))"

definition entries :: "('k \<times> 'v) option list \<Rightarrow> ('k \<times> 'v) set" where
  "entries L = {e. Some e \<in> set L}"

subsection \<open>Slots on the circle\<close>

lemma dist_less: "0 < n \<Longrightarrow> dist i k < n"
  by (simp add: dist_def)

lemma slot_less: "0 < n \<Longrightarrow> slot h q < n"
  by (simp add: slot_def)

lemma slot_dist: "good k \<Longrightarrow> i < n \<Longrightarrow> slot (home k) (dist i k) = i"
proof -
  assume "good k" "i < n"
  then have "home k + (i + n - home k) = i + n" using home_less[of k] by simp
  then show "slot (home k) (dist i k) = i" using \<open>i < n\<close> unfolding slot_def dist_def mod_add_right_eq by simp
qed

lemma dist_slot: "good k \<Longrightarrow> q < n \<Longrightarrow> dist (slot (home k) q) k = q"
proof -
  assume k: "good k" "q < n"
  then have h: "home k < n" by (simp add: home_less)
  have "dist (slot (home k) q) k = (slot (home k) q + (n - home k)) mod n" using h by (simp add: dist_def)
  also have "\<dots> = (home k + q + (n - home k)) mod n" unfolding slot_def by (rule mod_add_left_eq)
  also have "home k + q + (n - home k) = q + n" using h by simp
  finally show ?thesis using k(2) by simp
qed

lemma slot_slot: "slot (slot h a) b = slot h (a + b)"
  by (simp add: slot_def mod_add_left_eq add.assoc)

lemma slot_0: "i < n \<Longrightarrow> slot i 0 = i"
  by (simp add: slot_def)

lemma slot_next: "good k \<Longrightarrow> i < n \<Longrightarrow> slot i b = slot (home k) (dist i k + b)"
  using slot_slot[of "home k" "dist i k" b] slot_dist by simp

lemma dist_next: "good k \<Longrightarrow> i < n \<Longrightarrow> dist i k + b < n \<Longrightarrow> dist (slot i b) k = dist i k + b"
  by (simp add: slot_next dist_slot)

lemma dist_eq_iff: "good k \<Longrightarrow> i < n \<Longrightarrow> j < n \<Longrightarrow> dist i k = dist j k \<longleftrightarrow> i = j"
  by (metis slot_dist)

subsection \<open>What lies between an entry and its home\<close>

lemma beats_trans:
  assumes "beats a k b l" "beats b l c m" "good k" "good l" "good m"
  shows "beats a k c m"
  using assms cmp_trans[of k l m] unfolding beats_def by auto

lemma beats_irrefl: "good k \<Longrightarrow> \<not> beats d k d k"
  using cmp_flip[of k k] by (auto simp: beats_def)

lemma beats_asym: "good k \<Longrightarrow> good l \<Longrightarrow> beats a k b l \<Longrightarrow> \<not> beats b l a k"
  using cmp_flip[of k l] by (auto simp: beats_def)

lemma beats_total:
  "good k \<Longrightarrow> good l \<Longrightarrow> \<not> beats a k b l \<Longrightarrow> \<not> beats b l a k \<Longrightarrow> a = b \<and> cmp k l = 0"
  using cmp_range[of k l] cmp_flip[of k l] by (auto simp: beats_def)

lemma layout_good: "layout L \<Longrightarrow> i < n \<Longrightarrow> L ! i = Some (k, v) \<Longrightarrow> good k \<and> fits L i k"
  by (simp add: layout_def)

lemma fitsD:
  "fits L i k \<Longrightarrow> 0 < dist i k \<Longrightarrow> \<exists>l w. L ! slot (home k) (dist i k - 1) = Some (l, w)
     \<and> beats (dist (slot (home k) (dist i k - 1)) l) l (dist i k - 1) k"
  by (simp add: fits_def)

text \<open>Every slot before it is taken by an entry with a better right to it.\<close>

lemma path:
  assumes L: "layout L" and k: "good k" "i < n" "fits L i k" and "q < dist i k"
  shows "\<exists>l w. L ! slot (home k) q = Some (l, w) \<and> good l \<and> beats (dist (slot (home k) q) l) l q k"
  using assms(5)
proof (induction "dist i k - 1 - q" arbitrary: q)
  case 0
  then have q: "q = dist i k - 1" "0 < dist i k" by auto
  have "0 < n" using k(2) by simp
  then show ?case using fitsD[OF k(3) q(2)] q(1) layout_good[OF L slot_less] by metis
next
  case (Suc x)
  then have q: "Suc q < dist i k" "x = dist i k - 1 - Suc q" by auto
  have n: "0 < n" using k(2) by simp
  let ?p = "slot (home k) (Suc q)" and ?r = "slot (home k) q"
  obtain l w where l: "L ! ?p = Some (l, w)" "good l" "beats (dist ?p l) l (Suc q) k"
    using Suc.hyps(1)[OF q(2,1)] by blast
  have d: "0 < dist ?p l" using l(3) by (auto simp: beats_def)
  have "slot ?r 1 = ?p" by (simp add: slot_slot)
  then have r: "slot (home l) (dist ?p l - 1) = ?r"
  proof -
    have "slot ?r 1 = slot (slot (home l) (dist ?p l - 1)) 1"
      using \<open>slot ?r 1 = ?p\<close> d slot_dist[OF l(2) slot_less[OF n]] by (simp add: slot_slot)
    then have "(?r + 1) mod n = (slot (home l) (dist ?p l - 1) + 1) mod n" by (simp add: slot_def)
    moreover have "?r < n" "slot (home l) (dist ?p l - 1) < n" using n slot_less by blast+
    ultimately show ?thesis by (auto simp: mod_Suc split: if_splits)
  qed
  obtain m u where m: "L ! ?r = Some (m, u)" "beats (dist ?r m) m (dist ?p l - 1) l"
    using fitsD[OF _ d, of L] layout_good[OF L slot_less[OF n] l(1)] r by auto
  have gm: "good m" using layout_good[OF L slot_less[OF n] m(1)] by simp
  have "beats (dist ?p l - 1) l q k" using l(3) d by (auto simp: beats_def)
  then show ?case using m(1) beats_trans[OF m(2) _ gm l(2) k(1)] gm by blast
qed

text \<open>So an empty slot is further away.\<close>

lemma empty_further:
  assumes "layout L" "good k" "i < n" "fits L i k" "z < n" "L ! z = None" "L ! i \<noteq> None"
  shows "dist i k < dist z k"
proof (rule ccontr)
  assume "\<not> dist i k < dist z k"
  then consider "dist z k < dist i k" | "dist z k = dist i k" by linarith
  then show False
  proof cases
    case 1
    then show False using path[OF assms(1-4) 1] slot_dist[OF assms(2,5)] assms(6) by auto
  next
    case 2
    then show False using dist_eq_iff[OF assms(2,3,5)] assms(6,7) by simp
  qed
qed

text \<open>No key occurs twice.\<close>

lemma entry_unique:
  assumes "layout L" "i < n" "j < n" "L ! i = Some (k, v)" "L ! j = Some (l, w)" "cmp k l = 0"
  shows "i = j"
proof -
  have *: "\<not> dist i k < dist j l" if "i < n" "j < n" "L ! i = Some (k, v)" "L ! j = Some (l, w)" "cmp k l = 0"
    for i j k v l w
  proof
    note T = that
    assume d: "dist i k < dist j l"
    have g: "good k" "good l" "fits L j l" using layout_good[OF assms(1)] that by blast+
    have h: "home k = home l" using cmp_home[OF g(1,2) that(5)] .
    obtain m u where m: "L ! slot (home l) (dist i k) = Some (m, u)" "beats (dist (slot (home l) (dist i k)) m) m (dist i k) l"
      using path[OF assms(1) g(2) T(2) g(3) d] by blast
    have "slot (home l) (dist i k) = i" using slot_dist[OF g(1) that(1)] h by simp
    then have "m = k" using m(1) that(3) by simp
    then show False using m(2) \<open>slot (home l) (dist i k) = i\<close> that(5) by (simp add: beats_def)
  qed
  have g: "good k" "good l" using layout_good[OF assms(1)] assms by blast+
  have "cmp l k = 0" using cmp_flip[OF g] assms(6) by simp
  then have "dist i k = dist j l" using *[OF assms(2-6)] *[OF assms(3,2,5,4)] by linarith
  moreover have "dist j l = dist j k" using cmp_home[OF g assms(6)] by (simp add: dist_def)
  ultimately show ?thesis using dist_eq_iff[OF g(1) assms(2,3)] by simp
qed

subsection \<open>Searching\<close>

text \<open>An entry is met on the way from the home of any equal key, and only keys that differ before it.\<close>

lemma search_hit:
  assumes "layout L" "i < n" "L ! i = Some (l, w)" "good k" "cmp k l = 0"
  shows "slot (home k) (dist i k) = i" and "dist i k < n"
    and "q < dist i k \<Longrightarrow> \<exists>m u. L ! slot (home k) q = Some (m, u) \<and> good m \<and> cmp k m \<noteq> 0
      \<and> beats (dist (slot (home k) q) m) m q k"
proof -
  have g: "good l" "fits L i l" using layout_good[OF assms(1-3)] by auto
  have h: "home k = home l" using cmp_home[OF assms(4) g(1) assms(5)] .
  then have d: "dist i k = dist i l" by (simp add: dist_def)
  show 1: "slot (home k) (dist i k) = i" using slot_dist[OF assms(4,2)] .
  show n: "dist i k < n" using assms(2) by (simp add: dist_less)
  assume q: "q < dist i k"
  then obtain m u where m: "L ! slot (home k) q = Some (m, u)" "good m" "beats (dist (slot (home k) q) m) m q l"
    using path[OF assms(1) g(1) assms(2) g(2), of q] h d by auto
  have cm: "cmp m k = cmp m l" "cmp k m = cmp l m"
    using cmp_same[OF assms(4) g(1) m(2) assms(5)] cmp_flip[OF assms(4) m(2)] cmp_flip[OF g(1) m(2)] by auto
  have "cmp l m \<noteq> 0"
  proof
    assume "cmp l m = 0"
    then have "i = slot (home k) q"
      using entry_unique[OF assms(1,2) _ assms(3) m(1)] slot_less assms(2) by auto
    then have "dist i k = q" using dist_slot[OF assms(4), of q] q n by simp
    then show False using q by simp
  qed
  then show "\<exists>m u. L ! slot (home k) q = Some (m, u) \<and> good m \<and> cmp k m \<noteq> 0 \<and> beats (dist (slot (home k) q) m) m q k"
    using m cm by (auto simp: beats_def)
qed

subsection \<open>Insertion\<close>

text \<open>The pass of an insertion over at most \<open>m\<close> slots, with the entry it carries; the result
  says whether a slot was filled.\<close>

fun put :: "bool \<Rightarrow> ('k \<times> 'v) option list \<Rightarrow> nat \<Rightarrow> nat \<Rightarrow> 'k \<Rightarrow> 'v \<Rightarrow> nat \<Rightarrow> (('k \<times> 'v) option list \<times> bool) option" where
  "put replace L i d k v 0 = None"
| "put replace L i d k v (Suc m) = (case L ! i of
     None \<Rightarrow> Some (L[i := Some (k, v)], True)
   | Some (l, w) \<Rightarrow>
      (if beats (dist i l) l d k then put replace L (slot i 1) (d + 1) k v m
       else if beats d k (dist i l) l then put replace (L[i := Some (k, v)]) (slot i 1) (dist i l + 1) l w m
       else Some (if replace then L[i := Some (l, v)] else L, False)))"

definition vacancies :: "('k \<times> 'v) option list \<Rightarrow> nat" where
  "vacancies L = card {i. i < n \<and> L ! i = None}"

lemma entries_iff: "layout L \<Longrightarrow> e \<in> entries L \<longleftrightarrow> (\<exists>i<n. L ! i = Some e)"
  by (auto simp: entries_def layout_def in_set_conv_nth)

text \<open>Setting a slot keeps the layout when the new entry fits and the next one still does.\<close>

lemma layout_set:
  assumes L: "layout L" and k: "good k" "i < n" "fits L i k"
    and after: "\<And>l w. L ! i = Some (l, w) \<Longrightarrow> l = k \<or> beats (dist i k) k (dist i l) l"
  shows "layout (L[i := Some (k, v)])"
proof -
  have n: "0 < n" "length L = n" using k(2) L by (auto simp: layout_def)
  let ?M = "L[i := Some (k, v)]"
  have "good m \<and> fits ?M j m" if j: "j < n" and m: "?M ! j = Some (m, u)" for j m u
  proof (cases "dist j m = 0")
    case True
    then show ?thesis using j m k(1) layout_good[OF L j] n by (cases "j = i") (auto simp: fits_def)
  next
    case False
    have gm: "good m" and fm: "fits L j m"
      using m k n j layout_good[OF L j] by (cases "j = i"; auto)+
    let ?p = "slot (home m) (dist j m - 1)"
    obtain x y where x: "L ! ?p = Some (x, y)" "beats (dist ?p x) x (dist j m - 1) m"
      using fitsD[OF fm] False by auto
    show ?thesis
    proof (cases "?p = i")
      case True
      have "beats (dist i k) k (dist j m - 1) m"
      proof (cases "x = k")
        case False
        then have "beats (dist i k) k (dist i x) x" using after[of x y] x(1) True by simp
        then show ?thesis using beats_trans[OF _ _ k(1) _ gm] x True layout_good[OF L k(2)] by blast
      qed (use x True in simp)
      then show ?thesis using gm True n k(2) by (auto simp: fits_def)
    next
      case False
      then show ?thesis using gm x n by (auto simp: fits_def)
    qed
  qed
  then show ?thesis using n by (simp add: layout_def)
qed

lemma entries_set:
  assumes L: "layout L" and "i < n"
  shows "entries (L[i := Some (k, v)]) = insert (k, v) (entries L - (case L ! i of None \<Rightarrow> {} | Some e \<Rightarrow> {e}))"
proof -
  have n: "length L = n" using L by (simp add: layout_def)
  have M: "e \<in> entries (L[i := Some (k, v)]) \<longleftrightarrow> (\<exists>j<n. L[i := Some (k, v)] ! j = Some e)" for e
    using n by (auto simp: entries_def in_set_conv_nth)
  have u: "L ! i = Some e \<Longrightarrow> L ! j = Some e \<Longrightarrow> j < n \<Longrightarrow> j = i" for j e
  proof -
    assume A: "L ! i = Some e" "L ! j = Some e" "j < n"
    have "good (fst e)" using layout_good[OF L assms(2)] A(1) by (cases e) auto
    then have "cmp (fst e) (fst e) = 0" using cmp_flip[of "fst e" "fst e"] by auto
    then show "j = i" using entry_unique[OF L A(3) assms(2), of "fst e" "snd e" "fst e" "snd e"] A by simp
  qed
  have N: "(\<exists>j<n. L[i := Some (k, v)] ! j = Some e) \<longleftrightarrow> e = (k, v) \<or> (\<exists>j<n. j \<noteq> i \<and> L ! j = Some e)" for e
    using n assms(2) by (auto simp: nth_list_update)
  have "(\<exists>j<n. j \<noteq> i \<and> L ! j = Some e) \<longleftrightarrow> (\<exists>j<n. L ! j = Some e) \<and> L ! i \<noteq> Some e" for e
    using u[of e] assms(2) by blast
  then show ?thesis
    by (intro set_eqI) (auto simp: M N entries_iff[OF L] split: option.splits)
qed


lemma vacancies_set:
  assumes "length L = n" "i < n"
  shows "L ! i = None \<Longrightarrow> vacancies (L[i := Some e]) + 1 = vacancies L"
    and "L ! i \<noteq> None \<Longrightarrow> vacancies (L[i := Some e]) = vacancies L"
proof -
  have S: "{j. j < n \<and> L[i := Some e] ! j = None} = {j. j < n \<and> L ! j = None} - {i}"
    using assms by (auto simp: nth_list_update)
  have fin: "finite {j. j < n \<and> L ! j = None}" by simp
  show "L ! i = None \<Longrightarrow> vacancies (L[i := Some e]) + 1 = vacancies L"
    unfolding vacancies_def S using card_Suc_Diff1[OF fin, of i] assms by simp
  show "L ! i \<noteq> None \<Longrightarrow> vacancies (L[i := Some e]) = vacancies L"
    unfolding vacancies_def S by simp
qed

text \<open>A new key: the pass ends, and what was there and the new entry are there afterwards.\<close>

lemma put_fresh:
  "layout L \<Longrightarrow> good k \<Longrightarrow> i < n \<Longrightarrow> fits L i k \<Longrightarrow> d = dist i k \<Longrightarrow> \<forall>(l, w) \<in> entries L. cmp k l \<noteq> 0 \<Longrightarrow>
   L ! slot i q = None \<Longrightarrow> q < m \<Longrightarrow>
   \<exists>M. put replace L i d k v m = Some (M, True) \<and> layout M \<and> entries M = insert (k, v) (entries L) \<and> vacancies M + 1 = vacancies L"
proof (induction m arbitrary: L i d k v q)
  case 0
  then show ?case by simp
next
  case (Suc m)
  have n: "0 < n" "length L = n" using Suc.prems(1,3) by (auto simp: layout_def)
  show ?case
  proof (cases "L ! i")
    case None
    have "layout (L[i := Some (k, v)])" using Suc.prems(1-4) None by (intro layout_set) auto
    then show ?thesis using None entries_set[OF Suc.prems(1,3), of k v] vacancies_set(1)[OF n(2) Suc.prems(3) None] by simp
  next
    case (Some e)
    then obtain l w where l: "L ! i = Some (l, w)" by (cases e) auto
    have gl: "good l" "fits L i l" using layout_good[OF Suc.prems(1,3) l] by auto
    have in_L: "(l, w) \<in> entries L" using l Suc.prems(3) entries_iff[OF Suc.prems(1)] by blast
    then have neq: "cmp k l \<noteq> 0" using Suc.prems(6) by auto
    have q: "q \<noteq> 0" using Suc.prems(3,7) l by (metis option.distinct(1) slot_0)
    let ?i = "slot i 1" and ?z = "slot i q"
    have z: "?z < n" "slot ?i (q - 1) = ?z" using q n slot_less by (simp_all add: slot_slot)
    have i1: "?i < n" using n slot_less by simp
    have "dist i k < dist ?z k" using empty_further[OF Suc.prems(1-4) z(1) Suc.prems(7)] l by simp
    then have dk: "dist i k + 1 < n" using dist_less[OF n(1), of ?z k] by linarith
    have "dist i l < dist ?z l" using empty_further[OF Suc.prems(1) gl(1) Suc.prems(3) gl(2) z(1) Suc.prems(7)] l by simp
    then have dl: "dist i l + 1 < n" using dist_less[OF n(1), of ?z l] by linarith
    consider (go) "beats (dist i l) l d k" | (swap) "\<not> beats (dist i l) l d k" "beats d k (dist i l) l"
      using beats_total[OF Suc.prems(2) gl(1)] neq by blast
    then show ?thesis
    proof cases
      case go
      have d1: "d + 1 = dist ?i k" using dist_next[OF Suc.prems(2,3) dk] Suc.prems(5) by simp
      have e1: "dist ?i k - 1 = dist i k" using d1 Suc.prems(5) by simp
      have "fits L ?i k" unfolding fits_def e1 slot_dist[OF Suc.prems(2,3)] using go l Suc.prems(5) by auto
      from Suc.IH[OF Suc.prems(1,2) i1 this d1 Suc.prems(6), of "q - 1"] z(2) Suc.prems(7,8) q
      show ?thesis using l go by auto
    next
      case swap
      let ?M = "L[i := Some (k, v)]"
      have M: "layout ?M" using Suc.prems(1-5) l swap by (intro layout_set) auto
      have E: "entries ?M = insert (k, v) (entries L - {(l, w)})" using entries_set[OF Suc.prems(1,3), of k v] l by simp
      have d1: "dist i l + 1 = dist ?i l" using dist_next[OF gl(1) Suc.prems(3) dl] by simp
      have e1: "dist ?i l - 1 = dist i l" using d1 by simp
      have F: "fits ?M ?i l" unfolding fits_def e1 slot_dist[OF gl(1) Suc.prems(3)] using swap n Suc.prems(3,5) by auto
      have "cmp l x \<noteq> 0" if "(x, y) \<in> entries L - {(l, w)}" for x y
      proof
        assume c: "cmp l x = 0"
        have "(x, y) \<in> entries L" using that by simp
        then obtain j where "j < n" "L ! j = Some (x, y)" using entries_iff[OF Suc.prems(1)] by blast
        then show False using entry_unique[OF Suc.prems(1,3) _ l _ c] l that by auto
      qed
      then have D: "\<forall>(x, y) \<in> entries ?M. cmp l x \<noteq> 0" unfolding E using neq cmp_flip[OF gl(1) Suc.prems(2)] by auto
      have Z: "?M ! slot ?i (q - 1) = None"
        using z Suc.prems(7) l by (metis nth_list_update_neq option.distinct(1))
      have "q - 1 < m" using Suc.prems(8) q by simp
      from Suc.IH[OF M gl(1) i1 F d1 D Z this, of w]
      obtain N where N: "put replace ?M ?i (dist i l + 1) l w m = Some (N, True)" "layout N"
        "entries N = insert (l, w) (entries ?M)" "vacancies N + 1 = vacancies ?M" by blast
      have "entries N = insert (k, v) (entries L)" using N(3) E in_L by auto
      then show ?thesis using N l swap vacancies_set(2)[OF n(2) Suc.prems(3), of "(k, v)"] by simp
    qed
  qed
qed

text \<open>A key that is there: its value is replaced where it stands, or kept.\<close>

lemma put_known:
  assumes "layout L" "good k" "j < n" "L ! j = Some (l, w)" "cmp k l = 0"
  shows "q \<le> dist j k \<Longrightarrow> dist j k - q < m \<Longrightarrow>
    put replace L (slot (home k) q) q k v m = Some (if replace then L[j := Some (l, v)] else L, False)"
proof (induction m arbitrary: q)
  case (Suc m)
  note H = search_hit[OF assms(1,3,4,2,5)]
  show ?case
  proof (cases "q = dist j k")
    case True
    have "good l" using layout_good[OF assms(1,3,4)] by simp
    then have "cmp l k = 0" "home k = home l" using cmp_flip[OF assms(2)] cmp_home[OF assms(2)] assms(5) by auto
    then show ?thesis using H(1) True assms(4,5) by (simp add: beats_def dist_def)
  next
    case False
    then have q: "q < dist j k" using Suc.prems by simp
    then obtain x u where x: "L ! slot (home k) q = Some (x, u)" "beats (dist (slot (home k) q) x) x q k"
      using H(3) by blast
    have "slot (slot (home k) q) 1 = slot (home k) (q + 1)" by (simp add: slot_slot)
    then show ?thesis using x q Suc by simp
  qed
qed simp

lemma layout_value:
  "layout L \<Longrightarrow> j < n \<Longrightarrow> L ! j = Some (l, w) \<Longrightarrow> layout (L[j := Some (l, v)])"
  using layout_good[of L j l w] by (intro layout_set) auto

subsection \<open>The entries determine the layout\<close>

lemma circle_less:
  assumes "h < n" "x < y" "y < m" "m < n"
  shows "(slot h x + n - slot h m) mod n < (slot h y + n - slot h m) mod n"
proof -
  have *: "(slot h a + n - slot h m) mod n = n - (m - a)" if "a < m" for a
    using that assms(1,4) by (auto simp: slot_def mod_if)
  show ?thesis using *[of x] *[of y] assms by simp
qed

lemma not_closer:
  assumes L: "layout L1" "layout L2" "entries L1 = entries L2" and z: "z < n" "L2 ! z = None"
  shows "i < n \<Longrightarrow> j < n \<Longrightarrow> L1 ! i = Some (k, v) \<Longrightarrow> L2 ! j = Some (k, v) \<Longrightarrow> \<not> dist i k < dist j k"
proof (induction "(i + n - z) mod n" arbitrary: i j k v rule: less_induct)
  case less
  show ?case
  proof
    assume d: "dist i k < dist j k"
    have gk: "good k" "fits L1 i k" "fits L2 j k"
      using layout_good[OF L(1) less.prems(1,3)] layout_good[OF L(2) less.prems(2,4)] by auto
    obtain f u where f: "L2 ! i = Some (f, u)" "good f" "beats (dist i f) f (dist i k) k"
      using path[OF L(2) gk(1) less.prems(2) gk(3) d] slot_dist[OF gk(1) less.prems(1)] by auto
    have "(f, u) \<in> entries L1" using f(1) less.prems(1) L entries_iff[OF L(2)] by blast
    then obtain p where p: "p < n" "L1 ! p = Some (f, u)" using entries_iff[OF L(1)] by blast
    have gf: "fits L1 p f" "fits L2 i f" using layout_good[OF L(1) p] layout_good[OF L(2) less.prems(1) f(1)] by auto
    have "f \<noteq> k" using f(3) beats_irrefl[OF gk(1)] by auto
    then have "p \<noteq> i" using p(2) less.prems(3) by auto
    then have ne: "dist p f \<noteq> dist i f" using dist_eq_iff[OF f(2) p(1) less.prems(1)] by simp
    have "\<not> dist i f < dist p f"
    proof
      assume "dist i f < dist p f"
      from path[OF L(1) f(2) p(1) gf(1) this] slot_dist[OF f(2) less.prems(1)] less.prems(3)
      have "beats (dist i k) k (dist i f) f" by auto
      then show False using beats_asym[OF f(2) gk(1) f(3)] by simp
    qed
    then have lt: "dist p f < dist i f" using ne by simp
    have zf: "dist i f < dist z f" using empty_further[OF L(2) f(2) less.prems(1) gf(2) z] f(1) by simp
    have "(slot (home f) (dist p f) + n - slot (home f) (dist z f)) mod n
        < (slot (home f) (dist i f) + n - slot (home f) (dist z f)) mod n"
      using circle_less[OF home_less[OF f(2)] lt zf] dist_less z(1) by auto
    then have "(p + n - z) mod n < (i + n - z) mod n"
      using slot_dist[OF f(2)] p(1) less.prems(1) z(1) by simp
    from less.hyps[OF this p(1) less.prems(1) p(2) f(1)] lt show False by simp
  qed
qed

theorem layout_canonical:
  assumes L: "layout L1" "layout L2" "entries L1 = entries L2"
    and "z < n" "L2 ! z = None" "y < n" "L1 ! y = None"
  shows "L1 = L2"
proof (rule nth_equalityI)
  show "length L1 = length L2" using L by (simp add: layout_def)
  have *: "L2 ! i = Some e" if "layout L1" "layout L2" "entries L1 = entries L2" "i < n" "L1 ! i = Some e"
    "z < n" "L2 ! z = None" "y < n" "L1 ! y = None" for L1 L2 :: "('k \<times> 'v) option list" and i e z y
  proof -
    note T = that
    obtain k v where e: "e = (k, v)" by (cases e)
    have "e \<in> entries L2" using that(3-5) entries_iff[OF that(1)] by blast
    then obtain j where j: "j < n" "L2 ! j = Some (k, v)" using entries_iff[OF T(2)] e by blast
    have "good k" using layout_good[OF that(2) j] by simp
    moreover have "dist i k = dist j k"
      using not_closer[OF that(1,2,3,6,7,4) j(1), of k v] not_closer[OF that(2,1) _ that(8,9) j(1) that(4), of k v] that(3,5) e j(2)
      by (simp add: not_less)
    ultimately show ?thesis using dist_eq_iff that(4) j e by metis
  qed
  fix i assume "i < length L1"
  then have i: "i < n" using L by (simp add: layout_def)
  show "L1 ! i = L2 ! i"
    using *[OF L i _ assms(4-7)] *[OF L(2,1) L(3)[symmetric] i _ assms(6,7,4,5)]
    by (cases "L1 ! i"; cases "L2 ! i") auto
qed

end

end
