(* ===== verification/StructSpec.thy ===== *)
theory StructSpec
  imports Structs RobinHood TableSpec
begin

unbundle bit_operations_syntax

text \<open>
  The structs of \<^verbatim>\<open>Structs\<close> as an instance of robin hood probing: what a block of
  slots stands for, the invariant of a struct, and the meaning of a search and of an insertion.
\<close>

subsection \<open>The order of the keys\<close>

definition key_order :: "(64 word \<Rightarrow> 64 word) \<Rightarrow> jv \<Rightarrow> jv \<Rightarrow> int" where
  "key_order type_of k l =
     (if sint (janet_hash k) < sint (janet_hash l) then - 1
      else if sint (janet_hash l) < sint (janet_hash k) then 1 else janet_compare type_of k l)"

lemma key_order_comparison: "comparison (key_order type_of) {k. comparable k}"
proof (rule comparison_rank[where f = "\<lambda>k. sint (janet_hash k)"])
  fix t
  have C: "comparison (janet_compare type_of) {x \<in> {k. comparable k}. sint (janet_hash x) = t}"
    by (rule comparison_subset[OF value_order.comparison_axioms]) auto
  show "comparison (key_order type_of) {x \<in> {k. comparable k}. sint (janet_hash x) = t}"
    by (rule comparison_map[OF C, where g = id]) (auto simp: key_order_def)
qed (auto simp: key_order_def)

lemma key_order_equals: "comparable k \<Longrightarrow> comparable l \<Longrightarrow> key_order type_of k l = 0 \<longleftrightarrow> janet_equals k l"
  using compare_equals[of k l type_of] janet_equals_hash[of k l] by (auto simp: key_order_def)

definition struct_key :: "nat \<Rightarrow> jv \<Rightarrow> bool" where
  "struct_key cap k = (comparable k \<and> k \<noteq> VNil \<and> (\<exists>m\<le>30. cap = 2 ^ m))"

interpretation rh: robin_hood cap "\<lambda>k. janet_maphash cap (janet_hash k)" "key_order type_of" "struct_key cap" for cap type_of
proof
  fix k l m
  note K = key_order_comparison[of type_of]
  show "struct_key cap k \<Longrightarrow> janet_maphash cap (janet_hash k) < cap"
    using maphash_less by (auto simp: struct_key_def)
  assume k: "struct_key cap k" and l: "struct_key cap l"
  then have C: "k \<in> {k. comparable k}" "l \<in> {k. comparable k}" by (auto simp: struct_key_def)
  show "key_order type_of k l \<in> {- 1, 0, 1}" "key_order type_of l k = - key_order type_of k l"
    by (rule comparison.range[OF K C] comparison.flip[OF K C])+
  show "key_order type_of k l = 0 \<Longrightarrow> janet_maphash cap (janet_hash k) = janet_maphash cap (janet_hash l)"
    using key_order_equals janet_equals_hash C by (metis mem_Collect_eq)
  assume "struct_key cap m"
  then have M: "m \<in> {k. comparable k}" by (auto simp: struct_key_def)
  show "key_order type_of k l = 1 \<Longrightarrow> key_order type_of l m = 1 \<Longrightarrow> key_order type_of k m = 1"
    by (rule comparison.trans[OF K C M])
  show "key_order type_of k l = 0 \<Longrightarrow> key_order type_of k m = key_order type_of l m"
    by (rule comparison.same[OF K C M])
qed

subsection \<open>The slots\<close>

definition view :: "buckets \<Rightarrow> (jv \<times> jv) option list" where
  "view kvs = map (\<lambda>kv. if fst kv = VNil then None else Some kv) kvs"

lemma length_view [simp]: "length (view kvs) = length kvs"
  by (simp add: view_def)

lemma view_nth: "i < length kvs \<Longrightarrow> view kvs ! i = (if fst (kvs ! i) = VNil then None else Some (kvs ! i))"
  by (simp add: view_def)

lemma view_update: "fst kv \<noteq> VNil \<Longrightarrow> view (kvs[i := kv]) = (view kvs)[i := Some kv]"
  by (simp add: view_def map_update)

lemma view_entries: "rh.entries (view kvs) = {e \<in> set kvs. fst e \<noteq> VNil}"
  by (auto simp: rh.entries_def view_def image_iff)

text \<open>A slot is empty in key and value or in neither.\<close>

definition clean :: "buckets \<Rightarrow> bool" where
  "clean kvs = (\<forall>kv \<in> set kvs. fst kv = VNil \<longleftrightarrow> snd kv = VNil)"

lemma clean_update: "clean kvs \<Longrightarrow> fst kv \<noteq> VNil \<Longrightarrow> snd kv \<noteq> VNil \<Longrightarrow> clean (kvs[i := kv])"
  unfolding clean_def using set_update_subset_insert[of kvs i kv] by blast

lemma view_inj: "clean a \<Longrightarrow> clean b \<Longrightarrow> view a = view b \<Longrightarrow> a = b"
proof (rule nth_equalityI)
  assume A: "clean a" "clean b" "view a = view b"
  then show l: "length a = length b" by (metis length_view)
  fix i assume i: "i < length a"
  have v: "view a ! i = view b ! i" using A(3) by simp
  have c: "(fst (a ! i) = VNil) = (snd (a ! i) = VNil)" "(fst (b ! i) = VNil) = (snd (b ! i) = VNil)"
    using A(1,2) i l by (auto simp: clean_def)
  show "a ! i = b ! i"
  proof (cases "fst (a ! i) = VNil")
    case True
    then have "fst (b ! i) = VNil" using v i l by (simp add: view_nth split: if_splits)
    then show ?thesis using True c by (metis prod.expand)
  next
    case False
    then show ?thesis using v i l by (simp add: view_nth split: if_splits)
  qed
qed

text \<open>The slots a probe visits, by their distance.\<close>

lemma probe_slots:
  assumes "cap = 2 ^ m" "m \<le> 30"
  shows "probe cap k = map (rh.slot cap (janet_maphash cap (janet_hash k))) [0..<cap]"
proof -
  let ?h = "janet_maphash cap (janet_hash k)"
  have h: "?h < cap" by (rule maphash_less[OF assms])
  show ?thesis
    unfolding probe_def Let_def
  proof (rule nth_equalityI)
    fix i assume "i < length ([?h..<cap] @ [0..<?h])"
    then have "i < cap" using h by simp
    then show "([?h..<cap] @ [0..<?h]) ! i = map (rh.slot cap ?h) [0..<cap] ! i"
      using h by (auto simp: nth_append rh.slot_def mod_if)
  qed (use h in simp)
qed

lemma slots_Suc:
  "i < n \<Longrightarrow> map (rh.slot n i) [0..<Suc m] = i # map (rh.slot n (rh.slot n i 1)) [0..<m]"
  by (simp add: upt_conv_Cons map_Suc_upt[symmetric] rh.slot_0 rh.slot_slot del: upt_Suc)

lemma other_dist:
  assumes "cap = 2 ^ m" "m \<le> 30" "i < cap" "h < cap"
  shows "other_dist cap i h = (i + cap - h) mod cap"
proof -
  have mk: "(word_of_nat cap - 1 :: 32 word) = mask m" by (simp add: assms(1) mask_eq_exp_minus_1)
  have "h \<le> i + cap" using assms by simp
  then have w: "word_of_nat (i + cap) - word_of_nat h = (word_of_nat (i + cap - h) :: 32 word)"
    by (simp add: of_nat_diff)
  have "(2 :: nat) ^ m \<le> 2 ^ 30" using assms(2) by (intro power_increasing) auto
  then have b: "i + cap - h < 2 ^ 32" using assms(1,3) by simp
  have "other_dist cap i h = unat (take_bit m (word_of_nat (i + cap - h) :: 32 word))"
    unfolding other_dist_def mk w by (simp only: take_bit_eq_mask)
  also have "\<dots> = take_bit m (unat (word_of_nat (i + cap - h) :: 32 word))" by (simp only: unsigned_take_bit_eq)
  also have "unat (word_of_nat (i + cap - h) :: 32 word) = i + cap - h" using b by (simp add: unsigned_of_nat take_bit_nat_eq_self)
  finally show ?thesis by (simp add: take_bit_eq_mod assms(1))
qed

subsection \<open>Insertion\<close>

lemma put_status_beats:
  assumes "struct_key cap k" "struct_key cap l"
  shows "put_status type_of d (janet_hash k) k e (janet_hash l) l = 1 \<longleftrightarrow> rh.beats type_of d k e l"
    and "put_status type_of d (janet_hash k) k e (janet_hash l) l = 0
      \<longleftrightarrow> \<not> rh.beats type_of d k e l \<and> \<not> rh.beats type_of e l d k"
proof -
  have S: "put_status type_of d (janet_hash k) k e (janet_hash l) l = (if d < e then - 1 else if e < d then 1 else key_order type_of k l)"
    by (simp add: put_status_def key_order_def)
  obtain c where c: "key_order type_of k l = c" "key_order type_of l k = - c" "c = - 1 \<or> c = 0 \<or> c = 1"
    using rh.cmp_range[OF assms, of type_of] rh.cmp_flip[OF assms, of type_of] by auto
  show "put_status type_of d (janet_hash k) k e (janet_hash l) l = 1 \<longleftrightarrow> rh.beats type_of d k e l"
    "put_status type_of d (janet_hash k) k e (janet_hash l) l = 0
      \<longleftrightarrow> \<not> rh.beats type_of d k e l \<and> \<not> rh.beats type_of e l d k"
    unfolding S rh.beats_def c(1,2) using c(3) by auto
qed

text \<open>The loop of the code is the pass over the slots.\<close>

lemma put_loop_pass:
  assumes cap: "cap = 2 ^ e" "e \<le> 30"
  shows "length kvs = cap \<Longrightarrow> clean kvs \<Longrightarrow> (\<forall>kv \<in> set kvs. fst kv \<noteq> VNil \<longrightarrow> struct_key cap (fst kv)) \<Longrightarrow>
    struct_key cap k \<Longrightarrow> v \<noteq> VNil \<Longrightarrow> i < cap \<Longrightarrow> rh.put cap type_of replace (view kvs) i d k v m = Some (M, added) \<Longrightarrow>
    \<exists>kvs'. put_loop type_of replace cap kvs k v d (janet_hash k) (map (rh.slot cap i) [0..<m]) = Inr (kvs', added)
      \<and> view kvs' = M \<and> clean kvs' \<and> length kvs' = cap"
proof (induction m arbitrary: kvs i d k v)
  case 0
  then show ?case by simp
next
  case (Suc m)
  have k: "k \<noteq> VNil" using Suc.prems(4) by (simp add: struct_key_def)
  have i: "i < length kvs" using Suc.prems(1,6) by simp
  show ?case
  proof (cases "fst (kvs ! i) = VNil")
    case True
    then show ?thesis using Suc.prems i k
      by (auto simp: slots_Suc view_nth view_update simp del: upt_Suc intro!: clean_update)
  next
    case False
    obtain l w where l: "kvs ! i = (l, w)" by (cases "kvs ! i")
    have vi: "view kvs ! i = Some (l, w)" using False i l by (simp add: view_nth)
    have mem: "(l, w) \<in> set kvs" using nth_mem[OF i] l by simp
    have w: "w \<noteq> VNil" "l \<noteq> VNil" using Suc.prems(2) mem False l by (auto simp: clean_def)
    have gl: "struct_key cap l" using Suc.prems(3) mem w(2) by force
    let ?od = "rh.dist cap i l"
    have od: "other_dist cap i (janet_maphash cap (janet_hash l)) = ?od"
      using other_dist[OF cap Suc.prems(6) maphash_less[OF cap]] by (simp add: rh.dist_def)
    note B = put_status_beats[OF Suc.prems(4) gl, of type_of d ?od]
    have i1: "rh.slot cap i 1 < cap" using Suc.prems(6) by (intro rh.slot_less) simp
    consider (swap) "rh.beats type_of d k ?od l" "\<not> rh.beats type_of ?od l d k"
      | (go) "rh.beats type_of ?od l d k" "\<not> rh.beats type_of d k ?od l"
      | (same) "\<not> rh.beats type_of d k ?od l" "\<not> rh.beats type_of ?od l d k"
      using rh.beats_asym[OF Suc.prems(4) gl] by blast
    then show ?thesis
    proof cases
      case swap
      have C: "clean (kvs[i := (k, v)])" "view (kvs[i := (k, v)]) = (view kvs)[i := Some (k, v)]"
        using Suc.prems(2,5) k by (simp_all add: clean_update view_update)
      have G: "\<forall>kv \<in> set (kvs[i := (k, v)]). fst kv \<noteq> VNil \<longrightarrow> struct_key cap (fst kv)"
        using Suc.prems(3,4) set_update_subset_insert[of kvs i "(k, v)"] by auto
      from Suc.IH[OF _ C(1) G gl w(1) i1, of "?od + 1"] Suc.prems(1,7) C(2) vi swap
      show ?thesis using i False l od B swap Suc.prems(6) by (simp add: slots_Suc Let_def del: upt_Suc)
    next
      case go
      from Suc.IH[OF Suc.prems(1-5) i1, of "d + 1"] Suc.prems(7) vi go
      show ?thesis using i False l od B go Suc.prems(6) by (simp add: slots_Suc Let_def del: upt_Suc)
    next
      case same
      then show ?thesis using i False l od B Suc.prems vi w
        by (auto simp: slots_Suc Let_def view_update clean_update simp del: upt_Suc)
    qed
  qed
qed

subsection \<open>The invariant of a struct\<close>

definition struct_ok :: "(64 word \<Rightarrow> 64 word) \<Rightarrow> jstruct \<Rightarrow> bool" where
  "struct_ok type_of st = ((\<exists>m\<le>30. scapacity st = 2 ^ m) \<and> clean (sdata st)
     \<and> rh.layout (scapacity st) type_of (view (sdata st))
     \<and> 0 \<le> shash st \<and> shash st \<le> slength st \<and> slength st < int (scapacity st)
     \<and> rh.vacancies (scapacity st) (view (sdata st)) + nat (shash st) = scapacity st)"

definition sentries :: "jstruct \<Rightarrow> (jv \<times> jv) set" where
  "sentries st = {e \<in> set (sdata st). fst e \<noteq> VNil}"

text \<open>What a struct stands for: a map up to equal keys.\<close>

definition struct_map :: "jstruct \<Rightarrow> jv \<Rightarrow> jv option" where
  "struct_map st j = map_option snd (find (\<lambda>e. fst e \<noteq> VNil \<and> janet_equals (fst e) j) (sdata st))"

lemma struct_ok_keys:
  assumes "struct_ok type_of st" "(k, v) \<in> sentries st"
  shows "struct_key (scapacity st) k" "k \<noteq> VNil" "v \<noteq> VNil" "\<exists>i < scapacity st. sdata st ! i = (k, v)"
proof -
  obtain i where i: "i < scapacity st" "sdata st ! i = (k, v)" "k \<noteq> VNil"
    using assms(2) by (auto simp: sentries_def in_set_conv_nth scapacity_def)
  then have V: "view (sdata st) ! i = Some (k, v)" by (simp add: view_nth scapacity_def)
  have L: "rh.layout (scapacity st) type_of (view (sdata st))" using assms(1) by (simp add: struct_ok_def)
  show "struct_key (scapacity st) k" using rh.layout_good[OF L i(1) V] by simp
  show "k \<noteq> VNil" "\<exists>i < scapacity st. sdata st ! i = (k, v)" using i by auto
  have "clean (sdata st)" "(k, v) \<in> set (sdata st)" using assms by (simp_all add: struct_ok_def sentries_def)
  then show "v \<noteq> VNil" using i(3) unfolding clean_def by fastforce
qed

lemma struct_ok_unique:
  assumes "struct_ok type_of st" "i < scapacity st" "j < scapacity st" "sdata st ! i = (k, v)" "sdata st ! j = (l, w)"
    "k \<noteq> VNil" "l \<noteq> VNil" "janet_equals k l"
  shows "i = j"
proof -
  have V: "view (sdata st) ! i = Some (k, v)" "view (sdata st) ! j = Some (l, w)"
    using assms by (simp_all add: view_nth scapacity_def)
  have L: "rh.layout (scapacity st) type_of (view (sdata st))" using assms(1) by (simp add: struct_ok_def)
  have "struct_key (scapacity st) k" "struct_key (scapacity st) l"
    using rh.layout_good[OF L assms(2) V(1)] rh.layout_good[OF L assms(3) V(2)] by simp_all
  then have "key_order type_of k l = 0" using key_order_equals assms(8) by (auto simp: struct_key_def)
  then show ?thesis using rh.entry_unique[OF L assms(2,3) V] by simp
qed

lemma struct_map_some:
  assumes "struct_ok type_of st" "(k, v) \<in> sentries st" "janet_equals k j"
  shows "struct_map st j = Some v"
proof -
  obtain i where i: "i < scapacity st" "sdata st ! i = (k, v)" "k \<noteq> VNil" using struct_ok_keys[OF assms(1,2)] by blast
  have "(k, v) \<in> set (sdata st)" using assms(2) by (simp add: sentries_def)
  then obtain e where e: "find (\<lambda>e. fst e \<noteq> VNil \<and> janet_equals (fst e) j) (sdata st) = Some e"
    using assms(3) i(3) by (cases "find (\<lambda>e. fst e \<noteq> VNil \<and> janet_equals (fst e) j) (sdata st)") (force simp: find_None_iff)+
  then obtain q where q: "q < scapacity st" "sdata st ! q = e" "fst e \<noteq> VNil" "janet_equals (fst e) j"
    by (auto simp: find_Some_iff scapacity_def)
  have "janet_equals k (fst e)" using assms(3) q(4) janet_equals_sym janet_equals_trans by blast
  then have "i = q" using struct_ok_unique[OF assms(1) i(1) q(1) i(2), of "fst e" "snd e"] i(3) q by simp
  then show ?thesis using e i q by (simp add: struct_map_def)
qed

lemma struct_map_none: "struct_map st j = None \<longleftrightarrow> (\<forall>(k, v) \<in> sentries st. \<not> janet_equals k j)"
  by (auto simp: struct_map_def find_None_iff sentries_def)

lemma struct_map_iff:
  assumes "struct_ok type_of st"
  shows "struct_map st j = Some v \<longleftrightarrow> (\<exists>k. (k, v) \<in> sentries st \<and> janet_equals k j)"
proof
  assume A: "struct_map st j = Some v"
  then have "struct_map st j \<noteq> None" by simp
  then obtain k w where k: "(k, w) \<in> sentries st" "janet_equals k j" using struct_map_none[of st j] by auto
  then show "\<exists>k. (k, v) \<in> sentries st \<and> janet_equals k j" using struct_map_some[OF assms k] A by auto
qed (use struct_map_some[OF assms] in blast)

subsection \<open>Operations on the invariant\<close>

lemma struct_ok_cap: "struct_ok type_of st \<Longrightarrow> comparable k \<Longrightarrow> k \<noteq> VNil \<Longrightarrow> struct_key (scapacity st) k"
  by (auto simp: struct_ok_def struct_key_def)

lemma struct_ok_vacant:
  assumes "struct_ok type_of st"
  shows "\<exists>z < scapacity st. view (sdata st) ! z = None"
proof (rule ccontr)
  assume "\<not> (\<exists>z < scapacity st. view (sdata st) ! z = None)"
  then have "{i. i < scapacity st \<and> view (sdata st) ! i = None} = {}" by blast
  then have "rh.vacancies (scapacity st) (view (sdata st)) = 0" unfolding rh.vacancies_def by (metis card.empty)
  then show False using assms by (auto simp: struct_ok_def)
qed

lemma struct_scan_stop:
  assumes "\<And>q. q < q0 \<Longrightarrow> fst (kvs ! f q) \<noteq> VNil \<and> \<not> janet_equals (fst (kvs ! f q)) key"
    and "fst (kvs ! f q0) = VNil \<or> janet_equals (fst (kvs ! f q0)) key" and "\<And>q. q < n \<Longrightarrow> f q < length kvs" and "q0 < n"
  shows "struct_scan kvs key (map f [0..<n]) = Inr (Some (f q0))"
proof -
  have "struct_scan kvs key (map f [a..<n]) = Inr (Some (f q0))" if "a \<le> q0" for a
    using that
  proof (induction "q0 - a" arbitrary: a)
    case 0
    then show ?case using assms(2,3,4) by (simp add: upt_conv_Cons not_le)
  next
    case (Suc x)
    then have a: "a < q0" "x = q0 - Suc a" by auto
    then show ?case using Suc(1)[of "Suc a"] assms(1)[OF a(1)] assms(3)[of a] assms(4) by (simp add: upt_conv_Cons not_le)
  qed
  then show ?thesis by simp
qed

text \<open>The search ends at the slot of the key, or at an empty slot.\<close>

lemma janet_struct_find_ok:
  assumes ok: "struct_ok type_of st" and key: "comparable key" "key \<noteq> VNil"
  shows "\<exists>i < scapacity st. janet_struct_find st key = Inr (Some i)
    \<and> (case struct_map st key of Some v \<Rightarrow> fst (sdata st ! i) \<noteq> VNil \<and> snd (sdata st ! i) = v
       | None \<Rightarrow> sdata st ! i = (VNil, VNil))"
proof -
  let ?n = "scapacity st" and ?kvs = "sdata st"
  let ?f = "rh.slot ?n (janet_maphash ?n (janet_hash key))"
  obtain m where m: "m \<le> 30" "?n = 2 ^ m" using ok by (auto simp: struct_ok_def)
  have n: "0 < ?n" "length ?kvs = ?n" using m by (simp_all add: scapacity_def)
  have L: "rh.layout ?n type_of (view ?kvs)" using ok by (simp add: struct_ok_def)
  have gk: "struct_key ?n key" by (rule struct_ok_cap[OF ok key])
  have f: "\<And>q. ?f q < length ?kvs" using n rh.slot_less by simp
  have F: "janet_struct_find st key = struct_scan ?kvs key (map ?f [0..<?n])"
    unfolding janet_struct_find_def by (simp only: probe_slots[OF m(2,1)])
  show ?thesis
  proof (cases "struct_map st key")
    case (Some v)
    then obtain k where k: "(k, v) \<in> sentries st" "janet_equals k key" using struct_map_iff[OF ok] by blast
    obtain i where i: "i < ?n" "?kvs ! i = (k, v)" "k \<noteq> VNil" "struct_key ?n k" using struct_ok_keys[OF ok k(1)] by blast
    have vi: "view ?kvs ! i = Some (k, v)" using i n by (simp add: view_nth)
    have c: "key_order type_of key k = 0"
      using key_order_equals[of key k] key(1) i(4) janet_equals_sym[OF k(2)] by (simp add: struct_key_def)
    note H = rh.search_hit[OF L i(1) vi gk c]
    have "struct_scan ?kvs key (map ?f [0..<?n]) = Inr (Some (?f (rh.dist ?n i key)))"
    proof (rule struct_scan_stop)
      fix q assume "q < rh.dist ?n i key"
      then obtain x u where x: "view ?kvs ! ?f q = Some (x, u)" "struct_key ?n x" "key_order type_of key x \<noteq> 0"
        using H(3) by blast
      then have "fst (?kvs ! ?f q) = x" "x \<noteq> VNil" using f[of q] by (auto simp: view_nth split: if_splits)
      then show "fst (?kvs ! ?f q) \<noteq> VNil \<and> \<not> janet_equals (fst (?kvs ! ?f q)) key"
        using x(2,3) key_order_equals[of key x] key(1) janet_equals_sym by (auto simp: struct_key_def)
    qed (use H(1,2) i k f in auto)
    then show ?thesis using F H(1) i Some by auto
  next
    case None
    then have no: "\<And>k v. (k, v) \<in> sentries st \<Longrightarrow> \<not> janet_equals k key" using struct_map_none by fastforce
    obtain z where z: "z < ?n" "view ?kvs ! z = None" using struct_ok_vacant[OF ok] by blast
    define P where "P q = (q < ?n \<and> fst (?kvs ! ?f q) = VNil)" for q
    have "P (rh.dist ?n z key)"
      using z n rh.slot_dist[OF gk z(1)] rh.dist_less[OF n(1)] by (auto simp: P_def view_nth split: if_splits)
    then have q0: "P (LEAST q. P q)" "\<And>q. q < (LEAST q. P q) \<Longrightarrow> \<not> P q" using LeastI not_less_Least by metis+
    let ?q = "LEAST q. P q"
    have "struct_scan ?kvs key (map ?f [0..<?n]) = Inr (Some (?f ?q))"
    proof (rule struct_scan_stop)
      fix q assume q: "q < ?q"
      then have "fst (?kvs ! ?f q) \<noteq> VNil" using q0(2)[OF q] q0(1) by (auto simp: P_def)
      then show "fst (?kvs ! ?f q) \<noteq> VNil \<and> \<not> janet_equals (fst (?kvs ! ?f q)) key"
        using no[of "fst (?kvs ! ?f q)" "snd (?kvs ! ?f q)"] f[of q] by (simp add: sentries_def)
    qed (use q0(1) f in \<open>auto simp: P_def\<close>)
    moreover have "fst (?kvs ! ?f ?q) = VNil" using q0(1) by (simp add: P_def)
    moreover have "clean ?kvs" using ok by (simp add: struct_ok_def)
    ultimately show ?thesis using F f[of ?q] n None nth_mem[OF f[of ?q]] unfolding clean_def
      by (metis (mono_tags, lifting) option.simps(4) prod.collapse)
  qed
qed

lemma janet_struct_rawget_ok:
  "struct_ok type_of st \<Longrightarrow> comparable key \<Longrightarrow> key \<noteq> VNil \<Longrightarrow>
   janet_struct_rawget st key = Inr (case struct_map st key of Some v \<Rightarrow> v | None \<Rightarrow> VNil)"
  using janet_struct_find_ok[of type_of st key] by (auto simp: janet_struct_rawget_def split: option.splits)

end
