(* ===== verification/StructProps.thy ===== *)
theory StructProps
  imports StructSpec
begin

text \<open>
  The structs of \<^verbatim>\<open>struct.c\<close>: what an insertion, a sequence of insertions and the end
  of building do to the map a struct stands for, and the properties of the native functions.
\<close>

subsection \<open>One insertion\<close>

text \<open>What an insertion leaves out, and the keys it is about.\<close>

definition ignored :: "jv \<Rightarrow> jv \<Rightarrow> bool" where
  "ignored k v = (k = VNil \<or> v = VNil \<or> (\<exists>s. k = VNum (NaN s)))"

definition put_key :: "jv \<Rightarrow> bool" where
  "put_key k = (comparable k \<or> (\<exists>s. k = VNum (NaN s)))"

lemma put_key_comparable: "put_key k \<Longrightarrow> \<not> ignored k v \<Longrightarrow> comparable k \<and> k \<noteq> VNil \<and> v \<noteq> VNil"
  by (auto simp: put_key_def ignored_def)

lemma not_nan_key: "comparable k \<Longrightarrow> \<not> (case k of VNum d \<Rightarrow> isnan d | _ \<Rightarrow> False)"
  by (cases k) auto

lemma fits_home: "struct_key cap k \<Longrightarrow> rh.fits cap type_of L (janet_maphash cap (janet_hash k)) k"
  by (simp add: rh.fits_def rh.dist_def)

lemma put_ignored: "ignored k v \<Longrightarrow> janet_struct_put_ext type_of replace st k v = Inr st"
  by (auto simp: ignored_def janet_struct_put_ext_def isnan_def Let_def)

lemma sentries_view: "sentries st = rh.entries (view (sdata st))"
  by (simp add: sentries_def view_entries)

lemma put_ext_loop:
  assumes ok: "struct_ok type_of st" and key: "comparable key" "key \<noteq> VNil" and nn: "v \<noteq> VNil"
    and room: "shash st < slength st" and n: "n = scapacity st"
    and put: "rh.put n type_of replace (view (sdata st)) (janet_maphash n (janet_hash key)) 0 key v n = Some (M, added)"
  shows "\<exists>kvs. janet_struct_put_ext type_of replace st key v
      = Inr (JanetStruct (slength st) (if added then shash st + 1 else shash st) kvs (sproto st))
    \<and> view kvs = M \<and> clean kvs \<and> length kvs = n"
proof -
  obtain m where m: "n = 2 ^ m" "m \<le> 30" using ok n by (auto simp: struct_ok_def)
  have c: "clean (sdata st)" "length (sdata st) = n" using ok n by (simp_all add: struct_ok_def scapacity_def)
  have g: "\<forall>kv \<in> set (sdata st). fst kv \<noteq> VNil \<longrightarrow> struct_key n (fst kv)"
    using struct_ok_keys(1)[OF ok] n by (auto simp: sentries_def)
  have k: "struct_key n key" using struct_ok_cap[OF ok key] n by simp
  from put_loop_pass[OF m c(2,1) g k nn maphash_less[OF m] put] obtain kvs where
    "put_loop type_of replace n (sdata st) key v 0 (janet_hash key) (probe n key) = Inr (kvs, added)"
    "view kvs = M" "clean kvs" "length kvs = n"
    unfolding probe_slots[OF m, symmetric] by blast
  then show ?thesis using key nn room not_nan_key[OF key(1)] n by (simp add: janet_struct_put_ext_def Let_def)
qed

lemma put_ext_fresh:
  assumes ok: "struct_ok type_of st" and key: "comparable key" "key \<noteq> VNil" and nn: "v \<noteq> VNil"
    and room: "shash st < slength st" and new: "struct_map st key = None"
  shows "\<exists>st2. janet_struct_put_ext type_of replace st key v = Inr st2 \<and> struct_ok type_of st2
    \<and> slength st2 = slength st \<and> sproto st2 = sproto st \<and> shash st2 = shash st + 1
    \<and> scapacity st2 = scapacity st \<and> sentries st2 = insert (key, v) (sentries st)"
proof -
  let ?n = "scapacity st" and ?L = "view (sdata st)"
  let ?h = "janet_maphash ?n (janet_hash key)"
  obtain m where m: "?n = 2 ^ m" "m \<le> 30" using ok by (auto simp: struct_ok_def)
  have L: "rh.layout ?n type_of ?L" using ok by (simp add: struct_ok_def)
  have gk: "struct_key ?n key" by (rule struct_ok_cap[OF ok key])
  have h: "?h < ?n" by (rule maphash_less[OF m])
  have d0: "0 = rh.dist ?n ?h key" using h by (simp add: rh.dist_def)
  obtain z where z: "z < ?n" "?L ! z = None" using struct_ok_vacant[OF ok] by blast
  have D: "\<forall>(l, w) \<in> rh.entries ?L. key_order type_of key l \<noteq> 0"
  proof clarify
    fix l w assume l: "(l, w) \<in> rh.entries ?L" "key_order type_of key l = 0"
    then have "comparable l" "\<not> janet_equals l key"
      using struct_ok_keys(1)[OF ok, of l w] new unfolding struct_map_none sentries_view by (auto simp: struct_key_def)
    then show False using l(2) key_order_equals[OF key(1)] janet_equals_sym by blast
  qed
  have zq: "?L ! rh.slot ?n ?h (rh.dist ?n z key) = None" "rh.dist ?n z key < ?n"
    using rh.slot_dist[OF gk z(1)] z rh.dist_less[of ?n] h by simp_all
  obtain M where M: "rh.put ?n type_of replace ?L ?h 0 key v ?n = Some (M, True)" "rh.layout ?n type_of M"
    "rh.entries M = insert (key, v) (rh.entries ?L)" "rh.vacancies ?n M + 1 = rh.vacancies ?n ?L"
    using rh.put_fresh[OF L gk h fits_home[OF gk] d0 D zq, of replace v] by blast
  obtain kvs where K: "janet_struct_put_ext type_of replace st key v
      = Inr (JanetStruct (slength st) (shash st + 1) kvs (sproto st))" "view kvs = M" "clean kvs" "length kvs = ?n"
    using put_ext_loop[OF ok key nn room refl M(1)] by auto
  let ?st2 = "JanetStruct (slength st) (shash st + 1) kvs (sproto st)"
  have cap: "scapacity ?st2 = ?n" using K(4) by (simp add: scapacity_def)
  have "struct_ok type_of ?st2"
    using ok M K room unfolding struct_ok_def cap by (auto simp: nat_add_distrib)
  moreover have "sentries ?st2 = insert (key, v) (sentries st)" unfolding sentries_view using K(2) M(3) by simp
  ultimately show ?thesis using K(1) cap by auto
qed

lemma put_ext_known:
  assumes ok: "struct_ok type_of st" and key: "comparable key" "key \<noteq> VNil" and nn: "v \<noteq> VNil"
    and room: "shash st < slength st" and old: "(l, w) \<in> sentries st" "janet_equals l key"
  shows "\<exists>st2. janet_struct_put_ext type_of replace st key v = Inr st2 \<and> struct_ok type_of st2
    \<and> slength st2 = slength st \<and> sproto st2 = sproto st \<and> shash st2 = shash st \<and> scapacity st2 = scapacity st
    \<and> sentries st2 = (if replace then insert (l, v) (sentries st - {(l, w)}) else sentries st)"
proof -
  let ?n = "scapacity st" and ?L = "view (sdata st)"
  let ?h = "janet_maphash ?n (janet_hash key)"
  obtain m where m: "?n = 2 ^ m" "m \<le> 30" using ok by (auto simp: struct_ok_def)
  have L: "rh.layout ?n type_of ?L" using ok by (simp add: struct_ok_def)
  have gk: "struct_key ?n key" by (rule struct_ok_cap[OF ok key])
  have h: "?h < ?n" by (rule maphash_less[OF m])
  obtain j where j: "j < ?n" "sdata st ! j = (l, w)" "l \<noteq> VNil" "struct_key ?n l" using struct_ok_keys[OF ok old(1)] by blast
  have vj: "?L ! j = Some (l, w)" using j by (simp add: view_nth scapacity_def)
  have c: "key_order type_of key l = 0"
    using key_order_equals[OF key(1)] j(4) janet_equals_sym[OF old(2)] by (simp add: struct_key_def)
  define M where "M = (if replace then ?L[j := Some (l, v)] else ?L)"
  have "rh.put ?n type_of replace ?L (rh.slot ?n ?h 0) 0 key v ?n = Some (M, False)"
    unfolding M_def using rh.dist_less[of ?n j key] h by (intro rh.put_known[OF L gk j(1) vj c]) auto
  then have put: "rh.put ?n type_of replace ?L ?h 0 key v ?n = Some (M, False)" using rh.slot_0[OF h] by simp
  obtain kvs where K: "janet_struct_put_ext type_of replace st key v
      = Inr (JanetStruct (slength st) (shash st) kvs (sproto st))" "view kvs = M" "clean kvs" "length kvs = ?n"
    using put_ext_loop[OF ok key nn room refl put] by auto
  let ?st2 = "JanetStruct (slength st) (shash st) kvs (sproto st)"
  have cap: "scapacity ?st2 = ?n" using K(4) by (simp add: scapacity_def)
  have len: "length ?L = ?n" by (simp add: scapacity_def)
  have "rh.layout ?n type_of M" unfolding M_def using L rh.layout_value[OF L j(1) vj] by simp
  moreover have "rh.vacancies ?n M = rh.vacancies ?n ?L" unfolding M_def using rh.vacancies_set(2)[OF len j(1)] vj by simp
  ultimately have "struct_ok type_of ?st2" using ok K unfolding struct_ok_def cap by auto
  moreover have "sentries ?st2 = (if replace then insert (l, v) (sentries st - {(l, w)}) else sentries st)"
    unfolding sentries_view using K(2) rh.entries_set[OF L j(1), of l v] vj by (simp add: M_def)
  ultimately show ?thesis using K(1) cap by auto
qed

subsection \<open>The map it stands for\<close>

definition put_map :: "bool \<Rightarrow> jv \<Rightarrow> jv \<Rightarrow> (jv \<Rightarrow> jv option) \<Rightarrow> jv \<Rightarrow> jv option" where
  "put_map replace k v m = (if ignored k v \<or> (\<not> replace \<and> m k \<noteq> None) then m
     else (\<lambda>j. if janet_equals k j then Some v else m j))"

lemma struct_map_equal: "janet_equals i j \<Longrightarrow> struct_map st i = struct_map st j"
  unfolding struct_map_def using janet_equals_trans janet_equals_sym by (metis (mono_tags, lifting) find_cong)

lemma struct_map_eqI:
  assumes "struct_ok type_of st" and "\<And>j v. m j = Some v \<longleftrightarrow> (\<exists>k. (k, v) \<in> sentries st \<and> janet_equals k j)"
  shows "struct_map st = m"
proof
  fix j show "struct_map st j = m j"
    using struct_map_iff[OF assms(1), of j] assms(2)[of j] by (cases "struct_map st j"; cases "m j") fastforce+
qed

text \<open>Every insertion that is not turned away for lack of room.\<close>

lemma put_ext_ok:
  assumes ok: "struct_ok type_of st" and key: "put_key k" and room: "shash st < slength st"
  shows "\<exists>st2. janet_struct_put_ext type_of replace st k v = Inr st2 \<and> struct_ok type_of st2
    \<and> slength st2 = slength st \<and> sproto st2 = sproto st \<and> scapacity st2 = scapacity st
    \<and> struct_map st2 = put_map replace k v (struct_map st) \<and> shash st \<le> shash st2 \<and> shash st2 \<le> shash st + 1
    \<and> (\<not> ignored k v \<and> struct_map st k = None \<longrightarrow> shash st2 = shash st + 1 \<and> sentries st2 = insert (k, v) (sentries st))"
proof (cases "ignored k v")
  case True
  then show ?thesis using put_ignored[of k v type_of replace st] ok by (auto simp: put_map_def)
next
  case False
  then have k: "comparable k" "k \<noteq> VNil" "v \<noteq> VNil" using put_key_comparable[OF key] by auto
  note iff = struct_map_iff[OF ok]
  show ?thesis
  proof (cases "struct_map st k")
    case None
    obtain st2 where S: "janet_struct_put_ext type_of replace st k v = Inr st2" "struct_ok type_of st2"
      "slength st2 = slength st" "sproto st2 = sproto st" "shash st2 = shash st + 1" "scapacity st2 = scapacity st"
      "sentries st2 = insert (k, v) (sentries st)" using put_ext_fresh[OF ok k room None] by blast
    have "struct_map st j = None" if "janet_equals k j" for j using struct_map_equal[OF that] None by metis
    then have "put_map replace k v (struct_map st) j = Some u \<longleftrightarrow> (\<exists>i. (i, u) \<in> sentries st2 \<and> janet_equals i j)" for j u
      using False None iff[of j u] unfolding put_map_def S(7) by auto
    then have "struct_map st2 = put_map replace k v (struct_map st)" by (rule struct_map_eqI[OF S(2)])
    then show ?thesis using S by auto
  next
    case (Some w)
    then obtain l where l: "(l, w) \<in> sentries st" "janet_equals l k" using iff by blast
    obtain st2 where S: "janet_struct_put_ext type_of replace st k v = Inr st2" "struct_ok type_of st2"
      "slength st2 = slength st" "sproto st2 = sproto st" "shash st2 = shash st" "scapacity st2 = scapacity st"
      "sentries st2 = (if replace then insert (l, v) (sentries st - {(l, w)}) else sentries st)"
      using put_ext_known[OF ok k room l] by blast
    have lk: "janet_equals l j \<longleftrightarrow> janet_equals k j" for j using l(2) janet_equals_sym janet_equals_trans by blast
    have one: "struct_map st j = Some w" if "janet_equals k j" for j using struct_map_equal[OF that] Some by metis
    have "put_map replace k v (struct_map st) j = Some u \<longleftrightarrow> (\<exists>i. (i, u) \<in> sentries st2 \<and> janet_equals i j)" for j u
    proof (cases replace)
      case True
      show ?thesis
      proof (cases "janet_equals k j")
        case True
        have "(i, u) \<notin> sentries st - {(l, w)}" if "janet_equals i j" for i
        proof
          assume i: "(i, u) \<in> sentries st - {(l, w)}"
          obtain p q where "p < scapacity st" "sdata st ! p = (i, u)" "q < scapacity st" "sdata st ! q = (l, w)" "i \<noteq> VNil" "l \<noteq> VNil"
            using struct_ok_keys[OF ok, of i u] struct_ok_keys[OF ok l(1)] i by blast
          moreover have "janet_equals i l" using that True lk janet_equals_sym janet_equals_trans by blast
          ultimately show False using struct_ok_unique[OF ok, of p q i u l w] i by auto
        qed
        then show ?thesis using True False \<open>replace\<close> lk[of j] by (auto simp: put_map_def S(7))
      next
        case F: False
        then show ?thesis using False \<open>replace\<close> lk[of j] iff[of j u] by (auto simp: put_map_def S(7))
      qed
    next
      case F: False
      then have "put_map replace k v (struct_map st) = struct_map st" using Some by (simp add: put_map_def)
      then show ?thesis using iff[of j u] S(7) F by simp
    qed
    then have "struct_map st2 = put_map replace k v (struct_map st)" by (rule struct_map_eqI[OF S(2)])
    then show ?thesis using S Some by auto
  qed
qed


subsection \<open>Many insertions\<close>

fun put_pairs :: "(64 word \<Rightarrow> 64 word) \<Rightarrow> bool \<Rightarrow> (jv \<times> jv) list \<Rightarrow> jstruct \<Rightarrow> fault + jstruct" where
  "put_pairs type_of replace [] st = Inr st"
| "put_pairs type_of replace (e # es) st =
     rbind (janet_struct_put_ext type_of replace st (fst e) (snd e)) (put_pairs type_of replace es)"

fun pairs :: "jv list \<Rightarrow> (jv \<times> jv) list" where
  "pairs (k # v # rest) = (k, v) # pairs rest"
| "pairs _ = []"

definition full_slots :: "buckets \<Rightarrow> (jv \<times> jv) list" where
  "full_slots kvs = filter (\<lambda>kv. fst kv \<noteq> VNil) kvs"

definition real_pairs :: "(jv \<times> jv) list \<Rightarrow> (jv \<times> jv) list" where
  "real_pairs es = filter (\<lambda>e. \<not> ignored (fst e) (snd e)) es"

definition unequal :: "(jv \<times> jv) list \<Rightarrow> bool" where
  "unequal es = sorted_wrt (\<lambda>a b. \<not> janet_equals (fst a) (fst b)) es"

lemma put_pairs_append:
  "put_pairs type_of replace (a @ b) st = rbind (put_pairs type_of replace a st) (put_pairs type_of replace b)"
proof (induction a arbitrary: st)
  case (Cons e a)
  then show ?case by (cases "janet_struct_put_ext type_of replace st (fst e) (snd e)") simp_all
qed simp

lemma put_args_pairs: "put_args type_of args st = put_pairs type_of True (pairs args) st"
proof (induction type_of args st rule: put_args.induct)
  case (1 type_of k v rest st)
  then show ?case by (cases "janet_struct_put_ext type_of True st k v") (simp_all add: janet_struct_put_def)
qed simp_all

lemma put_all_pairs: "put_all type_of replace kvs st = put_pairs type_of replace (full_slots kvs) st"
proof (induction kvs arbitrary: st)
  case (Cons kv kvs)
  then show ?case by (cases "janet_struct_put_ext type_of replace st (fst kv) (snd kv)") (simp_all add: full_slots_def)
qed (simp add: full_slots_def)

lemma flatten_pairs:
  "flatten_structs type_of sts st = put_pairs type_of False (concat (map (\<lambda>s. full_slots (sdata s)) sts)) st"
proof (induction sts arbitrary: st)
  case (Cons s sts)
  then show ?case
    by (cases "put_pairs type_of False (full_slots (sdata s)) st") (simp_all add: put_all_pairs put_pairs_append)
qed simp

lemma put_pairs_real: "put_pairs type_of replace es st = put_pairs type_of replace (real_pairs es) st"
proof (induction es arbitrary: st)
  case (Cons e es)
  then show ?case using put_ignored[of "fst e" "snd e" type_of replace st]
    by (cases "janet_struct_put_ext type_of replace st (fst e) (snd e)") (auto simp: real_pairs_def)
qed (simp add: real_pairs_def)

lemma put_pairs_ok:
  assumes "struct_ok type_of st" "\<forall>e \<in> set es. put_key (fst e)" "shash st + int (length es) \<le> slength st"
  shows "\<exists>st2. put_pairs type_of replace es st = Inr st2 \<and> struct_ok type_of st2 \<and> slength st2 = slength st
    \<and> sproto st2 = sproto st \<and> scapacity st2 = scapacity st
    \<and> struct_map st2 = fold (\<lambda>e. put_map replace (fst e) (snd e)) es (struct_map st)"
  using assms
proof (induction es arbitrary: st)
  case (Cons e es)
  have r: "shash st < slength st" "put_key (fst e)" using Cons.prems by auto
  obtain st1 where S: "janet_struct_put_ext type_of replace st (fst e) (snd e) = Inr st1" "struct_ok type_of st1"
    "slength st1 = slength st" "sproto st1 = sproto st" "scapacity st1 = scapacity st"
    "struct_map st1 = put_map replace (fst e) (snd e) (struct_map st)" "shash st1 \<le> shash st + 1"
    using put_ext_ok[OF Cons.prems(1) r(2,1), of replace "snd e"] by blast
  have "shash st1 + int (length es) \<le> slength st1" using S(3,7) Cons.prems(3) by simp
  then show ?case using Cons.IH[OF S(2)] Cons.prems(2) S by simp
qed simp

lemma put_pairs_fresh:
  assumes "struct_ok type_of st" "\<forall>e \<in> set es. put_key (fst e) \<and> \<not> ignored (fst e) (snd e)"
    "shash st + int (length es) \<le> slength st" "unequal es" "\<forall>e \<in> set es. struct_map st (fst e) = None"
    "put_pairs type_of replace es st = Inr st2"
  shows "sentries st2 = sentries st \<union> set es" and "shash st2 = shash st + int (length es)"
proof -
  have "sentries st2 = sentries st \<union> set es \<and> shash st2 = shash st + int (length es)"
    using assms
  proof (induction es arbitrary: st)
    case (Cons e es)
    have r: "shash st < slength st" "put_key (fst e)" using Cons.prems by auto
    obtain st1 where S: "janet_struct_put_ext type_of replace st (fst e) (snd e) = Inr st1" "struct_ok type_of st1"
      "slength st1 = slength st" "struct_map st1 = put_map replace (fst e) (snd e) (struct_map st)"
      "shash st1 = shash st + 1" "sentries st1 = insert e (sentries st)"
      using put_ext_ok[OF Cons.prems(1) r(2,1), of replace "snd e"] Cons.prems(2,5) by auto
    have "\<forall>x \<in> set es. \<not> janet_equals (fst e) (fst x)" using Cons.prems(4) by (auto simp: unequal_def)
    then have "\<forall>x \<in> set es. struct_map st1 (fst x) = None" using S(4) Cons.prems(5) by (auto simp: put_map_def)
    moreover have "put_pairs type_of replace es st1 = Inr st2" using Cons.prems(6) S(1) by simp
    ultimately show ?case using Cons.IH[OF S(2)] Cons.prems(2,3,4) S(3,5,6) by (auto simp: unequal_def)
  qed simp
  then show "sentries st2 = sentries st \<union> set es" "shash st2 = shash st + int (length es)" by auto
qed

subsection \<open>The beginning and the end of building\<close>

lemma struct_begin_ok:
  assumes "0 \<le> count" "count < 2 ^ 29"
  shows "\<exists>st. janet_struct_begin count = Inr st \<and> struct_ok type_of st \<and> slength st = count \<and> shash st = 0
    \<and> sproto st = None \<and> sentries st = {} \<and> struct_map st = (\<lambda>j. None)"
proof -
  obtain m where m: "janet_tablen (2 * count) = Inr (2 ^ m)" "2 * count < 2 ^ m" "m \<le> 30"
    using janet_tablen_pow2[of "2 * count"] assms by auto
  let ?kvs = "janet_memalloc_empty (2 ^ m)"
  let ?st = "JanetStruct count 0 ?kvs None"
  have "nat (2 ^ m) = 2 ^ m" by (simp add: nat_power_eq)
  then have B: "janet_struct_begin count = Inr ?st"
    using assms m(1) by (simp add: janet_struct_begin_def checked32_def int32_def nat_power_eq)
  have cap: "scapacity ?st = 2 ^ m" by (simp add: scapacity_def janet_memalloc_empty_def)
  have V: "view ?kvs = replicate (2 ^ m) None" by (simp add: view_def janet_memalloc_empty_def)
  have "{i. i < 2 ^ m \<and> view ?kvs ! i = None} = {..<2 ^ m}" using V by auto
  then have "rh.vacancies (2 ^ m) (view ?kvs) = 2 ^ m" unfolding rh.vacancies_def by simp
  moreover have "rh.layout (2 ^ m) type_of (view ?kvs)" unfolding rh.layout_def V by simp
  moreover have "clean ?kvs" by (simp add: clean_def janet_memalloc_empty_def)
  moreover have "count < 2 ^ m" using m(2) assms by simp
  ultimately have ok: "struct_ok type_of ?st" using m(3) assms unfolding struct_ok_def cap by auto
  have E: "sentries ?st = {}" by (auto simp: sentries_def janet_memalloc_empty_def)
  then have "struct_map ?st = (\<lambda>j. None)" by (intro ext) (auto simp: struct_map_none)
  then show ?thesis using B ok E by auto
qed

text \<open>The fields a search does not read.\<close>

lemma same_data:
  assumes "sdata a = sdata b"
  shows "struct_map a = struct_map b" "sentries a = sentries b" "scapacity a = scapacity b"
    "janet_struct_find a k = janet_struct_find b k" "janet_struct_rawget a k = janet_struct_rawget b k"
  unfolding struct_map_def sentries_def scapacity_def janet_struct_find_def janet_struct_rawget_def assms by (rule refl)+

lemma struct_map_entries:
  "struct_ok type_of a \<Longrightarrow> struct_ok type_of b \<Longrightarrow> sentries a = sentries b \<Longrightarrow> struct_map a = struct_map b"
  using struct_map_iff by (intro struct_map_eqI) auto

lemma struct_ok_full_slots:
  assumes ok: "struct_ok type_of st"
  shows "set (full_slots (sdata st)) = sentries st" "int (length (full_slots (sdata st))) = shash st"
    "unequal (full_slots (sdata st))" "\<forall>e \<in> set (full_slots (sdata st)). put_key (fst e) \<and> \<not> ignored (fst e) (snd e)"
    "distinct (full_slots (sdata st))"
proof -
  let ?es = "full_slots (sdata st)"
  show es: "set ?es = sentries st" by (auto simp: full_slots_def sentries_def)
  have N: "length (sdata st) = scapacity st" by (simp add: scapacity_def)
  have "rh.vacancies (scapacity st) (view (sdata st)) = card {i. i < length (sdata st) \<and> fst (sdata st ! i) = VNil}"
    unfolding rh.vacancies_def by (rule arg_cong[where f = card]) (auto simp: view_nth scapacity_def split: if_splits)
  also have "\<dots> = length (filter (\<lambda>kv. fst kv = VNil) (sdata st))" by (simp add: length_filter_conv_card)
  finally show "int (length ?es) = shash st"
    using ok sum_length_filter_compl[of "\<lambda>kv. fst kv = VNil" "sdata st"] N by (auto simp: struct_ok_def full_slots_def)
  have "sorted_wrt (\<lambda>a b. fst a \<noteq> VNil \<longrightarrow> fst b \<noteq> VNil \<longrightarrow> \<not> janet_equals (fst a) (fst b)) (sdata st)"
    unfolding sorted_wrt_iff_nth_less
  proof (intro allI impI)
    fix i j assume "i < j" "j < length (sdata st)" "fst (sdata st ! i) \<noteq> VNil" "fst (sdata st ! j) \<noteq> VNil"
    then show "\<not> janet_equals (fst (sdata st ! i)) (fst (sdata st ! j))"
      using struct_ok_unique[OF ok, of i j "fst (sdata st ! i)" "snd (sdata st ! i)" "fst (sdata st ! j)" "snd (sdata st ! j)"] N
      by auto
  qed
  then show U: "unequal ?es"
    unfolding unequal_def full_slots_def by (intro sorted_wrt_mono_rel[OF _ sorted_wrt_filter]) auto
  show P: "\<forall>e \<in> set ?es. put_key (fst e) \<and> \<not> ignored (fst e) (snd e)"
  proof
    fix e assume "e \<in> set ?es"
    then have "(fst e, snd e) \<in> sentries st" using es by simp
    from struct_ok_keys[OF ok this] have "comparable (fst e)" "fst e \<noteq> VNil" "snd e \<noteq> VNil" by (auto simp: struct_key_def)
    then show "put_key (fst e) \<and> \<not> ignored (fst e) (snd e)" by (auto simp: put_key_def ignored_def isnan_def)
  qed
  have "\<forall>e \<in> set ?es. janet_equals (fst e) (fst e)"
  proof
    fix e assume "e \<in> set ?es"
    then have c: "comparable (fst e)" using P put_key_comparable by blast
    show "janet_equals (fst e) (fst e)" using compare_equals[OF c c] value_order.refl0[of "fst e"] c by simp
  qed
  then have "es ! i \<noteq> es ! j" if "i < j" "j < length es" "es = ?es" for i j es
    using U that sorted_wrt_nth_less[of _ es i j] unfolding unequal_def by (metis nth_mem)
  then show "distinct ?es" unfolding distinct_conv_nth by (metis linorder_neqE_nat)
qed


definition final_hash :: "buckets \<Rightarrow> jstruct option \<Rightarrow> int" where
  "final_hash kvs p = sint (case p of None \<Rightarrow> janet_kv_calchash kvs
     | Some q \<Rightarrow> janet_kv_calchash kvs + 2654435761 * word_of_int (shash q))"

lemma struct_end_ok:
  assumes ok: "struct_ok type_of st" and small: "slength st \<le> 2 ^ 29"
    and sized: "\<exists>st0. janet_struct_begin (slength st) = Inr st0 \<and> scapacity st0 = scapacity st"
  shows "\<exists>st2 st0. janet_struct_end type_of st = Inr st2 \<and> struct_ok type_of (JanetStruct (slength st2) (slength st2) (sdata st2) None)
    \<and> slength st2 = shash st \<and> sproto st2 = sproto st \<and> sentries st2 = sentries st \<and> struct_map st2 = struct_map st
    \<and> janet_struct_begin (slength st2) = Inr st0 \<and> scapacity st0 = scapacity st2
    \<and> shash st2 = final_hash (sdata st2) (sproto st2)"
proof -
  have F: "struct_ok type_of (JanetStruct (shash s) (shash s) (sdata s) None)" if "struct_ok type_of s" for s
    using that by (auto simp: struct_ok_def scapacity_def)
  show ?thesis
  proof (cases "shash st = slength st")
    case True
    obtain st2 where E: "janet_struct_end type_of st = Inr st2" "slength st2 = slength st" "sdata st2 = sdata st" "sproto st2 = sproto st"
      "shash st2 = final_hash (sdata st2) (sproto st2)"
      using True by (simp_all add: janet_struct_end_def Let_def final_hash_def)
    obtain st0 where "janet_struct_begin (slength st) = Inr st0" "scapacity st0 = scapacity st" using sized by blast
    then show ?thesis using E F[OF ok] True same_data[OF E(3)]
      by - (rule exI[where x = st2], rule exI[where x = st0], simp)
  next
    case False
    let ?es = "full_slots (sdata st)"
    note es = struct_ok_full_slots[OF ok]
    have s: "0 \<le> shash st" "shash st < 2 ^ 29" using ok small False by (auto simp: struct_ok_def)
    obtain new where n: "janet_struct_begin (shash st) = Inr new" "struct_ok type_of new" "slength new = shash st"
      "shash new = 0" "sentries new = {}" "struct_map new = (\<lambda>j. None)"
      using struct_begin_ok[OF s] by blast
    have room: "shash new + int (length ?es) \<le> slength new" using es(2) n(3,4) by simp
    obtain st1 where p: "put_pairs type_of True ?es new = Inr st1" "struct_ok type_of st1" "slength st1 = slength new"
      "scapacity st1 = scapacity new"
      using put_pairs_ok[OF n(2) _ room] es(4) by blast
    have f: "sentries st1 = sentries st" "shash st1 = shash st"
      using put_pairs_fresh[OF n(2) es(4) room es(3) _ p(1)] n(4-6) es(1,2) by simp_all
    obtain st2 where E: "janet_struct_end type_of st = Inr st2" "slength st2 = slength st1" "sdata st2 = sdata st1" "sproto st2 = sproto st"
      "shash st2 = final_hash (sdata st2) (sproto st2)"
      using False p(1) n(1) by (simp_all add: janet_struct_end_def Let_def put_all_pairs final_hash_def split: option.split)
    have "struct_map st1 = struct_map st" by (rule struct_map_entries[OF p(2) ok f(1)])
    then show ?thesis using E F[OF p(2)] f p(3,4) n(1,3) same_data[OF E(3)]
      by - (rule exI[where x = st2], rule exI[where x = new], simp)
  qed
qed

text \<open>The entries determine the struct.\<close>

lemma struct_canonical:
  assumes a: "struct_ok type_of a" "shash a = slength a" "janet_struct_begin (slength a) = Inr a0" "scapacity a0 = scapacity a"
    and b: "struct_ok type_of b" "shash b = slength b" "janet_struct_begin (slength b) = Inr b0" "scapacity b0 = scapacity b"
    and e: "sentries a = sentries b"
  shows "slength a = slength b" "sdata a = sdata b"
proof -
  have l: "shash s = int (card (sentries s))" if "struct_ok type_of s" for s
    using struct_ok_full_slots[OF that] distinct_card by metis
  then show len: "slength a = slength b" using a(1,2) b(1,2) e by metis
  then have cap: "scapacity a = scapacity b" using a(3,4) b(3,4) by simp
  have "rh.layout (scapacity a) type_of (view (sdata a))" "rh.layout (scapacity a) type_of (view (sdata b))"
    using a(1) b(1) cap by (simp_all add: struct_ok_def)
  moreover have "rh.entries (view (sdata a)) = rh.entries (view (sdata b))" using e by (simp add: sentries_view)
  ultimately have "view (sdata a) = view (sdata b)"
    using struct_ok_vacant[OF a(1)] struct_ok_vacant[OF b(1)] cap rh.layout_canonical by metis
  then show "sdata a = sdata b" using a(1) b(1) by (intro view_inj) (auto simp: struct_ok_def)
qed


subsection \<open>Construction\<close>

lemma length_pairs: "length (pairs args) = length args div 2"
  by (induction args rule: pairs.induct) simp_all

lemma put_map_last:
  "fold (\<lambda>e. put_map True (fst e) (snd e)) es m j =
     (case find (\<lambda>e. \<not> ignored (fst e) (snd e) \<and> janet_equals (fst e) j) (rev es) of Some e \<Rightarrow> Some (snd e) | None \<Rightarrow> m j)"
  by (induction es rule: rev_induct) (auto simp: put_map_def)

lemma put_map_first:
  assumes "\<And>i j. janet_equals i j \<Longrightarrow> m i = m j" "\<forall>e \<in> set es. \<not> ignored (fst e) (snd e)"
  shows "fold (\<lambda>e. put_map False (fst e) (snd e)) es m j =
     (case m j of Some v \<Rightarrow> Some v | None \<Rightarrow> map_option snd (find (\<lambda>e. janet_equals (fst e) j) es))"
  using assms
proof (induction es arbitrary: m)
  case Nil
  then show ?case by (simp split: option.split)
next
  case (Cons e es)
  let ?m = "put_map False (fst e) (snd e) m"
  have "janet_equals (fst e) i \<longleftrightarrow> janet_equals (fst e) k" if "janet_equals i k" for i k
    using that janet_equals_sym janet_equals_trans by blast
  then have "?m i = ?m k" if "janet_equals i k" for i k using Cons.prems(1) that by (simp add: put_map_def)
  from Cons.IH[OF this] Cons.prems show ?case by (cases "m (fst e)") (auto simp: put_map_def split: option.splits)
qed

lemma sealed_rawget:
  assumes "struct_ok type_of (JanetStruct (slength st) (slength st) (sdata st) None)" "comparable key" "key \<noteq> VNil"
  shows "janet_struct_rawget st key = Inr (case struct_map st key of Some v \<Rightarrow> v | None \<Rightarrow> VNil)"
  using janet_struct_rawget_ok[OF assms] same_data(1,5)[of st "JanetStruct (slength st) (slength st) (sdata st) None"] by simp

text \<open>A struct that is finished, and so are its prototypes.\<close>

fun sealed :: "(64 word \<Rightarrow> 64 word) \<Rightarrow> jstruct \<Rightarrow> bool" where
  "sealed type_of (JanetStruct l h d p) = (struct_ok type_of (JanetStruct l l d None)
     \<and> (case p of None \<Rightarrow> True | Some q \<Rightarrow> sealed type_of q))"

lemma sealed_ok: "sealed type_of st \<Longrightarrow> struct_ok type_of (JanetStruct (slength st) (slength st) (sdata st) None)"
  by (cases st) simp

lemma struct_built:
  assumes "0 \<le> count" "count < 2 ^ 29" "int (length es) \<le> count" "\<forall>e \<in> set es. put_key (fst e)"
  shows "\<exists>st0 st1 st2 st3. janet_struct_begin count = Inr st0 \<and> put_pairs type_of replace es st0 = Inr st1
    \<and> janet_struct_end type_of (JanetStruct (slength st1) (shash st1) (sdata st1) p) = Inr st2
    \<and> struct_ok type_of (JanetStruct (slength st2) (slength st2) (sdata st2) None) \<and> sproto st2 = p
    \<and> struct_map st2 = fold (\<lambda>e. put_map replace (fst e) (snd e)) es (\<lambda>j. None)
    \<and> janet_struct_begin (slength st2) = Inr st3 \<and> scapacity st3 = scapacity st2
    \<and> (unequal (real_pairs es) \<longrightarrow> sentries st2 = set (real_pairs es)) \<and> sproto st1 = None
    \<and> shash st2 = final_hash (sdata st2) p \<and> slength st2 \<le> count"
proof -
  obtain st0 where b: "janet_struct_begin count = Inr st0" "struct_ok type_of st0" "slength st0 = count" "shash st0 = 0"
    "sentries st0 = {}" "struct_map st0 = (\<lambda>j. None)" "sproto st0 = None"
    using struct_begin_ok[OF assms(1,2)] by blast
  obtain st1 where s: "put_pairs type_of replace es st0 = Inr st1" "struct_ok type_of st1" "slength st1 = slength st0"
    "scapacity st1 = scapacity st0" "struct_map st1 = fold (\<lambda>e. put_map replace (fst e) (snd e)) es (struct_map st0)"
    "sproto st1 = sproto st0"
    using put_pairs_ok[OF b(2) assms(4)] assms(3) b(3,4) by auto
  let ?st1 = "JanetStruct (slength st1) (shash st1) (sdata st1) p"
  have ok: "struct_ok type_of ?st1" using s(2) by (simp add: struct_ok_def scapacity_def)
  have "\<exists>x. janet_struct_begin (slength ?st1) = Inr x \<and> scapacity x = scapacity ?st1"
    using b(1,3) s(3,4) by (auto simp: scapacity_def)
  then obtain st2 st3 where e: "janet_struct_end type_of ?st1 = Inr st2"
    "struct_ok type_of (JanetStruct (slength st2) (slength st2) (sdata st2) None)" "sproto st2 = p"
    "sentries st2 = sentries ?st1" "struct_map st2 = struct_map ?st1" "janet_struct_begin (slength st2) = Inr st3"
    "scapacity st3 = scapacity st2" "shash st2 = final_hash (sdata st2) p"
    "slength st2 = shash st1"
    using struct_end_ok[OF ok] s(3) b(3) assms(2) by auto
  have "sentries st2 = set (real_pairs es)" if "unequal (real_pairs es)"
  proof -
    have "\<forall>e \<in> set (real_pairs es). put_key (fst e) \<and> \<not> ignored (fst e) (snd e)" using assms(4) by (auto simp: real_pairs_def)
    moreover have "shash st0 + int (length (real_pairs es)) \<le> slength st0"
      using assms(3) b(3,4) length_filter_le[of _ es] unfolding real_pairs_def by (smt (verit) of_nat_mono)
    moreover have "put_pairs type_of replace (real_pairs es) st0 = Inr st1" using s(1) put_pairs_real by metis
    ultimately show ?thesis using put_pairs_fresh(1)[OF b(2)] that b(5,6) e(4) same_data(2)[of ?st1 st1] by auto
  qed
  moreover have "slength st2 \<le> count" using e(9) s(2,3) b(3) by (simp add: struct_ok_def)
  ultimately show ?thesis using b s e same_data(1)[of ?st1 st1] by auto
qed

lemma with_proto_built:
  assumes "even (length args)" "length args < 2 ^ 30" "\<forall>e \<in> set (pairs args). put_key (fst e)"
  shows "\<exists>st st0. cfun_struct_with_proto type_of p args = okay st
    \<and> struct_ok type_of (JanetStruct (slength st) (slength st) (sdata st) None) \<and> sproto st = p
    \<and> struct_map st = fold (\<lambda>e. put_map True (fst e) (snd e)) (pairs args) (\<lambda>j. None)
    \<and> janet_struct_begin (slength st) = Inr st0 \<and> scapacity st0 = scapacity st
    \<and> (unequal (real_pairs (pairs args)) \<longrightarrow> sentries st = set (real_pairs (pairs args)))
    \<and> shash st = final_hash (sdata st) p \<and> slength st \<le> int (length (pairs args))"
proof -
  have c: "(int (length args) + 1) mod 2 \<noteq> 0" "(int (length args) + 1) div 2 = int (length (pairs args))"
    using assms(1) by (auto simp: length_pairs elim!: evenE)
  have l: "0 \<le> int (length (pairs args))" "int (length (pairs args)) < 2 ^ 29" using assms(2) by (auto simp: length_pairs)
  show ?thesis using struct_built[OF l order_refl assms(3), of type_of True p] c
    by (auto simp: cfun_struct_with_proto_def Let_def put_args_pairs faults_def okay_def)
qed

lemma with_proto_sealed:
  assumes "even (length args)" "length args < 2 ^ 30" "\<forall>e \<in> set (pairs args). put_key (fst e)"
    and "\<forall>q. p = Some q \<longrightarrow> sealed type_of q"
  shows "\<exists>st. cfun_struct_with_proto type_of p args = okay st \<and> sealed type_of st \<and> sproto st = p
    \<and> slength st \<le> int (length (pairs args))"
proof -
  obtain st where st: "cfun_struct_with_proto type_of p args = okay st" "sproto st = p"
    "struct_ok type_of (JanetStruct (slength st) (slength st) (sdata st) None)" "slength st \<le> int (length (pairs args))"
    using with_proto_built[OF assms(1-3), of type_of p] by blast
  then have "sealed type_of st" using assms(4) by (cases st) (simp split: option.split)
  then show ?thesis using st by blast
qed

subsection \<open>The properties\<close>

text \<open>\<open>struct/with-proto\<close> on any keys and values (keys without a NaN inside a tuple):
  an odd number of them panics; otherwise the struct has the given prototype and a key is bound to
  the value of the last pair with an equal key, where pairs whose key is nil or NaN or whose value is
  nil do not count. That holds through the displacement of entries and through the rebuild when
  some pairs did not count.\<close>

theorem struct_lookup:
  assumes "length args < 2 ^ 30" and "\<forall>e \<in> set (pairs args). put_key (fst e)"
  shows "if odd (length args)
    then cfun_struct_with_proto type_of p args = raises ''expected odd number of arguments'' []
    else \<exists>st. cfun_struct_with_proto type_of p args = okay st \<and> cfun_struct_getproto st = okay p
      \<and> (\<forall>key. comparable key \<and> key \<noteq> VNil \<longrightarrow> janet_struct_rawget st key =
          Inr (case find (\<lambda>e. \<not> ignored (fst e) (snd e) \<and> janet_equals (fst e) key) (rev (pairs args)) of
            Some e \<Rightarrow> snd e | None \<Rightarrow> VNil))"
proof (cases "odd (length args)")
  case True
  then show ?thesis by (auto simp: cfun_struct_with_proto_def Let_def elim!: oddE)
next
  case False
  then have "even (length args)" by simp
  from with_proto_built[OF this assms, of type_of p] obtain st where
    st: "cfun_struct_with_proto type_of p args = okay st" "sproto st = p"
    "struct_ok type_of (JanetStruct (slength st) (slength st) (sdata st) None)"
    "struct_map st = fold (\<lambda>e. put_map True (fst e) (snd e)) (pairs args) (\<lambda>j. None)" by blast
  have "janet_struct_rawget st key = Inr (case find (\<lambda>e. \<not> ignored (fst e) (snd e) \<and> janet_equals (fst e) key) (rev (pairs args)) of
      Some e \<Rightarrow> snd e | None \<Rightarrow> VNil)" if "comparable key" "key \<noteq> VNil" for key
    using sealed_rawget[OF st(3) that] by (simp add: st(4) put_map_last split: option.split)
  then show ?thesis using False st(1,2) by (simp add: cfun_struct_getproto_def)
qed

theorem struct_lookup_witness:
  "\<exists>st. cfun_struct_with_proto (\<lambda>a. a) None [VKey [97], VBool True, VStr [98], VNil, VKey [97], VBool False] = okay st
    \<and> janet_struct_rawget st (VKey [97]) = Inr (VBool False) \<and> janet_struct_rawget st (VStr [98]) = Inr VNil"
  using struct_lookup[of "[VKey [97], VBool True, VStr [98], VNil, VKey [97], VBool False]" "\<lambda>a. a" None]
  by (fastforce simp: put_key_def ignored_def)

text \<open>C33. What the displacement is for: two argument lists whose pairs that count are the same
  set, with no two equal keys, give the identical struct: the same slots in the same places, the same
  length and the same hash, whatever the order of the pairs and whatever else was left out. So
  comparing structs slot by slot is comparing their contents.\<close>

theorem struct_order_independent:
  assumes "even (length args)" "length args < 2 ^ 30" "\<forall>e \<in> set (pairs args). put_key (fst e)"
    and "even (length brgs)" "length brgs < 2 ^ 30" "\<forall>e \<in> set (pairs brgs). put_key (fst e)"
    and "unequal (real_pairs (pairs args))" "unequal (real_pairs (pairs brgs))"
    and "set (real_pairs (pairs args)) = set (real_pairs (pairs brgs))"
  shows "cfun_struct_with_proto type_of p args = cfun_struct_with_proto type_of p brgs"
proof -
  obtain a a0 where a: "cfun_struct_with_proto type_of p args = okay a" "sproto a = p"
    "struct_ok type_of (JanetStruct (slength a) (slength a) (sdata a) None)" "janet_struct_begin (slength a) = Inr a0"
    "scapacity a0 = scapacity a" "shash a = final_hash (sdata a) p" "sentries a = set (real_pairs (pairs args))"
    using with_proto_built[OF assms(1-3), of type_of p] assms(7) by blast
  obtain b b0 where b: "cfun_struct_with_proto type_of p brgs = okay b" "sproto b = p"
    "struct_ok type_of (JanetStruct (slength b) (slength b) (sdata b) None)" "janet_struct_begin (slength b) = Inr b0"
    "scapacity b0 = scapacity b" "shash b = final_hash (sdata b) p" "sentries b = set (real_pairs (pairs brgs))"
    using with_proto_built[OF assms(4-6), of type_of p] assms(8) by blast
  have "slength a = slength b \<and> sdata a = sdata b"
    using struct_canonical[OF a(3) _ _ _ b(3), of a0 b0] a(4,5,7) b(4,5,7) assms(9) by (simp add: scapacity_def sentries_def)
  then have "a = b" using a(2,6) b(2,6) by (cases a; cases b) simp
  then show ?thesis using a(1) b(1) by simp
qed


theorem struct_order_independent_witness:
  "cfun_struct_with_proto (\<lambda>a. a) None [VKey [97], VBool True, VStr [98], VNil, VNum (Finite False 5), VKey [99]]
    = cfun_struct_with_proto (\<lambda>a. a) None [VNum (Finite False 5), VKey [99], VKey [97], VBool True]"
  by (rule struct_order_independent)
    (auto simp: put_key_def ignored_def real_pairs_def unequal_def dbl_wf_def isnan_def)

subsection \<open>Prototypes and tables\<close>

lemma find_full_slots: "map_option snd (find (\<lambda>e. janet_equals (fst e) j) (full_slots (sdata st))) = struct_map st j"
proof -
  have "find P (filter Q xs) = find (\<lambda>x. Q x \<and> P x) xs" for P Q and xs :: "(jv \<times> jv) list" by (induction xs) auto
  then show ?thesis by (simp add: struct_map_def full_slots_def)
qed

lemma sealed_find:
  assumes "sealed type_of st" "comparable key" "key \<noteq> VNil"
  shows "\<exists>i. janet_struct_find st key = Inr (Some i)
    \<and> (case struct_map st key of Some v \<Rightarrow> fst (sdata st ! i) \<noteq> VNil \<and> snd (sdata st ! i) = v | None \<Rightarrow> fst (sdata st ! i) = VNil)"
  using janet_struct_find_ok[OF sealed_ok[OF assms(1)] assms(2,3)]
    same_data(1,4)[of st "JanetStruct (slength st) (slength st) (sdata st) None"]
  by (auto split: option.splits)

lemma sealed_chain: "sealed type_of st \<Longrightarrow> s \<in> set (proto_chain st) \<Longrightarrow> sealed type_of s"
  by (induction st rule: proto_chain.induct) (auto split: option.splits)

text \<open>The first struct of the chain that has the key.\<close>

fun chain_map :: "jstruct list \<Rightarrow> jv \<Rightarrow> jv option" where
  "chain_map [] key = None"
| "chain_map (s # ss) key = (case struct_map s key of Some v \<Rightarrow> Some v | None \<Rightarrow> chain_map ss key)"

lemma struct_get_chain:
  "sealed type_of st \<Longrightarrow> comparable key \<Longrightarrow> key \<noteq> VNil \<Longrightarrow> length (proto_chain st) \<le> n \<Longrightarrow>
   \<exists>which. struct_get n (Some st) key = Inr (map_option (\<lambda>v. (v, which)) (chain_map (proto_chain st) key))"
proof (induction st arbitrary: n rule: proto_chain.induct)
  case (1 l h d p)
  let ?st = "JanetStruct l h d p"
  obtain m where n: "n = Suc m" using 1(5) by (cases n) auto
  obtain i where i: "janet_struct_find ?st key = Inr (Some i)"
    "case struct_map ?st key of Some v \<Rightarrow> fst (d ! i) \<noteq> VNil \<and> snd (d ! i) = v | None \<Rightarrow> fst (d ! i) = VNil"
    using sealed_find[OF 1(2-4), unfolded jstruct.sel] by blast
  show ?case
  proof (cases "struct_map ?st key")
    case Some
    then show ?thesis using i n by auto
  next
    case None
    show ?thesis
    proof (cases p)
      case p: None
      have "struct_get m None key = Inr None" by (cases m) simp_all
      then show ?thesis using i n None p by simp
    next
      case (Some q)
      then show ?thesis using 1(1)[OF Some, of m] 1(2-5) i n None by simp
    qed
  qed
qed

lemma find_chain:
  "map_option snd (find (\<lambda>e. janet_equals (fst e) j) (concat (map (\<lambda>s. full_slots (sdata s)) ss))) = chain_map ss j"
proof (induction ss)
  case (Cons s ss)
  then show ?case using find_full_slots[of j s] by (auto simp: find_append split: option.splits)
qed simp

lemma length_chain:
  "(\<And>s. s \<in> set ss \<Longrightarrow> int (length (f s)) = slength s) \<Longrightarrow> int (length (concat (map f ss))) = sum_list (map slength ss)"
  by (induction ss) simp_all

text \<open>A struct with a prototype.\<close>

lemma demo_chain:
  "\<exists>q st. cfun_struct_with_proto (\<lambda>a. a) None [VKey [97], VBool True] = okay q
    \<and> cfun_struct_with_proto (\<lambda>a. a) (Some q) [VKey [98], VBool False] = okay st \<and> sealed (\<lambda>a. a) st
    \<and> length (proto_chain st) = 2 \<and> sum_list (map slength (proto_chain st)) \<le> 2
    \<and> (\<forall>s \<in> set (proto_chain st). slength s \<le> 1)"
proof -
  obtain q where q: "cfun_struct_with_proto (\<lambda>a. a) None [VKey [97], VBool True] = okay q" "sealed (\<lambda>a. a) q"
    "sproto q = None" "slength q \<le> 1"
    using with_proto_sealed[of "[VKey [97], VBool True]" None "\<lambda>a. a"] by (auto simp: put_key_def)
  obtain st where st: "cfun_struct_with_proto (\<lambda>a. a) (Some q) [VKey [98], VBool False] = okay st" "sealed (\<lambda>a. a) st"
    "sproto st = Some q" "slength st \<le> 1"
    using with_proto_sealed[of "[VKey [98], VBool False]" "Some q" "\<lambda>a. a"] q(2) by (auto simp: put_key_def)
  have "proto_chain st = [st, q]" using q(3) st(3) by (cases st; cases q) simp
  then show ?thesis using q st by auto
qed

text \<open>C34. \<open>struct/proto-flatten\<close> of a finished struct with at most 200 structs in its
  chain and fewer than 2^29 entries: a finished struct without prototype, in which each key has the
  value the lookup through the chain of the original finds.\<close>

theorem struct_flatten:
  assumes "sealed type_of st" and "length (proto_chain st) \<le> JANET_MAX_PROTO_DEPTH"
    and "sum_list (map slength (proto_chain st)) < 2 ^ 29"
  shows "\<exists>f. cfun_struct_flatten type_of st = okay f \<and> sealed type_of f \<and> sproto f = None
    \<and> (\<forall>key. comparable key \<and> key \<noteq> VNil \<longrightarrow> janet_struct_rawget f key = janet_struct_get st key)"
proof -
  let ?c = "proto_chain st"
  let ?es = "concat (map (\<lambda>s. full_slots (sdata s)) ?c)"
  have each: "int (length (full_slots (sdata s))) = slength s" "\<forall>e \<in> set (full_slots (sdata s)). put_key (fst e) \<and> \<not> ignored (fst e) (snd e)"
    if "s \<in> set ?c" for s
    using struct_ok_full_slots(2,4)[OF sealed_ok[OF sealed_chain[OF assms(1) that]]] by simp_all
  have l: "int (length ?es) = sum_list (map slength ?c)"
    using each(1) by (rule length_chain)
  have g: "\<forall>e \<in> set ?es. put_key (fst e)" "\<forall>e \<in> set ?es. \<not> ignored (fst e) (snd e)" using each(2) by auto
  have b: "0 \<le> sum_list (map slength ?c)" using l by (metis of_nat_0_le_iff)
  have "int (length ?es) \<le> sum_list (map slength ?c)" using l by simp
  from struct_built[OF b assms(3) this g(1), of type_of False None]
  obtain st0 st1 f where f: "janet_struct_begin (sum_list (map slength ?c)) = Inr st0"
    "put_pairs type_of False ?es st0 = Inr st1"
    "janet_struct_end type_of (JanetStruct (slength st1) (shash st1) (sdata st1) None) = Inr f" "sproto st1 = None"
    "struct_ok type_of (JanetStruct (slength f) (slength f) (sdata f) None)" "sproto f = None"
    "struct_map f = fold (\<lambda>e. put_map False (fst e) (snd e)) ?es (\<lambda>j. None)"
    by blast
  have m: "struct_map f = chain_map ?c"
    using put_map_first[OF _ g(2), of "\<lambda>j. None"] find_chain f(7) by auto
  have "JanetStruct (slength st1) (shash st1) (sdata st1) None = st1" using f(4) by (cases st1) simp
  then have "cfun_struct_flatten type_of st = okay f"
    using f(1-3) assms(3) by (simp add: cfun_struct_flatten_def Let_def flatten_pairs faults_def okay_def)
  moreover have "sealed type_of f" using f(5,6) by (cases f) simp
  moreover have "janet_struct_rawget f key = janet_struct_get st key" if "comparable key" "key \<noteq> VNil" for key
  proof -
    note T = that
    obtain which where "struct_get JANET_MAX_PROTO_DEPTH (Some st) key = Inr (map_option (\<lambda>v. (v, which)) (chain_map ?c key))"
      using struct_get_chain[OF assms(1) T assms(2)] by blast
    then show ?thesis using sealed_rawget[OF f(5) T] m
      by (cases "chain_map ?c key") (simp_all add: janet_struct_get_def janet_struct_get_ex_def)
  qed
  ultimately show ?thesis using f(6) by blast
qed


theorem struct_flatten_witness:
  "\<exists>q st f. cfun_struct_with_proto (\<lambda>a. a) None [VKey [97], VBool True] = okay q
    \<and> cfun_struct_with_proto (\<lambda>a. a) (Some q) [VKey [98], VBool False] = okay st
    \<and> cfun_struct_flatten (\<lambda>a. a) st = okay f \<and> janet_struct_rawget f (VKey [97]) = janet_struct_get st (VKey [97])"
proof -
  obtain q st where q: "cfun_struct_with_proto (\<lambda>a. a) None [VKey [97], VBool True] = okay q"
    and st: "cfun_struct_with_proto (\<lambda>a. a) (Some q) [VKey [98], VBool False] = okay st" "sealed (\<lambda>a. a) st"
    "length (proto_chain st) = 2" "sum_list (map slength (proto_chain st)) \<le> 2"
    using demo_chain by blast
  have "length (proto_chain st) \<le> JANET_MAX_PROTO_DEPTH" using st(3) by (simp add: JANET_MAX_PROTO_DEPTH_def)
  moreover have "sum_list (map slength (proto_chain st)) < 2 ^ 29" using st(4) by simp
  ultimately obtain f where "cfun_struct_flatten (\<lambda>a. a) st = okay f"
    "janet_struct_rawget f (VKey [97]) = janet_struct_get st (VKey [97])"
    using struct_flatten[OF st(2)] by auto
  then show ?thesis using q st(1) by blast
qed

lemma comparable_no_nan: "comparable k \<Longrightarrow> no_nan k"
  by (induction k rule: no_nan.induct) simp_all

lemma mergekv_full_slots: "janet_table_mergekv t kvs = janet_table_mergekv t (full_slots kvs)"
proof (induction kvs arbitrary: t)
  case (Cons kv kvs)
  then show ?case by (cases "janet_table_put t (fst kv) (snd kv)") (simp_all add: full_slots_def)
qed (simp add: full_slots_def)

lemma find_unequal_rev:
  "unequal es \<Longrightarrow> find (\<lambda>e. janet_equals (fst e) j) (rev es) = find (\<lambda>e. janet_equals (fst e) j) es"
proof (induction es)
  case (Cons e es)
  have "find (\<lambda>e. janet_equals (fst e) j) es = None" if "janet_equals (fst e) j"
  proof -
    have "\<not> janet_equals (fst x) j" if "x \<in> set es" for x
      using Cons.prems that \<open>janet_equals (fst e) j\<close> janet_equals_sym janet_equals_trans unfolding unequal_def
      by (metis sorted_wrt.simps(2))
    then show ?thesis by (fastforce simp: find_None_iff)
  qed
  then show ?case using Cons by (auto simp: find_append unequal_def split: option.splits)
qed simp

lemma table_of_struct:
  assumes "sealed type_of s" "slength s < 2 ^ 29" "0 \<le> cap" "cap < 2 ^ 30"
  shows "\<exists>t0 t. janet_table cap = Inr t0 \<and> janet_table_mergekv t0 (sdata s) = Inr t \<and> table_ok t
    \<and> (\<forall>key. comparable key \<and> key \<noteq> VNil \<longrightarrow> janet_table_rawget t key = janet_struct_rawget s key)"
proof -
  let ?es = "full_slots (sdata s)"
  note F = struct_ok_full_slots[OF sealed_ok[OF assms(1)], unfolded jstruct.sel]
  obtain t0 where t0: "janet_table cap = Inr t0" "table_ok t0" "tcount t0 = 0" "\<forall>q. get t0 q = VNil"
    using new_table[OF assms(3,4)] by blast
  have v: "\<forall>kv \<in> set ?es. valid_key (fst kv)"
    using F(4) put_key_comparable comparable_no_nan by (fastforce simp: valid_key_def)
  have sp: "space t0 (length ?es)" using t0(3) F(2) assms(2) by (simp add: space_def)
  let ?t = "tab.insert_all ?es t0"
  have m: "janet_table_mergekv t0 (sdata s) = Inr ?t"
    using mergekv_insert_all[OF t0(2) sp v] mergekv_full_slots by metis
  have ok: "table_ok ?t" using tab.inv_insert_all[OF t0(2) sp v] .
  have "janet_table_rawget ?t key = janet_struct_rawget s key" if "comparable key" "key \<noteq> VNil" for key
    using rawget_get[OF ok, of key] tab.lookup_insert_all[OF t0(2) sp v, of key] sealed_rawget[OF sealed_ok[OF assms(1)] that]
      find_full_slots[of key s] find_unequal_rev[OF F(3), of key] t0(4)
    by (cases "struct_map s key") auto
  then show ?thesis using t0(1) m ok by blast
qed

lemma chain_tables_ok:
  "\<forall>s \<in> set ss. sealed type_of s \<and> slength s < 2 ^ 29 \<Longrightarrow>
   \<exists>tabs. chain_tables ss = Inr tabs \<and> list_all2 (\<lambda>t s. table_ok t
     \<and> (\<forall>key. comparable key \<and> key \<noteq> VNil \<longrightarrow> janet_table_rawget t key = janet_struct_rawget s key)) tabs ss"
proof (induction ss)
  case (Cons s ss)
  then obtain tabs where tabs: "chain_tables ss = Inr tabs" "list_all2 (\<lambda>t s. table_ok t
     \<and> (\<forall>key. comparable key \<and> key \<noteq> VNil \<longrightarrow> janet_table_rawget t key = janet_struct_rawget s key)) tabs ss" by auto
  have s: "sealed type_of s" "slength s < 2 ^ 29" using Cons.prems by simp_all
  have c: "0 \<le> slength s" using sealed_ok[OF s(1)] by (simp add: struct_ok_def)
  have "slength s < 2 ^ 30" using s(2) by simp
  from table_of_struct[OF s c this] tabs show ?case by auto
qed simp

text \<open>\<open>struct/to-table\<close> never faults on a finished struct: it gives one well-formed table
  per struct of the chain (or one, when not recursive), and each answers every lookup as its struct
  does, though the two search in different ways.\<close>

theorem struct_to_table:
  assumes "sealed type_of st" and "\<forall>s \<in> set (proto_chain st). slength s < 2 ^ 29"
  shows "\<exists>tabs. cfun_struct_to_table st recursive = okay tabs
    \<and> list_all2 (\<lambda>t s. table_ok t \<and> (\<forall>key. comparable key \<and> key \<noteq> VNil \<longrightarrow>
        janet_table_rawget t key = janet_struct_rawget s key)) tabs (if recursive then proto_chain st else [st])"
proof -
  have "st \<in> set (proto_chain st)" by (cases st) simp
  then have "\<forall>s \<in> set (if recursive then proto_chain st else [st]). sealed type_of s \<and> slength s < 2 ^ 29"
    using assms sealed_chain by auto
  from chain_tables_ok[OF this] show ?thesis
    by (auto simp: cfun_struct_to_table_def faults_def okay_def)
qed

theorem struct_to_table_witness:
  "\<exists>q st tabs. cfun_struct_with_proto (\<lambda>a. a) None [VKey [97], VBool True] = okay q
    \<and> cfun_struct_with_proto (\<lambda>a. a) (Some q) [VKey [98], VBool False] = okay st
    \<and> cfun_struct_to_table st True = okay tabs \<and> length tabs = 2
    \<and> janet_table_rawget (tabs ! 0) (VKey [98]) = janet_struct_rawget st (VKey [98])"
proof -
  obtain q st where q: "cfun_struct_with_proto (\<lambda>a. a) None [VKey [97], VBool True] = okay q"
    and st: "cfun_struct_with_proto (\<lambda>a. a) (Some q) [VKey [98], VBool False] = okay st" "sealed (\<lambda>a. a) st"
    "length (proto_chain st) = 2" "\<forall>s \<in> set (proto_chain st). slength s \<le> 1"
    using demo_chain by blast
  have "\<forall>s \<in> set (proto_chain st). slength s < 2 ^ 29" using st(4) by fastforce
  from struct_to_table[OF st(2) this, of True] obtain tabs where tabs: "cfun_struct_to_table st True = okay tabs"
    "list_all2 (\<lambda>t s. table_ok t \<and> (\<forall>key. comparable key \<and> key \<noteq> VNil \<longrightarrow>
        janet_table_rawget t key = janet_struct_rawget s key)) tabs (proto_chain st)" by auto
  have "proto_chain st ! 0 = st" by (cases st) simp
  then have "janet_table_rawget (tabs ! 0) (VKey [98]) = janet_struct_rawget st (VKey [98])"
    using list_all2_nthD2[OF tabs(2), of 0] st(3) by simp
  moreover have "length tabs = 2" using list_all2_lengthD[OF tabs(2)] st(3) by simp
  ultimately show ?thesis using q st(1) tabs(1) by blast
qed

end
