(* ===== verification/Sqlite.thy ===== *)
theory Sqlite
  imports Process Core
begin

text \<open>
  \<^verbatim>\<open>src/sqlite3/main.c\<close>: the binding to SQLite. The library is the system of
  \<^verbatim>\<open>Process\<close>: it answers each call from the calls before it. A program that
  loops over the library's answers is a partial function, whose \<open>None\<close> is a call that
  never returns.
\<close>

datatype sqvalue = SNull | SInt int | SFloat double | SText bytes | SBlob bytes

datatype sqcall =
    Sqlite3_open bytes
  | Close_v2 nat
  | Errmsg
  | Prepare_v2 nat bytes
  | Finalize nat
  | Step nat
  | Bind nat int sqvalue
  | Bind_parameter_count nat
  | Bind_parameter_index nat bytes
  | Column_count nat
  | Column_name nat nat
  | Column nat nat          \<comment> \<open>\<open>sqlite3_column_type\<close> and the reader for that type\<close>
  | Last_insert_rowid nat
  | Errcode nat

datatype sqreply =
    RInt int
  | RHandle int nat                    \<comment> \<open>status, connection\<close>
  | RPrepared int "nat option" bytes   \<comment> \<open>status, statement, what is left of the text\<close>
  | RBytes bytes
  | RValue sqvalue

fun status_of :: "sqreply \<Rightarrow> int" where
  "status_of (RInt i) = i"
| "status_of (RHandle i _) = i"
| "status_of (RPrepared i _ _) = i"
| "status_of _ = 0"

fun handle_of :: "sqreply \<Rightarrow> nat" where
  "handle_of (RHandle _ h) = h"
| "handle_of _ = 0"

fun stmt_of :: "sqreply \<Rightarrow> nat option" where
  "stmt_of (RPrepared _ s _) = s"
| "stmt_of _ = None"

fun tail_of :: "sqreply \<Rightarrow> bytes" where
  "tail_of (RPrepared _ _ t) = t"
| "tail_of _ = []"

fun text_of :: "sqreply \<Rightarrow> bytes" where
  "text_of (RBytes b) = b"
| "text_of _ = []"

fun column_of :: "sqreply \<Rightarrow> sqvalue" where
  "column_of (RValue v) = v"
| "column_of _ = SNull"

abbreviation SQLITE_OK :: int where "SQLITE_OK \<equiv> 0"
abbreviation SQLITE_ROW :: int where "SQLITE_ROW \<equiv> 100"
abbreviation SQLITE_DONE :: int where "SQLITE_DONE \<equiv> 101"

type_synonym sqlite = "(sqcall, sqreply) os"

definition cstr :: "bytes \<Rightarrow> bytes" where
  "cstr b = takeWhile (\<lambda>c. c \<noteq> 0) b"

subsection \<open>Connections\<close>

record db =
  handle :: nat
  flag_closed :: bool

definition closedb :: "sqlite \<Rightarrow> db \<Rightarrow> (sqcall, db) prog" where
  "closedb lib d =
     (if flag_closed d then ret d
      else bind (syscall lib (Close_v2 (handle d))) (\<lambda>_. ret (d\<lparr>flag_closed := True\<rparr>)))"

definition gcsqlite :: "sqlite \<Rightarrow> db \<Rightarrow> (sqcall, db) prog" where
  "gcsqlite lib d = closedb lib d"

definition getconn :: "janet list \<Rightarrow> nat \<Rightarrow> panic + unit" where
  "getconn argv n = (case argv ! n of
     JAbstract (AbsOther name _) \<Rightarrow>
       (if name = ''sqlite3.connection'' then Inr () else Inl (janet_panic_abstract (argv ! n) n ''sqlite3.connection''))
   | x \<Rightarrow> Inl (janet_panic_abstract x n ''sqlite3.connection''))"

text \<open>The connection of a failed open is not closed.\<close>

definition sql_open :: "sqlite \<Rightarrow> janet list \<Rightarrow> (sqcall, db) prog" where
  "sql_open lib argv =
     bind (checked (janet_fixarity (length argv) 1)) (\<lambda>_.
     bind (checked (janet_getstring argv 0)) (\<lambda>filename.
     bind (syscall lib (Sqlite3_open (cstr filename))) (\<lambda>r.
     if status_of r \<noteq> SQLITE_OK
     then bind (syscall lib Errmsg) (\<lambda>m. checked (Inl (Panic ''%s'' [ABytes (text_of m)])))
     else ret \<lparr>handle = handle_of r, flag_closed = False\<rparr>)))"

definition sql_close :: "sqlite \<Rightarrow> db \<Rightarrow> janet list \<Rightarrow> (sqcall, db) prog" where
  "sql_close lib d argv =
     bind (checked (janet_fixarity (length argv) 1)) (\<lambda>_.
     bind (checked (getconn argv 0)) (\<lambda>_. closedb lib d))"

definition open_only :: "db \<Rightarrow> panic + unit" where
  "open_only d = (if flag_closed d then Inl (Panic ''database already closed'' []) else Inr ())"

definition sql_last_insert_rowid :: "sqlite \<Rightarrow> db \<Rightarrow> janet list \<Rightarrow> (sqcall, janet) prog" where
  "sql_last_insert_rowid lib d argv =
     bind (checked (janet_fixarity (length argv) 1)) (\<lambda>_.
     bind (checked (getconn argv 0)) (\<lambda>_.
     bind (checked (open_only d)) (\<lambda>_.
     bind (syscall lib (Last_insert_rowid (handle d))) (\<lambda>r. ret (JNumber (double_of_int (status_of r)))))))"

definition sql_error_code :: "sqlite \<Rightarrow> db \<Rightarrow> janet list \<Rightarrow> (sqcall, janet) prog" where
  "sql_error_code lib d argv =
     bind (checked (janet_fixarity (length argv) 1)) (\<lambda>_.
     bind (checked (getconn argv 0)) (\<lambda>_.
     bind (checked (open_only d)) (\<lambda>_.
     bind (syscall lib (Errcode (handle d))) (\<lambda>r. ret (janet_wrap_integer (status_of r))))))"

text \<open>Methods of a connection, by keyword.\<close>

datatype conn_method = MErrorCode | MClose | MEval | MLastInsertRowid

definition conn_methods :: "(string \<times> conn_method) list" where
  "conn_methods = [(''error-code'', MErrorCode), (''close'', MClose), (''eval'', MEval),
     (''last-insert-rowid'', MLastInsertRowid)]"

definition sql_conn_get :: "janet \<Rightarrow> panic + conn_method option" where
  "sql_conn_get key = (case key of
     JKeyword k \<Rightarrow> Inr (map_of (map (\<lambda>(n, m). (bs n, m)) conn_methods) (cstr k))
   | _ \<Rightarrow> Inl (Panic ''expected keyword, get %v'' [AVal key]))"

subsection \<open>Error messages\<close>

text \<open>An error is a literal or the pointer \<open>sqlite3_errmsg\<close> returned. The library's
  header says that a later call to the library may release what that points to; \<open>Msg\<close>
  remembers how many calls there had been.\<close>

datatype err = Lit string | Msg bytes nat

definition fetch_errmsg :: "sqlite \<Rightarrow> (sqcall, err option) prog" where
  "fetch_errmsg lib tr = (Value (Some (Msg (text_of (lib tr Errmsg)) (length tr + 1))), tr @ [Errmsg])"

definition panic_with :: "err \<Rightarrow> (sqcall, 'a) prog" where
  "panic_with e tr = (case e of
     Lit s \<Rightarrow> (Raise (Panic s []), tr)
   | Msg m k \<Rightarrow> (if length tr = k then Raise (Panic ''%s'' [ABytes m]) else Fault UseAfterFree, tr))"

subsection \<open>Binding parameters\<close>

definition has_null :: "bytes \<Rightarrow> bool" where
  "has_null str = list_ex (\<lambda>c. c = 0) str"

text \<open>A boolean is read as a number, which as a double is not one: the conversion to
  \<open>int32_t\<close> is undefined.\<close>

definition bind_checked :: "sqlite \<Rightarrow> nat \<Rightarrow> int \<Rightarrow> sqvalue \<Rightarrow> (sqcall, err option) prog" where
  "bind_checked lib stmt index v =
     bind (syscall lib (Bind stmt index v)) (\<lambda>r.
     if status_of r \<noteq> SQLITE_OK then fetch_errmsg lib else ret None)"

definition bind_text :: "sqlite \<Rightarrow> nat \<Rightarrow> int \<Rightarrow> bytes \<Rightarrow> (sqcall, err option) prog" where
  "bind_text lib stmt index str =
     (if has_null str then ret (Some (Lit ''cannot have embedded nulls in text values''))
      else bind_checked lib stmt index (SText str))"

definition bind1 :: "sqlite \<Rightarrow> nat \<Rightarrow> int \<Rightarrow> janet \<Rightarrow> (sqcall, err option) prog" where
  "bind1 lib stmt index value = (case value of
     JNil \<Rightarrow> bind_checked lib stmt index SNull
   | JBool _ \<Rightarrow> crash IntOverflow
   | JNumber d \<Rightarrow> bind_checked lib stmt index (SFloat d)
   | JString s \<Rightarrow> bind_text lib stmt index s
   | JSymbol s \<Rightarrow> bind_text lib stmt index s
   | JKeyword s \<Rightarrow> bind_text lib stmt index s
   | JBuffer b \<Rightarrow> bind_checked lib stmt index (SBlob b)
   | _ \<Rightarrow> ret (Some (Lit ''invalid sql value'')))"

text \<open>Binding stops at the first error.\<close>

definition unless_err :: "(sqcall, err option) prog \<Rightarrow> (sqcall, err option) prog \<Rightarrow> (sqcall, err option) prog" where
  "unless_err m k = bind m (\<lambda>e. case e of None \<Rightarrow> k | Some x \<Rightarrow> ret (Some x))"

fun bind_seq :: "sqlite \<Rightarrow> nat \<Rightarrow> int \<Rightarrow> janet list \<Rightarrow> (sqcall, err option) prog" where
  "bind_seq lib stmt i [] = ret None"
| "bind_seq lib stmt i (x # xs) = unless_err (bind1 lib stmt (i + 1) x) (bind_seq lib stmt (i + 1) xs)"

definition key_index :: "sqlite \<Rightarrow> nat \<Rightarrow> janet \<Rightarrow> (sqcall, int) prog" where
  "key_index lib stmt key = (case key of
     JNumber d \<Rightarrow> ret (if janet_checkint key then janet_unwrap_integer key else 0)
   | JKeyword kw \<Rightarrow> bind (syscall lib (Bind_parameter_index stmt (cstr (58 # kw)))) (\<lambda>r. ret (status_of r))
   | JString s \<Rightarrow> bind (syscall lib (Bind_parameter_index stmt (cstr s))) (\<lambda>r. ret (status_of r))
   | JSymbol s \<Rightarrow> bind (syscall lib (Bind_parameter_index stmt (cstr s))) (\<lambda>r. ret (status_of r))
   | _ \<Rightarrow> ret 0)"

fun bind_dict :: "sqlite \<Rightarrow> nat \<Rightarrow> int \<Rightarrow> (janet \<times> janet) list \<Rightarrow> (sqcall, err option) prog" where
  "bind_dict lib stmt limitindex [] = ret None"
| "bind_dict lib stmt limitindex ((key, value) # kvs) =
     (if key = JNil then bind_dict lib stmt limitindex kvs
      else bind (key_index lib stmt key) (\<lambda>index.
        if index \<le> 0 \<or> index > limitindex then ret (Some (Lit ''invalid index in sql parameters''))
        else unless_err (bind1 lib stmt index value) (bind_dict lib stmt limitindex kvs)))"

definition bindmany :: "sqlite \<Rightarrow> nat \<Rightarrow> janet \<Rightarrow> (sqcall, err option) prog" where
  "bindmany lib stmt params =
     bind (syscall lib (Bind_parameter_count stmt)) (\<lambda>r.
     let limitindex = status_of r in
     case janet_indexed_view params of
       Some seq \<Rightarrow>
         (if int (length seq) > limitindex + 1 then ret (Some (Lit ''invalid index in sql parameters''))
          else bind_seq lib stmt 0 seq)
     | None \<Rightarrow> (case janet_dictionary_view params of
         Some kvs \<Rightarrow> bind_dict lib stmt limitindex kvs
       | None \<Rightarrow> ret (Some (Lit ''invalid type for sql parameters''))))"

subsection \<open>Executing\<close>

partial_function (option) step_on :: "sqlite \<Rightarrow> nat \<Rightarrow> sqcall list \<Rightarrow> (int \<times> sqcall list) option" where
  "step_on lib stmt tr =
     (let status = status_of (lib tr (Step stmt)) in
      if status = SQLITE_ROW then step_on lib stmt (tr @ [Step stmt]) else Some (status, tr @ [Step stmt]))"

text \<open>The end of a run of steps: the error, if it did not end in \<open>SQLITE_DONE\<close>.\<close>

definition check_done :: "sqlite \<Rightarrow> int \<Rightarrow> sqcall list \<Rightarrow> err option \<times> sqcall list" where
  "check_done lib status tr =
     (if status \<noteq> SQLITE_DONE
      then (Some (Msg (text_of (lib tr Errmsg)) (length tr + 1)), tr @ [Errmsg]) else (None, tr))"

definition execute :: "sqlite \<Rightarrow> nat \<Rightarrow> sqcall list \<Rightarrow> (err option \<times> sqcall list) option" where
  "execute lib stmt tr = map_option (\<lambda>(status, tr2). check_done lib status tr2) (step_on lib stmt tr)"

text \<open>\<open>sqlite3_column_int\<close> gives the low 32 bits of an integer column.\<close>

definition column_value :: "sqvalue \<Rightarrow> janet" where
  "column_value v = (case v of
     SNull \<Rightarrow> JNil
   | SInt i \<Rightarrow> janet_wrap_integer (wrap32 i)
   | SFloat d \<Rightarrow> JNumber d
   | SText s \<Rightarrow> JString s
   | SBlob b \<Rightarrow> JBuffer b)"

text \<open>\<open>janet_struct_put\<close>: nothing for nil, and a key that is there gets the new value.\<close>

fun row_put :: "(janet \<times> janet) list \<Rightarrow> janet \<Rightarrow> janet \<Rightarrow> (janet \<times> janet) list" where
  "row_put [] k v = (if v = JNil then [] else [(k, v)])"
| "row_put ((k2, v2) # kvs) k v =
     (if v = JNil then (k2, v2) # kvs
      else if k2 = k then (k, v) # kvs else (k2, v2) # row_put kvs k v)"

fun column_names :: "sqlite \<Rightarrow> nat \<Rightarrow> nat \<Rightarrow> nat \<Rightarrow> sqcall list \<Rightarrow> bytes list \<times> sqcall list" where
  "column_names lib stmt i 0 tr = ([], tr)"
| "column_names lib stmt i (Suc n) tr =
     (let name = text_of (lib tr (Column_name stmt i));
          (names, tr2) = column_names lib stmt (Suc i) n (tr @ [Column_name stmt i])
      in (name # names, tr2))"

fun read_row :: "sqlite \<Rightarrow> nat \<Rightarrow> nat \<Rightarrow> bytes list \<Rightarrow> (janet \<times> janet) list \<Rightarrow> sqcall list
    \<Rightarrow> (janet \<times> janet) list \<times> sqcall list" where
  "read_row lib stmt i [] row tr = (row, tr)"
| "read_row lib stmt i (name # names) row tr =
     (let v = column_value (column_of (lib tr (Column stmt i)))
      in read_row lib stmt (Suc i) names (row_put row (JKeyword name) v) (tr @ [Column stmt i]))"

partial_function (option) collect_on ::
  "sqlite \<Rightarrow> nat \<Rightarrow> bytes list \<Rightarrow> janet list \<Rightarrow> sqcall list \<Rightarrow> (int \<times> janet list \<times> sqcall list) option" where
  "collect_on lib stmt names rows tr =
     (let status = status_of (lib tr (Step stmt)) in
      if status = SQLITE_ROW
      then (let (row, tr2) = read_row lib stmt 0 names [] (tr @ [Step stmt])
            in collect_on lib stmt names (rows @ [JStruct row]) tr2)
      else Some (status, rows, tr @ [Step stmt]))"

definition execute_collect ::
  "sqlite \<Rightarrow> nat \<Rightarrow> janet list \<Rightarrow> sqcall list \<Rightarrow> (err option \<times> janet list \<times> sqcall list) option" where
  "execute_collect lib stmt rows tr =
     (let ncol = status_of (lib tr (Column_count stmt));
          (names, tr2) = column_names lib stmt 0 (nat ncol) (tr @ [Column_count stmt])
      in map_option (\<lambda>(status, rows, tr3). let (e, tr4) = check_done lib status tr3 in (e, rows, tr4))
           (collect_on lib stmt names rows tr2))"

subsection \<open>Evaluating a text of statements\<close>

definition finalize :: "nat option \<Rightarrow> sqcall list" where
  "finalize s = (case s of None \<Rightarrow> [] | Some x \<Rightarrow> [Finalize x])"

definition fail :: "nat option \<Rightarrow> nat option \<Rightarrow> err \<Rightarrow> sqcall list \<Rightarrow> 'a result \<times> sqcall list" where
  "fail stmt stmt_next e tr = panic_with e (tr @ finalize stmt @ finalize stmt_next)"

definition run_current :: "sqlite \<Rightarrow> nat option \<Rightarrow> sqcall list \<Rightarrow> (err option \<times> sqcall list) option" where
  "run_current lib stmt tr = (case stmt of None \<Rightarrow> Some (None, tr) | Some s \<Rightarrow> execute lib s tr)"

definition bind_params :: "sqlite \<Rightarrow> janet option \<Rightarrow> nat \<Rightarrow> (sqcall, err option) prog" where
  "bind_params lib params stmt = (case params of None \<Rightarrow> ret None | Some p \<Rightarrow> bindmany lib stmt p)"

text \<open>The text is compiled one statement ahead: a statement runs when the next one has been
  compiled.\<close>

partial_function (option) eval_loop ::
  "sqlite \<Rightarrow> nat \<Rightarrow> janet option \<Rightarrow> nat option \<Rightarrow> bytes \<Rightarrow> sqcall list \<Rightarrow> (janet result \<times> sqcall list) option" where
  "eval_loop lib h params stmt c tr =
     (let r = lib tr (Prepare_v2 h c); tr1 = tr @ [Prepare_v2 h c]; stmt_next = stmt_of r in
      if status_of r \<noteq> SQLITE_OK
      then Some (fail stmt stmt_next (Msg (text_of (lib tr1 Errmsg)) (length tr1 + 1)) (tr1 @ [Errmsg]))
      else case stmt_next of
        None \<Rightarrow>
          (case stmt of
             None \<Rightarrow> Some (Value (JArray []), tr1)
           | Some s \<Rightarrow>
               (case execute_collect lib s [] tr1 of
                  None \<Rightarrow> None
                | Some (e, rows, tr2) \<Rightarrow>
                    (case e of
                       Some x \<Rightarrow> Some (fail stmt None x tr2)
                     | None \<Rightarrow> Some (Value (JArray rows), tr2 @ [Finalize s]))))
      | Some n \<Rightarrow>
          (case run_current lib stmt tr1 of
             None \<Rightarrow> None
           | Some (e, tr2) \<Rightarrow>
               (case e of
                  Some x \<Rightarrow> Some (fail stmt (Some n) x tr2)
                | None \<Rightarrow>
                    (case bind_params lib params n tr2 of
                       (Value e2, tr3) \<Rightarrow>
                         (case e2 of
                            Some x \<Rightarrow> Some (fail stmt (Some n) x tr3)
                          | None \<Rightarrow> eval_loop lib h params (Some n) (tail_of r) (tr3 @ finalize stmt))
                     | (Exit k, tr3) \<Rightarrow> Some (Exit k, tr3)
                     | (Fault f, tr3) \<Rightarrow> Some (Fault f, tr3)
                     | (Raise p, tr3) \<Rightarrow> Some (Raise p, tr3)))))"

definition sql_eval :: "sqlite \<Rightarrow> db \<Rightarrow> janet list \<Rightarrow> sqcall list \<Rightarrow> (janet result \<times> sqcall list) option" where
  "sql_eval lib d argv tr =
     (case (bind (checked (janet_arity (int (length argv)) 2 3)) (\<lambda>_.
            bind (checked (getconn argv 0)) (\<lambda>_.
            bind (checked (open_only d)) (\<lambda>_. checked (janet_getstring argv 1))))) tr of
        (Value query, tr2) \<Rightarrow>
          (if has_null query
           then Some (fail None None (Lit ''cannot have embedded NULL in sql statememts'') tr2)
           else eval_loop lib (handle d) (if length argv = 3 then Some (argv ! 2) else None) None query tr2)
      | (Exit k, tr2) \<Rightarrow> Some (Exit k, tr2)
      | (Fault f, tr2) \<Rightarrow> Some (Fault f, tr2)
      | (Raise p, tr2) \<Rightarrow> Some (Raise p, tr2))"

end
