(* ===== verification/SqliteProps.thy ===== *)
theory SqliteProps
  imports Sqlite
begin

text \<open>
  Properties of the SQLite binding: the life of prepared statements, and the order in which a
  text of several statements is compiled and run.
\<close>

subsection \<open>The statements in existence\<close>

text \<open>The statement a call uses.\<close>

fun uses :: "sqcall \<Rightarrow> nat option" where
  "uses (Step s) = Some s"
| "uses (Bind s _ _) = Some s"
| "uses (Bind_parameter_count s) = Some s"
| "uses (Bind_parameter_index s _) = Some s"
| "uses (Column_count s) = Some s"
| "uses (Column_name s _) = Some s"
| "uses (Column s _) = Some s"
| "uses c = None"

text \<open>The effect of a call on the statements in existence; \<open>None\<close> when it uses or
  finalizes one that does not exist.\<close>

definition effect :: "sqlite \<Rightarrow> sqcall list \<Rightarrow> sqcall \<Rightarrow> nat set \<Rightarrow> nat set option" where
  "effect lib tr c l = (case c of
     Prepare_v2 h q \<Rightarrow> (case stmt_of (lib tr c) of None \<Rightarrow> Some l | Some s \<Rightarrow> Some (insert s l))
   | Finalize s \<Rightarrow> if s \<in> l then Some (l - {s}) else None
   | _ \<Rightarrow> (case uses c of None \<Rightarrow> Some l | Some s \<Rightarrow> if s \<in> l then Some l else None))"

fun live_rev :: "sqlite \<Rightarrow> sqcall list \<Rightarrow> nat set option" where
  "live_rev lib [] = Some {}"
| "live_rev lib (c # cs) = (case live_rev lib cs of None \<Rightarrow> None | Some l \<Rightarrow> effect lib (rev cs) c l)"

definition live :: "sqlite \<Rightarrow> sqcall list \<Rightarrow> nat set option" where
  "live lib tr = live_rev lib (rev tr)"

lemma live_Nil [simp]: "live lib [] = Some {}"
  by (simp add: live_def)

lemma live_snoc: "live lib (tr @ [c]) = (case live lib tr of None \<Rightarrow> None | Some l \<Rightarrow> effect lib tr c l)"
  by (cases "live_rev lib (rev tr)") (simp_all add: live_def)

lemma live_snoc_uses:
  "live lib tr = Some l \<Longrightarrow> uses c = Some s \<Longrightarrow> s \<in> l \<Longrightarrow> live lib (tr @ [c]) = Some l"
  by (cases c) (simp_all add: live_snoc effect_def)

lemma live_errmsg: "live lib tr = Some l \<Longrightarrow> live lib (tr @ [Errmsg]) = Some l"
  by (simp add: live_snoc effect_def)

lemma live_finalize:
  "live lib tr = Some l \<Longrightarrow> set_option s \<subseteq> l \<Longrightarrow> live lib (tr @ finalize s) = Some (l - set_option s)"
  by (cases s) (simp_all add: finalize_def live_snoc effect_def)

text \<open>The library never hands out a statement that already exists.\<close>

definition fresh_statements :: "sqlite \<Rightarrow> bool" where
  "fresh_statements lib \<longleftrightarrow> (\<forall>tr h q l s. live lib tr = Some l \<longrightarrow> stmt_of (lib tr (Prepare_v2 h q)) = Some s \<longrightarrow> s \<notin> l)"

subsection \<open>Programs that only use one statement\<close>

definition stays :: "sqlite \<Rightarrow> nat \<Rightarrow> (sqcall, 'a) prog \<Rightarrow> bool" where
  "stays lib s m \<longleftrightarrow> (\<forall>tr l. live lib tr = Some l \<longrightarrow> s \<in> l \<longrightarrow> live lib (snd (m tr)) = Some l)"

named_theorems stays_rules \<comment> \<open>programs built from uses of one statement\<close>

lemma stays_basic [stays_rules]:
  "stays lib s (ret x)" "stays lib s (crash e)" "stays lib s (checked r)"
  by (auto simp: stays_def prog_simps checked_def split: sum.splits)

lemma stays_syscall [stays_rules]: "uses c = Some s \<Longrightarrow> stays lib s (syscall lib2 c)"
  by (simp add: stays_def prog_simps live_snoc_uses)

lemma stays_fetch [stays_rules]: "stays lib s (fetch_errmsg lib2)"
  by (simp add: stays_def fetch_errmsg_def live_errmsg)

lemma stays_bind [stays_rules]:
  assumes "stays lib s m" and "\<And>x. stays lib s (f x)"
  shows "stays lib s (bind m f)"
  unfolding stays_def
proof (intro allI impI)
  fix tr l assume l: "live lib tr = Some l" "s \<in> l"
  obtain r tr2 where m: "m tr = (r, tr2)" by fastforce
  have "live lib tr2 = Some l" using assms(1) l m unfolding stays_def by (metis snd_conv)
  then have "live lib (snd (f x tr2)) = Some l" for x using assms(2) l(2) unfolding stays_def by blast
  then show "live lib (snd (bind m f tr)) = Some l"
    using m \<open>live lib tr2 = Some l\<close> by (cases r) (auto simp: bind_def)
qed

lemma stays_if [stays_rules]:
  "stays lib s m1 \<Longrightarrow> stays lib s m2 \<Longrightarrow> stays lib s (if c then m1 else m2)"
  by simp

lemma stays_bind_checked [stays_rules]: "stays lib s (bind_checked lib s i v)"
  unfolding bind_checked_def by (intro stays_rules) simp_all

lemma stays_bind1 [stays_rules]: "stays lib s (bind1 lib s i v)"
  by (cases v) (auto simp: bind1_def bind_text_def intro: stays_rules)

lemma stays_unless [stays_rules]:
  assumes "stays lib s m" and "stays lib s k"
  shows "stays lib s (unless_err m k)"
  unfolding unless_err_def
proof (rule stays_bind [OF assms(1)])
  fix e show "stays lib s (case e of None \<Rightarrow> k | Some x \<Rightarrow> ret (Some x))"
    using assms(2) by (cases e) (auto intro: stays_rules)
qed

lemma stays_bind_seq [stays_rules]: "stays lib s (bind_seq lib s i xs)"
  by (induction xs arbitrary: i) (simp_all add: stays_rules)

lemma stays_key_index [stays_rules]: "stays lib s (key_index lib s key)"
  by (cases key) (auto simp: key_index_def intro!: stays_rules)

lemma stays_bind_dict [stays_rules]: "stays lib s (bind_dict lib s n kvs)"
  by (induction kvs) (auto intro!: stays_rules)

lemma stays_bindmany: "stays lib s (bindmany lib s params)"
  unfolding bindmany_def Let_def
proof (rule stays_bind)
  fix r
  show "stays lib s (case janet_indexed_view params of
       Some seq \<Rightarrow>
         (if int (length seq) > status_of r + 1 then ret (Some (Lit ''invalid index in sql parameters''))
          else bind_seq lib s 0 seq)
     | None \<Rightarrow> (case janet_dictionary_view params of
         Some kvs \<Rightarrow> bind_dict lib s (status_of r) kvs
       | None \<Rightarrow> ret (Some (Lit ''invalid type for sql parameters''))))"
    by (auto split: option.splits intro: stays_rules)
qed (rule stays_syscall, simp)

lemma stays_bind_params: "stays lib s (bind_params lib params s)"
  by (cases params) (simp_all add: bind_params_def stays_rules stays_bindmany)

text \<open>Binding ends with a value or, at a boolean, with the undefined conversion.\<close>

definition tame :: "(sqcall, 'a) prog \<Rightarrow> bool" where
  "tame m \<longleftrightarrow> (\<forall>tr. (\<exists>x tr2. m tr = (Value x, tr2)) \<or> (\<exists>tr2. m tr = (Fault IntOverflow, tr2)))"

lemma tame_basic [stays_rules]: "tame (ret x)" "tame (syscall lib c)" "tame (crash IntOverflow)" "tame (fetch_errmsg lib)"
  by (simp_all add: tame_def prog_simps fetch_errmsg_def)

lemma tame_bind [stays_rules]:
  assumes "tame m" and "\<And>x. tame (f x)"
  shows "tame (bind m f)"
  unfolding tame_def
proof
  fix tr
  show "(\<exists>x tr2. bind m f tr = (Value x, tr2)) \<or> (\<exists>tr2. bind m f tr = (Fault IntOverflow, tr2))"
    using assms(1) [unfolded tame_def, rule_format, of tr]
  proof
    assume "\<exists>x tr2. m tr = (Value x, tr2)"
    then obtain x tr2 where "m tr = (Value x, tr2)" by blast
    then show ?thesis using assms(2) [of x, unfolded tame_def, rule_format, of tr2] by (simp add: bind_def)
  qed (auto simp: bind_def)
qed

lemma tame_if [stays_rules]: "tame m1 \<Longrightarrow> tame m2 \<Longrightarrow> tame (if c then m1 else m2)"
  by simp

lemma tame_bind_checked [stays_rules]: "tame (bind_checked lib s i v)"
  unfolding bind_checked_def by (intro stays_rules)

lemma tame_bind1 [stays_rules]: "tame (bind1 lib s i v)"
  by (cases v) (auto simp: bind1_def bind_text_def intro: stays_rules)

lemma tame_unless [stays_rules]:
  assumes "tame m" and "tame k"
  shows "tame (unless_err m k)"
  unfolding unless_err_def
proof (rule tame_bind [OF assms(1)])
  fix e show "tame (case e of None \<Rightarrow> k | Some x \<Rightarrow> ret (Some x))"
    using assms(2) by (cases e) (auto intro: stays_rules)
qed

lemma tame_bind_seq [stays_rules]: "tame (bind_seq lib s i xs)"
  by (induction xs arbitrary: i) (simp_all add: stays_rules)

lemma tame_key_index [stays_rules]: "tame (key_index lib s key)"
  by (cases key) (auto simp: key_index_def intro!: stays_rules)

lemma tame_bind_dict [stays_rules]: "tame (bind_dict lib s n kvs)"
  by (induction kvs) (auto intro!: stays_rules)

lemma tame_bind_params: "tame (bind_params lib params s)"
  unfolding bind_params_def bindmany_def Let_def
  by (auto split: option.splits intro!: stays_rules)

subsection \<open>Executing keeps the statements\<close>

lemma step_on_live:
  assumes "step_on lib s tr = Some y"
  shows "live lib tr = Some l \<longrightarrow> s \<in> l \<longrightarrow> live lib (snd y) = Some l"
  using assms
proof (induction rule: step_on.raw_induct [rotated, consumes 1])
  case (1 rec lib s tr y)
  then show ?case
    using live_snoc_uses [of lib tr l "Step s" s]
    by (auto simp: Let_def split: if_splits)
qed

lemma check_done_live:
  "live lib tr = Some l \<Longrightarrow> live lib (snd (check_done lib2 status tr)) = Some l"
  by (simp add: check_done_def live_errmsg)

lemma execute_live:
  assumes "execute lib s tr = Some (e, tr2)" and "live lib tr = Some l" and "s \<in> l"
  shows "live lib tr2 = Some l"
proof -
  from assms(1) obtain status tr3 where t: "step_on lib s tr = Some (status, tr3)" "check_done lib status tr3 = (e, tr2)"
    by (auto simp: execute_def)
  have "live lib tr3 = Some l" using step_on_live [OF t(1)] assms(2,3) by simp
  then show ?thesis using check_done_live [of lib tr3 l lib status] t(2) by simp
qed

lemma column_names_live:
  "live lib tr = Some l \<Longrightarrow> s \<in> l \<Longrightarrow> live lib (snd (column_names lib s i n tr)) = Some l"
proof (induction n arbitrary: i tr)
  case (Suc n)
  have "live lib (tr @ [Column_name s i]) = Some l" by (rule live_snoc_uses [OF Suc.prems(1), where s = s]) (simp_all add: Suc.prems(2))
  from Suc.IH [OF this Suc.prems(2), of "Suc i"] show ?case by (simp add: Let_def case_prod_beta)
qed simp

lemma read_row_live:
  "live lib tr = Some l \<Longrightarrow> s \<in> l \<Longrightarrow> live lib (snd (read_row lib s i names row tr)) = Some l"
proof (induction names arbitrary: i row tr)
  case (Cons n names)
  have "live lib (tr @ [Column s i]) = Some l" by (rule live_snoc_uses [OF Cons.prems(1), where s = s]) (simp_all add: Cons.prems(2))
  from Cons.IH [OF this Cons.prems(2)] show ?case by (simp add: Let_def)
qed simp

lemma collect_on_live:
  assumes "collect_on lib s names rows tr = Some y"
  shows "live lib tr = Some l \<longrightarrow> s \<in> l \<longrightarrow> live lib (snd (snd y)) = Some l"
  using assms
proof (induction rule: collect_on.raw_induct [rotated, consumes 1])
  case (1 rec lib s names rows tr y)
  show ?case
  proof (intro impI)
    assume l: "live lib tr = Some l" "s \<in> l"
    have st: "live lib (tr @ [Step s]) = Some l" by (rule live_snoc_uses [OF l(1), where s = s]) (simp_all add: l(2))
    show "live lib (snd (snd y)) = Some l"
    proof (cases "status_of (lib tr (Step s)) = SQLITE_ROW")
      case True
      obtain row tr2 where r: "read_row lib s 0 names [] (tr @ [Step s]) = (row, tr2)" by fastforce
      have "live lib tr2 = Some l" using read_row_live [OF st l(2), of 0 names "[]"] r by simp
      moreover have "rec lib s names (rows @ [JStruct row]) tr2 = Some y"
        using 1(2) True r by (simp add: Let_def)
      ultimately show ?thesis using 1(1) l(2) by blast
    next
      case False
      then show ?thesis using 1(2) st by (auto simp: Let_def)
    qed
  qed
qed

lemma execute_collect_live:
  assumes "execute_collect lib s rows tr = Some (e, rows2, tr2)" and "live lib tr = Some l" and "s \<in> l"
  shows "live lib tr2 = Some l"
proof -
  obtain names tr3 where n: "column_names lib s 0 (nat (status_of (lib tr (Column_count s)))) (tr @ [Column_count s]) = (names, tr3)"
    by fastforce
  have "live lib (tr @ [Column_count s]) = Some l" by (rule live_snoc_uses [OF assms(2), where s = s]) (simp_all add: assms(3))
  then have l3: "live lib tr3 = Some l" using column_names_live [of lib "tr @ [Column_count s]" l s 0] n assms(3) by (metis snd_conv)
  from assms(1) n obtain z where z: "collect_on lib s names rows tr3 = Some z"
    "check_done lib (fst z) (snd (snd z)) = (e, tr2)"
    by (auto simp: execute_collect_def Let_def case_prod_beta)
  then obtain status r tr4 where c: "collect_on lib s names rows tr3 = Some (status, r, tr4)"
    "check_done lib status tr4 = (e, tr2)" by (cases z) auto
  have "live lib tr4 = Some l" using collect_on_live [OF c(1)] l3 assms(3) by simp
  then show ?thesis using check_done_live [of lib tr4 l lib status] c(2) by simp
qed

subsection \<open>The main loop\<close>

text \<open>How a run may end: with nothing left, or cut off at a boolean parameter.\<close>

definition clean_end :: "sqlite \<Rightarrow> 'a result \<times> sqcall list \<Rightarrow> bool" where
  "clean_end lib y \<longleftrightarrow> (\<exists>l. live lib (snd y) = Some l \<and> (fst y \<noteq> Fault IntOverflow \<longrightarrow> l = {}))"

lemma fail_trace: "snd (fail stmt nxt e tr) = tr @ finalize stmt @ finalize nxt"
  by (cases e) (simp_all add: fail_def panic_with_def)

lemma fail_clean:
  assumes "live lib tr = Some l" and "l = set_option stmt \<union> set_option nxt" and "set_option stmt \<inter> set_option nxt = {}"
  shows "clean_end lib (fail stmt nxt e tr)"
proof -
  have "live lib (tr @ finalize stmt) = Some (l - set_option stmt)"
    using assms(1,2) by (intro live_finalize) auto
  from live_finalize [OF this, of nxt] have "live lib ((tr @ finalize stmt) @ finalize nxt) = Some (l - set_option stmt - set_option nxt)"
    using assms(2,3) by auto
  then have "live lib (tr @ finalize stmt @ finalize nxt) = Some {}" using assms(2) by (simp add: Un_Diff Diff_eq_empty_iff)
  then show ?thesis by (simp add: clean_end_def fail_trace)
qed

lemma eval_loop_clean:
  assumes "eval_loop lib h params stmt c tr = Some y"
  shows "fresh_statements lib \<longrightarrow> live lib tr = Some (set_option stmt) \<longrightarrow> clean_end lib y"
  using assms
proof (induction rule: eval_loop.raw_induct [rotated, consumes 1])
  case (1 rec lib h params stmt c tr y)
  show ?case
  proof (intro impI)
    assume fr: "fresh_statements lib" and l: "live lib tr = Some (set_option stmt)"
    let ?c = "Prepare_v2 h c"
    define r where "r = lib tr ?c"
    define tr1 where "tr1 = tr @ [?c]"
    note body = 1(2) [unfolded Let_def, folded r_def tr1_def]
    have l1: "live lib tr1 = Some (set_option stmt \<union> set_option (stmt_of r))"
      using l by (cases "stmt_of r") (simp_all add: tr1_def live_snoc effect_def r_def)
    have dis: "set_option stmt \<inter> set_option (stmt_of r) = {}"
    proof (cases "stmt_of r")
      case (Some n)
      then have "n \<notin> set_option stmt" using fr l unfolding fresh_statements_def r_def by blast
      then show ?thesis using Some by simp
    qed simp
    show "clean_end lib y"
    proof (cases "status_of r = SQLITE_OK")
      case False
      then have "y = fail stmt (stmt_of r) (Msg (text_of (lib tr1 Errmsg)) (length tr1 + 1)) (tr1 @ [Errmsg])"
        using body by simp
      then show ?thesis using fail_clean [OF live_errmsg [OF l1] refl dis] by simp
    next
      case ok: True
      show ?thesis
      proof (cases "stmt_of r")
        case None
        show ?thesis
        proof (cases stmt)
          case sn: None
          then have "y = (Value (JArray []), tr1)" using body ok None by simp
          then show ?thesis using l1 sn None by (simp add: clean_end_def)
        next
          case (Some s)
          obtain e rows tr2 where x: "execute_collect lib s [] tr1 = Some (e, rows, tr2)"
            using body ok None Some by (auto split: option.splits)
          have l2: "live lib tr2 = Some {s}" using execute_collect_live [OF x l1] Some None by simp
          show ?thesis
          proof (cases e)
            case en: None
            then have "y = (Value (JArray rows), tr2 @ finalize (Some s))"
              using body ok None Some x by (simp add: finalize_def)
            then show ?thesis using live_finalize [OF l2, of "Some s"] by (simp add: clean_end_def)
          next
            case (Some m)
            then have "y = fail (Some s) None m tr2" using body ok None \<open>stmt = Some s\<close> x by simp
            then show ?thesis using fail_clean [OF l2, of "Some s" None m] by simp
          qed
        qed
      next
        case (Some n)
        obtain e tr2 where x: "run_current lib stmt tr1 = Some (e, tr2)"
          using body ok Some by (auto split: option.splits)
        have l2: "live lib tr2 = Some (set_option stmt \<union> {n})"
        proof (cases stmt)
          case None
          then show ?thesis using x l1 Some by (simp add: run_current_def)
        next
          case (Some s)
          then have "execute lib s tr1 = Some (e, tr2)" using x by (simp add: run_current_def)
          then show ?thesis using execute_live [OF _ l1] \<open>stmt_of r = Some n\<close> Some by simp
        qed
        have dn: "set_option stmt \<inter> {n} = {}" using dis Some by simp
        show ?thesis
        proof (cases e)
          case (Some m)
          then have "y = fail stmt (Some n) m tr2" using body ok \<open>stmt_of r = Some n\<close> x by simp
          then show ?thesis using fail_clean [OF l2, of stmt "Some n" m] dn by simp
        next
          case en: None
          obtain res tr3 where b: "bind_params lib params n tr2 = (res, tr3)" by fastforce
          have l3: "live lib tr3 = Some (set_option stmt \<union> {n})"
            using stays_bind_params [of lib n params] l2 b unfolding stays_def by (metis UnI2 insertI1 snd_conv)
          from tame_bind_params [of lib params n, unfolded tame_def, rule_format, of tr2] b
          consider e2 where "res = Value e2" | "res = Fault IntOverflow" by auto
          then show ?thesis
          proof cases
            case 2
            then have "y = (Fault IntOverflow, tr3)" using body ok Some x en b by simp
            then show ?thesis using l3 by (simp add: clean_end_def)
          next
            case (1 e2)
            show ?thesis
            proof (cases e2)
              case (Some m)
              then have "y = fail stmt (Some n) m tr3" using body ok \<open>stmt_of r = Some n\<close> x en b 1 by simp
              then show ?thesis using fail_clean [OF l3, of stmt "Some n" m] dn by simp
            next
              case None
              then have again: "rec lib h params (Some n) (tail_of r) (tr3 @ finalize stmt) = Some y"
                using body ok Some x en b 1 by simp
              have "live lib (tr3 @ finalize stmt) = Some (set_option stmt \<union> {n} - set_option stmt)"
                by (rule live_finalize [OF l3]) auto
              moreover have "set_option stmt \<union> {n} - set_option stmt = {n}" using dn by auto
              ultimately have "live lib (tr3 @ finalize stmt) = Some (set_option (Some n))" by simp
              then show ?thesis using \<open>\<And>lib h params stmt c tr y. rec lib h params stmt c tr = Some y \<Longrightarrow>
                  fresh_statements lib \<longrightarrow> live lib tr = Some (set_option stmt) \<longrightarrow> clean_end lib y\<close> [OF again] fr by simp
            qed
          qed
        qed
      qed
    qed
  qed
qed

lemma panic_with_stale: "length tr \<noteq> k \<Longrightarrow> panic_with (Msg m k) tr = (Fault UseAfterFree, tr)"
  by (simp add: panic_with_def)

text \<open>C37. Whatever the library answers (as long as it never hands out a statement that is still
  in existence), a call of \<open>sqlite3/eval\<close> that ends uses only statements it has prepared and
  not yet finalized, finalizes none twice, and leaves none behind, on success and on every error of
  the library. The one way to leave one behind is a boolean parameter, whose conversion to an
  integer is undefined.\<close>

theorem sql_eval_statements:
  assumes "fresh_statements lib" and "sql_eval lib d argv [] = Some (res, tr)"
  shows "\<exists>l. live lib tr = Some l \<and> (res \<noteq> Fault IntOverflow \<longrightarrow> l = {})"
proof -
  let ?pre = "bind (checked (janet_arity (int (length argv)) 2 3)) (\<lambda>_.
            bind (checked (getconn argv 0)) (\<lambda>_.
            bind (checked (open_only d)) (\<lambda>_. checked (janet_getstring argv 1))))"
  have pre: "snd (?pre ([] :: sqcall list)) = []"
    by (auto simp: bind_def checked_def split: sum.splits)
  obtain r and tr0 :: "sqcall list" where p: "?pre [] = (r, tr0)" by fastforce
  then have t0: "tr0 = []" using pre by simp
  show ?thesis
  proof (cases r)
    case (Value query)
    show ?thesis
    proof (cases "has_null query")
      case True
      then have "tr = []" using assms(2) p Value t0 by (auto simp: sql_eval_def fail_def panic_with_def finalize_def)
      then show ?thesis by simp
    next
      case False
      then have "eval_loop lib (handle d) (if length argv = 3 then Some (argv ! 2) else None) None query [] = Some (res, tr)"
        using assms(2) p Value t0 by (simp add: sql_eval_def)
      from eval_loop_clean [OF this] assms(1) show ?thesis by (simp add: clean_end_def)
    qed
  qed (use assms(2) p t0 in \<open>auto simp: sql_eval_def\<close>)
qed

text \<open>A library that numbers its statements by the calls made so far.\<close>

fun counting_lib :: sqlite where
  "counting_lib tr (Prepare_v2 h q) = RPrepared SQLITE_OK (if q = [] then None else Some (length tr)) (tl q)"
| "counting_lib tr (Step s) = RInt SQLITE_DONE"
| "counting_lib tr c = RInt 0"

lemma counting_live: "live counting_lib tr = Some l \<Longrightarrow> s \<in> l \<Longrightarrow> s < length tr"
proof (induction tr arbitrary: l s rule: rev_induct)
  case (snoc c tr)
  from snoc.prems(1) obtain l0 where l0: "live counting_lib tr = Some l0" "effect counting_lib tr c l0 = Some l"
    by (auto simp: live_snoc split: option.splits)
  have "l \<subseteq> insert (length tr) l0"
    using l0(2) by (cases c) (auto simp: effect_def split: if_splits)
  then show ?case using snoc.IH [OF l0(1)] snoc.prems(2) by (auto simp: less_Suc_eq)
qed simp

theorem sql_eval_statements_witness:
  "\<exists>tr. sql_eval counting_lib \<lparr>handle = 7, flag_closed = False\<rparr> [JAbstract (AbsOther ''sqlite3.connection'' 0), JString [65]] []
      = Some (Value (JArray []), tr) \<and> live counting_lib tr = Some {}"
proof -
  have fr: "fresh_statements counting_lib"
    unfolding fresh_statements_def
  proof (intro allI impI notI)
    fix tr h q l s
    assume a: "live counting_lib tr = Some l" "stmt_of (counting_lib tr (Prepare_v2 h q)) = Some s" "s \<in> l"
    then have "s = length tr" by (simp split: if_splits)
    with counting_live [OF a(1,3)] show False by simp
  qed
  let ?tr = "[Prepare_v2 7 [65], Prepare_v2 7 [], Column_count 0, Step 0, Finalize 0]"
  have "collect_on counting_lib 0 [] [] [Prepare_v2 7 [65], Prepare_v2 7 [], Column_count 0]
      = Some (SQLITE_DONE, [], [Prepare_v2 7 [65], Prepare_v2 7 [], Column_count 0, Step 0])"
    by (subst collect_on.simps) simp
  then have "eval_loop counting_lib 7 None (Some 0) [] [Prepare_v2 7 [65]] = Some (Value (JArray []), ?tr)"
    by (subst eval_loop.simps) (simp add: execute_collect_def check_done_def)
  then have "eval_loop counting_lib 7 None None [65] [] = Some (Value (JArray []), ?tr)"
    by (subst eval_loop.simps) (simp add: run_current_def bind_params_def prog_simps finalize_def)
  then have run: "sql_eval counting_lib \<lparr>handle = 7, flag_closed = False\<rparr> [JAbstract (AbsOther ''sqlite3.connection'' 0), JString [65]] []
      = Some (Value (JArray []), ?tr)"
    by (simp add: sql_eval_def has_null_def janet_arity_def getconn_def open_only_def janet_getstring_def prog_simps)
  from sql_eval_statements [OF fr run] run show ?thesis by auto
qed

text \<open>A text of two statements whose second one can only be compiled after the first has
  run (create a table, then insert into it) never works: the second is compiled first, that fails,
  and the first is thrown away without having run. The message of the failure is read after the
  statement was finalized, when the library may have released it.\<close>

theorem sql_eval_compiles_ahead:
  assumes "lib [] (Prepare_v2 h q) = RPrepared SQLITE_OK (Some s) rest"
    and "\<And>tr. Step s \<notin> set tr \<Longrightarrow> status_of (lib tr (Prepare_v2 h rest)) \<noteq> SQLITE_OK \<and> stmt_of (lib tr (Prepare_v2 h rest)) = None"
    and "\<not> has_null q"
  shows "sql_eval lib \<lparr>handle = h, flag_closed = False\<rparr> [JAbstract (AbsOther ''sqlite3.connection'' i), JString q] []
    = Some (Fault UseAfterFree, [Prepare_v2 h q, Prepare_v2 h rest, Errmsg, Finalize s])"
proof -
  have p2: "status_of (lib [Prepare_v2 h q] (Prepare_v2 h rest)) \<noteq> SQLITE_OK"
    "stmt_of (lib [Prepare_v2 h q] (Prepare_v2 h rest)) = None" using assms(2) [of "[Prepare_v2 h q]"] by simp_all
  have l2: "eval_loop lib h None (Some s) rest [Prepare_v2 h q]
      = Some (Fault UseAfterFree, [Prepare_v2 h q, Prepare_v2 h rest, Errmsg, Finalize s])"
    by (subst eval_loop.simps) (simp add: p2 Let_def fail_def finalize_def panic_with_stale)
  have "eval_loop lib h None None q [] = eval_loop lib h None (Some s) rest [Prepare_v2 h q]"
    by (subst eval_loop.simps)
      (simp add: assms(1) run_current_def bind_params_def prog_simps finalize_def)
  then show ?thesis
    using assms(3) l2
    by (simp add: sql_eval_def janet_arity_def getconn_def open_only_def janet_getstring_def prog_simps)
qed

text \<open>A library with the statements 1 (create a table) and 2 (insert into it).\<close>

fun demo_lib :: sqlite where
  "demo_lib tr (Prepare_v2 h q) =
     (if q = [1, 2] then RPrepared SQLITE_OK (if Prepare_v2 h q \<in> set tr then None else Some 1) [2]
      else if q = [2] \<and> Step 1 \<in> set tr \<and> Prepare_v2 h q \<notin> set tr then RPrepared SQLITE_OK (Some 2) []
      else RPrepared 1 None q)"
| "demo_lib tr (Step s) = RInt SQLITE_DONE"
| "demo_lib tr c = RInt 0"

theorem sql_eval_compiles_ahead_witness:
  "sql_eval demo_lib \<lparr>handle = 7, flag_closed = False\<rparr> [JAbstract (AbsOther ''sqlite3.connection'' 0), JString [1, 2]] []
    = Some (Fault UseAfterFree, [Prepare_v2 7 [1, 2], Prepare_v2 7 [2], Errmsg, Finalize 1])"
  by (rule sql_eval_compiles_ahead) (simp_all add: has_null_def)

end
