(* ===== verification/Pq.thy ===== *)
theory Pq
  imports Process Core CStd
begin

unbundle bit_operations_syntax

text \<open>
  \<^verbatim>\<open>src/janet-pq/pq.c\<close>: the binding to PostgreSQL's client library. A connection is
  used through calls to the system of \<^verbatim>\<open>Process\<close>; a result does not change once it
  exists, so what the library says of it is a record of functions.
\<close>

text \<open>One parameter as \<open>PQexecParams\<close> gets it: the bytes of its block if there is one,
  the length and the format (1 for binary). The types argument is NULL.\<close>

record pqparam =
  pval :: "bytes option"
  plength :: int
  pformat :: int

datatype pqcall =
    PQconnectdb bytes
  | PQstatus nat
  | PQtransactionStatus nat
  | PQfinish nat
  | PQerrorMessage "nat option"
  | PQexecParams nat bytes "pqparam list"
  | PQescapeLiteral "nat option" bytes
  | PQescapeIdentifier "nat option" bytes
  | PQfreemem
  | PQclear nat
  | Sfree nat            \<comment> \<open>\<open>janet_sfree\<close> of a parameter's block\<close>
  | SfreeArrays

datatype pqreply = PInt int | PPtr "nat option" | PText "bytes option"

fun pq_int :: "pqreply \<Rightarrow> int" where
  "pq_int (PInt i) = i"
| "pq_int _ = 0"

fun pq_ptr :: "pqreply \<Rightarrow> nat option" where
  "pq_ptr (PPtr p) = p"
| "pq_ptr _ = None"

fun pq_text :: "pqreply \<Rightarrow> bytes option" where
  "pq_text (PText t) = t"
| "pq_text _ = None"

record pg =
  pg_ntuples :: "nat option \<Rightarrow> int"
  pg_nfields :: "nat option \<Rightarrow> int"
  pg_fname :: "nat option \<Rightarrow> int \<Rightarrow> bytes option"
  pg_fnumber :: "nat option \<Rightarrow> bytes \<Rightarrow> int"
  pg_ftype :: "nat option \<Rightarrow> int \<Rightarrow> int"
  pg_fformat :: "nat option \<Rightarrow> int \<Rightarrow> int"
  pg_status :: "nat option \<Rightarrow> int"
  pg_error_message :: "nat option \<Rightarrow> bytes option"
  pg_error_field :: "nat option \<Rightarrow> int \<Rightarrow> bytes option"
  pg_value :: "nat option \<Rightarrow> int \<Rightarrow> int \<Rightarrow> bytes option"   \<comment> \<open>\<open>None\<close>: an SQL null\<close>

abbreviation PGRES_EMPTY_QUERY :: int where "PGRES_EMPTY_QUERY \<equiv> 0"
abbreviation PGRES_COMMAND_OK :: int where "PGRES_COMMAND_OK \<equiv> 1"
abbreviation PGRES_TUPLES_OK :: int where "PGRES_TUPLES_OK \<equiv> 2"
abbreviation CONNECTION_OK :: int where "CONNECTION_OK \<equiv> 0"

subsection \<open>Results\<close>

definition getabs :: "string \<Rightarrow> janet list \<Rightarrow> nat \<Rightarrow> panic + unit" where
  "getabs type argv n = (case argv ! n of
     JAbstract (AbsOther name _) \<Rightarrow>
       (if name = type then Inr () else Inl (janet_panic_abstract (argv ! n) n type))
   | x \<Rightarrow> Inl (janet_panic_abstract x n type))"

definition on_result :: "janet list \<Rightarrow> nat \<Rightarrow> 'a run \<Rightarrow> 'a run" where
  "on_result argv arity m =
     andthen (checks (janet_fixarity (length argv) arity)) (\<lambda>_.
     andthen (checks (getabs ''pq/result'' argv 0)) (\<lambda>_. m))"

definition result_gc :: "nat option \<Rightarrow> pqcall list \<times> nat option" where
  "result_gc r = (case r of Some p \<Rightarrow> ([PQclear p], None) | None \<Rightarrow> ([], None))"

definition result_to_string :: "pg \<Rightarrow> nat option \<Rightarrow> bytes" where
  "result_to_string lib r = bs ''PGResult: '' @ (case r of
     None \<Rightarrow> bs ''uninit''
   | Some p \<Rightarrow>
       (let status = pg_status lib r in
        if status \<noteq> PGRES_TUPLES_OK \<and> status \<noteq> PGRES_EMPTY_QUERY \<and> status \<noteq> PGRES_COMMAND_OK
        then (case pg_error_message lib r of Some msg \<Rightarrow> msg | None \<Rightarrow> bs ''error'') else bs ''...''))"

definition safe_cstringv :: "bytes option \<Rightarrow> janet" where
  "safe_cstringv s = (case s of Some b \<Rightarrow> JString b | None \<Rightarrow> JNil)"

definition safe_ckeywordv :: "bytes option \<Rightarrow> janet" where
  "safe_ckeywordv s = (case s of Some b \<Rightarrow> JKeyword b | None \<Rightarrow> JNil)"

abbreviation wrap_int_number :: "int \<Rightarrow> janet" where
  "wrap_int_number i \<equiv> JNumber (double_of_int i)"

definition jpq_result_ntuples :: "pg \<Rightarrow> nat option \<Rightarrow> janet list \<Rightarrow> janet run" where
  "jpq_result_ntuples lib r argv = on_result argv 1 (okay (wrap_int_number (pg_ntuples lib r)))"

definition jpq_result_nfields :: "pg \<Rightarrow> nat option \<Rightarrow> janet list \<Rightarrow> janet run" where
  "jpq_result_nfields lib r argv = on_result argv 1 (okay (wrap_int_number (pg_nfields lib r)))"

definition jpq_result_fname :: "pg \<Rightarrow> nat option \<Rightarrow> janet list \<Rightarrow> janet run" where
  "jpq_result_fname lib r argv = on_result argv 2
     (andthen (checks (janet_getinteger argv 1)) (\<lambda>col. okay (safe_cstringv (pg_fname lib r col))))"

definition jpq_result_fnumber :: "pg \<Rightarrow> nat option \<Rightarrow> janet list \<Rightarrow> janet run" where
  "jpq_result_fnumber lib r argv = on_result argv 2
     (andthen (checks (janet_getcstring argv 1)) (\<lambda>s. okay (wrap_int_number (pg_fnumber lib r s))))"

definition jpq_result_ftype :: "pg \<Rightarrow> nat option \<Rightarrow> janet list \<Rightarrow> janet run" where
  "jpq_result_ftype lib r argv = on_result argv 2
     (andthen (checks (janet_getinteger argv 1)) (\<lambda>col. okay (wrap_int_number (pg_ftype lib r col))))"

definition jpq_result_fformat :: "pg \<Rightarrow> nat option \<Rightarrow> janet list \<Rightarrow> janet run" where
  "jpq_result_fformat lib r argv = on_result argv 2
     (andthen (checks (janet_getinteger argv 1)) (\<lambda>col. okay (wrap_int_number (pg_fformat lib r col))))"

definition jpq_result_status :: "pg \<Rightarrow> nat option \<Rightarrow> janet list \<Rightarrow> janet run" where
  "jpq_result_status lib r argv = on_result argv 1 (okay (wrap_int_number (pg_status lib r)))"

definition jpq_result_error_message :: "pg \<Rightarrow> nat option \<Rightarrow> janet list \<Rightarrow> janet run" where
  "jpq_result_error_message lib r argv = on_result argv 1 (okay (safe_cstringv (pg_error_message lib r)))"

definition jpq_result_error_field :: "pg \<Rightarrow> nat option \<Rightarrow> janet list \<Rightarrow> janet run" where
  "jpq_result_error_field lib r argv = on_result argv 2
     (andthen (checks (janet_getinteger argv 1)) (\<lambda>code. okay (safe_cstringv (pg_error_field lib r code))))"

definition jpq_error_pred :: "pg \<Rightarrow> nat option \<Rightarrow> janet list \<Rightarrow> janet run" where
  "jpq_error_pred lib r argv =
     andthen (checks (janet_fixarity (length argv) 1)) (\<lambda>_.
     case getabs ''pq/result'' argv 0 of
       Inl _ \<Rightarrow> okay (JBool False)
     | Inr _ \<Rightarrow>
         (let status = pg_status lib r in
          okay (JBool (status \<noteq> PGRES_TUPLES_OK \<and> status \<noteq> PGRES_EMPTY_QUERY \<and> status \<noteq> PGRES_COMMAND_OK))))"

subsection \<open>Unpacking rows\<close>

text \<open>What a table gives for a number, and a put: a nil key is ignored, a nil value unbinds.\<close>

definition table_number :: "(janet \<times> janet) list \<Rightarrow> double \<Rightarrow> janet" where
  "table_number kvs d =
     (case find (\<lambda>(k, v). case k of JNumber e \<Rightarrow> dbl_eq e d | _ \<Rightarrow> False) kvs of
        Some (k, v) \<Rightarrow> v | None \<Rightarrow> JNil)"

definition table_put :: "(janet \<times> janet) list \<Rightarrow> janet \<Rightarrow> janet \<Rightarrow> (janet \<times> janet) list" where
  "table_put kvs k v =
     (let others = filter (\<lambda>kv. fst kv \<noteq> k) kvs in
      if k = JNil then kvs else if v = JNil then others else others @ [(k, v)])"

text \<open>The object identifier is unsigned; wrapped as an integer it keeps its low 32 bits.
  \<open>call\<close> runs a decoder on the text of a field.\<close>

definition unpack_field :: "pg \<Rightarrow> (janet \<Rightarrow> bytes \<Rightarrow> janet run) \<Rightarrow> (janet \<times> janet) list \<Rightarrow> nat option \<Rightarrow> int \<Rightarrow> int
    \<Rightarrow> janet run" where
  "unpack_field lib call decode_tab r i j = (case pg_value lib r i j of
     None \<Rightarrow> okay JNil
   | Some v \<Rightarrow>
       (let t = pg_ftype lib r j in
        if pg_fformat lib r j \<noteq> 0 then raises ''BUG: currently only text decoding is supported'' []
        else let decoder = table_number decode_tab (double_of_int (wrap32 t)) in
          if janet_checktype decoder JANET_NIL
          then raises ''no decoder entry for returned row item with oid - %d'' [AInt (wrap32 t)]
          else (case decoder of
              JFunction _ \<Rightarrow> call decoder v
            | JCFunction _ \<Rightarrow> call decoder v
            | _ \<Rightarrow> raises ''decoder entry is not a callable function'' [])))"

fun unpack_row :: "pg \<Rightarrow> (janet \<Rightarrow> bytes \<Rightarrow> janet run) \<Rightarrow> (janet \<times> janet) list \<Rightarrow> nat option \<Rightarrow> int \<Rightarrow> int list
    \<Rightarrow> (janet \<times> janet) list \<Rightarrow> (janet \<times> janet) list run" where
  "unpack_row lib call decode_tab r i [] t = okay t"
| "unpack_row lib call decode_tab r i (j # js) t =
     andthen (unpack_field lib call decode_tab r i j) (\<lambda>jv.
     unpack_row lib call decode_tab r i js (table_put t (safe_ckeywordv (pg_fname lib r j)) jv))"

fun unpack_rows :: "pg \<Rightarrow> (janet \<Rightarrow> bytes \<Rightarrow> janet run) \<Rightarrow> (janet \<times> janet) list \<Rightarrow> nat option \<Rightarrow> int list
    \<Rightarrow> janet list \<Rightarrow> janet list run" where
  "unpack_rows lib call decode_tab r [] a = okay a"
| "unpack_rows lib call decode_tab r (i # ks) a =
     andthen (unpack_row lib call decode_tab r i [0..pg_nfields lib r - 1] []) (\<lambda>t.
     unpack_rows lib call decode_tab r ks (a @ [JTable t]))"

definition jpq_result_unpack :: "pg \<Rightarrow> (janet \<Rightarrow> bytes \<Rightarrow> janet run) \<Rightarrow> nat option \<Rightarrow> janet list \<Rightarrow> janet run" where
  "jpq_result_unpack lib call r argv = on_result argv 2
     (andthen (checks (janet_gettable argv 1)) (\<lambda>decode_tab.
      let status = pg_status lib r in
      if status = PGRES_EMPTY_QUERY \<or> status = PGRES_COMMAND_OK then okay JNil
      else if status \<noteq> PGRES_TUPLES_OK then raises ''%v'' [AVal (argv ! 0)]
      else andthen (unpack_rows lib call decode_tab r [0..pg_ntuples lib r - 1] []) (\<lambda>a. okay (JArray a))))"

subsection \<open>Connections\<close>

record pq_context =
  conn :: "nat option"   \<comment> \<open>\<open>None\<close> after closing\<close>

type_synonym libpq = "(pqcall, pqreply) os"

definition context_close :: "libpq \<Rightarrow> pq_context \<Rightarrow> (pqcall, pq_context) prog" where
  "context_close os ctx = (case conn ctx of
     None \<Rightarrow> ret ctx
   | Some c \<Rightarrow> bind (syscall os (PQfinish c)) (\<lambda>_. ret (ctx\<lparr>conn := None\<rparr>)))"

definition context_gc :: "libpq \<Rightarrow> pq_context \<Rightarrow> (pqcall, pq_context) prog" where
  "context_gc os ctx = context_close os ctx"

text \<open>The key is taken for a keyword without a check: a key that is no string of any kind is
  read as one.\<close>

definition context_get :: "janet \<Rightarrow> fault + bool" where
  "context_get key = (case key of
     JKeyword k \<Rightarrow> Inr (cstring (k @ [0]) = bs ''close'')
   | JString k \<Rightarrow> Inr (cstring (k @ [0]) = bs ''close'')
   | JSymbol k \<Rightarrow> Inr (cstring (k @ [0]) = bs ''close'')
   | _ \<Rightarrow> Inl BadCast)"

definition on_context :: "janet list \<Rightarrow> nat \<Rightarrow> (pqcall, 'a) prog \<Rightarrow> (pqcall, 'a) prog" where
  "on_context argv arity m =
     bind (checked (janet_fixarity (length argv) arity)) (\<lambda>_.
     bind (checked (getabs ''pq/context'' argv 0)) (\<lambda>_. m))"

definition message :: "bytes option \<Rightarrow> bytes" where
  "message t = (case t of Some m \<Rightarrow> m | None \<Rightarrow> bs ''(null)'')"

definition jpq_connect :: "libpq \<Rightarrow> janet list \<Rightarrow> (pqcall, pq_context) prog" where
  "jpq_connect os argv =
     bind (checked (janet_fixarity (length argv) 1)) (\<lambda>_.
     bind (checked (janet_getcstring argv 0)) (\<lambda>u.
     bind (syscall os (PQconnectdb u)) (\<lambda>c.
     case pq_ptr c of
       None \<Rightarrow> checked (Inl (Panic ''unable to create connection'' []))
     | Some p \<Rightarrow>
         bind (syscall os (PQstatus p)) (\<lambda>s.
         if pq_int s \<noteq> CONNECTION_OK
         then bind (syscall os (PQerrorMessage (Some p))) (\<lambda>m.
           checked (Inl (Panic ''connection failed: %s'' [ABytes (message (pq_text m))])))
         else ret \<lparr>conn = Some p\<rparr>))))"

definition ensure_ctx_ok :: "pq_context \<Rightarrow> panic + nat" where
  "ensure_ctx_ok ctx = (case conn ctx of
     None \<Rightarrow> Inl (Panic ''pq context is disconnected'' []) | Some c \<Rightarrow> Inr c)"

definition jpq_status :: "libpq \<Rightarrow> pq_context \<Rightarrow> janet list \<Rightarrow> (pqcall, janet) prog" where
  "jpq_status os ctx argv = on_context argv 1 (bind (checked (ensure_ctx_ok ctx)) (\<lambda>c.
     bind (syscall os (PQstatus c)) (\<lambda>s. ret (janet_wrap_integer (pq_int s)))))"

definition jpq_transaction_status :: "libpq \<Rightarrow> pq_context \<Rightarrow> janet list \<Rightarrow> (pqcall, janet) prog" where
  "jpq_transaction_status os ctx argv = on_context argv 1 (bind (checked (ensure_ctx_ok ctx)) (\<lambda>c.
     bind (syscall os (PQtransactionStatus c)) (\<lambda>s. ret (janet_wrap_integer (pq_int s)))))"

definition jpq_close :: "libpq \<Rightarrow> pq_context \<Rightarrow> janet list \<Rightarrow> (pqcall, pq_context) prog" where
  "jpq_close os ctx argv = on_context argv 1 (context_close os ctx)"

text \<open>The connection may be closed: the library is asked to escape for NULL.\<close>

definition escaped :: "libpq \<Rightarrow> pq_context \<Rightarrow> pqreply \<Rightarrow> (pqcall, janet) prog" where
  "escaped os ctx r = (case pq_text r of
     None \<Rightarrow> bind (syscall os (PQerrorMessage (conn ctx))) (\<lambda>m.
       checked (Inl (Panic ''%v'' [AVal (safe_cstringv (pq_text m))])))
   | Some t \<Rightarrow> bind (syscall os PQfreemem) (\<lambda>_. ret (JString t)))"

definition jpq_escape_literal :: "libpq \<Rightarrow> pq_context \<Rightarrow> janet list \<Rightarrow> (pqcall, janet) prog" where
  "jpq_escape_literal os ctx argv = on_context argv 2 (bind (checked (janet_getstring argv 1)) (\<lambda>input.
     bind (syscall os (PQescapeLiteral (conn ctx) input)) (escaped os ctx)))"

definition jpq_escape_identifier :: "libpq \<Rightarrow> pq_context \<Rightarrow> janet list \<Rightarrow> (pqcall, janet) prog" where
  "jpq_escape_identifier os ctx argv = on_context argv 2 (bind (checked (janet_getstring argv 1)) (\<lambda>input.
     bind (syscall os (PQescapeIdentifier (conn ctx) input)) (escaped os ctx)))"

subsection \<open>Parameters\<close>

text \<open>\<open>"%g"\<close>: six significant digits.\<close>

definition digits6 :: "int \<Rightarrow> int \<Rightarrow> int \<times> int" where
  "digits6 p q =
     (let x = floor_log10 p q;
          ab = scale_pow 10 p q (x - 5);
          d = round_half_even (fst ab) (snd ab)
      in if d = 10 ^ 6 then (10 ^ 5, x + 1) else (d, x))"

definition fmt_6g_pos :: "int \<Rightarrow> int \<Rightarrow> bytes" where
  "fmt_6g_pos p q =
     (case digits6 p q of (d, x) \<Rightarrow>
      let ds = dec_digits 6 d in
      if -4 \<le> x \<and> x < 6
      then if x \<ge> 0 then with_point (take (nat x + 1) ds) (drop (nat x + 1) ds)
           else with_point [c8 CHR ''0''] (replicate (nat (- x - 1)) (c8 CHR ''0'') @ ds)
      else with_point (take 1 ds) (drop 1 ds) @ fmt_exponent x)"

definition fmt_6g :: "double \<Rightarrow> bytes" where
  "fmt_6g d = (case d of
     Finite s n \<Rightarrow>
       (if s then [c8 CHR ''-''] else []) @
       (if n = 0 then [c8 CHR ''0'']
        else let pq = scale_pow 2 (dbl_sig n) 1 (- dbl_exp n) in fmt_6g_pos (fst pq) (snd pq))
   | Infinity s \<Rightarrow> (if s then bs ''-inf'' else bs ''inf'')
   | NaN s \<Rightarrow> (if s then bs ''-nan'' else bs ''nan''))"

text \<open>\<open>"%.0f"\<close> of a number that is the integer \<open>i\<close>.\<close>

definition fmt_0f :: "double \<Rightarrow> int \<Rightarrow> bytes" where
  "fmt_0f d i = (if d = Finite True 0 then bs ''-0'' else fmt_int i)"

definition number_text :: "double \<Rightarrow> bytes" where
  "number_text d = (case dbl_int d of
     Some i \<Rightarrow> (if i \<le> INT32_MAX \<and> i \<ge> INT32_MIN then fmt_0f d i else fmt_6g d)
   | None \<Rightarrow> fmt_6g d)"

definition text_param :: "bytes \<Rightarrow> pqparam" where
  "text_param t = \<lparr>pval = Some (t @ [0]), plength = int (length t), pformat = 0\<rparr>"

text \<open>A triple of type, format and value; the type goes to an array of its own.\<close>

definition raw_encode :: "janet \<Rightarrow> (int \<times> pqparam) run" where
  "raw_encode j =
     andthen (checks (janet_getindexed [j] 0)) (\<lambda>view.
     if length view \<noteq> 3 then raises ''arrays and tuples must be an [oid is-binary string] triple'' []
     else case view ! 0 of
       JNumber d \<Rightarrow>
         andthen (faults (convert_to 0 (2 ^ 32 - 1) d)) (\<lambda>oid.
         case view ! 1 of
           JBool b \<Rightarrow>
             (if \<not> janet_checktype (view ! 2) JANET_STRING \<and> \<not> janet_checktype (view ! 2) JANET_BUFFER
              then raises ''value in oid pair must be a string or buffer'' []
              else andthen (checks (janet_getbytes [view ! 2] 0)) (\<lambda>v.
                okay (oid, \<lparr>pval = Some (v @ [0]), plength = int (length v), pformat = (if b then 1 else 0)\<rparr>)))
         | _ \<Rightarrow> raises ''is-binary must be a boolean'' [])
     | _ \<Rightarrow> raises ''oid must be a number'' [])"

text \<open>\<open>encode\<close> is the value's own \<open>:pq/encode\<close> method.\<close>

definition encode_param :: "(janet \<Rightarrow> janet run) \<Rightarrow> janet \<Rightarrow> (int \<times> pqparam) run" where
  "encode_param encode j =
     (let other = andthen (encode j) (\<lambda>j2.
        if \<not> janet_checktype j2 JANET_ARRAY \<and> \<not> janet_checktype j2 JANET_TUPLE
        then raises ''method :pq/encode did not return an array or tuple'' [] else raw_encode j2) in
      case j of
        JNil \<Rightarrow> okay (0, \<lparr>pval = None, plength = 0, pformat = 0\<rparr>)
      | JBool b \<Rightarrow> okay (0, \<lparr>pval = Some [if b then c8 CHR ''t'' else c8 CHR ''f'', 0], plength = 2, pformat = 0\<rparr>)
      | JBuffer b \<Rightarrow> okay (0, \<lparr>pval = Some b, plength = int (length b), pformat = 1\<rparr>)
      | JKeyword s \<Rightarrow> okay (0, \<lparr>pval = Some s, plength = int (length s), pformat = 1\<rparr>)
      | JString s \<Rightarrow> okay (0, \<lparr>pval = Some s, plength = int (length s), pformat = 1\<rparr>)
      | JNumber d \<Rightarrow> okay (0, text_param (number_text d))
      | JArray _ \<Rightarrow> raw_encode j
      | JTuple _ \<Rightarrow> raw_encode j
      | JAbstract a \<Rightarrow> (case a of
          AbsS64 v \<Rightarrow> okay (0, text_param (fmt_int v))
        | AbsU64 v \<Rightarrow> okay (0, text_param (fmt_int v))
        | AbsOther _ _ \<Rightarrow> other)
      | _ \<Rightarrow> other)"

fun encode_params :: "(janet \<Rightarrow> janet run) \<Rightarrow> janet list \<Rightarrow> (int \<times> pqparam) list run" where
  "encode_params encode [] = okay []"
| "encode_params encode (j # js) =
     andthen (encode_param encode j) (\<lambda>p. andthen (encode_params encode js) (\<lambda>ps. okay (p # ps)))"

definition running :: "'a run \<Rightarrow> ('c, 'a) prog" where
  "running m tr = (case m of
     Inl f \<Rightarrow> (Fault f, tr) | Inr r \<Rightarrow> (case r of Inl p \<Rightarrow> (Raise p, tr) | Inr x \<Rightarrow> (Value x, tr)))"

abbreviation NFAST_PATH :: int where "NFAST_PATH \<equiv> 4"

text \<open>The frees stop before the first block.\<close>

definition free_params :: "nat \<Rightarrow> pqcall list" where
  "free_params argc = map Sfree (rev [1..<argc]) @ (if int argc > NFAST_PATH then [SfreeArrays] else [])"

definition emit :: "'c list \<Rightarrow> ('c, unit) prog" where
  "emit cs tr = (Value (), tr @ cs)"

definition jpq_exec :: "libpq \<Rightarrow> (janet \<Rightarrow> janet run) \<Rightarrow> pq_context \<Rightarrow> janet list \<Rightarrow> (pqcall, nat) prog" where
  "jpq_exec os encode ctx argv =
     (if length argv < 2 then checked (Inl (Panic ''expected at least a pq context and a query string'' []))
      else if length argv > 10000000 then checked (Inl (Panic ''too many arguments'' []))
      else
        bind (checked (getabs ''pq/context'' argv 0)) (\<lambda>_.
        bind (checked (ensure_ctx_ok ctx)) (\<lambda>c.
        bind (checked (janet_getcstring argv 1)) (\<lambda>q.
        bind (running (encode_params encode (drop 2 argv))) (\<lambda>ps.
        bind (syscall os (PQexecParams c q (map snd ps))) (\<lambda>r.
        case pq_ptr r of
          None \<Rightarrow> checked (Inl (Panic ''query failed'' []))
        | Some p \<Rightarrow> bind (emit (free_params (length argv - 2))) (\<lambda>_. ret p)))))))"

subsection \<open>\<open>bytea\<close> text\<close>

definition decode_nibble :: "8 word \<Rightarrow> 8 word" where
  "decode_nibble b =
     (if b \<ge> c8 CHR ''0'' \<and> b \<le> c8 CHR ''9'' then b - c8 CHR ''0''
      else if b \<ge> c8 CHR ''a'' \<and> b \<le> c8 CHR ''f'' then 10 + b - c8 CHR ''a''
      else if b \<ge> c8 CHR ''A'' \<and> b \<le> c8 CHR ''F'' then 10 + b - c8 CHR ''A''
      else 0)"

text \<open>Two characters make a byte; a last one alone is taken with 0.\<close>

fun decode_pairs :: "bytes \<Rightarrow> nat \<Rightarrow> 8 word block \<Rightarrow> fault + nat \<times> 8 word block" where
  "decode_pairs [] nout out = Inr (nout, out)"
| "decode_pairs [x] nout out =
     rbind (write_cell out nout (push_bit 4 (decode_nibble x) OR decode_nibble 0)) (\<lambda>out. Inr (nout + 1, out))"
| "decode_pairs (x # y # zs) nout out =
     rbind (write_cell out nout (push_bit 4 (decode_nibble x) OR decode_nibble y)) (\<lambda>out.
     decode_pairs zs (nout + 1) out)"

definition jpq_decode_bytea :: "janet list \<Rightarrow> janet run" where
  "jpq_decode_bytea argv =
     andthen (checks (janet_fixarity (length argv) 1)) (\<lambda>_.
     andthen (checks (janet_getbytes argv 0)) (\<lambda>b.
     if length b < 2 \<or> b ! 0 \<noteq> 92 \<or> b ! 1 \<noteq> c8 CHR ''x''
     then raises (''bytea encoded data should begin with '' @ [CHR 0x27, CHR 0x5c, CHR ''x'', CHR 0x27]) []
     else let nbytes = length b - 2 in
       andthen (faults (decode_pairs (drop 2 b) 0 (malloc_block (nbytes div 2)))) (\<lambda>(nout, out).
       andthen (faults (read_cells out 0 nout)) (\<lambda>s. okay (JString s)))))"

end
