(* ===== verification/PqProps.thy ===== *)
theory PqProps
  imports Pq
begin

unbundle bit_operations_syntax

text \<open>Properties of the PostgreSQL binding: the decoding of \<open>bytea\<close> text, and what a
  query sends.\<close>

subsection \<open>Hexadecimal text\<close>

text \<open>The text the server writes for a byte.\<close>

definition hex_digit :: "8 word \<Rightarrow> 8 word" where
  "hex_digit n = (if n < 10 then n + c8 CHR ''0'' else n - 10 + c8 CHR ''a'')"

definition hex_byte :: "8 word \<Rightarrow> bytes" where
  "hex_byte w = [hex_digit (drop_bit 4 w), hex_digit (w AND 15)]"

definition bytea_text :: "bytes \<Rightarrow> bytes" where
  "bytea_text xs = 92 # c8 CHR ''x'' # concat (map hex_byte xs)"

lemma decode_hex_digit:
  assumes "n < 16"
  shows "decode_nibble (hex_digit n) = n"
proof -
  have all: "list_all (\<lambda>n. decode_nibble (hex_digit n) = n) [0, 1, 2, 3, 4, 5, 6, 7, 8, 9, 10, 11, 12, 13, 14, 15]"
    by code_simp
  have "unat n < 16" using assms by (simp add: word_less_nat_alt)
  then have "unat n \<in> set [0..<16]" by simp
  moreover have "n = word_of_nat (unat n)" by simp
  ultimately have "n \<in> word_of_nat ` set [0..<16]" by blast
  also have "word_of_nat ` set [0..<16] = set (map word_of_nat [0..<16])" by simp
  also have "map word_of_nat [0..<16] = [0, 1, 2, 3, 4, 5, 6, 7, 8, 9, 10, 11, 12, 13, 14, 15 :: 8 word]"
    by (simp add: upt_rec)
  finally show ?thesis using all unfolding list_all_iff by blast
qed

lemma hex_nibbles:
  "push_bit 4 (decode_nibble (hex_digit (drop_bit 4 w))) OR decode_nibble (hex_digit (w AND 15)) = w"
proof -
  have hi: "drop_bit 4 w < 16"
  proof -
    have "unat (drop_bit 4 w) = unat w div 16" unfolding unat_drop_bit_eq by (simp add: drop_bit_eq_div)
    moreover have "unat w < 2 ^ LENGTH(8)" by (rule unsigned_less)
    then have "unat w < 256" by simp
    ultimately have "unat (drop_bit 4 w) < 16" by simp
    then show ?thesis by (simp add: word_less_nat_alt)
  qed
  have lo: "w AND 15 < 16"
    using word_and_le1 [of w 15] by (rule order.strict_trans1) simp
  have "push_bit 4 (drop_bit 4 w) OR (w AND mask 4) = w"
    by (rule bit_word_eqI) (auto simp: bit_simps)
  then show ?thesis by (simp add: decode_hex_digit [OF hi] decode_hex_digit [OF lo] mask_eq_exp_minus_1)
qed

lemma decode_pairs_hex:
  "holds out xs \<Longrightarrow> length out = length xs + length ys \<Longrightarrow>
    \<exists>out2. decode_pairs (concat (map hex_byte ys)) (length xs) out = Inr (length xs + length ys, out2)
      \<and> holds out2 (xs @ ys) \<and> length out2 = length out"
proof (induction ys arbitrary: xs out)
  case (Cons y ys)
  obtain o2 where o2: "write_cell out (length xs) y = Inr o2" "holds o2 (xs @ [y])" "length o2 = length out"
    using holds_write_cell_end [OF Cons.prems(1), of y] Cons.prems(2) by auto
  have l: "length o2 = length (xs @ [y]) + length ys" using o2(3) Cons.prems(2) by simp
  from Cons.IH [OF o2(2) l] o2(1,3) hex_nibbles [of y] show ?case by (simp add: hex_byte_def)
qed simp

lemma decode_pairs_odd:
  "odd (length cs) \<Longrightarrow> length out = nout + length cs div 2 \<Longrightarrow> decode_pairs cs nout out = Inl OutOfBounds"
proof (induction cs nout out rule: decode_pairs.induct)
  case (2 x nout out)
  then show ?case by (simp add: write_cell_simps)
next
  case (3 x y zs nout out)
  have n: "nout < length out" using 3(3) by simp
  then have "write_cell out nout (push_bit 4 (decode_nibble x) OR decode_nibble y)
      = Inr (out[nout := Some (push_bit 4 (decode_nibble x) OR decode_nibble y)])"
    by (rule write_cell_simps(1))
  then show ?case using 3 by simp
qed simp

text \<open>C38. Decoding the text the server writes for a \<open>bytea\<close> value gives back its bytes.
  Text with an odd number of digits makes the decoder write one byte past its block.\<close>

theorem pq_decode_bytea:
  "jpq_decode_bytea [JString (bytea_text xs)] = okay (JString xs)
   \<and> (odd (length cs) \<longrightarrow> jpq_decode_bytea [JString (92 # c8 CHR ''x'' # cs)] = Inl OutOfBounds)"
proof
  have x: "(120 :: 8 word) = c8 CHR ''x''" by code_simp
  have l: "length (concat (map hex_byte ys)) = 2 * length ys" for ys
    by (induction ys) (simp_all add: hex_byte_def)
  obtain out where out: "decode_pairs (concat (map hex_byte xs)) 0 (malloc_block (length xs)) = Inr (length xs, out)"
    "holds out xs" "length out = length xs"
    using decode_pairs_hex [of "malloc_block (length xs)" "[]" xs] by auto
  have "read_cells out 0 (length xs) = Inr xs" using holds_read_cells [OF out(2), of 0 "length xs"] by simp
  then show "jpq_decode_bytea [JString (bytea_text xs)] = okay (JString xs)"
    using out(1) l [of xs]
    by (simp add: jpq_decode_bytea_def bytea_text_def janet_fixarity_def janet_getbytes_def janet_bytes_view_def
        run_simps)
next
  show "odd (length cs) \<longrightarrow> jpq_decode_bytea [JString (92 # c8 CHR ''x'' # cs)] = Inl OutOfBounds"
  proof
    assume "odd (length cs)"
    then have "decode_pairs cs 0 (malloc_block (length cs div 2)) = Inl OutOfBounds"
      by (rule decode_pairs_odd) simp
    then show "jpq_decode_bytea [JString (92 # c8 CHR ''x'' # cs)] = Inl OutOfBounds"
      by (simp add: jpq_decode_bytea_def janet_fixarity_def janet_getbytes_def janet_bytes_view_def run_simps)
  qed
qed

theorem pq_decode_bytea_witness:
  "jpq_decode_bytea [JString (92 # c8 CHR ''x'' # [48, 49, 50])] = Inl OutOfBounds"
  using pq_decode_bytea [THEN conjunct2, of "[48, 49, 50]"] by simp

subsection \<open>Queries\<close>

text \<open>A query on an open connection sends the encoded parameters in order and then frees
  their blocks from the last down to the second; the first one is never freed. The types given in
  triples are not sent. A number that is a 32-bit integer is sent in full; any other number in six
  significant digits, so that 2147483649 arrives as 2.14748e+09.\<close>

theorem pq_exec_sends:
  assumes "conn ctx = Some c" and "0 \<notin> set q" and "length js \<le> 9999998"
    and "encode_params encode js = okay ps" and "os [] (PQexecParams c q (map snd ps)) = PPtr (Some r)"
  shows "jpq_exec os encode ctx (JAbstract (AbsOther ''pq/context'' i) # JString q # js) []
      = (Value r, PQexecParams c q (map snd ps) # map Sfree (rev [1..<length js])
          @ (if length js > 4 then [SfreeArrays] else []))
    \<and> Sfree 0 \<notin> set (snd (jpq_exec os encode ctx (JAbstract (AbsOther ''pq/context'' i) # JString q # js) []))
    \<and> (\<forall>d oid b v. convert_to 0 (2 ^ 32 - 1) d = Inr oid \<longrightarrow>
        raw_encode (JTuple [JNumber d, JBool b, JString v])
          = okay (oid, \<lparr>pval = Some (v @ [0]), plength = int (length v), pformat = (if b then 1 else 0)\<rparr>))
    \<and> (\<forall>d k. dbl_int d = Some k \<and> int32 k \<and> d \<noteq> Finite True 0 \<longrightarrow> number_text d = fmt_int k)
    \<and> number_text (double_of_int 2147483649) = bs ''2.14748e+09''"
proof -
  have run: "jpq_exec os encode ctx (JAbstract (AbsOther ''pq/context'' i) # JString q # js) []
      = (Value r, PQexecParams c q (map snd ps) # free_params (length js))"
    using assms
    by (simp add: jpq_exec_def getabs_def ensure_ctx_ok_def janet_getcstring_def prog_simps running_def okay_def
        bind_def emit_def ret_def syscall_def)
  have n: "number_text (double_of_int 2147483649) = bs ''2.14748e+09''" by code_simp
  have t: "raw_encode (JTuple [JNumber d, JBool b, JString v])
      = okay (oid, \<lparr>pval = Some (v @ [0]), plength = int (length v), pformat = (if b then 1 else 0)\<rparr>)"
    if "convert_to 0 (2 ^ 32 - 1) d = Inr oid" for d oid b v
    using that by (simp add: raw_encode_def janet_getindexed_def janet_indexed_view_def run_simps
        janet_getbytes_def janet_bytes_view_def)
  have m: "number_text d = fmt_int k" if "dbl_int d = Some k" "int32 k" "d \<noteq> Finite True 0" for d k
    using that by (simp add: number_text_def fmt_0f_def int32_def)
  show ?thesis unfolding run using t n m by (auto simp: free_params_def)
qed

theorem pq_exec_sends_witness:
  "jpq_exec (\<lambda>_ _. PPtr (Some 9)) (\<lambda>_. raises ''no method'' []) \<lparr>conn = Some 5\<rparr>
      [JAbstract (AbsOther ''pq/context'' 0), JString [81], JNil, JBool True] []
    = (Value 9, [PQexecParams 5 [81] [\<lparr>pval = None, plength = 0, pformat = 0\<rparr>,
        \<lparr>pval = Some [c8 CHR ''t'', 0], plength = 2, pformat = 0\<rparr>], Sfree 1])"
proof -
  have e: "encode_params (\<lambda>_. raises ''no method'' []) [JNil, JBool True]
      = okay [(0, \<lparr>pval = None, plength = 0, pformat = 0\<rparr>), (0, \<lparr>pval = Some [c8 CHR ''t'', 0], plength = 2, pformat = 0\<rparr>)]"
    by (simp add: encode_param_def run_simps)
  show ?thesis
    using pq_exec_sends [of "\<lparr>conn = Some 5\<rparr>" 5 "[81]" "[JNil, JBool True]", OF _ _ _ e,
        of "\<lambda>_ _. PPtr (Some 9)" 9 0]
    by simp
qed

end
