(* ===== verification/Regalloc.thy ===== *)
theory Regalloc
  imports CStd
begin

unbundle bit_operations_syntax

text \<open>
  \<^verbatim>\<open>src/core/regalloc.c\<close> (amalg/janet.c): the registers of a function as a set of bits
  in chunks of 32. Registers are C ints; \<open>chunks\<close> is the part of the block below its count.
  It is a set of registers with first fit allocation, in which 240 to 255 are always taken.
\<close>

record regalloc =
  chunks :: "32 word list"
  capacity :: int
  rmax :: int
  regtemps :: "32 word"

definition janetc_regalloc_init :: regalloc where
  "janetc_regalloc_init = \<lparr>chunks = [], capacity = 0, rmax = 0, regtemps = 0\<rparr>"

text \<open>Of a word that is not all ones.\<close>

definition count_trailing_ones :: "32 word \<Rightarrow> nat" where
  "count_trailing_ones w = length (takeWhile (bit w) [0..<32])"

definition ithbit :: "nat \<Rightarrow> 32 word" where
  "ithbit i = push_bit i 1"

definition janetc_regalloc_clone :: "regalloc \<Rightarrow> regalloc" where
  "janetc_regalloc_clone src = \<lparr>chunks = chunks src, capacity = capacity src, rmax = rmax src, regtemps = 0\<rparr>"

definition pushchunk :: "regalloc \<Rightarrow> regalloc" where
  "pushchunk ra =
     (let chunk = (if length (chunks ra) = 7 then 0xFFFF0000 else 0);
          newcount = int (length (chunks ra)) + 1
      in ra\<lparr>chunks := chunks ra @ [chunk], capacity := (if newcount > capacity ra then newcount * 2 else capacity ra)\<rparr>)"

lemma length_pushchunk [simp]: "length (chunks (pushchunk ra)) = Suc (length (chunks ra))"
  by (simp add: pushchunk_def Let_def)

text \<open>\<open>while (chunk >= ra->count) pushchunk(ra)\<close>\<close>

function push_until :: "nat \<Rightarrow> regalloc \<Rightarrow> regalloc" where
  "push_until n ra = (if n \<ge> length (chunks ra) then push_until n (pushchunk ra) else ra)"
  by auto
termination by (relation "measure (\<lambda>(n, ra). Suc n - length (chunks ra))") auto

declare push_until.simps [simp del]

definition set_reg :: "nat \<Rightarrow> nat \<Rightarrow> regalloc \<Rightarrow> regalloc" where
  "set_reg chunk b ra = ra\<lparr>chunks := (chunks ra)[chunk := chunks ra ! chunk OR ithbit b]\<rparr>"

definition janetc_regalloc_touch :: "regalloc \<Rightarrow> nat \<Rightarrow> regalloc" where
  "janetc_regalloc_touch ra reg = set_reg (reg div 32) (reg mod 32) (push_until (reg div 32) ra)"

fun first_free :: "nat \<Rightarrow> 32 word list \<Rightarrow> (nat \<times> nat) option" where
  "first_free chunk [] = None"
| "first_free chunk (block # blocks) =
     (if block = 0xFFFFFFFF then first_free (chunk + 1) blocks else Some (chunk, count_trailing_ones block))"

definition janetc_regalloc_1 :: "regalloc \<Rightarrow> nat \<times> regalloc" where
  "janetc_regalloc_1 ra =
     (let (chunk, b, ra) = (case first_free 0 (chunks ra) of
            Some (chunk, b) \<Rightarrow> (chunk, b, ra)
          | None \<Rightarrow> (length (chunks ra), 0, pushchunk ra));
          ra = set_reg chunk b ra;
          reg = 32 * chunk + b
      in (reg, if int reg > rmax ra then ra\<lparr>rmax := int reg\<rparr> else ra))"

definition janetc_regalloc_free :: "regalloc \<Rightarrow> nat \<Rightarrow> fault + regalloc" where
  "janetc_regalloc_free ra reg =
     (if reg div 32 \<ge> length (chunks ra) then Inl OutOfBounds
      else Inr (ra\<lparr>chunks := (chunks ra)[reg div 32 := chunks ra ! (reg div 32) AND NOT (ithbit (reg mod 32))]\<rparr>))"

definition janetc_regalloc_check :: "regalloc \<Rightarrow> nat \<Rightarrow> bool \<times> regalloc" where
  "janetc_regalloc_check ra reg =
     (let ra = push_until (reg div 32) ra
      in (chunks ra ! (reg div 32) AND ithbit (reg mod 32) \<noteq> 0, ra))"

text \<open>\<open>None\<close> is the exit of the process; \<open>tmp\<close> is below 8.\<close>

definition janetc_regalloc_temp :: "regalloc \<Rightarrow> nat \<Rightarrow> (nat \<times> regalloc) option" where
  "janetc_regalloc_temp ra tmp =
     (let oldmax = rmax ra in
      if regtemps ra AND ithbit tmp \<noteq> 0 then None
      else let (reg, ra) = janetc_regalloc_1 (ra\<lparr>regtemps := regtemps ra OR ithbit tmp\<rparr>) in
      if reg > 0xFF
      then Some (0xF0 + tmp, ra\<lparr>rmax := (if int (0xF0 + tmp) > oldmax then int (0xF0 + tmp) else oldmax)\<rparr>)
      else Some (reg, ra))"

definition janetc_regalloc_freetemp :: "regalloc \<Rightarrow> nat \<Rightarrow> nat \<Rightarrow> fault + regalloc" where
  "janetc_regalloc_freetemp ra reg tmp =
     (let ra = ra\<lparr>regtemps := regtemps ra AND NOT (ithbit tmp)\<rparr>
      in if reg < 0xF0 then janetc_regalloc_free ra reg else Inr ra)"

subsection \<open>The set of registers\<close>

definition reserved :: "nat \<Rightarrow> bool" where
  "reserved r = (240 \<le> r \<and> r \<le> 255)"

definition taken :: "regalloc \<Rightarrow> nat \<Rightarrow> bool" where
  "taken ra r = (if r div 32 < length (chunks ra) then bit (chunks ra ! (r div 32)) (r mod 32) else reserved r)"

definition regalloc_ok :: "regalloc \<Rightarrow> bool" where
  "regalloc_ok ra = (\<forall>r. reserved r \<longrightarrow> taken ra r)"

lemma init_ok: "regalloc_ok janetc_regalloc_init" "taken janetc_regalloc_init r = reserved r"
  by (simp_all add: regalloc_ok_def taken_def janetc_regalloc_init_def)

lemma bit_ithbit: "bit (ithbit b) i \<longleftrightarrow> i = b \<and> b < 32"
  by (auto simp: ithbit_def bit_simps)

lemma ithbit_test: "b < 32 \<Longrightarrow> w AND ithbit b \<noteq> 0 \<longleftrightarrow> bit w b"
proof
  assume b: "b < 32"
  show "w AND ithbit b \<noteq> 0 \<Longrightarrow> bit w b"
    using bit_eqI[of "w AND ithbit b" 0] by (auto simp: bit_and_iff bit_ithbit)
  show "bit w b \<Longrightarrow> w AND ithbit b \<noteq> 0" using b bit_and_iff[of w "ithbit b" b] bit_ithbit[of b b] by auto
qed

lemma fresh_chunk: "j < 32 \<Longrightarrow> bit (if n = 7 then 0xFFFF0000 else 0 :: 32 word) j = reserved (32 * n + j)"
proof -
  assume j: "j < 32"
  have "(0xFFFF0000 :: 32 word) = push_bit 16 (mask 16)" by (simp add: push_bit_eq_mult mask_eq_exp_minus_1)
  moreover have "bit (push_bit 16 (mask 16) :: 32 word) j \<longleftrightarrow> 16 \<le> j" using j by (auto simp only: bit_simps) auto
  ultimately have "bit (0xFFFF0000 :: 32 word) j \<longleftrightarrow> 16 \<le> j" by argo
  then show ?thesis using j by (auto simp: reserved_def)
qed

lemma taken_pushchunk: "taken (pushchunk ra) r = taken ra r"
proof (cases "r div 32 = length (chunks ra)")
  case True
  have "r mod 32 < 32" "32 * (r div 32) + r mod 32 = r" by simp_all
  then show ?thesis using True fresh_chunk[of "r mod 32" "length (chunks ra)"]
    by (auto simp: taken_def pushchunk_def Let_def nth_append)
next
  case False
  then show ?thesis by (auto simp: taken_def pushchunk_def Let_def nth_append)
qed

lemma push_until_ok: "taken (push_until n ra) r = taken ra r" "n < length (chunks (push_until n ra))"
  "rmax (push_until n ra) = rmax ra" "regtemps (push_until n ra) = regtemps ra"
proof -
  have "taken (push_until n ra) r = taken ra r \<and> n < length (chunks (push_until n ra))
    \<and> rmax (push_until n ra) = rmax ra \<and> regtemps (push_until n ra) = regtemps ra"
  proof (induction n ra rule: push_until.induct)
    case (1 n ra)
    have "rmax (pushchunk ra) = rmax ra" "regtemps (pushchunk ra) = regtemps ra" by (simp_all add: pushchunk_def Let_def)
    then show ?case using 1 taken_pushchunk[of ra r] by (subst (1 2 3 4) push_until.simps) simp
  qed
  then show "taken (push_until n ra) r = taken ra r" "n < length (chunks (push_until n ra))"
    "rmax (push_until n ra) = rmax ra" "regtemps (push_until n ra) = regtemps ra" by auto
qed

lemma div_mod_eq_iff: "(r :: nat) div 32 = q div 32 \<and> r mod 32 = q mod 32 \<longleftrightarrow> r = q"
  by (metis mult_div_mod_eq)

lemma taken_set_reg:
  assumes "reg div 32 < length (chunks ra)"
  shows "taken (set_reg (reg div 32) (reg mod 32) ra) r \<longleftrightarrow> r = reg \<or> taken ra r"
proof (cases "r div 32 = reg div 32")
  case True
  then have "r = reg \<longleftrightarrow> r mod 32 = reg mod 32" using div_mod_eq_iff[of r reg] by simp
  then show ?thesis using True assms by (auto simp: taken_def set_reg_def bit_or_iff bit_ithbit)
next
  case False
  then show ?thesis using assms by (auto simp: taken_def set_reg_def)
qed

lemma touch_taken: "taken (janetc_regalloc_touch ra reg) r \<longleftrightarrow> r = reg \<or> taken ra r"
  unfolding janetc_regalloc_touch_def using taken_set_reg push_until_ok(1,2) by blast

lemma check_taken: "janetc_regalloc_check ra reg = (b, ra2) \<Longrightarrow> b = taken ra reg \<and> taken ra2 = taken ra"
proof
  assume C: "janetc_regalloc_check ra reg = (b, ra2)"
  then have ra2: "ra2 = push_until (reg div 32) ra" by (auto simp: janetc_regalloc_check_def Let_def)
  then show "taken ra2 = taken ra" using push_until_ok(1) by blast
  have "b = bit (chunks ra2 ! (reg div 32)) (reg mod 32)"
    using C ra2 ithbit_test by (auto simp: janetc_regalloc_check_def Let_def)
  then show "b = taken ra reg" using push_until_ok(1,2)[of "reg div 32" ra] ra2 by (metis taken_def)
qed

lemma free_taken:
  assumes "reg div 32 < length (chunks ra)"
  shows "\<exists>ra2. janetc_regalloc_free ra reg = Inr ra2 \<and> (\<forall>r. taken ra2 r \<longleftrightarrow> r \<noteq> reg \<and> taken ra r)"
proof -
  let ?ra2 = "ra\<lparr>chunks := (chunks ra)[reg div 32 := chunks ra ! (reg div 32) AND NOT (ithbit (reg mod 32))]\<rparr>"
  have "taken ?ra2 r \<longleftrightarrow> r \<noteq> reg \<and> taken ra r" for r
  proof (cases "r div 32 = reg div 32")
    case True
    then have "r = reg \<longleftrightarrow> r mod 32 = reg mod 32" using div_mod_eq_iff[of r reg] by simp
    then show ?thesis using True assms by (auto simp: taken_def bit_and_iff bit_not_iff bit_ithbit)
  next
    case False
    then show ?thesis using assms by (auto simp: taken_def)
  qed
  then show ?thesis using assms by (simp add: janetc_regalloc_free_def)
qed

subsection \<open>First fit\<close>

lemma not_full: "w \<noteq> (0xFFFFFFFF :: 32 word) \<Longrightarrow> \<exists>i < 32. \<not> bit w i"
proof (rule ccontr)
  assume w: "w \<noteq> 0xFFFFFFFF" and n: "\<not> (\<exists>i < 32. \<not> bit w i)"
  have "(0xFFFFFFFF :: 32 word) = mask 32" by (simp add: mask_eq_exp_minus_1)
  moreover have "w = mask 32" using n by (intro bit_word_eqI) (auto simp: bit_simps)
  ultimately show False using w by simp
qed

lemma full_bits: "bit (0xFFFFFFFF :: 32 word) i \<longleftrightarrow> i < 32"
proof -
  have "(0xFFFFFFFF :: 32 word) = mask 32" by (simp add: mask_eq_exp_minus_1)
  moreover have "bit (mask 32 :: 32 word) i \<longleftrightarrow> i < 32" by (auto simp only: bit_simps) auto
  ultimately show ?thesis by argo
qed

lemma full_block: "ws ! (r div 32) = (0xFFFFFFFF :: 32 word) \<Longrightarrow> bit (ws ! (r div 32)) (r mod 32)"
  using full_bits[of "r mod 32"] by (metis mod_less_divisor zero_less_numeral)

lemma trailing_ones:
  assumes "w \<noteq> 0xFFFFFFFF"
  shows "count_trailing_ones w < 32" "\<not> bit w (count_trailing_ones w)" "i < count_trailing_ones w \<Longrightarrow> bit w i"
proof -
  obtain j where j: "j < 32" "\<not> bit w j" using not_full[OF assms] by blast
  show c: "count_trailing_ones w < 32"
  proof (rule ccontr)
    assume "\<not> count_trailing_ones w < 32"
    then have "length (takeWhile (bit w) [0..<32]) = length [0..<32::nat]"
      using length_takeWhile_le[of "bit w" "[0..<32]"] by (simp add: count_trailing_ones_def)
    then have "takeWhile (bit w) [0..<32] = [0..<32]" by (metis takeWhile_eq_take take_all_iff order_refl)
    then show False using j by (simp add: takeWhile_eq_all_conv)
  qed
  show "\<not> bit w (count_trailing_ones w)"
    using nth_length_takeWhile[of "bit w" "[0..<32]"] c by (simp add: count_trailing_ones_def)
  show "bit w i" if "i < count_trailing_ones w"
    using that c takeWhile_nth[of i "bit w" "[0..<32]"] set_takeWhileD[OF nth_mem, of i "bit w" "[0..<32]"]
    by (simp add: count_trailing_ones_def)
qed

lemma first_free_some:
  "first_free n ws = Some (c, b) \<Longrightarrow> n \<le> c \<and> c < n + length ws \<and> ws ! (c - n) \<noteq> 0xFFFFFFFF
     \<and> b = count_trailing_ones (ws ! (c - n)) \<and> (\<forall>i < c - n. ws ! i = 0xFFFFFFFF)"
proof (induction n ws rule: first_free.induct)
  case (2 n w ws)
  show ?case
  proof (cases "w = 0xFFFFFFFF")
    case True
    then have I: "n + 1 \<le> c" "c < n + 1 + length ws" "ws ! (c - (n + 1)) \<noteq> 0xFFFFFFFF"
      "b = count_trailing_ones (ws ! (c - (n + 1)))" "\<forall>i < c - (n + 1). ws ! i = 0xFFFFFFFF" using 2 by auto
    have s: "c - n = Suc (c - (n + 1))" using I(1) by simp
    have "(w # ws) ! i = 0xFFFFFFFF" if "i < c - n" for i using that I(5) True s by (cases i) auto
    then show ?thesis using I s by simp
  qed (use 2 in auto)
qed simp

lemma first_free_none: "first_free n ws = None \<Longrightarrow> \<forall>w \<in> set ws. w = 0xFFFFFFFF"
  by (induction n ws rule: first_free.induct) (auto split: if_splits)

text \<open>The least register that is free.\<close>

lemma regalloc_1_first:
  assumes "regalloc_ok ra" "janetc_regalloc_1 ra = (reg, ra2)"
  shows "\<not> taken ra reg" "r < reg \<Longrightarrow> taken ra r" "taken ra2 r \<longleftrightarrow> r = reg \<or> taken ra r"
    "rmax ra2 = (if int reg > rmax ra then int reg else rmax ra)" "regtemps ra2 = regtemps ra"
proof -
  define P where "P = (case first_free 0 (chunks ra) of Some (chunk, b) \<Rightarrow> (chunk, b, ra)
    | None \<Rightarrow> (length (chunks ra), 0, pushchunk ra))"
  obtain c b ra1 where p: "P = (c, b, ra1)" by (cases P)
  have R: "reg = 32 * c + b" "ra2 = (let ra = set_reg c b ra1 in if int reg > rmax ra then ra\<lparr>rmax := int reg\<rparr> else ra)"
    using assms(2) p unfolding janetc_regalloc_1_def P_def by (auto simp: Let_def)
  have F: "c < length (chunks ra1) \<and> b < 32 \<and> (\<forall>r. taken ra1 r = taken ra r) \<and> rmax ra1 = rmax ra \<and> regtemps ra1 = regtemps ra
      \<and> \<not> taken ra (32 * c + b) \<and> (\<forall>r < 32 * c + b. taken ra r)"
  proof (cases "first_free 0 (chunks ra)")
    case None
    then have c: "c = length (chunks ra)" "b = 0" "ra1 = pushchunk ra" using p by (auto simp: P_def)
    have full: "chunks ra ! i = 0xFFFFFFFF" if "i < length (chunks ra)" for i
      using first_free_none[OF None] that by simp
    have T: "taken ra r" if "r < 32 * c" for r
    proof -
      have "r div 32 < c" using that by (simp add: less_mult_imp_div_less mult.commute)
      then show ?thesis using full_block[OF full] c by (simp add: taken_def)
    qed
    have "\<not> reserved (32 * c)" unfolding reserved_def by presburger
    then have "\<not> taken ra (32 * c)" using c by (simp add: taken_def)
    then show ?thesis using c T taken_pushchunk by (simp add: pushchunk_def Let_def)
  next
    case (Some x)
    then have c: "first_free 0 (chunks ra) = Some (c, b)" "ra1 = ra" using p by (auto simp: P_def split: prod.splits)
    from first_free_some[OF c(1)] have I: "c < length (chunks ra)" "chunks ra ! c \<noteq> 0xFFFFFFFF"
      "b = count_trailing_ones (chunks ra ! c)" "\<forall>i < c. chunks ra ! i = 0xFFFFFFFF" by auto
    note ones = trailing_ones[OF I(2), folded I(3)]
    have "taken ra r" if r: "r < 32 * c + b" for r
    proof (cases "r div 32 < c")
      case True
      then show ?thesis using full_block[OF I(4)[rule_format]] I(1) by (simp add: taken_def)
    next
      case False
      then have "32 * c \<le> r" by (simp add: not_less less_eq_div_iff_mult_less_eq mult.commute)
      then obtain j where "r = 32 * c + j" "j < b" using r by (auto dest: le_Suc_ex)
      then show ?thesis using ones(1,3) I(1) by (simp add: taken_def)
    qed
    then show ?thesis using c(2) I(1) ones by (simp add: taken_def)
  qed
  have D: "reg div 32 = c" "reg mod 32 = b" using F R(1) by auto
  have S: "taken ra2 r = taken (set_reg c b ra1) r" by (simp add: R(2) Let_def taken_def)
  show "taken ra2 r \<longleftrightarrow> r = reg \<or> taken ra r" unfolding S using taken_set_reg[of reg ra1 r] F D by simp
  show "\<not> taken ra reg" "r < reg \<Longrightarrow> taken ra r" using F R(1) by auto
  show "rmax ra2 = (if int reg > rmax ra then int reg else rmax ra)" "regtemps ra2 = regtemps ra"
    using F by (simp_all add: R(2) Let_def set_reg_def)
qed


lemma regalloc_1_ok:
  assumes "regalloc_ok ra" "janetc_regalloc_1 ra = (reg, ra2)"
  shows "regalloc_ok ra2" "\<not> reserved reg" "reg div 32 < length (chunks ra2)"
proof -
  note F = regalloc_1_first[OF assms]
  show "regalloc_ok ra2" using F(3) assms(1) by (simp add: regalloc_ok_def)
  show N: "\<not> reserved reg" using F(1) assms(1) by (auto simp: regalloc_ok_def)
  show "reg div 32 < length (chunks ra2)" using F(3)[of reg] N by (auto simp: taken_def split: if_splits)
qed

subsection \<open>Properties\<close>

text \<open>C17. The register allocator is a set of registers with first fit: allocation gives the least
  register that is not taken, never one of 240 to 255, marks exactly it and keeps the maximum;
  touching marks one register, checking reports and changes no membership, and freeing an allocated
  register takes exactly it out, so the next allocation of it succeeds.\<close>

theorem regalloc_first_fit:
  assumes "regalloc_ok ra"
  shows "(\<exists>reg ra2 ra3. janetc_regalloc_1 ra = (reg, ra2) \<and> regalloc_ok ra2 \<and> \<not> taken ra reg \<and> (\<forall>r < reg. taken ra r)
      \<and> \<not> reserved reg \<and> (\<forall>r. taken ra2 r \<longleftrightarrow> r = reg \<or> taken ra r) \<and> int reg \<le> rmax ra2 \<and> rmax ra \<le> rmax ra2
      \<and> janetc_regalloc_free ra2 reg = Inr ra3 \<and> (\<forall>r. taken ra3 r = taken ra r))
    \<and> regalloc_ok (janetc_regalloc_touch ra q) \<and> (\<forall>r. taken (janetc_regalloc_touch ra q) r \<longleftrightarrow> r = q \<or> taken ra r)
    \<and> (\<exists>ra2. janetc_regalloc_check ra q = (taken ra q, ra2) \<and> taken ra2 = taken ra)"
proof -
  obtain reg ra2 where a: "janetc_regalloc_1 ra = (reg, ra2)" by (cases "janetc_regalloc_1 ra")
  note F = regalloc_1_first[OF assms a] and K = regalloc_1_ok[OF assms a]
  obtain ra3 where f: "janetc_regalloc_free ra2 reg = Inr ra3" "\<forall>r. taken ra3 r \<longleftrightarrow> r \<noteq> reg \<and> taken ra2 r"
    using free_taken[OF K(3)] by blast
  have "taken ra3 r = taken ra r" for r using f(2) F(1,3) by auto
  then have "\<exists>reg ra2 ra3. janetc_regalloc_1 ra = (reg, ra2) \<and> regalloc_ok ra2 \<and> \<not> taken ra reg \<and> (\<forall>r < reg. taken ra r)
      \<and> \<not> reserved reg \<and> (\<forall>r. taken ra2 r \<longleftrightarrow> r = reg \<or> taken ra r) \<and> int reg \<le> rmax ra2 \<and> rmax ra \<le> rmax ra2
      \<and> janetc_regalloc_free ra2 reg = Inr ra3 \<and> (\<forall>r. taken ra3 r = taken ra r)"
    using a F K f(1) by auto
  moreover have "regalloc_ok (janetc_regalloc_touch ra q) \<and> (\<forall>r. taken (janetc_regalloc_touch ra q) r \<longleftrightarrow> r = q \<or> taken ra r)"
    using assms touch_taken by (auto simp: regalloc_ok_def)
  moreover have "\<exists>ra2. janetc_regalloc_check ra q = (taken ra q, ra2) \<and> taken ra2 = taken ra"
    using check_taken by (cases "janetc_regalloc_check ra q") blast
  ultimately show ?thesis by auto
qed

theorem regalloc_first_fit_witness: "\<exists>ra2 ra3. janetc_regalloc_1 janetc_regalloc_init = (0, ra2) \<and> taken ra2 0
    \<and> janetc_regalloc_free ra2 0 = Inr ra3 \<and> \<not> taken ra3 0"
proof -
  obtain reg ra2 ra3 where R: "janetc_regalloc_1 janetc_regalloc_init = (reg, ra2)" "\<forall>r < reg. taken janetc_regalloc_init r"
    "\<forall>r. taken ra2 r \<longleftrightarrow> r = reg \<or> taken janetc_regalloc_init r" "janetc_regalloc_free ra2 reg = Inr ra3"
    "\<forall>r. taken ra3 r = taken janetc_regalloc_init r"
    using regalloc_first_fit[OF init_ok(1), of 0] by blast
  moreover have "\<not> taken janetc_regalloc_init 0" by (simp add: init_ok(2) reserved_def)
  ultimately have "reg = 0" by (metis gr0I)
  then show ?thesis using R \<open>\<not> taken janetc_regalloc_init 0\<close> by auto
qed

text \<open>A temporary register fits in eight bits, and is one of the allocator's own as long as one
  below 256 is free; then giving it back restores the set. When none is free it is the reserved one of
  its number, but the register above 255 that was tried stays taken for good: giving the temporary
  back does not free it.\<close>

theorem regalloc_temp:
  assumes "regalloc_ok ra" and "tmp < 8" and "regtemps ra AND ithbit tmp = 0"
  shows "\<exists>reg ra2 ra3. janetc_regalloc_temp ra tmp = Some (reg, ra2) \<and> reg \<le> 255 \<and> janetc_regalloc_freetemp ra2 reg tmp = Inr ra3
    \<and> (if \<exists>r \<le> 255. \<not> taken ra r then \<not> taken ra reg \<and> (\<forall>r. taken ra3 r = taken ra r)
       else reg = 240 + tmp \<and> (\<exists>r > 255. \<not> taken ra r \<and> taken ra3 r))"
proof -
  let ?ra1 = "ra\<lparr>regtemps := regtemps ra OR ithbit tmp\<rparr>"
  have T1: "taken ?ra1 = taken ra" by (rule ext) (simp add: taken_def)
  have ok: "regalloc_ok ?ra1" using assms(1) T1 by (simp add: regalloc_ok_def)
  obtain reg ra2 where a: "janetc_regalloc_1 ?ra1 = (reg, ra2)" by (cases "janetc_regalloc_1 ?ra1")
  note F = regalloc_1_first[OF ok a] and K = regalloc_1_ok[OF ok a]
  show ?thesis
  proof (cases "reg > 255")
    case False
    let ?r = "ra2\<lparr>regtemps := regtemps ra2 AND NOT (ithbit tmp)\<rparr>"
    have t: "janetc_regalloc_temp ra tmp = Some (reg, ra2)" using a assms(3) False by (simp add: janetc_regalloc_temp_def Let_def)
    have "reg < 240" using K(2) False by (simp add: reserved_def)
    moreover obtain ra3 where f: "janetc_regalloc_free ?r reg = Inr ra3" "\<forall>r. taken ra3 r \<longleftrightarrow> r \<noteq> reg \<and> taken ?r r"
      using free_taken[of reg ?r] K(3) by auto
    moreover have "taken ?r r = taken ra2 r" for r by (simp add: taken_def)
    ultimately have "janetc_regalloc_freetemp ra2 reg tmp = Inr ra3" "taken ra3 r = taken ra r" for r
      using F(1,3) T1 by (auto simp: janetc_regalloc_freetemp_def)
    moreover have "\<exists>r \<le> 255. \<not> taken ra r" using F(1) T1 False by (auto intro!: exI[of _ reg])
    ultimately show ?thesis using t F(1) T1 False by auto
  next
    case True
    let ?r2 = "ra2\<lparr>rmax := (if int (240 + tmp) > rmax ra then int (240 + tmp) else rmax ra)\<rparr>"
    let ?r3 = "?r2\<lparr>regtemps := regtemps ?r2 AND NOT (ithbit tmp)\<rparr>"
    have t: "janetc_regalloc_temp ra tmp = Some (240 + tmp, ?r2)" using a assms(3) True by (simp add: janetc_regalloc_temp_def Let_def)
    have "janetc_regalloc_freetemp ?r2 (240 + tmp) tmp = Inr ?r3" by (simp add: janetc_regalloc_freetemp_def)
    moreover have "taken ?r3 r = taken ra2 r" for r by (simp add: taken_def)
    moreover have "\<not> (\<exists>r \<le> 255. \<not> taken ra r)" using F(2) T1 True by auto
    ultimately show ?thesis using t True F(1,3) T1 assms(2) by auto
  qed
qed

theorem regalloc_temp_witness: "\<exists>reg ra2 ra3. janetc_regalloc_temp janetc_regalloc_init 3 = Some (reg, ra2)
    \<and> reg \<le> 255 \<and> \<not> reserved reg \<and> janetc_regalloc_freetemp ra2 reg 3 = Inr ra3 \<and> (\<forall>r. taken ra3 r = reserved r)"
proof -
  have "\<exists>r \<le> 255. \<not> taken janetc_regalloc_init r" by (rule exI[of _ 0]) (simp add: init_ok reserved_def)
  moreover have "regtemps janetc_regalloc_init AND ithbit 3 = 0" by (simp add: janetc_regalloc_init_def)
  ultimately show ?thesis using regalloc_temp[OF init_ok(1), of 3] by (auto simp: init_ok(2))
qed

end
