(* ===== verification/Bytecode.thy ===== *)
theory Bytecode
  imports Regalloc
begin

unbundle bit_operations_syntax

text \<open>
  \<^verbatim>\<open>src/core/bytecode.c\<close> (amalg/janet.c): the verifier of the bytecode that comes from
  the assembler and from unmarshalling, and the two passes of the compiler over its own, which
  removes loads nobody reads and then the noops they leave. An instruction is its 32 bits. The
  lengths are those of the lists, far enough below 2^31 for a jump target not to overflow.
\<close>

subsection \<open>Instructions\<close>

abbreviation JOP_NOOP :: nat where "JOP_NOOP \<equiv> 0"
abbreviation JOP_ERROR :: nat where "JOP_ERROR \<equiv> 1"
abbreviation JOP_TYPECHECK :: nat where "JOP_TYPECHECK \<equiv> 2"
abbreviation JOP_RETURN :: nat where "JOP_RETURN \<equiv> 3"
abbreviation JOP_RETURN_NIL :: nat where "JOP_RETURN_NIL \<equiv> 4"
abbreviation JOP_ADD_IMMEDIATE :: nat where "JOP_ADD_IMMEDIATE \<equiv> 5"
abbreviation JOP_ADD :: nat where "JOP_ADD \<equiv> 6"
abbreviation JOP_SUBTRACT_IMMEDIATE :: nat where "JOP_SUBTRACT_IMMEDIATE \<equiv> 7"
abbreviation JOP_SUBTRACT :: nat where "JOP_SUBTRACT \<equiv> 8"
abbreviation JOP_MULTIPLY_IMMEDIATE :: nat where "JOP_MULTIPLY_IMMEDIATE \<equiv> 9"
abbreviation JOP_MULTIPLY :: nat where "JOP_MULTIPLY \<equiv> 10"
abbreviation JOP_DIVIDE_IMMEDIATE :: nat where "JOP_DIVIDE_IMMEDIATE \<equiv> 11"
abbreviation JOP_DIVIDE :: nat where "JOP_DIVIDE \<equiv> 12"
abbreviation JOP_DIVIDE_FLOOR :: nat where "JOP_DIVIDE_FLOOR \<equiv> 13"
abbreviation JOP_MODULO :: nat where "JOP_MODULO \<equiv> 14"
abbreviation JOP_REMAINDER :: nat where "JOP_REMAINDER \<equiv> 15"
abbreviation JOP_BAND :: nat where "JOP_BAND \<equiv> 16"
abbreviation JOP_BOR :: nat where "JOP_BOR \<equiv> 17"
abbreviation JOP_BXOR :: nat where "JOP_BXOR \<equiv> 18"
abbreviation JOP_BNOT :: nat where "JOP_BNOT \<equiv> 19"
abbreviation JOP_SHIFT_LEFT :: nat where "JOP_SHIFT_LEFT \<equiv> 20"
abbreviation JOP_SHIFT_LEFT_IMMEDIATE :: nat where "JOP_SHIFT_LEFT_IMMEDIATE \<equiv> 21"
abbreviation JOP_SHIFT_RIGHT :: nat where "JOP_SHIFT_RIGHT \<equiv> 22"
abbreviation JOP_SHIFT_RIGHT_IMMEDIATE :: nat where "JOP_SHIFT_RIGHT_IMMEDIATE \<equiv> 23"
abbreviation JOP_SHIFT_RIGHT_UNSIGNED :: nat where "JOP_SHIFT_RIGHT_UNSIGNED \<equiv> 24"
abbreviation JOP_SHIFT_RIGHT_UNSIGNED_IMMEDIATE :: nat where "JOP_SHIFT_RIGHT_UNSIGNED_IMMEDIATE \<equiv> 25"
abbreviation JOP_MOVE_FAR :: nat where "JOP_MOVE_FAR \<equiv> 26"
abbreviation JOP_MOVE_NEAR :: nat where "JOP_MOVE_NEAR \<equiv> 27"
abbreviation JOP_JUMP :: nat where "JOP_JUMP \<equiv> 28"
abbreviation JOP_JUMP_IF :: nat where "JOP_JUMP_IF \<equiv> 29"
abbreviation JOP_JUMP_IF_NOT :: nat where "JOP_JUMP_IF_NOT \<equiv> 30"
abbreviation JOP_JUMP_IF_NIL :: nat where "JOP_JUMP_IF_NIL \<equiv> 31"
abbreviation JOP_JUMP_IF_NOT_NIL :: nat where "JOP_JUMP_IF_NOT_NIL \<equiv> 32"
abbreviation JOP_GREATER_THAN :: nat where "JOP_GREATER_THAN \<equiv> 33"
abbreviation JOP_GREATER_THAN_IMMEDIATE :: nat where "JOP_GREATER_THAN_IMMEDIATE \<equiv> 34"
abbreviation JOP_LESS_THAN :: nat where "JOP_LESS_THAN \<equiv> 35"
abbreviation JOP_LESS_THAN_IMMEDIATE :: nat where "JOP_LESS_THAN_IMMEDIATE \<equiv> 36"
abbreviation JOP_EQUALS :: nat where "JOP_EQUALS \<equiv> 37"
abbreviation JOP_EQUALS_IMMEDIATE :: nat where "JOP_EQUALS_IMMEDIATE \<equiv> 38"
abbreviation JOP_COMPARE :: nat where "JOP_COMPARE \<equiv> 39"
abbreviation JOP_LOAD_NIL :: nat where "JOP_LOAD_NIL \<equiv> 40"
abbreviation JOP_LOAD_TRUE :: nat where "JOP_LOAD_TRUE \<equiv> 41"
abbreviation JOP_LOAD_FALSE :: nat where "JOP_LOAD_FALSE \<equiv> 42"
abbreviation JOP_LOAD_INTEGER :: nat where "JOP_LOAD_INTEGER \<equiv> 43"
abbreviation JOP_LOAD_CONSTANT :: nat where "JOP_LOAD_CONSTANT \<equiv> 44"
abbreviation JOP_LOAD_UPVALUE :: nat where "JOP_LOAD_UPVALUE \<equiv> 45"
abbreviation JOP_LOAD_SELF :: nat where "JOP_LOAD_SELF \<equiv> 46"
abbreviation JOP_SET_UPVALUE :: nat where "JOP_SET_UPVALUE \<equiv> 47"
abbreviation JOP_CLOSURE :: nat where "JOP_CLOSURE \<equiv> 48"
abbreviation JOP_PUSH :: nat where "JOP_PUSH \<equiv> 49"
abbreviation JOP_PUSH_2 :: nat where "JOP_PUSH_2 \<equiv> 50"
abbreviation JOP_PUSH_3 :: nat where "JOP_PUSH_3 \<equiv> 51"
abbreviation JOP_PUSH_ARRAY :: nat where "JOP_PUSH_ARRAY \<equiv> 52"
abbreviation JOP_CALL :: nat where "JOP_CALL \<equiv> 53"
abbreviation JOP_TAILCALL :: nat where "JOP_TAILCALL \<equiv> 54"
abbreviation JOP_RESUME :: nat where "JOP_RESUME \<equiv> 55"
abbreviation JOP_SIGNAL :: nat where "JOP_SIGNAL \<equiv> 56"
abbreviation JOP_PROPAGATE :: nat where "JOP_PROPAGATE \<equiv> 57"
abbreviation JOP_IN :: nat where "JOP_IN \<equiv> 58"
abbreviation JOP_GET :: nat where "JOP_GET \<equiv> 59"
abbreviation JOP_PUT :: nat where "JOP_PUT \<equiv> 60"
abbreviation JOP_GET_INDEX :: nat where "JOP_GET_INDEX \<equiv> 61"
abbreviation JOP_PUT_INDEX :: nat where "JOP_PUT_INDEX \<equiv> 62"
abbreviation JOP_LENGTH :: nat where "JOP_LENGTH \<equiv> 63"
abbreviation JOP_MAKE_ARRAY :: nat where "JOP_MAKE_ARRAY \<equiv> 64"
abbreviation JOP_MAKE_BUFFER :: nat where "JOP_MAKE_BUFFER \<equiv> 65"
abbreviation JOP_MAKE_STRING :: nat where "JOP_MAKE_STRING \<equiv> 66"
abbreviation JOP_MAKE_STRUCT :: nat where "JOP_MAKE_STRUCT \<equiv> 67"
abbreviation JOP_MAKE_TABLE :: nat where "JOP_MAKE_TABLE \<equiv> 68"
abbreviation JOP_MAKE_TUPLE :: nat where "JOP_MAKE_TUPLE \<equiv> 69"
abbreviation JOP_MAKE_BRACKET_TUPLE :: nat where "JOP_MAKE_BRACKET_TUPLE \<equiv> 70"
abbreviation JOP_GREATER_THAN_EQUAL :: nat where "JOP_GREATER_THAN_EQUAL \<equiv> 71"
abbreviation JOP_LESS_THAN_EQUAL :: nat where "JOP_LESS_THAN_EQUAL \<equiv> 72"
abbreviation JOP_NEXT :: nat where "JOP_NEXT \<equiv> 73"
abbreviation JOP_NOT_EQUALS :: nat where "JOP_NOT_EQUALS \<equiv> 74"
abbreviation JOP_NOT_EQUALS_IMMEDIATE :: nat where "JOP_NOT_EQUALS_IMMEDIATE \<equiv> 75"
abbreviation JOP_CANCEL :: nat where "JOP_CANCEL \<equiv> 76"

abbreviation JOP_INSTRUCTION_COUNT :: nat where "JOP_INSTRUCTION_COUNT \<equiv> 77"

datatype instruction_type =
    JINT_0 | JINT_S | JINT_L | JINT_SS | JINT_SL | JINT_ST | JINT_SI | JINT_SD | JINT_SU | JINT_SSS
  | JINT_SSI | JINT_SSU | JINT_SES | JINT_SC

definition janet_instructions :: "instruction_type list" where
  "janet_instructions = [
     JINT_0, JINT_S, JINT_ST, JINT_S, JINT_0, JINT_SSI, JINT_SSS, JINT_SSI, JINT_SSS, JINT_SSI,
     JINT_SSS, JINT_SSI, JINT_SSS, JINT_SSS, JINT_SSS, JINT_SSS, JINT_SSS, JINT_SSS, JINT_SSS, JINT_SS,
     JINT_SSS, JINT_SSI, JINT_SSS, JINT_SSI, JINT_SSS, JINT_SSU, JINT_SS, JINT_SS, JINT_L, JINT_SL,
     JINT_SL, JINT_SL, JINT_SL, JINT_SSS, JINT_SSI, JINT_SSS, JINT_SSI, JINT_SSS, JINT_SSI, JINT_SSS,
     JINT_S, JINT_S, JINT_S, JINT_SI, JINT_SC, JINT_SES, JINT_S, JINT_SES, JINT_SD, JINT_S,
     JINT_SS, JINT_SSS, JINT_S, JINT_SS, JINT_S, JINT_SSS, JINT_SSU, JINT_SSS, JINT_SSS, JINT_SSS,
     JINT_SSS, JINT_SSU, JINT_SSU, JINT_SS, JINT_S, JINT_S, JINT_S, JINT_S, JINT_S, JINT_S,
     JINT_S, JINT_SSS, JINT_SSS, JINT_SSS, JINT_SSS, JINT_SSI, JINT_SSS]"

definition opcode :: "32 word \<Rightarrow> nat" where "opcode instr = unat (instr AND 0x7F)"

text \<open>The fields of an instruction.\<close>

definition AA :: "32 word \<Rightarrow> nat" where "AA instr = unat (drop_bit 8 instr AND 0xFF)"
definition BB :: "32 word \<Rightarrow> nat" where "BB instr = unat (drop_bit 16 instr AND 0xFF)"
definition CC :: "32 word \<Rightarrow> nat" where "CC instr = unat (drop_bit 24 instr)"
definition DD :: "32 word \<Rightarrow> nat" where "DD instr = unat (drop_bit 8 instr)"
definition EE :: "32 word \<Rightarrow> nat" where "EE instr = unat (drop_bit 16 instr)"

text \<open>The offset of a jump: \<open>((int32_t)instr) >> n\<close>\<close>

definition offset_at :: "nat \<Rightarrow> 32 word \<Rightarrow> int" where
  "offset_at n instr = sint instr div 2 ^ n"

record funcdef =
  bytecode :: "32 word list"
  closure_bitset :: "32 word list option"
  sourcemap :: "(int \<times> int) list option"
  symbolmap :: "(32 word \<times> 32 word) list"
  vararg :: bool
  arity :: int
  slotcount :: int
  constants_length :: int
  environments_length :: int
  defs_length :: int

subsection \<open>Verification\<close>

text \<open>The error code of one instruction; 0 is none.\<close>

definition verify_instr :: "funcdef \<Rightarrow> nat \<Rightarrow> 32 word \<Rightarrow> nat" where
  "verify_instr d i instr =
     (let sc = slotcount d; len = int (length (bytecode d)) in
      if opcode instr \<ge> JOP_INSTRUCTION_COUNT then 3 else
      case janet_instructions ! opcode instr of
        JINT_0 \<Rightarrow> 0
      | JINT_S \<Rightarrow> (if int (DD instr) \<ge> sc then 4 else 0)
      | JINT_SI \<Rightarrow> (if int (AA instr) \<ge> sc then 4 else 0)
      | JINT_SU \<Rightarrow> (if int (AA instr) \<ge> sc then 4 else 0)
      | JINT_ST \<Rightarrow> (if int (AA instr) \<ge> sc then 4 else 0)
      | JINT_L \<Rightarrow> (let jumpdest = int i + offset_at 8 instr in if jumpdest < 0 \<or> jumpdest \<ge> len then 5 else 0)
      | JINT_SS \<Rightarrow> (if int (AA instr) \<ge> sc \<or> int (EE instr) \<ge> sc then 4 else 0)
      | JINT_SSI \<Rightarrow> (if int (AA instr) \<ge> sc \<or> int (BB instr) \<ge> sc then 4 else 0)
      | JINT_SSU \<Rightarrow> (if int (AA instr) \<ge> sc \<or> int (BB instr) \<ge> sc then 4 else 0)
      | JINT_SL \<Rightarrow> (let jumpdest = int i + offset_at 16 instr in
          if int (AA instr) \<ge> sc then 4 else if jumpdest < 0 \<or> jumpdest \<ge> len then 5 else 0)
      | JINT_SSS \<Rightarrow> (if int (AA instr) \<ge> sc \<or> int (BB instr) \<ge> sc \<or> int (CC instr) \<ge> sc then 4 else 0)
      | JINT_SD \<Rightarrow> (if int (AA instr) \<ge> sc then 4 else if int (EE instr) \<ge> defs_length d then 6 else 0)
      | JINT_SC \<Rightarrow> (if int (AA instr) \<ge> sc then 4 else if int (EE instr) \<ge> constants_length d then 7 else 0)
      | JINT_SES \<Rightarrow> (if int (AA instr) \<ge> sc then 4 else if int (BB instr) \<ge> environments_length d then 8 else 0))"

fun verify_code :: "funcdef \<Rightarrow> nat \<Rightarrow> 32 word list \<Rightarrow> nat" where
  "verify_code d i [] = 0"
| "verify_code d i (instr # rest) =
     (let e = verify_instr d i instr in if e \<noteq> 0 then e else verify_code d (i + 1) rest)"

definition janet_verify :: "funcdef \<Rightarrow> nat" where
  "janet_verify d =
     (let maxslot = arity d + (if vararg d then 1 else 0) in
      if bytecode d = [] then 1
      else if maxslot > slotcount d then 2
      else let e = verify_code d 0 (bytecode d) in
      if e \<noteq> 0 then e
      else if unat (last (bytecode d) AND 0xFF) \<in> {JOP_RETURN, JOP_RETURN_NIL, JOP_JUMP, JOP_ERROR, JOP_TAILCALL}
      then 0 else 9)"

subsection \<open>Removing noops\<close>

text \<open>The new index of each instruction and of the end.\<close>

fun pc_map :: "nat \<Rightarrow> 32 word list \<Rightarrow> nat list" where
  "pc_map n [] = [n]"
| "pc_map n (instr # rest) = n # pc_map (if opcode instr \<noteq> JOP_NOOP then n + 1 else n) rest"

text \<open>A jump of \<open>n\<close> field bits at \<open>i\<close>, which goes to \<open>j\<close>.\<close>

definition move_jump :: "nat list \<Rightarrow> nat \<Rightarrow> nat \<Rightarrow> nat \<Rightarrow> 32 word \<Rightarrow> fault + 32 word" where
  "move_jump m n i j instr =
     (let old = int i + offset_at n instr in
      if old < 0 \<or> old \<ge> int (length m) then Inl OutOfBounds
      else let new = int (m ! nat old)
      in Inr (instr + push_bit n (word_of_int (new - old + (int i - int j)))))"

definition rewrite_instr :: "nat list \<Rightarrow> nat \<Rightarrow> nat \<Rightarrow> 32 word \<Rightarrow> fault + 32 word" where
  "rewrite_instr m i j instr =
     (if opcode instr = JOP_JUMP then move_jump m 8 i j instr
      else if opcode instr \<in> {JOP_JUMP_IF, JOP_JUMP_IF_NIL, JOP_JUMP_IF_NOT, JOP_JUMP_IF_NOT_NIL}
      then move_jump m 16 i j instr
      else Inr instr)"

fun rewrite_code :: "nat list \<Rightarrow> nat \<Rightarrow> nat \<Rightarrow> 32 word list \<Rightarrow> fault + 32 word list" where
  "rewrite_code m i j [] = Inr []"
| "rewrite_code m i j (instr # rest) =
     (if opcode instr = JOP_NOOP then rewrite_code m (i + 1) j rest
      else rbind (rewrite_instr m i j instr) (\<lambda>w.
           rbind (rewrite_code m (i + 1) (j + 1) rest) (\<lambda>ws. Inr (w # ws))))"

text \<open>What is written over the front of the source map.\<close>

definition kept :: "32 word list \<Rightarrow> 'a list \<Rightarrow> 'a list" where
  "kept code xs = map snd (filter (\<lambda>(instr, x). opcode instr \<noteq> JOP_NOOP) (zip code xs))"

fun rewrite_symbols :: "nat list \<Rightarrow> (32 word \<times> 32 word) list \<Rightarrow> fault + (32 word \<times> 32 word) list" where
  "rewrite_symbols m [] = Inr []"
| "rewrite_symbols m (sm # sms) =
     rbind (if fst sm < 0xFFFFFFFF
            then (if unat (fst sm) \<ge> length m \<or> unat (snd sm) \<ge> length m then Inl OutOfBounds
                  else Inr (word_of_nat (m ! unat (fst sm)), word_of_nat (m ! unat (snd sm))))
            else Inr sm) (\<lambda>s. rbind (rewrite_symbols m sms) (\<lambda>ss. Inr (s # ss)))"

definition janet_bytecode_remove_noops :: "funcdef \<Rightarrow> fault + funcdef" where
  "janet_bytecode_remove_noops d =
     (let m = pc_map 0 (bytecode d) in
      rbind (rewrite_code m 0 0 (bytecode d)) (\<lambda>code.
      rbind (rewrite_symbols m (symbolmap d)) (\<lambda>syms.
      Inr (d\<lparr>bytecode := code, symbolmap := syms,
        sourcemap := map_option (\<lambda>sm. let k = kept (bytecode d) sm in k @ drop (length k) sm) (sourcemap d)\<rparr>))))"

subsection \<open>Removing loads\<close>

text \<open>The slots an instruction reads; \<open>None\<close> is the assertion that there is no such
  instruction.\<close>

definition reads :: "32 word \<Rightarrow> nat list option" where
  "reads instr = (let p = opcode instr in
     if p \<in> {JOP_JUMP, JOP_NOOP, JOP_RETURN_NIL, JOP_LOAD_INTEGER, JOP_LOAD_CONSTANT, JOP_LOAD_UPVALUE, JOP_CLOSURE,
       JOP_LOAD_NIL, JOP_LOAD_TRUE, JOP_LOAD_FALSE, JOP_LOAD_SELF, JOP_MAKE_ARRAY, JOP_MAKE_BUFFER, JOP_MAKE_STRING,
       JOP_MAKE_STRUCT, JOP_MAKE_TABLE, JOP_MAKE_TUPLE, JOP_MAKE_BRACKET_TUPLE} then Some []
     else if p \<in> {JOP_ERROR, JOP_TYPECHECK, JOP_JUMP_IF, JOP_JUMP_IF_NOT, JOP_JUMP_IF_NIL, JOP_JUMP_IF_NOT_NIL,
       JOP_SET_UPVALUE, JOP_MOVE_FAR} then Some [AA instr]
     else if p \<in> {JOP_SIGNAL, JOP_ADD_IMMEDIATE, JOP_SUBTRACT_IMMEDIATE, JOP_MULTIPLY_IMMEDIATE, JOP_DIVIDE_IMMEDIATE,
       JOP_SHIFT_LEFT_IMMEDIATE, JOP_SHIFT_RIGHT_IMMEDIATE, JOP_SHIFT_RIGHT_UNSIGNED_IMMEDIATE,
       JOP_GREATER_THAN_IMMEDIATE, JOP_LESS_THAN_IMMEDIATE, JOP_EQUALS_IMMEDIATE, JOP_NOT_EQUALS_IMMEDIATE,
       JOP_GET_INDEX} then Some [BB instr]
     else if p \<in> {JOP_RETURN, JOP_PUSH, JOP_PUSH_ARRAY, JOP_TAILCALL} then Some [DD instr]
     else if p \<in> {JOP_MOVE_NEAR, JOP_LENGTH, JOP_BNOT, JOP_CALL} then Some [EE instr]
     else if p = JOP_PUT_INDEX then Some [AA instr, BB instr]
     else if p = JOP_PUSH_2 then Some [AA instr, EE instr]
     else if p \<in> {JOP_PROPAGATE, JOP_BAND, JOP_BOR, JOP_BXOR, JOP_ADD, JOP_SUBTRACT, JOP_MULTIPLY, JOP_DIVIDE,
       JOP_DIVIDE_FLOOR, JOP_MODULO, JOP_REMAINDER, JOP_SHIFT_LEFT, JOP_SHIFT_RIGHT, JOP_SHIFT_RIGHT_UNSIGNED,
       JOP_GREATER_THAN, JOP_LESS_THAN, JOP_EQUALS, JOP_COMPARE, JOP_IN, JOP_GET, JOP_GREATER_THAN_EQUAL,
       JOP_LESS_THAN_EQUAL, JOP_NOT_EQUALS, JOP_CANCEL, JOP_RESUME, JOP_NEXT} then Some [BB instr, CC instr]
     else if p \<in> {JOP_PUT, JOP_PUSH_3} then Some [AA instr, BB instr, CC instr]
     else None)"

text \<open>The slot an instruction writes, if the pass may remove it.\<close>

definition removable :: "32 word \<Rightarrow> nat option" where
  "removable instr = (let p = opcode instr in
     if p \<in> {JOP_LOAD_NIL, JOP_LOAD_TRUE, JOP_LOAD_FALSE, JOP_LOAD_SELF, JOP_MAKE_ARRAY, JOP_MAKE_TUPLE,
       JOP_MAKE_BRACKET_TUPLE} then Some (DD instr)
     else if p = JOP_MOVE_FAR then Some (EE instr)
     else if p \<in> {JOP_MOVE_NEAR, JOP_GET_INDEX, JOP_LOAD_INTEGER, JOP_LOAD_CONSTANT, JOP_LOAD_UPVALUE, JOP_CLOSURE}
     then Some (AA instr)
     else None)"

text \<open>The slots closures refer to.\<close>

fun touch_closures :: "32 word list \<Rightarrow> nat list \<Rightarrow> regalloc \<Rightarrow> fault + regalloc" where
  "touch_closures bits [] ra = Inr ra"
| "touch_closures bits (i # is) ra =
     (if i div 32 \<ge> length bits then Inl OutOfBounds
      else touch_closures bits is (if bits ! (i div 32) AND push_bit (i mod 32) 1 \<noteq> 0 then janetc_regalloc_touch ra i else ra))"

fun touch_reads :: "32 word list \<Rightarrow> regalloc \<Rightarrow> regalloc option" where
  "touch_reads [] ra = Some ra"
| "touch_reads (instr # rest) ra =
     (case reads instr of None \<Rightarrow> None
      | Some rs \<Rightarrow> touch_reads rest (fold (\<lambda>r ra. janetc_regalloc_touch ra r) rs ra))"

fun set_noops :: "32 word list \<Rightarrow> regalloc \<Rightarrow> 32 word list \<times> bool" where
  "set_noops [] ra = ([], False)"
| "set_noops (instr # rest) ra =
     (case removable instr of
        None \<Rightarrow> (let (code, recur) = set_noops rest ra in (instr # code, recur))
      | Some w \<Rightarrow> (let (found, ra) = janetc_regalloc_check ra w; (code, recur) = set_noops rest ra
          in if found then (instr # code, recur) else (word_of_nat JOP_NOOP # code, True)))"

text \<open>One round; \<open>None\<close> is the exit of the process.\<close>

definition movopt_round :: "funcdef \<Rightarrow> (fault + 32 word list \<times> bool) option" where
  "movopt_round d =
     (case (case closure_bitset d of
         None \<Rightarrow> Inr janetc_regalloc_init
       | Some bits \<Rightarrow> touch_closures bits [0..<nat (slotcount d)] janetc_regalloc_init) of
        Inl e \<Rightarrow> Some (Inl e)
      | Inr ra \<Rightarrow> (case touch_reads (bytecode d) ra of
          None \<Rightarrow> None
        | Some ra \<Rightarrow> Some (Inr (set_noops (bytecode d) ra))))"

lemma check_same: "janetc_regalloc_check ra w = (b, ra2) \<Longrightarrow> b = taken ra w \<and> taken ra2 = taken ra"
  by (rule check_taken)

definition unread :: "(nat \<Rightarrow> bool) \<Rightarrow> 32 word \<Rightarrow> bool" where
  "unread used instr = (case removable instr of Some w \<Rightarrow> \<not> used w | None \<Rightarrow> False)"

lemma set_noops_eq:
  "set_noops code ra = (map (\<lambda>w. if unread (taken ra) w then 0 else w) code, \<exists>w \<in> set code. unread (taken ra) w)"
proof (induction code arbitrary: ra)
  case (Cons instr rest)
  show ?case
  proof (cases "removable instr")
    case None
    then show ?thesis by (simp add: Cons unread_def)
  next
    case (Some w)
    obtain b ra2 where c: "janetc_regalloc_check ra w = (b, ra2)" by (cases "janetc_regalloc_check ra w")
    then have "b = taken ra w" "taken ra2 = taken ra" using check_taken by blast+
    then show ?thesis using Some c Cons[of ra2] by (simp add: unread_def)
  qed
qed simp

lemma removable_not_noop: "removable instr = Some w \<Longrightarrow> opcode instr \<noteq> JOP_NOOP"
  by (auto simp: removable_def Let_def split: if_splits)

lemma opcode_0: "opcode 0 = JOP_NOOP"
  by (simp add: opcode_def)

lemma fewer_noops:
  "set_noops code ra = (code2, True) \<Longrightarrow>
   length (filter (\<lambda>w. opcode w \<noteq> JOP_NOOP) code2) < length (filter (\<lambda>w. opcode w \<noteq> JOP_NOOP) code)"
proof -
  let ?f = "\<lambda>w. if unread (taken ra) w then 0 else w"
  assume "set_noops code ra = (code2, True)"
  then have c: "code2 = map ?f code" "\<exists>w \<in> set code. unread (taken ra) w" by (auto simp: set_noops_eq)
  have sub: "filter (\<lambda>w. opcode (?f w) \<noteq> JOP_NOOP) xs = filter (\<lambda>w. \<not> unread (taken ra) w) (filter (\<lambda>w. opcode w \<noteq> JOP_NOOP) xs)"
    for xs by (induction xs) (auto simp: opcode_0)
  obtain w where w: "w \<in> set code" "unread (taken ra) w" using c(2) by blast
  then have "opcode w \<noteq> JOP_NOOP" using removable_not_noop by (fastforce simp: unread_def split: option.splits)
  then have "length (filter (\<lambda>w. \<not> unread (taken ra) w) (filter (\<lambda>w. opcode w \<noteq> JOP_NOOP) code))
      < length (filter (\<lambda>w. opcode w \<noteq> JOP_NOOP) code)"
    using w by (intro length_filter_less[of w]) auto
  then show ?thesis using c(1) sub[of code] by (simp add: filter_map o_def)
qed

function janet_bytecode_movopt :: "funcdef \<Rightarrow> (fault + funcdef) option" where
  "janet_bytecode_movopt d =
     (case movopt_round d of
        None \<Rightarrow> None
      | Some (Inl e) \<Rightarrow> Some (Inl e)
      | Some (Inr (code, recur)) \<Rightarrow>
          (if recur then janet_bytecode_movopt (d\<lparr>bytecode := code\<rparr>) else Some (Inr (d\<lparr>bytecode := code\<rparr>))))"
  by auto
termination
  by (relation "measure (\<lambda>d. length (filter (\<lambda>w. opcode w \<noteq> JOP_NOOP) (bytecode d)))")
    (auto simp: movopt_round_def split: sum.splits option.splits dest: fewer_noops[simplified])

declare janet_bytecode_movopt.simps [simp del]

subsection \<open>Arguments\<close>

text \<open>
  From \<^verbatim>\<open>vm.c\<close>: a push puts the values of slots on top of the stack of the fiber, a call or
  a constructor takes all there are. For code without jumps, the slots whose values each call gets, the
  ones pushed so far being \<open>args\<close>; \<open>PUSH_ARRAY\<close> is left out.
\<close>

fun call_args :: "nat list \<Rightarrow> 32 word list \<Rightarrow> nat list list" where
  "call_args args [] = []"
| "call_args args (instr # rest) = (let p = opcode instr in
     if p = JOP_PUSH then call_args (args @ [DD instr]) rest
     else if p = JOP_PUSH_2 then call_args (args @ [AA instr, EE instr]) rest
     else if p = JOP_PUSH_3 then call_args (args @ [AA instr, BB instr, CC instr]) rest
     else if p = JOP_CALL then args # call_args [] rest
     else if p = JOP_TAILCALL then [args]
     else if p \<in> {JOP_RETURN, JOP_RETURN_NIL, JOP_ERROR} then []
     else if p \<in> {JOP_MAKE_ARRAY, JOP_MAKE_TUPLE, JOP_MAKE_BRACKET_TUPLE, JOP_MAKE_TABLE, JOP_MAKE_STRUCT,
       JOP_MAKE_STRING, JOP_MAKE_BUFFER} then call_args [] rest
     else call_args args rest)"

end
