(* ===== verification/BytecodeProps.thy ===== *)
theory BytecodeProps
  imports Bytecode
begin

unbundle bit_operations_syntax

text \<open>
  What the verifier of \<^verbatim>\<open>Bytecode\<close> promises the virtual machine, and what the two
  passes of the compiler keep: verified code stays verified, loads are removed only when nobody
  reads them, and removing noops changes no execution.
\<close>

subsection \<open>Verified code\<close>

text \<open>The slots an instruction names, and where it can go next.\<close>

definition slots_of :: "32 word \<Rightarrow> nat list" where
  "slots_of w = (case janet_instructions ! opcode w of
     JINT_0 \<Rightarrow> [] | JINT_L \<Rightarrow> [] | JINT_S \<Rightarrow> [DD w] | JINT_SS \<Rightarrow> [AA w, EE w]
   | JINT_SSS \<Rightarrow> [AA w, BB w, CC w] | JINT_SSI \<Rightarrow> [AA w, BB w] | JINT_SSU \<Rightarrow> [AA w, BB w] | _ \<Rightarrow> [AA w])"

definition cond_jumps :: "nat list" where
  "cond_jumps = [JOP_JUMP_IF, JOP_JUMP_IF_NIL, JOP_JUMP_IF_NOT, JOP_JUMP_IF_NOT_NIL]"

definition leaves :: "nat list" where
  "leaves = [JOP_RETURN, JOP_RETURN_NIL, JOP_ERROR, JOP_TAILCALL]"

definition successors :: "int \<Rightarrow> 32 word \<Rightarrow> int list" where
  "successors i w =
     (if opcode w \<in> set leaves then []
      else if opcode w = JOP_JUMP then [i + offset_at 8 w]
      else if opcode w \<in> set cond_jumps then [i + offset_at 16 w, i + 1]
      else [i + 1])"

inductive reach :: "32 word list \<Rightarrow> int \<Rightarrow> bool" for code where
  start: "reach code 0"
| go: "reach code i \<Longrightarrow> 0 \<le> i \<Longrightarrow> i < int (length code) \<Longrightarrow> j \<in> set (successors i (code ! nat i)) \<Longrightarrow> reach code j"

lemma verify_code_iff:
  "verify_code d n ws = 0 \<longleftrightarrow> (\<forall>i < length ws. verify_instr d (n + i) (ws ! i) = 0)"
proof (induction ws arbitrary: n)
  case (Cons w ws)
  have "(\<forall>i < length (w # ws). verify_instr d (n + i) ((w # ws) ! i) = 0)
    \<longleftrightarrow> verify_instr d n w = 0 \<and> (\<forall>i < length ws. verify_instr d (Suc n + i) (ws ! i) = 0)"
    by (auto simp: less_Suc_eq_0_disj)
  then show ?case using Cons[of "n + 1"] by (simp add: Let_def)
qed simp

lemma verifyD:
  assumes "janet_verify d = 0"
  shows "bytecode d \<noteq> []" "i < length (bytecode d) \<Longrightarrow> verify_instr d i (bytecode d ! i) = 0"
    "unat (last (bytecode d) AND 0xFF) \<in> {JOP_RETURN, JOP_RETURN_NIL, JOP_JUMP, JOP_ERROR, JOP_TAILCALL}"
    "arity d + (if vararg d then 1 else 0) \<le> slotcount d"
  using assms verify_code_iff[of d 0 "bytecode d"] by (auto simp: janet_verify_def Let_def split: if_splits)

lemma verifyI:
  assumes "bytecode d \<noteq> []" "\<And>i. i < length (bytecode d) \<Longrightarrow> verify_instr d i (bytecode d ! i) = 0"
    "unat (last (bytecode d) AND 0xFF) \<in> {JOP_RETURN, JOP_RETURN_NIL, JOP_JUMP, JOP_ERROR, JOP_TAILCALL}"
    "arity d + (if vararg d then 1 else 0) \<le> slotcount d"
  shows "janet_verify d = 0"
  using assms verify_code_iff[of d 0 "bytecode d"] by (simp add: janet_verify_def Let_def)

lemma field_low_bits: "unat (w AND 0xFF :: 32 word) = x \<Longrightarrow> x < 128 \<Longrightarrow> opcode w = x"
proof -
  assume "unat (w AND 0xFF) = x" "x < 128"
  moreover have "w AND 0x7F = (w AND 0xFF) AND 0x7F" by (simp add: and.assoc)
  moreover have "unat ((w AND 0xFF) AND 0x7F) = unat (w AND 0xFF) mod 128"
  proof -
    have "(0x7F :: 32 word) = mask 7" by (simp add: mask_eq_exp_minus_1)
    then have e: "(w AND 0xFF) AND 0x7F = take_bit 7 (w AND 0xFF)" by (simp only: take_bit_eq_mask)
    show ?thesis unfolding e unsigned_take_bit_eq by (simp add: take_bit_eq_mod)
  qed
  ultimately show "opcode w = x" by (simp add: opcode_def)
qed

lemma verify_last:
  assumes "janet_verify d = 0"
  shows "opcode (last (bytecode d)) \<in> {JOP_RETURN, JOP_RETURN_NIL, JOP_JUMP, JOP_ERROR, JOP_TAILCALL}"
  using verifyD(3)[OF assms] field_low_bits[of "last (bytecode d)"] by auto

lemma instruction_types:
  "janet_instructions ! JOP_JUMP = JINT_L" "p \<in> set cond_jumps \<Longrightarrow> janet_instructions ! p = JINT_SL"
  by (auto simp: janet_instructions_def cond_jumps_def)

lemma verify_jump:
  assumes "verify_instr d i w = 0"
  shows "opcode w = JOP_JUMP \<Longrightarrow> 0 \<le> int i + offset_at 8 w \<and> int i + offset_at 8 w < int (length (bytecode d))"
    "opcode w \<in> set cond_jumps \<Longrightarrow> 0 \<le> int i + offset_at 16 w \<and> int i + offset_at 16 w < int (length (bytecode d))"
    "opcode w < JOP_INSTRUCTION_COUNT"
proof -
  show "opcode w < JOP_INSTRUCTION_COUNT" using assms by (auto simp: verify_instr_def Let_def split: if_splits)
  then have T: "(case janet_instructions ! opcode w of JINT_L \<Rightarrow> \<not> (int i + offset_at 8 w < 0 \<or> int i + offset_at 8 w \<ge> int (length (bytecode d)))
      | JINT_SL \<Rightarrow> \<not> (int i + offset_at 16 w < 0 \<or> int i + offset_at 16 w \<ge> int (length (bytecode d))) | _ \<Rightarrow> True)"
    using assms by (auto simp: verify_instr_def Let_def split: if_splits instruction_type.splits)
  show "opcode w = JOP_JUMP \<Longrightarrow> 0 \<le> int i + offset_at 8 w \<and> int i + offset_at 8 w < int (length (bytecode d))"
    using T instruction_types(1) by simp
  show "opcode w \<in> set cond_jumps \<Longrightarrow> 0 \<le> int i + offset_at 16 w \<and> int i + offset_at 16 w < int (length (bytecode d))"
    using T instruction_types(2)[of "opcode w"] by simp
qed

lemma verify_slots:
  assumes "verify_instr d i w = 0" "s \<in> set (slots_of w)"
  shows "int s < slotcount d"
  using assms by (cases "janet_instructions ! opcode w") (auto simp: verify_instr_def slots_of_def Let_def split: if_splits)

lemma verify_tables:
  assumes "verify_instr d i w = 0"
  shows "janet_instructions ! opcode w = JINT_SC \<Longrightarrow> int (EE w) < constants_length d"
    "janet_instructions ! opcode w = JINT_SD \<Longrightarrow> int (EE w) < defs_length d"
    "janet_instructions ! opcode w = JINT_SES \<Longrightarrow> int (BB w) < environments_length d"
  using assms by (auto simp: verify_instr_def Let_def split: if_splits)

lemma verified_reach:
  assumes "janet_verify d = 0" "reach (bytecode d) pc"
  shows "0 \<le> pc \<and> pc < int (length (bytecode d))"
  using assms(2)
proof induction
  case start
  then show ?case using verifyD(1)[OF assms(1)] by simp
next
  case (go i j)
  let ?w = "bytecode d ! nat i"
  have v: "verify_instr d (nat i) ?w = 0" using verifyD(2)[OF assms(1), of "nat i"] go(2,3) by simp
  note V = verify_jump[OF v]
  have "i + 1 < int (length (bytecode d))" if "opcode ?w \<notin> set leaves" "opcode ?w \<noteq> JOP_JUMP"
  proof (rule ccontr)
    assume "\<not> i + 1 < int (length (bytecode d))"
    then have "nat i = length (bytecode d) - 1" using go(2,3) by arith
    then have "?w = last (bytecode d)" using verifyD(1)[OF assms(1)] by (simp add: last_conv_nth)
    then show False using verify_last[OF assms(1)] that by (auto simp: leaves_def)
  qed
  then show ?case using go V(1,2) by (auto simp: successors_def split: if_splits)
qed

subsection \<open>Examples\<close>

definition demo :: "32 word list \<Rightarrow> funcdef" where
  "demo code = \<lparr>bytecode = code, closure_bitset = None, sourcemap = None, symbolmap = [(0, 4)], vararg = False, arity = 0,
     slotcount = 4, constants_length = 0, environments_length = 0, defs_length = 0\<rparr>"

text \<open>A load nobody reads, a branch over a noop and a return; and an array made and not used before a
  call: \<open>(do @[x f] (f x))\<close> with \<open>x\<close> in slot 0 and \<open>f\<close> in slot 1.\<close>

definition demo_branch :: "32 word list" where
  "demo_branch = [0x128, 0x29, 0x2001D, 0, 3]"

definition demo_array :: "32 word list" where
  "demo_array = [0x10032, 0x240, 0x31, 0x10335, 0x303]"

lemma demo_verified: "janet_verify (demo demo_branch) = 0" "janet_verify (demo demo_array) = 0"
  by code_simp+

text \<open>C18. Bytecode that the verifier accepts runs safely: wherever the control flow from the first
  instruction can lead, the instruction exists, its opcode is one of the virtual machine's, each slot
  it names is below the slot count and each constant, function and environment below the length of
  its table. In particular no path runs off the end.\<close>

theorem verify_safe:
  assumes "janet_verify d = 0" and "reach (bytecode d) pc"
  shows "0 \<le> pc \<and> pc < int (length (bytecode d)) \<and> opcode (bytecode d ! nat pc) < JOP_INSTRUCTION_COUNT
    \<and> (\<forall>s \<in> set (slots_of (bytecode d ! nat pc)). int s < slotcount d)
    \<and> (janet_instructions ! opcode (bytecode d ! nat pc) = JINT_SC \<longrightarrow> int (EE (bytecode d ! nat pc)) < constants_length d)
    \<and> (janet_instructions ! opcode (bytecode d ! nat pc) = JINT_SD \<longrightarrow> int (EE (bytecode d ! nat pc)) < defs_length d)
    \<and> (janet_instructions ! opcode (bytecode d ! nat pc) = JINT_SES \<longrightarrow> int (BB (bytecode d ! nat pc)) < environments_length d)"
proof -
  have pc: "0 \<le> pc" "pc < int (length (bytecode d))" using verified_reach[OF assms] by auto
  have v: "verify_instr d (nat pc) (bytecode d ! nat pc) = 0" using verifyD(2)[OF assms(1), of "nat pc"] pc by simp
  show ?thesis using pc verify_jump(3)[OF v] verify_slots[OF v] verify_tables[OF v] by blast
qed

theorem verify_safe_witness:
  "opcode (bytecode (demo demo_branch) ! 4) < JOP_INSTRUCTION_COUNT
   \<and> list_all (\<lambda>s. int s < slotcount (demo demo_branch)) (slots_of (bytecode (demo demo_branch) ! 4))"
proof -
  let ?c = "bytecode (demo demo_branch)"
  have "reach ?c 1" using reach.go[OF reach.start, of ?c 1] by (simp add: demo_def demo_branch_def successors_def opcode_def leaves_def cond_jumps_def)
  then have "reach ?c 2" using reach.go[of ?c 1 2] by (simp add: demo_def demo_branch_def successors_def opcode_def leaves_def cond_jumps_def)
  moreover have "4 \<in> set (successors 2 (?c ! nat 2))" by code_simp
  ultimately have "reach ?c 4" using reach.go[of ?c 2 4] by (simp add: demo_def demo_branch_def)
  from verify_safe[OF demo_verified(1) this] show ?thesis by (simp add: list_all_iff)
qed

subsection \<open>Unread loads\<close>

definition captured :: "funcdef \<Rightarrow> nat \<Rightarrow> bool" where
  "captured d s = (\<exists>bits. closure_bitset d = Some bits \<and> int s < slotcount d \<and> bit (bits ! (s div 32)) (s mod 32))"

definition read_by :: "32 word list \<Rightarrow> nat \<Rightarrow> bool" where
  "read_by code s = (\<exists>w \<in> set code. \<exists>rs. reads w = Some rs \<and> s \<in> set rs)"

lemma touch_all: "taken (fold (\<lambda>r ra. janetc_regalloc_touch ra r) rs ra) s \<longleftrightarrow> s \<in> set rs \<or> taken ra s"
  by (induction rs arbitrary: ra) (auto simp: touch_taken)

lemma touch_reads_ok:
  "\<forall>w \<in> set code. reads w \<noteq> None \<Longrightarrow> \<exists>ra2. touch_reads code ra = Some ra2 \<and> (\<forall>s. taken ra2 s \<longleftrightarrow> read_by code s \<or> taken ra s)"
proof (induction code arbitrary: ra)
  case (Cons w code)
  then obtain rs where rs: "reads w = Some rs" by auto
  have "\<forall>w \<in> set code. reads w \<noteq> None" using Cons.prems by simp
  from Cons.IH[OF this, of "fold (\<lambda>r ra. janetc_regalloc_touch ra r) rs ra"]
  obtain ra2 where "touch_reads code (fold (\<lambda>r ra. janetc_regalloc_touch ra r) rs ra) = Some ra2"
    "\<forall>s. taken ra2 s \<longleftrightarrow> read_by code s \<or> taken (fold (\<lambda>r ra. janetc_regalloc_touch ra r) rs ra) s" by blast
  then show ?case using rs by (auto simp: touch_all read_by_def)
qed (simp add: read_by_def)

lemma touch_closures_ok:
  "\<forall>i \<in> set is. i div 32 < length bits \<Longrightarrow> \<exists>ra2. touch_closures bits is ra = Inr ra2
     \<and> (\<forall>s. taken ra2 s \<longleftrightarrow> (s \<in> set is \<and> bit (bits ! (s div 32)) (s mod 32)) \<or> taken ra s)"
proof (induction "is" arbitrary: ra)
  case (Cons i "is")
  have t: "bits ! (i div 32) AND push_bit (i mod 32) 1 \<noteq> 0 \<longleftrightarrow> bit (bits ! (i div 32)) (i mod 32)"
    using ithbit_test[of "i mod 32"] by (simp add: ithbit_def)
  have "\<forall>i \<in> set is. i div 32 < length bits" using Cons.prems by simp
  from Cons.IH[OF this, of "if bits ! (i div 32) AND push_bit (i mod 32) 1 \<noteq> 0 then janetc_regalloc_touch ra i else ra"]
  show ?case using Cons.prems t by (auto simp: touch_taken)
qed simp

definition movopt_ready :: "funcdef \<Rightarrow> bool" where
  "movopt_ready d = ((\<forall>w \<in> set (bytecode d). reads w \<noteq> None)
     \<and> (\<forall>bits. closure_bitset d = Some bits \<longrightarrow> slotcount d \<le> 32 * int (length bits)))"

definition dead :: "funcdef \<Rightarrow> 32 word list \<Rightarrow> 32 word \<Rightarrow> bool" where
  "dead d code w = (\<exists>s. removable w = Some s \<and> \<not> reserved s \<and> \<not> captured d s \<and> \<not> read_by code s)"

lemma movopt_round_ok:
  assumes "movopt_ready d"
  shows "movopt_round d = Some (Inr (map (\<lambda>w. if dead d (bytecode d) w then 0 else w) (bytecode d),
    \<exists>w \<in> set (bytecode d). dead d (bytecode d) w))"
proof -
  have r: "\<forall>w \<in> set (bytecode d). reads w \<noteq> None" using assms by (simp add: movopt_ready_def)
  have "\<exists>ra. (case closure_bitset d of None \<Rightarrow> Inr janetc_regalloc_init
       | Some bits \<Rightarrow> touch_closures bits [0..<nat (slotcount d)] janetc_regalloc_init) = Inr ra
    \<and> (\<forall>s. taken ra s \<longleftrightarrow> captured d s \<or> reserved s)"
  proof (cases "closure_bitset d")
    case None
    then show ?thesis using init_ok(2) by (auto simp: captured_def)
  next
    case (Some bits)
    have "\<forall>i \<in> set [0..<nat (slotcount d)]. i div 32 < length bits"
      using assms Some by (auto simp: movopt_ready_def)
    from touch_closures_ok[OF this, of janetc_regalloc_init] show ?thesis
      using Some init_ok(2) by (auto simp: captured_def)
  qed
  then obtain ra where ra: "(case closure_bitset d of None \<Rightarrow> Inr janetc_regalloc_init
       | Some bits \<Rightarrow> touch_closures bits [0..<nat (slotcount d)] janetc_regalloc_init) = Inr ra"
    "\<forall>s. taken ra s \<longleftrightarrow> captured d s \<or> reserved s" by blast
  obtain ra2 where ra2: "touch_reads (bytecode d) ra = Some ra2" "\<forall>s. taken ra2 s \<longleftrightarrow> read_by (bytecode d) s \<or> taken ra s"
    using touch_reads_ok[OF r] by blast
  have "unread (taken ra2) w = dead d (bytecode d) w" for w
    using ra(2) ra2(2) by (auto simp: unread_def dead_def split: option.splits)
  then show ?thesis using ra(1) ra2(1) by (simp add: movopt_round_def set_noops_eq)
qed

lemma reads_0: "reads 0 = Some []"
  by (simp add: reads_def opcode_0)

lemma read_by_mono: "read_by (map (\<lambda>w. if P w then 0 else w) code) s \<Longrightarrow> read_by code s"
  by (auto simp: read_by_def reads_0 split: if_splits)

lemma ready_noops: "movopt_ready d \<Longrightarrow> movopt_ready (d\<lparr>bytecode := map (\<lambda>w. if P w then 0 else w) (bytecode d)\<rparr>)"
  by (auto simp: movopt_ready_def reads_0)

text \<open>How the code is related to what the pass makes of it.\<close>

definition thinned :: "funcdef \<Rightarrow> 32 word list \<Rightarrow> 32 word list \<Rightarrow> bool" where
  "thinned d code code2 = (length code2 = length code
     \<and> (\<forall>i < length code. code2 ! i = code ! i \<or> code2 ! i = 0 \<and> dead d code2 (code ! i)))"

lemma thinned_reads: "thinned d code code2 \<Longrightarrow> read_by code2 s \<Longrightarrow> read_by code s"
proof -
  assume T: "thinned d code code2" "read_by code2 s"
  then obtain w rs where w: "w \<in> set code2" "reads w = Some rs" "s \<in> set rs" by (auto simp: read_by_def)
  then obtain i where i: "i < length code2" "reads (code2 ! i) = Some rs" by (auto simp: in_set_conv_nth)
  then have "code2 ! i \<noteq> 0" using w(3) by (auto simp: reads_0)
  then have "code2 ! i = code ! i" using T(1) i(1) by (auto simp: thinned_def)
  moreover have "i < length code" using i(1) T(1) by (simp add: thinned_def)
  ultimately show ?thesis using i(2) w(3) unfolding read_by_def by (metis nth_mem)
qed

lemma thinned_trans:
  assumes "thinned d code code1" "thinned d code1 code2"
  shows "thinned d code code2"
proof -
  have m: "dead d code1 w \<Longrightarrow> dead d code2 w" for w using thinned_reads[OF assms(2)] by (auto simp: dead_def)
  have z: "\<not> dead d code2 0" by (auto simp: dead_def removable_def opcode_0 Let_def)
  show ?thesis using assms m z unfolding thinned_def by (metis)
qed

lemma movopt_ok:
  "movopt_ready d \<Longrightarrow> \<exists>code2. janet_bytecode_movopt d = Some (Inr (d\<lparr>bytecode := code2\<rparr>)) \<and> thinned d (bytecode d) code2
     \<and> (\<forall>w \<in> set code2. \<not> dead d code2 w)"
proof (induction d rule: janet_bytecode_movopt.induct)
  case (1 d)
  let ?code = "map (\<lambda>w. if dead d (bytecode d) w then 0 else w) (bytecode d)"
  let ?d = "d\<lparr>bytecode := ?code\<rparr>"
  note R = movopt_round_ok[OF 1(2)]
  have same: "dead ?d = dead d" by (intro ext) (simp add: dead_def captured_def)
  then have same2: "thinned ?d = thinned d" by (intro ext) (simp add: thinned_def)
  have dm: "dead d (bytecode d) w \<Longrightarrow> dead d ?code w" for w using read_by_mono by (fastforce simp: dead_def)
  have t: "thinned d (bytecode d) ?code" using dm by (auto simp: thinned_def)
  show ?case
  proof (cases "\<exists>w \<in> set (bytecode d). dead d (bytecode d) w")
    case True
    then obtain code2 where "janet_bytecode_movopt ?d = Some (Inr (?d\<lparr>bytecode := code2\<rparr>))" "thinned d ?code code2"
      "\<forall>w \<in> set code2. \<not> dead d code2 w"
      using 1(1)[OF R refl refl] ready_noops[OF 1(2)] same same2 by auto
    then show ?thesis using R True thinned_trans[OF t] by (auto simp: janet_bytecode_movopt.simps[of d])
  next
    case False
    then have "?code = bytecode d" by (auto intro: map_idI)
    then show ?thesis using R False t
      by (intro exI[of _ "bytecode d"]) (simp add: janet_bytecode_movopt.simps[of d])
  qed
qed


lemma all_reads: "opcode w < JOP_INSTRUCTION_COUNT \<Longrightarrow> reads w \<noteq> None"
proof -
  assume "opcode w < JOP_INSTRUCTION_COUNT"
  then have "opcode w \<in> set [0..<77]" by simp
  then show "reads w \<noteq> None" unfolding reads_def Let_def by (simp add: upt_rec) (elim disjE; simp)
qed

lemma verified_ready:
  assumes "janet_verify d = 0" and "\<forall>bits. closure_bitset d = Some bits \<longrightarrow> slotcount d \<le> 32 * int (length bits)"
  shows "movopt_ready d"
proof -
  have "reads w \<noteq> None" if "w \<in> set (bytecode d)" for w
  proof -
    obtain i where "i < length (bytecode d)" "bytecode d ! i = w" using \<open>w \<in> _\<close> by (auto simp: in_set_conv_nth)
    then show ?thesis using verify_jump(3)[OF verifyD(2)[OF assms(1)]] all_reads by blast
  qed
  then show ?thesis using assms(2) by (simp add: movopt_ready_def)
qed

lemma verify_0: "verify_instr d i 0 = 0"
  by (simp add: verify_instr_def opcode_0 janet_instructions_def)

lemma verify_instr_bytecode:
  "length code = length (bytecode d) \<Longrightarrow> verify_instr (d\<lparr>bytecode := code\<rparr>) i w = verify_instr d i w"
  by (simp add: verify_instr_def)

lemma thinned_verify:
  assumes "janet_verify d = 0" "thinned d (bytecode d) code2"
  shows "janet_verify (d\<lparr>bytecode := code2\<rparr>) = 0"
proof (rule verifyI)
  let ?d = "d\<lparr>bytecode := code2\<rparr>"
  have l: "length code2 = length (bytecode d)" using assms(2) by (simp add: thinned_def)
  show "bytecode ?d \<noteq> []" using l verifyD(1)[OF assms(1)] by auto
  show "verify_instr ?d i (bytecode ?d ! i) = 0" if "i < length (bytecode ?d)" for i
    using that l verify_instr_bytecode[OF l] verify_0 verifyD(2)[OF assms(1), of i] assms(2) by (auto simp: thinned_def)
  let ?n = "length (bytecode d) - 1"
  have ne: "code2 \<noteq> []" using l verifyD(1)[OF assms(1)] by auto
  have n: "?n < length (bytecode d)" "last (bytecode d) = bytecode d ! ?n" "last code2 = code2 ! ?n"
    using verifyD(1)[OF assms(1)] l last_conv_nth[OF ne] last_conv_nth[of "bytecode d"] by auto
  have "\<not> dead d code2 (last (bytecode d))"
    using verify_last[OF assms(1)] by (auto simp: dead_def removable_def Let_def split: if_splits)
  then have "last code2 = last (bytecode d)" using assms(2) n by (auto simp: thinned_def)
  then show "unat (last (bytecode ?d) AND 0xFF) \<in> {JOP_RETURN, JOP_RETURN_NIL, JOP_JUMP, JOP_ERROR, JOP_TAILCALL}"
    using verifyD(3)[OF assms(1)] by simp
  show "arity ?d + (if vararg ?d then 1 else 0) \<le> slotcount ?d" using verifyD(4)[OF assms(1)] by simp
qed

text \<open>C20. On verified bytecode, whose closure bitset, if there is one, has a bit for every slot, the
  pass over the loads ends, faults nowhere and gives verified bytecode of the same length: each
  instruction is kept or is now a noop, and the ones turned into noops have one of the 14 opcodes the
  pass may remove (\<open>removable\<close>: loads, moves, \<open>JOP_GET_INDEX\<close>, closures and the
  making of arrays and tuples) and wrote a slot that no instruction left reads and no closure
  captures. None of these is left, apart from writes to the registers 240 to 255
  (\<open>reserved\<close>); instructions with other opcodes stay even if nothing reads their slot.\<close>

theorem movopt_unread:
  assumes "janet_verify d = 0" and "\<forall>bits. closure_bitset d = Some bits \<longrightarrow> slotcount d \<le> 32 * int (length bits)"
  shows "\<exists>d2. janet_bytecode_movopt d = Some (Inr d2) \<and> janet_verify d2 = 0 \<and> length (bytecode d2) = length (bytecode d)
    \<and> (\<forall>i < length (bytecode d). bytecode d2 ! i = bytecode d ! i \<or>
        bytecode d2 ! i = 0 \<and> (\<exists>s. removable (bytecode d ! i) = Some s \<and> \<not> captured d s \<and> \<not> read_by (bytecode d2) s))
    \<and> (\<forall>w \<in> set (bytecode d2). \<forall>s. removable w = Some s \<longrightarrow> reserved s \<or> captured d s \<or> read_by (bytecode d2) s)"
proof -
  obtain code2 where c: "janet_bytecode_movopt d = Some (Inr (d\<lparr>bytecode := code2\<rparr>))" "thinned d (bytecode d) code2"
    "\<forall>w \<in> set code2. \<not> dead d code2 w"
    using movopt_ok[OF verified_ready[OF assms]] by blast
  then show ?thesis using thinned_verify[OF assms(1) c(2)]
    by (intro exI[of _ "d\<lparr>bytecode := code2\<rparr>"]) (auto simp: thinned_def dead_def)
qed

theorem movopt_unread_witness:
  "\<exists>d2. janet_bytecode_movopt (demo demo_branch) = Some (Inr d2) \<and> janet_verify d2 = 0 \<and> length (bytecode d2) = 5"
  using movopt_unread[OF demo_verified(1)] by (fastforce simp: demo_def demo_branch_def)

text \<open>The pass over the loads also removes the making of an array or a tuple nobody reads, but not
  the pushes of its elements: the next call gets them as its first arguments. In verified code that
  makes an array of the slots 0 and 1 and then calls a function on slot 0, the call gets three
  arguments after the pass.\<close>

theorem movopt_strands_arguments:
  "janet_verify (demo demo_array) = 0 \<and> call_args [] (bytecode (demo demo_array)) = [[0]]
   \<and> (\<exists>d2. janet_bytecode_movopt (demo demo_array) = Some (Inr d2) \<and> janet_verify d2 = 0
        \<and> call_args [] (bytecode d2) = [[0, 1, 0]])"
proof -
  have m: "map_option (map_sum id bytecode) (janet_bytecode_movopt (demo demo_array)) = Some (Inr [0x10032, 0, 0x31, 0x10335, 0x303])"
    by code_simp
  then obtain r where r: "janet_bytecode_movopt (demo demo_array) = Some r" "map_sum id bytecode r = Inr [0x10032, 0, 0x31, 0x10335, 0x303]"
    by auto
  obtain d2 where d2: "janet_bytecode_movopt (demo demo_array) = Some (Inr d2)" "bytecode d2 = [0x10032, 0, 0x31, 0x10335, 0x303]"
    using r by (cases r) auto
  have "movopt_ready (demo demo_array)" using demo_verified(2) by (intro verified_ready) (simp_all add: demo_def)
  from movopt_ok[OF this] have "janet_verify d2 = 0" using d2(1) thinned_verify[OF demo_verified(2)] by auto
  moreover have "call_args [] [0x10032, 0, 0x31, 0x10335, 0x303] = [[0, 1, 0]]" by code_simp
  moreover have "call_args [] (bytecode (demo demo_array)) = [[0]]" by code_simp
  ultimately show ?thesis using d2 demo_verified(2) by auto
qed

subsection \<open>Executions\<close>

text \<open>
  The virtual machine as far as it concerns control: \<open>eff w s b t\<close> says that the instruction
  \<open>w\<close>, without the offset it may jump by, takes the state \<open>s\<close> to \<open>t\<close> and, if
  \<open>b\<close>, jumps. It is arbitrary. The trace has the instructions and the states they met.
\<close>

definition plain :: "32 word \<Rightarrow> 32 word" where
  "plain w = (if opcode w = JOP_JUMP then w AND 0xFF else if opcode w \<in> set cond_jumps then w AND 0xFFFF else w)"

definition target :: "bool \<Rightarrow> nat \<Rightarrow> 32 word \<Rightarrow> nat" where
  "target b i w =
     (if opcode w = JOP_JUMP then nat (int i + offset_at 8 w)
      else if opcode w \<in> set cond_jumps \<and> b then nat (int i + offset_at 16 w)
      else i + 1)"

inductive exec :: "(32 word \<Rightarrow> 's \<Rightarrow> bool \<Rightarrow> 's \<Rightarrow> bool) \<Rightarrow> 32 word list \<Rightarrow> nat \<Rightarrow> 's \<Rightarrow> (32 word \<times> 's) list \<Rightarrow> 's \<Rightarrow> bool"
  for eff code where
  finish: "exec eff code i s [] s"
| noop: "i < length code \<Longrightarrow> opcode (code ! i) = JOP_NOOP \<Longrightarrow> exec eff code (i + 1) s tr t \<Longrightarrow> exec eff code i s tr t"
| step: "i < length code \<Longrightarrow> opcode (code ! i) \<noteq> JOP_NOOP \<Longrightarrow> eff (plain (code ! i)) s b u
    \<Longrightarrow> exec eff code (target b i (code ! i)) u tr t \<Longrightarrow> exec eff code i s ((plain (code ! i), s) # tr) t"


subsection \<open>New indices\<close>

definition cnt :: "32 word list \<Rightarrow> nat \<Rightarrow> nat" where
  "cnt code i = length (filter (\<lambda>w. opcode w \<noteq> JOP_NOOP) (take i code))"

lemma cnt_simps [simp]:
  "cnt code 0 = 0" "cnt (w # ws) (Suc i) = (if opcode w \<noteq> JOP_NOOP then 1 else 0) + cnt ws i" "cnt [] i = 0"
  by (simp_all add: cnt_def)

lemma cnt_Suc: "i < length code \<Longrightarrow> cnt code (Suc i) = cnt code i + (if opcode (code ! i) \<noteq> JOP_NOOP then 1 else 0)"
  by (simp add: cnt_def take_Suc_conv_app_nth)

lemma cnt_mono: "i \<le> j \<Longrightarrow> j \<le> length code \<Longrightarrow> cnt code i \<le> cnt code j \<and> cnt code j \<le> cnt code i + (j - i)"
proof (induction "j - i" arbitrary: j)
  case (Suc x)
  then obtain k where k: "j = Suc k" "i \<le> k" "x = k - i" by (cases j) auto
  then show ?case using Suc(1)[of k] Suc.prems cnt_Suc[of k code] by auto
qed simp

lemma length_pc_map [simp]: "length (pc_map n code) = Suc (length code)"
  by (induction n code rule: pc_map.induct) auto

lemma pc_map_nth: "i \<le> length code \<Longrightarrow> pc_map n code ! i = n + cnt code i"
proof (induction n code arbitrary: i rule: pc_map.induct)
  case (2 n w ws)
  then show ?case by (cases i) auto
qed simp

lemma rewrite_code_nth:
  "rewrite_code m i j ws = Inr out \<Longrightarrow> length out = cnt ws (length ws) \<and>
     (\<forall>k < length ws. opcode (ws ! k) \<noteq> JOP_NOOP \<longrightarrow> rewrite_instr m (i + k) (j + cnt ws k) (ws ! k) = Inr (out ! cnt ws k))"
proof (induction m i j ws arbitrary: out rule: rewrite_code.induct)
  case (2 m i j w ws)
  show ?case
  proof (cases "opcode w = JOP_NOOP")
    case True
    then show ?thesis using 2 by (auto simp: less_Suc_eq_0_disj)
  next
    case False
    then obtain x xs where x: "rewrite_instr m i j w = Inr x" "rewrite_code m (i + 1) (j + 1) ws = Inr xs" "out = x # xs"
      using 2(3) by (auto simp: rbind_eq_Inr)
    then show ?thesis using False 2(2)[OF False x(1,2)] by (auto simp: less_Suc_eq_0_disj)
  qed
qed simp

lemma rewrite_code_some:
  "(\<And>k. k < length ws \<Longrightarrow> opcode (ws ! k) \<noteq> JOP_NOOP \<Longrightarrow> \<exists>w. rewrite_instr m (i + k) (j + cnt ws k) (ws ! k) = Inr w)
   \<Longrightarrow> \<exists>out. rewrite_code m i j ws = Inr out"
proof (induction m i j ws rule: rewrite_code.induct)
  case (2 m i j w ws)
  note P = 2(3)[of "Suc k" for k]
  show ?case
  proof (cases "opcode w = JOP_NOOP")
    case True
    then show ?thesis using 2(1)[OF True] P by simp
  next
    case False
    then obtain x where x: "rewrite_instr m i j w = Inr x" using 2(3)[of 0] by auto
    moreover have "\<exists>out. rewrite_code m (i + 1) (j + 1) ws = Inr out" using 2(2)[OF False x] P False by simp
    ultimately show ?thesis using False by auto
  qed
qed simp

subsection \<open>Moved jumps\<close>

lemma shift_jump:
  fixes w :: "32 word"
  assumes n: "n \<le> 31" and r: "- (2 ^ (31 - n)) \<le> offset_at n w + x" "offset_at n w + x < 2 ^ (31 - n)"
  shows "offset_at n (w + push_bit n (word_of_int x)) = offset_at n w + x"
    and "take_bit n (w + push_bit n (word_of_int x)) = take_bit n w"
proof -
  let ?y = "sint w + 2 ^ n * x"
  have "w + push_bit n (word_of_int x) = word_of_int (sint w) + word_of_int (2 ^ n * x)"
    by (simp add: push_bit_eq_mult mult.commute)
  then have e: "w + push_bit n (word_of_int x) = word_of_int ?y" by (simp only: of_int_add)
  have p: "(0 :: int) < 2 ^ n" "(2 :: int) ^ n * 2 ^ (31 - n) = 2 ^ 31" using n by (simp_all flip: power_add)
  have m: "0 \<le> sint w mod 2 ^ n" "sint w mod 2 ^ n < 2 ^ n" using p(1) by simp_all
  have y: "?y = 2 ^ n * (offset_at n w + x) + sint w mod 2 ^ n"
    unfolding offset_at_def distrib_left using mult_div_mod_eq[of "2 ^ n" "sint w"] by linarith
  have "2 ^ n * - (2 ^ (31 - n)) \<le> 2 ^ n * (offset_at n w + x)" using r(1) p(1) by (intro mult_left_mono) auto
  then have lo: "- (2 ^ 31) \<le> ?y" using m(1) p(2) unfolding y mult_minus_right by linarith
  have "2 ^ n * (offset_at n w + x) + 2 ^ n \<le> 2 ^ n * 2 ^ (31 - n)"
    using r(2) p(1) mult_left_mono[of "offset_at n w + x + 1" "2 ^ (31 - n)" "2 ^ n"] by (simp add: distrib_left)
  then have hi: "?y < 2 ^ 31" using m(2) p(2) unfolding y by linarith
  have s: "sint (word_of_int ?y :: 32 word) = ?y"
    using lo hi by (simp only: sint_sbintrunc') (intro signed_take_bit_int_eq_self; simp)
  have "?y div 2 ^ n = offset_at n w + x" using p(1) unfolding offset_at_def by simp
  then show "offset_at n (w + push_bit n (word_of_int x)) = offset_at n w + x" unfolding e by (simp only: offset_at_def s)
  have "take_bit n ?y = take_bit n (sint w)" by (simp add: take_bit_eq_mod)
  then show "take_bit n (w + push_bit n (word_of_int x)) = take_bit n w"
    unfolding e by (metis take_bit_of_int of_int_sint scast_id)
qed

lemma opcode_low: "7 \<le> n \<Longrightarrow> take_bit n v = take_bit n w \<Longrightarrow> opcode v = opcode w"
proof -
  assume n: "7 \<le> n" and e: "take_bit n v = take_bit n w"
  have m: "(0x7F :: 32 word) = mask 7" by (simp add: mask_eq_exp_minus_1)
  have "x AND 0x7F = take_bit 7 (take_bit n x)" for x :: "32 word" unfolding m using n by (simp flip: take_bit_eq_mask)
  then show ?thesis unfolding opcode_def by (simp only: e)
qed

lemma fields_low:
  "take_bit 16 v = take_bit 16 w \<Longrightarrow> AA v = AA w" "take_bit 16 v = take_bit 16 w \<Longrightarrow> v AND 0xFFFF = w AND 0xFFFF"
  "take_bit 8 v = take_bit 8 w \<Longrightarrow> v AND 0xFF = w AND 0xFF"
proof -
  have m: "(0xFFFF :: 32 word) = mask 16" "(0xFF :: 32 word) = mask 8" by (simp_all add: mask_eq_exp_minus_1)
  have "drop_bit 8 x AND 0xFF = drop_bit 8 (take_bit 16 x)" for x :: "32 word"
    unfolding m by (simp flip: take_bit_eq_mask add: drop_bit_take_bit)
  then show "take_bit 16 v = take_bit 16 w \<Longrightarrow> AA v = AA w" unfolding AA_def by (simp only:)
  show "take_bit 16 v = take_bit 16 w \<Longrightarrow> v AND 0xFFFF = w AND 0xFFFF" "take_bit 8 v = take_bit 8 w \<Longrightarrow> v AND 0xFF = w AND 0xFF"
    unfolding m by (simp_all flip: take_bit_eq_mask)
qed


lemma offset_range: "n \<le> 31 \<Longrightarrow> - (2 ^ (31 - n)) \<le> offset_at n w \<and> offset_at n w < 2 ^ (31 - n)"
proof -
  assume n: "n \<le> 31"
  have p: "(2 :: int) ^ n * 2 ^ (31 - n) = 2 ^ 31" using n by (simp flip: power_add)
  have "- (2 ^ 31) \<le> sint w" "sint w < 2 ^ 31" using sint_ge[of w] sint_lt[of w] by simp_all
  then have b: "- (2 ^ (31 - n)) * 2 ^ n \<le> sint w" "sint w < 2 ^ (31 - n) * 2 ^ n" using p by (simp_all add: mult.commute)
  let ?q = "sint w div 2 ^ n"
  have "0 \<le> sint w mod 2 ^ n" "sint w mod 2 ^ n < 2 ^ n" by simp_all
  then have "?q * 2 ^ n \<le> sint w" "sint w < (?q + 1) * 2 ^ n"
    unfolding distrib_right mult_1 using div_mult_mod_eq[of "sint w" "2 ^ n"] by linarith+
  then have "- (2 ^ (31 - n)) * 2 ^ n < (?q + 1) * 2 ^ n" "?q * 2 ^ n < 2 ^ (31 - n) * 2 ^ n" using b by linarith+
  then have "- (2 ^ (31 - n)) < ?q + 1" "?q < 2 ^ (31 - n)" by (simp_all only: mult_less_cancel_right) auto
  then show ?thesis unfolding offset_at_def by simp
qed

definition jump_bits :: "32 word \<Rightarrow> nat option" where
  "jump_bits w = (if opcode w = JOP_JUMP then Some 8 else if opcode w \<in> set cond_jumps then Some 16 else None)"

lemma rewrite_instr_bits:
  "rewrite_instr m i j w = (case jump_bits w of Some n \<Rightarrow> move_jump m n i j w | None \<Rightarrow> Inr w)"
  by (simp add: rewrite_instr_def jump_bits_def cond_jumps_def)

text \<open>A valid jump is moved to the new place of its target and is otherwise the same.\<close>

lemma move_jump_ok:
  assumes n: "jump_bits w = Some n" and i: "i < length code"
    and t: "0 \<le> int i + offset_at n w" "int i + offset_at n w < int (length code)"
  shows "\<exists>v. move_jump (pc_map 0 code) n i (cnt code i) w = Inr v
    \<and> int (cnt code i) + offset_at n v = int (cnt code (nat (int i + offset_at n w)))
    \<and> opcode v = opcode w \<and> plain v = plain w \<and> (n = 16 \<longrightarrow> AA v = AA w)"
proof -
  let ?t = "nat (int i + offset_at n w)" and ?x = "int (cnt code (nat (int i + offset_at n w))) - (int i + offset_at n w) + (int i - int (cnt code i))"
  let ?v = "w + push_bit n (word_of_int ?x)"
  have n8: "n = 8 \<or> n = 16 \<and> opcode w \<noteq> JOP_JUMP \<and> opcode w \<in> set cond_jumps" "n = 8 \<longrightarrow> opcode w = JOP_JUMP"
    using n by (auto simp: jump_bits_def split: if_splits)
  then have n31: "n \<le> 31" "7 \<le> n" by auto
  have tl: "?t < length code" using t by linarith
  have y: "offset_at n w + ?x = int (cnt code ?t) - int (cnt code i)" by simp
  have "- (2 ^ (31 - n)) \<le> int (cnt code ?t) - int (cnt code i) \<and> int (cnt code ?t) - int (cnt code i) < 2 ^ (31 - n)"
  proof (cases "i \<le> ?t")
    case True
    then have "cnt code i \<le> cnt code ?t" "cnt code ?t \<le> cnt code i + (?t - i)" using cnt_mono[of i ?t code] tl by auto
    moreover have "int (?t - i) = offset_at n w" using True t by linarith
    moreover have "(0 :: int) < 2 ^ (31 - n)" by simp
    ultimately show ?thesis using offset_range[OF n31(1), of w] by linarith
  next
    case False
    then have "cnt code ?t \<le> cnt code i" "cnt code i \<le> cnt code ?t + (i - ?t)" using cnt_mono[of ?t i code] i by auto
    moreover have "int (i - ?t) = - offset_at n w" using False t by linarith
    moreover have "(0 :: int) < 2 ^ (31 - n)" by simp
    ultimately show ?thesis using offset_range[OF n31(1), of w] by linarith
  qed
  then have o: "offset_at n ?v = offset_at n w + ?x" "take_bit n ?v = take_bit n w"
    using shift_jump[OF n31(1), of w ?x] unfolding y by auto
  have op: "opcode ?v = opcode w" by (rule opcode_low[OF n31(2) o(2)])
  have "plain ?v = plain w \<and> (n = 16 \<longrightarrow> AA ?v = AA w)"
  proof (cases "n = 8")
    case True
    then have "?v AND 0xFF = w AND 0xFF" using fields_low(3) o(2) by blast
    then show ?thesis using True n8(2) op by (simp only: plain_def) simp
  next
    case False
    then have "?v AND 0xFFFF = w AND 0xFFFF" "AA ?v = AA w" "opcode w \<noteq> JOP_JUMP" "opcode w \<in> set cond_jumps"
      using fields_low(1,2) o(2) n8(1) by blast+
    then show ?thesis using op by (simp only: plain_def) simp
  qed
  moreover have "move_jump (pc_map 0 code) n i (cnt code i) w = Inr ?v"
    using t tl pc_map_nth[of ?t code 0] by (simp add: move_jump_def Let_def)
  moreover have "int (cnt code i) + offset_at n ?v = int (cnt code ?t)" unfolding o(1) by simp
  ultimately show ?thesis using op by blast
qed


lemma jump_bits_offset:
  assumes "janet_verify d = 0" "i < length (bytecode d)" "jump_bits (bytecode d ! i) = Some n"
  shows "0 \<le> int i + offset_at n (bytecode d ! i)" "int i + offset_at n (bytecode d ! i) < int (length (bytecode d))"
  using verify_jump(1,2)[OF verifyD(2)[OF assms(1,2)]] assms(3) by (auto simp: jump_bits_def split: if_splits)

text \<open>The code without its noops.\<close>

definition compacted :: "32 word list \<Rightarrow> 32 word list \<Rightarrow> bool" where
  "compacted code out = (length out = cnt code (length code)
     \<and> (\<forall>i < length code. opcode (code ! i) \<noteq> JOP_NOOP \<longrightarrow> (let v = out ! cnt code i; w = code ! i in
         opcode v = opcode w \<and> plain v = plain w \<and> (jump_bits w = None \<longrightarrow> v = w) \<and> (jump_bits w = Some 16 \<longrightarrow> AA v = AA w)
         \<and> (\<forall>n. jump_bits w = Some n \<longrightarrow> int (cnt code i) + offset_at n v = int (cnt code (nat (int i + offset_at n w)))))))"

lemma rewrite_compacts:
  assumes "janet_verify d = 0"
  shows "\<exists>out. rewrite_code (pc_map 0 (bytecode d)) 0 0 (bytecode d) = Inr out \<and> compacted (bytecode d) out"
proof -
  let ?c = "bytecode d" and ?m = "pc_map 0 (bytecode d)"
  have E: "\<exists>v. rewrite_instr ?m i (cnt ?c i) (?c ! i) = Inr v" if "i < length ?c" for i
  proof (cases "jump_bits (?c ! i)")
    case None
    then show ?thesis by (simp add: rewrite_instr_bits)
  next
    case (Some n)
    from move_jump_ok[OF Some that jump_bits_offset[OF assms that Some]] Some show ?thesis
      by (auto simp: rewrite_instr_bits)
  qed
  then obtain out where out: "rewrite_code ?m 0 0 ?c = Inr out" using rewrite_code_some[of ?c ?m 0 0] by auto
  note N = rewrite_code_nth[OF out]
  have "let v = out ! cnt ?c i; w = ?c ! i in
         opcode v = opcode w \<and> plain v = plain w \<and> (jump_bits w = None \<longrightarrow> v = w) \<and> (jump_bits w = Some 16 \<longrightarrow> AA v = AA w)
         \<and> (\<forall>n. jump_bits w = Some n \<longrightarrow> int (cnt ?c i) + offset_at n v = int (cnt ?c (nat (int i + offset_at n w))))"
    if i: "i < length ?c" "opcode (?c ! i) \<noteq> JOP_NOOP" for i
  proof -
    have R: "rewrite_instr ?m i (cnt ?c i) (?c ! i) = Inr (out ! cnt ?c i)" using N i by auto
    show ?thesis
    proof (cases "jump_bits (?c ! i)")
      case None
      then show ?thesis using R by (simp add: rewrite_instr_bits)
    next
      case (Some n)
      from move_jump_ok[OF Some i(1) jump_bits_offset[OF assms i(1) Some]] Some R show ?thesis
        by (auto simp: rewrite_instr_bits)
    qed
  qed
  then show ?thesis using out N by (auto simp: compacted_def)
qed

lemma compacted_target:
  assumes v: "janet_verify d = 0" and c: "compacted (bytecode d) out" and i: "i < length (bytecode d)"
    and w: "opcode (bytecode d ! i) \<noteq> JOP_NOOP"
  shows "target b (cnt (bytecode d) i) (out ! cnt (bytecode d) i) = cnt (bytecode d) (target b i (bytecode d ! i))"
proof -
  let ?c = "bytecode d" let ?w = "?c ! i" and ?v = "out ! cnt ?c i"
  have C: "opcode ?v = opcode ?w" "\<And>n. jump_bits ?w = Some n \<Longrightarrow> int (cnt ?c i) + offset_at n ?v = int (cnt ?c (nat (int i + offset_at n ?w)))"
    using c i w by (simp_all add: compacted_def Let_def)
  have S: "cnt ?c (i + 1) = cnt ?c i + 1" using cnt_Suc[OF i] w by simp
  show ?thesis
  proof (cases "opcode ?w = JOP_JUMP")
    case True
    then show ?thesis using C(1) C(2)[of 8] by (simp add: target_def jump_bits_def)
  next
    case False
    then show ?thesis using C(1) C(2)[of 16] S by (auto simp: target_def jump_bits_def)
  qed
qed

lemma compacted_exec:
  assumes v: "janet_verify d = 0" and c: "compacted (bytecode d) out"
  shows "exec eff (bytecode d) i s tr t \<Longrightarrow> exec eff out (cnt (bytecode d) i) s tr t"
proof (induction rule: exec.induct)
  case (finish i s)
  then show ?case by (rule exec.finish)
next
  case (noop i s tr t)
  then show ?case using cnt_Suc[of i "bytecode d"] by simp
next
  case (step i s b u tr t)
  let ?c = "bytecode d"
  have l: "cnt ?c i < length out" using step(1,2) c cnt_Suc[of i ?c] cnt_mono[of "Suc i" "length ?c" ?c] by (simp add: compacted_def)
  have p: "opcode (out ! cnt ?c i) = opcode (?c ! i)" "plain (out ! cnt ?c i) = plain (?c ! i)"
    using c step(1,2) by (simp_all add: compacted_def Let_def)
  have "exec eff out (target b (cnt ?c i) (out ! cnt ?c i)) u tr t" using step(5) compacted_target[OF v c step(1,2)] by simp
  then show ?case using exec.step[OF l, of eff s b u tr t] p step(2,3) by simp
qed

text \<open>Noops can be skipped up to the instruction that has the same new index.\<close>

lemma skip_noops:
  assumes "j < length code" "i \<le> j" "cnt code i = cnt code j" "exec eff code j s tr t"
  shows "exec eff code i s tr t"
  using assms(2,3)
proof (induction "j - i" arbitrary: i)
  case 0
  then show ?case using assms(4) by simp
next
  case (Suc x)
  then have i: "i < j" "x = j - Suc i" by auto
  then have "cnt code i \<le> cnt code (Suc i)" "cnt code (Suc i) \<le> cnt code j"
    using cnt_mono[of i "Suc i" code] cnt_mono[of "Suc i" j code] assms(1) by auto
  then have e: "cnt code (Suc i) = cnt code i" using Suc.prems by simp
  then have "opcode (code ! i) = JOP_NOOP" using cnt_Suc[of i code] i(1) assms(1) by (auto split: if_splits)
  then show ?case using exec.noop[of i code eff s tr t] Suc(1)[OF i(2)] Suc.prems e i(1) assms(1) by simp
qed

lemma next_instr:
  assumes "i \<le> length code" "cnt code i < cnt code (length code)"
  shows "\<exists>j \<ge> i. j < length code \<and> opcode (code ! j) \<noteq> JOP_NOOP \<and> cnt code j = cnt code i"
  using assms
proof (induction "length code - i" arbitrary: i)
  case (Suc x)
  then have i: "i < length code" "x = length code - Suc i" by auto
  show ?case
  proof (cases "opcode (code ! i) = JOP_NOOP")
    case True
    then have e: "cnt code (Suc i) = cnt code i" using cnt_Suc[OF i(1)] by simp
    then show ?thesis using Suc(1)[OF i(2)] i(1) Suc.prems by (auto intro: Suc_leD)
  qed (use i in auto)
qed simp

lemma exec_compacted:
  assumes v: "janet_verify d = 0" and c: "compacted (bytecode d) out"
  shows "exec eff out j s tr t \<Longrightarrow> i \<le> length (bytecode d) \<Longrightarrow> j = cnt (bytecode d) i \<Longrightarrow> exec eff (bytecode d) i s tr t"
proof (induction arbitrary: i rule: exec.induct)
  case (finish j s)
  show ?case by (rule exec.finish)
next
  case (noop j s tr t)
  let ?c = "bytecode d"
  obtain k where k: "i \<le> k" "k < length ?c" "opcode (?c ! k) \<noteq> JOP_NOOP" "cnt ?c k = j"
    using next_instr[OF noop(5)] noop(1,6) c by (auto simp: compacted_def)
  then show ?case using noop(2) c by (auto simp: compacted_def Let_def)
next
  case (step j s b u tr t)
  let ?c = "bytecode d"
  obtain k where k: "i \<le> k" "k < length ?c" "opcode (?c ! k) \<noteq> JOP_NOOP" "cnt ?c k = j"
    using next_instr[OF step(6)] step(1,7) c by (auto simp: compacted_def)
  have p: "plain (out ! j) = plain (?c ! k)" using c k by (auto simp: compacted_def Let_def)
  have T: "target b j (out ! j) = cnt ?c (target b k (?c ! k))" using compacted_target[OF v c k(2,3)] k(4) by simp
  have "target b k (?c ! k) \<le> length ?c"
  proof -
    have "jump_bits (?c ! k) = Some n \<Longrightarrow> nat (int k + offset_at n (?c ! k)) < length ?c" for n
      using jump_bits_offset[OF v k(2), of n] by linarith
    from this[of 8] this[of 16] show ?thesis using k(2) by (auto simp: target_def jump_bits_def split: if_splits)
  qed
  then have "exec eff ?c (target b k (?c ! k)) u tr t" using step(5) T by simp
  then have "exec eff ?c k s ((plain (?c ! k), s) # tr) t" using exec.step[of k ?c eff s b u tr t] k p step(3) by simp
  then show ?case using skip_noops[OF k(2,1)] k(4) step(7) p by simp
qed


lemma label_types:
  "p < JOP_INSTRUCTION_COUNT \<Longrightarrow> janet_instructions ! p = JINT_L \<Longrightarrow> p = JOP_JUMP"
  "p < JOP_INSTRUCTION_COUNT \<Longrightarrow> janet_instructions ! p = JINT_SL \<Longrightarrow> p \<in> set cond_jumps"
proof -
  have "p \<in> set [0..<77]" if "p < JOP_INSTRUCTION_COUNT" using that by simp
  then show "p < JOP_INSTRUCTION_COUNT \<Longrightarrow> janet_instructions ! p = JINT_L \<Longrightarrow> p = JOP_JUMP"
    "p < JOP_INSTRUCTION_COUNT \<Longrightarrow> janet_instructions ! p = JINT_SL \<Longrightarrow> p \<in> set cond_jumps"
    unfolding janet_instructions_def cond_jumps_def by (simp add: upt_rec; elim disjE; simp)+
qed

lemma verify_instr_move:
  assumes v: "verify_instr d i w = 0" and o: "opcode x = opcode w" and same: "jump_bits w = None \<longrightarrow> x = w" "jump_bits w = Some 16 \<longrightarrow> AA x = AA w"
    and t: "\<And>n. jump_bits w = Some n \<Longrightarrow> 0 \<le> int j + offset_at n x \<and> int j + offset_at n x < int (length code)"
    and d2: "bytecode d2 = code" "slotcount d2 = slotcount d" "constants_length d2 = constants_length d" "defs_length d2 = defs_length d"
      "environments_length d2 = environments_length d"
  shows "verify_instr d2 j x = 0"
proof (cases "jump_bits w")
  case None
  have lt: "opcode w < JOP_INSTRUCTION_COUNT" using verify_jump(3)[OF v] .
  have "janet_instructions ! opcode w \<noteq> JINT_L" "janet_instructions ! opcode w \<noteq> JINT_SL"
    using label_types[OF lt] None by (auto simp: jump_bits_def split: if_splits)
  then show ?thesis using v same(1) None d2 lt
    by (cases "janet_instructions ! opcode w") (simp_all add: verify_instr_def split: if_splits)
next
  case (Some n)
  have T: "opcode w = JOP_JUMP \<and> n = 8 \<or> opcode w \<noteq> JOP_JUMP \<and> opcode w \<in> set cond_jumps \<and> n = 16"
    using Some by (auto simp: jump_bits_def split: if_splits)
  then show ?thesis
  proof
    assume "opcode w = JOP_JUMP \<and> n = 8"
    then show ?thesis using t[OF Some] d2 o instruction_types(1) by (simp add: verify_instr_def Let_def)
  next
    assume T: "opcode w \<noteq> JOP_JUMP \<and> opcode w \<in> set cond_jumps \<and> n = 16"
    have lt: "opcode w < JOP_INSTRUCTION_COUNT" using verify_jump(3)[OF v] .
    have "int (AA w) < slotcount d" using v T instruction_types(2)[of "opcode w"] lt by (simp add: verify_instr_def Let_def split: if_splits)
    then show ?thesis using t[OF Some] d2 o T lt instruction_types(2)[of "opcode w"] same(2) Some
      by (simp add: verify_instr_def Let_def)
  qed
qed

lemma compacted_last:
  assumes v: "janet_verify d = 0" and c: "compacted (bytecode d) out"
  shows "out \<noteq> []" "unat (last out AND 0xFF) = unat (last (bytecode d) AND 0xFF)"
proof -
  let ?c = "bytecode d" let ?n = "length ?c - 1"
  have n: "?n < length ?c" "last ?c = ?c ! ?n" "Suc ?n = length ?c" using verifyD(1)[OF v] by (auto simp: last_conv_nth)
  have o: "opcode (?c ! ?n) \<in> {JOP_RETURN, JOP_RETURN_NIL, JOP_JUMP, JOP_ERROR, JOP_TAILCALL}" using verify_last[OF v] n(2) by simp
  then have nn: "opcode (?c ! ?n) \<noteq> JOP_NOOP" by auto
  have l: "length out = Suc (cnt ?c ?n)" using cnt_Suc[OF n(1)] nn n(3) c by (simp add: compacted_def)
  then show "out \<noteq> []" by auto
  then have lo: "last out = out ! cnt ?c ?n" using l by (simp add: last_conv_nth)
  have C: "opcode (last out) = opcode (last ?c)" "plain (last out) = plain (last ?c)" "jump_bits (last ?c) = None \<longrightarrow> last out = last ?c"
    using c n(1,2) nn lo by (simp_all add: compacted_def Let_def)
  show "unat (last out AND 0xFF) = unat (last ?c AND 0xFF)"
  proof (cases "opcode (last ?c) = JOP_JUMP")
    case True
    then show ?thesis using C(1,2) by (simp add: plain_def)
  next
    case False
    then have "jump_bits (last ?c) = None" using o n(2) by (auto simp: jump_bits_def cond_jumps_def)
    then show ?thesis using C(3) by simp
  qed
qed

lemma compacted_verify:
  assumes v: "janet_verify d = 0" and c: "compacted (bytecode d) out"
    and d2: "d2 = d\<lparr>bytecode := out, symbolmap := syms, sourcemap := smap\<rparr>"
  shows "janet_verify d2 = 0"
proof (rule verifyI)
  let ?c = "bytecode d"
  show "bytecode d2 \<noteq> []" using compacted_last(1)[OF v c] d2 by simp
  show "unat (last (bytecode d2) AND 0xFF) \<in> {JOP_RETURN, JOP_RETURN_NIL, JOP_JUMP, JOP_ERROR, JOP_TAILCALL}"
    using compacted_last(2)[OF v c] verifyD(3)[OF v] d2 by simp
  show "arity d2 + (if vararg d2 then 1 else 0) \<le> slotcount d2" using verifyD(4)[OF v] d2 by simp
  fix j assume "j < length (bytecode d2)"
  then have j: "j < length out" using d2 by simp
  then have j2: "cnt ?c 0 + j < cnt ?c (length ?c)" using c by (simp add: compacted_def)
  have "\<exists>k < length ?c. opcode (?c ! k) \<noteq> JOP_NOOP \<and> cnt ?c k = j"
  proof -
    define k where "k = (LEAST i. cnt ?c (Suc i) > j)"
    have "cnt ?c (Suc (length ?c - 1)) > j" using j2 verifyD(1)[OF v] by simp
    then have k: "cnt ?c (Suc k) > j" "k \<le> length ?c - 1" unfolding k_def by (rule LeastI, intro Least_le)
    then have kl: "k < length ?c" using verifyD(1)[OF v] by (cases ?c) auto
    have "cnt ?c k \<le> j"
    proof (cases k)
      case (Suc i)
      then have "i < (LEAST i. cnt ?c (Suc i) > j)" by (simp add: k_def)
      from not_less_Least[OF this] show ?thesis using Suc by simp
    qed simp
    then show ?thesis using k(1) kl cnt_Suc[OF kl] by (intro exI[of _ k]) (auto split: if_splits)
  qed
  then obtain k where k: "k < length ?c" "opcode (?c ! k) \<noteq> JOP_NOOP" "cnt ?c k = j" by blast
  have C: "opcode (out ! j) = opcode (?c ! k)" "jump_bits (?c ! k) = None \<longrightarrow> out ! j = ?c ! k"
    "jump_bits (?c ! k) = Some 16 \<longrightarrow> AA (out ! j) = AA (?c ! k)"
    "\<And>n. jump_bits (?c ! k) = Some n \<Longrightarrow> int j + offset_at n (out ! j) = int (cnt ?c (nat (int k + offset_at n (?c ! k))))"
    using c k by (auto simp: compacted_def Let_def)
  have "0 \<le> int j + offset_at n (out ! j) \<and> int j + offset_at n (out ! j) < int (length out)" if n: "jump_bits (?c ! k) = Some n" for n
  proof -
    let ?t = "nat (int k + offset_at n (?c ! k))"
    have t: "?t \<le> length ?c - 1" "length ?c - 1 < length ?c" using jump_bits_offset[OF v k(1) n] verifyD(1)[OF v] by (linarith, simp)
    have le: "cnt ?c ?t \<le> cnt ?c (length ?c - 1)" using cnt_mono[of ?t "length ?c - 1" ?c] t by simp
    have "opcode (?c ! (length ?c - 1)) \<noteq> JOP_NOOP"
      using verify_last[OF v] verifyD(1)[OF v] by (auto simp: last_conv_nth)
    have "Suc (length ?c - 1) = length ?c" using verifyD(1)[OF v] by (cases ?c) auto
    with \<open>opcode (?c ! (length ?c - 1)) \<noteq> JOP_NOOP\<close>
    have "cnt ?c (length ?c - 1) < length out" using cnt_Suc[OF t(2)] c by (simp add: compacted_def)
    then show ?thesis using C(4)[OF n] le by simp
  qed
  then show "verify_instr d2 j (bytecode d2 ! j) = 0"
    using verify_instr_move[OF verifyD(2)[OF v k(1)] C(1-3), of j out d2] d2 by simp
qed

definition symbols_ok :: "funcdef \<Rightarrow> bool" where
  "symbols_ok d = (\<forall>(birth, death) \<in> set (symbolmap d). birth < 0xFFFFFFFF \<longrightarrow>
     unat birth \<le> length (bytecode d) \<and> unat death \<le> length (bytecode d))"

lemma rewrite_symbols_some:
  "\<forall>(birth, death) \<in> set sms. birth < 0xFFFFFFFF \<longrightarrow> unat birth < length m \<and> unat death < length m \<Longrightarrow>
   \<exists>syms. rewrite_symbols m sms = Inr syms"
  by (induction sms) fastforce+

lemma remove_noops_ok:
  assumes "janet_verify d = 0" "symbols_ok d"
  shows "\<exists>d2. janet_bytecode_remove_noops d = Inr d2 \<and> compacted (bytecode d) (bytecode d2) \<and> janet_verify d2 = 0"
proof -
  obtain out where out: "rewrite_code (pc_map 0 (bytecode d)) 0 0 (bytecode d) = Inr out" "compacted (bytecode d) out"
    using rewrite_compacts[OF assms(1)] by blast
  obtain syms where "rewrite_symbols (pc_map 0 (bytecode d)) (symbolmap d) = Inr syms"
    using rewrite_symbols_some[of "symbolmap d" "pc_map 0 (bytecode d)"] assms(2) by (fastforce simp: symbols_ok_def less_Suc_eq_le)
  then show ?thesis using out compacted_verify[OF assms(1) out(2)] by (simp add: janet_bytecode_remove_noops_def Let_def)
qed

text \<open>C19. Removing the noops of verified bytecode faults nowhere and gives verified bytecode with
  exactly the same executions from the start: whatever the instructions do, the same instructions run
  in the same order on the same states, every jump going to the new place of its target (or of the
  first instruction after the noops there).\<close>

theorem remove_noops_runs:
  fixes eff :: "32 word \<Rightarrow> 's \<Rightarrow> bool \<Rightarrow> 's \<Rightarrow> bool"
  assumes "janet_verify d = 0" and "symbols_ok d"
  shows "\<exists>d2. janet_bytecode_remove_noops d = Inr d2 \<and> janet_verify d2 = 0
    \<and> length (bytecode d2) = length (filter (\<lambda>w. opcode w \<noteq> JOP_NOOP) (bytecode d))
    \<and> (\<forall>s tr t. exec eff (bytecode d2) 0 s tr t = exec eff (bytecode d) 0 s tr t)"
proof -
  obtain d2 where d2: "janet_bytecode_remove_noops d = Inr d2" "compacted (bytecode d) (bytecode d2)" "janet_verify d2 = 0"
    using remove_noops_ok[OF assms] by blast
  have "exec eff (bytecode d2) 0 s tr t = exec eff (bytecode d) 0 s tr t" for s tr t
    using compacted_exec[OF assms(1) d2(2), of eff 0 s tr t] exec_compacted[OF assms(1) d2(2), of eff 0 s tr t 0] by auto
  moreover have "length (bytecode d2) = length (filter (\<lambda>w. opcode w \<noteq> JOP_NOOP) (bytecode d))"
    using d2(2) by (simp add: compacted_def cnt_def)
  ultimately show ?thesis using d2(1,3) by blast
qed

theorem remove_noops_runs_witness:
  "\<exists>d2. janet_bytecode_remove_noops (demo demo_branch) = Inr d2 \<and> janet_verify d2 = 0 \<and> length (bytecode d2) = 4
    \<and> exec (\<lambda>w s b t. b \<and> t = s + (1 :: nat)) (bytecode d2) 0 0 [] 0"
proof -
  have "symbols_ok (demo demo_branch)" by (simp add: symbols_ok_def demo_def demo_branch_def)
  from remove_noops_runs[OF demo_verified(1) this, of "\<lambda>w s b t. b \<and> t = s + (1 :: nat)"]
  obtain d2 where "janet_bytecode_remove_noops (demo demo_branch) = Inr d2" "janet_verify d2 = 0"
    "length (bytecode d2) = length (filter (\<lambda>w. opcode w \<noteq> JOP_NOOP) demo_branch)"
    by (auto simp: demo_def)
  moreover have "length (filter (\<lambda>w. opcode w \<noteq> JOP_NOOP) demo_branch) = 4" by code_simp
  ultimately show ?thesis by (auto intro: exec.finish)
qed

end
