(* ===== verification/IntTypes.thy ===== *)
theory IntTypes
  imports Compare CStd "HOL-Library.Signed_Division"
begin

unbundle bit_operations_syntax

text \<open>
  \<^verbatim>\<open>src/core/inttypes.c\<close> and the integer scanner of \<^verbatim>\<open>strtod.c\<close>
  (amalg/janet.c): boxed 64-bit integers. The methods are generated by macros for the signed and the
  unsigned type; here they take the type as their first argument, and a box is its 64 bits.
\<close>

subsection \<open>Scanning\<close>

text \<open>The table of digits; 255 is none.\<close>

definition digit_lookup :: "byte \<Rightarrow> int" where
  "digit_lookup b = (let c = b AND 0x7F in
     if 48 \<le> c \<and> c \<le> 57 then uint c - 48
     else if 65 \<le> c \<and> c \<le> 90 then uint c - 55
     else if 97 \<le> c \<and> c \<le> 122 then uint c - 87 else 255)"

fun scan_digits :: "int \<Rightarrow> bool \<Rightarrow> int \<Rightarrow> bytes \<Rightarrow> int option" where
  "scan_digits base seenadigit accum [] = (if seenadigit then Some accum else None)"
| "scan_digits base seenadigit accum (c # cs) =
     (if c = c8 CHR ''_'' then (if seenadigit then scan_digits base seenadigit accum cs else None)
      else let digit = digit_lookup c in
        if c > 127 \<or> digit \<ge> base then None
        else if accum > (2 ^ 64 - 1 - digit) div base then None
        else scan_digits base True (accum * base + digit) cs)"

text \<open>A base in front of the digits.\<close>

definition scan_base :: "bytes \<Rightarrow> (int \<times> bytes) option" where
  "scan_base str =
     (if length str \<ge> 2 \<and> str ! 0 = c8 CHR ''0'' \<and> str ! 1 = c8 CHR ''x'' then Some (16, drop 2 str)
      else if length str \<ge> 2 \<and> isdigit (str ! 0) \<and> str ! 1 = c8 CHR ''r''
      then Some (uint (str ! 0) - 48, drop 2 str)
      else if length str \<ge> 3 \<and> isdigit (str ! 0) \<and> isdigit (str ! 1) \<and> str ! 2 = c8 CHR ''r''
      then (let base = 10 * (uint (str ! 0) - 48) + (uint (str ! 1) - 48)
            in if base < 2 \<or> base > 36 then None else Some (base, drop 3 str))
      else Some (10, str))"

text \<open>The magnitude and whether there is a minus sign.\<close>

definition scan_uint64 :: "bytes \<Rightarrow> (int \<times> bool) option" where
  "scan_uint64 str =
     (if length str > 150 then None
      else if str = [] then None
      else let neg = (hd str = c8 CHR ''-'');
               str = (if hd str = c8 CHR ''-'' \<or> hd str = c8 CHR ''+'' then tl str else str)
      in case scan_base str of
           None \<Rightarrow> None
         | Some (base, str) \<Rightarrow>
             map_option (\<lambda>out. (out, neg))
               (scan_digits base (str \<noteq> [] \<and> hd str = c8 CHR ''0'') 0 (dropWhile (\<lambda>c. c = c8 CHR ''0'') str)))"

definition janet_scan_int64 :: "bytes \<Rightarrow> int option" where
  "janet_scan_int64 str = (case scan_uint64 str of
     None \<Rightarrow> None
   | Some (bi, neg) \<Rightarrow>
       if neg \<and> bi \<le> (2 ^ 64 - 1) div 2 + 1 then (if bi > 2 ^ 63 - 1 then Some (- (2 ^ 63)) else Some (- bi))
       else if \<not> neg \<and> bi \<le> 2 ^ 63 - 1 then Some bi
       else None)"

definition janet_scan_uint64 :: "bytes \<Rightarrow> int option" where
  "janet_scan_uint64 str = (case scan_uint64 str of
     None \<Rightarrow> None
   | Some (bi, neg) \<Rightarrow> if \<not> neg then Some bi else None)"

subsection \<open>Boxes\<close>

definition janet_checkint64range :: "double \<Rightarrow> int option" where
  "janet_checkint64range d = (case dbl_int d of
     Some i \<Rightarrow> if - (2 ^ 53) \<le> i \<and> i \<le> 2 ^ 53 then Some i else None | None \<Rightarrow> None)"

definition janet_checkuint64range :: "double \<Rightarrow> int option" where
  "janet_checkuint64range d = (case dbl_int d of
     Some i \<Rightarrow> if 0 \<le> i \<and> i \<le> 2 ^ 53 then Some i else None | None \<Rightarrow> None)"

definition janet_unwrap_s64 :: "janet \<Rightarrow> int run" where
  "janet_unwrap_s64 x =
     (let bad = raises ''can not convert %t %q to 64 bit signed integer'' [AVal x, AVal x] in
      case x of
        JNumber d \<Rightarrow> (case janet_checkint64range d of Some i \<Rightarrow> okay i | None \<Rightarrow> bad)
      | JString str \<Rightarrow> (case janet_scan_int64 str of Some i \<Rightarrow> okay i | None \<Rightarrow> bad)
      | JAbstract (AbsS64 i) \<Rightarrow> okay i
      | JAbstract (AbsU64 i) \<Rightarrow> okay (sint (word_of_int i :: 64 word))
      | _ \<Rightarrow> bad)"

definition janet_unwrap_u64 :: "janet \<Rightarrow> int run" where
  "janet_unwrap_u64 x =
     (let bad = raises ''can not convert %t %q to a 64 bit unsigned integer'' [AVal x, AVal x] in
      case x of
        JNumber d \<Rightarrow> (case janet_checkuint64range d of Some i \<Rightarrow> okay i | None \<Rightarrow> bad)
      | JString str \<Rightarrow> (case janet_scan_uint64 str of Some i \<Rightarrow> okay i | None \<Rightarrow> bad)
      | JAbstract (AbsS64 i) \<Rightarrow> okay (uint (word_of_int i :: 64 word))
      | JAbstract (AbsU64 i) \<Rightarrow> okay i
      | _ \<Rightarrow> bad)"

datatype int_type = JANET_INT_NONE | JANET_INT_S64 | JANET_INT_U64

definition janet_is_int :: "janet \<Rightarrow> int_type" where
  "janet_is_int x = (case x of
     JAbstract (AbsS64 i) \<Rightarrow> JANET_INT_S64 | JAbstract (AbsU64 i) \<Rightarrow> JANET_INT_U64 | _ \<Rightarrow> JANET_INT_NONE)"

definition janet_wrap_s64 :: "64 word \<Rightarrow> janet" where
  "janet_wrap_s64 w = JAbstract (AbsS64 (sint w))"

definition janet_wrap_u64 :: "64 word \<Rightarrow> janet" where
  "janet_wrap_u64 w = JAbstract (AbsU64 (uint w))"

definition it_s64_tostring :: "int \<Rightarrow> bytes" where
  "it_s64_tostring i = fmt_int i"

definition it_u64_tostring :: "int \<Rightarrow> bytes" where
  "it_u64_tostring i = fmt_int i"

definition janet_int64_hash :: "64 word \<Rightarrow> 32 word" where
  "janet_int64_hash w = ucast w XOR ucast (drop_bit 32 w)"

definition cfun_it_s64_new :: "janet list \<Rightarrow> janet run" where
  "cfun_it_s64_new argv =
     andthen (checks (janet_fixarity (length argv) 1)) (\<lambda>_.
     andthen (janet_unwrap_s64 (argv ! 0)) (\<lambda>i. okay (janet_wrap_s64 (word_of_int i))))"

definition cfun_it_u64_new :: "janet list \<Rightarrow> janet run" where
  "cfun_it_u64_new argv =
     andthen (checks (janet_fixarity (length argv) 1)) (\<lambda>_.
     andthen (janet_unwrap_u64 (argv ! 0)) (\<lambda>i. okay (janet_wrap_u64 (word_of_int i))))"

definition cfun_to_number :: "janet list \<Rightarrow> janet run" where
  "cfun_to_number argv =
     andthen (checks (janet_fixarity (length argv) 1)) (\<lambda>_.
     let bad = raises ''cannot convert %q to a number, must be in the range [%q, %q]''
           [AVal (argv ! 0), AVal (JNumber (double_of_int (- (2 ^ 53)))), AVal (JNumber (double_of_int (2 ^ 53)))]
     in case argv ! 0 of
          JAbstract (AbsS64 v) \<Rightarrow> (if v > 2 ^ 53 then bad else if v < - (2 ^ 53) then bad else okay (JNumber (double_of_int v)))
        | JAbstract (AbsU64 v) \<Rightarrow> (if v > 2 ^ 53 then bad else okay (JNumber (double_of_int v)))
        | _ \<Rightarrow> raises ''expected int/u64 or int/s64, got %q'' [AVal (argv ! 0)])"

text \<open>The eight bytes of a box on a machine with the least significant byte first.\<close>

definition box_bytes :: "64 word \<Rightarrow> bytes" where
  "box_bytes w = map (\<lambda>i. ucast (drop_bit (8 * i) w)) [0..<8]"

text \<open>The buffer with the bytes after those of the given one.\<close>

definition cfun_to_bytes :: "janet list \<Rightarrow> janet run" where
  "cfun_to_bytes argv =
     andthen (checks (janet_arity (int (length argv)) 1 3)) (\<lambda>_.
     andthen (case argv ! 0 of
         JAbstract (AbsS64 v) \<Rightarrow> okay (box_bytes (word_of_int v))
       | JAbstract (AbsU64 v) \<Rightarrow> okay (box_bytes (word_of_int v))
       | x \<Rightarrow> raises ''int/to-bytes: expected an int/s64 or int/u64, got %q'' [AVal x]) (\<lambda>bs.
     andthen (if length argv > 1 \<and> argv ! 1 \<noteq> JNil
       then (case argv ! 1 of
               JKeyword k \<Rightarrow>
                 (if cstring k = [c8 CHR ''l'', c8 CHR ''e''] then okay False
                  else if cstring k = [c8 CHR ''b'', c8 CHR ''e''] then okay True
                  else raises ''int/to-bytes: expected endianness :le, :be or nil, got %v'' [AVal (argv ! 1)])
             | x \<Rightarrow> checks (Inl (janet_panic_type x 1 [JANET_KEYWORD])))
       else okay False) (\<lambda>reverse.
     andthen (if length argv > 2 \<and> argv ! 2 \<noteq> JNil
       then (case argv ! 2 of
               JBuffer old \<Rightarrow> (if int (length old) + 8 > INT32_MAX then raises ''buffer overflow'' [] else okay old)
             | x \<Rightarrow> raises ''int/to-bytes: expected buffer or nil, got %q'' [AVal x])
       else okay []) (\<lambda>old.
     okay (JBuffer (old @ (if reverse then rev bs else bs)))))))"

subsection \<open>Comparison\<close>

definition compare_double_double :: "double \<Rightarrow> double \<Rightarrow> int" where
  "compare_double_double x y = (if dbl_lt x y then - 1 else if dbl_lt y x then 1 else 0)"

definition compare_int64_double :: "int \<Rightarrow> double \<Rightarrow> fault + int" where
  "compare_int64_double x y =
     (if isnan y then Inr 0
      else if dbl_lt (double_of_int (- (2 ^ 53))) y \<and> dbl_lt y (double_of_int (2 ^ 53))
      then Inr (compare_double_double (double_of_int x) y)
      else if dbl_lt (double_of_int (2 ^ 63 - 1)) y then Inr (- 1)
      else if dbl_lt y (double_of_int (- (2 ^ 63))) then Inr 1
      else rbind (convert_to (- (2 ^ 63)) (2 ^ 63 - 1) y) (\<lambda>yi. Inr (if x < yi then - 1 else if x > yi then 1 else 0)))"

definition compare_uint64_double :: "int \<Rightarrow> double \<Rightarrow> fault + int" where
  "compare_uint64_double x y =
     (if isnan y then Inr 0
      else if dbl_lt y (Finite False 0) then Inr 1
      else if \<not> dbl_lt y (Finite False 0) \<and> dbl_lt y (double_of_int (2 ^ 53))
      then Inr (compare_double_double (double_of_int x) y)
      else if dbl_lt (double_of_int (2 ^ 64 - 1)) y then Inr (- 1)
      else rbind (convert_to 0 (2 ^ 64 - 1) y) (\<lambda>yi. Inr (if x < yi then - 1 else if x > yi then 1 else 0)))"

definition compare_ints :: "int \<Rightarrow> int \<Rightarrow> int" where
  "compare_ints x y = (if x < y then - 1 else if x > y then 1 else 0)"

definition wrap_cmp :: "int \<Rightarrow> janet" where
  "wrap_cmp c = JNumber (double_of_int c)"

definition cfun_it_s64_compare :: "janet list \<Rightarrow> janet run" where
  "cfun_it_s64_compare argv =
     andthen (checks (janet_fixarity (length argv) 2)) (\<lambda>_.
     if janet_is_int (argv ! 0) \<noteq> JANET_INT_S64 then raises ''compare method requires int/s64 as first argument'' [] else
     andthen (janet_unwrap_s64 (argv ! 0)) (\<lambda>x. case argv ! 1 of
         JNumber y \<Rightarrow> andthen (faults (compare_int64_double x y)) (\<lambda>c. okay (wrap_cmp c))
       | JAbstract (AbsS64 y) \<Rightarrow> okay (wrap_cmp (compare_ints x y))
       | JAbstract (AbsU64 y) \<Rightarrow>
           (if x < 0 then okay (wrap_cmp (- 1))
            else if y > 2 ^ 63 - 1 then okay (wrap_cmp (- 1))
            else okay (wrap_cmp (compare_ints x y)))
       | _ \<Rightarrow> okay JNil))"

definition cfun_it_u64_compare :: "janet list \<Rightarrow> janet run" where
  "cfun_it_u64_compare argv =
     andthen (checks (janet_fixarity (length argv) 2)) (\<lambda>_.
     if janet_is_int (argv ! 0) \<noteq> JANET_INT_U64 then raises ''compare method requires int/u64 as first argument'' [] else
     andthen (janet_unwrap_u64 (argv ! 0)) (\<lambda>x. case argv ! 1 of
         JNumber y \<Rightarrow> andthen (faults (compare_uint64_double x y)) (\<lambda>c. okay (wrap_cmp c))
       | JAbstract (AbsU64 y) \<Rightarrow> okay (wrap_cmp (compare_ints x y))
       | JAbstract (AbsS64 y) \<Rightarrow>
           (if y < 0 then okay (wrap_cmp 1)
            else if x > 2 ^ 63 - 1 then okay (wrap_cmp 1)
            else okay (wrap_cmp (compare_ints x y)))
       | _ \<Rightarrow> okay JNil))"

subsection \<open>Arithmetic\<close>

datatype kind = S64 | U64

definition unwrap_box :: "kind \<Rightarrow> janet \<Rightarrow> 64 word run" where
  "unwrap_box k x = andthen (case k of S64 \<Rightarrow> janet_unwrap_s64 x | U64 \<Rightarrow> janet_unwrap_u64 x) (\<lambda>i. okay (word_of_int i))"

definition wrap_box :: "kind \<Rightarrow> 64 word \<Rightarrow> janet" where
  "wrap_box k w = (case k of S64 \<Rightarrow> janet_wrap_s64 w | U64 \<Rightarrow> janet_wrap_u64 w)"

fun op_loop :: "kind \<Rightarrow> (64 word \<Rightarrow> 64 word \<Rightarrow> 64 word run) \<Rightarrow> 64 word \<Rightarrow> janet list \<Rightarrow> 64 word run" where
  "op_loop k oper box [] = okay box"
| "op_loop k oper box (x # xs) =
     andthen (unwrap_box k x) (\<lambda>v. andthen (oper box v) (\<lambda>box. op_loop k oper box xs))"

definition OPMETHOD :: "kind \<Rightarrow> (64 word \<Rightarrow> 64 word \<Rightarrow> 64 word run) \<Rightarrow> janet list \<Rightarrow> janet run" where
  "OPMETHOD k oper argv =
     andthen (checks (janet_arity (int (length argv)) 2 (- 1))) (\<lambda>_.
     andthen (unwrap_box k (argv ! 0)) (\<lambda>box.
     andthen (op_loop k oper box (drop 1 argv)) (\<lambda>box. okay (wrap_box k box))))"

definition OPMETHODINVERT :: "kind \<Rightarrow> (64 word \<Rightarrow> 64 word \<Rightarrow> 64 word run) \<Rightarrow> janet list \<Rightarrow> janet run" where
  "OPMETHODINVERT k oper argv =
     andthen (checks (janet_fixarity (length argv) 2)) (\<lambda>_.
     andthen (unwrap_box k (argv ! 1)) (\<lambda>box.
     andthen (unwrap_box k (argv ! 0)) (\<lambda>v.
     andthen (oper box v) (\<lambda>box. okay (wrap_box k box)))))"

text \<open>The cast of the box to an unsigned integer is undone before the operator: the left operand of
  a shift has the type of the box. Shifting a negative number left, out of the type, or by the width or
  more is undefined.\<close>

definition lshift :: "kind \<Rightarrow> 64 word \<Rightarrow> 64 word \<Rightarrow> 64 word run" where
  "lshift k a b =
     (if uint b \<ge> 64 then Inl IntOverflow
      else case k of
        S64 \<Rightarrow> (if sint a < 0 \<or> sint a * 2 ^ unat b \<ge> 2 ^ 63 then Inl IntOverflow else okay (push_bit (unat b) a))
      | U64 \<Rightarrow> okay (push_bit (unat b) a))"

definition rshift :: "kind \<Rightarrow> 64 word \<Rightarrow> 64 word \<Rightarrow> 64 word run" where
  "rshift k a b =
     (if uint b \<ge> 64 then Inl IntOverflow
      else case k of S64 \<Rightarrow> okay (signed_drop_bit (unat b) a) | U64 \<Rightarrow> okay (drop_bit (unat b) a))"

definition cfun_it_add :: "kind \<Rightarrow> janet list \<Rightarrow> janet run" where
  "cfun_it_add k = OPMETHOD k (\<lambda>a b. okay (a + b))"

definition cfun_it_sub :: "kind \<Rightarrow> janet list \<Rightarrow> janet run" where
  "cfun_it_sub k = OPMETHOD k (\<lambda>a b. okay (a - b))"

definition cfun_it_subi :: "kind \<Rightarrow> janet list \<Rightarrow> janet run" where
  "cfun_it_subi k = OPMETHODINVERT k (\<lambda>a b. okay (a - b))"

definition cfun_it_mul :: "kind \<Rightarrow> janet list \<Rightarrow> janet run" where
  "cfun_it_mul k = OPMETHOD k (\<lambda>a b. okay (a * b))"

definition cfun_it_and :: "kind \<Rightarrow> janet list \<Rightarrow> janet run" where
  "cfun_it_and k = OPMETHOD k (\<lambda>a b. okay (a AND b))"

definition cfun_it_or :: "kind \<Rightarrow> janet list \<Rightarrow> janet run" where
  "cfun_it_or k = OPMETHOD k (\<lambda>a b. okay (a OR b))"

definition cfun_it_xor :: "kind \<Rightarrow> janet list \<Rightarrow> janet run" where
  "cfun_it_xor k = OPMETHOD k (\<lambda>a b. okay (a XOR b))"

definition cfun_it_lshift :: "kind \<Rightarrow> janet list \<Rightarrow> janet run" where
  "cfun_it_lshift k = OPMETHOD k (lshift k)"

definition cfun_it_rshift :: "kind \<Rightarrow> janet list \<Rightarrow> janet run" where
  "cfun_it_rshift k = OPMETHOD k (rshift k)"

definition cfun_it_not :: "kind \<Rightarrow> janet list \<Rightarrow> janet run" where
  "cfun_it_not k argv =
     andthen (checks (janet_fixarity (length argv) 1)) (\<lambda>_.
     andthen (unwrap_box k (argv ! 0)) (\<lambda>v. okay (wrap_box k (NOT v))))"

datatype div_op = Div | Rem | Mod

definition divide :: "kind \<Rightarrow> div_op \<Rightarrow> 64 word \<Rightarrow> 64 word \<Rightarrow> 64 word" where
  "divide k oper a b = (case k of
     S64 \<Rightarrow> (if oper = Div then word_of_int (sint a sdiv sint b) else word_of_int (sint a smod sint b))
   | U64 \<Rightarrow> (if oper = Div then a div b else a mod b))"

text \<open>One division: the result and whether the loop goes on. A modulus of zero ends it.\<close>

definition div_step :: "kind \<Rightarrow> div_op \<Rightarrow> 64 word \<Rightarrow> 64 word \<Rightarrow> (64 word \<times> bool) run" where
  "div_step k oper box v =
     (if v = 0 then (if oper = Mod then okay (box, False) else raises ''division by zero'' [])
      else if k = S64 \<and> sint v = - 1 \<and> sint box = - (2 ^ 63) then raises ''INT64_MIN divided by -1'' []
      else okay (divide k oper box v, True))"

fun div_loop :: "kind \<Rightarrow> div_op \<Rightarrow> 64 word \<Rightarrow> janet list \<Rightarrow> 64 word run" where
  "div_loop k oper box [] = okay box"
| "div_loop k oper box (x # xs) =
     andthen (unwrap_box k x) (\<lambda>v. andthen (div_step k oper box v) (\<lambda>(box, go).
       if go then div_loop k oper box xs else okay box))"

definition DIVMETHOD :: "kind \<Rightarrow> div_op \<Rightarrow> janet list \<Rightarrow> janet run" where
  "DIVMETHOD k oper argv =
     andthen (checks (janet_arity (int (length argv)) 2 (- 1))) (\<lambda>_.
     andthen (unwrap_box k (argv ! 0)) (\<lambda>box.
     andthen (div_loop k oper box (drop 1 argv)) (\<lambda>box. okay (wrap_box k box))))"

definition DIVMETHODINVERT :: "kind \<Rightarrow> div_op \<Rightarrow> janet list \<Rightarrow> janet run" where
  "DIVMETHODINVERT k oper argv =
     andthen (checks (janet_fixarity (length argv) 2)) (\<lambda>_.
     andthen (unwrap_box k (argv ! 1)) (\<lambda>box.
     andthen (unwrap_box k (argv ! 0)) (\<lambda>v.
     andthen (div_step k oper box v) (\<lambda>(box, go). okay (wrap_box k box)))))"

text \<open>Division of signed boxes that rounds down, and its modulus, in C arithmetic.\<close>

definition floor_div :: "int \<Rightarrow> int \<Rightarrow> int run" where
  "floor_div op1 op2 =
     (if op2 = 0 then raises ''division by zero'' []
      else if op1 = - (2 ^ 63) \<and> op2 = - 1 then Inl IntOverflow
      else let x = op1 sdiv op2 in okay (x - of_bool (op1 XOR op2 < 0 \<and> x * op2 \<noteq> op1)))"

definition floor_mod :: "int \<Rightarrow> int \<Rightarrow> int run" where
  "floor_mod op1 op2 =
     (if op2 = 0 then okay op1
      else if op1 = - (2 ^ 63) \<and> op2 = - 1 then Inl IntOverflow
      else let x = op1 smod op2 in okay (if op1 XOR op2 < 0 \<and> x \<noteq> 0 then x + op2 else x))"

text \<open>\<open>i\<close> and \<open>j\<close> are the places of the operands.\<close>

definition floor_method :: "(int \<Rightarrow> int \<Rightarrow> int run) \<Rightarrow> nat \<Rightarrow> nat \<Rightarrow> janet list \<Rightarrow> janet run" where
  "floor_method f i j argv =
     andthen (checks (janet_fixarity (length argv) 2)) (\<lambda>_.
     andthen (janet_unwrap_s64 (argv ! 0)) (\<lambda>x0.
     andthen (janet_unwrap_s64 (argv ! 1)) (\<lambda>x1.
     let ops = [x0, x1] in andthen (f (ops ! i) (ops ! j)) (\<lambda>r. okay (janet_wrap_s64 (word_of_int r))))))"

definition cfun_it_s64_divf :: "janet list \<Rightarrow> janet run" where
  "cfun_it_s64_divf = floor_method floor_div 0 1"

definition cfun_it_s64_divfi :: "janet list \<Rightarrow> janet run" where
  "cfun_it_s64_divfi = floor_method floor_div 1 0"

definition cfun_it_s64_mod :: "janet list \<Rightarrow> janet run" where
  "cfun_it_s64_mod = floor_method floor_mod 0 1"

definition cfun_it_s64_modi :: "janet list \<Rightarrow> janet run" where
  "cfun_it_s64_modi = floor_method floor_mod 1 0"

end
