(* ===== verification/IntProps.thy ===== *)
theory IntProps
  imports IntTypes DoubleText
begin

unbundle bit_operations_syntax

text \<open>
  What boxed integers promise: arithmetic is the exact result kept to 64 bits, division truncates or
  floors as its name says, comparison across the two types is that of the numbers, and the text of a
  box reads back as the box.
\<close>

subsection \<open>Boxes and their values\<close>

definition in_range :: "kind \<Rightarrow> int \<Rightarrow> bool" where
  "in_range k i = (case k of S64 \<Rightarrow> - (2 ^ 63) \<le> i \<and> i < 2 ^ 63 | U64 \<Rightarrow> 0 \<le> i \<and> i < 2 ^ 64)"

definition box_of :: "kind \<Rightarrow> int \<Rightarrow> janet" where
  "box_of k i = JAbstract (case k of S64 \<Rightarrow> AbsS64 i | U64 \<Rightarrow> AbsU64 i)"

text \<open>The integer an operand is converted to.\<close>

definition operand :: "kind \<Rightarrow> janet \<Rightarrow> int run" where
  "operand k x = (case k of S64 \<Rightarrow> janet_unwrap_s64 x | U64 \<Rightarrow> janet_unwrap_u64 x)"

definition reduced :: "kind \<Rightarrow> int \<Rightarrow> int" where
  "reduced k i = (case k of S64 \<Rightarrow> (i + 2 ^ 63) mod 2 ^ 64 - 2 ^ 63 | U64 \<Rightarrow> i mod 2 ^ 64)"

lemma sint_word_of_int64: "sint (word_of_int i :: 64 word) = (i + 2 ^ 63) mod 2 ^ 64 - 2 ^ 63"
  using sint_sbintrunc'[of i, where 'a=64] by (simp add: signed_take_bit_eq_take_bit_shift take_bit_eq_mod)

lemma uint_word_of_int64: "uint (word_of_int i :: 64 word) = i mod 2 ^ 64"
  by (simp add: uint_word_of_int)

lemma wrap_box_reduced: "wrap_box k (word_of_int i) = box_of k (reduced k i)"
  by (cases k) (simp_all add: wrap_box_def janet_wrap_s64_def janet_wrap_u64_def box_of_def reduced_def
      sint_word_of_int64 uint_word_of_int64)

lemma reduced_same: "in_range k i \<Longrightarrow> reduced k i = i"
  by (cases k) (simp_all add: in_range_def reduced_def)

lemma reduced_range: "in_range k (reduced k i)"
proof -
  have "0 \<le> j mod 2 ^ 64" "j mod 2 ^ 64 < 2 ^ 64" for j :: int by simp_all
  from this[of "i + 2 ^ 63"] this[of i] show ?thesis by (cases k) (auto simp: in_range_def reduced_def)
qed

lemma sint_range64: "- (2 ^ 63) \<le> sint (w :: 64 word) \<and> sint w < 2 ^ 63"
  using sint_range_size[of w] by (simp add: word_size)

lemma sint_word_of_int_same: "in_range S64 i \<Longrightarrow> sint (word_of_int i :: 64 word) = i"
  using reduced_same[of S64 i] by (simp add: reduced_def sint_word_of_int64)

lemma uint_word_of_int_same: "in_range U64 i \<Longrightarrow> uint (word_of_int i :: 64 word) = i"
  using reduced_same[of U64 i] by (simp add: reduced_def uint_word_of_int64)

lemma operand_box: "in_range k i \<Longrightarrow> operand k (box_of k i) = okay i"
  by (cases k) (simp_all add: operand_def box_of_def janet_unwrap_s64_def janet_unwrap_u64_def)

lemma unwrap_operand: "operand k x = okay i \<Longrightarrow> unwrap_box k x = okay (word_of_int i)"
  by (cases k) (simp_all add: operand_def unwrap_box_def run_simps)

subsection \<open>Arithmetic\<close>

text \<open>A loop over an operator that is the image of one on integers.\<close>

lemma op_loop_fold:
  assumes "\<And>a b. oper (word_of_int a) (word_of_int b) = okay (word_of_int (f a b))" "list_all2 (\<lambda>x i. operand k x = okay i) xs is"
  shows "op_loop k oper (word_of_int a) xs = okay (word_of_int (foldl f a is))"
  using assms(2)
proof (induction xs "is" arbitrary: a rule: list_all2_induct)
  case (Cons x xs i "is")
  then show ?case using assms(1) unwrap_operand[OF Cons(1)] by (simp add: run_simps)
qed simp

lemma opmethod_fold:
  assumes "\<And>a b. oper (word_of_int a) (word_of_int b) = okay (word_of_int (f a b))"
    "list_all2 (\<lambda>x i. operand k x = okay i) xs is" "operand k x = okay i" "xs \<noteq> []"
  shows "OPMETHOD k oper (x # xs) = okay (box_of k (reduced k (foldl f i is)))"
proof -
  have "1 \<le> length xs" using assms(4) by (cases xs) auto
  then have a: "janet_arity (int (length (x # xs))) 2 (- 1) = Inr ()" by (intro arity_ok) auto
  show ?thesis unfolding OPMETHOD_def a
    using unwrap_operand[OF assms(3)] op_loop_fold[where oper=oper and f=f, OF assms(1,2)] by (simp add: run_simps wrap_box_reduced)
qed

lemma foldl_plus: "foldl (+) (i :: int) is = i + sum_list is"
  by (induction "is" arbitrary: i) simp_all

lemma foldl_minus: "foldl (-) (i :: int) is = i - sum_list is"
  by (induction "is" arbitrary: i) simp_all

lemma foldl_times: "foldl (*) (i :: int) is = i * prod_list is"
  by (induction "is" arbitrary: i) (simp_all add: mult.assoc)

text \<open>C28. Addition, subtraction and multiplication of boxed integers give the exact result over all
  the arguments, reduced once to 64 bits and read as the type of the box, for operands of every kind that
  converts (numbers, text, boxes); so a result in range is exact even when a partial result is not. The
  loop stops with the panic of the first argument that does not convert.\<close>

theorem int_arithmetic:
  assumes "operand k x = okay i" and "list_all2 (\<lambda>x i. operand k x = okay i) xs is" and "xs \<noteq> []"
  shows "cfun_it_add k (x # xs) = okay (box_of k (reduced k (i + sum_list is)))
    \<and> cfun_it_sub k (x # xs) = okay (box_of k (reduced k (i - sum_list is)))
    \<and> cfun_it_mul k (x # xs) = okay (box_of k (reduced k (i * prod_list is)))
    \<and> in_range k (reduced k j) \<and> (in_range k j \<longrightarrow> reduced k j = j)
    \<and> (operand k y = raises msg args \<longrightarrow> cfun_it_add k (x # xs @ y # ys) = raises msg args)"
proof -
  have add: "okay (word_of_int a + word_of_int b :: 64 word) = okay (word_of_int (a + b))" for a b :: int by simp
  have sub: "okay (word_of_int a - word_of_int b :: 64 word) = okay (word_of_int (a - b))" for a b :: int by simp
  have mul: "okay (word_of_int a * word_of_int b :: 64 word) = okay (word_of_int (a * b))" for a b :: int by simp
  have app: "op_loop k f b (us @ vs) = andthen (op_loop k f b us) (\<lambda>b. op_loop k f b vs)" for f b us vs
  proof (induction us arbitrary: b)
    case (Cons u us)
    then show ?case by (auto simp: andthen_def split: sum.splits)
  qed (simp add: run_simps)
  have bad: "cfun_it_add k (x # xs @ y # ys) = raises msg args" if y: "operand k y = raises msg args"
  proof -
    have "unwrap_box k y = raises msg args" using y by (cases k) (simp_all add: operand_def unwrap_box_def run_simps)
    then have "op_loop k (\<lambda>a b. okay (a + b)) (word_of_int i) (xs @ y # ys) = raises msg args"
      unfolding app using op_loop_fold[where oper="\<lambda>a b. okay (a + b)" and f="(+)", OF add assms(2)] by (simp add: run_simps)
    moreover have a: "janet_arity (int (length (x # xs @ y # ys))) 2 (- 1) = Inr ()" by (intro arity_ok) auto
    ultimately show ?thesis unfolding cfun_it_add_def OPMETHOD_def a using unwrap_operand[OF assms(1)] by (simp add: run_simps)
  qed
  show ?thesis
    using opmethod_fold[where oper="\<lambda>a b. okay (a + b)" and f="(+)", OF add assms(2,1,3)] opmethod_fold[where oper="\<lambda>a b. okay (a - b)" and f="(-)", OF sub assms(2,1,3)] opmethod_fold[where oper="\<lambda>a b. okay (a * b)" and f="(*)", OF mul assms(2,1,3)]
      reduced_range reduced_same bad
    by (simp add: cfun_it_add_def cfun_it_sub_def cfun_it_mul_def foldl_plus foldl_minus foldl_times)
qed

theorem int_arithmetic_witness:
  "cfun_it_add S64 [box_of S64 (2 ^ 63 - 1), box_of S64 1, JString [45, 49]] = okay (box_of S64 (2 ^ 63 - 1))
   \<and> cfun_it_mul U64 [box_of U64 (2 ^ 63), box_of U64 3] = okay (box_of U64 (2 ^ 63))"
proof
  have o: "operand S64 (JString [45, 49]) = okay (- 1)" by code_simp
  have b: "operand S64 (box_of S64 (2 ^ 63 - 1)) = okay (2 ^ 63 - 1)" "operand S64 (box_of S64 1) = okay 1"
    "operand U64 (box_of U64 (2 ^ 63)) = okay (2 ^ 63)" "operand U64 (box_of U64 3) = okay 3"
    by (rule operand_box; simp add: in_range_def)+
  show "cfun_it_add S64 [box_of S64 (2 ^ 63 - 1), box_of S64 1, JString [45, 49]] = okay (box_of S64 (2 ^ 63 - 1))"
    using int_arithmetic[OF b(1), of "[box_of S64 1, JString [45, 49]]" "[1, -1]"] b o by (simp add: reduced_def)
  show "cfun_it_mul U64 [box_of U64 (2 ^ 63), box_of U64 3] = okay (box_of U64 (2 ^ 63))"
    using int_arithmetic[OF b(3), of "[box_of U64 3]" "[3]"] b by (simp add: reduced_def)
qed


subsection \<open>Division\<close>

lemma sdiv_mod_floor:
  fixes x y :: int
  assumes "y \<noteq> 0"
  shows "x sdiv y - of_bool (x XOR y < 0 \<and> x sdiv y * y \<noteq> x) = x div y"
    and "(if x XOR y < 0 \<and> x smod y \<noteq> 0 then x smod y + y else x smod y) = x mod y"
proof -
  define q r where "q = \<bar>x\<bar> div \<bar>y\<bar>" and "r = \<bar>x\<bar> mod \<bar>y\<bar>"
  have r: "0 \<le> r" "r < \<bar>y\<bar>" and x: "\<bar>x\<bar> = q * \<bar>y\<bar> + r" using assms by (simp_all add: q_def r_def)
  have qr: "x sdiv y = sgn x * sgn y * q" "x smod y = sgn x * r"
    by (simp_all add: signed_divide_int_def signed_modulo_int_def q_def r_def)
  have opposite: "x XOR y < 0 \<longleftrightarrow> (x < 0) \<noteq> (y < 0)" by simp
  have euclid: "x div y = q2 \<and> x mod y = r2" if "x = q2 * y + r2" "if y > 0 then 0 \<le> r2 \<and> r2 < y else r2 \<le> 0 \<and> y < r2" for q2 r2
  proof -
    have m: "x = y * q2 + r2" using that(1) by (simp add: mult.commute)
    show ?thesis using that(2) assms int_div_pos_eq[OF m] int_mod_pos_eq[OF m] int_div_neg_eq[OF m] int_mod_neg_eq[OF m]
      by (auto split: if_splits)
  qed
  have m: "x sdiv y * y + x smod y = x" using sdiv_mult_smod_eq[of x y] .
  let ?down = "x XOR y < 0 \<and> x smod y \<noteq> 0"
  have "x div y = (if ?down then x sdiv y - 1 else x sdiv y) \<and> x mod y = (if ?down then x smod y + y else x smod y)"
    by (rule euclid) (use m r assms in \<open>auto simp: algebra_simps qr(2) opposite sgn_if split: if_splits\<close>)
  moreover have "x sdiv y * y \<noteq> x \<longleftrightarrow> x smod y \<noteq> 0" using m by auto
  ultimately show "x sdiv y - of_bool (x XOR y < 0 \<and> x sdiv y * y \<noteq> x) = x div y"
    and "(if x XOR y < 0 \<and> x smod y \<noteq> 0 then x smod y + y else x smod y) = x mod y" by auto
qed

lemma word_of_int_zero_iff: "in_range k y \<Longrightarrow> (word_of_int y :: 64 word) = 0 \<longleftrightarrow> y = 0"
  using sint_word_of_int_same[of y] uint_word_of_int_same[of y] by (cases k) (auto simp: in_range_def)

lemma divmethod_two:
  assumes "operand k a = okay x" "operand k b = okay y"
  shows "DIVMETHOD k oper [a, b] = andthen (div_step k oper (word_of_int x) (word_of_int y)) (\<lambda>(w, go). okay (wrap_box k w))"
proof -
  have a: "janet_arity (int (length [a, b])) 2 (- 1) = Inr ()" by (intro arity_ok) auto
  show ?thesis unfolding DIVMETHOD_def a
    using unwrap_operand[OF assms(1)] unwrap_operand[OF assms(2)]
    by (auto simp: run_simps div_step_def raises_def okay_def andthen_def split: if_splits)
qed

lemma floor_method_two:
  assumes "operand S64 a = okay x" "operand S64 b = okay y" "i < 2" "j < 2"
  shows "floor_method f i j [a, b] = andthen (f ([x, y] ! i) ([x, y] ! j)) (\<lambda>r. okay (box_of S64 (reduced S64 r)))"
proof -
  have a: "janet_fixarity (length [a, b]) 2 = Inr ()" by (simp add: janet_fixarity_def)
  show ?thesis using assms a wrap_box_reduced[of S64]
    by (simp add: floor_method_def operand_def run_simps Let_def wrap_box_def)
qed

lemma floor_div_floors:
  "floor_div x y = (if y = 0 then raises ''division by zero'' []
     else if y = - 1 \<and> x = - (2 ^ 63) then Inl IntOverflow else okay (x div y))"
  using sdiv_mod_floor(1)[of y x] unfolding floor_div_def Let_def by presburger

lemma floor_mod_floors:
  "floor_mod x y = (if y = 0 then okay x
     else if y = - 1 \<and> x = - (2 ^ 63) then Inl IntOverflow else okay (x mod y))"
  using sdiv_mod_floor(2)[of y x] unfolding floor_mod_def Let_def by presburger

lemma division_range:
  assumes "in_range S64 x" "in_range S64 y" "y \<noteq> 0"
  shows "in_range S64 (x smod y)" and "in_range S64 (x mod y)"
    and "\<not> (y = - 1 \<and> x = - (2 ^ 63)) \<Longrightarrow> in_range S64 (x sdiv y)"
    and "\<not> (y = - 1 \<and> x = - (2 ^ 63)) \<Longrightarrow> in_range S64 (x div y)"
proof -
  have X: "- (2 ^ 63) \<le> x" "x < 2 ^ 63" "- (2 ^ 63) \<le> y" "y < 2 ^ 63" using assms(1,2) by (simp_all add: in_range_def)
  show q: "in_range S64 (x sdiv y)" if "\<not> (y = - 1 \<and> x = - (2 ^ 63))"
  proof -
    have ne: "x sdiv y \<noteq> 2 ^ 63"
    proof
      assume e: "x sdiv y = 2 ^ 63"
      then have "x = - (2 ^ 63)" using sdiv_int_range[of x y] X by auto
      then have "x sdiv y = - x" "x \<noteq> 0" using e by simp_all
      then have "y = - 1" using int_sdiv_negated_is_minus1 by blast
      then show False using that \<open>x = - (2 ^ 63)\<close> by simp
    qed
    show ?thesis using sdiv_int_range[of x y] X ne by (auto simp: in_range_def)
  qed
  show "in_range S64 (x smod y)"
    using smod_int_range[OF assms(3), of x] X by (auto simp: in_range_def)
  show "in_range S64 (x mod y)"
  proof (cases "y > 0")
    case True
    then have "0 \<le> x mod y" "x mod y < y" by simp_all
    then show ?thesis using X by (simp only: in_range_def kind.case) linarith
  next
    case False
    then have "x mod y \<le> 0" "y < x mod y" using assms(3) by simp_all
    then show ?thesis using X by (simp only: in_range_def kind.case) linarith
  qed
  show "in_range S64 (x div y)" if "\<not> (y = - 1 \<and> x = - (2 ^ 63))"
  proof (cases "x sdiv y = - (2 ^ 63) \<and> x smod y \<noteq> 0")
    case True
    then have "\<bar>x sdiv y\<bar> \<le> \<bar>x\<bar>" "x \<noteq> 0" using sdiv_int_range[of x y] by auto
    then have x: "x = - (2 ^ 63)" using True X by auto
    then have "y = 1" using True int_sdiv_same_is_1[OF \<open>x \<noteq> 0\<close>, of y] by simp
    then show ?thesis using True by (simp add: signed_modulo_int_def)
  next
    case False
    have "x sdiv y * y \<noteq> x \<longleftrightarrow> x smod y \<noteq> 0" using sdiv_mult_smod_eq[of x y] by auto
    then show ?thesis using sdiv_mod_floor(1)[OF assms(3), of x] q[OF that] False
      by (cases "x smod y = 0"; cases "(x < 0) = (y < 0)") (auto simp: in_range_def)
  qed
qed

text \<open>C29. Of signed boxes, \<open>/\<close> and \<open>%\<close> round towards zero, \<open>div\<close> rounds down and \<open>mod\<close> has the sign of
  the divisor, so dividend = divisor * quotient + remainder for both pairs. Division by zero panics,
  except that a modulus of zero gives the dividend. The least integer divided by -1 panics with \<open>/\<close> and \<open>%\<close>,
  but \<open>div\<close> and \<open>mod\<close> do not check and overflow.\<close>

theorem int_division:
  assumes "operand S64 a = okay x" and "operand S64 b = okay y" and "in_range S64 x" and "in_range S64 y"
  shows "DIVMETHOD S64 Div [a, b] = (if y = 0 then raises ''division by zero'' []
      else if y = - 1 \<and> x = - (2 ^ 63) then raises ''INT64_MIN divided by -1'' [] else okay (box_of S64 (x sdiv y)))
    \<and> DIVMETHOD S64 Rem [a, b] = (if y = 0 then raises ''division by zero'' []
      else if y = - 1 \<and> x = - (2 ^ 63) then raises ''INT64_MIN divided by -1'' [] else okay (box_of S64 (x smod y)))
    \<and> cfun_it_s64_divf [a, b] = (if y = 0 then raises ''division by zero'' []
      else if y = - 1 \<and> x = - (2 ^ 63) then Inl IntOverflow else okay (box_of S64 (x div y)))
    \<and> cfun_it_s64_mod [a, b] = (if y = 0 then okay (box_of S64 x)
      else if y = - 1 \<and> x = - (2 ^ 63) then Inl IntOverflow else okay (box_of S64 (x mod y)))
    \<and> cfun_it_s64_divfi [b, a] = cfun_it_s64_divf [a, b] \<and> cfun_it_s64_modi [b, a] = cfun_it_s64_mod [a, b]
    \<and> y * (x sdiv y) + x smod y = x"
proof -
  have s: "sint (word_of_int x :: 64 word) = x" "sint (word_of_int y :: 64 word) = y"
    using sint_word_of_int_same assms(3,4) by blast+
  have z: "(word_of_int y :: 64 word) = 0 \<longleftrightarrow> y = 0" using word_of_int_zero_iff assms(4) by blast
  note range = division_range[OF assms(3,4)]
  have "DIVMETHOD S64 Div [a, b] = (if y = 0 then raises ''division by zero'' []
      else if y = - 1 \<and> x = - (2 ^ 63) then raises ''INT64_MIN divided by -1'' [] else okay (box_of S64 (x sdiv y)))"
    unfolding divmethod_two[OF assms(1,2)] div_step_def z s
    using wrap_box_reduced[of S64 "x sdiv y"] reduced_same[OF range(3)] by (simp add: run_simps divide_def s)
  moreover have "DIVMETHOD S64 Rem [a, b] = (if y = 0 then raises ''division by zero'' []
      else if y = - 1 \<and> x = - (2 ^ 63) then raises ''INT64_MIN divided by -1'' [] else okay (box_of S64 (x smod y)))"
    unfolding divmethod_two[OF assms(1,2)] div_step_def z s
    using wrap_box_reduced[of S64 "x smod y"] reduced_same[OF range(1)] by (simp add: run_simps divide_def s)
  moreover have "cfun_it_s64_divf [a, b] = (if y = 0 then raises ''division by zero'' []
      else if y = - 1 \<and> x = - (2 ^ 63) then Inl IntOverflow else okay (box_of S64 (x div y)))"
    unfolding cfun_it_s64_divf_def using floor_method_two[OF assms(1,2), of 0 1 floor_div] reduced_same[OF range(4)]
    by (simp add: floor_div_floors run_simps)
  moreover have "cfun_it_s64_mod [a, b] = (if y = 0 then okay (box_of S64 x)
      else if y = - 1 \<and> x = - (2 ^ 63) then Inl IntOverflow else okay (box_of S64 (x mod y)))"
    unfolding cfun_it_s64_mod_def using floor_method_two[OF assms(1,2), of 0 1 floor_mod] reduced_same[OF range(2)] reduced_same[OF assms(3)]
    by (simp add: floor_mod_floors run_simps)
  moreover have "cfun_it_s64_divfi [b, a] = cfun_it_s64_divf [a, b]" "cfun_it_s64_modi [b, a] = cfun_it_s64_mod [a, b]"
    unfolding cfun_it_s64_divfi_def cfun_it_s64_modi_def cfun_it_s64_divf_def cfun_it_s64_mod_def
    using floor_method_two[OF assms(1,2), of 0 1] floor_method_two[OF assms(2,1), of 1 0] by simp_all
  moreover have "y * (x sdiv y) + x smod y = x" using mult_sdiv_smod_eq by blast
  ultimately show ?thesis by simp
qed

theorem int_division_witness:
  "DIVMETHOD S64 Div [box_of S64 (- 7), box_of S64 2] = okay (box_of S64 (- 3))
   \<and> cfun_it_s64_divf [box_of S64 (- 7), box_of S64 2] = okay (box_of S64 (- 4))
   \<and> cfun_it_s64_mod [box_of S64 (- 7), box_of S64 2] = okay (box_of S64 1)
   \<and> cfun_it_s64_mod [box_of S64 (- (2 ^ 63)), box_of S64 (- 1)] = Inl IntOverflow"
proof -
  have r: "in_range S64 (- 7)" "in_range S64 2" "in_range S64 (- (2 ^ 63))" "in_range S64 (- 1)" by (simp_all add: in_range_def)
  have "(- 7 :: int) sdiv 2 = - 3" by simp
  then show ?thesis
    using int_division[OF operand_box[OF r(1)] operand_box[OF r(2)] r(1,2)]
      int_division[OF operand_box[OF r(3)] operand_box[OF r(4)] r(3,4)] by simp
qed


subsection \<open>Text\<close>

lemma digit_lookup_decimal: "isdigit c \<Longrightarrow> digit_lookup c = the (hexval c) \<and> 0 \<le> the (hexval c) \<and> the (hexval c) < 10
   \<and> c \<noteq> c8 CHR ''_'' \<and> c \<le> 127"
proof -
  assume d: "isdigit c"
  have "unat c \<in> set [48..<58]" using d by (simp only: isdigit_def word_le_nat_alt set_upt atLeastLessThan_iff) simp
  then have "c \<in> set (map of_nat [48..<58])" unfolding list.set_map by (rule image_eqI[rotated]) simp
  moreover have "list_all (\<lambda>c. digit_lookup c = the (hexval c) \<and> 0 \<le> the (hexval c) \<and> the (hexval c) < 10
     \<and> c \<noteq> c8 CHR ''_'' \<and> c \<le> 127) (map of_nat [48..<58])" by code_simp
  ultimately show ?thesis unfolding list_all_iff by blast
qed

lemma digits_val_Cons_from: "foldl (\<lambda>a d. a * 10 + the (hexval d)) (a :: int) ds = a * 10 ^ length ds + digits_val 10 ds"
proof (induction ds arbitrary: a)
  case (Cons d ds)
  show ?case using Cons[of "a * 10 + the (hexval d)"] Cons[of "the (hexval d)"]
    by (simp add: digits_val_def algebra_simps)
qed (simp add: digits_val_def)

lemma digits_val_nonneg: "\<forall>c \<in> set ds. isdigit c \<Longrightarrow> 0 \<le> digits_val 10 ds"
proof (induction ds rule: rev_induct)
  case (snoc d ds)
  then show ?case using digit_lookup_decimal[of d] by (simp add: digits_val_snoc)
qed (simp add: digits_val_def)

lemma scan_digits_decimal:
  assumes "\<forall>c \<in> set ds. isdigit c" "0 \<le> a" "a * 10 ^ length ds + digits_val 10 ds < 2 ^ 64"
  shows "scan_digits 10 seen a ds = (if seen \<or> ds \<noteq> [] then Some (a * 10 ^ length ds + digits_val 10 ds) else None)"
  using assms
proof (induction ds arbitrary: a seen)
  case (Cons d ds)
  let ?v = "the (hexval d)"
  have d: "digit_lookup d = ?v" "0 \<le> ?v" "?v < 10" "d \<noteq> c8 CHR ''_''" "d \<le> 127"
    using digit_lookup_decimal[of d] Cons.prems(1) by auto
  have e: "a * 10 ^ length (d # ds) + digits_val 10 (d # ds) = (a * 10 + ?v) * 10 ^ length ds + digits_val 10 ds"
    using digits_val_Cons_from[of a "d # ds"] digits_val_Cons_from[of "a * 10 + ?v" ds] by simp
  have p: "0 \<le> digits_val 10 ds" using digits_val_nonneg Cons.prems(1) by simp
  have "(a * 10 + ?v) * 1 \<le> (a * 10 + ?v) * 10 ^ length ds" using Cons.prems(2) d(2) by (intro mult_left_mono) auto
  moreover have "(a * 10 + ?v) * 10 ^ length ds \<le> (a * 10 + ?v) * 10 ^ length ds + digits_val 10 ds" using p by simp
  ultimately have "a * 10 + ?v < 2 ^ 64" using Cons.prems(3) unfolding e by simp
  then have "\<not> a > (2 ^ 64 - 1 - ?v) div 10" by (simp add: not_less zdiv_mono1 less_eq_div_iff_mult_less_eq pos_imp_zdiv_nonneg_iff)
  moreover have "scan_digits 10 True (a * 10 + ?v) ds = Some ((a * 10 + ?v) * 10 ^ length ds + digits_val 10 ds)"
    using Cons.IH[of "a * 10 + ?v" True] Cons.prems e d(2) by simp
  ultimately show ?case unfolding e using d by (auto simp: Let_def)
qed (simp add: digits_val_def)


lemma fmt_int_digits:
  obtains ds where "fmt_int i = (if i < 0 then [c8 CHR ''-''] else []) @ ds" "\<forall>c \<in> set ds. isdigit c" "ds \<noteq> []"
    "digits_val 10 ds = \<bar>i\<bar>" "\<bar>i\<bar> < 10 ^ k \<Longrightarrow> 1 \<le> k \<Longrightarrow> length ds \<le> k"
proof
  let ?ds = "dec_digits (max 1 (declen \<bar>i\<bar>)) \<bar>i\<bar>"
  show "fmt_int i = (if i < 0 then [c8 CHR ''-''] else []) @ ?ds" by (simp add: fmt_int_def)
  show "\<forall>c \<in> set ?ds. isdigit c" using dec_digits_isdigit[of "\<bar>i\<bar>"] by auto
  show "?ds \<noteq> []" by (metis length_dec_digits list.size(3) max_def not_one_le_zero order_refl)
  have "\<bar>i\<bar> < 10 ^ max 1 (declen \<bar>i\<bar>)"
    using declen_bounds[of "\<bar>i\<bar>"] by (cases "i = 0") (auto simp: max_def)
  then show "digits_val 10 ?ds = \<bar>i\<bar>" using digits_val_dec_digits[of "\<bar>i\<bar>"] by simp
  show "length ?ds \<le> k" if "\<bar>i\<bar> < 10 ^ k" "1 \<le> k" using declen_le[of "\<bar>i\<bar>" k] that by simp
qed

lemma scan_base_decimal: "\<forall>c \<in> set ds. isdigit c \<Longrightarrow> scan_base ds = Some (10, ds)"
proof -
  assume ds: "\<forall>c \<in> set ds. isdigit c"
  have "length ds \<ge> Suc j \<Longrightarrow> ds ! j \<noteq> c8 CHR ''x'' \<and> ds ! j \<noteq> c8 CHR ''r''" for j
  proof -
    assume "length ds \<ge> Suc j"
    then have "isdigit (ds ! j)" using ds by simp
    then show ?thesis by (auto simp: isdigit_def)
  qed
  from this[of 1] this[of 2] show ?thesis unfolding scan_base_def by (auto simp: numeral_2_eq_2 numeral_3_eq_3)
qed

text \<open>Digits with or without a minus sign.\<close>

lemma scan_uint64_decimal:
  assumes "\<forall>c \<in> set ds. isdigit c" "ds \<noteq> []" "digits_val 10 ds < 2 ^ 64" "length ds \<le> 149"
  shows "scan_uint64 ((if neg then [c8 CHR ''-''] else []) @ ds) = Some (digits_val 10 ds, neg)"
proof -
  let ?z = "takeWhile (\<lambda>c. c = c8 CHR ''0'') ds" and ?r = "dropWhile (\<lambda>c. c = c8 CHR ''0'') ds"
  have "?z = replicate (length ?z) (c8 CHR ''0'')" by (rule replicate_eqI[OF refl]) (auto dest: set_takeWhileD)
  then have v: "digits_val 10 ds = digits_val 10 ?r" by (metis digits_val_leading_0 takeWhile_dropWhile_id)
  have h: "isdigit (hd ds)" using assms(1,2) by simp
  then have n: "hd ds \<noteq> c8 CHR ''-''" "hd ds \<noteq> c8 CHR ''+''" by (auto simp: isdigit_def)
  have "hd ds = c8 CHR ''0'' \<or> ?r \<noteq> []" using assms(2) by (cases ds) auto
  moreover have "\<forall>c \<in> set ?r. isdigit c" using assms(1) set_dropWhileD by fast
  ultimately have "scan_digits 10 (hd ds = c8 CHR ''0'') 0 ?r = Some (digits_val 10 ds)"
    using scan_digits_decimal[of ?r 0] assms(3) v by auto
  then show ?thesis using n assms(2,4) scan_base_decimal[OF assms(1)]
    by (cases neg) (simp_all add: scan_uint64_def Let_def)
qed

text \<open>The bytes of a box, the least significant first, as a number.\<close>

definition bytes_value :: "bytes \<Rightarrow> int" where
  "bytes_value us = foldr (\<lambda>b a. uint b + 256 * a) us 0"

lemma box_bytes_value: "bytes_value (box_bytes w) = uint w"
proof -
  have u: "[0..<8] = [0, 1, 2, 3, 4, 5, 6, 7 :: nat]" by (simp add: upt_rec)
  have b: "uint (ucast (drop_bit n w) :: byte) = uint w div 2 ^ n mod 256" for n
  proof -
    have "uint (drop_bit n w) = uint w div 2 ^ n"
      using uint_range_size[of w] by (subst unsigned_drop_bit_eq) (simp only: drop_bit_eq_div, simp add: take_bit_eq_mod word_size)
    then show ?thesis by (simp add: unsigned_ucast_eq take_bit_eq_mod)
  qed
  define v where "v = uint w"
  have v: "0 \<le> v" "v < 18446744073709551616" using uint_range_size[of w] by (simp_all add: word_size v_def)
  define q where "q k = v div 256 ^ k" for k
  have step: "q k mod 256 = q k - 256 * q (Suc k)" for k
  proof -
    have "q (Suc k) = q k div 256" using zdiv_zmult2_eq[of 256 v "256 ^ k"] by (simp add: q_def mult.commute)
    then show ?thesis using minus_mult_div_eq_mod[of "q k" 256] by linarith
  qed
  have ends: "q 0 = v" "q 8 = 0" using v by (simp_all add: q_def)
  have b0: "uint (ucast w :: byte) = v mod 256" by (simp add: v_def unsigned_ucast_eq take_bit_eq_mod)
  have "bytes_value (box_bytes w) = q 0 mod 256 + 256 * (q 1 mod 256 + 256 * (q 2 mod 256 + 256 * (q 3 mod 256
      + 256 * (q 4 mod 256 + 256 * (q 5 mod 256 + 256 * (q 6 mod 256 + 256 * (q 7 mod 256)))))))"
    by (simp add: bytes_value_def box_bytes_def u b b0 q_def flip: v_def)
  also have "\<dots> = v" using ends unfolding step by (simp add: numeral_eq_Suc)
  finally show ?thesis by (simp add: v_def)
qed

text \<open>C30. The text a boxed integer is printed as converts back to the same box, for every integer of the
  type, and its eight bytes, in either order, carry its 64 bits.\<close>

theorem int_text_roundtrip:
  assumes "in_range k i"
  shows "(case k of S64 \<Rightarrow> cfun_it_s64_new [JString (it_s64_tostring i)] | U64 \<Rightarrow> cfun_it_u64_new [JString (it_u64_tostring i)])
      = okay (box_of k i)
    \<and> (\<exists>le be. cfun_to_bytes [box_of k i] = okay (JBuffer le) \<and> cfun_to_bytes [box_of k i, JKeyword (bs ''be'')] = okay (JBuffer be)
        \<and> be = rev le \<and> reduced k (bytes_value le) = i)"
proof -
  obtain ds where ds: "fmt_int i = (if i < 0 then [c8 CHR ''-''] else []) @ ds" "\<forall>c \<in> set ds. isdigit c" "ds \<noteq> []"
    "digits_val 10 ds = \<bar>i\<bar>" "\<bar>i\<bar> < 10 ^ 20 \<Longrightarrow> length ds \<le> 20" by (rule fmt_int_digits[of i 20]) auto
  have r: "\<bar>i\<bar> < 2 ^ 64" using assms by (cases k) (auto simp: in_range_def)
  then have l: "length ds \<le> 149" using ds(5) by simp
  have s: "scan_uint64 (fmt_int i) = Some (\<bar>i\<bar>, i < 0)"
    using scan_uint64_decimal[OF ds(2,3), of "i < 0"] ds(1,4) r l by simp
  have n: "janet_fixarity (Suc 0) 1 = Inr ()" by (simp add: janet_fixarity_def)
  have "operand k (JString (fmt_int i)) = okay i"
    using assms s by (cases k) (auto simp: operand_def janet_unwrap_s64_def janet_unwrap_u64_def
        janet_scan_int64_def janet_scan_uint64_def in_range_def)
  then have T: "(case k of S64 \<Rightarrow> cfun_it_s64_new [JString (it_s64_tostring i)] | U64 \<Rightarrow> cfun_it_u64_new [JString (it_u64_tostring i)])
      = okay (box_of k i)"
    using wrap_box_reduced[of k i] reduced_same[OF assms] n
    by (cases k) (simp_all add: operand_def cfun_it_s64_new_def cfun_it_u64_new_def it_s64_tostring_def it_u64_tostring_def
        run_simps wrap_box_def)
  let ?b = "box_bytes (word_of_int i)"
  have "reduced k (bytes_value ?b) = i"
    using assms reduced_same[OF assms] by (cases k) (auto simp: box_bytes_value uint_word_of_int64 reduced_def mod_simps)
  moreover have "cfun_to_bytes [box_of k i] = okay (JBuffer ?b)"
    by (cases k) (simp_all add: cfun_to_bytes_def box_of_def run_simps janet_arity_def)
  moreover have "cfun_to_bytes [box_of k i, JKeyword (bs ''be'')] = okay (JBuffer (rev ?b))"
    by (cases k) (simp_all add: cfun_to_bytes_def box_of_def run_simps janet_arity_def cstring_def)
  ultimately show ?thesis using T by blast
qed

theorem int_text_roundtrip_witness:
  "cfun_it_s64_new [JString (it_s64_tostring (- (2 ^ 63)))] = okay (box_of S64 (- (2 ^ 63)))"
  using int_text_roundtrip[of S64 "- (2 ^ 63)"] by (simp add: in_range_def)

subsection \<open>Comparison\<close>

text \<open>Boxed integers of both types are compared as the numbers they are, and the two comparisons are
  opposite. A NaN is equal to every box. A number equal to 2 to the 63 compared with a signed box, or to 2 to the
  64 with an unsigned one, is converted to an integer type it is outside of: undefined.\<close>

theorem int_compare:
  assumes "in_range S64 x" and "in_range U64 y"
  shows "cfun_it_s64_compare [box_of S64 x, box_of U64 y] = okay (wrap_cmp (compare_ints x y))
    \<and> cfun_it_u64_compare [box_of U64 y, box_of S64 x] = okay (wrap_cmp (compare_ints y x))
    \<and> compare_ints y x = - compare_ints x y
    \<and> cfun_it_s64_compare [box_of S64 x, JNumber (NaN s)] = okay (wrap_cmp 0)
    \<and> cfun_it_s64_compare [box_of S64 x, JNumber (double_of_int (2 ^ 63))] = Inl IntOverflow
    \<and> cfun_it_u64_compare [box_of U64 y, JNumber (double_of_int (2 ^ 64))] = Inl IntOverflow"
proof -
  have n: "janet_fixarity (Suc (Suc 0)) 2 = Inr ()" by (simp add: janet_fixarity_def)
  have o: "janet_unwrap_s64 (box_of S64 x) = okay x" "janet_unwrap_u64 (box_of U64 y) = okay y"
    using operand_box[OF assms(1)] operand_box[OF assms(2)] by (simp_all add: operand_def)
  have t: "janet_is_int (box_of S64 x) = JANET_INT_S64" "janet_is_int (box_of U64 y) = JANET_INT_U64"
    by (simp_all add: janet_is_int_def box_of_def)
  have c: "compare_int64_double x (double_of_int (2 ^ 63)) = Inl IntOverflow"
  proof -
    have "isnan (double_of_int (2 ^ 63)) = False"
      "dbl_lt (double_of_int (2 ^ 63)) (double_of_int (2 ^ 53)) = False"
      "dbl_lt (double_of_int (2 ^ 63 - 1)) (double_of_int (2 ^ 63)) = False"
      "dbl_lt (double_of_int (2 ^ 63)) (double_of_int (- (2 ^ 63))) = False"
      "convert_to (- (2 ^ 63)) (2 ^ 63 - 1) (double_of_int (2 ^ 63)) = Inl IntOverflow" by code_simp+
    then show ?thesis unfolding compare_int64_double_def by (simp only: simp_thms if_True if_False rbind_simps)
  qed
  have d: "compare_uint64_double y (double_of_int (2 ^ 64)) = Inl IntOverflow"
  proof -
    have "isnan (double_of_int (2 ^ 64)) = False"
      "dbl_lt (double_of_int (2 ^ 64)) (Finite False 0) = False"
      "dbl_lt (double_of_int (2 ^ 64)) (double_of_int (2 ^ 53)) = False"
      "dbl_lt (double_of_int (2 ^ 64 - 1)) (double_of_int (2 ^ 64)) = False"
      "convert_to 0 (2 ^ 64 - 1) (double_of_int (2 ^ 64)) = Inl IntOverflow" by code_simp+
    then show ?thesis unfolding compare_uint64_double_def by (simp only: simp_thms if_True if_False rbind_simps)
  qed
  have "cfun_it_s64_compare [box_of S64 x, box_of U64 y] = okay (wrap_cmp (compare_ints x y))"
    using assms by (simp add: cfun_it_s64_compare_def n o t run_simps) (auto simp: box_of_def compare_ints_def in_range_def)
  moreover have "cfun_it_u64_compare [box_of U64 y, box_of S64 x] = okay (wrap_cmp (compare_ints y x))"
    using assms by (simp add: cfun_it_u64_compare_def n o t run_simps) (auto simp: box_of_def compare_ints_def in_range_def)
  moreover have "cfun_it_s64_compare [box_of S64 x, JNumber (NaN s)] = okay (wrap_cmp 0)"
    by (simp add: cfun_it_s64_compare_def n o t run_simps compare_int64_double_def isnan_def)
  moreover have "cfun_it_s64_compare [box_of S64 x, JNumber (double_of_int (2 ^ 63))] = Inl IntOverflow"
    using c by (simp add: cfun_it_s64_compare_def n o t run_simps)
  moreover have "cfun_it_u64_compare [box_of U64 y, JNumber (double_of_int (2 ^ 64))] = Inl IntOverflow"
    using d by (simp add: cfun_it_u64_compare_def n o t run_simps)
  ultimately show ?thesis by (simp add: compare_ints_def)
qed

theorem int_compare_witness:
  "cfun_it_s64_compare [box_of S64 (- 1), box_of U64 (2 ^ 64 - 1)] = okay (wrap_cmp (- 1))
   \<and> cfun_it_u64_compare [box_of U64 (2 ^ 64 - 1), box_of S64 (- 1)] = okay (wrap_cmp 1)"
  using int_compare[of "- 1" "2 ^ 64 - 1"] by (simp add: in_range_def compare_ints_def)

end
