(* ===== verification/Symcache.thy ===== *)
theory Symcache
  imports TableSpec Strings CStd
begin

text \<open>
  \<^verbatim>\<open>src/core/symcache.c\<close> (amalg/janet.c): the table of all symbols, which makes
  equal symbols and keywords the same pointer, and the generator of new symbols. A symbol is the
  index of its block; \<open>blocks\<close> are the cells of every symbol made so far, with the cell after
  the text. The hash in front of a block is that of its text. A slot of the table is NULL, the mark
  of a removed symbol, or a symbol.
\<close>

datatype slot = NULL | JANET_SYMCACHE_DELETED | Symbol nat

record symcache =
  cache :: "slot list"
  cache_count :: int
  cache_deleted :: int
  gensym_counter :: bytes
  blocks :: "bytes list"

definition text_of :: "symcache \<Rightarrow> nat \<Rightarrow> bytes" where
  "text_of vm a = butlast (blocks vm ! a)"

text \<open>A run ends in a fault, with the exit of the process (\<open>None\<close>), or with a value.\<close>

type_synonym 'a ending = "fault + 'a option"

definition ebind :: "'a ending \<Rightarrow> ('a \<Rightarrow> 'b ending) \<Rightarrow> 'b ending" where
  "ebind m f = rbind m (\<lambda>x. case x of None \<Rightarrow> Inr None | Some y \<Rightarrow> f y)"

definition exits_if_none :: "'a option \<Rightarrow> 'a ending" where
  "exits_if_none x = Inr x"

text \<open>Setting the table up and giving it up; the blocks are the collector's to free.\<close>

definition janet_symcache_init :: symcache where
  "janet_symcache_init = \<lparr>cache = replicate 1024 NULL, cache_count = 0, cache_deleted = 0,
     gensym_counter = (replicate 8 (c8 CHR ''0''))[0 := c8 CHR ''_''], blocks = []\<rparr>"

definition janet_symcache_deinit :: "symcache \<Rightarrow> symcache" where
  "janet_symcache_deinit vm = vm\<lparr>cache := [], cache_count := 0, cache_deleted := 0\<rparr>"

subsection \<open>Searching\<close>

text \<open>The two ranges, from the hash to the end and from the start to the hash.\<close>

definition sym_probe :: "nat \<Rightarrow> 32 word \<Rightarrow> nat list" where
  "sym_probe cap hash = (let index = janet_maphash cap hash in [index..<cap] @ [0..<index])"

text \<open>The slot of the symbol, if it is there, and the first slot passed that can be written.\<close>

fun sym_scan :: "symcache \<Rightarrow> bytes \<Rightarrow> nat list \<Rightarrow> nat option \<Rightarrow> nat option \<times> nat option" where
  "sym_scan vm str [] firstEmpty = (None, firstEmpty)"
| "sym_scan vm str (i # is) firstEmpty =
     (case cache vm ! i of
        NULL \<Rightarrow> (None, if firstEmpty = None then Some i else firstEmpty)
      | JANET_SYMCACHE_DELETED \<Rightarrow> sym_scan vm str is (if firstEmpty = None then Some i else firstEmpty)
      | Symbol test \<Rightarrow>
          (if janet_string_equalconst (text_of vm test) str (janet_string_calchash str)
           then (Some i, firstEmpty) else sym_scan vm str is firstEmpty))"

text \<open>The location and whether the symbol is there; \<open>None\<close> is the failed assertion.\<close>

definition janet_symcache_findmem :: "symcache \<Rightarrow> bytes \<Rightarrow> (symcache \<times> nat \<times> bool) option" where
  "janet_symcache_findmem vm str =
     (case sym_scan vm str (sym_probe (length (cache vm)) (janet_string_calchash str)) None of
        (Some i, Some f) \<Rightarrow>
          Some (vm\<lparr>cache := (cache vm)[f := cache vm ! i, i := JANET_SYMCACHE_DELETED]\<rparr>, f, True)
      | (Some i, None) \<Rightarrow> Some (vm, i, True)
      | (None, Some f) \<Rightarrow> Some (vm, f, False)
      | (None, None) \<Rightarrow> None)"

subsection \<open>Changing the table\<close>

definition set_slot :: "nat \<Rightarrow> slot \<Rightarrow> symcache \<Rightarrow> symcache" where
  "set_slot i x vm = vm\<lparr>cache := (cache vm)[i := x]\<rparr>"

text \<open>The symbols of the old table into the new one.\<close>

fun sym_reinsert :: "slot list \<Rightarrow> symcache \<Rightarrow> symcache option" where
  "sym_reinsert [] vm = Some vm"
| "sym_reinsert (Symbol x # old) vm =
     (case janet_symcache_findmem vm (text_of vm x) of
        None \<Rightarrow> None
      | Some (vm, bucket, status) \<Rightarrow> if status then Some vm else sym_reinsert old (set_slot bucket (Symbol x) vm))"
| "sym_reinsert (_ # old) vm = sym_reinsert old vm"

definition janet_cache_resize :: "symcache \<Rightarrow> nat \<Rightarrow> symcache option" where
  "janet_cache_resize vm newCapacity =
     sym_reinsert (cache vm) (vm\<lparr>cache := replicate newCapacity NULL, cache_deleted := 0\<rparr>)"

definition janet_symcache_put :: "symcache \<Rightarrow> nat \<Rightarrow> nat \<Rightarrow> symcache ending" where
  "janet_symcache_put vm x bucket =
     ebind (if (cache_count vm + cache_deleted vm) * 2 > int (length (cache vm))
            then rbind (janet_tablen (2 * cache_count vm + 1)) (\<lambda>n.
                 ebind (exits_if_none (janet_cache_resize vm (nat n))) (\<lambda>vm.
                 ebind (exits_if_none (janet_symcache_findmem vm (text_of vm x))) (\<lambda>(vm, bucket, status).
                 Inr (Some (vm, bucket)))))
            else Inr (Some (vm, bucket))) (\<lambda>(vm, bucket).
     Inr (Some (set_slot bucket (Symbol x) (vm\<lparr>cache_count := cache_count vm + 1\<rparr>))))"

definition janet_symbol_deinit :: "symcache \<Rightarrow> nat \<Rightarrow> symcache option" where
  "janet_symbol_deinit vm x =
     (case janet_symcache_findmem vm (text_of vm x) of
        None \<Rightarrow> None
      | Some (vm, bucket, status) \<Rightarrow>
          Some (if status
                then set_slot bucket JANET_SYMCACHE_DELETED
                       (vm\<lparr>cache_count := cache_count vm - 1, cache_deleted := cache_deleted vm + 1\<rparr>)
                else vm))"

text \<open>A new block, and its index.\<close>

definition new_symbol :: "bytes \<Rightarrow> symcache \<Rightarrow> symcache \<times> nat" where
  "new_symbol cells vm = (vm\<lparr>blocks := blocks vm @ [cells]\<rparr>, length (blocks vm))"

definition the_symbol :: "slot \<Rightarrow> nat" where
  "the_symbol x = (case x of Symbol a \<Rightarrow> a | _ \<Rightarrow> 0)"

definition janet_symbol :: "symcache \<Rightarrow> bytes \<Rightarrow> (symcache \<times> nat) ending" where
  "janet_symbol vm str =
     ebind (exits_if_none (janet_symcache_findmem vm str)) (\<lambda>(vm, bucket, success).
     if success then Inr (Some (vm, the_symbol (cache vm ! bucket)))
     else let (vm, newstr) = new_symbol (str @ [0]) vm in
       ebind (janet_symcache_put vm newstr bucket) (\<lambda>vm. Inr (Some (vm, newstr))))"

definition janet_csymbol :: "symcache \<Rightarrow> bytes \<Rightarrow> (symcache \<times> nat) ending" where
  "janet_csymbol vm cstr = rbind (strlen cstr) (\<lambda>len. janet_symbol vm (take len cstr))"

subsection \<open>New symbols\<close>

fun inc_from :: "nat \<Rightarrow> bytes \<Rightarrow> bytes" where
  "inc_from 0 counter = counter"
| "inc_from (Suc i) counter =
     (let c = counter ! Suc i in
      if c = c8 CHR ''9'' then counter[Suc i := c8 CHR ''a'']
      else if c = c8 CHR ''z'' then counter[Suc i := c8 CHR ''A'']
      else if c = c8 CHR ''Z'' then inc_from i (counter[Suc i := c8 CHR ''0''])
      else counter[Suc i := c + 1])"

definition inc_gensym :: "symcache \<Rightarrow> symcache" where
  "inc_gensym vm = vm\<lparr>gensym_counter := inc_from (length (gensym_counter vm) - 2) (gensym_counter vm)\<rparr>"

text \<open>The loop: the outer \<open>None\<close> is that it never ends, the inner one the failed assertion.\<close>

partial_function (option) gensym_loop :: "symcache \<Rightarrow> (symcache \<times> nat) option option" where
  "gensym_loop vm =
     (case janet_symcache_findmem vm (butlast (gensym_counter vm)) of
        None \<Rightarrow> Some None
      | Some r \<Rightarrow> (if snd (snd r) then gensym_loop (inc_gensym (fst r)) else Some (Some (fst r, fst (snd r)))))"

definition janet_symbol_gen :: "symcache \<Rightarrow> ((symcache \<times> nat) ending) option" where
  "janet_symbol_gen vm = map_option (\<lambda>r.
     ebind (exits_if_none r) (\<lambda>(vm, bucket).
     let (vm, x) = new_symbol (gensym_counter vm) vm in
     ebind (janet_symcache_put vm x bucket) (\<lambda>vm. Inr (Some (vm, x))))) (gensym_loop vm)"

end
