(* ===== verification/SymcacheSpec.thy ===== *)
theory SymcacheSpec
  imports Symcache "HOL-Library.Multiset"
begin

text \<open>
  The table of symbols as a set of symbols with different texts: its invariant, what a search finds,
  and that moving, writing and removing a slot keep the invariant.
\<close>

subsection \<open>The probe order\<close>

definition sym_home :: "slot list \<Rightarrow> bytes \<Rightarrow> nat list" where
  "sym_home c s = sym_probe (length c) (janet_string_calchash s)"

text \<open>The slots a search for a text passes before \<open>i\<close>.\<close>

definition passed :: "slot list \<Rightarrow> bytes \<Rightarrow> nat \<Rightarrow> nat list" where
  "passed c s i = takeWhile (\<lambda>j. j \<noteq> i) (sym_home c s)"

definition pow2_size :: "nat \<Rightarrow> bool" where
  "pow2_size n = (\<exists>k \<le> 30. n = 2 ^ k)"

lemma sym_home_set:
  assumes "pow2_size (length c)"
  shows "set (sym_home c s) = {..<length c}" "distinct (sym_home c s)"
proof -
  obtain k where k: "length c = 2 ^ k" "k \<le> 30" using assms by (auto simp: pow2_size_def)
  from maphash_less[OF k, of "janet_string_calchash s"] show "set (sym_home c s) = {..<length c}" "distinct (sym_home c s)"
    by (auto simp: sym_home_def sym_probe_def Let_def)
qed

lemma passed_length: "length c = length d \<Longrightarrow> passed c s i = passed d s i"
  by (simp add: passed_def sym_home_def)

lemma passed_in: "pow2_size (length c) \<Longrightarrow> j \<in> set (passed c s i) \<Longrightarrow> j < length c \<and> j \<noteq> i"
  using sym_home_set(1)[of c s] by (auto simp: passed_def dest: set_takeWhileD)

text \<open>What is passed before a slot that is passed.\<close>

lemma passed_trans: "j \<in> set (passed c s i) \<Longrightarrow> k \<in> set (passed c s j) \<Longrightarrow> k \<in> set (passed c s i)"
proof -
  assume j: "j \<in> set (passed c s i)" and k: "k \<in> set (passed c s j)"
  let ?h = "sym_home c s"
  have "takeWhile (\<lambda>x. x \<noteq> i) ?h = takeWhile (\<lambda>x. x \<noteq> j) (takeWhile (\<lambda>x. x \<noteq> i) ?h) @ dropWhile (\<lambda>x. x \<noteq> j) (takeWhile (\<lambda>x. x \<noteq> i) ?h)"
    by simp
  moreover have "takeWhile (\<lambda>x. x \<noteq> j) (takeWhile (\<lambda>x. x \<noteq> i) ?h) = takeWhile (\<lambda>x. x \<noteq> j) ?h"
  proof -
    have "takeWhile P (takeWhile Q xs) = takeWhile P xs" if "j \<in> set (takeWhile Q xs)" "P = (\<lambda>x. x \<noteq> j)" for P Q xs
      using that by (induction xs) (auto split: if_splits)
    then show ?thesis using j by (simp add: passed_def)
  qed
  ultimately show ?thesis using k unfolding passed_def by (metis Un_iff set_append)
qed

subsection \<open>What a search finds\<close>

definition matches :: "symcache \<Rightarrow> bytes \<Rightarrow> nat \<Rightarrow> bool" where
  "matches vm s j = (\<exists>a. cache vm ! j = Symbol a \<and> text_of vm a = s)"

lemma memcmp_0: "length x = length y \<Longrightarrow> memcmp x y = 0 \<longleftrightarrow> x = y"
  by (induction x y rule: list_induct2) auto

lemma equalconst_iff: "janet_string_equalconst t s (janet_string_calchash s) \<longleftrightarrow> t = s"
  using memcmp_0[of t s] by (auto simp: janet_string_equalconst_def memcmp_0)

definition orelse :: "'a option \<Rightarrow> 'a option \<Rightarrow> 'a option" where
  "orelse x y = (case x of None \<Rightarrow> y | Some _ \<Rightarrow> x)"

definition first_deleted :: "slot list \<Rightarrow> nat list \<Rightarrow> nat option" where
  "first_deleted c is = find (\<lambda>j. c ! j = JANET_SYMCACHE_DELETED) is"

lemma first_deleted_Cons: "first_deleted c (i # is) = (if c ! i = JANET_SYMCACHE_DELETED then Some i else first_deleted c is)"
  by (simp add: first_deleted_def)

text \<open>A search stops at the first slot that is NULL or has the text.\<close>

lemma sym_scan_eq:
  "sym_scan vm s is fe =
     (let xs = takeWhile (\<lambda>j. cache vm ! j \<noteq> NULL \<and> \<not> matches vm s j) is;
          fe2 = orelse fe (first_deleted (cache vm) xs)
      in case drop (length xs) is of
           [] \<Rightarrow> (None, fe2)
         | i # _ \<Rightarrow> if cache vm ! i = NULL then (None, orelse fe2 (Some i)) else (Some i, fe2))"
proof (induction "is" arbitrary: fe)
  case Nil
  then show ?case by (simp add: orelse_def first_deleted_def split: option.splits)
next
  case (Cons i "is")
  show ?case
  proof (cases "cache vm ! i")
    case NULL
    then show ?thesis by (simp add: orelse_def first_deleted_def split: option.splits)
  next
    case JANET_SYMCACHE_DELETED
    then have "\<not> matches vm s i" by (simp add: matches_def)
    then show ?thesis using JANET_SYMCACHE_DELETED Cons[of "if fe = None then Some i else fe"]
      by (cases fe) (simp_all add: Let_def first_deleted_Cons orelse_def split: list.split)
  next
    case (Symbol a)
    then have "matches vm s i \<longleftrightarrow> text_of vm a = s" by (simp add: matches_def)
    then show ?thesis using Symbol Cons[of fe]
      by (cases fe) (auto simp: Let_def first_deleted_Cons orelse_def equalconst_iff first_deleted_def split: list.split)
  qed
qed


subsection \<open>The invariant of the table\<close>

definition cache_ok :: "symcache \<Rightarrow> bool" where
  "cache_ok vm \<longleftrightarrow> pow2_size (length (cache vm))
     \<and> (\<forall>a. Symbol a \<in> set (cache vm) \<longrightarrow> a < length (blocks vm))
     \<and> (\<forall>i < length (cache vm). \<forall>j < length (cache vm). \<forall>a b. cache vm ! i = Symbol a \<longrightarrow> cache vm ! j = Symbol b
          \<longrightarrow> text_of vm a = text_of vm b \<longrightarrow> i = j)
     \<and> (\<forall>i < length (cache vm). \<forall>a. cache vm ! i = Symbol a
          \<longrightarrow> (\<forall>j \<in> set (passed (cache vm) (text_of vm a) i). cache vm ! j \<noteq> NULL))"

lemma cache_okD:
  assumes "cache_ok vm"
  shows "pow2_size (length (cache vm))" "Symbol a \<in> set (cache vm) \<Longrightarrow> a < length (blocks vm)"
    "i < length (cache vm) \<Longrightarrow> j < length (cache vm) \<Longrightarrow> matches vm s i \<Longrightarrow> matches vm s j \<Longrightarrow> i = j"
    "i < length (cache vm) \<Longrightarrow> matches vm s i \<Longrightarrow> j \<in> set (passed (cache vm) s i) \<Longrightarrow> cache vm ! j \<noteq> NULL"
  using assms unfolding cache_ok_def matches_def by (blast, blast, metis, metis)

lemma takeWhile_ne_append: "set (takeWhile (\<lambda>j. j \<noteq> i) (xs @ i # ys)) \<subseteq> set xs"
  by (induction xs) auto

lemma takeWhile_ne_within: "f \<in> set (takeWhile Q xs) \<Longrightarrow> set (takeWhile (\<lambda>j. j \<noteq> f) xs) \<subseteq> set (takeWhile Q xs)"
  by (induction xs) (auto split: if_splits)

lemma split_at: "i \<in> set h \<Longrightarrow> \<exists>ys. h = takeWhile (\<lambda>j. j \<noteq> i) h @ i # ys"
  by (induction h) auto

lemma scan_present:
  assumes "cache_ok vm" "i < length (cache vm)" "matches vm s i"
  shows "sym_scan vm s (sym_home (cache vm) s) None = (Some i, first_deleted (cache vm) (passed (cache vm) s i))"
proof -
  let ?Q = "\<lambda>j. cache vm ! j \<noteq> NULL \<and> \<not> matches vm s j" and ?h = "sym_home (cache vm) s" and ?p = "passed (cache vm) s i"
  note ok = cache_okD[OF assms(1)]
  have "i \<in> set ?h" using sym_home_set(1)[OF ok(1)] assms(2) by simp
  then obtain ys where h: "?h = ?p @ i # ys" using split_at[of i ?h] by (auto simp: passed_def)
  have "?Q j" if "j \<in> set ?p" for j
    using ok(4)[OF assms(2,3) that] passed_in[OF ok(1) that] ok(3)[OF assms(2) _ assms(3), of j] by blast
  moreover have "\<not> ?Q i" using assms(3) by simp
  ultimately have "takeWhile ?Q (?p @ i # ys) = ?p" by (subst takeWhile_append2) auto
  then have "takeWhile ?Q ?h = ?p" using h by argo
  moreover have "cache vm ! i \<noteq> NULL" using assms(3) by (auto simp: matches_def)
  ultimately show ?thesis unfolding sym_scan_eq Let_def using h by (simp add: orelse_def)
qed

text \<open>The slot to write a new symbol to.\<close>

definition free_place :: "symcache \<Rightarrow> bytes \<Rightarrow> nat \<Rightarrow> bool" where
  "free_place vm s f \<longleftrightarrow> f < length (cache vm) \<and> (cache vm ! f = NULL \<or> cache vm ! f = JANET_SYMCACHE_DELETED)
     \<and> (\<forall>j \<in> set (passed (cache vm) s f). cache vm ! j \<noteq> NULL)"

lemma scan_absent:
  assumes "pow2_size (length (cache vm))" "\<forall>j < length (cache vm). \<not> matches vm s j" "NULL \<in> set (cache vm)"
  shows "\<exists>f. sym_scan vm s (sym_home (cache vm) s) None = (None, Some f) \<and> free_place vm s f"
proof -
  let ?Q = "\<lambda>j. cache vm ! j \<noteq> NULL \<and> \<not> matches vm s j" and ?h = "sym_home (cache vm) s"
  let ?xs = "takeWhile ?Q ?h"
  note hs = sym_home_set(1)[OF assms(1), of s]
  obtain e where e: "e < length (cache vm)" "cache vm ! e = NULL" using assms(3) by (auto simp: in_set_conv_nth)
  have "e \<notin> set ?xs" using e by (auto dest: set_takeWhileD)
  then have "?xs \<noteq> ?h" using e hs by auto
  then have ne: "dropWhile ?Q ?h \<noteq> []" by (metis append_Nil2 takeWhile_dropWhile_id)
  then obtain i ys where d: "dropWhile ?Q ?h = i # ys" by (meson neq_Nil_conv)
  have h: "?h = ?xs @ i # ys" using d by (metis takeWhile_dropWhile_id)
  have il: "i < length (cache vm)" using h hs by (metis in_set_conv_decomp lessThan_iff)
  have i: "cache vm ! i = NULL" using hd_dropWhile[OF ne] d assms(2) il by auto
  have drop: "drop (length ?xs) ?h = i # ys" using h by (metis append_eq_conv_conj)
  have s: "sym_scan vm s ?h None = (None, orelse (first_deleted (cache vm) ?xs) (Some i))"
    unfolding sym_scan_eq Let_def using drop i by (simp add: orelse_def)
  show ?thesis
  proof (cases "first_deleted (cache vm) ?xs")
    case None
    have "set (passed (cache vm) s i) \<subseteq> set ?xs" unfolding passed_def by (subst h) (rule takeWhile_ne_append)
    then have "\<forall>j \<in> set (passed (cache vm) s i). cache vm ! j \<noteq> NULL" using set_takeWhileD[of _ ?Q ?h] by blast
    then have "free_place vm s i" using i il unfolding free_place_def by blast
    then show ?thesis using s None by (simp add: orelse_def)
  next
    case (Some f)
    then have f: "f \<in> set ?xs" "cache vm ! f = JANET_SYMCACHE_DELETED"
      by (auto simp: first_deleted_def find_Some_iff)
    have "set (passed (cache vm) s f) \<subseteq> set ?xs" unfolding passed_def by (rule takeWhile_ne_within[OF f(1)])
    moreover have "f < length (cache vm)" using f(1) hs by (auto dest: set_takeWhileD)
    moreover have "\<forall>j \<in> set ?xs. cache vm ! j \<noteq> NULL" using set_takeWhileD[of _ ?Q ?h] by blast
    ultimately have "free_place vm s f" using f unfolding free_place_def by blast
    then show ?thesis using s Some by (simp add: orelse_def)
  qed
qed

subsection \<open>Writing a slot\<close>

definition n_symbols :: "slot list \<Rightarrow> nat" where
  "n_symbols c = length (filter (\<lambda>x. \<exists>a. x = Symbol a) c)"

definition n_taken :: "slot list \<Rightarrow> nat" where
  "n_taken c = length (filter (\<lambda>x. x \<noteq> NULL) c)"

lemma filter_update:
  "i < length c \<Longrightarrow> length (filter P (c[i := x])) + (if P (c ! i) then 1 else 0) = length (filter P c) + (if P x then 1 else 0)"
proof (induction c arbitrary: i)
  case (Cons y c)
  then show ?case by (cases i) auto
qed simp

lemma null_left: "n_taken c < length c \<Longrightarrow> NULL \<in> set c"
  by (metis (mono_tags, lifting) filter_True less_irrefl n_taken_def)

text \<open>The invariant after a slot got a symbol, or after one was marked removed. What was NULL may
  change, but nothing becomes NULL.\<close>

lemma text_of_set_slot [simp]: "text_of (set_slot i x vm) a = text_of vm a" "text_of (vm\<lparr>cache := c\<rparr>) a = text_of vm a"
  "text_of (vm\<lparr>cache_count := n\<rparr>) a = text_of vm a" "text_of (vm\<lparr>cache_deleted := n\<rparr>) a = text_of vm a"
  "text_of (vm\<lparr>gensym_counter := g\<rparr>) a = text_of vm a"
  by (simp_all add: text_of_def set_slot_def)

lemma set_slot_simps [simp]: "cache (set_slot i x vm) = (cache vm)[i := x]" "blocks (set_slot i x vm) = blocks vm"
  "cache_count (set_slot i x vm) = cache_count vm" "cache_deleted (set_slot i x vm) = cache_deleted vm"
  "gensym_counter (set_slot i x vm) = gensym_counter vm"
  by (simp_all add: set_slot_def)

lemma cache_okI:
  assumes "pow2_size (length (cache vm))" "\<And>a. Symbol a \<in> set (cache vm) \<Longrightarrow> a < length (blocks vm)"
    "\<And>s i j. i < length (cache vm) \<Longrightarrow> j < length (cache vm) \<Longrightarrow> matches vm s i \<Longrightarrow> matches vm s j \<Longrightarrow> i = j"
    "\<And>s i j. i < length (cache vm) \<Longrightarrow> matches vm s i \<Longrightarrow> j \<in> set (passed (cache vm) s i) \<Longrightarrow> cache vm ! j \<noteq> NULL"
  shows "cache_ok vm"
  unfolding cache_ok_def using assms(1,2) assms(3,4)[unfolded matches_def] by blast

lemma store_symbol:
  assumes "cache_ok vm" "free_place vm (text_of vm a) f" "a < length (blocks vm)"
    "\<forall>j < length (cache vm). \<not> matches vm (text_of vm a) j"
  shows "cache_ok (set_slot f (Symbol a) vm)"
proof (rule cache_okI)
  let ?s = "text_of vm a" and ?vm2 = "set_slot f (Symbol a) vm"
  note ok = cache_okD[OF assms(1)]
  have f: "f < length (cache vm)" "\<forall>j \<in> set (passed (cache vm) ?s f). cache vm ! j \<noteq> NULL"
    using assms(2) by (simp_all add: free_place_def)
  have P: "passed (cache ?vm2) t i = passed (cache vm) t i" for t i by (rule passed_length) simp
  have M: "matches ?vm2 t i \<longleftrightarrow> (if i = f then t = ?s else matches vm t i)" if "i < length (cache vm)" for t i
    using that f(1) by (auto simp: matches_def nth_list_update)
  show "pow2_size (length (cache ?vm2))" using ok(1) by simp
  show "b < length (blocks ?vm2)" if "Symbol b \<in> set (cache ?vm2)" for b
    using that ok(2) assms(3) set_update_subset_insert[of "cache vm" f "Symbol a"] by auto
  show "i = j" if "i < length (cache ?vm2)" "j < length (cache ?vm2)" "matches ?vm2 t i" "matches ?vm2 t j" for t i j
    using that M[of i t] M[of j t] ok(3)[of i j t] assms(4) by (auto split: if_splits)
  show "cache ?vm2 ! j \<noteq> NULL" if "i < length (cache ?vm2)" "matches ?vm2 t i" "j \<in> set (passed (cache ?vm2) t i)" for t i j
  proof -
    have j: "j \<in> set (passed (cache vm) t i)" "j < length (cache vm)" using that(3) P passed_in[OF ok(1)] by auto
    have "j \<noteq> f \<Longrightarrow> cache vm ! j \<noteq> NULL"
      using that(1,2) M[of i t] j(1) f(2) ok(4)[of i t j] by (auto split: if_splits)
    then show ?thesis using f(1) by (auto simp: nth_list_update)
  qed
qed

lemma remove_symbol:
  assumes "cache_ok vm" "i < length (cache vm)"
  shows "cache_ok (set_slot i JANET_SYMCACHE_DELETED vm)"
proof (rule cache_okI)
  let ?vm2 = "set_slot i JANET_SYMCACHE_DELETED vm"
  note ok = cache_okD[OF assms(1)]
  have P: "passed (cache ?vm2) t k = passed (cache vm) t k" for t k by (rule passed_length) simp
  have M: "matches ?vm2 t k \<Longrightarrow> matches vm t k" if "k < length (cache vm)" for t k
    using that assms(2) by (auto simp: matches_def nth_list_update split: if_splits)
  show "pow2_size (length (cache ?vm2))" using ok(1) by simp
  show "b < length (blocks ?vm2)" if "Symbol b \<in> set (cache ?vm2)" for b
    using that ok(2) set_update_subset_insert[of "cache vm" i JANET_SYMCACHE_DELETED] by auto
  show "k = j" if "k < length (cache ?vm2)" "j < length (cache ?vm2)" "matches ?vm2 t k" "matches ?vm2 t j" for t k j
    using that M ok(3)[of k j t] by simp
  show "cache ?vm2 ! j \<noteq> NULL" if "k < length (cache ?vm2)" "matches ?vm2 t k" "j \<in> set (passed (cache ?vm2) t k)" for t k j
    using that M P ok(4)[of k t j] assms(2) by (auto simp: nth_list_update)
qed

text \<open>A symbol that is found moves to the first removed slot the search passed.\<close>

lemma move_symbol:
  assumes "cache_ok vm" "i < length (cache vm)" "cache vm ! i = Symbol a"
    "f \<in> set (passed (cache vm) (text_of vm a) i)" "cache vm ! f = JANET_SYMCACHE_DELETED"
  shows "cache_ok (vm\<lparr>cache := (cache vm)[f := Symbol a, i := JANET_SYMCACHE_DELETED]\<rparr>)"
proof -
  let ?s = "text_of vm a" and ?vm1 = "set_slot i JANET_SYMCACHE_DELETED vm"
  note ok = cache_okD[OF assms(1)]
  have f: "f < length (cache vm)" "f \<noteq> i" using passed_in[OF ok(1) assms(4)] by auto
  have ok1: "cache_ok ?vm1" by (rule remove_symbol[OF assms(1,2)])
  have m: "matches vm ?s i" using assms(3) by (auto simp: matches_def)
  have no: "\<not> matches ?vm1 ?s j" if j: "j < length (cache vm)" for j
  proof
    assume "matches ?vm1 ?s j"
    then have "j \<noteq> i \<and> matches vm ?s j" using j assms(2) by (auto simp: matches_def nth_list_update split: if_splits)
    then show False using ok(3)[OF assms(2) j m] by blast
  qed
  have "cache vm ! j \<noteq> NULL" if "j \<in> set (passed (cache vm) ?s f)" for j
    using ok(4)[OF assms(2) m passed_trans[OF assms(4) that]] .
  then have "free_place ?vm1 ?s f"
    using f assms(2,5) passed_length[of "cache ?vm1" "cache vm" ?s f] passed_in[OF ok(1)]
    by (auto simp: free_place_def nth_list_update)
  moreover have "a < length (blocks vm)" using ok(2) assms(2,3) by (metis nth_mem)
  ultimately have "cache_ok (set_slot f (Symbol a) ?vm1)" using store_symbol[of ?vm1 a f] ok1 no by simp
  moreover have "set_slot f (Symbol a) ?vm1 = vm\<lparr>cache := (cache vm)[f := Symbol a, i := JANET_SYMCACHE_DELETED]\<rparr>"
    using f(2) by (simp add: set_slot_def list_update_swap)
  ultimately show ?thesis by simp
qed

subsection \<open>The symbols as a map from their texts\<close>

definition symbols_of :: "slot list \<Rightarrow> nat list" where
  "symbols_of c = map the_symbol (filter (\<lambda>x. \<exists>a. x = Symbol a) c)"

definition interned :: "symcache \<Rightarrow> bytes \<rightharpoonup> nat" where
  "interned vm = map_of (map (\<lambda>a. (text_of vm a, a)) (symbols_of (cache vm)))"

lemma symbols_of_simps [simp]: "symbols_of [] = []" "symbols_of (Symbol a # c) = a # symbols_of c"
  "symbols_of (NULL # c) = symbols_of c" "symbols_of (JANET_SYMCACHE_DELETED # c) = symbols_of c"
  by (simp_all add: symbols_of_def the_symbol_def)

lemma set_symbols_of: "a \<in> set (symbols_of c) \<longleftrightarrow> Symbol a \<in> set c"
proof (induction c)
  case (Cons x c)
  then show ?case by (cases x) auto
qed simp

lemma length_symbols_of: "length (symbols_of c) = n_symbols c"
  by (simp add: symbols_of_def n_symbols_def)

lemma distinct_texts:
  assumes "\<And>i j a b. i < length c \<Longrightarrow> j < length c \<Longrightarrow> c ! i = Symbol a \<Longrightarrow> c ! j = Symbol b \<Longrightarrow> g a = g b \<Longrightarrow> i = j"
  shows "distinct (map g (symbols_of c))"
  using assms
proof (induction c)
  case (Cons x c)
  have "distinct (map g (symbols_of c))"
  proof (rule Cons.IH)
    show "i = j" if "i < length c" "j < length c" "c ! i = Symbol a" "c ! j = Symbol b" "g a = g b" for i j a b
      using Cons.prems[of "Suc i" "Suc j" a b] that by simp
  qed
  moreover have "g a \<notin> g ` set (symbols_of c)" if x: "x = Symbol a" for a
  proof
    assume "g a \<in> g ` set (symbols_of c)"
    then obtain b where "Symbol b \<in> set c" "g a = g b" by (auto simp: set_symbols_of)
    moreover then obtain j where "j < length c" "c ! j = Symbol b" by (auto simp: in_set_conv_nth)
    ultimately show False using Cons.prems[of 0 "Suc j" a b] x by simp
  qed
  ultimately show ?case by (cases x) auto
qed simp

lemma cache_ok_texts: "cache_ok vm \<Longrightarrow> distinct (map (text_of vm) (symbols_of (cache vm)))"
  using distinct_texts[of "cache vm" "text_of vm"] unfolding cache_ok_def by blast

lemma interned_iff:
  assumes "cache_ok vm"
  shows "interned vm s = Some a \<longleftrightarrow> Symbol a \<in> set (cache vm) \<and> text_of vm a = s"
proof -
  have "distinct (map fst (map (\<lambda>a. (text_of vm a, a)) (symbols_of (cache vm))))"
    using cache_ok_texts[OF assms] by (simp add: o_def)
  then show ?thesis unfolding interned_def by (subst map_of_eq_Some_iff) (auto simp: set_symbols_of)
qed

lemma interned_matches:
  assumes "cache_ok vm"
  shows "interned vm s \<noteq> None \<longleftrightarrow> (\<exists>i < length (cache vm). matches vm s i)"
proof
  assume "interned vm s \<noteq> None"
  then obtain a where "Symbol a \<in> set (cache vm)" "text_of vm a = s" using interned_iff[OF assms] by auto
  then show "\<exists>i < length (cache vm). matches vm s i" by (auto simp: in_set_conv_nth matches_def)
next
  assume "\<exists>i < length (cache vm). matches vm s i"
  then obtain i a where "i < length (cache vm)" "cache vm ! i = Symbol a" "text_of vm a = s" by (auto simp: matches_def)
  then show "interned vm s \<noteq> None" using interned_iff[OF assms, of s a] by (metis nth_mem option.distinct(1))
qed

text \<open>Two tables with the same symbols in them.\<close>

lemma interned_cong:
  assumes "cache_ok vm" "cache_ok vm2" "\<And>a. Symbol a \<in> set (cache vm2) \<longleftrightarrow> Symbol a \<in> set (cache vm)"
    "\<And>a. Symbol a \<in> set (cache vm) \<Longrightarrow> text_of vm2 a = text_of vm a"
  shows "interned vm2 = interned vm"
proof
  fix s
  have "interned vm2 s = Some a \<longleftrightarrow> interned vm s = Some a" for a
    using interned_iff[OF assms(1)] interned_iff[OF assms(2)] assms(3,4) by auto
  then show "interned vm2 s = interned vm s" by (metis option.exhaust)
qed

subsection \<open>The search as a whole\<close>

text \<open>The search may swap two slots.\<close>

definition rearranged :: "symcache \<Rightarrow> symcache \<Rightarrow> bool" where
  "rearranged vm vm2 \<longleftrightarrow> cache_ok vm2 \<and> mset (cache vm2) = mset (cache vm) \<and> vm2 = vm\<lparr>cache := cache vm2\<rparr>"

lemma rearrangedD:
  assumes "rearranged vm vm2"
  shows "cache_ok vm2" "length (cache vm2) = length (cache vm)" "n_symbols (cache vm2) = n_symbols (cache vm)"
    "n_taken (cache vm2) = n_taken (cache vm)" "set (cache vm2) = set (cache vm)" "text_of vm2 = text_of vm"
    "blocks vm2 = blocks vm" "cache_count vm2 = cache_count vm" "cache_deleted vm2 = cache_deleted vm"
    "gensym_counter vm2 = gensym_counter vm"
proof -
  have m: "mset (cache vm2) = mset (cache vm)" and v: "vm2 = vm\<lparr>cache := cache vm2\<rparr>" using assms by (auto simp: rearranged_def)
  show "cache_ok vm2" using assms by (simp add: rearranged_def)
  show "length (cache vm2) = length (cache vm)" "set (cache vm2) = set (cache vm)"
    using m by (metis size_mset, metis set_mset_mset)
  show "n_symbols (cache vm2) = n_symbols (cache vm)" "n_taken (cache vm2) = n_taken (cache vm)"
    using m unfolding n_symbols_def n_taken_def by (metis mset_filter size_mset)+
  show "text_of vm2 = text_of vm" "blocks vm2 = blocks vm" "cache_count vm2 = cache_count vm"
    "cache_deleted vm2 = cache_deleted vm" "gensym_counter vm2 = gensym_counter vm"
    by (subst v, simp add: text_of_def fun_eq_iff)+
qed

lemma rearranged_refl: "cache_ok vm \<Longrightarrow> rearranged vm vm"
  by (simp add: rearranged_def)

lemma rearranged_interned: "cache_ok vm \<Longrightarrow> rearranged vm vm2 \<Longrightarrow> interned vm2 = interned vm"
  using interned_cong[of vm vm2] rearrangedD[of vm vm2] by simp

lemma findmem_present:
  assumes "cache_ok vm" "interned vm s = Some a"
  shows "\<exists>vm2 b. janet_symcache_findmem vm s = Some (vm2, b, True) \<and> rearranged vm vm2
    \<and> b < length (cache vm2) \<and> cache vm2 ! b = Symbol a"
proof -
  have "Symbol a \<in> set (cache vm)" "text_of vm a = s" using assms interned_iff by auto
  then obtain i where i: "i < length (cache vm)" "cache vm ! i = Symbol a" "matches vm s i" "text_of vm a = s"
    by (auto simp: in_set_conv_nth matches_def)
  have s: "sym_scan vm s (sym_probe (length (cache vm)) (janet_string_calchash s)) None
      = (Some i, first_deleted (cache vm) (passed (cache vm) s i))"
    using scan_present[OF assms(1) i(1,3)] by (simp add: sym_home_def)
  show ?thesis
  proof (cases "first_deleted (cache vm) (passed (cache vm) s i)")
    case None
    then show ?thesis using s i rearranged_refl[OF assms(1)] by (auto simp: janet_symcache_findmem_def)
  next
    case (Some f)
    then have f: "f \<in> set (passed (cache vm) s i)" "cache vm ! f = JANET_SYMCACHE_DELETED"
      by (auto simp: first_deleted_def find_Some_iff)
    then have fl: "f < length (cache vm)" "f \<noteq> i" using passed_in[OF cache_okD(1)[OF assms(1)]] by auto
    let ?vm2 = "vm\<lparr>cache := (cache vm)[f := Symbol a, i := JANET_SYMCACHE_DELETED]\<rparr>"
    have "cache_ok ?vm2" using move_symbol[OF assms(1) i(1,2)] f i(4) by simp
    moreover have "mset (cache ?vm2) = mset (cache vm)"
      using mset_swap[OF fl(1) i(1)] f(2) i(2) by (simp add: list_update_swap fl(2))
    ultimately have "rearranged vm ?vm2" by (simp add: rearranged_def)
    moreover have "janet_symcache_findmem vm s = Some (?vm2, f, True)" using s Some i(2) by (simp add: janet_symcache_findmem_def)
    ultimately show ?thesis using fl by auto
  qed
qed

lemma findmem_absent:
  assumes "cache_ok vm" "interned vm s = None" "NULL \<in> set (cache vm)"
  shows "\<exists>f. janet_symcache_findmem vm s = Some (vm, f, False) \<and> free_place vm s f"
proof -
  have "\<forall>j < length (cache vm). \<not> matches vm s j" using interned_matches[OF assms(1), of s] assms(2) by blast
  from scan_absent[OF cache_okD(1)[OF assms(1)] this assms(3)] show ?thesis
    by (auto simp: janet_symcache_findmem_def sym_home_def)
qed

subsection \<open>The invariant of the state\<close>

definition symcache_ok :: "symcache \<Rightarrow> bool" where
  "symcache_ok vm \<longleftrightarrow> cache_ok vm \<and> 4 \<le> length (cache vm) \<and> cache_count vm = int (n_symbols (cache vm))
     \<and> int (n_taken (cache vm)) \<le> cache_count vm + cache_deleted vm
     \<and> 2 * (cache_count vm + cache_deleted vm) \<le> int (length (cache vm)) + 2"

lemma symcache_okD:
  assumes "symcache_ok vm"
  shows "cache_ok vm" "NULL \<in> set (cache vm)" "0 \<le> cache_count vm"
proof -
  show "cache_ok vm" "0 \<le> cache_count vm" using assms by (simp_all add: symcache_ok_def)
  have "int (n_taken (cache vm)) < int (length (cache vm))"
    using assms of_nat_mono[of 4 "length (cache vm)", where 'a=int] unfolding symcache_ok_def by (elim conjE) simp
  then have "n_taken (cache vm) < length (cache vm)" by simp
  then show "NULL \<in> set (cache vm)" by (rule null_left)
qed

lemma symcache_ok_rearranged: "symcache_ok vm \<Longrightarrow> rearranged vm vm2 \<Longrightarrow> symcache_ok vm2"
  using rearrangedD[of vm vm2] by (simp add: symcache_ok_def)

lemma sym_n_update:
  assumes "f < length c" "c ! f = NULL \<or> c ! f = JANET_SYMCACHE_DELETED"
  shows "n_symbols (c[f := Symbol a]) = Suc (n_symbols c)" "n_taken (c[f := Symbol a]) \<le> Suc (n_taken c)"
  using filter_update[OF assms(1), of "\<lambda>x. \<exists>a. x = Symbol a" "Symbol a"] filter_update[OF assms(1), of "\<lambda>x. x \<noteq> NULL" "Symbol a"]
    assms(2) by (auto simp: n_symbols_def n_taken_def split: if_splits)

lemma in_set_update: "f < length c \<Longrightarrow> \<not> (\<exists>a. c ! f = Symbol a) \<Longrightarrow> Symbol b \<in> set (c[f := Symbol a]) \<longleftrightarrow> b = a \<or> Symbol b \<in> set c"
  by (auto simp: in_set_conv_nth nth_list_update)

text \<open>Storing a symbol whose text is not there.\<close>

lemma sym_store_new:
  assumes "cache_ok vm" "interned vm (text_of vm a) = None" "free_place vm (text_of vm a) f" "a < length (blocks vm)"
  shows "cache_ok (set_slot f (Symbol a) vm)" "interned (set_slot f (Symbol a) vm) = (interned vm)(text_of vm a \<mapsto> a)"
    "n_symbols (cache (set_slot f (Symbol a) vm)) = Suc (n_symbols (cache vm))"
    "n_taken (cache (set_slot f (Symbol a) vm)) \<le> Suc (n_taken (cache vm))"
proof -
  let ?vm2 = "set_slot f (Symbol a) vm"
  have f: "f < length (cache vm)" "cache vm ! f = NULL \<or> cache vm ! f = JANET_SYMCACHE_DELETED"
    using assms(3) by (simp_all add: free_place_def)
  have no: "\<forall>j < length (cache vm). \<not> matches vm (text_of vm a) j" using interned_matches[OF assms(1)] assms(2) by blast
  show ok: "cache_ok ?vm2" by (rule store_symbol[OF assms(1,3,4) no])
  show "n_symbols (cache ?vm2) = Suc (n_symbols (cache vm))" "n_taken (cache ?vm2) \<le> Suc (n_taken (cache vm))"
    using sym_n_update[OF f] by simp_all
  have S: "Symbol b \<in> set (cache ?vm2) \<longleftrightarrow> b = a \<or> Symbol b \<in> set (cache vm)" for b
    using in_set_update[of f "cache vm" b a] f by auto
  have "interned ?vm2 s = Some b \<longleftrightarrow> ((interned vm)(text_of vm a \<mapsto> a)) s = Some b" for s b
    using interned_iff[OF ok, of s b] interned_iff[OF assms(1), of s b] S assms(2) interned_iff[OF assms(1), of "text_of vm a"]
    by auto
  then show "interned ?vm2 = (interned vm)(text_of vm a \<mapsto> a)" by (metis ext option.exhaust)
qed

text \<open>The new table gets the symbols of the old one.\<close>

lemma reinsert_symbols:
  assumes "cache_ok vm" "distinct (map (text_of vm) (symbols_of old))" "\<forall>a \<in> set (symbols_of old). a < length (blocks vm)"
    "\<forall>a \<in> set (symbols_of old). interned vm (text_of vm a) = None"
    "n_taken (cache vm) + n_symbols old < length (cache vm)"
  shows "\<exists>vm2. sym_reinsert old vm = Some vm2 \<and> cache_ok vm2 \<and> vm2 = vm\<lparr>cache := cache vm2\<rparr>
    \<and> length (cache vm2) = length (cache vm) \<and> (\<forall>a. Symbol a \<in> set (cache vm2) \<longleftrightarrow> Symbol a \<in> set (cache vm) \<or> Symbol a \<in> set old)
    \<and> n_symbols (cache vm2) = n_symbols (cache vm) + n_symbols old \<and> n_taken (cache vm2) \<le> n_taken (cache vm) + n_symbols old"
  using assms
proof (induction old arbitrary: vm)
  case Nil
  then show ?case by (simp add: n_symbols_def)
next
  case (Cons x old)
  show ?case
  proof (cases x)
    case (Symbol a)
    let ?s = "text_of vm a"
    have none: "interned vm ?s = None" and al: "a < length (blocks vm)" using Cons.prems(3,4) Symbol by auto
    have n: "n_symbols (x # old) = Suc (n_symbols old)" using Symbol by (simp add: n_symbols_def)
    then have "NULL \<in> set (cache vm)" using Cons.prems(5) by (intro null_left) simp
    then obtain f where f: "janet_symcache_findmem vm ?s = Some (vm, f, False)" "free_place vm ?s f"
      using findmem_absent[OF Cons.prems(1) none] by blast
    let ?vm1 = "set_slot f (Symbol a) vm"
    note st = sym_store_new[OF Cons.prems(1) none f(2) al]
    have fl: "f < length (cache vm)" "\<not> (\<exists>b. cache vm ! f = Symbol b)" using f(2) by (auto simp: free_place_def)
    have t: "text_of ?vm1 = text_of vm" by (rule ext) simp
    have "\<forall>b \<in> set (symbols_of old). interned ?vm1 (text_of ?vm1 b) = None"
    proof
      fix b assume b: "b \<in> set (symbols_of old)"
      then have "text_of vm b \<noteq> ?s" using Cons.prems(2) Symbol by (metis distinct.simps(2) image_eqI list.set_map list.simps(9) symbols_of_simps(2))
      then show "interned ?vm1 (text_of ?vm1 b) = None" using Cons.prems(4) Symbol st(2) b by (simp add: t)
    qed
    moreover have "n_taken (cache ?vm1) + n_symbols old < length (cache ?vm1)" using st(4) Cons.prems(5) n by simp
    moreover have "distinct (map (text_of ?vm1) (symbols_of old))" "\<forall>b \<in> set (symbols_of old). b < length (blocks ?vm1)"
      using Cons.prems(2,3) Symbol by (simp_all add: t)
    ultimately obtain vm2 where IH: "sym_reinsert old ?vm1 = Some vm2" "cache_ok vm2" "vm2 = ?vm1\<lparr>cache := cache vm2\<rparr>"
      "length (cache vm2) = length (cache ?vm1)"
      "\<forall>b. Symbol b \<in> set (cache vm2) \<longleftrightarrow> Symbol b \<in> set (cache ?vm1) \<or> Symbol b \<in> set old"
      "n_symbols (cache vm2) = n_symbols (cache ?vm1) + n_symbols old" "n_taken (cache vm2) \<le> n_taken (cache ?vm1) + n_symbols old"
      using Cons.IH[OF st(1)] by blast
    have "vm2 = vm\<lparr>cache := cache vm2\<rparr>" by (subst IH(3)) (simp add: set_slot_def)
    moreover have "sym_reinsert (x # old) vm = Some vm2" using f(1) IH(1) Symbol by simp
    moreover have "\<forall>b. Symbol b \<in> set (cache vm2) \<longleftrightarrow> Symbol b \<in> set (cache vm) \<or> Symbol b \<in> set (x # old)"
      using IH(5) in_set_update[OF fl] Symbol by auto
    ultimately show ?thesis using IH(2,4,6,7) st(3,4) n by (intro exI[of _ vm2]) auto
  next
    case NULL
    then show ?thesis using Cons by (simp add: n_symbols_def)
  next
    case JANET_SYMCACHE_DELETED
    then show ?thesis using Cons by (simp add: n_symbols_def)
  qed
qed

lemma empty_cache:
  assumes "pow2_size n"
  shows "cache_ok (vm\<lparr>cache := replicate n NULL\<rparr>)" "interned (vm\<lparr>cache := replicate n NULL\<rparr>) = Map.empty"
    "n_taken (replicate n NULL) = 0" "n_symbols (replicate n NULL) = 0"
proof -
  show "cache_ok (vm\<lparr>cache := replicate n NULL\<rparr>)" using assms by (simp add: cache_ok_def)
  have "symbols_of (replicate n NULL) = []" by (induction n) simp_all
  then show "interned (vm\<lparr>cache := replicate n NULL\<rparr>) = Map.empty" by (simp add: interned_def)
  show "n_taken (replicate n NULL) = 0" "n_symbols (replicate n NULL) = 0" by (simp_all add: n_taken_def n_symbols_def)
qed

lemma resize_ok:
  assumes "cache_ok vm" "pow2_size n" "n_symbols (cache vm) < n"
  shows "\<exists>vm2. janet_cache_resize vm n = Some vm2 \<and> cache_ok vm2 \<and> vm2 = vm\<lparr>cache := cache vm2, cache_deleted := 0\<rparr>
    \<and> length (cache vm2) = n \<and> interned vm2 = interned vm \<and> n_symbols (cache vm2) = n_symbols (cache vm)
    \<and> n_taken (cache vm2) \<le> n_symbols (cache vm)"
proof -
  let ?vm1 = "vm\<lparr>cache := replicate n NULL, cache_deleted := 0\<rparr>"
  have order: "?vm1 = vm\<lparr>cache_deleted := 0, cache := replicate n NULL\<rparr>" by simp
  have e: "cache_ok ?vm1" "interned ?vm1 = Map.empty" "n_taken (replicate n NULL) = 0" "n_symbols (replicate n NULL) = 0"
    using empty_cache(1,2)[OF assms(2), of "vm\<lparr>cache_deleted := 0\<rparr>"] empty_cache(3,4)[OF assms(2)] unfolding order by blast+
  have t: "text_of ?vm1 = text_of vm" by (rule ext) simp
  have "distinct (map (text_of ?vm1) (symbols_of (cache vm)))" unfolding t by (rule cache_ok_texts[OF assms(1)])
  moreover have "\<forall>a \<in> set (symbols_of (cache vm)). a < length (blocks ?vm1)"
    using cache_okD(2)[OF assms(1)] by (simp add: set_symbols_of)
  ultimately obtain vm2 where R: "sym_reinsert (cache vm) ?vm1 = Some vm2" "cache_ok vm2" "vm2 = ?vm1\<lparr>cache := cache vm2\<rparr>"
    "length (cache vm2) = n" "\<forall>a. Symbol a \<in> set (cache vm2) \<longleftrightarrow> Symbol a \<in> set (replicate n NULL) \<or> Symbol a \<in> set (cache vm)"
    "n_symbols (cache vm2) = n_symbols (cache vm)" "n_taken (cache vm2) \<le> n_symbols (cache vm)"
    using reinsert_symbols[OF e(1), of "cache vm"] e assms(3) by auto
  have v: "vm2 = vm\<lparr>cache := cache vm2, cache_deleted := 0\<rparr>" by (subst R(3)) simp
  moreover have "interned vm2 = interned vm"
  proof (rule interned_cong[OF assms(1) R(2)])
    show "Symbol a \<in> set (cache vm2) \<longleftrightarrow> Symbol a \<in> set (cache vm)" for a using R(5) by auto
    show "text_of vm2 a = text_of vm a" for a by (subst v) (simp add: text_of_def)
  qed
  ultimately show ?thesis using R by (auto simp: janet_cache_resize_def)
qed

end
