(* ===== verification/SymcacheProps.thy ===== *)
theory SymcacheProps
  imports SymcacheSpec
begin

text \<open>
  What the table of symbols promises: interning is the update of a map from texts to symbols, so equal
  texts are equal pointers; the table grows in time; removed symbols leave; new symbols are new.
\<close>

subsection \<open>The operations\<close>

definition roomy :: "symcache \<Rightarrow> bool" where
  "roomy vm \<longleftrightarrow> 0 < cache_count vm \<or> 2 * (cache_count vm + cache_deleted vm) \<le> int (length (cache vm))"

definition small :: "symcache \<Rightarrow> bool" where
  "small vm \<longleftrightarrow> 2 * cache_count vm + 1 < 2 ^ 30"

lemma counts_irrelevant [simp]:
  "cache_ok (vm\<lparr>cache_count := n\<rparr>) = cache_ok vm" "interned (vm\<lparr>cache_count := n\<rparr>) = interned vm"
  "cache_ok (vm\<lparr>cache_deleted := n\<rparr>) = cache_ok vm" "interned (vm\<lparr>cache_deleted := n\<rparr>) = interned vm"
  "cache_ok (vm\<lparr>gensym_counter := g\<rparr>) = cache_ok vm" "interned (vm\<lparr>gensym_counter := g\<rparr>) = interned vm"
  by (simp_all add: cache_ok_def interned_def)

lemma free_place_counts [simp]: "free_place (vm\<lparr>cache_count := n\<rparr>) s f = free_place vm s f"
  by (simp add: free_place_def)

text \<open>Storing a symbol once the table has room.\<close>

lemma store_counted:
  assumes "cache_ok vm" "interned vm (text_of vm a) = None" "free_place vm (text_of vm a) f" "a < length (blocks vm)"
    "4 \<le> length (cache vm)" "cache_count vm = int (n_symbols (cache vm))" "int (n_taken (cache vm)) \<le> cache_count vm + cache_deleted vm"
    "2 * (cache_count vm + cache_deleted vm) \<le> int (length (cache vm))"
  shows "symcache_ok (set_slot f (Symbol a) (vm\<lparr>cache_count := cache_count vm + 1\<rparr>))"
    "interned (set_slot f (Symbol a) (vm\<lparr>cache_count := cache_count vm + 1\<rparr>)) = (interned vm)(text_of vm a \<mapsto> a)"
proof -
  let ?vm1 = "vm\<lparr>cache_count := cache_count vm + 1\<rparr>"
  have "cache_ok ?vm1" "interned ?vm1 (text_of ?vm1 a) = None" "free_place ?vm1 (text_of ?vm1 a) f" "a < length (blocks ?vm1)"
    using assms(1-4) by simp_all
  note st = sym_store_new[OF this]
  show "interned (set_slot f (Symbol a) ?vm1) = (interned vm)(text_of vm a \<mapsto> a)" using st(2) by simp
  show "symcache_ok (set_slot f (Symbol a) ?vm1)" using st(1,3,4) assms(5-8) by (simp add: symcache_ok_def)
qed

lemma sym_put_ok:
  assumes "symcache_ok vm" "roomy vm" "small vm" "a < length (blocks vm)" "interned vm (text_of vm a) = None"
    "free_place vm (text_of vm a) f"
  shows "\<exists>vm2. janet_symcache_put vm a f = Inr (Some vm2) \<and> symcache_ok vm2 \<and> interned vm2 = (interned vm)(text_of vm a \<mapsto> a)
    \<and> blocks vm2 = blocks vm \<and> gensym_counter vm2 = gensym_counter vm \<and> cache_count vm2 = cache_count vm + 1"
proof (cases "(cache_count vm + cache_deleted vm) * 2 > int (length (cache vm))")
  case False
  have "janet_symcache_put vm a f = Inr (Some (set_slot f (Symbol a) (vm\<lparr>cache_count := cache_count vm + 1\<rparr>)))"
    using False by (simp add: janet_symcache_put_def ebind_def)
  moreover have "4 \<le> length (cache vm)" "cache_count vm = int (n_symbols (cache vm))"
    "int (n_taken (cache vm)) \<le> cache_count vm + cache_deleted vm" "2 * (cache_count vm + cache_deleted vm) \<le> int (length (cache vm))"
    using assms(1) False by (simp_all add: symcache_ok_def)
  note st = store_counted[OF symcache_okD(1)[OF assms(1)] assms(5,6,4) this]
  ultimately show ?thesis using st by (intro exI[of _ "set_slot f (Symbol a) (vm\<lparr>cache_count := cache_count vm + 1\<rparr>)"]) simp
next
  case True
  note ok = symcache_okD[OF assms(1)]
  have c: "cache_count vm = int (n_symbols (cache vm))" using assms(1) by (simp add: symcache_ok_def)
  have pos: "0 < cache_count vm" using assms(2) True by (auto simp: roomy_def)
  obtain m where m: "janet_tablen (2 * cache_count vm + 1) = Inr (2 ^ m)" "2 * cache_count vm + 1 < 2 ^ m" "m \<le> 30"
    using janet_tablen_pow2[of "2 * cache_count vm + 1"] pos assms(3) by (auto simp: small_def)
  have n: "pow2_size (2 ^ m)" using m(3) by (auto simp: pow2_size_def)
  have bound: "2 * n_symbols (cache vm) + 1 < 2 ^ m" using m(2) c by (metis (mono_tags) of_nat_less_iff of_nat_add of_nat_mult of_nat_numeral of_nat_1 of_nat_power)
  obtain vm2 where R: "janet_cache_resize vm (2 ^ m) = Some vm2" "cache_ok vm2" "vm2 = vm\<lparr>cache := cache vm2, cache_deleted := 0\<rparr>"
    "length (cache vm2) = 2 ^ m" "interned vm2 = interned vm" "n_symbols (cache vm2) = n_symbols (cache vm)"
    "n_taken (cache vm2) \<le> n_symbols (cache vm)"
    using resize_ok[OF ok(1) n] bound by auto
  have same: "text_of vm2 a = text_of vm a" "blocks vm2 = blocks vm" "cache_count vm2 = cache_count vm" "cache_deleted vm2 = 0"
    "gensym_counter vm2 = gensym_counter vm"
    by (subst R(3), simp add: text_of_def)+
  have "NULL \<in> set (cache vm2)" using R(4,7) bound by (intro null_left) simp
  then obtain b where b: "janet_symcache_findmem vm2 (text_of vm a) = Some (vm2, b, False)" "free_place vm2 (text_of vm a) b"
    using findmem_absent[OF R(2)] R(5) assms(5) by metis
  have "janet_symcache_put vm a f = Inr (Some (set_slot b (Symbol a) (vm2\<lparr>cache_count := cache_count vm2 + 1\<rparr>)))"
    using True m(1) R(1) b(1) by (simp add: janet_symcache_put_def ebind_def exits_if_none_def nat_power_eq same(1))
  moreover have "4 \<le> length (cache vm2)"
  proof -
    have "1 \<le> n_symbols (cache vm)" using pos c by simp
    then have "2 ^ 1 < (2 :: nat) ^ m" using bound by simp
    then have "1 < m" by (rule power_less_imp_less_exp[rotated]) simp
    then have "(2 :: nat) ^ 2 \<le> 2 ^ m" by (intro power_increasing) simp_all
    then show ?thesis using R(4) by simp
  qed
  moreover have "2 * cache_count vm2 \<le> int (length (cache vm2))" using m(2) R(4) same(3) by simp
  ultimately show ?thesis using store_counted[OF R(2), of a b] assms(4,5) b(2) c R same by simp
qed

lemma set_slot_count: "set_slot i x (vm\<lparr>cache_count := n, cache_deleted := d\<rparr>) = set_slot i x vm\<lparr>cache_count := n, cache_deleted := d\<rparr>"
  by (simp add: set_slot_def)

lemma deinit_ok:
  assumes "symcache_ok vm" "interned vm (text_of vm a) = Some a"
  shows "\<exists>vm2. janet_symbol_deinit vm a = Some vm2 \<and> symcache_ok vm2 \<and> interned vm2 = (interned vm)(text_of vm a := None)
    \<and> blocks vm2 = blocks vm \<and> cache_count vm2 = cache_count vm - 1 \<and> gensym_counter vm2 = gensym_counter vm"
proof -
  let ?s = "text_of vm a"
  note ok = symcache_okD[OF assms(1)]
  obtain vm1 b where f: "janet_symcache_findmem vm ?s = Some (vm1, b, True)" "rearranged vm vm1" "b < length (cache vm1)"
    "cache vm1 ! b = Symbol a" using findmem_present[OF ok(1) assms(2)] by blast
  note r = rearrangedD[OF f(2)]
  have ok1: "symcache_ok vm1" by (rule symcache_ok_rearranged[OF assms(1) f(2)])
  let ?vm2 = "set_slot b JANET_SYMCACHE_DELETED vm1"
  let ?vm3 = "set_slot b JANET_SYMCACHE_DELETED (vm1\<lparr>cache_count := cache_count vm1 - 1, cache_deleted := cache_deleted vm1 + 1\<rparr>)"
  have c2: "cache_ok ?vm2" by (rule remove_symbol[OF r(1) f(3)])
  have n: "Suc (n_symbols (cache ?vm2)) = n_symbols (cache vm1)" "n_taken (cache ?vm2) = n_taken (cache vm1)"
    using filter_update[OF f(3), of "\<lambda>x. \<exists>a. x = Symbol a" JANET_SYMCACHE_DELETED]
      filter_update[OF f(3), of "\<lambda>x. x \<noteq> NULL" JANET_SYMCACHE_DELETED] f(4) by (auto simp: n_symbols_def n_taken_def)
  have "symcache_ok ?vm3" using ok1 c2 n by (simp add: symcache_ok_def set_slot_count)
  moreover have "interned ?vm3 = (interned vm)(?s := None)"
  proof
    fix t
    have S: "Symbol d \<in> set (cache ?vm2) \<and> text_of vm1 d = t \<longleftrightarrow> Symbol d \<in> set (cache vm1) \<and> text_of vm1 d = t \<and> t \<noteq> ?s" for d
    proof -
      have "Symbol d \<in> set (cache ?vm2) \<longleftrightarrow> (\<exists>i < length (cache vm1). i \<noteq> b \<and> cache vm1 ! i = Symbol d)"
        using f(3) by (auto simp: in_set_conv_nth nth_list_update split: if_splits)
      moreover have "i = b" if "i < length (cache vm1)" "cache vm1 ! i = Symbol d" "text_of vm1 d = ?s" for i
        using cache_okD(3)[OF r(1) that(1) f(3), of ?s] that f(4) r(6) by (auto simp: matches_def)
      moreover have "\<exists>i < length (cache vm1). i \<noteq> b \<and> cache vm1 ! i = Symbol d"
        if "Symbol d \<in> set (cache vm1)" "text_of vm1 d \<noteq> ?s"
      proof -
        obtain i where i: "i < length (cache vm1)" "cache vm1 ! i = Symbol d"
          using \<open>Symbol d \<in> set (cache vm1)\<close> unfolding in_set_conv_nth by blast
        moreover have "i \<noteq> b" using i(2) f(4) that(2) r(6) by auto
        ultimately show ?thesis by blast
      qed
      ultimately show ?thesis by (auto simp: in_set_conv_nth)
    qed
    have "interned ?vm3 t = Some d \<longleftrightarrow> ((interned vm)(?s := None)) t = Some d" for d
      using interned_iff[OF c2, of t d] interned_iff[OF r(1), of t d] S[of d] rearranged_interned[OF ok(1) f(2)]
      by (auto simp: set_slot_count)
    then show "interned ?vm3 t = ((interned vm)(?s := None)) t" by (metis option.exhaust)
  qed
  ultimately show ?thesis using f(1) r(7,8,10) by (auto simp: janet_symbol_deinit_def)
qed

subsection \<open>Interning\<close>

lemma new_block_cache:
  assumes ok: "cache_ok vm"
  shows "cache_ok (vm\<lparr>blocks := blocks vm @ [cells]\<rparr>)" "interned (vm\<lparr>blocks := blocks vm @ [cells]\<rparr>) = interned vm"
    "text_of (vm\<lparr>blocks := blocks vm @ [cells]\<rparr>) (length (blocks vm)) = butlast cells"
    "free_place (vm\<lparr>blocks := blocks vm @ [cells]\<rparr>) s f = free_place vm s f"
proof -
  let ?vm2 = "vm\<lparr>blocks := blocks vm @ [cells]\<rparr>"
  have t: "text_of ?vm2 a = text_of vm a" if "a < length (blocks vm)" for a using that by (simp add: text_of_def nth_append)
  have a: "a < length (blocks vm)" if "Symbol a \<in> set (cache vm)" for a using cache_okD(2)[OF ok that] .
  have M: "matches ?vm2 s i = matches vm s i" if "i < length (cache vm)" for s i
  proof -
    have "b < length (blocks vm)" if "cache vm ! i = Symbol b" for b
      using a[of b] nth_mem[OF \<open>i < length (cache vm)\<close>] that by simp
    then show ?thesis using t by (auto simp: matches_def)
  qed
  show c: "cache_ok ?vm2"
  proof (rule cache_okI)
    show "b < length (blocks ?vm2)" if "Symbol b \<in> set (cache ?vm2)" for b using a[of b] that by simp
    show "i = j" if "i < length (cache ?vm2)" "j < length (cache ?vm2)" "matches ?vm2 s i" "matches ?vm2 s j" for s i j
      using that M cache_okD(3)[OF ok, of i j s] by simp
    show "cache ?vm2 ! j \<noteq> NULL" if "i < length (cache ?vm2)" "matches ?vm2 s i" "j \<in> set (passed (cache ?vm2) s i)" for s i j
      using that M cache_okD(4)[OF ok, of i s j] by simp
  qed (use cache_okD(1)[OF ok] in simp)
  show "interned ?vm2 = interned vm" by (rule interned_cong[OF ok c]) (use t a in auto)
  show "text_of ?vm2 (length (blocks vm)) = butlast cells" by (simp add: text_of_def)
  show "free_place ?vm2 s f = free_place vm s f" by (simp add: free_place_def)
qed

lemma new_block:
  assumes "symcache_ok vm"
  shows "symcache_ok (vm\<lparr>blocks := blocks vm @ [cells]\<rparr>)" "interned (vm\<lparr>blocks := blocks vm @ [cells]\<rparr>) = interned vm"
    "text_of (vm\<lparr>blocks := blocks vm @ [cells]\<rparr>) (length (blocks vm)) = butlast cells"
    "free_place (vm\<lparr>blocks := blocks vm @ [cells]\<rparr>) s f = free_place vm s f"
  using new_block_cache[OF symcache_okD(1)[OF assms], of cells] assms by (simp_all add: symcache_ok_def)

lemma store_block:
  assumes "symcache_ok vm" "roomy vm" "small vm" "interned vm (butlast cells) = None" "free_place vm (butlast cells) f"
  shows "\<exists>vm2. janet_symcache_put (vm\<lparr>blocks := blocks vm @ [cells]\<rparr>) (length (blocks vm)) f = Inr (Some vm2) \<and> symcache_ok vm2
    \<and> interned vm2 = (interned vm)(butlast cells \<mapsto> length (blocks vm)) \<and> blocks vm2 = blocks vm @ [cells]
    \<and> gensym_counter vm2 = gensym_counter vm \<and> cache_count vm2 = cache_count vm + 1"
  using sym_put_ok[of "vm\<lparr>blocks := blocks vm @ [cells]\<rparr>" "length (blocks vm)" f] new_block[OF assms(1), of cells] assms
  by (simp add: roomy_def small_def)

lemma symbol_present:
  assumes "symcache_ok vm" "interned vm s = Some a"
  shows "\<exists>vm2. janet_symbol vm s = Inr (Some (vm2, a)) \<and> rearranged vm vm2"
  using findmem_present[OF symcache_okD(1)[OF assms(1)] assms(2)]
  by (auto simp: janet_symbol_def ebind_def exits_if_none_def the_symbol_def)

lemma symbol_absent:
  assumes "symcache_ok vm" "roomy vm" "small vm" "interned vm s = None"
  shows "\<exists>vm2. janet_symbol vm s = Inr (Some (vm2, length (blocks vm))) \<and> symcache_ok vm2
    \<and> interned vm2 = (interned vm)(s \<mapsto> length (blocks vm)) \<and> blocks vm2 = blocks vm @ [s @ [0]] \<and> cache_count vm2 = cache_count vm + 1"
proof -
  obtain f where f: "janet_symcache_findmem vm s = Some (vm, f, False)" "free_place vm s f"
    using findmem_absent[OF symcache_okD(1)[OF assms(1)] assms(4) symcache_okD(2)[OF assms(1)]] by blast
  then show ?thesis using store_block[OF assms(1-3), of "s @ [0]" f] assms(4)
    by (auto simp: janet_symbol_def ebind_def exits_if_none_def new_symbol_def Let_def)
qed

text \<open>C31. Interning a text updates a map from texts to symbols: the symbol is the one there is for the
  text, or a new block with the text and a NUL, and all others stay. Two interned symbols are the same
  pointer exactly when their texts are the same, so comparing pointers is comparing texts. Removing a
  symbol takes its text out of the map. The table stays well formed, grown when it is half full.\<close>

theorem symbol_interning:
  assumes "symcache_ok vm" and "roomy vm" and "small vm"
  shows "(\<exists>vm2 a. janet_symbol vm s = Inr (Some (vm2, a)) \<and> symcache_ok vm2 \<and> interned vm2 = (interned vm)(s \<mapsto> a)
      \<and> (case interned vm s of Some b \<Rightarrow> a = b \<and> blocks vm2 = blocks vm
         | None \<Rightarrow> a = length (blocks vm) \<and> blocks vm2 = blocks vm @ [s @ [0]])
      \<and> (\<forall>t b. interned vm2 t = Some b \<longrightarrow> (b = a) = (t = s)))
    \<and> (interned vm s = Some b \<longrightarrow> (\<exists>vm2. janet_symbol_deinit vm b = Some vm2 \<and> symcache_ok vm2
         \<and> interned vm2 = (interned vm)(s := None)))"
proof -
  have same: "(b = a) = (t = s)" if "symcache_ok v" "interned v s = Some a" "interned v t = Some b" for v a b t
    using that interned_iff[OF symcache_okD(1)[OF that(1)]] by (metis option.inject)
  have out: "\<exists>vm2. janet_symbol_deinit vm b = Some vm2 \<and> symcache_ok vm2 \<and> interned vm2 = (interned vm)(s := None)"
    if "interned vm s = Some b"
    using deinit_ok[OF assms(1), of b] that interned_iff[OF symcache_okD(1)[OF assms(1)], of s b] by auto
  show ?thesis
  proof (cases "interned vm s")
    case None
    obtain vm2 where v: "janet_symbol vm s = Inr (Some (vm2, length (blocks vm)))" "symcache_ok vm2"
      "interned vm2 = (interned vm)(s \<mapsto> length (blocks vm))" "blocks vm2 = blocks vm @ [s @ [0]]"
      using symbol_absent[OF assms None] by blast
    have "\<forall>t b. interned vm2 t = Some b \<longrightarrow> (b = length (blocks vm)) = (t = s)" using same[OF v(2), of "length (blocks vm)"] v(3) by simp
    then show ?thesis using v None by auto
  next
    case (Some a)
    obtain vm2 where v: "janet_symbol vm s = Inr (Some (vm2, a))" "rearranged vm vm2" using symbol_present[OF assms(1) Some] by blast
    have ok2: "symcache_ok vm2" by (rule symcache_ok_rearranged[OF assms(1) v(2)])
    have i2: "interned vm2 = interned vm" by (rule rearranged_interned[OF symcache_okD(1)[OF assms(1)] v(2)])
    then have "interned vm2 = (interned vm)(s \<mapsto> a)" using Some by (simp add: fun_upd_idem)
    moreover have "\<forall>t b. interned vm2 t = Some b \<longrightarrow> (b = a) = (t = s)" using same[OF ok2, of a] i2 Some by simp
    ultimately show ?thesis using v(1) ok2 rearrangedD(7)[OF v(2)] Some out by auto
  qed
qed

lemma init_symcache:
  "symcache_ok janet_symcache_init" "interned janet_symcache_init = Map.empty" "roomy janet_symcache_init" "small janet_symcache_init"
proof -
  have p: "pow2_size 1024" unfolding pow2_size_def by (rule exI[of _ 10]) simp
  have e: "janet_symcache_init\<lparr>cache := replicate 1024 NULL\<rparr> = janet_symcache_init" by (simp add: janet_symcache_init_def)
  note z = empty_cache(1,2)[OF p, of janet_symcache_init, unfolded e] empty_cache(3,4)[OF p]
  show "interned janet_symcache_init = Map.empty" by (rule z(2))
  show "symcache_ok janet_symcache_init" using z(1,3,4) by (simp add: symcache_ok_def) (simp add: janet_symcache_init_def)
  show "roomy janet_symcache_init" "small janet_symcache_init" by (simp_all add: roomy_def small_def janet_symcache_init_def)
qed

theorem symbol_interning_witness:
  "\<exists>vm2. janet_symbol janet_symcache_init [97, 98] = Inr (Some (vm2, 0)) \<and> interned vm2 [97, 98] = Some 0 \<and> interned vm2 [99] = None"
proof -
  obtain vm2 where "janet_symbol janet_symcache_init [97, 98] = Inr (Some (vm2, length (blocks janet_symcache_init)))"
    "interned vm2 = (interned janet_symcache_init)([97, 98] \<mapsto> length (blocks janet_symcache_init))"
    using symbol_interning[OF init_symcache(1,3,4), of "[97, 98]"] init_symcache(2) by auto
  moreover have "length (blocks janet_symcache_init) = 0" by (simp add: janet_symcache_init_def)
  ultimately show ?thesis using init_symcache(2) by auto
qed

subsection \<open>A table of two slots\<close>

lemma findmem_full:
  assumes "cache_ok vm" "interned vm s = None" "NULL \<notin> set (cache vm)" "JANET_SYMCACHE_DELETED \<notin> set (cache vm)"
  shows "janet_symcache_findmem vm s = None"
proof -
  let ?h = "sym_home (cache vm) s"
  note hs = sym_home_set(1)[OF cache_okD(1)[OF assms(1)], of s]
  have "\<not> matches vm s j" if "j < length (cache vm)" for j using interned_matches[OF assms(1), of s] assms(2) that by blast
  then have "takeWhile (\<lambda>j. cache vm ! j \<noteq> NULL \<and> \<not> matches vm s j) ?h = ?h"
    using hs assms(3) by (subst takeWhile_eq_all_conv) (metis lessThan_iff nth_mem)
  moreover have "first_deleted (cache vm) ?h = None"
    using hs assms(4) unfolding first_deleted_def find_None_iff by (metis lessThan_iff nth_mem)
  ultimately have "sym_scan vm s ?h None = (None, None)" unfolding sym_scan_eq Let_def by (simp only:) (simp add: orelse_def)
  then show ?thesis by (simp add: janet_symcache_findmem_def sym_home_def)
qed

lemma other_slots:
  assumes "set c \<subseteq> {NULL} \<union> range Symbol" "f < length c"
  shows "set (c[f := Symbol a]) \<subseteq> {NULL} \<union> range Symbol"
  using assms set_update_subset_insert[of c f "Symbol a"] by auto

lemma all_symbols:
  assumes "set c \<subseteq> {NULL} \<union> range Symbol" "n_symbols c = length c"
  shows "NULL \<notin> set c" "JANET_SYMCACHE_DELETED \<notin> set c"
proof -
  show "JANET_SYMCACHE_DELETED \<notin> set c" using assms(1) by auto
  show "NULL \<notin> set c"
  proof
    assume "NULL \<in> set c"
    then have "n_symbols c < length c" unfolding n_symbols_def by (intro length_filter_less[of NULL]) auto
    then show False using assms(2) by simp
  qed
qed

text \<open>Interning a new text when there is room, in a table without removed symbols.\<close>

lemma symbol_no_resize:
  assumes "cache_ok vm" "interned vm s = None" "NULL \<in> set (cache vm)" "2 * (cache_count vm + cache_deleted vm) \<le> int (length (cache vm))"
    "set (cache vm) \<subseteq> {NULL} \<union> range Symbol"
  shows "\<exists>vm2. janet_symbol vm s = Inr (Some (vm2, length (blocks vm))) \<and> cache_ok vm2
    \<and> interned vm2 = (interned vm)(s \<mapsto> length (blocks vm)) \<and> n_symbols (cache vm2) = Suc (n_symbols (cache vm))
    \<and> length (cache vm2) = length (cache vm) \<and> set (cache vm2) \<subseteq> {NULL} \<union> range Symbol
    \<and> cache_count vm2 = cache_count vm + 1 \<and> cache_deleted vm2 = cache_deleted vm"
proof -
  let ?a = "length (blocks vm)" let ?vm1 = "vm\<lparr>blocks := blocks vm @ [s @ [0]]\<rparr>" let ?vm2 = "?vm1\<lparr>cache_count := cache_count vm + 1\<rparr>"
  obtain f where f: "janet_symcache_findmem vm s = Some (vm, f, False)" "free_place vm s f"
    using findmem_absent[OF assms(1,2,3)] by blast
  note b = new_block_cache[OF assms(1), of "s @ [0]"]
  have "cache_ok ?vm2" "interned ?vm2 (text_of ?vm2 ?a) = None" "free_place ?vm2 (text_of ?vm2 ?a) f" "?a < length (blocks ?vm2)"
    using b assms(2) f(2) by simp_all
  note st = sym_store_new[OF this]
  have "janet_symbol vm s = Inr (Some (set_slot f (Symbol ?a) ?vm2, ?a))"
    using f(1) assms(4) by (simp add: janet_symbol_def janet_symcache_put_def ebind_def exits_if_none_def new_symbol_def Let_def)
  moreover have "interned (set_slot f (Symbol ?a) ?vm2) = (interned vm)(s \<mapsto> ?a)" using st(2) b by simp
  ultimately show ?thesis using st(1,3) other_slots[OF assms(5), of f ?a] f(2)
    by (intro exI[of _ "set_slot f (Symbol ?a) ?vm2"]) (simp add: free_place_def)
qed

text \<open>The table can become full. When all symbols have been removed and it then shrinks to make room for
  a new one, it gets two slots, and is not grown before both are taken: the third symbol finds no place and
  the process exits.\<close>

theorem symcache_two_slots:
  assumes "symcache_ok vm" and "cache_count vm = 0" and "2 * cache_deleted vm > int (length (cache vm))"
    and "distinct [s1, s2, s3]"
  shows "\<exists>vm1 a1 vm2 a2. janet_symbol vm s1 = Inr (Some (vm1, a1)) \<and> janet_symbol vm1 s2 = Inr (Some (vm2, a2))
    \<and> length (cache vm2) = 2 \<and> janet_symbol vm2 s3 = Inr None"
proof -
  note ok = symcache_okD[OF assms(1)]
  have z: "n_symbols (cache vm) = 0" using assms(1,2) by (simp add: symcache_ok_def)
  then have no: "interned vm s = None" for s
  proof -
    have "symbols_of (cache vm) = []" using z length_symbols_of[of "cache vm"] by simp
    then show ?thesis by (simp add: interned_def)
  qed
  let ?a = "length (blocks vm)" let ?vmb = "vm\<lparr>blocks := blocks vm @ [s1 @ [0]]\<rparr>"
  note b = new_block_cache[OF ok(1), of "s1 @ [0]"]
  obtain f where f: "janet_symcache_findmem vm s1 = Some (vm, f, False)" "free_place vm s1 f"
    using findmem_absent[OF ok(1) no ok(2)] by blast
  have p2: "pow2_size 2" unfolding pow2_size_def by (rule exI[of _ 1]) simp
  obtain vmr where R: "janet_cache_resize ?vmb 2 = Some vmr" "cache_ok vmr" "vmr = ?vmb\<lparr>cache := cache vmr, cache_deleted := 0\<rparr>"
    "length (cache vmr) = 2" "interned vmr = interned ?vmb" "n_symbols (cache vmr) = 0" "n_taken (cache vmr) = 0"
    using resize_ok[OF b(1) p2] z by auto
  have nulls: "set (cache vmr) \<subseteq> {NULL} \<union> range Symbol" "NULL \<in> set (cache vmr)"
  proof -
    have "filter (\<lambda>x. x \<noteq> NULL) (cache vmr) = []" using R(7) by (simp add: n_taken_def)
    then show "set (cache vmr) \<subseteq> {NULL} \<union> range Symbol" by (auto simp: filter_empty_conv)
    show "NULL \<in> set (cache vmr)" by (rule null_left) (use R(4,7) in simp)
  qed
  have same: "text_of vmr ?a = s1" "blocks vmr = blocks vm @ [s1 @ [0]]" "cache_count vmr = 0" "cache_deleted vmr = 0"
    by (subst R(3), simp add: text_of_def assms(2))+
  obtain g where g: "janet_symcache_findmem vmr s1 = Some (vmr, g, False)" "free_place vmr s1 g"
    using findmem_absent[OF R(2) _ nulls(2), of s1] R(5) b(2) no by metis
  let ?vm1 = "set_slot g (Symbol ?a) (vmr\<lparr>cache_count := 1\<rparr>)"
  have t: "janet_tablen 1 = Inr 2" by code_simp
  have s1: "janet_symbol vm s1 = Inr (Some (?vm1, ?a))"
    using f(1) assms(2,3) t R(1) g(1) same b(3)
    by (simp add: janet_symbol_def janet_symcache_put_def ebind_def exits_if_none_def new_symbol_def Let_def)
  have "cache_ok (vmr\<lparr>cache_count := 1\<rparr>)" "interned (vmr\<lparr>cache_count := 1\<rparr>) (text_of (vmr\<lparr>cache_count := 1\<rparr>) ?a) = None"
    "free_place (vmr\<lparr>cache_count := 1\<rparr>) (text_of (vmr\<lparr>cache_count := 1\<rparr>) ?a) g" "?a < length (blocks (vmr\<lparr>cache_count := 1\<rparr>))"
    using R(2,5) b(2) no same g(2) by simp_all
  note st = sym_store_new[OF this]
  have gl: "g < length (cache vmr)" using g(2) by (simp add: free_place_def)
  have i1: "interned ?vm1 = [s1 \<mapsto> ?a]" using st(2) R(5) b(2) no same by (auto simp: fun_eq_iff)
  have n1: "n_symbols (cache ?vm1) = 1" "n_taken (cache ?vm1) \<le> 1" "length (cache ?vm1) = 2"
    using st(3,4) R(4,6,7) by simp_all
  have r1: "set (cache ?vm1) \<subseteq> {NULL} \<union> range Symbol" using other_slots[OF nulls(1) gl, of ?a] by simp
  have "NULL \<in> set (cache ?vm1)" by (rule null_left) (use n1 in simp)
  then obtain vm2 where s2: "janet_symbol ?vm1 s2 = Inr (Some (vm2, length (blocks ?vm1)))" "cache_ok vm2"
    "interned vm2 = (interned ?vm1)(s2 \<mapsto> length (blocks ?vm1))" "n_symbols (cache vm2) = 2" "length (cache vm2) = 2"
    "set (cache vm2) \<subseteq> {NULL} \<union> range Symbol"
    using symbol_no_resize[OF st(1), of s2] i1 n1 r1 same assms(4) by auto
  have "interned vm2 s3 = None" using s2(3) i1 assms(4) by auto
  then have "janet_symcache_findmem vm2 s3 = None" using findmem_full[OF s2(2)] all_symbols[OF s2(6)] s2(4,5) by simp
  then have "janet_symbol vm2 s3 = Inr None" by (simp add: janet_symbol_def ebind_def exits_if_none_def)
  then show ?thesis using s1 s2(1,5) by blast
qed

theorem symcache_two_slots_witness:
  "\<exists>vm vm1 a1 vm2 a2. symcache_ok vm \<and> janet_symbol vm [97] = Inr (Some (vm1, a1)) \<and> janet_symbol vm1 [98] = Inr (Some (vm2, a2))
    \<and> janet_symbol vm2 [99] = Inr None"
proof -
  let ?vm = "\<lparr>cache = [NULL, JANET_SYMCACHE_DELETED, JANET_SYMCACHE_DELETED, JANET_SYMCACHE_DELETED], cache_count = 0,
    cache_deleted = 3, gensym_counter = [], blocks = []\<rparr>"
  have "pow2_size 4" unfolding pow2_size_def by (rule exI[of _ 2]) simp
  then have "symcache_ok ?vm" by (simp add: symcache_ok_def cache_ok_def n_symbols_def n_taken_def nth_Cons' eval_nat_numeral)
  then show ?thesis using symcache_two_slots[of ?vm "[97]" "[98]" "[99]"] by auto
qed

subsection \<open>New symbols\<close>

text \<open>The sixty-two digits in the order the counter goes through them.\<close>

definition gensym_digit :: "nat \<Rightarrow> byte" where
  "gensym_digit d = of_nat (if d < 10 then 48 + d else if d < 36 then 87 + d else 29 + d)"

fun gensym_places :: "nat \<Rightarrow> nat \<Rightarrow> bytes" where
  "gensym_places 0 n = []"
| "gensym_places (Suc k) n = gensym_places k (n div 62) @ [gensym_digit (n mod 62)]"

definition counter_at :: "nat \<Rightarrow> bytes" where
  "counter_at n = c8 CHR ''_'' # gensym_places 6 n @ [c8 CHR ''0'']"

lemma length_gensym_places [simp]: "length (gensym_places k n) = k"
  by (induction k arbitrary: n) simp_all

lemma unat_gensym_digit: "d < 62 \<Longrightarrow> unat (gensym_digit d) = (if d < 10 then 48 + d else if d < 36 then 87 + d else 29 + d)"
  by (simp add: gensym_digit_def unat_of_nat)

lemma gensym_digit_inj: "d < 62 \<Longrightarrow> e < 62 \<Longrightarrow> gensym_digit d = gensym_digit e \<Longrightarrow> d = e"
proof -
  assume d: "d < 62" "e < 62" and g: "gensym_digit d = gensym_digit e"
  have "unat (gensym_digit d) = unat (gensym_digit e)" unfolding g by (rule refl)
  then have "(if d < 10 then 48 + d else if d < 36 then 87 + d else 29 + d) = (if e < 10 then 48 + e else if e < 36 then 87 + e else 29 + e)"
    unfolding unat_gensym_digit[OF d(1)] unat_gensym_digit[OF d(2)] .
  then show "d = e" using d by (simp split: if_splits)
qed

lemma gensym_digit_nonzero: "d < 62 \<Longrightarrow> gensym_digit d \<noteq> 0"
  using unat_gensym_digit[of d] by (auto split: if_splits)

lemma gensym_digit_is: "d < 62 \<Longrightarrow> e < 62 \<Longrightarrow> gensym_digit d = gensym_digit e \<longleftrightarrow> d = e"
  using gensym_digit_inj by blast

lemma gensym_digit_chars: "gensym_digit 9 = c8 CHR ''9''" "gensym_digit 35 = c8 CHR ''z''" "gensym_digit 61 = c8 CHR ''Z''"
  "gensym_digit 0 = c8 CHR ''0''" "gensym_digit 10 = c8 CHR ''a''" "gensym_digit 36 = c8 CHR ''A''"
  by (simp_all add: gensym_digit_def)

text \<open>One step of the counter at a place that does not wrap.\<close>

definition next_digit :: "byte \<Rightarrow> byte" where
  "next_digit c = (if c = c8 CHR ''9'' then c8 CHR ''a'' else if c = c8 CHR ''z'' then c8 CHR ''A'' else c + 1)"

lemma gensym_digit_step:
  assumes "d < 61"
  shows "gensym_digit d \<noteq> c8 CHR ''Z''" "next_digit (gensym_digit d) = gensym_digit (Suc d)"
proof -
  have d: "d < 62" using assms by simp
  show "gensym_digit d \<noteq> c8 CHR ''Z''" using gensym_digit_is[of d 61] gensym_digit_chars(3) assms by auto
  show "next_digit (gensym_digit d) = gensym_digit (Suc d)"
    unfolding next_digit_def gensym_digit_chars[symmetric] using gensym_digit_is[OF d, of 9] gensym_digit_is[OF d, of 35]
    by (auto simp: gensym_digit_def)
qed

lemma Suc_div_mod62: "n mod 62 = 61 \<Longrightarrow> Suc n div 62 = Suc (n div 62) \<and> Suc n mod 62 = 0"
    "n mod 62 \<noteq> 61 \<Longrightarrow> Suc n div 62 = n div 62 \<and> Suc n mod 62 = Suc (n mod 62)"
  by (auto simp: mod_Suc div_Suc)

text \<open>The counter counts.\<close>

lemma inc_from_places:
  "inc_from k (c # gensym_places k n @ rest) = c # gensym_places k (Suc n) @ rest"
proof (induction k arbitrary: n rest)
  case (Suc k)
  let ?ps = "c # gensym_places (Suc k) n @ rest"
  have p: "?ps ! Suc k = gensym_digit (n mod 62)" by (simp add: nth_append)
  have u: "?ps[Suc k := x] = c # gensym_places k (n div 62) @ x # rest" for x
    by (simp add: list_update_append)
  show ?case
  proof (cases "n mod 62 = 61")
    case True
    have Z: "?ps ! Suc k = c8 CHR ''Z''" using p True gensym_digit_chars by simp
    have "inc_from (Suc k) ?ps = inc_from k (?ps[Suc k := c8 CHR ''0''])" using Z by (subst inc_from.simps) (simp add: Let_def)
    then show ?thesis unfolding u using Suc[of "n div 62" "c8 CHR ''0'' # rest"] Suc_div_mod62(1)[OF True] gensym_digit_chars by simp
  next
    case False
    then have d: "n mod 62 < 61" using mod_less_divisor[of 62 n] by linarith
    have s: "inc_from (Suc k) ps = ps[Suc k := next_digit (ps ! Suc k)]" if "ps ! Suc k \<noteq> c8 CHR ''Z''" for ps
      using that by (simp add: Let_def next_digit_def)
    have "inc_from (Suc k) ?ps = ?ps[Suc k := gensym_digit (Suc (n mod 62))]"
      using s[of ?ps] p gensym_digit_step[OF d] by argo
    then show ?thesis unfolding u using Suc_div_mod62(2)[OF False] by simp
  qed
qed simp

lemma inc_counter: "gensym_counter vm = counter_at n \<Longrightarrow> inc_gensym vm = vm\<lparr>gensym_counter := counter_at (Suc n)\<rparr>"
  using inc_from_places[of 6 "c8 CHR ''_''" n "[c8 CHR ''0'']"] by (simp add: inc_gensym_def counter_at_def)

lemma gensym_places_inj: "gensym_places k n = gensym_places k m \<Longrightarrow> n mod 62 ^ k = m mod 62 ^ k"
proof (induction k arbitrary: n m)
  case (Suc k)
  then have p: "gensym_places k (n div 62) = gensym_places k (m div 62) \<and> gensym_digit (n mod 62) = gensym_digit (m mod 62)"
    unfolding gensym_places.simps append1_eq_conv by blast
  then have e: "n div 62 mod 62 ^ k = m div 62 mod 62 ^ k" "gensym_digit (n mod 62) = gensym_digit (m mod 62)"
    using Suc.IH[of "n div 62" "m div 62"] by blast+
  have "n mod 62 = m mod 62" by (rule gensym_digit_inj[OF _ _ e(2)]) (rule mod_less_divisor, simp)+
  then show ?case using e(1) unfolding power_Suc mod_mult2_eq by argo
qed simp

text \<open>The texts the generator tries, and that one of them is free.\<close>

definition gensym_text :: "nat \<Rightarrow> bytes" where
  "gensym_text n = butlast (counter_at n)"

lemma gensym_text_eq: "gensym_text n = c8 CHR ''_'' # gensym_places 6 n"
  by (simp add: gensym_text_def counter_at_def butlast_append)

lemma gensym_text_inj: "gensym_text n = gensym_text m \<Longrightarrow> n mod 62 ^ 6 = m mod 62 ^ 6"
  unfolding gensym_text_eq using gensym_places_inj by blast

lemma gensym_places_nonzero: "0 \<notin> set (gensym_places k n)"
proof (induction k arbitrary: n)
  case (Suc k)
  have "n mod 62 < 62" by simp
  then show ?case using Suc gensym_digit_nonzero[of "n mod 62"] by auto
qed simp

lemma counter_nonzero: "0 \<notin> set (counter_at n)"
  using gensym_places_nonzero[of 6 n] by (simp add: counter_at_def)

lemma shift_mod_inj: "(n + i) mod M = (n + j) mod M \<Longrightarrow> i < M \<Longrightarrow> j < M \<Longrightarrow> i = (j :: nat)"
proof -
  have step: "i = j" if "(n + i) mod M = (n + j) mod M" "i \<le> j" "j < M" for i j
  proof -
    have "M dvd j - i" using that mod_eq_dvd_iff_nat[of "n + i" "n + j" M] by simp
    then show "i = j" using that dvd_imp_le[of M "j - i"] by (cases "i < j") auto
  qed
  assume "(n + i) mod M = (n + j) mod M" "i < M" "j < M"
  then show "i = j" using step[of i j] step[of j i] by (metis nat_le_linear)
qed

lemma free_gensym:
  assumes "symcache_ok vm" "small vm"
  shows "\<exists>k. interned vm (gensym_text (n + k)) = None"
proof (rule ccontr)
  assume c: "\<nexists>k. interned vm (gensym_text (n + k)) = None"
  note ok = symcache_okD(1)[OF assms(1)]
  let ?M = "62 ^ 6 :: nat" let ?g = "\<lambda>k. the (interned vm (gensym_text (n + k)))"
  have g: "interned vm (gensym_text (n + k)) = Some (?g k)" for k using c by (metis option.exhaust_sel)
  have inj: "inj_on ?g {..<?M}"
  proof (rule inj_onI)
    fix i j assume i: "i \<in> {..<?M}" "j \<in> {..<?M}" "?g i = ?g j"
    have "gensym_text (n + i) = gensym_text (n + j)"
      using g[of i] g[of j] i(3) interned_iff[OF ok] by metis
    then have "(n + i) mod ?M = (n + j) mod ?M" by (rule gensym_text_inj)
    then show "i = j" using i(1,2) shift_mod_inj[of n i ?M j] by blast
  qed
  have "?g ` {..<?M} \<subseteq> set (symbols_of (cache vm))"
    using g interned_iff[OF ok] by (auto simp: set_symbols_of)
  then have "card (?g ` {..<?M}) \<le> card (set (symbols_of (cache vm)))" by (intro card_mono) simp_all
  also have "\<dots> \<le> n_symbols (cache vm)" using card_length[of "symbols_of (cache vm)"] length_symbols_of by metis
  finally have "?M \<le> n_symbols (cache vm)" using card_image[OF inj] by simp
  moreover have "int (n_symbols (cache vm)) < 2 ^ 29" using assms by (simp add: symcache_ok_def small_def)
  ultimately show False by simp
qed

lemma symcache_ok_counter [simp]: "symcache_ok (vm\<lparr>gensym_counter := g\<rparr>) = symcache_ok vm"
  by (simp add: symcache_ok_def)

lemma gensym_loop_ends:
  assumes "symcache_ok vm" "gensym_counter vm = counter_at n" "\<forall>j < k. interned vm (gensym_text (n + j)) \<noteq> None"
    "interned vm (gensym_text (n + k)) = None"
  shows "\<exists>vm2 f. gensym_loop vm = Some (Some (vm2, f)) \<and> symcache_ok vm2 \<and> interned vm2 = interned vm
    \<and> gensym_counter vm2 = counter_at (n + k) \<and> free_place vm2 (gensym_text (n + k)) f \<and> blocks vm2 = blocks vm
    \<and> cache_count vm2 = cache_count vm \<and> cache_deleted vm2 = cache_deleted vm \<and> length (cache vm2) = length (cache vm)"
  using assms
proof (induction k arbitrary: vm n)
  case 0
  then obtain f where "janet_symcache_findmem vm (gensym_text n) = Some (vm, f, False)" "free_place vm (gensym_text n) f"
    using findmem_absent[OF symcache_okD(1)[OF 0(1)] _ symcache_okD(2)[OF 0(1)], of "gensym_text n"] by auto
  then show ?case using 0 by (subst gensym_loop.simps) (simp add: gensym_text_def)
next
  case (Suc k)
  note ok = symcache_okD(1)[OF Suc.prems(1)]
  obtain a where a: "interned vm (gensym_text n) = Some a" using Suc.prems(3) by force
  obtain vm1 b where f: "janet_symcache_findmem vm (gensym_text n) = Some (vm1, b, True)" "rearranged vm vm1"
    using findmem_present[OF ok a] by blast
  note r = rearrangedD[OF f(2)]
  let ?vm2 = "vm1\<lparr>gensym_counter := counter_at (Suc n)\<rparr>"
  have l: "gensym_loop vm = gensym_loop ?vm2"
    using f(1) Suc.prems(2) inc_counter[of vm1 n] r(10) by (subst gensym_loop.simps) (simp add: gensym_text_def)
  have i: "interned ?vm2 = interned vm" using rearranged_interned[OF ok f(2)] by simp
  have "symcache_ok ?vm2" using symcache_ok_rearranged[OF Suc.prems(1) f(2)] by simp
  moreover have "\<forall>j < k. interned ?vm2 (gensym_text (Suc n + j)) \<noteq> None"
  proof (intro allI impI)
    fix j assume "j < k"
    then show "interned ?vm2 (gensym_text (Suc n + j)) \<noteq> None" using Suc.prems(3)[rule_format, of "Suc j"] i by simp
  qed
  moreover have "interned ?vm2 (gensym_text (Suc n + k)) = None" using Suc.prems(4) i by simp
  ultimately show ?case using Suc.IH[of ?vm2 "Suc n"] l i r by simp
qed

text \<open>C32. A generated symbol is new: its text is that of no symbol in the table, an underscore and six
  of the sixty-two digits; the search for it ends, since there are more such texts than symbols. But its block has
  no NUL at the end, unlike that of any other symbol: the eighth byte of the counter is a digit.\<close>

theorem gensym_fresh:
  assumes "symcache_ok vm" and "roomy vm" and "small vm" and "gensym_counter vm = counter_at n"
  shows "\<exists>vm2 a k. janet_symbol_gen vm = Some (Inr (Some (vm2, a))) \<and> symcache_ok vm2
    \<and> text_of vm2 a = gensym_text k \<and> interned vm (gensym_text k) = None \<and> interned vm2 = (interned vm)(gensym_text k \<mapsto> a)
    \<and> gensym_counter vm2 = counter_at k \<and> strlen (blocks vm2 ! a) = Inl OutOfBounds"
proof -
  define k where "k = (LEAST k. interned vm (gensym_text (n + k)) = None)"
  have "interned vm (gensym_text (n + k)) = None" "\<forall>j < k. interned vm (gensym_text (n + j)) \<noteq> None"
    using LeastI_ex[OF free_gensym[OF assms(1,3)]] not_less_Least unfolding k_def by blast+
  then obtain vm1 f where L: "gensym_loop vm = Some (Some (vm1, f))" "symcache_ok vm1" "interned vm1 = interned vm"
    "gensym_counter vm1 = counter_at (n + k)" "free_place vm1 (gensym_text (n + k)) f" "blocks vm1 = blocks vm"
    "cache_count vm1 = cache_count vm" "cache_deleted vm1 = cache_deleted vm" "length (cache vm1) = length (cache vm)"
    and none: "interned vm (gensym_text (n + k)) = None"
    using gensym_loop_ends[OF assms(1,4)] by blast
  have "roomy vm1" "small vm1" using assms(2,3) L by (simp_all add: roomy_def small_def)
  from store_block[OF L(2) this, of "counter_at (n + k)" f] L none obtain vm2 where
    S: "janet_symcache_put (vm1\<lparr>blocks := blocks vm1 @ [counter_at (n + k)]\<rparr>) (length (blocks vm1)) f = Inr (Some vm2)"
      "symcache_ok vm2" "interned vm2 = (interned vm)(gensym_text (n + k) \<mapsto> length (blocks vm))"
      "blocks vm2 = blocks vm @ [counter_at (n + k)]" "gensym_counter vm2 = counter_at (n + k)"
    by (auto simp: gensym_text_def)
  have "janet_symbol_gen vm = Some (Inr (Some (vm2, length (blocks vm))))"
    using L S(1) by (simp add: janet_symbol_gen_def ebind_def exits_if_none_def new_symbol_def Let_def)
  moreover have "text_of vm2 (length (blocks vm)) = gensym_text (n + k)" using S(4) by (simp add: text_of_def gensym_text_def)
  moreover have "strlen (blocks vm2 ! length (blocks vm)) = Inl OutOfBounds" using S(4) counter_nonzero by (simp add: strlen_def)
  ultimately show ?thesis using S none by blast
qed

theorem gensym_fresh_witness:
  "\<exists>vm2 a. janet_symbol_gen janet_symcache_init = Some (Inr (Some (vm2, a))) \<and> strlen (blocks vm2 ! a) = Inl OutOfBounds"
proof -
  have "gensym_counter janet_symcache_init = counter_at 0"
    by code_simp
  from gensym_fresh[OF init_symcache(1,3,4) this] show ?thesis by blast
qed

end
