(* ===== verification/Queues.thy ===== *)
theory Queues
  imports Interfaces
begin

text \<open>
  The ring buffers of \<^verbatim>\<open>src/core/ev.c\<close> (amalg/janet.c), \<open>JanetQueue\<close>: the tasks
  to run, and the items, readers and writers of a channel. One cell always stays free, so that equal
  ends mean an empty queue. A queue stands for the list of its elements from the head on.
\<close>

record 'a janet_queue =
  q_capacity :: int
  q_head :: int
  q_tail :: int
  q_data :: "'a block"

definition JANET_MAX_Q_CAPACITY :: int where
  "JANET_MAX_Q_CAPACITY = 0x7FFFFFF"

definition janet_q_init :: "'a janet_queue" where
  "janet_q_init = \<lparr>q_capacity = 0, q_head = 0, q_tail = 0, q_data = []\<rparr>"

definition janet_q_count :: "'a janet_queue \<Rightarrow> int" where
  "janet_q_count q = (if q_head q > q_tail q then q_tail q + q_capacity q - q_head q else q_tail q - q_head q)"

definition q_newcap :: "int \<Rightarrow> int" where
  "q_newcap count = (let newcap = (count + 2) * 2 in if newcap > JANET_MAX_Q_CAPACITY then JANET_MAX_Q_CAPACITY else newcap)"

text \<open>\<open>None\<close> is the result 1: the queue can not be made larger.\<close>

definition janet_q_maybe_resize :: "'a janet_queue \<Rightarrow> fault + 'a janet_queue option" where
  "janet_q_maybe_resize q = (let count = janet_q_count q in
     if count + 1 \<ge> q_capacity q then
       if count + 1 \<ge> JANET_MAX_Q_CAPACITY then Inr None
       else let newcap = q_newcap count;
                d = realloc_block (q_data q) (nat newcap)
            in if q_head q > q_tail q then
                 let newhead = q_head q + (newcap - q_capacity q);
                     seg1 = q_capacity q - q_head q
                 in rbind (if seg1 > 0 then move_cells d (nat newhead) (nat (q_head q)) (nat seg1) else Inr d)
                      (\<lambda>d. Inr (Some (q\<lparr>q_data := d, q_head := newhead, q_capacity := newcap\<rparr>)))
               else Inr (Some (q\<lparr>q_data := d, q_capacity := newcap\<rparr>))
     else Inr (Some q))"

definition after_resize :: "'a janet_queue \<Rightarrow> ('a janet_queue \<Rightarrow> fault + 'a janet_queue) \<Rightarrow> fault + 'a janet_queue option" where
  "after_resize q f = rbind (janet_q_maybe_resize q) (\<lambda>r. case r of None \<Rightarrow> Inr None | Some q \<Rightarrow> rbind (f q) (\<lambda>q. Inr (Some q)))"

definition janet_q_push :: "'a \<Rightarrow> 'a janet_queue \<Rightarrow> fault + 'a janet_queue option" where
  "janet_q_push item q = after_resize q (\<lambda>q.
     rbind (write_cell (q_data q) (nat (q_tail q)) item) (\<lambda>d.
     Inr (q\<lparr>q_data := d, q_tail := (if q_tail q + 1 < q_capacity q then q_tail q + 1 else 0)\<rparr>)))"

definition janet_q_push_head :: "'a \<Rightarrow> 'a janet_queue \<Rightarrow> fault + 'a janet_queue option" where
  "janet_q_push_head item q = after_resize q (\<lambda>q.
     let newhead = q_head q - 1; newhead = (if newhead < 0 then newhead + q_capacity q else newhead) in
     rbind (write_cell (q_data q) (nat newhead) item) (\<lambda>d.
     Inr (q\<lparr>q_data := d, q_head := newhead\<rparr>)))"

definition janet_q_pop :: "'a janet_queue \<Rightarrow> fault + ('a \<times> 'a janet_queue) option" where
  "janet_q_pop q =
     (if q_head q = q_tail q then Inr None
      else rbind (read_cell (q_data q) (nat (q_head q))) (\<lambda>x.
        Inr (Some (x, q\<lparr>q_head := (if q_head q + 1 < q_capacity q then q_head q + 1 else 0)\<rparr>))))"

text \<open>Popping until an element is good: what the callers do with entries that went stale. The number
  is how many pops are allowed; one more than there are elements is enough.\<close>

fun q_pop_until :: "nat \<Rightarrow> ('a \<Rightarrow> bool) \<Rightarrow> 'a janet_queue \<Rightarrow> fault + 'a option \<times> 'a janet_queue" where
  "q_pop_until 0 good q = Inr (None, q)"
| "q_pop_until (Suc n) good q =
     rbind (janet_q_pop q) (\<lambda>r. case r of
       None \<Rightarrow> Inr (None, q)
     | Some (x, q) \<Rightarrow> if good x then Inr (Some x, q) else q_pop_until n good q)"

text \<open>The elements from the head to the tail, in the way the collector goes through them: one stretch of
  cells, or two.\<close>

definition q_segments :: "'a janet_queue \<Rightarrow> fault + 'a list" where
  "q_segments q =
     (if q_head q \<le> q_tail q then read_cells (q_data q) (nat (q_head q)) (nat (q_tail q - q_head q))
      else rbind (read_cells (q_data q) (nat (q_head q)) (nat (q_capacity q - q_head q))) (\<lambda>xs.
        rbind (read_cells (q_data q) 0 (nat (q_tail q))) (\<lambda>ys. Inr (xs @ ys))))"

text \<open>The list a queue stands for.\<close>

definition q_items :: "'a janet_queue \<Rightarrow> 'a list" where
  "q_items q = map the
     (if q_head q \<le> q_tail q then take (nat (q_tail q - q_head q)) (drop (nat (q_head q)) (q_data q))
      else drop (nat (q_head q)) (q_data q) @ take (nat (q_tail q)) (q_data q))"

subsection \<open>The invariant\<close>

definition one_segment :: "'a janet_queue \<Rightarrow> 'a option list \<Rightarrow> 'a list \<Rightarrow> 'a option list \<Rightarrow> bool" where
  "one_segment q a xs b \<longleftrightarrow> q_data q = a @ map Some xs @ b \<and> q_head q = int (length a)
     \<and> q_tail q = int (length a + length xs) \<and> (b \<noteq> [] \<or> a = [] \<and> xs = [])"

definition two_segments :: "'a janet_queue \<Rightarrow> 'a list \<Rightarrow> 'a option list \<Rightarrow> 'a list \<Rightarrow> bool" where
  "two_segments q zs gap ys \<longleftrightarrow> q_data q = map Some zs @ gap @ map Some ys \<and> q_tail q = int (length zs)
     \<and> q_head q = int (length zs + length gap) \<and> gap \<noteq> [] \<and> ys \<noteq> []"

definition q_holds :: "'a janet_queue \<Rightarrow> 'a list \<Rightarrow> bool" where
  "q_holds q xs \<longleftrightarrow> q_capacity q = int (length (q_data q)) \<and> q_capacity q \<le> JANET_MAX_Q_CAPACITY
     \<and> ((\<exists>a b. one_segment q a xs b) \<or> (\<exists>zs gap ys. two_segments q zs gap ys \<and> xs = ys @ zs))"

definition q_ok :: "'a janet_queue \<Rightarrow> bool" where
  "q_ok q \<longleftrightarrow> (\<exists>xs. q_holds q xs)"

lemma q_holds_cases [consumes 1, case_names one two]:
  assumes "q_holds q xs"
  obtains a b where "one_segment q a xs b" "q_capacity q = int (length a + length xs + length b)"
      "q_capacity q \<le> JANET_MAX_Q_CAPACITY"
  | zs gap ys where "two_segments q zs gap ys" "xs = ys @ zs" "q_capacity q = int (length zs + length gap + length ys)"
      "q_capacity q \<le> JANET_MAX_Q_CAPACITY"
proof -
  have c: "q_capacity q = int (length (q_data q))" "q_capacity q \<le> JANET_MAX_Q_CAPACITY" using assms by (simp_all add: q_holds_def)
  from assms consider a b where "one_segment q a xs b" | zs gap ys where "two_segments q zs gap ys" "xs = ys @ zs"
    unfolding q_holds_def by blast
  then show thesis
  proof cases
    case 1
    then show ?thesis using that(1)[of a b] c by (simp add: one_segment_def)
  next
    case 2
    then show ?thesis using that(2)[of zs gap ys] c by (simp add: two_segments_def)
  qed
qed

lemma q_holds_one:
  "one_segment q a xs b \<Longrightarrow> q_capacity q = int (length a + length xs + length b) \<Longrightarrow> q_capacity q \<le> JANET_MAX_Q_CAPACITY \<Longrightarrow> q_holds q xs"
  unfolding q_holds_def by (intro conjI disjI1 exI[of _ a] exI[of _ b]) (simp_all add: one_segment_def)

lemma q_holds_two:
  "two_segments q zs gap ys \<Longrightarrow> q_capacity q = int (length zs + length gap + length ys) \<Longrightarrow> q_capacity q \<le> JANET_MAX_Q_CAPACITY
    \<Longrightarrow> q_holds q (ys @ zs)"
  unfolding q_holds_def by (intro conjI disjI2 exI[of _ zs] exI[of _ gap] exI[of _ ys]) (simp_all add: two_segments_def)

lemma map_the_Some [simp]: "map (the \<circ> Some) xs = xs"
  by (induction xs) simp_all

lemma holds_items:
  assumes "q_holds q xs"
  shows "q_items q = xs"
  using assms
proof (cases rule: q_holds_cases)
  case (one a b)
  have "nat (q_tail q - q_head q) = length xs" "nat (q_head q) = length a" using one(1) by (simp_all add: one_segment_def)
  then show ?thesis using one(1) by (simp add: q_items_def one_segment_def)
next
  case (two zs gap ys)
  have "nat (q_tail q) = length zs" "nat (q_head q) = length zs + length gap" using two(1) by (simp_all add: two_segments_def nat_int_add)
  then show ?thesis using two(1,2) by (simp add: q_items_def two_segments_def)
qed

lemma q_ok_holds: "q_ok q \<Longrightarrow> q_holds q (q_items q)"
  unfolding q_ok_def using holds_items by force

lemma holds_ok: "q_holds q xs \<Longrightarrow> q_ok q \<and> q_items q = xs"
  using holds_items by (auto simp: q_ok_def)

lemma holds_count: "q_holds q xs \<Longrightarrow> janet_q_count q = int (length xs)"
  by (cases rule: q_holds_cases) (auto simp: janet_q_count_def one_segment_def two_segments_def)

lemma holds_empty: "q_holds q xs \<Longrightarrow> (q_head q = q_tail q) = (xs = [])"
  by (cases rule: q_holds_cases) (auto simp: one_segment_def two_segments_def)

lemma init_holds: "q_holds janet_q_init []"
proof -
  have "one_segment (janet_q_init :: 'a janet_queue) [] [] []" by (simp add: one_segment_def janet_q_init_def)
  then show ?thesis by (rule q_holds_one) (simp_all add: janet_q_init_def JANET_MAX_Q_CAPACITY_def)
qed

subsection \<open>Resizing\<close>

lemma resize_holds:
  assumes "q_holds q xs" and "int (length xs) + 1 < JANET_MAX_Q_CAPACITY"
  shows "\<exists>q2. janet_q_maybe_resize q = Inr (Some q2) \<and> q_holds q2 xs \<and> int (length xs) + 1 < q_capacity q2"
proof (cases "int (length xs) + 1 \<ge> q_capacity q")
  case False
  then show ?thesis using assms by (intro exI[of _ q]) (simp add: janet_q_maybe_resize_def Let_def holds_count[OF assms(1)])
next
  case True
  define newcap where "newcap = q_newcap (int (length xs))"
  have n: "int (length xs) + 1 < newcap" "newcap \<le> JANET_MAX_Q_CAPACITY" "0 < newcap"
    using assms(2) by (auto simp: newcap_def q_newcap_def Let_def)
  have le: "q_capacity q \<le> newcap"
    using True assms(1) by (auto simp: newcap_def q_newcap_def Let_def q_holds_def)
  from assms(1) show ?thesis
  proof (cases rule: q_holds_cases)
    case (one a b)
    let ?q2 = "q\<lparr>q_data := realloc_block (q_data q) (nat newcap), q_capacity := newcap\<rparr>"
    have s: "q_data q = a @ map Some xs @ b" "q_head q = int (length a)" "q_tail q = int (length a + length xs)"
      using one(1) by (simp_all add: one_segment_def)
    have l: "length a + length xs + length b \<le> nat newcap" using le one(2) by simp
    have d: "realloc_block (q_data q) (nat newcap) = a @ map Some xs @ b @ replicate (nat newcap - length a - length xs - length b) None"
      using l s(1) by (simp add: realloc_block_def)
    have "janet_q_maybe_resize q = Inr (Some ?q2)"
      using True assms(2) s by (simp add: janet_q_maybe_resize_def Let_def holds_count[OF assms(1)] newcap_def)
    moreover have "b @ replicate (nat newcap - length a - length xs - length b) None \<noteq> []"
      using one(1) n(3) by (auto simp: one_segment_def)
    then have "one_segment ?q2 a xs (b @ replicate (nat newcap - length a - length xs - length b) None)"
      using s d by (simp add: one_segment_def)
    then have "q_holds ?q2 xs" by (rule q_holds_one) (use l n in simp_all)
    ultimately show ?thesis using n by simp
  next
    case (two zs gap ys)
    let ?h = "q_head q + (newcap - q_capacity q)" let ?r = "realloc_block (q_data q) (nat newcap)"
    have s: "q_data q = map Some zs @ gap @ map Some ys" "q_tail q = int (length zs)" "q_head q = int (length zs + length gap)"
      "gap \<noteq> []" "ys \<noteq> []" using two(1) by (simp_all add: two_segments_def)
    define k where "k = nat newcap - (length zs + length gap + length ys)"
    have k: "newcap = int (length zs + length gap + length ys + k)" using le two(3) by (simp add: k_def)
    have h: "nat ?h = length zs + length gap + k" "nat (q_head q) = length zs + length gap" "nat (q_capacity q - q_head q) = length ys"
      using k two(3) s(3) by simp_all
    have r: "?r = map Some zs @ gap @ map Some ys @ replicate k None" using s(1) k by (simp add: realloc_block_def nat_int_add)
    define gap2 where "gap2 = take (length gap + k) (gap @ map Some ys @ replicate k None)"
    have m: "move_cells ?r (nat ?h) (nat (q_head q)) (nat (q_capacity q - q_head q)) = Inr (map Some zs @ gap2 @ map Some ys)"
      unfolding h r move_cells_def gap2_def by simp
    let ?q2 = "q\<lparr>q_data := map Some zs @ gap2 @ map Some ys, q_head := ?h, q_capacity := newcap\<rparr>"
    have g: "length gap2 = length gap + k" by (simp add: gap2_def)
    have "janet_q_maybe_resize q = Inr (Some ?q2)"
      using True assms(2) s two(3) m
      by (simp add: janet_q_maybe_resize_def Let_def holds_count[OF assms(1)] newcap_def[symmetric])
    moreover have "two_segments ?q2 zs gap2 ys" using s g k two(3) by (auto simp: two_segments_def)
    then have "q_holds ?q2 xs" unfolding two(2) by (rule q_holds_two) (use k g n in simp_all)
    ultimately show ?thesis using n by simp
  qed
qed

lemma resize_full:
  assumes "q_holds q xs" and "\<not> int (length xs) + 1 < JANET_MAX_Q_CAPACITY"
  shows "janet_q_maybe_resize q = Inr None"
  using assms(1) assms(2) by (auto simp: janet_q_maybe_resize_def Let_def holds_count[OF assms(1)] q_holds_def)

subsection \<open>The operations\<close>

lemma push_holds:
  assumes "q_holds q xs" and "int (length xs) + 1 < JANET_MAX_Q_CAPACITY"
  shows "\<exists>q2. janet_q_push x q = Inr (Some q2) \<and> q_holds q2 (xs @ [x])"
proof -
  obtain r where r: "janet_q_maybe_resize q = Inr (Some r)" "q_holds r xs" "int (length xs) + 1 < q_capacity r"
    using resize_holds[OF assms] by blast
  define q2 where "q2 = r\<lparr>q_data := (q_data r)[nat (q_tail r) := Some x],
    q_tail := (if q_tail r + 1 < q_capacity r then q_tail r + 1 else 0)\<rparr>"
  have "nat (q_tail r) < length (q_data r) \<and> q_holds q2 (xs @ [x])"
    using r(2)
  proof (cases rule: q_holds_cases)
    case (one a b)
    have s: "q_data r = a @ map Some xs @ b" "q_head r = int (length a)" "q_tail r = int (length a + length xs)"
      using one(1) by (simp_all add: one_segment_def)
    obtain c b2 where b: "b = c # b2" using one(1,2) r(3) by (cases b) (auto simp: one_segment_def)
    have t: "nat (q_tail r) = length a + length xs" using s(3) by simp
    have d: "(q_data r)[nat (q_tail r) := Some x] = a @ map Some (xs @ [x]) @ b2"
      using s(1) b t by (simp add: list_update_append)
    show ?thesis
    proof (cases "b2 = []")
      case False
      have "q_tail q2 = int (length a + length (xs @ [x]))" using False one(2) b s by (cases b2) (simp_all add: q2_def)
      then have "one_segment q2 a (xs @ [x]) b2" using d s(2) False by (simp add: one_segment_def) (simp add: q2_def)
      then have "q_holds q2 (xs @ [x])" by (rule q_holds_one) (use one b in \<open>simp_all add: q2_def\<close>)
      then show ?thesis using s b by simp
    next
      case True
      have "a \<noteq> []" using r(3) one(2) b True by auto
      then have "two_segments q2 [] a (xs @ [x])" using d s one(2) b True by (simp add: two_segments_def q2_def)
      then have "q_holds q2 ((xs @ [x]) @ [])" by (rule q_holds_two) (use one b True in \<open>simp_all add: q2_def\<close>)
      then show ?thesis using s b by simp
    qed
  next
    case (two zs gap ys)
    have s: "q_data r = map Some zs @ gap @ map Some ys" "q_tail r = int (length zs)" "q_head r = int (length zs + length gap)"
      "gap \<noteq> []" "ys \<noteq> []" using two(1) by (simp_all add: two_segments_def)
    obtain c gap2 where g: "gap = c # gap2" "gap2 \<noteq> []" using s(4) r(3) two(2,3) by (cases gap) auto
    have d: "(q_data r)[nat (q_tail r) := Some x] = map Some (zs @ [x]) @ gap2 @ map Some ys"
      using s(1,2) g by (simp add: list_update_append)
    have "0 < int (length gap2)" using g(2) by simp
    then have "q_tail q2 = int (length (zs @ [x]))" using s(2) g(1) two(3) by (simp add: q2_def del: of_nat_0_less_iff)
    then have "two_segments q2 (zs @ [x]) gap2 ys" using d s g by (simp add: two_segments_def) (simp add: q2_def)
    then have "q_holds q2 (ys @ zs @ [x])" by (rule q_holds_two) (use two(3,4) g in \<open>simp_all add: q2_def\<close>)
    then show ?thesis using s(1,2) g two(2) by simp
  qed
  moreover have "nat (q_tail r) < length (q_data r) \<Longrightarrow> janet_q_push x q = Inr (Some q2)"
    using r(1) by (simp add: janet_q_push_def after_resize_def write_cell_simps q2_def)
  ultimately show ?thesis by blast
qed

lemma push_head_holds:
  assumes "q_holds q xs" and "int (length xs) + 1 < JANET_MAX_Q_CAPACITY"
  shows "\<exists>q2. janet_q_push_head x q = Inr (Some q2) \<and> q_holds q2 (x # xs)"
proof -
  obtain r where r: "janet_q_maybe_resize q = Inr (Some r)" "q_holds r xs" "int (length xs) + 1 < q_capacity r"
    using resize_holds[OF assms] by blast
  define h where "h = (if q_head r - 1 < 0 then q_head r - 1 + q_capacity r else q_head r - 1)"
  define q2 where "q2 = r\<lparr>q_data := (q_data r)[nat h := Some x], q_head := h\<rparr>"
  have "nat h < length (q_data r) \<and> q_holds q2 (x # xs)"
    using r(2)
  proof (cases rule: q_holds_cases)
    case (one a b)
    have s: "q_data r = a @ map Some xs @ b" "q_head r = int (length a)" "q_tail r = int (length a + length xs)"
      using one(1) by (simp_all add: one_segment_def)
    have b: "b \<noteq> []" using one(1,2) r(3) by (auto simp: one_segment_def)
    show ?thesis
    proof (cases a rule: rev_cases)
      case (snoc a2 c)
      have h: "h = int (length a2)" using s snoc by (simp add: h_def)
      have "one_segment q2 a2 (x # xs) b" using s snoc h b by (simp add: one_segment_def q2_def list_update_append)
      then have "q_holds q2 (x # xs)" by (rule q_holds_one) (use one snoc in \<open>simp_all add: q2_def\<close>)
      then show ?thesis using s snoc h by simp
    next
      case Nil
      obtain b2 c where b2: "b = b2 @ [c]" using b by (cases b rule: rev_cases) auto
      have n: "b2 \<noteq> []" using r(3) one(2) Nil b2 by auto
      have h: "h = int (length xs + length b2)" using s Nil one(2) b2 by (simp add: h_def)
      have "two_segments q2 xs b2 [x]" using s Nil h n b2
        by (simp add: two_segments_def q2_def list_update_append nat_int_add)
      then have "q_holds q2 ([x] @ xs)" by (rule q_holds_two) (use one Nil b2 in \<open>simp_all add: q2_def\<close>)
      then show ?thesis using s Nil h b2 by (simp add: nat_int_add)
    qed
  next
    case (two zs gap ys)
    have s: "q_data r = map Some zs @ gap @ map Some ys" "q_tail r = int (length zs)" "q_head r = int (length zs + length gap)"
      "gap \<noteq> []" "ys \<noteq> []" using two(1) by (simp_all add: two_segments_def)
    obtain gap2 c where g: "gap = gap2 @ [c]" using s(4) by (cases gap rule: rev_cases) auto
    have n: "gap2 \<noteq> []" using r(3) two(2,3) g by auto
    have h: "h = int (length zs + length gap2)" using s g by (simp add: h_def)
    have "two_segments q2 zs gap2 (x # ys)" using s g n h by (simp add: two_segments_def q2_def list_update_append nat_int_add)
    then have "q_holds q2 ((x # ys) @ zs)" by (rule q_holds_two) (use two(3,4) g in \<open>simp_all add: q2_def\<close>)
    then show ?thesis using s g h two(2) by (simp add: nat_int_add)
  qed
  moreover have "nat h < length (q_data r) \<Longrightarrow> janet_q_push_head x q = Inr (Some q2)"
    using r(1) by (simp add: janet_q_push_head_def after_resize_def write_cell_simps q2_def h_def Let_def)
  ultimately show ?thesis by blast
qed

lemma push_full:
  assumes "q_holds q xs" and "\<not> int (length xs) + 1 < JANET_MAX_Q_CAPACITY"
  shows "janet_q_push x q = Inr None" "janet_q_push_head x q = Inr None"
  using resize_full[OF assms] by (simp_all add: janet_q_push_def janet_q_push_head_def after_resize_def)

lemma pop_holds:
  assumes "q_holds q (x # xs)"
  shows "\<exists>q2. janet_q_pop q = Inr (Some (x, q2)) \<and> q_holds q2 xs"
proof -
  define q2 where "q2 = q\<lparr>q_head := (if q_head q + 1 < q_capacity q then q_head q + 1 else 0)\<rparr>"
  have "read_cell (q_data q) (nat (q_head q)) = Inr x \<and> q_holds q2 xs"
    using assms
  proof (cases rule: q_holds_cases)
    case (one a b)
    have s: "q_data q = a @ Some x # map Some xs @ b" "q_head q = int (length a)" "q_tail q = int (length a + length xs + 1)" "b \<noteq> []"
      using one(1) by (simp_all add: one_segment_def)
    have h: "q_head q2 = int (length a) + 1" using s(2,4) one(2) by (cases b) (simp_all add: q2_def)
    have "one_segment q2 (a @ [Some x]) xs b" unfolding one_segment_def using h s by (simp add: q2_def)
    then have "q_holds q2 xs" by (rule q_holds_one) (use one in \<open>simp_all add: q2_def\<close>)
    moreover have "read_cell (q_data q) (nat (q_head q)) = Inr x" using s by (simp add: read_cell_def nth_append)
    ultimately show ?thesis by simp
  next
    case (two zs gap ys)
    have s: "q_data q = map Some zs @ gap @ map Some ys" "q_tail q = int (length zs)" "q_head q = int (length zs + length gap)"
      "gap \<noteq> []" "ys \<noteq> []" using two(1) by (simp_all add: two_segments_def)
    obtain ys2 where y: "ys = x # ys2" "xs = ys2 @ zs" using s(5) two(2) by (cases ys) auto
    have r: "read_cell (q_data q) (nat (q_head q)) = Inr x" using s y by (simp add: read_cell_def nth_append nat_int_add)
    show ?thesis
    proof (cases "ys2 = []")
      case False
      then have "two_segments q2 zs (gap @ [Some x]) ys2" using s y two(3) by (simp add: two_segments_def q2_def)
      then have "q_holds q2 (ys2 @ zs)" by (rule q_holds_two) (use two(3,4) y in \<open>simp_all add: q2_def\<close>)
      then show ?thesis using r y by simp
    next
      case True
      then have "one_segment q2 [] zs (gap @ [Some x])" using s y two(3) by (simp add: one_segment_def q2_def)
      then have "q_holds q2 zs" by (rule q_holds_one) (use two(3,4) y True in \<open>simp_all add: q2_def\<close>)
      then show ?thesis using r y True by simp
    qed
  qed
  moreover have "q_head q \<noteq> q_tail q" using holds_empty[OF assms] by simp
  ultimately show ?thesis by (simp add: janet_q_pop_def q2_def)
qed

lemma pop_empty: "q_holds q [] \<Longrightarrow> janet_q_pop q = Inr None"
  using holds_empty[of q "[]"] by (simp add: janet_q_pop_def)

subsection \<open>The interface\<close>

text \<open>
  A queue with two ends that holds at most \<open>limit\<close> elements, as the channels and the loop use it.
\<close>

locale bounded_deque =
  fixes push :: "'a \<Rightarrow> 'q \<Rightarrow> fault + 'q option"
    and push_head :: "'a \<Rightarrow> 'q \<Rightarrow> fault + 'q option"
    and pop :: "'q \<Rightarrow> fault + ('a \<times> 'q) option"
    and pop_until :: "nat \<Rightarrow> ('a \<Rightarrow> bool) \<Rightarrow> 'q \<Rightarrow> fault + 'a option \<times> 'q"
    and items :: "'q \<Rightarrow> 'a list"
    and inv :: "'q \<Rightarrow> bool"
    and limit :: nat
  assumes push_law: "inv q \<Longrightarrow> length (items q) < limit \<Longrightarrow> \<exists>q2. push x q = Inr (Some q2) \<and> inv q2 \<and> items q2 = items q @ [x]"
    and push_head_law: "inv q \<Longrightarrow> length (items q) < limit \<Longrightarrow> \<exists>q2. push_head x q = Inr (Some q2) \<and> inv q2 \<and> items q2 = x # items q"
    and full_law: "inv q \<Longrightarrow> \<not> length (items q) < limit \<Longrightarrow> push x q = Inr None \<and> push_head x q = Inr None"
    and pop_empty_law: "inv q \<Longrightarrow> items q = [] \<Longrightarrow> pop q = Inr None"
    and pop_law: "inv q \<Longrightarrow> items q = x # xs \<Longrightarrow> \<exists>q2. pop q = Inr (Some (x, q2)) \<and> inv q2 \<and> items q2 = xs"
    and pop_until_law: "pop_until (Suc n) good q = rbind (pop q) (\<lambda>r. case r of
        None \<Rightarrow> Inr (None, q) | Some (x, q) \<Rightarrow> if good x then Inr (Some x, q) else pop_until n good q)"
begin

lemma push_cases:
  assumes "inv q"
  obtains q2 where "length (items q) < limit" "push x q = Inr (Some q2)" "inv q2" "items q2 = items q @ [x]"
    | "\<not> length (items q) < limit" "push x q = Inr None"
  using push_law[OF assms] full_law[OF assms] by blast

lemma push_head_cases:
  assumes "inv q"
  obtains q2 where "length (items q) < limit" "push_head x q = Inr (Some q2)" "inv q2" "items q2 = x # items q"
    | "\<not> length (items q) < limit" "push_head x q = Inr None"
  using push_head_law[OF assms] full_law[OF assms] by blast

lemma pop_cases:
  assumes "inv q"
  obtains "items q = []" "pop q = Inr None"
    | x q2 where "items q = x # items q2" "pop q = Inr (Some (x, q2))" "inv q2"
  using pop_law[OF assms] pop_empty_law[OF assms] by (cases "items q") blast+

text \<open>Popping until an element is good ends, and drops those before it.\<close>

lemma pop_until:
  assumes "inv q" and "length (items q) < n"
  shows "\<exists>q2. inv q2 \<and> (case dropWhile (\<lambda>x. \<not> good x) (items q) of
      [] \<Rightarrow> pop_until n good q = Inr (None, q2) \<and> items q2 = []
    | x # xs \<Rightarrow> pop_until n good q = Inr (Some x, q2) \<and> items q2 = xs)"
  using assms
proof (induction n arbitrary: q)
  case (Suc n)
  from Suc.prems(1) show ?case
  proof (cases rule: pop_cases)
    case 1
    then show ?thesis using Suc.prems(1) by (intro exI[of _ q]) (simp add: pop_until_law)
  next
    case (2 x q2)
    show ?thesis
    proof (cases "good x")
      case True
      then show ?thesis using 2 by (intro exI[of _ q2]) (simp add: pop_until_law)
    next
      case False
      then have e: "pop_until (Suc n) good q = pop_until n good q2" using 2(2) by (simp add: pop_until_law)
      show ?thesis using Suc.IH[OF 2(3)] Suc.prems(2) 2(1) False unfolding e by simp
    qed
  qed
qed simp

text \<open>What is pushed comes out in order.\<close>

fun drain :: "nat \<Rightarrow> 'q \<Rightarrow> (fault + 'a list)" where
  "drain 0 q = Inr []"
| "drain (Suc n) q = rbind (pop q) (\<lambda>r. case r of None \<Rightarrow> Inr [] | Some (x, q) \<Rightarrow> rbind (drain n q) (\<lambda>xs. Inr (x # xs)))"

lemma drain_items: "inv q \<Longrightarrow> n \<ge> length (items q) \<Longrightarrow> drain n q = Inr (items q)"
proof (induction n arbitrary: q)
  case (Suc n)
  from Suc.prems(1) show ?case by (cases rule: pop_cases) (use Suc in auto)
qed simp

end

definition q_limit :: nat where
  "q_limit = nat (JANET_MAX_Q_CAPACITY - 1)"

lemma below_limit: "n < q_limit \<longleftrightarrow> int n + 1 < JANET_MAX_Q_CAPACITY"
  by (auto simp: q_limit_def JANET_MAX_Q_CAPACITY_def)

interpretation jq: bounded_deque janet_q_push janet_q_push_head janet_q_pop q_pop_until q_items q_ok q_limit
proof (unfold_locales, goal_cases)
  case (1 q x)
  from push_holds[OF q_ok_holds[OF 1(1)] 1(2)[unfolded below_limit], of x] holds_ok show ?case by blast
next
  case (2 q x)
  from push_head_holds[OF q_ok_holds[OF 2(1)] 2(2)[unfolded below_limit], of x] holds_ok show ?case by blast
next
  case (3 q x)
  from push_full[OF q_ok_holds[OF 3(1)] 3(2)[unfolded below_limit], of x] show ?case by blast
next
  case (4 q)
  from pop_empty[OF q_ok_holds[OF 4(1), unfolded 4(2)]] show ?case .
next
  case (5 q x xs)
  from pop_holds[OF q_ok_holds[OF 5(1), unfolded 5(2)]] holds_ok show ?case by blast
next
  case (6 n good q)
  show ?case by (rule q_pop_until.simps(2))
qed

lemma janet_q_init [simp]: "q_ok janet_q_init" "q_items janet_q_init = []"
  using holds_ok[OF init_holds] by blast+

lemma count_items: "q_ok q \<Longrightarrow> janet_q_count q = int (length (q_items q))"
  using holds_count[OF q_ok_holds] .

lemma ends_equal: "q_ok q \<Longrightarrow> (q_head q = q_tail q) = (q_items q = [])"
  using holds_empty[OF q_ok_holds] .

lemma segments_items:
  assumes "q_ok q"
  shows "q_segments q = Inr (q_items q)"
  using q_ok_holds[OF assms]
proof (cases rule: q_holds_cases)
  case (one a b)
  have n: "nat (q_tail q - q_head q) = length (q_items q)" "nat (q_head q) = length a" "q_head q \<le> q_tail q"
    using one(1) by (simp_all add: one_segment_def)
  show ?thesis using one(1) by (auto simp: q_segments_def n read_cells_def one_segment_def)
next
  case (two zs gap ys)
  have n: "nat (q_tail q) = length zs" "nat (q_head q) = length zs + length gap" "nat (q_capacity q - q_head q) = length ys"
    "\<not> q_head q \<le> q_tail q" using two(1,3) by (simp_all add: two_segments_def nat_int_add)
  have d: "q_data q = map Some zs @ gap @ map Some ys" using two(1) by (simp add: two_segments_def)
  show ?thesis unfolding two(2) q_segments_def n(1,2,3) using n(4) by (auto simp: read_cells_def d)
qed

subsection \<open>Any sequence of operations\<close>

datatype 'a q_op = Push 'a | PushHead 'a | Pop

fun q_step :: "'a q_op \<Rightarrow> 'a janet_queue \<Rightarrow> fault + 'a option \<times> 'a janet_queue" where
  "q_step (Push x) q = rbind (janet_q_push x q) (\<lambda>r. Inr (None, case r of None \<Rightarrow> q | Some q2 \<Rightarrow> q2))"
| "q_step (PushHead x) q = rbind (janet_q_push_head x q) (\<lambda>r. Inr (None, case r of None \<Rightarrow> q | Some q2 \<Rightarrow> q2))"
| "q_step Pop q = rbind (janet_q_pop q) (\<lambda>r. Inr (case r of None \<Rightarrow> (None, q) | Some (x, q2) \<Rightarrow> (Some x, q2)))"

fun list_step :: "'a q_op \<Rightarrow> 'a list \<Rightarrow> 'a option \<times> 'a list" where
  "list_step (Push x) xs = (None, if length xs < q_limit then xs @ [x] else xs)"
| "list_step (PushHead x) xs = (None, if length xs < q_limit then x # xs else xs)"
| "list_step Pop [] = (None, [])"
| "list_step Pop (x # xs) = (Some x, xs)"

fun q_run :: "'a q_op list \<Rightarrow> 'a janet_queue \<Rightarrow> fault + 'a list \<times> 'a janet_queue" where
  "q_run [] q = Inr ([], q)"
| "q_run (op # ops) q = rbind (q_step op q) (\<lambda>(out, q). rbind (q_run ops q) (\<lambda>(outs, q).
     Inr ((case out of None \<Rightarrow> outs | Some x \<Rightarrow> x # outs), q)))"

fun list_run :: "'a q_op list \<Rightarrow> 'a list \<Rightarrow> 'a list \<times> 'a list" where
  "list_run [] xs = ([], xs)"
| "list_run (op # ops) xs = (let (out, xs) = list_step op xs; (outs, xs) = list_run ops xs
     in ((case out of None \<Rightarrow> outs | Some x \<Rightarrow> x # outs), xs))"

lemma step_refines:
  assumes "q_ok q"
  shows "\<exists>q2. q_step op q = Inr (fst (list_step op (q_items q)), q2) \<and> q_ok q2 \<and> q_items q2 = snd (list_step op (q_items q))"
proof (cases op)
  case (Push x)
  from assms show ?thesis by (cases rule: jq.push_cases[where x = x]) (use Push assms in auto)
next
  case (PushHead x)
  from assms show ?thesis by (cases rule: jq.push_head_cases[where x = x]) (use PushHead assms in auto)
next
  case Pop
  from assms show ?thesis by (cases rule: jq.pop_cases) (use Pop assms in auto)
qed

text \<open>C21. A ring buffer is a list with two ends: any sequence of pushes at the end or at the front and of
  pops runs without fault on a well-formed queue, gives what it gives on the list, and leaves a well-formed
  queue that stands for the list left. It wraps around, moves its second part when it grows, and refuses only
  what is beyond the limit of the code, less the cell that stays free.\<close>

theorem queue_refines:
  assumes "q_ok q"
  shows "\<exists>q2. q_run ops q = Inr (fst (list_run ops (q_items q)), q2) \<and> q_ok q2
    \<and> q_items q2 = snd (list_run ops (q_items q)) \<and> janet_q_count q2 = int (length (q_items q2))"
proof -
  have "\<exists>q2. q_run ops q = Inr (fst (list_run ops (q_items q)), q2) \<and> q_ok q2 \<and> q_items q2 = snd (list_run ops (q_items q))"
    using assms
  proof (induction ops arbitrary: q)
    case (Cons op ops)
    obtain q1 where s: "q_step op q = Inr (fst (list_step op (q_items q)), q1)" "q_ok q1" "q_items q1 = snd (list_step op (q_items q))"
      using step_refines[OF Cons.prems] by blast
    obtain q2 where r: "q_run ops q1 = Inr (fst (list_run ops (q_items q1)), q2)" "q_ok q2" "q_items q2 = snd (list_run ops (q_items q1))"
      using Cons.IH[OF s(2)] by blast
    show ?case using s r by (auto simp: split_def Let_def split: option.split)
  qed simp
  then show ?thesis using count_items by blast
qed

theorem queue_refines_witness:
  "\<exists>q2. q_run [Push 1, Push 2, Pop, Push 3, PushHead (4 :: nat), Push 5, Pop] janet_q_init = Inr ([1, 4], q2) \<and> q_items q2 = [2, 3, 5]"
proof -
  have l: "n < q_limit" if "n < 10" for n using that by (simp add: q_limit_def JANET_MAX_Q_CAPACITY_def)
  show ?thesis using queue_refines[OF janet_q_init(1), of "[Push 1, Push 2, Pop, Push 3, PushHead (4 :: nat), Push 5, Pop]"] by (auto simp: l)
qed

end
