(* ===== verification/Timeouts.thy ===== *)
theory Timeouts
  imports Core "HOL-Library.Multiset"
begin

text \<open>
  The timeouts of the event loop, \<^verbatim>\<open>src/core/ev.c\<close> (amalg/janet.c): a heap in an array
  with the earliest time in front. \<open>tq\<close> is the part of the array in use, so its length is
  \<open>tq_count\<close>. Fibers are numbers.
\<close>

record timeout =
  due :: int
  to_fiber :: nat
  to_curr_fiber :: "nat option"
  to_sched_id :: "32 word"
  to_is_error :: bool

record timeout_queue =
  tq :: "timeout list"
  tq_capacity :: nat

definition tq_init :: timeout_queue where
  "tq_init = \<lparr>tq = [], tq_capacity = 0\<rparr>"

definition peek_timeout :: "timeout_queue \<Rightarrow> timeout option" where
  "peek_timeout q = (if tq q = [] then None else Some (tq q ! 0))"

definition swap_entries :: "nat \<Rightarrow> nat \<Rightarrow> timeout list \<Rightarrow> timeout list" where
  "swap_entries i j xs = xs[i := xs ! j, j := xs ! i]"

text \<open>The least of an entry and its two children.\<close>

definition smaller :: "timeout list \<Rightarrow> nat \<Rightarrow> nat \<Rightarrow> nat" where
  "smaller xs c smallest = (if c < length xs \<and> due (xs ! c) < due (xs ! smallest) then c else smallest)"

definition smallest_of :: "timeout list \<Rightarrow> nat \<Rightarrow> nat" where
  "smallest_of xs index = smaller xs (2 * index + 2) (smaller xs (2 * index + 1) index)"

lemma smallest_of_cases:
  "smallest_of xs i = i \<or> smallest_of xs i < length xs \<and> (smallest_of xs i = 2 * i + 1 \<or> smallest_of xs i = 2 * i + 2)
    \<and> due (xs ! smallest_of xs i) < due (xs ! i)"
  by (auto simp: smallest_of_def smaller_def)

function sift_down :: "nat \<Rightarrow> timeout list \<Rightarrow> timeout list" where
  "sift_down index xs = (let smallest = smallest_of xs index in
     if smallest = index then xs else sift_down smallest (swap_entries index smallest xs))"
  by pat_completeness auto
termination
proof (relation "measure (\<lambda>(index, xs). length xs - index)", goal_cases)
  case (2 index xs smallest)
  then show ?case using smallest_of_cases[of xs index] by (auto simp: swap_entries_def)
qed simp

declare sift_down.simps [simp del]

definition pop_timeout :: "nat \<Rightarrow> timeout_queue \<Rightarrow> timeout_queue" where
  "pop_timeout index q =
     (if length (tq q) \<le> index then q
      else q\<lparr>tq := sift_down index (butlast ((tq q)[index := last (tq q)]))\<rparr>)"

fun sift_up :: "nat \<Rightarrow> timeout list \<Rightarrow> timeout list" where
  "sift_up index xs =
     (if 0 < index then
        let parent = (index - 1) div 2 in
        if due (xs ! parent) \<le> due (xs ! index) then xs
        else sift_up parent (swap_entries index parent xs)
      else xs)"

declare sift_up.simps [simp del]

definition add_timeout :: "timeout \<Rightarrow> timeout_queue \<Rightarrow> timeout_queue" where
  "add_timeout to q = (let oldcount = length (tq q); newcount = oldcount + 1 in
     \<lparr>tq = sift_up oldcount (tq q @ [to]),
      tq_capacity = (if newcount > tq_capacity q then 2 * newcount else tq_capacity q)\<rparr>)"

text \<open>The time after an interval: \<open>round (delta * 1000)\<close>, halves away from zero, added to the
  64-bit milliseconds. What does not fit is undefined; only infinities are handled.\<close>

definition dbl_times :: "double \<Rightarrow> int \<Rightarrow> double" where
  "dbl_times d k = (case d of
     Finite s n \<Rightarrow> dbl_round s (dbl_sig n * k * 2 ^ nat (dbl_exp n)) (2 ^ nat (- dbl_exp n))
   | _ \<Rightarrow> d)"

definition dbl_nearest :: "double \<Rightarrow> int option" where
  "dbl_nearest d = (case d of
     Finite s n \<Rightarrow>
       (let m = dbl_sig n; e = dbl_exp n;
            v = (if e \<ge> 0 then m * 2 ^ nat e else (2 * m + 2 ^ nat (- e)) div (2 * 2 ^ nat (- e)))
        in Some (if s then - v else v))
   | _ \<Rightarrow> None)"

definition checked64 :: "int option \<Rightarrow> fault + int" where
  "checked64 i = (case i of Some i \<Rightarrow> if - (2 ^ 63) \<le> i \<and> i < 2 ^ 63 then Inr i else Inl IntOverflow | None \<Rightarrow> Inl IntOverflow)"

definition ts_delta :: "int \<Rightarrow> double \<Rightarrow> fault + int" where
  "ts_delta ts delta = (case delta of
     Infinity s \<Rightarrow> Inr (if s then ts else 2 ^ 63 - 1)
   | _ \<Rightarrow> rbind (checked64 (dbl_nearest (dbl_times delta 1000))) (\<lambda>ms. checked64 (Some (ts + ms))))"

subsection \<open>The heap\<close>

definition parent_of :: "nat \<Rightarrow> nat" where
  "parent_of i = (i - 1) div 2"

lemma parent_children: "0 < c \<Longrightarrow> parent_of c = i \<longleftrightarrow> c = 2 * i + 1 \<or> c = 2 * i + 2"
  by (auto simp: parent_of_def)

lemma parent_less: "0 < i \<Longrightarrow> parent_of i < i"
  by (simp add: parent_of_def)

definition edge_ok :: "timeout list \<Rightarrow> nat \<Rightarrow> bool" where
  "edge_ok xs c \<longleftrightarrow> due (xs ! parent_of c) \<le> due (xs ! c)"

definition heap :: "timeout list \<Rightarrow> bool" where
  "heap xs \<longleftrightarrow> (\<forall>c. 0 < c \<and> c < length xs \<longrightarrow> edge_ok xs c)"

text \<open>A heap but for the edges down from an entry, or the edge up; the entry's parent is below its children.\<close>

definition bridged :: "timeout list \<Rightarrow> nat \<Rightarrow> bool" where
  "bridged xs i \<longleftrightarrow> (\<forall>c. 0 < i \<and> 0 < c \<and> c < length xs \<and> parent_of c = i \<longrightarrow> due (xs ! parent_of i) \<le> due (xs ! c))"

definition heap_but_down :: "timeout list \<Rightarrow> nat \<Rightarrow> bool" where
  "heap_but_down xs i \<longleftrightarrow> (\<forall>c. 0 < c \<and> c < length xs \<and> parent_of c \<noteq> i \<longrightarrow> edge_ok xs c) \<and> bridged xs i"

definition heap_but_up :: "timeout list \<Rightarrow> nat \<Rightarrow> bool" where
  "heap_but_up xs i \<longleftrightarrow> (\<forall>c. 0 < c \<and> c < length xs \<and> c \<noteq> i \<longrightarrow> edge_ok xs c) \<and> bridged xs i"

lemma length_swap [simp]: "length (swap_entries i j xs) = length xs"
  by (simp add: swap_entries_def)

lemma mset_swap_entries: "i < length xs \<Longrightarrow> j < length xs \<Longrightarrow> mset (swap_entries i j xs) = mset xs"
  unfolding swap_entries_def using mset_swap[of j xs i] by simp

lemma nth_swap: "i < length xs \<Longrightarrow> j < length xs \<Longrightarrow> swap_entries i j xs ! k = (if k = j then xs ! i else if k = i then xs ! j else xs ! k)"
  by (simp add: swap_entries_def nth_list_update)

lemma heap_least:
  assumes "heap xs" "i < length xs"
  shows "due (xs ! 0) \<le> due (xs ! i)"
  using assms(2)
proof (induction i rule: less_induct)
  case (less i)
  show ?case
  proof (cases "i = 0")
    case False
    then have "parent_of i < i" by (simp add: parent_less)
    moreover have "due (xs ! parent_of i) \<le> due (xs ! i)" using assms(1) less.prems False by (simp add: heap_def edge_ok_def)
    ultimately show ?thesis using less by (meson order_trans less_trans)
  qed simp
qed

lemma sift_down_ok:
  assumes "heap_but_down xs i"
  shows "heap (sift_down i xs) \<and> mset (sift_down i xs) = mset xs"
  using assms
proof (induction i xs rule: sift_down.induct)
  case (1 i xs)
  let ?s = "smallest_of xs i"
  show ?case
  proof (cases "?s = i")
    case True
    then have "due (xs ! i) \<le> due (xs ! c)" if "c < length xs" "c = 2 * i + 1 \<or> c = 2 * i + 2" for c
      using that by (auto simp: smallest_of_def smaller_def split: if_splits)
    then have "edge_ok xs c" if "0 < c" "c < length xs" "parent_of c = i" for c
      using that parent_children[of c i] by (simp add: edge_ok_def)
    then have "heap xs" using "1.prems" by (auto simp: heap_def heap_but_down_def)
    then show ?thesis using True by (simp add: sift_down.simps[of i xs])
  next
    case False
    then have s: "?s < length xs" "?s = 2 * i + 1 \<or> ?s = 2 * i + 2" "due (xs ! ?s) < due (xs ! i)"
      using smallest_of_cases[of xs i] by auto
    then have i: "i < length xs" "0 < ?s" "parent_of ?s = i" using parent_children[of ?s i] by auto
    let ?ys = "swap_entries i ?s xs"
    note n = nth_swap[OF i(1) s(1)]
    have least: "due (xs ! ?s) \<le> due (xs ! c)" if "c < length xs" "c = 2 * i + 1 \<or> c = 2 * i + 2" for c
      using that by (auto simp: smallest_of_def smaller_def split: if_splits)
    have old: "edge_ok xs c" if "0 < c" "c < length xs" "parent_of c \<noteq> i" for c
      using "1.prems" that by (simp add: heap_but_down_def)
    have "edge_ok ?ys c" if c: "0 < c" "c < length xs" "parent_of c \<noteq> ?s" for c
    proof -
      consider "parent_of c = i" "c = ?s" | "parent_of c = i" "c \<noteq> ?s" | "c = i" | "parent_of c \<noteq> i" "c \<noteq> i" by blast
      then show ?thesis
      proof cases
        case 1
        then show ?thesis using s(3) False by (simp add: edge_ok_def n)
      next
        case 2
        then have "c \<noteq> i" using parent_less[OF c(1)] by auto
        then show ?thesis using 2 c least[of c] parent_children[of c i] False by (simp add: edge_ok_def n)
      next
        case 3
        then have "due (xs ! parent_of i) \<le> due (xs ! ?s)" using "1.prems" c(1) i s(1) by (simp add: heap_but_down_def bridged_def)
        moreover have "parent_of i \<noteq> i" using 3 parent_less[OF c(1)] by simp
        ultimately show ?thesis using 3 c(3) False by (simp add: edge_ok_def n)
      next
        case 4
        then have "c \<noteq> ?s" using i(3) by auto
        then show ?thesis using 4 c old[OF c(1,2)] by (simp add: edge_ok_def n)
      qed
    qed
    moreover have "bridged ?ys ?s"
      unfolding bridged_def
    proof (intro allI impI)
      fix c assume c: "0 < ?s \<and> 0 < c \<and> c < length ?ys \<and> parent_of c = ?s"
      then have "edge_ok xs c" using old[of c] False by simp
      moreover have "c \<noteq> ?s" "c \<noteq> i" using c i parent_less[of c] parent_less[of ?s] by auto
      ultimately show "due (?ys ! parent_of ?s) \<le> due (?ys ! c)" using c i(3) False by (simp add: edge_ok_def n)
    qed
    ultimately have "heap_but_down ?ys ?s" by (simp add: heap_but_down_def)
    then show ?thesis using "1.IH"[OF refl False] mset_swap_entries[OF i(1) s(1)] False by (simp add: sift_down.simps[of i xs] Let_def)
  qed
qed

lemma sift_up_ok:
  assumes "heap_but_up xs i" "i < length xs"
  shows "heap (sift_up i xs) \<and> mset (sift_up i xs) = mset xs"
  using assms
proof (induction i xs rule: sift_up.induct)
  case (1 i xs)
  let ?p = "parent_of i"
  have old: "edge_ok xs c" if "0 < c" "c < length xs" "c \<noteq> i" for c using "1.prems" that by (simp add: heap_but_up_def)
  show ?case
  proof (cases "0 < i \<and> \<not> due (xs ! ?p) \<le> due (xs ! i)")
    case False
    then have "heap xs" using old by (auto simp: heap_def edge_ok_def)
    then show ?thesis using False by (subst (1 2) sift_up.simps) (auto simp: parent_of_def Let_def)
  next
    case True
    then have i: "0 < i" "due (xs ! i) < due (xs ! ?p)" "?p < i" "?p < length xs" using "1.prems"(2) parent_less[of i] by auto
    let ?ys = "swap_entries i ?p xs"
    note n = nth_swap[OF "1.prems"(2) i(4)]
    have "edge_ok ?ys c" if c: "0 < c" "c < length xs" "c \<noteq> ?p" for c
    proof -
      consider "c = i" | "parent_of c = i" | "parent_of c = ?p" "c \<noteq> i" | "c \<noteq> i" "parent_of c \<noteq> i" "parent_of c \<noteq> ?p" by blast
      then show ?thesis
      proof cases
        case 1
        then show ?thesis using i by (simp add: edge_ok_def n)
      next
        case 2
        then have "due (xs ! ?p) \<le> due (xs ! c)" using "1.prems"(1) c i(1) by (simp add: heap_but_up_def bridged_def)
        moreover have "c \<noteq> i" using 2 parent_less[OF c(1)] by auto
        ultimately show ?thesis using 2 c(3) i(3) by (simp add: edge_ok_def n)
      next
        case 3
        then have "due (xs ! ?p) \<le> due (xs ! c)" using old[OF c(1,2)] by (simp add: edge_ok_def)
        then show ?thesis using 3 c(3) i(2) by (simp add: edge_ok_def n)
      next
        case 4
        then show ?thesis using old[OF c(1,2)] c(3) by (simp add: edge_ok_def n)
      qed
    qed
    moreover have "bridged ?ys ?p"
      unfolding bridged_def
    proof (intro allI impI)
      fix c assume c: "0 < ?p \<and> 0 < c \<and> c < length ?ys \<and> parent_of c = ?p"
      have e: "due (xs ! parent_of ?p) \<le> due (xs ! ?p)" using old[of ?p] c i(3,4) by (simp add: edge_ok_def)
      have q: "parent_of ?p \<noteq> ?p" "parent_of ?p \<noteq> i" using c i(3) parent_less[of ?p] by auto
      show "due (?ys ! parent_of ?p) \<le> due (?ys ! c)"
      proof (cases "c = i")
        case True
        then show ?thesis using e q i(3) by (simp add: n)
      next
        case False
        then have "due (xs ! ?p) \<le> due (xs ! c)" using old[of c] c by (simp add: edge_ok_def)
        moreover have "c \<noteq> ?p" using c parent_less[of c] by auto
        ultimately show ?thesis using e q False by (simp add: n)
      qed
    qed
    ultimately have "heap_but_up ?ys ?p" by (simp add: heap_but_up_def)
    then have "heap (sift_up ?p ?ys) \<and> mset (sift_up ?p ?ys) = mset ?ys"
      using "1.IH"[OF i(1) refl] True i(4) by (simp add: parent_of_def)
    moreover have "sift_up i xs = sift_up ?p ?ys" using True by (subst sift_up.simps) (simp add: parent_of_def Let_def)
    ultimately show ?thesis using mset_swap_entries[OF "1.prems"(2) i(4)] by simp
  qed
qed

lemma pop_first:
  assumes "heap (tq q)" "tq q \<noteq> []"
  shows "heap (tq (pop_timeout 0 q))" "mset (tq (pop_timeout 0 q)) = mset (tq q) - {#tq q ! 0#}"
    "length (tq (pop_timeout 0 q)) = length (tq q) - 1"
proof -
  obtain x xs where q: "tq q = x # xs" using assms(2) by (cases "tq q") auto
  let ?ys = "butlast ((tq q)[0 := last (tq q)])"
  have e: "edge_ok ?ys c" if c: "0 < c" "c < length ?ys" "parent_of c \<noteq> 0" for c
  proof -
    have n: "?ys ! k = tq q ! k" if "0 < k" "k < length ?ys" for k using that by (simp add: nth_butlast)
    have "edge_ok (tq q) c" using assms(1) c by (simp add: heap_def)
    then show ?thesis using n[OF c(1,2)] n[of "parent_of c"] c parent_less[OF c(1)] by (simp add: edge_ok_def)
  qed
  have "heap_but_down ?ys 0" using e by (simp add: heap_but_down_def bridged_def)
  from sift_down_ok[OF this] have s: "heap (tq (pop_timeout 0 q))" "mset (tq (pop_timeout 0 q)) = mset ?ys"
    using assms(2) by (simp_all add: pop_timeout_def)
  have "mset ?ys = mset xs"
  proof (cases xs rule: rev_cases)
    case (snoc zs z)
    then have "?ys = z # zs" by (simp add: q butlast_append)
    then show ?thesis using snoc by simp
  qed (simp add: q)
  then show "heap (tq (pop_timeout 0 q))" "mset (tq (pop_timeout 0 q)) = mset (tq q) - {#tq q ! 0#}"
    using s q by simp_all
  have "length (tq (pop_timeout 0 q)) = length ?ys" using s(2) by (metis size_mset)
  then show "length (tq (pop_timeout 0 q)) = length (tq q) - 1" by simp
qed

lemma add_heap:
  assumes "heap (tq q)"
  shows "heap (tq (add_timeout to q))" "mset (tq (add_timeout to q)) = add_mset to (mset (tq q))"
proof -
  let ?n = "length (tq q)" let ?xs = "tq q @ [to]"
  have "edge_ok ?xs c" if "0 < c" "c < length ?xs" "c \<noteq> ?n" for c
    using assms that parent_less[of c] by (simp add: heap_def edge_ok_def nth_append)
  moreover have "bridged ?xs ?n"
    unfolding bridged_def
  proof (intro allI impI)
    fix c assume "0 < ?n \<and> 0 < c \<and> c < length ?xs \<and> parent_of c = ?n"
    then show "due (?xs ! parent_of ?n) \<le> due (?xs ! c)" using parent_less[of c] by simp
  qed
  ultimately have "heap_but_up ?xs ?n" by (simp add: heap_but_up_def)
  from sift_up_ok[OF this] show "heap (tq (add_timeout to q))" "mset (tq (add_timeout to q)) = add_mset to (mset (tq q))"
    by (simp_all add: add_timeout_def Let_def)
qed

lemma heap_init [simp]: "heap (tq tq_init)"
  by (simp add: heap_def tq_init_def)

text \<open>Taking what is due: the loop that looks at the first timeout and removes it.\<close>

fun pop_due :: "nat \<Rightarrow> int \<Rightarrow> timeout_queue \<Rightarrow> timeout list \<times> timeout_queue" where
  "pop_due 0 now q = ([], q)"
| "pop_due (Suc n) now q = (case peek_timeout q of
     None \<Rightarrow> ([], q)
   | Some to \<Rightarrow> if due to \<le> now then let (tos, q) = pop_due n now (pop_timeout 0 q) in (to # tos, q) else ([], q))"

lemma pop_due_ok:
  assumes "heap (tq q)" "length (tq q) \<le> n"
  shows "heap (tq (snd (pop_due n now q))) \<and> sorted (map due (fst (pop_due n now q)))
    \<and> mset (fst (pop_due n now q)) = filter_mset (\<lambda>to. due to \<le> now) (mset (tq q))
    \<and> mset (tq (snd (pop_due n now q))) = filter_mset (\<lambda>to. \<not> due to \<le> now) (mset (tq q))"
  using assms
proof (induction n arbitrary: q)
  case (Suc n)
  show ?case
  proof (cases "tq q = []")
    case False
    let ?x = "tq q ! 0"
    have x: "?x \<in># mset (tq q)" using False by simp
    have least: "due ?x \<le> due y" if "y \<in># mset (tq q)" for y
      using heap_least[OF Suc.prems(1)] that by (auto simp: in_set_conv_nth)
    show ?thesis
    proof (cases "due ?x \<le> now")
      case True
      let ?q = "pop_timeout 0 q"
      note p = pop_first[OF Suc.prems(1) False]
      have "length (tq ?q) \<le> n" using p(3) Suc.prems(2) by simp
      note ih = Suc.IH[OF p(1) this]
      have "due ?x \<le> due y" if "y \<in> set (fst (pop_due n now ?q))" for y
      proof -
        have "y \<in># mset (fst (pop_due n now ?q))" using that by simp
        then have "y \<in># mset (tq ?q)" using ih by auto
        then show ?thesis using least p(2) by (metis in_diffD)
      qed
      moreover have "mset (tq q) = add_mset ?x (mset (tq ?q))" using p(2) x by simp
      ultimately show ?thesis using True False ih by (auto simp: peek_timeout_def split_def Let_def)
    next
      case late: False
      have "\<not> due y \<le> now" if "y \<in># mset (tq q)" for y using least[OF that] late by simp
      then have "filter_mset (\<lambda>to. due to \<le> now) (mset (tq q)) = {#} \<and> filter_mset (\<lambda>to. \<not> due to \<le> now) (mset (tq q)) = mset (tq q)"
        by (auto simp: filter_mset_eq_conv)
      then show ?thesis using late False Suc.prems by (simp add: peek_timeout_def)
    qed
  qed (use Suc.prems in \<open>simp add: peek_timeout_def\<close>)
qed simp

lemma pop_due_spec:
  assumes "heap (tq q)" "pop_due (length (tq q)) now q = (taken, q2)"
  shows "heap (tq q2) \<and> sorted (map due taken) \<and> mset (taken @ tq q2) = mset (tq q)
    \<and> list_all (\<lambda>y. due y \<le> now) taken \<and> list_all (\<lambda>y. now < due y) (tq q2)"
proof -
  note p = pop_due_ok[OF assms(1) order_refl, of now, unfolded assms(2) fst_conv snd_conv]
  have "set taken = set_mset (filter_mset (\<lambda>to. due to \<le> now) (mset (tq q)))"
    "set (tq q2) = set_mset (filter_mset (\<lambda>to. \<not> due to \<le> now) (mset (tq q)))"
    using p by (metis set_mset_mset)+
  then have "list_all (\<lambda>y. due y \<le> now) taken" "list_all (\<lambda>y. now < due y) (tq q2)" by (auto simp: list_all_iff)
  moreover have "mset (taken @ tq q2) = mset (tq q)" using p multiset_partition[of "mset (tq q)" "\<lambda>to. due to \<le> now"] by simp
  ultimately show ?thesis using p by blast
qed

text \<open>The timeouts are a priority queue: adding one and removing the first keep the heap and change its
  multiset by that one, and the first is the earliest.\<close>

theorem timeouts_heap:
  assumes "heap (tq q)"
  shows "heap (tq (add_timeout to q)) \<and> mset (tq (add_timeout to q)) = add_mset to (mset (tq q))
    \<and> (case peek_timeout q of None \<Rightarrow> tq q = []
       | Some x \<Rightarrow> heap (tq (pop_timeout 0 q)) \<and> mset (tq q) = add_mset x (mset (tq (pop_timeout 0 q)))
           \<and> list_all (\<lambda>y. due x \<le> due y) (tq q))"
proof (cases "tq q = []")
  case False
  have "list_all (\<lambda>y. due (tq q ! 0) \<le> due y) (tq q)" using heap_least[OF assms] by (simp add: list_all_length)
  moreover have "tq q ! 0 \<in># mset (tq q)" using False by simp
  ultimately show ?thesis using pop_first[OF assms False] False add_heap[OF assms] by (simp add: peek_timeout_def)
qed (use add_heap[OF assms] in \<open>simp add: peek_timeout_def\<close>)

theorem timeouts_heap_witness:
  "\<exists>q x. heap (tq q) \<and> length (tq q) = 3 \<and> peek_timeout q = Some x \<and> due x = 2 \<and> heap (tq (pop_timeout 0 q))"
proof -
  define t where "t n = \<lparr>due = n, to_fiber = 0, to_curr_fiber = None, to_sched_id = 0, to_is_error = False\<rparr>" for n
  define q where "q = add_timeout (t 5) (add_timeout (t 2) (add_timeout (t 9) tq_init))"
  have h: "heap (tq q)" unfolding q_def by (intro add_heap heap_init)
  have e: "tq q = [t 2, t 9, t 5]"
    by (simp add: q_def t_def add_timeout_def tq_init_def sift_up.simps swap_entries_def Let_def)
  then have "peek_timeout q = Some (t 2)" by (simp add: peek_timeout_def)
  then show ?thesis using timeouts_heap[OF h] h e by (intro exI[of _ q] exI[of _ "t 2"]) (auto simp: t_def)
qed

end
