(* ===== verification/Channels.thy ===== *)
theory Channels
  imports Queues Timeouts
begin

text \<open>
  Tasks, channels and the loop of \<^verbatim>\<open>src/core/ev.c\<close> (amalg/janet.c), for the channels of
  one thread. Fibers and channels are numbers; of a fiber the model has what the loop keeps in it. An
  action changes the interpreter's state also when it panics; a native function that waits ends with
  \<open>Awaits\<close>, the signal \<open>janet_await\<close> raises.
\<close>

subsection \<open>The state\<close>

datatype signal = JANET_SIGNAL_OK | JANET_SIGNAL_ERROR | JANET_SIGNAL_DEBUG | JANET_SIGNAL_YIELD | JANET_SIGNAL_USER nat

abbreviation JANET_SIGNAL_INTERRUPT :: signal where
  "JANET_SIGNAL_INTERRUPT \<equiv> JANET_SIGNAL_USER 8"

abbreviation JANET_SIGNAL_EVENT :: signal where
  "JANET_SIGNAL_EVENT \<equiv> JANET_SIGNAL_USER 9"

datatype cp_mode = JANET_CP_MODE_READ | JANET_CP_MODE_WRITE | JANET_CP_MODE_CHOICE_READ | JANET_CP_MODE_CHOICE_WRITE

record pending =
  p_fiber :: nat
  p_sched_id :: "32 word"
  p_mode :: cp_mode

record channel =
  items :: "janet janet_queue"
  read_pending :: "pending janet_queue"
  write_pending :: "pending janet_queue"
  limit :: int
  chan_closed :: bool

record task =
  t_fiber :: nat
  t_value :: janet
  t_sig :: signal
  t_expected_sched_id :: "32 word"

text \<open>Of a fiber: its number of schedulings, its flags for the loop, its supervisor, the signals of its
  mask, whether it has finished, and what its environment has under \<open>:task-id\<close>.\<close>

record fiber =
  sched_id :: "32 word"
  ev_canceled :: bool
  ev_suspended :: bool
  is_root :: bool
  supervisor_channel :: "nat option"
  signal_mask :: "signal list"
  finished :: bool
  task_id :: janet

record vm =
  fibers :: "nat \<Rightarrow> fiber"
  n_fibers :: nat
  channels :: "nat \<Rightarrow> channel"
  n_channels :: nat
  spawn :: "task janet_queue"
  timeouts :: timeout_queue
  active_tasks :: "nat set"
  root_fiber :: nat
  vm_fiber :: nat
  extra_listeners :: int
  listener_count :: nat
  auto_suspend :: bool

datatype outcome = Returned janet | Awaits

text \<open>A step that can fault, as an action.\<close>

definition perform :: "('s \<Rightarrow> fault + 's) \<Rightarrow> ('s, unit) act" where
  "perform g s = (case g s of Inl e \<Rightarrow> Inl e | Inr s \<Rightarrow> Inr (Inr (), s))"

definition put_chan :: "nat \<Rightarrow> channel \<Rightarrow> vm \<Rightarrow> vm" where
  "put_chan c ch vm = vm\<lparr>channels := (channels vm)(c := ch)\<rparr>"

definition put_fiber :: "nat \<Rightarrow> fiber \<Rightarrow> vm \<Rightarrow> vm" where
  "put_fiber f x vm = vm\<lparr>fibers := (fibers vm)(f := x)\<rparr>"

subsection \<open>Scheduling\<close>

text \<open>What the push into the queue of tasks answers is not looked at.\<close>

definition janet_schedule_general :: "nat \<Rightarrow> janet \<Rightarrow> signal \<Rightarrow> bool \<Rightarrow> vm \<Rightarrow> fault + vm" where
  "janet_schedule_general f value sig soon vm =
     (let x = fibers vm f in
      if ev_canceled x then Inr vm
      else let vm = (if is_root x then vm else vm\<lparr>active_tasks := insert f (active_tasks vm)\<rparr>);
               id = sched_id x + 1;
               t = \<lparr>t_fiber = f, t_value = value, t_sig = sig, t_expected_sched_id = id\<rparr>;
               vm = put_fiber f (x\<lparr>sched_id := id, is_root := True, ev_canceled := (sig = JANET_SIGNAL_ERROR)\<rparr>) vm
           in rbind (if soon then janet_q_push_head t (spawn vm) else janet_q_push t (spawn vm)) (\<lambda>r.
              Inr (case r of None \<Rightarrow> vm | Some q \<Rightarrow> vm\<lparr>spawn := q\<rparr>)))"

definition janet_cancel :: "nat \<Rightarrow> janet \<Rightarrow> vm \<Rightarrow> fault + vm" where
  "janet_cancel f value vm = janet_schedule_general f value JANET_SIGNAL_ERROR False vm"

definition janet_schedule :: "nat \<Rightarrow> janet \<Rightarrow> vm \<Rightarrow> fault + vm" where
  "janet_schedule f value vm = janet_schedule_general f value JANET_SIGNAL_OK False vm"

subsection \<open>Channels\<close>

definition janet_chan_init :: "int \<Rightarrow> channel" where
  "janet_chan_init lm = \<lparr>items = janet_q_init, read_pending = janet_q_init, write_pending = janet_q_init,
     limit = lm, chan_closed = False\<rparr>"

definition janet_wrap_channel :: "nat \<Rightarrow> janet" where
  "janet_wrap_channel c = JAbstract (AbsOther ''core/channel'' c)"

definition make_write_result :: "nat \<Rightarrow> janet" where
  "make_write_result c = JTuple [JKeyword (bs ''give''), janet_wrap_channel c]"

definition make_read_result :: "nat \<Rightarrow> janet \<Rightarrow> janet" where
  "make_read_result c x = JTuple [JKeyword (bs ''take''), janet_wrap_channel c, x]"

definition make_close_result :: "nat \<Rightarrow> janet" where
  "make_close_result c = JTuple [JKeyword (bs ''close''), janet_wrap_channel c]"

definition janet_getchannel :: "janet list \<Rightarrow> nat \<Rightarrow> panic + nat" where
  "janet_getchannel argv n = (case argv ! n of
     JAbstract (AbsOther name c) \<Rightarrow>
       (if name = ''core/channel'' then Inr c else Inl (janet_panic_abstract (argv ! n) n ''core/channel''))
   | x \<Rightarrow> Inl (janet_panic_abstract x n ''core/channel''))"

definition janet_optchannel :: "janet list \<Rightarrow> nat \<Rightarrow> nat option \<Rightarrow> panic + nat option" where
  "janet_optchannel argv n dflt =
     (if length argv > n \<and> argv ! n \<noteq> JNil then rbind (janet_getchannel argv n) (\<lambda>c. Inr (Some c)) else Inr dflt)"

text \<open>The fiber that waits, as the channel remembers it.\<close>

definition pending_root :: "cp_mode \<Rightarrow> vm \<Rightarrow> pending" where
  "pending_root mode vm = \<lparr>p_fiber = root_fiber vm, p_sched_id = sched_id (fibers vm (root_fiber vm)), p_mode = mode\<rparr>"

definition add_writer :: "nat \<Rightarrow> cp_mode \<Rightarrow> vm \<Rightarrow> fault + vm" where
  "add_writer c mode vm = (let ch = channels vm c in
     rbind (janet_q_push (pending_root mode vm) (write_pending ch)) (\<lambda>r.
     Inr (case r of None \<Rightarrow> vm | Some q \<Rightarrow> put_chan c (ch\<lparr>write_pending := q\<rparr>) vm)))"

definition add_reader :: "nat \<Rightarrow> cp_mode \<Rightarrow> vm \<Rightarrow> fault + vm" where
  "add_reader c mode vm = (let ch = channels vm c in
     rbind (janet_q_push (pending_root mode vm) (read_pending ch)) (\<lambda>r.
     Inr (case r of None \<Rightarrow> vm | Some q \<Rightarrow> put_chan c (ch\<lparr>read_pending := q\<rparr>) vm)))"

definition still_waits :: "vm \<Rightarrow> pending \<Rightarrow> bool" where
  "still_waits vm r \<longleftrightarrow> p_sched_id r = sched_id (fibers vm (p_fiber r))"

definition wake_reader :: "nat \<Rightarrow> janet \<Rightarrow> pending \<Rightarrow> vm \<Rightarrow> fault + vm" where
  "wake_reader c x reader vm = janet_schedule (p_fiber reader)
     (if p_mode reader = JANET_CP_MODE_CHOICE_READ then make_read_result c x else x) vm"

definition wake_writer :: "nat \<Rightarrow> pending \<Rightarrow> vm \<Rightarrow> fault + vm" where
  "wake_writer c writer vm = janet_schedule (p_fiber writer)
     (if p_mode writer = JANET_CP_MODE_CHOICE_WRITE then make_write_result c else janet_wrap_channel c) vm"

text \<open>Giving: True when the giver is to wait. Mode 0 is \<open>ev/give\<close>, 1 a clause of
  \<open>ev/select\<close>, 2 the event of a supervisor. The search for a reader ends after as many pops as there
  are readers.\<close>

definition janet_channel_push :: "nat \<Rightarrow> janet \<Rightarrow> nat \<Rightarrow> (vm, bool) act" where
  "janet_channel_push c x mode = inspect (\<lambda>vm. let ch = channels vm c in
     if chan_closed ch then throw ''cannot write to closed channel'' []
     else
       andnext (attempt (q_pop_until (Suc (nat (janet_q_count (read_pending ch)))) (still_waits vm) (read_pending ch))) (\<lambda>(reader, rp).
       let ch = ch\<lparr>read_pending := rp\<rparr> in
       andnext (modify (put_chan c ch)) (\<lambda>_.
       case reader of
         None \<Rightarrow>
           andnext (attempt (janet_q_push x (items ch))) (\<lambda>r. case r of
             None \<Rightarrow> throw ''channel overflow: %v'' [AVal x]
           | Some q \<Rightarrow>
               andnext (modify (put_chan c (ch\<lparr>items := q\<rparr>))) (\<lambda>_.
               if janet_q_count q > limit ch then
                 if mode = 2 then give False
                 else andnext (perform (add_writer c (if mode \<noteq> 0 then JANET_CP_MODE_CHOICE_WRITE else JANET_CP_MODE_WRITE)))
                        (\<lambda>_. give True)
               else give False))
       | Some reader \<Rightarrow> andnext (perform (wake_reader c x reader)) (\<lambda>_. give False))))"

text \<open>Taking: the item, or None when the taker is to wait. A writer is woken whether or not it still waits.\<close>

definition janet_channel_pop :: "nat \<Rightarrow> bool \<Rightarrow> (vm, janet option) act" where
  "janet_channel_pop c is_choice = inspect (\<lambda>vm. let ch = channels vm c in
     if chan_closed ch then give (Some JNil)
     else
       andnext (attempt (janet_q_pop (items ch))) (\<lambda>r. case r of
         None \<Rightarrow> andnext (perform (add_reader c (if is_choice then JANET_CP_MODE_CHOICE_READ else JANET_CP_MODE_READ)))
                   (\<lambda>_. give None)
       | Some (item, q) \<Rightarrow>
           andnext (attempt (janet_q_pop (write_pending ch))) (\<lambda>w. case w of
             None \<Rightarrow> andnext (modify (put_chan c (ch\<lparr>items := q\<rparr>))) (\<lambda>_. give (Some item))
           | Some (writer, wp) \<Rightarrow>
               andnext (modify (put_chan c (ch\<lparr>items := q, write_pending := wp\<rparr>))) (\<lambda>_.
               andnext (perform (wake_writer c writer)) (\<lambda>_. give (Some item))))))"

subsection \<open>The native functions\<close>

definition cfun_channel_push :: "janet list \<Rightarrow> (vm, outcome) act" where
  "cfun_channel_push argv =
     andnext (require (janet_fixarity (length argv) 2)) (\<lambda>_.
     andnext (require (janet_getchannel argv 0)) (\<lambda>c.
     andnext (janet_channel_push c (argv ! 1) 0) (\<lambda>waits.
     give (if waits then Awaits else Returned (argv ! 0)))))"

definition cfun_channel_pop :: "janet list \<Rightarrow> (vm, outcome) act" where
  "cfun_channel_pop argv =
     andnext (require (janet_fixarity (length argv) 1)) (\<lambda>_.
     andnext (require (janet_getchannel argv 0)) (\<lambda>c.
     andnext (janet_channel_pop c False) (\<lambda>r. case r of
       Some item \<Rightarrow> inspect (\<lambda>vm. andnext (perform (janet_schedule (root_fiber vm) item)) (\<lambda>_. give Awaits))
     | None \<Rightarrow> give Awaits)))"

text \<open>A clause of \<open>ev/select\<close>: two values are a channel and what to give, anything else a channel
  to take from.\<close>

definition clause_at :: "janet list \<Rightarrow> nat \<Rightarrow> panic + nat \<times> janet option" where
  "clause_at argv i = (case janet_indexed_view (argv ! i) of
     Some data \<Rightarrow> if length data = 2 then rbind (janet_getchannel data 0) (\<lambda>c. Inr (c, Some (data ! 1)))
                  else rbind (janet_getchannel argv i) (\<lambda>c. Inr (c, None))
   | None \<Rightarrow> rbind (janet_getchannel argv i) (\<lambda>c. Inr (c, None)))"

fun choice_now :: "janet list \<Rightarrow> nat list \<Rightarrow> (vm, janet option) act" where
  "choice_now argv [] = give None"
| "choice_now argv (i # is) =
     andnext (require (clause_at argv i)) (\<lambda>(c, give_x). inspect (\<lambda>vm. let ch = channels vm c in
       if chan_closed ch then give (Some (make_close_result c))
       else case give_x of
         Some x \<Rightarrow>
           if janet_q_count (items ch) < limit ch
           then andnext (janet_channel_push c x 1) (\<lambda>_. give (Some (make_write_result c)))
           else choice_now argv is
       | None \<Rightarrow>
           if q_head (items ch) \<noteq> q_tail (items ch)
           then andnext (janet_channel_pop c True) (\<lambda>r. case r of
                  Some item \<Rightarrow> give (Some (make_read_result c item)) | None \<Rightarrow> attempt (Inl Uninitialised))
           else choice_now argv is))"

fun choice_wait :: "janet list \<Rightarrow> nat list \<Rightarrow> (vm, unit) act" where
  "choice_wait argv [] = give ()"
| "choice_wait argv (i # is) =
     andnext (require (clause_at argv i)) (\<lambda>(c, give_x). case give_x of
       Some x \<Rightarrow> andnext (janet_channel_push c x 1) (\<lambda>_. choice_wait argv is)
     | None \<Rightarrow> andnext (janet_channel_pop c True) (\<lambda>_. choice_wait argv is))"

definition cfun_channel_choice :: "janet list \<Rightarrow> (vm, outcome) act" where
  "cfun_channel_choice argv =
     andnext (require (janet_arity (length argv) 1 (-1))) (\<lambda>_.
     andnext (choice_now argv [0..<length argv]) (\<lambda>r. case r of
       Some x \<Rightarrow> give (Returned x)
     | None \<Rightarrow> andnext (choice_wait argv [0..<length argv]) (\<lambda>_. give Awaits)))"

text \<open>The arguments in the order of a shuffle, whose numbers come from a generator.\<close>

fun fisher_yates_args :: "nat \<Rightarrow> nat list \<Rightarrow> janet list \<Rightarrow> janet list" where
  "fisher_yates_args (Suc (Suc i)) (u # us) argv =
     (let swap_index = u mod Suc (Suc i)
      in fisher_yates_args (Suc i) us (argv[swap_index := argv ! Suc i, Suc i := argv ! swap_index]))"
| "fisher_yates_args _ _ argv = argv"

definition cfun_channel_rchoice :: "nat list \<Rightarrow> janet list \<Rightarrow> (vm, outcome) act" where
  "cfun_channel_rchoice us argv = cfun_channel_choice (fisher_yates_args (length argv) us argv)"

definition chan_query :: "(channel \<Rightarrow> janet) \<Rightarrow> janet list \<Rightarrow> (vm, outcome) act" where
  "chan_query f argv =
     andnext (require (janet_fixarity (length argv) 1)) (\<lambda>_.
     andnext (require (janet_getchannel argv 0)) (\<lambda>c.
     inspect (\<lambda>vm. give (Returned (f (channels vm c))))))"

definition cfun_channel_full :: "janet list \<Rightarrow> (vm, outcome) act" where
  "cfun_channel_full = chan_query (\<lambda>ch. JBool (janet_q_count (items ch) \<ge> limit ch))"

definition cfun_channel_capacity :: "janet list \<Rightarrow> (vm, outcome) act" where
  "cfun_channel_capacity = chan_query (\<lambda>ch. janet_wrap_integer (limit ch))"

definition cfun_channel_count :: "janet list \<Rightarrow> (vm, outcome) act" where
  "cfun_channel_count = chan_query (\<lambda>ch. janet_wrap_integer (janet_q_count (items ch)))"

definition janet_optnat :: "janet list \<Rightarrow> nat \<Rightarrow> int \<Rightarrow> panic + int" where
  "janet_optnat argv n dflt = (if length argv \<le> n \<or> argv ! n = JNil then Inr dflt else janet_getnat argv n)"

definition cfun_channel_new :: "janet list \<Rightarrow> (vm, outcome) act" where
  "cfun_channel_new argv =
     andnext (require (janet_arity (length argv) 0 1)) (\<lambda>_.
     andnext (require (janet_optnat argv 0 0)) (\<lambda>lm.
     inspect (\<lambda>vm. let c = n_channels vm in
       andnext (modify (\<lambda>vm. put_chan c (janet_chan_init lm) (vm\<lparr>n_channels := Suc c\<rparr>))) (\<lambda>_.
       give (Returned (janet_wrap_channel c))))))"

text \<open>Closing wakes all that wait, one pop after the other.\<close>

fun close_loop :: "nat \<Rightarrow> cp_mode \<Rightarrow> nat \<Rightarrow> pending janet_queue \<Rightarrow> vm \<Rightarrow> fault + pending janet_queue \<times> vm" where
  "close_loop 0 choice c q vm = Inr (q, vm)"
| "close_loop (Suc n) choice c q vm =
     rbind (janet_q_pop q) (\<lambda>r. case r of
       None \<Rightarrow> Inr (q, vm)
     | Some (w, q) \<Rightarrow>
         rbind (janet_schedule (p_fiber w) (if p_mode w = choice then make_close_result c else JNil) vm) (\<lambda>vm.
         close_loop n choice c q vm))"

definition close_channel :: "nat \<Rightarrow> vm \<Rightarrow> fault + vm" where
  "close_channel c vm = (let ch = channels vm c in
     if chan_closed ch then Inr vm
     else
       rbind (close_loop (Suc (nat (janet_q_count (write_pending ch)))) JANET_CP_MODE_CHOICE_WRITE c (write_pending ch)
                (put_chan c (ch\<lparr>chan_closed := True\<rparr>) vm)) (\<lambda>(wp, vm).
       rbind (close_loop (Suc (nat (janet_q_count (read_pending ch)))) JANET_CP_MODE_CHOICE_READ c (read_pending ch)
                vm) (\<lambda>(rp, vm).
       Inr (put_chan c (ch\<lparr>chan_closed := True, write_pending := wp, read_pending := rp\<rparr>) vm))))"

definition cfun_channel_close :: "janet list \<Rightarrow> (vm, outcome) act" where
  "cfun_channel_close argv =
     andnext (require (janet_fixarity (length argv) 1)) (\<lambda>_.
     andnext (require (janet_getchannel argv 0)) (\<lambda>c.
     andnext (perform (close_channel c)) (\<lambda>_. give (Returned (argv ! 0)))))"

definition janet_getfiber :: "janet list \<Rightarrow> nat \<Rightarrow> panic + nat" where
  "janet_getfiber argv n = (case argv ! n of
     JFiber f \<Rightarrow> Inr f | x \<Rightarrow> Inl (janet_panic_type x n [JANET_FIBER]))"

definition janet_optfiber :: "janet list \<Rightarrow> nat \<Rightarrow> nat \<Rightarrow> panic + nat" where
  "janet_optfiber argv n dflt = (if length argv \<le> n \<or> argv ! n = JNil then Inr dflt else janet_getfiber argv n)"

text \<open>The fiber \<open>ev/go\<close> makes for a function: its mask, and an environment that falls back on
  that of the fiber that runs.\<close>

definition task_fiber :: "vm \<Rightarrow> fiber" where
  "task_fiber vm = \<lparr>sched_id = 0, ev_canceled = False, ev_suspended = False, is_root = False, supervisor_channel = None,
     signal_mask = [JANET_SIGNAL_ERROR, JANET_SIGNAL_USER 0, JANET_SIGNAL_USER 1, JANET_SIGNAL_USER 2, JANET_SIGNAL_USER 3,
       JANET_SIGNAL_USER 4], finished = False, task_id = task_id (fibers vm (vm_fiber vm))\<rparr>"

definition go_fiber :: "(nat \<Rightarrow> int) \<Rightarrow> janet list \<Rightarrow> (vm, nat) act" where
  "go_fiber min_arity argv = (case argv ! 0 of
     JFunction func \<Rightarrow>
       (if min_arity func > 1 then throw ''task function must accept 0 or 1 arguments'' []
        else inspect (\<lambda>vm. andnext (modify (\<lambda>vm. put_fiber (n_fibers vm) (task_fiber vm) (vm\<lparr>n_fibers := Suc (n_fibers vm)\<rparr>)))
          (\<lambda>_. give (n_fibers vm))))
   | _ \<Rightarrow> require (janet_getfiber argv 0))"

text \<open>The least number of arguments of a function is an argument here.\<close>

definition cfun_ev_go :: "(nat \<Rightarrow> int) \<Rightarrow> janet list \<Rightarrow> (vm, outcome) act" where
  "cfun_ev_go min_arity argv =
     andnext (require (janet_arity (length argv) 1 3)) (\<lambda>_. inspect (\<lambda>vm.
     andnext (require (janet_optchannel argv 2 (supervisor_channel (fibers vm (root_fiber vm))))) (\<lambda>sv.
     andnext (go_fiber min_arity argv) (\<lambda>f.
     andnext (modify (\<lambda>vm. put_fiber f ((fibers vm f)\<lparr>supervisor_channel := sv\<rparr>) vm)) (\<lambda>_.
     andnext (perform (janet_schedule f (if length argv \<ge> 2 then argv ! 1 else JNil))) (\<lambda>_.
     give (Returned (JFiber f))))))))"

definition cfun_ev_cancel :: "janet list \<Rightarrow> (vm, outcome) act" where
  "cfun_ev_cancel argv =
     andnext (require (janet_fixarity (length argv) 2)) (\<lambda>_.
     andnext (require (janet_getfiber argv 0)) (\<lambda>f.
     andnext (perform (janet_cancel f (argv ! 1))) (\<lambda>_. give (Returned (argv ! 0)))))"

definition cfun_ev_give_supervisor :: "janet list \<Rightarrow> (vm, outcome) act" where
  "cfun_ev_give_supervisor argv =
     andnext (require (janet_arity (length argv) 1 (-1))) (\<lambda>_. inspect (\<lambda>vm.
     case supervisor_channel (fibers vm (root_fiber vm)) of
       None \<Rightarrow> give (Returned JNil)
     | Some c \<Rightarrow> andnext (janet_channel_push c (JTuple argv) 0) (\<lambda>waits. give (if waits then Awaits else Returned JNil))))"

definition new_timeout :: "timeout \<Rightarrow> vm \<Rightarrow> vm" where
  "new_timeout to vm = vm\<lparr>timeouts := add_timeout to (timeouts vm)\<rparr>"

text \<open>The clock is an argument.\<close>

definition janet_sleep_await :: "int \<Rightarrow> double \<Rightarrow> (vm, outcome) act" where
  "janet_sleep_await ts_now sec = andnext (attempt (ts_delta ts_now sec)) (\<lambda>w. inspect (\<lambda>vm.
     andnext (modify (new_timeout \<lparr>due = w, to_fiber = root_fiber vm, to_curr_fiber = None,
       to_sched_id = sched_id (fibers vm (root_fiber vm)), to_is_error = False\<rparr>)) (\<lambda>_. give Awaits)))"

definition janet_addtimeout :: "int \<Rightarrow> double \<Rightarrow> (vm, unit) act" where
  "janet_addtimeout ts_now sec = andnext (attempt (ts_delta ts_now sec)) (\<lambda>w. inspect (\<lambda>vm.
     modify (new_timeout \<lparr>due = w, to_fiber = root_fiber vm, to_curr_fiber = None,
       to_sched_id = sched_id (fibers vm (root_fiber vm)), to_is_error = True\<rparr>)))"

definition cfun_ev_sleep :: "int \<Rightarrow> janet list \<Rightarrow> (vm, outcome) act" where
  "cfun_ev_sleep ts_now argv =
     andnext (require (janet_fixarity (length argv) 1)) (\<lambda>_.
     andnext (require (janet_getnumber argv 0)) (\<lambda>sec. janet_sleep_await ts_now sec))"

definition cfun_ev_deadline :: "int \<Rightarrow> janet list \<Rightarrow> (vm, outcome) act" where
  "cfun_ev_deadline ts_now argv =
     andnext (require (janet_arity (length argv) 1 3)) (\<lambda>_.
     andnext (require (janet_getnumber argv 0)) (\<lambda>sec. inspect (\<lambda>vm.
     andnext (require (janet_optfiber argv 1 (root_fiber vm))) (\<lambda>tocancel.
     andnext (require (janet_optfiber argv 2 (vm_fiber vm))) (\<lambda>tocheck.
     andnext (attempt (ts_delta ts_now sec)) (\<lambda>w.
     andnext (modify (new_timeout \<lparr>due = w, to_fiber = tocancel, to_curr_fiber = Some tocheck,
       to_sched_id = sched_id (fibers vm tocancel), to_is_error = False\<rparr>)) (\<lambda>_.
     give (Returned (JFiber tocancel)))))))))"

subsection \<open>What the collector marks\<close>

definition janet_chanat_mark_fq :: "pending janet_queue \<Rightarrow> fault + janet list" where
  "janet_chanat_mark_fq fq = rbind (q_segments fq) (\<lambda>ps. Inr (map (\<lambda>p. JFiber (p_fiber p)) ps))"

definition janet_chanat_mark :: "channel \<Rightarrow> fault + janet list" where
  "janet_chanat_mark ch =
     rbind (janet_chanat_mark_fq (read_pending ch)) (\<lambda>rs.
     rbind (janet_chanat_mark_fq (write_pending ch)) (\<lambda>ws.
     rbind (q_segments (items ch)) (\<lambda>xs. Inr (rs @ ws @ xs))))"

text \<open>The tasks and the timeouts; listeners are not part of the model.\<close>

definition janet_ev_mark :: "vm \<Rightarrow> fault + janet list" where
  "janet_ev_mark vm = rbind (q_segments (spawn vm)) (\<lambda>ts.
     Inr (concat (map (\<lambda>t. [JFiber (t_fiber t), t_value t]) ts)
       @ concat (map (\<lambda>to. JFiber (to_fiber to) # (case to_curr_fiber to of None \<Rightarrow> [] | Some f \<Rightarrow> [JFiber f])) (tq (timeouts vm)))))"

end
