(* ===== verification/EvLoop.thy ===== *)
theory EvLoop
  imports Channels
begin

text \<open>
  The loop of \<^verbatim>\<open>src/core/ev.c\<close> (amalg/janet.c): timeouts that are due, then the tasks,
  then the wait for events. Running a fiber until its next signal is an argument,
  \<open>resume\<close>, and so are the clock and the wait of the operating system, \<open>poll\<close>.
\<close>

type_synonym resumption = "nat \<Rightarrow> janet \<Rightarrow> signal \<Rightarrow> vm \<Rightarrow> signal \<times> vm"

definition janet_loop_done :: "vm \<Rightarrow> bool" where
  "janet_loop_done vm \<longleftrightarrow> \<not> (listener_count vm \<noteq> 0 \<or> q_head (spawn vm) \<noteq> q_tail (spawn vm)
     \<or> tq (timeouts vm) \<noteq> [] \<or> extra_listeners vm \<noteq> 0)"

subsection \<open>Timeouts\<close>

definition drop_first :: "vm \<Rightarrow> vm" where
  "drop_first vm = vm\<lparr>timeouts := pop_timeout 0 (timeouts vm)\<rparr>"

definition timed_out :: "timeout \<Rightarrow> vm \<Rightarrow> fault + vm" where
  "timed_out to vm = (case to_curr_fiber to of
     Some f \<Rightarrow>
       (if \<not> finished (fibers vm f) then janet_cancel (to_fiber to) (JString (bs ''deadline expired'')) vm else Inr vm)
   | None \<Rightarrow>
       (if sched_id (fibers vm (to_fiber to)) = to_sched_id to
        then if to_is_error to then janet_cancel (to_fiber to) (JString (bs ''timeout'')) vm
             else janet_schedule (to_fiber to) JNil vm
        else Inr vm))"

text \<open>Every round takes one timeout away, so as many rounds as there are timeouts are enough.\<close>

fun expire_loop :: "nat \<Rightarrow> int \<Rightarrow> vm \<Rightarrow> fault + vm" where
  "expire_loop 0 now vm = Inr vm"
| "expire_loop (Suc n) now vm = (case peek_timeout (timeouts vm) of
     None \<Rightarrow> Inr vm
   | Some to \<Rightarrow> if due to \<le> now then rbind (timed_out to (drop_first vm)) (expire_loop n now) else Inr vm)"

fun drop_stale :: "nat \<Rightarrow> vm \<Rightarrow> vm" where
  "drop_stale 0 vm = vm"
| "drop_stale (Suc n) vm = (case peek_timeout (timeouts vm) of
     None \<Rightarrow> vm
   | Some to \<Rightarrow> (case to_curr_fiber to of
       Some f \<Rightarrow>
         (if finished (fibers vm f)
          then drop_stale n (drop_first (vm\<lparr>active_tasks := active_tasks vm - {f}\<rparr>)) else vm)
     | None \<Rightarrow>
         (if sched_id (fibers vm (to_fiber to)) \<noteq> to_sched_id to then drop_stale n (drop_first vm) else vm)))"

subsection \<open>Tasks\<close>

text \<open>The flags are cleared whether or not the task is still the one expected.\<close>

definition begin_task :: "task \<Rightarrow> vm \<Rightarrow> vm" where
  "begin_task task vm = (let x = fibers vm (t_fiber task);
       vm = (if ev_suspended x then vm\<lparr>extra_listeners := extra_listeners vm - 1\<rparr> else vm)
     in put_fiber (t_fiber task) (x\<lparr>ev_canceled := False, ev_suspended := False\<rparr>) vm)"

definition signal_name :: "signal \<Rightarrow> string" where
  "signal_name sig = (case sig of
     JANET_SIGNAL_OK \<Rightarrow> ''ok'' | JANET_SIGNAL_ERROR \<Rightarrow> ''error'' | JANET_SIGNAL_DEBUG \<Rightarrow> ''debug''
   | JANET_SIGNAL_YIELD \<Rightarrow> ''yield''
   | JANET_SIGNAL_USER n \<Rightarrow> (if n = 8 then ''interrupt'' else if n = 9 then ''await'' else ''user'' @ [char_of (n + 48)]))"

definition make_supervisor_event :: "string \<Rightarrow> nat \<Rightarrow> vm \<Rightarrow> janet" where
  "make_supervisor_event name f vm = JTuple [JKeyword (bs name), JFiber f, task_id (fibers vm f)]"

definition is_suspended :: "signal \<Rightarrow> bool" where
  "is_suspended sig \<longleftrightarrow> sig = JANET_SIGNAL_EVENT \<or> sig = JANET_SIGNAL_YIELD \<or> sig = JANET_SIGNAL_INTERRUPT"

text \<open>After a fiber has run. Stack traces are printed and leave nothing behind.\<close>

definition end_task :: "nat \<Rightarrow> signal \<Rightarrow> (vm, unit) act" where
  "end_task f sig = inspect (\<lambda>vm.
     let x = fibers vm f;
         vm1 = (if finished x then vm\<lparr>active_tasks := active_tasks vm - {f}\<rparr> else vm);
         vm2 = (if is_suspended sig
                then (put_fiber f (x\<lparr>ev_suspended := True\<rparr>) vm1)\<lparr>extra_listeners := extra_listeners vm1 + 1\<rparr> else vm1)
     in andnext (modify (\<lambda>_. vm2)) (\<lambda>_. case supervisor_channel x of
          None \<Rightarrow> give ()
        | Some c \<Rightarrow>
            if sig = JANET_SIGNAL_OK \<or> sig \<in> set (signal_mask x)
            then andnext (janet_channel_push c (make_supervisor_event (signal_name sig) f vm2) 2) (\<lambda>_. give ())
            else give ()))"

text \<open>One round over the tasks; the result is the fiber that was interrupted, if it was.\<close>

definition resume_task :: "resumption \<Rightarrow> task \<Rightarrow> (vm, nat option) act" where
  "resume_task resume task = inspect (\<lambda>vm. let f = t_fiber task in
     if t_expected_sched_id task \<noteq> sched_id (fibers vm f) then give None
     else let (sig, vm2) = resume f (t_value task) (t_sig task) vm in
       andnext (modify (\<lambda>_. vm2)) (\<lambda>_.
       andnext (end_task f sig) (\<lambda>_. give (if sig = JANET_SIGNAL_INTERRUPT then Some f else None))))"

definition run_task :: "resumption \<Rightarrow> (vm, nat option) act" where
  "run_task resume = inspect (\<lambda>vm.
     andnext (attempt (janet_q_pop (spawn vm))) (\<lambda>r. case r of
       None \<Rightarrow> attempt (Inl Uninitialised)
     | Some (task, q) \<Rightarrow>
         andnext (modify (\<lambda>vm. begin_task task (vm\<lparr>spawn := q\<rparr>))) (\<lambda>_. resume_task resume task)))"

text \<open>The outer \<open>None\<close> is that the tasks never run out.\<close>

partial_function (option) run_tasks :: "resumption \<Rightarrow> vm \<Rightarrow> (fault + (panic + nat option) \<times> vm) option" where
  "run_tasks resume vm =
     (if q_head (spawn vm) = q_tail (spawn vm) \<or> auto_suspend vm then Some (Inr (Inr None, vm))
      else case run_task resume vm of
        Inl e \<Rightarrow> Some (Inl e)
      | Inr r \<Rightarrow> (if fst r = Inr None then run_tasks resume (snd r) else Some (Inr r)))"

definition poll_events :: "(timeout option \<Rightarrow> vm \<Rightarrow> vm) \<Rightarrow> vm \<Rightarrow> vm" where
  "poll_events poll vm =
     (if listener_count vm \<noteq> 0 \<or> tq (timeouts vm) \<noteq> [] \<or> extra_listeners vm \<noteq> 0
      then let vm = drop_stale (length (tq (timeouts vm))) vm in
        (if tq (timeouts vm) \<noteq> [] \<or> listener_count vm \<noteq> 0 \<or> extra_listeners vm \<noteq> 0
         then poll (peek_timeout (timeouts vm)) vm else vm)
      else vm)"

definition janet_loop1 :: "int \<Rightarrow> resumption \<Rightarrow> (timeout option \<Rightarrow> vm \<Rightarrow> vm) \<Rightarrow> vm \<Rightarrow> (fault + (panic + nat option) \<times> vm) option" where
  "janet_loop1 now resume poll vm = (case expire_loop (length (tq (timeouts vm))) now vm of
     Inl e \<Rightarrow> Some (Inl e)
   | Inr vm \<Rightarrow> map_option (\<lambda>r. case r of
       Inl e \<Rightarrow> Inl e
     | Inr (x, vm) \<Rightarrow> Inr (x, if x = Inr None then poll_events poll vm else vm)) (run_tasks resume vm))"

text \<open>The clock in each round is an argument; None is that the loop does not end.\<close>

partial_function (option) janet_loop_from :: "(nat \<Rightarrow> int) \<Rightarrow> resumption \<Rightarrow> (timeout option \<Rightarrow> vm \<Rightarrow> vm) \<Rightarrow> nat \<Rightarrow> vm
    \<Rightarrow> (fault + (panic + unit) \<times> vm) option" where
  "janet_loop_from clock resume poll i vm =
     (if janet_loop_done vm then Some (Inr (Inr (), vm))
      else Option.bind (janet_loop1 (clock i) resume poll vm) (\<lambda>r. case r of
        Inl e \<Rightarrow> Some (Inl e)
      | Inr (Inl p, vm) \<Rightarrow> Some (Inr (Inl p, vm))
      | Inr (Inr None, vm) \<Rightarrow> janet_loop_from clock resume poll (Suc i) vm
      | Inr (Inr (Some f), vm) \<Rightarrow> (case janet_schedule f JNil vm of
            Inl e \<Rightarrow> Some (Inl e)
          | Inr vm \<Rightarrow> janet_loop_from clock resume poll (Suc i) vm)))"

definition janet_loop :: "(nat \<Rightarrow> int) \<Rightarrow> resumption \<Rightarrow> (timeout option \<Rightarrow> vm \<Rightarrow> vm) \<Rightarrow> vm \<Rightarrow> (fault + (panic + unit) \<times> vm) option" where
  "janet_loop clock resume poll vm = janet_loop_from clock resume poll 0 vm"

end
