(* ===== verification/ChannelProps.thy ===== *)
theory ChannelProps
  imports EvLoop
begin

text \<open>
  What the channels and the loop do: giving and taking against a channel of lists, the order of the
  values over any history, and the histories in which a task is forgotten, woken twice or never woken.
\<close>

subsection \<open>The state in lists\<close>

definition chan_ok :: "channel \<Rightarrow> bool" where
  "chan_ok ch \<longleftrightarrow> q_ok (items ch) \<and> q_ok (read_pending ch) \<and> q_ok (write_pending ch)"

definition vm_ok :: "vm \<Rightarrow> bool" where
  "vm_ok vm \<longleftrightarrow> q_ok (spawn vm) \<and> (\<forall>c. chan_ok (channels vm c))"

text \<open>A channel as three lists: the items, the readers and the writers that wait.\<close>

record lists =
  l_items :: "janet list"
  l_readers :: "pending list"
  l_writers :: "pending list"

definition chan_lists :: "channel \<Rightarrow> lists" where
  "chan_lists ch = \<lparr>l_items = q_items (items ch), l_readers = q_items (read_pending ch), l_writers = q_items (write_pending ch)\<rparr>"

definition tasks :: "vm \<Rightarrow> task list" where
  "tasks vm = q_items (spawn vm)"

lemma vm_okD: "vm_ok vm \<Longrightarrow> q_ok (spawn vm) \<and> q_ok (items (channels vm c)) \<and> q_ok (read_pending (channels vm c)) \<and> q_ok (write_pending (channels vm c))"
  by (simp add: vm_ok_def chan_ok_def)

lemma put_chan_simps [simp]:
  "channels (put_chan c ch vm) = (channels vm)(c := ch)" "spawn (put_chan c ch vm) = spawn vm"
  "fibers (put_chan c ch vm) = fibers vm" "root_fiber (put_chan c ch vm) = root_fiber vm"
  "timeouts (put_chan c ch vm) = timeouts vm"
  by (simp_all add: put_chan_def)

lemma put_fiber_simps [simp]:
  "channels (put_fiber f x vm) = channels vm" "spawn (put_fiber f x vm) = spawn vm"
  "fibers (put_fiber f x vm) = (fibers vm)(f := x)" "root_fiber (put_fiber f x vm) = root_fiber vm"
  "timeouts (put_fiber f x vm) = timeouts vm"
  by (simp_all add: put_fiber_def)

lemma put_chan_ok: "vm_ok vm \<Longrightarrow> chan_ok ch \<Longrightarrow> vm_ok (put_chan c ch vm)"
  by (simp add: vm_ok_def)

lemma perform_Inr [act_simps]: "g s = Inr s2 \<Longrightarrow> perform g s = Inr (Inr (), s2)"
  by (simp add: perform_def)

subsection \<open>Scheduling\<close>

text \<open>The task that scheduling a fiber adds, if there is room and the fiber is not cancelled.\<close>

definition new_tasks :: "vm \<Rightarrow> nat \<Rightarrow> janet \<Rightarrow> signal \<Rightarrow> task list" where
  "new_tasks vm f v sig = (if ev_canceled (fibers vm f) \<or> \<not> length (tasks vm) < q_limit then []
     else [\<lparr>t_fiber = f, t_value = v, t_sig = sig, t_expected_sched_id = sched_id (fibers vm f) + 1\<rparr>])"

lemma schedule_ok:
  assumes "vm_ok vm"
  obtains vm2 where "janet_schedule_general f v sig soon vm = Inr vm2" "vm_ok vm2" "channels vm2 = channels vm"
    "tasks vm2 = (if soon then new_tasks vm f v sig @ tasks vm else tasks vm @ new_tasks vm f v sig)"
    "timeouts vm2 = timeouts vm" "root_fiber vm2 = root_fiber vm" "finished (fibers vm2 g) = finished (fibers vm g)"
    "g \<noteq> f \<Longrightarrow> fibers vm2 g = fibers vm g"
    "sched_id (fibers vm2 f) = (if ev_canceled (fibers vm f) then sched_id (fibers vm f) else sched_id (fibers vm f) + 1)"
    "ev_canceled (fibers vm2 f) = (ev_canceled (fibers vm f) \<or> sig = JANET_SIGNAL_ERROR)"
proof (cases "ev_canceled (fibers vm f)")
  case True
  then show ?thesis using that[of vm] assms by (simp add: janet_schedule_general_def new_tasks_def)
next
  case False
  let ?x = "fibers vm f"
  define t where "t = \<lparr>t_fiber = f, t_value = v, t_sig = sig, t_expected_sched_id = sched_id ?x + 1\<rparr>"
  define vm1 where "vm1 = put_fiber f (?x\<lparr>sched_id := sched_id ?x + 1, is_root := True, ev_canceled := (sig = JANET_SIGNAL_ERROR)\<rparr>)
    (if is_root ?x then vm else vm\<lparr>active_tasks := insert f (active_tasks vm)\<rparr>)"
  define r where "r = (if soon then janet_q_push_head t (spawn vm) else janet_q_push t (spawn vm))"
  have e: "janet_schedule_general f v sig soon vm = rbind r (\<lambda>r. Inr (case r of None \<Rightarrow> vm1 | Some q \<Rightarrow> vm1\<lparr>spawn := q\<rparr>))"
    using False unfolding janet_schedule_general_def Let_def vm1_def r_def t_def by (cases "is_root ?x") simp_all
  have f1: "channels vm1 = channels vm" "spawn vm1 = spawn vm" "timeouts vm1 = timeouts vm" "root_fiber vm1 = root_fiber vm"
    "finished (fibers vm1 g) = finished (fibers vm g)" "g \<noteq> f \<Longrightarrow> fibers vm1 g = fibers vm g"
    "sched_id (fibers vm1 f) = sched_id ?x + 1" "ev_canceled (fibers vm1 f) = (sig = JANET_SIGNAL_ERROR)"
    by (simp_all add: vm1_def)
  have q: "q_ok (spawn vm)" using assms by (simp add: vm_ok_def)
  have n: "new_tasks vm f v sig = (if length (tasks vm) < q_limit then [t] else [])"
    using False by (simp add: new_tasks_def t_def)
  show ?thesis
  proof (cases "length (tasks vm) < q_limit")
    case True
    obtain q2 where q2: "r = Inr (Some q2)" "q_ok q2" "q_items q2 = (if soon then t # tasks vm else tasks vm @ [t])"
    proof (cases soon)
      case True
      then show ?thesis using jq.push_head_law[OF q, of t] \<open>length (tasks vm) < q_limit\<close> that by (auto simp: r_def tasks_def)
    next
      case False
      then show ?thesis using jq.push_law[OF q, of t] \<open>length (tasks vm) < q_limit\<close> that by (auto simp: r_def tasks_def)
    qed
    have "janet_schedule_general f v sig soon vm = Inr (vm1\<lparr>spawn := q2\<rparr>)" using e q2(1) by simp
    moreover have "vm_ok (vm1\<lparr>spawn := q2\<rparr>)" using assms q2(2) f1 by (simp add: vm_ok_def)
    ultimately show ?thesis using that[of "vm1\<lparr>spawn := q2\<rparr>"] f1 q2 n True False by (simp add: tasks_def)
  next
    case full: False
    then have "r = Inr None" using jq.full_law[OF q, of t] by (simp add: r_def tasks_def)
    then have "janet_schedule_general f v sig soon vm = Inr vm1" using e by simp
    moreover have "vm_ok vm1" using assms f1 by (simp add: vm_ok_def)
    ultimately show ?thesis using that[of vm1] f1 n full False by (simp add: tasks_def)
  qed
qed

lemma schedule_plain:
  assumes "vm_ok vm"
  shows "\<exists>vm2. janet_schedule f v vm = Inr vm2 \<and> vm_ok vm2 \<and> channels vm2 = channels vm
    \<and> tasks vm2 = tasks vm @ new_tasks vm f v JANET_SIGNAL_OK \<and> timeouts vm2 = timeouts vm \<and> root_fiber vm2 = root_fiber vm
    \<and> sched_id (fibers vm2 f) = (if ev_canceled (fibers vm f) then sched_id (fibers vm f) else sched_id (fibers vm f) + 1)
    \<and> ev_canceled (fibers vm2 f) = ev_canceled (fibers vm f)"
  by (rule schedule_ok[OF assms, of f v JANET_SIGNAL_OK False]) (auto simp: janet_schedule_def)

text \<open>What giving and taking leave alone, and what waking does to the fiber.\<close>

definition only_touched :: "nat \<Rightarrow> pending option \<Rightarrow> vm \<Rightarrow> vm \<Rightarrow> bool" where
  "only_touched c woken vm vm2 \<longleftrightarrow> (\<forall>d. d \<noteq> c \<longrightarrow> channels vm2 d = channels vm d) \<and> timeouts vm2 = timeouts vm
     \<and> root_fiber vm2 = root_fiber vm \<and> limit (channels vm2 c) = limit (channels vm c)
     \<and> chan_closed (channels vm2 c) = chan_closed (channels vm c)
     \<and> (case woken of None \<Rightarrow> fibers vm2 = fibers vm
        | Some r \<Rightarrow> ev_canceled (fibers vm2 (p_fiber r)) = ev_canceled (fibers vm (p_fiber r))
            \<and> (\<not> ev_canceled (fibers vm (p_fiber r)) \<longrightarrow> sched_id (fibers vm2 (p_fiber r)) = sched_id (fibers vm (p_fiber r)) + 1))"

subsection \<open>Giving and taking\<close>

text \<open>A channel of lists. What was given goes to the first reader that still waits, past those that do not,
  or behind the items; the giver waits when there are then more items than the limit.\<close>

definition spec_give :: "(pending \<Rightarrow> bool) \<Rightarrow> int \<Rightarrow> nat \<Rightarrow> pending \<Rightarrow> janet \<Rightarrow> lists \<Rightarrow> bool \<times> pending option \<times> lists" where
  "spec_give waiting lm mode me x L = (case dropWhile (\<lambda>r. \<not> waiting r) (l_readers L) of
     r # rs \<Rightarrow> (False, Some r, L\<lparr>l_readers := rs\<rparr>)
   | [] \<Rightarrow> let waits = (int (length (l_items L)) + 1 > lm \<and> mode \<noteq> 2) in
       (waits, None, \<lparr>l_items = l_items L @ [x], l_readers = [],
          l_writers = (if waits then l_writers L @ [me] else l_writers L)\<rparr>))"

text \<open>A taker gets the first item and wakes the first writer, or waits.\<close>

definition spec_take :: "pending \<Rightarrow> lists \<Rightarrow> janet option \<times> pending option \<times> lists" where
  "spec_take me L = (case l_items L of
     [] \<Rightarrow> (None, None, L\<lparr>l_readers := l_readers L @ [me]\<rparr>)
   | y # ys \<Rightarrow> (case l_writers L of
       [] \<Rightarrow> (Some y, None, L\<lparr>l_items := ys\<rparr>)
     | w # ws \<Rightarrow> (Some y, Some w, L\<lparr>l_items := ys, l_writers := ws\<rparr>)))"

definition read_value :: "nat \<Rightarrow> janet \<Rightarrow> pending \<Rightarrow> janet" where
  "read_value c x r = (if p_mode r = JANET_CP_MODE_CHOICE_READ then make_read_result c x else x)"

definition write_value :: "nat \<Rightarrow> pending \<Rightarrow> janet" where
  "write_value c w = (if p_mode w = JANET_CP_MODE_CHOICE_WRITE then make_write_result c else janet_wrap_channel c)"

text \<open>The tasks that waking one fiber, or none, adds.\<close>

definition wakes :: "vm \<Rightarrow> (pending \<Rightarrow> janet) \<Rightarrow> pending option \<Rightarrow> task list" where
  "wakes vm value w = (case w of None \<Rightarrow> [] | Some r \<Rightarrow> new_tasks vm (p_fiber r) (value r) JANET_SIGNAL_OK)"

definition chan_room :: "channel \<Rightarrow> bool" where
  "chan_room ch \<longleftrightarrow> length (q_items (items ch)) < q_limit \<and> length (q_items (read_pending ch)) < q_limit
     \<and> length (q_items (write_pending ch)) < q_limit"

definition give_mode :: "nat \<Rightarrow> cp_mode" where
  "give_mode mode = (if mode \<noteq> 0 then JANET_CP_MODE_CHOICE_WRITE else JANET_CP_MODE_WRITE)"

definition take_mode :: "bool \<Rightarrow> cp_mode" where
  "take_mode is_choice = (if is_choice then JANET_CP_MODE_CHOICE_READ else JANET_CP_MODE_READ)"

lemma new_tasks_cong: "fibers vm2 = fibers vm \<Longrightarrow> spawn vm2 = spawn vm \<Longrightarrow> new_tasks vm2 = new_tasks vm"
  by (intro ext) (simp add: new_tasks_def tasks_def)

lemma pending_root_put [simp]: "pending_root m (put_chan c ch vm) = pending_root m vm"
  by (simp add: pending_root_def)

lemma add_writer_ok:
  assumes "vm_ok vm" "length (q_items (write_pending (channels vm c))) < q_limit"
  obtains vm2 where "add_writer c m vm = Inr vm2" "vm_ok vm2" "spawn vm2 = spawn vm" "fibers vm2 = fibers vm"
    "chan_lists (channels vm2 c) = (chan_lists (channels vm c))\<lparr>l_writers := q_items (write_pending (channels vm c)) @ [pending_root m vm]\<rparr>"
    "only_touched c None vm vm2"
proof -
  have q: "q_ok (write_pending (channels vm c))" using assms(1) vm_okD by blast
  obtain q2 where q2: "janet_q_push (pending_root m vm) (write_pending (channels vm c)) = Inr (Some q2)" "q_ok q2"
    "q_items q2 = q_items (write_pending (channels vm c)) @ [pending_root m vm]" using jq.push_law[OF q assms(2)] by blast
  let ?vm2 = "put_chan c ((channels vm c)\<lparr>write_pending := q2\<rparr>) vm"
  have "add_writer c m vm = Inr ?vm2" by (simp add: add_writer_def Let_def q2(1))
  moreover have "vm_ok ?vm2" by (rule put_chan_ok[OF assms(1)]) (use vm_okD[OF assms(1), of c] q2 in \<open>simp add: chan_ok_def\<close>)
  ultimately show ?thesis using that[of ?vm2] q2 by (simp add: chan_lists_def only_touched_def)
qed

lemma add_reader_ok:
  assumes "vm_ok vm" "length (q_items (read_pending (channels vm c))) < q_limit"
  obtains vm2 where "add_reader c m vm = Inr vm2" "vm_ok vm2" "spawn vm2 = spawn vm" "fibers vm2 = fibers vm"
    "chan_lists (channels vm2 c) = (chan_lists (channels vm c))\<lparr>l_readers := q_items (read_pending (channels vm c)) @ [pending_root m vm]\<rparr>"
    "only_touched c None vm vm2"
proof -
  have q: "q_ok (read_pending (channels vm c))" using assms(1) vm_okD by blast
  obtain q2 where q2: "janet_q_push (pending_root m vm) (read_pending (channels vm c)) = Inr (Some q2)" "q_ok q2"
    "q_items q2 = q_items (read_pending (channels vm c)) @ [pending_root m vm]" using jq.push_law[OF q assms(2)] by blast
  let ?vm2 = "put_chan c ((channels vm c)\<lparr>read_pending := q2\<rparr>) vm"
  have "add_reader c m vm = Inr ?vm2" by (simp add: add_reader_def Let_def q2(1))
  moreover have "vm_ok ?vm2" by (rule put_chan_ok[OF assms(1)]) (use vm_okD[OF assms(1), of c] q2 in \<open>simp add: chan_ok_def\<close>)
  ultimately show ?thesis using that[of ?vm2] q2 by (simp add: chan_lists_def only_touched_def)
qed

lemma search_reader:
  assumes "vm_ok vm"
  obtains q where "q_pop_until (Suc (nat (janet_q_count (read_pending (channels vm c))))) (still_waits vm) (read_pending (channels vm c))
      = Inr (case dropWhile (\<lambda>r. \<not> still_waits vm r) (q_items (read_pending (channels vm c))) of [] \<Rightarrow> None | r # _ \<Rightarrow> Some r, q)"
    "q_ok q" "q_items q = tl (dropWhile (\<lambda>r. \<not> still_waits vm r) (q_items (read_pending (channels vm c))))"
proof -
  have q: "q_ok (read_pending (channels vm c))" using assms vm_okD by blast
  define n where "n = Suc (nat (janet_q_count (read_pending (channels vm c))))"
  have "length (q_items (read_pending (channels vm c))) < n" using count_items[OF q] by (simp add: n_def)
  from jq.pop_until[OF q this, of "still_waits vm"] show ?thesis
    by (cases "dropWhile (\<lambda>r. \<not> still_waits vm r) (q_items (read_pending (channels vm c)))")
      (auto intro: that simp del: dropWhile_eq_Nil_conv simp flip: n_def)
qed

lemma give_ok:
  assumes "vm_ok vm" "\<not> chan_closed (channels vm c)" "chan_room (channels vm c)"
  obtains vm2 waits woken where "janet_channel_push c x mode vm = Inr (Inr waits, vm2)" "vm_ok vm2"
    "spec_give (still_waits vm) (limit (channels vm c)) mode (pending_root (give_mode mode) vm) x (chan_lists (channels vm c))
      = (waits, woken, chan_lists (channels vm2 c))"
    "tasks vm2 = tasks vm @ wakes vm (read_value c x) woken" "only_touched c woken vm vm2"
proof -
  let ?ch = "channels vm c" let ?live = "dropWhile (\<lambda>r. \<not> still_waits vm r) (q_items (read_pending ?ch))"
  obtain rp where rp: "q_pop_until (Suc (nat (janet_q_count (read_pending ?ch)))) (still_waits vm) (read_pending ?ch)
      = Inr (case ?live of [] \<Rightarrow> None | r # _ \<Rightarrow> Some r, rp)" "q_ok rp" "q_items rp = tl ?live"
    using search_reader[OF assms(1)] by blast
  let ?ch1 = "?ch\<lparr>read_pending := rp\<rparr>" let ?vm1 = "put_chan c ?ch1 vm"
  have ok1: "vm_ok ?vm1" by (rule put_chan_ok[OF assms(1)]) (use vm_okD[OF assms(1), of c] rp(2) in \<open>simp add: chan_ok_def\<close>)
  show ?thesis
  proof (cases ?live)
    case (Cons r rs)
    obtain vm2 where v: "janet_schedule (p_fiber r) (read_value c x r) ?vm1 = Inr vm2" "vm_ok vm2"
      "channels vm2 = channels ?vm1" "tasks vm2 = tasks ?vm1 @ new_tasks ?vm1 (p_fiber r) (read_value c x r) JANET_SIGNAL_OK"
      "timeouts vm2 = timeouts ?vm1" "root_fiber vm2 = root_fiber ?vm1" "ev_canceled (fibers vm2 (p_fiber r)) = ev_canceled (fibers ?vm1 (p_fiber r))"
      "sched_id (fibers vm2 (p_fiber r)) = (if ev_canceled (fibers ?vm1 (p_fiber r)) then sched_id (fibers ?vm1 (p_fiber r)) else sched_id (fibers ?vm1 (p_fiber r)) + 1)"
      using schedule_plain[OF ok1] by blast
    have n: "new_tasks ?vm1 = new_tasks vm" "tasks ?vm1 = tasks vm" by (rule new_tasks_cong) (simp_all add: tasks_def)
    have "wake_reader c x r ?vm1 = Inr vm2" using v(1) by (simp add: wake_reader_def read_value_def)
    then have "janet_channel_push c x mode vm = Inr (Inr False, vm2)"
      using assms(2) rp(1) Cons by (simp add: janet_channel_push_def act_simps Let_def)
    then show ?thesis using that[of False vm2 "Some r"] v n Cons rp(3) by (simp add: spec_give_def chan_lists_def wakes_def only_touched_def)
  next
    case Nil
    have i: "q_ok (items ?ch)" "length (q_items (items ?ch)) < q_limit" using vm_okD[OF assms(1)] assms(3) by (simp_all add: chan_room_def)
    obtain iq where iq: "janet_q_push x (items ?ch) = Inr (Some iq)" "q_ok iq" "q_items iq = q_items (items ?ch) @ [x]"
      using jq.push_law[OF i] by blast
    let ?ch2 = "?ch1\<lparr>items := iq\<rparr>" let ?vm2 = "put_chan c ?ch2 ?vm1"
    have ok2: "vm_ok ?vm2" by (rule put_chan_ok[OF ok1]) (use vm_okD[OF assms(1), of c] rp(2) iq(2) in \<open>simp add: chan_ok_def\<close>)
    have cnt: "janet_q_count iq = int (length (q_items (items ?ch))) + 1" using count_items[OF iq(2)] iq(3) by simp
    have run: "janet_channel_push c x mode vm = (if janet_q_count iq > limit ?ch then
        if mode = 2 then give False ?vm2 else andnext (perform (add_writer c (give_mode mode))) (\<lambda>_. give True) ?vm2 else give False ?vm2)"
      using assms(2) rp(1) Nil iq(1) by (simp add: janet_channel_push_def act_simps Let_def give_mode_def)
    show ?thesis
    proof (cases "int (length (q_items (items ?ch))) + 1 > limit ?ch \<and> mode \<noteq> 2")
      case False
      then have "janet_channel_push c x mode vm = Inr (Inr False, ?vm2)" using run cnt by (auto simp: act_simps)
      then show ?thesis using that[of False ?vm2 None] ok2 Nil rp(3) iq(3) False
        by (simp add: spec_give_def chan_lists_def wakes_def tasks_def Let_def only_touched_def)
    next
      case True
      have w: "length (q_items (write_pending (channels ?vm2 c))) < q_limit" using assms(3) by (simp add: chan_room_def)
      obtain vm3 where v: "add_writer c (give_mode mode) ?vm2 = Inr vm3" "vm_ok vm3" "spawn vm3 = spawn ?vm2"
        "chan_lists (channels vm3 c) = (chan_lists (channels ?vm2 c))\<lparr>l_writers := q_items (write_pending (channels ?vm2 c)) @ [pending_root (give_mode mode) ?vm2]\<rparr>"
        "only_touched c None ?vm2 vm3"
        using add_writer_ok[OF ok2 w] by blast
      have "janet_channel_push c x mode vm = Inr (Inr True, vm3)" using run cnt True v(1) by (simp add: act_simps)
      then show ?thesis using that[of True vm3 None] v Nil rp(3) iq(3) True
        by (simp add: spec_give_def chan_lists_def wakes_def tasks_def Let_def only_touched_def)
    qed
  qed
qed

lemma take_ok:
  assumes "vm_ok vm" "\<not> chan_closed (channels vm c)" "chan_room (channels vm c)"
  obtains vm2 r woken where "janet_channel_pop c ch vm = Inr (Inr r, vm2)" "vm_ok vm2"
    "spec_take (pending_root (take_mode ch) vm) (chan_lists (channels vm c)) = (r, woken, chan_lists (channels vm2 c))"
    "tasks vm2 = tasks vm @ wakes vm (write_value c) woken" "only_touched c woken vm vm2"
proof -
  let ?ch = "channels vm c"
  have q: "q_ok (items ?ch)" "q_ok (write_pending ?ch)" using vm_okD[OF assms(1)] by blast+
  from q(1) show ?thesis
  proof (cases rule: jq.pop_cases)
    case 1
    have r: "length (q_items (read_pending ?ch)) < q_limit" using assms(3) by (simp add: chan_room_def)
    obtain vm2 where v: "add_reader c (take_mode ch) vm = Inr vm2" "vm_ok vm2" "spawn vm2 = spawn vm"
      "chan_lists (channels vm2 c) = (chan_lists ?ch)\<lparr>l_readers := q_items (read_pending ?ch) @ [pending_root (take_mode ch) vm]\<rparr>"
      "only_touched c None vm vm2"
      using add_reader_ok[OF assms(1) r] by blast
    have "janet_channel_pop c ch vm = Inr (Inr None, vm2)"
      using assms(2) 1(2) v(1) by (simp add: janet_channel_pop_def act_simps Let_def take_mode_def)
    then show ?thesis using that[of None vm2 None] v 1 by (simp add: spec_take_def chan_lists_def wakes_def tasks_def)
  next
    case (2 y iq)
    from q(2) show ?thesis
    proof (cases rule: jq.pop_cases)
      case 1
      let ?vm2 = "put_chan c (?ch\<lparr>items := iq\<rparr>) vm"
      have "vm_ok ?vm2" by (rule put_chan_ok[OF assms(1)]) (use vm_okD[OF assms(1), of c] 2 in \<open>simp add: chan_ok_def\<close>)
      moreover have "janet_channel_pop c ch vm = Inr (Inr (Some y), ?vm2)"
        using assms(2) 1(2) 2(2) by (simp add: janet_channel_pop_def act_simps Let_def)
      ultimately show ?thesis using that[of "Some y" ?vm2 None] 1 2 by (simp add: spec_take_def chan_lists_def wakes_def tasks_def only_touched_def)
    next
      case w: (2 w wq)
      let ?vm1 = "put_chan c (?ch\<lparr>items := iq, write_pending := wq\<rparr>) vm"
      have ok1: "vm_ok ?vm1" by (rule put_chan_ok[OF assms(1)]) (use vm_okD[OF assms(1), of c] 2 w in \<open>simp add: chan_ok_def\<close>)
      obtain vm2 where v: "janet_schedule (p_fiber w) (write_value c w) ?vm1 = Inr vm2" "vm_ok vm2"
        "channels vm2 = channels ?vm1" "tasks vm2 = tasks ?vm1 @ new_tasks ?vm1 (p_fiber w) (write_value c w) JANET_SIGNAL_OK"
        "timeouts vm2 = timeouts ?vm1" "root_fiber vm2 = root_fiber ?vm1" "ev_canceled (fibers vm2 (p_fiber w)) = ev_canceled (fibers ?vm1 (p_fiber w))"
        "sched_id (fibers vm2 (p_fiber w)) = (if ev_canceled (fibers ?vm1 (p_fiber w)) then sched_id (fibers ?vm1 (p_fiber w)) else sched_id (fibers ?vm1 (p_fiber w)) + 1)"
        using schedule_plain[OF ok1] by blast
      have n: "new_tasks ?vm1 = new_tasks vm" "tasks ?vm1 = tasks vm" by (rule new_tasks_cong) (simp_all add: tasks_def)
      have "janet_channel_pop c ch vm = Inr (Inr (Some y), vm2)"
        using assms(2) 2(2) w(2) v(1) by (simp add: janet_channel_pop_def act_simps Let_def wake_writer_def write_value_def)
      then show ?thesis using that[of "Some y" vm2 "Some w"] v n 2 w by (simp add: spec_take_def chan_lists_def wakes_def only_touched_def)
    qed
  qed
qed

text \<open>C23. A channel is three lists. On a well-formed state with room, giving and taking end without fault or
  panic and do to the channel what the specification does to its items, readers and writers; they wait in
  the same cases, and add the task of the one fiber the specification wakes, if it is not cancelled.\<close>

theorem channel_refines:
  assumes "vm_ok vm" and "\<not> chan_closed (channels vm c)" and "chan_room (channels vm c)"
  shows "(\<exists>vm2 waits woken. janet_channel_push c x mode vm = Inr (Inr waits, vm2) \<and> vm_ok vm2
      \<and> spec_give (still_waits vm) (limit (channels vm c)) mode (pending_root (give_mode mode) vm) x (chan_lists (channels vm c))
          = (waits, woken, chan_lists (channels vm2 c))
      \<and> tasks vm2 = tasks vm @ wakes vm (read_value c x) woken)
    \<and> (\<exists>vm2 r woken. janet_channel_pop c is_choice vm = Inr (Inr r, vm2) \<and> vm_ok vm2
      \<and> spec_take (pending_root (take_mode is_choice) vm) (chan_lists (channels vm c)) = (r, woken, chan_lists (channels vm2 c))
      \<and> tasks vm2 = tasks vm @ wakes vm (write_value c) woken)"
  by (rule conjI, rule give_ok[OF assms, of x mode], blast, rule take_ok[OF assms, of is_choice], blast)

definition idle_fiber :: fiber where
  "idle_fiber = \<lparr>sched_id = 0, ev_canceled = False, ev_suspended = False, is_root = False, supervisor_channel = None,
     signal_mask = [], finished = False, task_id = JNil\<rparr>"

definition start_vm :: "int \<Rightarrow> vm" where
  "start_vm lm = \<lparr>fibers = (\<lambda>_. idle_fiber), n_fibers = 2, channels = (\<lambda>_. janet_chan_init lm), n_channels = 0, spawn = janet_q_init,
     timeouts = tq_init, active_tasks = {}, root_fiber = 0, vm_fiber = 0, extra_listeners = 0, listener_count = 0, auto_suspend = False\<rparr>"

lemma start_ok: "vm_ok (start_vm lm)" "chan_lists (channels (start_vm lm) c) = \<lparr>l_items = [], l_readers = [], l_writers = []\<rparr>"
  "tasks (start_vm lm) = []" "\<not> chan_closed (channels (start_vm lm) c)" "chan_room (channels (start_vm lm) c)"
  by (simp_all add: start_vm_def vm_ok_def chan_ok_def janet_chan_init_def chan_lists_def tasks_def chan_room_def q_limit_def
    JANET_MAX_Q_CAPACITY_def)

theorem channel_refines_witness:
  "\<exists>vm2. janet_channel_push 0 JNil 0 (start_vm 0) = Inr (Inr True, vm2) \<and> l_items (chan_lists (channels vm2 0)) = [JNil]
    \<and> length (l_writers (chan_lists (channels vm2 0))) = 1 \<and> tasks vm2 = []"
proof -
  have lm: "limit (channels (start_vm 0) 0) = 0" by (simp add: start_vm_def janet_chan_init_def)
  let ?me = "pending_root (give_mode 0) (start_vm 0)"
  have spec: "spec_give live 0 0 ?me JNil \<lparr>l_items = [], l_readers = [], l_writers = []\<rparr>
    = (True, None, \<lparr>l_items = [JNil], l_readers = [], l_writers = [?me]\<rparr>)" for live by (simp add: spec_give_def)
  obtain vm2 waits woken where e: "janet_channel_push 0 JNil 0 (start_vm 0) = Inr (Inr waits, vm2)"
    "(True, None, \<lparr>l_items = [JNil], l_readers = [], l_writers = [?me]\<rparr>) = (waits, woken, chan_lists (channels vm2 0))"
    "tasks vm2 = wakes (start_vm 0) (read_value 0 JNil) woken"
    using conjunct1[OF channel_refines[where vm = "start_vm 0" and c = 0 and x = JNil and mode = 0 and is_choice = True, OF start_ok(1,4,5)]]
    unfolding lm start_ok(2,3) spec append_Nil by blast
  then have "chan_lists (channels vm2 0) = \<lparr>l_items = [JNil], l_readers = [], l_writers = [?me]\<rparr>" by simp
  then show ?thesis using e by (intro exI[of _ vm2]) (simp add: wakes_def)
qed

subsection \<open>Closing\<close>

text \<open>The tasks that waking several fibers adds, each with what it finds when its turn comes.\<close>

lemma close_loop_ok:
  assumes "vm_ok vm" "q_ok q" "length (q_items q) < n"
  shows "\<exists>q2 vm2. close_loop n choice c q vm = Inr (q2, vm2) \<and> q_ok q2 \<and> q_items q2 = [] \<and> vm_ok vm2 \<and> channels vm2 = channels vm
    \<and> (\<exists>ts. tasks vm2 = tasks vm @ ts)"
  using assms
proof (induction n arbitrary: q vm)
  case (Suc n)
  from Suc.prems(2) show ?case
  proof (cases rule: jq.pop_cases)
    case 1
    then show ?thesis using Suc.prems by simp
  next
    case (2 w q1)
    obtain vm1 where v: "janet_schedule (p_fiber w) (if p_mode w = choice then make_close_result c else JNil) vm = Inr vm1" "vm_ok vm1"
      "channels vm1 = channels vm" "\<exists>ts. tasks vm1 = tasks vm @ ts" using schedule_plain[OF Suc.prems(1)] by blast
    have "length (q_items q1) < n" using 2(1) Suc.prems(3) by simp
    from Suc.IH[OF v(2) 2(3) this] 2(2) v show ?thesis by fastforce
  qed
qed simp

lemma close_ok:
  assumes "vm_ok vm"
  obtains vm2 ts where "close_channel c vm = Inr vm2" "vm_ok vm2" "chan_closed (channels vm2 c)" "tasks vm2 = tasks vm @ ts"
    "chan_closed (channels vm c) \<Longrightarrow> vm2 = vm" "limit (channels vm2 c) = limit (channels vm c)"
    "\<not> chan_closed (channels vm c) \<Longrightarrow> chan_lists (channels vm2 c) = \<lparr>l_items = q_items (items (channels vm c)), l_readers = [], l_writers = []\<rparr>"
proof (cases "chan_closed (channels vm c)")
  case True
  then show ?thesis using that[of vm "[]"] assms by (simp add: close_channel_def)
next
  case False
  let ?ch = "channels vm c" let ?vm1 = "put_chan c (?ch\<lparr>chan_closed := True\<rparr>) vm"
  have q: "q_ok (write_pending ?ch)" "q_ok (read_pending ?ch)" "q_ok (items ?ch)" using vm_okD[OF assms] by blast+
  have ok1: "vm_ok ?vm1" by (rule put_chan_ok[OF assms]) (use q in \<open>simp add: chan_ok_def\<close>)
  define n m where "n = Suc (nat (janet_q_count (write_pending ?ch)))" and "m = Suc (nat (janet_q_count (read_pending ?ch)))"
  have n: "length (q_items (write_pending ?ch)) < n" "length (q_items (read_pending ?ch)) < m"
    using count_items[OF q(1)] count_items[OF q(2)] by (simp_all add: n_def m_def)
  obtain wp vm2 ts where w: "close_loop n JANET_CP_MODE_CHOICE_WRITE c (write_pending ?ch) ?vm1 = Inr (wp, vm2)" "q_ok wp" "q_items wp = []"
    "vm_ok vm2" "channels vm2 = channels ?vm1" "tasks vm2 = tasks ?vm1 @ ts"
    using close_loop_ok[OF ok1 q(1) n(1)] by blast
  obtain rp vm3 us where r: "close_loop m JANET_CP_MODE_CHOICE_READ c (read_pending ?ch) vm2 = Inr (rp, vm3)" "q_ok rp" "q_items rp = []"
    "vm_ok vm3" "channels vm3 = channels vm2" "tasks vm3 = tasks vm2 @ us"
    using close_loop_ok[OF w(4) q(2) n(2)] by blast
  let ?vm4 = "put_chan c (?ch\<lparr>chan_closed := True, write_pending := wp, read_pending := rp\<rparr>) vm3"
  have "vm_ok ?vm4" by (rule put_chan_ok[OF r(4)]) (use q w r in \<open>simp add: chan_ok_def\<close>)
  moreover have "close_channel c vm = Inr ?vm4"
    unfolding close_channel_def Let_def n_def[symmetric] m_def[symmetric] using False w(1) r(1) by simp
  moreover have "tasks ?vm4 = tasks vm @ ts @ us" using w(6) r(6) by (simp add: tasks_def)
  ultimately show ?thesis using that[of ?vm4] False w(3) r(3) by (simp add: chan_lists_def)
qed

subsection \<open>The order of the values\<close>

text \<open>A history of a channel: whoever gives, takes and closes, and anything else in between that leaves the
  channel alone. \<open>given\<close> are the values given so far, \<open>got\<close> those handed to takers or to
  readers that were woken.\<close>

definition has_reader :: "vm \<Rightarrow> nat \<Rightarrow> bool" where
  "has_reader vm c \<longleftrightarrow> list_ex (still_waits vm) (q_items (read_pending (channels vm c)))"

inductive chan_history :: "nat \<Rightarrow> vm \<Rightarrow> janet list \<Rightarrow> janet list \<Rightarrow> bool" for c where
  start: "vm_ok vm \<Longrightarrow> 0 \<le> lm \<Longrightarrow> channels vm c = janet_chan_init lm \<Longrightarrow> chan_history c vm [] []"
| gives: "chan_history c vm given got \<Longrightarrow> chan_room (channels vm c) \<Longrightarrow> janet_channel_push c x mode vm = Inr (Inr waits, vm2)
    \<Longrightarrow> chan_history c vm2 (given @ [x]) (if has_reader vm c then got @ [x] else got)"
| takes: "chan_history c vm given got \<Longrightarrow> chan_room (channels vm c) \<Longrightarrow> \<not> chan_closed (channels vm c)
    \<Longrightarrow> janet_channel_pop c is_choice vm = Inr (Inr (Some y), vm2) \<Longrightarrow> chan_history c vm2 given (got @ [y])"
| waits: "chan_history c vm given got \<Longrightarrow> chan_room (channels vm c)
    \<Longrightarrow> janet_channel_pop c is_choice vm = Inr (Inr None, vm2) \<Longrightarrow> chan_history c vm2 given got"
| closes: "chan_history c vm given got \<Longrightarrow> close_channel c vm = Inr vm2 \<Longrightarrow> chan_history c vm2 given got"
| other: "chan_history c vm given got \<Longrightarrow> channels vm2 c = channels vm c \<Longrightarrow> vm_ok vm2 \<Longrightarrow> chan_history c vm2 given got"

definition chan_inv :: "channel \<Rightarrow> janet list \<Rightarrow> janet list \<Rightarrow> bool" where
  "chan_inv ch given got \<longleftrightarrow> given = got @ q_items (items ch) \<and> 0 \<le> limit ch
     \<and> (q_items (items ch) = [] \<or> q_items (read_pending ch) = [])
     \<and> int (length (q_items (write_pending ch))) \<le> max 0 (int (length (q_items (items ch))) - limit ch)"

lemma list_ex_dropWhile: "list_ex P xs = (dropWhile (\<lambda>x. \<not> P x) xs \<noteq> [])"
  by (induction xs) auto

lemma push_closed: "chan_closed (channels vm c) \<Longrightarrow> janet_channel_push c x mode vm \<noteq> Inr (Inr waits, vm2)"
  by (simp add: janet_channel_push_def act_simps Let_def)

lemma pop_closed: "chan_closed (channels vm c) \<Longrightarrow> janet_channel_pop c ch vm = Inr (Inr (Some JNil), vm)"
  by (simp add: janet_channel_pop_def act_simps Let_def)

lemma chan_listsD: "(w, k, chan_lists ch) = r \<Longrightarrow> q_items (items ch) = l_items (snd (snd r)) \<and> q_items (read_pending ch) = l_readers (snd (snd r))
    \<and> q_items (write_pending ch) = l_writers (snd (snd r)) \<and> w = fst r"
  by (auto simp: chan_lists_def)

lemma gives_inv:
  assumes "vm_ok vm" "chan_inv (channels vm c) given got" "chan_room (channels vm c)" "janet_channel_push c x mode vm = Inr (Inr waits, vm2)"
  shows "vm_ok vm2 \<and> chan_inv (channels vm2 c) (given @ [x]) (if has_reader vm c then got @ [x] else got)"
proof -
  have open_chan: "\<not> chan_closed (channels vm c)" using assms(4) push_closed by blast
  obtain waits2 woken where g: "vm_ok vm2" "limit (channels vm2 c) = limit (channels vm c)"
    "(waits2, woken, chan_lists (channels vm2 c))
      = spec_give (still_waits vm) (limit (channels vm c)) mode (pending_root (give_mode mode) vm) x (chan_lists (channels vm c))"
    by (rule give_ok[OF assms(1) open_chan assms(3), of x mode]) (use assms(4) in \<open>auto simp: only_touched_def\<close>)
  note l = chan_listsD[OF g(3)]
  show ?thesis
  proof (cases "dropWhile (\<lambda>r. \<not> still_waits vm r) (q_items (read_pending (channels vm c)))")
    case Nil
    then have "\<not> has_reader vm c" by (simp add: has_reader_def list_ex_dropWhile del: dropWhile_eq_Nil_conv)
    then show ?thesis using g(1,2) l Nil assms(2) by (auto simp: spec_give_def chan_lists_def chan_inv_def Let_def split: if_splits)
  next
    case (Cons r rs)
    then have "has_reader vm c" by (simp add: has_reader_def list_ex_dropWhile del: dropWhile_eq_Nil_conv)
    moreover have "q_items (read_pending (channels vm c)) \<noteq> []" using Cons by auto
    ultimately show ?thesis using g(1,2) l Cons assms(2) by (auto simp: spec_give_def chan_lists_def chan_inv_def)
  qed
qed

lemma takes_inv:
  assumes "vm_ok vm" "chan_inv (channels vm c) given got" "chan_room (channels vm c)" "\<not> chan_closed (channels vm c)"
    "janet_channel_pop c ch vm = Inr (Inr r, vm2)"
  shows "vm_ok vm2 \<and> chan_inv (channels vm2 c) given (case r of None \<Rightarrow> got | Some y \<Rightarrow> got @ [y])"
proof -
  obtain woken where g: "vm_ok vm2" "limit (channels vm2 c) = limit (channels vm c)"
    "(r, woken, chan_lists (channels vm2 c)) = spec_take (pending_root (take_mode ch) vm) (chan_lists (channels vm c))"
    by (rule take_ok[OF assms(1,4,3), of ch]) (use assms(5) in \<open>auto simp: only_touched_def\<close>)
  note l = chan_listsD[OF g(3)]
  show ?thesis
    using g(1,2) l assms(2) by (cases "q_items (items (channels vm c))"; cases "q_items (write_pending (channels vm c))")
      (auto simp: spec_take_def chan_lists_def chan_inv_def)
qed

lemma closes_inv:
  assumes "vm_ok vm" "chan_inv (channels vm c) given got" "close_channel c vm = Inr vm2"
  shows "vm_ok vm2 \<and> chan_inv (channels vm2 c) given got"
proof -
  obtain v ts where v: "close_channel c vm = Inr v" "vm_ok v" "limit (channels v c) = limit (channels vm c)"
    "chan_closed (channels vm c) \<Longrightarrow> v = vm"
    "\<not> chan_closed (channels vm c) \<Longrightarrow> chan_lists (channels v c) = \<lparr>l_items = q_items (items (channels vm c)), l_readers = [], l_writers = []\<rparr>"
    using close_ok[OF assms(1), of c] by metis
  have e: "v = vm2" using v(1) assms(3) by simp
  show ?thesis
  proof (cases "chan_closed (channels vm c)")
    case True
    then show ?thesis using v(4) e assms by simp
  next
    case False
    from v(5)[OF this] have "q_items (items (channels v c)) = q_items (items (channels vm c))" "q_items (read_pending (channels v c)) = []"
      "q_items (write_pending (channels v c)) = []" by (simp_all add: chan_lists_def)
    then show ?thesis using assms(2) v(2,3) unfolding e by (simp add: chan_inv_def)
  qed
qed

text \<open>C24. In every history of a channel the values are handed out in the order in which they were given, each
  once: those given are those handed out and then the items. A reader waits only when there are no items,
  and no more writers wait than there are items over the limit.\<close>

theorem channel_order:
  assumes "chan_history c vm given got"
  shows "given = got @ q_items (items (channels vm c)) \<and> (q_items (items (channels vm c)) = [] \<or> q_items (read_pending (channels vm c)) = [])
    \<and> int (length (q_items (write_pending (channels vm c)))) \<le> max 0 (int (length (q_items (items (channels vm c)))) - limit (channels vm c))"
proof -
  have "vm_ok vm \<and> chan_inv (channels vm c) given got"
    using assms
  proof induction
    case (start vm lm)
    then show ?case by (simp add: chan_inv_def janet_chan_init_def)
  next
    case (gives vm given got x mode waits vm2)
    then show ?case using gives_inv by blast
  next
    case (takes vm given got is_choice y vm2)
    then show ?case using takes_inv[of vm c given got is_choice "Some y" vm2] by simp
  next
    case (waits vm given got is_choice vm2)
    then have "\<not> chan_closed (channels vm c)" using pop_closed by fastforce
    then show ?case using waits takes_inv[of vm c given got is_choice None vm2] by simp
  next
    case (closes vm given got vm2)
    then show ?case using closes_inv by blast
  qed simp
  then show ?thesis by (simp add: chan_inv_def)
qed

theorem channel_order_witness:
  "\<exists>vm. chan_history 0 vm [JNil] [] \<and> q_items (items (channels vm 0)) = [JNil]"
proof -
  obtain vm2 waits woken where e: "janet_channel_push 0 JNil 0 (start_vm 0) = Inr (Inr waits, vm2)"
    by (rule give_ok[where c = 0 and x = JNil and mode = 0, OF start_ok(1,4,5)[of 0]])
  have "chan_history 0 (start_vm 0) [] []" by (rule chan_history.start[OF start_ok(1) order_refl]) (simp add: start_vm_def)
  from chan_history.gives[OF this start_ok(5) e] have h: "chan_history 0 vm2 [JNil] []"
    by (simp add: has_reader_def start_vm_def janet_chan_init_def)
  then show ?thesis using channel_order[OF h] by auto
qed

subsection \<open>What the collector marks\<close>

text \<open>The collector marks what the channels and the loop hold: every item, every fiber that waits, every
  task with its value and the fibers of every timeout, and nothing else.\<close>

theorem marks_what_is_held:
  assumes "vm_ok vm"
  shows "(\<exists>ms. janet_chanat_mark (channels vm c) = Inr ms \<and> set ms = set (q_items (items (channels vm c)))
      \<union> (JFiber \<circ> p_fiber) ` (set (q_items (read_pending (channels vm c))) \<union> set (q_items (write_pending (channels vm c)))))
    \<and> (\<exists>ms. janet_ev_mark vm = Inr ms \<and> set ms = (JFiber \<circ> t_fiber) ` set (tasks vm) \<union> t_value ` set (tasks vm)
      \<union> (JFiber \<circ> to_fiber) ` set (tq (timeouts vm)) \<union> {JFiber f | f. \<exists>to \<in> set (tq (timeouts vm)). to_curr_fiber to = Some f})"
proof -
  have q: "q_segments (items (channels vm c)) = Inr (q_items (items (channels vm c)))"
    "q_segments (read_pending (channels vm c)) = Inr (q_items (read_pending (channels vm c)))"
    "q_segments (write_pending (channels vm c)) = Inr (q_items (write_pending (channels vm c)))"
    "q_segments (spawn vm) = Inr (tasks vm)"
    using vm_okD[OF assms] by (auto simp: tasks_def segments_items)
  show ?thesis
    by (simp add: janet_chanat_mark_def janet_chanat_mark_fq_def janet_ev_mark_def q) (auto split: option.splits)
qed

end
