(* ===== verification/LoopProps.thy ===== *)
theory LoopProps
  imports ChannelProps
begin

text \<open>
  The loop: the timeouts that are due, in order; and histories in which a wake-up is lost, doubled or
  given to a fiber that no longer waits.
\<close>

subsection \<open>Timeouts\<close>

fun handle_all :: "timeout list \<Rightarrow> vm \<Rightarrow> fault + vm" where
  "handle_all [] vm = Inr vm"
| "handle_all (to # tos) vm = rbind (timed_out to vm) (handle_all tos)"

definition with_timeouts :: "timeout_queue \<Rightarrow> vm \<Rightarrow> vm" where
  "with_timeouts q vm = vm\<lparr>timeouts := q\<rparr>"

lemma schedule_timeouts:
  "janet_schedule_general f v sig soon (with_timeouts q vm) = rbind (janet_schedule_general f v sig soon vm) (\<lambda>vm. Inr (with_timeouts q vm))"
  by (cases "janet_q_push_head \<lparr>t_fiber = f, t_value = v, t_sig = sig, t_expected_sched_id = sched_id (fibers vm f) + 1\<rparr> (spawn vm)";
      cases "janet_q_push \<lparr>t_fiber = f, t_value = v, t_sig = sig, t_expected_sched_id = sched_id (fibers vm f) + 1\<rparr> (spawn vm)")
    (simp_all add: janet_schedule_general_def with_timeouts_def put_fiber_def Let_def split: option.split)

lemma timed_out_timeouts: "timed_out to (with_timeouts q vm) = rbind (timed_out to vm) (\<lambda>vm. Inr (with_timeouts q vm))"
proof -
  have f: "fibers (with_timeouts q vm) = fibers vm" by (simp add: with_timeouts_def)
  show ?thesis by (simp add: timed_out_def janet_cancel_def janet_schedule_def schedule_timeouts f split: option.split)
qed

lemma with_timeouts_simps [simp]: "with_timeouts q (with_timeouts p vm) = with_timeouts q vm" "with_timeouts (timeouts vm) vm = vm"
  "timeouts (with_timeouts q vm) = q"
  by (simp_all add: with_timeouts_def)

lemma handle_timeouts: "handle_all tos (with_timeouts q vm) = rbind (handle_all tos vm) (\<lambda>vm. Inr (with_timeouts q vm))"
proof (induction tos arbitrary: vm)
  case (Cons to tos)
  then show ?case by (cases "timed_out to vm") (simp_all add: timed_out_timeouts)
qed simp

lemma timed_out_keeps: "timed_out to vm = Inr vm2 \<Longrightarrow> timeouts vm2 = timeouts vm"
proof -
  assume t: "timed_out to vm = Inr vm2"
  have "timed_out to (with_timeouts (timeouts vm) vm) = rbind (timed_out to vm) (\<lambda>v. Inr (with_timeouts (timeouts vm) v))"
    by (rule timed_out_timeouts)
  then have "vm2 = with_timeouts (timeouts vm) vm2" using t by simp
  then show ?thesis by (metis with_timeouts_simps(3))
qed

lemma expire_loop_pops:
  "expire_loop n now vm = handle_all (fst (pop_due n now (timeouts vm))) (with_timeouts (snd (pop_due n now (timeouts vm))) vm)"
proof (induction n arbitrary: vm)
  case (Suc n)
  show ?case
  proof (cases "peek_timeout (timeouts vm)")
    case (Some to)
    show ?thesis
    proof (cases "due to \<le> now")
      case True
      let ?q = "pop_timeout 0 (timeouts vm)"
      have d: "drop_first vm = with_timeouts ?q vm" by (simp add: drop_first_def with_timeouts_def)
      show ?thesis
      proof (cases "timed_out to vm")
        case (Inl e)
        then show ?thesis using Some True by (simp add: d timed_out_timeouts split_def Let_def)
      next
        case (Inr v)
        then show ?thesis using Some True Suc[of "with_timeouts ?q v"] by (simp add: d timed_out_timeouts split_def Let_def)
      qed
    qed (use Some in simp)
  qed simp
qed simp

lemma timed_out_ok:
  assumes "vm_ok vm"
  shows "\<exists>vm2. timed_out to vm = Inr vm2 \<and> vm_ok vm2"
proof -
  have "\<exists>vm2. janet_schedule_general f v sig False vm = Inr vm2 \<and> vm_ok vm2" for f v sig
    by (rule schedule_ok[OF assms, of f v sig False]) blast
  then show ?thesis using assms by (auto simp: timed_out_def janet_cancel_def janet_schedule_def split: option.split)
qed

lemma handle_all_ok: "vm_ok vm \<Longrightarrow> \<exists>vm2. handle_all tos vm = Inr vm2 \<and> vm_ok vm2"
proof (induction tos arbitrary: vm)
  case (Cons to tos)
  then show ?case using timed_out_ok[OF Cons.prems, of to] by auto
qed simp

lemma with_timeouts_ok: "vm_ok (with_timeouts q vm) = vm_ok vm"
  by (simp add: vm_ok_def with_timeouts_def)

text \<open>C22. At the start of a round the loop handles exactly the timeouts that are due, in the order of their
  times, and leaves those that are not, in a heap. It ends, since every step takes one away.\<close>

theorem timeouts_in_order:
  assumes "vm_ok vm" and "heap (tq (timeouts vm))"
  shows "\<exists>taken q vm2. expire_loop (length (tq (timeouts vm))) now vm = Inr vm2 \<and> handle_all taken (with_timeouts q vm) = Inr vm2
    \<and> vm_ok vm2 \<and> timeouts vm2 = q \<and> heap (tq q) \<and> sorted (map due taken) \<and> mset (taken @ tq q) = mset (tq (timeouts vm))
    \<and> list_all (\<lambda>y. due y \<le> now) taken \<and> list_all (\<lambda>y. now < due y) (tq q)"
proof -
  obtain taken q where p: "pop_due (length (tq (timeouts vm))) now (timeouts vm) = (taken, q)" by fastforce
  from pop_due_spec[OF assms(2) p] have o: "heap (tq q)" "sorted (map due taken)" "mset (taken @ tq q) = mset (tq (timeouts vm))"
    "list_all (\<lambda>y. due y \<le> now) taken" "list_all (\<lambda>y. now < due y) (tq q)" by blast+
  obtain v where v: "handle_all taken vm = Inr v" "vm_ok v" using handle_all_ok[OF assms(1)] by blast
  then have h: "handle_all taken (with_timeouts q vm) = Inr (with_timeouts q v)" by (simp add: handle_timeouts)
  have "expire_loop (length (tq (timeouts vm))) now vm = Inr (with_timeouts q v)" by (simp add: expire_loop_pops p h)
  then show ?thesis using h o v(2) by (intro exI[of _ taken] exI[of _ q] exI[of _ "with_timeouts q v"]) (simp add: with_timeouts_ok)
qed

text \<open>Four fibers asleep, two of which are due at time 8.\<close>

definition demo_timeout :: "int \<Rightarrow> nat \<Rightarrow> timeout" where
  "demo_timeout t f = \<lparr>due = t, to_fiber = f, to_curr_fiber = None, to_sched_id = 0, to_is_error = False\<rparr>"

definition demo_sleepers :: vm where
  "demo_sleepers = with_timeouts (add_timeout (demo_timeout 5 1) (add_timeout (demo_timeout 7 3)
     (add_timeout (demo_timeout 12 4) (add_timeout (demo_timeout 9 2) tq_init)))) (start_vm 0)"

lemma demo_queue:
  "tq (timeouts demo_sleepers) = [demo_timeout 5 1, demo_timeout 7 3, demo_timeout 9 2, demo_timeout 12 4]"
  by (simp add: demo_sleepers_def add_timeout_def tq_init_def sift_up.simps Let_def swap_entries_def demo_timeout_def)

lemma demo_sleep: "vm_ok demo_sleepers" "heap (tq (timeouts demo_sleepers))"
  by (simp_all add: demo_sleepers_def with_timeouts_ok start_ok) (intro add_heap heap_init)

lemma demo_wakes: "(case expire_loop 4 8 demo_sleepers of Inr v \<Rightarrow> map t_fiber (tasks v) = [1, 3] | _ \<Rightarrow> False)"
  by code_simp

theorem timeouts_in_order_witness:
  "\<exists>taken q vm2. expire_loop 4 8 demo_sleepers = Inr vm2 \<and> handle_all taken (with_timeouts q demo_sleepers) = Inr vm2
    \<and> map due taken = [5, 7] \<and> heap (tq q) \<and> mset (map due (tq q)) = {#9, 12#} \<and> map t_fiber (tasks vm2) = [1, 3]"
proof -
  have "length (tq (timeouts demo_sleepers)) = 4" by (simp add: demo_queue)
  from timeouts_in_order[OF demo_sleep, of 8, unfolded this] obtain taken q vm2 where
    v: "expire_loop 4 8 demo_sleepers = Inr vm2" "handle_all taken (with_timeouts q demo_sleepers) = Inr vm2" "heap (tq q)"
    and s: "sorted (map due taken)"
    and m: "mset (taken @ tq q) = mset (tq (timeouts demo_sleepers))"
    and l: "list_all (\<lambda>y. due y \<le> 8) taken" "list_all (\<lambda>y. 8 < due y) (tq q)" by blast
  have d: "mset (map due taken) + mset (map due (tq q)) = {#5, 7, 9, 12#}"
    using arg_cong[OF m, of "image_mset due"] by (simp add: demo_queue demo_timeout_def)
  have k: "filter_mset P (mset xs) = mset xs" if "list_all P xs" for P and xs :: "int list"
    using that by (induction xs) auto
  have e: "filter_mset P (mset xs) = {#}" if "list_all (\<lambda>x. \<not> P x) xs" for P and xs :: "int list"
    using that by (induction xs) auto
  have f: "filter_mset (\<lambda>d. d \<le> 8) (mset (map due taken)) = mset (map due taken)"
    "filter_mset (\<lambda>d. d \<le> 8) (mset (map due (tq q))) = {#}"
    "filter_mset (\<lambda>d. 8 < d) (mset (map due taken)) = {#}"
    "filter_mset (\<lambda>d. 8 < d) (mset (map due (tq q))) = mset (map due (tq q))"
    using l by (intro k e; simp add: list_all_iff linorder_not_less linorder_not_le)+
  have t: "mset (map due taken) = {#5, 7#}" "mset (map due (tq q)) = {#9, 12#}"
    using arg_cong[OF d, of "filter_mset (\<lambda>d. d \<le> 8)", unfolded filter_union_mset f]
      arg_cong[OF d, of "filter_mset (\<lambda>d. 8 < d)", unfolded filter_union_mset f] by simp_all
  then have "map due taken = [5, 7]" using properties_for_sort[of "map due taken" "[5, 7]"] s by simp
  moreover have "map t_fiber (tasks vm2) = [1, 3]" using demo_wakes v(1) by simp
  ultimately show ?thesis using v t(2) by (intro exI[of _ taken] exI[of _ q] exI[of _ vm2] conjI)
qed

subsection \<open>Rounds over the tasks\<close>

text \<open>The state when the first task has been taken off and its fiber's flags are cleared.\<close>

lemma task_taken:
  assumes "vm_ok vm" "tasks vm = t # ts"
  obtains vm2 where "vm_ok vm2" "tasks vm2 = ts" "channels vm2 = channels vm"
    "fibers vm2 = (fibers vm)(t_fiber t := (fibers vm (t_fiber t))\<lparr>ev_canceled := False, ev_suspended := False\<rparr>)"
    "run_task resume vm = resume_task resume t vm2"
proof -
  have q: "q_ok (spawn vm)" "q_items (spawn vm) = t # ts" using assms by (simp_all add: vm_ok_def tasks_def)
  obtain q2 where p: "janet_q_pop (spawn vm) = Inr (Some (t, q2))" "q_ok q2" "q_items q2 = ts" using jq.pop_law[OF q] by blast
  define vm2 where "vm2 = begin_task t (vm\<lparr>spawn := q2\<rparr>)"
  have f: "spawn vm2 = q2" "channels vm2 = channels vm"
    "fibers vm2 = (fibers vm)(t_fiber t := (fibers vm (t_fiber t))\<lparr>ev_canceled := False, ev_suspended := False\<rparr>)"
    by (simp_all add: vm2_def begin_task_def Let_def)
  have "vm_ok vm2" using assms(1) f p(2) by (simp add: vm_ok_def)
  moreover have "tasks vm2 = ts" using f p(3) by (simp add: tasks_def)
  moreover have "run_task resume vm = resume_task resume t vm2"
    by (simp add: run_task_def act_simps p(1) vm2_def)
  ultimately show ?thesis using that f by blast
qed

lemma run_stale:
  assumes "vm_ok vm" "tasks vm = t # ts" "t_expected_sched_id t \<noteq> sched_id (fibers vm (t_fiber t))"
  obtains vm2 where "run_task resume vm = Inr (Inr None, vm2)" "vm_ok vm2" "tasks vm2 = ts" "channels vm2 = channels vm"
    "fibers vm2 = (fibers vm)(t_fiber t := (fibers vm (t_fiber t))\<lparr>ev_canceled := False, ev_suspended := False\<rparr>)"
  by (rule task_taken[OF assms(1,2), of resume]) (use assms(3) in \<open>simp add: act_simps resume_task_def\<close>)

lemma end_task_alone:
  assumes "supervisor_channel (fibers vm f) = None"
  obtains vm2 where "end_task f sig vm = Inr (Inr (), vm2)" "spawn vm2 = spawn vm" "channels vm2 = channels vm"
    "sched_id (fibers vm2 h) = sched_id (fibers vm h)" "ev_canceled (fibers vm2 h) = ev_canceled (fibers vm h)"
proof -
  have "\<exists>vm2. end_task f sig vm = Inr (Inr (), vm2) \<and> spawn vm2 = spawn vm \<and> channels vm2 = channels vm
    \<and> sched_id (fibers vm2 h) = sched_id (fibers vm h) \<and> ev_canceled (fibers vm2 h) = ev_canceled (fibers vm h)"
    using assms by (simp add: end_task_def act_simps Let_def)
  then show ?thesis using that by blast
qed

subsection \<open>A cancellation that is lost\<close>

lemma schedule_known:
  assumes "vm_ok vm" "length (tasks vm) < q_limit" "\<not> ev_canceled (fibers vm f)"
  obtains vm2 where "janet_schedule_general f v sig False vm = Inr vm2" "vm_ok vm2" "channels vm2 = channels vm"
    "tasks vm2 = tasks vm @ [\<lparr>t_fiber = f, t_value = v, t_sig = sig, t_expected_sched_id = sched_id (fibers vm f) + 1\<rparr>]"
    "sched_id (fibers vm2 f) = sched_id (fibers vm f) + 1" "ev_canceled (fibers vm2 f) = (sig = JANET_SIGNAL_ERROR)"
    "g \<noteq> f \<Longrightarrow> fibers vm2 g = fibers vm g"
  by (rule schedule_ok[OF assms(1), of f v sig False g]) (use assms(2,3) in \<open>auto simp: new_tasks_def\<close>)

text \<open>A fiber scheduled and then cancelled, with another one scheduled in between.\<close>

lemma schedule_and_cancel:
  assumes "vm_ok vm" "tasks vm = []" "f \<noteq> g" "\<not> ev_canceled (fibers vm f)" "\<not> ev_canceled (fibers vm g)"
    "supervisor_channel (fibers vm g) = None"
  obtains vm1 vm2 vm3 where "janet_schedule f u vm = Inr vm1" "janet_schedule g w vm1 = Inr vm2" "janet_cancel f e vm2 = Inr vm3" "vm_ok vm3"
    "tasks vm3 = \<lparr>t_fiber = f, t_value = u, t_sig = JANET_SIGNAL_OK, t_expected_sched_id = sched_id (fibers vm f) + 1\<rparr>
      # \<lparr>t_fiber = g, t_value = w, t_sig = JANET_SIGNAL_OK, t_expected_sched_id = sched_id (fibers vm g) + 1\<rparr>
      # [\<lparr>t_fiber = f, t_value = e, t_sig = JANET_SIGNAL_ERROR, t_expected_sched_id = sched_id (fibers vm f) + 1 + 1\<rparr>]"
    "sched_id (fibers vm3 f) = sched_id (fibers vm f) + 1 + 1" "sched_id (fibers vm3 g) = sched_id (fibers vm g) + 1"
    "supervisor_channel (fibers vm3 g) = None"
proof -
  let ?id = "sched_id (fibers vm f)" let ?gid = "sched_id (fibers vm g)"
  have l: "n < 10 \<Longrightarrow> n < q_limit" for n by (simp add: q_limit_def JANET_MAX_Q_CAPACITY_def)
  have gf: "g \<noteq> f" using assms(3) by simp
  obtain vm1 where a: "janet_schedule_general f u JANET_SIGNAL_OK False vm = Inr vm1" "vm_ok vm1"
    "tasks vm1 = [\<lparr>t_fiber = f, t_value = u, t_sig = JANET_SIGNAL_OK, t_expected_sched_id = ?id + 1\<rparr>]"
    "sched_id (fibers vm1 f) = ?id + 1" "\<not> ev_canceled (fibers vm1 f)" "fibers vm1 g = fibers vm g"
    by (rule schedule_known[OF assms(1) _ assms(4), of u JANET_SIGNAL_OK g]) (use assms(2) gf in \<open>auto simp: l\<close>)
  obtain vm2 where b: "janet_schedule_general g w JANET_SIGNAL_OK False vm1 = Inr vm2" "vm_ok vm2"
    "tasks vm2 = tasks vm1 @ [\<lparr>t_fiber = g, t_value = w, t_sig = JANET_SIGNAL_OK, t_expected_sched_id = ?gid + 1\<rparr>]"
    "sched_id (fibers vm2 g) = ?gid + 1" "\<not> ev_canceled (fibers vm2 g)" "fibers vm2 f = fibers vm1 f"
    by (rule schedule_known[OF a(2), of g w JANET_SIGNAL_OK f]) (use assms(3,5) a(3,6) in \<open>auto simp: l\<close>)
  have b7: "supervisor_channel (fibers vm2 g) = None" using b(1) a(6) assms(5,6)
    by (auto simp: janet_schedule_general_def Let_def rbind_eq_Inr split: option.splits if_splits)
  obtain vm3 where c: "janet_schedule_general f e JANET_SIGNAL_ERROR False vm2 = Inr vm3" "vm_ok vm3"
    "tasks vm3 = tasks vm2 @ [\<lparr>t_fiber = f, t_value = e, t_sig = JANET_SIGNAL_ERROR, t_expected_sched_id = ?id + 1 + 1\<rparr>]"
    "sched_id (fibers vm3 f) = ?id + 1 + 1" "fibers vm3 g = fibers vm2 g"
    by (rule schedule_known[OF b(2), of f e JANET_SIGNAL_ERROR g]) (use gf a b in \<open>auto simp: l\<close>)
  have t3: "tasks vm3 = \<lparr>t_fiber = f, t_value = u, t_sig = JANET_SIGNAL_OK, t_expected_sched_id = ?id + 1\<rparr>
      # \<lparr>t_fiber = g, t_value = w, t_sig = JANET_SIGNAL_OK, t_expected_sched_id = ?gid + 1\<rparr>
      # [\<lparr>t_fiber = f, t_value = e, t_sig = JANET_SIGNAL_ERROR, t_expected_sched_id = ?id + 1 + 1\<rparr>]"
    using a(3) b(3) c(3) by simp
  show ?thesis by (rule that[of vm1 vm2 vm3]) (use a(1) b(1,4) b7 c(1,2,4,5) t3 in \<open>simp_all add: janet_schedule_def janet_cancel_def\<close>)
qed

text \<open>C27. A cancellation can be lost. A fiber is scheduled, then another one, then the first is cancelled. The
  task of its first scheduling is out of date, and the loop drops it, but clears the mark of the
  cancellation with it. When the other fiber now schedules the first one, the task of the cancellation is out
  of date as well: the loop drops it too, and the fiber is resumed with a value in place of the error.\<close>

theorem cancel_lost:
  assumes "vm_ok vm" and "tasks vm = []" and "f \<noteq> g" and "\<not> ev_canceled (fibers vm f)" and "\<not> ev_canceled (fibers vm g)"
    and "supervisor_channel (fibers vm g) = None"
    and "resume = (\<lambda>h x sig v. (JANET_SIGNAL_EVENT, case janet_schedule f z v of Inr v2 \<Rightarrow> v2 | Inl _ \<Rightarrow> v))"
  shows "\<exists>vm1 vm2 vm3 vm4 vm5 vm6. janet_schedule f u vm = Inr vm1 \<and> janet_schedule g w vm1 = Inr vm2 \<and> janet_cancel f e vm2 = Inr vm3
    \<and> run_task resume vm3 = Inr (Inr None, vm4) \<and> run_task resume vm4 = Inr (Inr None, vm5) \<and> run_task resume vm5 = Inr (Inr None, vm6)
    \<and> tasks vm6 = [\<lparr>t_fiber = f, t_value = z, t_sig = JANET_SIGNAL_OK, t_expected_sched_id = sched_id (fibers vm6 f)\<rparr>]"
proof -
  let ?id = "sched_id (fibers vm f)" let ?gid = "sched_id (fibers vm g)"
  have l: "n < 10 \<Longrightarrow> n < q_limit" for n by (simp add: q_limit_def JANET_MAX_Q_CAPACITY_def)
  have gf: "g \<noteq> f" using assms(3) by simp
  obtain vm1 vm2 vm3 where c: "janet_schedule f u vm = Inr vm1" "janet_schedule g w vm1 = Inr vm2" "janet_cancel f e vm2 = Inr vm3" "vm_ok vm3"
    "tasks vm3 = \<lparr>t_fiber = f, t_value = u, t_sig = JANET_SIGNAL_OK, t_expected_sched_id = ?id + 1\<rparr>
      # \<lparr>t_fiber = g, t_value = w, t_sig = JANET_SIGNAL_OK, t_expected_sched_id = ?gid + 1\<rparr>
      # [\<lparr>t_fiber = f, t_value = e, t_sig = JANET_SIGNAL_ERROR, t_expected_sched_id = ?id + 1 + 1\<rparr>]"
    "sched_id (fibers vm3 f) = ?id + 1 + 1" "sched_id (fibers vm3 g) = ?gid + 1" "supervisor_channel (fibers vm3 g) = None"
    by (rule schedule_and_cancel[OF assms(1-6), of u w e])
  obtain vm4 where d: "run_task resume vm3 = Inr (Inr None, vm4)" "vm_ok vm4"
    "tasks vm4 = \<lparr>t_fiber = g, t_value = w, t_sig = JANET_SIGNAL_OK, t_expected_sched_id = ?gid + 1\<rparr>
      # [\<lparr>t_fiber = f, t_value = e, t_sig = JANET_SIGNAL_ERROR, t_expected_sched_id = ?id + 1 + 1\<rparr>]"
    "fibers vm4 = (fibers vm3)(f := (fibers vm3 f)\<lparr>ev_canceled := False, ev_suspended := False\<rparr>)"
    by (rule run_stale[OF c(4,5), of resume]) (use c(6) in auto)
  let ?tg = "\<lparr>t_fiber = g, t_value = w, t_sig = JANET_SIGNAL_OK, t_expected_sched_id = ?gid + 1\<rparr>"
  obtain v where r: "vm_ok v" "tasks v = [\<lparr>t_fiber = f, t_value = e, t_sig = JANET_SIGNAL_ERROR, t_expected_sched_id = ?id + 1 + 1\<rparr>]"
    "fibers v = (fibers vm4)(g := (fibers vm4 g)\<lparr>ev_canceled := False, ev_suspended := False\<rparr>)"
    "run_task resume vm4 = resume_task resume ?tg v"
    by (rule task_taken[OF d(2,3), of resume]) simp
  have fv: "sched_id (fibers v g) = ?gid + 1" "sched_id (fibers v f) = ?id + 1 + 1" "\<not> ev_canceled (fibers v f)"
    "supervisor_channel (fibers v g) = None"
    using r(3) d(4) c(6-8) gf assms(3) by simp_all
  obtain v2 where k: "janet_schedule_general f z JANET_SIGNAL_OK False v = Inr v2" "vm_ok v2"
    "tasks v2 = tasks v @ [\<lparr>t_fiber = f, t_value = z, t_sig = JANET_SIGNAL_OK, t_expected_sched_id = ?id + 1 + 1 + 1\<rparr>]"
    "sched_id (fibers v2 f) = ?id + 1 + 1 + 1" "fibers v2 g = fibers v g"
    by (rule schedule_known[OF r(1) _ fv(3), of z JANET_SIGNAL_OK g]) (use gf r(2) fv in \<open>auto simp: l\<close>)
  have res: "resume g w JANET_SIGNAL_OK v = (JANET_SIGNAL_EVENT, v2)" using k(1) assms(7) by (simp add: janet_schedule_def)
  have "supervisor_channel (fibers v2 g) = None" using k(5) fv(4) by simp
  then obtain vm5 where en: "end_task g JANET_SIGNAL_EVENT v2 = Inr (Inr (), vm5)" "spawn vm5 = spawn v2" "channels vm5 = channels v2"
    "sched_id (fibers vm5 f) = sched_id (fibers v2 f)" using end_task_alone[of v2 g JANET_SIGNAL_EVENT f] by blast
  have run4: "run_task resume vm4 = Inr (Inr None, vm5)" using r(4) fv(1) res en(1) by (simp add: resume_task_def act_simps)
  have ok5: "vm_ok vm5" using k(2) en by (simp add: vm_ok_def)
  have t5: "tasks vm5 = \<lparr>t_fiber = f, t_value = e, t_sig = JANET_SIGNAL_ERROR, t_expected_sched_id = ?id + 1 + 1\<rparr>
      # [\<lparr>t_fiber = f, t_value = z, t_sig = JANET_SIGNAL_OK, t_expected_sched_id = ?id + 1 + 1 + 1\<rparr>]"
    using k(3) r(2) en(2) by (simp add: tasks_def)
  obtain vm6 where m: "run_task resume vm5 = Inr (Inr None, vm6)"
    "tasks vm6 = [\<lparr>t_fiber = f, t_value = z, t_sig = JANET_SIGNAL_OK, t_expected_sched_id = ?id + 1 + 1 + 1\<rparr>]"
    "fibers vm6 = (fibers vm5)(f := (fibers vm5 f)\<lparr>ev_canceled := False, ev_suspended := False\<rparr>)"
    by (rule run_stale[OF ok5 t5, of resume]) (use k(4) en(4) in auto)
  have "sched_id (fibers vm6 f) = ?id + 1 + 1 + 1" using m(3) en(4) k(4) by simp
  then have "tasks vm6 = [\<lparr>t_fiber = f, t_value = z, t_sig = JANET_SIGNAL_OK, t_expected_sched_id = sched_id (fibers vm6 f)\<rparr>]"
    using m(2) by simp
  then show ?thesis using c(1-3) d(1) run4 m(1) by blast
qed

theorem cancel_lost_witness:
  "\<exists>resume vm3 vm4 vm5 vm6. run_task resume vm3 = Inr (Inr None, vm4) \<and> run_task resume vm4 = Inr (Inr None, vm5)
    \<and> run_task resume vm5 = Inr (Inr None, vm6) \<and> map t_sig (tasks vm6) = [JANET_SIGNAL_OK]"
proof -
  have f: "\<not> ev_canceled (fibers (start_vm 0) n)" "supervisor_channel (fibers (start_vm 0) n) = None" for n
    by (simp_all add: start_vm_def idle_fiber_def)
  from cancel_lost[where f = 1 and g = 2 and z = JNil and u = JNil and w = JNil and e = JNil, OF start_ok(1,3) _ f(1,1,2) refl]
  show ?thesis by force
qed

subsection \<open>\<open>ev/select\<close> with clauses that give\<close>

lemma clause_give: "argv ! i = JTuple [janet_wrap_channel c, x] \<Longrightarrow> clause_at argv i = Inr (c, Some x)"
  by (simp add: clause_at_def janet_indexed_view_def janet_getchannel_def janet_wrap_channel_def)

lemma choice_now_full:
  assumes "argv ! i = JTuple [janet_wrap_channel c, x]" "\<not> chan_closed (channels vm c)" "q_ok (items (channels vm c))"
    "limit (channels vm c) \<le> int (length (q_items (items (channels vm c))))"
  shows "choice_now argv (i # is) vm = choice_now argv is vm"
  using assms(2-4) by (simp add: act_simps clause_give[OF assms(1)] Let_def count_items)

lemma choice_wait_give:
  assumes "argv ! i = JTuple [janet_wrap_channel c, x]" "janet_channel_push c x 1 vm = Inr (Inr b, vm2)"
  shows "choice_wait argv (i # is) vm = choice_wait argv is vm2"
  using assms(2) by (simp add: act_simps clause_give[OF assms(1)])

lemma choice_awaits:
  assumes "choice_now argv [0..<length argv] vm = Inr (Inr None, vm)" "choice_wait argv [0..<length argv] vm = Inr (Inr (), vm2)" "argv \<noteq> []"
  shows "cfun_channel_choice argv vm = Inr (Inr Awaits, vm2)"
  using assms by (cases argv) (simp_all add: cfun_channel_choice_def act_simps janet_arity_def)

lemma getchannel_wrap: "argv ! n = janet_wrap_channel c \<Longrightarrow> janet_getchannel argv n = Inr c"
  by (simp add: janet_getchannel_def janet_wrap_channel_def)

text \<open>C25. \<open>ev/select\<close> with a clause that gives to a channel without room can hang. When a reader waits
  on a channel of limit 0, \<open>ev/give\<close> hands it the value and returns. The same clause of
  \<open>ev/select\<close> is passed over at first, since the channel has no room; it then hands over the value
  as well, but waits: no task but the reader's, no timeout, and no entry in the channel would wake the
  giver.\<close>

theorem select_give_hangs:
  assumes "vm_ok vm" and "\<not> chan_closed (channels vm c)" and "chan_room (channels vm c)" and "has_reader vm c"
    and "limit (channels vm c) \<le> int (length (q_items (items (channels vm c))))"
  shows "\<exists>vm2 r. cfun_channel_choice [JTuple [janet_wrap_channel c, x]] vm = Inr (Inr Awaits, vm2)
    \<and> still_waits vm r \<and> r \<in> set (q_items (read_pending (channels vm c)))
    \<and> tasks vm2 = tasks vm @ new_tasks vm (p_fiber r) (read_value c x r) JANET_SIGNAL_OK \<and> timeouts vm2 = timeouts vm
    \<and> q_items (write_pending (channels vm2 c)) = q_items (write_pending (channels vm c))
    \<and> set (q_items (read_pending (channels vm2 c))) \<subseteq> set (q_items (read_pending (channels vm c)))
    \<and> (\<forall>d. d \<noteq> c \<longrightarrow> channels vm2 d = channels vm d)
    \<and> (\<exists>vm3. cfun_channel_push [janet_wrap_channel c, x] vm = Inr (Inr (Returned (janet_wrap_channel c)), vm3))"
proof -
  let ?live = "dropWhile (\<lambda>r. \<not> still_waits vm r) (q_items (read_pending (channels vm c)))"
  obtain r rs where l: "?live = r # rs" using assms(4) unfolding has_reader_def list_ex_dropWhile by (cases ?live) auto
  have r: "still_waits vm r" using hd_dropWhile[of "\<lambda>r. \<not> still_waits vm r" "q_items (read_pending (channels vm c))"] l by simp
  have sub: "set (r # rs) \<subseteq> set (q_items (read_pending (channels vm c)))" unfolding l[symmetric] using set_dropWhileD by fastforce
  have push: "\<exists>vm2. janet_channel_push c x mode vm = Inr (Inr False, vm2)
      \<and> tasks vm2 = tasks vm @ new_tasks vm (p_fiber r) (read_value c x r) JANET_SIGNAL_OK \<and> timeouts vm2 = timeouts vm
      \<and> q_items (write_pending (channels vm2 c)) = q_items (write_pending (channels vm c)) \<and> q_items (read_pending (channels vm2 c)) = rs
      \<and> (\<forall>d. d \<noteq> c \<longrightarrow> channels vm2 d = channels vm d)" for mode
    by (rule give_ok[OF assms(1-3), of x mode]) (use l in \<open>auto simp: spec_give_def chan_lists_def wakes_def only_touched_def\<close>)
  obtain vm2 where p: "janet_channel_push c x 1 vm = Inr (Inr False, vm2)"
      "tasks vm2 = tasks vm @ new_tasks vm (p_fiber r) (read_value c x r) JANET_SIGNAL_OK" "timeouts vm2 = timeouts vm"
      "q_items (write_pending (channels vm2 c)) = q_items (write_pending (channels vm c))" "q_items (read_pending (channels vm2 c)) = rs"
      "\<forall>d. d \<noteq> c \<longrightarrow> channels vm2 d = channels vm d" using push[of 1] by blast
  obtain vm3 where p3: "janet_channel_push c x 0 vm = Inr (Inr False, vm3)" using push[of 0] by blast
  let ?argv = "[JTuple [janet_wrap_channel c, x]]"
  have now: "choice_now ?argv [0..<length ?argv] vm = Inr (Inr None, vm)"
    using choice_now_full[of ?argv 0 c x vm "[]"] assms(2,5) vm_okD[OF assms(1)] by (simp add: act_simps)
  have later: "choice_wait ?argv [0..<length ?argv] vm = Inr (Inr (), vm2)"
    using choice_wait_give[of ?argv 0 c x vm False vm2 "[]"] p(1) by (simp add: act_simps)
  have "cfun_channel_choice ?argv vm = Inr (Inr Awaits, vm2)" by (rule choice_awaits[OF now later]) simp
  moreover have "cfun_channel_push [janet_wrap_channel c, x] vm = Inr (Inr (Returned (janet_wrap_channel c)), vm3)"
    using p3 by (simp add: cfun_channel_push_def andnext_def require_def give_def janet_fixarity_def getchannel_wrap)
  ultimately show ?thesis using p r sub by (intro exI[of _ vm2] exI[of _ r] conjI exI[of _ vm3]) auto
qed

text \<open>A fiber that has begun to take, and another one that runs.\<close>

lemma one_reader:
  obtains vm where "vm_ok vm" "\<not> chan_closed (channels vm 0)" "chan_room (channels vm 0)" "has_reader vm 0" "limit (channels vm 0) = 0"
    "root_fiber vm = 1" "q_items (items (channels vm 0)) = []"
proof -
  have i: "spec_take me (chan_lists (channels (start_vm 0) c)) = (None, None, \<lparr>l_items = [], l_readers = [me], l_writers = []\<rparr>)" for me c
    by (simp add: spec_take_def start_ok(2))
  let ?me = "pending_root (take_mode False) (start_vm 0)"
  obtain v r w where t: "vm_ok v" "only_touched 0 w (start_vm 0) v"
    "spec_take ?me (chan_lists (channels (start_vm 0) 0)) = (r, w, chan_lists (channels v 0))"
    by (rule take_ok[where c = 0 and ch = False, OF start_ok(1,4,5)[of 0]])
  from t(3) have w: "w = None" and l: "chan_lists (channels v 0) = \<lparr>l_items = [], l_readers = [?me], l_writers = []\<rparr>" unfolding i by simp_all
  from l have q: "q_items (items (channels v 0)) = []" "q_items (read_pending (channels v 0)) = [?me]" "q_items (write_pending (channels v 0)) = []"
    by (simp_all add: chan_lists_def)
  have n: "1 < q_limit" by (simp add: q_limit_def JANET_MAX_Q_CAPACITY_def)
  have f: "fibers v = fibers (start_vm 0)" "limit (channels v 0) = 0" "\<not> chan_closed (channels v 0)"
    using t(2) start_ok(4)[of 0 0] unfolding w by (simp_all add: only_touched_def) (simp add: start_vm_def janet_chan_init_def)
  let ?vm = "v\<lparr>root_fiber := 1\<rparr>"
  have "still_waits ?vm ?me" using f(1) by (simp add: still_waits_def pending_root_def)
  then have "has_reader ?vm 0" using q by (simp add: has_reader_def)
  moreover have "vm_ok ?vm" using t(1) by (simp add: vm_ok_def)
  moreover have "chan_room (channels ?vm 0)" using q n by (simp add: chan_room_def)
  ultimately show ?thesis using that[of ?vm] f q by simp
qed

theorem select_give_hangs_witness:
  "\<exists>vm vm2 vm3. cfun_channel_choice [JTuple [janet_wrap_channel 0, JNil]] vm = Inr (Inr Awaits, vm2) \<and> q_items (write_pending (channels vm2 0)) = q_items (write_pending (channels vm 0))
    \<and> cfun_channel_push [janet_wrap_channel 0, JNil] vm = Inr (Inr (Returned (janet_wrap_channel 0)), vm3)"
proof -
  obtain vm where v: "vm_ok vm" "\<not> chan_closed (channels vm 0)" "chan_room (channels vm 0)" "has_reader vm 0" "limit (channels vm 0) = 0"
    "root_fiber vm = 1" "q_items (items (channels vm 0)) = []" by (rule one_reader)
  have "limit (channels vm 0) \<le> int (length (q_items (items (channels vm 0))))" using v(5,7) by simp
  from select_give_hangs[OF v(1-4) this, of JNil] show ?thesis by blast
qed

lemma give_alone:
  assumes "vm_ok vm" "\<not> chan_closed (channels vm c)" "chan_lists (channels vm c) = \<lparr>l_items = [], l_readers = [], l_writers = []\<rparr>"
    "limit (channels vm c) = 0"
  obtains vm2 where "janet_channel_push c x 1 vm = Inr (Inr True, vm2)" "vm_ok vm2" "tasks vm2 = tasks vm" "only_touched c None vm vm2"
    "chan_lists (channels vm2 c) = \<lparr>l_items = [x], l_readers = [], l_writers = [pending_root JANET_CP_MODE_CHOICE_WRITE vm]\<rparr>"
proof -
  have n: "0 < q_limit" by (simp add: q_limit_def JANET_MAX_Q_CAPACITY_def)
  have room: "chan_room (channels vm c)" using assms(3) n by (simp add: chan_lists_def chan_room_def)
  have spec: "spec_give live 0 1 me x \<lparr>l_items = [], l_readers = [], l_writers = []\<rparr> = (True, None, \<lparr>l_items = [x], l_readers = [], l_writers = [me]\<rparr>)"
    "give_mode 1 = JANET_CP_MODE_CHOICE_WRITE" for live me by (simp_all add: spec_give_def give_mode_def)
  obtain vm2 b w where p: "janet_channel_push c x 1 vm = Inr (Inr b, vm2)" "vm_ok vm2"
    "spec_give (still_waits vm) (limit (channels vm c)) 1 (pending_root (give_mode 1) vm) x (chan_lists (channels vm c)) = (b, w, chan_lists (channels vm2 c))"
    "tasks vm2 = tasks vm @ wakes vm (read_value c x) w" "only_touched c w vm vm2"
    by (rule give_ok[OF assms(1,2) room, of x 1])
  have "b = True \<and> w = None \<and> chan_lists (channels vm2 c) = \<lparr>l_items = [x], l_readers = [], l_writers = [pending_root JANET_CP_MODE_CHOICE_WRITE vm]\<rparr>"
    using p(3) unfolding assms(3,4) spec by simp
  then show ?thesis using that[of vm2] p by (simp add: wakes_def)
qed

lemma take_back:
  assumes "vm_ok vm" "\<not> chan_closed (channels vm c)" "chan_lists (channels vm c) = \<lparr>l_items = [z], l_readers = [], l_writers = [me]\<rparr>"
    "p_mode me = JANET_CP_MODE_CHOICE_WRITE" "\<not> ev_canceled (fibers vm (p_fiber me))" "length (tasks vm) < q_limit"
  obtains vm2 where "janet_channel_pop c False vm = Inr (Inr (Some z), vm2)" "vm_ok vm2" "only_touched c (Some me) vm vm2"
    "tasks vm2 = tasks vm @ [\<lparr>t_fiber = p_fiber me, t_value = make_write_result c, t_sig = JANET_SIGNAL_OK,
       t_expected_sched_id = sched_id (fibers vm (p_fiber me)) + 1\<rparr>]"
proof -
  have "1 < q_limit" by (simp add: q_limit_def JANET_MAX_Q_CAPACITY_def)
  then have room: "chan_room (channels vm c)" using assms(3) by (simp add: chan_lists_def chan_room_def)
  have take: "spec_take me2 \<lparr>l_items = [z], l_readers = [], l_writers = [me]\<rparr> = (Some z, Some me, \<lparr>l_items = [], l_readers = [], l_writers = []\<rparr>)" for me2
    by (simp add: spec_take_def)
  obtain vm2 r w where p: "janet_channel_pop c False vm = Inr (Inr r, vm2)" "vm_ok vm2"
    "spec_take (pending_root (take_mode False) vm) (chan_lists (channels vm c)) = (r, w, chan_lists (channels vm2 c))"
    "tasks vm2 = tasks vm @ wakes vm (write_value c) w" "only_touched c w vm vm2"
    by (rule take_ok[OF assms(1,2) room, of False])
  have "r = Some z" "w = Some me" using p(3) unfolding assms(3) take by simp_all
  then show ?thesis using that[of vm2] p assms(4-6) by (simp add: wakes_def write_value_def new_tasks_def)
qed

text \<open>C26. \<open>ev/select\<close> with two clauses that give, on two open empty channels without a buffer
  and without waiting readers, does not choose between them: each of the values is put into its channel. Two takers get both, although the fiber asked for one of two; each take wakes
  it, and the task of the first is then out of date, so that the fiber only learns of the second.\<close>

theorem select_gives_both:
  assumes "vm_ok vm" and "c \<noteq> d" and "chan_lists (channels vm c) = \<lparr>l_items = [], l_readers = [], l_writers = []\<rparr>"
    and "chan_lists (channels vm d) = \<lparr>l_items = [], l_readers = [], l_writers = []\<rparr>"
    and "\<not> chan_closed (channels vm c)" and "\<not> chan_closed (channels vm d)" and "limit (channels vm c) = 0" and "limit (channels vm d) = 0"
    and "\<not> ev_canceled (fibers vm (root_fiber vm))" and "length (tasks vm) + 1 < q_limit"
  shows "\<exists>vm1 vm2 vm3. cfun_channel_choice [JTuple [janet_wrap_channel c, x], JTuple [janet_wrap_channel d, y]] vm = Inr (Inr Awaits, vm1)
    \<and> janet_channel_pop c False vm1 = Inr (Inr (Some x), vm2) \<and> janet_channel_pop d False vm2 = Inr (Inr (Some y), vm3)
    \<and> tasks vm3 = tasks vm @ [\<lparr>t_fiber = root_fiber vm, t_value = make_write_result c, t_sig = JANET_SIGNAL_OK,
          t_expected_sched_id = sched_id (fibers vm (root_fiber vm)) + 1\<rparr>,
        \<lparr>t_fiber = root_fiber vm, t_value = make_write_result d, t_sig = JANET_SIGNAL_OK,
          t_expected_sched_id = sched_id (fibers vm (root_fiber vm)) + 2\<rparr>]
    \<and> sched_id (fibers vm3 (root_fiber vm)) = sched_id (fibers vm (root_fiber vm)) + 2"
proof -
  let ?me = "pending_root JANET_CP_MODE_CHOICE_WRITE vm" let ?f = "root_fiber vm"
  have me: "p_fiber ?me = ?f" "p_mode ?me = JANET_CP_MODE_CHOICE_WRITE" by (simp_all add: pending_root_def)
  obtain vm0 where p0: "janet_channel_push c x 1 vm = Inr (Inr True, vm0)" "vm_ok vm0" "tasks vm0 = tasks vm" "only_touched c None vm vm0"
    "chan_lists (channels vm0 c) = \<lparr>l_items = [x], l_readers = [], l_writers = [?me]\<rparr>" by (rule give_alone[OF assms(1,5,3,7), of x])
  have d0: "channels vm0 d = channels vm d" using p0(4) assms(2) by (simp add: only_touched_def)
  have o0: "\<not> chan_closed (channels vm0 d)" "chan_lists (channels vm0 d) = \<lparr>l_items = [], l_readers = [], l_writers = []\<rparr>"
    "limit (channels vm0 d) = 0" "pending_root JANET_CP_MODE_CHOICE_WRITE vm0 = ?me"
    using p0(4) assms d0 by (simp_all add: only_touched_def pending_root_def)
  obtain vm1 where p1: "janet_channel_push d y 1 vm0 = Inr (Inr True, vm1)" "vm_ok vm1" "tasks vm1 = tasks vm0" "only_touched d None vm0 vm1"
    "chan_lists (channels vm1 d) = \<lparr>l_items = [y], l_readers = [], l_writers = [?me]\<rparr>" by (rule give_alone[OF p0(2) o0(1-3), of y, unfolded o0(4)])
  let ?argv = "[JTuple [janet_wrap_channel c, x], JTuple [janet_wrap_channel d, y]]"
  have now: "choice_now ?argv [0..<length ?argv] vm = Inr (Inr None, vm)"
    using choice_now_full[of ?argv 0 c x vm "[1]"] choice_now_full[of ?argv 1 d y vm "[]"] assms(5-8) vm_okD[OF assms(1)]
    by (simp add: act_simps)
  have later: "choice_wait ?argv [0..<length ?argv] vm = Inr (Inr (), vm1)"
    using choice_wait_give[of ?argv 0 c x vm True vm0 "[1]"] choice_wait_give[of ?argv 1 d y vm0 True vm1 "[]"] p0(1) p1(1) by (simp add: act_simps)
  have sel: "cfun_channel_choice ?argv vm = Inr (Inr Awaits, vm1)" by (rule choice_awaits[OF now later]) simp
  have o1: "fibers vm1 = fibers vm" "tasks vm1 = tasks vm" "\<not> chan_closed (channels vm1 c)" "\<not> chan_closed (channels vm1 d)"
    "chan_lists (channels vm1 c) = \<lparr>l_items = [x], l_readers = [], l_writers = [?me]\<rparr>"
    using p0 p1 o0(1) assms(2,5) by (simp_all add: only_touched_def)
  obtain vm2 where p2: "janet_channel_pop c False vm1 = Inr (Inr (Some x), vm2)" "vm_ok vm2" "only_touched c (Some ?me) vm1 vm2"
    "tasks vm2 = tasks vm1 @ [\<lparr>t_fiber = p_fiber ?me, t_value = make_write_result c, t_sig = JANET_SIGNAL_OK,
       t_expected_sched_id = sched_id (fibers vm1 (p_fiber ?me)) + 1\<rparr>]"
    by (rule take_back[OF p1(2) o1(3,5) me(2)]) (use assms(9,10) o1 me in auto)
  have o2: "channels vm2 d = channels vm1 d" "\<not> ev_canceled (fibers vm2 ?f)" "sched_id (fibers vm2 ?f) = sched_id (fibers vm ?f) + 1"
    using p2(3) o1 assms(2,9) me by (simp_all add: only_touched_def)
  have l2: "\<not> chan_closed (channels vm2 d)" "chan_lists (channels vm2 d) = \<lparr>l_items = [y], l_readers = [], l_writers = [?me]\<rparr>"
    using o2(1) o1(4) p1(5) by simp_all
  obtain vm3 where p3: "janet_channel_pop d False vm2 = Inr (Inr (Some y), vm3)" "only_touched d (Some ?me) vm2 vm3"
    "tasks vm3 = tasks vm2 @ [\<lparr>t_fiber = p_fiber ?me, t_value = make_write_result d, t_sig = JANET_SIGNAL_OK,
       t_expected_sched_id = sched_id (fibers vm2 (p_fiber ?me)) + 1\<rparr>]"
    by (rule take_back[OF p2(2) l2 me(2)]) (use assms(10) o1(2) o2 p2(4) me in auto)
  have "sched_id (fibers vm3 ?f) = sched_id (fibers vm ?f) + 2" using p3(2) o2 me by (simp add: only_touched_def)
  then show ?thesis using sel p2(1,4) p3(1,3) o1(1,2) o2(3) me(1) by auto
qed

theorem select_gives_both_witness:
  "\<exists>vm1 vm2 vm3. cfun_channel_choice [JTuple [janet_wrap_channel 0, JNil], JTuple [janet_wrap_channel 1, JBool True]] (start_vm 0) = Inr (Inr Awaits, vm1)
    \<and> janet_channel_pop 0 False vm1 = Inr (Inr (Some JNil), vm2) \<and> janet_channel_pop 1 False vm2 = Inr (Inr (Some (JBool True)), vm3)"
proof -
  have e: "limit (channels (start_vm 0) c) = 0" "\<not> ev_canceled (fibers (start_vm 0) n)" "length (tasks (start_vm 0)) + 1 < q_limit" for c n
    using start_ok(3)[of 0] by (simp_all add: start_vm_def janet_chan_init_def idle_fiber_def q_limit_def JANET_MAX_Q_CAPACITY_def)
  have "0 \<noteq> (1 :: nat)" by simp
  from select_gives_both[OF start_ok(1) this start_ok(2,2,4,4) e(1,1,2,3), of JNil "JBool True"] show ?thesis by blast
qed

subsection \<open>A closed supervisor\<close>

text \<open>A closed supervisor channel ends the program. When a fiber with a supervisor finishes, the loop pushes
  the event into the channel; if it has been closed, that panics, outside of every fiber, and the loop
  is left with the other tasks undone.\<close>

theorem closed_supervisor:
  assumes "vm_ok vm" and "tasks vm = t # ts" and "\<not> auto_suspend vm"
    and "t_expected_sched_id t = sched_id (fibers vm (t_fiber t))"
    and "\<And>f x sig v. resume f x sig v = (JANET_SIGNAL_OK, v)"
    and "supervisor_channel (fibers vm (t_fiber t)) = Some c" and "chan_closed (channels vm c)"
  shows "\<exists>vm2. run_tasks resume vm = Some (Inr (Inl (Panic ''cannot write to closed channel'' []), vm2)) \<and> tasks vm2 = ts"
proof -
  obtain v where v: "vm_ok v" "tasks v = ts" "channels v = channels vm"
    "fibers v = (fibers vm)(t_fiber t := (fibers vm (t_fiber t))\<lparr>ev_canceled := False, ev_suspended := False\<rparr>)"
    "run_task resume vm = resume_task resume t v" by (rule task_taken[OF assms(1,2), of resume])
  define v2 where "v2 = (if finished (fibers v (t_fiber t)) then v\<lparr>active_tasks := active_tasks v - {t_fiber t}\<rparr> else v)"
  have c2: "channels v2 = channels vm" "tasks v2 = ts" using v(2,3) by (simp_all add: v2_def tasks_def)
  have p: "janet_channel_push c x 2 u = Inr (Inl (Panic ''cannot write to closed channel'' []), u)" if "channels u = channels vm" for x u
    using that assms(7) by (simp add: janet_channel_push_def act_simps Let_def)
  have "end_task (t_fiber t) JANET_SIGNAL_OK v = Inr (Inl (Panic ''cannot write to closed channel'' []), v2)"
    using v(3,4) assms(6)
    by (cases "finished (fibers v (t_fiber t))") (simp_all add: end_task_def act_simps Let_def is_suspended_def v2_def p)
  then have "run_task resume vm = Inr (Inl (Panic ''cannot write to closed channel'' []), v2)"
    unfolding v(5) using v(4) assms(4,5) by (simp add: resume_task_def act_simps)
  moreover have "q_head (spawn vm) \<noteq> q_tail (spawn vm)" using assms(1,2) ends_equal[of "spawn vm"] by (simp add: vm_ok_def tasks_def)
  ultimately have "run_tasks resume vm = Some (Inr (Inl (Panic ''cannot write to closed channel'' []), v2))"
    using assms(3) by (subst run_tasks.simps) simp
  then show ?thesis using c2(2) by blast
qed

theorem closed_supervisor_witness:
  "\<exists>vm vm2. run_tasks (\<lambda>f x sig v. (JANET_SIGNAL_OK, v)) vm = Some (Inr (Inl (Panic ''cannot write to closed channel'' []), vm2))"
proof -
  let ?t = "\<lparr>t_fiber = 1, t_value = JNil, t_sig = JANET_SIGNAL_OK, t_expected_sched_id = 0\<rparr>"
  have "length (q_items (janet_q_init :: task janet_queue)) < q_limit" by (simp add: q_limit_def JANET_MAX_Q_CAPACITY_def)
  from jq.push_law[OF janet_q_init(1) this, of ?t] obtain q where q: "q_ok q" "q_items q = [?t]" by auto
  let ?vm = "(start_vm 0)\<lparr>channels := (\<lambda>_. (janet_chan_init 0)\<lparr>chan_closed := True\<rparr>),
    fibers := (\<lambda>_. idle_fiber\<lparr>supervisor_channel := Some 0\<rparr>), spawn := q\<rparr>"
  have "vm_ok ?vm" using q by (simp add: vm_ok_def chan_ok_def janet_chan_init_def)
  moreover have "tasks ?vm = [?t]" using q by (simp add: tasks_def)
  moreover have "\<not> auto_suspend ?vm" by (simp add: start_vm_def)
  moreover have "t_expected_sched_id ?t = sched_id (fibers ?vm (t_fiber ?t))" by (simp add: idle_fiber_def)
  moreover have "supervisor_channel (fibers ?vm (t_fiber ?t)) = Some 0" by simp
  moreover have "chan_closed (channels ?vm 0)" by simp
  ultimately show ?thesis using closed_supervisor[of ?vm ?t "[]" "\<lambda>f x sig v. (JANET_SIGNAL_OK, v)" 0] by blast
qed

end
