(* ===== verification/Marshal.thy ===== *)
theory Marshal
  imports Table Buffers
begin

unbundle bit_operations_syntax

text \<open>
  \<^verbatim>\<open>src/core/marsh.c\<close> (amalg/janet.c): values as a string of bytes and back. The
  heap is the list of its objects in the order of their allocation, and a reference is the index of
  its object; arrays, buffers and tables may refer to each other in any way, cycles included.
  Marshalling keeps the values it has written in the table \<open>seen\<close>, numbered in the order
  in which unmarshalling will meet them, and writes the number when it comes to one again.

  The depth of the recursion is the number of levels left: the check
  \<open>(flags & 0xFFFF) > JANET_RECURSION_GUARD\<close> lets \<open>JANET_RECURSION_GUARD + 1\<close> of them
  through. What is done for structs, functions, fibers and abstract values is the parameter
  \<open>others\<close> of both directions.
\<close>

text \<open>A buffer keeps the address of its memory; the cells of an array are those below its
  count.\<close>

datatype object =
    OArray "jv block"
  | OBuffer jbuffer "64 word"
  | OTable table

type_synonym objects = "object list"

definition deref :: "objects \<Rightarrow> 64 word \<Rightarrow> fault + object" where
  "deref h a = (if unat a < length h then Inr (h ! unat a) else Inl UseAfterFree)"

definition tables_of :: "objects \<Rightarrow> tables" where
  "tables_of h a = (if a < length h then (case h ! a of OTable t \<Rightarrow> Some t | _ \<Rightarrow> None) else None)"

definition as_array :: "object \<Rightarrow> fault + jv block" where
  "as_array x = (case x of OArray b \<Rightarrow> Inr b | _ \<Rightarrow> Inl BadCast)"

definition as_table :: "object \<Rightarrow> fault + table" where
  "as_table x = (case x of OTable t \<Rightarrow> Inr t | _ \<Rightarrow> Inl BadCast)"

definition as_buffer :: "object \<Rightarrow> fault + jbuffer \<times> 64 word" where
  "as_buffer x = (case x of OBuffer b p \<Rightarrow> Inr (b, p) | _ \<Rightarrow> Inl BadCast)"

definition JANET_RECURSION_GUARD :: nat where "JANET_RECURSION_GUARD = 1024"

subsection \<open>Lead bytes\<close>

abbreviation LB_REAL :: "8 word" where "LB_REAL \<equiv> 200"
abbreviation LB_NIL :: "8 word" where "LB_NIL \<equiv> 201"
abbreviation LB_FALSE :: "8 word" where "LB_FALSE \<equiv> 202"
abbreviation LB_TRUE :: "8 word" where "LB_TRUE \<equiv> 203"
abbreviation LB_FIBER :: "8 word" where "LB_FIBER \<equiv> 204"
abbreviation LB_INTEGER :: "8 word" where "LB_INTEGER \<equiv> 205"
abbreviation LB_STRING :: "8 word" where "LB_STRING \<equiv> 206"
abbreviation LB_SYMBOL :: "8 word" where "LB_SYMBOL \<equiv> 207"
abbreviation LB_KEYWORD :: "8 word" where "LB_KEYWORD \<equiv> 208"
abbreviation LB_ARRAY :: "8 word" where "LB_ARRAY \<equiv> 209"
abbreviation LB_TUPLE :: "8 word" where "LB_TUPLE \<equiv> 210"
abbreviation LB_TABLE :: "8 word" where "LB_TABLE \<equiv> 211"
abbreviation LB_TABLE_PROTO :: "8 word" where "LB_TABLE_PROTO \<equiv> 212"
abbreviation LB_STRUCT :: "8 word" where "LB_STRUCT \<equiv> 213"
abbreviation LB_BUFFER :: "8 word" where "LB_BUFFER \<equiv> 214"
abbreviation LB_FUNCTION :: "8 word" where "LB_FUNCTION \<equiv> 215"
abbreviation LB_REGISTRY :: "8 word" where "LB_REGISTRY \<equiv> 216"
abbreviation LB_ABSTRACT :: "8 word" where "LB_ABSTRACT \<equiv> 217"
abbreviation LB_REFERENCE :: "8 word" where "LB_REFERENCE \<equiv> 218"
abbreviation LB_UNSAFE_CFUNCTION :: "8 word" where "LB_UNSAFE_CFUNCTION \<equiv> 221"
abbreviation LB_UNSAFE_POINTER :: "8 word" where "LB_UNSAFE_POINTER \<equiv> 222"
abbreviation LB_STRUCT_PROTO :: "8 word" where "LB_STRUCT_PROTO \<equiv> 223"
abbreviation LB_THREADED_ABSTRACT :: "8 word" where "LB_THREADED_ABSTRACT \<equiv> 224"
abbreviation LB_POINTER_BUFFER :: "8 word" where "LB_POINTER_BUFFER \<equiv> 225"

subsection \<open>Marshalling\<close>

text \<open>\<open>target\<close> is the index of the buffer that is written to, when that buffer is an
  object of the heap.\<close>

record mstate =
  mbuf :: jbuffer
  target :: "nat option"
  seen :: table
  rreg :: "nat option"
  nextid :: int
  maybe_cycles :: bool

definition on_mbuf :: "(jbuffer, unit) act \<Rightarrow> (mstate, unit) act" where
  "on_mbuf f s = (case f (mbuf s) of Inl e \<Rightarrow> Inl e | Inr rb \<Rightarrow> Inr (fst rb, s\<lparr>mbuf := snd rb\<rparr>))"

definition pushbyte :: "8 word \<Rightarrow> (mstate, unit) act" where
  "pushbyte b = on_mbuf (janet_buffer_push_u8 b)"

definition pushbytes :: "bytes \<Rightarrow> (mstate, unit) act" where
  "pushbytes ys = on_mbuf (janet_buffer_push_bytes ys)"

definition pushint :: "int \<Rightarrow> (mstate, unit) act" where
  "pushint x =
     (let w = word_of_int x :: 32 word in
      if 0 \<le> x \<and> x < 128 then pushbyte (ucast w)
      else if x \<le> 8191 \<and> -8192 \<le> x
      then pushbytes [ucast ((signed_drop_bit 8 w AND 0x3F) OR 0x80), ucast (w AND 0xFF)]
      else pushbytes [LB_INTEGER, ucast (signed_drop_bit 24 w AND 0xFF), ucast (signed_drop_bit 16 w AND 0xFF),
                      ucast (signed_drop_bit 8 w AND 0xFF), ucast (w AND 0xFF)])"

text \<open>The bytes of a pointer or a double, as they are in the memory of a little-endian
  machine.\<close>

fun le_bytes :: "nat \<Rightarrow> 64 word \<Rightarrow> bytes" where
  "le_bytes 0 w = []"
| "le_bytes (Suc n) w = ucast (w AND 0xFF) # le_bytes n (drop_bit 8 w)"

fun le_word :: "bytes \<Rightarrow> 64 word" where
  "le_word [] = 0"
| "le_word (b # ys) = ucast b OR push_bit 8 (le_word ys)"

definition pushpointer :: "64 word \<Rightarrow> (mstate, unit) act" where
  "pushpointer ptr = pushbytes (le_bytes 8 ptr)"

text \<open>The loop of \<open>push64\<close> takes the low byte off until nothing is left.\<close>

function low_bytes :: "64 word \<Rightarrow> bytes" where
  "low_bytes x = (if x = 0 then [] else ucast (x AND 0xFF) # low_bytes (drop_bit 8 x))"
  by pat_completeness auto

termination
proof (relation "measure unat")
  fix x :: "64 word"
  assume "x \<noteq> 0"
  then have "0 < unat x" by (simp add: unat_gt_0)
  then show "(drop_bit 8 x, x) \<in> measure unat" by (simp add: drop_bit_eq_div unat_div)
qed simp

definition push64 :: "64 word \<Rightarrow> (mstate, unit) act" where
  "push64 x =
     (if x \<le> 0xF0 then pushbyte (ucast x)
      else pushbytes (word_of_nat (0xF0 + length (low_bytes x)) # low_bytes x))"

text \<open>The 64 bits of a double.\<close>

definition double_bits :: "double \<Rightarrow> 64 word" where
  "double_bits d = (case d of
     Finite s n \<Rightarrow> word_of_int ((if s then 2 ^ 63 else 0) + n)
   | Infinity s \<Rightarrow> (if s then 0xFFF0000000000000 else 0x7FF0000000000000)
   | NaN s \<Rightarrow> (if s then 0xFFF8000000000000 else 0x7FF8000000000000))"

definition bits_double :: "64 word \<Rightarrow> double" where
  "bits_double w =
     (let s = bit w 63; m = uint w mod 2 ^ 63 in
      if m < 2047 * 2 ^ 52 then Finite s m else if m = 2047 * 2 ^ 52 then Infinity s else NaN s)"

definition janet_wrap_number_safe :: "double \<Rightarrow> jv" where
  "janet_wrap_number_safe d = VNum (if isnan d then NaN False else d)"

text \<open>\<open>janet_checkint\<close> with \<open>janet_unwrap_integer\<close>.\<close>

definition int_of :: "jv \<Rightarrow> int option" where
  "int_of x = (case x of VNum d \<Rightarrow> (case dbl_int d of Some i \<Rightarrow> if int32 i then Some i else None | None \<Rightarrow> None) | _ \<Rightarrow> None)"

definition MARK_SEEN :: "jv \<Rightarrow> (mstate, unit) act" where
  "MARK_SEEN x = inspect (\<lambda>s.
     if maybe_cycles s
     then andnext (attempt (checked32 (nextid s + 1))) (\<lambda>n.
       andnext (attempt (janet_table_put (seen s) x (VNum (double_of_int (nextid s))))) (\<lambda>t.
       modify (\<lambda>s. s\<lparr>seen := t, nextid := n\<rparr>)))
     else give ())"

text \<open>A value written before is its number; a value of the registry is its name.\<close>

definition or_reference :: "jv \<Rightarrow> (mstate, unit) act \<Rightarrow> (mstate, unit) act" where
  "or_reference x k = inspect (\<lambda>s.
     if maybe_cycles s
     then andnext (attempt (janet_table_get [0 \<mapsto> seen s] 0 x)) (\<lambda>check. case int_of check of
         Some i \<Rightarrow> andnext (pushbyte LB_REFERENCE) (\<lambda>_. pushint i)
       | None \<Rightarrow> k)
     else k)"

definition or_registry :: "objects \<Rightarrow> jv \<Rightarrow> (mstate, unit) act \<Rightarrow> (mstate, unit) act" where
  "or_registry h x k = inspect (\<lambda>s. case rreg s of
     Some r \<Rightarrow> andnext (attempt (janet_table_get (tables_of h) r x)) (\<lambda>check. case check of
         VSym regname \<Rightarrow>
           andnext (MARK_SEEN x) (\<lambda>_.
           andnext (pushbyte LB_REGISTRY) (\<lambda>_.
           andnext (pushint (int (length regname))) (\<lambda>_. pushbytes regname)))
       | _ \<Rightarrow> k)
   | None \<Rightarrow> k)"

primrec for_each :: "('a \<Rightarrow> ('s, unit) act) \<Rightarrow> 'a list \<Rightarrow> ('s, unit) act" where
  "for_each f [] = give ()"
| "for_each f (x # xs) = andnext (f x) (\<lambda>_. for_each f xs)"

definition marshal_string :: "jv \<Rightarrow> 8 word \<Rightarrow> bytes \<Rightarrow> (mstate, unit) act" where
  "marshal_string x lb str =
     andnext (MARK_SEEN x) (\<lambda>_.
     andnext (pushbyte lb) (\<lambda>_.
     andnext (pushint (int (length str))) (\<lambda>_. pushbytes str)))"

text \<open>A buffer that is written to itself: its count is read twice, after the lead byte and
  after the count, and when the push has to make room its bytes are read from the memory that was
  given back.\<close>

definition push_own :: "(mstate, unit) act" where
  "push_own = inspect (\<lambda>s.
     let b = mbuf s in
     andnext (attempt (guard_or (2 * bcount b \<le> bcapacity b \<or> 2 * bcount b > INT32_MAX \<or> bcount b = 0 \<or> no_realloc b) UseAfterFree)) (\<lambda>_.
     andnext (attempt (read_cells (bcells b) 0 (nat (bcount b)))) pushbytes))"

definition marshal_buffer :: "bool \<Rightarrow> objects \<Rightarrow> 64 word \<Rightarrow> (mstate, unit) act" where
  "marshal_buffer unsafe h a =
     andnext (attempt (rbind (deref h a) as_buffer)) (\<lambda>(b, p).
     andnext (MARK_SEEN (VRef JANET_BUFFER a)) (\<lambda>_. inspect (\<lambda>s.
     let own = (target s = Some (unat a)) in
     if unsafe \<and> no_realloc (if own then mbuf s else b)
     then andnext (pushbyte LB_POINTER_BUFFER) (\<lambda>_. inspect (\<lambda>s.
          andnext (pushint (bcount (if own then mbuf s else b))) (\<lambda>_. inspect (\<lambda>s.
          andnext (pushint (bcapacity (if own then mbuf s else b))) (\<lambda>_.
          pushpointer p)))))
     else andnext (pushbyte LB_BUFFER) (\<lambda>_. inspect (\<lambda>s.
          andnext (pushint (bcount (if own then mbuf s else b))) (\<lambda>_.
          if own then push_own
          else andnext (attempt (read_cells (bcells b) 0 (nat (bcount b)))) pushbytes))))))"

definition marshal_array :: "(jv \<Rightarrow> (mstate, unit) act) \<Rightarrow> objects \<Rightarrow> 64 word \<Rightarrow> (mstate, unit) act" where
  "marshal_array rec h a =
     andnext (attempt (rbind (deref h a) as_array)) (\<lambda>cells.
     andnext (MARK_SEEN (VRef JANET_ARRAY a)) (\<lambda>_.
     andnext (pushbyte LB_ARRAY) (\<lambda>_.
     andnext (pushint (int (length cells))) (\<lambda>_.
     for_each (\<lambda>c. andnext (attempt (case c of Some x \<Rightarrow> Inr x | None \<Rightarrow> Inl Uninitialised)) rec) cells))))"

text \<open>The flags of a tuple above the collector's bits: one of them says it was written with
  brackets.\<close>

definition marshal_tuple :: "(jv \<Rightarrow> (mstate, unit) act) \<Rightarrow> bool \<Rightarrow> jv list \<Rightarrow> (mstate, unit) act" where
  "marshal_tuple rec br xs =
     andnext (pushbyte LB_TUPLE) (\<lambda>_.
     andnext (pushint (int (length xs))) (\<lambda>_.
     andnext (pushint (if br then 1 else 0)) (\<lambda>_.
     andnext (for_each rec xs) (\<lambda>_.
     MARK_SEEN (VTuple br xs)))))"

definition marshal_table :: "(jv \<Rightarrow> (mstate, unit) act) \<Rightarrow> objects \<Rightarrow> 64 word \<Rightarrow> (mstate, unit) act" where
  "marshal_table rec h a =
     andnext (attempt (rbind (deref h a) as_table)) (\<lambda>t.
     andnext (MARK_SEEN (VRef JANET_TABLE a)) (\<lambda>_.
     andnext (pushbyte (if proto t \<noteq> None then LB_TABLE_PROTO else LB_TABLE)) (\<lambda>_.
     andnext (pushint (tcount t)) (\<lambda>_.
     andnext (case proto t of Some p \<Rightarrow> rec (VRef JANET_TABLE (word_of_nat p)) | None \<Rightarrow> give ()) (\<lambda>_.
     for_each (\<lambda>kv. if fst kv = VNil then give () else andnext (rec (fst kv)) (\<lambda>_. rec (snd kv))) (data t))))))"

definition marshal_pointer :: "bool \<Rightarrow> jtype \<Rightarrow> 64 word \<Rightarrow> (mstate, unit) act" where
  "marshal_pointer unsafe t p =
     (if \<not> unsafe then throw ''no registry value and cannot marshal %p'' [ATypes [t]]
      else andnext (MARK_SEEN (VRef t p)) (\<lambda>_.
        andnext (pushbyte (if t = JANET_POINTER then LB_UNSAFE_POINTER else LB_UNSAFE_CFUNCTION)) (\<lambda>_.
        pushpointer p)))"

definition marshal_real :: "double \<Rightarrow> (mstate, unit) act" where
  "marshal_real d =
     andnext (pushbyte LB_REAL) (\<lambda>_.
     andnext (pushbytes (le_bytes 8 (double_bits d))) (\<lambda>_. MARK_SEEN (VNum d)))"

text \<open>The part after the checks for a value seen or registered; \<open>rec\<close> is one level
  down.\<close>

definition marshal_fresh ::
  "(jv \<Rightarrow> (mstate, unit) act) \<Rightarrow> (jv \<Rightarrow> (mstate, unit) act) \<Rightarrow> bool \<Rightarrow> objects \<Rightarrow> jv \<Rightarrow> (mstate, unit) act" where
  "marshal_fresh others rec unsafe h x = (case x of
     VNum d \<Rightarrow> marshal_real d
   | VStr s \<Rightarrow> marshal_string x LB_STRING s
   | VSym s \<Rightarrow> marshal_string x LB_SYMBOL s
   | VKey s \<Rightarrow> marshal_string x LB_KEYWORD s
   | VTuple br xs \<Rightarrow> marshal_tuple rec br xs
   | VRef t a \<Rightarrow>
       (if t = JANET_BUFFER then marshal_buffer unsafe h a
        else if t = JANET_ARRAY then marshal_array rec h a
        else if t = JANET_TABLE then marshal_table rec h a
        else if t \<in> {JANET_POINTER, JANET_CFUNCTION} then marshal_pointer unsafe t a
        else others x)
   | _ \<Rightarrow> others x)"

definition marshal_step ::
  "(jv \<Rightarrow> (mstate, unit) act) \<Rightarrow> (jv \<Rightarrow> (mstate, unit) act) \<Rightarrow> bool \<Rightarrow> objects \<Rightarrow> jv \<Rightarrow> (mstate, unit) act" where
  "marshal_step others rec unsafe h x =
     (let body = or_reference x (or_registry h x (marshal_fresh others rec unsafe h x)) in
      case x of
        VNil \<Rightarrow> pushbyte LB_NIL
      | VBool b \<Rightarrow> pushbyte (if b then LB_TRUE else LB_FALSE)
      | VNum d \<Rightarrow> (case int_of x of Some i \<Rightarrow> pushint i | None \<Rightarrow> body)
      | _ \<Rightarrow> body)"

primrec marshal_one ::
  "(nat \<Rightarrow> jv \<Rightarrow> (mstate, unit) act) \<Rightarrow> bool \<Rightarrow> objects \<Rightarrow> nat \<Rightarrow> jv \<Rightarrow> (mstate, unit) act" where
  "marshal_one others unsafe h 0 = (\<lambda>x. throw ''stack overflow'' [])"
| "marshal_one others unsafe h (Suc n) = marshal_step (others n) (marshal_one others unsafe h n) unsafe h"

definition janet_marshal ::
  "(nat \<Rightarrow> jv \<Rightarrow> (mstate, unit) act) \<Rightarrow> objects \<Rightarrow> nat option \<Rightarrow> jv \<Rightarrow> nat option \<Rightarrow> bool \<Rightarrow> bool \<Rightarrow> (jbuffer, unit) act" where
  "janet_marshal others h dest x reg unsafe no_cycles b =
     rbind (janet_table 0) (\<lambda>t.
     rbind (marshal_one others unsafe h (Suc JANET_RECURSION_GUARD) x
              \<lparr>mbuf = b, target = dest, seen = t, rreg = reg, nextid = 0, maybe_cycles = \<not> no_cycles\<rparr>) (\<lambda>rs.
       Inr (fst rs, mbuf (snd rs))))"

end
