(* ===== verification/Unmarshal.thy ===== *)
theory Unmarshal
  imports Marshal
begin

unbundle bit_operations_syntax

text \<open>
  The other direction of \<^verbatim>\<open>src/core/marsh.c\<close> (amalg/janet.c): reading a value from
  bytes that may come from anywhere. A position in the message is the number of bytes before it;
  every byte is read through \<open>byte_at\<close>, which faults outside the message, so the checks
  \<open>MARSH_EOS\<close> are what keeps the reads inside. \<open>lookup\<close> has the values a later
  reference may name, in the order in which they were met; new objects go to the end of the heap.
  \<open>foreign\<close> is the memory the pointer of a foreign buffer may point to.
\<close>

record ustate =
  ubytes :: bytes
  upos :: nat
  lookup :: "jv list"
  uheap :: objects
  ureg :: "nat option"
  foreign :: "64 word \<Rightarrow> 8 word block"

subsection \<open>Reading bytes\<close>

definition MARSH_EOS :: "int \<Rightarrow> (ustate, unit) act" where
  "MARSH_EOS k s =
     (if int (upos s) + k \<ge> int (length (ubytes s)) then throw ''unexpected end of source'' [] s else give () s)"

definition byte_at :: "nat \<Rightarrow> (ustate, 8 word) act" where
  "byte_at k s =
     (if upos s + k < length (ubytes s) then give (ubytes s ! (upos s + k)) s else Inl OutOfBounds)"

definition advance :: "nat \<Rightarrow> (ustate, unit) act" where
  "advance k = modify (\<lambda>s. s\<lparr>upos := upos s + k\<rparr>)"

text \<open>\<open>memcpy\<close> of the next bytes.\<close>

definition take_bytes :: "nat \<Rightarrow> (ustate, bytes) act" where
  "take_bytes n s =
     (if upos s + n \<le> length (ubytes s)
      then give (take n (drop (upos s) (ubytes s))) (s\<lparr>upos := upos s + n\<rparr>) else Inl OutOfBounds)"

definition readint :: "(ustate, int) act" where
  "readint =
     andnext (MARSH_EOS 0) (\<lambda>_.
     andnext (byte_at 0) (\<lambda>b0.
     if b0 < 128 then andnext (advance 1) (\<lambda>_. give (uint b0))
     else if b0 < 192 then
       andnext (MARSH_EOS 1) (\<lambda>_.
       andnext (byte_at 1) (\<lambda>b1.
       let u = push_bit 8 (ucast (b0 AND 0x3F)) + ucast b1 :: 32 word;
           u = u OR (if drop_bit 13 u \<noteq> 0 then 0xFFFFC000 else 0)
       in andnext (advance 2) (\<lambda>_. give (sint u))))
     else if b0 = LB_INTEGER then
       andnext (MARSH_EOS 4) (\<lambda>_.
       andnext (byte_at 1) (\<lambda>b1. andnext (byte_at 2) (\<lambda>b2. andnext (byte_at 3) (\<lambda>b3. andnext (byte_at 4) (\<lambda>b4.
       let u = push_bit 24 (ucast b1) OR push_bit 16 (ucast b2) OR push_bit 8 (ucast b3) OR ucast b4 :: 32 word
       in andnext (advance 5) (\<lambda>_. give (sint u)))))))
     else inspect (\<lambda>s. throw ''expected integer, got byte %x at index %d'' [AInt (uint b0), AInt (int (upos s))])))"

definition readnat :: "(ustate, int) act" where
  "readnat = andnext readint (\<lambda>n.
     if n < 0 then throw ''expected integer >= 0, got %d'' [AInt n] else give n)"

fun sum_bytes :: "bytes \<Rightarrow> 64 word \<Rightarrow> 64 word" where
  "sum_bytes [] acc = acc"
| "sum_bytes (b # ys) acc = sum_bytes ys (push_bit 8 acc + ucast b)"

text \<open>The bytes of a long number are added up from the last one to the first.\<close>

definition read64 :: "(ustate, 64 word) act" where
  "read64 =
     andnext (MARSH_EOS 0) (\<lambda>_.
     andnext (byte_at 0) (\<lambda>b0.
     if b0 \<le> 0xF0 then andnext (advance 1) (\<lambda>_. give (ucast b0))
     else let nbytes = unat b0 - 0xF0 in
       if nbytes > 8 then throw ''invalid 64 bit integer'' []
       else andnext (MARSH_EOS (int nbytes)) (\<lambda>_.
         andnext (advance 1) (\<lambda>_.
         andnext (take_bytes nbytes) (\<lambda>ys. give (sum_bytes (rev ys) 0))))))"

definition push_lookup :: "jv \<Rightarrow> (ustate, unit) act" where
  "push_lookup x = modify (\<lambda>s. s\<lparr>lookup := lookup s @ [x]\<rparr>)"

definition new_object :: "object \<Rightarrow> (ustate, 64 word) act" where
  "new_object x s = give (word_of_nat (length (uheap s))) (s\<lparr>uheap := uheap s @ [x]\<rparr>)"

definition change_object :: "64 word \<Rightarrow> (object \<Rightarrow> fault + object) \<Rightarrow> (ustate, unit) act" where
  "change_object a f s =
     (case rbind (deref (uheap s) a) f of Inl e \<Rightarrow> Inl e
      | Inr x \<Rightarrow> give () (s\<lparr>uheap := (uheap s)[unat a := x]\<rparr>))"

primrec for_range :: "nat \<Rightarrow> nat \<Rightarrow> (nat \<Rightarrow> ('s, unit) act) \<Rightarrow> ('s, unit) act" where
  "for_range i 0 f = give ()"
| "for_range i (Suc n) f = andnext (f i) (\<lambda>_. for_range (Suc i) n f)"

primrec collect :: "nat \<Rightarrow> ('s, 'a) act \<Rightarrow> ('s, 'a list) act" where
  "collect 0 m = give []"
| "collect (Suc n) m = andnext m (\<lambda>x. andnext (collect n m) (\<lambda>xs. give (x # xs)))"

subsection \<open>Values\<close>

definition unmarshal_real :: "(ustate, jv) act" where
  "unmarshal_real =
     andnext (MARSH_EOS 8) (\<lambda>_.
     andnext (advance 1) (\<lambda>_.
     andnext (take_bytes 8) (\<lambda>ys.
     let x = janet_wrap_number_safe (bits_double (le_word ys)) in
     andnext (push_lookup x) (\<lambda>_. give x))))"

definition unmarshal_integer :: "(ustate, jv) act" where
  "unmarshal_integer =
     andnext (MARSH_EOS 4) (\<lambda>_.
     andnext (byte_at 1) (\<lambda>b1. andnext (byte_at 2) (\<lambda>b2. andnext (byte_at 3) (\<lambda>b3. andnext (byte_at 4) (\<lambda>b4.
     let u = ucast b4 OR push_bit 8 (ucast b3) OR push_bit 16 (ucast b2) OR push_bit 24 (ucast b1) :: 32 word
     in andnext (advance 5) (\<lambda>_. give (VNum (double_of_int (sint u)))))))))"

definition make_of_bytes :: "8 word \<Rightarrow> bytes \<Rightarrow> (ustate, jv) act" where
  "make_of_bytes lead ys =
     (if lead = LB_STRING then give (VStr ys)
      else if lead = LB_SYMBOL then give (VSym ys)
      else if lead = LB_KEYWORD then give (VKey ys)
      else if lead = LB_REGISTRY then
        inspect (\<lambda>s. case ureg s of
          Some r \<Rightarrow> attempt (janet_table_get (tables_of (uheap s)) r (VSym ys))
        | None \<Rightarrow> give VNil)
      else let b = janet_buffer (int (length ys)) in
        andnext (attempt (write_cells (bcells b) 0 ys)) (\<lambda>c.
        andnext (new_object (OBuffer (b\<lparr>bcells := c, bcount := int (length ys)\<rparr>) 0)) (\<lambda>a.
        give (VRef JANET_BUFFER a))))"

definition unmarshal_bytes :: "8 word \<Rightarrow> (ustate, jv) act" where
  "unmarshal_bytes lead =
     andnext (advance 1) (\<lambda>_.
     andnext readnat (\<lambda>len.
     andnext (MARSH_EOS (len - 1)) (\<lambda>_.
     andnext (take_bytes (nat len)) (\<lambda>ys.
     andnext (make_of_bytes lead ys) (\<lambda>x.
     andnext (push_lookup x) (\<lambda>_. give x))))))"

definition element_into :: "(ustate, jv) act \<Rightarrow> 64 word \<Rightarrow> nat \<Rightarrow> (ustate, unit) act" where
  "element_into rec a i = andnext rec (\<lambda>x.
     change_object a (\<lambda>ob. rbind (as_array ob) (\<lambda>b. rbind (write_cell b i x) (\<lambda>b. Inr (OArray b)))))"

definition entry_into :: "(ustate, jv) act \<Rightarrow> 64 word \<Rightarrow> (ustate, unit) act" where
  "entry_into rec a = andnext rec (\<lambda>key. andnext rec (\<lambda>v.
     change_object a (\<lambda>ob. rbind (as_table ob) (\<lambda>tab. rbind (janet_table_put tab key v) (\<lambda>tab. Inr (OTable tab))))))"

definition unmarshal_array :: "(ustate, jv) act \<Rightarrow> nat \<Rightarrow> (ustate, jv) act" where
  "unmarshal_array rec len =
     andnext (new_object (OArray (malloc_block len))) (\<lambda>a.
     andnext (push_lookup (VRef JANET_ARRAY a)) (\<lambda>_.
     andnext (for_range 0 len (element_into rec a)) (\<lambda>_.
     give (VRef JANET_ARRAY a))))"

definition unmarshal_tuple :: "(ustate, jv) act \<Rightarrow> nat \<Rightarrow> (ustate, jv) act" where
  "unmarshal_tuple rec len =
     andnext readint (\<lambda>flag.
     andnext (collect len rec) (\<lambda>xs.
     let x = VTuple (odd flag) xs in
     andnext (push_lookup x) (\<lambda>_. give x)))"

definition unmarshal_reference :: "nat \<Rightarrow> (ustate, jv) act" where
  "unmarshal_reference len = inspect (\<lambda>s.
     if len \<ge> length (lookup s) then throw ''invalid reference %d'' [AInt (int len)]
     else give (lookup s ! len))"

definition unmarshal_proto :: "(ustate, jv) act \<Rightarrow> 64 word \<Rightarrow> (ustate, unit) act" where
  "unmarshal_proto rec a = andnext rec (\<lambda>p. case p of
     VRef t w \<Rightarrow>
       if t = JANET_TABLE
       then change_object a (\<lambda>ob. rbind (as_table ob) (\<lambda>tab. Inr (OTable (tab\<lparr>proto := Some (unat w)\<rparr>))))
       else throw ''expected type %T, got %v'' [ATypes [JANET_TABLE]]
   | _ \<Rightarrow> throw ''expected type %T, got %v'' [ATypes [JANET_TABLE]])"

definition unmarshal_table :: "(ustate, jv) act \<Rightarrow> bool \<Rightarrow> nat \<Rightarrow> (ustate, jv) act" where
  "unmarshal_table rec with_proto len =
     andnext (attempt (janet_table (int len))) (\<lambda>t.
     andnext (new_object (OTable t)) (\<lambda>a.
     andnext (push_lookup (VRef JANET_TABLE a)) (\<lambda>_.
     andnext (if with_proto then unmarshal_proto rec a else give ()) (\<lambda>_.
     andnext (for_range 0 len (\<lambda>_. entry_into rec a)) (\<lambda>_.
     give (VRef JANET_TABLE a))))))"

text \<open>The values that open with a count.\<close>

definition unmarshal_counted :: "(ustate, jv) act \<Rightarrow> (8 word \<Rightarrow> nat \<Rightarrow> (ustate, jv) act) \<Rightarrow> 8 word \<Rightarrow> (ustate, jv) act" where
  "unmarshal_counted rec structs lead =
     andnext (advance 1) (\<lambda>_.
     andnext readnat (\<lambda>len.
     andnext (if lead \<noteq> LB_REFERENCE then MARSH_EOS (len - 1) else give ()) (\<lambda>_.
     if lead = LB_ARRAY then unmarshal_array rec (nat len)
     else if lead = LB_TUPLE then unmarshal_tuple rec (nat len)
     else if lead = LB_STRUCT \<or> lead = LB_STRUCT_PROTO then structs lead (nat len)
     else if lead = LB_REFERENCE then unmarshal_reference (nat len)
     else unmarshal_table rec (lead = LB_TABLE_PROTO) (nat len))))"

definition unmarshal_pointer :: "bool \<Rightarrow> 8 word \<Rightarrow> (ustate, jv) act" where
  "unmarshal_pointer unsafe lead =
     andnext (MARSH_EOS 8) (\<lambda>_.
     andnext (advance 1) (\<lambda>_.
     if \<not> unsafe
     then inspect (\<lambda>s. throw (if lead = LB_UNSAFE_POINTER
       then ''unsafe flag not given, will not unmarshal raw pointer at index %d''
       else ''unsafe flag not given, will not unmarshal function pointer at index %d'') [AInt (int (upos s))])
     else andnext (take_bytes 8) (\<lambda>ys.
       let x = VRef (if lead = LB_UNSAFE_POINTER then JANET_POINTER else JANET_CFUNCTION) (le_word ys) in
       andnext (push_lookup x) (\<lambda>_. give x))))"

definition unmarshal_pointer_buffer :: "bool \<Rightarrow> (ustate, jv) act" where
  "unmarshal_pointer_buffer unsafe =
     andnext (advance 1) (\<lambda>_.
     andnext readnat (\<lambda>count.
     andnext readnat (\<lambda>capacity.
     andnext (MARSH_EOS 8) (\<lambda>_.
     if \<not> unsafe
     then inspect (\<lambda>s. throw ''unsafe flag not given, will not unmarshal raw pointer at index %d'' [AInt (int (upos s))])
     else andnext (take_bytes 8) (\<lambda>ys. inspect (\<lambda>s. let p = le_word ys in
       case janet_pointer_buffer_unsafe (foreign s p) capacity count of
         Inl e \<Rightarrow> attempt (Inl e)
       | Inr r \<Rightarrow> andnext (require r) (\<lambda>b.
           andnext (new_object (OBuffer b p)) (\<lambda>a.
           andnext (push_lookup (VRef JANET_BUFFER a)) (\<lambda>_. give (VRef JANET_BUFFER a))))))))))"

definition unmarshal_step ::
  "(8 word \<Rightarrow> (ustate, jv) act) \<Rightarrow> (8 word \<Rightarrow> nat \<Rightarrow> (ustate, jv) act) \<Rightarrow> (ustate, jv) act \<Rightarrow> bool \<Rightarrow> (ustate, jv) act" where
  "unmarshal_step others structs rec unsafe =
     andnext (MARSH_EOS 0) (\<lambda>_.
     andnext (byte_at 0) (\<lambda>lead.
     if lead < LB_REAL then andnext readint (\<lambda>i. give (VNum (double_of_int i)))
     else if lead = LB_NIL then andnext (advance 1) (\<lambda>_. give VNil)
     else if lead = LB_FALSE then andnext (advance 1) (\<lambda>_. give (VBool False))
     else if lead = LB_TRUE then andnext (advance 1) (\<lambda>_. give (VBool True))
     else if lead = LB_INTEGER then unmarshal_integer
     else if lead = LB_REAL then unmarshal_real
     else if lead \<in> {LB_STRING, LB_SYMBOL, LB_BUFFER, LB_KEYWORD, LB_REGISTRY} then unmarshal_bytes lead
     else if lead \<in> {LB_FIBER, LB_FUNCTION, LB_ABSTRACT, LB_THREADED_ABSTRACT} then others lead
     else if lead \<in> {LB_REFERENCE, LB_ARRAY, LB_TUPLE, LB_STRUCT, LB_STRUCT_PROTO, LB_TABLE, LB_TABLE_PROTO}
     then unmarshal_counted rec structs lead
     else if lead = LB_UNSAFE_POINTER \<or> lead = LB_UNSAFE_CFUNCTION then unmarshal_pointer unsafe lead
     else if lead = LB_POINTER_BUFFER then unmarshal_pointer_buffer unsafe
     else inspect (\<lambda>s. throw ''unknown byte %x at index %d'' [AInt (uint lead), AInt (int (upos s))])))"

text \<open>What is done for functions, fibers and abstract values, and for structs after their count,
  at each level.\<close>

type_synonym unmarshal_others = "(nat \<Rightarrow> 8 word \<Rightarrow> (ustate, jv) act) \<times> (nat \<Rightarrow> 8 word \<Rightarrow> nat \<Rightarrow> (ustate, jv) act)"

primrec unmarshal_one :: "unmarshal_others \<Rightarrow> bool \<Rightarrow> nat \<Rightarrow> (ustate, jv) act" where
  "unmarshal_one others unsafe 0 = throw ''stack overflow'' []"
| "unmarshal_one others unsafe (Suc n) =
     unmarshal_step (fst others n) (snd others n) (unmarshal_one others unsafe n) unsafe"

text \<open>The value, the heap with the new objects, and where the message ended.\<close>

definition janet_unmarshal ::
  "unmarshal_others \<Rightarrow> (64 word \<Rightarrow> 8 word block) \<Rightarrow> bytes \<Rightarrow> bool \<Rightarrow> nat option \<Rightarrow> objects \<Rightarrow> fault + (panic + jv) \<times> objects \<times> nat" where
  "janet_unmarshal others memory message unsafe reg h =
     rbind (unmarshal_one others unsafe (Suc JANET_RECURSION_GUARD)
              \<lparr>ubytes = message, upos = 0, lookup = [], uheap = h, ureg = reg, foreign = memory\<rparr>) (\<lambda>rs.
       Inr (fst rs, uheap (snd rs), upos (snd rs)))"

end
