(* ===== verification/DoubleInt.thy ===== *)
theory DoubleInt
  imports DoubleText
begin

text \<open>
  Integers that are doubles: the conversion of an integer below \<open>2 ^ 53\<close> to a double
  and back gives the integer, and a double with an integer value is the conversion of that integer,
  but for the sign of a zero.
\<close>

lemma mag_of_dbl_int:
  assumes "dbl_int (Finite s n) = Some i" and "0 < n"
  shows "mag n = of_int \<bar>i\<bar>" and "i \<noteq> 0" and "s = (i < 0)"
proof -
  have S: "0 < dbl_sig n" using assms(2) by (auto simp: dbl_sig_def add_pos_nonneg)
  define k where "k = (if s then - i else i)"
  have k: "(if dbl_exp n \<ge> 0 then Some (dbl_sig n * 2 ^ nat (dbl_exp n))
       else if dbl_sig n mod 2 ^ nat (- dbl_exp n) = 0 then Some (dbl_sig n div 2 ^ nat (- dbl_exp n)) else None) = Some k"
    using assms(1) by (auto simp: dbl_int_def Let_def k_def split: if_splits)
  have m: "mag n = of_int k \<and> 0 < k"
  proof (cases "dbl_exp n \<ge> 0")
    case True
    then have "k = dbl_sig n * 2 ^ nat (dbl_exp n)" using k by simp
    then show ?thesis using True S by (simp add: mag_def power_int_def)
  next
    case False
    let ?p = "2 ^ nat (- dbl_exp n) :: int"
    have "dbl_sig n mod ?p = 0" "k = dbl_sig n div ?p" using k False by (auto split: if_splits)
    then have e: "dbl_sig n = k * ?p" by auto
    have "of_int (dbl_sig n) = (of_int k * 2 ^ nat (- dbl_exp n) :: real)" unfolding e by simp
    then have "mag n = of_int k" using False by (simp add: mag_def power_int_def field_simps)
    moreover have "0 < k" using e S by (metis zero_less_mult_pos2 zero_less_power zero_less_numeral)
    ultimately show ?thesis by simp
  qed
  then show "mag n = of_int \<bar>i\<bar>" "i \<noteq> 0" "s = (i < 0)" by (auto simp: k_def split: if_splits)
qed

lemma double_of_int_unique:
  assumes "dbl_int (Finite s n) = Some i" and "0 < n" and "n < 2047 * 2 ^ 52"
  shows "double_of_int i = Finite s n"
proof -
  note m = mag_of_dbl_int[OF assms(1,2)]
  have r: "ratio (\<bar>i\<bar>, 1) = mag n" using m(1) by (simp add: ratio_def)
  have "dbl_round s \<bar>i\<bar> 1 = Finite s n"
    by (rule dbl_round_near) (use m assms r in simp_all)
  then show ?thesis using m(3) by (simp add: double_of_int_def)
qed

lemma int_double_bits:
  assumes "0 < i" and "i < 2 ^ 53"
  shows "\<exists>n. 0 < n \<and> n < 2047 * 2 ^ 52 \<and> dbl_int (Finite False n) = Some i"
proof -
  define k where "k = nat (bitlen i - 1)"
  have b: "2 ^ k \<le> i" "i < 2 ^ Suc k"
    using bitlen_bounds[OF assms(1)] by (simp_all add: k_def Suc_nat_eq_nat_zadd1)
  have k: "k \<le> 52"
  proof (rule ccontr)
    assume "\<not> k \<le> 52"
    then have "(2::int) ^ 53 \<le> 2 ^ k" by (intro power_increasing) simp_all
    then show False using b(1) assms(2) by simp
  qed
  define f where "f = i * 2 ^ (52 - k) - 2 ^ 52"
  have p: "(2::int) ^ k * 2 ^ (52 - k) = 2 ^ 52" using k by (simp flip: power_add)
  have f: "0 \<le> f" "f < 2 ^ 52"
  proof -
    have "2 ^ k * 2 ^ (52 - k) \<le> i * 2 ^ (52 - k)" by (rule mult_right_mono) (use b(1) in simp_all)
    then show "0 \<le> f" using p by (simp add: f_def)
    have "i * 2 ^ (52 - k) < 2 ^ Suc k * 2 ^ (52 - k)" by (rule mult_strict_right_mono) (use b(2) in simp_all)
    also have "\<dots> = 2 * 2 ^ 52" unfolding power_Suc mult.assoc p ..
    finally show "f < 2 ^ 52" by (simp add: f_def)
  qed
  define n where "n = (int k + 1023) * 2 ^ 52 + f"
  have nb: "\<not> n < 2 ^ 52" "0 < n" "n < 2047 * 2 ^ 52"
    using f k by (simp_all add: n_def)
  have dm: "n mod 2 ^ 52 = f" "n div 2 ^ 52 = int k + 1023"
    unfolding n_def mod_mult_self3 using f by (simp_all add: div_mult_self3)
  have S: "dbl_sig n = i * 2 ^ (52 - k)" using nb(1) dm(1) by (simp add: dbl_sig_def f_def)
  have E: "dbl_exp n = int k - 52" using nb(1) dm(2) by (simp add: dbl_exp_def)
  have "dbl_int (Finite False n) = Some i"
  proof (cases "k = 52")
    case True
    then show ?thesis by (simp add: dbl_int_def Let_def S E)
  next
    case False
    then have "\<not> 0 \<le> int k - 52" "nat (52 - int k) = 52 - k" using k by auto
    then show ?thesis by (simp add: dbl_int_def Let_def S E)
  qed
  with nb show ?thesis by blast
qed

lemma dbl_int_negate: "dbl_int (Finite False n) = Some i \<Longrightarrow> dbl_int (Finite True n) = Some (- i)"
  by (auto simp: dbl_int_def Let_def split: if_splits)

theorem dbl_int_of_int:
  assumes "\<bar>i\<bar> < 2 ^ 53"
  shows "dbl_int (double_of_int i) = Some i"
proof (cases "i = 0")
  case True
  show ?thesis unfolding True by (simp add: double_of_int_def dbl_round_def dbl_int_def dbl_sig_def dbl_exp_def)
next
  case False
  then obtain n where n: "0 < n" "n < 2047 * 2 ^ 52" "dbl_int (Finite False n) = Some \<bar>i\<bar>"
    using int_double_bits[of "\<bar>i\<bar>"] assms by auto
  have "dbl_int (Finite (i < 0) n) = Some i"
    using n(3) dbl_int_negate[OF n(3)] by (cases "i < 0") simp_all
  from double_of_int_unique[OF this n(1,2)] this show ?thesis by simp
qed

lemma dbl_int_equal:
  assumes "dbl_int d = Some i" and "dbl_wf d"
  shows "dbl_eq d (double_of_int i)"
proof -
  obtain s n where d: "d = Finite s n" "0 \<le> n" "n < 2047 * 2 ^ 52"
    using assms by (auto simp: dbl_int_def dbl_wf_def split: double.splits)
  show ?thesis
  proof (cases "n = 0")
    case True
    then have "i = 0" using assms(1) by (auto simp: d dbl_int_def dbl_sig_def dbl_exp_def)
    then show ?thesis using True by (simp add: d double_of_int_def dbl_round_def dbl_eq_def)
  next
    case False
    then have "double_of_int i = d" using double_of_int_unique assms(1) d by simp
    then show ?thesis using d by (simp add: dbl_eq_def)
  qed
qed

lemma int_of_index: "i < 2 ^ 31 \<Longrightarrow> dbl_int (double_of_int (int i)) = Some (int i)"
  by (rule dbl_int_of_int) simp

end
