(* ===== verification/MarshalSpec.thy ===== *)
theory MarshalSpec
  imports Unmarshal DoubleInt TableSpec BufferSpec
begin

unbundle bit_operations_syntax

text \<open>
  The bytes the marshalling routines write and what the unmarshalling routines read from them:
  the integers of both widths, doubles and pointers. \<open>emits m ys\<close>: when \<open>m\<close>
  returns, it has appended \<open>ys\<close> to the buffer and changed nothing else; \<open>ahead u ys\<close>:
  the rest of the message is \<open>ys\<close>.
\<close>

subsection \<open>Bits\<close>

lemma byte_bits:
  "(w :: 32 word) AND 0xFF = take_bit 8 w" "(w :: 32 word) AND 0x3F = take_bit 6 w" "(b :: 8 word) AND 0x3F = take_bit 6 b"
  by (simp_all add: take_bit_eq_mask mask_eq_exp_minus_1)

lemma four_bytes:
  fixes w :: "32 word"
  shows "push_bit 24 (ucast (ucast (signed_drop_bit 24 w AND 0xFF) :: 8 word)) OR push_bit 16 (ucast (ucast (signed_drop_bit 16 w AND 0xFF) :: 8 word))
     OR push_bit 8 (ucast (ucast (signed_drop_bit 8 w AND 0xFF) :: 8 word)) OR ucast (ucast (w AND 0xFF) :: 8 word) = w" (is "?l = w")
  unfolding byte_bits
proof (rule bit_word_eqI)
  fix n assume n: "n < LENGTH(32)"
  consider "n < 8" | "8 \<le> n" "n < 16" | "16 \<le> n" "n < 24" | "24 \<le> n" by linarith
  then show "bit (push_bit 24 (ucast (ucast (take_bit 8 (signed_drop_bit 24 w)) :: 8 word)) OR push_bit 16 (ucast (ucast (take_bit 8 (signed_drop_bit 16 w)) :: 8 word))
     OR push_bit 8 (ucast (ucast (take_bit 8 (signed_drop_bit 8 w)) :: 8 word)) OR ucast (ucast (take_bit 8 w) :: 8 word) :: 32 word) n \<longleftrightarrow> bit w n"
    by cases (use n in \<open>auto simp: bit_simps\<close>)
qed

lemma high_bit: "ucast (y OR 0x80 :: 32 word) AND 0x3F = (ucast y AND 0x3F :: 8 word)"
proof -
  have "ucast (y OR 0x80) = (ucast y OR ucast (0x80 :: 32 word) :: 8 word)" by (rule bit_word_eqI) (auto simp: bit_simps)
  also have "\<dots> AND 0x3F = (ucast y AND 0x3F) OR (0x80 AND 0x3F)" unfolding bit.conj_disj_distrib2 by simp
  also have "(0x80 AND 0x3F :: 8 word) = 0" by simp
  finally show ?thesis by simp
qed

lemma lead_two:
  "\<not> ucast ((v AND 0x3F) OR 0x80 :: 32 word) < (128 :: 8 word)" "ucast ((v AND 0x3F) OR 0x80 :: 32 word) < (192 :: 8 word)"
proof -
  let ?z = "ucast (take_bit 6 v) :: 8 word"
  have "ucast ((v AND 0x3F) OR 0x80 :: 32 word) = ucast (0x80 :: 32 word) OR ?z"
    unfolding byte_bits by (rule bit_word_eqI) (auto simp: bit_simps)
  also have "\<dots> = 0x80 OR ?z" by simp
  also have "\<dots> = 0x80 + ?z"
  proof (rule disjunctive_add_eq_or[symmetric])
    have "?z = take_bit 7 ?z" by (rule bit_word_eqI) (auto simp: bit_simps)
    also have "\<dots> = 0x7F AND ?z" by (simp add: take_bit_eq_mask mask_eq_exp_minus_1 and.commute)
    finally have "0x80 AND ?z = (0x80 AND 0x7F) AND ?z" unfolding and.assoc by (rule arg_cong)
    then show "0x80 AND ?z = 0" by simp
  qed
  finally have e: "ucast ((v AND 0x3F) OR 0x80 :: 32 word) = 0x80 + ?z" .
  have "uint ?z = take_bit 6 (uint v)" by (simp add: unsigned_ucast_eq unsigned_take_bit_eq)
  then have "uint ?z < 64" using take_bit_int_less_exp[of 6 "uint v"] by simp
  moreover have "uint (0x80 + z) = 128 + uint z" if "uint z < 64" for z :: "8 word"
    using that unfolding uint_word_ariths(1) by simp
  ultimately have "uint (0x80 + ?z) = 128 + uint ?z" "uint ?z < 64" by blast+
  then show "\<not> ucast ((v AND 0x3F) OR 0x80 :: 32 word) < (128 :: 8 word)" "ucast ((v AND 0x3F) OR 0x80 :: 32 word) < (192 :: 8 word)"
    unfolding e word_less_def by simp_all
qed

lemma two_bytes:
  fixes x :: int
  assumes "-8192 \<le> x" "x \<le> 8191"
  defines "w \<equiv> word_of_int x :: 32 word"
  defines "b0 \<equiv> ucast ((signed_drop_bit 8 w AND 0x3F) OR 0x80) :: 8 word"
  defines "u \<equiv> push_bit 8 (ucast (b0 AND 0x3F)) + ucast (ucast (w AND 0xFF) :: 8 word) :: 32 word"
  shows "u OR (if drop_bit 13 u \<noteq> 0 then 0xFFFFC000 else 0) = w"
proof -
  have x: "bit x i = bit x 13" if "13 \<le> i" for i
  proof -
    have "signed_take_bit 13 x = x" using assms(1,2) by (intro signed_take_bit_int_eq_self) simp_all
    then show ?thesis using that by (metis bit_signed_take_bit_iff min.absorb1 min.absorb2 nle_le possible_bit_int)
  qed
  let ?hi = "ucast (ucast (take_bit 6 (signed_drop_bit 8 w)) :: 8 word) :: 32 word" and ?lo = "ucast (ucast (take_bit 8 w) :: 8 word) :: 32 word"
  have t: "take_bit 6 (ucast (take_bit 6 v :: 32 word)) = (ucast (take_bit 6 v) :: 8 word)" for v
    by (rule bit_word_eqI) (auto simp: bit_simps)
  have u0: "u = push_bit 8 ?hi + ?lo" unfolding u_def b0_def high_bit unfolding byte_bits t ..
  have d: "push_bit 8 ?hi AND ?lo = 0"
    by (rule bit_word_eqI) (auto simp: bit_simps)
  then have u: "u = push_bit 8 ?hi OR ?lo" unfolding u0 by (rule disjunctive_add_eq_or)
  have ub: "bit u n \<longleftrightarrow> n < 14 \<and> bit w n" for n
  proof -
    consider "n < 8" | "8 \<le> n" "n < 14" | "14 \<le> n" by linarith
    then show ?thesis by cases (auto simp: u bit_simps)
  qed
  have top: "drop_bit 13 u \<noteq> 0 \<longleftrightarrow> bit x 13"
  proof
    assume "drop_bit 13 u \<noteq> 0"
    then obtain j where "bit (drop_bit 13 u) j" by (metis bit_eqI bit_0_eq bot_apply bot_bool_def)
    then show "bit x 13" using x[of "13 + j"] by (simp add: bit_simps ub w_def)
  next
    assume "bit x 13"
    then have "bit (drop_bit 13 u) 0" by (simp add: bit_simps ub w_def)
    then show "drop_bit 13 u \<noteq> 0" by auto
  qed
  have m: "(0xFFFFC000 :: 32 word) = push_bit 14 (- 1)" by (simp only: push_bit_eq_mult) simp
  have "u OR (if bit x 13 then push_bit 14 (- 1) else 0) = w"
  proof (rule bit_word_eqI)
    fix n assume n: "n < LENGTH(32)"
    show "bit (u OR (if bit x 13 then push_bit 14 (- 1) else 0)) n \<longleftrightarrow> bit w n"
    proof (cases "n < 14")
      case True
      then show ?thesis by (simp add: bit_or_iff ub bit_not_iff bit_mask_iff)
    next
      case False
      then have "bit w n = bit x 13" using n x[of n] by (simp add: w_def bit_simps)
      then show ?thesis using False n by (simp add: bit_or_iff ub bit_not_iff bit_mask_iff)
    qed
  qed
  then show ?thesis unfolding top m .
qed

lemma le_bytes_length [simp]: "length (le_bytes n w) = n"
  by (induction n arbitrary: w) simp_all

lemma le_word_bytes: "le_word (le_bytes n w) = take_bit (8 * n) w"
proof (induction n arbitrary: w)
  case 0
  then show ?case by simp
next
  case (Suc n)
  have a: "w AND 0xFF = take_bit 8 w" by (simp add: take_bit_eq_mask mask_eq_exp_minus_1)
  have "ucast (ucast (take_bit 8 w) :: 8 word) OR push_bit 8 (take_bit (8 * n) (drop_bit 8 w)) = take_bit (8 * Suc n) w"
    by (rule bit_word_eqI) (auto simp: bit_simps)
  then show ?case by (simp add: Suc.IH a)
qed

lemma le_word_8: "le_word (le_bytes 8 w) = w"
  by (simp add: le_word_bytes take_bit_word_eq_self)

lemma bits_double_bits:
  assumes "dbl_wf d"
  shows "bits_double (double_bits d) = (if isnan d then NaN (case d of NaN s \<Rightarrow> s | _ \<Rightarrow> False) else d)"
proof (cases d)
  case (Finite s n)
  then have n: "0 \<le> n" "n < 2047 * 2 ^ 52" using assms by (simp_all add: dbl_wf_def)
  let ?w = "word_of_int ((if s then 2 ^ 63 else 0) + n) :: 64 word"
  have u: "uint ?w = (if s then 2 ^ 63 else 0) + n"
    unfolding uint_word_of_int using n by (cases s) simp_all
  have m: "uint ?w mod 2 ^ 63 = n" unfolding u using n by simp
  have b: "bit ?w 63 = s"
  proof -
    have "bit ?w 63 = bit (uint ?w) 63" by (simp add: bit_uint_iff)
    then have "bit ?w 63 = odd (uint ?w div 2 ^ 63)" unfolding bit_iff_odd[of "uint ?w"] .
    then show ?thesis unfolding u using n by (cases s) simp_all
  qed
  have "double_bits d = ?w" by (simp add: Finite double_bits_def)
  then have "bits_double (double_bits d) = Finite s n" unfolding bits_double_def Let_def using m b n by simp
  then show ?thesis by (simp add: Finite isnan_def)
next
  case (Infinity s)
  then show ?thesis by (cases s) (simp_all add: double_bits_def bits_double_def isnan_def)
next
  case (NaN s)
  then show ?thesis by (cases s) (simp_all add: double_bits_def bits_double_def isnan_def)
qed

subsection \<open>Writing\<close>

definition mout :: "mstate \<Rightarrow> bytes" where
  "mout s = contents (mbuf s)"

definition mgood :: "mstate \<Rightarrow> bool" where
  "mgood s \<longleftrightarrow> (\<exists>xs. buf (mbuf s) xs) \<and> \<not> no_realloc (mbuf s)"

definition emits :: "(mstate, unit) act \<Rightarrow> bytes \<Rightarrow> bool" where
  "emits m ys \<longleftrightarrow> (\<forall>s s2. mgood s \<longrightarrow> m s = Inr (Inr (), s2) \<longrightarrow>
     mgood s2 \<and> mout s2 = mout s @ ys \<and> (\<exists>b. s2 = s\<lparr>mbuf := b\<rparr>))"

lemma emitsD:
  assumes "emits m ys" "mgood s" "m s = Inr (Inr (), s2)"
  shows "mgood s2" and "mout s2 = mout s @ ys" and "\<exists>b. s2 = s\<lparr>mbuf := b\<rparr>"
  using assms unfolding emits_def by blast+

lemma mout_short: "mgood s \<Longrightarrow> int (length (mout s)) \<le> INT32_MAX"
  using buf_contents mem_length unfolding mgood_def mout_def buf_def by (metis mem_contents take_all order_refl)

lemma push_raw_returns:
  assumes "buf b xs" "\<not> no_realloc b" "push_raw ys b = Inr (Inr (), b2)"
  shows "buf b2 (xs @ ys) \<and> \<not> no_realloc b2"
proof -
  have m: "mem b xs (length xs)" using assms(1) by (simp add: buf_def)
  show ?thesis
  proof (cases "int (length xs + length ys) \<le> INT32_MAX")
    case True
    from push_raw_ok[OF m True assms(2)] obtain b3 where
      "push_raw ys b = Inr (Inr (), b3)" "mem b3 ((take (length xs) xs @ ys) @ drop (length xs + length ys) xs) (length xs + length ys)"
      "\<not> no_realloc b3" by blast
    then show ?thesis using assms(3) by (simp add: buf_def)
  next
    case False
    have "bcount b = int (length xs)" using m by (simp add: mem_def)
    then have "push_raw ys b = Inr (Inl (Panic ''buffer overflow'' []), b)"
      using False by (simp add: push_raw_def janet_buffer_extra_def act_simps)
    then show ?thesis using assms(3) by simp
  qed
qed

lemma emits_raw: "emits (on_mbuf (push_raw ys)) ys"
  unfolding emits_def
proof (intro allI impI)
  fix s s2 assume s: "mgood s" "on_mbuf (push_raw ys) s = Inr (Inr (), s2)"
  obtain xs where x: "buf (mbuf s) xs" "\<not> no_realloc (mbuf s)" using s(1) by (auto simp: mgood_def)
  obtain b where b: "push_raw ys (mbuf s) = Inr (Inr (), b)" "s2 = s\<lparr>mbuf := b\<rparr>"
    using s(2) by (cases "push_raw ys (mbuf s)") (auto simp: on_mbuf_def)
  from push_raw_returns[OF x b(1)] have "buf b (xs @ ys)" "\<not> no_realloc b" by simp_all
  then show "mgood s2 \<and> mout s2 = mout s @ ys \<and> (\<exists>b. s2 = s\<lparr>mbuf := b\<rparr>)"
    using b(2) x(1) buf_contents by (auto simp: mgood_def mout_def)
qed

lemma emits_nothing: "emits (give ()) []"
  unfolding emits_def give_def
proof (intro allI impI)
  fix s s2 :: mstate assume "mgood s" "Inr (Inr (), s) = (Inr (Inr (), s2) :: fault + (panic + unit) \<times> mstate)"
  then show "mgood s2 \<and> mout s2 = mout s @ [] \<and> (\<exists>b. s2 = s\<lparr>mbuf := b\<rparr>)" by (auto intro!: exI[of _ "mbuf s"])
qed

lemma emits_bytes: "emits (pushbytes ys) ys"
proof (cases "ys = []")
  case True
  have "pushbytes [] = give ()"
    by (rule ext) (simp add: pushbytes_def on_mbuf_def janet_buffer_push_bytes_def give_def)
  then show ?thesis using True emits_nothing by simp
next
  case False
  then have "pushbytes ys = on_mbuf (push_raw ys)" by (simp add: pushbytes_def janet_buffer_push_bytes_def)
  then show ?thesis by (simp add: emits_raw)
qed

lemma emits_byte: "emits (pushbyte b) [b]"
  by (simp add: pushbyte_def janet_buffer_push_u8_def emits_raw)

definition int_bytes :: "int \<Rightarrow> bytes" where
  "int_bytes x =
     (let w = word_of_int x :: 32 word in
      if 0 \<le> x \<and> x < 128 then [ucast w]
      else if x \<le> 8191 \<and> -8192 \<le> x then [ucast ((signed_drop_bit 8 w AND 0x3F) OR 0x80), ucast (w AND 0xFF)]
      else [LB_INTEGER, ucast (signed_drop_bit 24 w AND 0xFF), ucast (signed_drop_bit 16 w AND 0xFF),
            ucast (signed_drop_bit 8 w AND 0xFF), ucast (w AND 0xFF)])"

lemma int_bytes_not_empty [simp]: "int_bytes x \<noteq> []"
  by (simp add: int_bytes_def Let_def)

lemma emits_int: "emits (pushint x) (int_bytes x)"
  by (auto simp: pushint_def int_bytes_def Let_def emits_byte emits_bytes)

definition size_bytes :: "64 word \<Rightarrow> bytes" where
  "size_bytes x = (if x \<le> 0xF0 then [ucast x] else word_of_nat (0xF0 + length (low_bytes x)) # low_bytes x)"

lemma emits_64: "emits (push64 x) (size_bytes x)"
  by (auto simp: push64_def size_bytes_def emits_byte emits_bytes)

lemma emits_pointer: "emits (pushpointer p) (le_bytes 8 p)"
  by (simp add: pushpointer_def emits_bytes)

subsection \<open>Reading\<close>

definition ahead :: "ustate \<Rightarrow> bytes \<Rightarrow> bool" where
  "ahead u ys \<longleftrightarrow> (\<exists>pre. ubytes u = pre @ ys \<and> length pre = upos u)"

lemma ahead_length: "ahead u ys \<Longrightarrow> length (ubytes u) = upos u + length ys"
  by (auto simp: ahead_def)

lemma ahead_moved: "ahead u (xs @ ys) \<Longrightarrow> k = length xs \<Longrightarrow> ahead (u\<lparr>upos := upos u + k\<rparr>) ys"
  unfolding ahead_def by (elim exE conjE) (rule exI[of _ "pre @ xs" for pre], simp)

lemma eos_at:
  assumes "ahead u ys"
  shows "MARSH_EOS k u = (if int (length ys) \<le> k then throw ''unexpected end of source'' [] u else give () u)"
  using ahead_length[OF assms] by (simp add: MARSH_EOS_def)

lemma eos_passes: "ahead u ys \<Longrightarrow> k < int (length ys) \<Longrightarrow> MARSH_EOS k u = Inr (Inr (), u)"
  by (simp add: eos_at act_simps)

lemma byte_ahead: "ahead u ys \<Longrightarrow> k < length ys \<Longrightarrow> byte_at k u = Inr (Inr (ys ! k), u)"
  by (auto simp: byte_at_def act_simps ahead_def nth_append)

lemma advance_run: "advance k u = Inr (Inr (), u\<lparr>upos := upos u + k\<rparr>)"
  by (simp add: advance_def act_simps)

lemma take_bytes_ahead: "ahead u (xs @ ys) \<Longrightarrow> n = length xs \<Longrightarrow> take_bytes n u = Inr (Inr xs, u\<lparr>upos := upos u + n\<rparr>)"
  by (auto simp: take_bytes_def act_simps ahead_def)

lemma sint_of_int: "int32 x \<Longrightarrow> sint (word_of_int x :: 32 word) = x"
  using wrap32_same[of x] by (simp add: wrap32_def)

text \<open>What \<open>pushint\<close> wrote is what \<open>readint\<close> reads.\<close>

lemma readint_ahead:
  assumes "int32 x" and "ahead u (int_bytes x @ rest)"
  shows "readint u = Inr (Inr x, u\<lparr>upos := upos u + length (int_bytes x)\<rparr>)"
proof -
  let ?w = "word_of_int x :: 32 word"
  consider (one) "0 \<le> x" "x < 128" | (two) "\<not> (0 \<le> x \<and> x < 128)" "x \<le> 8191" "-8192 \<le> x"
    | (five) "\<not> (0 \<le> x \<and> x < 128)" "\<not> (x \<le> 8191 \<and> -8192 \<le> x)" by linarith
  then show ?thesis
  proof cases
    case one
    let ?b = "ucast ?w :: 8 word"
    have b: "uint ?b = x" using one by (simp add: uint_word_of_int unsigned_ucast_eq take_bit_eq_mod)
    then have lt: "?b < 128" using one by (simp add: word_less_def)
    have i: "int_bytes x = [?b]" using one by (simp add: int_bytes_def Let_def)
    have "ahead u (?b # rest)" using assms(2) i by simp
    then show ?thesis
      by (simp add: readint_def act_simps eos_passes byte_ahead advance_run lt b i)
  next
    case two
    let ?b0 = "ucast ((signed_drop_bit 8 ?w AND 0x3F) OR 0x80) :: 8 word" and ?b1 = "ucast (?w AND 0xFF) :: 8 word"
    have i: "int_bytes x = [?b0, ?b1]" using two by (auto simp: int_bytes_def Let_def)
    have a: "ahead u (?b0 # ?b1 # rest)" using assms(2) i by simp
    have r: "\<not> ?b0 < 128" "?b0 < 192" by (rule lead_two)+
    note w = two_bytes[OF two(3,2)]
    show ?thesis
      using eos_passes[OF a] byte_ahead[OF a] r w sint_of_int[OF assms(1)]
      by (simp add: readint_def act_simps advance_run i Let_def)
  next
    case five
    let ?b3 = "ucast (signed_drop_bit 24 ?w AND 0xFF) :: 8 word" and ?b2 = "ucast (signed_drop_bit 16 ?w AND 0xFF) :: 8 word"
      and ?b1 = "ucast (signed_drop_bit 8 ?w AND 0xFF) :: 8 word" and ?b0 = "ucast (?w AND 0xFF) :: 8 word"
    have i: "int_bytes x = [LB_INTEGER, ?b3, ?b2, ?b1, ?b0]" using five by (auto simp: int_bytes_def Let_def)
    have a: "ahead u (LB_INTEGER # ?b3 # ?b2 # ?b1 # ?b0 # rest)" using assms(2) i by simp
    show ?thesis
      using eos_passes[OF a] byte_ahead[OF a] four_bytes[of ?w] sint_of_int[OF assms(1)]
      by (simp add: readint_def act_simps advance_run i Let_def)
  qed
qed

declare low_bytes.simps [simp del]

lemma sum_bytes_snoc: "sum_bytes (ys @ [b]) acc = push_bit 8 (sum_bytes ys acc) + ucast b"
  by (induction ys arbitrary: acc) simp_all

lemma byte_and_rest:
  fixes x :: "64 word"
  shows "push_bit 8 (drop_bit 8 x) + ucast (ucast (x AND 0xFF) :: 8 word) = x"
proof -
  have a: "x AND 0xFF = take_bit 8 x" by (simp add: take_bit_eq_mask mask_eq_exp_minus_1)
  let ?lo = "ucast (ucast (take_bit 8 x) :: 8 word) :: 64 word"
  have "push_bit 8 (drop_bit 8 x) AND ?lo = 0" by (rule bit_word_eqI) (auto simp: bit_simps)
  then have "push_bit 8 (drop_bit 8 x) + ?lo = push_bit 8 (drop_bit 8 x) OR ?lo" by (rule disjunctive_add_eq_or)
  also have "\<dots> = x" by (rule bit_word_eqI) (auto simp: bit_simps)
  finally show ?thesis unfolding a .
qed

lemma sum_low_bytes: "sum_bytes (rev (low_bytes x)) 0 = x"
proof (induction x rule: low_bytes.induct)
  case (1 x)
  show ?case
  proof (cases "x = 0")
    case False
    then show ?thesis using 1 byte_and_rest[of x] by (subst low_bytes.simps) (simp add: sum_bytes_snoc)
  qed (simp add: low_bytes.simps)
qed

lemma low_bytes_length: "unat x < 256 ^ k \<Longrightarrow> length (low_bytes x) \<le> k"
proof (induction k arbitrary: x)
  case 0
  then have "x = 0" by (simp add: unat_eq_zero)
  then show ?case by (simp add: low_bytes.simps)
next
  case (Suc k)
  have "unat (drop_bit 8 x) = unat x div 256" by (simp add: drop_bit_eq_div unat_div)
  then have "unat (drop_bit 8 x) < 256 ^ k" using Suc.prems by (simp add: less_mult_imp_div_less mult.commute)
  from Suc.IH[OF this] show ?case by (subst low_bytes.simps) simp
qed

lemma low_bytes_at_most_8: "length (low_bytes x) \<le> 8"
  by (rule low_bytes_length) (use unsigned_less[of x] in simp)

lemma read64_ahead:
  assumes "ahead u (size_bytes x @ rest)"
  shows "read64 u = Inr (Inr x, u\<lparr>upos := upos u + length (size_bytes x)\<rparr>)"
proof (cases "x \<le> 0xF0")
  case True
  let ?b = "ucast x :: 8 word"
  have s: "size_bytes x = [?b]" using True by (simp add: size_bytes_def)
  have x: "uint x \<le> 240" using True by (simp add: word_le_def)
  then have ub: "uint ?b = uint x" by (simp add: unsigned_ucast_eq take_bit_eq_mod)
  then have b: "?b \<le> 0xF0" using x by (simp add: word_le_def)
  have "uint (take_bit 8 x) = uint x" using x take_bit_int_eq_self[of "uint x" 8] by (simp only: unsigned_take_bit_eq) simp
  then have "take_bit 8 x = x" by (rule word_uint_eqI)
  moreover have "(ucast ?b :: 64 word) = take_bit 8 x" by (rule bit_word_eqI) (auto simp: bit_simps)
  ultimately have c: "(ucast ?b :: 64 word) = x" by simp
  have a: "ahead u (?b # rest)" using assms s by simp
  show ?thesis using eos_passes[OF a] byte_ahead[OF a] b c
    by (simp add: read64_def act_simps advance_run s)
next
  case False
  let ?l = "length (low_bytes x)" let ?b = "word_of_nat (0xF0 + ?l) :: 8 word"
  have "x \<noteq> 0" using False by auto
  then have l: "0 < ?l" "?l \<le> 8" using low_bytes_at_most_8[of x] by (simp_all add: low_bytes.simps[of x])
  then have ub: "unat ?b = 0xF0 + ?l" unfolding unat_of_nat by simp
  then have b: "\<not> ?b \<le> 0xF0" "unat ?b - 0xF0 = ?l" unfolding word_le_nat_alt using l by simp_all
  have s: "size_bytes x = ?b # low_bytes x" using False by (simp add: size_bytes_def)
  have a: "ahead u (?b # low_bytes x @ rest)" using assms s by simp
  have a2: "ahead (u\<lparr>upos := upos u + 1\<rparr>) (low_bytes x @ rest)" by (rule ahead_moved[of u "[?b]"]) (use a in simp_all)
  show ?thesis
    using eos_passes[OF a, of 0] eos_passes[OF a, of "int ?l"] byte_ahead[OF a, of 0] b l(2) take_bytes_ahead[OF a2 refl]
    by (simp add: read64_def act_simps advance_run Let_def s sum_low_bytes del: of_nat_add)
qed

end
