(* ===== verification/MarshalRel.thy ===== *)
theory MarshalRel
  imports MarshalSpec
begin

text \<open>
  What it means for unmarshalling to rebuild what was marshalled. A partial injection
  \<open>phi\<close> takes the addresses of the objects written to the addresses of their copies:
  \<open>same phi x y\<close> says that the value \<open>y\<close> is \<open>x\<close> with its addresses
  moved, \<open>alike phi\<close> that a copy has the content of its object. \<open>sim\<close> relates
  the two states at the same point of the message, \<open>grows\<close> says what reading a piece of it
  leaves and adds.
\<close>

type_synonym moves = "64 word \<Rightarrow> 64 word option"

definition heap_type :: "jtype \<Rightarrow> bool" where
  "heap_type t \<longleftrightarrow> t = JANET_ARRAY \<or> t = JANET_BUFFER \<or> t = JANET_TABLE"

fun same :: "moves \<Rightarrow> jv \<Rightarrow> jv \<Rightarrow> bool" where
  "same phi VNil y = (y = VNil)"
| "same phi (VBool a) y = (y = VBool a)"
| "same phi (VNum a) y = (case y of VNum b \<Rightarrow> dbl_eq a b | _ \<Rightarrow> False)"
| "same phi (VStr a) y = (y = VStr a)"
| "same phi (VSym a) y = (y = VSym a)"
| "same phi (VKey a) y = (y = VKey a)"
| "same phi (VRef t a) y = (case y of VRef t2 b \<Rightarrow> t2 = t \<and> (if heap_type t then phi a = Some b else b = a) | _ \<Rightarrow> False)"
| "same phi (VTuple br xs) y = (case y of VTuple br2 ys \<Rightarrow> br = br2 \<and> list_all2 (same phi) xs ys | _ \<Rightarrow> False)"

lemma moves_le: "phi a = Some b \<Longrightarrow> phi \<subseteq>\<^sub>m psi \<Longrightarrow> psi a = Some b"
  by (metis domI map_le_def)

lemma same_mono: "same phi x y \<Longrightarrow> phi \<subseteq>\<^sub>m psi \<Longrightarrow> same psi x y"
proof (induction x arbitrary: y)
  case (VTuple br xs)
  then show ?case by (auto split: jv.splits simp: list_all2_conv_all_nth)
next
  case (VRef t a)
  then show ?case by (auto split: jv.splits if_splits intro: moves_le)
qed (auto split: jv.splits)

lemma same_mono_list: "list_all2 (same phi) xs ys \<Longrightarrow> phi \<subseteq>\<^sub>m psi \<Longrightarrow> list_all2 (same psi) xs ys"
  by (erule list_all2_mono) (rule same_mono)

lemma same_left: "janet_equals x x2 \<Longrightarrow> same phi x y \<Longrightarrow> same phi x2 y"
proof (induction x arbitrary: x2 y)
  case (VTuple br xs)
  then obtain xs2 ys where e: "x2 = VTuple br xs2" "length xs = length xs2" "list_all2 janet_equals xs xs2"
    "y = VTuple br ys" "list_all2 (same phi) xs ys" by (auto split: jv.splits)
  have "list_all2 (same phi) xs2 ys"
    unfolding list_all2_conv_all_nth
  proof (intro conjI allI impI)
    show "length xs2 = length ys" using e(2,5) by (simp add: list_all2_lengthD)
    fix i assume "i < length xs2"
    then show "same phi (xs2 ! i) (ys ! i)"
      using VTuple.IH[of "xs ! i" "xs2 ! i" "ys ! i"] e(2,3,5) by (simp add: list_all2_conv_all_nth)
  qed
  then show ?case using e by simp
next
  case (VNum d)
  then show ?case by (auto split: jv.splits intro: dbl_eq_trans dbl_eq_sym)
qed (auto split: jv.splits)

lemma same_equal:
  assumes "inj_on phi (dom phi)"
  shows "same phi x y \<Longrightarrow> same phi x2 y2 \<Longrightarrow> janet_equals y y2 \<Longrightarrow> janet_equals x x2"
proof (induction x arbitrary: y x2 y2)
  case (VTuple br xs)
  then obtain ys ys2 where y: "y = VTuple br ys" "list_all2 (same phi) xs ys" "y2 = VTuple br ys2"
    "list_all2 janet_equals ys ys2" by (auto split: jv.splits)
  then obtain xs2 where x2: "x2 = VTuple br xs2" "list_all2 (same phi) xs2 ys2"
    using VTuple.prems(2) by (cases x2) (auto split: jv.splits)
  have "list_all2 janet_equals xs xs2"
    unfolding list_all2_conv_all_nth
  proof (intro conjI allI impI)
    show "length xs = length xs2" using y(2,4) x2(2) by (simp add: list_all2_lengthD)
    fix i assume "i < length xs"
    then show "janet_equals (xs ! i) (xs2 ! i)"
      using VTuple.IH[of "xs ! i" "ys ! i" "xs2 ! i" "ys2 ! i"] y(2,4) x2(2) by (simp add: list_all2_conv_all_nth)
  qed
  then show ?case unfolding x2(1) janet_equals_tuple by simp
next
  case (VNum d)
  then obtain e where e: "y = VNum e" "dbl_eq d e" by (auto split: jv.splits)
  then obtain e2 where e2: "y2 = VNum e2" "dbl_eq e e2" using VNum.prems by (auto split: jv.splits)
  then obtain d2 where "x2 = VNum d2" "dbl_eq d2 e2" using VNum.prems(2) by (cases x2) (auto split: jv.splits)
  then show ?case using e e2 by (auto intro: dbl_eq_trans dbl_eq_sym)
next
  case (VRef t a)
  then obtain b where b: "y = VRef t b" "y2 = VRef t b" "if heap_type t then phi a = Some b else b = a" by (auto split: jv.splits)
  then obtain a2 where "x2 = VRef t a2" "if heap_type t then phi a2 = Some b else b = a2"
    using VRef.prems(2) by (cases x2) (auto split: jv.splits)
  then show ?case using b(3) assms by (auto simp: inj_on_def domIff split: if_splits)
next
  case (VBool b)
  then show ?case by (cases x2) (auto split: jv.splits)
next
  case (VStr b)
  then show ?case by (cases x2) (auto split: jv.splits)
qed (case_tac x2; auto split: jv.splits)+

lemma dbl_eq_not_nan: "dbl_eq a b \<Longrightarrow> \<not> isnan b"
  by (cases a; cases b) (auto simp: dbl_eq_def isnan_def)

lemma same_no_nan: "same phi x y \<Longrightarrow> no_nan y"
proof (induction x arbitrary: y)
  case (VTuple br xs)
  then obtain ys where y: "y = VTuple br ys" "list_all2 (same phi) xs ys" by (auto split: jv.splits)
  have "no_nan (ys ! i)" if "i < length ys" for i
    using VTuple.IH[of "xs ! i" "ys ! i"] y(2) that by (simp add: list_all2_conv_all_nth)
  then show ?case using y(1) by (auto simp: in_set_conv_nth)
qed (auto split: jv.splits simp: dbl_eq_not_nan)

lemma same_valid: "same phi x y \<Longrightarrow> x \<noteq> VNil \<Longrightarrow> valid_key y"
  using same_no_nan[of phi x y] by (cases x) (auto simp: valid_key_def split: jv.splits)

lemma same_nil: "same phi x y \<Longrightarrow> x \<noteq> VNil \<Longrightarrow> y \<noteq> VNil"
  using same_valid[of phi x y] by (auto simp: valid_key_def)

text \<open>The values the theorems are about: no NaN, which is no key, and no reference to what
  is not modelled.\<close>

fun value_ok :: "jv \<Rightarrow> bool" where
  "value_ok (VNum d) = (\<not> isnan d \<and> dbl_wf d)"
| "value_ok (VTuple br xs) = (\<forall>x \<in> set xs. value_ok x)"
| "value_ok (VRef t a) = (heap_type t \<or> t = JANET_POINTER \<or> t = JANET_CFUNCTION)"
| "value_ok x = True"

lemma value_ok_no_nan: "value_ok x \<Longrightarrow> no_nan x"
  by (induction x rule: value_ok.induct) simp_all

definition entry_ok :: "jv \<times> jv \<Rightarrow> bool" where
  "entry_ok kv \<longleftrightarrow> fst kv = VNil \<or> (value_ok (fst kv) \<and> value_ok (snd kv))"

fun object_ok :: "object \<Rightarrow> bool" where
  "object_ok (OArray cells) = (\<forall>x. Some x \<in> set cells \<longrightarrow> value_ok x)"
| "object_ok (OBuffer b p) = ((\<exists>xs. buf b xs) \<and> \<not> no_realloc b)"
| "object_ok (OTable t) = (table_ok t \<and> (\<forall>kv \<in> set (data t). entry_ok kv) \<and> (\<forall>p. proto t = Some p \<longrightarrow> p < 2 ^ 64))"

definition heap_ok :: "objects \<Rightarrow> bool" where
  "heap_ok h \<longleftrightarrow> (\<forall>x \<in> set h. object_ok x)"

fun object_type :: "object \<Rightarrow> jtype" where
  "object_type (OArray cells) = JANET_ARRAY"
| "object_type (OBuffer b p) = JANET_BUFFER"
| "object_type (OTable t) = JANET_TABLE"

text \<open>The entries of a table and of its copy.\<close>

definition entries :: "table \<Rightarrow> (jv \<times> jv) list" where
  "entries t = filter (\<lambda>kv. fst kv \<noteq> VNil) (data t)"

definition same_entries :: "moves \<Rightarrow> (jv \<times> jv) list \<Rightarrow> table \<Rightarrow> bool" where
  "same_entries phi kvs t2 \<longleftrightarrow>
     (\<forall>kv \<in> set kvs. \<exists>k. same phi (fst kv) k \<and> same phi (snd kv) (get t2 k))
     \<and> (\<forall>q. get t2 q \<noteq> VNil \<longrightarrow> (\<exists>kv \<in> set kvs. \<exists>k. same phi (fst kv) k \<and> janet_equals k q))"

definition same_proto :: "moves \<Rightarrow> nat option \<Rightarrow> nat option \<Rightarrow> bool" where
  "same_proto phi p q = (case p of None \<Rightarrow> q = None | Some a \<Rightarrow> \<exists>b. phi (word_of_nat a) = Some b \<and> q = Some (unat b))"

fun alike :: "moves \<Rightarrow> object \<Rightarrow> object \<Rightarrow> bool" where
  "alike phi (OArray c) y = (case y of OArray c2 \<Rightarrow> (\<exists>xs ys. c = map Some xs \<and> c2 = map Some ys \<and> list_all2 (same phi) xs ys) | _ \<Rightarrow> False)"
| "alike phi (OBuffer b p) y = (case y of OBuffer b2 q \<Rightarrow> buf b2 (contents b) | _ \<Rightarrow> False)"
| "alike phi (OTable t) y = (case y of OTable t2 \<Rightarrow>
     table_ok t2 \<and> same_proto phi (proto t) (proto t2) \<and> same_entries phi (entries t) t2 | _ \<Rightarrow> False)"

lemma same_entries_mono: "same_entries phi kvs t \<Longrightarrow> phi \<subseteq>\<^sub>m psi \<Longrightarrow> same_entries psi kvs t"
  unfolding same_entries_def by (meson same_mono)

lemma same_proto_mono: "same_proto phi p q \<Longrightarrow> phi \<subseteq>\<^sub>m psi \<Longrightarrow> same_proto psi p q"
  by (auto simp: same_proto_def split: option.splits dest: moves_le)

lemma alike_mono: "alike phi x y \<Longrightarrow> phi \<subseteq>\<^sub>m psi \<Longrightarrow> alike psi x y"
  by (cases x) (auto split: object.splits intro: same_mono_list same_entries_mono same_proto_mono)

subsection \<open>The two states\<close>

definition sim :: "moves \<Rightarrow> objects \<Rightarrow> mstate \<Rightarrow> ustate \<Rightarrow> bool" where
  "sim phi h s u \<longleftrightarrow>
     table_ok (seen s) \<and> proto (seen s) = None \<and> tcount (seen s) \<le> nextid s \<and> nextid s = int (length (lookup u))
   \<and> (\<forall>x. get (seen s) x \<noteq> VNil \<longrightarrow>
        (\<exists>i < length (lookup u). get (seen s) x = VNum (double_of_int (int i)) \<and> same phi x (lookup u ! i)))
   \<and> (\<forall>a b. phi a = Some b \<longrightarrow> unat a < length h \<and> get (seen s) (VRef (object_type (h ! unat a)) a) \<noteq> VNil
        \<and> unat b < length (uheap u))
   \<and> inj_on phi (dom phi)"

definition roomy :: "ustate \<Rightarrow> bool" where
  "roomy u \<longleftrightarrow> length (uheap u) + (length (ubytes u) - upos u) \<le> 2 ^ 62
     \<and> length (lookup u) + (length (ubytes u) - upos u) \<le> 2 ^ 29 - 2"

definition grows :: "nat option \<Rightarrow> objects \<Rightarrow> moves \<Rightarrow> ustate \<Rightarrow> moves \<Rightarrow> ustate \<Rightarrow> nat \<Rightarrow> bool" where
  "grows p h phi u phi2 u2 k \<longleftrightarrow>
     phi \<subseteq>\<^sub>m phi2 \<and> ubytes u2 = ubytes u \<and> upos u2 = upos u + k \<and> ureg u2 = ureg u
   \<and> length (lookup u2) \<le> length (lookup u) + k \<and> length (uheap u2) \<le> length (uheap u) + k
   \<and> length (uheap u) \<le> length (uheap u2)
   \<and> (\<forall>i < length (uheap u). p \<noteq> Some i \<longrightarrow> uheap u2 ! i = uheap u ! i)
   \<and> (\<forall>a b. phi2 a = Some b \<longrightarrow> phi a = None \<longrightarrow> length (uheap u) \<le> unat b \<and> alike phi2 (h ! unat a) (uheap u2 ! unat b))"

lemma grows_weaken: "grows None h phi u phi2 u2 k \<Longrightarrow> grows p h phi u phi2 u2 k"
  by (simp add: grows_def)

lemma grows_room:
  assumes "grows p h phi u phi2 u2 k" "roomy u" "ahead u (ys @ rest)" "k = length ys"
  shows "roomy u2" and "ahead u2 rest"
proof -
  have l: "length (ubytes u) = upos u + length ys + length rest" using ahead_length[OF assms(3)] by simp
  show "roomy u2" using assms(1,2,4) l by (simp add: grows_def roomy_def)
  show "ahead u2 rest" using assms(1,3,4) unfolding ahead_def grows_def
    by (elim exE conjE) (rule exI[of _ "pre @ ys" for pre], simp)
qed

lemma grows_trans:
  assumes "grows p h phi u phi1 u1 k" "grows p h phi1 u1 phi2 u2 l" "sim phi1 h s1 u1"
    and "\<forall>i. p = Some i \<longrightarrow> i < length (uheap u)"
  shows "grows p h phi u phi2 u2 (k + l)"
proof -
  note g = assms(1,2)[unfolded grows_def]
  have new: "length (uheap u) \<le> unat b \<and> alike phi2 (h ! unat a) (uheap u2 ! unat b)" if b: "phi2 a = Some b" "phi a = None" for a b
  proof (cases "phi1 a")
    case None
    then show ?thesis using g b(1) by fastforce
  next
    case (Some c)
    have "phi1 \<subseteq>\<^sub>m phi2" using g(2) by simp
    from moves_le[OF Some this] have c: "c = b" using b(1) by simp
    have n: "length (uheap u) \<le> unat b" "alike phi1 (h ! unat a) (uheap u1 ! unat b)" using g(1) Some b(2) c by auto
    have "unat b < length (uheap u1)" using assms(3) Some c by (auto simp: sim_def)
    then have "uheap u2 ! unat b = uheap u1 ! unat b" using g(2) n(1) assms(4) by fastforce
    then show ?thesis using n alike_mono[OF n(2) \<open>phi1 \<subseteq>\<^sub>m phi2\<close>] by simp
  qed
  show ?thesis unfolding grows_def
  proof (intro conjI)
    show "phi \<subseteq>\<^sub>m phi2" using g by (meson map_le_trans)
    show "\<forall>i < length (uheap u). p \<noteq> Some i \<longrightarrow> uheap u2 ! i = uheap u ! i" using g by simp
    show "\<forall>a b. phi2 a = Some b \<longrightarrow> phi a = None \<longrightarrow> length (uheap u) \<le> unat b \<and> alike phi2 (h ! unat a) (uheap u2 ! unat b)"
      using new by blast
  qed (use g in simp_all)
qed

end
