(* ===== verification/MarshalSim.thy ===== *)
theory MarshalSim
  imports MarshalRel
begin

unbundle bit_operations_syntax

text \<open>
  Reading step by step what was written step by step: every piece of the message is read back
  to the value it was written for, with the two states in the relation again.
\<close>

subsection \<open>Running backwards\<close>

lemma andnext_returnsE:
  assumes "andnext m f s = Inr (Inr y, s2)"
  obtains x s1 where "m s = Inr (Inr x, s1)" and "f x s1 = Inr (Inr y, s2)"
  using assms by (auto simp: andnext_def split: sum.splits)

lemma attempt_returnsE:
  assumes "attempt r s = Inr (Inr y, s2)"
  obtains "r = Inr y" and "s2 = s"
  using assms by (auto simp: attempt_def split: sum.splits)

definition mplain :: "mstate \<Rightarrow> bool" where
  "mplain s \<longleftrightarrow> mgood s \<and> maybe_cycles s \<and> rreg s = None \<and> target s = None"

lemma emits_plain:
  assumes "emits m ys" "mplain s" "m s = Inr (Inr (), s2)"
  obtains b where "s2 = s\<lparr>mbuf := b\<rparr>" "mplain s2" "mout s2 = mout s @ ys"
proof -
  have g: "mgood s" using assms(2) by (simp add: mplain_def)
  note e = emitsD[OF assms(1) g assms(3)]
  from e(3) obtain b where "s2 = s\<lparr>mbuf := b\<rparr>" by blast
  then show thesis using that[of b] e(1,2) assms(2) by (simp add: mplain_def)
qed

lemma mark_returns:
  assumes "MARK_SEEN x s = Inr (Inr (), s2)" "mplain s"
  obtains t where "janet_table_put (seen s) x (VNum (double_of_int (nextid s))) = Inr t"
    "s2 = s\<lparr>seen := t, nextid := nextid s + 1\<rparr>" "mplain s2" "mout s2 = mout s"
proof -
  have mc: "maybe_cycles s" using assms(2) by (simp add: mplain_def)
  obtain n where n: "checked32 (nextid s + 1) = Inr n" using assms(1) mc
    by (cases "checked32 (nextid s + 1)") (auto simp: MARK_SEEN_def act_simps)
  then have n1: "n = nextid s + 1" by (auto simp: checked32_def split: if_splits)
  obtain t where t: "janet_table_put (seen s) x (VNum (double_of_int (nextid s))) = Inr t" using assms(1) mc n
    by (cases "janet_table_put (seen s) x (VNum (double_of_int (nextid s)))") (auto simp: MARK_SEEN_def act_simps)
  have "s2 = s\<lparr>seen := t, nextid := nextid s + 1\<rparr>" using assms(1) mc n n1 t by (simp add: MARK_SEEN_def act_simps)
  then show thesis using that[OF t] assms(2) by (simp add: mplain_def mgood_def mout_def)
qed

lemma table_get_get:
  assumes "table_ok t" "proto t = None"
  shows "janet_table_get [0 \<mapsto> t] 0 x = Inr (get t x)"
proof -
  define n :: nat where "n = 198"
  have d: "JANET_MAX_PROTO_DEPTH = Suc (Suc n)" by (simp add: JANET_MAX_PROTO_DEPTH_def n_def)
  show ?thesis
  proof (cases rule: find_cases[OF assms(1), of x])
    case (1 i)
    then show ?thesis unfolding janet_table_get_def janet_table_get_ex_def d
      by (simp add: full_def get_def janet_table_rawget_def janet_dictionary_get_def janet_table_find_def)
  next
    case (2 i)
    then show ?thesis using assms(2) unfolding janet_table_get_def janet_table_get_ex_def d
      by (simp add: full_def get_def janet_table_rawget_def janet_dictionary_get_def janet_table_find_def)
  qed
qed

lemma sim_buffer [simp]: "sim phi h (s\<lparr>mbuf := b\<rparr>) u = sim phi h s u"
  by (simp add: sim_def)

lemma sim_position [simp]: "sim phi h s (u\<lparr>upos := n\<rparr>) = sim phi h s u"
  by (simp add: sim_def)

lemma sim_update [simp]: "sim phi h s (u\<lparr>uheap := (uheap u)[p := ob]\<rparr>) = sim phi h s u"
  by (simp add: sim_def)

lemma grows_update:
  assumes "grows None h phi u phi2 u2 k" "p < length (uheap u)"
  shows "grows (Some p) h phi u phi2 (u2\<lparr>uheap := (uheap u2)[p := ob]\<rparr>) k"
proof -
  have "unat b \<noteq> p" if "phi2 a = Some b" "phi a = None" for a b using assms that unfolding grows_def by (metis not_less)
  then show ?thesis using assms by (auto simp: grows_def nth_list_update)
qed

lemma grows_read: "grows p h phi u phi (u\<lparr>upos := upos u + k\<rparr>) k"
  by (simp add: grows_def)

text \<open>Marking a value as seen is matched by appending it to the lookup.\<close>

lemma mark_sim:
  assumes "sim phi h s u" "janet_table_put (seen s) x (VNum (double_of_int (nextid s))) = Inr t"
    and "valid_key x" "length (lookup u) \<le> 2 ^ 29 - 2"
    and "phi \<subseteq>\<^sub>m phi2" "same phi2 x y" "inj_on phi2 (dom phi2)"
    and "lookup u2 = lookup u @ [y]" "length (uheap u) \<le> length (uheap u2)"
    and "\<forall>a b. phi2 a = Some b \<longrightarrow> phi a = Some b \<or>
           (x = VRef (object_type (h ! unat a)) a \<and> unat a < length h \<and> unat b < length (uheap u2))"
  shows "sim phi2 h (s\<lparr>seen := t, nextid := nextid s + 1\<rparr>) u2"
proof -
  note s = assms(1)[unfolded sim_def]
  have c: "tcount (seen s) \<le> 2 ^ 29 - 2" using s assms(4) by simp
  from put_ok[OF conjunct1[OF s] assms(3) c] obtain t1 where "janet_table_put (seen s) x (VNum (double_of_int (nextid s))) = Inr t1"
    and t1: "table_ok t1" "proto t1 = proto (seen s)" "tcount t1 \<le> tcount (seen s) + 1"
      "\<forall>q. get t1 q = (if janet_equals x q then VNum (double_of_int (nextid s)) else get (seen s) q)" by blast
  then have "t1 = t" using assms(2) by simp
  with t1 s have t: "table_ok t" "proto t = None" "tcount t \<le> tcount (seen s) + 1"
    "\<And>q. get t q = (if janet_equals x q then VNum (double_of_int (nextid s)) else get (seen s) q)" by simp_all
  have look: "\<exists>i < length (lookup u2). get t q = VNum (double_of_int (int i)) \<and> same phi2 q (lookup u2 ! i)" if q: "get t q \<noteq> VNil" for q
  proof (cases "janet_equals x q")
    case True
    then have "same phi2 q y" using same_left assms(6) by blast
    then show ?thesis using True s assms(8) by (intro exI[of _ "length (lookup u)"]) (simp add: t(4))
  next
    case False
    then obtain i where i: "i < length (lookup u)" "get (seen s) q = VNum (double_of_int (int i))" "same phi q (lookup u ! i)"
      using q s by (auto simp: t(4))
    then show ?thesis using False assms(5,8) by (intro exI[of _ i]) (auto simp: t(4) nth_append intro: same_mono)
  qed
  have moved: "unat a < length h \<and> get t (VRef (object_type (h ! unat a)) a) \<noteq> VNil \<and> unat b < length (uheap u2)" if "phi2 a = Some b" for a b
  proof (cases "phi a = Some b")
    case True
    then have "unat a < length h" "get (seen s) (VRef (object_type (h ! unat a)) a) \<noteq> VNil" "unat b < length (uheap u)" using s by auto
    then show ?thesis using assms(9) by (auto simp: t(4))
  next
    case False
    then have x: "x = VRef (object_type (h ! unat a)) a" "unat a < length h" "unat b < length (uheap u2)"
      using assms(10) that by blast+
    then have "janet_equals x (VRef (object_type (h ! unat a)) a)" by simp
    then show ?thesis using x(2,3) by (simp add: t(4))
  qed
  show ?thesis unfolding sim_def using t s look moved assms(7,8) by simp
qed

text \<open>A value that was not seen before is not yet moved.\<close>

lemma unseen_not_moved:
  assumes "sim phi h s u" "get (seen s) (VRef (object_type (h ! unat a)) a) = VNil"
  shows "phi a = None"
  using assms by (cases "phi a") (auto simp: sim_def)

lemma extend_moves:
  assumes "sim phi h s u" "phi a = None" "unat b = length (uheap u)"
  shows "phi \<subseteq>\<^sub>m phi(a \<mapsto> b)" and "inj_on (phi(a \<mapsto> b)) (dom (phi(a \<mapsto> b)))"
proof -
  show "phi \<subseteq>\<^sub>m phi(a \<mapsto> b)" using assms(2) by (auto simp: map_le_def)
  have "phi c \<noteq> Some b" for c using assms(1,3) unfolding sim_def by (metis less_irrefl)
  then show "inj_on (phi(a \<mapsto> b)) (dom (phi(a \<mapsto> b)))" using assms(1) by (auto simp: sim_def inj_on_def dom_def)
qed

subsection \<open>What is read\<close>

lemma readnat_ahead:
  assumes "int n \<le> INT32_MAX" "ahead u (int_bytes (int n) @ rest)"
  shows "readnat u = Inr (Inr (int n), u\<lparr>upos := upos u + length (int_bytes (int n))\<rparr>)"
  using readint_ahead[OF _ assms(2)] assms(1) by (simp add: readnat_def act_simps int32_def)

lemma counted_run:
  assumes "ahead u (lead # int_bytes (int n) @ rest)" "int n \<le> INT32_MAX" "lead \<noteq> LB_REFERENCE \<Longrightarrow> n \<le> length rest"
  shows "unmarshal_counted rec structs lead u =
    (if lead = LB_ARRAY then unmarshal_array rec n
     else if lead = LB_TUPLE then unmarshal_tuple rec n
     else if lead = LB_STRUCT \<or> lead = LB_STRUCT_PROTO then structs lead n
     else if lead = LB_REFERENCE then unmarshal_reference n
     else unmarshal_table rec (lead = LB_TABLE_PROTO) n) (u\<lparr>upos := upos u + Suc (length (int_bytes (int n)))\<rparr>)"
proof -
  let ?u1 = "u\<lparr>upos := upos u + 1\<rparr>" let ?k = "length (int_bytes (int n))"
  have a1: "ahead ?u1 (int_bytes (int n) @ rest)" by (rule ahead_moved[of u "[lead]"]) (use assms(1) in simp_all)
  have r: "readnat ?u1 = Inr (Inr (int n), ?u1\<lparr>upos := upos ?u1 + ?k\<rparr>)" by (rule readnat_ahead[OF assms(2) a1])
  have a2: "ahead (?u1\<lparr>upos := upos ?u1 + ?k\<rparr>) rest" by (rule ahead_moved[OF a1 refl])
  have e: "MARSH_EOS (int n - 1) (?u1\<lparr>upos := upos ?u1 + ?k\<rparr>) = Inr (Inr (), ?u1\<lparr>upos := upos ?u1 + ?k\<rparr>)" if "lead \<noteq> LB_REFERENCE"
    by (rule eos_passes[OF a2]) (use assms(3)[OF that] in simp)
  show ?thesis using r e by (simp add: unmarshal_counted_def act_simps advance_run)
qed

lemma step_run:
  assumes "ahead u (lead # rest)"
  shows "unmarshal_step others structs rec unsafe u =
    (if lead < LB_REAL then andnext readint (\<lambda>i. give (VNum (double_of_int i)))
     else if lead = LB_NIL then andnext (advance 1) (\<lambda>_. give VNil)
     else if lead = LB_FALSE then andnext (advance 1) (\<lambda>_. give (VBool False))
     else if lead = LB_TRUE then andnext (advance 1) (\<lambda>_. give (VBool True))
     else if lead = LB_INTEGER then unmarshal_integer
     else if lead = LB_REAL then unmarshal_real
     else if lead \<in> {LB_STRING, LB_SYMBOL, LB_BUFFER, LB_KEYWORD, LB_REGISTRY} then unmarshal_bytes lead
     else if lead \<in> {LB_FIBER, LB_FUNCTION, LB_ABSTRACT, LB_THREADED_ABSTRACT} then others lead
     else if lead \<in> {LB_REFERENCE, LB_ARRAY, LB_TUPLE, LB_STRUCT, LB_STRUCT_PROTO, LB_TABLE, LB_TABLE_PROTO}
     then unmarshal_counted rec structs lead
     else if lead = LB_UNSAFE_POINTER \<or> lead = LB_UNSAFE_CFUNCTION then unmarshal_pointer unsafe lead
     else if lead = LB_POINTER_BUFFER then unmarshal_pointer_buffer unsafe
     else inspect (\<lambda>s. throw ''unknown byte %x at index %d'' [AInt (uint lead), AInt (int (upos s))])) u"
  unfolding unmarshal_step_def using eos_passes[OF assms, of 0] byte_ahead[OF assms, of 0] by (simp add: act_simps)

end
