(* ===== verification/MarshalLeaves.thy ===== *)
theory MarshalLeaves
  imports MarshalSim
begin

unbundle bit_operations_syntax

text \<open>
  The values without parts: what was written for each is read back, \<open>mirrors\<close>.
\<close>

definition mirrors :: "objects \<Rightarrow> mstate \<Rightarrow> mstate \<Rightarrow> (ustate, 'a) act \<Rightarrow> (moves \<Rightarrow> 'a \<Rightarrow> bool) \<Rightarrow> bool" where
  "mirrors h s s2 um P \<longleftrightarrow> mplain s2 \<and> (\<exists>ys. ys \<noteq> [] \<and> mout s2 = mout s @ ys
     \<and> (\<forall>phi u rest. sim phi h s u \<longrightarrow> ahead u (ys @ rest) \<longrightarrow> roomy u \<longrightarrow>
          (\<exists>phi2 u2 y. um u = Inr (Inr y, u2) \<and> sim phi2 h s2 u2 \<and> grows None h phi u phi2 u2 (length ys) \<and> P phi2 y)))"

lemma mirrorsI:
  assumes "mplain s2" "ys \<noteq> []" "mout s2 = mout s @ ys"
    and "\<And>phi u rest. sim phi h s u \<Longrightarrow> ahead u (ys @ rest) \<Longrightarrow> roomy u \<Longrightarrow>
      \<exists>phi2 u2 y. um u = Inr (Inr y, u2) \<and> sim phi2 h s2 u2 \<and> grows None h phi u phi2 u2 (length ys) \<and> P phi2 y"
  shows "mirrors h s s2 um P"
  using assms unfolding mirrors_def by blast

lemma mirrors_read:
  assumes "mplain s2" "s2 = s\<lparr>mbuf := b\<rparr>" "ys \<noteq> []" "mout s2 = mout s @ ys"
    and "\<And>phi u rest. sim phi h s u \<Longrightarrow> ahead u (ys @ rest) \<Longrightarrow>
      \<exists>y. um u = Inr (Inr y, u\<lparr>upos := upos u + length ys\<rparr>) \<and> P phi y"
  shows "mirrors h s s2 um P"
proof (rule mirrorsI[OF assms(1,3,4)])
  fix phi u rest assume u: "sim phi h s u" "ahead u (ys @ rest)" "roomy u"
  from assms(5)[OF u(1,2)] obtain y where "um u = Inr (Inr y, u\<lparr>upos := upos u + length ys\<rparr>)" "P phi y" by blast
  moreover have "sim phi h s2 (u\<lparr>upos := upos u + length ys\<rparr>)" using u(1) assms(2) by simp
  ultimately show "\<exists>phi2 u2 y. um u = Inr (Inr y, u2) \<and> sim phi2 h s2 u2 \<and> grows None h phi u phi2 u2 (length ys) \<and> P phi2 y"
    using grows_read[of None h phi u "length ys"] by blast
qed

text \<open>A piece that ends with a new entry of the lookup, without a new object.\<close>

lemma mirrors_seen:
  assumes "mplain s" "mplain s2" "s2 = s\<lparr>seen := t, nextid := nextid s + 1, mbuf := b\<rparr>"
    and "janet_table_put (seen s) x (VNum (double_of_int (nextid s))) = Inr t" "valid_key x"
    and "ys \<noteq> []" "mout s2 = mout s @ ys"
    and "\<And>phi. same phi x y"
    and "\<And>u rest. ahead u (ys @ rest) \<Longrightarrow>
      um u = Inr (Inr y, u\<lparr>upos := upos u + length ys, lookup := lookup u @ [y]\<rparr>)"
  shows "mirrors h s s2 um (\<lambda>phi. same phi x)"
proof (rule mirrorsI[OF assms(2,6,7)])
  fix phi u rest assume u: "sim phi h s u" "ahead u (ys @ rest)" "roomy u"
  let ?u2 = "u\<lparr>upos := upos u + length ys, lookup := lookup u @ [y]\<rparr>"
  have len: "length (lookup u) \<le> 2 ^ 29 - 2" using u(3) by (simp add: roomy_def)
  have "sim phi h (s\<lparr>seen := t, nextid := nextid s + 1\<rparr>) ?u2"
    by (rule mark_sim[OF u(1) assms(4,5) len _ assms(8)]) (use u(1) in \<open>simp_all add: sim_def\<close>)
  then have "sim phi h s2 ?u2" unfolding assms(3) sim_buffer .
  moreover have "grows None h phi u phi ?u2 (length ys)" using assms(6) by (cases ys) (simp_all add: grows_def)
  ultimately show "\<exists>phi2 u2 z. um u = Inr (Inr z, u2) \<and> sim phi2 h s2 u2 \<and> grows None h phi u phi2 u2 (length ys) \<and> same phi2 x z"
    using assms(8) assms(9)[OF u(2)] by blast
qed

subsection \<open>Nil, booleans and integers\<close>

lemma int_lead:
  obtains b r where "int_bytes i = b # r" "b < LB_REAL"
  | b3 b2 b1 b0 where "int_bytes i = [LB_INTEGER, b3, b2, b1, b0]"
    "sint (push_bit 24 (ucast b3) OR push_bit 16 (ucast b2) OR push_bit 8 (ucast b1) OR ucast b0 :: 32 word) = sint (word_of_int i :: 32 word)"
proof -
  let ?w = "word_of_int i :: 32 word"
  consider (one) "0 \<le> i" "i < 128" | (two) "\<not> (0 \<le> i \<and> i < 128)" "i \<le> 8191 \<and> -8192 \<le> i"
    | (five) "\<not> (0 \<le> i \<and> i < 128)" "\<not> (i \<le> 8191 \<and> -8192 \<le> i)" by linarith
  then show thesis
  proof cases
    case one
    have b: "uint (ucast ?w :: 8 word) = i" using one by (simp add: uint_word_of_int unsigned_ucast_eq take_bit_eq_mod)
    then have "(ucast ?w :: 8 word) < LB_REAL" using one by (simp add: word_less_def)
    then show thesis using that(1)[of "ucast ?w" "[]"] one by (simp add: int_bytes_def Let_def)
  next
    case two
    have "ucast ((signed_drop_bit 8 ?w AND 0x3F) OR 0x80 :: 32 word) < (200 :: 8 word)"
      using lead_two(2)[of "signed_drop_bit 8 ?w"] by (rule order.strict_trans) simp
    then show thesis using that(1) two by (auto simp: int_bytes_def Let_def)
  next
    case five
    have i: "int_bytes i = [LB_INTEGER, ucast (signed_drop_bit 24 ?w AND 0xFF), ucast (signed_drop_bit 16 ?w AND 0xFF),
      ucast (signed_drop_bit 8 ?w AND 0xFF), ucast (?w AND 0xFF)]" using five by (auto simp: int_bytes_def Let_def)
    show thesis by (rule that(2)[OF i]) (simp only: four_bytes)
  qed
qed

lemma step_integer:
  assumes "int32 i" "ahead u (int_bytes i @ rest)"
  shows "unmarshal_step others structs rec unsafe u =
    Inr (Inr (VNum (double_of_int i)), u\<lparr>upos := upos u + length (int_bytes i)\<rparr>)"
proof (cases rule: int_lead[of i])
  case (1 b r)
  have a: "ahead u (b # r @ rest)" using assms(2) 1 by simp
  show ?thesis unfolding step_run[OF a] using 1(2) readint_ahead[OF assms] by (simp add: act_simps)
next
  case (2 b3 b2 b1 b0)
  have a: "ahead u (LB_INTEGER # b3 # b2 # b1 # b0 # rest)" using assms(2) 2 by simp
  have w: "ucast b0 OR push_bit 8 (ucast b1) OR push_bit 16 (ucast b2) OR push_bit 24 (ucast b3)
      = (push_bit 24 (ucast b3) OR push_bit 16 (ucast b2) OR push_bit 8 (ucast b1) OR ucast b0 :: 32 word)"
    by (simp only: or.commute or.left_commute or.assoc)
  have s: "sint (ucast b0 OR push_bit 8 (ucast b1) OR push_bit 16 (ucast b2) OR push_bit 24 (ucast b3) :: 32 word) = i"
    unfolding w using 2(2) sint_of_int[OF assms(1)] by simp
  show ?thesis unfolding step_run[OF a]
    using eos_passes[OF a] byte_ahead[OF a] s by (simp add: unmarshal_integer_def act_simps advance_run Let_def 2(1))
qed

lemma same_integer: "int_of (VNum d) = Some i \<Longrightarrow> value_ok (VNum d) \<Longrightarrow> same phi (VNum d) (VNum (double_of_int i)) \<and> int32 i"
  using dbl_int_equal[of d i] by (auto simp: int_of_def split: option.splits if_splits)

lemma mirrors_integer:
  assumes "int_of (VNum d) = Some i" "value_ok (VNum d)" "mplain s" "pushint i s = Inr (Inr (), s2)"
  shows "mirrors h s s2 (unmarshal_step others structs rec unsafe) (\<lambda>phi. same phi (VNum d))"
proof (rule emits_plain[OF emits_int assms(3,4)])
  fix b assume b: "s2 = s\<lparr>mbuf := b\<rparr>" "mplain s2" "mout s2 = mout s @ int_bytes i"
  have i: "int32 i" "same phi (VNum d) (VNum (double_of_int i))" for phi using same_integer[OF assms(1,2)] by blast+
  show ?thesis
  proof (rule mirrors_read[OF b(2,1) int_bytes_not_empty b(3)])
    fix phi u rest assume "ahead u (int_bytes i @ rest)"
    from step_integer[OF i(1) this] i(2)
    show "\<exists>y. unmarshal_step others structs rec unsafe u = Inr (Inr y, u\<lparr>upos := upos u + length (int_bytes i)\<rparr>) \<and> same phi (VNum d) y"
      by blast
  qed
qed

lemma mirrors_constant:
  assumes "mplain s" "pushbyte lead s = Inr (Inr (), s2)"
    and "(lead, x) \<in> {(LB_NIL, VNil), (LB_TRUE, VBool True), (LB_FALSE, VBool False)}"
  shows "mirrors h s s2 (unmarshal_step others structs rec unsafe) (\<lambda>phi. same phi x)"
proof (rule emits_plain[OF emits_byte assms(1,2)])
  fix b assume b: "s2 = s\<lparr>mbuf := b\<rparr>" "mplain s2" "mout s2 = mout s @ [lead]"
  show ?thesis
  proof (rule mirrors_read[OF b(2,1) _ b(3)])
    fix phi u rest assume "ahead u ([lead] @ rest)"
    then have a: "ahead u (lead # rest)" by simp
    show "\<exists>y. unmarshal_step others structs rec unsafe u = Inr (Inr y, u\<lparr>upos := upos u + length [lead]\<rparr>) \<and> same phi x y"
      unfolding step_run[OF a] using assms(3) by (auto simp: act_simps advance_run)
  qed simp
qed

subsection \<open>References\<close>

lemma int_of_index_value: "i < 2 ^ 31 \<Longrightarrow> int_of (VNum (double_of_int (int i))) = Some (int i)"
  by (simp add: int_of_def int_of_index int32_def)

lemma mirrors_reference:
  assumes "mplain s" "janet_table_get [0 \<mapsto> seen s] 0 x = Inr check" "int_of check = Some i"
    and "andnext (pushbyte LB_REFERENCE) (\<lambda>_. pushint i) s = Inr (Inr (), s2)"
  shows "mirrors h s s2 (unmarshal_step others structs rec unsafe) (\<lambda>phi. same phi x)"
proof -
  from assms(4) obtain s1 where s1: "pushbyte LB_REFERENCE s = Inr (Inr (), s1)" "pushint i s1 = Inr (Inr (), s2)"
    by (auto elim: andnext_returnsE)
  obtain b1 where b1: "s1 = s\<lparr>mbuf := b1\<rparr>" "mplain s1" "mout s1 = mout s @ [LB_REFERENCE]"
    by (rule emits_plain[OF emits_byte assms(1) s1(1)])
  obtain b2 where b2: "s2 = s1\<lparr>mbuf := b2\<rparr>" "mplain s2" "mout s2 = mout s1 @ int_bytes i"
    by (rule emits_plain[OF emits_int b1(2) s1(2)])
  let ?ys = "LB_REFERENCE # int_bytes i"
  have s2: "s2 = s\<lparr>mbuf := b2\<rparr>" "mout s2 = mout s @ ?ys" using b1 b2 by simp_all
  show ?thesis
  proof (rule mirrorsI[OF b2(2) _ s2(2)])
    fix phi u rest assume u: "sim phi h s u" "ahead u (?ys @ rest)" "roomy u"
    have "get (seen s) x = check" using u(1) assms(2) table_get_get[of "seen s" x] by (simp add: sim_def)
    moreover have "check \<noteq> VNil" using assms(3) by (auto simp: int_of_def)
    ultimately obtain j where j: "j < length (lookup u)" "check = VNum (double_of_int (int j))" "same phi x (lookup u ! j)"
      using u(1) unfolding sim_def by blast
    have jb: "j < 2 ^ 29" using j(1) u(3) by (simp add: roomy_def)
    then have i: "i = int j" using assms(3) int_of_index_value[of j] j(2) by simp
    have a: "ahead u (LB_REFERENCE # int_bytes (int j) @ rest)" using u(2) i by simp
    let ?u2 = "u\<lparr>upos := upos u + length ?ys\<rparr>"
    have "unmarshal_counted rec structs LB_REFERENCE u = Inr (Inr (lookup u ! j), ?u2)"
      using counted_run[OF a] jb j(1) i by (simp add: unmarshal_reference_def act_simps)
    then have "unmarshal_step others structs rec unsafe u = Inr (Inr (lookup u ! j), ?u2)"
      unfolding step_run[OF a] by simp
    moreover have "sim phi h s2 ?u2" using u(1) unfolding s2(1) by simp
    ultimately show "\<exists>phi2 u2 y. unmarshal_step others structs rec unsafe u = Inr (Inr y, u2) \<and> sim phi2 h s2 u2
        \<and> grows None h phi u phi2 u2 (length ?ys) \<and> same phi2 x y"
      using j(3) grows_read[of None h phi u "length ?ys"] by blast
  qed simp
qed

subsection \<open>Strings, numbers and pointers\<close>

lemma bytes_run:
  assumes "ahead u (lead # int_bytes (int (length str)) @ str @ rest)" "int (length str) \<le> INT32_MAX"
  shows "unmarshal_bytes lead u = andnext (make_of_bytes lead str) (\<lambda>x. andnext (push_lookup x) (\<lambda>_. give x))
    (u\<lparr>upos := upos u + Suc (length (int_bytes (int (length str))) + length str)\<rparr>)"
proof -
  let ?u1 = "u\<lparr>upos := upos u + 1\<rparr>" let ?k = "length (int_bytes (int (length str)))"
  let ?u2 = "?u1\<lparr>upos := upos ?u1 + ?k\<rparr>"
  have a1: "ahead ?u1 (int_bytes (int (length str)) @ str @ rest)" by (rule ahead_moved[of u "[lead]"]) (use assms(1) in simp_all)
  have r: "readnat ?u1 = Inr (Inr (int (length str)), ?u2)" by (rule readnat_ahead[OF assms(2) a1])
  have a2: "ahead ?u2 (str @ rest)" by (rule ahead_moved[OF a1 refl])
  have e: "MARSH_EOS (int (length str) - 1) ?u2 = Inr (Inr (), ?u2)" by (rule eos_passes[OF a2]) simp
  show ?thesis using r e take_bytes_ahead[OF a2 refl] by (simp add: unmarshal_bytes_def act_simps advance_run add.assoc)
qed

definition string_lead :: "8 word \<Rightarrow> jv \<Rightarrow> bytes \<Rightarrow> bool" where
  "string_lead lb x str \<longleftrightarrow> (lb, x) \<in> {(LB_STRING, VStr str), (LB_SYMBOL, VSym str), (LB_KEYWORD, VKey str)}"

lemma string_step:
  assumes "string_lead lb x str" "ahead u (lb # int_bytes (int (length str)) @ str @ rest)" "int (length str) \<le> INT32_MAX"
  shows "unmarshal_step others structs rec unsafe u =
    Inr (Inr x, u\<lparr>upos := upos u + Suc (length (int_bytes (int (length str))) + length str), lookup := lookup u @ [x]\<rparr>)"
proof -
  have m: "make_of_bytes lb str = give x" using assms(1) by (auto simp: make_of_bytes_def string_lead_def)
  have "unmarshal_step others structs rec unsafe u = unmarshal_bytes lb u"
    unfolding step_run[OF assms(2)] using assms(1) by (auto simp: string_lead_def)
  then show ?thesis unfolding bytes_run[OF assms(2,3)] m by (simp add: act_simps push_lookup_def)
qed

lemma mirrors_string:
  assumes "string_lead lb x str" "mplain s" "marshal_string x lb str s = Inr (Inr (), s2)"
  shows "mirrors h s s2 (unmarshal_step others structs rec unsafe) (\<lambda>phi. same phi x)"
proof -
  from assms(3) obtain s1 s3 s4 where r: "MARK_SEEN x s = Inr (Inr (), s1)" "pushbyte lb s1 = Inr (Inr (), s3)"
    "pushint (int (length str)) s3 = Inr (Inr (), s4)" "pushbytes str s4 = Inr (Inr (), s2)"
    unfolding marshal_string_def by (elim andnext_returnsE) auto
  obtain t where t: "janet_table_put (seen s) x (VNum (double_of_int (nextid s))) = Inr t"
    "s1 = s\<lparr>seen := t, nextid := nextid s + 1\<rparr>" "mplain s1" "mout s1 = mout s"
    by (rule mark_returns[OF r(1) assms(2)])
  obtain b3 where b3: "s3 = s1\<lparr>mbuf := b3\<rparr>" "mplain s3" "mout s3 = mout s1 @ [lb]" by (rule emits_plain[OF emits_byte t(3) r(2)])
  obtain b4 where b4: "s4 = s3\<lparr>mbuf := b4\<rparr>" "mplain s4" "mout s4 = mout s3 @ int_bytes (int (length str))"
    by (rule emits_plain[OF emits_int b3(2) r(3)])
  obtain b2 where b2: "s2 = s4\<lparr>mbuf := b2\<rparr>" "mplain s2" "mout s2 = mout s4 @ str" by (rule emits_plain[OF emits_bytes b4(2) r(4)])
  let ?ys = "lb # int_bytes (int (length str)) @ str"
  have o: "mout s2 = mout s @ ?ys" using t(4) b3(3) b4(3) b2(3) by simp
  have s2: "s2 = s\<lparr>seen := t, nextid := nextid s + 1, mbuf := b2\<rparr>" using t(2) b3(1) b4(1) b2(1) by simp
  have l: "int (length str) \<le> INT32_MAX" using mout_short[of s2] b2(2) o by (simp add: mplain_def)
  have x: "valid_key x" "\<And>phi. same phi x x" using assms(1) by (auto simp: string_lead_def valid_key_def)
  show ?thesis
  proof (rule mirrors_seen[OF assms(2) b2(2) s2 t(1) x(1) _ o x(2)])
    fix u rest assume "ahead u (?ys @ rest)"
    then have "ahead u (lb # int_bytes (int (length str)) @ str @ rest)" by simp
    from string_step[OF assms(1) this l]
    show "unmarshal_step others structs rec unsafe u = Inr (Inr x, u\<lparr>upos := upos u + length ?ys, lookup := lookup u @ [x]\<rparr>)" by simp
  qed simp
qed

lemma mirrors_real:
  assumes "value_ok (VNum d)" "mplain s" "marshal_real d s = Inr (Inr (), s2)"
  shows "mirrors h s s2 (unmarshal_step others structs rec unsafe) (\<lambda>phi. same phi (VNum d))"
proof -
  from assms(3) obtain s3 s4 where r: "pushbyte LB_REAL s = Inr (Inr (), s3)"
    "pushbytes (le_bytes 8 (double_bits d)) s3 = Inr (Inr (), s4)" "MARK_SEEN (VNum d) s4 = Inr (Inr (), s2)"
    unfolding marshal_real_def by (elim andnext_returnsE) auto
  obtain b3 where b3: "s3 = s\<lparr>mbuf := b3\<rparr>" "mplain s3" "mout s3 = mout s @ [LB_REAL]" by (rule emits_plain[OF emits_byte assms(2) r(1)])
  let ?bits = "le_bytes 8 (double_bits d)"
  obtain b4 where b4: "s4 = s3\<lparr>mbuf := b4\<rparr>" "mplain s4" "mout s4 = mout s3 @ ?bits" by (rule emits_plain[OF emits_bytes b3(2) r(2)])
  obtain t where t: "janet_table_put (seen s4) (VNum d) (VNum (double_of_int (nextid s4))) = Inr t"
    "s2 = s4\<lparr>seen := t, nextid := nextid s4 + 1\<rparr>" "mplain s2" "mout s2 = mout s4"
    by (rule mark_returns[OF r(3) b4(2)])
  let ?ys = "LB_REAL # ?bits"
  have o: "mout s2 = mout s @ ?ys" using b3(3) b4(3) t(4) by simp
  have s2: "s2 = s\<lparr>seen := t, nextid := nextid s + 1, mbuf := b4\<rparr>" using t(2) b3(1) b4(1) by simp
  have p: "janet_table_put (seen s) (VNum d) (VNum (double_of_int (nextid s))) = Inr t" using t(1) b3(1) b4(1) by simp
  have d: "\<not> isnan d" "dbl_wf d" using assms(1) by simp_all
  have x: "valid_key (VNum d)" "\<And>phi. same phi (VNum d) (VNum d)" using d by (simp_all add: valid_key_def dbl_eq_refl)
  show ?thesis
  proof (rule mirrors_seen[OF assms(2) t(3) s2 p x(1) _ o x(2)])
    fix u rest assume "ahead u (?ys @ rest)"
    then have a: "ahead u (LB_REAL # ?bits @ rest)" by simp
    have a1: "ahead (u\<lparr>upos := upos u + 1\<rparr>) (?bits @ rest)" by (rule ahead_moved[of u "[LB_REAL]"]) (use a in simp_all)
    have v: "janet_wrap_number_safe (bits_double (le_word ?bits)) = VNum d"
      using d by (simp add: le_word_8 bits_double_bits janet_wrap_number_safe_def)
    have "unmarshal_step others structs rec unsafe u = unmarshal_real u" unfolding step_run[OF a] by simp
    also have "\<dots> = Inr (Inr (VNum d), u\<lparr>upos := upos u + length ?ys, lookup := lookup u @ [VNum d]\<rparr>)"
      using eos_passes[OF a, of 8] take_bytes_ahead[OF a1, of 8] add.commute[of 9 "upos u"] v by (simp add: unmarshal_real_def act_simps advance_run push_lookup_def Let_def)
    finally show "unmarshal_step others structs rec unsafe u = Inr (Inr (VNum d), u\<lparr>upos := upos u + length ?ys, lookup := lookup u @ [VNum d]\<rparr>)" .
  qed simp
qed

lemma mirrors_pointer:
  assumes "t = JANET_POINTER \<or> t = JANET_CFUNCTION" "mplain s" "marshal_pointer unsafe t p s = Inr (Inr (), s2)"
  shows "mirrors h s s2 (unmarshal_step others structs rec unsafe) (\<lambda>phi. same phi (VRef t p))"
proof -
  let ?lb = "if t = JANET_POINTER then LB_UNSAFE_POINTER else LB_UNSAFE_CFUNCTION" and ?x = "VRef t p"
  have un: "unsafe" using assms(3) by (auto simp: marshal_pointer_def act_simps split: if_splits)
  from assms(3) un obtain s1 s3 where r: "MARK_SEEN ?x s = Inr (Inr (), s1)" "pushbyte ?lb s1 = Inr (Inr (), s3)"
    "pushpointer p s3 = Inr (Inr (), s2)"
    unfolding marshal_pointer_def by simp (elim andnext_returnsE, auto)
  obtain tb where t: "janet_table_put (seen s) ?x (VNum (double_of_int (nextid s))) = Inr tb"
    "s1 = s\<lparr>seen := tb, nextid := nextid s + 1\<rparr>" "mplain s1" "mout s1 = mout s"
    by (rule mark_returns[OF r(1) assms(2)])
  obtain b3 where b3: "s3 = s1\<lparr>mbuf := b3\<rparr>" "mplain s3" "mout s3 = mout s1 @ [?lb]" by (rule emits_plain[OF emits_byte t(3) r(2)])
  let ?bits = "le_bytes 8 p"
  obtain b2 where b2: "s2 = s3\<lparr>mbuf := b2\<rparr>" "mplain s2" "mout s2 = mout s3 @ ?bits" by (rule emits_plain[OF emits_pointer b3(2) r(3)])
  let ?ys = "?lb # ?bits"
  have o: "mout s2 = mout s @ ?ys" using t(4) b3(3) b2(3) by simp
  have s2: "s2 = s\<lparr>seen := tb, nextid := nextid s + 1, mbuf := b2\<rparr>" using t(2) b3(1) b2(1) by simp
  have x: "valid_key ?x" "\<And>phi. same phi ?x ?x" using assms(1) by (auto simp: valid_key_def heap_type_def)
  show ?thesis
  proof (rule mirrors_seen[OF assms(2) b2(2) s2 t(1) x(1) _ o x(2)])
    fix u rest assume "ahead u (?ys @ rest)"
    then have a: "ahead u (?lb # ?bits @ rest)" by simp
    have a1: "ahead (u\<lparr>upos := upos u + 1\<rparr>) (?bits @ rest)" by (rule ahead_moved[of u "[?lb]"]) (use a in simp_all)
    have "unmarshal_step others structs rec unsafe u = unmarshal_pointer unsafe ?lb u" unfolding step_run[OF a] by simp
    also have "\<dots> = Inr (Inr ?x, u\<lparr>upos := upos u + length ?ys, lookup := lookup u @ [?x]\<rparr>)"
      using eos_passes[OF a, of 8] take_bytes_ahead[OF a1, of 8] add.commute[of 9 "upos u"] assms(1) un
      by (auto simp: unmarshal_pointer_def act_simps advance_run push_lookup_def le_word_8 Let_def)
    finally show "unmarshal_step others structs rec unsafe u = Inr (Inr ?x, u\<lparr>upos := upos u + length ?ys, lookup := lookup u @ [?x]\<rparr>)" .
  qed simp
qed

end
