(* ===== verification/MarshalParts.thy ===== *)
theory MarshalParts
  imports MarshalLeaves
begin

unbundle bit_operations_syntax

text \<open>
  The values with parts: buffers, arrays, tuples and tables. An object is entered in the moves
  when its header is read and has its content when its last part is.
\<close>

subsection \<open>A new object\<close>

lemma unseen_get:
  assumes "sim phi h s u" "roomy u" "janet_table_get [0 \<mapsto> seen s] 0 x = Inr check" "int_of check = None"
  shows "get (seen s) x = VNil"
proof (rule ccontr)
  assume g: "get (seen s) x \<noteq> VNil"
  have c: "get (seen s) x = check" using assms(1,3) table_get_get[of "seen s" x] by (simp add: sim_def)
  from g assms(1) obtain i where i: "i < length (lookup u)" "get (seen s) x = VNum (double_of_int (int i))"
    unfolding sim_def by blast
  have "i < 2 ^ 31" using i(1) assms(2) by (simp add: roomy_def)
  then show False using int_of_index_value[of i] assms(4) c i(2) by simp
qed

abbreviation new_address :: "ustate \<Rightarrow> 64 word" where
  "new_address u \<equiv> word_of_nat (length (uheap u))"

abbreviation opened :: "ustate \<Rightarrow> nat \<Rightarrow> jv \<Rightarrow> object \<Rightarrow> ustate" where
  "opened u k y ob \<equiv> u\<lparr>upos := upos u + k, uheap := uheap u @ [ob], lookup := lookup u @ [y]\<rparr>"

lemma new_address_unat: "roomy u \<Longrightarrow> unat (new_address u) = length (uheap u)"
  by (simp add: roomy_def unat_of_nat)

lemma deref_unat: "deref h a = Inr ob \<Longrightarrow> unat a < length h \<and> h ! unat a = ob"
  by (auto simp: deref_def split: if_splits)

lemma object_casts:
  "as_buffer x = Inr bp \<longleftrightarrow> x = OBuffer (fst bp) (snd bp)"
  "as_array x = Inr cells \<longleftrightarrow> x = OArray cells"
  "as_table x = Inr t \<longleftrightarrow> x = OTable t"
  by (cases x; auto simp: as_buffer_def as_array_def as_table_def)+

lemma opened_sim:
  assumes "sim phi h s u" "roomy u" "get (seen s) (VRef ty a) = VNil"
    and "janet_table_put (seen s) (VRef ty a) (VNum (double_of_int (nextid s))) = Inr t"
    and "unat a < length h" "ty = object_type (h ! unat a)"
  shows "sim (phi(a \<mapsto> new_address u)) h (s\<lparr>seen := t, nextid := nextid s + 1\<rparr>) (opened u k (VRef ty (new_address u)) ob)"
    and "phi a = None"
proof -
  show n: "phi a = None" using unseen_not_moved assms(1,3,6) by simp
  note e = extend_moves[OF assms(1) n new_address_unat[OF assms(2)]]
  have ht: "heap_type ty" using assms(6) by (cases "h ! unat a") (simp_all add: heap_type_def)
  show "sim (phi(a \<mapsto> new_address u)) h (s\<lparr>seen := t, nextid := nextid s + 1\<rparr>) (opened u k (VRef ty (new_address u)) ob)"
  proof (rule mark_sim[OF assms(1,4) _ _ e(1) _ e(2)])
    show "valid_key (VRef ty a)" by (simp add: valid_key_def)
    show "length (lookup u) \<le> 2 ^ 29 - 2" using assms(2) by (simp add: roomy_def)
    show "same (phi(a \<mapsto> new_address u)) (VRef ty a) (VRef ty (new_address u))" using ht by simp
    show "\<forall>c b. (phi(a \<mapsto> new_address u)) c = Some b \<longrightarrow> phi c = Some b \<or>
      (VRef ty a = VRef (object_type (h ! unat c)) c \<and> unat c < length h \<and> unat b < length (uheap (opened u k (VRef ty (new_address u)) ob)))"
      using assms(5,6) new_address_unat[OF assms(2)] by (auto split: if_splits)
  qed simp_all
qed

lemma opened_ahead: "ahead u (xs @ rest) \<Longrightarrow> k = length xs \<Longrightarrow> ahead (opened u k y ob) rest"
  using ahead_moved[of u xs rest k] by (simp add: ahead_def)

lemma opened_roomy: "roomy u \<Longrightarrow> ahead u (xs @ rest) \<Longrightarrow> k = length xs \<Longrightarrow> 0 < k \<Longrightarrow> roomy (opened u k y ob)"
  using ahead_length[of u "xs @ rest"] by (cases xs) (auto simp: roomy_def)

text \<open>When the last part is read, the object is the copy of its original.\<close>

lemma closed_grows:
  assumes "grows (Some (length (uheap u))) h (phi(a \<mapsto> new_address u)) (opened u k y ob) phi2 u2 l"
    and "phi a = None" "alike phi2 (h ! unat a) (uheap u2 ! length (uheap u))" "0 < k" "roomy u"
  shows "grows None h phi u phi2 u2 (k + l)"
proof -
  note g = assms(1)[unfolded grows_def]
  have le: "phi \<subseteq>\<^sub>m phi(a \<mapsto> new_address u)" using assms(2) by (auto simp: map_le_def)
  have new: "length (uheap u) \<le> unat b \<and> alike phi2 (h ! unat c) (uheap u2 ! unat b)" if b: "phi2 c = Some b" "phi c = None" for b c
  proof (cases "c = a")
    case True
    have "phi2 a = Some (new_address u)" using g moves_le[of "phi(a \<mapsto> new_address u)" a] by simp
    then have "b = new_address u" using b(1) True by simp
    then show ?thesis using assms(3) True new_address_unat[OF assms(5)] by simp
  next
    case False
    then have "(phi(a \<mapsto> new_address u)) c = None" using b(2) by simp
    then have "length (uheap (opened u k y ob)) \<le> unat b \<and> alike phi2 (h ! unat c) (uheap u2 ! unat b)" using g b(1) by blast
    then show ?thesis by simp
  qed
  have old: "uheap u2 ! i = uheap u ! i" if "i < length (uheap u)" for i using g that by (auto simp: nth_append)
  have "phi \<subseteq>\<^sub>m phi2" using g le by (meson map_le_trans)
  then show ?thesis unfolding grows_def using g new old assms(4) by simp
qed

lemma new_object_run: "new_object ob u = Inr (Inr (new_address u), u\<lparr>uheap := uheap u @ [ob]\<rparr>)"
  by (simp add: new_object_def act_simps)

subsection \<open>Buffers\<close>

lemma buffer_of_bytes:
  assumes "int (length ys) \<le> INT32_MAX"
  obtains c where "write_cells (bcells (janet_buffer (int (length ys)))) 0 ys = Inr c"
    "buf (janet_buffer (int (length ys))\<lparr>bcells := c, bcount := int (length ys)\<rparr>) ys"
proof -
  let ?b = "janet_buffer (int (length ys))"
  have l: "0 + length ys \<le> length (bcells ?b)" by (simp add: janet_buffer_def Let_def)
  from holds_write_cells[OF holds_Nil _ l] obtain c where c: "write_cells (bcells ?b) 0 ys = Inr c" "holds c ys" "length c = length (bcells ?b)"
    by auto
  have "buf (?b\<lparr>bcells := c, bcount := int (length ys)\<rparr>) ys"
    using c assms by (simp add: buf_def mem_def janet_buffer_def Let_def)
  then show thesis using that[OF c(1)] by blast
qed

lemma mirrors_buffer:
  assumes "heap_ok h" "mplain s" "marshal_buffer unsafe h a s = Inr (Inr (), s2)"
    and "janet_table_get [0 \<mapsto> seen s] 0 (VRef JANET_BUFFER a) = Inr check" "int_of check = None"
  shows "mirrors h s s2 (unmarshal_step others structs rec unsafe) (\<lambda>phi. same phi (VRef JANET_BUFFER a))"
proof -
  let ?x = "VRef JANET_BUFFER a"
  from assms(3) obtain bp where d0: "rbind (deref h a) as_buffer = Inr bp"
    unfolding marshal_buffer_def by (elim andnext_returnsE attempt_returnsE) blast
  then obtain b p where d: "deref h a = Inr (OBuffer b p)" "bp = (b, p)"
    by (cases bp) (auto simp: rbind_eq_Inr object_casts)
  note da = deref_unat[OF d(1)]
  have "object_ok (OBuffer b p)" using assms(1) da by (metis heap_ok_def nth_mem)
  then obtain xs where xs: "buf b xs" "\<not> no_realloc b" by auto
  have bc: "bcount b = int (length xs)" "read_cells (bcells b) 0 (length xs) = Inr xs" "contents b = xs"
    using xs(1) holds_read_cells[of "bcells b" xs 0 "length xs"] buf_contents by (simp_all add: buf_def mem_def)
  from assms(3) d0 d(2) obtain s1 where m: "MARK_SEEN ?x s = Inr (Inr (), s1)"
    unfolding marshal_buffer_def by (auto elim!: andnext_returnsE attempt_returnsE)
  obtain t where t: "janet_table_put (seen s) ?x (VNum (double_of_int (nextid s))) = Inr t"
    "s1 = s\<lparr>seen := t, nextid := nextid s + 1\<rparr>" "mplain s1" "mout s1 = mout s"
    by (rule mark_returns[OF m assms(2)])
  have own: "target s1 = None" using t(3) by (simp add: mplain_def)
  have "marshal_buffer unsafe h a s = andnext (pushbyte LB_BUFFER) (\<lambda>_. inspect (\<lambda>s.
          andnext (pushint (bcount (if target s1 = Some (unat a) then mbuf s else b))) (\<lambda>_.
          if target s1 = Some (unat a) then push_own
          else andnext (attempt (read_cells (bcells b) 0 (nat (bcount b)))) pushbytes))) s1"
    unfolding marshal_buffer_def using d0 d(2) m own xs(2) by (simp add: act_simps)
  then have e: "andnext (pushbyte LB_BUFFER) (\<lambda>_. inspect (\<lambda>s. andnext (pushint (int (length xs))) (\<lambda>_. andnext (attempt (Inr xs)) pushbytes))) s1
      = Inr (Inr (), s2)"
    using assms(3) own bc by simp
  obtain s3 where s3: "pushbyte LB_BUFFER s1 = Inr (Inr (), s3)"
    "inspect (\<lambda>s. andnext (pushint (int (length xs))) (\<lambda>_. andnext (attempt (Inr xs)) pushbytes)) s3 = Inr (Inr (), s2)"
    by (rule andnext_returnsE[OF e]) simp
  then have e2: "andnext (pushint (int (length xs))) (\<lambda>_. andnext (attempt (Inr xs)) pushbytes) s3 = Inr (Inr (), s2)" by (simp add: inspect_def)
  obtain s4 where s4: "pushint (int (length xs)) s3 = Inr (Inr (), s4)" "andnext (attempt (Inr xs)) pushbytes s4 = Inr (Inr (), s2)"
    by (rule andnext_returnsE[OF e2]) simp
  have "pushbytes xs s4 = Inr (Inr (), s2)" using s4(2) by (simp add: act_simps)
  note r = s3(1) s4(1) this
  obtain b3 where b3: "s3 = s1\<lparr>mbuf := b3\<rparr>" "mplain s3" "mout s3 = mout s1 @ [LB_BUFFER]" by (rule emits_plain[OF emits_byte t(3) r(1)])
  obtain b4 where b4: "s4 = s3\<lparr>mbuf := b4\<rparr>" "mplain s4" "mout s4 = mout s3 @ int_bytes (int (length xs))"
    by (rule emits_plain[OF emits_int b3(2) r(2)])
  obtain b2 where b2: "s2 = s4\<lparr>mbuf := b2\<rparr>" "mplain s2" "mout s2 = mout s4 @ xs" by (rule emits_plain[OF emits_bytes b4(2) r(3)])
  let ?ys = "LB_BUFFER # int_bytes (int (length xs)) @ xs"
  have o: "mout s2 = mout s @ ?ys" using t(4) b3(3) b4(3) b2(3) by simp
  have s2: "s2 = s\<lparr>seen := t, nextid := nextid s + 1\<rparr>\<lparr>mbuf := b2\<rparr>" using t(2) b3(1) b4(1) b2(1) by simp
  have l: "int (length xs) \<le> INT32_MAX" using mout_short[of s2] b2(2) o by (simp add: mplain_def)
  obtain c where c: "write_cells (bcells (janet_buffer (int (length xs)))) 0 xs = Inr c"
    "buf (janet_buffer (int (length xs))\<lparr>bcells := c, bcount := int (length xs)\<rparr>) xs"
    by (rule buffer_of_bytes[OF l])
  let ?ob = "OBuffer (janet_buffer (int (length xs))\<lparr>bcells := c, bcount := int (length xs)\<rparr>) 0"
  show ?thesis
  proof (rule mirrorsI[OF b2(2) _ o])
    fix phi u rest assume u: "sim phi h s u" "ahead u (?ys @ rest)" "roomy u"
    let ?k = "length ?ys" let ?y = "VRef JANET_BUFFER (new_address u)" let ?u2 = "opened u ?k ?y ?ob" let ?phi = "phi(a \<mapsto> new_address u)"
    have a: "ahead u (LB_BUFFER # int_bytes (int (length xs)) @ xs @ rest)" using u(2) by simp
    have g: "get (seen s) ?x = VNil" by (rule unseen_get[OF u(1,3) assms(4,5)])
    note op = opened_sim(1)[OF u(1,3) g t(1), where k = ?k and ob = ?ob] opened_sim(2)[OF u(1,3) g t(1)] da
    have "unmarshal_step others structs rec unsafe u = unmarshal_bytes LB_BUFFER u" unfolding step_run[OF a] by simp
    also have "\<dots> = Inr (Inr ?y, ?u2)"
      unfolding bytes_run[OF a l] by (simp add: make_of_bytes_def act_simps c(1) new_object_run push_lookup_def Let_def)
    finally have run: "unmarshal_step others structs rec unsafe u = Inr (Inr ?y, ?u2)" .
    have sm: "sim ?phi h s2 ?u2" unfolding s2 sim_buffer using op by simp
    have "grows (Some (length (uheap u))) h ?phi ?u2 ?phi ?u2 0" by (simp add: grows_def)
    then have "grows None h phi u ?phi ?u2 (?k + 0)"
      by (rule closed_grows) (use op u(3) c(2) bc(3) in simp_all)
    then show "\<exists>phi2 u2 y. unmarshal_step others structs rec unsafe u = Inr (Inr y, u2) \<and> sim phi2 h s2 u2
        \<and> grows None h phi u phi2 u2 (length ?ys) \<and> same phi2 ?x y"
      using run sm by (intro exI[of _ ?phi] exI[of _ ?u2] exI[of _ ?y]) (simp add: heap_type_def)
  qed simp
qed

subsection \<open>Tuples\<close>

text \<open>The level below writes and reads every value it is given.\<close>

definition level_ok :: "objects \<Rightarrow> (jv \<Rightarrow> (mstate, unit) act) \<Rightarrow> (ustate, jv) act \<Rightarrow> bool" where
  "level_ok h rec um \<longleftrightarrow> (\<forall>x s s2. value_ok x \<longrightarrow> mplain s \<longrightarrow> rec x s = Inr (Inr (), s2) \<longrightarrow>
     mirrors h s s2 um (\<lambda>phi. same phi x))"

definition reads :: "objects \<Rightarrow> mstate \<Rightarrow> mstate \<Rightarrow> (ustate, 'a) act \<Rightarrow> bytes \<Rightarrow> (moves \<Rightarrow> 'a \<Rightarrow> bool) \<Rightarrow> bool" where
  "reads h s s2 um ys P \<longleftrightarrow> (\<forall>phi u rest. sim phi h s u \<longrightarrow> ahead u (ys @ rest) \<longrightarrow> roomy u \<longrightarrow>
     (\<exists>phi2 u2 y. um u = Inr (Inr y, u2) \<and> sim phi2 h s2 u2 \<and> grows None h phi u phi2 u2 (length ys) \<and> P phi2 y))"

lemma readsE:
  assumes "reads h s s2 um ys P" "sim phi h s u" "ahead u (ys @ rest)" "roomy u"
  obtains phi2 u2 y where "um u = Inr (Inr y, u2)" "sim phi2 h s2 u2" "grows None h phi u phi2 u2 (length ys)" "P phi2 y"
    "ahead u2 rest" "roomy u2" "phi \<subseteq>\<^sub>m phi2"
proof -
  from assms obtain phi2 u2 y where r: "um u = Inr (Inr y, u2)" "sim phi2 h s2 u2" "grows None h phi u phi2 u2 (length ys)" "P phi2 y"
    unfolding reads_def by blast
  show thesis by (rule that[OF r grows_room(2,1)[OF r(3) assms(4,3) refl]]) (use r(3) in \<open>simp add: grows_def\<close>)
qed

lemma level_okD:
  assumes "level_ok h rec um" "value_ok x" "mplain s" "rec x s = Inr (Inr (), s2)"
  obtains ys where "mplain s2" "ys \<noteq> []" "mout s2 = mout s @ ys" "reads h s s2 um ys (\<lambda>phi. same phi x)"
  using assms unfolding level_ok_def mirrors_def reads_def by blast

lemma tuple_loop:
  assumes "level_ok h rec um"
  shows "\<forall>x \<in> set xs. value_ok x \<Longrightarrow> mplain s \<Longrightarrow> for_each rec xs s = Inr (Inr (), s2) \<Longrightarrow>
    mplain s2 \<and> (\<exists>ys. mout s2 = mout s @ ys \<and> length xs \<le> length ys
     \<and> reads h s s2 (collect (length xs) um) ys (\<lambda>phi. list_all2 (same phi) xs))"
proof (induction xs arbitrary: s)
  case Nil
  then have "s2 = s" by (simp add: act_simps)
  moreover have "grows None h phi u phi u 0" for phi u by (simp add: grows_def)
  ultimately show ?case using Nil by (auto simp: act_simps reads_def intro!: exI[of _ "[]"])
next
  case (Cons x xs)
  have e: "andnext (rec x) (\<lambda>_. for_each rec xs) s = Inr (Inr (), s2)" using Cons.prems(3) by simp
  obtain s1 where s1: "rec x s = Inr (Inr (), s1)" "for_each rec xs s1 = Inr (Inr (), s2)" by (rule andnext_returnsE[OF e]) simp
  have vx: "value_ok x" using Cons.prems(1) by simp
  obtain ys1 where y1: "mplain s1" "ys1 \<noteq> []" "mout s1 = mout s @ ys1" and r1: "reads h s s1 um ys1 (\<lambda>phi. same phi x)"
    by (rule level_okD[OF assms vx Cons.prems(2) s1(1)])
  from Cons.IH[OF _ y1(1) s1(2)] Cons.prems(1) obtain ys2 where y2: "mplain s2" "mout s2 = mout s1 @ ys2" "length xs \<le> length ys2"
    and r2: "reads h s1 s2 (collect (length xs) um) ys2 (\<lambda>phi. list_all2 (same phi) xs)" by auto
  have "reads h s s2 (collect (length (x # xs)) um) (ys1 @ ys2) (\<lambda>phi. list_all2 (same phi) (x # xs))"
    unfolding reads_def
  proof (intro allI impI)
    fix phi u rest assume u: "sim phi h s u" "ahead u ((ys1 @ ys2) @ rest)" "roomy u"
    have a: "ahead u (ys1 @ ys2 @ rest)" using u(2) by simp
    obtain phi1 u1 v where v: "um u = Inr (Inr v, u1)" "sim phi1 h s1 u1"
      "grows None h phi u phi1 u1 (length ys1)" "same phi1 x v" "ahead u1 (ys2 @ rest)" "roomy u1" by (rule readsE[OF r1 u(1) a u(3)])
    obtain phi2 u2 vs where w: "collect (length xs) um u1 = Inr (Inr vs, u2)" "sim phi2 h s2 u2"
      "grows None h phi1 u1 phi2 u2 (length ys2)" "list_all2 (same phi2) xs vs" "phi1 \<subseteq>\<^sub>m phi2" by (rule readsE[OF r2 v(2,5,6)])
    have g: "grows None h phi u phi2 u2 (length (ys1 @ ys2))" using grows_trans[OF v(3) w(3) v(2)] by simp
    have "same phi2 x v" by (rule same_mono[OF v(4) w(5)])
    moreover have "collect (length (x # xs)) um u = Inr (Inr (v # vs), u2)" using v(1) w(1) by (simp add: act_simps)
    ultimately show "\<exists>phi2 u2 y. collect (length (x # xs)) um u = Inr (Inr y, u2) \<and> sim phi2 h s2 u2
        \<and> grows None h phi u phi2 u2 (length (ys1 @ ys2)) \<and> list_all2 (same phi2) (x # xs) y"
      using w g by (intro exI[of _ phi2] exI[of _ u2] exI[of _ "v # vs"]) simp
  qed
  moreover have "mout s2 = mout s @ (ys1 @ ys2)" using y1(3) y2(2) by simp
  moreover have "length (x # xs) \<le> length (ys1 @ ys2)" using y1(2) y2(3) by (cases ys1) simp_all
  ultimately show ?case using y2(1) by blast
qed

lemma grows_tail:
  assumes "grows None h phi (u\<lparr>upos := upos u + k\<rparr>) phi2 u2 l" "0 < k"
  shows "grows None h phi u phi2 (u2\<lparr>lookup := lookup u2 @ [y]\<rparr>) (k + l)"
  using assms by (simp add: grows_def)

lemma mirrors_tuple:
  assumes "level_ok h rec um" "value_ok (VTuple br xs)" "mplain s" "marshal_tuple rec br xs s = Inr (Inr (), s2)"
  shows "mirrors h s s2 (unmarshal_step others structs um unsafe) (\<lambda>phi. same phi (VTuple br xs))"
proof -
  let ?x = "VTuple br xs" and ?n = "int (length xs)" and ?flag = "if br then 1 else 0 :: int"
  from assms(4) obtain s1 s3 s4 s5 where r: "pushbyte LB_TUPLE s = Inr (Inr (), s1)" "pushint ?n s1 = Inr (Inr (), s3)"
    "pushint ?flag s3 = Inr (Inr (), s4)" "for_each rec xs s4 = Inr (Inr (), s5)" "MARK_SEEN ?x s5 = Inr (Inr (), s2)"
    unfolding marshal_tuple_def by (elim andnext_returnsE) auto
  obtain b1 where b1: "s1 = s\<lparr>mbuf := b1\<rparr>" "mplain s1" "mout s1 = mout s @ [LB_TUPLE]" by (rule emits_plain[OF emits_byte assms(3) r(1)])
  obtain b3 where b3: "s3 = s1\<lparr>mbuf := b3\<rparr>" "mplain s3" "mout s3 = mout s1 @ int_bytes ?n" by (rule emits_plain[OF emits_int b1(2) r(2)])
  obtain b4 where b4: "s4 = s3\<lparr>mbuf := b4\<rparr>" "mplain s4" "mout s4 = mout s3 @ int_bytes ?flag" by (rule emits_plain[OF emits_int b3(2) r(3)])
  from tuple_loop[OF assms(1) _ b4(2) r(4)] assms(2) obtain ys where y: "mplain s5" "mout s5 = mout s4 @ ys" "length xs \<le> length ys"
    and lp: "reads h s4 s5 (collect (length xs) um) ys (\<lambda>phi. list_all2 (same phi) xs)" by auto
  obtain t where t: "janet_table_put (seen s5) ?x (VNum (double_of_int (nextid s5))) = Inr t"
    "s2 = s5\<lparr>seen := t, nextid := nextid s5 + 1\<rparr>" "mplain s2" "mout s2 = mout s5" by (rule mark_returns[OF r(5) y(1)])
  let ?hd = "LB_TUPLE # int_bytes ?n" let ?ys = "?hd @ int_bytes ?flag @ ys"
  have o: "mout s2 = mout s @ ?ys" using b1(3) b3(3) b4(3) y(2) t(4) by simp
  have l: "?n \<le> INT32_MAX" using mout_short[of s2] t(3) o y(3) by (simp add: mplain_def)
  show ?thesis
  proof (rule mirrorsI[OF t(3) _ o])
    fix phi u rest assume u: "sim phi h s u" "ahead u (?ys @ rest)" "roomy u"
    let ?k = "length (?hd @ int_bytes ?flag)" let ?u1 = "u\<lparr>upos := upos u + ?k\<rparr>"
    let ?u0 = "u\<lparr>upos := upos u + Suc (length (int_bytes ?n))\<rparr>"
    have a: "ahead u (LB_TUPLE # int_bytes ?n @ int_bytes ?flag @ ys @ rest)" using u(2) by simp
    have a0: "ahead ?u0 (int_bytes ?flag @ ys @ rest)" by (rule ahead_moved[of u ?hd]) (use a in simp_all)
    have a1: "ahead ?u1 (ys @ rest)" by (rule ahead_moved[of u "?hd @ int_bytes ?flag"]) (use a in simp_all)
    have rm: "roomy ?u1" using u(3) by (auto simp: roomy_def)
    have sm: "sim phi h s4 ?u1" using u(1) b1(1) b3(1) b4(1) by simp
    obtain phi2 u2 vs where c: "collect (length xs) um ?u1 = Inr (Inr vs, u2)" "sim phi2 h s5 u2"
      "grows None h phi ?u1 phi2 u2 (length ys)" "list_all2 (same phi2) xs vs" and rm2: "roomy u2" by (rule readsE[OF lp sm a1 rm])
    have fl: "readint ?u0 = Inr (Inr ?flag, ?u1)" using readint_ahead[OF _ a0] by (simp add: int32_def add.assoc)
    let ?v = "VTuple br vs" let ?u3 = "u2\<lparr>lookup := lookup u2 @ [?v]\<rparr>"
    have "unmarshal_step others structs um unsafe u = unmarshal_counted um structs LB_TUPLE u" unfolding step_run[OF a] by simp
    also have "\<dots> = unmarshal_tuple um (length xs) ?u0" using counted_run[OF a l] y(3) by simp
    also have "\<dots> = Inr (Inr ?v, ?u3)"
      using fl c(1) by (simp add: unmarshal_tuple_def act_simps push_lookup_def Let_def)
    finally have run: "unmarshal_step others structs um unsafe u = Inr (Inr ?v, ?u3)" .
    have sv: "same phi2 ?x ?v" using c(4) by simp
    have "valid_key ?x" using value_ok_no_nan[OF assms(2)] by (simp add: valid_key_def)
    then have "sim phi2 h (s5\<lparr>seen := t, nextid := nextid s5 + 1\<rparr>) ?u3"
      by (rule mark_sim[OF c(2) t(1) _ _ _ sv]) (use c(2) rm2 in \<open>simp_all add: sim_def roomy_def\<close>)
    then have "sim phi2 h s2 ?u3" unfolding t(2) .
    moreover have "grows None h phi u phi2 ?u3 (length ?ys)" using grows_tail[OF c(3)] by (simp add: add.assoc)
    ultimately show "\<exists>phi2 u2 y. unmarshal_step others structs um unsafe u = Inr (Inr y, u2) \<and> sim phi2 h s2 u2
        \<and> grows None h phi u phi2 u2 (length ?ys) \<and> same phi2 ?x y"
      using run sv by blast
  qed simp
qed

subsection \<open>Arrays\<close>

definition push_element :: "(jv \<Rightarrow> (mstate, unit) act) \<Rightarrow> jv option \<Rightarrow> (mstate, unit) act" where
  "push_element rec c = andnext (attempt (case c of Some x \<Rightarrow> Inr x | None \<Rightarrow> Inl Uninitialised)) rec"

lemma change_array:
  assumes "roomy u" "p < length (uheap u)" "uheap u ! p = OArray b" "i < length b" "unat a = p"
  shows "change_object a (\<lambda>ob. rbind (as_array ob) (\<lambda>b. rbind (write_cell b i x) (\<lambda>b. Inr (OArray b)))) u
    = Inr (Inr (), u\<lparr>uheap := (uheap u)[p := OArray (b[i := Some x])]\<rparr>)"
  using assms by (simp add: change_object_def deref_def as_array_def write_cell_def act_simps)

definition reads_array :: "objects \<Rightarrow> mstate \<Rightarrow> mstate \<Rightarrow> (ustate, jv) act \<Rightarrow> bytes \<Rightarrow> jv list \<Rightarrow> bool" where
  "reads_array h s s2 um ys xs \<longleftrightarrow>
     (\<forall>phi u rest p (a :: 64 word) zs. sim phi h s u \<longrightarrow> ahead u (ys @ rest) \<longrightarrow> roomy u \<longrightarrow> p < length (uheap u) \<longrightarrow> unat a = p \<longrightarrow>
          uheap u ! p = OArray (map Some zs @ replicate (length xs) None) \<longrightarrow>
          (\<exists>phi2 u2 vs. for_range (length zs) (length xs) (element_into um a) u = Inr (Inr (), u2) \<and> sim phi2 h s2 u2
             \<and> grows (Some p) h phi u phi2 u2 (length ys) \<and> list_all2 (same phi2) xs vs \<and> uheap u2 ! p = OArray (map Some (zs @ vs))))"

lemma array_loop:
  assumes "level_ok h rec um"
  shows "\<forall>x. Some x \<in> set cells \<longrightarrow> value_ok x \<Longrightarrow> mplain s \<Longrightarrow> for_each (push_element rec) cells s = Inr (Inr (), s2) \<Longrightarrow>
    mplain s2 \<and> (\<exists>xs ys. cells = map Some xs \<and> mout s2 = mout s @ ys \<and> length xs \<le> length ys
     \<and> reads_array h s s2 um ys xs)"
proof (induction cells arbitrary: s)
  case Nil
  then have "s2 = s" by (simp add: act_simps)
  moreover have "grows p h phi u phi u 0" for p phi u by (simp add: grows_def)
  ultimately show ?case using Nil by (auto simp: act_simps reads_array_def intro!: exI[of _ "[]"])
next
  case (Cons c cells)
  have e: "andnext (push_element rec c) (\<lambda>_. for_each (push_element rec) cells) s = Inr (Inr (), s2)" using Cons.prems(3) by simp
  obtain s1 where s1: "push_element rec c s = Inr (Inr (), s1)" "for_each (push_element rec) cells s1 = Inr (Inr (), s2)"
    by (rule andnext_returnsE[OF e]) simp
  obtain x where x: "c = Some x" "rec x s = Inr (Inr (), s1)"
    using s1(1) by (cases c) (simp_all add: push_element_def act_simps)
  have vx: "value_ok x" using Cons.prems(1) x(1) by simp
  obtain ys1 where y1: "mplain s1" "ys1 \<noteq> []" "mout s1 = mout s @ ys1" and r1: "reads h s s1 um ys1 (\<lambda>phi. same phi x)"
    by (rule level_okD[OF assms vx Cons.prems(2) x(2)])
  have vs: "\<forall>x. Some x \<in> set cells \<longrightarrow> value_ok x" using Cons.prems(1) by simp
  from Cons.IH[OF vs y1(1) s1(2)] obtain xs ys2 where y2: "mplain s2" "cells = map Some xs" "mout s2 = mout s1 @ ys2" "length xs \<le> length ys2"
    and r2: "reads_array h s1 s2 um ys2 xs"
    by blast
  have "reads_array h s s2 um (ys1 @ ys2) (x # xs)"
    unfolding reads_array_def
  proof (intro allI impI)
    fix phi u rest p zs and a :: "64 word"
    assume u: "sim phi h s u" "ahead u ((ys1 @ ys2) @ rest)" "roomy u" "p < length (uheap u)" "unat a = p"
      "uheap u ! p = OArray (map Some zs @ replicate (length (x # xs)) None)"
    have ah: "ahead u (ys1 @ ys2 @ rest)" using u(2) by simp
    obtain phi1 u1 v where v: "um u = Inr (Inr v, u1)" "sim phi1 h s1 u1"
      "grows None h phi u phi1 u1 (length ys1)" "same phi1 x v" "ahead u1 (ys2 @ rest)" "roomy u1" by (rule readsE[OF r1 u(1) ah u(3)])
    let ?ob = "OArray (map Some (zs @ [v]) @ replicate (length xs) None)"
    let ?u1 = "u1\<lparr>uheap := (uheap u1)[p := ?ob]\<rparr>"
    have p1: "p < length (uheap u1)" "uheap u1 ! p = uheap u ! p" using v(3) u(4) by (simp_all add: grows_def)
    have upd: "(map Some zs @ replicate (length (x # xs)) None)[length zs := Some v] = map Some (zs @ [v]) @ replicate (length xs) None"
      by (simp add: list_update_append)
    have "change_object a (\<lambda>ob. rbind (as_array ob) (\<lambda>b. rbind (write_cell b (length zs) v) (\<lambda>b. Inr (OArray b)))) u1 = Inr (Inr (), ?u1)"
      using change_array[OF v(6) p1(1) p1(2)[unfolded u(6)] _ u(5), of "length zs" v] upd by simp
    then have el: "element_into um a (length zs) u = Inr (Inr (), ?u1)" using v(1) by (simp add: element_into_def act_simps)
    have g1: "grows (Some p) h phi u phi1 ?u1 (length ys1)" by (rule grows_update[OF v(3) u(4)])
    have sm: "sim phi1 h s1 ?u1" using v(2) by simp
    have "ahead ?u1 (ys2 @ rest)" "roomy ?u1" "p < length (uheap ?u1)" "uheap ?u1 ! p = ?ob"
      using v(5,6) p1(1) by (simp_all add: ahead_def roomy_def)
    then obtain phi2 u2 vs where w: "for_range (length (zs @ [v])) (length xs) (element_into um a) ?u1 = Inr (Inr (), u2)" "sim phi2 h s2 u2"
      "grows (Some p) h phi1 ?u1 phi2 u2 (length ys2)" "list_all2 (same phi2) xs vs" "uheap u2 ! p = OArray (map Some ((zs @ [v]) @ vs))"
      using r2 sm u(5) unfolding reads_array_def by blast
    have g: "grows (Some p) h phi u phi2 u2 (length (ys1 @ ys2))" using grows_trans[OF g1 w(3) sm] u(4) by simp
    have "same phi2 x v" by (rule same_mono[OF v(4)]) (use w(3) in \<open>simp add: grows_def\<close>)
    moreover have "for_range (length zs) (length (x # xs)) (element_into um a) u = Inr (Inr (), u2)"
      using el w(1) by (simp add: act_simps)
    ultimately show "\<exists>phi2 u2 vs. for_range (length zs) (length (x # xs)) (element_into um a) u = Inr (Inr (), u2) \<and> sim phi2 h s2 u2
      \<and> grows (Some p) h phi u phi2 u2 (length (ys1 @ ys2)) \<and> list_all2 (same phi2) (x # xs) vs \<and> uheap u2 ! p = OArray (map Some (zs @ vs))"
      using w g by (intro exI[of _ phi2] exI[of _ u2] exI[of _ "v # vs"]) simp
  qed
  moreover have "mout s2 = mout s @ (ys1 @ ys2)" using y1(3) y2(3) by simp
  moreover have "length (x # xs) \<le> length (ys1 @ ys2)" using y1(2) y2(4) by (cases ys1) simp_all
  moreover have "c # cells = map Some (x # xs)" using x(1) y2(2) by simp
  ultimately show ?case using y2(1)
    by - (rule conjI, assumption, rule exI[of _ "x # xs"], rule exI[of _ "ys1 @ ys2"], intro conjI; assumption)
qed

lemma mirrors_array:
  assumes "level_ok h rec um" "heap_ok h" "mplain s" "marshal_array rec h a s = Inr (Inr (), s2)"
    and "janet_table_get [0 \<mapsto> seen s] 0 (VRef JANET_ARRAY a) = Inr check" "int_of check = None"
  shows "mirrors h s s2 (unmarshal_step others structs um unsafe) (\<lambda>phi. same phi (VRef JANET_ARRAY a))"
proof -
  let ?x = "VRef JANET_ARRAY a"
  obtain cells where d: "deref h a = Inr (OArray cells)"
    using assms(4) unfolding marshal_array_def
    by (elim andnext_returnsE attempt_returnsE) (auto simp: rbind_eq_Inr object_casts)
  note da = deref_unat[OF d]
  have "object_ok (OArray cells)" using assms(2) da by (metis heap_ok_def nth_mem)
  then have ok: "\<forall>x. Some x \<in> set cells \<longrightarrow> value_ok x" by simp
  let ?n = "int (length cells)"
  have e: "andnext (MARK_SEEN ?x) (\<lambda>_. andnext (pushbyte LB_ARRAY) (\<lambda>_. andnext (pushint ?n) (\<lambda>_. for_each (push_element rec) cells))) s
      = Inr (Inr (), s2)"
    using assms(4) d by (simp add: marshal_array_def as_array_def act_simps push_element_def[abs_def])
  obtain s1 where s1: "MARK_SEEN ?x s = Inr (Inr (), s1)"
    "andnext (pushbyte LB_ARRAY) (\<lambda>_. andnext (pushint ?n) (\<lambda>_. for_each (push_element rec) cells)) s1 = Inr (Inr (), s2)"
    by (rule andnext_returnsE[OF e]) simp
  obtain s3 where s3: "pushbyte LB_ARRAY s1 = Inr (Inr (), s3)" "andnext (pushint ?n) (\<lambda>_. for_each (push_element rec) cells) s3 = Inr (Inr (), s2)"
    by (rule andnext_returnsE[OF s1(2)]) simp
  obtain s4 where s4: "pushint ?n s3 = Inr (Inr (), s4)" "for_each (push_element rec) cells s4 = Inr (Inr (), s2)"
    by (rule andnext_returnsE[OF s3(2)]) simp
  obtain t where t: "janet_table_put (seen s) ?x (VNum (double_of_int (nextid s))) = Inr t"
    "s1 = s\<lparr>seen := t, nextid := nextid s + 1\<rparr>" "mplain s1" "mout s1 = mout s" by (rule mark_returns[OF s1(1) assms(3)])
  obtain b3 where b3: "s3 = s1\<lparr>mbuf := b3\<rparr>" "mplain s3" "mout s3 = mout s1 @ [LB_ARRAY]" by (rule emits_plain[OF emits_byte t(3) s3(1)])
  obtain b4 where b4: "s4 = s3\<lparr>mbuf := b4\<rparr>" "mplain s4" "mout s4 = mout s3 @ int_bytes ?n" by (rule emits_plain[OF emits_int b3(2) s4(1)])
  from array_loop[OF assms(1) ok b4(2) s4(2)] obtain xs ys where y: "mplain s2" "cells = map Some xs" "mout s2 = mout s4 @ ys" "length xs \<le> length ys"
    and lp: "reads_array h s4 s2 um ys xs" by blast
  have n: "?n = int (length xs)" using y(2) by simp
  let ?hd = "LB_ARRAY # int_bytes ?n" let ?ys = "?hd @ ys"
  have o: "mout s2 = mout s @ ?ys" using t(4) b3(3) b4(3) y(3) by simp
  have l: "?n \<le> INT32_MAX" using mout_short[of s2] y(1,4) o n by (simp add: mplain_def)
  have s4e: "s4 = s\<lparr>seen := t, nextid := nextid s + 1\<rparr>\<lparr>mbuf := b4\<rparr>" using t(2) b3(1) b4(1) by simp
  show ?thesis
  proof (rule mirrorsI[OF y(1) _ o])
    fix phi u rest assume u: "sim phi h s u" "ahead u (?ys @ rest)" "roomy u"
    let ?y = "VRef JANET_ARRAY (new_address u)" let ?ob = "OArray (malloc_block (length xs))"
    let ?u1 = "opened u (length ?hd) ?y ?ob" let ?phi = "phi(a \<mapsto> new_address u)" let ?p = "length (uheap u)"
    have ah: "ahead u (LB_ARRAY # int_bytes ?n @ ys @ rest)" using u(2) by simp
    have g: "get (seen s) ?x = VNil" by (rule unseen_get[OF u(1,3) assms(5,6)])
    note op = opened_sim(1)[OF u(1,3) g t(1), where k = "length ?hd" and ob = ?ob] opened_sim(2)[OF u(1,3) g t(1)]
    have sm: "sim ?phi h s4 ?u1" unfolding s4e sim_buffer using op da by simp
    have a1: "ahead ?u1 (ys @ rest)" by (rule opened_ahead[of u ?hd]) (use ah in simp_all)
    have rm: "roomy ?u1" by (rule opened_roomy[OF u(3), of ?hd "ys @ rest"]) (use ah in simp_all)
    have "?p < length (uheap ?u1)" "unat (new_address u) = ?p" "uheap ?u1 ! ?p = OArray (map Some [] @ replicate (length xs) None)"
      using new_address_unat[OF u(3)] by (simp_all add: malloc_block_def)
    then obtain phi2 u2 vs where w: "for_range (length ([] :: jv list)) (length xs) (element_into um (new_address u)) ?u1 = Inr (Inr (), u2)"
      "sim phi2 h s2 u2" "grows (Some ?p) h ?phi ?u1 phi2 u2 (length ys)" "list_all2 (same phi2) xs vs" "uheap u2 ! ?p = OArray (map Some ([] @ vs))"
      using lp sm a1 rm unfolding reads_array_def by blast
    have "unmarshal_step others structs um unsafe u = unmarshal_counted um structs LB_ARRAY u" unfolding step_run[OF ah] by simp
    also have "\<dots> = unmarshal_array um (length xs) (u\<lparr>upos := upos u + Suc (length (int_bytes ?n))\<rparr>)"
      using counted_run[OF ah l] y(4) n by simp
    also have "\<dots> = Inr (Inr ?y, u2)" using w(1) by (simp add: unmarshal_array_def act_simps new_object_run push_lookup_def)
    finally have run: "unmarshal_step others structs um unsafe u = Inr (Inr ?y, u2)" .
    have al: "alike phi2 (h ! unat a) (uheap u2 ! ?p)" using da y(2) w(4,5) by auto
    have "grows None h phi u phi2 u2 (length ?hd + length ys)"
      by (rule closed_grows[OF w(3) _ al _ u(3)]) (use op da in simp_all)
    moreover have "phi2 a = Some (new_address u)" using w(3) moves_le[of ?phi a "new_address u"] by (simp add: grows_def)
    ultimately show "\<exists>phi2 u2 y. unmarshal_step others structs um unsafe u = Inr (Inr y, u2) \<and> sim phi2 h s2 u2
        \<and> grows None h phi u phi2 u2 (length ?ys) \<and> same phi2 ?x y"
      using run w(2) by (intro exI[of _ phi2] exI[of _ u2] exI[of _ ?y]) (simp add: heap_type_def)
  qed simp
qed

end
