(* ===== verification/MarshalTables.thy ===== *)
theory MarshalTables
  imports MarshalParts
begin

text \<open>
  Tables, whose entries are put into the copy one by one, and the levels of the recursion put
  together.
\<close>

subsection \<open>Entries\<close>

definition push_entry :: "(jv \<Rightarrow> (mstate, unit) act) \<Rightarrow> jv \<times> jv \<Rightarrow> (mstate, unit) act" where
  "push_entry rec kv = (if fst kv = VNil then give () else andnext (rec (fst kv)) (\<lambda>_. rec (snd kv)))"

lemma for_each_entries: "for_each (push_entry rec) kvs = for_each (push_entry rec) (filter (\<lambda>kv. fst kv \<noteq> VNil) kvs)"
proof (induction kvs)
  case (Cons kv kvs)
  show ?case
  proof (cases "fst kv = VNil")
    case True
    then show ?thesis using Cons by (intro ext) (simp add: push_entry_def act_simps)
  next
    case False
    then show ?thesis using Cons by simp
  qed
qed simp

definition unequal :: "(jv \<times> jv) list \<Rightarrow> bool" where
  "unequal kvs = sorted_wrt (\<lambda>a b. \<not> janet_equals (fst a) (fst b)) kvs"

lemma entries_of_table:
  assumes "table_ok t"
  shows "tcount t = int (length (entries t))" and "unequal (entries t)" and "\<forall>kv \<in> set (entries t). fst kv \<noteq> VNil \<and> snd kv \<noteq> VNil"
proof -
  show "tcount t = int (length (entries t))"
    using assms by (simp add: table_ok_def entries_def n_full_def)
  have ok: "buckets_ok (data t)" by (rule table_okD(1)[OF assms])
  have dk: "i = j" if "i < length (data t)" "j < length (data t)" "fst (data t ! i) \<noteq> VNil" "fst (data t ! j) \<noteq> VNil"
      "janet_equals (fst (data t ! j)) (fst (data t ! i))" for i j
    using ok that unfolding buckets_ok_def distinct_keys_def full_def has_key_def by blast
  have d: "sorted_wrt (\<lambda>a b. fst a \<noteq> VNil \<longrightarrow> fst b \<noteq> VNil \<longrightarrow> \<not> janet_equals (fst a) (fst b)) (data t)"
    unfolding sorted_wrt_iff_nth_less
  proof (intro allI impI notI)
    fix i j assume h: "i < j" "j < length (data t)" "fst (data t ! i) \<noteq> VNil" "fst (data t ! j) \<noteq> VNil"
      "janet_equals (fst (data t ! i)) (fst (data t ! j))"
    from dk[OF _ h(2) h(3,4) janet_equals_sym[OF h(5)]] h(1,2) show False by simp
  qed
  have "sorted_wrt (\<lambda>a b. \<not> janet_equals (fst a) (fst b)) (filter (\<lambda>kv. fst kv \<noteq> VNil) (data t))"
    by (rule sorted_wrt_mono_rel[OF _ sorted_wrt_filter[OF d]]) simp
  then show "unequal (entries t)" by (simp add: unequal_def entries_def)
  show "\<forall>kv \<in> set (entries t). fst kv \<noteq> VNil \<and> snd kv \<noteq> VNil"
    using ok by (auto simp: entries_def buckets_ok_def full_def in_set_conv_nth)
qed

lemma same_entries_put:
  assumes "same_entries phi old T" "phi \<subseteq>\<^sub>m phi2" "same phi2 k k2" "same phi2 v v2" "inj_on phi2 (dom phi2)"
    and "\<forall>kv \<in> set old. \<not> janet_equals (fst kv) k"
    and "\<forall>q. get T2 q = (if janet_equals k2 q then v2 else get T q)" "k \<noteq> VNil" "v \<noteq> VNil"
  shows "same_entries phi2 (old @ [(k, v)]) T2"
  unfolding same_entries_def
proof (intro conjI ballI allI impI)
  have m: "same_entries phi2 old T" by (rule same_entries_mono[OF assms(1,2)])
  have refl: "janet_equals k2 k2" by (rule janet_equals_refl[OF same_no_nan[OF assms(3)]])
  {
    fix kv assume "kv \<in> set (old @ [(k, v)])"
    then consider "kv \<in> set old" | "kv = (k, v)" by auto
    then show "\<exists>c. same phi2 (fst kv) c \<and> same phi2 (snd kv) (get T2 c)"
    proof cases
      case 1
      then obtain c where c: "same phi2 (fst kv) c" "same phi2 (snd kv) (get T c)" using m unfolding same_entries_def by blast
      have "\<not> janet_equals k2 c"
      proof
        assume "janet_equals k2 c"
        then have "janet_equals (fst kv) k" using same_equal[OF assms(5) c(1) assms(3)] janet_equals_sym by blast
        then show False using assms(6) 1 by blast
      qed
      then show ?thesis using c assms(7) by (intro exI[of _ c]) simp
    next
      case 2
      then show ?thesis using assms(3,4,7) refl by (intro exI[of _ k2]) simp
    qed
  next
    fix q assume q: "get T2 q \<noteq> VNil"
    show "\<exists>kv \<in> set (old @ [(k, v)]). \<exists>c. same phi2 (fst kv) c \<and> janet_equals c q"
    proof (cases "janet_equals k2 q")
      case True
      then show ?thesis using assms(3) by (intro bexI[of _ "(k, v)"] exI[of _ k2]) simp_all
    next
      case False
      then have "get T q \<noteq> VNil" using q assms(7) by simp
      then show ?thesis using m unfolding same_entries_def by fastforce
    qed
  }
qed

definition reads_entries :: "objects \<Rightarrow> mstate \<Rightarrow> mstate \<Rightarrow> (ustate, jv) act \<Rightarrow> bytes \<Rightarrow> (jv \<times> jv) list \<Rightarrow> bool" where
  "reads_entries h s s2 um ys kvs \<longleftrightarrow>
     (\<forall>phi u rest p (a :: 64 word) old T j. sim phi h s u \<longrightarrow> ahead u (ys @ rest) \<longrightarrow> roomy u \<longrightarrow> p < length (uheap u) \<longrightarrow> unat a = p \<longrightarrow>
        uheap u ! p = OTable T \<longrightarrow> table_ok T \<longrightarrow> same_entries phi old T \<longrightarrow> tcount T + int (length kvs) \<le> 2 ^ 29 - 1 \<longrightarrow>
        unequal (old @ kvs) \<longrightarrow>
        (\<exists>phi2 u2 T2. for_range j (length kvs) (\<lambda>_. entry_into um a) u = Inr (Inr (), u2) \<and> sim phi2 h s2 u2
           \<and> grows (Some p) h phi u phi2 u2 (length ys) \<and> uheap u2 ! p = OTable T2 \<and> table_ok T2 \<and> proto T2 = proto T
           \<and> same_entries phi2 (old @ kvs) T2))"

lemma table_loop:
  assumes "level_ok h rec um"
  shows "\<forall>kv \<in> set kvs. value_ok (fst kv) \<and> value_ok (snd kv) \<and> fst kv \<noteq> VNil \<and> snd kv \<noteq> VNil \<Longrightarrow> mplain s \<Longrightarrow>
    for_each (push_entry rec) kvs s = Inr (Inr (), s2) \<Longrightarrow>
    mplain s2 \<and> (\<exists>ys. mout s2 = mout s @ ys \<and> length kvs \<le> length ys \<and> reads_entries h s s2 um ys kvs)"
proof (induction kvs arbitrary: s)
  case Nil
  then have "s2 = s" by (simp add: act_simps)
  moreover have "grows p h phi u phi u 0" for p phi u by (simp add: grows_def)
  ultimately show ?case using Nil by (auto simp: act_simps reads_entries_def intro!: exI[of _ "[]"])
next
  case (Cons kv kvs)
  obtain k v where kv: "kv = (k, v)" by (cases kv)
  have ok: "value_ok k" "value_ok v" "k \<noteq> VNil" "v \<noteq> VNil" using Cons.prems(1) kv by auto
  have e: "andnext (push_entry rec kv) (\<lambda>_. for_each (push_entry rec) kvs) s = Inr (Inr (), s2)" using Cons.prems(3) by simp
  obtain s1 where s1: "push_entry rec kv s = Inr (Inr (), s1)" "for_each (push_entry rec) kvs s1 = Inr (Inr (), s2)"
    by (rule andnext_returnsE[OF e]) simp
  have e1: "andnext (rec k) (\<lambda>_. rec v) s = Inr (Inr (), s1)" using s1(1) kv ok(3) by (simp add: push_entry_def)
  obtain s0 where s0: "rec k s = Inr (Inr (), s0)" "rec v s0 = Inr (Inr (), s1)" by (rule andnext_returnsE[OF e1]) simp
  obtain ys0 where y0: "mplain s0" "ys0 \<noteq> []" "mout s0 = mout s @ ys0" and r0: "reads h s s0 um ys0 (\<lambda>phi. same phi k)"
    by (rule level_okD[OF assms ok(1) Cons.prems(2) s0(1)])
  obtain ys1 where y1: "mplain s1" "ys1 \<noteq> []" "mout s1 = mout s0 @ ys1" and r1: "reads h s0 s1 um ys1 (\<lambda>phi. same phi v)"
    by (rule level_okD[OF assms ok(2) y0(1) s0(2)])
  from Cons.IH[OF _ y1(1) s1(2)] Cons.prems(1) obtain ys2 where y2: "mplain s2" "mout s2 = mout s1 @ ys2" "length kvs \<le> length ys2"
    and r2: "reads_entries h s1 s2 um ys2 kvs" by auto
  let ?ys = "ys0 @ ys1 @ ys2"
  have "reads_entries h s s2 um ?ys (kv # kvs)"
    unfolding reads_entries_def
  proof (intro allI impI)
    fix phi u rest p T old j and a :: "64 word"
    assume u: "sim phi h s u" "ahead u (?ys @ rest)" "roomy u" "p < length (uheap u)" "unat a = p" "uheap u ! p = OTable T"
      "table_ok T" "same_entries phi old T" "tcount T + int (length (kv # kvs)) \<le> 2 ^ 29 - 1" "unequal (old @ kv # kvs)"
    have ah: "ahead u (ys0 @ ys1 @ ys2 @ rest)" using u(2) by simp
    obtain phi0 u0 k2 where k2: "um u = Inr (Inr k2, u0)" "sim phi0 h s0 u0" "grows None h phi u phi0 u0 (length ys0)"
      "same phi0 k k2" "ahead u0 (ys1 @ ys2 @ rest)" "roomy u0" "phi \<subseteq>\<^sub>m phi0" by (rule readsE[OF r0 u(1) ah u(3)])
    obtain phi1 u1 v2 where v2: "um u0 = Inr (Inr v2, u1)" "sim phi1 h s1 u1" "grows None h phi0 u0 phi1 u1 (length ys1)"
      "same phi1 v v2" "ahead u1 (ys2 @ rest)" "roomy u1" "phi0 \<subseteq>\<^sub>m phi1" by (rule readsE[OF r1 k2(2,5,6)])
    have g1: "grows None h phi u phi1 u1 (length ys0 + length ys1)" by (rule grows_trans[OF k2(3) v2(3) k2(2)]) simp
    have k1: "same phi1 k k2" by (rule same_mono[OF k2(4) v2(7)])
    have le: "phi \<subseteq>\<^sub>m phi1" using g1 by (simp add: grows_def)
    have pu: "p < length (uheap u1)" "uheap u1 ! p = OTable T" using g1 u(4,6) by (simp_all add: grows_def)
    have vk: "valid_key k2" by (rule same_valid[OF k1 ok(3)])
    have tc: "tcount T \<le> 2 ^ 29 - 2" using u(9) by simp
    from put_ok[OF u(7) vk tc, of v2] obtain T1 where T1: "janet_table_put T k2 v2 = Inr T1" "table_ok T1" "proto T1 = proto T"
      "tcount T1 \<le> tcount T + 1" "\<forall>q. get T1 q = (if janet_equals k2 q then v2 else get T q)" by blast
    let ?u1 = "u1\<lparr>uheap := (uheap u1)[p := OTable T1]\<rparr>"
    have en: "entry_into um a u = Inr (Inr (), ?u1)"
      using k2(1) v2(1) pu T1(1) u(5)
      by (simp add: entry_into_def act_simps change_object_def deref_def as_table_def)
    have gu: "grows (Some p) h phi u phi1 ?u1 (length ys0 + length ys1)" by (rule grows_update[OF g1 u(4)])
    have sm: "sim phi1 h s1 ?u1" using v2(2) by simp
    have ij: "inj_on phi1 (dom phi1)" using v2(2) by (simp add: sim_def)
    have ne: "\<forall>d \<in> set old. \<not> janet_equals (fst d) k" using u(10) kv by (auto simp: unequal_def sorted_wrt_append)
    have se: "same_entries phi1 (old @ [kv]) T1" unfolding kv
      by (rule same_entries_put[OF u(8) le k1 v2(4) ij ne T1(5) ok(3,4)])
    have "ahead ?u1 (ys2 @ rest)" "roomy ?u1" "p < length (uheap ?u1)" "uheap ?u1 ! p = OTable T1"
      "tcount T1 + int (length kvs) \<le> 2 ^ 29 - 1" "unequal ((old @ [kv]) @ kvs)"
      using v2(5,6) pu(1) T1(4) u(9,10) by (simp_all add: ahead_def roomy_def)
    then obtain phi2 u2 T2 where w: "for_range (Suc j) (length kvs) (\<lambda>_. entry_into um a) ?u1 = Inr (Inr (), u2)" "sim phi2 h s2 u2"
      "grows (Some p) h phi1 ?u1 phi2 u2 (length ys2)" "uheap u2 ! p = OTable T2" "table_ok T2" "proto T2 = proto T1"
      "same_entries phi2 ((old @ [kv]) @ kvs) T2"
      using r2 sm u(5) T1(2) se unfolding reads_entries_def by blast
    have "grows (Some p) h phi u phi2 u2 (length ?ys)" using grows_trans[OF gu w(3) sm] u(4) by (simp add: add.assoc)
    moreover have "for_range j (length (kv # kvs)) (\<lambda>_. entry_into um a) u = Inr (Inr (), u2)" using en w(1) by (simp add: act_simps)
    ultimately show "\<exists>phi2 u2 T2. for_range j (length (kv # kvs)) (\<lambda>_. entry_into um a) u = Inr (Inr (), u2) \<and> sim phi2 h s2 u2
        \<and> grows (Some p) h phi u phi2 u2 (length ?ys) \<and> uheap u2 ! p = OTable T2 \<and> table_ok T2 \<and> proto T2 = proto T
        \<and> same_entries phi2 (old @ kv # kvs) T2"
      using w T1(3) by (intro exI[of _ phi2] exI[of _ u2] exI[of _ T2]) simp
  qed
  moreover have "mout s2 = mout s @ ?ys" using y0(3) y1(3) y2(2) by simp
  moreover have "length (kv # kvs) \<le> length ?ys" using y0(2) y2(3) by (cases ys0) simp_all
  ultimately show ?case using y2(1) by blast
qed

subsection \<open>Prototypes\<close>

definition push_proto :: "(jv \<Rightarrow> (mstate, unit) act) \<Rightarrow> nat option \<Rightarrow> (mstate, unit) act" where
  "push_proto rec pr = (case pr of Some p \<Rightarrow> rec (VRef JANET_TABLE (word_of_nat p)) | None \<Rightarrow> give ())"

definition reads_proto :: "objects \<Rightarrow> mstate \<Rightarrow> mstate \<Rightarrow> (ustate, jv) act \<Rightarrow> bytes \<Rightarrow> nat option \<Rightarrow> bool" where
  "reads_proto h s s2 um ys pr \<longleftrightarrow>
     (\<forall>phi u rest p (a :: 64 word) T. sim phi h s u \<longrightarrow> ahead u (ys @ rest) \<longrightarrow> roomy u \<longrightarrow> p < length (uheap u) \<longrightarrow> unat a = p \<longrightarrow>
        uheap u ! p = OTable T \<longrightarrow> proto T = None \<longrightarrow>
        (\<exists>phi2 u2 q. (if pr \<noteq> None then unmarshal_proto um a else give ()) u = Inr (Inr (), u2) \<and> sim phi2 h s2 u2
           \<and> grows (Some p) h phi u phi2 u2 (length ys) \<and> uheap u2 ! p = OTable (T\<lparr>proto := q\<rparr>) \<and> same_proto phi2 pr q))"

lemma proto_stage:
  assumes "level_ok h rec um" "mplain s" "push_proto rec pr s = Inr (Inr (), s2)"
  shows "mplain s2 \<and> (\<exists>ys. mout s2 = mout s @ ys \<and> reads_proto h s s2 um ys pr)"
proof (cases pr)
  case None
  then have "s2 = s" using assms(3) by (simp add: push_proto_def act_simps)
  moreover have "grows p h phi u phi u 0" for p phi u by (simp add: grows_def)
  moreover have "(T :: table)\<lparr>proto := None\<rparr> = T" if "proto T = None" for T using that by (cases T) simp
  ultimately show ?thesis using None assms(2)
    by (auto simp: act_simps reads_proto_def same_proto_def intro!: exI[of _ "[]"])
next
  case (Some q)
  let ?x = "VRef JANET_TABLE (word_of_nat q)"
  have r: "rec ?x s = Inr (Inr (), s2)" using assms(3) Some by (simp add: push_proto_def)
  have vx: "value_ok ?x" by (simp add: heap_type_def)
  obtain ys where y: "mplain s2" "ys \<noteq> []" "mout s2 = mout s @ ys" and rd: "reads h s s2 um ys (\<lambda>phi. same phi ?x)"
    by (rule level_okD[OF assms(1) vx assms(2) r])
  have "reads_proto h s s2 um ys pr" unfolding reads_proto_def
  proof (intro allI impI)
    fix phi u rest p T and a :: "64 word"
    assume u: "sim phi h s u" "ahead u (ys @ rest)" "roomy u" "p < length (uheap u)" "unat a = p" "uheap u ! p = OTable T" "proto T = None"
    obtain phi1 u1 z where z: "um u = Inr (Inr z, u1)" "sim phi1 h s2 u1" "grows None h phi u phi1 u1 (length ys)" "same phi1 ?x z"
      by (rule readsE[OF rd u(1-3)])
    obtain w where w: "z = VRef JANET_TABLE w" "phi1 (word_of_nat q) = Some w" using z(4) by (auto simp: heap_type_def split: jv.splits)
    let ?ob = "OTable (T\<lparr>proto := Some (unat w)\<rparr>)" let ?u1 = "u1\<lparr>uheap := (uheap u1)[p := ?ob]\<rparr>"
    have pu: "p < length (uheap u1)" "uheap u1 ! p = OTable T" using z(3) u(4,6) by (simp_all add: grows_def)
    have run: "unmarshal_proto um a u = Inr (Inr (), ?u1)"
      using z(1) w(1) pu u(5) by (simp add: unmarshal_proto_def act_simps change_object_def deref_def as_table_def)
    have g: "grows (Some p) h phi u phi1 ?u1 (length ys)" by (rule grows_update[OF z(3) u(4)])
    have sm: "sim phi1 h s2 ?u1" using z(2) by simp
    have sp: "same_proto phi1 pr (Some (unat w))" using w(2) Some by (simp add: same_proto_def)
    have ob: "uheap ?u1 ! p = ?ob" using pu(1) by simp
    show "\<exists>phi2 u2 q. (if pr \<noteq> None then unmarshal_proto um a else give ()) u = Inr (Inr (), u2) \<and> sim phi2 h s2 u2
        \<and> grows (Some p) h phi u phi2 u2 (length ys) \<and> uheap u2 ! p = OTable (T\<lparr>proto := q\<rparr>) \<and> same_proto phi2 pr q"
      by (rule exI[of _ phi1], rule exI[of _ ?u1], rule exI[of _ "Some (unat w)"]) (use run g sm sp ob Some in simp)
  qed
  then show ?thesis using y(1,3) by blast
qed

lemma proto_irrelevant: "table_ok (T\<lparr>proto := q\<rparr>) = table_ok T" "get (T\<lparr>proto := q\<rparr>) k = get T k"
  by (simp_all add: table_ok_def get_def janet_table_rawget_def)

lemma mirrors_table:
  assumes "level_ok h rec um" "heap_ok h" "mplain s" "marshal_table rec h a s = Inr (Inr (), s2)"
    and "janet_table_get [0 \<mapsto> seen s] 0 (VRef JANET_TABLE a) = Inr check" "int_of check = None"
  shows "mirrors h s s2 (unmarshal_step others structs um unsafe) (\<lambda>phi. same phi (VRef JANET_TABLE a))"
proof -
  let ?x = "VRef JANET_TABLE a"
  obtain T where d: "deref h a = Inr (OTable T)"
    using assms(4) unfolding marshal_table_def
    by (elim andnext_returnsE attempt_returnsE) (auto simp: rbind_eq_Inr object_casts)
  note da = deref_unat[OF d]
  have ok: "object_ok (OTable T)" using assms(2) da by (metis heap_ok_def nth_mem)
  then have tok: "table_ok T" by simp
  note en = entries_of_table[OF tok]
  have vok: "\<forall>kv \<in> set (entries T). value_ok (fst kv) \<and> value_ok (snd kv) \<and> fst kv \<noteq> VNil \<and> snd kv \<noteq> VNil"
  proof
    fix kv assume kv: "kv \<in> set (entries T)"
    then have "kv \<in> set (data T)" by (simp add: entries_def)
    then have "entry_ok kv" using ok by simp
    then show "value_ok (fst kv) \<and> value_ok (snd kv) \<and> fst kv \<noteq> VNil \<and> snd kv \<noteq> VNil" using en(3) kv unfolding entry_ok_def by blast
  qed
  let ?n = "int (length (entries T))" let ?lb = "if proto T \<noteq> None then LB_TABLE_PROTO else LB_TABLE"
  have e: "andnext (MARK_SEEN ?x) (\<lambda>_. andnext (pushbyte ?lb) (\<lambda>_. andnext (pushint ?n) (\<lambda>_. andnext (push_proto rec (proto T)) (\<lambda>_.
      for_each (push_entry rec) (entries T))))) s = Inr (Inr (), s2)"
    using assms(4) d en(1) for_each_entries[of rec "data T"]
    by (simp add: marshal_table_def as_table_def act_simps push_entry_def[abs_def] push_proto_def entries_def)
  obtain s1 where s1: "MARK_SEEN ?x s = Inr (Inr (), s1)"
    "andnext (pushbyte ?lb) (\<lambda>_. andnext (pushint ?n) (\<lambda>_. andnext (push_proto rec (proto T)) (\<lambda>_. for_each (push_entry rec) (entries T)))) s1 = Inr (Inr (), s2)"
    by (rule andnext_returnsE[OF e]) simp
  obtain s3 where s3: "pushbyte ?lb s1 = Inr (Inr (), s3)"
    "andnext (pushint ?n) (\<lambda>_. andnext (push_proto rec (proto T)) (\<lambda>_. for_each (push_entry rec) (entries T))) s3 = Inr (Inr (), s2)"
    by (rule andnext_returnsE[OF s1(2)]) simp
  obtain s4 where s4: "pushint ?n s3 = Inr (Inr (), s4)"
    "andnext (push_proto rec (proto T)) (\<lambda>_. for_each (push_entry rec) (entries T)) s4 = Inr (Inr (), s2)"
    by (rule andnext_returnsE[OF s3(2)]) simp
  obtain s5 where s5: "push_proto rec (proto T) s4 = Inr (Inr (), s5)" "for_each (push_entry rec) (entries T) s5 = Inr (Inr (), s2)"
    by (rule andnext_returnsE[OF s4(2)]) simp
  obtain t where t: "janet_table_put (seen s) ?x (VNum (double_of_int (nextid s))) = Inr t"
    "s1 = s\<lparr>seen := t, nextid := nextid s + 1\<rparr>" "mplain s1" "mout s1 = mout s" by (rule mark_returns[OF s1(1) assms(3)])
  obtain b3 where b3: "s3 = s1\<lparr>mbuf := b3\<rparr>" "mplain s3" "mout s3 = mout s1 @ [?lb]" by (rule emits_plain[OF emits_byte t(3) s3(1)])
  obtain b4 where b4: "s4 = s3\<lparr>mbuf := b4\<rparr>" "mplain s4" "mout s4 = mout s3 @ int_bytes ?n" by (rule emits_plain[OF emits_int b3(2) s4(1)])
  from proto_stage[OF assms(1) b4(2) s5(1)] obtain ys0 where y0: "mplain s5" "mout s5 = mout s4 @ ys0" and r0: "reads_proto h s4 s5 um ys0 (proto T)"
    by blast
  from table_loop[OF assms(1) vok y0(1) s5(2)] obtain ys where y: "mplain s2" "mout s2 = mout s5 @ ys" "length (entries T) \<le> length ys"
    and lp: "reads_entries h s5 s2 um ys (entries T)" by blast
  let ?hd = "?lb # int_bytes ?n" let ?ys = "?hd @ ys0 @ ys"
  have o: "mout s2 = mout s @ ?ys" using t(4) b3(3) b4(3) y0(2) y(2) by simp
  have l: "?n \<le> INT32_MAX" using mout_short[of s2] y(1,3) o by (simp add: mplain_def)
  have s4e: "s4 = s\<lparr>seen := t, nextid := nextid s + 1\<rparr>\<lparr>mbuf := b4\<rparr>" using t(2) b3(1) b4(1) by simp
  show ?thesis
  proof (rule mirrorsI[OF y(1) _ o])
    fix phi u rest assume u: "sim phi h s u" "ahead u (?ys @ rest)" "roomy u"
    have ah: "ahead u (?lb # int_bytes ?n @ ys0 @ ys @ rest)" using u(2) by simp
    have small: "length (entries T) \<le> 2 ^ 29 - 2" using ahead_length[OF ah] y(3) u(3) by (simp add: roomy_def)
    obtain T0 where T0: "janet_table ?n = Inr T0" "table_ok T0" "tcount T0 = 0" "proto T0 = None" "\<forall>q. get T0 q = VNil"
      using new_table[of ?n] small by auto
    let ?y = "VRef JANET_TABLE (new_address u)" let ?ob = "OTable T0"
    let ?u1 = "opened u (length ?hd) ?y ?ob" let ?phi = "phi(a \<mapsto> new_address u)" let ?p = "length (uheap u)"
    have g: "get (seen s) ?x = VNil" by (rule unseen_get[OF u(1,3) assms(5,6)])
    note op = opened_sim(1)[OF u(1,3) g t(1), where k = "length ?hd" and ob = ?ob] opened_sim(2)[OF u(1,3) g t(1)]
    have sm: "sim ?phi h s4 ?u1" unfolding s4e sim_buffer using op da by simp
    have a1: "ahead ?u1 (ys0 @ ys @ rest)" by (rule opened_ahead[of u ?hd]) (use ah in simp_all)
    have rm: "roomy ?u1" by (rule opened_roomy[OF u(3), of ?hd "ys0 @ ys @ rest"]) (use ah in simp_all)
    have na: "?p < length (uheap ?u1)" "unat (new_address u) = ?p" "uheap ?u1 ! ?p = OTable T0"
      using new_address_unat[OF u(3)] by simp_all
    then obtain phi1 u2 q where v: "(if proto T \<noteq> None then unmarshal_proto um (new_address u) else give ()) ?u1 = Inr (Inr (), u2)" "sim phi1 h s5 u2"
      "grows (Some ?p) h ?phi ?u1 phi1 u2 (length ys0)" "uheap u2 ! ?p = OTable (T0\<lparr>proto := q\<rparr>)" "same_proto phi1 (proto T) q"
      using r0 sm a1 rm T0(4) unfolding reads_proto_def by blast
    have rm2: "roomy u2" "ahead u2 (ys @ rest)" using grows_room[OF v(3) rm a1 refl] by simp_all
    have p2: "?p < length (uheap u2)" using v(3) by (simp add: grows_def)
    have se: "same_entries phi1 [] (T0\<lparr>proto := q\<rparr>)" using T0(5) by (simp add: same_entries_def proto_irrelevant)
    have tc: "table_ok (T0\<lparr>proto := q\<rparr>)" "tcount (T0\<lparr>proto := q\<rparr>) + ?n \<le> 2 ^ 29 - 1" "unequal ([] @ entries T)"
      using T0(2,3) small en(2) by (simp_all add: proto_irrelevant)
    obtain phi2 u3 T2 where w: "for_range 0 (length (entries T)) (\<lambda>_. entry_into um (new_address u)) u2 = Inr (Inr (), u3)" "sim phi2 h s2 u3"
      "grows (Some ?p) h phi1 u2 phi2 u3 (length ys)" "uheap u3 ! ?p = OTable T2" "table_ok T2" "proto T2 = q" "same_entries phi2 ([] @ entries T) T2"
      using lp[unfolded reads_entries_def, rule_format, OF v(2) rm2(2,1) p2 na(2) v(4) tc(1) se tc(2,3), of 0] by auto
    have run0: "unmarshal_table um (proto T \<noteq> None) (length (entries T)) (u\<lparr>upos := upos u + Suc (length (int_bytes ?n))\<rparr>) = Inr (Inr ?y, u3)"
      using v(1) w(1) T0(1) by (simp add: unmarshal_table_def act_simps new_object_run push_lookup_def)
    have "unmarshal_step others structs um unsafe u = unmarshal_counted um structs ?lb u" unfolding step_run[OF ah] by simp
    also have "\<dots> = unmarshal_table um (proto T \<noteq> None) (length (entries T)) (u\<lparr>upos := upos u + Suc (length (int_bytes ?n))\<rparr>)"
      using counted_run[OF ah l] y(3) by simp
    finally have run: "unmarshal_step others structs um unsafe u = Inr (Inr ?y, u3)" unfolding run0 .
    have g3: "grows (Some ?p) h ?phi ?u1 phi2 u3 (length ys0 + length ys)" by (rule grows_trans[OF v(3) w(3) v(2)]) simp
    have "phi1 \<subseteq>\<^sub>m phi2" using w(3) by (simp add: grows_def)
    then have al: "alike phi2 (h ! unat a) (uheap u3 ! ?p)" using da w(4-7) same_proto_mono[OF v(5)] by simp
    have "grows None h phi u phi2 u3 (length ?hd + (length ys0 + length ys))"
      by (rule closed_grows[OF g3 _ al _ u(3)]) (use op da in simp_all)
    moreover have "phi2 a = Some (new_address u)" using g3 moves_le[of ?phi a "new_address u"] by (simp add: grows_def)
    ultimately show "\<exists>phi2 u2 y. unmarshal_step others structs um unsafe u = Inr (Inr y, u2) \<and> sim phi2 h s2 u2
        \<and> grows None h phi u phi2 u2 (length ?ys) \<and> same phi2 ?x y"
      using run w(2) by (intro exI[of _ phi2] exI[of _ u3] exI[of _ ?y]) (simp add: heap_type_def add.assoc)
  qed simp
qed

end
