(* ===== verification/MarshalProps.thy ===== *)
theory MarshalProps
  imports MarshalTables
begin

text \<open>
  The round trip of \<open>marshal\<close> and \<open>unmarshal\<close>: the levels of the recursion put
  together, and the corner cases in which the two directions do not agree.
\<close>

subsection \<open>One level\<close>

lemma or_reference_returns:
  assumes "or_reference x k s = Inr (Inr (), s2)" "mplain s"
  obtains check i where "janet_table_get [0 \<mapsto> seen s] 0 x = Inr check" "int_of check = Some i"
    "andnext (pushbyte LB_REFERENCE) (\<lambda>_. pushint i) s = Inr (Inr (), s2)"
  | check where "janet_table_get [0 \<mapsto> seen s] 0 x = Inr check" "int_of check = None" "k s = Inr (Inr (), s2)"
proof -
  have mc: "maybe_cycles s" using assms(2) by (simp add: mplain_def)
  obtain check where c: "janet_table_get [0 \<mapsto> seen s] 0 x = Inr check"
    using assms(1) mc by (cases "janet_table_get [0 \<mapsto> seen s] 0 x") (simp_all add: or_reference_def act_simps)
  show thesis
  proof (cases "int_of check")
    case None
    then show thesis using that(2)[OF c None] assms(1) mc c by (simp add: or_reference_def act_simps)
  next
    case (Some i)
    then show thesis using that(1)[OF c Some] assms(1) mc c by (simp add: or_reference_def act_simps)
  qed
qed

lemma or_registry_none: "mplain s \<Longrightarrow> or_registry h x k s = k s"
  by (simp add: or_registry_def act_simps mplain_def)

lemma fresh_mirrors:
  assumes "level_ok h rec um" "heap_ok h" "value_ok x" "mplain s" "x \<noteq> VNil" "\<forall>b. x \<noteq> VBool b"
    and "marshal_fresh others rec unsafe h x s = Inr (Inr (), s2)"
    and "janet_table_get [0 \<mapsto> seen s] 0 x = Inr check" "int_of check = None"
  shows "mirrors h s s2 (unmarshal_step uothers structs um unsafe) (\<lambda>phi. same phi x)"
proof (cases x)
  case (VNum d)
  then show ?thesis using mirrors_real[of d s s2] assms(3,4,7) by (simp add: marshal_fresh_def)
next
  case (VStr str)
  then show ?thesis using mirrors_string[of LB_STRING x str s s2] assms(4,7) by (simp add: marshal_fresh_def string_lead_def)
next
  case (VSym str)
  then show ?thesis using mirrors_string[of LB_SYMBOL x str s s2] assms(4,7) by (simp add: marshal_fresh_def string_lead_def)
next
  case (VKey str)
  then show ?thesis using mirrors_string[of LB_KEYWORD x str s s2] assms(4,7) by (simp add: marshal_fresh_def string_lead_def)
next
  case (VTuple br xs)
  then show ?thesis using mirrors_tuple[OF assms(1), of br xs s s2] assms(3,4,7) by (simp add: marshal_fresh_def)
next
  case (VRef t a)
  then consider "t = JANET_BUFFER" | "t = JANET_ARRAY" | "t = JANET_TABLE" | "t = JANET_POINTER \<or> t = JANET_CFUNCTION"
    using assms(3) by (auto simp: heap_type_def)
  then show ?thesis
  proof cases
    case 1
    then show ?thesis using mirrors_buffer[OF assms(2,4) _ _ assms(9)] assms(7,8) VRef by (simp add: marshal_fresh_def)
  next
    case 2
    then show ?thesis using mirrors_array[OF assms(1,2,4) _ _ assms(9)] assms(7,8) VRef by (simp add: marshal_fresh_def)
  next
    case 3
    then show ?thesis using mirrors_table[OF assms(1,2,4) _ _ assms(9)] assms(7,8) VRef by (simp add: marshal_fresh_def)
  next
    case 4
    then have "marshal_pointer unsafe t a s = Inr (Inr (), s2)" using assms(7) VRef by (auto simp: marshal_fresh_def)
    from mirrors_pointer[OF 4 assms(4) this] show ?thesis using VRef by simp
  qed
qed (use assms in auto)

lemma step_mirrors:
  assumes "level_ok h rec um" "heap_ok h" "value_ok x" "mplain s" "marshal_step others rec unsafe h x s = Inr (Inr (), s2)"
  shows "mirrors h s s2 (unmarshal_step uothers structs um unsafe) (\<lambda>phi. same phi x)"
proof -
  let ?body = "or_reference x (or_registry h x (marshal_fresh others rec unsafe h x))"
  have body: "mirrors h s s2 (unmarshal_step uothers structs um unsafe) (\<lambda>phi. same phi x)"
    if "?body s = Inr (Inr (), s2)" "x \<noteq> VNil" "\<forall>b. x \<noteq> VBool b"
    using that(1) assms(4)
  proof (cases rule: or_reference_returns)
    case (1 check i)
    then show ?thesis using mirrors_reference[OF assms(4)] by blast
  next
    case (2 check)
    then show ?thesis using fresh_mirrors[OF assms(1-4) that(2,3) _ 2(1,2)] by (simp add: or_registry_none[OF assms(4)])
  qed
  show ?thesis
  proof (cases x)
    case VNil
    then show ?thesis using mirrors_constant[OF assms(4), of LB_NIL s2 VNil] assms(5) by (simp add: marshal_step_def)
  next
    case (VBool b)
    then show ?thesis using mirrors_constant[OF assms(4), of "if b then LB_TRUE else LB_FALSE" s2 x] assms(5)
      by (cases b) (simp_all add: marshal_step_def)
  next
    case (VNum d)
    show ?thesis
    proof (cases "int_of x")
      case None
      then show ?thesis using body VNum assms(5) by (simp add: marshal_step_def)
    next
      case (Some i)
      then have "pushint i s = Inr (Inr (), s2)" using VNum assms(5) by (simp add: marshal_step_def)
      then show ?thesis using mirrors_integer[of d i s s2] Some VNum assms(3,4) by simp
    qed
  qed (use body assms(5) in \<open>simp_all add: marshal_step_def\<close>)
qed

theorem levels: "heap_ok h \<Longrightarrow> level_ok h (marshal_one others unsafe h n) (unmarshal_one uothers unsafe n)"
proof (induction n)
  case 0
  then show ?case by (simp add: level_ok_def act_simps)
next
  case (Suc n)
  then show ?case using step_mirrors[OF Suc.IH[OF Suc.prems] Suc.prems] unfolding level_ok_def by auto
qed

text \<open>A bijection of addresses under which the copy is the original: sharing and cycles are
  kept, and nothing that was in the heap before is touched.\<close>

definition rebuilds :: "objects \<Rightarrow> jv \<Rightarrow> objects \<Rightarrow> jv \<Rightarrow> objects \<Rightarrow> bool" where
  "rebuilds h x h2 y h3 \<longleftrightarrow> take (length h2) h3 = h2 \<and>
     (\<exists>phi. same phi x y \<and> inj_on phi (dom phi) \<and>
        (\<forall>a b. phi a = Some b \<longrightarrow> unat a < length h \<and> length h2 \<le> unat b \<and> unat b < length h3
           \<and> alike phi (h ! unat a) (h3 ! unat b)))"

text \<open>C35. Take a heap of arrays, tables and buffers (none of them on memory of others), whose values
  are nil, booleans, numbers other than NaN, strings, symbols, keywords, tuples, references and raw
  pointers, and a value of it. If \<open>marshal\<close>, without a registry, with the detection of cycles
  and into an empty buffer, returns a message, then \<open>unmarshal\<close> of the message returns, at its
  end and whatever bytes follow, a copy with its own new objects: an injection of addresses takes
  the value to the copy and every object reached from it to one with the content moved along, so that sharing and cycles
  are kept, tables answer alike and have copies of their prototypes, brackets of tuples stay, and no object that
  was there before changes. A number is equal to its copy (the negative zero comes back as zero). The
  message and the number of its values are bounded by 2^29, the limit of the table of values seen.\<close>

theorem marshal_roundtrip:
  assumes "heap_ok h" "value_ok x" "buf b []" "\<not> no_realloc b"
    and m: "janet_marshal others h None x None unsafe False b = Inr (Inr (), b2)"
    and "length (contents b2 @ rest) \<le> 2 ^ 29 - 2" "length h2 \<le> 2 ^ 61"
  shows "\<exists>y h3. janet_unmarshal uothers memory (contents b2 @ rest) unsafe reg h2 = Inr (Inr y, h3, length (contents b2))
    \<and> rebuilds h x h2 y h3"
proof -
  obtain t where t: "janet_table 0 = Inr t" "table_ok t" "tcount t = 0" "proto t = None" "\<forall>q. get t q = VNil"
    using new_table[of 0] by auto
  let ?n = "Suc JANET_RECURSION_GUARD"
  let ?s = "\<lparr>mbuf = b, target = None, seen = t, rreg = None, nextid = 0, maybe_cycles = True\<rparr>"
  obtain s2 where s2: "marshal_one others unsafe h ?n x ?s = Inr (Inr (), s2)" "mbuf s2 = b2"
    using m t(1) unfolding janet_marshal_def by (auto simp: rbind_eq_Inr simp del: marshal_one.simps)
  have p: "mplain ?s" using assms(3,4) by (auto simp: mplain_def mgood_def)
  obtain ys where y: "mplain s2" "ys \<noteq> []" "mout s2 = mout ?s @ ys"
    and r: "reads h ?s s2 (unmarshal_one uothers unsafe ?n) ys (\<lambda>phi. same phi x)"
    by (rule level_okD[OF levels[OF assms(1)] assms(2) p s2(1)])
  have c: "contents b2 = ys" using y(3) s2(2) buf_contents[OF assms(3)] by (simp add: mout_def)
  let ?u = "\<lparr>ubytes = ys @ rest, upos = 0, lookup = [], uheap = h2, ureg = reg, foreign = memory\<rparr>"
  have sm: "sim Map.empty h ?s ?u" using t by (simp add: sim_def)
  have ah: "ahead ?u (ys @ rest)" by (simp add: ahead_def)
  have "length (ys @ rest) \<le> 2 ^ 29 - 2" using assms(6) c by simp
  then have rm: "roomy ?u" using assms(7) by (simp add: roomy_def)
  obtain phi u2 v where v: "unmarshal_one uothers unsafe ?n ?u = Inr (Inr v, u2)" "sim phi h s2 u2"
    "grows None h Map.empty ?u phi u2 (length ys)" "same phi x v" by (rule readsE[OF r sm ah rm])
  have un: "janet_unmarshal uothers memory (contents b2 @ rest) unsafe reg h2 = Inr (Inr v, uheap u2, length (contents b2))"
    using v(1,3) c by (simp add: janet_unmarshal_def grows_def del: unmarshal_one.simps)
  have tk: "take (length h2) (uheap u2) = h2"
    using v(3) by (intro nth_equalityI) (simp_all add: grows_def)
  have "\<forall>a b. phi a = Some b \<longrightarrow> unat a < length h \<and> length h2 \<le> unat b \<and> unat b < length (uheap u2)
      \<and> alike phi (h ! unat a) (uheap u2 ! unat b)"
    using v(2,3) by (auto simp: sim_def grows_def)
  then have "rebuilds h x h2 v (uheap u2)" using tk v(2,4) unfolding rebuilds_def sim_def by blast
  with un show ?thesis by blast
qed

subsection \<open>A cycle and a shared buffer\<close>

definition demo_heap :: objects where
  "demo_heap = [OArray [Some (VRef JANET_ARRAY 0), Some (VRef JANET_BUFFER 1),
       Some (VTuple True [VNum (double_of_int 3), VRef JANET_BUFFER 1])],
     OBuffer ((janet_buffer 4)\<lparr>bcells := [Some 65, None, None, None], bcount := 1\<rparr>) 0]"

definition demo_bytes :: bytes where
  "demo_bytes = [209, 3, 218, 0, 214, 1, 65, 210, 2, 1, 3, 218, 1]"

lemma demo_message:
  "case janet_marshal (\<lambda>n x. give ()) demo_heap None (VRef JANET_ARRAY 0) None False False (janet_buffer 0) of
     Inr r \<Rightarrow> fst r = Inr () \<and> contents (snd r) = demo_bytes | Inl e \<Rightarrow> False"
  by code_simp

lemma demo_number: "\<not> isnan (double_of_int 3) \<and> dbl_wf (double_of_int 3)"
  by code_simp

lemma demo_buffer: "buf ((janet_buffer 4)\<lparr>bcells := [Some 65, None, None, None], bcount := 1\<rparr>) [65]"
  by (simp add: buf_def mem_def holds_def janet_buffer_def)

lemma demo_heap_ok: "heap_ok demo_heap"
  using demo_number demo_buffer by (auto simp: heap_ok_def demo_heap_def heap_type_def janet_buffer_def)

lemma same_cases:
  "same phi (VNum d) y \<longleftrightarrow> (\<exists>e. y = VNum e \<and> dbl_eq d e)"
  "same phi (VRef t p) y \<longleftrightarrow> (\<exists>q. y = VRef t q \<and> (if heap_type t then phi p = Some q else q = p))"
  "same phi (VTuple br xs) y \<longleftrightarrow> (\<exists>ys. y = VTuple br ys \<and> list_all2 (same phi) xs ys)"
  by (cases y; auto)+

text \<open>The copy is an array whose first element is the array itself, and whose second is the same new
  buffer as the one in the tuple.\<close>

theorem marshal_roundtrip_witness:
  "\<exists>a c d h3. janet_unmarshal (\<lambda>n l. give VNil, \<lambda>n l k. give VNil) (\<lambda>p. []) (demo_bytes @ [7, 7]) False None [OArray []] = Inr (Inr (VRef JANET_ARRAY a), h3, 13)
    \<and> h3 ! 0 = OArray [] \<and> 1 \<le> unat a \<and> dbl_eq (double_of_int 3) d
    \<and> h3 ! unat a = OArray [Some (VRef JANET_ARRAY a), Some (VRef JANET_BUFFER c), Some (VTuple True [VNum d, VRef JANET_BUFFER c])]"
proof -
  obtain b where m: "janet_marshal (\<lambda>n x. give ()) demo_heap None (VRef JANET_ARRAY 0) None False False (janet_buffer 0) = Inr (Inr (), b)"
    and c: "contents b = demo_bytes"
    using demo_message by (auto split: sum.splits)
  have b0: "buf (janet_buffer 0) []" "\<not> no_realloc (janet_buffer 0)" using buf_new[of 0] by simp_all
  have v: "value_ok (VRef JANET_ARRAY 0)" by (simp add: heap_type_def)
  have l: "length (contents b @ [7, 7]) \<le> 2 ^ 29 - 2" "length [OArray []] \<le> 2 ^ 61" by (simp_all add: c demo_bytes_def)
  obtain y h3 where y: "janet_unmarshal (\<lambda>n l. give VNil, \<lambda>n l k. give VNil) (\<lambda>p. []) (demo_bytes @ [7, 7]) False None [OArray []] = Inr (Inr y, h3, 13)"
    and r: "rebuilds demo_heap (VRef JANET_ARRAY 0) [OArray []] y h3"
    using marshal_roundtrip[OF demo_heap_ok v b0 m l, of "(\<lambda>n l. give VNil, \<lambda>n l k. give VNil)" "\<lambda>p. []" None] by (auto simp: c demo_bytes_def)
  from r obtain phi where t: "take 1 h3 = [OArray []]" and s: "same phi (VRef JANET_ARRAY 0) y"
    and p: "\<forall>a b. phi a = Some b \<longrightarrow> 1 \<le> unat b \<and> unat b < length h3 \<and> alike phi (demo_heap ! unat a) (h3 ! unat b)"
    by (auto simp: rebuilds_def)
  from s obtain a where a: "y = VRef JANET_ARRAY a" "phi 0 = Some a" by (auto simp: heap_type_def split: jv.splits)
  then have al: "1 \<le> unat a" "unat a < length h3" "alike phi (demo_heap ! 0) (h3 ! unat a)" using p by force+
  from al(3) a(2) obtain c d where "dbl_eq (double_of_int 3) d"
    "h3 ! unat a = OArray [Some (VRef JANET_ARRAY a), Some (VRef JANET_BUFFER c), Some (VTuple True [VNum d, VRef JANET_BUFFER c])]"
    by (auto simp: demo_heap_def heap_type_def list_all2_Cons1 same_cases simp del: same.simps split: object.splits)
  moreover have "h3 ! 0 = OArray []" using t by (cases h3) simp_all
  ultimately show ?thesis using y a al(1) by blast
qed

subsection \<open>Where the two directions do not agree\<close>

lemma corner_1:
  "(case janet_marshal (\<lambda>n x. give ()) [] None (VNum (Finite True 0)) None False False (janet_buffer 0) of
      Inr (Inr (), b) \<Rightarrow> contents b = [0] | _ \<Rightarrow> False)"
  by code_simp

lemma corner_2:
  "(case janet_unmarshal (\<lambda>n l. give VNil, \<lambda>n l k. give VNil) (\<lambda>p. []) [0] False None [] of
        Inr (Inr y, h, n) \<Rightarrow> y = VNum (Finite False 0) | _ \<Rightarrow> False)"
  by code_simp

lemma corner_3:
  "(case janet_marshal (\<lambda>n x. give ()) [OBuffer \<lparr>bcells = [], bcount = 0, bcapacity = 0, no_realloc = True\<rparr> 9] None
        (VRef JANET_BUFFER 0) None True False (janet_buffer 0) of
      Inr (Inr (), b) \<Rightarrow> contents b = [225, 0, 0, 9, 0, 0, 0, 0, 0, 0, 0] | _ \<Rightarrow> False)"
  by code_simp

lemma corner_4:
  "(case janet_unmarshal (\<lambda>n l. give VNil, \<lambda>n l k. give VNil) (\<lambda>p. []) [225, 0, 0, 9, 0, 0, 0, 0, 0, 0, 0] True None [] of
        Inr (Inl p, h, n) \<Rightarrow> p = Panic ''unexpected end of source'' [] | _ \<Rightarrow> False)"
  by code_simp

text \<open>The negative zero counts as an integer and comes back as zero. A buffer on memory of others
  is written as two numbers and its pointer, and reading it asks for one byte more than that: as
  the last value of a message it is refused.\<close>

theorem marshal_corners:
  "(case janet_marshal (\<lambda>n x. give ()) [] None (VNum (Finite True 0)) None False False (janet_buffer 0) of
      Inr (Inr (), b) \<Rightarrow> contents b = [0] | _ \<Rightarrow> False)
   \<and> (case janet_unmarshal (\<lambda>n l. give VNil, \<lambda>n l k. give VNil) (\<lambda>p. []) [0] False None [] of
        Inr (Inr y, h, n) \<Rightarrow> y = VNum (Finite False 0) | _ \<Rightarrow> False)
   \<and> (case janet_marshal (\<lambda>n x. give ()) [OBuffer \<lparr>bcells = [], bcount = 0, bcapacity = 0, no_realloc = True\<rparr> 9] None
        (VRef JANET_BUFFER 0) None True False (janet_buffer 0) of
      Inr (Inr (), b) \<Rightarrow> contents b = [225, 0, 0, 9, 0, 0, 0, 0, 0, 0, 0] | _ \<Rightarrow> False)
   \<and> (case janet_unmarshal (\<lambda>n l. give VNil, \<lambda>n l k. give VNil) (\<lambda>p. []) [225, 0, 0, 9, 0, 0, 0, 0, 0, 0, 0] True None [] of
        Inr (Inl p, h, n) \<Rightarrow> p = Panic ''unexpected end of source'' [] | _ \<Rightarrow> False)"
  by (intro conjI corner_1 corner_2 corner_3 corner_4)

end
