(* ===== verification/Spec2Isabelle.thy ===== *)
theory Spec2Isabelle
  imports JsonRoundtrip Udp Io Crypt Server TableProps Arrays BufferProps StringProps StructProps SqliteProps PqProps BytecodeProps IntProps SymcacheProps LoopProps MarshalProps Compare
begin

text \<open>
  Ahungry Janet is a set of native modules for the Janet interpreter, written in C under
  \<^verbatim>\<open>src/\<close>, together with the interpreter they run in
  (\<^verbatim>\<open>amalg/janet.c\<close>). This development models the modules and the containers of
  the interpreter they exchange with it, and proves what they do on every path, the paths on which
  they fail included.

  \<^bold>\<open>How the code is modelled.\<close> A value of the interpreter is a
  \<open>janet\<close> (Value). A native function is a definition of the same name on its argument list. A
  panic (\<open>longjmp\<close> in C) is a value with the format string and the arguments of the code;
  undefined behaviour is a \<open>fault\<close>: an access outside a block, a read of memory nothing
  was written to, a signed overflow, a bad cast. Memory that can be overrun is a block of cells that
  may be uninitialised (Prelude). Integers are \<open>int\<close> with their C ranges checked or wrapped
  where the code does arithmetic on them, and words where it works on bits. Doubles are their bit
  patterns (Double), with exact rounding. Calls to the operating system and to libraries that are
  not in the repository (sockets, the terminal, OpenSSL, SQLite, libpq) are answered by an arbitrary
  function of the calls made before, so a theorem holds for whatever they do; where more is
  needed, it is a hypothesis that states the documented behaviour (Process).

  \<^bold>\<open>Theories.\<close>
    \<^item> Prelude, Interfaces: blocks, results, and the contracts shared by components as locales:
      \<open>dictionary\<close> and \<open>keyed_store\<close> for stores with keys, \<open>growable\<close>
      for sequences that grow at their end. They are interpreted on the atom store, the hash table,
      arrays and buffers.
    \<^item> Value, Core, CStd, Double, DoubleText: values, argument checks (\<^verbatim>\<open>capi.c\<close>),
      equality and hashing (\<^verbatim>\<open>value.c\<close>), the actions that keep their state when they panic,
      \<open>strtod\<close> and \<open>printf\<close> of doubles.
    \<^item> Pobox (\<^verbatim>\<open>pobox.c\<close>): the atom store shared by threads; the store as a finite
      map, the lock as a step relation, serializability, and the two ways it deadlocks or overruns.
    \<^item> Json, JsonEncode, JsonRoundtrip (\<^verbatim>\<open>json/json.c\<close>): the decoder ends, is bounded in
      depth and stays in its input, and forges a value only from a NaN with a payload in the bits of the
      type; decoding what the encoder wrote gives back the values the codec keeps; where the two depart
      from JSON.
    \<^item> Udp, Io, Crypt (\<^verbatim>\<open>udp.c\<close>, \<^verbatim>\<open>com_ahungry_io.c\<close>,
      \<^verbatim>\<open>com_ahungry_crypt.c\<close>): the calls they make in order, what they leave behind, and
      their blocks.
    \<^item> PunyRead, Puny (\<^verbatim>\<open>puny-server.c\<close>, \<^verbatim>\<open>puny-server-wrap.c\<close>): the reader of a
      request against an abstract one on the bytes received, as far as the memory it is given holds the
      NULs it forgets to write; the accept loop, the socket set-up and
      the callback into Janet.
    \<^item> Server: the threads of clients, the handlers they evaluate and the atom store they share, as
      one step relation: serial order of all calls, replies of handlers that keep to the keys there
      are and whose functions raise no errors, the hang after one missing key or one error in an update, and the race in loading the module. A handler is a tree of
      calls that goes on with their outcomes.
    \<^item> Table, TableSpec, TableProps (\<^verbatim>\<open>table.c\<close>): open addressing with removed marks,
      rehashing and prototypes, as a finite map up to \<open>janet_equals\<close>.
    \<^item> Arrays (\<^verbatim>\<open>array.c\<close>), Buffers, BufferSpec, BufferProps (\<^verbatim>\<open>buffer.c\<close>):
      the growable containers as lists, their operations on every branch, also when an argument is the
      container itself.
    \<^item> Strings, StringSpec, StringProps (\<^verbatim>\<open>string.c\<close>): the search of Knuth, Morris
      and Pratt against the occurrences of the pattern, with its end; splitting, joining, replacing,
      trimming and sets of bytes.
    \<^item> Compare: \<open>janet_compare\<close> on values without structs as a total order that agrees with \<open>janet_equals\<close>,
      through a locale of comparisons that lifts to lists.
    \<^item> RobinHood, Structs, StructSpec, StructProps (\<^verbatim>\<open>struct.c\<close>): probing in which entries displace
      one another as a locale over any keys, whose main fact is that the entries determine the layout;
      the structs of the code as its instance, hence finite maps built the same way in any order, with
      prototypes, flattening and conversion to tables.
    \<^item> Regalloc, Bytecode, BytecodeProps (\<^verbatim>\<open>regalloc.c\<close>, \<^verbatim>\<open>bytecode.c\<close>):
      the registers of a function as a set; what the verifier guarantees of every path through accepted
      code; the pass that removes loads, and the removal of noops as an equivalence of executions for any
      meaning of the instructions.
    \<^item> IntTypes, IntProps (\<^verbatim>\<open>inttypes.c\<close>): boxed 64-bit integers, their arithmetic
      against that of the integers, both kinds of division, their text and their order.
    \<^item> Symcache, SymcacheSpec, SymcacheProps (\<^verbatim>\<open>symcache.c\<close>): the table of all symbols as
      a map from texts to pointers, so that equal texts are the same pointer; its growth; new symbols.
    \<^item> Queues, Timeouts, Channels, EvLoop, ChannelProps, LoopProps (\<^verbatim>\<open>ev.c\<close>): the ring
      buffers of the event loop as a locale of bounded queues, its timeouts as a heap, the channels of one
      thread as lists, tasks and the loop; the order of the values a channel hands out, and the
      histories in which a fiber hangs, is woken twice, or is not cancelled. The machine that runs
      a fiber, the clock and the wait for events are arguments.
    \<^item> Marshal, Unmarshal, DoubleInt, MarshalSpec, MarshalRel, MarshalSim, MarshalLeaves, MarshalParts,
      MarshalTables, MarshalProps (\<^verbatim>\<open>marsh.c\<close>): values as bytes and back, over a heap of arrays,
      tables and buffers with any sharing and cycles. Both directions number the values they meet in the
      same order; a simulation between the two states, kept by each kind of value (MarshalLeaves,
      MarshalParts, MarshalTables) and closed under the recursion, gives the round trip up to a bijection
      of addresses. Structs, functions, fibers and abstract values are an argument of both directions.
    \<^item> Sqlite, SqliteProps (\<^verbatim>\<open>sqlite3/main.c\<close>): the life of prepared statements and the order
      in which a text of statements is compiled and run.
    \<^item> Pq, PqProps (\<^verbatim>\<open>janet-pq/pq.c\<close>): the encoding of parameters, the unpacking of results
      and the decoding of \<open>bytea\<close> text.

  \<^bold>\<open>Loops.\<close> A loop over the answers of the system is a partial function whose
  \<open>None\<close> is a call that never returns (\<open>read_loop\<close>, \<open>step_on\<close>,
  \<open>eval_loop\<close>, \<open>kmp_loop\<close>, flattening of prototypes, the server's loops); theorems about them say whether
  they return or speak of the runs that do. Recursion on nesting is bounded by the code's own recursion
  guard. The decoder of JSON and the other scanners recurse on the bytes that are left, one more than which is enough
  (\<open>json_decode_total\<close>).

  \<^bold>\<open>Bounds.\<close> Tables are proved up to 2^29 entries, beyond which the sizes of the code
  overflow (\<open>table_size\<close>); structs and the table of symbols likewise; arrays and buffers up to INT32_MAX elements;
  the queues of the event loop up to the limit of the code, 2^27 elements.

  \<^bold>\<open>Not modelled.\<close> The rest of the interpreter (compiler but for its registers and
  bytecode passes, virtual machine, collector, threads and streams of the event loop, parser), which is vendored; the wrappers of cairo, IUP and curl, which SWIG
  generates; \<^verbatim>\<open>webview\<close>, which only calls the window system; weak tables,
  \<open>buffer/format\<close> and \<open>string/format\<close>; structs as keys or values of other containers,
  and abstract types with a comparison of their own; the garbage collector's view of
  memory and its accounting of pressure. Allocation is assumed to succeed unless a theorem says
  otherwise.
\<close>

end
